(* ===== verification/Prelude.thy ===== *)
theory Prelude
  imports Main "HOL-Library.Word"
begin

unbundle bit_operations_syntax

text \<open>
  Shared vocabulary of the development: the machine types of the i386 target, the outcome of a
  kernel operation (it returns, switches to another process, panics or loops for ever), and a
  byte-addressed memory with little-endian 32-bit accesses. The collection \<open>frame\<close> gathers the
  lemmas that say which parts of a state an operation leaves alone.
\<close>

section \<open>Machine types\<close>

text \<open>
  \<open>size_t\<close>, \<open>uint32_t\<close> and every pointer are 32 bits wide on the target, \<open>uint16_t\<close> and
  \<open>uint8_t\<close> have their own width. A C \<open>int\<close> that the code only stores and compares (a pid, a
  priority, a message) is an \<open>int\<close>.
\<close>

type_synonym u8 = "8 word"
type_synonym u16 = "16 word"
type_synonym u32 = "32 word"
type_synonym ptr = "32 word"

abbreviation (input) NULL :: ptr where
  "NULL \<equiv> 0"

text \<open>A C \<open>int\<close> survives a store in a 32-bit word.\<close>

lemma sint_word_of_int32:
  "- (2 ^ 31) \<le> v \<Longrightarrow> v < 2 ^ 31 \<Longrightarrow> sint (word_of_int v :: u32) = v"
  by (transfer, simp add: signed_take_bit_int_eq_self)

lemma unat_of_nat32: "n < 2 ^ 32 \<Longrightarrow> unat (of_nat n :: u32) = n"
  by (simp add: unat_of_nat take_bit_nat_eq_self)

lemma unat_lt32: "unat (x :: u32) < 2 ^ 32"
  using unsigned_less [of x, where 'a = nat] by simp

named_theorems frame "what an operation leaves unchanged"

text \<open>
  A counter that the code only moves inside known bounds is a \<open>nat\<close>; a subtraction that can go
  below zero is written with the wrap-around of \<open>size_t\<close>.
\<close>

definition sub32 :: "nat \<Rightarrow> nat \<Rightarrow> nat" where
  "sub32 a b = nat ((int a - int b) mod 2 ^ 32)"

lemma sub32_le [simp]: "b \<le> a \<Longrightarrow> a < 2 ^ 32 \<Longrightarrow> sub32 a b = a - b"
  by (simp add: sub32_def)

lemma sub32_wraps: "a < b \<Longrightarrow> b \<le> 2 ^ 32 \<Longrightarrow> sub32 a b = 2 ^ 32 + a - b"
proof -
  assume h: "a < b" "b \<le> 2 ^ 32"
  have "(int a - int b) mod 2 ^ 32 = (int a - int b + 2 ^ 32) mod 2 ^ 32" by simp
  also have "\<dots> = int a - int b + 2 ^ 32" using h by (intro mod_pos_pos_trivial) auto
  finally show ?thesis using h by (simp add: sub32_def)
qed

section \<open>Outcomes of kernel operations\<close>

text \<open>
  \<open>Done v s\<close>: the C function returned \<open>v\<close> to its caller in state \<open>s\<close>.
  \<open>Switched s\<close>: the call ended in a context switch to another process. The rest of the call
  is a value stored with the process that was switched out, and runs when that process is
  chosen again.
  \<open>Panic msg\<close>: \<open>panic()\<close> or a failed \<open>assert()\<close>, which stop the machine.
  \<open>Hang\<close>: a loop that never ends, with interrupts disabled.
\<close>

datatype ('s, 'a) outcome = Done 'a 's | Switched 's | Panic string | Hang

primrec bindK :: "('s, 'a) outcome \<Rightarrow> ('a \<Rightarrow> 's \<Rightarrow> ('s, 'b) outcome) \<Rightarrow> ('s, 'b) outcome" where
  "bindK (Done v s) f = f v s"
| "bindK (Switched s) f = Switched s"
| "bindK (Panic e) f = Panic e"
| "bindK Hang f = Hang"

primrec outcome_state :: "('s, 'a) outcome \<Rightarrow> 's option" where
  "outcome_state (Done v s) = Some s"
| "outcome_state (Switched s) = Some s"
| "outcome_state (Panic e) = None"
| "outcome_state Hang = None"

text \<open>A loop is a partial function; where it does not end, the operation hangs.\<close>

definition or_hang :: "('s, 'a) outcome option \<Rightarrow> ('s, 'a) outcome" where
  "or_hang r = (case r of None \<Rightarrow> Hang | Some x \<Rightarrow> x)"

lemma or_hang_simps [simp]: "or_hang None = Hang" "or_hang (Some x) = x"
  by (simp_all add: or_hang_def)

lemma bindK_Done_iff: "bindK m f = Done v s \<longleftrightarrow> (\<exists>a s1. m = Done a s1 \<and> f a s1 = Done v s)"
  by (cases m) auto

lemma bindK_Switched_iff:
  "bindK m f = Switched s \<longleftrightarrow> m = Switched s \<or> (\<exists>a s1. m = Done a s1 \<and> f a s1 = Switched s)"
  by (cases m) auto

lemma bindK_assoc: "bindK (bindK m f) g = bindK m (\<lambda>a s. bindK (f a s) g)"
  by (cases m) simp_all

section \<open>Byte memory\<close>

type_synonym bmem = "ptr \<Rightarrow> u8"

definition load32 :: "bmem \<Rightarrow> ptr \<Rightarrow> u32" where
  "load32 m a = ucast (m a) OR push_bit 8 (ucast (m (a + 1)))
     OR push_bit 16 (ucast (m (a + 2))) OR push_bit 24 (ucast (m (a + 3)))"

definition store32 :: "bmem \<Rightarrow> ptr \<Rightarrow> u32 \<Rightarrow> bmem" where
  "store32 m a v = m(a := ucast v, a + 1 := ucast (drop_bit 8 v),
     a + 2 := ucast (drop_bit 16 v), a + 3 := ucast (drop_bit 24 v))"

lemma bytes_of_word32:
  fixes v :: u32
  shows "ucast (ucast v :: u8) OR push_bit 8 (ucast (ucast (drop_bit 8 v) :: u8))
     OR push_bit 16 (ucast (ucast (drop_bit 16 v) :: u8))
     OR push_bit 24 (ucast (ucast (drop_bit 24 v) :: u8)) = v"
proof (rule bit_word_eqI)
  fix n assume n: "n < LENGTH(32)"
  then consider "n < 8" | "8 \<le> n" "n < 16" | "16 \<le> n" "n < 24" | "24 \<le> n" "n < 32"
    by fastforce
  then show "bit (ucast (ucast v :: u8) OR push_bit 8 (ucast (ucast (drop_bit 8 v) :: u8))
     OR push_bit 16 (ucast (ucast (drop_bit 16 v) :: u8))
     OR push_bit 24 (ucast (ucast (drop_bit 24 v) :: u8)) :: u32) n = bit v n"
    by cases (auto simp: bit_or_iff bit_push_bit_iff bit_unsigned_iff bit_drop_bit_eq)
qed

lemma load32_store32_same [simp]: "load32 (store32 m a v) a = v"
  by (simp add: load32_def store32_def bytes_of_word32)

text \<open>Two words do not overlap when no byte of one is a byte of the other.\<close>

definition disjoint32 :: "ptr \<Rightarrow> ptr \<Rightarrow> bool" where
  "disjoint32 a b \<longleftrightarrow> (\<forall>i \<in> {0, 1, 2, 3}. \<forall>j \<in> {0, 1, 2, 3}. a + i \<noteq> b + j)"

lemma store32_other: "b \<notin> {a, a + 1, a + 2, a + 3} \<Longrightarrow> store32 m a v b = m b"
  by (simp add: store32_def)

lemma load32_store32_other [simp]:
  "disjoint32 a b \<Longrightarrow> load32 (store32 m a v) b = load32 m b"
  by (simp add: load32_def disjoint32_def store32_other eq_commute [of _ "b + _"]
        eq_commute [of _ b])

lemma disjoint32_sym: "disjoint32 a b \<longleftrightarrow> disjoint32 b a"
  by (auto simp: disjoint32_def)

end
