(* ===== verification/Links.thy ===== *)
theory Links
  imports Prelude
begin

text \<open>
  Linked lists in a store, over arbitrary link fields: a doubly linked segment, the circular list
  of the scheduler rings, the null-terminated doubly linked list of the message queues and the
  singly linked lists of the clock, the console and the children of a process. The link fields
  are functions from nodes to nodes, so the lemmas apply to any record that has them.
\<close>

section \<open>Segments\<close>

fun linked :: "('a \<Rightarrow> 'a) \<Rightarrow> ('a \<Rightarrow> 'a) \<Rightarrow> 'a list \<Rightarrow> bool" where
  "linked nx pv (a # b # xs) \<longleftrightarrow> nx a = b \<and> pv b = a \<and> linked nx pv (b # xs)"
| "linked nx pv xs \<longleftrightarrow> True"

lemma linked_append:
  "linked nx pv (xs @ a # ys) \<longleftrightarrow> linked nx pv (xs @ [a]) \<and> linked nx pv (a # ys)"
proof (induction xs)
  case (Cons x xs)
  then show ?case by (cases xs) auto
qed simp

lemma linked_snoc2:
  "linked nx pv (xs @ [a, b]) \<longleftrightarrow> linked nx pv (xs @ [a]) \<and> nx a = b \<and> pv b = a"
  using linked_append [of nx pv xs a "[b]"] by auto

lemma linked_Cons:
  "linked nx pv (a # xs) \<longleftrightarrow> xs = [] \<or> (nx a = hd xs \<and> pv (hd xs) = a \<and> linked nx pv xs)"
  by (cases xs) auto

text \<open>Only the \<open>next\<close> fields of all nodes but the last and the \<open>prev\<close> fields of all but
  the first matter.\<close>

lemma linked_cong:
  assumes "\<And>x. x \<in> set (butlast xs) \<Longrightarrow> nx' x = nx x"
    and "\<And>x. x \<in> set (tl xs) \<Longrightarrow> pv' x = pv x"
  shows "linked nx' pv' xs \<longleftrightarrow> linked nx pv xs"
  using assms
proof (induction xs rule: induct_list012)
  case (3 x y zs)
  have "linked nx' pv' (y # zs) \<longleftrightarrow> linked nx pv (y # zs)"
    using "3.prems" by (intro "3.IH"(2)) (auto dest: list.set_sel(2) split: if_splits)
  with "3.prems" show ?case by auto
qed simp_all

section \<open>Circular lists\<close>

definition circ :: "('a \<Rightarrow> 'a) \<Rightarrow> ('a \<Rightarrow> 'a) \<Rightarrow> 'a list \<Rightarrow> bool" where
  "circ nx pv xs \<longleftrightarrow> xs = [] \<or> linked nx pv (xs @ [hd xs])"

lemma circ_Nil [simp]: "circ nx pv []"
  by (simp add: circ_def)

lemma circ_single [simp]: "circ nx pv [x] \<longleftrightarrow> nx x = x \<and> pv x = x"
  by (auto simp: circ_def)

lemma circ_iff:
  assumes "xs \<noteq> []"
  shows "circ nx pv xs \<longleftrightarrow> linked nx pv xs \<and> nx (last xs) = hd xs \<and> pv (hd xs) = last xs"
proof -
  have e: "butlast xs @ [last xs, hd xs] = xs @ [hd xs]"
    using assms append_butlast_last_id [of xs] by (metis append_Cons append_Nil append_assoc)
  show ?thesis
    using assms linked_snoc2 [of nx pv "butlast xs" "last xs" "hd xs"] by (simp add: circ_def e)
qed

text \<open>A circular list may be read from any of its nodes.\<close>

lemma circ_rotate: "circ nx pv (as @ bs) \<longleftrightarrow> circ nx pv (bs @ as)"
proof (cases "as = [] \<or> bs = []")
  case False
  then obtain a as' b bs' where ab: "as = a # as'" "bs = b # bs'"
    by (meson neq_Nil_conv)
  have l: "linked nx pv (as @ bs @ [a]) \<longleftrightarrow>
      linked nx pv (as @ [b]) \<and> linked nx pv (bs @ [a])"
    using linked_append [of nx pv as b "bs' @ [a]"] by (simp add: ab)
  have r: "linked nx pv (bs @ as @ [b]) \<longleftrightarrow>
      linked nx pv (bs @ [a]) \<and> linked nx pv (as @ [b])"
    using linked_append [of nx pv bs a "as' @ [b]"] by (simp add: ab)
  from l r show ?thesis by (auto simp: circ_def ab)
qed auto

lemma circ_rotate1: "circ nx pv (x # xs) \<longleftrightarrow> circ nx pv (xs @ [x])"
  using circ_rotate [of nx pv "[x]" xs] by simp

lemma circ_next:
  assumes "circ nx pv (as @ p # bs)"
  shows "nx p = hd (bs @ as @ [p])" and "pv p = last (p # bs @ as)"
proof -
  have c: "circ nx pv (p # bs @ as)"
    using assms circ_rotate [of nx pv as "p # bs"] by simp
  then show "pv p = last (p # bs @ as)"
    by (simp add: circ_iff)
  show "nx p = hd (bs @ as @ [p])"
  proof (cases "bs @ as")
    case (Cons y ys)
    then have "hd (bs @ as @ [p]) = y" by (metis append_Cons append_assoc list.sel(1))
    with c Cons show ?thesis by (simp add: circ_def)
  qed (use c in simp)
qed

lemma circ_mem_next:
  assumes "circ nx pv xs" "p \<in> set xs"
  shows "nx p \<in> set xs" "pv p \<in> set xs"
proof -
  from assms(2) obtain as bs where xs: "xs = as @ p # bs" by (auto simp: in_set_conv_decomp)
  with assms(1) have "nx p = hd (bs @ as @ [p])" "pv p = last (p # bs @ as)"
    by (auto dest: circ_next)
  moreover have "hd (bs @ as @ [p]) \<in> set (bs @ as @ [p])" by (rule hd_in_set) simp
  moreover have "last (p # bs @ as) \<in> set (p # bs @ as)" by (rule last_in_set) simp
  ultimately show "nx p \<in> set xs" "pv p \<in> set xs" by (auto simp: xs)
qed

lemma circ_cong:
  assumes "\<And>x. x \<in> set xs \<Longrightarrow> nx' x = nx x" and "\<And>x. x \<in> set xs \<Longrightarrow> pv' x = pv x"
  shows "circ nx' pv' xs \<longleftrightarrow> circ nx pv xs"
proof (cases "xs = []")
  case False
  have "linked nx' pv' xs \<longleftrightarrow> linked nx pv xs"
    using assms by (intro linked_cong) (auto dest: in_set_butlastD list.set_sel(2) [OF False])
  with False assms show ?thesis by (simp add: circ_iff)
qed simp

text \<open>Linking a new node before the head, as the new head.\<close>

lemma circ_insert:
  assumes c: "circ nx pv xs" and ne: "xs \<noteq> []" and p: "p \<notin> set xs" and d: "distinct xs"
  shows "circ (nx(p := hd xs, pv (hd xs) := p)) (pv(p := pv (hd xs), hd xs := p)) (p # xs)"
proof -
  from c ne have l: "linked nx pv xs" and last: "pv (hd xs) = last xs"
    by (auto simp: circ_iff)
  from ne p have pn: "p \<noteq> last xs" "p \<noteq> hd xs" by auto
  have lx: "x \<noteq> last xs" if "x \<in> set (butlast xs)" for x
    using that d ne by (metis append_butlast_last_id distinct_append distinct.simps(2) disjoint_iff list.set_intros(1))
  have hx: "x \<noteq> hd xs" if "x \<in> set (tl xs)" for x
    using that d ne by (cases xs) auto
  have "linked (nx(p := hd xs, last xs := p)) (pv(p := last xs, hd xs := p)) xs"
    using l p lx hx
    by (subst linked_cong [where nx = nx and pv = pv])
       (auto dest: in_set_butlastD list.set_sel(2) [OF ne])
  with ne pn show ?thesis
    by (simp add: circ_iff last linked_Cons)
qed

text \<open>Unlinking a node: its neighbours are linked to each other.\<close>

lemma circ_remove_head:
  assumes c: "circ nx pv (p # xs)" and ne: "xs \<noteq> []" and d: "distinct (p # xs)"
  shows "circ (nx(pv p := nx p)) (pv(nx p := pv p)) xs"
proof -
  from c have l: "linked nx pv (p # xs)" and last: "pv p = last xs"
    using ne by (auto simp: circ_iff)
  from l ne have hd: "nx p = hd xs" and l': "linked nx pv xs" by (auto simp: linked_Cons)
  have lx: "x \<noteq> last xs" if "x \<in> set (butlast xs)" for x
    using that d ne by (metis append_butlast_last_id distinct_append distinct.simps(2) disjoint_iff list.set_intros(1))
  have hx: "x \<noteq> hd xs" if "x \<in> set (tl xs)" for x
    using that d ne by (cases xs) auto
  have "linked (nx(last xs := hd xs)) (pv(hd xs := last xs)) xs"
    using l' lx hx by (subst linked_cong [where nx = nx and pv = pv]) auto
  with ne show ?thesis by (simp add: circ_iff last hd)
qed

lemma circ_remove:
  assumes c: "circ nx pv (as @ p # bs)" and ne: "as @ bs \<noteq> []" and d: "distinct (as @ p # bs)"
  shows "circ (nx(pv p := nx p)) (pv(nx p := pv p)) (as @ bs)"
proof -
  have "circ nx pv (p # bs @ as)"
    using c circ_rotate [of nx pv as "p # bs"] by simp
  then have "circ (nx(pv p := nx p)) (pv(nx p := pv p)) (bs @ as)"
    using ne d by (intro circ_remove_head) auto
  then show ?thesis by (subst circ_rotate)
qed

section \<open>Null-terminated lists\<close>

text \<open>Singly linked, from the pointer \<open>h\<close>.\<close>

primrec slist :: "(ptr \<Rightarrow> ptr) \<Rightarrow> ptr \<Rightarrow> ptr list \<Rightarrow> bool" where
  "slist nx h [] \<longleftrightarrow> h = NULL"
| "slist nx h (x # xs) \<longleftrightarrow> h = x \<and> x \<noteq> NULL \<and> slist nx (nx x) xs"

lemma slist_NULL [simp]: "slist nx NULL xs \<longleftrightarrow> xs = []"
  by (cases xs) auto

lemma slist_nonnull: "h \<noteq> NULL \<Longrightarrow> slist nx h xs \<longleftrightarrow> (\<exists>ys. xs = h # ys \<and> slist nx (nx h) ys)"
  by (cases xs) auto

lemma slist_no_NULL: "slist nx h xs \<Longrightarrow> NULL \<notin> set xs"
  by (induction xs arbitrary: h) auto

lemma slist_unique: "slist nx h xs \<Longrightarrow> slist nx h ys \<Longrightarrow> xs = ys"
proof (induction xs arbitrary: h ys)
  case (Cons x xs)
  then show ?case by (cases ys) auto
qed auto

lemma slist_append: "slist nx h (xs @ ys) \<Longrightarrow> \<exists>h'. slist nx h' ys"
  by (induction xs arbitrary: h) auto

lemma slist_distinct: "slist nx h xs \<Longrightarrow> distinct xs"
proof (induction xs arbitrary: h)
  case (Cons x xs)
  have "x \<notin> set xs"
  proof
    assume "x \<in> set xs"
    then obtain as bs where xs: "xs = as @ x # bs" by (auto simp: in_set_conv_decomp)
    from Cons.prems have "slist nx (nx x) xs" by simp
    then obtain h' where "slist nx h' (x # bs)" using xs slist_append by blast
    with Cons.prems have "slist nx (nx x) bs" by simp
    with \<open>slist nx (nx x) xs\<close> have "xs = bs" by (rule slist_unique)
    with xs show False by simp
  qed
  with Cons show ?case by auto
qed simp

lemma slist_cong: "(\<And>x. x \<in> set xs \<Longrightarrow> nx' x = nx x) \<Longrightarrow> slist nx' h xs \<longleftrightarrow> slist nx h xs"
  by (induction xs arbitrary: h) auto

lemma slist_upd [simp]: "p \<notin> set xs \<Longrightarrow> slist (nx(p := q)) h xs \<longleftrightarrow> slist nx h xs"
  by (rule slist_cong) auto

text \<open>Doubly linked, from the head pointer \<open>h\<close>; the first node has no predecessor.\<close>

definition dlist :: "(ptr \<Rightarrow> ptr) \<Rightarrow> (ptr \<Rightarrow> ptr) \<Rightarrow> ptr \<Rightarrow> ptr list \<Rightarrow> bool" where
  "dlist nx pv h xs \<longleftrightarrow> slist nx h xs \<and> linked nx pv xs \<and> (xs \<noteq> [] \<longrightarrow> pv h = NULL)"

lemma dlist_Nil [simp]: "dlist nx pv h [] \<longleftrightarrow> h = NULL"
  by (simp add: dlist_def)

lemma dlist_slist: "dlist nx pv h xs \<Longrightarrow> slist nx h xs"
  by (simp add: dlist_def)

lemma dlist_cong:
  assumes "\<And>x. x \<in> set xs \<Longrightarrow> nx' x = nx x" and "\<And>x. x \<in> set xs \<Longrightarrow> pv' x = pv x"
  shows "dlist nx' pv' h xs \<longleftrightarrow> dlist nx pv h xs"
proof (cases xs)
  case (Cons x ys)
  have "linked nx' pv' xs \<longleftrightarrow> linked nx pv xs"
    using assms by (intro linked_cong) (auto dest: in_set_butlastD simp: Cons split: if_splits)
  moreover have "slist nx' h xs \<longleftrightarrow> slist nx h xs" by (rule slist_cong) (rule assms)
  moreover have "h = x \<Longrightarrow> pv' h = pv h" using assms(2) by (simp add: Cons)
  ultimately show ?thesis by (auto simp: dlist_def Cons)
qed simp

lemma dlist_push:
  assumes "dlist nx pv h xs" "p \<noteq> NULL" "p \<notin> set xs"
  shows "dlist (nx(p := h)) (if h = NULL then pv(p := NULL) else pv(p := NULL, h := p)) p (p # xs)"
proof (cases xs)
  case Nil
  then show ?thesis using assms by (simp add: dlist_def)
next
  case (Cons x ys)
  with assms have h: "h = x" "x \<noteq> NULL" by (auto simp: dlist_def)
  have d: "distinct xs" using assms(1) by (auto simp: dlist_def intro: slist_distinct)
  have "linked (nx(p := h)) (pv(p := NULL, h := p)) xs \<longleftrightarrow> linked nx pv xs"
    using assms(3) d by (intro linked_cong) (auto simp: Cons h dest: in_set_butlastD split: if_splits)
  with assms h Cons show ?thesis by (auto simp: dlist_def)
qed

text \<open>Unlinking the first node, and a node that has a predecessor.\<close>

lemma dlist_hd: "dlist nx pv h xs \<Longrightarrow> h = (if xs = [] then NULL else hd xs)"
  by (cases xs) (auto simp: dlist_def)

lemma dlist_distinct: "dlist nx pv h xs \<Longrightarrow> distinct xs"
  by (auto dest: dlist_slist slist_distinct)

lemma dlist_no_NULL: "dlist nx pv h xs \<Longrightarrow> NULL \<notin> set xs"
  by (auto dest: dlist_slist slist_no_NULL)

lemma dlist_neighbours:
  assumes "dlist nx pv h (as @ p # bs)"
  shows "nx p = (if bs = [] then NULL else hd bs)" "pv p = (if as = [] then NULL else last as)"
proof -
  from assms have l: "linked nx pv (as @ p # bs)" and s: "slist nx h (as @ p # bs)" by (auto simp: dlist_def)
  from s obtain h' where "slist nx h' (p # bs)" using slist_append by blast
  then have "slist nx (nx p) bs" by simp
  then show "nx p = (if bs = [] then NULL else hd bs)" by (cases bs) auto
  show "pv p = (if as = [] then NULL else last as)"
  proof (cases as rule: rev_cases)
    case Nil
    then show ?thesis using assms by (auto simp: dlist_def)
  next
    case (snoc as' a)
    then show ?thesis using l linked_append [of nx pv as' a "p # bs"] by simp
  qed
qed

lemma dlist_remove_head:
  assumes "dlist nx pv h (p # bs)"
  shows "dlist nx (if nx p = NULL then pv else pv(nx p := NULL)) (nx p) bs"
proof (cases bs)
  case (Cons b bs')
  from assms have s: "slist nx (nx p) bs" and l: "linked nx pv (p # bs)" by (auto simp: dlist_def)
  have d: "distinct bs" using s by (rule slist_distinct)
  have "linked nx (pv(b := NULL)) bs \<longleftrightarrow> linked nx pv bs"
    using d by (intro linked_cong) (auto simp: Cons split: if_splits)
  with s l show ?thesis by (auto simp: dlist_def Cons)
qed (use assms in \<open>auto simp: dlist_def\<close>)

lemma slist_remove:
  "\<lbrakk>slist nx h (as @ p # bs); as \<noteq> []; distinct (as @ p # bs)\<rbrakk>
    \<Longrightarrow> slist (nx(last as := nx p)) h (as @ bs)"
proof (induction as arbitrary: h)
  case (Cons a as)
  show ?case
  proof (cases "as = []")
    case True
    with Cons.prems have "h = a" "nx a = p" "a \<noteq> NULL" "slist nx (nx p) bs" "a \<notin> set bs" by auto
    then have "h = a" "slist (nx(a := nx p)) (nx p) bs" "a \<noteq> NULL" by (simp_all only: slist_upd not_False_eq_True)
    then have "slist (nx(a := nx p)) h (a # bs)"
      by (simp only: slist.simps fun_upd_same simp_thms not_False_eq_True)
    then show ?thesis by (simp only: True append.simps last.simps simp_thms if_True)
  next
    case False
    with Cons.prems have "last as \<noteq> a" by auto
    with False Cons show ?thesis by simp
  qed
qed simp

lemma dlist_remove_inner:
  assumes dl: "dlist nx pv h (as @ p # bs)" and ne: "as \<noteq> []"
  shows "dlist (nx(pv p := nx p)) (if nx p = NULL then pv else pv(nx p := pv p)) h (as @ bs)"
proof -
  note n = dlist_neighbours [OF dl] and d = dlist_distinct [OF dl]
  from dl have s: "slist nx h (as @ p # bs)" and l: "linked nx pv (as @ p # bs)" and h0: "pv h = NULL"
    by (auto simp: dlist_def)
  have pl: "pv p = last as" using n ne by simp
  have hl: "h = hd as" "h \<in> set as" using s ne by (cases as; simp)+
  have s': "slist (nx(pv p := nx p)) h (as @ bs)" using slist_remove [OF s ne d] pl by simp
  obtain as' a where as: "as = as' @ [a]" using ne by (cases as rule: rev_cases) auto
  have l1: "linked nx pv (as' @ [a])"
    using l linked_append [of nx pv as' a "p # bs"] by (simp add: as)
  show ?thesis
  proof (cases bs)
    case Nil
    have "linked (nx(a := NULL)) pv (as' @ [a])"
      using l1 d by (subst linked_cong [where nx = nx and pv = pv]) (auto simp: as)
    then show ?thesis using s' n h0 ne by (simp add: dlist_def Nil as pl)
  next
    case (Cons b bs')
    have np: "nx p = b" using n Cons by simp
    have l2: "linked nx pv (b # bs')"
      using l linked_append [of nx pv "as @ [p]" b bs'] by (simp add: Cons)
    have b: "b \<noteq> NULL" using dlist_no_NULL [OF dl] by (auto simp: Cons)
    have "linked (nx(a := b)) (pv(b := a)) (as' @ [a])"
      using l1 d by (subst linked_cong [where nx = nx and pv = pv])
        (auto simp: as Cons dest: in_set_butlastD list.set_sel(2) [rotated])
    moreover have "linked (nx(a := b)) (pv(b := a)) (b # bs')"
      using l2 d by (subst linked_cong [where nx = nx and pv = pv])
        (auto simp: as Cons dest: in_set_butlastD split: if_splits)
    ultimately have "linked (nx(a := b)) (pv(b := a)) (as' @ a # b # bs')"
      using linked_append [of "nx(a := b)" "pv(b := a)" as' a "b # bs'"] by simp
    then show ?thesis
      using s' np b h0 hl d by (auto simp: dlist_def Cons as pl)
  qed
qed

end
