(* ===== verification/Pool.thy ===== *)
theory Pool
  imports Prelude
begin

text \<open>
  The generic identifier pool of \<^verbatim>\<open>kernel/include/pool.h\<close>, which numbers the processes and the
  message queues. New identifiers are handed out in order until the capacity is reached; only
  then are the freed ones reused, last freed first. A pointer to a slot is the index of the slot,
  \<open>None\<close> for the null pointer. The locale \<open>id_allocator\<close> is what the two clients rely on, and
  \<open>id_pool_alloc\<close>, \<open>id_pool_free\<close> and \<open>id_pool_empty\<close> are shown to provide it.
\<close>

section \<open>Data and operations\<close>

record id_pool_slot =
  slot_id :: int
  slot_next :: "nat option"

record id_pool =
  next_id :: u32
  counter :: u32
  free :: "nat option"
  slots :: "id_pool_slot list"

definition id_pool_cap :: "id_pool \<Rightarrow> nat" where
  "id_pool_cap var = length (slots var)"

definition id_pool_empty :: "id_pool \<Rightarrow> bool" where
  "id_pool_empty var \<longleftrightarrow> unat (counter var) \<ge> id_pool_cap var"

definition id_pool_pop_free :: "id_pool \<Rightarrow> int \<times> id_pool" where
  "id_pool_pop_free var = (case free var of
     None \<Rightarrow> (-1, var)
   | Some slot \<Rightarrow> (slot_id (slots var ! slot),
       var\<lparr>counter := counter var + 1, free := slot_next (slots var ! slot)\<rparr>))"

definition id_pool_pop_new :: "id_pool \<Rightarrow> nat \<Rightarrow> int \<times> id_pool" where
  "id_pool_pop_new var n = (int n,
     var\<lparr>counter := counter var + 1,
         slots := (slots var)[n := (slots var ! n)\<lparr>slot_id := int n\<rparr>]\<rparr>)"

definition id_pool_push_free :: "id_pool \<Rightarrow> nat \<Rightarrow> id_pool" where
  "id_pool_push_free var slot =
     var\<lparr>slots := (slots var)[slot := (slots var ! slot)\<lparr>slot_next := free var\<rparr>],
         free := Some slot, counter := counter var - 1\<rparr>"

definition id_pool_alloc :: "id_pool \<Rightarrow> int \<times> id_pool" where
  "id_pool_alloc var =
     (if unat (next_id var) \<ge> id_pool_cap var then id_pool_pop_free var
      else id_pool_pop_new (var\<lparr>next_id := next_id var + 1\<rparr>) (unat (next_id var)))"

definition id_pool_free :: "id_pool \<Rightarrow> int \<Rightarrow> id_pool" where
  "id_pool_free var n = id_pool_push_free var (nat n)"

text \<open>A pool as the loader leaves it: \<open>id_pool_t(cap) pool = { 0 }\<close>.\<close>

definition id_pool_zero :: "nat \<Rightarrow> id_pool" where
  "id_pool_zero cap = \<lparr>next_id = 0, counter = 0, free = None,
     slots = replicate cap \<lparr>slot_id = 0, slot_next = None\<rparr>\<rparr>"

section \<open>The free list and the pool invariant\<close>

primrec free_chain :: "id_pool_slot list \<Rightarrow> nat option \<Rightarrow> nat list \<Rightarrow> bool" where
  "free_chain sl h [] \<longleftrightarrow> h = None"
| "free_chain sl h (i # is) \<longleftrightarrow> h = Some i \<and> i < length sl \<and> free_chain sl (slot_next (sl ! i)) is"

lemma free_chain_upd:
  "i \<notin> set is \<Longrightarrow> free_chain (sl[i := x]) h is \<longleftrightarrow> free_chain sl h is"
  by (induction "is" arbitrary: h) auto

lemma free_chain_bound: "free_chain sl h is \<Longrightarrow> i \<in> set is \<Longrightarrow> i < length sl"
  by (induction "is" arbitrary: h) auto

text \<open>
  \<open>pool_ids var U\<close>: the identifiers in use are exactly \<open>U\<close>. Every identifier below \<open>next_id\<close>
  is in use or on the free list, never both, and \<open>counter\<close> counts the ones in use.
\<close>

definition pool_ids :: "id_pool \<Rightarrow> int set \<Rightarrow> bool" where
  "pool_ids var U \<longleftrightarrow>
     id_pool_cap var < 2 ^ 31 \<and> unat (next_id var) \<le> id_pool_cap var \<and>
     unat (counter var) = card U \<and>
     (\<forall>i < unat (next_id var). slot_id (slots var ! i) = int i) \<and>
     (\<exists>fl. free_chain (slots var) (free var) fl \<and> distinct fl \<and> U \<inter> int ` set fl = {} \<and>
        U \<union> int ` set fl = int ` {..<unat (next_id var)})"

lemma pool_ids_range: "pool_ids var U \<Longrightarrow> U \<subseteq> int ` {..<id_pool_cap var}"
proof -
  assume p: "pool_ids var U"
  then obtain fl where fl: "U \<union> int ` set fl = int ` {..<unat (next_id var)}"
    by (auto simp: pool_ids_def)
  have "U \<subseteq> int ` {..<unat (next_id var)}" by (subst fl [symmetric]) simp
  also have "\<dots> \<subseteq> int ` {..<id_pool_cap var}" using p by (intro image_mono) (simp add: pool_ids_def)
  finally show ?thesis .
qed

lemma pool_ids_finite: "pool_ids var U \<Longrightarrow> finite U"
  by (meson pool_ids_range finite_imageI finite_lessThan finite_subset)

lemma pool_ids_zero: "cap < 2 ^ 31 \<Longrightarrow> pool_ids (id_pool_zero cap) {}"
  by (simp add: pool_ids_def id_pool_zero_def id_pool_cap_def) 

lemma pool_ids_card: "pool_ids var U \<Longrightarrow> card U \<le> id_pool_cap var"
  using card_mono [OF _ pool_ids_range [of var U]] by (simp add: card_image)

lemma pool_full: "pool_ids var U \<Longrightarrow> id_pool_empty var \<longleftrightarrow> card U = id_pool_cap var"
  using pool_ids_card [of var U] by (auto simp: id_pool_empty_def pool_ids_def)

lemma unat_Suc_cap: "unat (x :: u32) < c \<Longrightarrow> c < 2 ^ 31 \<Longrightarrow> unat (x + 1) = Suc (unat x)"
  by (simp add: unat_word_ariths)

lemma pool_alloc_new:
  assumes p: "pool_ids var U" and lt: "unat (next_id var) < id_pool_cap var"
    and a: "id_pool_alloc var = (i, var')"
  shows "i \<notin> U \<and> pool_ids var' (insert i U)"
proof -
  define n where "n = unat (next_id var)"
  from p obtain fl where fl: "free_chain (slots var) (free var) fl" "distinct fl"
      "U \<inter> int ` set fl = {}" "U \<union> int ` set fl = int ` {..<n}"
    by (auto simp: pool_ids_def n_def)
  have i: "i = int n" and v: "var' = var\<lparr>next_id := next_id var + 1, counter := counter var + 1,
      slots := (slots var)[n := (slots var ! n)\<lparr>slot_id := int n\<rparr>]\<rparr>"
    using a lt by (auto simp: id_pool_alloc_def id_pool_pop_new_def n_def)
  have new: "int n \<notin> U \<union> int ` set fl" by (subst fl(4)) auto
  then have nfl: "n \<notin> set fl" by auto
  have card: "card (insert i U) = Suc (card U)"
    using new pool_ids_finite [OF p] by (simp add: i)
  have "U \<subseteq> int ` {..<n}" using fl(4) by auto
  from card_mono [OF _ this] have "card U \<le> n" by (simp add: card_image)
  with lt p have c: "unat (counter var) < id_pool_cap var" by (simp add: pool_ids_def n_def)
  have cap: "id_pool_cap var < 2 ^ 31" using p by (simp add: pool_ids_def)
  have sN: "unat (next_id var + 1) = Suc n" "unat (counter var + 1) = Suc (unat (counter var))"
    using unat_Suc_cap [OF lt cap] unat_Suc_cap [OF c cap] by (auto simp: n_def)
  have len: "length (slots var') = length (slots var)" by (simp add: v)
  have un: "insert i U \<union> int ` set fl = int ` {..<Suc n}"
    using fl(4) i by (simp add: lessThan_Suc)
  have ch: "free_chain (slots var') (free var') fl"
    using fl(1) nfl by (simp add: v free_chain_upd)
  have ids: "\<forall>j < Suc n. slot_id (slots var' ! j) = int j"
    using p lt by (auto simp: pool_ids_def v n_def [symmetric] nth_list_update less_Suc_eq id_pool_cap_def)
  have "pool_ids var' (insert i U)"
    unfolding pool_ids_def
  proof (intro conjI exI [of _ fl])
    show "id_pool_cap var' < 2 ^ 31" using cap len by (simp add: id_pool_cap_def)
    show "unat (next_id var') \<le> id_pool_cap var'"
      using lt len sN by (simp add: id_pool_cap_def v n_def [symmetric])
    show "unat (counter var') = card (insert i U)"
      using card sN p by (simp add: v pool_ids_def)
    show "\<forall>j < unat (next_id var'). slot_id (slots var' ! j) = int j"
      using ids sN by (simp add: v)
    show "insert i U \<union> int ` set fl = int ` {..<unat (next_id var')}"
      using un sN by (simp add: v)
    show "insert i U \<inter> int ` set fl = {}" using fl(3) new by (auto simp: i)
  qed (use ch fl(2) in auto)
  with new i show ?thesis by simp
qed

lemma pool_alloc_reuse:
  assumes p: "pool_ids var U" and ge: "id_pool_cap var \<le> unat (next_id var)"
    and ne: "\<not> id_pool_empty var" and a: "id_pool_alloc var = (i, var')"
  shows "i \<notin> U \<and> pool_ids var' (insert i U)"
proof -
  define n where "n = unat (next_id var)"
  from p have n: "n = id_pool_cap var" using ge by (simp add: pool_ids_def n_def)
  from p obtain fl where fl: "free_chain (slots var) (free var) fl" "distinct fl"
      "U \<inter> int ` set fl = {}" "U \<union> int ` set fl = int ` {..<n}"
    by (auto simp: pool_ids_def n_def)
  have "fl \<noteq> []"
  proof
    assume "fl = []"
    with fl(4) have "card U = n" by (simp add: card_image)
    with ne p n show False by (simp add: pool_full)
  qed
  then obtain j rest where jr: "fl = j # rest" by (cases fl) auto
  then have "int j \<in> U \<union> int ` set fl" by simp
  then have j: "j < n" by (subst (asm) fl(4)) auto
  then have idj: "slot_id (slots var ! j) = int j"
    using p by (simp add: pool_ids_def n_def)
  have i: "i = int j" and v: "var' = var\<lparr>counter := counter var + 1,
      free := slot_next (slots var ! j)\<rparr>"
    using a ge fl(1) idj by (auto simp: id_pool_alloc_def id_pool_pop_free_def jr)
  have new: "i \<notin> U" using fl(3) by (auto simp: i jr)
  have card: "card (insert i U) = Suc (card U)"
    using new pool_ids_finite [OF p] by simp
  have c: "unat (counter var) < id_pool_cap var"
    using ne by (simp add: id_pool_empty_def)
  have cap: "id_pool_cap var < 2 ^ 31" using p by (simp add: pool_ids_def)
  have "pool_ids var' (insert i U)"
    unfolding pool_ids_def
  proof (intro conjI exI [of _ rest])
    show "unat (counter var') = card (insert i U)"
      using card p unat_Suc_cap [OF c cap] by (simp add: v pool_ids_def)
    show "insert i U \<union> int ` set rest = int ` {..<unat (next_id var')}"
      using fl(4) by (simp add: v i jr n_def)
    show "insert i U \<inter> int ` set rest = {}" using fl(2,3) by (auto simp: i jr)
  qed (use p fl jr in \<open>auto simp: v pool_ids_def id_pool_cap_def\<close>)
  with new show ?thesis by simp
qed

lemma pool_alloc:
  assumes "pool_ids var U" and "\<not> id_pool_empty var" and "id_pool_alloc var = (i, var')"
  shows "i \<notin> U \<and> pool_ids var' (insert i U)"
  using pool_alloc_new [OF assms(1) _ assms(3)] pool_alloc_reuse [OF assms(1) _ assms(2,3)]
  by (meson not_le)

lemma pool_free:
  assumes p: "pool_ids var U" and i: "i \<in> U"
  shows "pool_ids (id_pool_free var i) (U - {i})"
proof -
  define n where "n = unat (next_id var)"
  from p obtain fl where fl: "free_chain (slots var) (free var) fl" "distinct fl"
      "U \<inter> int ` set fl = {}" "U \<union> int ` set fl = int ` {..<n}"
    by (auto simp: pool_ids_def n_def)
  from i fl(4) obtain j where j: "i = int j" "j < n" by auto
  have jl: "j < length (slots var)"
    using p j by (simp add: pool_ids_def n_def id_pool_cap_def)
  have jfl: "j \<notin> set fl" using fl(3) i j by auto
  have card: "card (U - {i}) = card U - 1" "0 < card U"
    using i pool_ids_finite [OF p] by (auto simp: card_gt_0_iff)
  have "unat (counter var) = card U" using p by (simp add: pool_ids_def)
  with card have c: "unat (counter var - 1) = card U - 1"
    by (metis One_nat_def gr0_conv_Suc unat_minus_one unat_0 not_less0)
  show ?thesis
    unfolding pool_ids_def
  proof (intro conjI exI [of _ "j # fl"])
    show "unat (counter (id_pool_free var i)) = card (U - {i})"
      using card c by (simp add: id_pool_free_def id_pool_push_free_def)
    show "free_chain (slots (id_pool_free var i)) (free (id_pool_free var i)) (j # fl)"
      using fl(1) jl jfl by (simp add: id_pool_free_def id_pool_push_free_def j free_chain_upd)
    show "U - {i} \<union> int ` set (j # fl) = int ` {..<unat (next_id (id_pool_free var i))}"
      using fl(4) i j by (auto simp: id_pool_free_def id_pool_push_free_def n_def)
    show "\<forall>k < unat (next_id (id_pool_free var i)). slot_id (slots (id_pool_free var i) ! k) = int k"
      using p j jl
      by (auto simp: id_pool_free_def id_pool_push_free_def pool_ids_def nth_list_update)
    show "(U - {i}) \<inter> int ` set (j # fl) = {}" using fl(3) j by auto
  qed (use p fl jfl in \<open>auto simp: id_pool_free_def id_pool_push_free_def pool_ids_def id_pool_cap_def\<close>)
qed

section \<open>The interface the clients use\<close>

text \<open>
  A client keeps a table from identifiers to pointers beside its pool
  (\<open>process_pool\<close>, \<open>queue_pool\<close>): it fills the entry of the identifier it was given and
  clears the entry of the one it frees. \<open>table_ids\<close> says that the non-null entries are the
  identifiers in use.
\<close>

definition table_ids :: "(int \<Rightarrow> ptr) \<Rightarrow> int set \<Rightarrow> bool" where
  "table_ids tab U \<longleftrightarrow> (\<forall>i. tab i \<noteq> NULL \<longleftrightarrow> i \<in> U)"

locale id_allocator =
  fixes alloc :: "'p \<Rightarrow> int \<times> 'p"
    and release :: "'p \<Rightarrow> int \<Rightarrow> 'p"
    and full :: "'p \<Rightarrow> bool"
    and ids :: "'p \<Rightarrow> int set \<Rightarrow> bool"
  assumes alloc_ids: "ids p U \<Longrightarrow> \<not> full p \<Longrightarrow> alloc p = (i, p') \<Longrightarrow> i \<notin> U \<and> ids p' (insert i U)"
    and release_ids: "ids p U \<Longrightarrow> i \<in> U \<Longrightarrow> ids (release p i) (U - {i})"
begin

lemma table_alloc:
  assumes "ids p U" "table_ids tab U" "\<not> full p" "alloc p = (i, p')" "q \<noteq> NULL"
  shows "tab i = NULL" "ids p' (insert i U)" "table_ids (tab(i := q)) (insert i U)"
  using alloc_ids [OF assms(1,3,4)] assms(2,5) by (auto simp: table_ids_def)

lemma table_release:
  assumes "ids p U" "table_ids tab U" "tab i \<noteq> NULL"
  shows "ids (release p i) (U - {i})" "table_ids (tab(i := NULL)) (U - {i})"
  using release_ids [OF assms(1)] assms(2,3) by (auto simp: table_ids_def)

text \<open>An identifier that was just released is not in the table, and releasing what was just
  allocated gives back the same set.\<close>

lemma alloc_release:
  assumes "ids p U" "\<not> full p" "alloc p = (i, p')"
  shows "ids (release p' i) U"
proof -
  from alloc_ids [OF assms] have "i \<notin> U" "ids p' (insert i U)" by auto
  from release_ids [OF this(2), of i] this(1) show ?thesis by simp
qed

end

interpretation pid_pool: id_allocator id_pool_alloc id_pool_free id_pool_empty pool_ids
  by unfold_locales (auto dest: pool_alloc intro: pool_free)

end
