(* ===== verification/Cga.thy ===== *)
theory Cga
  imports Prelude
begin

text \<open>
  The text screen of \<^verbatim>\<open>kernel/peripheral/cga.c\<close>: 25 lines of 80 cells at 0xB8000, one 16-bit
  cell per character (character in the low byte, colours in the high one), and the position of
  the blinking cursor. \<open>cells i\<close> is the cell \<open>i\<close> places after 0xB8000. The two port writes of
  \<open>cga_set_cursor\<close> are recorded in \<open>cga_ports\<close>, most recent first.
\<close>

abbreviation (input) CGA_COLS :: nat where "CGA_COLS \<equiv> 80"
abbreviation (input) CGA_ROWS :: nat where "CGA_ROWS \<equiv> 25"

abbreviation (input) CGA_BLACK :: u8 where "CGA_BLACK \<equiv> 0"
abbreviation (input) CGA_WHITE :: u8 where "CGA_WHITE \<equiv> 15"

record cga =
  cells :: "nat \<Rightarrow> u16"
  cursor_line :: nat
  cursor_column :: nat
  cga_ports :: "(u16 \<times> u8) list"

definition char_pointer :: "nat \<Rightarrow> nat \<Rightarrow> nat" where
  "char_pointer line column = line * 80 + column"

definition cga_char :: "cga \<Rightarrow> nat \<Rightarrow> nat \<Rightarrow> u8 \<times> u8 \<times> u8" where
  "cga_char g line column =
     (let data = cells g (char_pointer line column) in
      (ucast (data AND 0xFF), ucast (drop_bit 8 data AND 15), ucast (drop_bit 12 data AND 7)))"

definition cga_set_char :: "nat \<Rightarrow> nat \<Rightarrow> u8 \<Rightarrow> u8 \<Rightarrow> u8 \<Rightarrow> cga \<Rightarrow> cga" where
  "cga_set_char line column ch fg bg g =
     g\<lparr>cells := (cells g)(char_pointer line column :=
        push_bit 8 (ucast (fg AND 15)) OR push_bit 12 (ucast (bg AND 7)) OR ucast ch)\<rparr>"

definition cga_cursor :: "cga \<Rightarrow> nat \<times> nat" where
  "cga_cursor g = (cursor_line g, cursor_column g)"

definition cga_set_cursor :: "nat \<Rightarrow> nat \<Rightarrow> cga \<Rightarrow> cga" where
  "cga_set_cursor line column g =
     (let index = of_nat (column + line * 80) :: u16 in
      g\<lparr>cursor_line := line, cursor_column := column,
        cga_ports := (0x03D5, ucast (drop_bit 8 index AND 0xFFFF)) # (0x03D4, 0x0E)
          # (0x03D5, ucast (index AND 0xFFFF)) # (0x03D4, 0x0F) # cga_ports g\<rparr>)"

definition cga_clear :: "cga \<Rightarrow> cga" where
  "cga_clear g = g\<lparr>cells := (\<lambda>i. if i < CGA_COLS * CGA_ROWS then 0x0F20 else cells g i)\<rparr>"

definition cga_scroll_down :: "cga \<Rightarrow> cga" where
  "cga_scroll_down g = g\<lparr>cells := (\<lambda>i. if i < 1920 then cells g (i + 80)
     else if i < 2000 then 0 else cells g i)\<rparr>"

text \<open>A written cell reads back, with the top bit of the background colour dropped.\<close>

lemma cga_cell_bits:
  fixes ch fg bg :: u8 and d :: u16
  assumes d: "d = push_bit 8 (ucast (fg AND 15)) OR push_bit 12 (ucast (bg AND 7)) OR ucast ch"
  shows "ucast (d AND 0xFF) = ch" and "(ucast (drop_bit 8 d AND 15) :: u8) = fg AND 15"
    and "(ucast (drop_bit 12 d AND 7) :: u8) = bg AND 7"
proof -
  have a8: "x AND 255 = take_bit 8 (x :: 'a::len word)" for x
    by (simp add: take_bit_eq_mask mask_eq_exp_minus_1)
  have a4: "x AND 15 = take_bit 4 (x :: 'a::len word)" for x
    by (simp add: take_bit_eq_mask mask_eq_exp_minus_1)
  have a3: "x AND 7 = take_bit 3 (x :: 'a::len word)" for x
    by (simp add: take_bit_eq_mask mask_eq_exp_minus_1)
  note bits = d a8 a4 a3 bit_take_bit_iff bit_or_iff bit_push_bit_iff bit_unsigned_iff
    bit_drop_bit_eq
  show "ucast (d AND 0xFF) = ch"
    unfolding d a8 a4 a3 by (rule bit_word_eqI) (auto simp: bits)
  show "(ucast (drop_bit 8 d AND 15) :: u8) = fg AND 15"
    unfolding d a8 a4 a3 by (rule bit_word_eqI) (auto simp: bits dest: bit_imp_le_length)
  show "(ucast (drop_bit 12 d AND 7) :: u8) = bg AND 7"
    unfolding d a8 a4 a3 by (rule bit_word_eqI) (auto simp: bits dest: bit_imp_le_length)
qed

lemma cga_set_char_roundtrip:
  "cga_char (cga_set_char line column ch fg bg g) line column = (ch, fg AND 15, bg AND 7)"
proof -
  have "cells (cga_set_char line column ch fg bg g) (char_pointer line column) =
      push_bit 8 (ucast (fg AND 15)) OR push_bit 12 (ucast (bg AND 7)) OR ucast ch"
    by (simp add: cga_set_char_def)
  from cga_cell_bits [OF this] show ?thesis
    by (simp only: cga_char_def Let_def)
qed

end
