(* ===== verification/Keyboard.thy ===== *)
theory Keyboard
  imports Prelude
begin

unbundle bit_operations_syntax

text \<open>
  The keyboard driver of \<^verbatim>\<open>kernel/peripheral/keyboard.c\<close>: the state machine over scan code
  set 2, the modifier keys, and the translation of printable keys through the layout tables. A
  call of one of the two registered callbacks is a value of type \<open>kbd_call\<close>; a read through the
  null layout pointer gives \<open>None\<close>.
\<close>

section \<open>Keys\<close>

text \<open>\<open>enum keyboard_key\<close>: the code compares keys and subtracts them, so a key is its number.\<close>

type_synonym keyboard_key = nat

abbreviation (input) K_UNKNOWN :: keyboard_key where "K_UNKNOWN \<equiv> 0"
abbreviation (input) K_SPACE :: keyboard_key where "K_SPACE \<equiv> 1"
abbreviation (input) K_BACK_TICK :: keyboard_key where "K_BACK_TICK \<equiv> 2"
abbreviation (input) K_COMMA :: keyboard_key where "K_COMMA \<equiv> 3"
abbreviation (input) K_PERIOD :: keyboard_key where "K_PERIOD \<equiv> 4"
abbreviation (input) K_SEMICOLON :: keyboard_key where "K_SEMICOLON \<equiv> 5"
abbreviation (input) K_SLASH :: keyboard_key where "K_SLASH \<equiv> 6"
abbreviation (input) K_BACKSLASH :: keyboard_key where "K_BACKSLASH \<equiv> 7"
abbreviation (input) K_APOSTROPHE :: keyboard_key where "K_APOSTROPHE \<equiv> 8"
abbreviation (input) K_EQUAL :: keyboard_key where "K_EQUAL \<equiv> 9"
abbreviation (input) K_PLUS :: keyboard_key where "K_PLUS \<equiv> 10"
abbreviation (input) K_DASH :: keyboard_key where "K_DASH \<equiv> 11"
abbreviation (input) K_MUL :: keyboard_key where "K_MUL \<equiv> 12"
abbreviation (input) K_OPEN_BRACKET :: keyboard_key where "K_OPEN_BRACKET \<equiv> 13"
abbreviation (input) K_CLOSE_BRACKET :: keyboard_key where "K_CLOSE_BRACKET \<equiv> 14"
abbreviation (input) K_0 :: keyboard_key where "K_0 \<equiv> 15"
abbreviation (input) K_1 :: keyboard_key where "K_1 \<equiv> 16"
abbreviation (input) K_2 :: keyboard_key where "K_2 \<equiv> 17"
abbreviation (input) K_3 :: keyboard_key where "K_3 \<equiv> 18"
abbreviation (input) K_4 :: keyboard_key where "K_4 \<equiv> 19"
abbreviation (input) K_5 :: keyboard_key where "K_5 \<equiv> 20"
abbreviation (input) K_6 :: keyboard_key where "K_6 \<equiv> 21"
abbreviation (input) K_7 :: keyboard_key where "K_7 \<equiv> 22"
abbreviation (input) K_8 :: keyboard_key where "K_8 \<equiv> 23"
abbreviation (input) K_9 :: keyboard_key where "K_9 \<equiv> 24"
abbreviation (input) K_A :: keyboard_key where "K_A \<equiv> 25"
abbreviation (input) K_B :: keyboard_key where "K_B \<equiv> 26"
abbreviation (input) K_C :: keyboard_key where "K_C \<equiv> 27"
abbreviation (input) K_D :: keyboard_key where "K_D \<equiv> 28"
abbreviation (input) K_E :: keyboard_key where "K_E \<equiv> 29"
abbreviation (input) K_F :: keyboard_key where "K_F \<equiv> 30"
abbreviation (input) K_G :: keyboard_key where "K_G \<equiv> 31"
abbreviation (input) K_H :: keyboard_key where "K_H \<equiv> 32"
abbreviation (input) K_I :: keyboard_key where "K_I \<equiv> 33"
abbreviation (input) K_J :: keyboard_key where "K_J \<equiv> 34"
abbreviation (input) K_K :: keyboard_key where "K_K \<equiv> 35"
abbreviation (input) K_L :: keyboard_key where "K_L \<equiv> 36"
abbreviation (input) K_M :: keyboard_key where "K_M \<equiv> 37"
abbreviation (input) K_N :: keyboard_key where "K_N \<equiv> 38"
abbreviation (input) K_O :: keyboard_key where "K_O \<equiv> 39"
abbreviation (input) K_P :: keyboard_key where "K_P \<equiv> 40"
abbreviation (input) K_Q :: keyboard_key where "K_Q \<equiv> 41"
abbreviation (input) K_R :: keyboard_key where "K_R \<equiv> 42"
abbreviation (input) K_S :: keyboard_key where "K_S \<equiv> 43"
abbreviation (input) K_T :: keyboard_key where "K_T \<equiv> 44"
abbreviation (input) K_U :: keyboard_key where "K_U \<equiv> 45"
abbreviation (input) K_V :: keyboard_key where "K_V \<equiv> 46"
abbreviation (input) K_W :: keyboard_key where "K_W \<equiv> 47"
abbreviation (input) K_X :: keyboard_key where "K_X \<equiv> 48"
abbreviation (input) K_Y :: keyboard_key where "K_Y \<equiv> 49"
abbreviation (input) K_Z :: keyboard_key where "K_Z \<equiv> 50"
abbreviation (input) K_KP_PERIOD :: keyboard_key where "K_KP_PERIOD \<equiv> 51"
abbreviation (input) K_KP_ADD :: keyboard_key where "K_KP_ADD \<equiv> 52"
abbreviation (input) K_KP_SUBTRACT :: keyboard_key where "K_KP_SUBTRACT \<equiv> 53"
abbreviation (input) K_KP_MULTIPLY :: keyboard_key where "K_KP_MULTIPLY \<equiv> 54"
abbreviation (input) K_KP_DIVIDE :: keyboard_key where "K_KP_DIVIDE \<equiv> 55"
abbreviation (input) K_KP_ENTER :: keyboard_key where "K_KP_ENTER \<equiv> 56"
abbreviation (input) K_KP_INSERT :: keyboard_key where "K_KP_INSERT \<equiv> 57"
abbreviation (input) K_KP_0 :: keyboard_key where "K_KP_0 \<equiv> 58"
abbreviation (input) K_KP_1 :: keyboard_key where "K_KP_1 \<equiv> 59"
abbreviation (input) K_KP_2 :: keyboard_key where "K_KP_2 \<equiv> 60"
abbreviation (input) K_KP_3 :: keyboard_key where "K_KP_3 \<equiv> 61"
abbreviation (input) K_KP_4 :: keyboard_key where "K_KP_4 \<equiv> 62"
abbreviation (input) K_KP_5 :: keyboard_key where "K_KP_5 \<equiv> 63"
abbreviation (input) K_KP_6 :: keyboard_key where "K_KP_6 \<equiv> 64"
abbreviation (input) K_KP_7 :: keyboard_key where "K_KP_7 \<equiv> 65"
abbreviation (input) K_KP_8 :: keyboard_key where "K_KP_8 \<equiv> 66"
abbreviation (input) K_KP_9 :: keyboard_key where "K_KP_9 \<equiv> 67"
abbreviation (input) K_ESCAPE :: keyboard_key where "K_ESCAPE \<equiv> 68"
abbreviation (input) K_TAB :: keyboard_key where "K_TAB \<equiv> 69"
abbreviation (input) K_ENTER :: keyboard_key where "K_ENTER \<equiv> 70"
abbreviation (input) K_BACKSPACE :: keyboard_key where "K_BACKSPACE \<equiv> 71"
abbreviation (input) K_DELETE :: keyboard_key where "K_DELETE \<equiv> 72"
abbreviation (input) K_INSERT :: keyboard_key where "K_INSERT \<equiv> 73"
abbreviation (input) K_END :: keyboard_key where "K_END \<equiv> 74"
abbreviation (input) K_HOME :: keyboard_key where "K_HOME \<equiv> 75"
abbreviation (input) K_CURSOR_UP :: keyboard_key where "K_CURSOR_UP \<equiv> 76"
abbreviation (input) K_CURSOR_DOWN :: keyboard_key where "K_CURSOR_DOWN \<equiv> 77"
abbreviation (input) K_CURSOR_RIGHT :: keyboard_key where "K_CURSOR_RIGHT \<equiv> 78"
abbreviation (input) K_CURSOR_LEFT :: keyboard_key where "K_CURSOR_LEFT \<equiv> 79"
abbreviation (input) K_PAGE_DOWN :: keyboard_key where "K_PAGE_DOWN \<equiv> 80"
abbreviation (input) K_PAGE_UP :: keyboard_key where "K_PAGE_UP \<equiv> 81"
abbreviation (input) K_LEFT_ALT :: keyboard_key where "K_LEFT_ALT \<equiv> 82"
abbreviation (input) K_RIGHT_ALT :: keyboard_key where "K_RIGHT_ALT \<equiv> 83"
abbreviation (input) K_LEFT_SHIFT :: keyboard_key where "K_LEFT_SHIFT \<equiv> 84"
abbreviation (input) K_RIGHT_SHIFT :: keyboard_key where "K_RIGHT_SHIFT \<equiv> 85"
abbreviation (input) K_LEFT_CTRL :: keyboard_key where "K_LEFT_CTRL \<equiv> 86"
abbreviation (input) K_RIGHT_CTRL :: keyboard_key where "K_RIGHT_CTRL \<equiv> 87"
abbreviation (input) K_LEFT_GUI :: keyboard_key where "K_LEFT_GUI \<equiv> 88"
abbreviation (input) K_RIGHT_GUI :: keyboard_key where "K_RIGHT_GUI \<equiv> 89"
abbreviation (input) K_CAPS_LOCK :: keyboard_key where "K_CAPS_LOCK \<equiv> 90"
abbreviation (input) K_NUM_LOCK :: keyboard_key where "K_NUM_LOCK \<equiv> 91"
abbreviation (input) K_SCROLL_LOCK :: keyboard_key where "K_SCROLL_LOCK \<equiv> 92"
abbreviation (input) K_PRINT_SCREEN :: keyboard_key where "K_PRINT_SCREEN \<equiv> 93"
abbreviation (input) K_CALCULATOR :: keyboard_key where "K_CALCULATOR \<equiv> 94"
abbreviation (input) K_APPS :: keyboard_key where "K_APPS \<equiv> 95"
abbreviation (input) K_MEDIA_SELECT :: keyboard_key where "K_MEDIA_SELECT \<equiv> 96"
abbreviation (input) K_PREVIOUS_TRACK :: keyboard_key where "K_PREVIOUS_TRACK \<equiv> 97"
abbreviation (input) K_NEXT_TRACK :: keyboard_key where "K_NEXT_TRACK \<equiv> 98"
abbreviation (input) K_PLAY_PAUSE :: keyboard_key where "K_PLAY_PAUSE \<equiv> 99"
abbreviation (input) K_STOP :: keyboard_key where "K_STOP \<equiv> 100"
abbreviation (input) K_VOLUME_MUTE :: keyboard_key where "K_VOLUME_MUTE \<equiv> 101"
abbreviation (input) K_VOLUME_DOWN :: keyboard_key where "K_VOLUME_DOWN \<equiv> 102"
abbreviation (input) K_VOLUME_UP :: keyboard_key where "K_VOLUME_UP \<equiv> 103"
abbreviation (input) K_WWW_SEARCH :: keyboard_key where "K_WWW_SEARCH \<equiv> 104"
abbreviation (input) K_WWW_HOME :: keyboard_key where "K_WWW_HOME \<equiv> 105"
abbreviation (input) K_WWW_FAVOURITES :: keyboard_key where "K_WWW_FAVOURITES \<equiv> 106"
abbreviation (input) K_WWW_REFRESH :: keyboard_key where "K_WWW_REFRESH \<equiv> 107"
abbreviation (input) K_WWW_STOP :: keyboard_key where "K_WWW_STOP \<equiv> 108"
abbreviation (input) K_WWW_FORWARD :: keyboard_key where "K_WWW_FORWARD \<equiv> 109"
abbreviation (input) K_WWW_BACK :: keyboard_key where "K_WWW_BACK \<equiv> 110"
abbreviation (input) K_MY_COMPUTER :: keyboard_key where "K_MY_COMPUTER \<equiv> 111"
abbreviation (input) K_EMAIL :: keyboard_key where "K_EMAIL \<equiv> 112"
abbreviation (input) K_ACPI_POWER :: keyboard_key where "K_ACPI_POWER \<equiv> 113"
abbreviation (input) K_ACPI_SLEEP :: keyboard_key where "K_ACPI_SLEEP \<equiv> 114"
abbreviation (input) K_ACPI_WAKE :: keyboard_key where "K_ACPI_WAKE \<equiv> 115"
abbreviation (input) K_F1 :: keyboard_key where "K_F1 \<equiv> 116"
abbreviation (input) K_F2 :: keyboard_key where "K_F2 \<equiv> 117"
abbreviation (input) K_F3 :: keyboard_key where "K_F3 \<equiv> 118"
abbreviation (input) K_F4 :: keyboard_key where "K_F4 \<equiv> 119"
abbreviation (input) K_F5 :: keyboard_key where "K_F5 \<equiv> 120"
abbreviation (input) K_F6 :: keyboard_key where "K_F6 \<equiv> 121"
abbreviation (input) K_F7 :: keyboard_key where "K_F7 \<equiv> 122"
abbreviation (input) K_F8 :: keyboard_key where "K_F8 \<equiv> 123"
abbreviation (input) K_F9 :: keyboard_key where "K_F9 \<equiv> 124"
abbreviation (input) K_F10 :: keyboard_key where "K_F10 \<equiv> 125"
abbreviation (input) K_F11 :: keyboard_key where "K_F11 \<equiv> 126"
abbreviation (input) K_F12 :: keyboard_key where "K_F12 \<equiv> 127"

abbreviation (input) K_PRINTABLE_FIRST :: keyboard_key where "K_PRINTABLE_FIRST \<equiv> K_SPACE"
abbreviation (input) K_PRINTABLE_LAST :: keyboard_key where "K_PRINTABLE_LAST \<equiv> K_KP_9"
abbreviation (input) K_PRINTABLE_COUNT :: nat where
  "K_PRINTABLE_COUNT \<equiv> K_PRINTABLE_LAST - K_PRINTABLE_FIRST + 1"

datatype keyboard_action = K_PRESS | K_RELEASE

datatype keyboard_layout = KEYBOARD_LAYOUT_EN | KEYBOARD_LAYOUT_FR

section \<open>Tables\<close>

definition normal_codes :: "keyboard_key list" where
  "normal_codes = [
    K_UNKNOWN, K_F9, K_UNKNOWN, K_F5, K_F3, K_F1, K_F2, K_F12, K_UNKNOWN, K_F10, K_F8, K_F6,
    K_F4, K_TAB, K_BACK_TICK, K_UNKNOWN, K_UNKNOWN, K_LEFT_ALT, K_LEFT_SHIFT, K_UNKNOWN,
    K_LEFT_CTRL, K_Q, K_1, K_UNKNOWN, K_UNKNOWN, K_UNKNOWN, K_Z, K_S, K_A, K_W, K_2, K_UNKNOWN,
    K_UNKNOWN, K_C, K_X, K_D, K_E, K_4, K_3, K_UNKNOWN, K_UNKNOWN, K_SPACE, K_V, K_F, K_T, K_R,
    K_5, K_UNKNOWN, K_UNKNOWN, K_N, K_B, K_H, K_G, K_Y, K_6, K_UNKNOWN, K_UNKNOWN, K_UNKNOWN,
    K_M, K_J, K_U, K_7, K_8, K_UNKNOWN, K_UNKNOWN, K_COMMA, K_K, K_I, K_O, K_0, K_9, K_UNKNOWN,
    K_UNKNOWN, K_PERIOD, K_SLASH, K_L, K_SEMICOLON, K_P, K_DASH, K_UNKNOWN, K_UNKNOWN,
    K_UNKNOWN, K_APOSTROPHE, K_UNKNOWN, K_OPEN_BRACKET, K_EQUAL, K_UNKNOWN, K_UNKNOWN,
    K_CAPS_LOCK, K_RIGHT_SHIFT, K_ENTER, K_CLOSE_BRACKET, K_UNKNOWN, K_BACKSLASH, K_UNKNOWN,
    K_UNKNOWN, K_UNKNOWN, K_UNKNOWN, K_UNKNOWN, K_UNKNOWN, K_UNKNOWN, K_UNKNOWN, K_BACKSPACE,
    K_UNKNOWN, K_UNKNOWN, K_KP_1, K_UNKNOWN, K_KP_4, K_KP_7, K_UNKNOWN, K_UNKNOWN, K_UNKNOWN,
    K_KP_0, K_KP_PERIOD, K_KP_2, K_KP_5, K_KP_6, K_KP_8, K_ESCAPE, K_NUM_LOCK, K_F11, K_KP_ADD,
    K_KP_3, K_KP_SUBTRACT, K_KP_MULTIPLY, K_KP_9, K_SCROLL_LOCK, K_UNKNOWN, K_UNKNOWN,
    K_UNKNOWN, K_UNKNOWN, K_F7] @ replicate 124 K_UNKNOWN"

definition extended_codes :: "keyboard_key list" where
  "extended_codes = [
    K_UNKNOWN, K_UNKNOWN, K_UNKNOWN, K_UNKNOWN, K_UNKNOWN, K_UNKNOWN, K_UNKNOWN, K_UNKNOWN,
    K_UNKNOWN, K_UNKNOWN, K_UNKNOWN, K_UNKNOWN, K_UNKNOWN, K_UNKNOWN, K_UNKNOWN, K_UNKNOWN,
    K_WWW_SEARCH, K_RIGHT_ALT, K_PRINT_SCREEN, K_UNKNOWN, K_RIGHT_CTRL, K_PREVIOUS_TRACK,
    K_UNKNOWN, K_UNKNOWN, K_WWW_FAVOURITES, K_UNKNOWN, K_UNKNOWN, K_UNKNOWN, K_UNKNOWN,
    K_UNKNOWN, K_UNKNOWN, K_LEFT_GUI, K_WWW_REFRESH, K_VOLUME_DOWN, K_UNKNOWN, K_VOLUME_MUTE,
    K_UNKNOWN, K_UNKNOWN, K_UNKNOWN, K_RIGHT_GUI, K_WWW_STOP, K_UNKNOWN, K_UNKNOWN,
    K_CALCULATOR, K_UNKNOWN, K_UNKNOWN, K_UNKNOWN, K_APPS, K_WWW_FORWARD, K_UNKNOWN,
    K_VOLUME_UP, K_UNKNOWN, K_PLAY_PAUSE, K_UNKNOWN, K_UNKNOWN, K_ACPI_POWER, K_WWW_BACK,
    K_UNKNOWN, K_WWW_HOME, K_STOP, K_UNKNOWN, K_UNKNOWN, K_UNKNOWN, K_ACPI_SLEEP,
    K_MY_COMPUTER, K_UNKNOWN, K_UNKNOWN, K_UNKNOWN, K_UNKNOWN, K_UNKNOWN, K_UNKNOWN, K_UNKNOWN,
    K_EMAIL, K_UNKNOWN, K_KP_DIVIDE, K_UNKNOWN, K_UNKNOWN, K_NEXT_TRACK, K_UNKNOWN, K_UNKNOWN,
    K_MEDIA_SELECT, K_UNKNOWN, K_UNKNOWN, K_UNKNOWN, K_UNKNOWN, K_UNKNOWN, K_UNKNOWN,
    K_UNKNOWN, K_UNKNOWN, K_UNKNOWN, K_KP_ENTER, K_UNKNOWN, K_UNKNOWN, K_UNKNOWN, K_ACPI_WAKE,
    K_UNKNOWN, K_UNKNOWN, K_UNKNOWN, K_UNKNOWN, K_UNKNOWN, K_UNKNOWN, K_UNKNOWN, K_UNKNOWN,
    K_UNKNOWN, K_UNKNOWN, K_END, K_UNKNOWN, K_CURSOR_LEFT, K_HOME, K_UNKNOWN, K_UNKNOWN,
    K_UNKNOWN, K_KP_INSERT, K_DELETE, K_CURSOR_DOWN, K_UNKNOWN, K_CURSOR_RIGHT, K_CURSOR_UP,
    K_UNKNOWN, K_UNKNOWN, K_UNKNOWN, K_UNKNOWN, K_PAGE_DOWN, K_UNKNOWN, K_UNKNOWN, K_PAGE_UP] @ replicate 130 K_UNKNOWN"

definition layout_en :: "u8 list" where
  "layout_en = [
    32, 96, 44, 46, 59, 47, 92, 39, 61, 43, 45, 42, 91, 93, 48, 49, 50, 51, 52, 53, 54, 55, 56,
    57, 97, 98, 99, 100, 101, 102, 103, 104, 105, 106, 107, 108, 109, 110, 111, 112, 113, 114,
    115, 116, 117, 118, 119, 120, 121, 122, 46, 43, 45, 42, 47, 48, 0, 0, 49, 50, 51, 52, 53,
    54, 55, 56, 57]"

definition layout_en_shift :: "u8 list" where
  "layout_en_shift = [
    32, 96, 44, 46, 59, 47, 92, 39, 61, 43, 45, 42, 91, 93, 48, 49, 50, 51, 52, 53, 54, 55, 56,
    57, 65, 66, 67, 68, 69, 70, 71, 72, 73, 74, 75, 76, 77, 78, 79, 80, 81, 82, 83, 84, 85, 86,
    87, 88, 89, 90, 46, 43, 45, 42, 47, 48, 0, 0, 49, 50, 51, 52, 53, 54, 55, 56, 57]"

definition layout_en_alt :: "u8 list" where
  "layout_en_alt = [
    32, 96, 44, 46, 59, 47, 92, 39, 61, 43, 45, 42, 91, 93, 48, 49, 50, 51, 52, 53, 54, 55, 56,
    57, 65, 66, 67, 68, 69, 70, 71, 72, 73, 74, 75, 76, 77, 78, 79, 80, 81, 82, 83, 84, 85, 86,
    87, 88, 89, 90, 46, 43, 45, 42, 47, 48, 0, 0, 49, 50, 51, 52, 53, 54, 55, 56, 57]"

definition layout_fr :: "u8 list" where
  "layout_fr = [
    32, 96, 59, 58, 109, 33, 42, 117, 61, 43, 41, 42, 94, 36, 97, 38, 101, 34, 39, 40, 45, 101,
    95, 99, 113, 98, 99, 100, 101, 102, 103, 104, 105, 106, 107, 108, 44, 110, 111, 112, 97,
    114, 115, 116, 117, 118, 122, 120, 121, 119, 46, 43, 45, 42, 47, 0, 0, 48, 49, 50, 51, 52,
    53, 54, 55, 56, 57]"

definition layout_fr_shift :: "u8 list" where
  "layout_fr_shift = [
    32, 96, 46, 47, 77, 32, 117, 37, 43, 43, 32, 42, 32, 32, 48, 49, 50, 51, 52, 53, 54, 55,
    56, 57, 81, 66, 67, 68, 69, 70, 71, 72, 73, 74, 75, 76, 63, 78, 79, 80, 65, 82, 83, 84, 85,
    86, 90, 88, 89, 87, 46, 43, 45, 42, 47, 0, 0, 48, 49, 50, 51, 52, 53, 54, 55, 56, 57]"

definition layout_fr_alt :: "u8 list" where
  "layout_fr_alt = [
    0, 0, 0, 0, 0, 0, 0, 0, 125, 0, 93, 0, 0, 0, 64, 0, 126, 35, 123, 91, 124, 96, 92, 94, 0,
    0, 0, 0, 0, 0, 0, 0, 0, 0, 0, 0, 0, 0, 0, 0, 0, 0, 0, 0, 0, 0, 0, 0, 0, 0, 0, 0, 0, 0, 0,
    0, 0, 0, 0, 0, 0, 0, 0, 0, 0, 0, 0]"

record keyboard_layout_impl =
  layout_id :: keyboard_layout
  printable :: "u8 list"
  printable_shift :: "u8 list"
  printable_alt_graph :: "u8 list"

fun all_layouts :: "keyboard_layout \<Rightarrow> keyboard_layout_impl" where
  "all_layouts KEYBOARD_LAYOUT_EN =
     \<lparr>layout_id = KEYBOARD_LAYOUT_EN, printable = layout_en, printable_shift = layout_en_shift,
      printable_alt_graph = layout_en_alt\<rparr>"
| "all_layouts KEYBOARD_LAYOUT_FR =
     \<lparr>layout_id = KEYBOARD_LAYOUT_FR, printable = layout_fr, printable_shift = layout_fr_shift,
      printable_alt_graph = layout_fr_alt\<rparr>"

section \<open>State and operations\<close>

record keyboard =
  current_layout :: "keyboard_layout_impl option"
  scan_break :: bool
  scan_extended :: bool
  key_ctrl :: bool
  key_shift :: bool
  key_alt :: bool
  key_alt_graph :: bool
  key_caps_lock :: bool
  key_num_lock :: bool
  key_handler_set :: bool
  char_handler_set :: bool

definition keyboard_zero :: keyboard where
  "keyboard_zero = \<lparr>current_layout = None, scan_break = False, scan_extended = False,
     key_ctrl = False, key_shift = False, key_alt = False, key_alt_graph = False,
     key_caps_lock = False, key_num_lock = False, key_handler_set = False,
     char_handler_set = False\<rparr>"

datatype kbd_call =
    KeyCall keyboard_key u8 keyboard_action u8
  | CharCall u8

definition keyboard_update_modifiers :: "keyboard_key \<Rightarrow> keyboard_action \<Rightarrow> keyboard \<Rightarrow> keyboard" where
  "keyboard_update_modifiers key action k =
     (if key = K_LEFT_SHIFT \<or> key = K_RIGHT_SHIFT then k\<lparr>key_shift := (action = K_PRESS)\<rparr>
      else if key = K_RIGHT_ALT then k\<lparr>key_alt_graph := (action = K_PRESS)\<rparr>
      else if key = K_LEFT_ALT then k\<lparr>key_alt := (action = K_PRESS)\<rparr>
      else if key = K_LEFT_CTRL \<or> key = K_RIGHT_CTRL then k\<lparr>key_ctrl := (action = K_PRESS)\<rparr>
      else if key = K_CAPS_LOCK \<and> action = K_PRESS then k\<lparr>key_caps_lock := \<not> key_caps_lock k\<rparr>
      else if key = K_NUM_LOCK \<and> action = K_PRESS then k\<lparr>key_num_lock := \<not> key_num_lock k\<rparr>
      else k)"

definition keyboard_mods :: "keyboard \<Rightarrow> u8" where
  "keyboard_mods k =
     (if key_ctrl k then 0x01 else 0) OR (if key_shift k then 0x02 else 0)
     OR (if key_alt k then 0x04 else 0) OR (if key_alt_graph k then 0x08 else 0)
     OR (if key_caps_lock k then 0x10 else 0) OR (if key_num_lock k then 0x20 else 0)"

definition printable_char :: "keyboard \<Rightarrow> keyboard_key \<Rightarrow> u8 option" where
  "printable_char k key = (case current_layout k of
     None \<Rightarrow> None
   | Some l \<Rightarrow> Some
      ((if key_alt_graph k then printable_alt_graph l
        else if key_shift k \<or> key_caps_lock k then printable_shift l
        else printable l) ! (key - K_PRINTABLE_FIRST)))"

definition keyboard_key_handler ::
    "keyboard_key \<Rightarrow> u8 \<Rightarrow> keyboard_action \<Rightarrow> keyboard \<Rightarrow> (kbd_call list \<times> keyboard) option" where
  "keyboard_key_handler key scancode action k0 =
     (let k = keyboard_update_modifiers key action k0;
          calls = (if key_handler_set k then [KeyCall key scancode action (keyboard_mods k)] else [])
      in if char_handler_set k \<and> action = K_PRESS \<and> key \<ge> K_PRINTABLE_FIRST
            \<and> key \<le> K_PRINTABLE_LAST
         then (case printable_char k key of
             None \<Rightarrow> None
           | Some c \<Rightarrow> Some (if c \<noteq> 0 then calls @ [CharCall c] else calls, k))
         else Some (calls, k))"

definition keyboard_handler :: "u8 \<Rightarrow> keyboard \<Rightarrow> (kbd_call list \<times> keyboard) option" where
  "keyboard_handler scancode k =
     (if scancode = 0xF0 then Some ([], k\<lparr>scan_break := True\<rparr>)
      else if scancode = 0xE0 then Some ([], k\<lparr>scan_extended := True\<rparr>)
      else
        let key = (if scan_extended k then extended_codes ! unat scancode
                   else normal_codes ! unat scancode);
            k1 = (if scan_extended k then k\<lparr>scan_extended := False\<rparr> else k)
        in (case keyboard_key_handler key scancode (if scan_break k1 then K_RELEASE else K_PRESS) k1 of
             None \<Rightarrow> None
           | Some (calls, k2) \<Rightarrow> Some (calls, k2\<lparr>scan_break := False\<rparr>)))"

definition keyboard_set_layout :: "keyboard_layout \<Rightarrow> keyboard \<Rightarrow> keyboard" where
  "keyboard_set_layout l k = k\<lparr>current_layout := Some (all_layouts l)\<rparr>"

definition keyboard_set_key_handler :: "keyboard \<Rightarrow> keyboard" where
  "keyboard_set_key_handler k = k\<lparr>key_handler_set := True\<rparr>"

definition keyboard_set_char_handler :: "keyboard \<Rightarrow> keyboard" where
  "keyboard_set_char_handler k = k\<lparr>char_handler_set := True\<rparr>"

text \<open>Running the driver over the bytes of a scan code sequence.\<close>

fun keyboard_run :: "u8 list \<Rightarrow> keyboard \<Rightarrow> (kbd_call list \<times> keyboard) option" where
  "keyboard_run [] k = Some ([], k)"
| "keyboard_run (b # bs) k = (case keyboard_handler b k of
     None \<Rightarrow> None
   | Some (cs, k1) \<Rightarrow> (case keyboard_run bs k1 of
       None \<Rightarrow> None
     | Some (cs', k2) \<Rightarrow> Some (cs @ cs', k2)))"

section \<open>Facts\<close>

lemma table_lengths:
  "length normal_codes = 256" "length extended_codes = 256"
  "length (printable (all_layouts l)) = K_PRINTABLE_COUNT"
  "length (printable_shift (all_layouts l)) = K_PRINTABLE_COUNT"
  "length (printable_alt_graph (all_layouts l)) = K_PRINTABLE_COUNT"
  by (simp_all add: normal_codes_def extended_codes_def layout_en_def layout_en_shift_def
      layout_en_alt_def layout_fr_def layout_fr_shift_def layout_fr_alt_def
      split: keyboard_layout.split)
    (cases l; simp add: layout_en_def layout_en_shift_def layout_en_alt_def layout_fr_def
      layout_fr_shift_def layout_fr_alt_def)+

lemma update_modifiers_frame [simp, frame]:
  "current_layout (keyboard_update_modifiers key action k) = current_layout k"
  "scan_break (keyboard_update_modifiers key action k) = scan_break k"
  "scan_extended (keyboard_update_modifiers key action k) = scan_extended k"
  "key_handler_set (keyboard_update_modifiers key action k) = key_handler_set k"
  "char_handler_set (keyboard_update_modifiers key action k) = char_handler_set k"
  by (simp_all add: keyboard_update_modifiers_def)

text \<open>With a layout selected, a key is handled, and the state it leaves is the one of the modifiers.\<close>

lemma key_handler_some:
  assumes "current_layout k = Some l"
  shows "\<exists>calls. keyboard_key_handler key sc action k
    = Some (calls, keyboard_update_modifiers key action k)"
  using assms by (auto simp: keyboard_key_handler_def Let_def printable_char_def)

lemma handler_some:
  assumes "current_layout k = Some l"
  shows "\<exists>calls k'. keyboard_handler b k = Some (calls, k') \<and> current_layout k' = Some l"
proof -
  define k1 where "k1 = (if scan_extended k then k\<lparr>scan_extended := False\<rparr> else k)"
  define key where "key = (if scan_extended k then extended_codes ! unat b else normal_codes ! unat b)"
  define act where "act = (if scan_break k1 then K_RELEASE else K_PRESS)"
  have l: "current_layout k1 = Some l" using assms by (simp add: k1_def)
  from key_handler_some [OF this, of key b act] obtain calls where
    "keyboard_key_handler key b act k1 = Some (calls, keyboard_update_modifiers key act k1)" by blast
  then show ?thesis
    using assms l by (auto simp: keyboard_handler_def Let_def k1_def [symmetric] key_def [symmetric]
        act_def [symmetric])
qed

lemma run_some:
  "current_layout k = Some l \<Longrightarrow>
     \<exists>calls k'. keyboard_run bs k = Some (calls, k') \<and> current_layout k' = Some l"
proof (induction bs arbitrary: k)
  case (Cons b bs)
  from handler_some [OF Cons.prems, of b] obtain c1 k1 where
    1: "keyboard_handler b k = Some (c1, k1)" "current_layout k1 = Some l" by blast
  from Cons.IH [OF 1(2)] 1(1) show ?case by auto
qed simp

lemma key_pressed:
  assumes "current_layout k = Some l" "key_handler_set k"
  shows "\<exists>m chars. keyboard_key_handler key sc K_PRESS k
      = Some (KeyCall key sc K_PRESS m # chars, keyboard_update_modifiers key K_PRESS k)
    \<and> chars \<in> {[]} \<union> range (\<lambda>c. [CharCall c])"
  using assms by (auto simp: keyboard_key_handler_def Let_def printable_char_def)

lemma key_released:
  assumes "key_handler_set k"
  shows "\<exists>m. keyboard_key_handler key sc K_RELEASE k
      = Some ([KeyCall key sc K_RELEASE m], keyboard_update_modifiers key K_RELEASE k)"
  using assms by (auto simp: keyboard_key_handler_def Let_def)

lemma update_modifiers_scan [simp]:
  "keyboard_update_modifiers key a (k\<lparr>scan_break := b\<rparr>) = (keyboard_update_modifiers key a k)\<lparr>scan_break := b\<rparr>"
  "keyboard_update_modifiers key a (k\<lparr>scan_extended := b\<rparr>) = (keyboard_update_modifiers key a k)\<lparr>scan_extended := b\<rparr>"
  by (simp_all add: keyboard_update_modifiers_def)

text \<open>No scan code prefix is pending.\<close>

definition idle :: "keyboard \<Rightarrow> bool" where
  "idle k \<longleftrightarrow> \<not> scan_break k \<and> \<not> scan_extended k"

lemma idle_scan [simp]:
  "idle k \<Longrightarrow> k\<lparr>scan_break := False\<rparr> = k" "idle k \<Longrightarrow> k\<lparr>scan_extended := False\<rparr> = k"
  by (auto simp: idle_def)

lemma idle_update [simp]: "idle (keyboard_update_modifiers key a k) = idle k"
  by (simp add: idle_def)

text \<open>A code with its prefixes, from the idle state.\<close>

definition scan_bytes :: "bool \<Rightarrow> keyboard_action \<Rightarrow> u8 \<Rightarrow> u8 list" where
  "scan_bytes ext action code =
     (if ext then [0xE0] else []) @ (if action = K_RELEASE then [0xF0] else []) @ [code]"

definition scan_key :: "bool \<Rightarrow> u8 \<Rightarrow> keyboard_key" where
  "scan_key ext code = (if ext then extended_codes else normal_codes) ! unat code"

lemma run_append:
  "keyboard_run (bs @ bs') k = (case keyboard_run bs k of None \<Rightarrow> None
     | Some (cs, k1) \<Rightarrow> (case keyboard_run bs' k1 of None \<Rightarrow> None
       | Some (cs', k2) \<Rightarrow> Some (cs @ cs', k2)))"
  by (induction bs arbitrary: k) (auto split: option.splits)

lemma run_code:
  assumes i: "idle k" and l: "current_layout k = Some l" and h: "key_handler_set k"
    and c: "code \<noteq> 0xF0" "code \<noteq> 0xE0"
  shows "\<exists>m chars. keyboard_run (scan_bytes ext action code) k
      = Some (KeyCall (scan_key ext code) code action m # chars,
          keyboard_update_modifiers (scan_key ext code) action k)
    \<and> chars \<in> (if action = K_PRESS then {[]} \<union> range (\<lambda>c. [CharCall c]) else {[]})"
proof (cases action)
  case K_PRESS
  from key_pressed [OF l h, of "scan_key ext code" code] obtain m chars where
    "keyboard_key_handler (scan_key ext code) code K_PRESS k
      = Some (KeyCall (scan_key ext code) code K_PRESS m # chars,
          keyboard_update_modifiers (scan_key ext code) K_PRESS k)"
    "chars \<in> {[]} \<union> range (\<lambda>c. [CharCall c])" by blast
  with i c show ?thesis
    by (auto simp: K_PRESS scan_bytes_def scan_key_def keyboard_handler_def Let_def idle_def)
next
  case K_RELEASE
  let ?key = "scan_key ext code"
  let ?k = "if ext then k\<lparr>scan_break := True, scan_extended := False\<rparr> else k\<lparr>scan_break := True\<rparr>"
  have up: "keyboard_update_modifiers key K_RELEASE ?k\<lparr>scan_break := False\<rparr>
      = keyboard_update_modifiers key K_RELEASE k" for key
    using i idle_update [of key K_RELEASE k]
    by (cases "keyboard_update_modifiers key K_RELEASE k") (simp add: idle_def)
  have hk: "key_handler_set ?k" using h by simp
  from key_released [OF hk, of ?key code] obtain m where
    m: "keyboard_key_handler ?key code K_RELEASE ?k
      = Some ([KeyCall ?key code K_RELEASE m], keyboard_update_modifiers ?key K_RELEASE ?k)" by blast
  have "keyboard_run (scan_bytes ext K_RELEASE code) k = Some ([KeyCall ?key code K_RELEASE m],
      keyboard_update_modifiers ?key K_RELEASE ?k\<lparr>scan_break := False\<rparr>)"
    using i c m
    by (cases ext) (simp_all add: scan_bytes_def scan_key_def keyboard_handler_def Let_def idle_def
        del: update_modifiers_scan)
  then show ?thesis unfolding up K_RELEASE by auto
qed

end
