(* ===== verification/Console.thy ===== *)
theory Console
  imports Cga Keyboard
begin

text \<open>
  The console driver of \<^verbatim>\<open>kernel/peripheral/cons.c\<close>: formatted output to the screen with colour
  escapes, the line editor fed by the keyboard, and the buffer of finished lines that
  \<open>cons_try_read\<close> hands to the processes. Counters are \<open>nat\<close>, subtractions that may go below
  zero use \<open>sub32\<close>. The wake callback is called by the kernel: \<open>cons_flush_line_buffer\<close> returns
  whether it is due. An access outside a buffer gives \<open>None\<close>.
\<close>

section \<open>State\<close>

abbreviation (input) ALL_BUFFER_CAP :: nat where "ALL_BUFFER_CAP \<equiv> 2048"
abbreviation (input) LINE_BUFFER_CAP :: nat where "LINE_BUFFER_CAP \<equiv> 1024"

record console =
  scr :: cga
  fg_color :: u8
  bg_color :: u8
  write_line :: nat
  write_column :: nat
  write_escape :: bool
  write_escape_bg :: bool
  all_buffer :: "u8 list"
  all_buffer_len :: nat
  wake_set :: bool
  line_buffer :: "u8 list"
  line_buffer_len :: nat
  line_buffer_cursor :: nat
  line_buffer_line :: nat
  line_buffer_column :: nat
  line_buffer_insert :: bool
  echo_on :: bool

text \<open>The state the loader leaves.\<close>

definition console_zero :: "cga \<Rightarrow> console" where
  "console_zero g = \<lparr>scr = g, fg_color = CGA_WHITE, bg_color = CGA_BLACK,
     write_line = 0, write_column = 0, write_escape = False, write_escape_bg = False,
     all_buffer = replicate ALL_BUFFER_CAP 0, all_buffer_len = 0, wake_set = False,
     line_buffer = replicate LINE_BUFFER_CAP 0, line_buffer_len = 0, line_buffer_cursor = 0,
     line_buffer_line = 0, line_buffer_column = 0, line_buffer_insert = True, echo_on = True\<rparr>"

section \<open>Output\<close>

text \<open>The colour chosen by the character after an escape, and where it goes.\<close>

definition escape_color :: "bool \<Rightarrow> u8 \<Rightarrow> u8" where
  "escape_color to_bg ch =
     (if ch \<ge> 0x30 \<and> ch \<le> 0x39 then ch - 0x30
      else if ch \<ge> 0x61 \<and> ch \<le> 0x66 then (ch - 0x61) + 10
      else if ch = 0x72 then (if to_bg then CGA_BLACK else CGA_WHITE)
      else CGA_WHITE)"

function cons_scroll :: "console \<Rightarrow> console" where
  "cons_scroll c =
     (if write_line c \<ge> CGA_ROWS - 1
      then cons_scroll (c\<lparr>scr := cga_scroll_down (scr c), write_line := write_line c - 1,
             line_buffer_line := sub32 (line_buffer_line c) 1\<rparr>)
      else c)"
  by pat_completeness auto
termination by (relation "measure write_line") auto

declare cons_scroll.simps [simp del]

definition cons_wrap :: "console \<Rightarrow> console" where
  "cons_wrap c = cons_scroll
     (if write_column c \<ge> CGA_COLS
      then c\<lparr>write_column := 0, write_line := write_line c + 1\<rparr> else c)"

definition cons_write_char :: "u8 \<Rightarrow> console \<Rightarrow> console" where
  "cons_write_char ch c =
     (if write_escape c then
        (if ch = 0x2D \<and> \<not> write_escape_bg c then c\<lparr>write_escape_bg := True\<rparr>
         else
           (let new_color = escape_color (write_escape_bg c) ch;
                c1 = (if write_escape_bg c then c\<lparr>bg_color := new_color\<rparr>
                      else c\<lparr>fg_color := new_color\<rparr>)
            in c1\<lparr>write_escape := False, write_escape_bg := False\<rparr>))
      else cons_wrap
       (if ch \<ge> 32 \<and> ch \<le> 126 then
          c\<lparr>scr := cga_set_char (write_line c) (write_column c) ch (fg_color c) (bg_color c) (scr c),
            write_column := write_column c + 1\<rparr>
        else if ch = 0x08 then
          (if write_column c > 0 then c\<lparr>write_column := write_column c - 1\<rparr> else c)
        else if ch = 0x09 then c\<lparr>write_column := write_column c - write_column c mod 8 + 8\<rparr>
        else if ch = 0x0A then c\<lparr>write_line := write_line c + 1, write_column := 0\<rparr>
        else if ch = 0x0C then
          c\<lparr>scr := cga_clear (scr c), write_line := 0, write_column := 0\<rparr>
        else if ch = 0x0D then c\<lparr>write_column := 0\<rparr>
        else if ch = 0x1B then c\<lparr>write_escape := \<not> write_escape c\<rparr>
        else c))"

primrec cons_write_chars :: "u8 list \<Rightarrow> console \<Rightarrow> console" where
  "cons_write_chars [] c = c"
| "cons_write_chars (ch # src) c = cons_write_chars src (cons_write_char ch c)"

definition cons_write :: "u8 list \<Rightarrow> console \<Rightarrow> console" where
  "cons_write src c =
     (let c1 = cons_write_chars src c;
          c2 = c1\<lparr>line_buffer_line := write_line c1, line_buffer_column := write_column c1\<rparr>
      in c2\<lparr>scr := cga_set_cursor (write_line c2) (write_column c2) (scr c2)\<rparr>)"

definition console_putbytes :: "u8 list \<Rightarrow> console \<Rightarrow> console" where
  "console_putbytes s c = (if length s > 0 then cons_write s c else c)"

text \<open>
  The echo loop over the line buffer: write character \<open>i\<close>, and place the cursor where the edit
  position is.
\<close>

primrec echo_chars :: "u8 list \<Rightarrow> nat \<Rightarrow> nat \<Rightarrow> console \<Rightarrow> console" where
  "echo_chars [] i cur c = c"
| "echo_chars (ch # chs) i cur c =
     (let c1 = cons_write_char ch c;
          c2 = (if i + 1 = cur
                then c1\<lparr>scr := cga_set_cursor (write_line c1) (write_column c1) (scr c1)\<rparr> else c1)
      in echo_chars chs (i + 1) cur c2)"

definition cons_echo_line_buffer :: "console \<Rightarrow> console" where
  "cons_echo_line_buffer c =
     (if echo_on c then
        let c1 = c\<lparr>write_line := line_buffer_line c, write_column := line_buffer_column c\<rparr>;
            c2 = (if line_buffer_cursor c1 = 0
                  then c1\<lparr>scr := cga_set_cursor (write_line c1) (write_column c1) (scr c1)\<rparr> else c1)
        in cons_write_char 0x20
             (echo_chars (take (line_buffer_len c) (line_buffer c)) 0 (line_buffer_cursor c) c2)
      else c)"

section \<open>The line editor\<close>

text \<open>\<open>for (i; i < n; i++) buf[i] = buf[i + 1]\<close> and \<open>for (i; i > cur; i--) buf[i] = buf[i - 1]\<close>.\<close>

function shift_left :: "'a list \<Rightarrow> nat \<Rightarrow> nat \<Rightarrow> 'a list" where
  "shift_left b i n = (if i < n then shift_left (b[i := b ! (i + 1)]) (i + 1) n else b)"
  by pat_completeness auto
termination by (relation "measure (\<lambda>(b, i, n). n - i)") auto

fun shift_right :: "'a list \<Rightarrow> nat \<Rightarrow> nat \<Rightarrow> 'a list" where
  "shift_right b i cur = (if i > cur then shift_right (b[i := b ! (i - 1)]) (i - 1) cur else b)"

declare shift_left.simps [simp del] shift_right.simps [simp del]

definition remove_at_cursor :: "console \<Rightarrow> console" where
  "remove_at_cursor c =
     c\<lparr>line_buffer := shift_left (line_buffer c) (line_buffer_cursor c) (sub32 (line_buffer_len c) 1),
       line_buffer_len := sub32 (line_buffer_len c) 1\<rparr>"

definition cons_backspace :: "console \<Rightarrow> console" where
  "cons_backspace c =
     (if line_buffer_cursor c > 0
      then cons_echo_line_buffer
             (remove_at_cursor (c\<lparr>line_buffer_cursor := line_buffer_cursor c - 1\<rparr>))
      else c)"

definition cons_delete :: "console \<Rightarrow> console" where
  "cons_delete c =
     (if line_buffer_cursor c < line_buffer_len c
      then cons_echo_line_buffer (remove_at_cursor c) else c)"

definition cons_cursor_left :: "console \<Rightarrow> console" where
  "cons_cursor_left c =
     (if line_buffer_cursor c > 0
      then cons_echo_line_buffer (c\<lparr>line_buffer_cursor := line_buffer_cursor c - 1\<rparr>) else c)"

definition cons_cursor_right :: "console \<Rightarrow> console" where
  "cons_cursor_right c =
     (if line_buffer_cursor c < line_buffer_len c
      then cons_echo_line_buffer (c\<lparr>line_buffer_cursor := line_buffer_cursor c + 1\<rparr>) else c)"

definition cons_home :: "console \<Rightarrow> console" where
  "cons_home c = cons_echo_line_buffer (c\<lparr>line_buffer_cursor := 0\<rparr>)"

definition cons_end :: "console \<Rightarrow> console" where
  "cons_end c = cons_echo_line_buffer (c\<lparr>line_buffer_cursor := line_buffer_len c\<rparr>)"

text \<open>
  \<open>cons_flush_line_buffer\<close> up to the call of the wake callback; the boolean says that the call
  is due. \<open>memcpy\<close> or the final store past the end of \<open>all_buffer\<close> gives \<open>None\<close>.
\<close>

definition cons_flush_line_buffer :: "console \<Rightarrow> (bool \<times> console) option" where
  "cons_flush_line_buffer c =
     (let free_len = sub32 (sub32 ALL_BUFFER_CAP (all_buffer_len c)) 1;
          copy_len = (if free_len > line_buffer_len c then line_buffer_len c else free_len);
          at = all_buffer_len c
      in if at + copy_len \<ge> ALL_BUFFER_CAP then None
         else Some (wake_set c,
           c\<lparr>all_buffer := (take at (all_buffer c) @ take copy_len (line_buffer c)
               @ drop (at + copy_len) (all_buffer c))[at + copy_len := 0x0A],
             all_buffer_len := at + copy_len + 1,
             line_buffer_len := 0, line_buffer_cursor := 0, wake_set := False\<rparr>))"

text \<open>The rest of the Enter key, which runs after the wake callback.\<close>

definition cons_enter_echo :: "console \<Rightarrow> console" where
  "cons_enter_echo c = (if echo_on c then cons_write [0x0A] c else c)"

datatype cons_event = Cons_Idle console | Cons_Flushed bool console | Cons_Overrun

definition cons_key_handler :: "keyboard_key \<Rightarrow> keyboard_action \<Rightarrow> console \<Rightarrow> cons_event" where
  "cons_key_handler key action c =
     (if action = K_PRESS then
        (if key = K_BACKSPACE then Cons_Idle (cons_backspace c)
         else if key = K_DELETE then Cons_Idle (cons_delete c)
         else if key = K_CURSOR_LEFT then Cons_Idle (cons_cursor_left c)
         else if key = K_CURSOR_RIGHT then Cons_Idle (cons_cursor_right c)
         else if key = K_HOME then Cons_Idle (cons_home c)
         else if key = K_END then Cons_Idle (cons_end c)
         else if key = K_INSERT \<or> key = K_KP_INSERT then
           Cons_Idle (c\<lparr>line_buffer_insert := \<not> line_buffer_insert c\<rparr>)
         else if key = K_ENTER \<or> key = K_KP_ENTER then
           (case cons_flush_line_buffer c of
              None \<Rightarrow> Cons_Overrun
            | Some (wake, c1) \<Rightarrow> Cons_Flushed wake c1)
         else Cons_Idle c)
      else Cons_Idle c)"

definition insert_char :: "u8 \<Rightarrow> console \<Rightarrow> console" where
  "insert_char ch c =
     (let cur = line_buffer_cursor c;
          c1 = c\<lparr>line_buffer := (line_buffer c)[cur := ch], line_buffer_cursor := cur + 1\<rparr>
      in if line_buffer_cursor c1 > line_buffer_len c1
         then c1\<lparr>line_buffer_len := line_buffer_cursor c1\<rparr> else c1)"

definition cons_char_handler :: "u8 \<Rightarrow> console \<Rightarrow> console" where
  "cons_char_handler ch c =
     (if line_buffer_cursor c < LINE_BUFFER_CAP then
        (if line_buffer_insert c then
           (if line_buffer_len c \<ge> LINE_BUFFER_CAP then c
            else let n = line_buffer_len c + 1;
                     c1 = c\<lparr>line_buffer_len := n,
                       line_buffer := shift_right (line_buffer c) (n - 1) (line_buffer_cursor c)\<rparr>
                 in cons_echo_line_buffer (insert_char ch c1))
         else cons_echo_line_buffer (insert_char ch c))
      else cons_echo_line_buffer c)"

definition cons_echo :: "bool \<Rightarrow> console \<Rightarrow> console" where
  "cons_echo on c = c\<lparr>echo_on := on\<rparr>"

section \<open>Reading\<close>

text \<open>
  The copy loop of \<open>cons_try_read\<close> stops after a line feed or \<open>max_len\<close> characters. It returns
  the characters stored to \<open>dst[0], dst[1], \<dots>\<close>, \<open>read_len\<close> and \<open>read_eol\<close>.
\<close>

function read_loop :: "u8 list \<Rightarrow> nat \<Rightarrow> nat \<Rightarrow> u8 list \<times> nat \<times> bool" where
  "read_loop b read_len max_len =
     (if read_len < max_len then
        (if b ! read_len = 0x0A then ([], read_len + 1, True)
         else case read_loop b (read_len + 1) max_len of
             (cs, n, eol) \<Rightarrow> (b ! read_len # cs, n, eol))
      else ([], read_len, False))"
  by pat_completeness auto
termination by (relation "measure (\<lambda>(b, i, n). n - i)") auto

declare read_loop.simps [simp del]

text \<open>\<open>for (j = 0; j < n; j++) b[j] = b[j + k]\<close>\<close>

function shift_down :: "'a list \<Rightarrow> nat \<Rightarrow> nat \<Rightarrow> nat \<Rightarrow> 'a list" where
  "shift_down b j n k = (if j < n then shift_down (b[j := b ! (j + k)]) (j + 1) n k else b)"
  by pat_completeness auto
termination by (relation "measure (\<lambda>(b, j, n, k). n - j)") auto

declare shift_down.simps [simp del]

text \<open>
  \<open>cons_try_read\<close>: the returned flag, the new \<open>*len\<close>, the characters stored to \<open>dst\<close> (when it is
  not null) and the new state. \<open>wake\<close> says whether a callback is given.
\<close>

definition cons_try_read :: "nat \<Rightarrow> bool \<Rightarrow> console \<Rightarrow> bool \<times> nat \<times> u8 list \<times> console" where
  "cons_try_read len wake c =
     (if len = 0 then (True, len, [], c)
      else if all_buffer_len c = 0 then
        (False, len, [], if wake then c\<lparr>wake_set := True\<rparr> else c)
      else
        let max_len = (if len > all_buffer_len c then all_buffer_len c else len)
        in case read_loop (all_buffer c) 0 max_len of
          (cs, read_len, read_eol) \<Rightarrow>
            let n = all_buffer_len c - read_len
            in (True, if read_eol then read_len - 1 else read_len, cs,
                c\<lparr>all_buffer_len := n, all_buffer := shift_down (all_buffer c) 0 n read_len\<rparr>))"

section \<open>What output leaves alone\<close>

text \<open>Everything but the screen, the write position, the colours and the start of the echoed line.\<close>

definition editor :: "console \<Rightarrow> u8 list \<times> nat \<times> nat \<times> bool \<times> u8 list \<times> nat \<times> bool \<times> bool" where
  "editor c = (line_buffer c, line_buffer_len c, line_buffer_cursor c, line_buffer_insert c,
     all_buffer c, all_buffer_len c, wake_set c, echo_on c)"

lemma editor_scroll [simp]: "editor (cons_scroll c) = editor c"
proof (induction c rule: cons_scroll.induct)
  case (1 c)
  then show ?case by (subst cons_scroll.simps) (simp add: editor_def)
qed

lemma editor_write_char [simp]: "editor (cons_write_char ch c) = editor c"
  unfolding cons_write_char_def cons_wrap_def
  by (simp add: Let_def) (simp add: editor_def)

lemma editor_set_cursor [simp]: "editor (c\<lparr>scr := g\<rparr>) = editor c"
  by (simp add: editor_def)

lemma editor_write_chars [simp]: "editor (cons_write_chars chs c) = editor c"
  by (induction chs arbitrary: c) auto

lemma editor_write [simp]: "editor (cons_write chs c) = editor c"
proof -
  have "editor (cons_write chs c) = editor (cons_write_chars chs c)"
    by (simp add: cons_write_def Let_def editor_def)
  then show ?thesis by simp
qed

lemma editor_echo_chars [simp]: "editor (echo_chars chs i cur c) = editor c"
  by (induction chs arbitrary: i c) (auto simp: Let_def)

lemma editor_echo [simp]: "editor (cons_echo_line_buffer c) = editor c"
  by (simp add: cons_echo_line_buffer_def Let_def) (simp add: editor_def)

lemma editor_fields:
  assumes "editor c' = editor c"
  shows "line_buffer c' = line_buffer c" "line_buffer_len c' = line_buffer_len c"
    "line_buffer_cursor c' = line_buffer_cursor c" "line_buffer_insert c' = line_buffer_insert c"
    "all_buffer c' = all_buffer c" "all_buffer_len c' = all_buffer_len c"
    "wake_set c' = wake_set c" "echo_on c' = echo_on c"
  using assms by (simp_all add: editor_def)

lemmas echo_frame [simp, frame] = editor_fields [OF editor_echo]
lemmas write_frame [simp, frame] = editor_fields [OF editor_write]

section \<open>The write position stays on the screen\<close>

definition on_screen :: "console \<Rightarrow> bool" where
  "on_screen c \<longleftrightarrow> write_line c < CGA_ROWS - 1 \<and> write_column c < CGA_COLS"

text \<open>\<open>same_outside g g'\<close>: no memory outside the 2000 cells of the screen was written.\<close>

definition same_outside :: "cga \<Rightarrow> cga \<Rightarrow> bool" where
  "same_outside g g' \<longleftrightarrow> (\<forall>i \<ge> 2000. cells g' i = cells g i)"

lemma same_outside_refl [simp]: "same_outside g g"
  by (simp add: same_outside_def)

lemma same_outside_trans: "same_outside g g' \<Longrightarrow> same_outside g' g'' \<Longrightarrow> same_outside g g''"
  by (simp add: same_outside_def)

lemma same_outside_scroll [simp]: "same_outside g (cga_scroll_down g)"
  by (simp add: same_outside_def cga_scroll_down_def)

lemma same_outside_clear [simp]: "same_outside g (cga_clear g)"
  by (simp add: same_outside_def cga_clear_def)

lemma same_outside_cursor [simp]: "same_outside g (cga_set_cursor l k g)"
  by (simp add: same_outside_def cga_set_cursor_def Let_def)

lemma same_outside_set_char:
  "line < 25 \<Longrightarrow> column < 80 \<Longrightarrow> same_outside g (cga_set_char line column ch fg bg g)"
  by (simp add: same_outside_def cga_set_char_def char_pointer_def)

lemma cons_scroll_screen:
  "write_line (cons_scroll c) < CGA_ROWS - 1 \<and> write_column (cons_scroll c) = write_column c
     \<and> same_outside (scr c) (scr (cons_scroll c))"
proof (induction c rule: cons_scroll.induct)
  case (1 c)
  show ?case
  proof (cases "write_line c \<ge> CGA_ROWS - 1")
    case True
    with "1.IH" show ?thesis
      by (subst (1 2 3) cons_scroll.simps) (auto intro: same_outside_trans [OF same_outside_scroll])
  next
    case False
    then show ?thesis by (subst (1 2 3) cons_scroll.simps) auto
  qed
qed

lemma cons_wrap_screen:
  assumes "same_outside g (scr c)"
  shows "on_screen (cons_wrap c) \<and> same_outside g (scr (cons_wrap c))"
  using cons_scroll_screen [of c]
    cons_scroll_screen [of "c\<lparr>write_column := 0, write_line := write_line c + 1\<rparr>"]
  by (auto simp: cons_wrap_def on_screen_def intro: same_outside_trans [OF assms])

lemma cons_write_char_screen:
  assumes "on_screen c"
  shows "on_screen (cons_write_char ch c) \<and> same_outside (scr c) (scr (cons_write_char ch c))"
  using assms
  by (auto simp: cons_write_char_def Let_def on_screen_def [of c] same_outside_set_char
        intro!: cons_wrap_screen) (auto simp: on_screen_def)

lemma cons_write_chars_screen:
  "on_screen c \<Longrightarrow> on_screen (cons_write_chars chs c)
     \<and> same_outside (scr c) (scr (cons_write_chars chs c))"
proof (induction chs arbitrary: c)
  case (Cons ch chs)
  then show ?case
    using cons_write_char_screen [OF Cons.prems, of ch] by (auto intro: same_outside_trans)
qed simp

section \<open>The editor is a zipper\<close>

lemma length_shift_left [simp]: "length (shift_left b i n) = length b"
  by (induction b i n rule: shift_left.induct) (subst shift_left.simps, simp)

lemma length_shift_right [simp]: "length (shift_right b i cur) = length b"
  by (induction b i cur rule: shift_right.induct) (subst shift_right.simps, simp)

lemma nth_shift_left:
  "n < length b \<Longrightarrow> k < length b \<Longrightarrow>
     shift_left b i n ! k = (if i \<le> k \<and> k < n then b ! (k + 1) else b ! k)"
proof (induction b i n rule: shift_left.induct)
  case (1 b i n)
  then show ?case by (cases "k = i"; subst shift_left.simps) (auto simp: nth_list_update)
qed

lemma nth_shift_right:
  "i < length b \<Longrightarrow> k < length b \<Longrightarrow>
     shift_right b i cur ! k = (if cur < k \<and> k \<le> i then b ! (k - 1) else b ! k)"
proof (induction b i cur rule: shift_right.induct)
  case (1 b i cur)
  then show ?case by (subst shift_right.simps) (auto simp: nth_list_update)
qed

lemma butlast_last_append: "l \<noteq> [] \<Longrightarrow> butlast l @ last l # r = l @ r"
  by (metis append_Cons append_Nil append_assoc append_butlast_last_id)

definition editor_ok :: "console \<Rightarrow> bool" where
  "editor_ok c \<longleftrightarrow> length (line_buffer c) = LINE_BUFFER_CAP
     \<and> line_buffer_len c \<le> LINE_BUFFER_CAP \<and> line_buffer_cursor c \<le> line_buffer_len c"

definition line_text :: "console \<Rightarrow> u8 list" where
  "line_text c = take (line_buffer_len c) (line_buffer c)"

text \<open>The line before and after the cursor.\<close>

definition zipper :: "console \<Rightarrow> u8 list \<times> u8 list" where
  "zipper c = (take (line_buffer_cursor c) (line_text c), drop (line_buffer_cursor c) (line_text c))"

lemma line_frame [simp]:
  "line_text (cons_echo_line_buffer c) = line_text c"
  "zipper (cons_echo_line_buffer c) = zipper c"
  "editor_ok (cons_echo_line_buffer c) = editor_ok c"
  by (simp_all add: line_text_def zipper_def editor_ok_def)

lemma editor_ok_lengths:
  assumes "editor_ok c"
  shows "length (line_text c) = line_buffer_len c" "line_buffer_len c < 2 ^ 32"
    "length (fst (zipper c)) = line_buffer_cursor c"
    "length (snd (zipper c)) = line_buffer_len c - line_buffer_cursor c"
    "fst (zipper c) @ snd (zipper c) = line_text c"
proof -
  show "length (line_text c) = line_buffer_len c" "line_buffer_len c < 2 ^ 32"
    using assms by (auto simp: editor_ok_def line_text_def)
  then show "length (fst (zipper c)) = line_buffer_cursor c"
    "length (snd (zipper c)) = line_buffer_len c - line_buffer_cursor c"
    "fst (zipper c) @ snd (zipper c) = line_text c"
    using assms by (auto simp: editor_ok_def zipper_def)
qed

lemma remove_at_cursor_text:
  assumes ok: "editor_ok c" and lt: "line_buffer_cursor c < line_buffer_len c"
  shows "line_text (remove_at_cursor c)
      = take (line_buffer_cursor c) (line_text c) @ drop (line_buffer_cursor c + 1) (line_text c)"
proof -
  let ?n = "line_buffer_len c - 1" and ?b = "line_buffer c" and ?cur = "line_buffer_cursor c"
  have s: "sub32 (line_buffer_len c) 1 = ?n"
    using assms editor_ok_lengths(2) [OF ok] by simp
  have "take ?n (shift_left ?b ?cur ?n) = take ?cur (take (line_buffer_len c) ?b)
      @ drop (?cur + 1) (take (line_buffer_len c) ?b)"
    by (rule nth_equalityI)
       (use assms in \<open>auto simp: editor_ok_def nth_append nth_shift_left\<close>)
  then show ?thesis by (simp add: line_text_def remove_at_cursor_def s [simplified])
qed

lemma remove_at_cursor_ok:
  assumes "editor_ok c" "line_buffer_cursor c < line_buffer_len c"
  shows "editor_ok (remove_at_cursor c)"
    "line_buffer_cursor (remove_at_cursor c) = line_buffer_cursor c"
  using assms editor_ok_lengths(2) [OF assms(1)]
  by (auto simp: editor_ok_def remove_at_cursor_def)

lemma remove_at_cursor_zipper:
  assumes "editor_ok c" "zipper c = (l, r)" "r \<noteq> []"
  shows "editor_ok (remove_at_cursor c) \<and> zipper (remove_at_cursor c) = (l, tl r)"
proof -
  have lt: "line_buffer_cursor c < line_buffer_len c"
    using editor_ok_lengths(4) [OF assms(1)] assms(2,3) by (cases r) auto
  from assms(2) have lr: "l = take (line_buffer_cursor c) (line_text c)"
      "r = drop (line_buffer_cursor c) (line_text c)"
    by (auto simp: zipper_def)
  have "length l = line_buffer_cursor c"
    using editor_ok_lengths(3) [OF assms(1)] assms(2) by simp
  then show ?thesis
    using remove_at_cursor_ok [OF assms(1) lt] remove_at_cursor_text [OF assms(1) lt]
    by (simp add: zipper_def lr drop_Suc tl_drop)
qed

text \<open>The abstract line editor, and the refinement of every editing operation.\<close>

datatype edit = Insert_Char u8 | Backspace | Delete | Left | Right | Home | End

fun zip_edit :: "bool \<Rightarrow> edit \<Rightarrow> u8 list \<times> u8 list \<Rightarrow> u8 list \<times> u8 list" where
  "zip_edit ins (Insert_Char ch) (l, r) =
     (if ins then (if length l + length r < LINE_BUFFER_CAP then (l @ [ch], r) else (l, r))
      else (if length l < LINE_BUFFER_CAP then (l @ [ch], tl r) else (l, r)))"
| "zip_edit ins Backspace (l, r) = (butlast l, r)"
| "zip_edit ins Delete (l, r) = (l, tl r)"
| "zip_edit ins Left (l, r) = (if l = [] then (l, r) else (butlast l, last l # r))"
| "zip_edit ins Right (l, r) = (if r = [] then (l, r) else (l @ [hd r], tl r))"
| "zip_edit ins Home (l, r) = ([], l @ r)"
| "zip_edit ins End (l, r) = (l @ r, [])"

fun cons_edit :: "edit \<Rightarrow> console \<Rightarrow> console" where
  "cons_edit (Insert_Char ch) c = cons_char_handler ch c"
| "cons_edit Backspace c = cons_backspace c"
| "cons_edit Delete c = cons_delete c"
| "cons_edit Left c = cons_cursor_left c"
| "cons_edit Right c = cons_cursor_right c"
| "cons_edit Home c = cons_home c"
| "cons_edit End c = cons_end c"

lemma backspace_zipper:
  assumes ok: "editor_ok c" and z: "zipper c = (l, r)"
  shows "editor_ok (cons_backspace c) \<and> zipper (cons_backspace c) = (butlast l, r)"
proof (cases "line_buffer_cursor c > 0")
  case True
  define d where "d = c\<lparr>line_buffer_cursor := line_buffer_cursor c - 1\<rparr>"
  have ln: "length l = line_buffer_cursor c"
    using editor_ok_lengths(3) [OF ok] z by simp
  have okd: "editor_ok d" using ok by (auto simp: editor_ok_def d_def)
  have "zipper d = (butlast l, last l # r)"
  proof -
    have "l \<noteq> []" using True ln by auto
    have lr: "l = take (line_buffer_cursor c) (line_text c)" "r = drop (line_buffer_cursor c) (line_text c)"
      using z by (auto simp: zipper_def)
    have "line_text c = butlast l @ last l # r"
      using \<open>l \<noteq> []\<close> editor_ok_lengths(5) [OF ok] z by (simp add: butlast_last_append)
    moreover have "line_text d = line_text c" by (simp add: line_text_def d_def)
    ultimately show ?thesis
      using ln True by (simp add: zipper_def d_def)
  qed
  from remove_at_cursor_zipper [OF okd this] True show ?thesis
    by (simp add: cons_backspace_def d_def)
next
  case False
  with editor_ok_lengths(3) [OF ok] z have "l = []" by simp
  with False ok z show ?thesis by (simp add: cons_backspace_def)
qed

lemma delete_zipper:
  assumes ok: "editor_ok c" and z: "zipper c = (l, r)"
  shows "editor_ok (cons_delete c) \<and> zipper (cons_delete c) = (l, tl r)"
proof (cases "line_buffer_cursor c < line_buffer_len c")
  case True
  then have "0 < length r" using editor_ok_lengths(4) [OF ok] z by simp
  then have "r \<noteq> []" by simp
  with remove_at_cursor_zipper [OF ok z] True show ?thesis by (simp add: cons_delete_def)
next
  case False
  with editor_ok_lengths(4) [OF ok] z have "r = []" by simp
  with False ok z show ?thesis by (simp add: cons_delete_def)
qed

lemma zipper_move:
  assumes ok: "editor_ok c" and k: "k \<le> line_buffer_len c"
  shows "editor_ok (c\<lparr>line_buffer_cursor := k\<rparr>)"
    "zipper (c\<lparr>line_buffer_cursor := k\<rparr>) = (take k (line_text c), drop k (line_text c))"
  using assms by (auto simp: editor_ok_def zipper_def line_text_def)

lemma left_zipper:
  assumes ok: "editor_ok c" and z: "zipper c = (l, r)"
  shows "editor_ok (cons_cursor_left c)
    \<and> zipper (cons_cursor_left c) = (if l = [] then (l, r) else (butlast l, last l # r))"
proof (cases "l = []")
  case True
  with editor_ok_lengths(3) [OF ok] z have "line_buffer_cursor c = 0" by simp
  with True ok z show ?thesis by (simp add: cons_cursor_left_def)
next
  case False
  have ln: "length l = line_buffer_cursor c" and t: "line_text c = butlast l @ last l # r"
    using editor_ok_lengths(3,5) [OF ok] z False by (simp_all add: butlast_last_append)
  have "line_buffer_cursor c > 0" "line_buffer_cursor c - 1 \<le> line_buffer_len c"
    using False ok ln by (cases l; auto simp: editor_ok_def)+
  with zipper_move [OF ok this(2)] ln t False show ?thesis by (simp add: cons_cursor_left_def)
qed

lemma right_zipper:
  assumes ok: "editor_ok c" and z: "zipper c = (l, r)"
  shows "editor_ok (cons_cursor_right c)
    \<and> zipper (cons_cursor_right c) = (if r = [] then (l, r) else (l @ [hd r], tl r))"
proof (cases "r = []")
  case True
  with editor_ok_lengths(4) [OF ok] z have "\<not> line_buffer_cursor c < line_buffer_len c" by simp
  with True ok z show ?thesis by (simp add: cons_cursor_right_def)
next
  case False
  then obtain x xs where r: "r = x # xs" by (cases r) auto
  have ln: "length l = line_buffer_cursor c" and t: "line_text c = (l @ [x]) @ xs"
    and lt: "line_buffer_cursor c < line_buffer_len c"
    using editor_ok_lengths [OF ok] z r by auto
  then have le: "line_buffer_cursor c + 1 \<le> line_buffer_len c" by simp
  have "take (line_buffer_cursor c + 1) (line_text c) = l @ [x]"
    "drop (line_buffer_cursor c + 1) (line_text c) = xs"
    unfolding t using ln by simp_all
  with zipper_move [OF ok le] lt r show ?thesis by (simp add: cons_cursor_right_def)
qed

lemma insert_char_zipper:
  assumes ok: "editor_ok c" and z: "zipper c = (l, r)" and lt: "line_buffer_cursor c < LINE_BUFFER_CAP"
  shows "editor_ok (insert_char ch c) \<and> zipper (insert_char ch c) = (l @ [ch], tl r)"
proof -
  let ?cur = "line_buffer_cursor c" and ?len = "line_buffer_len c" and ?b = "line_buffer c"
  have b: "length ?b = LINE_BUFFER_CAP" "?cur \<le> ?len" "?len \<le> LINE_BUFFER_CAP"
    using ok by (auto simp: editor_ok_def)
  have len': "line_buffer_len (insert_char ch c) = max ?len (?cur + 1)"
    "line_buffer (insert_char ch c) = ?b[?cur := ch]"
    "line_buffer_cursor (insert_char ch c) = ?cur + 1"
    by (auto simp: insert_char_def Let_def)
  have l: "l = take ?cur ?b" and r: "r = drop ?cur (take ?len ?b)"
    using z b by (auto simp: zipper_def line_text_def min_def)
  have "take (?cur + 1) (?b[?cur := ch]) = l @ [ch]"
    using b lt by (simp add: l take_Suc_conv_app_nth)
  moreover have "drop (?cur + 1) (take (max ?len (?cur + 1)) (?b[?cur := ch])) = tl r"
  proof -
    have "tl r = drop (?cur + 1) (take ?len ?b)" by (simp add: r drop_Suc tl_drop)
    then show ?thesis using b lt by (intro nth_equalityI) (auto simp: max_def split: if_splits)
  qed
  ultimately show ?thesis
    using b lt by (auto simp: editor_ok_def zipper_def line_text_def len' min_def max_def)
qed

lemma char_insert_zipper:
  assumes ok: "editor_ok c" and z: "zipper c = (l, r)" and lt: "line_buffer_len c < LINE_BUFFER_CAP"
  defines "c1 \<equiv> c\<lparr>line_buffer_len := line_buffer_len c + 1,
    line_buffer := shift_right (line_buffer c) (line_buffer_len c) (line_buffer_cursor c)\<rparr>"
  shows "editor_ok c1 \<and> fst (zipper c1) = l \<and> tl (snd (zipper c1)) = r"
proof -
  let ?cur = "line_buffer_cursor c" and ?len = "line_buffer_len c" and ?b = "line_buffer c"
  have b: "length ?b = LINE_BUFFER_CAP" "?cur \<le> ?len" "?len \<le> LINE_BUFFER_CAP"
    using ok by (auto simp: editor_ok_def)
  have l: "l = take ?cur ?b" and r: "r = drop ?cur (take ?len ?b)"
    using z b by (auto simp: zipper_def line_text_def min_def)
  have "take ?cur (shift_right ?b ?len ?cur) = l"
    using b lt by (intro nth_equalityI) (auto simp: l nth_shift_right)
  moreover have "tl (drop ?cur (take (?len + 1) (shift_right ?b ?len ?cur))) = r"
    using b lt by (intro nth_equalityI) (auto simp: r nth_tl nth_shift_right)
  ultimately show ?thesis
    using b lt by (auto simp: c1_def editor_ok_def zipper_def line_text_def min_def)
qed

lemma char_zipper:
  assumes ok: "editor_ok c" and z: "zipper c = (l, r)"
  shows "editor_ok (cons_char_handler ch c)
    \<and> zipper (cons_char_handler ch c) = zip_edit (line_buffer_insert c) (Insert_Char ch) (l, r)"
proof -
  have ln: "length l = line_buffer_cursor c" "length l + length r = line_buffer_len c"
    using editor_ok_lengths [OF ok] z ok by (auto simp: editor_ok_def)
  have b: "line_buffer_cursor c \<le> line_buffer_len c" "line_buffer_len c \<le> LINE_BUFFER_CAP"
    using ok by (auto simp: editor_ok_def)
  show ?thesis
  proof (cases "line_buffer_cursor c < LINE_BUFFER_CAP")
    case False
    with b have "line_buffer_len c = LINE_BUFFER_CAP" by simp
    with False ln ok z show ?thesis by (simp add: cons_char_handler_def)
  next
    case cur: True
    show ?thesis
    proof (cases "line_buffer_insert c")
      case False
      with cur insert_char_zipper [OF ok z cur, of ch] ln show ?thesis
        by (simp add: cons_char_handler_def)
    next
      case ins: True
      show ?thesis
      proof (cases "line_buffer_len c < LINE_BUFFER_CAP")
        case False
        with cur ins ln ok z show ?thesis by (simp add: cons_char_handler_def)
      next
        case True
        define c1 where "c1 = c\<lparr>line_buffer_len := line_buffer_len c + 1,
          line_buffer := shift_right (line_buffer c) (line_buffer_len c) (line_buffer_cursor c)\<rparr>"
        from char_insert_zipper [OF ok z True]
        have ok1: "editor_ok c1" and z1: "fst (zipper c1) = l" "tl (snd (zipper c1)) = r"
          by (auto simp: c1_def)
        have "zipper c1 = (l, snd (zipper c1))" using z1(1) by (cases "zipper c1") simp
        from insert_char_zipper [OF ok1 this, of ch] cur z1 ins True ln
        show ?thesis by (simp add: cons_char_handler_def Let_def c1_def)
      qed
    qed
  qed
qed

text \<open>Every editing operation implements the abstract editor and keeps its indices in bounds.\<close>

lemma cons_edit_zipper:
  assumes ok: "editor_ok c"
  shows "editor_ok (cons_edit e c) \<and> zipper (cons_edit e c) = zip_edit (line_buffer_insert c) e (zipper c)"
proof -
  obtain l r where z: "zipper c = (l, r)" by (cases "zipper c")
  have lr: "l @ r = line_text c" "length (line_text c) = line_buffer_len c"
    using editor_ok_lengths [OF ok] z by simp_all
  show ?thesis
  proof (cases e)
    case (Insert_Char ch)
    with char_zipper [OF ok z] z show ?thesis by simp
  next
    case Home
    then show ?thesis using zipper_move [OF ok, of 0] z lr by (simp add: cons_home_def)
  next
    case End
    then show ?thesis using zipper_move [OF ok, of "line_buffer_len c"] z lr
      by (simp add: cons_end_def)
  qed (use backspace_zipper [OF ok z] delete_zipper [OF ok z] left_zipper [OF ok z]
         right_zipper [OF ok z] z in simp_all)
qed

text \<open>Editing leaves the insert mode and the finished lines alone.\<close>

lemma cons_edit_frame [simp, frame]:
  "line_buffer_insert (cons_edit e c) = line_buffer_insert c"
  "all_buffer (cons_edit e c) = all_buffer c" "all_buffer_len (cons_edit e c) = all_buffer_len c"
  "wake_set (cons_edit e c) = wake_set c"
  by (cases e; simp add: cons_char_handler_def cons_backspace_def cons_delete_def
      cons_cursor_left_def cons_cursor_right_def cons_home_def cons_end_def remove_at_cursor_def
      insert_char_def Let_def)+

lemma cons_edits_zipper:
  "editor_ok c \<Longrightarrow> editor_ok (fold cons_edit es c)
     \<and> zipper (fold cons_edit es c) = fold (zip_edit (line_buffer_insert c)) es (zipper c)"
  by (induction es arbitrary: c) (use cons_edit_zipper in auto)

lemma cons_edits_frame [simp, frame]:
  "line_buffer_insert (fold cons_edit es c) = line_buffer_insert c"
  "all_buffer (fold cons_edit es c) = all_buffer c"
  "all_buffer_len (fold cons_edit es c) = all_buffer_len c"
  "wake_set (fold cons_edit es c) = wake_set c"
  by (induction es arbitrary: c) auto

lemma zip_insert_all:
  "length l + length t \<le> LINE_BUFFER_CAP \<Longrightarrow>
     fold (zip_edit True) (map Insert_Char t) (l, []) = (l @ t, [])"
  by (induction t arbitrary: l) auto

text \<open>The handlers that the keyboard driver calls for each edit.\<close>

fun edit_key :: "edit \<Rightarrow> keyboard_key" where
  "edit_key (Insert_Char ch) = K_UNKNOWN"
| "edit_key Backspace = K_BACKSPACE"
| "edit_key Delete = K_DELETE"
| "edit_key Left = K_CURSOR_LEFT"
| "edit_key Right = K_CURSOR_RIGHT"
| "edit_key Home = K_HOME"
| "edit_key End = K_END"

definition edit_event :: "edit \<Rightarrow> console \<Rightarrow> console" where
  "edit_event e c = (case e of Insert_Char ch \<Rightarrow> cons_char_handler ch c
     | _ \<Rightarrow> (case cons_key_handler (edit_key e) K_PRESS c of Cons_Idle c' \<Rightarrow> c' | _ \<Rightarrow> c))"

lemma edit_event_eq: "edit_event = cons_edit"
proof (intro ext)
  fix e c
  show "edit_event e c = cons_edit e c"
    by (cases e) (simp_all add: edit_event_def cons_key_handler_def)
qed

lemma zero_zipper: "zipper (console_zero g) = ([], [])" "line_buffer_insert (console_zero g)"
  by (simp_all add: zipper_def line_text_def console_zero_def)

lemma zero_editor_ok: "editor_ok (console_zero g)"
  by (simp add: editor_ok_def console_zero_def)

section \<open>The buffer of finished lines is a queue\<close>

definition all_ok :: "console \<Rightarrow> bool" where
  "all_ok c \<longleftrightarrow> length (all_buffer c) = ALL_BUFFER_CAP \<and> all_buffer_len c \<le> ALL_BUFFER_CAP"

text \<open>The characters waiting to be read, oldest first.\<close>

definition pending :: "console \<Rightarrow> u8 list" where
  "pending c = take (all_buffer_len c) (all_buffer c)"

lemma length_pending [simp]: "all_ok c \<Longrightarrow> length (pending c) = all_buffer_len c"
  by (simp add: pending_def all_ok_def)

lemma flush_some:
  assumes a: "all_ok c" and e: "editor_ok c" and lt: "all_buffer_len c < ALL_BUFFER_CAP"
  shows "\<exists>c'. cons_flush_line_buffer c = Some (wake_set c, c') \<and> all_ok c' \<and> editor_ok c'
    \<and> pending c' = pending c @ take (ALL_BUFFER_CAP - 1 - all_buffer_len c) (line_text c) @ [0x0A]
    \<and> line_text c' = [] \<and> \<not> wake_set c'"
proof -
  let ?at = "all_buffer_len c" and ?k = "min (2047 - all_buffer_len c) (line_buffer_len c)"
  have s: "sub32 (sub32 2048 ?at) 1 = 2047 - ?at" using lt by simp
  have k: "(if 2047 - ?at > line_buffer_len c then line_buffer_len c else 2047 - ?at) = ?k"
    by (auto simp: min_def)
  define new where "new = (take ?at (all_buffer c) @ take ?k (line_buffer c)
    @ drop (?at + ?k) (all_buffer c))[?at + ?k := 0x0A]"
  define c' where "c' = c\<lparr>all_buffer := new, all_buffer_len := ?at + ?k + 1,
    line_buffer_len := 0, line_buffer_cursor := 0, wake_set := False\<rparr>"
  have bl: "length (line_buffer c) = 1024" "line_buffer_len c \<le> 1024" "length (all_buffer c) = 2048"
    using e a by (auto simp: editor_ok_def all_ok_def)
  have lt2: "\<not> ?at + ?k \<ge> 2048" using lt by (auto simp: min_def)
  have "cons_flush_line_buffer c = Some (wake_set c, c')"
    using lt2 unfolding cons_flush_line_buffer_def Let_def s k by (simp add: c'_def new_def)
  moreover have "length new = 2048 \<and> take (?at + ?k + 1) new
      = take ?at (all_buffer c) @ take ?k (line_buffer c) @ [0x0A]"
  proof -
    define A B C where "A = take ?at (all_buffer c)" and "B = take ?k (line_buffer c)"
      and "C = drop (?at + ?k) (all_buffer c)"
    have l: "length A = ?at" "length B = ?k" "length C = 2048 - (?at + ?k)"
      using bl lt by (auto simp: A_def B_def C_def)
    with lt2 obtain x D where C: "C = x # D" by (cases C) auto
    have "new = A @ B @ 0x0A # D"
      using l(1,2) by (simp add: new_def A_def [symmetric] B_def [symmetric] C_def [symmetric] C
          list_update_append)
    with l C lt2 show ?thesis by (simp add: A_def [symmetric] B_def [symmetric])
  qed
  moreover have "take ?k (line_buffer c) = take (2047 - ?at) (line_text c)"
    by (simp add: line_text_def)
  ultimately have "cons_flush_line_buffer c = Some (wake_set c, c')" "length new = 2048"
    "take (?at + ?k + 1) new = pending c @ take (2047 - ?at) (line_text c) @ [0x0A]"
    by (auto simp: pending_def)
  then show ?thesis
    using lt2 e by (intro exI [of _ c']) (auto simp: c'_def all_ok_def editor_ok_def pending_def line_text_def)
qed

text \<open>\<open>ALL_BUFFER_CAP - all_buffer_len - 1\<close> wraps around when the buffer is full.\<close>

lemma flush_full:
  assumes "all_buffer_len c = ALL_BUFFER_CAP" "editor_ok c"
  shows "cons_flush_line_buffer c = None"
proof -
  have "sub32 (sub32 2048 2048) 1 = 2 ^ 32 - 1" by (simp add: sub32_wraps)
  moreover have "line_buffer_len c \<le> 1024" using assms(2) by (simp add: editor_ok_def)
  ultimately show ?thesis by (simp add: cons_flush_line_buffer_def assms(1))
qed

lemma read_loop_eq:
  assumes "i \<le> n" "n \<le> length b"
  defines "p \<equiv> take (n - i) (drop i b)"
  shows "read_loop b i n = (takeWhile (\<lambda>x. x \<noteq> 0x0A) p,
     if 0x0A \<in> set p then i + length (takeWhile (\<lambda>x. x \<noteq> 0x0A) p) + 1 else n, 0x0A \<in> set p)"
  using assms(1,2) unfolding p_def
proof (induction b i n rule: read_loop.induct)
  case (1 b i n)
  show ?case
  proof (cases "i < n")
    case True
    with "1.prems" have d: "drop i b = b ! i # drop (Suc i) b"
      by (simp add: Cons_nth_drop_Suc)
    from True have t: "take (n - i) (drop i b) = b ! i # take (n - Suc i) (drop (Suc i) b)"
      by (simp add: d take_Cons')
    show ?thesis
    proof (cases "b ! i = 0x0A")
      case True
      with \<open>i < n\<close> show ?thesis by (subst read_loop.simps) (simp add: t)
    next
      case False
      with "1.IH" [OF \<open>i < n\<close> False] "1.prems" \<open>i < n\<close> show ?thesis
        by (subst read_loop.simps) (simp add: t)
    qed
  next
    case False
    with "1.prems" show ?thesis by (subst read_loop.simps) simp
  qed
qed

lemma length_shift_down [simp]: "length (shift_down b j n k) = length b"
  by (induction b j n k rule: shift_down.induct) (subst shift_down.simps, simp)

lemma nth_shift_down:
  "n + k \<le> length b \<Longrightarrow> m < length b \<Longrightarrow>
     shift_down b j n k ! m = (if j \<le> m \<and> m < n then b ! (m + k) else b ! m)"
proof (induction b j n k rule: shift_down.induct)
  case (1 b j n k)
  show ?case
  proof (cases "j < n")
    case True
    with "1.IH" "1.prems" show ?thesis
      by (cases "m = j"; subst shift_down.simps) (auto simp: nth_list_update)
  qed (subst shift_down.simps, auto)
qed

lemma take_shift_down:
  assumes "n + k \<le> length b"
  shows "take n (shift_down b 0 n k) = take n (drop k b)"
  by (rule nth_equalityI) (use assms in \<open>auto simp: nth_shift_down add.commute\<close>)

lemma try_read_empty:
  assumes "all_ok c" "pending c = []" "0 < len"
  shows "cons_try_read len wake c = (False, len, [], if wake then c\<lparr>wake_set := True\<rparr> else c)"
proof -
  have "all_buffer_len c = 0" using length_pending [OF assms(1)] assms(2) by simp
  with assms(3) show ?thesis by (simp add: cons_try_read_def)
qed

lemma try_read_some:
  assumes ok: "all_ok c" and ne: "pending c \<noteq> []" and len: "0 < len"
  defines "p \<equiv> take len (pending c)"
  defines "line \<equiv> takeWhile (\<lambda>x. x \<noteq> 0x0A) p"
  shows "\<exists>c'. cons_try_read len wake c = (True, length line, line, c') \<and> all_ok c'
    \<and> pending c' = drop (length line + (if 0x0A \<in> set p then 1 else 0)) (pending c)"
proof -
  let ?n = "all_buffer_len c" and ?b = "all_buffer c"
  have b: "length ?b = 2048" "?n \<le> 2048" "0 < ?n"
    using ok ne by (auto simp: all_ok_def pending_def)
  define m where "m = (if len > ?n then ?n else len)"
  have m: "m \<le> ?n" "0 < m" using len b by (auto simp: m_def)
  have p: "p = take m ?b"
    by (auto simp: p_def pending_def m_def min_def)
  define r where "r = (if 0x0A \<in> set p then length line + 1 else m)"
  have ll: "length line \<le> length p" by (simp add: line_def length_takeWhile_le)
  have lp: "length p = m" using m b by (simp add: p)
  have rm: "r \<le> m"
  proof (cases "0x0A \<in> set p")
    case True
    then have "line \<noteq> p" unfolding line_def using takeWhile_eq_all_conv [of "\<lambda>x. x \<noteq> 0x0A" p] by auto
    then have "length line \<noteq> length p"
      using takeWhile_dropWhile_id [of "\<lambda>x. x \<noteq> 0x0A" p] unfolding line_def
      by (metis append_eq_append_conv append_Nil2)
    with ll lp show ?thesis by (simp add: r_def True)
  qed (simp add: r_def)
  have line_m: "length line = m" if "0x0A \<notin> set p"
  proof -
    have "line = p" using that by (auto simp: line_def takeWhile_eq_all_conv)
    with lp show ?thesis by simp
  qed
  define c' where "c' = c\<lparr>all_buffer_len := ?n - r, all_buffer := shift_down ?b 0 (?n - r) r\<rparr>"
  have rl: "read_loop ?b 0 m = (line, r, 0x0A \<in> set p)"
    using read_loop_eq [of 0 m ?b] m b by (simp add: line_def p r_def)
  have "cons_try_read len wake c = (True, length line, line, c')"
    using len b line_m by (simp add: cons_try_read_def m_def [symmetric] rl c'_def Let_def) (simp add: r_def)
  moreover have "pending c' = drop r (pending c)"
  proof -
    have "take (?n - r) (shift_down ?b 0 (?n - r) r) = take (?n - r) (drop r ?b)"
      using rm m b by (intro take_shift_down) auto
    then show ?thesis by (simp add: pending_def c'_def drop_take)
  qed
  moreover have "r = length line + (if 0x0A \<in> set p then 1 else 0)"
    using line_m by (simp add: r_def)
  moreover have "all_ok c'" using b by (auto simp: all_ok_def c'_def)
  ultimately show ?thesis by auto
qed

text \<open>Typing lines: the characters of each, then the Enter key.\<close>

primrec type_lines :: "u8 list list \<Rightarrow> console \<Rightarrow> console option" where
  "type_lines [] c = Some c"
| "type_lines (l # ls) c =
     (case cons_key_handler K_ENTER K_PRESS (fold cons_char_handler l c) of
        Cons_Flushed wake c1 \<Rightarrow> type_lines ls (cons_enter_echo c1)
      | _ \<Rightarrow> None)"

lemma char_handlers_edits: "fold cons_char_handler l = fold cons_edit (map Insert_Char l)"
  by (induction l) auto

lemma enter_echo_frame [simp]:
  "all_ok (cons_enter_echo c) = all_ok c" "editor_ok (cons_enter_echo c) = editor_ok c"
  "pending (cons_enter_echo c) = pending c" "line_text (cons_enter_echo c) = line_text c"
  "zipper (cons_enter_echo c) = zipper c"
  "line_buffer_insert (cons_enter_echo c) = line_buffer_insert c"
  "all_buffer_len (cons_enter_echo c) = all_buffer_len c"
  by (simp_all add: cons_enter_echo_def all_ok_def editor_ok_def pending_def line_text_def zipper_def)

lemma flush_insert [simp]:
  "cons_flush_line_buffer c = Some (w, c') \<Longrightarrow> line_buffer_insert c' = line_buffer_insert c"
  by (auto simp: cons_flush_line_buffer_def Let_def split: if_splits)

lemma type_lines_pending:
  assumes "all_ok c" "editor_ok c" "line_text c = []" "line_buffer_insert c"
    "\<forall>l \<in> set ls. length l \<le> LINE_BUFFER_CAP"
    "all_buffer_len c + sum_list (map (\<lambda>l. length l + 1) ls) \<le> ALL_BUFFER_CAP"
  shows "\<exists>c'. type_lines ls c = Some c' \<and> all_ok c'
    \<and> pending c' = pending c @ concat (map (\<lambda>l. l @ [0x0A]) ls)"
  using assms
proof (induction ls arbitrary: c)
  case (Cons l ls)
  let ?c1 = "fold cons_char_handler l c"
  have z: "zipper c = ([], [])" using Cons.prems(3) by (simp add: zipper_def)
  have e1: "editor_ok ?c1" "zipper ?c1 = (l, [])"
    using cons_edits_zipper [OF Cons.prems(2), of "map Insert_Char l"] zip_insert_all [of "[]" l]
      Cons.prems(4,5) by (simp_all add: char_handlers_edits z)
  have t1: "line_text ?c1 = l"
    using e1(2) append_take_drop_id [of "line_buffer_cursor ?c1" "line_text ?c1"]
    by (simp add: zipper_def)
  have f1: "all_ok ?c1" "pending ?c1 = pending c" "all_buffer_len ?c1 = all_buffer_len c"
    "line_buffer_insert ?c1"
    using Cons.prems(1,4) by (simp_all add: char_handlers_edits all_ok_def pending_def)
  from flush_some [OF f1(1) e1(1)] Cons.prems(6) f1(3) t1 obtain c2 where
    c2: "cons_flush_line_buffer ?c1 = Some (wake_set ?c1, c2)" "all_ok c2" "editor_ok c2"
      "pending c2 = pending c @ take (2047 - all_buffer_len c) l @ [0x0A]" "line_text c2 = []"
    using f1(2) by auto
  have "take (2047 - all_buffer_len c) l = l" using Cons.prems(6) by simp
  with c2(4) have p2: "pending c2 = pending c @ l @ [0x0A]" by simp
  have n2: "all_buffer_len c2 = all_buffer_len c + length l + 1"
    using length_pending [OF c2(2)] length_pending [OF Cons.prems(1)] p2 by simp
  have "\<exists>c'. type_lines ls (cons_enter_echo c2) = Some c' \<and> all_ok c'
    \<and> pending c' = pending (cons_enter_echo c2) @ concat (map (\<lambda>l. l @ [0x0A]) ls)"
    using Cons.prems(5,6) c2 n2 f1(4) flush_insert [OF c2(1)] by (intro Cons.IH) auto
  then show ?case using p2 c2(1) by (simp add: cons_key_handler_def)
qed simp

text \<open>
  What the system call layer relies on: a source of lines. Reading a non-empty source returns the
  first line, without its line feed, if it fits; draining a source of whole lines gives them back
  in order.
\<close>

primrec read_lines ::
    "(nat \<Rightarrow> bool \<Rightarrow> 'c \<Rightarrow> bool \<times> nat \<times> u8 list \<times> 'c) \<Rightarrow> nat \<Rightarrow> nat \<Rightarrow> 'c \<Rightarrow> u8 list list \<times> 'c" where
  "read_lines try_read len 0 c = ([], c)"
| "read_lines try_read len (Suc k) c = (case try_read len False c of (_, _, l, c') \<Rightarrow>
     (case read_lines try_read len k c' of (ls, c'') \<Rightarrow> (l # ls, c'')))"

locale line_source =
  fixes try_read :: "nat \<Rightarrow> bool \<Rightarrow> 'c \<Rightarrow> bool \<times> nat \<times> u8 list \<times> 'c"
    and content :: "'c \<Rightarrow> u8 list"
    and ok :: "'c \<Rightarrow> bool"
  assumes blocks: "ok c \<Longrightarrow> content c = [] \<Longrightarrow> 0 < len \<Longrightarrow> fst (try_read len w c) = False"
    and reads: "ok c \<Longrightarrow> content c \<noteq> [] \<Longrightarrow> 0 < len \<Longrightarrow> p = take len (content c) \<Longrightarrow>
      line = takeWhile (\<lambda>x. x \<noteq> 0x0A) p \<Longrightarrow>
      \<exists>c'. try_read len w c = (True, length line, line, c') \<and> ok c'
        \<and> content c' = drop (length line + (if 0x0A \<in> set p then 1 else 0)) (content c)"
begin

lemma read_line:
  assumes "ok c" "content c = l @ 0x0A # rest" "0x0A \<notin> set l" "length l < len"
  shows "\<exists>c'. try_read len w c = (True, length l, l, c') \<and> ok c' \<and> content c' = rest"
proof -
  have p: "take len (content c) = l @ 0x0A # take (len - length l - 1) rest"
    using assms(2,4) by (simp add: take_Cons')
  have "takeWhile (\<lambda>x. x \<noteq> 0x0A) (take len (content c)) = l"
    using assms(3) unfolding p by (simp add: takeWhile_append)
  with reads [OF assms(1) _ _ refl refl, of len w] assms(2,4) p show ?thesis by auto
qed

text \<open>Reads with room for every line return the lines that were typed, in order.\<close>

lemma read_lines_all:
  assumes "ok c" "content c = concat (map (\<lambda>l. l @ [0x0A]) ls) @ rest"
    "\<forall>l \<in> set ls. 0x0A \<notin> set l \<and> length l < len"
  shows "\<exists>c'. read_lines try_read len (length ls) c = (ls, c') \<and> ok c' \<and> content c' = rest"
  using assms
proof (induction ls arbitrary: c)
  case (Cons l ls)
  then have "content c = l @ 0x0A # concat (map (\<lambda>l. l @ [0x0A]) ls) @ rest"
    "0x0A \<notin> set l" "length l < len"
    by auto
  from read_line [OF Cons.prems(1) this] obtain c1 where
    c1: "try_read len False c = (True, length l, l, c1)" "ok c1"
      "content c1 = concat (map (\<lambda>l. l @ [0x0A]) ls) @ rest" by blast
  from Cons.IH [OF c1(2,3)] Cons.prems(3) c1(1) show ?case by auto
qed simp

end

interpretation cons_lines: line_source cons_try_read pending all_ok
proof
  fix c :: console and len :: nat and w :: bool and p line :: "u8 list"
  assume "all_ok c" "pending c = []" "0 < len"
  then show "fst (cons_try_read len w c) = False" by (simp add: try_read_empty)
next
  fix c :: console and len :: nat and w :: bool and p line :: "u8 list"
  assume "all_ok c" "pending c \<noteq> []" "0 < len" "p = take len (pending c)"
    "line = takeWhile (\<lambda>x. x \<noteq> 0x0A) p"
  with try_read_some [of c len w] show "\<exists>c'. cons_try_read len w c = (True, length line, line, c')
      \<and> all_ok c' \<and> pending c' = drop (length line + (if 0x0A \<in> set p then 1 else 0)) (pending c)"
    by simp
qed

end
