(* ===== verification/Process_State.thy ===== *)
theory Process_State
  imports Links Pool Console
begin

text \<open>
  The data of the process subsystem (\<^verbatim>\<open>kernel/process/internals.h\<close> and the global variables of
  \<^verbatim>\<open>scheduler.c\<close>, \<^verbatim>\<open>overall.c\<close>, \<^verbatim>\<open>queue.c\<close>, \<^verbatim>\<open>time.c\<close>, \<^verbatim>\<open>cons.c\<close>), the state of the whole kernel
  and the context switch. A process structure is a record found at its address; the memory of a
  structure that was freed stays readable, as it is in the code.
\<close>

section \<open>The process structure\<close>

datatype process_state =
    PROCESS_SCHED
  | PROCESS_WAIT_CHILD
  | PROCESS_WAIT_TIME
  | PROCESS_WAIT_QUEUE
  | PROCESS_WAIT_CONS_READ
  | PROCESS_ZOMBIE

text \<open>
  The union of the state-specific structures is kept as the memory it is: \<open>u0\<close> to \<open>u4\<close> are its
  words at offsets 0, 4, 8, 12 and 16. A field of one structure is the word of another at the same
  offset, so that a write through one structure is seen through the others.
\<close>

record process =
  p_parent :: ptr
  p_child :: ptr
  p_sibling :: ptr
  p_state :: process_state
  u0 :: u32
  u1 :: u32
  u2 :: ptr
  u3 :: int
  u4 :: bool
  kernel_stack :: ptr
  kernel_esp :: ptr
  stack :: ptr
  stack_size :: u32
  p_pid :: int
  p_name :: "u8 list"
  p_priority :: int

text \<open>\<open>struct process_state_sched\<close>\<close>

abbreviation (input) sched_prev :: "process \<Rightarrow> ptr" where "sched_prev \<equiv> u0"
abbreviation (input) sched_next :: "process \<Rightarrow> ptr" where "sched_next \<equiv> u1"
abbreviation (input) new_zombie_child :: "process \<Rightarrow> ptr" where "new_zombie_child \<equiv> u2"
abbreviation (input) wait_queue_message :: "process \<Rightarrow> int" where "wait_queue_message \<equiv> u3"
abbreviation (input) wait_queue_reset :: "process \<Rightarrow> bool" where "wait_queue_reset \<equiv> u4"

text \<open>\<open>struct process_state_wait_child\<close> and \<open>struct process_state_zombie\<close>: a C int in word 0.\<close>

definition child_pid :: "process \<Rightarrow> int" where "child_pid pr = sint (u0 pr)"
definition exit_code :: "process \<Rightarrow> int" where "exit_code pr = sint (u0 pr)"

text \<open>\<open>struct process_state_wait_time\<close>\<close>

abbreviation (input) time_next :: "process \<Rightarrow> ptr" where "time_next \<equiv> u0"
abbreviation (input) target_clock :: "process \<Rightarrow> u32" where "target_clock \<equiv> u1"

text \<open>\<open>struct process_state_wait_queue\<close>\<close>

abbreviation (input) queue_prev :: "process \<Rightarrow> ptr" where "queue_prev \<equiv> u0"
abbreviation (input) queue_next :: "process \<Rightarrow> ptr" where "queue_next \<equiv> u1"
abbreviation (input) queue_queue :: "process \<Rightarrow> ptr" where "queue_queue \<equiv> u2"
abbreviation (input) queue_message :: "process \<Rightarrow> int" where "queue_message \<equiv> u3"

text \<open>\<open>struct process_state_wait_cons_read\<close>\<close>

abbreviation (input) cons_next :: "process \<Rightarrow> ptr" where "cons_next \<equiv> u0"

section \<open>The message queue structure\<close>

record process_queue =
  qid :: int
  messages :: ptr
  q_cells :: "nat \<Rightarrow> int"   \<comment> \<open>the memory that \<open>messages\<close> points to\<close>
  capacity :: nat
  q_length :: nat
  read_index :: nat
  write_index :: nat
  wait_process :: ptr

section \<open>Suspended calls\<close>

text \<open>
  A process that is not running keeps on its kernel stack the calls it was in when it was switched
  out. A frame is one of these calls, with what the rest of it still uses of its arguments and
  local variables; the head of the list is the innermost call. Which C function a frame belongs to
  is its name; what it does when it is resumed is defined in the theory of that function. A \<open>void\<close> function with
  nothing left to do needs no frame.
\<close>

datatype frame =
    Fr_return int              \<comment> \<open>a function that has only to return this value\<close>
  | Fr_pit u32                 \<comment> \<open>\<open>process_pit_handler(clock)\<close>, the time handler is next\<close>
  | Fr_start ptr               \<comment> \<open>\<open>process_start\<close> of this process, before \<open>return process->pid\<close>\<close>
  | Fr_wait ptr                \<comment> \<open>\<open>process_wait(_, exit_code)\<close>\<close>
  | Fr_kill ptr int ptr ptr    \<comment> \<open>\<open>process_internal_kill(process, code, _)\<close>, its \<open>next_process\<close>,
                                   in its loop at a child\<close>
  | Fr_exit                    \<comment> \<open>\<open>process_internal_exit\<close>, before its endless loop\<close>
  | Fr_queue_wait              \<comment> \<open>\<open>process_queue_wait\<close>\<close>
  | Fr_send                    \<comment> \<open>\<open>process_queue_send\<close>, waiting for room\<close>
  | Fr_receive ptr             \<comment> \<open>\<open>process_queue_receive(_, message)\<close>, waiting for a message\<close>
  | Fr_delete ptr              \<comment> \<open>\<open>process_queue_delete\<close> of this queue, before the frees\<close>
  | Fr_cons_read ptr u32       \<comment> \<open>\<open>process_wait_cons_read(dst, len)\<close>\<close>
  | Fr_enter "kbd_call list"   \<comment> \<open>the keyboard interrupt in the Enter key, before the echo, with the
                                   handler calls that are still to be made\<close>
  | Fr_startup                 \<comment> \<open>\<open>process_context_startup\<close>: a process that has not run yet\<close>

section \<open>The kernel\<close>

abbreviation (input) PROCESS_MAX_PRIORITY :: int where "PROCESS_MAX_PRIORITY \<equiv> 256"
abbreviation (input) PROCESS_NAME_CAP :: nat where "PROCESS_NAME_CAP \<equiv> 128"
abbreviation (input) PROCESS_POOL_CAP :: nat where "PROCESS_POOL_CAP \<equiv> 1024"
abbreviation (input) QUEUE_POOL_CAP :: nat where "QUEUE_POOL_CAP \<equiv> 256"
abbreviation (input) KERNEL_STACK_SIZE :: u32 where "KERNEL_STACK_SIZE \<equiv> 512"

text \<open>
  The global variables. \<open>heap\<close> and \<open>user_stacks\<close> are the blocks that \<open>kalloc\<close> and
  \<open>user_stack_alloc\<close> have handed out, \<open>frames\<close> the suspended calls, \<open>umem\<close> the memory that is not
  one of the structures above (user memory, and what \<open>process_alloc\<close> writes to a new stack),
  \<open>user_start\<close> and \<open>user_end\<close> the bounds of user memory, \<open>startup_code\<close> and
  \<open>implicit_exit_code\<close> the addresses of \<open>process_context_startup\<close> and \<open>process_implicit_exit\<close>,
  \<open>tss_esp0\<close> the kernel stack the processor switches to on an interrupt. The linker chooses the
  addresses, so they are part of the state and never change.
\<close>

record kernel =
  proc :: "ptr \<Rightarrow> process"
  queue :: "ptr \<Rightarrow> process_queue"
  process_sched_rings :: "int \<Rightarrow> ptr"
  process_active :: ptr
  process_id_pool :: id_pool
  process_pool :: "int \<Rightarrow> ptr"
  clock_wait_head :: ptr
  cons_read_wait_head :: ptr
  queue_id_pool :: id_pool
  queue_pool :: "int \<Rightarrow> ptr"
  heap :: "ptr set"
  user_stacks :: "ptr set"
  frames :: "ptr \<Rightarrow> frame list"
  tss_esp0 :: ptr
  pit_clock :: u32
  pit_handler_set :: bool
  cons :: console
  kbd :: keyboard
  umem :: bmem
  user_start :: ptr
  user_end :: ptr
  startup_code :: ptr
  implicit_exit_code :: ptr

definition upd_proc :: "ptr \<Rightarrow> (process \<Rightarrow> process) \<Rightarrow> kernel \<Rightarrow> kernel" where
  "upd_proc p f s = s\<lparr>proc := (proc s)(p := f (proc s p))\<rparr>"

definition upd_queue :: "ptr \<Rightarrow> (process_queue \<Rightarrow> process_queue) \<Rightarrow> kernel \<Rightarrow> kernel" where
  "upd_queue q f s = s\<lparr>queue := (queue s)(q := f (queue s q))\<rparr>"

text \<open>\<open>*field = x\<close> for the fields of the union.\<close>

abbreviation (input) set_u0 :: "u32 \<Rightarrow> process \<Rightarrow> process" where "set_u0 x \<equiv> u0_update (\<lambda>_. x)"
abbreviation (input) set_u1 :: "u32 \<Rightarrow> process \<Rightarrow> process" where "set_u1 x \<equiv> u1_update (\<lambda>_. x)"
abbreviation (input) set_sched_prev :: "ptr \<Rightarrow> process \<Rightarrow> process" where "set_sched_prev \<equiv> set_u0"
abbreviation (input) set_sched_next :: "ptr \<Rightarrow> process \<Rightarrow> process" where "set_sched_next \<equiv> set_u1"
abbreviation (input) set_state :: "process_state \<Rightarrow> process \<Rightarrow> process" where
  "set_state x \<equiv> p_state_update (\<lambda>_. x)"

lemma proc_upd_proc: "proc (upd_proc p f s) = (proc s)(p := f (proc s p))"
  by (simp add: upd_proc_def)

lemma proc_upd_same [simp]: "proc (upd_proc p f s) p = f (proc s p)"
  by (simp add: upd_proc_def)

lemma proc_upd_other [simp]: "q \<noteq> p \<Longrightarrow> proc (upd_proc p f s) q = proc s q"
  by (simp add: upd_proc_def)

lemma upd_proc_twice: "upd_proc p g (upd_proc p f s) = upd_proc p (\<lambda>x. g (f x)) s"
  by (simp add: upd_proc_def)

lemma upd_proc_frame [simp, frame]:
  "queue (upd_proc p f s) = queue s"
  "process_sched_rings (upd_proc p f s) = process_sched_rings s"
  "process_active (upd_proc p f s) = process_active s"
  "process_id_pool (upd_proc p f s) = process_id_pool s"
  "process_pool (upd_proc p f s) = process_pool s"
  "clock_wait_head (upd_proc p f s) = clock_wait_head s"
  "cons_read_wait_head (upd_proc p f s) = cons_read_wait_head s"
  "queue_id_pool (upd_proc p f s) = queue_id_pool s"
  "queue_pool (upd_proc p f s) = queue_pool s"
  "heap (upd_proc p f s) = heap s"
  "user_stacks (upd_proc p f s) = user_stacks s"
  "frames (upd_proc p f s) = frames s"
  "tss_esp0 (upd_proc p f s) = tss_esp0 s"
  "pit_clock (upd_proc p f s) = pit_clock s"
  "cons (upd_proc p f s) = cons s" "kbd (upd_proc p f s) = kbd s"
  "umem (upd_proc p f s) = umem s"
  "user_start (upd_proc p f s) = user_start s"
  "user_end (upd_proc p f s) = user_end s"
  by (simp_all add: upd_proc_def)

lemma upd_queue_frame [simp, frame]:
  "proc (upd_queue q g s) = proc s"
  "process_sched_rings (upd_queue q g s) = process_sched_rings s"
  "process_active (upd_queue q g s) = process_active s"
  "process_id_pool (upd_queue q g s) = process_id_pool s"
  "process_pool (upd_queue q g s) = process_pool s"
  "clock_wait_head (upd_queue q g s) = clock_wait_head s"
  "cons_read_wait_head (upd_queue q g s) = cons_read_wait_head s"
  "queue_id_pool (upd_queue q g s) = queue_id_pool s"
  "queue_pool (upd_queue q g s) = queue_pool s"
  "heap (upd_queue q g s) = heap s"
  "user_stacks (upd_queue q g s) = user_stacks s"
  "frames (upd_queue q g s) = frames s"
  "tss_esp0 (upd_queue q g s) = tss_esp0 s"
  "pit_clock (upd_queue q g s) = pit_clock s"
  "cons (upd_queue q g s) = cons s" "kbd (upd_queue q g s) = kbd s"
  "umem (upd_queue q g s) = umem s"
  "user_start (upd_queue q g s) = user_start s"
  "user_end (upd_queue q g s) = user_end s"
  by (simp_all add: upd_queue_def)

lemma queue_upd_same [simp]: "queue (upd_queue q g s) q = g (queue s q)"
  by (simp add: upd_queue_def)

lemma queue_upd_other [simp]: "r \<noteq> q \<Longrightarrow> queue (upd_queue q g s) r = queue s r"
  by (simp add: upd_queue_def)

text \<open>The two link fields of all processes, as functions on addresses.\<close>

definition link0 :: "kernel \<Rightarrow> ptr \<Rightarrow> ptr" where "link0 s p = u0 (proc s p)"
definition link1 :: "kernel \<Rightarrow> ptr \<Rightarrow> ptr" where "link1 s p = u1 (proc s p)"

lemma link_upd_proc:
  "link0 (upd_proc p f s) = (link0 s)(p := u0 (f (proc s p)))"
  "link1 (upd_proc p f s) = (link1 s)(p := u1 (f (proc s p)))"
  by (auto simp: link0_def link1_def proc_upd_proc fun_eq_iff)

lemma link_set [simp]:
  "link0 (upd_proc p (set_u0 x) s) = (link0 s)(p := x)"
  "link0 (upd_proc p (set_u1 x) s) = link0 s"
  "link1 (upd_proc p (set_u0 x) s) = link1 s"
  "link1 (upd_proc p (set_u1 x) s) = (link1 s)(p := x)"
  "link0 (upd_proc p (set_state st) s) = link0 s"
  "link1 (upd_proc p (set_state st) s) = link1 s"
  "link0 (upd_proc p (p_priority_update g) s) = link0 s"
  "link1 (upd_proc p (p_priority_update g) s) = link1 s"
  by (auto simp: link0_def link1_def proc_upd_proc fun_eq_iff)

lemma link_globals [simp]:
  "link0 (s\<lparr>process_sched_rings := r\<rparr>) = link0 s" "link1 (s\<lparr>process_sched_rings := r\<rparr>) = link1 s"
  "link0 (s\<lparr>process_active := q\<rparr>) = link0 s" "link1 (s\<lparr>process_active := q\<rparr>) = link1 s"
  "link0 (s\<lparr>frames := fr\<rparr>) = link0 s" "link1 (s\<lparr>frames := fr\<rparr>) = link1 s"
  "link0 (s\<lparr>tss_esp0 := q\<rparr>) = link0 s" "link1 (s\<lparr>tss_esp0 := q\<rparr>) = link1 s"
  "link0 (s\<lparr>clock_wait_head := q\<rparr>) = link0 s" "link1 (s\<lparr>clock_wait_head := q\<rparr>) = link1 s"
  "link0 (s\<lparr>cons_read_wait_head := q\<rparr>) = link0 s" "link1 (s\<lparr>cons_read_wait_head := q\<rparr>) = link1 s"
  by (auto simp: link0_def link1_def fun_eq_iff)

lemma link_upd_queue [simp]: "link0 (upd_queue q g s) = link0 s" "link1 (upd_queue q g s) = link1 s"
  by (simp_all add: link0_def link1_def fun_eq_iff)

section \<open>Calls that may end in a context switch\<close>

text \<open>
  \<open>process_context_switch(prev, next)\<close>: the kernel stack of \<open>next\<close> becomes the one of the
  processor. The call does not return to its caller; \<open>prev\<close> has no frame yet, and every caller
  adds its own while the switch unwinds.
\<close>

definition process_context_switch :: "ptr \<Rightarrow> ptr \<Rightarrow> kernel \<Rightarrow> (kernel, unit) outcome" where
  "process_context_switch prev next_process s =
     Switched (s\<lparr>tss_esp0 := kernel_stack (proc s next_process) + KERNEL_STACK_SIZE,
       frames := (if prev = NULL then frames s else (frames s)(prev := []))\<rparr>)"

text \<open>
  A call made in state \<open>s\<close>, by the process that was active then. When it returns, \<open>f\<close> goes on
  with the result; when it ended in a context switch, the caller's frame is added to the kernel
  stack of that process.
\<close>

definition calling :: "kernel \<Rightarrow> frame \<Rightarrow> (kernel, 'a) outcome \<Rightarrow>
    ('a \<Rightarrow> kernel \<Rightarrow> (kernel, 'b) outcome) \<Rightarrow> (kernel, 'b) outcome" where
  "calling s fr m f = (case m of
     Done v s' \<Rightarrow> f v s'
   | Switched s' \<Rightarrow> Switched (s'\<lparr>frames := (frames s')(process_active s :=
       frames s' (process_active s) @ [fr])\<rparr>)
   | Panic e \<Rightarrow> Panic e
   | Hang \<Rightarrow> Hang)"

lemma calling_simps [simp]:
  "calling s fr (Done v s') f = f v s'"
  "calling s fr (Switched s') f = Switched (s'\<lparr>frames := (frames s')(process_active s :=
       frames s' (process_active s) @ [fr])\<rparr>)"
  "calling s fr (Panic e) f = Panic e"
  "calling s fr Hang f = Hang"
  by (simp_all add: calling_def)

text \<open>\<open>process_check_user_ptr\<close> of \<^verbatim>\<open>process.c\<close>.\<close>

definition process_check_user_ptr :: "kernel \<Rightarrow> ptr \<Rightarrow> bool" where
  "process_check_user_ptr s p \<longleftrightarrow> user_start s \<le> p \<and> p < user_end s"

section \<open>User memory\<close>

definition put_user_int :: "ptr \<Rightarrow> int \<Rightarrow> kernel \<Rightarrow> kernel" where
  "put_user_int a v s = (if a \<noteq> NULL then s\<lparr>umem := store32 (umem s) a (word_of_int v)\<rparr> else s)"

text \<open>\<open>dst[0], dst[1], \<dots>\<close>\<close>

primrec store_bytes :: "bmem \<Rightarrow> ptr \<Rightarrow> u8 list \<Rightarrow> bmem" where
  "store_bytes m a [] = m"
| "store_bytes m a (b # bs) = store_bytes (m(a := b)) (a + 1) bs"

section \<open>Changes of links only\<close>

text \<open>
  \<open>relinked W s s'\<close>: from \<open>s\<close> to \<open>s'\<close> only the scheduler rings changed, with the two link words
  of the processes in \<open>W\<close>.
\<close>

definition relinked :: "ptr set \<Rightarrow> kernel \<Rightarrow> kernel \<Rightarrow> bool" where
  "relinked W s s' \<longleftrightarrow>
     (\<forall>q. q \<notin> W \<longrightarrow> proc s' q = proc s q) \<and>
     (\<forall>q. proc s' q = (proc s q)\<lparr>u0 := u0 (proc s' q), u1 := u1 (proc s' q)\<rparr>) \<and>
     s' = s\<lparr>proc := proc s', process_sched_rings := process_sched_rings s'\<rparr>"

lemma relinked_refl [simp]: "relinked W s s"
  by (simp add: relinked_def)

lemma relinked_mono: "relinked W s s' \<Longrightarrow> W \<subseteq> W' \<Longrightarrow> relinked W' s s'"
  by (auto simp: relinked_def)

lemma relinked_outside: "relinked W s s' \<Longrightarrow> q \<notin> W \<Longrightarrow> proc s' q = proc s q"
  by (simp add: relinked_def)

lemma relinked_eqs:
  assumes "relinked W s s'"
  shows "proc s' q = (proc s q)\<lparr>u0 := u0 (proc s' q), u1 := u1 (proc s' q)\<rparr>"
    "s' = s\<lparr>proc := proc s', process_sched_rings := process_sched_rings s'\<rparr>"
  using assms by (simp_all only: relinked_def)

lemma relinked_fields:
  assumes "relinked W s s'"
  shows "p_state (proc s' q) = p_state (proc s q)" "p_priority (proc s' q) = p_priority (proc s q)"
    "p_parent (proc s' q) = p_parent (proc s q)" "p_child (proc s' q) = p_child (proc s q)"
    "p_sibling (proc s' q) = p_sibling (proc s q)" "p_pid (proc s' q) = p_pid (proc s q)"
    "u2 (proc s' q) = u2 (proc s q)" "u3 (proc s' q) = u3 (proc s q)"
    "u4 (proc s' q) = u4 (proc s q)" "kernel_stack (proc s' q) = kernel_stack (proc s q)"
    "stack (proc s' q) = stack (proc s q)"
  by (subst relinked_eqs(1) [OF assms, of q], simp)+

lemma relinked_kernel:
  assumes "relinked W s s'"
  shows "queue s' = queue s" "process_active s' = process_active s"
    "process_id_pool s' = process_id_pool s" "process_pool s' = process_pool s"
    "clock_wait_head s' = clock_wait_head s" "cons_read_wait_head s' = cons_read_wait_head s"
    "queue_id_pool s' = queue_id_pool s" "queue_pool s' = queue_pool s" "heap s' = heap s"
    "user_stacks s' = user_stacks s" "frames s' = frames s" "tss_esp0 s' = tss_esp0 s"
    "pit_clock s' = pit_clock s" "cons s' = cons s" "umem s' = umem s"
    "user_start s' = user_start s" "user_end s' = user_end s"
  by (subst relinked_eqs(2) [OF assms], simp)+

lemma relinked_trans:
  assumes a: "relinked W s s'" and b: "relinked V s' s''"
  shows "relinked (W \<union> V) s s''"
proof -
  have "proc s'' q = (proc s q)\<lparr>u0 := u0 (proc s'' q), u1 := u1 (proc s'' q)\<rparr>" for q
    by (subst relinked_eqs(1) [OF b], subst relinked_eqs(1) [OF a]) simp
  moreover have "s'' = s\<lparr>proc := proc s'', process_sched_rings := process_sched_rings s''\<rparr>"
    by (subst relinked_eqs(2) [OF b], subst relinked_eqs(2) [OF a]) simp
  moreover have "\<forall>q. q \<notin> W \<union> V \<longrightarrow> proc s'' q = proc s q"
    using assms by (simp add: relinked_outside)
  ultimately show ?thesis unfolding relinked_def by blast
qed

lemma relinked_upd_proc:
  assumes "\<And>pr. f pr = pr\<lparr>u0 := u0 (f pr), u1 := u1 (f pr)\<rparr>" and "p \<in> W"
  shows "relinked W s (upd_proc p f s)"
  unfolding relinked_def
proof (intro conjI allI impI)
  fix q
  show "proc (upd_proc p f s) q
      = (proc s q)\<lparr>u0 := u0 (proc (upd_proc p f s) q), u1 := u1 (proc (upd_proc p f s) q)\<rparr>"
    using assms(1) by (cases "q = p") simp_all
qed (use assms(2) in \<open>auto simp: upd_proc_def\<close>)

lemma relinked_set:
  assumes "relinked W s s'" and "p \<in> W"
  shows "relinked W s (upd_proc p (set_u0 x) s')" "relinked W s (upd_proc p (set_u1 x) s')"
  using relinked_trans [OF assms(1) relinked_upd_proc [of "set_u0 x" p W s']]
    relinked_trans [OF assms(1) relinked_upd_proc [of "set_u1 x" p W s']] assms(2)
  by simp_all

lemma relinked_rings: "relinked W s s' \<Longrightarrow> relinked W s (s'\<lparr>process_sched_rings := r\<rparr>)"
proof -
  assume a: "relinked W s s'"
  then have "s'\<lparr>process_sched_rings := r\<rparr> = s\<lparr>proc := proc s', process_sched_rings := r\<rparr>"
    by (subst (1) relinked_eqs(2) [OF a]) simp
  with a show ?thesis by (simp add: relinked_def)
qed

end
