(* ===== verification/Scheduler.thy ===== *)
theory Scheduler
  imports Process_State
begin

text \<open>
  The scheduler of \<^verbatim>\<open>kernel/process/scheduler.c\<close>: one circular doubly linked ring of processes per
  priority, round robin inside a ring. \<open>sched_repr s R\<close> relates the pointers to one list of
  processes per priority, and every operation is shown to refine an operation on these lists.
\<close>

section \<open>Operations\<close>

definition process_sched_ring_insert :: "ptr \<Rightarrow> kernel \<Rightarrow> (kernel, unit) outcome" where
  "process_sched_ring_insert process s =
     (if p_state (proc s process) \<noteq> PROCESS_SCHED
      then Panic ''process_sched_ring_insert(...): process->state must be SCHED''
      else
        let first_process = process_sched_rings s (p_priority (proc s process));
            s4 = (if first_process \<noteq> NULL then
                let s1 = upd_proc process (set_sched_next first_process) s;
                    s2 = upd_proc process (set_sched_prev (sched_prev (proc s1 first_process))) s1;
                    s3 = upd_proc (sched_next (proc s2 process)) (set_sched_prev process) s2
                in upd_proc (sched_prev (proc s3 process)) (set_sched_next process) s3
              else
                upd_proc process (set_sched_prev process)
                  (upd_proc process (set_sched_next process) s))
        in Done () (s4\<lparr>process_sched_rings :=
             (process_sched_rings s4)(p_priority (proc s4 process) := process)\<rparr>))"

definition process_sched_ring_remove :: "ptr \<Rightarrow> kernel \<Rightarrow> (kernel, ptr) outcome" where
  "process_sched_ring_remove process s =
     (if p_state (proc s process) \<noteq> PROCESS_SCHED
      then Panic ''process_sched_ring_remove(...): process->state must be SCHED''
      else
        let prev_process = sched_prev (proc s process);
            next_process = sched_next (proc s process)
        in if prev_process = NULL \<or> next_process = NULL then Done NULL s
        else
          let (next1, s1) = (if next_process = process then (NULL, s)
                else (next_process,
                  upd_proc next_process (set_sched_prev prev_process)
                    (upd_proc prev_process (set_sched_next next_process) s)));
              prio = p_priority (proc s1 process);
              s2 = (if process_sched_rings s1 prio = process
                    then s1\<lparr>process_sched_rings := (process_sched_rings s1)(prio := next1)\<rparr>
                    else s1);
              s3 = upd_proc process (set_sched_next NULL) (upd_proc process (set_sched_prev NULL) s2)
          in Done next1 s3)"

text \<open>\<open>for (priority = max_priority - 1; priority >= 0; priority--)\<close>; \<open>n\<close> is \<open>priority + 1\<close>.\<close>

primrec ring_find_loop :: "nat \<Rightarrow> kernel \<Rightarrow> ptr option" where
  "ring_find_loop 0 s = None"
| "ring_find_loop (Suc n) s =
     (if process_sched_rings s (int n) \<noteq> NULL then Some (process_sched_rings s (int n))
      else ring_find_loop n s)"

definition process_sched_ring_find :: "int \<Rightarrow> kernel \<Rightarrow> (kernel, ptr) outcome" where
  "process_sched_ring_find max_priority s = (case ring_find_loop (nat max_priority) s of
     Some p \<Rightarrow> Done p s
   | None \<Rightarrow> Panic ''process_sched_ring_find(...): failed to find a process'')"

definition process_sched_advance :: "ptr \<Rightarrow> kernel \<Rightarrow> (kernel, unit) outcome" where
  "process_sched_advance next_process s =
     (let next1 = (if next_process = NULL \<and> p_state (proc s (process_active s)) = PROCESS_SCHED
                   then sched_next (proc s (process_active s)) else next_process)
      in bindK (if next1 = NULL
                then process_sched_ring_find (p_priority (proc s (process_active s))) s
                else Done next1 s)
        (\<lambda>next2 s.
           let s1 = upd_proc next2 (set_state PROCESS_SCHED) s
           in if process_active s1 = next2 then Done () s1
              else process_context_switch (process_active s1) next2
                     (s1\<lparr>process_active := next2\<rparr>)))"

definition process_sched_set_priority :: "ptr \<Rightarrow> int \<Rightarrow> kernel \<Rightarrow> (kernel, unit) outcome" where
  "process_sched_set_priority process new_priority s =
     (if p_state (proc s process) \<noteq> PROCESS_SCHED
      then Panic ''process_sched_set_priority(...): processs->state is not SCHED''
      else bindK (process_sched_ring_remove process s) (\<lambda>next_process s.
        let prev_priority = p_priority (proc s process);
            s1 = upd_proc process (p_priority_update (\<lambda>_. new_priority)) s
        in bindK (process_sched_ring_insert process s1) (\<lambda>_ s.
          if new_priority < prev_priority then
            (if process_active s = process then
               bindK (if next_process = NULL then process_sched_ring_find prev_priority s
                      else Done next_process s)
                 (\<lambda>next_process s.
                    if next_process \<noteq> NULL \<and> next_process \<noteq> process
                    then process_sched_advance next_process s else Done () s)
             else Done () s)
          else if process_active s = process then Done () s
          else if new_priority > p_priority (proc s (process_active s))
          then process_sched_advance process s
          else Done () s)))"

definition process_sched_pit_handler :: "u32 \<Rightarrow> kernel \<Rightarrow> (kernel, unit) outcome" where
  "process_sched_pit_handler clock s = process_sched_advance NULL s"

section \<open>The rings as lists\<close>

type_synonym rings = "int \<Rightarrow> ptr list"

definition sched_repr :: "kernel \<Rightarrow> rings \<Rightarrow> bool" where
  "sched_repr s R \<longleftrightarrow> (\<forall>k.
     circ (link1 s) (link0 s) (R k) \<and> distinct (R k) \<and>
     process_sched_rings s k = (if R k = [] then NULL else hd (R k)) \<and>
     (\<forall>p \<in> set (R k). p \<noteq> NULL \<and> p_state (proc s p) = PROCESS_SCHED \<and>
        p_priority (proc s p) = k))"

lemma sched_reprD:
  assumes "sched_repr s R"
  shows "circ (link1 s) (link0 s) (R k)" "distinct (R k)"
    "process_sched_rings s k = (if R k = [] then NULL else hd (R k))"
    "p \<in> set (R k) \<Longrightarrow> p \<noteq> NULL" "p \<in> set (R k) \<Longrightarrow> p_state (proc s p) = PROCESS_SCHED"
    "p \<in> set (R k) \<Longrightarrow> p_priority (proc s p) = k"
  using assms by (auto simp: sched_repr_def)

text \<open>A process is in at most one ring, the one of its priority.\<close>

lemma sched_repr_ring_of:
  "sched_repr s R \<Longrightarrow> p \<notin> set (R (p_priority (proc s p))) \<Longrightarrow> p \<notin> set (R k)"
  using sched_reprD(6) by blast

lemma sched_repr_disjoint: "sched_repr s R \<Longrightarrow> k \<noteq> k' \<Longrightarrow> set (R k) \<inter> set (R k') = {}"
  using sched_reprD(6) by blast

text \<open>Only the state, the priority and the links of the members matter.\<close>

lemma sched_repr_cong:
  assumes "sched_repr s R" and "process_sched_rings s' = process_sched_rings s"
    and "\<And>k p. p \<in> set (R k) \<Longrightarrow> link0 s' p = link0 s p \<and> link1 s' p = link1 s p \<and>
      p_state (proc s' p) = p_state (proc s p) \<and> p_priority (proc s' p) = p_priority (proc s p)"
  shows "sched_repr s' R"
  unfolding sched_repr_def
proof (intro allI conjI ballI)
  fix k
  have "circ (link1 s') (link0 s') (R k) \<longleftrightarrow> circ (link1 s) (link0 s) (R k)"
    using assms(3) by (intro circ_cong) auto
  then show "circ (link1 s') (link0 s') (R k)" using sched_reprD [OF assms(1)] by simp
qed (use assms sched_reprD [OF assms(1)] in auto)

lemma sched_repr_same:
  assumes "sched_repr s R" "process_sched_rings s' = process_sched_rings s"
    and "\<And>k p. p \<in> set (R k) \<Longrightarrow> proc s' p = proc s p"
  shows "sched_repr s' R"
  using assms by (intro sched_repr_cong [OF assms(1)]) (auto simp: link0_def link1_def)

lemma sched_repr_upd_proc:
  "sched_repr s R \<Longrightarrow> (\<And>k. p \<notin> set (R k)) \<Longrightarrow> sched_repr (upd_proc p f s) R"
  by (rule sched_repr_same) (auto simp: proc_upd_proc)

lemma sched_repr_upd_queue: "sched_repr s R \<Longrightarrow> sched_repr (upd_queue q g s) R"
  by (rule sched_repr_same) auto

lemma sched_repr_globals [simp]:
  "sched_repr (s\<lparr>process_active := x0\<rparr>) R \<longleftrightarrow> sched_repr s R"
  "sched_repr (s\<lparr>clock_wait_head := x1\<rparr>) R \<longleftrightarrow> sched_repr s R"
  "sched_repr (s\<lparr>cons_read_wait_head := x2\<rparr>) R \<longleftrightarrow> sched_repr s R"
  "sched_repr (s\<lparr>queue := x3\<rparr>) R \<longleftrightarrow> sched_repr s R"
  "sched_repr (s\<lparr>frames := x4\<rparr>) R \<longleftrightarrow> sched_repr s R"
  "sched_repr (s\<lparr>tss_esp0 := x5\<rparr>) R \<longleftrightarrow> sched_repr s R"
  "sched_repr (s\<lparr>umem := x6\<rparr>) R \<longleftrightarrow> sched_repr s R"
  "sched_repr (s\<lparr>cons := x7\<rparr>) R \<longleftrightarrow> sched_repr s R"
  "sched_repr (s\<lparr>pit_clock := x8\<rparr>) R \<longleftrightarrow> sched_repr s R"
  "sched_repr (s\<lparr>process_pool := x9\<rparr>) R \<longleftrightarrow> sched_repr s R"
  "sched_repr (s\<lparr>process_id_pool := x10\<rparr>) R \<longleftrightarrow> sched_repr s R"
  "sched_repr (s\<lparr>queue_pool := x11\<rparr>) R \<longleftrightarrow> sched_repr s R"
  "sched_repr (s\<lparr>queue_id_pool := x12\<rparr>) R \<longleftrightarrow> sched_repr s R"
  "sched_repr (s\<lparr>heap := x13\<rparr>) R \<longleftrightarrow> sched_repr s R"
  "sched_repr (s\<lparr>user_stacks := x14\<rparr>) R \<longleftrightarrow> sched_repr s R"
  by (simp_all add: sched_repr_def link0_def [abs_def] link1_def [abs_def])

section \<open>Insertion and removal refine \<open>#\<close> and \<open>remove1\<close>\<close>

theorem ring_insert_repr:
  assumes r: "sched_repr s R" and st: "p_state (proc s p) = PROCESS_SCHED" and p: "p \<noteq> NULL"
    and new: "p \<notin> set (R k)" and k: "k = p_priority (proc s p)"
  shows "\<exists>s'. process_sched_ring_insert p s = Done () s' \<and> sched_repr s' (R(k := p # R k))
    \<and> relinked (insert p (set (R k))) s s'"
proof -
  have nin: "p \<notin> set (R j)" for j using sched_repr_ring_of [OF r] new k by blast
  define s4 where "s4 = (if R k \<noteq> []
    then upd_proc (link0 s (hd (R k))) (set_sched_next p) (upd_proc (hd (R k)) (set_sched_prev p)
      (upd_proc p (set_sched_prev (link0 s (hd (R k)))) (upd_proc p (set_sched_next (hd (R k))) s)))
    else upd_proc p (set_sched_prev p) (upd_proc p (set_sched_next p) s))"
  define s' where "s' = s4\<lparr>process_sched_rings := (process_sched_rings s)(k := p)\<rparr>"
  have hd: "hd (R k) \<in> set (R k)" "hd (R k) \<noteq> NULL" "hd (R k) \<noteq> p" "p \<noteq> hd (R k)" if "R k \<noteq> []"
    using that sched_reprD(4) [OF r] new by (metis hd_in_set)+
  have pv: "link0 s (hd (R k)) \<in> set (R k)" if "R k \<noteq> []"
    using circ_mem_next(2) [OF sched_reprD(1) [OF r] hd(1) [OF that]] .
  have rel4: "relinked (insert p (set (R k))) s s4"
    using hd pv by (auto simp: s4_def intro!: relinked_set)
  have rel: "relinked (insert p (set (R k))) s s'"
    unfolding s'_def by (rule relinked_rings [OF rel4])
  have exec: "process_sched_ring_insert p s = Done () s'"
  proof (cases "R k = []")
    case True
    then have "process_sched_rings s k = NULL" using sched_reprD(3) [OF r] by simp
    then show ?thesis using st True
      by (simp add: process_sched_ring_insert_def s'_def s4_def k [symmetric] upd_proc_def Let_def)
  next
    case False
    then have f: "process_sched_rings s k = hd (R k)" using sched_reprD(3) [OF r] by simp
    have "p_priority (proc s4 p) = k" using relinked_fields(2) [OF rel4] k by simp
    moreover have "process_sched_rings s4 = process_sched_rings s"
      by (simp add: s4_def)
    ultimately show ?thesis using st False hd
      by (simp add: process_sched_ring_insert_def k [symmetric] f Let_def s'_def)
         (simp add: s4_def link0_def)
  qed
  have l0: "link0 s' = (if R k \<noteq> [] then (link0 s)(p := link0 s (hd (R k)), hd (R k) := p)
      else (link0 s)(p := p))"
    and l1: "link1 s' = (if R k \<noteq> [] then (link1 s)(p := hd (R k), link0 s (hd (R k)) := p)
      else (link1 s)(p := p))"
    using hd by (auto simp: s'_def s4_def)
  have "sched_repr s' (R(k := p # R k))"
    unfolding sched_repr_def
  proof (intro allI conjI)
    fix j
    show "circ (link1 s') (link0 s') ((R(k := p # R k)) j)"
    proof (cases "j = k")
      case True
      then show ?thesis
        using circ_insert [OF sched_reprD(1) [OF r] _ new sched_reprD(2) [OF r]] l0 l1
        by (cases "R k = []") auto
    next
      case False
      have "proc s' x = proc s x" if "x \<in> set (R j)" for x
        using that nin [of j] sched_repr_disjoint [OF r False]
        by (intro relinked_outside [OF rel]) auto
      then have "link0 s' x = link0 s x \<and> link1 s' x = link1 s x" if "x \<in> set (R j)" for x
        using that by (simp add: link0_def link1_def)
      then have "circ (link1 s') (link0 s') (R j) \<longleftrightarrow> circ (link1 s) (link0 s) (R j)"
        by (intro circ_cong) auto
      then show ?thesis using False sched_reprD(1) [OF r] by simp
    qed
    show "process_sched_rings s' j
        = (if (R(k := p # R k)) j = [] then NULL else hd ((R(k := p # R k)) j))"
      using sched_reprD(3) [OF r] by (simp add: s'_def)
  qed (use p nin sched_reprD [OF r] in \<open>auto simp: relinked_fields [OF rel] st k split: if_splits\<close>)
  with exec rel show ?thesis by blast
qed

theorem ring_remove_repr:
  assumes r: "sched_repr s R" and Rk: "R k = as @ p # bs"
  shows "\<exists>s'. process_sched_ring_remove p s = Done (if as @ bs = [] then NULL else hd (bs @ as)) s'
    \<and> sched_repr s' (R(k := as @ bs)) \<and> relinked (set (R k)) s s'
    \<and> link0 s' p = NULL \<and> link1 s' p = NULL"
proof -
  have pin: "p \<in> set (R k)" by (simp add: Rk)
  have c: "circ (link1 s) (link0 s) (as @ p # bs)" and d: "distinct (as @ p # bs)"
    using sched_reprD(1,2) [OF r, of k] by (auto simp: Rk)
  define nx where "nx = link1 s p"
  define pv where "pv = link0 s p"
  have nx: "nx = hd (bs @ as @ [p])" "nx \<in> set (R k)" and pv: "pv \<in> set (R k)"
    using circ_next [OF c] circ_mem_next [OF c, of p] by (auto simp: nx_def pv_def Rk)
  have nn: "nx \<noteq> NULL" "pv \<noteq> NULL" using nx pv sched_reprD(4) [OF r] by auto
  have alone: "nx = p \<longleftrightarrow> as @ bs = []"
  proof (cases "bs @ as")
    case (Cons y ys)
    then have "nx = y" using nx(1) by (metis append_Cons append_assoc list.sel(1))
    moreover have "y \<in> set (as @ bs)" using Cons by (metis list.set_intros(1) set_append sup_commute)
    ultimately show ?thesis using d by auto
  qed (use nx in auto)
  have nx': "nx = hd (bs @ as)" if "as @ bs \<noteq> []"
    using nx(1) that by (cases bs; cases as) auto
  define s1 where "s1 = (if as @ bs = [] then s
      else upd_proc nx (set_sched_prev pv) (upd_proc pv (set_sched_next nx) s))"
  define s2 where "s2 = (if process_sched_rings s k = p
      then s1\<lparr>process_sched_rings := (process_sched_rings s)(k := if as @ bs = [] then NULL else nx)\<rparr>
      else s1)"
  define s' where "s' = upd_proc p (set_sched_next NULL) (upd_proc p (set_sched_prev NULL) s2)"
  have rel1: "relinked (set (R k)) s s1"
    using nx pv by (auto simp: s1_def intro!: relinked_set)
  have rel: "relinked (set (R k)) s s'"
    using pin by (auto simp: s'_def s2_def intro!: relinked_set relinked_rings rel1)
  have k: "p_priority (proc s p) = k" "p_state (proc s p) = PROCESS_SCHED"
    using sched_reprD(5,6) [OF r pin] by auto
  have k1: "p_priority (proc s1 p) = k" "process_sched_rings s1 = process_sched_rings s"
    using relinked_fields(2) [OF rel1] k by (auto simp: s1_def)
  have f: "u1 (proc s p) = nx" "u0 (proc s p) = pv"
    by (simp_all add: nx_def pv_def link0_def link1_def)
  have exec: "process_sched_ring_remove p s = Done (if as @ bs = [] then NULL else hd (bs @ as)) s'"
  proof (cases "as @ bs = []")
    case True
    then show ?thesis using k k1 nn alone
      by (simp add: process_sched_ring_remove_def f Let_def s1_def s2_def s'_def)
  next
    case False
    have s1: "s1 = upd_proc nx (set_sched_prev pv) (upd_proc pv (set_sched_next nx) s)"
      and s2: "s2 = (if process_sched_rings s k = p
        then s1\<lparr>process_sched_rings := (process_sched_rings s)(k := nx)\<rparr> else s1)"
      and np: "nx \<noteq> p" and res: "(if as @ bs = [] then NULL else hd (bs @ as)) = nx"
      using False alone nx' [OF False] by (simp_all only: s1_def s2_def if_False not_False_eq_True)
    show ?thesis unfolding res using k k1 nn np
      by (simp add: process_sched_ring_remove_def f Let_def s2 s'_def) (simp add: s1)
  qed
  have l0: "link0 s' = (if as @ bs = [] then link0 s else (link0 s)(nx := pv))(p := NULL)"
    and l1: "link1 s' = (if as @ bs = [] then link1 s else (link1 s)(pv := nx))(p := NULL)"
    by (auto simp: s'_def s2_def s1_def)
  have pnin: "p \<notin> set (as @ bs)" using d by auto
  have rings: "process_sched_rings s' j = (if (R(k := as @ bs)) j = [] then NULL
      else hd ((R(k := as @ bs)) j))" for j
    using sched_reprD(3) [OF r] nx' k1(2) d
    by (cases as) (auto simp: s'_def s2_def Rk s1_def)
  have "sched_repr s' (R(k := as @ bs))"
    unfolding sched_repr_def
  proof (intro allI conjI)
    fix j
    show "circ (link1 s') (link0 s') ((R(k := as @ bs)) j)"
    proof (cases "j = k")
      case True
      have "circ ((link1 s)(pv := nx)) ((link0 s)(nx := pv)) (as @ bs)" if "as @ bs \<noteq> []"
        using circ_remove [OF c that d] by (simp add: nx_def pv_def)
      moreover have "circ (link1 s') (link0 s') (as @ bs)
          \<longleftrightarrow> circ ((link1 s)(pv := nx)) ((link0 s)(nx := pv)) (as @ bs)" if "as @ bs \<noteq> []"
        using pnin that unfolding l0 l1 by (intro circ_cong) auto
      ultimately have "circ (link1 s') (link0 s') (as @ bs)" by (cases "as @ bs = []") simp_all
      with True show ?thesis by simp
    next
      case False
      have "proc s' x = proc s x" if "x \<in> set (R j)" for x
        using that sched_repr_disjoint [OF r False] by (intro relinked_outside [OF rel]) auto
      then have "circ (link1 s') (link0 s') (R j) \<longleftrightarrow> circ (link1 s) (link0 s) (R j)"
        by (intro circ_cong) (auto simp: link0_def link1_def)
      then show ?thesis using False sched_reprD(1) [OF r] by simp
    qed
  next
    fix j
    show "distinct ((R(k := as @ bs)) j)" using sched_reprD(2) [OF r] d by auto
  next
    fix j
    show "\<forall>q\<in>set ((R(k := as @ bs)) j). q \<noteq> NULL \<and> p_state (proc s' q) = PROCESS_SCHED
        \<and> p_priority (proc s' q) = j"
    proof
      fix q assume "q \<in> set ((R(k := as @ bs)) j)"
      then have "q \<in> set (R j)" by (auto simp: Rk split: if_splits)
      then show "q \<noteq> NULL \<and> p_state (proc s' q) = PROCESS_SCHED \<and> p_priority (proc s' q) = j"
        using sched_reprD(4,5,6) [OF r] by (simp add: relinked_fields [OF rel])
    qed
  qed (rule rings)
  with exec rel l0 l1 show ?thesis by simp
qed

section \<open>Choosing the next process\<close>

text \<open>\<open>k\<close> is the highest priority below \<open>m\<close> that has a process.\<close>

definition highest :: "rings \<Rightarrow> int \<Rightarrow> int \<Rightarrow> bool" where
  "highest R m k \<longleftrightarrow> 0 \<le> k \<and> k < m \<and> R k \<noteq> [] \<and> (\<forall>j. k < j \<and> j < m \<longrightarrow> R j = [])"

lemma ring_find_loop_repr:
  assumes "sched_repr s R"
  shows "(\<exists>k. highest R (int n) k \<and> ring_find_loop n s = Some (hd (R k)))
    \<or> (\<forall>k. 0 \<le> k \<and> k < int n \<longrightarrow> R k = []) \<and> ring_find_loop n s = None"
proof (induction n)
  case (Suc n)
  show ?case
  proof (cases "R (int n) = []")
    case True
    have nNULL: "process_sched_rings s (int n) = NULL"
      using sched_reprD(3) [OF assms] True by simp
    have below: "j = int n \<or> j < int n \<longleftrightarrow> j < int (Suc n)" for j :: int by auto
    have "highest R (int (Suc n)) k" if "highest R (int n) k" for k
      using that True by (auto simp: highest_def) (metis True linorder_neqE_linordered_idom zle_add1_eq_le add.commute less_le_not_le of_nat_Suc)
    then show ?thesis using Suc nNULL True unfolding below [symmetric] by auto
  next
    case False
    have "hd (R (int n)) \<noteq> NULL" by (rule sched_reprD(4) [OF assms hd_in_set [OF False]])
    then show ?thesis
      using False sched_reprD(3) [OF assms, of "int n"]
      by (intro disjI1 exI [of _ "int n"]) (auto simp: highest_def)
  qed
qed auto

lemma ring_find_repr:
  assumes "sched_repr s R"
  shows "(\<exists>k. highest R m k \<and> process_sched_ring_find m s = Done (hd (R k)) s)
    \<or> (\<forall>k. 0 \<le> k \<and> k < m \<longrightarrow> R k = []) \<and> (\<exists>e. process_sched_ring_find m s = Panic e)"
proof (cases "0 \<le> m")
  case True
  then show ?thesis
    using ring_find_loop_repr [OF assms, of "nat m"] by (auto simp: process_sched_ring_find_def)
qed (auto simp: process_sched_ring_find_def)

lemma highest_unique: "highest R m k \<Longrightarrow> highest R m k' \<Longrightarrow> k = k'"
  unfolding highest_def by (metis linorder_neqE_linordered_idom)

lemma ring_find_highest:
  "sched_repr s R \<Longrightarrow> highest R m k \<Longrightarrow> process_sched_ring_find m s = Done (hd (R k)) s"
  using ring_find_repr [of s R m] by (metis highest_def highest_unique)

text \<open>The state after a switch to \<open>p\<close>.\<close>

definition switched :: "ptr \<Rightarrow> kernel \<Rightarrow> kernel" where
  "switched p s = s\<lparr>process_active := p,
     tss_esp0 := kernel_stack (proc s p) + KERNEL_STACK_SIZE,
     frames := (if process_active s = NULL then frames s
                else (frames s)(process_active s := []))\<rparr>"

lemma switched_simps [simp]:
  "proc (switched p s) = proc s" "queue (switched p s) = queue s"
  "process_active (switched p s) = p"
  "process_sched_rings (switched p s) = process_sched_rings s"
  "clock_wait_head (switched p s) = clock_wait_head s"
  "cons_read_wait_head (switched p s) = cons_read_wait_head s"
  "process_id_pool (switched p s) = process_id_pool s"
  "process_pool (switched p s) = process_pool s" "queue_pool (switched p s) = queue_pool s"
  "queue_id_pool (switched p s) = queue_id_pool s" "heap (switched p s) = heap s"
  "user_stacks (switched p s) = user_stacks s" "umem (switched p s) = umem s"
  "tss_esp0 (switched p s) = kernel_stack (proc s p) + KERNEL_STACK_SIZE"
  "link0 (switched p s) = link0 s" "link1 (switched p s) = link1 s" "kbd (switched p s) = kbd s"
  by (auto simp: switched_def link0_def link1_def fun_eq_iff)

lemma sched_repr_switched [simp]: "sched_repr (switched p s) R \<longleftrightarrow> sched_repr s R"
  by (simp add: sched_repr_def)

lemma upd_proc_idle: "f (proc s p) = proc s p \<Longrightarrow> upd_proc p f s = s"
  by (simp add: upd_proc_def)

text \<open>Advancing to a given process, to the next of the ring, and to a lower ring.\<close>

definition run_outcome :: "ptr \<Rightarrow> kernel \<Rightarrow> (kernel, unit) outcome" where
  "run_outcome p s = (if process_active s = p then Done () s else Switched (switched p s))"

lemma run_process:
  assumes "p_state (proc s p) = PROCESS_SCHED"
  shows "(let s1 = upd_proc p (set_state PROCESS_SCHED) s
      in if process_active s1 = p then Done () s1
         else process_context_switch (process_active s1) p (s1\<lparr>process_active := p\<rparr>))
    = run_outcome p s"
  using assms by (simp add: run_outcome_def upd_proc_idle switched_def process_context_switch_def Let_def)

lemma advance_to:
  assumes "p \<noteq> NULL" "p_state (proc s p) = PROCESS_SCHED"
  shows "process_sched_advance p s = run_outcome p s"
  using assms run_process [of s p] by (simp add: process_sched_advance_def)

lemma advance_ring:
  assumes r: "sched_repr s R" and Rk: "R k = as @ process_active s # bs"
  shows "process_sched_advance NULL s = run_outcome (hd (bs @ as @ [process_active s])) s"
proof -
  let ?p = "process_active s" and ?n = "hd (bs @ as @ [process_active s])"
  have n: "u1 (proc s ?p) = ?n" "?n \<in> set (R k)"
    using circ_next(1) [of "link1 s" "link0 s" as ?p bs] sched_reprD(1) [OF r, of k]
      hd_in_set [of "bs @ as @ [?p]"] by (auto simp: Rk link1_def)
  have st: "p_state (proc s ?p) = PROCESS_SCHED" using sched_reprD(5) [OF r, of ?p k] Rk by simp
  show ?thesis
    using n st run_process [OF sched_reprD(5) [OF r n(2)]] sched_reprD(4) [OF r n(2)]
    by (simp add: process_sched_advance_def)
qed

lemma advance_lower:
  assumes r: "sched_repr s R" and st: "p_state (proc s (process_active s)) \<noteq> PROCESS_SCHED"
    and h: "highest R (p_priority (proc s (process_active s))) k"
  shows "process_sched_advance NULL s = run_outcome (hd (R k)) s"
proof -
  have "hd (R k) \<in> set (R k)" using h by (simp add: highest_def)
  then show ?thesis
    using st run_process [OF sched_reprD(5) [OF r]] ring_find_highest [OF r h]
    by (simp add: process_sched_advance_def)
qed

text \<open>The call returned in this state, or it was left by a switch made in it.\<close>

definition only_switches :: "kernel \<Rightarrow> (kernel, unit) outcome \<Rightarrow> bool" where
  "only_switches s m \<longleftrightarrow> m = Done () s \<or> (\<exists>p. m = Switched (switched p s))"

lemma only_switches_run [simp]: "only_switches s (run_outcome p s)" "only_switches s (Done () s)"
  by (auto simp: only_switches_def run_outcome_def)

section \<open>Round robin\<close>

text \<open>\<open>n\<close> timer interrupts, each of which lets the next process run.\<close>

primrec pit_ticks :: "nat \<Rightarrow> u32 \<Rightarrow> kernel \<Rightarrow> kernel option" where
  "pit_ticks 0 c s = Some s"
| "pit_ticks (Suc n) c s = (case outcome_state (process_sched_pit_handler c s) of
     None \<Rightarrow> None | Some s' \<Rightarrow> pit_ticks n c s')"

lemma hd_append_nth: "i < length xs \<Longrightarrow>
    hd (drop (Suc i) xs @ take i xs @ [xs ! i]) = xs ! (Suc i mod length xs)"
proof (cases "Suc i < length xs")
  case True
  then show ?thesis by (simp add: hd_append hd_drop_conv_nth)
next
  case False
  assume i: "i < length xs"
  with False have e: "Suc i = length xs" by simp
  with i show ?thesis by (cases i) (auto simp: hd_append hd_conv_nth)
qed

lemma tick_repr:
  assumes r: "sched_repr s R" and i: "i < length (R k)" and a: "process_active s = R k ! i"
  shows "\<exists>s'. outcome_state (process_sched_pit_handler c s) = Some s' \<and> sched_repr s' R
    \<and> process_active s' = R k ! (Suc i mod length (R k))"
proof -
  have "R k = take i (R k) @ process_active s # drop (Suc i) (R k)"
    using i a by (simp add: id_take_nth_drop)
  from advance_ring [OF r this] have "process_sched_pit_handler c s
      = run_outcome (R k ! (Suc i mod length (R k))) s"
    using hd_append_nth [OF i] by (simp add: process_sched_pit_handler_def a)
  then show ?thesis using r by (auto simp: run_outcome_def)
qed

lemma ticks_repr:
  assumes "sched_repr s R" "i < length (R k)" "process_active s = R k ! i"
  shows "\<exists>s'. pit_ticks n c s = Some s' \<and> sched_repr s' R
    \<and> process_active s' = R k ! ((i + n) mod length (R k))"
  using assms
proof (induction n arbitrary: s i)
  case (Suc n)
  from tick_repr [OF Suc.prems] obtain s' where s': "sched_repr s' R"
      "outcome_state (process_sched_pit_handler c s) = Some s'"
      "process_active s' = R k ! (Suc i mod length (R k))" by blast
  have "Suc i mod length (R k) < length (R k)" using Suc.prems(2) by (intro mod_less_divisor) auto
  from Suc.IH [OF s'(1) this s'(3)] s'(2) show ?case
    by (simp add: mod_add_left_eq [of "Suc i", symmetric] del: mod_add_left_eq)
       (simp add: mod_add_left_eq)
qed (auto)

section \<open>The highest priority runs\<close>

text \<open>
  \<open>runs_highest s R\<close>: the priorities in use are valid, the active process is in a ring, and no
  process is ready at a higher priority.
\<close>

definition runs_highest :: "kernel \<Rightarrow> rings \<Rightarrow> bool" where
  "runs_highest s R \<longleftrightarrow> sched_repr s R \<and> (\<forall>k. R k \<noteq> [] \<longrightarrow> 0 \<le> k \<and> k < PROCESS_MAX_PRIORITY) \<and>
     (\<exists>k. process_active s \<in> set (R k) \<and> (\<forall>j. R j \<noteq> [] \<longrightarrow> j \<le> k))"

text \<open>How an operation that may switch ends: always with a running process of highest priority.\<close>

definition ends_highest :: "(kernel, 'a) outcome \<Rightarrow> rings \<Rightarrow> bool" where
  "ends_highest m R \<longleftrightarrow> (\<exists>s'. outcome_state m = Some s' \<and> runs_highest s' R)"

lemma ends_highest_run:
  assumes "sched_repr s R" "p \<in> set (R k)" "\<And>j. R j \<noteq> [] \<Longrightarrow> j \<le> k \<and> 0 \<le> j"
    and "k < PROCESS_MAX_PRIORITY"
  shows "ends_highest (run_outcome p s) R"
proof -
  have "runs_highest s' R" if "sched_repr s' R" "process_active s' = p" for s'
    using assms that by (fastforce simp: runs_highest_def)
  then show ?thesis using assms(1) by (auto simp: ends_highest_def run_outcome_def)
qed

lemma runs_highestD:
  assumes "runs_highest s R"
  shows "sched_repr s R" "process_active s \<in> set (R (p_priority (proc s (process_active s))))"
    "R j \<noteq> [] \<Longrightarrow> 0 \<le> j \<and> j \<le> p_priority (proc s (process_active s)) \<and> j < PROCESS_MAX_PRIORITY"
    "process_active s \<noteq> NULL" "p_state (proc s (process_active s)) = PROCESS_SCHED"
    "p_priority (proc s (process_active s)) < PROCESS_MAX_PRIORITY"
proof -
  show r: "sched_repr s R" using assms by (simp add: runs_highest_def)
  from assms obtain k where k: "process_active s \<in> set (R k)" "\<forall>j. R j \<noteq> [] \<longrightarrow> j \<le> k"
    and v: "\<forall>k. R k \<noteq> [] \<longrightarrow> 0 \<le> k \<and> k < PROCESS_MAX_PRIORITY" by (auto simp: runs_highest_def)
  then have pk: "p_priority (proc s (process_active s)) = k" using sched_reprD(6) [OF r] by simp
  show "process_active s \<in> set (R (p_priority (proc s (process_active s))))" using k pk by simp
  show "process_active s \<noteq> NULL" "p_state (proc s (process_active s)) = PROCESS_SCHED"
    using sched_reprD(4,5) [OF r] k(1) by auto
  show "R j \<noteq> [] \<Longrightarrow> 0 \<le> j \<and> j \<le> p_priority (proc s (process_active s)) \<and> j < PROCESS_MAX_PRIORITY"
    using k(2) v pk by simp
  have "R k \<noteq> []" using k(1) by auto
  then show "p_priority (proc s (process_active s)) < PROCESS_MAX_PRIORITY" using v pk by simp
qed

section \<open>Changing a priority\<close>

lemma runs_highest_stay:
  assumes "runs_highest s R" "sched_repr s' R'" "process_active s' = process_active s"
    and "process_active s \<in> set (R' (p_priority (proc s (process_active s))))"
    and "\<And>j. R' j \<noteq> [] \<Longrightarrow> R j \<noteq> [] \<or>
      (0 \<le> j \<and> j \<le> p_priority (proc s (process_active s)))"
  shows "runs_highest s' R'"
  unfolding runs_highest_def
proof (intro conjI allI impI exI)
  fix j assume "R' j \<noteq> []"
  from assms(5) [OF this] show "0 \<le> j" "j < PROCESS_MAX_PRIORITY"
      "j \<le> p_priority (proc s (process_active s))"
    using runs_highestD(3,6) [OF assms(1)] by force+
qed (use assms in auto)

lemma ends_highest_Done: "runs_highest s R \<Longrightarrow> ends_highest (Done v s) R"
  by (simp add: ends_highest_def)

text \<open>The process moves to the front of its new ring.\<close>

definition requeued :: "ptr \<Rightarrow> int \<Rightarrow> int \<Rightarrow> rings \<Rightarrow> rings" where
  "requeued p k new R = (let R1 = R(k := remove1 p (R k)) in R1(new := p # R1 new))"

lemma requeue_steps:
  assumes r: "sched_repr s R" and p: "p \<in> set (R k)"
  obtains next_process s3 where
    "process_sched_set_priority p new s =
      (if new < k then
         (if process_active s = p then
            bindK (if next_process = NULL then process_sched_ring_find k s3 else Done next_process s3)
              (\<lambda>n s. if n \<noteq> NULL \<and> n \<noteq> p then process_sched_advance n s else Done () s)
          else Done () s3)
       else if process_active s = p then Done () s3
       else if new > p_priority (proc s (process_active s)) then process_sched_advance p s3
       else Done () s3)"
    and "sched_repr s3 (requeued p k new R)" and "process_active s3 = process_active s"
    and "if R k = [p] then next_process = NULL
      else next_process \<noteq> NULL \<and> next_process \<noteq> p \<and> next_process \<in> set (remove1 p (R k))"
    and "s3 = s\<lparr>proc := proc s3, process_sched_rings := process_sched_rings s3\<rparr>"
    and "\<forall>q. (\<forall>j. q \<notin> set (R j)) \<longrightarrow> proc s3 q = proc s q"
    and "\<forall>q. proc s3 q = (proc s q)\<lparr>u0 := u0 (proc s3 q), u1 := u1 (proc s3 q),
      p_priority := p_priority (proc s3 q)\<rparr>"
proof -
  obtain as bs where Rk: "R k = as @ p # bs" using p by (auto simp: in_set_conv_decomp)
  have d: "p \<notin> set as" "p \<notin> set bs" using sched_reprD(2) [OF r, of k] by (auto simp: Rk)
  have rem: "remove1 p (R k) = as @ bs" using d by (simp add: Rk remove1_append)
  have pk: "p_priority (proc s p) = k" "p_state (proc s p) = PROCESS_SCHED" "p \<noteq> NULL"
    using sched_reprD(4-6) [OF r p] by auto
  define n where "n = (if as @ bs = [] then NULL else hd (bs @ as))"
  from ring_remove_repr [OF r Rk] obtain s1 where
    s1: "process_sched_ring_remove p s = Done n s1" "sched_repr s1 (R(k := as @ bs))"
      "relinked (set (R k)) s s1" by (auto simp: n_def)
  define s2 where "s2 = upd_proc p (p_priority_update (\<lambda>_. new)) s1"
  have notin: "p \<notin> set ((R(k := as @ bs)) j)" for j
    using d sched_repr_disjoint [OF r, of k j] p by auto
  have r2: "sched_repr s2 (R(k := as @ bs))"
    unfolding s2_def by (rule sched_repr_upd_proc [OF s1(2)]) (rule notin)
  have p2: "p_state (proc s2 p) = PROCESS_SCHED" "new = p_priority (proc s2 p)"
    using pk relinked_fields [OF s1(3)] by (simp_all add: s2_def)
  from ring_insert_repr [OF r2 p2(1) pk(3) notin p2(2)] obtain s3 where
    s3: "process_sched_ring_insert p s2 = Done () s3"
      "relinked (insert p (set ((R(k := as @ bs)) new))) s2 s3"
      "sched_repr s3 ((R(k := as @ bs))(new := p # (R(k := as @ bs)) new))" by blast
  have pr: "p_priority (proc s3 (process_active s)) = p_priority (proc s (process_active s))"
    if "process_active s \<noteq> p"
    using that relinked_fields [OF s3(2)] relinked_fields [OF s1(3)] by (simp add: s2_def)
  have act: "process_active s3 = process_active s"
    using relinked_kernel(2) [OF s3(2)] relinked_kernel(2) [OF s1(3)] by (simp add: s2_def)
  show thesis
  proof (rule that [of n s3])
    show "sched_repr s3 (requeued p k new R)" using s3(3) rem by (simp add: requeued_def Let_def)
    show "process_active s3 = process_active s" by (rule act)
    show "s3 = s\<lparr>proc := proc s3, process_sched_rings := process_sched_rings s3\<rparr>"
      by (subst relinked_eqs(2) [OF s3(2)], simp add: s2_def upd_proc_def,
          subst relinked_eqs(2) [OF s1(3)], simp)
    show "\<forall>q. (\<forall>j. q \<notin> set (R j)) \<longrightarrow> proc s3 q = proc s q"
    proof (intro allI impI)
      fix q assume that: "\<forall>j. q \<notin> set (R j)"
      have "q \<noteq> p" "q \<notin> set ((R(k := as @ bs)) new)" "q \<notin> set (R k)"
        using that [rule_format, of k] that [rule_format, of new] p by (auto simp: Rk)
      then show "proc s3 q = proc s q"
        using relinked_outside [OF s3(2), of q] relinked_outside [OF s1(3), of q] by (simp add: s2_def)
    qed
    show "\<forall>q. proc s3 q = (proc s q)\<lparr>u0 := u0 (proc s3 q), u1 := u1 (proc s3 q),
      p_priority := p_priority (proc s3 q)\<rparr>"
    proof
      fix q
      obtain a b where e3: "proc s3 q = (proc s2 q)\<lparr>u0 := a, u1 := b\<rparr>"
        using relinked_eqs(1) [OF s3(2), of q] by blast
      obtain c d where e1: "proc s1 q = (proc s q)\<lparr>u0 := c, u1 := d\<rparr>"
        using relinked_eqs(1) [OF s1(3), of q] by blast
      have "proc s2 q = (proc s1 q)\<lparr>p_priority := p_priority (proc s2 q)\<rparr>"
        by (cases "q = p") (simp_all add: s2_def)
      then obtain k' where e2: "proc s2 q = (proc s1 q)\<lparr>p_priority := k'\<rparr>" by blast
      show "proc s3 q = (proc s q)\<lparr>u0 := u0 (proc s3 q), u1 := u1 (proc s3 q),
          p_priority := p_priority (proc s3 q)\<rparr>"
        by (simp add: e3 e2 e1)
    qed
    show "if R k = [p] then n = NULL else n \<noteq> NULL \<and> n \<noteq> p \<and> n \<in> set (remove1 p (R k))"
    proof (cases "as @ bs = []")
      case False
      then have "R k \<noteq> [p]" by (cases as) (auto simp: Rk)
      moreover have "n \<in> set (as @ bs)" using False hd_in_set [of "bs @ as"] by (auto simp: n_def)
      ultimately show ?thesis using d rem sched_reprD(4) [OF r, of n k] by (auto simp: Rk)
    qed (simp add: n_def Rk)
    show "process_sched_set_priority p new s =
      (if new < k then
         (if process_active s = p then
            bindK (if n = NULL then process_sched_ring_find k s3 else Done n s3)
              (\<lambda>n s. if n \<noteq> NULL \<and> n \<noteq> p then process_sched_advance n s else Done () s)
          else Done () s3)
       else if process_active s = p then Done () s3
       else if new > p_priority (proc s (process_active s)) then process_sched_advance p s3
       else Done () s3)"
      using pk s1 s3(1) act pr relinked_fields(2) [OF s1(3), of p]
      by (simp add: process_sched_set_priority_def s2_def [symmetric] Let_def)
  qed
qed

lemma requeued_mem:
  assumes "q \<noteq> p" "q \<in> set (R j)"
  shows "q \<in> set (requeued p k new R j)"
  using assms by (auto simp: requeued_def Let_def)

lemma requeued_nonempty: "requeued p k new R j \<noteq> [] \<Longrightarrow> R j \<noteq> [] \<or> j = new"
  by (auto simp: requeued_def Let_def split: if_splits)

text \<open>The running process lowers its own priority, or stays first with a higher one.\<close>

lemma lowered_active:
  assumes h: "runs_highest s R" and a: "process_active s = p" and p: "p \<in> set (R k)"
    and new: "0 \<le> new" "new < k" and r3: "sched_repr s3 (requeued p k new R)"
    and act: "process_active s3 = p"
    and nx: "if R k = [p] then nx = NULL
      else nx \<noteq> NULL \<and> nx \<noteq> p \<and> nx \<in> set (remove1 p (R k))"
  defines "m \<equiv> bindK (if nx = NULL then process_sched_ring_find k s3 else Done nx s3)
      (\<lambda>n s. if n \<noteq> NULL \<and> n \<noteq> p then process_sched_advance n s else Done () s)"
  shows "ends_highest m (requeued p k new R) \<and> only_switches s3 m"
proof -
  let ?R = "requeued p k new R"
  let ?to = "\<lambda>t. if t \<noteq> NULL \<and> t \<noteq> p then process_sched_advance t s3 else Done () s3"
  have ka: "p_priority (proc s p) = k" using sched_reprD(6) [OF runs_highestD(1) [OF h] p] .
  have kle: "0 \<le> j \<and> j \<le> k" if "?R j \<noteq> []" for j
    using requeued_nonempty [OF that] runs_highestD(3) [OF h, of j] new a ka by auto
  have kmax: "k < PROCESS_MAX_PRIORITY" using runs_highestD(6) [OF h] a ka by simp
  have run: "ends_highest (?to t) ?R \<and> only_switches s3 (?to t)"
    if t: "t \<in> set (?R m)" and m: "\<And>j. ?R j \<noteq> [] \<Longrightarrow> j \<le> m" for t m
  proof -
    have tt: "t \<noteq> NULL" "p_state (proc s3 t) = PROCESS_SCHED" using sched_reprD(4,5) [OF r3 t] by auto
    have "m \<le> k" using kle [of m] t by (cases "?R m") auto
    then have "ends_highest (run_outcome t s3) ?R"
      using m kle kmax by (intro ends_highest_run [OF r3 t]) auto
    then show ?thesis using advance_to [OF tt] tt act by (auto simp: run_outcome_def only_switches_def)
  qed
  show ?thesis
  proof (cases "R k = [p]")
    case False
    then have "nx \<in> set (?R k)" using nx new by (auto simp: requeued_def Let_def)
    with run [of nx k] kle nx False show ?thesis by (auto simp: m_def)
  next
    case True
    then have Rk: "?R k = []" using new by (simp add: requeued_def Let_def)
    have "p \<in> set (?R new)" by (simp add: requeued_def Let_def)
    then obtain m where m: "highest ?R k m"
      using ring_find_repr [OF r3, of k] new by fastforce
    have "j \<le> m" if "?R j \<noteq> []" for j
    proof -
      have "j < k" using kle [OF that] Rk that by (cases "j = k") auto
      then show ?thesis using m that by (auto simp: highest_def) (meson not_le)
    qed
    moreover have "hd (?R m) \<in> set (?R m)" using m by (simp add: highest_def)
    ultimately show ?thesis
      using run [of "hd (?R m)" m] ring_find_highest [OF r3 m] nx True by (simp add: assms(9))
  qed
qed

lemma set_priority_effect:
  assumes h: "runs_highest s R" and p: "p \<in> set (R k)"
    and new: "0 \<le> new" "new < PROCESS_MAX_PRIORITY"
  shows "ends_highest (process_sched_set_priority p new s) (requeued p k new R)
    \<and> (\<exists>s3. only_switches s3 (process_sched_set_priority p new s)
      \<and> s3 = s\<lparr>proc := proc s3, process_sched_rings := process_sched_rings s3\<rparr>
      \<and> (\<forall>q. (\<forall>j. q \<notin> set (R j)) \<longrightarrow> proc s3 q = proc s q)
      \<and> (\<forall>q. proc s3 q = (proc s q)\<lparr>u0 := u0 (proc s3 q), u1 := u1 (proc s3 q),
        p_priority := p_priority (proc s3 q)\<rparr>))"
proof -
  note r = runs_highestD(1) [OF h]
  let ?R = "requeued p k new R" and ?a = "process_active s"
  let ?ka = "p_priority (proc s ?a)"
  obtain nx s3 where eq: "process_sched_set_priority p new s =
      (if new < k then
         (if ?a = p then
            bindK (if nx = NULL then process_sched_ring_find k s3 else Done nx s3)
              (\<lambda>n s. if n \<noteq> NULL \<and> n \<noteq> p then process_sched_advance n s else Done () s)
          else Done () s3)
       else if ?a = p then Done () s3
       else if new > ?ka then process_sched_advance p s3
       else Done () s3)"
    and r3: "sched_repr s3 ?R" and act: "process_active s3 = ?a"
    and nx: "if R k = [p] then nx = NULL
      else nx \<noteq> NULL \<and> nx \<noteq> p \<and> nx \<in> set (remove1 p (R k))"
    and frame: "s3 = s\<lparr>proc := proc s3, process_sched_rings := process_sched_rings s3\<rparr>"
      "\<forall>q. (\<forall>j. q \<notin> set (R j)) \<longrightarrow> proc s3 q = proc s q"
      "\<forall>q. proc s3 q = (proc s q)\<lparr>u0 := u0 (proc s3 q), u1 := u1 (proc s3 q),
        p_priority := p_priority (proc s3 q)\<rparr>"
    by (rule requeue_steps [OF r p])
  have pnew: "p \<in> set (?R new)" by (simp add: requeued_def Let_def)
  have kle: "R j \<noteq> [] \<Longrightarrow> 0 \<le> j \<and> j \<le> ?ka" for j using runs_highestD(3) [OF h] by blast
  have kk: "0 \<le> k" "k \<le> ?ka" using kle [of k] p by (cases "R k"; simp)+
  have stay: "runs_highest s3 ?R" if "?a \<noteq> p" "new \<le> ?ka"
    using that new requeued_nonempty [of p k new R] runs_highestD(2) [OF h]
    by (intro runs_highest_stay [OF h r3 act] requeued_mem) auto
  have run_p: "ends_highest (run_outcome p s3) ?R" if "?ka \<le> new"
    using that new kle requeued_nonempty [of p k new R]
    by (intro ends_highest_run [OF r3 pnew]) force+
  have adv_p: "process_sched_advance p s3 = run_outcome p s3"
    by (rule advance_to) (use sched_reprD(4,5) [OF r3 pnew] in auto)
  have "ends_highest (process_sched_set_priority p new s) ?R
    \<and> only_switches s3 (process_sched_set_priority p new s)"
  proof (cases "?a = p")
    case False
    then show ?thesis
      using eq stay run_p kk adv_p by (auto simp: ends_highest_Done)
  next
    case True
    then have ka: "?ka = k" using sched_reprD(6) [OF r p] by simp
    show ?thesis
    proof (cases "new < k")
      case False
      with True ka run_p act eq show ?thesis by (simp add: run_outcome_def)
    next
      case lt: True
      from lowered_active [OF h True p new(1) lt r3 _ nx] act True eq lt show ?thesis by simp
    qed
  qed
  then show ?thesis using frame by blast
qed

lemmas set_priority_highest = set_priority_effect [THEN conjunct1]

end
