(* ===== verification/Waking.thy ===== *)
theory Waking
  imports Scheduler
begin

text \<open>
  Waking processes: the timer, the console and the reset of a message queue each walk a list of
  waiting processes, make every one ready again, and switch to the one of highest priority if it
  beats the active process. What the three loops share is stated here once, on lists:
  \<open>wake_list\<close> is the common body, and it keeps \<open>runs_highest\<close>.
\<close>

section \<open>What waking leaves alone\<close>

text \<open>The fields of a process that neither links nor states touch.\<close>

definition steady :: "process \<Rightarrow> process \<Rightarrow> bool" where
  "steady pr pr' \<longleftrightarrow> p_parent pr' = p_parent pr \<and> p_child pr' = p_child pr \<and>
     p_sibling pr' = p_sibling pr \<and> p_pid pr' = p_pid pr \<and> p_priority pr' = p_priority pr \<and>
     kernel_stack pr' = kernel_stack pr \<and> stack pr' = stack pr"

definition kept :: "kernel \<Rightarrow> kernel \<Rightarrow> bool" where
  "kept s s' \<longleftrightarrow> (\<forall>q. steady (proc s q) (proc s' q)) \<and>
     s' = s\<lparr>proc := proc s', process_sched_rings := process_sched_rings s'\<rparr>"

lemma steady_refl [simp]: "steady pr pr"
  by (simp add: steady_def)

lemma kept_refl [simp]: "kept s s"
  by (simp add: kept_def)

lemma kept_eq: "kept s s' \<Longrightarrow> s' = s\<lparr>proc := proc s', process_sched_rings := process_sched_rings s'\<rparr>"
  unfolding kept_def by blast

lemma kept_kernel:
  assumes "kept s s'"
  shows "queue s' = queue s" "process_active s' = process_active s"
    "process_id_pool s' = process_id_pool s" "process_pool s' = process_pool s"
    "clock_wait_head s' = clock_wait_head s" "cons_read_wait_head s' = cons_read_wait_head s"
    "queue_id_pool s' = queue_id_pool s" "queue_pool s' = queue_pool s" "heap s' = heap s"
    "user_stacks s' = user_stacks s" "frames s' = frames s" "tss_esp0 s' = tss_esp0 s"
    "pit_clock s' = pit_clock s" "cons s' = cons s" "umem s' = umem s"
    "user_start s' = user_start s" "user_end s' = user_end s" "kbd s' = kbd s"
  by (subst kept_eq [OF assms], simp)+

lemma kept_fields:
  assumes "kept s s'"
  shows "p_parent (proc s' q) = p_parent (proc s q)" "p_child (proc s' q) = p_child (proc s q)"
    "p_sibling (proc s' q) = p_sibling (proc s q)" "p_pid (proc s' q) = p_pid (proc s q)"
    "p_priority (proc s' q) = p_priority (proc s q)"
    "kernel_stack (proc s' q) = kernel_stack (proc s q)" "stack (proc s' q) = stack (proc s q)"
  using assms by (auto simp: kept_def steady_def)

lemma kept_trans:
  assumes a: "kept s s'" and b: "kept s' s''"
  shows "kept s s''"
proof -
  have "s'' = s\<lparr>proc := proc s'', process_sched_rings := process_sched_rings s''\<rparr>"
    by (subst kept_eq [OF b], subst kept_eq [OF a]) simp
  then show ?thesis using kept_fields [OF a] kept_fields [OF b]
    by (auto simp: kept_def [of s s''] steady_def)
qed

lemma relinked_kept: "relinked W s s' \<Longrightarrow> kept s s'"
  using relinked_eqs(2) [of W s s'] relinked_fields [of W s s'] by (simp add: kept_def steady_def)

lemma kept_upd_proc: "(\<And>pr. steady pr (f pr)) \<Longrightarrow> kept s (upd_proc p f s)"
  by (simp add: kept_def upd_proc_def)

section \<open>One process becomes ready\<close>

definition ready_first :: "kernel \<Rightarrow> ptr \<Rightarrow> rings \<Rightarrow> rings" where
  "ready_first s p R = (let k = p_priority (proc s p) in R(k := p # R k))"

text \<open>\<open>f\<close> writes the state and some words of the union.\<close>

definition wakes :: "(process \<Rightarrow> process) \<Rightarrow> bool" where
  "wakes f \<longleftrightarrow> (\<forall>pr. steady pr (f pr) \<and> p_state (f pr) = PROCESS_SCHED)"

definition off_rings :: "rings \<Rightarrow> ptr \<Rightarrow> bool" where
  "off_rings R p \<longleftrightarrow> (\<forall>k. p \<notin> set (R k))"

lemma off_ringsD [simp]: "off_rings R p \<Longrightarrow> p \<notin> set (R k)"
  by (simp add: off_rings_def)

lemma waiting_off_rings: "sched_repr s R \<Longrightarrow> p_state (proc s p) \<noteq> PROCESS_SCHED \<Longrightarrow> off_rings R p"
  using sched_reprD(5) by (fastforce simp: off_rings_def)

definition valid_priorities :: "kernel \<Rightarrow> ptr list \<Rightarrow> bool" where
  "valid_priorities s ps \<longleftrightarrow>
     (\<forall>p\<in>set ps. 0 \<le> p_priority (proc s p) \<and> p_priority (proc s p) < PROCESS_MAX_PRIORITY)"

lemma wake_one:
  assumes r: "sched_repr s R" and p: "p \<noteq> NULL" "off_rings R p" and f: "wakes f"
  shows "\<exists>s'. process_sched_ring_insert p (upd_proc p f s) = Done () s'
    \<and> sched_repr s' (ready_first s p R) \<and> kept s s'
    \<and> (\<forall>q. q \<noteq> p \<and> off_rings R q \<longrightarrow> proc s' q = proc s q)
    \<and> u2 (proc s' p) = u2 (f (proc s p)) \<and> u3 (proc s' p) = u3 (f (proc s p))
    \<and> u4 (proc s' p) = u4 (f (proc s p)) \<and> (\<forall>q. q \<noteq> p \<longrightarrow> u4 (proc s' q) = u4 (proc s q))
    \<and> (\<forall>q. q \<noteq> p \<longrightarrow> p_state (proc s' q) = p_state (proc s q) \<and> u2 (proc s' q) = u2 (proc s q))"
proof -
  let ?s = "upd_proc p f s" and ?k = "p_priority (proc s p)"
  have r1: "sched_repr ?s R" using r p(2) by (intro sched_repr_upd_proc) auto
  have st: "p_state (proc ?s p) = PROCESS_SCHED" "?k = p_priority (proc ?s p)"
    using f by (auto simp: wakes_def steady_def)
  have "p \<notin> set (R ?k)" using p(2) by simp
  from ring_insert_repr [OF r1 st(1) p(1) this st(2)] obtain s' where
    s': "process_sched_ring_insert p ?s = Done () s'" "sched_repr s' (R(?k := p # R ?k))"
      "relinked (insert p (set (R ?k))) ?s s'" by blast
  have "kept s ?s" using f by (intro kept_upd_proc) (simp add: wakes_def)
  then have "kept s s'" using relinked_kept [OF s'(3)] by (rule kept_trans)
  moreover have "proc s' q = proc s q" if "q \<noteq> p" "off_rings R q" for q
    using relinked_outside [OF s'(3), of q] that by simp
  moreover have "u4 (proc s' q) = u4 (proc s q)" "p_state (proc s' q) = p_state (proc s q)"
    "u2 (proc s' q) = u2 (proc s q)" if "q \<noteq> p" for q
    using relinked_fields(1,7,9) [OF s'(3), of q] that by simp_all
  moreover have "u2 (proc s' p) = u2 (f (proc s p))" "u3 (proc s' p) = u3 (f (proc s p))"
    "u4 (proc s' p) = u4 (f (proc s p))"
    using relinked_fields(7-9) [OF s'(3), of p] by simp_all
  ultimately show ?thesis using s' by (auto simp: ready_first_def Let_def)
qed

section \<open>A list of processes becomes ready\<close>

text \<open>The candidate of highest priority, the first of them.\<close>

definition pick_first :: "kernel \<Rightarrow> ptr \<Rightarrow> ptr \<Rightarrow> ptr" where
  "pick_first s h p = (if h = NULL \<or> p_priority (proc s h) < p_priority (proc s p) then p else h)"

primrec wake_list :: "(process \<Rightarrow> process) \<Rightarrow> ptr list \<Rightarrow> ptr \<Rightarrow> kernel \<Rightarrow> (kernel, ptr) outcome" where
  "wake_list f [] h s = Done h s"
| "wake_list f (p # ps) h s =
     bindK (process_sched_ring_insert p (upd_proc p f s)) (\<lambda>_ s'. wake_list f ps (pick_first s h p) s')"

primrec wake_rings :: "kernel \<Rightarrow> ptr list \<Rightarrow> rings \<Rightarrow> rings" where
  "wake_rings s [] R = R"
| "wake_rings s (p # ps) R = wake_rings s ps (ready_first s p R)"

lemma ready_first_kept: "kept s s' \<Longrightarrow> ready_first s' p R = ready_first s p R"
  by (simp add: ready_first_def kept_fields)

lemma wake_rings_kept: "kept s s' \<Longrightarrow> wake_rings s' ps R = wake_rings s ps R"
  by (induction ps arbitrary: R) (simp_all add: ready_first_kept)

lemma pick_first_kept: "kept s s' \<Longrightarrow> pick_first s' = pick_first s"
  by (simp add: pick_first_def kept_fields fun_eq_iff)

lemma off_ready_first [simp]: "off_rings (ready_first s p R) q \<longleftrightarrow> q \<noteq> p \<and> off_rings R q"
  by (auto simp: off_rings_def ready_first_def Let_def)

lemma off_wake_rings [simp]: "off_rings (wake_rings s ps R) q \<longleftrightarrow> q \<notin> set ps \<and> off_rings R q"
  by (induction ps arbitrary: R) auto

lemma wake_list_repr:
  assumes "sched_repr s R" "wakes f" "distinct ps" "\<forall>p\<in>set ps. p \<noteq> NULL \<and> off_rings R p"
  shows "\<exists>s'. wake_list f ps h s = Done (foldl (pick_first s) h ps) s'
    \<and> sched_repr s' (wake_rings s ps R) \<and> kept s s'
    \<and> (\<forall>q. q \<notin> set ps \<and> off_rings R q \<longrightarrow> proc s' q = proc s q)
    \<and> (\<forall>q. u4 (proc s' q) = (if q \<in> set ps then u4 (f (proc s q)) else u4 (proc s q)))
    \<and> (\<forall>q. q \<notin> set ps \<longrightarrow> p_state (proc s' q) = p_state (proc s q) \<and> u2 (proc s' q) = u2 (proc s q))"
  using assms
proof (induction ps arbitrary: s R h)
  case (Cons p ps)
  from wake_one [OF Cons.prems(1) _ _ Cons.prems(2), of p] Cons.prems(4) obtain s1 where
    s1: "process_sched_ring_insert p (upd_proc p f s) = Done () s1"
      "sched_repr s1 (ready_first s p R)" "kept s s1"
      "\<forall>q. q \<noteq> p \<and> off_rings R q \<longrightarrow> proc s1 q = proc s q"
      "u4 (proc s1 p) = u4 (f (proc s p))" "\<forall>q. q \<noteq> p \<longrightarrow> u4 (proc s1 q) = u4 (proc s q)"
      "\<forall>q. q \<noteq> p \<longrightarrow> p_state (proc s1 q) = p_state (proc s q) \<and> u2 (proc s1 q) = u2 (proc s q)"
    by auto
  have "\<forall>q\<in>set ps. q \<noteq> NULL \<and> off_rings (ready_first s p R) q" using Cons.prems(3,4) by auto
  from Cons.IH [OF s1(2) Cons.prems(2) _ this, of "pick_first s h p"] Cons.prems(3) obtain s2 where
    s2: "wake_list f ps (pick_first s h p) s1 = Done (foldl (pick_first s1) (pick_first s h p) ps) s2"
      "sched_repr s2 (wake_rings s1 ps (ready_first s p R))" "kept s1 s2"
      "\<forall>q. q \<notin> set ps \<and> off_rings (ready_first s p R) q \<longrightarrow> proc s2 q = proc s1 q"
      "\<forall>q. u4 (proc s2 q) = (if q \<in> set ps then u4 (f (proc s1 q)) else u4 (proc s1 q))"
      "\<forall>q. q \<notin> set ps \<longrightarrow> p_state (proc s2 q) = p_state (proc s1 q) \<and> u2 (proc s2 q) = u2 (proc s1 q)" by auto
  have "u4 (proc s2 q) = (if q \<in> set (p # ps) then u4 (f (proc s q)) else u4 (proc s q))" for q
    using s1(4-6) s2(5) Cons.prems(3,4) by auto
  then show ?case
    using s1 s2 kept_trans [OF s1(3) s2(3)] by (auto simp: wake_rings_kept [OF s1(3)] pick_first_kept [OF s1(3)])
qed simp

section \<open>Switching to the best of the woken processes\<close>

definition preempt_by :: "ptr \<Rightarrow> kernel \<Rightarrow> (kernel, unit) outcome" where
  "preempt_by p s =
     (if p \<noteq> NULL \<and> p_priority (proc s p) > p_priority (proc s (process_active s))
      then process_sched_advance p s else Done () s)"

lemma wake_rings_mem:
  "q \<in> set (R k) \<Longrightarrow> q \<in> set (wake_rings s ps R k)"
proof (induction ps arbitrary: R)
  case (Cons p ps)
  have "q \<in> set (ready_first s p R k)" using Cons.prems by (auto simp: ready_first_def Let_def)
  then have "q \<in> set (wake_rings s ps (ready_first s p R) k)" by (rule Cons.IH)
  then show ?case by simp
qed simp

lemma wake_rings_woken:
  "p \<in> set ps \<Longrightarrow> p \<in> set (wake_rings s ps R (p_priority (proc s p)))"
proof (induction ps arbitrary: R)
  case (Cons q ps)
  show ?case
  proof (cases "p = q")
    case True
    then show ?thesis using wake_rings_mem [of p "ready_first s q R"]
      by (simp add: ready_first_def Let_def)
  qed (use Cons in auto)
qed simp

lemma wake_rings_nonempty:
  "wake_rings s ps R j \<noteq> [] \<Longrightarrow> R j \<noteq> [] \<or> (\<exists>p\<in>set ps. p_priority (proc s p) = j)"
  by (induction ps arbitrary: R) (fastforce simp: ready_first_def Let_def split: if_splits)+

lemma pick_first_max:
  assumes "h = NULL \<or> h \<in> A" "NULL \<notin> set ps" "g = foldl (pick_first s) h ps"
  shows "g = NULL \<or> g \<in> A \<union> set ps" "h \<noteq> NULL \<or> ps \<noteq> [] \<Longrightarrow> g \<noteq> NULL"
    "\<forall>p\<in>set ps. p_priority (proc s p) \<le> p_priority (proc s g)"
    "h \<noteq> NULL \<Longrightarrow> p_priority (proc s h) \<le> p_priority (proc s g)"
proof -
  have "(foldl (pick_first s) h ps = NULL \<or> foldl (pick_first s) h ps \<in> A \<union> set ps) \<and>
    (h \<noteq> NULL \<or> ps \<noteq> [] \<longrightarrow> foldl (pick_first s) h ps \<noteq> NULL) \<and>
    (\<forall>p\<in>set ps. p_priority (proc s p) \<le> p_priority (proc s (foldl (pick_first s) h ps))) \<and>
    (h \<noteq> NULL \<longrightarrow> p_priority (proc s h) \<le> p_priority (proc s (foldl (pick_first s) h ps)))"
    using assms(1,2)
  proof (induction ps arbitrary: h A)
    case (Cons p ps)
    have "pick_first s h p = NULL \<or> pick_first s h p \<in> insert p A"
      using Cons.prems(1) by (auto simp: pick_first_def)
    moreover have "pick_first s h p \<noteq> NULL" using Cons.prems(2) by (auto simp: pick_first_def)
    moreover have "p_priority (proc s p) \<le> p_priority (proc s (pick_first s h p))"
      "h \<noteq> NULL \<Longrightarrow> p_priority (proc s h) \<le> p_priority (proc s (pick_first s h p))"
      by (auto simp: pick_first_def)
    ultimately show ?case using Cons.IH [of "pick_first s h p" "insert p A"] Cons.prems(2) by fastforce
  qed simp
  then show "g = NULL \<or> g \<in> A \<union> set ps" "h \<noteq> NULL \<or> ps \<noteq> [] \<Longrightarrow> g \<noteq> NULL"
    "\<forall>p\<in>set ps. p_priority (proc s p) \<le> p_priority (proc s g)"
    "h \<noteq> NULL \<Longrightarrow> p_priority (proc s h) \<le> p_priority (proc s g)"
    unfolding assms(3) by auto
qed

text \<open>
  After a list of processes was woken, the switch to the best of them leaves a process of highest
  priority running.
\<close>

lemma wake_preempt:
  assumes h: "runs_highest s R" and r': "sched_repr s' (wake_rings s ps R)"
    and k: "process_active s' = process_active s" "\<And>q. p_priority (proc s' q) = p_priority (proc s q)"
    and ps: "\<forall>p\<in>set ps. p \<noteq> NULL \<and> 0 \<le> p_priority (proc s p) \<and>
      p_priority (proc s p) < PROCESS_MAX_PRIORITY"
  shows "ends_highest (preempt_by (foldl (pick_first s) NULL ps) s') (wake_rings s ps R)"
proof -
  let ?R = "wake_rings s ps R" and ?a = "process_active s"
  define g where "g = foldl (pick_first s) NULL ps"
  have "NULL \<notin> set ps" using ps by auto
  from pick_first_max [of NULL "{}" ps g s, OF _ this g_def]
  have g: "g = NULL \<or> g \<in> set ps" "ps \<noteq> [] \<Longrightarrow> g \<noteq> NULL"
    "\<forall>p\<in>set ps. p_priority (proc s p) \<le> p_priority (proc s g)"
    by auto
  have ne: "R j \<noteq> [] \<or> (0 \<le> j \<and> j < PROCESS_MAX_PRIORITY \<and> j \<le> p_priority (proc s g) \<and> g \<in> set ps)"
    if "?R j \<noteq> []" for j
    using wake_rings_nonempty [OF that] ps g by (cases "ps = []") auto
  have a: "?a \<in> set (?R (p_priority (proc s ?a)))"
    by (rule wake_rings_mem) (rule runs_highestD(2) [OF h])
  show ?thesis
  proof (cases "g \<noteq> NULL \<and> p_priority (proc s g) > p_priority (proc s ?a)")
    case True
    then have gm: "g \<in> set (?R (p_priority (proc s g)))" "g \<in> set ps"
      using g wake_rings_woken by auto
    have "ends_highest (run_outcome g s') ?R"
      using ne runs_highestD(3) [OF h] True ps gm(2)
      by (intro ends_highest_run [OF r' gm(1)]) force+
    moreover have "process_sched_advance g s' = run_outcome g s'"
      by (rule advance_to) (use sched_reprD(4,5) [OF r' gm(1)] in auto)
    ultimately show ?thesis using True k by (simp add: preempt_by_def g_def)
  next
    case False
    have "runs_highest s' ?R"
      using ne False ps by (intro runs_highest_stay [OF h r' k(1) a]) fastforce
    then show ?thesis using False k by (auto simp: preempt_by_def g_def ends_highest_Done)
  qed
qed

lemma preempt_outcome:
  assumes "p \<noteq> NULL \<Longrightarrow> p_state (proc s p) = PROCESS_SCHED"
  shows "preempt_by p s = Done () s \<or> (p \<noteq> NULL \<and> preempt_by p s = Switched (switched p s))"
  using assms advance_to [of p s] by (auto simp: preempt_by_def run_outcome_def)

section \<open>Making one process ready, and switching to it if it is better\<close>

text \<open>Only processes, rings, the choice of the active process and the suspended calls changed.\<close>

definition ran :: "kernel \<Rightarrow> kernel \<Rightarrow> bool" where
  "ran s s' \<longleftrightarrow> s' = s\<lparr>proc := proc s', process_sched_rings := process_sched_rings s',
     process_active := process_active s', frames := frames s', tss_esp0 := tss_esp0 s'\<rparr>"

lemma ran_kernel:
  assumes "ran s s'"
  shows "queue s' = queue s" "process_id_pool s' = process_id_pool s"
    "process_pool s' = process_pool s" "clock_wait_head s' = clock_wait_head s"
    "cons_read_wait_head s' = cons_read_wait_head s" "queue_id_pool s' = queue_id_pool s"
    "queue_pool s' = queue_pool s" "heap s' = heap s" "user_stacks s' = user_stacks s"
    "pit_clock s' = pit_clock s" "cons s' = cons s" "umem s' = umem s"
    "user_start s' = user_start s" "user_end s' = user_end s" "kbd s' = kbd s"
  by (subst assms [unfolded ran_def], simp)+

lemma kept_ran: "kept s s' \<Longrightarrow> ran s s'"
  unfolding ran_def by (subst kept_eq, assumption) (simp add: kept_kernel)

lemma ran_trans:
  assumes "ran s s'" "ran s' s''"
  shows "ran s s''"
  unfolding ran_def by (subst assms(2) [unfolded ran_def], subst assms(1) [unfolded ran_def]) simp

lemma ran_switched: "ran s (switched p s)" "ran s ((switched p s)\<lparr>frames := x\<rparr>)"
  by (simp_all add: ran_def switched_def)

text \<open>
  \<open>spares R P Q s s'\<close>: from \<open>s\<close> to \<open>s'\<close> the processes outside the rings change only in \<open>P\<close> and
  the queues only in \<open>Q\<close>; the tables and the heads of the other waiting lists stay. \<open>relatives\<close> says
  that the family of no process changes, and that the other processes in the rings stay ready.
  \<open>touches\<close> says both, and that the priorities stay. \<open>suspends s fs s'\<close>: of the suspended calls only
  those of the active process change, to \<open>fs\<close>.
\<close>

definition spares :: "rings \<Rightarrow> ptr set \<Rightarrow> ptr set \<Rightarrow> kernel \<Rightarrow> kernel \<Rightarrow> bool" where
  "spares R P Q s s' \<longleftrightarrow> (\<forall>p. off_rings R p \<and> p \<notin> P \<longrightarrow> proc s' p = proc s p) \<and>
     (\<forall>q. q \<notin> Q \<longrightarrow> queue s' q = queue s q) \<and> (\<forall>q. qid (queue s' q) = qid (queue s q)) \<and>
     queue_pool s' = queue_pool s \<and> queue_id_pool s' = queue_id_pool s \<and>
     process_pool s' = process_pool s \<and> process_id_pool s' = process_id_pool s \<and>
     clock_wait_head s' = clock_wait_head s \<and> cons_read_wait_head s' = cons_read_wait_head s \<and> kbd s' = kbd s"

definition kin :: "process \<Rightarrow> process \<Rightarrow> bool" where
  "kin pr pr' \<longleftrightarrow> p_parent pr' = p_parent pr \<and> p_child pr' = p_child pr \<and>
     p_sibling pr' = p_sibling pr \<and> p_pid pr' = p_pid pr"

definition relatives :: "rings \<Rightarrow> kernel \<Rightarrow> kernel \<Rightarrow> bool" where
  "relatives R s s' \<longleftrightarrow> (\<forall>p. kin (proc s p) (proc s' p)) \<and>
     (\<forall>p. \<not> off_rings R p \<and> p \<noteq> process_active s \<longrightarrow>
       p_state (proc s' p) = p_state (proc s p) \<and> u2 (proc s' p) = u2 (proc s p))"

definition touches :: "rings \<Rightarrow> ptr set \<Rightarrow> ptr set \<Rightarrow> kernel \<Rightarrow> kernel \<Rightarrow> bool" where
  "touches R P Q s s' \<longleftrightarrow> spares R P Q s s' \<and> relatives R s s' \<and>
     (\<forall>p. p_priority (proc s' p) = p_priority (proc s p))"

lemma kin_refl [simp]: "kin pr pr"
  by (simp add: kin_def)

lemma kin_trans: "kin pr pr' \<Longrightarrow> kin pr' pr'' \<Longrightarrow> kin pr pr''"
  by (simp add: kin_def)

lemma kept_kin: "kept s s' \<Longrightarrow> kin (proc s p) (proc s' p)"
  by (simp add: kin_def kept_fields)

lemma relatives_refl [simp]: "proc s' = proc s \<Longrightarrow> relatives R s s'"
  by (simp add: relatives_def)

lemma relatives_cong: "relatives R s1 s' \<Longrightarrow> proc s1 = proc s \<Longrightarrow> process_active s1 = process_active s
    \<Longrightarrow> proc t = proc s' \<Longrightarrow> relatives R s t"
  by (simp add: relatives_def)

definition suspends :: "kernel \<Rightarrow> frame list \<Rightarrow> kernel \<Rightarrow> bool" where
  "suspends s fs s' \<longleftrightarrow> (\<forall>x. x \<noteq> process_active s \<longrightarrow> frames s' x = frames s x) \<and>
     (frames s' (process_active s) = frames s (process_active s) \<or> frames s' (process_active s) = fs)"

lemma touches_refl [simp]: "touches R P Q s s"
  by (simp add: touches_def spares_def)

lemma touches_base:
  assumes "touches R P Q s s1" "touches R P Q s1 s2" "proc s1 = proc s" "process_active s1 = process_active s"
  shows "touches R P Q s s2"
  using assms by (simp add: touches_def spares_def relatives_def)

lemma suspends_same: "frames s' = frames s \<Longrightarrow> suspends s fs s'"
  by (simp add: suspends_def)

lemma suspends_cong: "suspends s1 fs s' \<Longrightarrow> frames s1 = frames s \<Longrightarrow>
    process_active s1 = process_active s \<Longrightarrow> suspends s fs s'"
  by (simp add: suspends_def)

lemma suspends_switched [simp]: "suspends s [] (switched p s)"
  by (simp add: suspends_def switched_def)

text \<open>
  The call made by the active process of \<open>s\<close> is over, with \<open>v\<close> as its value: it returned, or the
  process was switched out with nothing left to do but to return \<open>v\<close>.
\<close>

definition completes :: "kernel \<Rightarrow> int \<Rightarrow> (kernel, int) outcome \<Rightarrow> kernel \<Rightarrow> bool" where
  "completes s v m s' \<longleftrightarrow>
     m = Done v s' \<and> process_active s' = process_active s \<and> frames s' = frames s \<or>
     m = Switched s' \<and> frames s' (process_active s) = [Fr_return v]"

lemma runs_highest_frames [simp]: "runs_highest (s\<lparr>frames := x\<rparr>) R \<longleftrightarrow> runs_highest s R"
  by (simp add: runs_highest_def)

lemma handover:
  assumes h: "runs_highest s R" and r1: "sched_repr s1 R"
    and a1: "process_active s1 = process_active s" "frames s1 = frames s"
    and pr: "\<And>q. p_priority (proc s1 q) = p_priority (proc s q)"
    and g: "g \<noteq> NULL" "off_rings R g" "0 \<le> p_priority (proc s g)"
      "p_priority (proc s g) < PROCESS_MAX_PRIORITY"
    and f: "wakes f"
  shows "\<exists>s'. completes s v (bindK (process_sched_ring_insert g (upd_proc g f s1)) (\<lambda>_ s5.
      calling s5 (Fr_return v) (preempt_by g s5) (\<lambda>_ s6. Done v s6))) s'
    \<and> runs_highest s' (ready_first s g R) \<and> ran s1 s' \<and> suspends s1 [Fr_return v] s'
    \<and> (\<forall>x. x \<noteq> g \<and> off_rings R x \<longrightarrow> proc s' x = proc s1 x)
    \<and> u2 (proc s' g) = u2 (f (proc s1 g)) \<and> u3 (proc s' g) = u3 (f (proc s1 g))
    \<and> u4 (proc s' g) = u4 (f (proc s1 g))
    \<and> (\<forall>x. p_priority (proc s' x) = p_priority (proc s1 x)) \<and> (\<forall>x. kin (proc s1 x) (proc s' x))
    \<and> (\<forall>x. x \<noteq> g \<longrightarrow> p_state (proc s' x) = p_state (proc s1 x) \<and> u2 (proc s' x) = u2 (proc s1 x))"
proof -
  from wake_one [OF r1 g(1,2) f] obtain s5 where
    s5: "process_sched_ring_insert g (upd_proc g f s1) = Done () s5" "kept s1 s5"
      "sched_repr s5 (ready_first s1 g R)" "\<forall>x. x \<noteq> g \<and> off_rings R x \<longrightarrow> proc s5 x = proc s1 x"
      "u2 (proc s5 g) = u2 (f (proc s1 g))" "u3 (proc s5 g) = u3 (f (proc s1 g))"
      "u4 (proc s5 g) = u4 (f (proc s1 g))"
      "\<forall>x. x \<noteq> g \<longrightarrow> p_state (proc s5 x) = p_state (proc s1 x) \<and> u2 (proc s5 x) = u2 (proc s1 x)" by blast
  note kin5 = kept_kin [OF s5(2)]
  have R: "ready_first s1 g R = ready_first s g R" by (simp add: ready_first_def pr)
  have "sched_repr s5 (wake_rings s [g] R)" using s5(3) R by simp
  from wake_preempt [OF h this, of] kept_kernel(2) [OF s5(2)] kept_fields(5) [OF s5(2)] a1 pr g
  have e: "ends_highest (preempt_by g s5) (ready_first s g R)"
    by (simp add: pick_first_def)
  have "g \<in> set (ready_first s g R (p_priority (proc s g)))" by (simp add: ready_first_def Let_def)
  then have "p_state (proc s5 g) = PROCESS_SCHED" using sched_reprD(5) [OF s5(3)] R by simp
  from preempt_outcome [of g s5, OF this] consider
    (stay) "preempt_by g s5 = Done () s5" | (switch) "preempt_by g s5 = Switched (switched g s5)" by blast
  then show ?thesis
  proof cases
    case stay
    with e s5 kin5 show ?thesis
      by (intro exI [of _ s5])
        (simp add: completes_def ends_highest_def kept_ran suspends_same kept_kernel kept_fields a1)
  next
    case switch
    have "process_active s5 \<noteq> NULL"
      using runs_highestD(4) [OF h] a1 kept_kernel(2) [OF s5(2)] by simp
    then have fr: "frames (switched g s5) (process_active s5) = []" by (simp add: switched_def)
    let ?s = "(switched g s5)\<lparr>frames := (frames (switched g s5))(process_active s5 := [Fr_return v])\<rparr>"
    have "process_active s5 = process_active s" using a1 kept_kernel(2) [OF s5(2)] by simp
    moreover have "suspends s1 [Fr_return v] ?s"
      by (simp add: suspends_def switched_def kept_kernel [OF s5(2)])
    ultimately show ?thesis
      using switch e s5 kin5 fr ran_trans [OF kept_ran [OF s5(2)] ran_switched(2)]
      by (intro exI [of _ ?s]) (simp add: completes_def ends_highest_def kept_fields)
  qed
qed

section \<open>The active process stops being ready\<close>

lemma ring_remove1:
  assumes r: "sched_repr s R" and p: "p \<in> set (R k)"
  shows "\<exists>n s'. process_sched_ring_remove p s = Done n s' \<and> sched_repr s' (R(k := remove1 p (R k)))
    \<and> relinked (set (R k)) s s' \<and> off_rings (R(k := remove1 p (R k))) p
    \<and> (if remove1 p (R k) = [] then n = NULL else n \<in> set (remove1 p (R k)))"
proof -
  obtain as bs where Rk: "R k = as @ p # bs" using p by (auto simp: in_set_conv_decomp)
  have d: "p \<notin> set as" "p \<notin> set bs" using sched_reprD(2) [OF r, of k] by (auto simp: Rk)
  have rem: "remove1 p (R k) = as @ bs" using d by (simp add: Rk remove1_append)
  have "p \<notin> set (R j)" if "j \<noteq> k" for j using sched_repr_disjoint [OF r that] p by auto
  then have "off_rings (R(k := remove1 p (R k))) p" using d rem by (auto simp: off_rings_def)
  moreover have "hd (bs @ as) \<in> set (as @ bs)" if "as @ bs \<noteq> []"
    using that hd_in_set [of "bs @ as"] by auto
  ultimately show ?thesis using ring_remove_repr [OF r Rk] rem by auto
qed

text \<open>
  Every blocking call removes the active process from its ring, changes its state and advances.
  As long as some other process is ready (the idle process is), this is a switch to a ready
  process of highest priority.
\<close>

lemma block_advance:
  assumes r: "sched_repr s R" and st: "p_state (proc s (process_active s)) \<noteq> PROCESS_SCHED"
    and ne: "\<And>j. R j \<noteq> [] \<Longrightarrow> 0 \<le> j \<and> j \<le> p_priority (proc s (process_active s))"
    and max: "p_priority (proc s (process_active s)) < PROCESS_MAX_PRIORITY"
    and some: "\<exists>j. R j \<noteq> []"
    and n: "if R (p_priority (proc s (process_active s))) = [] then n = NULL
      else n \<in> set (R (p_priority (proc s (process_active s))))"
  shows "\<exists>q. process_sched_advance n s = Switched (switched q s) \<and> runs_highest (switched q s) R"
proof -
  let ?k = "p_priority (proc s (process_active s))"
  have sw: "run_outcome q s = Switched (switched q s) \<and> runs_highest (switched q s) R"
    if q: "q \<in> set (R j)" and j: "\<And>i. R i \<noteq> [] \<Longrightarrow> i \<le> j" for q j
  proof -
    have "q \<noteq> process_active s" using sched_reprD(5) [OF r q] st by auto
    moreover have "R j \<noteq> []" using q by auto
    then have "j < PROCESS_MAX_PRIORITY" using ne [of j] max by simp
    then have "ends_highest (run_outcome q s) R"
      using j ne by (intro ends_highest_run [OF r q]) auto
    ultimately show ?thesis by (simp add: run_outcome_def ends_highest_def)
  qed
  show ?thesis
  proof (cases "R ?k = []")
    case False
    then have n': "n \<in> set (R ?k)" using n by simp
    have "process_sched_advance n s = run_outcome n s"
      by (rule advance_to) (use sched_reprD(4,5) [OF r n'] in auto)
    then show ?thesis using sw [OF n'] ne by auto
  next
    case True
    then obtain m where m: "highest R ?k m"
      using ring_find_repr [OF r, of ?k] some ne by (metis order_le_less)
    have "hd (R m) \<in> set (R m)" using m by (simp add: highest_def)
    moreover have "i \<le> m" if "R i \<noteq> []" for i
    proof -
      have "i < ?k" using ne [OF that] True that by (cases "i = ?k") auto
      then show ?thesis using m that by (auto simp: highest_def) (meson not_le)
    qed
    ultimately show ?thesis using sw advance_lower [OF r st m] n True by auto
  qed
qed

text \<open>The rings without the active process.\<close>

definition blocked :: "kernel \<Rightarrow> rings \<Rightarrow> rings" where
  "blocked s R = (let p = process_active s; k = p_priority (proc s p)
     in R(k := remove1 p (R k)))"

lemma block_active:
  assumes h: "runs_highest s R" and some: "\<exists>j. blocked s R j \<noteq> []"
  obtains n s1 where "process_sched_ring_remove (process_active s) s = Done n s1" "kept s s1"
    "sched_repr s1 (blocked s R)" "off_rings (blocked s R) (process_active s)"
    "\<And>q. p_state (proc s1 q) = p_state (proc s q)" "\<And>q. off_rings R q \<Longrightarrow> proc s1 q = proc s q"
    "\<And>q. u2 (proc s1 q) = u2 (proc s q)"
    "\<And>s2. \<lbrakk>sched_repr s2 (blocked s R); process_active s2 = process_active s;
      p_state (proc s2 (process_active s)) \<noteq> PROCESS_SCHED;
      p_priority (proc s2 (process_active s)) = p_priority (proc s (process_active s))\<rbrakk>
      \<Longrightarrow> \<exists>q. process_sched_advance n s2 = Switched (switched q s2)
        \<and> runs_highest (switched q s2) (blocked s R)"
proof -
  let ?p = "process_active s" and ?R = "blocked s R"
  let ?k = "p_priority (proc s ?p)"
  note r = runs_highestD(1) [OF h] and p = runs_highestD(2) [OF h]
  have R: "?R = R(?k := remove1 ?p (R ?k))" by (simp add: blocked_def Let_def)
  from ring_remove1 [OF r p] obtain n s1 where
    s1: "process_sched_ring_remove ?p s = Done n s1" "sched_repr s1 ?R" "off_rings ?R ?p"
      "relinked (set (R ?k)) s s1"
      "if remove1 ?p (R ?k) = [] then n = NULL else n \<in> set (remove1 ?p (R ?k))"
    unfolding R by blast
  have ne: "0 \<le> j \<and> j \<le> ?k" if "?R j \<noteq> []" for j
    using that runs_highestD(3) [OF h, of j] by (auto simp: R split: if_splits)
       (metis list.distinct(1) remove1.simps(1) runs_highestD(3) [OF h])+
  show thesis
  proof (rule that [OF s1(1) relinked_kept [OF s1(4)] s1(2,3)])
    show "p_state (proc s1 q) = p_state (proc s q)" "u2 (proc s1 q) = u2 (proc s q)" for q
      using relinked_fields(1,7) [OF s1(4)] by simp_all
    show "proc s1 q = proc s q" if "off_rings R q" for q
      using relinked_outside [OF s1(4)] that by auto
    fix s2 assume s2: "sched_repr s2 ?R" "process_active s2 = ?p"
      "p_state (proc s2 ?p) \<noteq> PROCESS_SCHED" "p_priority (proc s2 ?p) = ?k"
    show "\<exists>q. process_sched_advance n s2 = Switched (switched q s2) \<and> runs_highest (switched q s2) ?R"
      using s2 s1(5) ne some runs_highestD(6) [OF h]
      by (intro block_advance [OF s2(1)]) (auto simp: R)
  qed
qed

end
