(* ===== verification/Time_Queue.thy ===== *)
theory Time_Queue
  imports Waking
begin

text \<open>
  Processes waiting for the clock: \<^verbatim>\<open>kernel/process/time.c\<close>, with \<open>process_wait_clock\<close> and the
  timer handler of \<^verbatim>\<open>process.c\<close>. The waiting processes are a list linked by \<open>wait_time.next\<close>; the
  timer wakes the ones at its front whose target clock is reached.
\<close>

section \<open>Operations\<close>

text \<open>
  The search loops of \<open>process_time_queue_add\<close> and \<open>process_time_queue_remove\<close> have no step that
  advances \<open>process_ptr\<close>, which stays at \<open>&clock_wait_head\<close>: they are partial functions, and
  \<open>None\<close> is a loop that never ends.
\<close>

partial_function (option) time_add_loop :: "u32 \<Rightarrow> kernel \<Rightarrow> unit option" where
  "time_add_loop target s =
     (if clock_wait_head s \<noteq> NULL then
        (if target \<le> target_clock (proc s (clock_wait_head s)) then Some ()
         else time_add_loop target s)
      else Some ())"

definition process_time_queue_add :: "ptr \<Rightarrow> kernel \<Rightarrow> (kernel, unit) outcome" where
  "process_time_queue_add process s =
     (if p_state (proc s process) \<noteq> PROCESS_WAIT_TIME
      then Panic ''process_time_queue_add(...): process->state is not WAIT_TIME''
      else case time_add_loop (target_clock (proc s process)) s of
        None \<Rightarrow> Hang
      | Some _ \<Rightarrow>
          let s1 = upd_proc process (set_u0 (clock_wait_head s)) s
          in Done () (s1\<lparr>clock_wait_head := process\<rparr>))"

partial_function (option) time_remove_loop :: "ptr \<Rightarrow> kernel \<Rightarrow> kernel option" where
  "time_remove_loop process s =
     (if clock_wait_head s \<noteq> NULL then
        (if clock_wait_head s = process
         then Some (s\<lparr>clock_wait_head := time_next (proc s process)\<rparr>)
         else time_remove_loop process s)
      else Some s)"

definition process_time_queue_remove :: "ptr \<Rightarrow> kernel \<Rightarrow> (kernel, unit) outcome" where
  "process_time_queue_remove process s =
     (if p_state (proc s process) \<noteq> PROCESS_WAIT_TIME
      then Panic ''process_time_queue_remove(...): process->state is not WAIT_TIME''
      else case time_remove_loop process s of None \<Rightarrow> Hang | Some s1 \<Rightarrow> Done () s1)"

text \<open>The loop of the timer handler, with its two local variables.\<close>

partial_function (option) time_wake_loop ::
    "u32 \<Rightarrow> ptr \<Rightarrow> ptr \<Rightarrow> kernel \<Rightarrow> (kernel, ptr \<times> ptr) outcome option" where
  "time_wake_loop clock highest_process process s =
     (if process \<noteq> NULL \<and> target_clock (proc s process) \<le> clock then
        (case process_sched_ring_insert process (upd_proc process (set_state PROCESS_SCHED) s) of
           Done _ s1 \<Rightarrow> time_wake_loop clock (pick_first s highest_process process)
             (time_next (proc s process)) s1
         | Switched s1 \<Rightarrow> Some (Switched s1)
         | Panic e \<Rightarrow> Some (Panic e)
         | Hang \<Rightarrow> Some Hang)
      else Some (Done (highest_process, process) s))"

definition process_time_pit_handler :: "u32 \<Rightarrow> kernel \<Rightarrow> (kernel, unit) outcome" where
  "process_time_pit_handler clock s =
     bindK (or_hang (time_wake_loop clock NULL (clock_wait_head s) s))
       (\<lambda>(highest_process, process) s1.
          preempt_by highest_process (s1\<lparr>clock_wait_head := process\<rparr>))"

text \<open>\<open>process_pit_handler\<close> and \<open>process_wait_clock\<close> of \<^verbatim>\<open>process.c\<close>.\<close>

definition process_pit_handler :: "u32 \<Rightarrow> kernel \<Rightarrow> (kernel, unit) outcome" where
  "process_pit_handler clock s =
     calling s (Fr_pit clock) (process_sched_pit_handler clock s)
       (\<lambda>_ s1. process_time_pit_handler clock s1)"

definition process_wait_clock :: "u32 \<Rightarrow> kernel \<Rightarrow> (kernel, unit) outcome" where
  "process_wait_clock clock s =
     (if clock \<le> pit_clock s then process_sched_advance NULL s
      else bindK (process_sched_ring_remove (process_active s) s) (\<lambda>next_process s1.
        let s2 = upd_proc (process_active s1) (set_state PROCESS_WAIT_TIME) s1;
            s3 = upd_proc (process_active s2) (set_u1 clock) s2
        in bindK (process_time_queue_add (process_active s3) s3) (\<lambda>_ s4.
             process_sched_advance next_process s4)))"

section \<open>When the search loops end\<close>

lemma time_add_loop_ends:
  "time_add_loop t s = Some x \<longleftrightarrow>
     clock_wait_head s = NULL \<or> t \<le> target_clock (proc s (clock_wait_head s))"
proof
  assume "time_add_loop t s = Some x"
  then show "clock_wait_head s = NULL \<or> t \<le> target_clock (proc s (clock_wait_head s))"
    by (induction t s x rule: time_add_loop.raw_induct [rotated, consumes 1]) (auto split: if_splits)
next
  assume "clock_wait_head s = NULL \<or> t \<le> target_clock (proc s (clock_wait_head s))"
  then show "time_add_loop t s = Some x" by (subst time_add_loop.simps) auto
qed

lemma time_remove_loop_ends:
  "time_remove_loop p s = Some s' \<longleftrightarrow>
     clock_wait_head s = NULL \<and> s' = s \<or>
     clock_wait_head s \<noteq> NULL \<and> clock_wait_head s = p \<and>
       s' = s\<lparr>clock_wait_head := time_next (proc s p)\<rparr>"
proof
  assume "time_remove_loop p s = Some s'"
  then show "clock_wait_head s = NULL \<and> s' = s \<or>
     clock_wait_head s \<noteq> NULL \<and> clock_wait_head s = p \<and>
       s' = s\<lparr>clock_wait_head := time_next (proc s p)\<rparr>"
    by (induction p s s' rule: time_remove_loop.raw_induct [rotated, consumes 1]) (auto split: if_splits)
next
  assume "clock_wait_head s = NULL \<and> s' = s \<or>
     clock_wait_head s \<noteq> NULL \<and> clock_wait_head s = p \<and>
       s' = s\<lparr>clock_wait_head := time_next (proc s p)\<rparr>"
  then show "time_remove_loop p s = Some s'" by (subst time_remove_loop.simps) auto
qed

section \<open>The waiting list\<close>

definition time_repr :: "kernel \<Rightarrow> ptr list \<Rightarrow> bool" where
  "time_repr s ts \<longleftrightarrow> slist (link0 s) (clock_wait_head s) ts \<and>
     (\<forall>p \<in> set ts. p_state (proc s p) = PROCESS_WAIT_TIME)"

definition targets :: "kernel \<Rightarrow> ptr list \<Rightarrow> u32 list" where
  "targets s ts = map (\<lambda>p. target_clock (proc s p)) ts"

lemma time_repr_head: "time_repr s ts \<Longrightarrow> clock_wait_head s = (if ts = [] then NULL else hd ts)"
  by (cases ts) (auto simp: time_repr_def)

text \<open>
  Adding returns exactly when the new target is not after the one of the head. Then the process is
  the new head, and a sorted list stays sorted.
\<close>

lemma time_add_repr:
  assumes t: "time_repr s ts" and p: "p \<noteq> NULL" "p \<notin> set ts" "p_state (proc s p) = PROCESS_WAIT_TIME"
  shows "if ts = [] \<or> target_clock (proc s p) \<le> target_clock (proc s (hd ts))
    then \<exists>s'. process_time_queue_add p s = Done () s' \<and> time_repr s' (p # ts)
      \<and> targets s' (p # ts) = targets s (p # ts)
      \<and> s' = (upd_proc p (set_u0 (clock_wait_head s)) s)\<lparr>clock_wait_head := p\<rparr>
    else process_time_queue_add p s = Hang"
proof -
  have hd: "clock_wait_head s = NULL \<longleftrightarrow> ts = []" "ts \<noteq> [] \<Longrightarrow> clock_wait_head s = hd ts"
    using t by (cases ts; auto simp: time_repr_def)+
  let ?s = "(upd_proc p (set_u0 (clock_wait_head s)) s)\<lparr>clock_wait_head := p\<rparr>"
  have "time_repr ?s (p # ts)"
    using t p by (auto simp: time_repr_def proc_upd_proc)
  moreover have "targets ?s (p # ts) = targets s (p # ts)"
    using p by (auto simp: targets_def proc_upd_proc)
  moreover have "time_add_loop (u1 (proc s p)) s =
      (if ts = [] \<or> target_clock (proc s p) \<le> target_clock (proc s (hd ts)) then Some () else None)"
    using time_add_loop_ends [of "u1 (proc s p)" s] hd
    by (cases "time_add_loop (u1 (proc s p)) s") (auto simp: eq_commute [of None])
  ultimately show ?thesis using p by (simp add: process_time_queue_add_def Let_def)
qed

lemma time_remove_repr:
  assumes t: "time_repr s ts" and p: "p \<in> set ts"
  shows "process_time_queue_remove p s =
    (if p = hd ts then Done () (s\<lparr>clock_wait_head := time_next (proc s p)\<rparr>) else Hang)"
    and "p = hd ts \<Longrightarrow> time_repr (s\<lparr>clock_wait_head := time_next (proc s p)\<rparr>) (tl ts)"
proof -
  obtain x xs where ts: "ts = x # xs" using p by (cases ts) auto
  have hd: "clock_wait_head s = x" "x \<noteq> NULL" using t by (auto simp: time_repr_def ts)
  have st: "p_state (proc s p) = PROCESS_WAIT_TIME" using t p by (simp add: time_repr_def)
  have "time_remove_loop p s = (if p = x
      then Some (s\<lparr>clock_wait_head := time_next (proc s p)\<rparr>) else None)"
    using time_remove_loop_ends [of p s] hd by (cases "time_remove_loop p s") auto
  then show "process_time_queue_remove p s =
    (if p = hd ts then Done () (s\<lparr>clock_wait_head := time_next (proc s p)\<rparr>) else Hang)"
    using st by (simp add: process_time_queue_remove_def ts)
  show "p = hd ts \<Longrightarrow> time_repr (s\<lparr>clock_wait_head := time_next (proc s p)\<rparr>) (tl ts)"
    using t by (simp add: time_repr_def ts link0_def)
qed

section \<open>The timer wakes exactly the expired processes\<close>

definition expired :: "kernel \<Rightarrow> u32 \<Rightarrow> ptr \<Rightarrow> bool" where
  "expired s clock p \<longleftrightarrow> target_clock (proc s p) \<le> clock"

lemma wakes_state: "wakes (set_state PROCESS_SCHED)"
  by (simp add: wakes_def steady_def)

lemma time_wake_loop_list:
  assumes "sched_repr s R" "slist (link0 s) p ts" "\<forall>q\<in>set ts. off_rings R q"
  shows "time_wake_loop clock h p s =
    Some (bindK (wake_list (set_state PROCESS_SCHED) (takeWhile (expired s clock) ts) h s)
      (\<lambda>h' s'. Done (h', case dropWhile (expired s clock) ts of [] \<Rightarrow> NULL | q # _ \<Rightarrow> q) s'))"
  using assms
proof (induction ts arbitrary: p s R h)
  case Nil
  then show ?case by (subst time_wake_loop.simps) simp
next
  case (Cons x xs)
  then have p: "p = x" "x \<noteq> NULL" and sl: "slist (link0 s) (link0 s x) xs" by auto
  have x: "x \<notin> set xs" using slist_distinct [OF Cons.prems(2)] by simp
  show ?case
  proof (cases "expired s clock x")
    case False
    then show ?thesis by (subst time_wake_loop.simps) (simp add: p expired_def)
  next
    case True
    from wake_one [OF Cons.prems(1) p(2) _ wakes_state] Cons.prems(3) obtain s1 where
      s1: "process_sched_ring_insert x (upd_proc x (set_state PROCESS_SCHED) s) = Done () s1"
        "sched_repr s1 (ready_first s x R)" "\<forall>q. q \<noteq> x \<and> off_rings R q \<longrightarrow> proc s1 q = proc s q"
      by auto
    have same: "proc s1 q = proc s q" if "q \<in> set xs" for q
      using s1(3) that x Cons.prems(3) by auto
    have sl1: "slist (link0 s1) (link0 s x) xs"
      using sl same by (subst slist_cong [of _ _ "link0 s"]) (simp_all add: link0_def)
    have off: "\<forall>q\<in>set xs. off_rings (ready_first s x R) q" using Cons.prems(3) x by auto
    have ex: "takeWhile (expired s1 clock) xs = takeWhile (expired s clock) xs"
      "dropWhile (expired s1 clock) xs = dropWhile (expired s clock) xs"
      using same by (auto intro!: takeWhile_cong dropWhile_cong simp: expired_def)
    show ?thesis
      using True Cons.IH [OF s1(2) sl1 off, of "pick_first s h x"] s1(1) p
      by (subst time_wake_loop.simps) (simp add: expired_def [of s clock x] ex link0_def)
  qed
qed

lemma time_repr_same:
  "\<lbrakk>time_repr s ts; clock_wait_head s' = clock_wait_head s; \<And>p. p \<in> set ts \<Longrightarrow> proc s' p = proc s p\<rbrakk>
    \<Longrightarrow> time_repr s' ts"
  using slist_cong [of ts "link0 s'" "link0 s"] by (auto simp: time_repr_def link0_def)

lemma slist_suffix: "slist nx h (xs @ ys) \<Longrightarrow> slist nx (case ys of [] \<Rightarrow> NULL | y # _ \<Rightarrow> y) ys"
proof (induction xs arbitrary: h)
  case Nil
  then show ?case by (cases ys) auto
qed auto

lemma time_handler_repr:
  assumes h: "runs_highest s R" and t: "time_repr s ts" and v: "valid_priorities s ts"
  shows "\<exists>s'. outcome_state (process_time_pit_handler clock s) = Some s'
    \<and> runs_highest s' (wake_rings s (takeWhile (expired s clock) ts) R)
    \<and> time_repr s' (dropWhile (expired s clock) ts)
    \<and> (\<forall>p\<in>set (dropWhile (expired s clock) ts). proc s' p = proc s p)
    \<and> touches R (set (takeWhile (expired s clock) ts)) {} (s\<lparr>clock_wait_head := clock_wait_head s'\<rparr>) s'
    \<and> suspends s [] s'
    \<and> (process_time_pit_handler clock s = Done () s' \<longrightarrow>
        process_active s' = process_active s \<and> frames s' = frames s)"
proof -
  note r = runs_highestD(1) [OF h]
  let ?w = "takeWhile (expired s clock) ts" and ?d = "dropWhile (expired s clock) ts"
  have sl: "slist (link0 s) (clock_wait_head s) ts" and wt: "\<forall>p\<in>set ts. p_state (proc s p) = PROCESS_WAIT_TIME"
    using t by (auto simp: time_repr_def)
  have ts: "?w @ ?d = ts" by simp
  have "distinct (?w @ ?d)" using slist_distinct [OF sl] by simp
  then have dist: "distinct ?w" "set ?w \<inter> set ?d = {}" unfolding distinct_append by auto
  have off: "\<forall>q\<in>set ts. off_rings R q" using wt waiting_off_rings [OF r] by auto
  have nn: "NULL \<notin> set ts" using slist_no_NULL [OF sl] .
  have offw: "\<forall>p\<in>set ?w. p \<noteq> NULL \<and> off_rings R p" using off nn by (auto dest: set_takeWhileD)
  from wake_list_repr [OF r wakes_state _ offw, of NULL] dist obtain s1 where
    s1: "wake_list (set_state PROCESS_SCHED) ?w NULL s = Done (foldl (pick_first s) NULL ?w) s1"
      "sched_repr s1 (wake_rings s ?w R)" "kept s s1"
      "\<forall>q. q \<notin> set ?w \<and> off_rings R q \<longrightarrow> proc s1 q = proc s q"
      "\<forall>q. q \<notin> set ?w \<longrightarrow> p_state (proc s1 q) = p_state (proc s q) \<and> u2 (proc s1 q) = u2 (proc s q)" by auto
  have rel: "relatives R s s1" unfolding relatives_def using s1(5) offw kept_kin [OF s1(3)] by blast
  define s2 where "s2 = s1\<lparr>clock_wait_head := case ?d of [] \<Rightarrow> NULL | q # _ \<Rightarrow> q\<rparr>"
  have eq: "process_time_pit_handler clock s = preempt_by (foldl (pick_first s) NULL ?w) s2"
    using time_wake_loop_list [OF r sl off, of clock NULL] s1(1)
    by (simp add: process_time_pit_handler_def s2_def)
  have d: "proc s2 p = proc s p" if "p \<in> set ?d" for p
  proof -
    have "p \<in> set ts" using that by (rule set_dropWhileD)
    moreover have "p \<notin> set ?w" using dist that by auto
    ultimately show ?thesis using s1(4) off by (simp add: s2_def)
  qed
  have "slist (link0 s) (case ?d of [] \<Rightarrow> NULL | q # _ \<Rightarrow> q) ?d"
    using slist_suffix [of "link0 s" "clock_wait_head s" ?w ?d] sl by simp
  then have "slist (link0 s2) (clock_wait_head s2) ?d"
    using d by (subst slist_cong [of _ _ "link0 s"]) (simp_all add: s2_def link0_def)
  then have t2: "time_repr s2 ?d"
    using d wt by (auto simp: time_repr_def dest: set_dropWhileD)
  have r2: "sched_repr s2 (wake_rings s ?w R)" using s1(2) by (simp add: s2_def)
  have "\<forall>p\<in>set ?w. p \<noteq> NULL \<and> 0 \<le> p_priority (proc s p) \<and> p_priority (proc s p) < PROCESS_MAX_PRIORITY"
    using v nn by (auto simp: valid_priorities_def dest: set_takeWhileD)
  from wake_preempt [OF h r2 _ _ this]
  have e: "ends_highest (process_time_pit_handler clock s) (wake_rings s ?w R)"
    using kept_kernel(2) [OF s1(3)] kept_fields(5) [OF s1(3)] eq by (simp add: s2_def)
  let ?g = "foldl (pick_first s) NULL ?w"
  have "p_state (proc s2 ?g) = PROCESS_SCHED" if "?g \<noteq> NULL"
  proof -
    have "NULL \<notin> set ?w" using nn by (auto dest: set_takeWhileD)
    then have "?g \<in> set ?w" using pick_first_max(1) [of NULL "{}" ?w ?g s] that by auto
    then show ?thesis using sched_reprD(5) [OF r2 wake_rings_woken] by simp
  qed
  then obtain s' where s': "outcome_state (preempt_by ?g s2) = Some s'"
      "preempt_by ?g s2 = Done () s2 \<and> s' = s2 \<or> preempt_by ?g s2 = Switched s' \<and> s' = switched ?g s2"
    using preempt_outcome [of ?g s2] by auto
  then have k: "proc s' = proc s2" "clock_wait_head s' = clock_wait_head s2" "ran s2 s'"
    using ran_switched(1) by (auto simp: kept_ran)
  have "touches R (set ?w) {} (s\<lparr>clock_wait_head := clock_wait_head s'\<rparr>) s'"
    using s1(4) k(1,2) ran_kernel [OF k(3)] kept_kernel [OF s1(3)] kept_fields(5) [OF s1(3)]
      relatives_cong [OF rel _ _ k(1) [unfolded s2_def, simplified]]
    by (simp add: touches_def spares_def s2_def)
  moreover have "suspends s2 [] s'" using s'(2) suspends_same [of s2 s2] by auto
  then have "suspends s [] s'" by (rule suspends_cong) (simp_all add: s2_def kept_kernel [OF s1(3)])
  moreover have "time_repr s' ?d" by (rule time_repr_same [OF t2]) (simp_all add: k)
  ultimately show ?thesis
    using s' e eq d k(1) kept_kernel [OF s1(3)] by (auto simp: ends_highest_def s2_def)
qed

lemma takeWhile_sorted:
  "sorted (map f xs) \<Longrightarrow> takeWhile (\<lambda>x. f x \<le> c) xs = filter (\<lambda>x. f x \<le> c) xs"
  by (induction xs) (auto intro!: filter_False [symmetric], use order_trans in blast)

lemma expired_sorted:
  "sorted (targets s ts) \<Longrightarrow> takeWhile (expired s clock) ts = filter (expired s clock) ts"
  using takeWhile_sorted [of "\<lambda>p. target_clock (proc s p)" ts clock]
  by (simp add: targets_def expired_def [abs_def] o_def)

section \<open>Waiting for the clock\<close>

text \<open>
  A process that waits for a later clock leaves its ring and becomes the head of the waiting list
  if no process there waits for an earlier clock. If one does, the kernel hangs.
\<close>

lemma wait_clock_repr:
  assumes h: "runs_highest s R" and t: "time_repr s ts" and c: "pit_clock s < clock"
    and some: "\<exists>j. blocked s R j \<noteq> []"
  defines "p \<equiv> process_active s"
  shows "if ts = [] \<or> clock \<le> target_clock (proc s (hd ts))
    then \<exists>s'. process_wait_clock clock s = Switched s' \<and> runs_highest s' (blocked s R)
      \<and> time_repr s' (p # ts) \<and> targets s' (p # ts) = clock # targets s ts
      \<and> touches R {} {} (s\<lparr>clock_wait_head := p\<rparr>) s' \<and> suspends s [] s'
    else process_wait_clock clock s = Hang"
proof -
  note r = runs_highestD(1) [OF h]
  have off: "off_rings R q" if "q \<in> set ts" for q
    using t that waiting_off_rings [OF r] by (auto simp: time_repr_def)
  have p: "p \<noteq> NULL" "p \<notin> set ts" "p \<in> set (R (p_priority (proc s p)))"
    using runs_highestD(2,4) [OF h] off off_ringsD by (auto simp: p_def)
  obtain n s1 where s1: "process_sched_ring_remove p s = Done n s1" "kept s s1"
      "sched_repr s1 (blocked s R)" "off_rings (blocked s R) p"
      "\<And>q. off_rings R q \<Longrightarrow> proc s1 q = proc s q"
      "\<And>q. p_state (proc s1 q) = p_state (proc s q)" "\<And>q. u2 (proc s1 q) = u2 (proc s q)"
    and adv: "\<And>s2. \<lbrakk>sched_repr s2 (blocked s R); process_active s2 = p;
      p_state (proc s2 p) \<noteq> PROCESS_SCHED; p_priority (proc s2 p) = p_priority (proc s p)\<rbrakk>
      \<Longrightarrow> \<exists>q. process_sched_advance n s2 = Switched (switched q s2)
        \<and> runs_highest (switched q s2) (blocked s R)"
    using block_active [OF h some] unfolding p_def by metis
  have a1: "process_active s1 = p" using kept_kernel(2) [OF s1(2)] by (simp add: p_def)
  define s3 where "s3 = upd_proc p (set_u1 clock) (upd_proc p (set_state PROCESS_WAIT_TIME) s1)"
  have same: "proc s3 q = proc s q" if "q \<in> set ts" for q
    using that off p s1(5) by (auto simp: s3_def proc_upd_proc)
  have t3: "time_repr s3 ts"
    by (rule time_repr_same [OF t]) (use same kept_kernel(5) [OF s1(2)] in \<open>auto simp: s3_def\<close>)
  have tg: "targets s3 ts = targets s ts" using same by (simp add: targets_def)
  have hd: "u1 (proc s3 (hd ts)) = u1 (proc s (hd ts))" if "ts \<noteq> []" using same that by simp
  have p3: "p_state (proc s3 p) = PROCESS_WAIT_TIME" "target_clock (proc s3 p) = clock"
    "p_priority (proc s3 p) = p_priority (proc s p)"
    using kept_fields(5) [OF s1(2)] by (simp_all add: s3_def)
  have r3: "sched_repr s3 (blocked s R)"
    using s1(3,4) by (auto simp: s3_def intro!: sched_repr_upd_proc)
  have eq: "process_wait_clock clock s = bindK (process_time_queue_add p s3)
      (\<lambda>_ s4. process_sched_advance n s4)"
    using c [unfolded not_le [symmetric]] s1(1) a1 by (simp add: process_wait_clock_def Let_def s3_def p_def [symmetric])
  show ?thesis
  proof (cases "ts = [] \<or> clock \<le> target_clock (proc s (hd ts))")
    case True
    then have c3: "ts = [] \<or> target_clock (proc s3 p) \<le> target_clock (proc s3 (hd ts))"
      using True by (cases "ts = []") (simp_all add: hd p3)
    define s4 where "s4 = (upd_proc p (set_u0 (clock_wait_head s3)) s3)\<lparr>clock_wait_head := p\<rparr>"
    from time_add_repr [OF t3 p(1,2) p3(1)] c3 have s4: "process_time_queue_add p s3 = Done () s4"
        "time_repr s4 (p # ts)" "targets s4 (p # ts) = targets s3 (p # ts)"
      by (auto simp: s4_def)
    have r4: "sched_repr s4 (blocked s R)"
      using sched_repr_upd_proc [OF r3, of p] s1(4) by (simp add: s4_def)
    from adv [OF r4] obtain q where q: "process_sched_advance n s4 = Switched (switched q s4)"
        "runs_highest (switched q s4) (blocked s R)"
      using a1 p3 by (auto simp: s4_def s3_def)
    have "time_repr (switched q s4) (p # ts)" "targets (switched q s4) (p # ts) = clock # targets s ts"
      using s4(2,3) tg p3 by (simp_all add: time_repr_def targets_def)
    moreover have "touches R {} {} (s\<lparr>clock_wait_head := p\<rparr>) (switched q s4)"
    proof -
      have "proc s4 x = proc s x" if "off_rings R x" for x
      proof -
        have "x \<noteq> p" using that p(3) by auto
        then show ?thesis using s1(5) [OF that] by (simp add: s4_def s3_def)
      qed
      then show ?thesis
        by (simp add: touches_def spares_def relatives_def kin_def s4_def s3_def kept_kernel [OF s1(2)]
            kept_fields [OF s1(2)] proc_upd_proc s1(6,7) p_def [symmetric])
    qed
    moreover have "suspends s [] (switched q s4)"
      using suspends_switched by (rule suspends_cong) (simp_all add: s4_def s3_def kept_kernel [OF s1(2)])
    ultimately show ?thesis using True eq s4(1) q by auto
  next
    case False
    then have "process_time_queue_add p s3 = Hang"
      using False time_add_repr [OF t3 p(1,2) p3(1)] by (cases "ts = []") (simp_all add: hd p3)
    with False eq show ?thesis by simp
  qed
qed

end
