(* ===== verification/Message_Buffer.thy ===== *)
theory Message_Buffer
  imports Process_State
begin

text \<open>
  The ring buffer of a message queue: \<open>process_queue_raw_write\<close> and \<open>process_queue_raw_read\<close> of
  \<^verbatim>\<open>kernel/process/queue.c\<close>, which check nothing. Inside its bounds the buffer is a first-in
  first-out queue: that is the locale \<open>bounded_fifo\<close>, interpreted on the two functions.
\<close>

section \<open>Operations\<close>

text \<open>Both return the previous length; the read also returns the cell it read.\<close>

definition process_queue_raw_write :: "int \<Rightarrow> process_queue \<Rightarrow> nat \<times> process_queue" where
  "process_queue_raw_write message q =
     (let q1 = q\<lparr>q_cells := (q_cells q)(write_index q := message)\<rparr>;
          q2 = q1\<lparr>write_index := write_index q1 + 1\<rparr>;
          q3 = (if write_index q2 = capacity q2 then q2\<lparr>write_index := 0\<rparr> else q2)
      in (q_length q3, q3\<lparr>q_length := q_length q3 + 1\<rparr>))"

definition process_queue_raw_read :: "process_queue \<Rightarrow> nat \<times> int \<times> process_queue" where
  "process_queue_raw_read q =
     (let message = q_cells q (read_index q);
          q1 = q\<lparr>read_index := read_index q + 1\<rparr>;
          q2 = (if read_index q1 = capacity q1 then q1\<lparr>read_index := 0\<rparr> else q1)
      in (q_length q2, message, q2\<lparr>q_length := q_length q2 - 1\<rparr>))"

section \<open>The buffer as a list\<close>

definition buffer_ok :: "process_queue \<Rightarrow> bool" where
  "buffer_ok q \<longleftrightarrow> read_index q < capacity q \<and> write_index q < capacity q
     \<and> q_length q \<le> capacity q
     \<and> write_index q = (read_index q + q_length q) mod capacity q"

definition buffer :: "process_queue \<Rightarrow> int list" where
  "buffer q = map (\<lambda>i. q_cells q ((read_index q + i) mod capacity q)) [0..<q_length q]"

lemma length_buffer [simp]: "length (buffer q) = q_length q"
  by (simp add: buffer_def)

lemma wrap_Suc: "i < c \<Longrightarrow> (if Suc i = c then 0 else Suc i) = Suc i mod (c :: nat)"
  by auto

lemma raw_write_buffer:
  assumes ok: "buffer_ok q" and room: "q_length q < capacity q"
  shows "buffer_ok (snd (process_queue_raw_write m q))"
    "buffer (snd (process_queue_raw_write m q)) = buffer q @ [m]"
    "fst (process_queue_raw_write m q) = q_length q"
proof -
  let ?c = "capacity q" and ?r = "read_index q" and ?n = "q_length q"
  have w: "write_index q = (?r + ?n) mod ?c" "?r < ?c" "write_index q < ?c"
    using ok by (auto simp: buffer_ok_def)
  define q' where "q' = snd (process_queue_raw_write m q)"
  have q': "capacity q' = ?c" "read_index q' = ?r" "q_length q' = Suc ?n"
    "write_index q' = Suc (write_index q) mod ?c"
    "q_cells q' = (q_cells q)(write_index q := m)"
    using wrap_Suc [OF w(3)] by (auto simp: q'_def process_queue_raw_write_def Let_def)
  have cell: "q_cells q' ((?r + i) mod ?c) = q_cells q ((?r + i) mod ?c)" if "i < ?n" for i
  proof -
    have "(?r + i) mod ?c \<noteq> (?r + ?n) mod ?c"
    proof
      assume "(?r + i) mod ?c = (?r + ?n) mod ?c"
      then have "?c dvd (?r + ?n) - (?r + i)"
        using that by (subst mod_eq_dvd_iff_nat [symmetric]) auto
      then show False using that room by (auto dest: dvd_imp_le)
    qed
    then show ?thesis by (simp add: q' w(1))
  qed
  show "buffer_ok (snd (process_queue_raw_write m q))"
    using w room q' by (simp add: buffer_ok_def q'_def [symmetric] mod_Suc_eq)
  show "buffer (snd (process_queue_raw_write m q)) = buffer q @ [m]"
    using cell w(1) by (simp add: buffer_def q'_def [symmetric] q')
  show "fst (process_queue_raw_write m q) = ?n"
    by (simp add: process_queue_raw_write_def Let_def)
qed

lemma raw_read_buffer:
  assumes ok: "buffer_ok q" and ne: "0 < q_length q"
  shows "buffer_ok (snd (snd (process_queue_raw_read q)))"
    "buffer q = fst (snd (process_queue_raw_read q)) # buffer (snd (snd (process_queue_raw_read q)))"
    "fst (process_queue_raw_read q) = q_length q"
proof -
  let ?c = "capacity q" and ?r = "read_index q" and ?n = "q_length q"
  have w: "write_index q = (?r + ?n) mod ?c" "?r < ?c" "?n \<le> ?c"
    using ok by (auto simp: buffer_ok_def)
  define q' where "q' = snd (snd (process_queue_raw_read q))"
  have q': "capacity q' = ?c" "read_index q' = Suc ?r mod ?c" "q_length q' = ?n - 1"
    "write_index q' = write_index q" "q_cells q' = q_cells q"
    using wrap_Suc [OF w(2)] by (auto simp: q'_def process_queue_raw_read_def Let_def)
  have n: "?n = Suc (?n - 1)" using ne by simp
  have shift: "(Suc ?r mod ?c + i) mod ?c = (?r + Suc i) mod ?c" for i
    by (simp add: mod_add_left_eq)
  have "(Suc ?r mod ?c + (?n - 1)) mod ?c = (?r + ?n) mod ?c"
    using shift [of "?n - 1"] ne by simp
  then show "buffer_ok (snd (snd (process_queue_raw_read q)))"
    using ok w by (auto simp: buffer_ok_def q'_def [symmetric] q')
  have "buffer q = map (\<lambda>i. q_cells q ((?r + i) mod ?c)) [0..<Suc (?n - 1)]"
    using n by (simp only: buffer_def)
  also have "\<dots> = q_cells q (?r mod ?c) # map (\<lambda>i. q_cells q ((?r + Suc i) mod ?c)) [0..<?n - 1]"
    by (simp add: upt_conv_Cons map_Suc_upt [symmetric] del: upt_Suc)
  also have "\<dots> = fst (snd (process_queue_raw_read q)) # buffer q'"
    using w(2) shift by (simp add: buffer_def q' process_queue_raw_read_def Let_def)
  finally show "buffer q = fst (snd (process_queue_raw_read q))
      # buffer (snd (snd (process_queue_raw_read q)))" by (simp add: q'_def)
  show "fst (process_queue_raw_read q) = ?n"
    by (simp add: process_queue_raw_read_def Let_def)
qed

lemma raw_frame [simp, frame]:
  "capacity (snd (process_queue_raw_write m q)) = capacity q"
  "wait_process (snd (process_queue_raw_write m q)) = wait_process q"
  "qid (snd (process_queue_raw_write m q)) = qid q"
  "q_length (snd (process_queue_raw_write m q)) = Suc (q_length q)"
  "capacity (snd (snd (process_queue_raw_read q))) = capacity q"
  "wait_process (snd (snd (process_queue_raw_read q))) = wait_process q"
  "qid (snd (snd (process_queue_raw_read q))) = qid q"
  "q_length (snd (snd (process_queue_raw_read q))) = q_length q - 1"
  "fst (snd (process_queue_raw_read q)) = q_cells q (read_index q)"
  by (simp_all add: process_queue_raw_write_def process_queue_raw_read_def Let_def)

section \<open>Bounded first-in first-out queues\<close>

datatype 'm queue_op = Put 'm | Get

locale bounded_fifo =
  fixes put :: "'m \<Rightarrow> 'q \<Rightarrow> 'q"
    and get :: "'q \<Rightarrow> 'm \<times> 'q"
    and cap :: "'q \<Rightarrow> nat"
    and contents :: "'q \<Rightarrow> 'm list"
    and ok :: "'q \<Rightarrow> bool"
  assumes put_ok: "ok q \<Longrightarrow> length (contents q) < cap q \<Longrightarrow> ok (put m q)"
    and put_contents: "ok q \<Longrightarrow> length (contents q) < cap q \<Longrightarrow> contents (put m q) = contents q @ [m]"
    and put_cap: "cap (put m q) = cap q"
    and get_ok: "ok q \<Longrightarrow> contents q \<noteq> [] \<Longrightarrow> ok (snd (get q))"
    and get_contents: "ok q \<Longrightarrow> contents q \<noteq> [] \<Longrightarrow> contents q = fst (get q) # contents (snd (get q))"
    and get_cap: "cap (snd (get q)) = cap q"
begin

text \<open>A run of the queue: a put on a full queue and a get on an empty one do nothing.\<close>

primrec run :: "'m queue_op list \<Rightarrow> 'q \<Rightarrow> 'm list \<times> 'm list \<times> 'q" where
  "run [] q = ([], [], q)"
| "run (x # xs) q = (case x of
     Put m \<Rightarrow> (if length (contents q) < cap q
       then (let (i, o', q') = run xs (put m q) in (m # i, o', q')) else run xs q)
   | Get \<Rightarrow> (if contents q \<noteq> []
       then (let (i, o', q') = run xs (snd (get q)) in (i, fst (get q) # o', q')) else run xs q))"

text \<open>What came in is what went out followed by what is still there, in the same order.\<close>

lemma run_fifo:
  "\<lbrakk>ok q; run xs q = (i, o', q')\<rbrakk> \<Longrightarrow> ok q' \<and> contents q @ i = o' @ contents q'"
proof (induction xs arbitrary: q i o')
  case (Cons x xs)
  show ?case
  proof (cases x)
    case (Put m)
    show ?thesis
    proof (cases "length (contents q) < cap q")
      case True
      obtain i1 where "run xs (put m q) = (i1, o', q')" "i = m # i1"
        using Cons.prems(2) Put True by (auto split: prod.splits)
      with Cons.IH [OF put_ok [OF Cons.prems(1) True], of m i1 o'] put_contents [OF Cons.prems(1) True]
      show ?thesis by simp
    next
      case False
      with Cons Put show ?thesis by simp
    qed
  next
    case Get
    show ?thesis
    proof (cases "contents q = []")
      case True
      with Get Cons.IH [OF Cons.prems(1)] Cons.prems(2) show ?thesis by simp
    next
      case False
      obtain o1 where "run xs (snd (get q)) = (i, o1, q')" "o' = fst (get q) # o1"
        using Cons.prems(2) Get False by (auto split: prod.splits)
      with Cons.IH [OF get_ok [OF Cons.prems(1) False], of i o1] get_contents [OF Cons.prems(1) False]
      show ?thesis by simp
    qed
  qed
qed simp

end

interpretation message_fifo: bounded_fifo "\<lambda>m q. snd (process_queue_raw_write m q)"
    "\<lambda>q. snd (process_queue_raw_read q)" capacity buffer buffer_ok
  by unfold_locales
     (use raw_write_buffer raw_read_buffer in \<open>auto simp flip: length_greater_0_conv\<close>)

text \<open>The same run on the ring buffer itself, with the tests that the callers make on the length.\<close>

primrec ring_run :: "int queue_op list \<Rightarrow> process_queue \<Rightarrow> int list \<times> int list \<times> process_queue" where
  "ring_run [] q = ([], [], q)"
| "ring_run (x # xs) q = (case x of
     Put m \<Rightarrow> (if q_length q < capacity q
       then (let (ins, outs, q') = ring_run xs (snd (process_queue_raw_write m q)) in (m # ins, outs, q'))
       else ring_run xs q)
   | Get \<Rightarrow> (if 0 < q_length q
       then (case process_queue_raw_read q of (_, m, q1) \<Rightarrow>
         (let (ins, outs, q') = ring_run xs q1 in (ins, m # outs, q')))
       else ring_run xs q))"

lemma ring_run_eq: "ring_run xs q = message_fifo.run xs q"
proof (induction xs arbitrary: q)
  case (Cons x xs)
  have "buffer q \<noteq> [] \<longleftrightarrow> 0 < q_length q" by (simp flip: length_greater_0_conv)
  then show ?case
    by (cases x; cases "process_queue_raw_read q") (simp_all add: Cons.IH split: prod.split)
qed simp

end
