(* ===== verification/Process_Queue.thy ===== *)
theory Process_Queue
  imports Waking Message_Buffer
begin

text \<open>
  The message queues of \<^verbatim>\<open>kernel/process/queue.c\<close>: bounded buffers of C ints with a doubly linked
  list of waiting processes, readers while the buffer is empty, writers while it is full. The
  results of \<open>kalloc\<close> are arguments of \<open>process_queue_create\<close>.
\<close>

section \<open>The waiting list\<close>

definition process_queue_from_qid :: "kernel \<Rightarrow> int \<Rightarrow> ptr" where
  "process_queue_from_qid s n =
     (if n < 0 \<or> n \<ge> int QUEUE_POOL_CAP then NULL else queue_pool s n)"

abbreviation (input) set_wait_process :: "ptr \<Rightarrow> process_queue \<Rightarrow> process_queue" where
  "set_wait_process p \<equiv> wait_process_update (\<lambda>_. p)"

definition process_queue_add_process :: "ptr \<Rightarrow> ptr \<Rightarrow> kernel \<Rightarrow> kernel" where
  "process_queue_add_process q process s =
     (let s1 = upd_proc process (set_u0 NULL) s;
          s2 = upd_proc process (set_u1 (wait_process (queue s1 q))) s1;
          s3 = (if wait_process (queue s2 q) \<noteq> NULL
                then upd_proc (wait_process (queue s2 q)) (set_u0 process) s2 else s2)
      in upd_queue q (set_wait_process process) s3)"

definition process_queue_remove_process :: "ptr \<Rightarrow> ptr \<Rightarrow> kernel \<Rightarrow> kernel" where
  "process_queue_remove_process q process s =
     (if queue_prev (proc s process) = NULL then
        let s1 = upd_queue q (set_wait_process (queue_next (proc s process))) s
        in if wait_process (queue s1 q) \<noteq> NULL
           then upd_proc (wait_process (queue s1 q)) (set_u0 NULL) s1 else s1
      else
        let prev_process = queue_prev (proc s process);
            next_process = queue_next (proc s process);
            s1 = upd_proc prev_process (set_u1 next_process) s
        in if next_process \<noteq> NULL then upd_proc next_process (set_u0 prev_process) s1 else s1)"

definition process_queue_wait :: "ptr \<Rightarrow> int \<Rightarrow> kernel \<Rightarrow> (kernel, bool) outcome" where
  "process_queue_wait q message s =
     bindK (process_sched_ring_remove (process_active s) s) (\<lambda>next_process s1.
       let p = process_active s1;
           s2 = upd_proc p (set_state PROCESS_WAIT_QUEUE) s1;
           s3 = upd_proc p (u3_update (\<lambda>_. message)) s2;
           s4 = upd_proc p (u2_update (\<lambda>_. q)) s3;
           s5 = process_queue_add_process q p s4
       in calling s5 Fr_queue_wait (process_sched_advance next_process s5)
            (\<lambda>_ s6. Done (wait_queue_reset (proc s6 (process_active s6))) s6))"

text \<open>The search of \<open>process_queue_pop_next\<close>; it ends because the waiting list is finite.\<close>

partial_function (option) pop_loop :: "kernel \<Rightarrow> ptr \<Rightarrow> ptr \<Rightarrow> ptr option" where
  "pop_loop s wait candidate =
     (if wait \<noteq> NULL then
        pop_loop s (queue_next (proc s wait))
          (if candidate = NULL \<or> p_priority (proc s candidate) \<le> p_priority (proc s wait)
           then wait else candidate)
      else Some candidate)"

definition process_queue_pop_next :: "ptr \<Rightarrow> kernel \<Rightarrow> (kernel, ptr) outcome" where
  "process_queue_pop_next q s = (case pop_loop s (wait_process (queue s q)) NULL of
     None \<Rightarrow> Hang
   | Some candidate_process \<Rightarrow> Done candidate_process
       (if candidate_process \<noteq> NULL then process_queue_remove_process q candidate_process s else s))"

text \<open>
  \<open>process_queue_resume_reset(wait_process_ptr)\<close>: \<open>wait\<close> is the value of \<open>*wait_process_ptr\<close> and
  \<open>clear\<close> stores a null pointer there.
\<close>

definition reset_wake :: "process \<Rightarrow> process" where
  "reset_wake pr = pr\<lparr>p_state := PROCESS_SCHED, u4 := True\<rparr>"

partial_function (option) reset_loop :: "ptr \<Rightarrow> ptr \<Rightarrow> kernel \<Rightarrow> (kernel, ptr) outcome option" where
  "reset_loop wait wake s =
     (if wait \<noteq> NULL then
        (case process_sched_ring_insert wait (upd_proc wait reset_wake s) of
           Done _ s1 \<Rightarrow> reset_loop (queue_next (proc s wait)) (pick_first s wake wait) s1
         | Switched s1 \<Rightarrow> Some (Switched s1)
         | Panic e \<Rightarrow> Some (Panic e)
         | Hang \<Rightarrow> Some Hang)
      else Some (Done wake s))"

definition process_queue_resume_reset ::
    "ptr \<Rightarrow> (kernel \<Rightarrow> kernel) \<Rightarrow> kernel \<Rightarrow> (kernel, unit) outcome" where
  "process_queue_resume_reset wait clear s =
     bindK (or_hang (reset_loop wait NULL s)) (\<lambda>wake_process s1. preempt_by wake_process (clear s1))"

section \<open>System calls\<close>

definition process_queue_create :: "ptr \<Rightarrow> ptr \<Rightarrow> int \<Rightarrow> kernel \<Rightarrow> (kernel, int) outcome" where
  "process_queue_create messages_block queue_block cap s =
     (if cap \<le> 0 \<or> id_pool_empty (queue_id_pool s) then Done (-1) s
      else if 4 * cap \<ge> 2 ^ 32 then Done (-1) s
      else if messages_block = NULL then Done (-1) s
      else let s1 = s\<lparr>heap := insert messages_block (heap s)\<rparr> in
        if queue_block = NULL
        then Done (-1) (s1\<lparr>heap := heap s1 - {messages_block}\<rparr>)
        else
          let s2 = s1\<lparr>heap := insert queue_block (heap s1)\<rparr>;
              s3 = upd_queue queue_block (\<lambda>q. q\<lparr>messages := messages_block, capacity := nat cap,
                     q_length := 0, read_index := 0, write_index := 0, wait_process := NULL\<rparr>) s2;
              (n, pool) = id_pool_alloc (queue_id_pool s3);
              s4 = upd_queue queue_block (qid_update (\<lambda>_. n)) (s3\<lparr>queue_id_pool := pool\<rparr>)
          in Done n (s4\<lparr>queue_pool := (queue_pool s4)(n := queue_block)\<rparr>))"

text \<open>The end of \<open>process_queue_delete\<close>: \<open>kfree(queue->messages); kfree(queue); return 0\<close>.\<close>

definition delete_frees :: "ptr \<Rightarrow> kernel \<Rightarrow> (kernel, int) outcome" where
  "delete_frees q s = (let s1 = s\<lparr>heap := heap s - {messages (queue s q)}\<rparr>
     in Done 0 (s1\<lparr>heap := heap s1 - {q}\<rparr>))"

definition process_queue_delete :: "int \<Rightarrow> kernel \<Rightarrow> (kernel, int) outcome" where
  "process_queue_delete n s =
     (let q = process_queue_from_qid s n in
      if q = NULL then Done (-1) s
      else
        let process = wait_process (queue s q);
            s1 = s\<lparr>queue_pool := (queue_pool s)(qid (queue s q) := NULL)\<rparr>;
            s2 = s1\<lparr>queue_id_pool := id_pool_free (queue_id_pool s1) (qid (queue s1 q))\<rparr>
        in calling s2 (Fr_delete q) (process_queue_resume_reset process (\<lambda>s. s) s2)
             (\<lambda>_ s3. delete_frees q s3))"

definition process_queue_send :: "int \<Rightarrow> int \<Rightarrow> kernel \<Rightarrow> (kernel, int) outcome" where
  "process_queue_send n message s =
     (let q = process_queue_from_qid s n in
      if q = NULL then Done (-1) s
      else if q_length (queue s q) = capacity (queue s q) then
        calling s Fr_send (process_queue_wait q message s)
          (\<lambda>reset s1. Done (if reset then -1 else 0) s1)
      else bindK (if q_length (queue s q) = 0 then process_queue_pop_next q s else Done NULL s)
        (\<lambda>next_process s1.
          if next_process \<noteq> NULL then
            let s2 = upd_proc next_process (set_state PROCESS_SCHED) s1;
                s3 = upd_proc next_process (u4_update (\<lambda>_. False)) s2;
                s4 = upd_proc next_process (u3_update (\<lambda>_. message)) s3
            in bindK (process_sched_ring_insert next_process s4) (\<lambda>_ s5.
                 calling s5 (Fr_return 0) (preempt_by next_process s5) (\<lambda>_ s6. Done 0 s6))
          else Done 0 (upd_queue q (\<lambda>r. snd (process_queue_raw_write message r)) s1)))"

text \<open>What \<open>process_queue_receive\<close> does after it waited.\<close>

definition receive_waited :: "ptr \<Rightarrow> bool \<Rightarrow> kernel \<Rightarrow> (kernel, int) outcome" where
  "receive_waited message reset s =
     (if reset then Done (-1) s
      else Done 0 (put_user_int message (wait_queue_message (proc s (process_active s))) s))"

definition process_queue_receive :: "int \<Rightarrow> ptr \<Rightarrow> kernel \<Rightarrow> (kernel, int) outcome" where
  "process_queue_receive n message s =
     (if message \<noteq> NULL \<and> \<not> process_check_user_ptr s message then Done (-1) s
      else let q = process_queue_from_qid s n in
      if q = NULL then Done (-1) s
      else if q_length (queue s q) = 0 then
        calling s (Fr_receive message) (process_queue_wait q 0 s) (receive_waited message)
      else
        let (len, cell, _) = process_queue_raw_read (queue s q);
            s1 = put_user_int message cell s;
            s2 = upd_queue q (\<lambda>r. snd (snd (process_queue_raw_read r))) s1
        in if len = capacity (queue s2 q) then
             bindK (process_queue_pop_next q s2) (\<lambda>next_process s3.
               if next_process = NULL then Done 0 s3
               else
                 let s4 = upd_queue q (\<lambda>r. snd (process_queue_raw_write
                            (queue_message (proc s3 next_process)) r)) s3;
                     s5 = upd_proc next_process (set_state PROCESS_SCHED) s4;
                     s6 = upd_proc next_process (u4_update (\<lambda>_. False)) s5;
                     s7 = upd_proc next_process (u3_update (\<lambda>_. -1)) s6
                 in bindK (process_sched_ring_insert next_process s7) (\<lambda>_ s8.
                      calling s8 (Fr_return 0) (preempt_by next_process s8) (\<lambda>_ s9. Done 0 s9)))
           else Done 0 s2)"

partial_function (option) count_loop :: "kernel \<Rightarrow> ptr \<Rightarrow> int \<Rightarrow> int option" where
  "count_loop s waiting_process waiting_count =
     (if waiting_process \<noteq> NULL
      then count_loop s (queue_next (proc s waiting_process)) (waiting_count + 1)
      else Some waiting_count)"

definition process_queue_count :: "int \<Rightarrow> ptr \<Rightarrow> kernel \<Rightarrow> (kernel, int) outcome" where
  "process_queue_count n count s =
     (if count \<noteq> NULL \<and> \<not> process_check_user_ptr s count then Done (-1) s
      else let q = process_queue_from_qid s n in
      if q = NULL then Done (-1) s
      else if count = NULL then Done 0 s
      else case count_loop s (wait_process (queue s q)) 0 of
        None \<Rightarrow> Hang
      | Some waiting_count \<Rightarrow> Done 0 (put_user_int count
          (if q_length (queue s q) = 0 then - waiting_count
           else if q_length (queue s q) = capacity (queue s q)
           then int (q_length (queue s q)) + waiting_count
           else 0) s))"

definition process_queue_reset :: "int \<Rightarrow> kernel \<Rightarrow> (kernel, int) outcome" where
  "process_queue_reset n s =
     (let q = process_queue_from_qid s n in
      if q = NULL then Done (-1) s
      else
        let s1 = upd_queue q (\<lambda>r. r\<lparr>q_length := 0, read_index := 0, write_index := 0\<rparr>) s
        in calling s1 (Fr_return 0)
             (process_queue_resume_reset (wait_process (queue s1 q)) (upd_queue q (set_wait_process NULL)) s1)
             (\<lambda>_ s2. Done 0 s2))"

definition process_queue_set_priority :: "ptr \<Rightarrow> int \<Rightarrow> kernel \<Rightarrow> kernel" where
  "process_queue_set_priority process new_priority s =
     (let s1 = upd_proc process (p_priority_update (\<lambda>_. new_priority)) s;
          s2 = process_queue_remove_process (queue_queue (proc s1 process)) process s1
      in process_queue_add_process (queue_queue (proc s2 process)) process s2)"

definition process_queue_kill_process :: "ptr \<Rightarrow> kernel \<Rightarrow> kernel" where
  "process_queue_kill_process process s =
     process_queue_remove_process (queue_queue (proc s process)) process s"

section \<open>Adding and removing on lists\<close>

definition waiters :: "kernel \<Rightarrow> ptr \<Rightarrow> ptr list \<Rightarrow> bool" where
  "waiters s q ws \<longleftrightarrow> dlist (link1 s) (link0 s) (wait_process (queue s q)) ws
     \<and> (\<forall>p \<in> set ws. p_state (proc s p) = PROCESS_WAIT_QUEUE \<and> queue_queue (proc s p) = q)"

definition queue_repr :: "kernel \<Rightarrow> ptr \<Rightarrow> ptr list \<Rightarrow> bool" where
  "queue_repr s q ws \<longleftrightarrow> buffer_ok (queue s q) \<and> waiters s q ws
     \<and> (ws \<noteq> [] \<longrightarrow> q_length (queue s q) = 0 \<or> q_length (queue s q) = capacity (queue s q))"

lemma waitersD:
  assumes "waiters s q ws"
  shows "dlist (link1 s) (link0 s) (wait_process (queue s q)) ws"
    "p \<in> set ws \<Longrightarrow> p_state (proc s p) = PROCESS_WAIT_QUEUE"
    "p \<in> set ws \<Longrightarrow> queue_queue (proc s p) = q" "distinct ws" "NULL \<notin> set ws"
  using assms by (auto simp: waiters_def dest: dlist_distinct dlist_no_NULL)

lemma waiters_same:
  assumes "waiters s q ws" "wait_process (queue s' q) = wait_process (queue s q)"
    "\<And>p. p \<in> set ws \<Longrightarrow> proc s' p = proc s p"
  shows "waiters s' q ws"
  using assms dlist_cong [of ws "link1 s'" "link1 s" "link0 s'" "link0 s"]
  by (auto simp: waiters_def link0_def link1_def)

lemma queue_reprD:
  assumes "queue_repr s q ws"
  shows "buffer_ok (queue s q)" "dlist (link1 s) (link0 s) (wait_process (queue s q)) ws"
    "p \<in> set ws \<Longrightarrow> p_state (proc s p) = PROCESS_WAIT_QUEUE"
    "p \<in> set ws \<Longrightarrow> queue_queue (proc s p) = q"
    "ws \<noteq> [] \<Longrightarrow> q_length (queue s q) = 0 \<or> q_length (queue s q) = capacity (queue s q)"
    "distinct ws" "NULL \<notin> set ws" "waiters s q ws"
  using assms by (auto simp: queue_repr_def waiters_def dest: dlist_distinct dlist_no_NULL)

lemma queue_repr_same:
  assumes "queue_repr s q ws" "queue s' q = queue s q" "\<And>p. p \<in> set ws \<Longrightarrow> proc s' p = proc s p"
  shows "queue_repr s' q ws"
  using assms waiters_same [of s q ws s'] by (auto simp: queue_repr_def)

lemma add_process_repr:
  assumes "dlist (link1 s) (link0 s) (wait_process (queue s q)) ws" "p \<noteq> NULL" "p \<notin> set ws"
  shows "dlist (link1 (process_queue_add_process q p s)) (link0 (process_queue_add_process q p s))
      (wait_process (queue (process_queue_add_process q p s) q)) (p # ws)"
proof -
  let ?h = "wait_process (queue s q)" and ?s = "process_queue_add_process q p s"
  have h: "?h \<noteq> p" using assms by (cases ws) (auto dest: dlist_hd)
  have "link1 ?s = (link1 s)(p := ?h)" "wait_process (queue ?s q) = p"
    "link0 ?s = (if ?h = NULL then (link0 s)(p := NULL) else (link0 s)(p := NULL, ?h := p))"
    using h by (auto simp: process_queue_add_process_def Let_def)
  with dlist_push [OF assms] show ?thesis by simp
qed

text \<open>What adding and removing a process of the waiting list leave alone.\<close>

definition rewired :: "ptr set \<Rightarrow> ptr \<Rightarrow> kernel \<Rightarrow> kernel \<Rightarrow> bool" where
  "rewired W q s s' \<longleftrightarrow> (\<forall>x. x \<notin> W \<longrightarrow> proc s' x = proc s x)
     \<and> (\<forall>x. proc s' x = (proc s x)\<lparr>u0 := u0 (proc s' x), u1 := u1 (proc s' x)\<rparr>)
     \<and> (\<forall>r. queue s' r = (queue s r)\<lparr>wait_process := wait_process (queue s' r)\<rparr>)
     \<and> (\<forall>r. r \<noteq> q \<longrightarrow> queue s' r = queue s r)
     \<and> s' = s\<lparr>proc := proc s', queue := queue s'\<rparr>"

lemma rewired_refl [simp]: "rewired W q s s"
  by (simp add: rewired_def)

lemma rewired_set:
  assumes r: "rewired W q s s'" and "p \<in> W"
  shows "rewired W q s (upd_proc p (set_u0 x) s')" "rewired W q s (upd_proc p (set_u1 x) s')"
proof -
  have e: "s' = s\<lparr>proc := proc s', queue := queue s'\<rparr>" using r unfolding rewired_def by blast
  have k: "upd_proc p f s' = s\<lparr>proc := proc (upd_proc p f s'), queue := queue (upd_proc p f s')\<rparr>" for f
    by (subst (1 2) e) (simp add: upd_proc_def)
  have n: "proc s' y = (proc s y)\<lparr>u0 := u0 (proc s' y), u1 := u1 (proc s' y)\<rparr>" for y
    using r unfolding rewired_def by blast
  have "proc (upd_proc p (set_u0 x) s') y = (proc s y)\<lparr>u0 := u0 (proc (upd_proc p (set_u0 x) s') y),
      u1 := u1 (proc (upd_proc p (set_u0 x) s') y)\<rparr>"
    "proc (upd_proc p (set_u1 x) s') y = (proc s y)\<lparr>u0 := u0 (proc (upd_proc p (set_u1 x) s') y),
      u1 := u1 (proc (upd_proc p (set_u1 x) s') y)\<rparr>" for y
    by (cases "y = p"; simp; subst n; simp)+
  then show "rewired W q s (upd_proc p (set_u0 x) s')" "rewired W q s (upd_proc p (set_u1 x) s')"
    using r assms(2) k unfolding rewired_def by (auto simp: proc_upd_proc)
qed

lemma rewired_head:
  assumes r: "rewired W q s s'"
  shows "rewired W q s (upd_queue q (set_wait_process p) s')"
proof -
  have e: "s' = s\<lparr>proc := proc s', queue := queue s'\<rparr>" using r unfolding rewired_def by blast
  have "upd_queue q (set_wait_process p) s' = s\<lparr>proc := proc s',
      queue := queue (upd_queue q (set_wait_process p) s')\<rparr>"
    by (subst (1 2) e) (simp add: upd_queue_def)
  moreover have n: "queue s' x = (queue s x)\<lparr>wait_process := wait_process (queue s' x)\<rparr>" for x
    using r unfolding rewired_def by blast
  moreover have "queue (upd_queue q (set_wait_process p) s') x
      = (queue s x)\<lparr>wait_process := wait_process (queue (upd_queue q (set_wait_process p) s') x)\<rparr>" for x
    by (cases "x = q"; simp; subst n; simp)
  ultimately show ?thesis using r unfolding rewired_def by (auto simp: upd_queue_def)
qed

lemma rewired_fields:
  assumes "rewired W q s s'"
  shows "p_state (proc s' x) = p_state (proc s x)" "p_priority (proc s' x) = p_priority (proc s x)"
    "u2 (proc s' x) = u2 (proc s x)" "u3 (proc s' x) = u3 (proc s x)" "u4 (proc s' x) = u4 (proc s x)"
    "x \<notin> W \<Longrightarrow> proc s' x = proc s x" "r \<noteq> q \<Longrightarrow> queue s' r = queue s r"
proof -
  have n: "proc s' x = (proc s x)\<lparr>u0 := u0 (proc s' x), u1 := u1 (proc s' x)\<rparr>"
    using assms unfolding rewired_def by blast
  show "p_state (proc s' x) = p_state (proc s x)" "p_priority (proc s' x) = p_priority (proc s x)"
    "u2 (proc s' x) = u2 (proc s x)" "u3 (proc s' x) = u3 (proc s x)" "u4 (proc s' x) = u4 (proc s x)"
    by (subst n, simp)+
qed (use assms in \<open>simp_all add: rewired_def\<close>)

lemma rewired_kin: "rewired W q s s' \<Longrightarrow> kin (proc s x) (proc s' x)"
proof -
  assume "rewired W q s s'"
  then have n: "proc s' x = (proc s x)\<lparr>u0 := u0 (proc s' x), u1 := u1 (proc s' x)\<rparr>"
    unfolding rewired_def by blast
  show ?thesis by (subst n) (simp add: kin_def)
qed

lemma rewired_queue:
  assumes "rewired W q s s'"
  shows "q_length (queue s' r) = q_length (queue s r)" "capacity (queue s' r) = capacity (queue s r)"
    "read_index (queue s' r) = read_index (queue s r)" "write_index (queue s' r) = write_index (queue s r)"
    "q_cells (queue s' r) = q_cells (queue s r)"
    "buffer (queue s' r) = buffer (queue s r)" "buffer_ok (queue s' r) = buffer_ok (queue s r)"
    "qid (queue s' r) = qid (queue s r)"
proof -
  have n: "queue s' r = (queue s r)\<lparr>wait_process := wait_process (queue s' r)\<rparr>"
    using assms unfolding rewired_def by blast
  show "q_length (queue s' r) = q_length (queue s r)" "capacity (queue s' r) = capacity (queue s r)"
    "read_index (queue s' r) = read_index (queue s r)" "write_index (queue s' r) = write_index (queue s r)"
    "q_cells (queue s' r) = q_cells (queue s r)"
    "buffer (queue s' r) = buffer (queue s r)" "buffer_ok (queue s' r) = buffer_ok (queue s r)"
    "qid (queue s' r) = qid (queue s r)"
    by (subst n, simp add: buffer_def buffer_ok_def)+
qed

lemma rewired_kernel:
  assumes "rewired W q s s'"
  shows "process_sched_rings s' = process_sched_rings s" "process_active s' = process_active s"
    "umem s' = umem s" "frames s' = frames s" "queue_pool s' = queue_pool s"
    "clock_wait_head s' = clock_wait_head s" "cons_read_wait_head s' = cons_read_wait_head s"
    "kbd s' = kbd s" "queue_id_pool s' = queue_id_pool s"
    "process_pool s' = process_pool s" "process_id_pool s' = process_id_pool s"
proof -
  have n: "s' = s\<lparr>proc := proc s', queue := queue s'\<rparr>" using assms unfolding rewired_def by blast
  show "process_sched_rings s' = process_sched_rings s" "process_active s' = process_active s"
    "umem s' = umem s" "frames s' = frames s" "queue_pool s' = queue_pool s"
    "clock_wait_head s' = clock_wait_head s" "cons_read_wait_head s' = cons_read_wait_head s"
    "kbd s' = kbd s" "queue_id_pool s' = queue_id_pool s"
    "process_pool s' = process_pool s" "process_id_pool s' = process_id_pool s"
    by (subst n, simp)+
qed

lemma rewired_sched:
  assumes r: "rewired W q s s'" and R: "sched_repr s R" and W: "\<And>x. x \<in> W \<Longrightarrow> off_rings R x"
  shows "sched_repr s' R"
proof (rule sched_repr_same [OF R])
  show "process_sched_rings s' = process_sched_rings s" by (rule rewired_kernel(1) [OF r])
  show "proc s' p = proc s p" if "p \<in> set (R k)" for k p
    using that W [of p] by (intro rewired_fields(6) [OF r]) (auto simp: off_rings_def)
qed

lemma add_process_rewired:
  assumes "p \<in> W" "wait_process (queue s q) \<noteq> NULL \<Longrightarrow> wait_process (queue s q) \<in> W"
  shows "rewired W q s (process_queue_add_process q p s)"
  using assms by (auto simp: process_queue_add_process_def Let_def intro!: rewired_head rewired_set)

lemma remove_process_repr:
  assumes dl: "dlist (link1 s) (link0 s) (wait_process (queue s q)) (as @ p # bs)"
  defines "s' \<equiv> process_queue_remove_process q p s"
  shows "dlist (link1 s') (link0 s') (wait_process (queue s' q)) (as @ bs)"
    "rewired (set (as @ bs)) q s s'"
proof -
  let ?h = "wait_process (queue s q)"
  note n = dlist_neighbours [OF dl] and nn = dlist_no_NULL [OF dl]
  show "dlist (link1 s') (link0 s') (wait_process (queue s' q)) (as @ bs)"
  proof (cases "as = []")
    case True
    then have h: "?h = p" using dlist_hd [OF dl] by simp
    have "link1 s' = link1 s" "wait_process (queue s' q) = link1 s p"
      "link0 s' = (if link1 s p = NULL then link0 s else (link0 s)(link1 s p := NULL))"
      using n(2) True by (auto simp: s'_def process_queue_remove_process_def Let_def link0_def [of s p]
        link1_def [of s p])
    with dlist_remove_head [of "link1 s" "link0 s" ?h p bs] dl True show ?thesis by simp
  next
    case False
    have pv: "link0 s p \<noteq> NULL" using n(2) False nn by (metis UnCI last_in_set set_append)
    have "link1 s' = (link1 s)(link0 s p := link1 s p)" "wait_process (queue s' q) = ?h"
      "link0 s' = (if link1 s p = NULL then link0 s else (link0 s)(link1 s p := link0 s p))"
      using pv by (auto simp: s'_def process_queue_remove_process_def Let_def link0_def [of s p]
        link1_def [of s p])
    with dlist_remove_inner [OF dl False] show ?thesis by simp
  qed
  have mem: "u1 (proc s p) \<noteq> NULL \<Longrightarrow> u1 (proc s p) \<in> set bs"
    "u0 (proc s p) \<noteq> NULL \<Longrightarrow> u0 (proc s p) \<in> set as"
    using n by (auto simp: link0_def link1_def split: if_splits)
  then show "rewired (set (as @ bs)) q s s'"
    by (auto simp: s'_def process_queue_remove_process_def Let_def intro!: rewired_head rewired_set)
qed

section \<open>Which waiting process is served\<close>

definition pick_last :: "kernel \<Rightarrow> ptr \<Rightarrow> ptr \<Rightarrow> ptr" where
  "pick_last s c w =
     (if c = NULL \<or> p_priority (proc s c) \<le> p_priority (proc s w) then w else c)"

lemma pop_loop_list: "slist (link1 s) w ws \<Longrightarrow> pop_loop s w c = Some (foldl (pick_last s) c ws)"
proof (induction ws arbitrary: w c)
  case Nil
  then show ?case by (subst pop_loop.simps) simp
next
  case (Cons x xs)
  then have "pop_loop s (u1 (proc s x)) (pick_last s c x) = Some (foldl (pick_last s) c (x # xs))"
    by (simp add: link1_def)
  moreover have "pop_loop s w c = pop_loop s (u1 (proc s x)) (pick_last s c x)"
    using Cons.prems by (subst pop_loop.simps) (simp add: pick_last_def)
  ultimately show ?case by simp
qed

text \<open>
  \<open>chosen s ws as g bs\<close>: \<open>g\<close> is the waiting process that is served. New processes are put in front
  of the list, so it is the one that waits longest among those of the highest priority.
\<close>

definition chosen :: "kernel \<Rightarrow> ptr list \<Rightarrow> ptr list \<Rightarrow> ptr \<Rightarrow> ptr list \<Rightarrow> bool" where
  "chosen s ws as g bs \<longleftrightarrow> ws = as @ g # bs
     \<and> (\<forall>x\<in>set as. p_priority (proc s x) \<le> p_priority (proc s g))
     \<and> (\<forall>x\<in>set bs. p_priority (proc s x) < p_priority (proc s g))"

lemma pick_last_chosen:
  "NULL \<notin> set ws \<Longrightarrow> ws \<noteq> [] \<Longrightarrow> \<exists>as bs. chosen s ws as (foldl (pick_last s) NULL ws) bs"
proof (induction ws rule: rev_induct)
  case (snoc w ws)
  show ?case
  proof (cases "ws = []")
    case True
    then have "chosen s (ws @ [w]) [] (foldl (pick_last s) NULL (ws @ [w])) []"
      by (simp add: chosen_def pick_last_def)
    then show ?thesis by blast
  next
    case False
    let ?g = "foldl (pick_last s) NULL ws"
    from snoc False obtain as bs where c: "chosen s ws as ?g bs" by auto
    then have g: "?g \<noteq> NULL" "ws = as @ ?g # bs" using snoc.prems(1) by (auto simp: chosen_def)
    show ?thesis
    proof (cases "p_priority (proc s ?g) \<le> p_priority (proc s w)")
      case True
      then have "pick_last s ?g w = w" by (simp add: pick_last_def)
      moreover have "\<forall>x\<in>set ws. p_priority (proc s x) \<le> p_priority (proc s w)"
      proof
        fix x assume "x \<in> set ws"
        then have "x \<in> set as \<or> x = ?g \<or> x \<in> set bs"
          using arg_cong [OF g(2), of set] by auto
        then have "p_priority (proc s x) \<le> p_priority (proc s ?g)"
          using c by (auto simp: chosen_def)
        then show "p_priority (proc s x) \<le> p_priority (proc s w)" using True by simp
      qed
      ultimately have "chosen s (ws @ [w]) ws (foldl (pick_last s) NULL (ws @ [w])) []"
        by (simp add: chosen_def)
      then show ?thesis by blast
    next
      case False
      then have "pick_last s ?g w = ?g" using g by (simp add: pick_last_def)
      then have "chosen s (ws @ [w]) as (foldl (pick_last s) NULL (ws @ [w])) (bs @ [w])"
        using c False by (auto simp: chosen_def)
      then show ?thesis by blast
    qed
  qed
qed simp

lemma pop_next_repr:
  assumes q: "waiters s q ws"
  shows "if ws = [] then process_queue_pop_next q s = Done NULL s
    else \<exists>as g bs s'. chosen s ws as g bs \<and> process_queue_pop_next q s = Done g s'
      \<and> rewired (set (as @ bs)) q s s'
      \<and> dlist (link1 s') (link0 s') (wait_process (queue s' q)) (as @ bs)"
proof -
  let ?g = "foldl (pick_last s) NULL ws"
  have "pop_loop s (wait_process (queue s q)) NULL = Some ?g"
    by (rule pop_loop_list) (rule dlist_slist [OF waitersD(1) [OF q]])
  then have pop: "process_queue_pop_next q s
      = Done ?g (if ?g \<noteq> NULL then process_queue_remove_process q ?g s else s)"
    by (simp add: process_queue_pop_next_def)
  show ?thesis
  proof (cases "ws = []")
    case False
    from pick_last_chosen [OF waitersD(5) [OF q] False] obtain as bs where
      c: "chosen s ws as ?g bs" by blast
    then have w: "ws = as @ ?g # bs" by (simp add: chosen_def)
    then have "?g \<in> set ws" by (metis in_set_conv_decomp)
    then have "?g \<noteq> NULL" using waitersD(5) [OF q] by metis
    moreover have "dlist (link1 s) (link0 s) (wait_process (queue s q)) (as @ ?g # bs)"
      using waitersD(1) [OF q] w by metis
    note remove_process_repr [OF this]
    ultimately show ?thesis using False c pop by auto
  qed (simp add: pop)
qed

section \<open>A waiting process with a new priority\<close>

lemma rewired_eqs:
  assumes "rewired W q s s'"
  shows "proc s' x = (proc s x)\<lparr>u0 := u0 (proc s' x), u1 := u1 (proc s' x)\<rparr>"
    "queue s' r = (queue s r)\<lparr>wait_process := wait_process (queue s' r)\<rparr>"
    "s' = s\<lparr>proc := proc s', queue := queue s'\<rparr>"
  using assms unfolding rewired_def by blast+

lemma rewired_trans:
  assumes a: "rewired W q s s'" and b: "rewired V q s' s''"
  shows "rewired (W \<union> V) q s s''"
proof -
  have "proc s'' x = (proc s x)\<lparr>u0 := u0 (proc s'' x), u1 := u1 (proc s'' x)\<rparr>" for x
    by (subst rewired_eqs(1) [OF b], subst rewired_eqs(1) [OF a]) simp
  moreover have "queue s'' r = (queue s r)\<lparr>wait_process := wait_process (queue s'' r)\<rparr>" for r
    by (subst rewired_eqs(2) [OF b], subst rewired_eqs(2) [OF a]) simp
  moreover have "s'' = s\<lparr>proc := proc s'', queue := queue s''\<rparr>"
    by (subst rewired_eqs(3) [OF b], subst rewired_eqs(3) [OF a]) simp
  moreover have "\<forall>x. x \<notin> W \<union> V \<longrightarrow> proc s'' x = proc s x" "\<forall>r. r \<noteq> q \<longrightarrow> queue s'' r = queue s r"
    using rewired_fields(6,7) [OF a] rewired_fields(6,7) [OF b] by simp_all
  ultimately show ?thesis unfolding rewired_def by blast
qed

text \<open>It moves to the front of its waiting list, behind which later ones would have joined it.\<close>

lemma queue_set_priority_repr:
  fixes new :: int
  assumes q: "queue_repr s q (as @ p # bs)"
  defines "s' \<equiv> process_queue_set_priority p new s"
  shows "queue_repr s' q (p # as @ bs)"
    "rewired (set (as @ p # bs)) q (upd_proc p (p_priority_update (\<lambda>_. new)) s) s'"
proof -
  define s1 where "s1 = upd_proc p (p_priority_update (\<lambda>_. new)) s"
  define s2 where "s2 = process_queue_remove_process q p s1"
  have qq: "queue_queue (proc s p) = q" using queue_reprD(4) [OF q] by simp
  have "dlist (link1 s1) (link0 s1) (wait_process (queue s1 q)) (as @ p # bs)"
    using queue_reprD(2) [OF q] by (simp add: s1_def)
  note rm = remove_process_repr [OF this, folded s2_def]
  have "u2 (proc s2 p) = q" using qq rewired_fields(3) [OF rm(2)] by (simp add: s1_def)
  then have s': "s' = process_queue_add_process q p s2"
    using qq by (simp add: s'_def process_queue_set_priority_def Let_def s1_def s2_def)
  have p: "p \<noteq> NULL" "p \<notin> set (as @ bs)" using queue_reprD(6,7) [OF q] by auto
  have "wait_process (queue s2 q) \<in> set (as @ bs)" if "wait_process (queue s2 q) \<noteq> NULL"
    using dlist_hd [OF rm(1)] that hd_in_set [of "as @ bs"] by (simp split: if_splits)
  then have "rewired (insert p (set (as @ bs))) q s2 s'"
    unfolding s' by (intro add_process_rewired) auto
  from rewired_trans [OF rm(2) this] have rw: "rewired (set (as @ p # bs)) q s1 s'" by simp
  then show "rewired (set (as @ p # bs)) q (upd_proc p (p_priority_update (\<lambda>_. new)) s) s'"
    by (simp add: s1_def)
  have "dlist (link1 s') (link0 s') (wait_process (queue s' q)) (p # as @ bs)"
    unfolding s' by (rule add_process_repr [OF rm(1) p])
  moreover have "p_state (proc s1 x) = p_state (proc s x) \<and> u2 (proc s1 x) = u2 (proc s x)" for x
    by (cases "x = p") (simp_all add: s1_def)
  ultimately show "queue_repr s' q (p # as @ bs)"
    using q rewired_fields [OF rw] rewired_queue [OF rw, of q]
    by (auto simp: queue_repr_def waiters_def) (simp_all add: s1_def)
qed

end
