(* ===== verification/Queue_Calls.thy ===== *)
theory Queue_Calls
  imports Process_Queue
begin

text \<open>
  What the system calls on message queues do, for every state of the queue: a message is handed to
  the process that waits longest at the highest priority, or stored behind the others, or the
  sender waits with it; a reader gets the oldest message, and room that it makes is given to a
  waiting writer. \<open>queue_repr s q ws\<close> says that the processes waiting on \<open>q\<close> are \<open>ws\<close>.
\<close>

section \<open>Waiting on a queue\<close>

lemma queue_wait_repr:
  assumes h: "runs_highest s R" and q: "queue_repr s q ws"
    and len: "q_length (queue s q) = 0 \<or> q_length (queue s q) = capacity (queue s q)"
    and some: "\<exists>j. blocked s R j \<noteq> []"
  defines "p \<equiv> process_active s"
  shows "\<exists>s'. process_queue_wait q m s = Switched s' \<and> runs_highest s' (blocked s R)
    \<and> queue_repr s' q (p # ws) \<and> queue_message (proc s' p) = m \<and> frames s' p = [Fr_queue_wait]
    \<and> buffer (queue s' q) = buffer (queue s q) \<and> umem s' = umem s
    \<and> touches R (set ws) {q} s s' \<and> suspends s [Fr_queue_wait] s'"
proof -
  note r = runs_highestD(1) [OF h]
  have off: "off_rings R x" if "x \<in> set ws" for x
    using waiting_off_rings [OF r] queue_reprD(3) [OF q that] by auto
  have p: "p \<noteq> NULL" "p \<notin> set ws"
    using runs_highestD(2,4) [OF h] off by (auto simp: p_def)
  obtain n s1 where s1: "process_sched_ring_remove p s = Done n s1" "kept s s1"
      "sched_repr s1 (blocked s R)" "off_rings (blocked s R) p"
      "\<And>x. off_rings R x \<Longrightarrow> proc s1 x = proc s x"
      "\<And>x. p_state (proc s1 x) = p_state (proc s x)" "\<And>x. u2 (proc s1 x) = u2 (proc s x)"
    and adv: "\<And>s2. \<lbrakk>sched_repr s2 (blocked s R); process_active s2 = p;
      p_state (proc s2 p) \<noteq> PROCESS_SCHED; p_priority (proc s2 p) = p_priority (proc s p)\<rbrakk>
      \<Longrightarrow> \<exists>x. process_sched_advance n s2 = Switched (switched x s2)
        \<and> runs_highest (switched x s2) (blocked s R)"
    using block_active [OF h some] unfolding p_def by metis
  define s4 where "s4 = upd_proc p (u2_update (\<lambda>_. q)) (upd_proc p (u3_update (\<lambda>_. m))
      (upd_proc p (set_state PROCESS_WAIT_QUEUE) s1))"
  define s5 where "s5 = process_queue_add_process q p s4"
  have same: "proc s4 x = proc s x" if "x \<in> set ws" for x
  proof -
    have "x \<noteq> p" using that p(2) by auto
    then show ?thesis using that off s1(5) by (simp add: s4_def)
  qed
  have k4: "queue s4 = queue s" "process_active s4 = p" "umem s4 = umem s"
    using kept_kernel [OF s1(2)] by (auto simp: s4_def p_def)
  have q4: "queue_repr s4 q ws" by (rule queue_repr_same [OF q]) (simp_all add: k4 same)
  have p4: "p_state (proc s4 p) = PROCESS_WAIT_QUEUE" "u2 (proc s4 p) = q" "u3 (proc s4 p) = m"
    "p_priority (proc s4 p) = p_priority (proc s p)"
    using kept_fields(5) [OF s1(2)] by (simp_all add: s4_def)
  have rw: "rewired (insert p (set ws)) q s4 s5"
    unfolding s5_def
    by (rule add_process_rewired) (use dlist_hd [OF queue_reprD(2) [OF q4]] in \<open>auto split: if_splits\<close>)
  have d5: "dlist (link1 s5) (link0 s5) (wait_process (queue s5 q)) (p # ws)"
    unfolding s5_def by (rule add_process_repr [OF queue_reprD(2) [OF q4] p])
  have q5: "queue_repr s5 q (p # ws)"
    using d5 q4 p4 len k4 by (simp add: queue_repr_def waiters_def rewired_fields [OF rw] rewired_queue [OF rw])
  have r4: "sched_repr s4 (blocked s R)"
    unfolding s4_def using s1(3,4) by (intro sched_repr_upd_proc) auto
  have "off_rings (blocked s R) x" if "x \<in> insert p (set ws)" for x
    using that s1(4) waiting_off_rings [OF r4] queue_reprD(3) [OF q4] by auto
  then have r5: "sched_repr s5 (blocked s R)" by (rule rewired_sched [OF rw r4])
  obtain x where x: "process_sched_advance n s5 = Switched (switched x s5)"
      "runs_highest (switched x s5) (blocked s R)"
    using adv [OF r5] p4 k4 by (auto simp: rewired_fields [OF rw] rewired_kernel [OF rw])
  define s' where "s' = (switched x s5)\<lparr>frames := (frames (switched x s5))(p :=
      frames (switched x s5) p @ [Fr_queue_wait])\<rparr>"
  have a1: "process_active s1 = p" using kept_kernel(2) [OF s1(2)] by (simp add: p_def)
  have a5: "process_active s5 = p" using k4 rewired_kernel [OF rw] by simp
  have "process_queue_wait q m s = Switched s'"
    using s1(1) x(1) a1 a5
    by (simp add: process_queue_wait_def Let_def s4_def [symmetric] s5_def [symmetric] s'_def p_def [symmetric])
  moreover have "queue_repr s' q (p # ws)"
    by (rule queue_repr_same [OF q5]) (simp_all add: s'_def)
  moreover have fr: "frames s' p = [Fr_queue_wait]" using p(1) a5 by (simp add: s'_def switched_def)
  moreover have "touches R (set ws) {q} s s'"
  proof -
    have "proc s' x = proc s x" if "off_rings R x" "x \<notin> set ws" for x
    proof -
      have "x \<noteq> p" using that(1) runs_highestD(2) [OF h] by (auto simp: p_def)
      then show ?thesis using that s1(5) rewired_fields(6) [OF rw, of x] by (simp add: s'_def s4_def)
    qed
    moreover have "p_priority (proc s4 x) = p_priority (proc s x)" for x
      using kept_fields(5) [OF s1(2), of x] by (cases "x = p") (simp_all add: s4_def)
    moreover have "relatives R s s'"
    proof -
      have "kin (proc s x) (proc s4 x)" for x
        using kept_kin [OF s1(2), of x] by (cases "x = p") (simp_all add: s4_def kin_def)
      then have "kin (proc s x) (proc s' x)" for x
        using kin_trans [OF _ rewired_kin [OF rw]] by (simp add: s'_def)
      then show ?thesis
        using s1(6,7) rewired_fields(1,3) [OF rw] by (simp add: relatives_def s'_def s4_def p_def)
    qed
    ultimately show ?thesis
      using k4 rewired_fields(2,7) [OF rw] rewired_kernel [OF rw] rewired_queue(8) [OF rw]
        kept_kernel [OF s1(2)]
      by (simp add: touches_def spares_def s'_def switched_def) (simp add: s4_def)
  qed
  moreover have "suspends s [Fr_queue_wait] s'"
    using fr a5 rewired_kernel(4) [OF rw] kept_kernel(11) [OF s1(2)]
    by (simp add: suspends_def s'_def switched_def s4_def p_def)
  ultimately show ?thesis
    using x(2) p4 k4 by (intro exI [of _ s']) (simp add: s'_def rewired_fields [OF rw]
        rewired_queue [OF rw] rewired_kernel [OF rw])
qed

section \<open>Sending\<close>

lemma queue_handover:
  assumes h: "runs_highest s R" and q: "waiters s q ws" and c: "chosen s ws as g bs"
    and v: "valid_priorities s ws" and rw: "rewired (set (as @ bs)) q s s1"
    and d: "dlist (link1 s1) (link0 s1) (wait_process (queue s1 q)) (as @ bs)"
    and s2: "s2 = upd_queue q (\<lambda>r. r') s1" "wait_process r' = wait_process (queue s1 q)" "buffer_ok r'"
      "as @ bs \<noteq> [] \<Longrightarrow> q_length r' = 0 \<or> q_length r' = capacity r'"
    and f: "wakes f"
  shows "\<exists>s'. completes s 0 (bindK (process_sched_ring_insert g (upd_proc g f s2)) (\<lambda>_ s5.
      calling s5 (Fr_return 0) (preempt_by g s5) (\<lambda>_ s6. Done 0 s6))) s'
    \<and> runs_highest s' (ready_first s g R) \<and> queue_repr s' q (as @ bs) \<and> queue s' q = r'
    \<and> umem s' = umem s
    \<and> u3 (proc s' g) = u3 (f (proc s1 g)) \<and> u4 (proc s' g) = u4 (f (proc s1 g))
    \<and> (qid r' = qid (queue s q) \<longrightarrow> touches R (set ws) {q} s s')
    \<and> suspends s [Fr_return 0] s'"
proof -
  note r = runs_highestD(1) [OF h]
  have ws: "ws = as @ g # bs" using c by (simp add: chosen_def)
  have off: "off_rings R x" if "x \<in> set ws" for x
    using waiting_off_rings [OF r] waitersD(2) [OF q that] by auto
  have g: "g \<noteq> NULL" "off_rings R g" "0 \<le> p_priority (proc s g)"
      "p_priority (proc s g) < PROCESS_MAX_PRIORITY" "g \<notin> set (as @ bs)"
    using waitersD(4,5) [OF q] off [of g] v by (auto simp: ws valid_priorities_def)
  have r1: "sched_repr s1 R" by (rule rewired_sched [OF rw r]) (simp add: off ws)
  then have r2: "sched_repr s2 R" by (simp add: s2 sched_repr_upd_queue)
  have q2: "queue_repr s2 q (as @ bs)"
    using d s2 waitersD(2,3) [OF q] by (auto simp: queue_repr_def waiters_def ws rewired_fields [OF rw])
  have "process_active s2 = process_active s" "frames s2 = frames s"
    "\<And>x. p_priority (proc s2 x) = p_priority (proc s x)"
    by (simp_all add: s2 rewired_kernel [OF rw] rewired_fields [OF rw])
  from handover [OF h r2 this g(1-4) f, of 0] obtain s' where
    s': "completes s 0 (bindK (process_sched_ring_insert g (upd_proc g f s2)) (\<lambda>_ s5.
        calling s5 (Fr_return 0) (preempt_by g s5) (\<lambda>_ s6. Done 0 s6))) s'"
      "runs_highest s' (ready_first s g R)" "ran s2 s'" "suspends s2 [Fr_return 0] s'"
      "\<forall>x. x \<noteq> g \<and> off_rings R x \<longrightarrow> proc s' x = proc s2 x"
      "u3 (proc s' g) = u3 (f (proc s2 g))" "u4 (proc s' g) = u4 (f (proc s2 g))"
      "\<forall>x. p_priority (proc s' x) = p_priority (proc s2 x)" "\<forall>x. kin (proc s2 x) (proc s' x)"
      "\<forall>x. x \<noteq> g \<longrightarrow> p_state (proc s' x) = p_state (proc s2 x) \<and> u2 (proc s' x) = u2 (proc s2 x)" by blast
  have "proc s' x = proc s2 x" if "x \<in> set (as @ bs)" for x
    using that s'(5) off [of x] g(5) by (auto simp: ws)
  then have "queue_repr s' q (as @ bs)"
    by (intro queue_repr_same [OF q2]) (simp_all add: ran_kernel(1) [OF s'(3)])
  moreover have "touches R (set ws) {q} s s'" if "qid r' = qid (queue s q)"
  proof -
    have "proc s' x = proc s x" if "off_rings R x" "x \<notin> set ws" for x
    proof -
      have "x \<noteq> g" "x \<notin> set (as @ bs)" using that(2) ws by auto
      then show ?thesis using that(1) s'(5) rewired_fields(6) [OF rw] by (simp add: s2)
    qed
    moreover have "relatives R s s'"
      unfolding relatives_def
    proof (intro conjI allI impI)
      show "kin (proc s x) (proc s' x)" for x
        using kin_trans [OF rewired_kin [OF rw]] s'(9) by (simp add: s2)
      fix x assume "\<not> off_rings R x \<and> x \<noteq> process_active s"
      then have "x \<noteq> g" using g(2) by auto
      then show "p_state (proc s' x) = p_state (proc s x)" "u2 (proc s' x) = u2 (proc s x)"
        using s'(10) rewired_fields(1,3) [OF rw] by (simp_all add: s2)
    qed
    ultimately show ?thesis
      using that ran_kernel [OF s'(3)] s'(8) rewired_fields(2,7) [OF rw] rewired_kernel [OF rw] rewired_queue [OF rw]
      by (auto simp: touches_def spares_def s2 upd_queue_def)
  qed
  moreover have "suspends s [Fr_return 0] s'"
    using s'(4) by (rule suspends_cong) (simp_all add: s2 rewired_kernel [OF rw])
  ultimately show ?thesis
    using s' ran_kernel(1,12) [OF s'(3)] rewired_kernel(3) [OF rw] by (intro exI [of _ s']) (simp add: s2)
qed

lemma send_deliver:
  assumes h: "runs_highest s R" and n: "process_queue_from_qid s n = q" "q \<noteq> NULL"
    and q: "queue_repr s q ws" "ws \<noteq> []" and e: "q_length (queue s q) = 0"
    and v: "valid_priorities s ws"
  shows "\<exists>as g bs s'. chosen s ws as g bs \<and> completes s 0 (process_queue_send n m s) s'
    \<and> runs_highest s' (ready_first s g R) \<and> queue_repr s' q (as @ bs)
    \<and> buffer (queue s' q) = [] \<and> wait_queue_message (proc s' g) = m
    \<and> \<not> wait_queue_reset (proc s' g)
    \<and> touches R (set ws) {q} s s' \<and> suspends s [Fr_return 0] s'"
proof -
  from pop_next_repr [OF queue_reprD(8) [OF q(1)]] q(2) obtain as g bs s1 where
    s1: "chosen s ws as g bs" "process_queue_pop_next q s = Done g s1"
      "rewired (set (as @ bs)) q s s1"
      "dlist (link1 s1) (link0 s1) (wait_process (queue s1 q)) (as @ bs)" by auto
  have ne: "q_length (queue s q) \<noteq> capacity (queue s q)"
    using queue_reprD(1) [OF q(1)] e by (auto simp: buffer_ok_def)
  let ?f = "\<lambda>x. x\<lparr>p_state := PROCESS_SCHED, u4 := False, u3 := m\<rparr>"
  have f: "wakes ?f" by (simp add: wakes_def steady_def)
  have "s1 = upd_queue q (\<lambda>r. queue s1 q) s1" by (simp add: upd_queue_def)
  from queue_handover [OF h queue_reprD(8) [OF q(1)] s1(1) v s1(3,4) this refl _ _ f]
    queue_reprD(1) [OF q(1)] e
  obtain s' where s': "completes s 0 (bindK (process_sched_ring_insert g (upd_proc g ?f s1)) (\<lambda>_ s5.
        calling s5 (Fr_return 0) (preempt_by g s5) (\<lambda>_ s6. Done 0 s6))) s'"
      "runs_highest s' (ready_first s g R)" "queue_repr s' q (as @ bs)" "queue s' q = queue s1 q"
      "u3 (proc s' g) = m" "\<not> u4 (proc s' g)"
      "touches R (set ws) {q} s s'" "suspends s [Fr_return 0] s'"
    by (auto simp: rewired_queue [OF s1(3)])
  have "g \<noteq> NULL" using queue_reprD(7) [OF q(1)] s1(1) by (auto simp: chosen_def)
  then have "process_queue_send n m s = bindK (process_sched_ring_insert g (upd_proc g ?f s1)) (\<lambda>_ s5.
      calling s5 (Fr_return 0) (preempt_by g s5) (\<lambda>_ s6. Done 0 s6))"
    using n e ne s1(2) by (simp add: process_queue_send_def Let_def upd_proc_twice)
  moreover have "buffer (queue s' q) = []"
    using e s'(4) rewired_queue(1) [OF s1(3)] by (simp add: buffer_def)
  ultimately show ?thesis using s1(1) s'
    by (intro exI [of _ as] exI [of _ g] exI [of _ bs] exI [of _ s']) simp
qed

lemma send_store:
  assumes n: "process_queue_from_qid s n = q" "q \<noteq> NULL" and q: "queue_repr s q []"
    and room: "q_length (queue s q) < capacity (queue s q)"
  shows "\<exists>s'. process_queue_send n m s = Done 0 s' \<and> queue_repr s' q []
    \<and> buffer (queue s' q) = buffer (queue s q) @ [m]
    \<and> s' = upd_queue q (\<lambda>r. snd (process_queue_raw_write m r)) s"
proof -
  have "process_queue_pop_next q s = Done NULL s" using pop_next_repr [OF queue_reprD(8) [OF q]] by simp
  then have "process_queue_send n m s = Done 0 (upd_queue q (\<lambda>r. snd (process_queue_raw_write m r)) s)"
    using n room by (simp add: process_queue_send_def Let_def)
  then show ?thesis
    using raw_write_buffer [OF queue_reprD(1) [OF q] room, of m] q by (simp add: queue_repr_def waiters_def)
qed

lemma send_block:
  assumes h: "runs_highest s R" and n: "process_queue_from_qid s n = q" "q \<noteq> NULL"
    and q: "queue_repr s q ws" and full: "q_length (queue s q) = capacity (queue s q)"
    and some: "\<exists>j. blocked s R j \<noteq> []"
  defines "p \<equiv> process_active s"
  shows "\<exists>s'. process_queue_send n m s = Switched s' \<and> runs_highest s' (blocked s R)
    \<and> queue_repr s' q (p # ws) \<and> queue_message (proc s' p) = m
    \<and> buffer (queue s' q) = buffer (queue s q) \<and> frames s' p = [Fr_queue_wait, Fr_send]
    \<and> touches R (set ws) {q} s s' \<and> suspends s [Fr_queue_wait, Fr_send] s'"
proof -
  from queue_wait_repr [OF h q _ some, of m] full obtain s1 where
    s1: "process_queue_wait q m s = Switched s1" "runs_highest s1 (blocked s R)"
      "queue_repr s1 q (p # ws)" "u3 (proc s1 p) = m" "frames s1 p = [Fr_queue_wait]"
      "buffer (queue s1 q) = buffer (queue s q)" "touches R (set ws) {q} s s1"
      "suspends s [Fr_queue_wait] s1" unfolding p_def by blast
  let ?s = "s1\<lparr>frames := (frames s1)(p := frames s1 p @ [Fr_send])\<rparr>"
  have "suspends s [Fr_queue_wait, Fr_send] ?s" using s1(5,8) by (simp add: suspends_def p_def)
  moreover have "touches R (set ws) {q} s ?s" using s1(7) by (simp add: touches_def spares_def relatives_def)
  moreover
  have "queue_repr ?s q (p # ws)" by (rule queue_repr_same [OF s1(3)]) simp_all
  moreover have "process_queue_send n m s = Switched ?s"
    using n full s1(1) by (simp add: process_queue_send_def Let_def p_def)
  ultimately show ?thesis using s1 by (intro exI [of _ ?s]) simp
qed

section \<open>Receiving\<close>

lemma put_user_frame [simp, frame]:
  "proc (put_user_int a v s) = proc s" "queue (put_user_int a v s) = queue s"
  "process_active (put_user_int a v s) = process_active s"
  "process_sched_rings (put_user_int a v s) = process_sched_rings s"
  "queue_pool (put_user_int a v s) = queue_pool s"
  "link0 (put_user_int a v s) = link0 s" "link1 (put_user_int a v s) = link1 s"
  "sched_repr (put_user_int a v s) R = sched_repr s R"
  "frames (put_user_int a v s) = frames s" "clock_wait_head (put_user_int a v s) = clock_wait_head s"
  "cons_read_wait_head (put_user_int a v s) = cons_read_wait_head s" "kbd (put_user_int a v s) = kbd s"
  "queue_id_pool (put_user_int a v s) = queue_id_pool s"
  "process_pool (put_user_int a v s) = process_pool s" "process_id_pool (put_user_int a v s) = process_id_pool s"
  by (simp_all add: put_user_int_def link0_def [abs_def] link1_def [abs_def])

text \<open>A C int that was stored in user memory is read back.\<close>

lemma put_user_int_load:
  "a \<noteq> NULL \<Longrightarrow> - (2 ^ 31) \<le> v \<Longrightarrow> v < 2 ^ 31 \<Longrightarrow> sint (load32 (umem (put_user_int a v s)) a) = v"
  by (simp add: put_user_int_def sint_word_of_int32)

definition user_result :: "kernel \<Rightarrow> ptr \<Rightarrow> bool" where
  "user_result s a \<longleftrightarrow> a = NULL \<or> process_check_user_ptr s a"

lemma raw_read_tuple:
  obtains r' where "process_queue_raw_read q = (q_length q, q_cells q (read_index q), r')"
  by (simp add: process_queue_raw_read_def Let_def)

lemma receive_store:
  assumes n: "process_queue_from_qid s n = q" "q \<noteq> NULL" and q: "queue_repr s q []"
    and ne: "0 < q_length (queue s q)" and a: "user_result s message"
  shows "\<exists>s' x. process_queue_receive n message s = Done 0 s' \<and> queue_repr s' q []
    \<and> buffer (queue s q) = x # buffer (queue s' q) \<and> umem s' = umem (put_user_int message x s)
    \<and> touches R {} {q} s s' \<and> frames s' = frames s
    \<and> process_active s' = process_active s \<and> (runs_highest s R \<longrightarrow> runs_highest s' R)"
proof -
  define s2 where "s2 = upd_queue q (\<lambda>r. snd (snd (process_queue_raw_read r)))
      (put_user_int message (q_cells (queue s q) (read_index (queue s q))) s)"
  note rd = raw_read_buffer [OF queue_reprD(1) [OF q] ne]
  have q2: "queue_repr s2 q []"
    using q rd by (simp add: s2_def queue_repr_def waiters_def)
  have "process_queue_pop_next q s2 = Done NULL s2"
    using pop_next_repr [OF queue_reprD(8) [OF q2]] by simp
  moreover obtain r' where t: "process_queue_raw_read (queue s q)
      = (q_length (queue s q), q_cells (queue s q) (read_index (queue s q)), r')"
    by (rule raw_read_tuple)
  ultimately have "process_queue_receive n message s = Done 0 s2"
    using n ne a by (auto simp: process_queue_receive_def Let_def user_result_def t s2_def [symmetric])
  with q2 rd show ?thesis
    by (intro exI [of _ s2] exI [of _ "q_cells (queue s q) (read_index (queue s q))"])
       (simp add: s2_def touches_def spares_def upd_queue_def runs_highest_def sched_repr_upd_queue)
qed

lemma receive_refill:
  assumes h: "runs_highest s R" and n: "process_queue_from_qid s n = q" "q \<noteq> NULL"
    and q: "queue_repr s q ws" "ws \<noteq> []" and full: "q_length (queue s q) = capacity (queue s q)"
    and v: "valid_priorities s ws" and a: "user_result s message"
  shows "\<exists>as g bs s' x rest. chosen s ws as g bs
    \<and> completes s 0 (process_queue_receive n message s) s'
    \<and> runs_highest s' (ready_first s g R) \<and> queue_repr s' q (as @ bs)
    \<and> buffer (queue s q) = x # rest \<and> buffer (queue s' q) = rest @ [queue_message (proc s g)]
    \<and> umem s' = umem (put_user_int message x s) \<and> \<not> wait_queue_reset (proc s' g)
    \<and> touches R (set ws) {q} s s' \<and> suspends s [Fr_return 0] s'"
proof -
  define r2 where "r2 = snd (snd (process_queue_raw_read (queue s q)))"
  define x where "x = q_cells (queue s q) (read_index (queue s q))"
  define s2 where "s2 = upd_queue q (\<lambda>_. r2) (put_user_int message x s)"
  have ne: "0 < q_length (queue s q)" using queue_reprD(1) [OF q(1)] full by (simp add: buffer_ok_def)
  have rd: "buffer_ok r2" "buffer (queue s q) = x # buffer r2" "capacity r2 = capacity (queue s q)"
    "q_length r2 = capacity (queue s q) - 1" "wait_process r2 = wait_process (queue s q)"
    using raw_read_buffer [OF queue_reprD(1) [OF q(1)] ne] full by (simp_all add: r2_def x_def)
  have w2: "waiters s2 q ws"
    by (rule waiters_same [OF queue_reprD(8) [OF q(1)]]) (simp_all add: s2_def rd)
  have h2: "runs_highest s2 R" "process_active s2 = process_active s" "proc s2 = proc s"
    using h by (simp_all add: runs_highest_def s2_def sched_repr_upd_queue)
  from pop_next_repr [OF w2] q(2) obtain as g bs s3 where
    s3: "chosen s2 ws as g bs" "process_queue_pop_next q s2 = Done g s3"
      "rewired (set (as @ bs)) q s2 s3"
      "dlist (link1 s3) (link0 s3) (wait_process (queue s3 q)) (as @ bs)" by auto
  let ?m = "u3 (proc s g)"
  have m: "u3 (proc s3 g) = ?m" using rewired_fields(4) [OF s3(3)] h2 by simp
  define r4 where "r4 = snd (process_queue_raw_write ?m (queue s3 q))"
  have b3: "buffer (queue s3 q) = buffer r2" "buffer_ok (queue s3 q)" "capacity (queue s3 q) = capacity r2"
    "q_length (queue s3 q) = q_length r2"
    using rewired_queue [OF s3(3), of q] rd by (simp_all add: s2_def)
  have room: "q_length (queue s3 q) < capacity (queue s3 q)" using b3 rd ne full by simp
  note wr = raw_write_buffer [OF b3(2) room, of ?m]
  define s4 where "s4 = upd_queue q (\<lambda>r. r4) s3"
  have s4: "s4 = upd_queue q (\<lambda>r. snd (process_queue_raw_write ?m r)) s3"
    by (simp add: s4_def upd_queue_def r4_def)
  let ?f = "\<lambda>y. y\<lparr>p_state := PROCESS_SCHED, u4 := False, u3 := -1\<rparr>"
  have f: "wakes ?f" by (simp add: wakes_def steady_def)
  have v2: "valid_priorities s2 ws" using v h2 by (simp add: valid_priorities_def)
  have r4: "wait_process r4 = wait_process (queue s3 q)" "buffer_ok r4" "q_length r4 = capacity r4"
    "qid r4 = qid (queue s2 q)"
    using wr(1) b3 rd ne full rewired_queue(8) [OF s3(3), of q] by (simp_all add: r4_def)
  from queue_handover [OF h2(1) w2 s3(1) v2 s3(3,4) s4_def r4(1,2) _ f] r4(3,4)
  obtain s' where s': "completes s2 0 (bindK (process_sched_ring_insert g (upd_proc g ?f s4)) (\<lambda>_ s5.
        calling s5 (Fr_return 0) (preempt_by g s5) (\<lambda>_ s6. Done 0 s6))) s'"
      "runs_highest s' (ready_first s2 g R)" "queue_repr s' q (as @ bs)" "queue s' q = r4"
      "umem s' = umem s2" "\<not> u4 (proc s' g)" "touches R (set ws) {q} s2 s'"
      "suspends s2 [Fr_return 0] s'"
    by auto
  have g: "g \<noteq> NULL" using waitersD(5) [OF w2] s3(1) by (auto simp: chosen_def)
  have "process_queue_receive n message s = bindK (process_sched_ring_insert g (upd_proc g ?f s4)) (\<lambda>_ s5.
      calling s5 (Fr_return 0) (preempt_by g s5) (\<lambda>_ s6. Done 0 s6))"
  proof -
    have e: "upd_queue q (\<lambda>r. snd (snd (process_queue_raw_read r))) (put_user_int message x s) = s2"
      by (simp add: s2_def upd_queue_def r2_def)
    obtain r' where t: "process_queue_raw_read (queue s q) = (q_length (queue s q), x, r')"
      using raw_read_tuple [of "queue s q" thesis] by (auto simp: x_def)
    have "capacity (queue s2 q) = capacity (queue s q)" by (simp add: s2_def rd)
    then show ?thesis
      using n ne a g full s3(2) m
      by (auto simp: process_queue_receive_def Let_def user_result_def t e s4 upd_proc_twice)
  qed
  moreover have "completes s 0 m' s'" if "completes s2 0 m' s'" for m'
    using that h2(2) by (simp add: completes_def s2_def)
  moreover have "chosen s ws as g bs" "ready_first s2 g R = ready_first s g R"
    using s3(1) h2(3) by (simp_all add: chosen_def ready_first_def)
  moreover have "buffer (queue s' q) = buffer r2 @ [?m]" using s'(4) wr(2) b3(1) by (simp add: r4_def)
  moreover have "umem s' = umem (put_user_int message x s)" using s'(5) by (simp add: s2_def)
  moreover have "touches R (set ws) {q} s s'"
  proof (rule touches_base [OF _ s'(7)])
    show "touches R (set ws) {q} s s2" by (simp add: touches_def spares_def s2_def upd_queue_def r2_def)
  qed (simp_all add: s2_def)
  moreover have "suspends s [Fr_return 0] s'"
    using s'(8) by (rule suspends_cong) (simp_all add: s2_def)
  ultimately show ?thesis using s' rd(2)
    by (intro exI [of _ as] exI [of _ g] exI [of _ bs] exI [of _ s'] exI [of _ x] exI [of _ "buffer r2"])
       simp
qed

lemma receive_block:
  assumes h: "runs_highest s R" and n: "process_queue_from_qid s n = q" "q \<noteq> NULL"
    and q: "queue_repr s q ws" and e: "q_length (queue s q) = 0"
    and some: "\<exists>j. blocked s R j \<noteq> []" and a: "user_result s message"
  defines "p \<equiv> process_active s"
  shows "\<exists>s'. process_queue_receive n message s = Switched s' \<and> runs_highest s' (blocked s R)
    \<and> queue_repr s' q (p # ws) \<and> buffer (queue s' q) = []
    \<and> frames s' p = [Fr_queue_wait, Fr_receive message]
    \<and> touches R (set ws) {q} s s' \<and> suspends s [Fr_queue_wait, Fr_receive message] s'"
proof -
  from queue_wait_repr [OF h q _ some, of 0] e obtain s1 where
    s1: "process_queue_wait q 0 s = Switched s1" "runs_highest s1 (blocked s R)"
      "queue_repr s1 q (p # ws)" "frames s1 p = [Fr_queue_wait]"
      "buffer (queue s1 q) = buffer (queue s q)" "touches R (set ws) {q} s s1"
      "suspends s [Fr_queue_wait] s1" unfolding p_def by blast
  let ?s = "s1\<lparr>frames := (frames s1)(p := frames s1 p @ [Fr_receive message])\<rparr>"
  have "suspends s [Fr_queue_wait, Fr_receive message] ?s" using s1(4,7) by (simp add: suspends_def p_def)
  moreover have "touches R (set ws) {q} s ?s" using s1(6) by (simp add: touches_def spares_def relatives_def)
  moreover
  have "queue_repr ?s q (p # ws)" by (rule queue_repr_same [OF s1(3)]) simp_all
  moreover have "process_queue_receive n message s = Switched ?s"
    using n e a s1(1) by (auto simp: process_queue_receive_def Let_def p_def user_result_def)
  moreover have "buffer (queue s q) = []" using e by (simp add: buffer_def)
  ultimately show ?thesis using s1 by (intro exI [of _ ?s]) simp
qed

section \<open>Counting\<close>

lemma count_loop_list: "slist (link1 s) w ws \<Longrightarrow> count_loop s w c = Some (c + int (length ws))"
proof (induction ws arbitrary: w c)
  case (Cons x xs)
  then have "count_loop s (u1 (proc s x)) (c + 1) = Some (c + 1 + int (length xs))"
    by (simp add: link1_def)
  with Cons.prems show ?case by (subst count_loop.simps) simp
qed (subst count_loop.simps, simp)

lemma count_repr:
  assumes n: "process_queue_from_qid s n = q" "q \<noteq> NULL" and q: "queue_repr s q ws"
    and c: "count \<noteq> NULL" "process_check_user_ptr s count"
  shows "process_queue_count n count s = Done 0 (put_user_int count
    (if buffer (queue s q) = [] then - int (length ws)
     else if length (buffer (queue s q)) = capacity (queue s q)
     then int (capacity (queue s q)) + int (length ws) else 0) s)"
proof -
  have "count_loop s (wait_process (queue s q)) 0 = Some (int (length ws))"
    using count_loop_list [OF dlist_slist [OF queue_reprD(2) [OF q]], of 0] by simp
  moreover have "buffer (queue s q) = [] \<longleftrightarrow> q_length (queue s q) = 0" by (simp add: buffer_def)
  ultimately show ?thesis using n c by (simp add: process_queue_count_def Let_def)
qed

section \<open>Reset and deletion wake every waiting process\<close>

lemma wakes_reset: "wakes reset_wake"
  by (simp add: wakes_def steady_def reset_wake_def)

lemma reset_loop_list:
  assumes "sched_repr s R" "slist (link1 s) w ws" "\<forall>p\<in>set ws. off_rings R p"
  shows "reset_loop w h s = Some (wake_list reset_wake ws h s)"
  using assms
proof (induction ws arbitrary: w s R h)
  case Nil
  then show ?case by (subst reset_loop.simps) simp
next
  case (Cons x xs)
  then have w: "w = x" "x \<noteq> NULL" and sl: "slist (link1 s) (link1 s x) xs" by auto
  have x: "x \<notin> set xs" using slist_distinct [OF Cons.prems(2)] by simp
  from wake_one [OF Cons.prems(1) w(2) _ wakes_reset] Cons.prems(3) obtain s1 where
    s1: "process_sched_ring_insert x (upd_proc x reset_wake s) = Done () s1"
      "sched_repr s1 (ready_first s x R)" "\<forall>q. q \<noteq> x \<and> off_rings R q \<longrightarrow> proc s1 q = proc s q" by auto
  have same: "proc s1 q = proc s q" if "q \<in> set xs" for q using s1(3) that x Cons.prems(3) by auto
  have "slist (link1 s1) (link1 s x) xs"
    using sl same by (subst slist_cong [of _ _ "link1 s"]) (simp_all add: link1_def)
  moreover have "\<forall>q\<in>set xs. off_rings (ready_first s x R) q" using Cons.prems(3) x by auto
  ultimately have "reset_loop (link1 s x) (pick_first s h x) s1
      = Some (wake_list reset_wake xs (pick_first s h x) s1)"
    by (intro Cons.IH [OF s1(2)])
  then show ?case using s1(1) w by (subst reset_loop.simps) (simp add: link1_def)
qed

text \<open>
  Resetting a queue empties it, leaves nobody waiting and makes every waiting process ready with
  the reset flag, which makes its call return -1.
\<close>

lemma resume_reset_repr:
  assumes h: "runs_highest s R" and w: "waiters s q ws" and v: "valid_priorities s ws"
    and c: "\<And>t. proc (clear t) = proc t" "\<And>t. process_active (clear t) = process_active t"
      "\<And>t Q. sched_repr (clear t) Q = sched_repr t Q"
  defines "R' \<equiv> wake_rings s ws R"
  shows "\<exists>s1 g. reset_loop (wait_process (queue s q)) NULL s = Some (Done g s1) \<and> kept s s1
    \<and> (preempt_by g (clear s1) = Done () (clear s1)
       \<or> preempt_by g (clear s1) = Switched (switched g (clear s1)))
    \<and> ends_highest (preempt_by g (clear s1)) R' \<and> (\<forall>p\<in>set ws. u4 (proc s1 p))
    \<and> (\<forall>p. off_rings R p \<and> p \<notin> set ws \<longrightarrow> proc s1 p = proc s p) \<and> relatives R s s1"
proof -
  note r = runs_highestD(1) [OF h]
  have off: "\<forall>p\<in>set ws. off_rings R p" using waitersD(2) [OF w] waiting_off_rings [OF r] by auto
  have nn: "\<forall>p\<in>set ws. p \<noteq> NULL \<and> off_rings R p" using waitersD(5) [OF w] off by auto
  let ?g = "foldl (pick_first s) NULL ws"
  from wake_list_repr [OF r wakes_reset waitersD(4) [OF w] nn, of NULL] obtain s1 where
    s1: "wake_list reset_wake ws NULL s = Done ?g s1" "sched_repr s1 R'" "kept s s1"
      "\<forall>p. u4 (proc s1 p) = (if p \<in> set ws then u4 (reset_wake (proc s p)) else u4 (proc s p))"
      "\<forall>p. p \<notin> set ws \<and> off_rings R p \<longrightarrow> proc s1 p = proc s p"
      "\<forall>p. p \<notin> set ws \<longrightarrow> p_state (proc s1 p) = p_state (proc s p) \<and> u2 (proc s1 p) = u2 (proc s p)"
    unfolding R'_def by blast
  have rel: "relatives R s s1"
    unfolding relatives_def using s1(6) off kept_kin [OF s1(3)] by blast
  have l: "reset_loop (wait_process (queue s q)) NULL s = Some (Done ?g s1)"
    using reset_loop_list [OF r dlist_slist [OF waitersD(1) [OF w]] off, of NULL] s1(1) by simp
  have rc: "sched_repr (clear s1) (wake_rings s ws R)" using s1(2) c(3) by (simp add: R'_def)
  have "\<forall>p\<in>set ws. p \<noteq> NULL \<and> 0 \<le> p_priority (proc s p) \<and> p_priority (proc s p) < PROCESS_MAX_PRIORITY"
    using nn v by (auto simp: valid_priorities_def)
  from wake_preempt [OF h rc _ _ this] kept_kernel(2) [OF s1(3)] kept_fields(5) [OF s1(3)] c
  have e: "ends_highest (preempt_by ?g (clear s1)) R'" by (simp add: R'_def)
  have "p_state (proc (clear s1) ?g) = PROCESS_SCHED" if "?g \<noteq> NULL"
    using pick_first_max(1) [of NULL "{}" ws ?g s] waitersD(5) [OF w] that
      sched_reprD(5) [OF rc wake_rings_woken] by auto
  from preempt_outcome [of ?g "clear s1", OF this] l s1 e rel show ?thesis
    by (intro exI [of _ s1] exI [of _ ?g]) (auto simp: reset_wake_def)
qed

lemma completes_preempt:
  assumes "process_active s1 = process_active s \<and> frames s1 = frames s" "process_active s \<noteq> NULL"
    and "preempt_by g s1 = Done () s1 \<or> preempt_by g s1 = Switched (switched g s1)"
    and "ends_highest (preempt_by g s1) R"
  shows "\<exists>s'. completes s v (calling s (Fr_return v) (preempt_by g s1) (\<lambda>_ t. Done v t)) s'
    \<and> runs_highest s' R \<and> proc s' = proc s1 \<and> queue s' = queue s1
    \<and> ran s1 s' \<and> suspends s1 [Fr_return v] s'"
  using assms(3)
proof
  assume "preempt_by g s1 = Done () s1"
  with assms(4) show ?thesis
    by (intro exI [of _ s1]) (auto simp: completes_def ends_highest_def kept_ran suspends_same assms(1))
next
  assume sw: "preempt_by g s1 = Switched (switched g s1)"
  let ?t = "switched g s1"
  let ?s = "?t\<lparr>frames := (frames ?t)(process_active s := frames ?t (process_active s) @ [Fr_return v])\<rparr>"
  have "frames ?t (process_active s) = []" using assms(1,2) by (simp add: switched_def)
  moreover from this have "suspends s1 [Fr_return v] ?s"
    using assms(1) by (simp add: suspends_def switched_def)
  ultimately show ?thesis using sw assms(4)
    by (intro exI [of _ ?s]) (simp add: completes_def ends_highest_def ran_switched)
qed

lemma reset_repr:
  assumes h: "runs_highest s R" and n: "process_queue_from_qid s n = q" "q \<noteq> NULL"
    and q: "queue_repr s q ws" and v: "valid_priorities s ws"
  shows "\<exists>s'. completes s 0 (process_queue_reset n s) s' \<and> runs_highest s' (wake_rings s ws R)
    \<and> queue_repr s' q [] \<and> buffer (queue s' q) = [] \<and> (\<forall>p\<in>set ws. wait_queue_reset (proc s' p))
    \<and> touches R (set ws) {q} s s' \<and> suspends s [Fr_return 0] s'"
proof -
  define s1 where "s1 = upd_queue q (\<lambda>r. r\<lparr>q_length := 0, read_index := 0, write_index := 0\<rparr>) s"
  let ?c = "upd_queue q (set_wait_process NULL)"
  have p1: "proc s1 = proc s" "process_active s1 = process_active s" by (simp_all add: s1_def)
  have h1: "runs_highest s1 R" using h by (simp add: runs_highest_def s1_def sched_repr_upd_queue)
  have w1: "waiters s1 q ws" by (rule waiters_same [OF queue_reprD(8) [OF q]]) (simp_all add: s1_def)
  have v1: "valid_priorities s1 ws" using v p1 by (simp add: valid_priorities_def)
  have R: "wake_rings s1 ws R = wake_rings s ws R"
    by (induction ws arbitrary: R) (simp_all add: ready_first_def p1)
  have c: "sched_repr (?c t) Q = sched_repr t Q" for t Q
    by (simp add: sched_repr_def)
  from resume_reset_repr [OF h1 w1 v1, of ?c] c obtain s2 g where
    s2: "reset_loop (wait_process (queue s1 q)) NULL s1 = Some (Done g s2)" "kept s1 s2"
      "preempt_by g (?c s2) = Done () (?c s2) \<or> preempt_by g (?c s2) = Switched (switched g (?c s2))"
      "ends_highest (preempt_by g (?c s2)) (wake_rings s ws R)" "\<forall>p\<in>set ws. u4 (proc s2 p)"
      "\<forall>p. off_rings R p \<and> p \<notin> set ws \<longrightarrow> proc s2 p = proc s1 p" "relatives R s1 s2"
    by (auto simp: R)
  have a2: "process_active (?c s2) = process_active s \<and> frames (?c s2) = frames s"
    using kept_kernel [OF s2(2)] p1 by (simp add: s1_def)
  from completes_preempt [OF a2 runs_highestD(4) [OF h] s2(3,4), of 0] obtain s' where
    s': "completes s 0 (calling s (Fr_return 0) (preempt_by g (?c s2)) (\<lambda>_ t. Done 0 t)) s'"
      "runs_highest s' (wake_rings s ws R)" "proc s' = proc (?c s2)" "queue s' = queue (?c s2)"
      "ran (?c s2) s'" "suspends (?c s2) [Fr_return 0] s'" by blast
  have "touches R (set ws) {q} s s'"
    using s2(6) ran_kernel [OF s'(5)] s'(3,4) kept_kernel [OF s2(2)] kept_fields(5) [OF s2(2)] p1
      relatives_cong [OF s2(7) p1, of s']
    by (simp add: touches_def spares_def s1_def upd_queue_def)
  moreover have "suspends s [Fr_return 0] s'"
    using s'(6) by (rule suspends_cong) (use kept_kernel [OF s2(2)] in \<open>simp_all add: s1_def\<close>)
  moreover
  have cs: "calling s1 fr m f = calling s fr m f" for fr and m :: "(kernel, unit) outcome" and f
    by (cases m) (simp_all add: p1)
  have "process_queue_reset n s = calling s (Fr_return 0) (preempt_by g (?c s2)) (\<lambda>_ t. Done 0 t)"
    using n s2(1) by (simp add: process_queue_reset_def Let_def s1_def [symmetric]
        process_queue_resume_reset_def cs)
  moreover have "queue s' q = (queue s q)\<lparr>q_length := 0, read_index := 0, write_index := 0, wait_process := NULL\<rparr>"
    using s'(4) kept_kernel(1) [OF s2(2)] by (simp add: s1_def)
  moreover have "0 < capacity (queue s q)" using queue_reprD(1) [OF q] by (auto simp: buffer_ok_def)
  ultimately show ?thesis using s' s2(5)
    by (intro exI [of _ s']) (simp add: queue_repr_def waiters_def buffer_ok_def buffer_def)
qed

end
