(* ===== verification/Cons_Wait.thy ===== *)
theory Cons_Wait
  imports Waking
begin

text \<open>
  Processes waiting for console input: \<^verbatim>\<open>kernel/process/cons.c\<close>. The waiting processes are a list
  linked by \<open>wait_cons_read.next\<close>, all of them are woken when a line is finished.
\<close>

section \<open>Operations\<close>

partial_function (option) cons_wake_loop :: "ptr \<Rightarrow> ptr \<Rightarrow> kernel \<Rightarrow> (kernel, ptr) outcome option" where
  "cons_wake_loop highest_process process_it s =
     (if process_it \<noteq> NULL then
        (case process_sched_ring_insert process_it
            (upd_proc process_it (set_state PROCESS_SCHED) s) of
           Done _ s1 \<Rightarrow> cons_wake_loop (pick_first s highest_process process_it)
             (cons_next (proc s process_it)) s1
         | Switched s1 \<Rightarrow> Some (Switched s1)
         | Panic e \<Rightarrow> Some (Panic e)
         | Hang \<Rightarrow> Some Hang)
      else Some (Done highest_process s))"

definition process_wait_cons_read_wake :: "kernel \<Rightarrow> (kernel, unit) outcome" where
  "process_wait_cons_read_wake s =
     bindK (or_hang (cons_wake_loop NULL (cons_read_wait_head s) s))
       (\<lambda>highest_process s1. preempt_by highest_process (s1\<lparr>cons_read_wait_head := NULL\<rparr>))"

text \<open>
  The endless loop of \<open>process_wait_cons_read\<close>. Its body ends in a context switch, and goes on in
  the loop when the process runs again.
\<close>

partial_function (option) cons_read_loop :: "ptr \<Rightarrow> u32 \<Rightarrow> kernel \<Rightarrow> (kernel, int) outcome option" where
  "cons_read_loop dst len s =
     (let (ok, read_len, cs, c) = cons_try_read (unat len) True (cons s);
          s1 = s\<lparr>cons := c, umem := (if dst \<noteq> NULL then store_bytes (umem s) dst cs else umem s)\<rparr>
      in if ok then Some (Done (int read_len) s1)
      else case bindK (process_sched_ring_remove (process_active s1) s1) (\<lambda>next_process s2.
          let p = process_active s2;
              s3 = upd_proc p (set_state PROCESS_WAIT_CONS_READ) s2;
              s4 = upd_proc p (set_u0 (cons_read_wait_head s3)) s3;
              s5 = s4\<lparr>cons_read_wait_head := p\<rparr>
          in calling s5 (Fr_cons_read dst len) (process_sched_advance next_process s5)
               (\<lambda>_ s6. Done () s6)) of
        Done _ s7 \<Rightarrow> cons_read_loop dst len s7
      | Switched s7 \<Rightarrow> Some (Switched s7)
      | Panic e \<Rightarrow> Some (Panic e)
      | Hang \<Rightarrow> Some Hang)"

definition process_wait_cons_read :: "ptr \<Rightarrow> u32 \<Rightarrow> kernel \<Rightarrow> (kernel, int) outcome" where
  "process_wait_cons_read dst len s =
     (if dst \<noteq> NULL \<and> \<not> process_check_user_ptr s dst then Done (-1) s
      else if len = 0 then Done 0 s
      else or_hang (cons_read_loop dst len s))"

text \<open>
  A pointer to a pointer: to the head of the list (\<open>None\<close>), or to the \<open>next\<close> field of a process.
\<close>

definition cons_link :: "kernel \<Rightarrow> ptr option \<Rightarrow> ptr" where
  "cons_link s l = (case l of None \<Rightarrow> cons_read_wait_head s | Some p \<Rightarrow> cons_next (proc s p))"

definition set_cons_link :: "ptr option \<Rightarrow> ptr \<Rightarrow> kernel \<Rightarrow> kernel" where
  "set_cons_link l v s =
     (case l of None \<Rightarrow> s\<lparr>cons_read_wait_head := v\<rparr> | Some p \<Rightarrow> upd_proc p (set_u0 v) s)"

partial_function (option) cons_kill_loop :: "ptr \<Rightarrow> ptr option \<Rightarrow> kernel \<Rightarrow> kernel option" where
  "cons_kill_loop process process_it s =
     (if cons_link s process_it \<noteq> NULL then
        (if cons_link s process_it = process
         then Some (set_cons_link process_it (cons_next (proc s process)) s)
         else cons_kill_loop process (Some (cons_link s process_it)) s)
      else Some s)"

definition process_cons_read_kill_process :: "ptr \<Rightarrow> kernel \<Rightarrow> (kernel, unit) outcome" where
  "process_cons_read_kill_process process s = (case cons_kill_loop process None s of
     None \<Rightarrow> Hang | Some s1 \<Rightarrow> Done () s1)"

section \<open>The waiting list\<close>

definition cons_repr :: "kernel \<Rightarrow> ptr list \<Rightarrow> bool" where
  "cons_repr s cs \<longleftrightarrow> slist (link0 s) (cons_read_wait_head s) cs \<and>
     (\<forall>p \<in> set cs. p_state (proc s p) = PROCESS_WAIT_CONS_READ)"

lemma cons_repr_same:
  "\<lbrakk>cons_repr s cs; cons_read_wait_head s' = cons_read_wait_head s;
    \<And>p. p \<in> set cs \<Longrightarrow> proc s' p = proc s p\<rbrakk> \<Longrightarrow> cons_repr s' cs"
  using slist_cong [of cs "link0 s'" "link0 s"] by (auto simp: cons_repr_def link0_def)

text \<open>Killing a waiting process takes it out of the list, wherever it is.\<close>

lemma cons_kill_loop_inner:
  "\<lbrakk>slist (link0 s) (link0 s x) (as @ p # bs); p \<notin> set as\<rbrakk> \<Longrightarrow>
    cons_kill_loop p (Some x) s = Some (upd_proc (last (x # as)) (set_u0 (link0 s p)) s)"
proof (induction as arbitrary: x)
  case Nil
  then show ?case
    by (subst cons_kill_loop.simps) (simp add: cons_link_def set_cons_link_def link0_def)
next
  case (Cons a as)
  then have a: "link0 s x = a" "a \<noteq> NULL" "a \<noteq> p" by auto
  have "cons_kill_loop p (Some x) s = cons_kill_loop p (Some a) s"
    using a by (subst cons_kill_loop.simps) (simp add: cons_link_def link0_def)
  then show ?case using Cons by auto
qed

lemma cons_kill_repr:
  assumes c: "cons_repr s cs" and p: "p \<in> set cs"
  shows "\<exists>s'. process_cons_read_kill_process p s = Done () s' \<and> cons_repr s' (remove1 p cs)
    \<and> (\<forall>q. q \<notin> set cs \<longrightarrow> proc s' q = proc s q)"
proof -
  obtain as bs where cs: "cs = as @ p # bs" "p \<notin> set as"
    using p by (metis split_list_first)
  have sl: "slist (link0 s) (cons_read_wait_head s) (as @ p # bs)" using c by (simp add: cons_repr_def cs)
  have d: "distinct (as @ p # bs)" using slist_distinct [OF sl] .
  have rem: "remove1 p cs = as @ bs" using cs by (simp add: remove1_append)
  show ?thesis
  proof (cases as)
    case Nil
    let ?s = "s\<lparr>cons_read_wait_head := link0 s p\<rparr>"
    have "cons_kill_loop p None s = Some ?s"
      using sl Nil by (subst cons_kill_loop.simps)
        (auto simp: cons_link_def set_cons_link_def link0_def [of s p])
    moreover have "cons_repr ?s bs" using sl c Nil by (simp add: cons_repr_def cs)
    ultimately show ?thesis using rem Nil by (simp add: process_cons_read_kill_process_def)
  next
    case (Cons a as')
    let ?s = "upd_proc (last as) (set_u0 (link0 s p)) s"
    have a: "cons_read_wait_head s = a" "a \<noteq> NULL" "a \<noteq> p" using sl cs(2) Cons by auto
    have "cons_kill_loop p None s = cons_kill_loop p (Some a) s"
      using a by (subst cons_kill_loop.simps) (simp add: cons_link_def)
    also have "\<dots> = Some ?s"
      using cons_kill_loop_inner [of s a as' p bs] sl cs(2) by (simp add: Cons)
    finally have k: "cons_kill_loop p None s = Some ?s" .
    have "cons_repr ?s (as @ bs)"
      using slist_remove [OF sl _ d] c Cons by (auto simp: cons_repr_def cs proc_upd_proc)
    moreover have "last as \<in> set cs" by (simp add: cs Cons)
    ultimately show ?thesis using k rem
      by (intro exI [of _ ?s]) (auto simp: process_cons_read_kill_process_def proc_upd_proc)
  qed
qed

text \<open>The wake callback makes every waiting process ready.\<close>

lemma wakes_sched: "wakes (set_state PROCESS_SCHED)"
  by (simp add: wakes_def steady_def)

lemma cons_wake_loop_list:
  assumes "sched_repr s R" "slist (link0 s) w cs" "\<forall>p\<in>set cs. off_rings R p"
  shows "cons_wake_loop h w s = Some (wake_list (set_state PROCESS_SCHED) cs h s)"
  using assms
proof (induction cs arbitrary: w s R h)
  case Nil
  then show ?case by (subst cons_wake_loop.simps) simp
next
  case (Cons x xs)
  then have w: "w = x" "x \<noteq> NULL" and sl: "slist (link0 s) (link0 s x) xs" by auto
  have x: "x \<notin> set xs" using slist_distinct [OF Cons.prems(2)] by simp
  from wake_one [OF Cons.prems(1) w(2) _ wakes_sched] Cons.prems(3) obtain s1 where
    s1: "process_sched_ring_insert x (upd_proc x (set_state PROCESS_SCHED) s) = Done () s1"
      "sched_repr s1 (ready_first s x R)" "\<forall>q. q \<noteq> x \<and> off_rings R q \<longrightarrow> proc s1 q = proc s q" by auto
  have same: "proc s1 q = proc s q" if "q \<in> set xs" for q using s1(3) that x Cons.prems(3) by auto
  have "slist (link0 s1) (link0 s x) xs"
    using sl same by (subst slist_cong [of _ _ "link0 s"]) (simp_all add: link0_def)
  moreover have "\<forall>q\<in>set xs. off_rings (ready_first s x R) q" using Cons.prems(3) x by auto
  ultimately have "cons_wake_loop (pick_first s h x) (link0 s x) s1
      = Some (wake_list (set_state PROCESS_SCHED) xs (pick_first s h x) s1)"
    by (intro Cons.IH [OF s1(2)])
  then show ?case using s1(1) w by (subst cons_wake_loop.simps) (simp add: link0_def)
qed

lemma cons_wake_repr:
  assumes h: "runs_highest s R" and c: "cons_repr s cs" and v: "valid_priorities s cs"
  shows "\<exists>s'. outcome_state (process_wait_cons_read_wake s) = Some s'
    \<and> runs_highest s' (wake_rings s cs R) \<and> cons_repr s' []
    \<and> touches R (set cs) {} (s\<lparr>cons_read_wait_head := NULL\<rparr>) s' \<and> suspends s [] s'
    \<and> (process_wait_cons_read_wake s = Done () s' \<longrightarrow>
        process_active s' = process_active s \<and> frames s' = frames s)"
proof -
  note r = runs_highestD(1) [OF h]
  have sl: "slist (link0 s) (cons_read_wait_head s) cs" using c by (simp add: cons_repr_def)
  have off: "\<forall>p\<in>set cs. off_rings R p" using c waiting_off_rings [OF r] by (auto simp: cons_repr_def)
  have nn: "\<forall>p\<in>set cs. p \<noteq> NULL \<and> off_rings R p" using off slist_no_NULL [OF sl] by auto
  let ?g = "foldl (pick_first s) NULL cs"
  from wake_list_repr [OF r wakes_sched slist_distinct [OF sl] nn, of NULL] obtain s1 where
    s1: "wake_list (set_state PROCESS_SCHED) cs NULL s = Done ?g s1"
      "sched_repr s1 (wake_rings s cs R)" "kept s s1"
      "\<forall>q. q \<notin> set cs \<and> off_rings R q \<longrightarrow> proc s1 q = proc s q"
      "\<forall>q. q \<notin> set cs \<longrightarrow> p_state (proc s1 q) = p_state (proc s q) \<and> u2 (proc s1 q) = u2 (proc s q)" by blast
  have rel: "relatives R s s1" unfolding relatives_def using s1(5) off kept_kin [OF s1(3)] by blast
  let ?s = "s1\<lparr>cons_read_wait_head := NULL\<rparr>"
  have eq: "process_wait_cons_read_wake s = preempt_by ?g ?s"
    using cons_wake_loop_list [OF r sl off, of NULL] s1(1) by (simp add: process_wait_cons_read_wake_def)
  have r2: "sched_repr ?s (wake_rings s cs R)" using s1(2) by simp
  have "\<forall>p\<in>set cs. p \<noteq> NULL \<and> 0 \<le> p_priority (proc s p) \<and> p_priority (proc s p) < PROCESS_MAX_PRIORITY"
    using nn v by (auto simp: valid_priorities_def)
  from wake_preempt [OF h r2 _ _ this] kept_kernel(2) [OF s1(3)] kept_fields(5) [OF s1(3)]
  have e: "ends_highest (process_wait_cons_read_wake s) (wake_rings s cs R)" by (simp add: eq)
  have "p_state (proc ?s ?g) = PROCESS_SCHED" if "?g \<noteq> NULL"
    using pick_first_max(1) [of NULL "{}" cs ?g s] slist_no_NULL [OF sl] that
      sched_reprD(5) [OF r2 wake_rings_woken] by auto
  then obtain s' where s': "outcome_state (preempt_by ?g ?s) = Some s'"
      "preempt_by ?g ?s = Done () ?s \<and> s' = ?s \<or> preempt_by ?g ?s = Switched s' \<and> s' = switched ?g ?s"
    using preempt_outcome [of ?g ?s] by auto
  then have k: "proc s' = proc s1" "ran ?s s'" using ran_switched(1) by (auto simp: kept_ran)
  have "touches R (set cs) {} (s\<lparr>cons_read_wait_head := NULL\<rparr>) s'"
    using s1(4) k(1) ran_kernel [OF k(2)] kept_kernel [OF s1(3)] kept_fields(5) [OF s1(3)]
      relatives_cong [OF rel _ _ k(1)]
    by (simp add: touches_def spares_def)
  moreover have "suspends ?s [] s'" using s'(2) suspends_same [of ?s ?s] by auto
  then have "suspends s [] s'" by (rule suspends_cong) (simp_all add: kept_kernel [OF s1(3)])
  ultimately show ?thesis using s' e eq kept_kernel [OF s1(3)]
    by (auto simp: ends_highest_def cons_repr_def)
qed

text \<open>Reading blocks exactly when there is no finished line, and the process joins the list.\<close>

lemma cons_read_loop_block:
  assumes h: "runs_highest s R" and c: "cons_repr s cs" and some: "\<exists>j. blocked s R j \<noteq> []"
    and e: "all_buffer_len (cons s) = 0" and len: "len \<noteq> 0"
  defines "p \<equiv> process_active s"
  shows "\<exists>s'. cons_read_loop dst len s = Some (Switched s') \<and> runs_highest s' (blocked s R)
    \<and> cons_repr s' (p # cs) \<and> wake_set (cons s') \<and> frames s' p = [Fr_cons_read dst len]
    \<and> touches R {} {} (s\<lparr>cons_read_wait_head := p\<rparr>) s' \<and> suspends s [Fr_cons_read dst len] s'
    \<and> (\<forall>q. q \<noteq> p \<longrightarrow> p_state (proc s' q) = p_state (proc s q))"
proof -
  define s1 where "s1 = s\<lparr>cons := (cons s)\<lparr>wake_set := True\<rparr>,
      umem := (if dst \<noteq> NULL then store_bytes (umem s) dst [] else umem s)\<rparr>"
  have h1: "runs_highest s1 R" using h by (simp add: runs_highest_def s1_def)
  have b1: "blocked s1 R = blocked s R" by (simp add: blocked_def s1_def)
  have off: "off_rings R x" if "x \<in> set cs" for x
    using c that waiting_off_rings [OF runs_highestD(1) [OF h]] by (auto simp: cons_repr_def)
  have p: "p \<noteq> NULL" "p \<notin> set cs" using runs_highestD(2,4) [OF h] off by (auto simp: p_def)
  have a1: "process_active s1 = p" by (simp add: s1_def p_def)
  obtain n s2 where s2: "process_sched_ring_remove p s1 = Done n s2" "kept s1 s2"
      "sched_repr s2 (blocked s R)" "off_rings (blocked s R) p"
      "\<And>q. off_rings R q \<Longrightarrow> proc s2 q = proc s1 q" "\<And>q. p_state (proc s2 q) = p_state (proc s1 q)"
      "\<And>q. u2 (proc s2 q) = u2 (proc s1 q)"
    and adv: "\<And>s3. \<lbrakk>sched_repr s3 (blocked s R); process_active s3 = p;
      p_state (proc s3 p) \<noteq> PROCESS_SCHED; p_priority (proc s3 p) = p_priority (proc s1 p)\<rbrakk>
      \<Longrightarrow> \<exists>q. process_sched_advance n s3 = Switched (switched q s3)
        \<and> runs_highest (switched q s3) (blocked s R)"
    using block_active [OF h1, unfolded b1, OF some] unfolding a1 by metis
  define s5 where "s5 = (upd_proc p (set_u0 (cons_read_wait_head s))
      (upd_proc p (set_state PROCESS_WAIT_CONS_READ) s2))\<lparr>cons_read_wait_head := p\<rparr>"
  have same: "proc s5 x = proc s x" if "x \<in> set cs" for x
  proof -
    have "x \<noteq> p" using that p(2) by auto
    then show ?thesis using s2(5) off that by (simp add: s5_def s1_def)
  qed
  have "slist (link0 s5) (cons_read_wait_head s) cs"
    using c same by (subst slist_cong [of _ _ "link0 s"]) (simp_all add: cons_repr_def link0_def)
  then have c5: "cons_repr s5 (p # cs)"
    using c p same by (simp add: cons_repr_def) (simp add: s5_def link0_def)
  have a2: "process_active s2 = p" "cons_read_wait_head s2 = cons_read_wait_head s" "cons s2 = cons s1"
    using kept_kernel [OF s2(2)] a1 by (simp_all add: s1_def)
  have r5: "sched_repr s5 (blocked s R)"
    using s2(3,4) by (auto simp: s5_def intro!: sched_repr_upd_proc)
  have "p_priority (proc s5 p) = p_priority (proc s1 p)" using kept_fields(5) [OF s2(2)] by (simp add: s5_def)
  with adv [OF r5] obtain q where q: "process_sched_advance n s5 = Switched (switched q s5)"
      "runs_highest (switched q s5) (blocked s R)" using a2 by (auto simp: s5_def)
  let ?t = "switched q s5"
  define s' where "s' = ?t\<lparr>frames := (frames ?t)(p := frames ?t p @ [Fr_cons_read dst len])\<rparr>"
  have a5: "process_active s5 = p" using a2 by (simp add: s5_def)
  have "cons_try_read (unat len) True (cons s) = (False, unat len, [], (cons s)\<lparr>wake_set := True\<rparr>)"
    using e len by (simp add: cons_try_read_def unat_eq_zero)
  then have "cons_read_loop dst len s = Some (Switched s')"
    using s2(1) a1 a2 q(1) a5
    by (subst cons_read_loop.simps) (simp add: s1_def [symmetric] p_def [symmetric] Let_def s5_def [symmetric] s'_def)
  moreover have "cons_repr s' (p # cs)" by (rule cons_repr_same [OF c5]) (simp_all add: s'_def)
  moreover have "wake_set (cons s')" using a2 by (simp add: s'_def s5_def s1_def switched_def)
  moreover have fr: "frames s' p = [Fr_cons_read dst len]"
    using p(1) a5 by (simp add: s'_def switched_def)
  moreover have "touches R {} {} (s\<lparr>cons_read_wait_head := p\<rparr>) s'"
  proof -
    have "proc s' x = proc s x" if "off_rings R x" for x
    proof -
      have "x \<noteq> p" using that runs_highestD(2) [OF h] by (auto simp: p_def)
      then show ?thesis using s2(5) [OF that] by (simp add: s'_def s5_def s1_def)
    qed
    then show ?thesis
      using kept_kernel [OF s2(2)] kept_fields [OF s2(2)]
      by (simp add: touches_def spares_def relatives_def kin_def s'_def s5_def s1_def switched_def proc_upd_proc
          s2(6,7) p_def [symmetric])
  qed
  moreover have "suspends s [Fr_cons_read dst len] s'"
    using fr a5 kept_kernel [OF s2(2)] by (simp add: suspends_def s'_def switched_def s5_def s1_def p_def)
  moreover have "\<forall>q. q \<noteq> p \<longrightarrow> p_state (proc s' q) = p_state (proc s q)"
    using s2(6) by (simp add: s'_def s5_def s1_def)
  ultimately show ?thesis using q(2) by (intro exI [of _ s']) (simp add: s'_def)
qed

lemma cons_read_block:
  assumes h: "runs_highest s R" and c: "cons_repr s cs" and some: "\<exists>j. blocked s R j \<noteq> []"
    and e: "all_buffer_len (cons s) = 0" and len: "len \<noteq> 0"
    and dst: "dst = NULL \<or> process_check_user_ptr s dst"
  defines "p \<equiv> process_active s"
  shows "\<exists>s'. process_wait_cons_read dst len s = Switched s' \<and> runs_highest s' (blocked s R)
    \<and> cons_repr s' (p # cs) \<and> wake_set (cons s') \<and> frames s' p = [Fr_cons_read dst len]"
  using cons_read_loop_block [OF h c some e len, of dst] len dst
  by (auto simp: process_wait_cons_read_def p_def)

text \<open>With a finished line the loop returns, and only the console and user memory change.\<close>

lemma cons_read_loop_done:
  assumes "all_buffer_len (cons s) \<noteq> 0 \<or> len = 0"
  shows "\<exists>v t. cons_read_loop dst len s = Some (Done v t) \<and> t = s\<lparr>cons := cons t, umem := umem t\<rparr>"
proof -
  obtain ok n cs c where t: "cons_try_read (unat len) True (cons s) = (ok, n, cs, c)"
    by (cases "cons_try_read (unat len) True (cons s)") auto
  then have ok
    using assms by (auto simp: cons_try_read_def Let_def unat_eq_zero split: if_splits prod.splits)
  then show ?thesis using t by (subst cons_read_loop.simps) simp
qed

end
