(* ===== verification/Lifecycle.thy ===== *)
theory Lifecycle
  imports Time_Queue Queue_Calls Cons_Wait
begin

text \<open>
  The life of a process: \<open>process_alloc\<close> and \<open>process_free\<close> of \<^verbatim>\<open>kernel/process/overall.c\<close>, and
  start, exit, wait, kill and the queries of \<^verbatim>\<open>kernel/process/process.c\<close>. The blocks that
  \<open>kalloc\<close> and \<open>user_stack_alloc\<close> return are arguments, a null pointer is a failed allocation.
\<close>

section \<open>Allocation\<close>

abbreviation (input) KERNEL_STACK_WORDS :: u32 where "KERNEL_STACK_WORDS \<equiv> 10"

text \<open>\<open>strncpy(process->name, name, PROCESS_NAME_CAP)\<close>: the \<open>n\<close> bytes it writes.\<close>

primrec strncpy_bytes :: "bmem \<Rightarrow> ptr \<Rightarrow> nat \<Rightarrow> u8 list" where
  "strncpy_bytes m src 0 = []"
| "strncpy_bytes m src (Suc n) =
     (if m src = 0 then 0 # replicate n 0 else m src # strncpy_bytes m (src + 1) n)"

text \<open>Words stored at \<open>a, a + 4, \<dots>\<close>\<close>

primrec store_words :: "bmem \<Rightarrow> ptr \<Rightarrow> u32 list \<Rightarrow> bmem" where
  "store_words m a [] = m"
| "store_words m a (w # ws) = store_words (store32 m a w) (a + 4) ws"

record blocks =
  process_block :: ptr
  kernel_stack_block :: ptr
  user_stack_block :: ptr

text \<open>
  The two stacks and the fields of a new process. The words on its kernel stack are the saved
  registers, the return address and the interrupt frame that \<open>process_context_startup\<close> consumes.
\<close>

definition process_init ::
    "blocks \<Rightarrow> ptr \<Rightarrow> u32 \<Rightarrow> int \<Rightarrow> ptr \<Rightarrow> u32 \<Rightarrow> kernel \<Rightarrow> kernel" where
  "process_init b entry ssize priority name arg s =
     (let process = process_block b;
          s4 = upd_proc process (\<lambda>pr. pr\<lparr>stack := user_stack_block b, stack_size := ssize\<rparr>) s;
          stack_top = user_stack_block b + ssize;
          stack_ptr = stack_top - 4 * 2;
          s5 = s4\<lparr>umem := store_words (umem s4) stack_ptr [implicit_exit_code s4, arg]\<rparr>;
          s6 = upd_proc process (kernel_stack_update (\<lambda>_. kernel_stack_block b)) s5;
          kernel_stack_ptr = kernel_stack_block b + KERNEL_STACK_SIZE - 4 * KERNEL_STACK_WORDS;
          s7 = s6\<lparr>umem := store_words (umem s6) kernel_stack_ptr
                 [0, 0, 0, 0, startup_code s6, entry, 0x43, 0x202, stack_ptr, 0x4b],
               frames := (frames s6)(process := [Fr_startup])\<rparr>
      in upd_proc process (\<lambda>pr. pr\<lparr>kernel_esp := kernel_stack_ptr,
           p_name := strncpy_bytes (umem s7) name PROCESS_NAME_CAP,
           p_priority := priority, p_state := PROCESS_SCHED\<rparr>) s7)"

definition process_alloc ::
    "blocks \<Rightarrow> ptr \<Rightarrow> u32 \<Rightarrow> int \<Rightarrow> ptr \<Rightarrow> u32 \<Rightarrow> kernel \<Rightarrow> (kernel, ptr) outcome" where
  "process_alloc b entry ssize priority name arg s =
     (if id_pool_empty (process_id_pool s) then Done NULL s
      else if unat ssize + (4 * 2 + 4 * 32) \<ge> 2 ^ 32 then Done NULL s
      else let process = process_block b in
      if process = NULL then Done NULL s
      else let s1 = s\<lparr>heap := insert process (heap s)\<rparr> in
      if kernel_stack_block b = NULL then Done NULL (s1\<lparr>heap := heap s1 - {process}\<rparr>)
      else let s2 = s1\<lparr>heap := insert (kernel_stack_block b) (heap s1)\<rparr> in
      if user_stack_block b = NULL
      then Done NULL (s2\<lparr>heap := heap s2 - {process} - {kernel_stack_block b}\<rparr>)
      else
        let s3 = s2\<lparr>user_stacks := insert (user_stack_block b) (user_stacks s2)\<rparr>;
            s8 = process_init b entry (ssize + (4 * 2 + 4 * 32)) priority name arg s3
        in bindK (process_sched_ring_insert process s8) (\<lambda>_ s9.
             let (n, pool) = id_pool_alloc (process_id_pool s9);
                 s10 = upd_proc process (p_pid_update (\<lambda>_. n)) (s9\<lparr>process_id_pool := pool\<rparr>)
             in Done process (s10\<lparr>process_pool := (process_pool s10)(n := process)\<rparr>)))"

text \<open>
  The pointer \<open>child_ptr\<close> of \<open>process_free\<close> points to the head of the children (\<open>None\<close>), or to the
  \<open>sibling\<close> field of a process.
\<close>

definition child_link :: "kernel \<Rightarrow> ptr \<Rightarrow> ptr option \<Rightarrow> ptr" where
  "child_link s parent l =
     (case l of None \<Rightarrow> p_child (proc s parent) | Some p \<Rightarrow> p_sibling (proc s p))"

definition set_child_link :: "ptr \<Rightarrow> ptr option \<Rightarrow> ptr \<Rightarrow> kernel \<Rightarrow> kernel" where
  "set_child_link parent l v s = (case l of
     None \<Rightarrow> upd_proc parent (p_child_update (\<lambda>_. v)) s
   | Some p \<Rightarrow> upd_proc p (p_sibling_update (\<lambda>_. v)) s)"

partial_function (option) unlink_loop :: "ptr \<Rightarrow> ptr \<Rightarrow> ptr option \<Rightarrow> kernel \<Rightarrow> kernel option" where
  "unlink_loop process parent child_ptr s =
     (if child_link s parent child_ptr \<noteq> NULL then
        (if child_link s parent child_ptr = process
         then Some (set_child_link parent child_ptr (p_sibling (proc s process)) s)
         else unlink_loop process parent (Some (child_link s parent child_ptr)) s)
      else Some s)"

partial_function (option) orphan_loop :: "ptr \<Rightarrow> kernel \<Rightarrow> kernel option" where
  "orphan_loop child s =
     (if child \<noteq> NULL then
        (let s1 = upd_proc child (p_parent_update (\<lambda>_. NULL)) s
         in orphan_loop (p_sibling (proc s1 child)) s1)
      else Some s)"

text \<open>
  \<open>process_free\<close>. The two accesses to \<open>process\<close> after its own \<open>kfree\<close> read memory that is free
  but not written yet.
\<close>

definition process_free :: "ptr \<Rightarrow> kernel \<Rightarrow> (kernel, unit) outcome" where
  "process_free process s =
     (if p_state (proc s process) \<noteq> PROCESS_ZOMBIE
      then Panic ''process_free(...): process->state not ZOMBIE''
      else
        let parent = p_parent (proc s process) in
        case (if parent \<noteq> NULL then unlink_loop process parent None s else Some s) of
          None \<Rightarrow> Hang
        | Some s1 \<Rightarrow> (case orphan_loop (p_child (proc s1 process)) s1 of
            None \<Rightarrow> Hang
          | Some s2 \<Rightarrow>
              let n = p_pid (proc s2 process);
                  s3 = s2\<lparr>process_pool := (process_pool s2)(n := NULL)\<rparr>;
                  s4 = s3\<lparr>process_id_pool := id_pool_free (process_id_pool s3) n\<rparr>;
                  s5 = s4\<lparr>heap := heap s4 - {process}\<rparr>;
                  s6 = s5\<lparr>heap := heap s5 - {kernel_stack (proc s5 process)}\<rparr>
              in Done () (s6\<lparr>user_stacks := user_stacks s6 - {stack (proc s6 process)}\<rparr>)))"

definition process_from_pid :: "kernel \<Rightarrow> int \<Rightarrow> ptr" where
  "process_from_pid s n =
     (if n < 0 \<or> n \<ge> int PROCESS_POOL_CAP then NULL else process_pool s n)"

section \<open>Killing\<close>

text \<open>The parent that waits for \<open>process\<close> is made ready; the result is \<open>next_process\<close>.\<close>

definition kill_wake_parent :: "ptr \<Rightarrow> bool \<Rightarrow> kernel \<Rightarrow> (kernel, ptr) outcome" where
  "kill_wake_parent process wake_parent s =
     (let parent = p_parent (proc s process) in
      if wake_parent \<and> parent \<noteq> NULL \<and> p_state (proc s parent) = PROCESS_WAIT_CHILD
         \<and> (child_pid (proc s parent) < 0 \<or> child_pid (proc s parent) = p_pid (proc s process))
      then
        let s1 = upd_proc parent (set_state PROCESS_SCHED) s;
            s2 = upd_proc parent (u2_update (\<lambda>_. process)) s1
        in bindK (process_sched_ring_insert parent s2) (\<lambda>_ s3.
             Done (if p_priority (proc s3 parent) > p_priority (proc s3 process)
                   then parent else NULL) s3)
      else Done NULL s)"

text \<open>The process is removed from whatever list its state puts it in.\<close>

definition kill_unlink :: "ptr \<Rightarrow> ptr \<Rightarrow> kernel \<Rightarrow> (kernel, ptr) outcome" where
  "kill_unlink process next_process s = (case p_state (proc s process) of
     PROCESS_SCHED \<Rightarrow> bindK (process_sched_ring_remove process s) (\<lambda>next_ring_process s1.
       Done (if next_process = NULL then next_ring_process else next_process) s1)
   | PROCESS_WAIT_TIME \<Rightarrow> bindK (process_time_queue_remove process s) (\<lambda>_ s1. Done next_process s1)
   | PROCESS_WAIT_QUEUE \<Rightarrow> Done next_process (process_queue_kill_process process s)
   | PROCESS_WAIT_CONS_READ \<Rightarrow>
       bindK (process_cons_read_kill_process process s) (\<lambda>_ s1. Done next_process s1)
   | PROCESS_WAIT_CHILD \<Rightarrow> Done next_process s
   | PROCESS_ZOMBIE \<Rightarrow> Panic ''process_internal_kill(...): unsupported state when killing'')"

text \<open>The end of \<open>process_internal_kill\<close>, after the loop over the children.\<close>

definition kill_finish :: "ptr \<Rightarrow> int \<Rightarrow> ptr \<Rightarrow> kernel \<Rightarrow> (kernel, unit) outcome" where
  "kill_finish process code next_process s =
     (let s1 = upd_proc process (p_child_update (\<lambda>_. NULL)) s;
          s2 = upd_proc process (set_state PROCESS_ZOMBIE) s1;
          s3 = upd_proc process (set_u0 (word_of_int code)) s2
      in if process = process_active s3 then process_sched_advance next_process s3 else Done () s3)"

text \<open>
  \<open>process_internal_kill\<close> calls itself for every child that is not a zombie; \<open>kill_children\<close> is the
  loop over the children, with the local variables \<open>next_process\<close> and \<open>child_process\<close>. The fuel
  bounds the depth of the calls plus the number of siblings; \<open>None\<close> is running out of it. The
  next child is read from the structure that was just freed, as in the code.
\<close>

fun process_internal_kill :: "nat \<Rightarrow> ptr \<Rightarrow> int \<Rightarrow> bool \<Rightarrow> kernel \<Rightarrow> (kernel, unit) outcome option"
and kill_children :: "nat \<Rightarrow> ptr \<Rightarrow> int \<Rightarrow> ptr \<Rightarrow> ptr \<Rightarrow> kernel \<Rightarrow> (kernel, unit) outcome option" where
  "process_internal_kill 0 process code wake_parent s = None"
| "process_internal_kill (Suc f) process code wake_parent s =
     (case bindK (kill_wake_parent process wake_parent s) (kill_unlink process) of
        Done next_process s1 \<Rightarrow>
          (case kill_children f process code next_process (p_child (proc s1 process)) s1 of
             None \<Rightarrow> None
           | Some m \<Rightarrow> Some (bindK m (\<lambda>_ s2. kill_finish process code next_process s2)))
      | Switched s1 \<Rightarrow> Some (Switched s1)
      | Panic e \<Rightarrow> Some (Panic e)
      | Hang \<Rightarrow> Some Hang)"
| "kill_children 0 process code next_process child s = None"
| "kill_children (Suc f) process code next_process child s =
     (if child \<noteq> NULL then
        (case (if p_state (proc s child) \<noteq> PROCESS_ZOMBIE
               then process_internal_kill f child 0 False s else Some (Done () s)) of
           None \<Rightarrow> None
         | Some m \<Rightarrow>
             (case calling s (Fr_kill process code next_process child) m
                     (\<lambda>_ s1. process_free child s1) of
                Done _ s2 \<Rightarrow> kill_children f process code next_process (p_sibling (proc s2 child)) s2
              | Switched s2 \<Rightarrow> Some (Switched s2)
              | Panic e \<Rightarrow> Some (Panic e)
              | Hang \<Rightarrow> Some Hang))
      else Some (Done () s))"

text \<open>At most \<open>PROCESS_POOL_CAP\<close> processes exist, so no chain of calls and siblings is longer.\<close>

definition kill_fuel :: nat where "kill_fuel = 4 * PROCESS_POOL_CAP"

definition kill_process :: "ptr \<Rightarrow> int \<Rightarrow> kernel \<Rightarrow> (kernel, unit) outcome" where
  "kill_process process code s = or_hang (process_internal_kill kill_fuel process code True s)"

section \<open>System calls\<close>

definition process_internal_exit :: "int \<Rightarrow> kernel \<Rightarrow> (kernel, int) outcome" where
  "process_internal_exit code s =
     (if p_pid (proc s (process_active s)) = 0 then Panic ''Idle has exited, shutting down...''
      else calling s Fr_exit (kill_process (process_active s) code s) (\<lambda>_ s1. Hang))"

definition process_exit :: "int \<Rightarrow> kernel \<Rightarrow> (kernel, int) outcome" where
  "process_exit code s = process_internal_exit code s"

definition process_idle :: "blocks \<Rightarrow> ptr \<Rightarrow> u32 \<Rightarrow> ptr \<Rightarrow> u32 \<Rightarrow> kernel \<Rightarrow> (kernel, unit) outcome" where
  "process_idle b entry ssize idle_name arg s =
     bindK (process_alloc b entry ssize 0 idle_name arg s) (\<lambda>process s1.
       let s2 = s1\<lparr>process_active := process\<rparr>;
           s3 = upd_proc process (\<lambda>pr. pr\<lparr>p_parent := NULL, p_child := NULL, p_sibling := NULL\<rparr>) s2;
           s4 = s3\<lparr>pit_handler_set := True\<rparr>
       in process_context_switch NULL (process_active s4) s4)"

definition process_start ::
    "blocks \<Rightarrow> ptr \<Rightarrow> u32 \<Rightarrow> int \<Rightarrow> ptr \<Rightarrow> u32 \<Rightarrow> kernel \<Rightarrow> (kernel, int) outcome" where
  "process_start b entry ssize priority name arg s =
     (if process_active s = NULL then Done (-1) s
      else if priority < 0 \<or> priority \<ge> PROCESS_MAX_PRIORITY then Done (-1) s
      else if \<not> process_check_user_ptr s name then Done (-1) s
      else bindK (process_alloc b entry ssize priority name arg s) (\<lambda>process s1.
        if process = NULL then Done (-1) s1
        else
          let p = process_active s1;
              s2 = upd_proc process (p_parent_update (\<lambda>_. p)) s1;
              s3 = upd_proc process (p_child_update (\<lambda>_. NULL)) s2;
              s4 = upd_proc process (p_sibling_update (\<lambda>_. p_child (proc s3 p))) s3;
              s5 = upd_proc p (p_child_update (\<lambda>_. process)) s4
          in if p_priority (proc s5 process) > p_priority (proc s5 (process_active s5))
             then calling s5 (Fr_start process) (process_sched_advance process s5)
                    (\<lambda>_ s6. Done (p_pid (proc s6 process)) s6)
             else Done (p_pid (proc s5 process)) s5))"

definition process_pid :: "kernel \<Rightarrow> (kernel, int) outcome" where
  "process_pid s = Done (p_pid (proc s (process_active s))) s"

definition process_priority :: "int \<Rightarrow> kernel \<Rightarrow> (kernel, int) outcome" where
  "process_priority n s =
     (let process = process_from_pid s n
      in Done (if process = NULL then -1 else p_priority (proc s process)) s)"

definition process_set_priority :: "int \<Rightarrow> int \<Rightarrow> kernel \<Rightarrow> (kernel, int) outcome" where
  "process_set_priority n priority s =
     (if priority < 0 \<or> priority \<ge> PROCESS_MAX_PRIORITY then Done (-1) s
      else
        let process = process_from_pid s n in
        if process = NULL \<or> p_state (proc s process) = PROCESS_ZOMBIE then Done (-1) s
        else
          let prev_priority = p_priority (proc s process) in
          if priority = prev_priority then Done prev_priority s
          else if p_state (proc s process) = PROCESS_SCHED then
            calling s (Fr_return prev_priority) (process_sched_set_priority process priority s)
              (\<lambda>_ s1. Done prev_priority s1)
          else if p_state (proc s process) = PROCESS_WAIT_QUEUE then
            Done prev_priority (process_queue_set_priority process priority s)
          else Done prev_priority (upd_proc process (p_priority_update (\<lambda>_. priority)) s))"

partial_function (option) find_child :: "kernel \<Rightarrow> int \<Rightarrow> ptr \<Rightarrow> ptr option" where
  "find_child s n child =
     (if child \<noteq> NULL then
        (if n < 0 \<and> p_state (proc s child) = PROCESS_ZOMBIE then Some child
         else if n = p_pid (proc s child) then Some child
         else find_child s n (p_sibling (proc s child)))
      else Some NULL)"

text \<open>The end of \<open>process_wait\<close>. The result is read from the freed structure.\<close>

definition wait_finish :: "ptr \<Rightarrow> ptr \<Rightarrow> kernel \<Rightarrow> (kernel, int) outcome" where
  "wait_finish code_ptr child s =
     bindK (process_free child (put_user_int code_ptr (exit_code (proc s child)) s))
       (\<lambda>_ s1. Done (p_pid (proc s1 child)) s1)"

definition process_wait :: "int \<Rightarrow> ptr \<Rightarrow> kernel \<Rightarrow> (kernel, int) outcome" where
  "process_wait n code_ptr s =
     (if p_child (proc s (process_active s)) = NULL then Done (-1) s
      else if code_ptr \<noteq> NULL \<and> \<not> process_check_user_ptr s code_ptr then Done (-1) s
      else case find_child s n (p_child (proc s (process_active s))) of
        None \<Rightarrow> Hang
      | Some child \<Rightarrow>
          if child = NULL \<and> n \<ge> 0 then Done (-1) s
          else if child = NULL \<or> p_state (proc s child) \<noteq> PROCESS_ZOMBIE then
            bindK (process_sched_ring_remove (process_active s) s) (\<lambda>next_process s1.
              let s2 = upd_proc (process_active s1) (set_state PROCESS_WAIT_CHILD) s1;
                  s3 = upd_proc (process_active s2) (set_u0 (word_of_int n)) s2
              in calling s3 (Fr_wait code_ptr) (process_sched_advance next_process s3)
                   (\<lambda>_ s4. wait_finish code_ptr (new_zombie_child (proc s4 (process_active s4))) s4))
          else wait_finish code_ptr child s)"

definition process_kill :: "int \<Rightarrow> kernel \<Rightarrow> (kernel, int) outcome" where
  "process_kill n s =
     (if n = 0 then Done (-1) s
      else if n = p_pid (proc s (process_active s)) then process_internal_exit 0 s
      else
        let process = process_from_pid s n in
        if process = NULL \<or> p_state (proc s process) = PROCESS_ZOMBIE then Done (-1) s
        else calling s (Fr_return 0) (kill_process process 0 s) (\<lambda>_ s1. Done 0 s1))"

text \<open>
  \<open>strlen(process->name)\<close>: a name without a null byte runs into the four bytes of \<open>priority\<close>,
  which follow it in the structure and are not all zero-free, as a priority is below 256.
\<close>

definition name_bytes :: "process \<Rightarrow> u8 list" where
  "name_bytes pr = p_name pr @ map (\<lambda>i. ucast (drop_bit (8 * i) (word_of_int (p_priority pr) :: u32)))
     [0, 1, 2, 3]"

definition process_name :: "int \<Rightarrow> ptr \<Rightarrow> int \<Rightarrow> kernel \<Rightarrow> (kernel, int) outcome" where
  "process_name n dst count s =
     (if dst \<noteq> NULL \<and> count < 0 then Done (-1) s
      else
        let process = process_from_pid s n in
        if process = NULL then Done (-1) s
        else
          let src = name_bytes (proc s process);
              name_len = int (length (takeWhile (\<lambda>c. c \<noteq> 0) src)) + 1;
              m = unat (word_of_int (if count \<le> name_len then count else name_len) :: u32);
              text = takeWhile (\<lambda>c. c \<noteq> 0) (take m src)
          in Done name_len (s\<lparr>umem :=
               store_bytes (umem s) dst (text @ replicate (m - length text) 0)\<rparr>))"

text \<open>The loop of \<open>process_children\<close>, with its variables \<open>count\<close> and \<open>total_count\<close>.\<close>

partial_function (option) children_loop ::
    "ptr \<Rightarrow> ptr \<Rightarrow> int \<Rightarrow> u32 \<Rightarrow> kernel \<Rightarrow> (u32 \<times> kernel) option" where
  "children_loop children_pids child count total_count s =
     (if child \<noteq> NULL then
        (if count > 0 \<and> children_pids \<noteq> NULL
         then children_loop children_pids (p_sibling (proc s child)) (count - 1) (total_count + 1)
                (put_user_int (children_pids + 4 * total_count) (p_pid (proc s child)) s)
         else children_loop children_pids (p_sibling (proc s child)) count (total_count + 1) s)
      else Some (total_count, s))"

definition process_children :: "int \<Rightarrow> ptr \<Rightarrow> int \<Rightarrow> kernel \<Rightarrow> (kernel, int) outcome" where
  "process_children n children_pids count s =
     (if children_pids \<noteq> NULL \<and> count < 0 then Done (-1) s
      else if children_pids \<noteq> NULL \<and> \<not> process_check_user_ptr s children_pids then Done (-1) s
      else
        let process = process_from_pid s n in
        if process = NULL then Done (-1) s
        else case children_loop children_pids (p_child (proc s process)) count 0 s of
          None \<Rightarrow> Hang
        | Some (total_count, s1) \<Rightarrow> Done (sint total_count) s1)"

fun state_number :: "process_state \<Rightarrow> int" where
  "state_number PROCESS_SCHED = 0"
| "state_number PROCESS_WAIT_CHILD = 1"
| "state_number PROCESS_WAIT_TIME = 2"
| "state_number PROCESS_WAIT_QUEUE = 3"
| "state_number PROCESS_WAIT_CONS_READ = 4"
| "state_number PROCESS_ZOMBIE = 5"

definition process_state_of :: "int \<Rightarrow> kernel \<Rightarrow> (kernel, int) outcome" where
  "process_state_of n s =
     (let process = process_from_pid s n
      in Done (if process = NULL then -1
               else if process_active s = process then 0
               else state_number (p_state (proc s process)) + 1) s)"

end
