(* ===== verification/Lifecycle_Facts.thy ===== *)
theory Lifecycle_Facts
  imports Lifecycle
begin

text \<open>
  What starting, exiting, waiting and killing do to the scheduler, the identifiers and the family
  of the processes.
\<close>

section \<open>Starting a process\<close>

lemma process_init_fields [simp]:
  fixes b entry ssize priority name arg s
  defines "s' \<equiv> process_init b entry ssize priority name arg s" and "p \<equiv> process_block b"
  shows "q \<noteq> p \<Longrightarrow> proc s' q = proc s q" "p_priority (proc s' p) = priority"
    "p_state (proc s' p) = PROCESS_SCHED" "kernel_stack (proc s' p) = kernel_stack_block b"
    "process_sched_rings s' = process_sched_rings s" "process_active s' = process_active s"
    "process_id_pool s' = process_id_pool s" "process_pool s' = process_pool s"
    "queue s' = queue s" "clock_wait_head s' = clock_wait_head s"
    "cons_read_wait_head s' = cons_read_wait_head s" "heap s' = heap s"
    "user_stacks s' = user_stacks s" "queue_pool s' = queue_pool s"
    "queue_id_pool s' = queue_id_pool s" "kbd s' = kbd s"
    "frames s' = (frames s)(p := [Fr_startup])"
  by (simp_all add: s'_def p_def process_init_def Let_def)

lemma sched_repr_init:
  assumes "sched_repr s R" "off_rings R (process_block b)"
  shows "sched_repr (process_init b entry ssize priority name arg s) R"
proof (rule sched_repr_same [OF assms(1)])
  fix k q assume "q \<in> set (R k)"
  then have "q \<noteq> process_block b" using assms(2) by auto
  then show "proc (process_init b entry ssize priority name arg s) q = proc s q" by simp
qed simp

text \<open>\<open>allocatable s b ssize\<close>: no allocation fails, and the new block is not in use.\<close>

definition allocatable :: "kernel \<Rightarrow> blocks \<Rightarrow> u32 \<Rightarrow> bool" where
  "allocatable s b ssize \<longleftrightarrow> \<not> id_pool_empty (process_id_pool s) \<and> unat ssize + 136 < 2 ^ 32
     \<and> process_block b \<noteq> NULL \<and> kernel_stack_block b \<noteq> NULL \<and> user_stack_block b \<noteq> NULL"

lemma id_pool_alloc_cap: "id_pool_alloc pool = (n, pool') \<Longrightarrow> id_pool_cap pool' = id_pool_cap pool"
  by (auto simp: id_pool_alloc_def id_pool_pop_new_def id_pool_pop_free_def id_pool_cap_def Let_def
      split: if_splits option.splits)

lemma process_alloc_repr:
  assumes r: "sched_repr s R" and a: "allocatable s b ssize" and off: "off_rings R (process_block b)"
    and ids: "pool_ids (process_id_pool s) U" and tab: "table_ids (process_pool s) U"
  defines "p \<equiv> process_block b"
  shows "\<exists>s' n. process_alloc b entry ssize priority name arg s = Done p s'
    \<and> sched_repr s' (R(priority := p # R priority)) \<and> process_active s' = process_active s
    \<and> n \<notin> U \<and> p_pid (proc s' p) = n \<and> process_pool s' = (process_pool s)(n := p)
    \<and> pool_ids (process_id_pool s') (insert n U)
    \<and> p_priority (proc s' p) = priority \<and> frames s' = (frames s)(p := [Fr_startup])
    \<and> heap s' = heap s \<union> {p, kernel_stack_block b} \<and> kernel_stack (proc s' p) = kernel_stack_block b
    \<and> (\<forall>q. q \<noteq> p \<longrightarrow> steady (proc s q) (proc s' q) \<and> p_state (proc s' q) = p_state (proc s q)
        \<and> u2 (proc s' q) = u2 (proc s q))
    \<and> spares R {p} {} (s\<lparr>process_id_pool := process_id_pool s', process_pool := process_pool s'\<rparr>) s'
    \<and> id_pool_cap (process_id_pool s') = id_pool_cap (process_id_pool s)"
proof -
  have nn: "p \<noteq> NULL" "kernel_stack_block b \<noteq> NULL" "user_stack_block b \<noteq> NULL"
    and room: "\<not> id_pool_empty (process_id_pool s)" "unat ssize + 136 < 2 ^ 32"
    using a by (auto simp: allocatable_def p_def)
  define s3 where "s3 = s\<lparr>heap := insert (kernel_stack_block b) (insert p (heap s)),
      user_stacks := insert (user_stack_block b) (user_stacks s)\<rparr>"
  define s8 where "s8 = process_init b entry (ssize + (4 * 2 + 4 * 32)) priority name arg s3"
  have r8: "sched_repr s8 R"
    unfolding s8_def using r off by (intro sched_repr_init) (simp_all add: s3_def)
  have p8: "p_state (proc s8 p) = PROCESS_SCHED" "priority = p_priority (proc s8 p)"
    by (simp_all add: s8_def p_def)
  have "p \<notin> set (R priority)" using off by (simp add: p_def)
  from ring_insert_repr [OF r8 p8(1) nn(1) this p8(2)] obtain s9 where
    s9: "process_sched_ring_insert p s8 = Done () s9" "sched_repr s9 (R(priority := p # R priority))"
      "relinked (insert p (set (R priority))) s8 s9" by blast
  obtain n pool where alloc: "id_pool_alloc (process_id_pool s) = (n, pool)" by fastforce
  have k9: "process_id_pool s9 = process_id_pool s" "process_pool s9 = process_pool s"
    "process_active s9 = process_active s" "frames s9 = (frames s)(p := [Fr_startup])"
    "heap s9 = heap s \<union> {p, kernel_stack_block b}"
    using relinked_kernel [OF s9(3)] by (auto simp: s8_def s3_def p_def)
  have u9: "queue s9 = queue s" "clock_wait_head s9 = clock_wait_head s"
    "cons_read_wait_head s9 = cons_read_wait_head s" "queue_pool s9 = queue_pool s"
    "queue_id_pool s9 = queue_id_pool s" "kbd s9 = kbd s"
    using relinked_kernel [OF s9(3)] by (simp_all add: s8_def s3_def) (subst relinked_eqs(2) [OF s9(3)], simp add: s8_def s3_def)
  define s' where "s' = (upd_proc p (p_pid_update (\<lambda>_. n)) (s9\<lparr>process_id_pool := pool\<rparr>))
      \<lparr>process_pool := (process_pool s)(n := p)\<rparr>"
  have "process_alloc b entry ssize priority name arg s = Done p s'"
    using nn room s9(1) alloc k9
    by (simp add: process_alloc_def Let_def p_def [symmetric] s8_def s3_def s'_def)
  moreover have "sched_repr s' (R(priority := p # R priority))"
  proof (rule sched_repr_cong [OF s9(2)])
    fix k q assume "q \<in> set ((R(priority := p # R priority)) k)"
    show "link0 s' q = link0 s9 q \<and> link1 s' q = link1 s9 q \<and>
      p_state (proc s' q) = p_state (proc s9 q) \<and> p_priority (proc s' q) = p_priority (proc s9 q)"
      by (cases "q = p") (auto simp: s'_def link0_def link1_def)
  qed (simp add: s'_def)
  moreover have "n \<notin> U" "pool_ids pool (insert n U)"
    using pid_pool.table_alloc [OF ids tab room(1) alloc nn(1)] pool_alloc [OF ids room(1) alloc] by auto
  moreover have "p_priority (proc s' p) = priority" "kernel_stack (proc s' p) = kernel_stack_block b"
    using relinked_fields [OF s9(3), of p] by (simp_all add: s'_def s8_def p_def)
  moreover have "steady (proc s q) (proc s' q) \<and> p_state (proc s' q) = p_state (proc s q)
      \<and> u2 (proc s' q) = u2 (proc s q)" if "q \<noteq> p" for q
    using relinked_fields [OF s9(3), of q] that by (simp add: s'_def s8_def p_def s3_def steady_def)
  moreover have "proc s' q = proc s q" if "q \<noteq> p" "off_rings R q" for q
    using relinked_outside [OF s9(3), of q] that by (simp add: s'_def s8_def p_def s3_def)
  then have "spares R {p} {} (s\<lparr>process_id_pool := process_id_pool s', process_pool := process_pool s'\<rparr>) s'"
    by (simp add: spares_def) (simp add: s'_def u9)
  ultimately show ?thesis
    using k9 id_pool_alloc_cap [OF alloc] by (intro exI [of _ s'] exI [of _ n]) (simp add: s'_def)
qed

text \<open>The value of a call that may be interrupted by a switch, with the frame that returns it.\<close>

definition returns :: "kernel \<Rightarrow> frame \<Rightarrow> int \<Rightarrow> (kernel, int) outcome \<Rightarrow> kernel \<Rightarrow> bool" where
  "returns s fr v m s' \<longleftrightarrow> m = Done v s' \<or> m = Switched s' \<and> frames s' (process_active s) = [fr]"

lemma start_repr:
  assumes h: "runs_highest s R" and a: "allocatable s b ssize" and off: "off_rings R (process_block b)"
    and ids: "pool_ids (process_id_pool s) U" and tab: "table_ids (process_pool s) U"
    and prio: "0 \<le> priority" "priority < PROCESS_MAX_PRIORITY"
    and name: "process_check_user_ptr s name"
  defines "p \<equiv> process_block b" and "q \<equiv> process_active s"
  shows "\<exists>s' n. returns s (Fr_start p) n (process_start b entry ssize priority name arg s) s'
    \<and> runs_highest s' (R(priority := p # R priority))
    \<and> n \<notin> U \<and> p_pid (proc s' p) = n \<and> process_pool s' n = p
    \<and> pool_ids (process_id_pool s') (insert n U) \<and> table_ids (process_pool s') (insert n U)
    \<and> p_parent (proc s' p) = q \<and> p_child (proc s' p) = NULL
    \<and> p_sibling (proc s' p) = p_child (proc s q) \<and> p_child (proc s' q) = p
    \<and> frames s' p = [Fr_startup]
    \<and> process_pool s' = (process_pool s)(n := p)
    \<and> p_state (proc s' p) = PROCESS_SCHED
    \<and> spares R {p} {} (s\<lparr>process_id_pool := process_id_pool s', process_pool := process_pool s'\<rparr>) s'
    \<and> suspends (s\<lparr>frames := (frames s)(p := [Fr_startup])\<rparr>) [Fr_start p] s'
    \<and> (process_start b entry ssize priority name arg s = Done n s' \<longrightarrow>
        process_active s' = q \<and> frames s' = (frames s)(p := [Fr_startup]))
    \<and> id_pool_cap (process_id_pool s') = id_pool_cap (process_id_pool s)
    \<and> (\<forall>x. x \<noteq> p \<longrightarrow> p_state (proc s' x) = p_state (proc s x) \<and> u2 (proc s' x) = u2 (proc s x)
        \<and> p_parent (proc s' x) = p_parent (proc s x) \<and> p_sibling (proc s' x) = p_sibling (proc s x)
        \<and> p_pid (proc s' x) = p_pid (proc s x) \<and> (x \<noteq> q \<longrightarrow> p_child (proc s' x) = p_child (proc s x)))"
proof -
  let ?R = "R(priority := p # R priority)"
  from process_alloc_repr [OF runs_highestD(1) [OF h] a off ids tab,
      where entry = entry and priority = priority and name = name and arg = arg]
  obtain s1 n where
    s1: "process_alloc b entry ssize priority name arg s = Done p s1" "sched_repr s1 ?R"
      "process_active s1 = q" "n \<notin> U" "p_pid (proc s1 p) = n" "process_pool s1 = (process_pool s)(n := p)"
      "pool_ids (process_id_pool s1) (insert n U)" "p_priority (proc s1 p) = priority"
      "frames s1 = (frames s)(p := [Fr_startup])"
      "\<forall>x. x \<noteq> p \<longrightarrow> steady (proc s x) (proc s1 x) \<and> p_state (proc s1 x) = p_state (proc s x)
        \<and> u2 (proc s1 x) = u2 (proc s x)"
      "spares R {p} {} (s\<lparr>process_id_pool := process_id_pool s1, process_pool := process_pool s1\<rparr>) s1"
      "id_pool_cap (process_id_pool s1) = id_pool_cap (process_id_pool s)"
    unfolding p_def [symmetric] q_def [symmetric] by blast
  have nn: "p \<noteq> NULL" using a by (simp add: allocatable_def p_def)
  have qn: "q \<noteq> NULL" "q \<noteq> p"
    using runs_highestD(2,4) [OF h] off off_ringsD by (auto simp: p_def q_def)
  define s5 where "s5 = upd_proc q (p_child_update (\<lambda>_. p)) (upd_proc p (\<lambda>x. x\<lparr>p_parent := q,
      p_child := NULL, p_sibling := p_child (proc s q)\<rparr>) s1)"
  have sq: "p_child (proc s1 q) = p_child (proc s q)" "p_priority (proc s1 q) = p_priority (proc s q)"
    using s1(10) qn by (auto simp: steady_def)
  have r5: "sched_repr s5 ?R"
  proof (rule sched_repr_cong [OF s1(2)])
    fix x
    show "link0 s5 x = link0 s1 x \<and> link1 s5 x = link1 s1 x \<and>
      p_state (proc s5 x) = p_state (proc s1 x) \<and> p_priority (proc s5 x) = p_priority (proc s1 x)"
      by (cases "x = p"; cases "x = q") (auto simp: s5_def link0_def link1_def)
  qed (simp add: s5_def)
  have pr5: "p_priority (proc s5 p) = priority" "p_priority (proc s5 q) = p_priority (proc s q)"
    using s1(8) sq qn by (simp_all add: s5_def)
  have a5: "process_active s5 = q" using s1(3) by (simp add: s5_def)
  have eq: "process_start b entry ssize priority name arg s =
      (if priority > p_priority (proc s q)
       then calling s5 (Fr_start p) (process_sched_advance p s5) (\<lambda>_ s6. Done (p_pid (proc s6 p)) s6)
       else Done (p_pid (proc s5 p)) s5)"
    using prio name s1(1,3) nn qn sq pr5 a5
    by (simp add: process_start_def Let_def q_def [symmetric] upd_proc_twice s5_def)
  have p5: "p \<in> set (?R priority)" by simp
  have adv: "process_sched_advance p s5 = Switched (switched p s5)"
    using advance_to [OF nn sched_reprD(5) [OF r5 p5]] a5 qn by (simp add: run_outcome_def)
  have facts: "p_pid (proc s5 p) = n" "process_pool s5 n = p" "p_parent (proc s5 p) = q"
    "p_child (proc s5 p) = NULL" "p_sibling (proc s5 p) = p_child (proc s q)"
    "p_child (proc s5 q) = p" "frames s5 p = [Fr_startup]"
    "pool_ids (process_id_pool s5) (insert n U)" "table_ids (process_pool s5) (insert n U)"
    using s1 qn tab nn by (auto simp: s5_def table_ids_def)
  let ?b = "s\<lparr>process_id_pool := process_id_pool s1, process_pool := process_pool s1\<rparr>"
  have "proc s5 x = proc s1 x" if "x \<notin> {p}" "off_rings R x" for x
  proof -
    have "x \<noteq> q" using that(2) runs_highestD(2) [OF h] off_ringsD by (auto simp: q_def)
    then show ?thesis using that(1) by (simp add: s5_def)
  qed
  then have sp5: "spares R {p} {} ?b s5" using s1(11) by (simp add: spares_def) (simp add: s5_def)
  have oth: "p_state (proc s5 x) = p_state (proc s x) \<and> u2 (proc s5 x) = u2 (proc s x)
        \<and> p_parent (proc s5 x) = p_parent (proc s x) \<and> p_sibling (proc s5 x) = p_sibling (proc s x)
        \<and> p_pid (proc s5 x) = p_pid (proc s x) \<and> (x \<noteq> q \<longrightarrow> p_child (proc s5 x) = p_child (proc s x))"
    if "x \<noteq> p" for x
    using s1(10) that by (cases "x = q") (simp_all add: s5_def steady_def)
  have st5: "p_state (proc s5 p) = PROCESS_SCHED" by (rule sched_reprD(5) [OF r5 p5])
  have pools: "process_id_pool s5 = process_id_pool s1" "process_pool s5 = process_pool s1"
    "frames s5 = (frames s)(p := [Fr_startup])"
    using s1(9) by (simp_all add: s5_def)
  have aq: "q \<in> set (?R (p_priority (proc s q)))" using runs_highestD(2) [OF h] by (auto simp: q_def)
  show ?thesis
  proof (cases "priority > p_priority (proc s q)")
    case True
    let ?t = "switched p s5"
    let ?s = "?t\<lparr>frames := (frames ?t)(q := frames ?t q @ [Fr_start p])\<rparr>"
    have "j \<le> priority \<and> 0 \<le> j" if "?R j \<noteq> []" for j
      using that runs_highestD(3) [OF h, of j] True prio by (auto simp: q_def split: if_splits)
    then have "ends_highest (run_outcome p s5) ?R"
      using prio by (intro ends_highest_run [OF r5 p5]) auto
    then have "runs_highest ?t ?R" using a5 qn by (simp add: run_outcome_def ends_highest_def)
    moreover have "frames ?t q = []" "frames ?t p = [Fr_startup]"
      using a5 qn facts by (simp_all add: switched_def)
    moreover have "spares R {p} {} ?b ?s" using sp5 by (simp add: spares_def)
    moreover have "suspends (s\<lparr>frames := (frames s)(p := [Fr_startup])\<rparr>) [Fr_start p] ?s"
      using a5 pools qn by (simp add: suspends_def switched_def q_def)
    ultimately show ?thesis using eq True adv a5 facts qn s1(4,6,12) st5 pools oth
      by (intro exI [of _ ?s] exI [of _ n]) (simp add: returns_def q_def)
  next
    case False
    have "runs_highest s5 ?R"
    proof (rule runs_highest_stay [OF h r5])
      show "process_active s5 = process_active s" using a5 by (simp add: q_def)
      show "R j \<noteq> [] \<or> 0 \<le> j \<and> j \<le> p_priority (proc s (process_active s))" if "?R j \<noteq> []" for j
        using that False prio by (auto simp: q_def split: if_splits)
    qed (use aq in \<open>auto simp: q_def\<close>)
    with eq False facts s1(4,6,12) oth st5 pools sp5 a5 show ?thesis
      by (intro exI [of _ s5] exI [of _ n]) (simp add: returns_def suspends_same)
  qed
qed

section \<open>Exiting\<close>

lemma kill_leaf:
  assumes "\<And>n s1. bindK (kill_wake_parent p w s) (kill_unlink p) = Done n s1
    \<Longrightarrow> p_child (proc s1 p) = NULL"
  shows "process_internal_kill (Suc (Suc f)) p code w s
    = Some (bindK (bindK (kill_wake_parent p w s) (kill_unlink p)) (kill_finish p code))"
proof (cases "bindK (kill_wake_parent p w s) (kill_unlink p)")
  case (Done n s1)
  with assms [OF this] show ?thesis by (simp add: Let_def)
qed simp_all

lemma kill_fuel_Suc: "kill_fuel = Suc (Suc 4094)"
  by (simp add: kill_fuel_def)

text \<open>\<open>parent_waits s p\<close>: the parent of \<open>p\<close> is blocked in a wait that \<open>p\<close> ends.\<close>

definition parent_waits :: "kernel \<Rightarrow> ptr \<Rightarrow> bool" where
  "parent_waits s p \<longleftrightarrow> p_parent (proc s p) \<noteq> NULL
     \<and> p_state (proc s (p_parent (proc s p))) = PROCESS_WAIT_CHILD
     \<and> (child_pid (proc s (p_parent (proc s p))) < 0
        \<or> child_pid (proc s (p_parent (proc s p))) = p_pid (proc s p))"

lemma kill_wake_parent_repr:
  assumes r: "sched_repr s R" and w: "parent_waits s p"
  defines "q \<equiv> p_parent (proc s p)"
  shows "\<exists>s'. kill_wake_parent p True s = Done (if p_priority (proc s q) > p_priority (proc s p)
      then q else NULL) s'
    \<and> sched_repr s' (ready_first s q R) \<and> kept s s' \<and> u2 (proc s' q) = p
    \<and> (\<forall>x. x \<noteq> q \<longrightarrow> p_state (proc s' x) = p_state (proc s x) \<and> u2 (proc s' x) = u2 (proc s x))
    \<and> (\<forall>x. x \<noteq> q \<and> off_rings R x \<longrightarrow> proc s' x = proc s x)"
proof -
  let ?f = "\<lambda>x. x\<lparr>p_state := PROCESS_SCHED, u2 := p\<rparr>"
  have f: "wakes ?f" by (simp add: wakes_def steady_def)
  have q: "q \<noteq> NULL" "off_rings R q"
    using w waiting_off_rings [OF r, of q] by (auto simp: parent_waits_def q_def)
  have st: "p_state (proc (upd_proc q ?f s) q) = PROCESS_SCHED" by simp
  from wake_one [OF r q f] obtain s' where
    s': "process_sched_ring_insert q (upd_proc q ?f s) = Done () s'" "sched_repr s' (ready_first s q R)"
      "kept s s'" "\<forall>x. x \<noteq> q \<and> off_rings R x \<longrightarrow> proc s' x = proc s x" "u2 (proc s' q) = p"
      "\<forall>x. x \<noteq> q \<longrightarrow> p_state (proc s' x) = p_state (proc s x) \<and> u2 (proc s' x) = u2 (proc s x)" by auto
  with s' w show ?thesis
    by (intro exI [of _ s'])
       (simp add: kill_wake_parent_def Let_def parent_waits_def q_def [symmetric] upd_proc_twice
          kept_fields [OF s'(3)])
qed

text \<open>The parent is woken if it waits for the process; \<open>woken s p\<close> are the processes that are woken.\<close>

definition woken :: "kernel \<Rightarrow> ptr \<Rightarrow> ptr list" where
  "woken s p = (if parent_waits s p then [p_parent (proc s p)] else [])"

lemma kill_wake_repr:
  fixes p :: ptr
  assumes r: "sched_repr s R"
  defines "ws \<equiv> woken s p" and "q \<equiv> p_parent (proc s p)"
  shows "\<exists>s'. kill_wake_parent p True s = Done (if ws \<noteq> [] \<and> p_priority (proc s q) > p_priority (proc s p)
      then q else NULL) s'
    \<and> sched_repr s' (wake_rings s ws R) \<and> kept s s' \<and> (ws \<noteq> [] \<longrightarrow> u2 (proc s' q) = p)
    \<and> (\<forall>x. x \<notin> set ws \<longrightarrow> p_state (proc s' x) = p_state (proc s x) \<and> u2 (proc s' x) = u2 (proc s x))
    \<and> (\<forall>x. x \<notin> set ws \<and> off_rings R x \<longrightarrow> proc s' x = proc s x)"
proof (cases "parent_waits s p")
  case True
  then show ?thesis using kill_wake_parent_repr [OF r True] by (auto simp: ws_def q_def woken_def)
next
  case False
  then have "kill_wake_parent p True s = Done NULL s" by (auto simp: kill_wake_parent_def parent_waits_def Let_def)
  then show ?thesis using False r by (simp add: ws_def woken_def)
qed

text \<open>
  The exiting process leaves its ring and is a zombie with its exit code; its parent is ready if it
  waited for it, and a process of highest priority runs: the parent, if it was woken and its priority
  is higher.
\<close>

lemma exit_repr:
  assumes p_def: "p = process_active s" and q_def: "q = p_parent (proc s p)" and ws_def: "ws = woken s p"
    and h: "runs_highest s R" and leaf: "p_child (proc s p) = NULL" and pid: "p_pid (proc s p) \<noteq> 0"
    and v: "valid_priorities s ws" and some: "\<exists>j. blocked s (wake_rings s ws R) j \<noteq> []"
  shows "\<exists>s'. process_exit code s = Switched s' \<and> runs_highest s' (blocked s (wake_rings s ws R))
    \<and> p_state (proc s' p) = PROCESS_ZOMBIE \<and> u0 (proc s' p) = word_of_int code
    \<and> (ws \<noteq> [] \<longrightarrow> new_zombie_child (proc s' q) = p)
    \<and> (\<forall>x. x \<noteq> p \<longrightarrow> steady (proc s x) (proc s' x)) \<and> p_pid (proc s' p) = p_pid (proc s p)
    \<and> p_parent (proc s' p) = q \<and> p_child (proc s' p) = NULL \<and> p_sibling (proc s' p) = p_sibling (proc s p)
    \<and> ran s s' \<and> (\<forall>x. x \<noteq> p \<longrightarrow> frames s' x = frames s x)
    \<and> (ws \<noteq> [] \<and> p_priority (proc s q) > p_priority (proc s p) \<longrightarrow> process_active s' = q)
    \<and> (\<forall>x. x \<noteq> p \<and> x \<notin> set ws \<longrightarrow> p_state (proc s' x) = p_state (proc s x) \<and> u2 (proc s' x) = u2 (proc s x)
        \<and> (off_rings R x \<longrightarrow> proc s' x = proc s x))"
proof -
  note r = runs_highestD(1) [OF h]
  let ?k = "p_priority (proc s p)" and ?kq = "p_priority (proc s q)"
  let ?R1 = "wake_rings s ws R" and ?R2 = "blocked s (wake_rings s ws R)"
  have R2: "?R2 = ?R1(?k := remove1 p (?R1 ?k))" by (simp add: blocked_def Let_def p_def)
  have pn: "p \<noteq> NULL" using runs_highestD(4) [OF h] by (simp add: p_def)
  have pq: "ws = [q] \<and> p \<noteq> q \<and> q \<noteq> NULL" if "ws \<noteq> []"
  proof -
    have "parent_waits s p" using that by (simp add: ws_def woken_def split: if_splits)
    then show ?thesis using runs_highestD(5) [OF h] by (auto simp: ws_def woken_def parent_waits_def p_def q_def)
  qed
  have pw: "p \<notin> set ws" using pq by (cases "ws = []") auto
  from kill_wake_repr [OF r, of p] obtain s1 where
    s1: "kill_wake_parent p True s = Done (if ws \<noteq> [] \<and> ?kq > ?k then q else NULL) s1"
      "sched_repr s1 ?R1" "kept s s1" "ws \<noteq> [] \<longrightarrow> u2 (proc s1 q) = p"
      "\<forall>x. x \<notin> set ws \<longrightarrow> p_state (proc s1 x) = p_state (proc s x) \<and> u2 (proc s1 x) = u2 (proc s x)"
      "\<forall>x. x \<notin> set ws \<and> off_rings R x \<longrightarrow> proc s1 x = proc s x"
    unfolding q_def [symmetric] ws_def [symmetric] by blast
  have pR1: "p \<in> set (?R1 ?k)" using runs_highestD(2) [OF h] wake_rings_mem by (simp add: p_def)
  from ring_remove1 [OF s1(2) pR1] obtain n s2 where
    s2: "process_sched_ring_remove p s1 = Done n s2" "sched_repr s2 ?R2" "relinked (set (?R1 ?k)) s1 s2"
      "off_rings ?R2 p" "if ?R2 ?k = [] then n = NULL else n \<in> set (?R2 ?k)"
    unfolding R2 by auto
  have st1: "p_state (proc s1 p) = PROCESS_SCHED" using s1(5) pw runs_highestD(5) [OF h] by (simp add: p_def)
  define nx where "nx = (if ws \<noteq> [] \<and> ?kq > ?k then q else n)"
  have unlink: "bindK (kill_wake_parent p True s) (kill_unlink p) = Done nx s2"
    using s1(1) st1 s2(1) pq by (auto simp: kill_unlink_def nx_def)
  have k2: "kept s s2" by (rule kept_trans [OF s1(3) relinked_kept [OF s2(3)]])
  define s3 where "s3 = upd_proc p (\<lambda>x. x\<lparr>p_child := NULL, p_state := PROCESS_ZOMBIE, u0 := word_of_int code\<rparr>) s2"
  have a3: "process_active s3 = p" using kept_kernel(2) [OF k2] by (simp add: s3_def p_def)
  have kill: "kill_process p code s = process_sched_advance nx s3"
  proof -
    have "process_internal_kill kill_fuel p code True s = Some (kill_finish p code nx s2)"
      unfolding kill_fuel_Suc
      using unlink kept_fields(2) [OF k2] leaf by (subst kill_leaf) auto
    then show ?thesis
      using a3 by (simp add: kill_process_def kill_finish_def Let_def upd_proc_twice s3_def)
  qed
  have r3: "sched_repr s3 ?R2" unfolding s3_def using s2(2,4) by (intro sched_repr_upd_proc) auto
  have pr3: "p_priority (proc s3 x) = p_priority (proc s x)" for x
    using kept_fields(5) [OF k2] by (cases "x = p") (auto simp: s3_def)
  have ne: "0 \<le> j \<and> (j \<le> ?k \<or> ws \<noteq> [] \<and> j = ?kq) \<and> j < PROCESS_MAX_PRIORITY" if "?R2 j \<noteq> []" for j
  proof -
    have "?R1 j \<noteq> []" using that by (auto simp: R2 split: if_splits)
    then have "R j \<noteq> [] \<or> (\<exists>x\<in>set ws. p_priority (proc s x) = j)" by (rule wake_rings_nonempty)
    then have "R j \<noteq> [] \<or> ws = [q] \<and> j = ?kq" using pq by (cases "ws = []") auto
    then show ?thesis using runs_highestD(3) [OF h, of j] v by (auto simp: p_def valid_priorities_def)
  qed
  have "\<exists>x. process_sched_advance nx s3 = Switched (switched x s3) \<and> runs_highest (switched x s3) ?R2
    \<and> (ws \<noteq> [] \<and> ?kq > ?k \<longrightarrow> x = q)"
  proof (cases "ws \<noteq> [] \<and> ?kq > ?k")
    case True
    then have qR2: "q \<in> set (?R2 ?kq)" unfolding R2 using pq wake_rings_woken [of q ws s R] by auto
    have "ends_highest (run_outcome q s3) ?R2"
      using ne True v pq by (intro ends_highest_run [OF r3 qR2]) (force simp: valid_priorities_def)+
    moreover have "process_sched_advance q s3 = run_outcome q s3"
      by (rule advance_to) (use sched_reprD(4,5) [OF r3 qR2] in auto)
    ultimately show ?thesis using True pq a3 by (auto simp: nx_def run_outcome_def ends_highest_def)
  next
    case False
    have "\<exists>x. process_sched_advance n s3 = Switched (switched x s3) \<and> runs_highest (switched x s3) ?R2"
    proof (rule block_advance [OF r3 _ _ _ some])
      show "p_state (proc s3 (process_active s3)) \<noteq> PROCESS_SCHED" by (simp add: a3) (simp add: s3_def)
      show "0 \<le> j \<and> j \<le> p_priority (proc s3 (process_active s3))" if "?R2 j \<noteq> []" for j
        using ne [OF that] False by (simp add: a3 pr3) auto
      show "p_priority (proc s3 (process_active s3)) < PROCESS_MAX_PRIORITY"
        using runs_highestD(6) [OF h] by (simp add: a3 pr3 p_def)
    qed (use s2(5) in \<open>simp add: a3 pr3\<close>)
    with False show ?thesis unfolding nx_def by (simp only: if_False) blast
  qed
  then obtain x where x: "process_sched_advance nx s3 = Switched (switched x s3)"
    "runs_highest (switched x s3) ?R2" "ws \<noteq> [] \<and> ?kq > ?k \<longrightarrow> x = q" by blast
  let ?t = "switched x s3"
  define s' where "s' = ?t\<lparr>frames := (frames ?t)(p := frames ?t p @ [Fr_exit])\<rparr>"
  have "process_exit code s = Switched s'"
    using pid kill x(1) by (simp add: process_exit_def process_internal_exit_def p_def [symmetric] s'_def)
  moreover have "steady (proc s y) (proc s' y)" if "y \<noteq> p" for y
    using that k2 by (simp add: s'_def s3_def kept_def)
  moreover have "new_zombie_child (proc s' q) = p" if "ws \<noteq> []"
    using s1(4) relinked_fields(7) [OF s2(3), of q] pq [OF that] that
    by (auto simp: s'_def s3_def proc_upd_proc)
  moreover have "ran s s'"
  proof -
    have "ran s2 s3" by (simp add: ran_def s3_def upd_proc_def)
    then show ?thesis
      unfolding s'_def using ran_trans [OF ran_trans [OF kept_ran [OF k2]] ran_switched(2)] by blast
  qed
  moreover have "frames s' y = frames s y" if "y \<noteq> p" for y
    using that kept_kernel(11) [OF k2] a3 by (simp add: s'_def switched_def) (simp add: s3_def)
  moreover have "p_state (proc s' y) = p_state (proc s y) \<and> u2 (proc s' y) = u2 (proc s y)
      \<and> (off_rings R y \<longrightarrow> proc s' y = proc s y)" if "y \<noteq> p" "y \<notin> set ws" for y
  proof -
    have "off_rings R y \<longrightarrow> y \<notin> set (?R1 ?k)" using that(2) off_wake_rings [of s ws R y] by auto
    then have "off_rings R y \<longrightarrow> proc s2 y = proc s1 y" using relinked_outside [OF s2(3)] by blast
    then show ?thesis using that s1(5,6) relinked_fields(1,7) [OF s2(3), of y] by (simp add: s'_def s3_def)
  qed
  ultimately show ?thesis using x kept_fields [OF k2]
    by (intro exI [of _ s']) (simp add: s'_def s3_def q_def)
qed

section \<open>The children of a process\<close>

definition siblings :: "kernel \<Rightarrow> ptr \<Rightarrow> ptr" where "siblings s q = p_sibling (proc s q)"

definition children :: "kernel \<Rightarrow> ptr \<Rightarrow> ptr list \<Rightarrow> bool" where
  "children s p cs \<longleftrightarrow> slist (siblings s) (p_child (proc s p)) cs
     \<and> p \<notin> set cs \<and> (\<forall>c\<in>set cs. p_parent (proc s c) = p)"

lemma unlink_loop_inner:
  "\<lbrakk>slist (siblings s) (siblings s x) (as @ c # bs); c \<notin> set as\<rbrakk> \<Longrightarrow>
    unlink_loop c p (Some x) s
      = Some (upd_proc (last (x # as)) (p_sibling_update (\<lambda>_. siblings s c)) s)"
proof (induction as arbitrary: x)
  case Nil
  then show ?case
    by (subst unlink_loop.simps) (simp add: child_link_def set_child_link_def siblings_def)
next
  case (Cons a as)
  then have a: "siblings s x = a" "a \<noteq> NULL" "a \<noteq> c" by auto
  have "unlink_loop c p (Some x) s = unlink_loop c p (Some a) s"
    using a by (subst unlink_loop.simps) (simp add: child_link_def siblings_def)
  then show ?case using Cons by auto
qed

lemma siblings_upd:
  "siblings (upd_proc x (p_sibling_update (\<lambda>_. v)) s) = (siblings s)(x := v)"
  "siblings (upd_proc x (p_child_update g) s) = siblings s"
  "siblings (upd_proc x (p_parent_update g) s) = siblings s"
  by (auto simp: siblings_def proc_upd_proc fun_eq_iff)

text \<open>Only the \<open>child\<close> field of the parent or the \<open>sibling\<close> field of a child changes.\<close>

lemma unlink_repr:
  assumes c: "children s p cs" and m: "c \<in> set cs"
  shows "\<exists>s'. unlink_loop c p None s = Some s' \<and> children s' p (remove1 c cs)
    \<and> (s' = upd_proc p (p_child_update (\<lambda>_. siblings s c)) s
      \<or> (\<exists>x\<in>set cs. x \<noteq> c \<and> s' = upd_proc x (p_sibling_update (\<lambda>_. siblings s c)) s))"
proof -
  obtain as bs where cs: "cs = as @ c # bs" "c \<notin> set as"
    using m by (metis split_list_first)
  have sl: "slist (siblings s) (p_child (proc s p)) (as @ c # bs)" using c by (simp add: children_def cs)
  have d: "distinct (as @ c # bs)" using slist_distinct [OF sl] .
  have rem: "remove1 c cs = as @ bs" using cs by (simp add: remove1_append)
  have p: "p \<notin> set cs" "\<forall>c\<in>set cs. p_parent (proc s c) = p" using c by (auto simp: children_def)
  show ?thesis
  proof (cases as)
    case Nil
    let ?s = "upd_proc p (p_child_update (\<lambda>_. siblings s c)) s"
    have "unlink_loop c p None s = Some ?s"
      using sl Nil by (subst unlink_loop.simps)
        (auto simp: child_link_def set_child_link_def siblings_def)
    moreover have "children ?s p bs"
      using sl p Nil by (auto simp: children_def siblings_upd cs proc_upd_proc)
    ultimately show ?thesis using rem Nil by simp
  next
    case (Cons a as')
    let ?x = "last as" and ?s = "upd_proc (last as) (p_sibling_update (\<lambda>_. siblings s c)) s"
    have x: "?x \<in> set cs" "?x \<noteq> c" "?x \<noteq> p"
      using last_in_set [of as] cs(2) p(1) by (auto simp: cs Cons)
    have a: "p_child (proc s p) = a" "a \<noteq> NULL" "a \<noteq> c" using sl cs(2) Cons by auto
    have "unlink_loop c p None s = unlink_loop c p (Some a) s"
      using a by (subst unlink_loop.simps) (simp add: child_link_def)
    also have "\<dots> = Some ?s"
      using unlink_loop_inner [of s a as' c bs p] sl cs(2) by (simp add: Cons)
    finally have k: "unlink_loop c p None s = Some ?s" .
    have "children ?s p (as @ bs)"
      using slist_remove [OF sl _ d] p Cons x by (auto simp: children_def siblings_upd cs proc_upd_proc)
    then show ?thesis using k rem x by auto
  qed
qed

text \<open>
  Freeing a zombie without children takes it out of the list of its parent, releases its
  identifier and its memory, and does not write the freed structure.
\<close>

definition reaped :: "ptr \<Rightarrow> ptr list \<Rightarrow> ptr \<Rightarrow> kernel \<Rightarrow> kernel \<Rightarrow> bool" where
  "reaped p cs c s s' \<longleftrightarrow> children s' p (remove1 c cs)
     \<and> process_pool s' = (process_pool s)(p_pid (proc s c) := NULL)
     \<and> (\<forall>x. proc s' x = (proc s x)\<lparr>p_child := p_child (proc s' x), p_sibling := p_sibling (proc s' x)\<rparr>)
     \<and> (\<forall>x. x \<noteq> p \<longrightarrow> p_child (proc s' x) = p_child (proc s x))
     \<and> (\<forall>x. x \<notin> set cs \<longrightarrow> p_sibling (proc s' x) = p_sibling (proc s x))
     \<and> id_pool_cap (process_id_pool s') = id_pool_cap (process_id_pool s)
     \<and> s' = s\<lparr>proc := proc s', process_pool := process_pool s', process_id_pool := process_id_pool s',
       heap := heap s', user_stacks := user_stacks s'\<rparr>"

lemma process_free_repr:
  assumes c: "children s p cs" and m: "c \<in> set cs" and p: "p \<noteq> NULL"
    and z: "p_state (proc s c) = PROCESS_ZOMBIE" and leaf: "p_child (proc s c) = NULL"
    and ids: "pool_ids (process_id_pool s) U" and tab: "table_ids (process_pool s) U"
    and pool: "process_pool s (p_pid (proc s c)) = c"
  shows "\<exists>s'. process_free c s = Done () s' \<and> children s' p (remove1 c cs)
    \<and> process_pool s' = (process_pool s)(p_pid (proc s c) := NULL)
    \<and> pool_ids (process_id_pool s') (U - {p_pid (proc s c)})
    \<and> table_ids (process_pool s') (U - {p_pid (proc s c)})
    \<and> heap s' = heap s - {c, kernel_stack (proc s c)}
    \<and> (\<forall>x. p_pid (proc s' x) = p_pid (proc s x) \<and> p_state (proc s' x) = p_state (proc s x)
         \<and> p_priority (proc s' x) = p_priority (proc s x))
    \<and> link0 s' = link0 s \<and> link1 s' = link1 s
    \<and> process_sched_rings s' = process_sched_rings s \<and> process_active s' = process_active s
    \<and> umem s' = umem s \<and> reaped p cs c s s'"
proof -
  have pc: "p_parent (proc s c) = p" "c \<noteq> p" using c m by (auto simp: children_def)
  from unlink_repr [OF c m] obtain s1 where s1: "unlink_loop c p None s = Some s1"
      "children s1 p (remove1 c cs)"
      "s1 = upd_proc p (p_child_update (\<lambda>_. siblings s c)) s
        \<or> (\<exists>x\<in>set cs. x \<noteq> c \<and> s1 = upd_proc x (p_sibling_update (\<lambda>_. siblings s c)) s)" by blast
  let ?n = "p_pid (proc s c)"
  have same: "proc s1 c = proc s c" using s1(3) pc by auto
  have f1: "p_pid (proc s1 x) = p_pid (proc s x)" "p_state (proc s1 x) = p_state (proc s x)"
    "p_priority (proc s1 x) = p_priority (proc s x)" "u0 (proc s1 x) = u0 (proc s x)"
    "u1 (proc s1 x) = u1 (proc s x)" for x
    using s1(3) by (auto simp: proc_upd_proc)
  have g1: "process_pool s1 = process_pool s" "process_id_pool s1 = process_id_pool s"
    "heap s1 = heap s" "process_sched_rings s1 = process_sched_rings s"
    "process_active s1 = process_active s" "umem s1 = umem s"
    using s1(3) by auto
  have o: "orphan_loop (p_child (proc s1 c)) s1 = Some s1"
    using leaf same by (subst orphan_loop.simps) simp
  define s' where "s' = s1\<lparr>process_pool := (process_pool s)(?n := NULL),
      process_id_pool := id_pool_free (process_id_pool s) ?n,
      heap := heap s - {c} - {kernel_stack (proc s c)},
      user_stacks := user_stacks s1 - {stack (proc s c)}\<rparr>"
  have "process_free c s = Done () s'"
    using z pc p s1(1) o same g1 by (simp add: process_free_def Let_def s'_def)
  moreover have "children s' p (remove1 c cs)"
    using s1(2) by (simp add: s'_def children_def siblings_def [abs_def])
  moreover have "process_pool s ?n \<noteq> NULL" using pool m slist_no_NULL c by (auto simp: children_def)
  note pid_pool.table_release [OF ids tab this]
  moreover have "link0 s' = link0 s" "link1 s' = link1 s"
    using f1 by (auto simp: s'_def link0_def link1_def fun_eq_iff)
  moreover have "reaped p cs c s s'"
    unfolding reaped_def
  proof (intro conjI allI impI)
    show "children s' p (remove1 c cs)" using s1(2) by (simp add: s'_def children_def siblings_def [abs_def])
    show "proc s' x = (proc s x)\<lparr>p_child := p_child (proc s' x), p_sibling := p_sibling (proc s' x)\<rparr>" for x
      using s1(3) by (auto simp: s'_def proc_upd_proc)
    show "p_child (proc s' x) = p_child (proc s x)" if "x \<noteq> p" for x
      using s1(3) that by (auto simp: s'_def proc_upd_proc)
    show "p_sibling (proc s' x) = p_sibling (proc s x)" if "x \<notin> set cs" for x
      using s1(3) that by (auto simp: s'_def proc_upd_proc)
    obtain pr where e: "s1 = s\<lparr>proc := pr\<rparr>" using s1(3) by (auto simp: upd_proc_def)
    show "s' = s\<lparr>proc := proc s', process_pool := process_pool s', process_id_pool := process_id_pool s',
       heap := heap s', user_stacks := user_stacks s'\<rparr>"
      unfolding s'_def e by simp
  qed (simp_all add: s'_def id_pool_free_def id_pool_push_free_def id_pool_cap_def)
  ultimately show ?thesis using f1 g1
    by (intro exI [of _ s']) (auto simp: s'_def)
qed

section \<open>Waiting for a child\<close>

text \<open>The child that a wait for \<open>n\<close> finds.\<close>

definition wanted :: "kernel \<Rightarrow> int \<Rightarrow> ptr \<Rightarrow> bool" where
  "wanted s n c \<longleftrightarrow> (n < 0 \<and> p_state (proc s c) = PROCESS_ZOMBIE) \<or> n = p_pid (proc s c)"

lemma find_child_list:
  "slist (siblings s) x cs \<Longrightarrow>
    find_child s n x = Some (case find (wanted s n) cs of None \<Rightarrow> NULL | Some c \<Rightarrow> c)"
proof (induction cs arbitrary: x)
  case Nil
  then show ?case by (subst find_child.simps) simp
next
  case (Cons c cs)
  then have "find_child s n (p_sibling (proc s c))
      = Some (case find (wanted s n) cs of None \<Rightarrow> NULL | Some c \<Rightarrow> c)" by (simp add: siblings_def)
  with Cons.prems show ?case by (subst find_child.simps) (auto simp: wanted_def)
qed

text \<open>A wait for a finished child returns its pid, stores its exit code and releases it.\<close>

lemma wait_finish_repr:
  assumes c: "children s p cs" and m: "c \<in> set cs" and ne: "p \<noteq> NULL"
    and z: "p_state (proc s c) = PROCESS_ZOMBIE" and leaf: "p_child (proc s c) = NULL"
    and ids: "pool_ids (process_id_pool s) U" and tab: "table_ids (process_pool s) U"
    and pool: "process_pool s (p_pid (proc s c)) = c"
  shows "\<exists>s'. wait_finish a c s = Done (p_pid (proc s c)) s'
    \<and> umem s' = umem (put_user_int a (exit_code (proc s c)) s)
    \<and> reaped p cs c (put_user_int a (exit_code (proc s c)) s) s'
    \<and> pool_ids (process_id_pool s') (U - {p_pid (proc s c)})
    \<and> table_ids (process_pool s') (U - {p_pid (proc s c)})
    \<and> heap s' = heap s - {c, kernel_stack (proc s c)}"
proof -
  define s1 where "s1 = put_user_int a (exit_code (proc s c)) s"
  have u: "proc s1 = proc s" "process_pool s1 = process_pool s" "process_id_pool s1 = process_id_pool s"
    "heap s1 = heap s" by (simp_all add: s1_def put_user_int_def)
  have c1: "children s1 p cs" using c u by (simp add: children_def siblings_def [abs_def])
  from process_free_repr [OF c1 m ne, unfolded u, OF z leaf ids tab pool] obtain s2 where
    s2: "process_free c s1 = Done () s2" "reaped p cs c s1 s2"
      "pool_ids (process_id_pool s2) (U - {p_pid (proc s c)})"
      "table_ids (process_pool s2) (U - {p_pid (proc s c)})"
      "heap s2 = heap s - {c, kernel_stack (proc s c)}" "p_pid (proc s2 c) = p_pid (proc s c)"
      "umem s2 = umem s1" by blast
  then show ?thesis by (simp add: wait_finish_def s1_def [symmetric])
qed

lemma wait_zombie_finish:
  assumes p_def: "p = process_active s" and c: "children s p cs"
    and f: "find (wanted s n) cs = Some c" and z: "p_state (proc s c) = PROCESS_ZOMBIE"
    and a: "user_result s a"
  shows "process_wait n a s = wait_finish a c s" "c \<in> set cs"
proof -
  show m: "c \<in> set cs" using f by (auto simp: find_Some_iff)
  have cn: "c \<noteq> NULL" using m c slist_no_NULL by (auto simp: children_def)
  have fc: "find_child s n (p_child (proc s p)) = Some c"
    using find_child_list [of s "p_child (proc s p)" cs n] c f by (simp add: children_def)
  have "p_child (proc s p) \<noteq> NULL" using c m by (auto simp: children_def)
  then show "process_wait n a s = wait_finish a c s"
    using fc z cn a by (auto simp: process_wait_def p_def [symmetric] user_result_def)
qed

lemma wait_zombie_repr:
  assumes p_def: "p = process_active s" and c: "children s p cs" and ne: "p \<noteq> NULL"
    and f: "find (wanted s n) cs = Some c" and z: "p_state (proc s c) = PROCESS_ZOMBIE"
    and leaf: "p_child (proc s c) = NULL"
    and ids: "pool_ids (process_id_pool s) U" and tab: "table_ids (process_pool s) U"
    and pool: "process_pool s (p_pid (proc s c)) = c"
    and a: "user_result s a"
  shows "\<exists>s'. process_wait n a s = Done (p_pid (proc s c)) s'
    \<and> umem s' = umem (put_user_int a (exit_code (proc s c)) s)
    \<and> children s' p (remove1 c cs)
    \<and> process_pool s' (p_pid (proc s c)) = NULL
    \<and> pool_ids (process_id_pool s') (U - {p_pid (proc s c)})
    \<and> table_ids (process_pool s') (U - {p_pid (proc s c)})
    \<and> heap s' = heap s - {c, kernel_stack (proc s c)}"
proof -
  note w = wait_zombie_finish [OF p_def c f z a]
  from wait_finish_repr [OF c w(2) ne z leaf ids tab pool, of a] show ?thesis
    by (auto simp: w(1) reaped_def)
qed

lemma wait_nobody:
  assumes p_def: "p = process_active s" and c: "children s p cs" "cs = [] \<or> 0 \<le> n"
    and f: "find (wanted s n) cs = None"
  shows "process_wait n a s = Done (-1) s"
proof -
  have fc: "find_child s n (p_child (proc s p)) = Some NULL"
    using find_child_list [of s "p_child (proc s p)" cs n] c f by (simp add: children_def)
  have "cs = [] \<longleftrightarrow> p_child (proc s p) = NULL" using c(1) by (cases cs) (auto simp: children_def)
  then show ?thesis using fc c(2) by (auto simp: process_wait_def p_def [symmetric])
qed

text \<open>
  A wait for a child that is still alive, or for any child while none is finished, blocks until the
  child's exit.
\<close>

lemma wait_block_repr:
  assumes p_def: "p = process_active s" and h: "runs_highest s R" and c: "children s p cs" "cs \<noteq> []"
    and f: "find (wanted s n) cs = None \<and> n < 0
      \<or> (\<exists>c. find (wanted s n) cs = Some c \<and> p_state (proc s c) \<noteq> PROCESS_ZOMBIE)"
    and some: "\<exists>j. blocked s R j \<noteq> []" and a: "user_result s a"
    and n: "- (2 ^ 31) \<le> n" "n < 2 ^ 31"
  shows "\<exists>s'. process_wait n a s = Switched s' \<and> runs_highest s' (blocked s R)
    \<and> p_state (proc s' p) = PROCESS_WAIT_CHILD \<and> child_pid (proc s' p) = n
    \<and> frames s' p = [Fr_wait a] \<and> (\<forall>x. steady (proc s x) (proc s' x))
    \<and> ran s s' \<and> (\<forall>x. x \<noteq> p \<longrightarrow> frames s' x = frames s x)
    \<and> (\<forall>x. x \<noteq> p \<longrightarrow> p_state (proc s' x) = p_state (proc s x) \<and> u2 (proc s' x) = u2 (proc s x)
        \<and> (off_rings R x \<longrightarrow> proc s' x = proc s x))"
proof -
  have pn: "p \<noteq> NULL" using runs_highestD(4) [OF h] by (simp add: p_def)
  have ch: "p_child (proc s p) \<noteq> NULL" using c by (cases cs) (auto simp: children_def)
  obtain n1 s1 where s1: "process_sched_ring_remove p s = Done n1 s1" "kept s s1"
      "sched_repr s1 (blocked s R)" "off_rings (blocked s R) p"
      "\<And>q. p_state (proc s1 q) = p_state (proc s q)" "\<And>q. off_rings R q \<Longrightarrow> proc s1 q = proc s q"
      "\<And>q. u2 (proc s1 q) = u2 (proc s q)"
    and adv: "\<And>s2. \<lbrakk>sched_repr s2 (blocked s R); process_active s2 = p;
      p_state (proc s2 p) \<noteq> PROCESS_SCHED; p_priority (proc s2 p) = p_priority (proc s p)\<rbrakk>
      \<Longrightarrow> \<exists>q. process_sched_advance n1 s2 = Switched (switched q s2)
        \<and> runs_highest (switched q s2) (blocked s R)"
    using block_active [OF h some] unfolding p_def by metis
  define s3 where "s3 = upd_proc p (set_u0 (word_of_int n))
      (upd_proc p (set_state PROCESS_WAIT_CHILD) s1)"
  have a1: "process_active s1 = p" using kept_kernel(2) [OF s1(2)] by (simp add: p_def)
  have r3: "sched_repr s3 (blocked s R)" using s1(3,4) by (auto simp: s3_def intro!: sched_repr_upd_proc)
  have "p_priority (proc s3 p) = p_priority (proc s p)" using kept_fields(5) [OF s1(2)] by (simp add: s3_def)
  with adv [OF r3] a1 obtain q where q: "process_sched_advance n1 s3 = Switched (switched q s3)"
      "runs_highest (switched q s3) (blocked s R)" by (auto simp: s3_def)
  let ?t = "switched q s3"
  define s' where "s' = ?t\<lparr>frames := (frames ?t)(p := frames ?t p @ [Fr_wait a])\<rparr>"
  have a3: "process_active s3 = p" using a1 by (simp add: s3_def)
  obtain c0 where c0: "find_child s n (p_child (proc s p)) = Some c0"
      "c0 = NULL \<and> n < 0 \<or> c0 \<noteq> NULL \<and> p_state (proc s c0) \<noteq> PROCESS_ZOMBIE"
  proof -
    have fl: "find_child s n (p_child (proc s p))
        = Some (case find (wanted s n) cs of None \<Rightarrow> NULL | Some c \<Rightarrow> c)"
      using c(1) by (intro find_child_list) (simp add: children_def)
    from f show thesis
    proof
      assume "find (wanted s n) cs = None \<and> n < 0"
      with fl that show thesis by auto
    next
      assume "\<exists>c. find (wanted s n) cs = Some c \<and> p_state (proc s c) \<noteq> PROCESS_ZOMBIE"
      then obtain c' where c': "find (wanted s n) cs = Some c'" "p_state (proc s c') \<noteq> PROCESS_ZOMBIE" by blast
      then have "c' \<in> set cs" by (auto simp: find_Some_iff)
      then have "c' \<noteq> NULL" using c(1) slist_no_NULL by (auto simp: children_def)
      with fl c' that show thesis by auto
    qed
  qed
  have "process_wait n a s = Switched s'"
    using ch c0 a s1(1) a1 q(1) a3
    by (auto simp: process_wait_def p_def [symmetric] user_result_def Let_def s3_def [symmetric] s'_def)
  moreover have "frames s' p = [Fr_wait a]" using pn a3 by (simp add: s'_def switched_def)
  moreover have "child_pid (proc s' p) = n"
    using n by (simp add: child_pid_def s'_def s3_def sint_word_of_int32)
  moreover have "steady (proc s x) (proc s' x)" for x
    using s1(2) by (cases "x = p") (auto simp: s'_def s3_def kept_def steady_def)
  moreover have "ran s s'"
  proof -
    have "ran s1 s3" by (simp add: ran_def s3_def upd_proc_def)
    then show ?thesis
      unfolding s'_def using ran_trans [OF ran_trans [OF kept_ran [OF s1(2)]] ran_switched(2)] by blast
  qed
  moreover have "frames s' x = frames s x" if "x \<noteq> p" for x
    using that kept_kernel(11) [OF s1(2)] a3 by (simp add: s'_def switched_def) (simp add: s3_def)
  moreover have "p_state (proc s' x) = p_state (proc s x) \<and> u2 (proc s' x) = u2 (proc s x)
      \<and> (off_rings R x \<longrightarrow> proc s' x = proc s x)" if "x \<noteq> p" for x
    using that s1(5-7) by (simp add: s'_def s3_def)
  ultimately show ?thesis using q(2)
    by (intro exI [of _ s']) (simp add: s'_def s3_def)
qed

section \<open>Changing a priority by pid\<close>

lemma ends_highest_calling:
  assumes "ends_highest m R"
  shows "ends_highest (calling s (Fr_return v) m (\<lambda>_ t. Done v t)) R"
  using assms by (cases m) (auto simp: ends_highest_def)

lemma process_set_priority_highest:
  assumes h: "runs_highest s R" and n: "process_from_pid s n = p" and p: "p \<in> set (R k)"
    and new: "0 \<le> priority" "priority < PROCESS_MAX_PRIORITY" "priority \<noteq> k"
  shows "ends_highest (process_set_priority n priority s) (requeued p k priority R)"
proof -
  note r = runs_highestD(1) [OF h]
  have "p \<noteq> NULL" "p_state (proc s p) = PROCESS_SCHED" "p_priority (proc s p) = k"
    using sched_reprD(4-6) [OF r p] by auto
  then have "process_set_priority n priority s = calling s (Fr_return k)
      (process_sched_set_priority p priority s) (\<lambda>_ s1. Done k s1)"
    using n new by (simp add: process_set_priority_def Let_def)
  then show ?thesis
    using ends_highest_calling [OF set_priority_highest [OF h p new(1,2)]] by simp
qed

section \<open>Killing another process does not reschedule\<close>

text \<open>
  When a process other than the active one is killed, its waiting parent becomes ready but is not
  compared with the active process. A timer interrupt stays in the ring of the active process, and
  \<open>process_sched_ring_find\<close> never looks above its priority, so that a parent of higher priority is
  left waiting.
\<close>

lemma kill_other_inversion:
  assumes h: "runs_highest s R" and n: "process_from_pid s n = p" "n \<noteq> 0"
      "n \<noteq> p_pid (proc s (process_active s))"
    and p: "p \<in> set (R (p_priority (proc s p)))" "p \<noteq> process_active s"
    and leaf: "p_child (proc s p) = NULL" and w: "parent_waits s p"
    and prio: "p_priority (proc s (process_active s)) < p_priority (proc s (p_parent (proc s p)))"
  shows "\<exists>s'. process_kill n s = Done 0 s' \<and> process_active s' = process_active s
    \<and> p_state (proc s' p) = PROCESS_ZOMBIE \<and> (\<forall>R'. \<not> runs_highest s' R')"
proof -
  note r = runs_highestD(1) [OF h]
  define q where "q = p_parent (proc s p)"
  let ?a = "process_active s" and ?k = "p_priority (proc s p)" and ?kq = "p_priority (proc s q)"
  let ?R1 = "ready_first s q R"
  let ?R2 = "?R1(?k := remove1 p (?R1 ?k))"
  have st: "p \<noteq> NULL" "p_state (proc s p) = PROCESS_SCHED" using sched_reprD(4,5) [OF r p(1)] by auto
  have pq: "p \<noteq> q" "q \<noteq> ?a" using w st runs_highestD(5) [OF h] by (auto simp: parent_waits_def q_def)
  from kill_wake_parent_repr [OF r w] obtain nx s1 where
    s1: "kill_wake_parent p True s = Done nx s1"
      "sched_repr s1 ?R1" "kept s s1" "\<forall>x. x \<noteq> q \<longrightarrow> p_state (proc s1 x) = p_state (proc s x) \<and> u2 (proc s1 x) = u2 (proc s x)"
    unfolding q_def [symmetric] by blast
  have pR1: "p \<in> set (?R1 ?k)" using p(1) by (auto simp: ready_first_def Let_def)
  from ring_remove1 [OF s1(2) pR1] obtain n2 s2 where
    s2: "process_sched_ring_remove p s1 = Done n2 s2" "sched_repr s2 ?R2"
      "relinked (set (?R1 ?k)) s1 s2" "off_rings ?R2 p" by blast
  have k2: "kept s s2" by (rule kept_trans [OF s1(3) relinked_kept [OF s2(3)]])
  define s3 where "s3 = upd_proc p (\<lambda>x. x\<lparr>p_child := NULL, p_state := PROCESS_ZOMBIE, u0 := word_of_int 0\<rparr>) s2"
  have a3: "process_active s3 = ?a" using kept_kernel(2) [OF k2] by (simp add: s3_def)
  obtain nx' where unlink: "bindK (kill_wake_parent p True s) (kill_unlink p) = Done nx' s2"
    using s1(1,4) st pq s2(1) by (simp add: kill_unlink_def)
  have kill: "kill_process p 0 s = Done () s3"
  proof -
    have "process_internal_kill kill_fuel p 0 True s = Some (kill_finish p 0 nx' s2)"
      unfolding kill_fuel_Suc using unlink kept_fields(2) [OF k2] leaf by (subst kill_leaf) auto
    then show ?thesis using a3 p(2)
      by (simp add: kill_process_def kill_finish_def Let_def upd_proc_twice s3_def)
  qed
  have r3: "sched_repr s3 ?R2" unfolding s3_def by (rule sched_repr_upd_proc [OF s2(2) off_ringsD [OF s2(4)]])
  have "q \<in> set (?R2 ?kq)" using pq by (auto simp: ready_first_def Let_def)
  then have "process_sched_rings s3 ?kq \<noteq> NULL"
    using sched_reprD(3) [OF r3, of ?kq] sched_reprD(4) [OF r3 hd_in_set, of ?kq] by (auto split: if_splits)
  moreover have "p_priority (proc s3 ?a) < ?kq"
    using prio kept_fields(5) [OF k2, of ?a] p(2) by (simp add: s3_def q_def)
  ultimately have "\<not> runs_highest s3 R'" for R'
    using runs_highestD(3) [of s3 R' ?kq] sched_reprD(3) [OF runs_highestD(1), of s3 R' ?kq] a3
    by (auto split: if_splits)
  moreover have "process_kill n s = Done 0 s3"
    using n st kill by (simp add: process_kill_def Let_def)
  ultimately show ?thesis using a3 by (intro exI [of _ s3]) (simp add: s3_def)
qed

end
