(* ===== verification/Kernel_Machine.thy ===== *)
theory Kernel_Machine
  imports Lifecycle_Facts
begin

text \<open>
  The kernel as a machine: the system calls of \<^verbatim>\<open>kernel/process/syscall.c\<close>, the timer and
  keyboard interrupts, and the way a suspended process goes on when it is chosen again. The
  interrupts are disabled inside the kernel, so that an event only arrives while a process runs at
  user level, or at the end of a kernel call.
\<close>

section \<open>Resuming a suspended process\<close>

text \<open>
  The calls that \<open>keyboard_key_handler\<close> makes, one after the other: the key handler of the console,
  which may wake processes and so end in a context switch, and its character handler. After the
  last one \<open>keyboard_handler\<close> clears \<open>scan_break\<close>.
\<close>

fun key_calls :: "kbd_call list \<Rightarrow> kernel \<Rightarrow> (kernel, int) outcome" where
  "key_calls [] s = Done 0 (s\<lparr>kbd := (kbd s)\<lparr>scan_break := False\<rparr>\<rparr>)"
| "key_calls (CharCall ch # calls) s = key_calls calls (s\<lparr>cons := cons_char_handler ch (cons s)\<rparr>)"
| "key_calls (KeyCall key _ action _ # calls) s = (case cons_key_handler key action (cons s) of
     Cons_Idle c \<Rightarrow> key_calls calls (s\<lparr>cons := c\<rparr>)
   | Cons_Overrun \<Rightarrow> Panic ''memory after all_buffer is overwritten''
   | Cons_Flushed wake c \<Rightarrow>
       let s1 = s\<lparr>cons := c\<rparr> in
       if wake then calling s1 (Fr_enter calls) (process_wait_cons_read_wake s1)
         (\<lambda>_ s2. key_calls calls (s2\<lparr>cons := cons_enter_echo (cons s2)\<rparr>))
       else key_calls calls (s1\<lparr>cons := cons_enter_echo (cons s1)\<rparr>))"

text \<open>What is left of a kill whose loop over the children was interrupted at \<open>child\<close>.\<close>

definition kill_resume :: "ptr \<Rightarrow> int \<Rightarrow> ptr \<Rightarrow> ptr \<Rightarrow> kernel \<Rightarrow> (kernel, unit) outcome" where
  "kill_resume process code next_process child s =
     bindK (process_free child s) (\<lambda>_ s1.
       bindK (or_hang (kill_children kill_fuel process code next_process (p_sibling (proc s1 child)) s1))
         (\<lambda>_ s2. kill_finish process code next_process s2))"

text \<open>The rest of one suspended function; \<open>v\<close> is what its callee returned.\<close>

fun resume_frame :: "frame \<Rightarrow> int \<Rightarrow> kernel \<Rightarrow> (kernel, int) outcome" where
  "resume_frame (Fr_return w) v s = Done w s"
| "resume_frame (Fr_pit clock) v s = bindK (process_time_pit_handler clock s) (\<lambda>_ s1. Done 0 s1)"
| "resume_frame (Fr_start process) v s = Done (p_pid (proc s process)) s"
| "resume_frame (Fr_wait code_ptr) v s =
     wait_finish code_ptr (new_zombie_child (proc s (process_active s))) s"
| "resume_frame (Fr_kill process code next_process child) v s =
     bindK (kill_resume process code next_process child s) (\<lambda>_ s1. Done 0 s1)"
| "resume_frame Fr_exit v s = Hang"
| "resume_frame Fr_queue_wait v s =
     Done (if wait_queue_reset (proc s (process_active s)) then 1 else 0) s"
| "resume_frame Fr_send v s = Done (if v \<noteq> 0 then -1 else 0) s"
| "resume_frame (Fr_receive message) v s = receive_waited message (v \<noteq> 0) s"
| "resume_frame (Fr_delete q) v s = delete_frees q s"
| "resume_frame (Fr_cons_read dst len) v s = or_hang (cons_read_loop dst len s)"
| "resume_frame (Fr_enter calls) v s = key_calls calls (s\<lparr>cons := cons_enter_echo (cons s)\<rparr>)"
| "resume_frame Fr_startup v s = Done 0 s"

text \<open>All of them, from the innermost one; a new switch leaves the outer ones suspended.\<close>

primrec resume_frames :: "frame list \<Rightarrow> int \<Rightarrow> kernel \<Rightarrow> (kernel, int) outcome" where
  "resume_frames [] v s = Done v s"
| "resume_frames (fr # frs) v s = (case resume_frame fr v s of
     Done w s1 \<Rightarrow> resume_frames frs w s1
   | Switched s1 \<Rightarrow> Switched (s1\<lparr>frames := (frames s1)(process_active s :=
       frames s1 (process_active s) @ frs)\<rparr>)
   | Panic e \<Rightarrow> Panic e
   | Hang \<Rightarrow> Hang)"

text \<open>The end of \<open>process_context_switch_kernel\<close>: the kernel stack of the active process is popped.\<close>

definition resume_active :: "kernel \<Rightarrow> (kernel, int) outcome" where
  "resume_active s = resume_frames (frames s (process_active s)) 0
     (s\<lparr>frames := (frames s)(process_active s := [])\<rparr>)"

section \<open>System calls\<close>

text \<open>
  The calls of \<open>syscall_handlers\<close>, with their arguments. The results of the allocators are
  arguments of the two calls that allocate, and the page counts of \<open>system_memory_info\<close> too.
\<close>

datatype syscall =
    SC_PROCESS_START blocks ptr u32 int ptr u32
  | SC_PROCESS_EXIT int
  | SC_PROCESS_PID
  | SC_PROCESS_PRIORITY int
  | SC_PROCESS_SET_PRIORITY int int
  | SC_PROCESS_WAIT int ptr
  | SC_PROCESS_KILL int
  | SC_PROCESS_NAME int ptr int
  | SC_PROCESS_CHILDREN int ptr int
  | SC_PROCESS_STATE int
  | SC_PROCESS_WAIT_CLOCK u32
  | SC_PROCESS_QUEUE_CREATE ptr ptr int
  | SC_PROCESS_QUEUE_DELETE int
  | SC_PROCESS_QUEUE_SEND int int
  | SC_PROCESS_QUEUE_RECEIVE int ptr
  | SC_PROCESS_QUEUE_COUNT int ptr
  | SC_PROCESS_QUEUE_RESET int
  | SC_CLOCK_SETTINGS ptr ptr
  | SC_CLOCK_GET
  | SC_CONSOLE_WRITE ptr int
  | SC_CONSOLE_READ ptr u32
  | SC_CONSOLE_ECHO bool
  | SC_SYSTEM_MEMORY_INFO ptr ptr u32 u32
  | SC_SYSTEM_POWER_OFF

abbreviation (input) PIT_QUARTZ_FREQ :: int where "PIT_QUARTZ_FREQ \<equiv> 0x1234DD"
abbreviation (input) PIT_FREQ :: int where "PIT_FREQ \<equiv> 50"
abbreviation (input) PAGE_SIZE :: u32 where "PAGE_SIZE \<equiv> 0x1000"

definition PIT_INTERVAL :: u16 where
  "PIT_INTERVAL = word_of_int (PIT_QUARTZ_FREQ div PIT_FREQ)"

definition clock_settings :: "ptr \<Rightarrow> ptr \<Rightarrow> kernel \<Rightarrow> kernel" where
  "clock_settings quartz_freq ticks s =
     (if process_check_user_ptr s quartz_freq \<and> process_check_user_ptr s ticks then
        let s1 = s\<lparr>umem := store32 (umem s) quartz_freq (word_of_int PIT_QUARTZ_FREQ)\<rparr>
        in s1\<lparr>umem := store32 (umem s1) ticks (ucast PIT_INTERVAL)\<rparr>
      else s)"

text \<open>\<open>src[0], \<dots>, src[n - 1]\<close>\<close>

definition load_bytes :: "bmem \<Rightarrow> ptr \<Rightarrow> nat \<Rightarrow> u8 list" where
  "load_bytes m a n = map (\<lambda>i. m (a + of_nat i)) [0..<n]"

definition console_write :: "ptr \<Rightarrow> int \<Rightarrow> kernel \<Rightarrow> kernel" where
  "console_write src len s =
     (if process_check_user_ptr s src
      then s\<lparr>cons := cons_write (load_bytes (umem s) src (unat (word_of_int len :: u32))) (cons s)\<rparr>
      else s)"

definition system_memory_info :: "ptr \<Rightarrow> ptr \<Rightarrow> u32 \<Rightarrow> u32 \<Rightarrow> kernel \<Rightarrow> (kernel, int) outcome" where
  "system_memory_info cap used page_cap page_used s =
     (if process_check_user_ptr s cap \<and> process_check_user_ptr s used then
        let s1 = s\<lparr>umem := store32 (umem s) cap (page_cap * PAGE_SIZE)\<rparr>
        in Done 0 (s1\<lparr>umem := store32 (umem s1) used (page_used * PAGE_SIZE)\<rparr>)
      else Done (-1) s)"

text \<open>The value of a call that returns nothing is what is left in the register; it is 0 here.\<close>

fun syscall_handler :: "syscall \<Rightarrow> kernel \<Rightarrow> (kernel, int) outcome" where
  "syscall_handler (SC_PROCESS_START b entry ssize prio name arg) s =
     process_start b entry ssize prio name arg s"
| "syscall_handler (SC_PROCESS_EXIT code) s = process_exit code s"
| "syscall_handler SC_PROCESS_PID s = process_pid s"
| "syscall_handler (SC_PROCESS_PRIORITY n) s = process_priority n s"
| "syscall_handler (SC_PROCESS_SET_PRIORITY n prio) s = process_set_priority n prio s"
| "syscall_handler (SC_PROCESS_WAIT n a) s = process_wait n a s"
| "syscall_handler (SC_PROCESS_KILL n) s = process_kill n s"
| "syscall_handler (SC_PROCESS_NAME n dst count) s = process_name n dst count s"
| "syscall_handler (SC_PROCESS_CHILDREN n dst count) s = process_children n dst count s"
| "syscall_handler (SC_PROCESS_STATE n) s = process_state_of n s"
| "syscall_handler (SC_PROCESS_WAIT_CLOCK clock) s =
     bindK (process_wait_clock clock s) (\<lambda>_ s1. Done 0 s1)"
| "syscall_handler (SC_PROCESS_QUEUE_CREATE m q cap) s = process_queue_create m q cap s"
| "syscall_handler (SC_PROCESS_QUEUE_DELETE n) s = process_queue_delete n s"
| "syscall_handler (SC_PROCESS_QUEUE_SEND n m) s = process_queue_send n m s"
| "syscall_handler (SC_PROCESS_QUEUE_RECEIVE n a) s = process_queue_receive n a s"
| "syscall_handler (SC_PROCESS_QUEUE_COUNT n a) s = process_queue_count n a s"
| "syscall_handler (SC_PROCESS_QUEUE_RESET n) s = process_queue_reset n s"
| "syscall_handler (SC_CLOCK_SETTINGS a b) s = Done 0 (clock_settings a b s)"
| "syscall_handler SC_CLOCK_GET s = Done (sint (pit_clock s)) s"
| "syscall_handler (SC_CONSOLE_WRITE src len) s = Done 0 (console_write src len s)"
| "syscall_handler (SC_CONSOLE_READ dst len) s = process_wait_cons_read dst len s"
| "syscall_handler (SC_CONSOLE_ECHO on) s = Done 0 (s\<lparr>cons := cons_echo on (cons s)\<rparr>)"
| "syscall_handler (SC_SYSTEM_MEMORY_INFO a b cap used) s = system_memory_info a b cap used s"
| "syscall_handler SC_SYSTEM_POWER_OFF s = Panic ''power off''"

section \<open>Interrupts\<close>

definition pit_interrupt_handler :: "kernel \<Rightarrow> (kernel, int) outcome" where
  "pit_interrupt_handler s =
     (let s1 = s\<lparr>pit_clock := pit_clock s + 1\<rparr>
      in if pit_handler_set s1
         then bindK (process_pit_handler (pit_clock s1) s1) (\<lambda>_ s2. Done 0 s2)
         else Done 0 s1)"

text \<open>
  A byte from the keyboard: \<open>ps2_port_a_handler\<close> drops acknowledgements, \<open>keyboard_handler\<close> decodes
  the byte. \<open>scan_break\<close> keeps its value until the calls of the handlers are over.
\<close>

definition keyboard_interrupt_handler :: "u8 \<Rightarrow> kernel \<Rightarrow> (kernel, int) outcome" where
  "keyboard_interrupt_handler data s =
     (if data = 0xFA then Done 0 s
      else case keyboard_handler data (kbd s) of
        None \<Rightarrow> Panic ''null layout''
      | Some (calls, k) \<Rightarrow>
          if data = 0xF0 \<or> data = 0xE0 then Done 0 (s\<lparr>kbd := k\<rparr>)
          else key_calls calls (s\<lparr>kbd := k\<lparr>scan_break := scan_break (kbd s)\<rparr>\<rparr>))"

section \<open>The machine\<close>

datatype event = Ev_syscall syscall | Ev_timer | Ev_key u8

fun handle :: "event \<Rightarrow> kernel \<Rightarrow> (kernel, int) outcome" where
  "handle (Ev_syscall c) s = syscall_handler c s"
| "handle Ev_timer s = pit_interrupt_handler s"
| "handle (Ev_key data) s = keyboard_interrupt_handler data s"

text \<open>
  A configuration: a process runs at user level, or a switch has just been made and the chosen
  process has to go on inside the kernel, or the machine has stopped.
\<close>

datatype config = User kernel | Switching kernel | Stopped string | Hung

fun config_of :: "(kernel, int) outcome \<Rightarrow> config" where
  "config_of (Done v s) = User s"
| "config_of (Switched s) = Switching s"
| "config_of (Panic e) = Stopped e"
| "config_of Hang = Hung"

inductive kernel_step :: "config \<Rightarrow> event option \<Rightarrow> config \<Rightarrow> bool" where
  Event: "kernel_step (User s) (Some e) (config_of (handle e s))"
| Resume: "kernel_step (Switching s) None (config_of (resume_active s))"

inductive_cases stepE: "kernel_step c e c'"
inductive_simps kernel_step_User [simp]: "kernel_step (User s) e c"
inductive_simps kernel_step_Switching [simp]: "kernel_step (Switching s) e c"
inductive_simps kernel_step_stopped [simp]: "kernel_step (Stopped m) e c" "kernel_step Hung e c"

inductive kernel_run :: "config \<Rightarrow> event list \<Rightarrow> config \<Rightarrow> bool" where
  Stop: "kernel_run c [] c"
| Silent: "kernel_step c None c' \<Longrightarrow> kernel_run c' es c'' \<Longrightarrow> kernel_run c es c''"
| Visible: "kernel_step c (Some e) c' \<Longrightarrow> kernel_run c' es c'' \<Longrightarrow> kernel_run c (e # es) c''"

text \<open>A step is determined by the configuration and the event.\<close>

lemma kernel_step_deterministic:
  "kernel_step c e c' \<Longrightarrow> kernel_step c e c'' \<Longrightarrow> c' = c''"
  by (cases c) auto

text \<open>Progress: while a process runs, every event is handled; after a switch the kernel goes on.\<close>

lemma kernel_step_total:
  "(\<exists>c'. kernel_step (User s) (Some e) c') \<and> (\<exists>c'. kernel_step (Switching s) None c')"
  by (auto intro: kernel_step.intros)

section \<open>Exit and wait together\<close>

lemma put_user_int_children [simp]: "children (put_user_int a v s) p cs = children s p cs"
  by (simp add: children_def siblings_def [abs_def])

text \<open>
  A child that exits while its parent, of a higher priority, waits for it: the parent runs at once,
  its call returns the identifier of the child, and the exit code is where it asked for it.
\<close>

lemma exit_then_wait:
  assumes h: "runs_highest s R" and p: "p = process_active s" and q: "q = p_parent (proc s p)"
    and w: "parent_waits s p" and leaf: "p_child (proc s p) = NULL" and pid: "p_pid (proc s p) \<noteq> 0"
    and prio: "p_priority (proc s p) < p_priority (proc s q)"
      "p_priority (proc s q) < PROCESS_MAX_PRIORITY"
    and fr: "frames s q = [Fr_wait a]" and c: "children s q cs" "p \<in> set cs"
    and ids: "pool_ids (process_id_pool s) U" "table_ids (process_pool s) U"
    and pool: "process_pool s (p_pid (proc s p)) = p"
    and code: "- (2 ^ 31) \<le> code" "code < 2 ^ 31"
  shows "\<exists>s' t. process_exit code s = Switched s' \<and> process_active s' = q
    \<and> resume_active s' = Done (p_pid (proc s p)) t
    \<and> (a \<noteq> NULL \<longrightarrow> sint (load32 (umem t) a) = code)
    \<and> process_pool t (p_pid (proc s p)) = NULL \<and> children t q (remove1 p cs)"
proof -
  have pq: "p \<noteq> q" "q \<noteq> NULL" using w runs_highestD(5) [OF h] by (auto simp: parent_waits_def p q)
  have "0 \<le> p_priority (proc s p)"
    using runs_highestD(3) [OF h, of "p_priority (proc s p)"] runs_highestD(2) [OF h]
    by (cases "R (p_priority (proc s p))") (auto simp: p)
  then have v: "0 \<le> p_priority (proc s q)" using prio by simp
  have ws: "woken s p = [q]" using w by (simp add: woken_def q)
  have "q \<in> set (wake_rings s [q] R (p_priority (proc s q)))" by (rule wake_rings_woken) simp
  then have "\<exists>j. blocked s (wake_rings s [q] R) j \<noteq> []"
    using prio(1) by (intro exI [of _ "p_priority (proc s q)"]) (auto simp: blocked_def Let_def p)
  from exit_repr [OF p q ws [symmetric] h leaf pid _ this, of code] v prio(2) obtain s' where
    s': "process_exit code s = Switched s'" "p_state (proc s' p) = PROCESS_ZOMBIE"
      "u0 (proc s' p) = word_of_int code" "u2 (proc s' q) = p"
      "\<forall>x. x \<noteq> p \<longrightarrow> steady (proc s x) (proc s' x)" "p_pid (proc s' p) = p_pid (proc s p)"
      "p_parent (proc s' p) = q" "p_child (proc s' p) = NULL"
      "p_sibling (proc s' p) = p_sibling (proc s p)" "ran s s'"
      "\<forall>x. x \<noteq> p \<longrightarrow> frames s' x = frames s x" "process_active s' = q"
    using prio(1) by (auto simp: valid_priorities_def)
  have sib: "siblings s' = siblings s"
    using s'(5,9) by (fastforce simp: siblings_def steady_def)
  have c': "children s' q cs"
    using c(1) s'(5,7) pq by (auto simp: children_def sib steady_def)
  let ?s1 = "s'\<lparr>frames := (frames s')(q := [])\<rparr>"
  let ?s2 = "put_user_int a (exit_code (proc s' p)) ?s1"
  have e: "exit_code (proc s' p) = code" using code s'(3) by (simp add: exit_code_def sint_word_of_int32)
  have c2: "children ?s2 q cs" using c' by (simp add: children_def siblings_def [abs_def])
  have u: "proc ?s2 = proc s'" "process_pool ?s2 = process_pool s" "process_id_pool ?s2 = process_id_pool s"
    using ran_kernel [OF s'(10)] by (simp_all add: put_user_int_def)
  from process_free_repr [OF c2 c(2) pq(2), unfolded u, OF s'(2,8) ids] pool s'(6) obtain t where
    t: "process_free p ?s2 = Done () t" "children t q (remove1 p cs)"
      "process_pool t = (process_pool s)(p_pid (proc s p) := NULL)"
      "p_pid (proc t p) = p_pid (proc s p)" "umem t = umem ?s2" by auto
  have "resume_active s' = wait_finish a p ?s1"
    using fr s'(4,11,12) pq
    by (cases "wait_finish a p ?s1") (simp_all add: resume_active_def fun_upd_twist)
  also have "\<dots> = Done (p_pid (proc s p)) t"
    using t(1,4) by (simp add: wait_finish_def)
  finally have "resume_active s' = Done (p_pid (proc s p)) t" .
  moreover have "a \<noteq> NULL \<Longrightarrow> sint (load32 (umem t) a) = code"
    using put_user_int_load [of a code ?s1] code t(5) e by simp
  ultimately show ?thesis using s'(1,12) t by (intro exI [of _ s'] exI [of _ t]) simp
qed

end
