(* ===== verification/Kernel_Invariant.thy ===== *)
theory Kernel_Invariant
  imports Kernel_Machine
begin

text \<open>
  The invariant of the whole machine. Every process of the table that has not ended and does not wait
  for a child is in exactly one place: a ring of the scheduler, the list of the processes that wait for
  the clock, the waiting list of a message queue, or the list of those that wait for the console.
  \<open>lists\<close> is this abstract state, \<open>kernel_ok\<close> says that the pointers of the kernel represent it, that a
  process of the highest priority runs, that parents and children fit together and that the suspended
  calls can be resumed.
\<close>

section \<open>The abstract state\<close>

record lists =
  ready :: rings
  timed :: "ptr list"
  on_queue :: "ptr \<Rightarrow> ptr list"
  on_console :: "ptr list"

definition waiting :: "lists \<Rightarrow> ptr set" where
  "waiting L = set (timed L) \<union> (\<Union>q. set (on_queue L q)) \<union> set (on_console L)"

definition running :: "lists \<Rightarrow> ptr set" where
  "running L = (\<Union>k. set (ready L k))"

definition members :: "lists \<Rightarrow> ptr set" where
  "members L = running L \<union> waiting L"

text \<open>The message queues in the table, with their identifiers.\<close>

definition pooled :: "kernel \<Rightarrow> ptr \<Rightarrow> bool" where
  "pooled s q \<longleftrightarrow> q \<noteq> NULL \<and> (\<exists>n. queue_pool s n = q)"

definition queue_table_ok :: "kernel \<Rightarrow> bool" where
  "queue_table_ok s \<longleftrightarrow> (\<exists>U. pool_ids (queue_id_pool s) U \<and> table_ids (queue_pool s) U)
     \<and> id_pool_cap (queue_id_pool s) = QUEUE_POOL_CAP
     \<and> (\<forall>n. queue_pool s n \<noteq> NULL \<longrightarrow> qid (queue s (queue_pool s n)) = n)"

definition valid_priority :: "kernel \<Rightarrow> ptr \<Rightarrow> bool" where
  "valid_priority s p \<longleftrightarrow> 0 \<le> p_priority (proc s p) \<and> p_priority (proc s p) < PROCESS_MAX_PRIORITY"

text \<open>
  No process is lost: the processes on the lists are in the table, and a process of the table is on
  one of the lists, unless it waits for a child or is a zombie.
\<close>

definition table :: "kernel \<Rightarrow> ptr set" where
  "table s = {p. p \<noteq> NULL \<and> (\<exists>n. process_pool s n = p)}"

definition all_placed :: "kernel \<Rightarrow> lists \<Rightarrow> bool" where
  "all_placed s L \<longleftrightarrow> members L \<subseteq> table s \<and>
     (\<forall>p\<in>table s. p \<in> members L \<or> p_state (proc s p) \<in> {PROCESS_WAIT_CHILD, PROCESS_ZOMBIE})"

definition process_table_ok :: "kernel \<Rightarrow> bool" where
  "process_table_ok s \<longleftrightarrow> (\<exists>U. pool_ids (process_id_pool s) U \<and> table_ids (process_pool s) U)
     \<and> id_pool_cap (process_id_pool s) = PROCESS_POOL_CAP"

definition kernel_repr :: "kernel \<Rightarrow> lists \<Rightarrow> bool" where
  "kernel_repr s L \<longleftrightarrow> runs_highest s (ready L)
     \<and> time_repr s (timed L) \<and> sorted (targets s (timed L)) \<and> cons_repr s (on_console L)
     \<and> (\<forall>q. if pooled s q then queue_repr s q (on_queue L q) else on_queue L q = [])
     \<and> queue_table_ok s \<and> process_table_ok s \<and> all_placed s L \<and> (\<forall>p\<in>waiting L. valid_priority s p)"

text \<open>
  The suspended calls of the processes on the lists. A process in the middle of killing another is not
  among them, and a wait for a child is a case of its own (\<open>pending\<close>). After the Enter key only calls
  of the character handler are left.
\<close>

fun calm_frame :: "frame \<Rightarrow> bool" where
  "calm_frame (Fr_return v) = True"
| "calm_frame (Fr_pit clock) = True"
| "calm_frame (Fr_start p) = True"
| "calm_frame (Fr_wait a) = False"
| "calm_frame (Fr_kill p code next_process child) = False"
| "calm_frame Fr_exit = False"
| "calm_frame Fr_queue_wait = True"
| "calm_frame Fr_send = True"
| "calm_frame (Fr_receive a) = True"
| "calm_frame (Fr_delete q) = True"
| "calm_frame (Fr_cons_read dst len) = True"
| "calm_frame (Fr_enter calls) = (\<forall>c\<in>set calls. case c of CharCall ch \<Rightarrow> True | _ \<Rightarrow> False)"
| "calm_frame Fr_startup = True"

fun reads_console :: "frame \<Rightarrow> bool" where
  "reads_console (Fr_cons_read dst len) = True"
| "reads_console fr = False"

text \<open>The idle process never waits, so that there is always a process to run.\<close>

definition calm :: "ptr \<Rightarrow> ptr \<Rightarrow> frame list \<Rightarrow> bool" where
  "calm idler p frs \<longleftrightarrow> (\<forall>fr\<in>set frs. calm_frame fr \<and> (p = idler \<longrightarrow> \<not> reads_console fr))"

text \<open>
  The families. The list of the children of a process has exactly the processes of the table whose
  parent it is. A zombie has no children. A process that waits for a child has one that it waits for,
  and none of these has ended: no wake-up is lost. \<open>pending s p\<close>: a child that \<open>p\<close> waited for has ended,
  and \<open>p\<close> has not gone on yet.
\<close>

definition waits_for :: "kernel \<Rightarrow> ptr \<Rightarrow> ptr \<Rightarrow> bool" where
  "waits_for s p c \<longleftrightarrow> p_parent (proc s c) = p
     \<and> (child_pid (proc s p) < 0 \<or> child_pid (proc s p) = p_pid (proc s c))"

definition awaits :: "kernel \<Rightarrow> ptr \<Rightarrow> bool" where
  "awaits s p \<longleftrightarrow> (\<exists>a. frames s p = [Fr_wait a]) \<and> valid_priority s p \<and> (\<exists>c\<in>table s. waits_for s p c)
     \<and> (\<forall>c\<in>table s. waits_for s p c \<longrightarrow> p_state (proc s c) \<noteq> PROCESS_ZOMBIE)"

definition kinship :: "kernel \<Rightarrow> ptr \<Rightarrow> bool" where
  "kinship s p \<longleftrightarrow> (\<forall>n. process_pool s n = p \<longleftrightarrow> n = p_pid (proc s p))
     \<and> (\<exists>cs. children s p cs \<and> set cs = {c \<in> table s. p_parent (proc s c) = p})
     \<and> p_parent (proc s p) \<in> insert NULL (table s)
     \<and> (p_state (proc s p) = PROCESS_ZOMBIE \<longrightarrow> p_child (proc s p) = NULL)
     \<and> (p_state (proc s p) = PROCESS_WAIT_CHILD \<longrightarrow> awaits s p)"

definition family_ok :: "kernel \<Rightarrow> bool" where
  "family_ok s \<longleftrightarrow> (\<forall>p\<in>table s. kinship s p)"

definition pending :: "kernel \<Rightarrow> ptr \<Rightarrow> bool" where
  "pending s p \<longleftrightarrow> (\<exists>a. frames s p = [Fr_wait a]) \<and> p_state (proc s p) = PROCESS_SCHED
     \<and> new_zombie_child (proc s p) \<in> table s \<and> p_parent (proc s (new_zombie_child (proc s p))) = p
     \<and> p_state (proc s (new_zombie_child (proc s p))) = PROCESS_ZOMBIE"

definition kernel_ok :: "ptr \<Rightarrow> kernel \<Rightarrow> lists \<Rightarrow> bool" where
  "kernel_ok idler s L \<longleftrightarrow> kernel_repr s L \<and> family_ok s
     \<and> (\<forall>p\<in>members L. calm idler p (frames s p) \<or> p \<noteq> idler \<and> pending s p)
     \<and> idler \<in> running L \<and> process_pool s 0 = idler \<and> current_layout (kbd s) \<noteq> None"

lemma calm_Nil [simp]: "calm idler p []"
  by (simp add: calm_def)

lemma calm_append [simp]: "calm idler p (as @ bs) \<longleftrightarrow> calm idler p as \<and> calm idler p bs"
  by (auto simp: calm_def)

lemma calm_Cons [simp]:
  "calm idler p (fr # frs) \<longleftrightarrow> calm_frame fr \<and> (p = idler \<longrightarrow> \<not> reads_console fr) \<and> calm idler p frs"
  by (auto simp: calm_def)

section \<open>What the invariant gives\<close>

lemma kernel_reprD:
  assumes "kernel_repr s L"
  shows "runs_highest s (ready L)" "time_repr s (timed L)" "sorted (targets s (timed L))"
    "cons_repr s (on_console L)" "queue_table_ok s"
    "pooled s q \<Longrightarrow> queue_repr s q (on_queue L q)" "\<not> pooled s q \<Longrightarrow> on_queue L q = []"
    "p \<in> waiting L \<Longrightarrow> valid_priority s p" "all_placed s L" "process_table_ok s"
  using assms by (auto simp: kernel_repr_def split: if_splits)

lemma kernel_okD:
  assumes "kernel_ok idler s L"
  shows "kernel_repr s L" "p \<in> members L \<Longrightarrow> calm idler p (frames s p) \<or> p \<noteq> idler \<and> pending s p"
    "idler \<in> running L" "current_layout (kbd s) \<noteq> None" "family_ok s" "process_pool s 0 = idler"
  using assms by (auto simp: kernel_ok_def)

text \<open>Where a process waits is determined by its state.\<close>

lemma waiting_states:
  assumes r: "kernel_repr s L"
  shows "p \<in> set (timed L) \<Longrightarrow> p_state (proc s p) = PROCESS_WAIT_TIME"
    "p \<in> set (on_console L) \<Longrightarrow> p_state (proc s p) = PROCESS_WAIT_CONS_READ"
    "p \<in> set (on_queue L q) \<Longrightarrow> p_state (proc s p) = PROCESS_WAIT_QUEUE"
    "p \<in> set (on_queue L q) \<Longrightarrow> queue_queue (proc s p) = q"
    "p \<in> running L \<Longrightarrow> p_state (proc s p) = PROCESS_SCHED"
proof -
  note D = kernel_reprD [OF r]
  show "p \<in> set (timed L) \<Longrightarrow> p_state (proc s p) = PROCESS_WAIT_TIME"
    using D(2) by (simp add: time_repr_def)
  show "p \<in> set (on_console L) \<Longrightarrow> p_state (proc s p) = PROCESS_WAIT_CONS_READ"
    using D(4) by (simp add: cons_repr_def)
  assume q: "p \<in> set (on_queue L q)"
  then have "pooled s q" using D(7) by force
  then show "p_state (proc s p) = PROCESS_WAIT_QUEUE" "queue_queue (proc s p) = q"
    using queue_reprD(3,4) [OF D(6)] q by auto
next
  assume "p \<in> running L"
  then show "p_state (proc s p) = PROCESS_SCHED"
    using sched_reprD(5) [OF runs_highestD(1) [OF kernel_reprD(1) [OF r]]] by (auto simp: running_def)
qed

lemma off_running: "off_rings (ready L) p \<longleftrightarrow> p \<notin> running L"
  by (auto simp: off_rings_def running_def)

lemma waiting_off:
  assumes "kernel_repr s L" "p \<in> waiting L"
  shows "off_rings (ready L) p"
  using waiting_states [OF assms(1), of p] assms(2) by (auto simp: off_running waiting_def)

lemma active_running: "kernel_repr s L \<Longrightarrow> process_active s \<in> running L"
  using runs_highestD(2) [OF kernel_reprD(1)] by (fastforce simp: running_def)

lemma valid_lists:
  assumes "kernel_repr s L"
  shows "valid_priorities s (timed L)" "valid_priorities s (on_queue L q)" "valid_priorities s (on_console L)"
  using kernel_reprD(8) [OF assms] by (auto simp: valid_priorities_def valid_priority_def waiting_def)

lemma ready_valid:
  assumes "runs_highest s R" "p \<in> set (R k)"
  shows "valid_priority s p"
  using runs_highestD(3) [OF assms(1), of k] sched_reprD(6) [OF runs_highestD(1) [OF assms(1)] assms(2)] assms(2)
  by (cases "R k") (auto simp: valid_priority_def)

lemma members_valid: "kernel_repr s L \<Longrightarrow> p \<in> members L \<Longrightarrow> valid_priority s p"
  using ready_valid [OF kernel_reprD(1)] kernel_reprD(8) by (auto simp: members_def running_def)

text \<open>Another process than the active one is ready, so that the active one may stop.\<close>

lemma idle_left:
  assumes ok: "kernel_ok idler s L" and a: "process_active s \<noteq> idler"
  shows "\<exists>j. blocked s (ready L) j \<noteq> []" "idler \<in> running (L\<lparr>ready := blocked s (ready L)\<rparr>)"
proof -
  obtain k where "idler \<in> set (ready L k)" using kernel_okD(3) [OF ok] by (auto simp: running_def)
  then have k: "idler \<in> set (blocked s (ready L) k)" using a by (auto simp: blocked_def Let_def)
  then have "blocked s (ready L) k \<noteq> []" by (cases "blocked s (ready L) k") auto
  then show "\<exists>j. blocked s (ready L) j \<noteq> []" by blast
  show "idler \<in> running (L\<lparr>ready := blocked s (ready L)\<rparr>)" using k by (auto simp: running_def)
qed

section \<open>Moving processes between the lists\<close>

lemma set_blocked:
  assumes "runs_highest s R"
  shows "set (blocked s R k) = set (R k) - {process_active s}"
proof -
  note r = runs_highestD(1) [OF assms]
  show ?thesis
  proof (cases "k = p_priority (proc s (process_active s))")
    case True
    then show ?thesis using sched_reprD(2) [OF r, of k] by (simp add: blocked_def Let_def)
  next
    case False
    then have "process_active s \<notin> set (R k)" using sched_reprD(6) [OF r] by auto
    then show ?thesis using False by (simp add: blocked_def Let_def)
  qed
qed

lemma running_blocked:
  "kernel_repr s L \<Longrightarrow> running (L\<lparr>ready := blocked s (ready L)\<rparr>) = running L - {process_active s}"
  by (simp add: running_def set_blocked [OF kernel_reprD(1)])

lemma running_ready_first: "running (L\<lparr>ready := ready_first s p (ready L)\<rparr>) = insert p (running L)"
  by (auto simp: running_def ready_first_def Let_def split: if_splits)

lemma running_wake: "running (L\<lparr>ready := wake_rings s ps (ready L)\<rparr>) = set ps \<union> running L"
proof (induction ps arbitrary: L)
  case (Cons p ps)
  have "running (L\<lparr>ready := wake_rings s ps (ready_first s p (ready L))\<rparr>)
      = set ps \<union> running (L\<lparr>ready := ready_first s p (ready L)\<rparr>)"
    using Cons.IH [of "L\<lparr>ready := ready_first s p (ready L)\<rparr>"] by simp
  then show ?case by (simp add: running_ready_first)
qed simp

lemma running_requeued:
  assumes "p \<in> set (ready L k)"
  shows "running (L\<lparr>ready := requeued p k new (ready L)\<rparr>) = running L"
proof
  have "set (requeued p k new (ready L) j) \<subseteq> insert p (set (ready L j))" for j
    using set_remove1_subset [of p "ready L j"] by (auto simp: requeued_def Let_def)
  then show "running (L\<lparr>ready := requeued p k new (ready L)\<rparr>) \<subseteq> running L"
    using assms by (force simp: running_def)
  have "p \<in> set (requeued p k new (ready L) new)" by (simp add: requeued_def Let_def)
  then show "running L \<subseteq> running (L\<lparr>ready := requeued p k new (ready L)\<rparr>)"
    using requeued_mem [of _ p "ready L" _ k new] by (fastforce simp: running_def)
qed

lemma members_lists [simp]:
  "waiting (L\<lparr>ready := R\<rparr>) = waiting L"
  "running (L\<lparr>timed := ts\<rparr>) = running L"
  "running (L\<lparr>on_queue := W\<rparr>) = running L"
  "running (L\<lparr>on_console := cs\<rparr>) = running L"
  by (simp_all add: waiting_def running_def)

lemma waiting_split:
  "waiting L = set (timed L) \<union> (\<Union>r\<in>- {q}. set (on_queue L r)) \<union> set (on_queue L q) \<union> set (on_console L)"
  by (auto simp: waiting_def)

lemma waiting_queue:
  "waiting (L\<lparr>on_queue := (on_queue L)(q := ws)\<rparr>)
    = set (timed L) \<union> (\<Union>r\<in>- {q}. set (on_queue L r)) \<union> set ws \<union> set (on_console L)"
  by (auto simp: waiting_def split: if_splits)

section \<open>Steps that change one list\<close>

text \<open>The base \<open>b\<close> is \<open>s\<close> with its new list heads and tables.\<close>

lemma kernel_repr_placed:
  assumes r: "kernel_repr s L"
    and b: "proc b = proc s" "\<And>q. q \<notin> Q \<Longrightarrow> queue b q = queue s q"
    and t: "spares (ready L) P Q b s'"
    and hi: "runs_highest s' (ready L')" and pl: "all_placed s' L'" "process_table_ok s'"
    and v: "\<And>p. p \<in> waiting L' \<Longrightarrow> valid_priority s' p"
    and tm: "clock_wait_head b = clock_wait_head s \<and> timed L' = timed L \<and> set (timed L) \<inter> P = {}
      \<or> time_repr s' (timed L') \<and> sorted (targets s' (timed L'))"
    and cn: "cons_read_wait_head b = cons_read_wait_head s \<and> on_console L' = on_console L
        \<and> set (on_console L) \<inter> P = {} \<or> cons_repr s' (on_console L')"
    and tab: "queue_table_ok s'"
    and qu: "\<And>q. q \<notin> Q \<Longrightarrow> pooled s' q = pooled s q \<and> on_queue L' q = on_queue L q
        \<and> set (on_queue L q) \<inter> P = {}"
      "\<And>q. q \<in> Q \<Longrightarrow> if pooled s' q then queue_repr s' q (on_queue L' q) else on_queue L' q = []"
  shows "kernel_repr s' L'"
proof -
  note D = kernel_reprD [OF r]
  have same: "proc s' p = proc s p" if "p \<in> waiting L" "p \<notin> P" for p
    using t waiting_off [OF r that(1)] that(2) b by (simp add: spares_def)
  have k: "\<And>q. q \<notin> Q \<Longrightarrow> queue s' q = queue s q" "clock_wait_head s' = clock_wait_head b"
      "cons_read_wait_head s' = cons_read_wait_head b"
    using t b by (simp_all add: spares_def)
  have "time_repr s' (timed L') \<and> sorted (targets s' (timed L'))"
    using tm
  proof
    assume a: "clock_wait_head b = clock_wait_head s \<and> timed L' = timed L \<and> set (timed L) \<inter> P = {}"
    then have "proc s' p = proc s p" if "p \<in> set (timed L)" for p
      using same [of p] that by (auto simp: waiting_def)
    then show ?thesis using time_repr_same [OF D(2), of s'] D(3) a k
      by (simp add: targets_def cong: map_cong)
  qed
  moreover have "cons_repr s' (on_console L')"
    using cn
  proof
    assume a: "cons_read_wait_head b = cons_read_wait_head s \<and> on_console L' = on_console L
      \<and> set (on_console L) \<inter> P = {}"
    then have "proc s' p = proc s p" if "p \<in> set (on_console L)" for p
      using same [of p] that by (auto simp: waiting_def)
    then show ?thesis using cons_repr_same [OF D(4), of s'] a k by simp
  qed
  moreover have "if pooled s' q then queue_repr s' q (on_queue L' q) else on_queue L' q = []" for q
  proof (cases "q \<in> Q")
    case False
    have "proc s' p = proc s p" if "p \<in> set (on_queue L q)" for p
      using same [of p] that qu(1) [OF False] by (auto simp: waiting_def)
    then show ?thesis using qu(1) [OF False] queue_repr_same [OF D(6), of q s'] D(7) k(1) [OF False]
      by simp
  qed (rule qu(2))
  ultimately show ?thesis using hi tab v pl by (simp add: kernel_repr_def)
qed

lemma kernel_repr_change:
  assumes r: "kernel_repr s L"
    and b: "proc b = proc s" "\<And>q. q \<notin> Q \<Longrightarrow> queue b q = queue s q"
    and t: "spares (ready L) P Q b s'" "P \<subseteq> members L"
      "process_pool b = process_pool s" "process_id_pool b = process_id_pool s"
    and hi: "runs_highest s' (ready L')" and mem: "members L' = members L"
    and v: "\<And>p. p \<in> waiting L' \<Longrightarrow> valid_priority s' p"
    and tm: "clock_wait_head b = clock_wait_head s \<and> timed L' = timed L \<and> set (timed L) \<inter> P = {}
      \<or> time_repr s' (timed L') \<and> sorted (targets s' (timed L'))"
    and cn: "cons_read_wait_head b = cons_read_wait_head s \<and> on_console L' = on_console L
        \<and> set (on_console L) \<inter> P = {} \<or> cons_repr s' (on_console L')"
    and tab: "queue_table_ok s'"
    and qu: "\<And>q. q \<notin> Q \<Longrightarrow> pooled s' q = pooled s q \<and> on_queue L' q = on_queue L q
        \<and> set (on_queue L q) \<inter> P = {}"
      "\<And>q. q \<in> Q \<Longrightarrow> if pooled s' q then queue_repr s' q (on_queue L' q) else on_queue L' q = []"
  shows "kernel_repr s' L'"
proof (rule kernel_repr_placed [OF r b t(1) hi _ _ v tm cn tab qu])
  have "proc s' p = proc s p" if "p \<notin> members L" for p
    using t that b off_running [of L p] by (auto simp: spares_def members_def)
  moreover have p: "process_pool s' = process_pool s" "process_id_pool s' = process_id_pool s"
    using t(1,3,4) by (simp_all add: spares_def)
  moreover have "table s' = table s" using p by (simp add: table_def)
  ultimately show "all_placed s' L'" using kernel_reprD(9) [OF r] mem by (auto simp: all_placed_def)
  show "process_table_ok s'" using kernel_reprD(10) [OF r] p by (simp add: process_table_ok_def)
qed

lemma spares_table:
  assumes "spares R P Q b s'" "queue_pool b = queue_pool s" "queue_id_pool b = queue_id_pool s" "queue b = queue s"
  shows "queue_table_ok s' = queue_table_ok s" "pooled s' = pooled s"
  using assms by (simp_all add: spares_def queue_table_ok_def pooled_def [abs_def])

lemma touches_valid:
  assumes "kernel_repr s L" "touches R P Q b s'" "proc b = proc s" "p \<in> members L"
  shows "valid_priority s' p"
  using members_valid [OF assms(1,4)] assms(2,3) by (simp add: valid_priority_def touches_def)

text \<open>
  \<open>moves idler s L m\<close>: the call \<open>m\<close>, made by the active process of \<open>s\<close>, keeps the invariant and
  the set of processes; what it leaves suspended is on the stack of that process.
\<close>

definition moved :: "ptr \<Rightarrow> kernel \<Rightarrow> lists \<Rightarrow> kernel \<Rightarrow> bool" where
  "moved idler s L s' \<longleftrightarrow> (frames s (process_active s) = [] \<longrightarrow>
     (\<exists>L'. kernel_ok idler s' L' \<and> members L' = members L)
     \<and> (\<forall>p. p \<noteq> process_active s \<longrightarrow> frames s' p = frames s p)
     \<and> calm idler (process_active s) (frames s' (process_active s)))"

fun moves :: "ptr \<Rightarrow> kernel \<Rightarrow> lists \<Rightarrow> (kernel, 'a) outcome \<Rightarrow> bool" where
  "moves idler s L (Done v s') \<longleftrightarrow> (frames s (process_active s) = [] \<longrightarrow>
     moved idler s L s' \<and> process_active s' = process_active s \<and> frames s' = frames s)"
| "moves idler s L (Switched s') \<longleftrightarrow> moved idler s L s'"
| "moves idler s L (Panic e) \<longleftrightarrow> frames s (process_active s) \<noteq> []"
| "moves idler s L Hang \<longleftrightarrow> frames s (process_active s) \<noteq> []"

text \<open>The families stay as they are.\<close>

lemma members_state:
  "kernel_repr s L \<Longrightarrow> p \<in> members L \<Longrightarrow> p_state (proc s p) \<noteq> PROCESS_ZOMBIE \<and> p_state (proc s p) \<noteq> PROCESS_WAIT_CHILD"
  using waiting_states [of s L p] by (auto simp: members_def waiting_def)

lemma children_kin:
  "(\<And>p. kin (proc s p) (proc s' p)) \<Longrightarrow> children s p cs \<Longrightarrow> children s' p cs"
  by (simp add: children_def siblings_def [abs_def] kin_def)

lemma family_kept:
  assumes r: "kernel_repr s L" and r': "kernel_repr s' L'" and mem: "members L' = members L"
    and fam: "family_ok s" and kin: "\<And>p. kin (proc s p) (proc s' p)"
    and out: "\<And>p. p \<notin> members L \<Longrightarrow> proc s' p = proc s p"
    and pool: "process_pool s' = process_pool s" and fr: "\<And>p. p \<notin> members L \<Longrightarrow> frames s' p = frames s p"
  shows "family_ok s'"
  unfolding family_ok_def
proof
  fix p assume p: "p \<in> table s'"
  have t: "table s' = table s" using pool by (simp add: table_def)
  note k = kin [unfolded kin_def]
  have f: "kinship s p" using fam p t by (simp add: family_ok_def)
  have zomb: "p_state (proc s c) = PROCESS_ZOMBIE" if "p_state (proc s' c) = PROCESS_ZOMBIE" for c
    using that members_state [OF r', of c] out [of c] mem by metis
  have "awaits s' p" if "p_state (proc s' p) = PROCESS_WAIT_CHILD"
  proof -
    have o: "p \<notin> members L" using that members_state [OF r', of p] mem by auto
    then have "awaits s p" using f that out by (simp add: kinship_def)
    moreover have "waits_for s' p c = waits_for s p c" for c using k out [OF o] by (simp add: waits_for_def)
    ultimately show ?thesis using zomb out [OF o] fr [OF o] t by (auto simp: awaits_def valid_priority_def)
  qed
  moreover have "p_child (proc s' p) = NULL" if "p_state (proc s' p) = PROCESS_ZOMBIE"
    using f zomb [OF that] k by (simp add: kinship_def)
  moreover obtain cs where "children s p cs" "set cs = {c \<in> table s. p_parent (proc s c) = p}"
    using f by (auto simp: kinship_def)
  then have "\<exists>cs. children s' p cs \<and> set cs = {c \<in> table s'. p_parent (proc s' c) = p}"
    using children_kin [OF kin] k t by auto
  ultimately show "kinship s' p" using f k t pool by (auto simp: kinship_def)
qed

lemma pending_same:
  assumes "pending s p" "frames s' p = frames s p" "p_state (proc s' p) = p_state (proc s p)"
    "u2 (proc s' p) = u2 (proc s p)"
    and "\<And>z. \<lbrakk>z \<in> table s; p_parent (proc s z) = p; p_state (proc s z) = PROCESS_ZOMBIE\<rbrakk>
      \<Longrightarrow> z \<in> table s' \<and> p_parent (proc s' z) = p \<and> p_state (proc s' z) = PROCESS_ZOMBIE"
  shows "pending s' p"
  using assms by (auto simp: pending_def)

lemma pending_kept:
  assumes r: "kernel_repr s L" and rel: "relatives (ready L) s s'" and p: "p \<in> members L" "p \<noteq> process_active s"
    and out: "\<And>p. p \<notin> members L \<Longrightarrow> proc s' p = proc s p" and pool: "process_pool s' = process_pool s"
    and fr: "frames s' p = frames s p" and pd: "pending s p"
  shows "pending s' p"
proof (rule pending_same [OF pd fr])
  have "p \<in> running L" using p(1) pd waiting_states [OF r, of p] by (auto simp: pending_def members_def waiting_def)
  then show "p_state (proc s' p) = p_state (proc s p)" "u2 (proc s' p) = u2 (proc s p)"
    using rel p(2) off_running [of L p] by (auto simp: relatives_def)
  fix z assume z: "z \<in> table s" "p_parent (proc s z) = p" "p_state (proc s z) = PROCESS_ZOMBIE"
  then have "z \<notin> members L" using members_state [OF r, of z] by auto
  then show "z \<in> table s' \<and> p_parent (proc s' z) = p \<and> p_state (proc s' z) = PROCESS_ZOMBIE"
    using z out pool by (simp add: table_def)
qed

lemma moved_change:
  assumes ok: "kernel_ok idler s L" and r: "kernel_repr s' L'" and mem: "members L' = members L"
    and i: "idler \<in> running L'"
    and sp: "spares (ready L) P Q b s'" "P \<subseteq> members L" "proc b = proc s" "process_pool b = process_pool s"
      "kbd b = kbd s"
    and rel: "relatives (ready L) s s'"
    and fr: "suspends s fs s'" "calm idler (process_active s) fs"
  shows "moved idler s L s'"
  unfolding moved_def
proof (intro impI conjI)
  assume e: "frames s (process_active s) = []"
  note r0 = kernel_okD(1) [OF ok]
  have same: "proc s' p = proc s p" if "p \<notin> members L" for p
    using sp(1-3) that off_running [of L p] by (auto simp: spares_def members_def)
  have pl: "process_pool s' = process_pool s" and kb: "kbd s' = kbd s"
    using sp by (simp_all add: spares_def)
  have o: "\<forall>p. p \<noteq> process_active s \<longrightarrow> frames s' p = frames s p" using fr(1) by (simp add: suspends_def)
  then show "\<forall>p. p \<noteq> process_active s \<longrightarrow> frames s' p = frames s p" .
  show c: "calm idler (process_active s) (frames s' (process_active s))"
    using fr e by (auto simp: suspends_def)
  have a: "process_active s \<in> members L" using active_running [OF r0] by (simp add: members_def)
  have "calm idler p (frames s' p) \<or> p \<noteq> idler \<and> pending s' p" if "p \<in> members L'" for p
  proof (cases "p = process_active s")
    case False
    then show ?thesis
      using kernel_okD(2) [OF ok, of p] pending_kept [OF r0 rel _ False same pl] that mem o by auto
  qed (use c in simp)
  moreover have "family_ok s'"
  proof (rule family_kept [OF r0 r mem kernel_okD(5) [OF ok] _ same pl])
    show "frames s' p = frames s p" if "p \<notin> members L" for p
      using o a that by metis
  qed (use rel in \<open>simp add: relatives_def\<close>)
  ultimately show "\<exists>L'. kernel_ok idler s' L' \<and> members L' = members L"
    using r mem i pl kb kernel_okD(4,6) [OF ok] by (auto simp: kernel_ok_def)
qed

lemma moved_refl [simp]: "kernel_ok idler s L \<Longrightarrow> moved idler s L s"
  by (auto simp: moved_def)

lemma moves_completes: "moved idler s L s' \<Longrightarrow> completes s v m s' \<Longrightarrow> moves idler s L m"
  by (auto simp: completes_def)

lemma lists_disjoint:
  assumes "kernel_repr s L"
  shows "set (timed L) \<inter> set (on_queue L q) = {}" "set (on_console L) \<inter> set (on_queue L q) = {}"
    "set (timed L) \<inter> set (on_console L) = {}"
    "q \<noteq> r \<Longrightarrow> set (on_queue L q) \<inter> set (on_queue L r) = {}"
  using waiting_states(1,3) [OF assms] waiting_states(2,3) [OF assms] waiting_states(1,2) [OF assms]
    waiting_states(4) [OF assms, of _ q] waiting_states(4) [OF assms, of _ r]
  by (metis disjoint_iff process_state.distinct)+

text \<open>A step on one message queue.\<close>

lemma moved_queue:
  assumes ok: "kernel_ok idler s L" and q: "pooled s q"
    and t: "spares (ready L) (set (on_queue L q)) {q} s s'" and rel: "relatives (ready L) s s'"
    and v: "\<And>p. p \<in> members L \<Longrightarrow> valid_priority s' p"
    and hi: "runs_highest s' R'" and qr: "queue_repr s' q ws"
    and mem: "running (L\<lparr>ready := R'\<rparr>) \<union> set ws = running L \<union> set (on_queue L q)"
    and i: "idler \<in> running (L\<lparr>ready := R'\<rparr>)"
    and fr: "suspends s fs s'" "calm idler (process_active s) fs"
  shows "moved idler s L s'"
proof (rule moved_change [OF ok _ _ _ t _ refl refl refl rel fr])
  let ?L = "L\<lparr>ready := R', on_queue := (on_queue L)(q := ws)\<rparr>"
  note r = kernel_okD(1) [OF ok]
  have run: "running ?L = running (L\<lparr>ready := R'\<rparr>)" by (simp add: running_def)
  have "waiting ?L = set (timed L) \<union> (\<Union>r\<in>- {q}. set (on_queue L r)) \<union> set ws \<union> set (on_console L)"
    using waiting_queue [of "L\<lparr>ready := R'\<rparr>" q ws] by simp
  then show m: "members ?L = members L" using mem run waiting_split [of L q] by (auto simp: members_def)
  note tb = spares_table [OF t refl refl refl]
  show "kernel_repr s' ?L"
  proof (rule kernel_repr_change [OF r refl refl t _ refl refl])
    show "runs_highest s' (ready ?L)" using hi by simp
    show "members ?L = members L" by (rule m)
    show "set (on_queue L q) \<subseteq> members L" by (auto simp: members_def waiting_def)
    show "valid_priority s' p" if "p \<in> waiting ?L" for p using that v m by (auto simp: members_def)
    show "queue_table_ok s'" using tb kernel_reprD(5) [OF r] by simp
    show "if pooled s' x then queue_repr s' x (on_queue ?L x) else on_queue ?L x = []" if "x \<in> {q}" for x
      using that q qr tb by simp
    show "pooled s' x = pooled s x \<and> on_queue ?L x = on_queue L x
        \<and> set (on_queue L x) \<inter> set (on_queue L q) = {}" if "x \<notin> {q}" for x
      using that tb lists_disjoint(4) [OF r, of x q] by simp
  qed (use lists_disjoint(1,2) [OF r, of q] in simp_all)
  show "idler \<in> running ?L" using i run by simp
  show "set (on_queue L q) \<subseteq> members L" by (auto simp: members_def waiting_def)
qed

lemma moved_queue_touches:
  assumes ok: "kernel_ok idler s L" and q: "pooled s q"
    and t: "touches (ready L) (set (on_queue L q)) {q} s s'"
  shows "\<lbrakk>runs_highest s' R'; queue_repr s' q ws;
    running (L\<lparr>ready := R'\<rparr>) \<union> set ws = running L \<union> set (on_queue L q);
    idler \<in> running (L\<lparr>ready := R'\<rparr>); suspends s fs s'; calm idler (process_active s) fs\<rbrakk>
    \<Longrightarrow> moved idler s L s'"
  using t touches_valid [OF kernel_okD(1) [OF ok] t refl]
  by (intro moved_queue [OF ok q]) (simp_all add: touches_def)

section \<open>Steps that change the rings only\<close>

lemma moved_ready:
  assumes ok: "kernel_ok idler s L" and t: "spares (ready L) {} {} s s'" and rel: "relatives (ready L) s s'"
    and hi: "runs_highest s' R'" and mem: "running (L\<lparr>ready := R'\<rparr>) = running L"
    and fr: "suspends s fs s'" "calm idler (process_active s) fs"
  shows "moved idler s L s'"
proof (rule moved_change [OF ok _ _ _ t _ refl refl refl rel fr])
  let ?L = "L\<lparr>ready := R'\<rparr>"
  note r = kernel_okD(1) [OF ok]
  note tb = spares_table [OF t refl refl refl]
  show m: "members ?L = members L" using mem by (simp add: members_def)
  show "kernel_repr s' ?L"
  proof (rule kernel_repr_change [OF r refl refl t _ refl refl])
    show "valid_priority s' p" if "p \<in> waiting ?L" for p
      using t waiting_off [OF r, of p] kernel_reprD(8) [OF r, of p] that
      by (simp add: spares_def valid_priority_def)
    show "queue_table_ok s'" using tb kernel_reprD(5) [OF r] by simp
  qed (use m hi tb in simp_all)
  show "idler \<in> running ?L" using kernel_okD(3) [OF ok] mem by simp
qed simp

section \<open>Calls inside calls\<close>

text \<open>What is not part of the invariant.\<close>

lemma family_ok_cong:
  assumes "proc s' = proc s" "process_pool s' = process_pool s" "frames s' = frames s"
  shows "family_ok s' = family_ok s" "pending s' p = pending s p"
  using assms
  by (simp_all add: family_ok_def kinship_def awaits_def waits_for_def table_def valid_priority_def pending_def
      children_def siblings_def [abs_def])

lemma kernel_ok_same:
  assumes "kernel_ok idler s L"
    and "s' = s\<lparr>pit_clock := clk, cons := con, kbd := kb, umem := mem, heap := hp\<rparr>"
    and "current_layout kb \<noteq> None"
  shows "kernel_ok idler s' L"
proof -
  have l: "link0 s' = link0 s" "link1 s' = link1 s" by (simp_all add: assms(2) link0_def [abs_def] link1_def [abs_def])
  have "sched_repr s' R = sched_repr s R" for R by (simp add: sched_repr_def l) (simp add: assms(2))
  then have "kernel_repr s' L = kernel_repr s L"
    unfolding kernel_repr_def runs_highest_def time_repr_def cons_repr_def queue_repr_def
      waiters_def l queue_table_ok_def process_table_ok_def all_placed_def pooled_def valid_priority_def targets_def
      table_def
    by (simp add: assms(2))
  moreover have "family_ok s' = family_ok s" "pending s' p = pending s p" for p
    by (rule family_ok_cong; simp add: assms(2))+
  ultimately show ?thesis using assms(1,3) by (simp add: kernel_ok_def) (simp add: assms(2))
qed

lemma kernel_ok_globals [intro]:
  assumes "kernel_ok idler s L"
  shows "kernel_ok idler (s\<lparr>pit_clock := x\<rparr>) L" "kernel_ok idler (s\<lparr>cons := c\<rparr>) L"
    "kernel_ok idler (s\<lparr>umem := m\<rparr>) L" "kernel_ok idler (s\<lparr>heap := H\<rparr>) L"
    "kernel_ok idler (s\<lparr>cons := c, umem := m\<rparr>) L"
proof -
  note same = kernel_ok_same [OF assms _ kernel_okD(4) [OF assms]]
  show "kernel_ok idler (s\<lparr>pit_clock := x\<rparr>) L"
    by (rule same [where clk = x and con = "cons s" and mem = "umem s" and hp = "heap s"]) simp
  show "kernel_ok idler (s\<lparr>cons := c\<rparr>) L"
    by (rule same [where clk = "pit_clock s" and con = c and mem = "umem s" and hp = "heap s"]) simp
  show "kernel_ok idler (s\<lparr>umem := m\<rparr>) L"
    by (rule same [where clk = "pit_clock s" and con = "cons s" and mem = m and hp = "heap s"]) simp
  show "kernel_ok idler (s\<lparr>heap := H\<rparr>) L"
    by (rule same [where clk = "pit_clock s" and con = "cons s" and mem = "umem s" and hp = H]) simp
  show "kernel_ok idler (s\<lparr>cons := c, umem := m\<rparr>) L"
    by (rule same [where clk = "pit_clock s" and con = c and mem = m and hp = "heap s"]) simp
qed

lemma kernel_ok_kbd [intro]:
  "kernel_ok idler s L \<Longrightarrow> current_layout k \<noteq> None \<Longrightarrow> kernel_ok idler (s\<lparr>kbd := k\<rparr>) L"
  by (rule kernel_ok_same [where clk = "pit_clock s" and con = "cons s" and kb = k and mem = "umem s" and hp = "heap s"])
    (auto intro: kernel.equality)

lemma moved_frames:
  "kernel_ok idler s' L \<Longrightarrow> frames s' = frames s \<Longrightarrow> moved idler s L s'"
  by (auto simp: moved_def)

lemma moves_trans:
  assumes "moves idler s' L' m" "members L' = members L" "process_active s' = process_active s"
    "frames s' = frames s"
  shows "moves idler s L m"
  using assms by (cases m) (auto simp: moved_def)

lemma moves_bind:
  assumes m: "moves idler s L m"
    and f: "\<And>v s' L'. \<lbrakk>m = Done v s'; kernel_ok idler s' L'; process_active s' = process_active s\<rbrakk>
      \<Longrightarrow> moves idler s' L' (f v s')"
  shows "moves idler s L (bindK m f)"
proof (cases "frames s (process_active s) = []")
  case e: True
  show ?thesis
  proof (cases m)
    case (Done v s')
    then obtain L' where l: "kernel_ok idler s' L'" "members L' = members L"
        "process_active s' = process_active s" "frames s' = frames s" using m e by (auto simp: moved_def)
    from moves_trans [OF f [OF Done l(1,3)] l(2-4)] show ?thesis by (simp add: Done)
  qed (use m in auto)
qed (cases "bindK m f"; simp add: moved_def)

lemma kernel_repr_same:
  assumes "t = s\<lparr>frames := F, kbd := k\<rparr>"
  shows "kernel_repr t L = kernel_repr s L"
proof -
  have l: "link0 t = link0 s" "link1 t = link1 s"
    by (simp_all add: assms link0_def [abs_def] link1_def [abs_def])
  have "sched_repr t R = sched_repr s R" for R by (simp add: sched_repr_def l) (simp add: assms)
  then show ?thesis
    unfolding kernel_repr_def runs_highest_def time_repr_def cons_repr_def queue_repr_def waiters_def l
      queue_table_ok_def process_table_ok_def all_placed_def pooled_def valid_priority_def targets_def
      table_def
    by (simp add: assms)
qed

lemma kernel_repr_frames: "kernel_repr (s\<lparr>frames := F\<rparr>) L = kernel_repr s L"
  by (rule kernel_repr_same [where F = F and k = "kbd s"]) simp

lemma kernel_repr_kbd: "kernel_repr (s\<lparr>kbd := k\<rparr>) L = kernel_repr s L"
  by (rule kernel_repr_same [where F = "frames s" and k = k]) simp

lemma kernel_ok_frames:
  assumes ok: "kernel_ok idler s L" and p: "p_state (proc s p) = PROCESS_WAIT_CHILD \<Longrightarrow> p \<notin> table s"
    and F: "calm idler p (F p)" "\<And>x. x \<noteq> p \<Longrightarrow> F x = frames s x"
  shows "kernel_ok idler (s\<lparr>frames := F\<rparr>) L"
proof -
  let ?s = "s\<lparr>frames := F\<rparr>"
  have t: "table ?s = table s" by (simp add: table_def)
  have "kinship ?s x" if "x \<in> table s" for x
  proof -
    have k: "kinship s x" using kernel_okD(5) [OF ok] that by (simp add: family_ok_def)
    have "awaits ?s x" if "p_state (proc s x) = PROCESS_WAIT_CHILD"
    proof -
      have "x \<noteq> p" using p \<open>x \<in> table s\<close> that by auto
      then show ?thesis using k that F(2) [of x]
        by (simp add: kinship_def awaits_def t) (simp add: waits_for_def valid_priority_def)
    qed
    then show ?thesis using k by (simp add: kinship_def t children_def siblings_def [abs_def])
  qed
  moreover have "calm idler x (F x) \<or> x \<noteq> idler \<and> pending ?s x" if "x \<in> members L" for x
    using kernel_okD(2) [OF ok that] F by (cases "x = p") (auto simp: pending_def t)
  ultimately show ?thesis
    using ok by (simp add: kernel_ok_def kernel_repr_frames family_ok_def t)
qed

lemma kernel_ok_suspend:
  assumes ok: "kernel_ok idler s L" and c: "calm idler p (frames s p)" "calm idler p frs"
  shows "kernel_ok idler (s\<lparr>frames := (frames s)(p := frames s p @ frs)\<rparr>) L"
proof (rule kernel_ok_frames [OF ok, of p])
  assume w: "p_state (proc s p) = PROCESS_WAIT_CHILD"
  show "p \<notin> table s"
  proof
    assume "p \<in> table s"
    then have "awaits s p" using kernel_okD(5) [OF ok] w by (auto simp: family_ok_def kinship_def)
    then show False using c(1) by (auto simp: awaits_def)
  qed
qed (use c in auto)

lemma moves_calling:
  assumes m: "moves idler s L m" and fr: "calm idler (process_active s) [fr]"
    and f: "\<And>v s' L'. \<lbrakk>m = Done v s'; kernel_ok idler s' L'; process_active s' = process_active s\<rbrakk>
      \<Longrightarrow> moves idler s' L' (f v s')"
  shows "moves idler s L (calling s fr m f)"
proof (cases m)
  case (Switched s')
  then show ?thesis using m kernel_ok_suspend [OF _ _ fr, of s'] fr by (auto simp: moved_def)
next
  case (Done v s')
  then have "calling s fr m f = bindK m f" by simp
  then show ?thesis using moves_bind [OF m f] by simp
qed (use m in auto)

end
