(* ===== verification/Kernel_Moves.thy ===== *)
theory Kernel_Moves
  imports Kernel_Invariant
begin

text \<open>
  The operations of the kernel that do not end a process keep the invariant of \<open>Kernel_Invariant\<close>:
  the calls on message queues, the waiting for the clock, the changes of priorities, the timer
  handler, and the start of a process.
\<close>

section \<open>Message queues\<close>

lemma qid_pooled: "process_queue_from_qid s n = q \<Longrightarrow> q \<noteq> NULL \<Longrightarrow> pooled s q"
  by (auto simp: process_queue_from_qid_def pooled_def split: if_splits)

text \<open>A waiting process is chosen and becomes ready, or the active process starts to wait.\<close>

lemma moved_handover:
  assumes ok: "kernel_ok idler s L" and q: "pooled s q" and c: "chosen s (on_queue L q) as g bs"
    and t: "touches (ready L) (set (on_queue L q)) {q} s s'"
    and hi: "runs_highest s' (ready_first s g (ready L))" and qr: "queue_repr s' q (as @ bs)"
    and fr: "suspends s [Fr_return v] s'"
  shows "moved idler s L s'"
proof (rule moved_queue_touches [OF ok q t hi qr _ _ fr])
  show "running (L\<lparr>ready := ready_first s g (ready L)\<rparr>) \<union> set (as @ bs) = running L \<union> set (on_queue L q)"
    using c by (auto simp: running_ready_first chosen_def)
  show "idler \<in> running (L\<lparr>ready := ready_first s g (ready L)\<rparr>)"
    using kernel_okD(3) [OF ok] by (simp add: running_ready_first)
qed simp

lemma moved_wait:
  assumes ok: "kernel_ok idler s L" and q: "pooled s q" and a: "process_active s \<noteq> idler"
    and t: "touches (ready L) (set (on_queue L q)) {q} s s'"
    and hi: "runs_highest s' (blocked s (ready L))" and qr: "queue_repr s' q (process_active s # on_queue L q)"
    and fr: "suspends s fs s'" "calm idler (process_active s) fs"
  shows "moved idler s L s'"
proof (rule moved_queue_touches [OF ok q t hi qr _ _ fr])
  note r = kernel_okD(1) [OF ok]
  show "running (L\<lparr>ready := blocked s (ready L)\<rparr>) \<union> set (process_active s # on_queue L q)
      = running L \<union> set (on_queue L q)"
    using active_running [OF r] by (auto simp: running_blocked [OF r])
qed (rule idle_left(2) [OF ok a])

lemma send_moves:
  assumes ok: "kernel_ok idler s L" and a: "process_active s \<noteq> idler"
  shows "moves idler s L (process_queue_send n m s)"
proof -
  define q where "q = process_queue_from_qid s n"
  note r = kernel_okD(1) [OF ok]
  note h = kernel_reprD(1) [OF r]
  show ?thesis
  proof (cases "q = NULL")
    case True
    then show ?thesis using ok by (simp add: process_queue_send_def q_def [symmetric])
  next
    case False
    note n = q_def [symmetric] False
    note p = qid_pooled [OF n]
    note qr = kernel_reprD(6) [OF r p]
    consider (full) "q_length (queue s q) = capacity (queue s q)"
      | (deliver) "q_length (queue s q) \<noteq> capacity (queue s q)" "on_queue L q \<noteq> []"
      | (store) "q_length (queue s q) \<noteq> capacity (queue s q)" "on_queue L q = []" by blast
    then show ?thesis
    proof cases
      case full
      from send_block [OF h n qr full idle_left(1) [OF ok a], of m] obtain s' where
        "process_queue_send n m s = Switched s'" "moved idler s L s'"
        using moved_wait [OF ok p a, of _ "[Fr_queue_wait, Fr_send]"] by auto
      then show ?thesis by simp
    next
      case deliver
      then have "q_length (queue s q) = 0" using queue_reprD(5) [OF qr] by blast
      from send_deliver [OF h n qr deliver(2) this valid_lists(2) [OF r], of m] obtain s' where
        "completes s 0 (process_queue_send n m s) s'" "moved idler s L s'"
        using moved_handover [OF ok p] by metis
      then show ?thesis by (rule moves_completes [rotated])
    next
      case store
      then have room: "q_length (queue s q) < capacity (queue s q)"
        using queue_reprD(1) [OF qr] by (simp add: buffer_ok_def)
      have qr0: "queue_repr s q []" using qr store by simp
      from send_store [OF n qr0 room, of m] obtain s' where
        s': "process_queue_send n m s = Done 0 s'" "queue_repr s' q []"
          "s' = upd_queue q (\<lambda>r. snd (process_queue_raw_write m r)) s" by blast
      have "touches (ready L) (set (on_queue L q)) {q} s s'"
        by (simp add: s'(3) touches_def spares_def upd_queue_def)
      moreover have "runs_highest s' (ready L)"
        using h by (simp add: runs_highest_def s'(3) sched_repr_upd_queue)
      ultimately have "moved idler s L s'"
        using kernel_okD(3) [OF ok] store s'(2)
        by (intro moved_queue_touches [OF ok p, of s' "ready L" "[]" "[]"]) (simp_all add: s'(3) suspends_same)
      with s' show ?thesis by simp
    qed
  qed
qed

lemma receive_moves:
  assumes ok: "kernel_ok idler s L" and a: "process_active s \<noteq> idler"
  shows "moves idler s L (process_queue_receive n a s)"
proof -
  define q where "q = process_queue_from_qid s n"
  note r = kernel_okD(1) [OF ok]
  note h = kernel_reprD(1) [OF r]
  show ?thesis
  proof (cases "user_result s a \<and> q \<noteq> NULL")
    case False
    then show ?thesis
      using ok by (auto simp: process_queue_receive_def q_def [symmetric] user_result_def Let_def)
  next
    case True
    then have u: "user_result s a" and n: "process_queue_from_qid s n = q" "q \<noteq> NULL"
      by (simp_all add: q_def)
    note p = qid_pooled [OF n]
    note qr = kernel_reprD(6) [OF r p]
    consider (empty) "q_length (queue s q) = 0"
      | (refill) "q_length (queue s q) \<noteq> 0" "on_queue L q \<noteq> []"
      | (store) "q_length (queue s q) \<noteq> 0" "on_queue L q = []" by blast
    then show ?thesis
    proof cases
      case empty
      from receive_block [OF h n qr empty idle_left(1) [OF ok a] u] obtain s' where
        "process_queue_receive n a s = Switched s'" "moved idler s L s'"
        using moved_wait [OF ok p a, of _ "[Fr_queue_wait, Fr_receive a]"] by auto
      then show ?thesis by simp
    next
      case refill
      then have "q_length (queue s q) = capacity (queue s q)" using queue_reprD(5) [OF qr] by simp
      from receive_refill [OF h n qr refill(2) this valid_lists(2) [OF r] u] obtain s' where
        "completes s 0 (process_queue_receive n a s) s'" "moved idler s L s'"
        using moved_handover [OF ok p] by metis
      then show ?thesis by (rule moves_completes [rotated])
    next
      case store
      then have ne: "0 < q_length (queue s q)" by simp
      have qr0: "queue_repr s q []" using qr store by simp
      from receive_store [OF n qr0 ne u, of "ready L"] obtain s' where
        s': "process_queue_receive n a s = Done 0 s'" "queue_repr s' q []"
          "touches (ready L) {} {q} s s'" "frames s' = frames s" "runs_highest s' (ready L)"
          "process_active s' = process_active s"
        using h by blast
      have "moved idler s L s'"
        using kernel_okD(3) [OF ok] store s'
        by (intro moved_queue_touches [OF ok p, of s' "ready L" "[]" "[]"]) (simp_all add: suspends_same)
      with s' show ?thesis by simp
    qed
  qed
qed

lemma reset_moves:
  assumes ok: "kernel_ok idler s L"
  shows "moves idler s L (process_queue_reset n s)"
proof -
  define q where "q = process_queue_from_qid s n"
  note r = kernel_okD(1) [OF ok]
  show ?thesis
  proof (cases "q = NULL")
    case True
    then show ?thesis using ok by (simp add: process_queue_reset_def q_def [symmetric])
  next
    case False
    note n = q_def [symmetric] False
    note p = qid_pooled [OF n]
    from reset_repr [OF kernel_reprD(1) [OF r] n kernel_reprD(6) [OF r p] valid_lists(2) [OF r]]
    obtain s' where s': "completes s 0 (process_queue_reset n s) s'"
        "runs_highest s' (wake_rings s (on_queue L q) (ready L))" "queue_repr s' q []"
        "touches (ready L) (set (on_queue L q)) {q} s s'" "suspends s [Fr_return 0] s'" by blast
    have "moved idler s L s'"
      by (rule moved_queue_touches [OF ok p s'(4,2,3) _ _ s'(5)])
        (use kernel_okD(3) [OF ok] in \<open>auto simp: running_wake\<close>)
    then show ?thesis using s'(1) by (rule moves_completes)
  qed
qed

section \<open>Scheduling\<close>

lemma running_run:
  assumes "runs_highest s R" "p \<in> set (R (p_priority (proc s (process_active s))))"
  shows "runs_highest (switched p s) R"
  using assms runs_highestD [OF assms(1)] by (auto simp: runs_highest_def)

text \<open>The next process of the ring runs.\<close>

lemma advance_moves:
  assumes ok: "kernel_ok idler s L"
  shows "moves idler s L (process_sched_advance NULL s)"
proof -
  let ?a = "process_active s" and ?k = "p_priority (proc s (process_active s))"
  note h = kernel_reprD(1) [OF kernel_okD(1) [OF ok]]
  obtain as bs where R: "ready L ?k = as @ ?a # bs"
    using runs_highestD(2) [OF h] by (metis in_set_conv_decomp)
  let ?n = "hd (bs @ as @ [?a])"
  have "?n \<in> set (ready L ?k)" using hd_in_set [of "bs @ as @ [?a]"] by (auto simp: R)
  from running_run [OF h this] have "moved idler s L (switched ?n s)"
    by (intro moved_ready [OF ok, of _ "ready L" "[]"]) (simp_all add: spares_def)
  then show ?thesis
    using advance_ring [OF runs_highestD(1) [OF h] R] ok by (simp add: run_outcome_def)
qed

lemma sched_set_priority_moves:
  assumes ok: "kernel_ok idler s L" and p: "p \<in> set (ready L k)"
    and new: "0 \<le> new" "new < PROCESS_MAX_PRIORITY"
  shows "moves idler s L (process_sched_set_priority p new s)"
proof -
  note h = kernel_reprD(1) [OF kernel_okD(1) [OF ok]]
  let ?m = "process_sched_set_priority p new s"
  from set_priority_effect [OF h p new] obtain s3 s' where
    s3: "only_switches s3 ?m" "s3 = s\<lparr>proc := proc s3, process_sched_rings := process_sched_rings s3\<rparr>"
      "\<forall>q. (\<forall>j. q \<notin> set (ready L j)) \<longrightarrow> proc s3 q = proc s q"
      "\<forall>q. proc s3 q = (proc s q)\<lparr>u0 := u0 (proc s3 q), u1 := u1 (proc s3 q),
        p_priority := p_priority (proc s3 q)\<rparr>"
    and s': "outcome_state ?m = Some s'" "runs_highest s' (requeued p k new (ready L))"
    by (auto simp: ends_highest_def)
  have o: "?m = Done () s3 \<and> s' = s3 \<or> (\<exists>q. ?m = Switched s' \<and> s' = switched q s3)"
    using s3(1) s'(1) by (auto simp: only_switches_def)
  have k: "queue s3 = queue s" "queue_pool s3 = queue_pool s" "queue_id_pool s3 = queue_id_pool s"
    "process_pool s3 = process_pool s" "clock_wait_head s3 = clock_wait_head s"
    "cons_read_wait_head s3 = cons_read_wait_head s" "process_id_pool s3 = process_id_pool s" "kbd s3 = kbd s" "frames s3 = frames s"
    "process_active s3 = process_active s"
    by (subst s3(2), simp)+
  have "spares (ready L) {} {} s s3" using s3(3) by (simp add: spares_def k off_rings_def)
  then have "spares (ready L) {} {} s s'" using o by (auto simp: spares_def)
  moreover have "suspends s3 [] s'" using o suspends_same [of s3 s3] by auto
  then have "suspends s [] s'" by (rule suspends_cong) (simp_all add: k)
  moreover have "kin (proc s q) (proc s3 q) \<and> p_state (proc s3 q) = p_state (proc s q)
      \<and> u2 (proc s3 q) = u2 (proc s q)" for q
    unfolding kin_def by (subst s3(4) [rule_format, of q], simp)+
  then have "relatives (ready L) s s'" using o by (auto simp: relatives_def)
  ultimately have "moved idler s L s'"
    using s'(2) running_requeued [of p L k new] p by (intro moved_ready [OF ok, where fs = "[]"]) simp_all
  then show ?thesis using o k by auto
qed

section \<open>Waiting for the clock\<close>

lemma moved_timed:
  assumes ok: "kernel_ok idler s L"
    and t: "touches (ready L) P {} (s\<lparr>clock_wait_head := h\<rparr>) s'" "P \<subseteq> set (timed L)"
    and hi: "runs_highest s' R'" and tr: "time_repr s' ts" "sorted (targets s' ts)"
    and mem: "running (L\<lparr>ready := R'\<rparr>) \<union> set ts = running L \<union> set (timed L)"
    and i: "idler \<in> running (L\<lparr>ready := R'\<rparr>)"
    and fr: "suspends s fs s'" "calm idler (process_active s) fs"
  shows "moved idler s L s'"
proof (rule moved_change [OF ok _ _ _ _ _ _ _ _ _ fr])
  let ?L = "L\<lparr>ready := R', timed := ts\<rparr>"
  note r = kernel_okD(1) [OF ok]
  have run: "running ?L = running (L\<lparr>ready := R'\<rparr>)" by (simp add: running_def)
  then show m: "members ?L = members L" using mem by (auto simp: members_def waiting_def)
  show sp: "spares (ready L) P {} (s\<lparr>clock_wait_head := h\<rparr>) s'" using t(1) by (simp add: touches_def)
  show "relatives (ready L) s s'" using t(1) by (simp add: touches_def relatives_def)
  show P: "P \<subseteq> members L" using t(2) by (auto simp: members_def waiting_def)
  have tb: "queue_table_ok s' = queue_table_ok s" "pooled s' = pooled s"
    by (rule spares_table [OF sp]; simp)+
  show "kernel_repr s' ?L"
  proof (rule kernel_repr_change [OF r _ _ sp])
    show "valid_priority s' p" if "p \<in> waiting ?L" for p
    proof (rule touches_valid [OF r t(1)])
      show "p \<in> members L" using that m by (auto simp: members_def)
    qed simp
    show "P \<subseteq> members L" by (rule P)
    show "pooled s' q = pooled s q \<and> on_queue ?L q = on_queue L q \<and> set (on_queue L q) \<inter> P = {}" for q
      using tb t(2) lists_disjoint(1) [OF r, of q] by auto
    show "queue_table_ok s'" using tb kernel_reprD(5) [OF r] by simp
    show "cons_read_wait_head (s\<lparr>clock_wait_head := h\<rparr>) = cons_read_wait_head s
      \<and> on_console ?L = on_console L \<and> set (on_console L) \<inter> P = {} \<or> cons_repr s' (on_console ?L)"
      using t(2) lists_disjoint(3) [OF r] by auto
  qed (use m hi tr in simp_all)
  show "idler \<in> running ?L" using i run by simp
qed simp_all

lemma time_handler_moves:
  assumes ok: "kernel_ok idler s L"
  shows "moves idler s L (process_time_pit_handler clock s)"
proof -
  note r = kernel_okD(1) [OF ok]
  let ?w = "takeWhile (expired s clock) (timed L)" and ?d = "dropWhile (expired s clock) (timed L)"
  from time_handler_repr [OF kernel_reprD(1,2) [OF r] valid_lists(1) [OF r], of clock] obtain s' where
    s': "outcome_state (process_time_pit_handler clock s) = Some s'"
      "runs_highest s' (wake_rings s ?w (ready L))" "time_repr s' ?d"
      "\<forall>p\<in>set ?d. proc s' p = proc s p"
      "touches (ready L) (set ?w) {} (s\<lparr>clock_wait_head := clock_wait_head s'\<rparr>) s'" "suspends s [] s'"
      "process_time_pit_handler clock s = Done () s' \<longrightarrow>
        process_active s' = process_active s \<and> frames s' = frames s" by blast
  have "targets s' ?d = targets s ?d" using s'(4) by (simp add: targets_def)
  moreover have "targets s (timed L) = targets s ?w @ targets s ?d"
    by (metis map_append takeWhile_dropWhile_id targets_def)
  then have "sorted (targets s ?d)" using kernel_reprD(3) [OF r] by (simp add: sorted_append)
  ultimately have srt: "sorted (targets s' ?d)" by simp
  have un: "set ?w \<union> set ?d = set (timed L)" by (metis set_append takeWhile_dropWhile_id)
  have "moved idler s L s'"
    by (rule moved_timed [OF ok s'(5) _ s'(2,3) srt _ _ s'(6)])
      (use un kernel_okD(3) [OF ok] in \<open>auto simp: running_wake dest: set_takeWhileD\<close>)
  then show ?thesis using s'(1,7) by (cases "process_time_pit_handler clock s") auto
qed

lemma wait_clock_moves:
  assumes ok: "kernel_ok idler s L" and a: "process_active s \<noteq> idler"
    and c: "clock \<le> pit_clock s \<or> clock_wait_head s = NULL
      \<or> clock \<le> target_clock (proc s (clock_wait_head s))"
  shows "moves idler s L (process_wait_clock clock s)"
proof (cases "clock \<le> pit_clock s")
  case True
  then show ?thesis using advance_moves [OF ok] by (simp add: process_wait_clock_def)
next
  case False
  note r = kernel_okD(1) [OF ok]
  have hd: "clock_wait_head s = (if timed L = [] then NULL else hd (timed L))"
    by (rule time_repr_head [OF kernel_reprD(2) [OF r]])
  have "NULL \<notin> set (timed L)" using kernel_reprD(2) [OF r] slist_no_NULL by (auto simp: time_repr_def)
  then have "timed L \<noteq> [] \<Longrightarrow> hd (timed L) \<noteq> NULL" by (metis hd_in_set)
  then have "timed L = [] \<or> clock \<le> target_clock (proc s (hd (timed L)))"
    using c False hd by (auto split: if_splits)
  with wait_clock_repr [OF kernel_reprD(1,2) [OF r] _ idle_left(1) [OF ok a], of clock] False
  obtain s' where s': "process_wait_clock clock s = Switched s'" "runs_highest s' (blocked s (ready L))"
      "time_repr s' (process_active s # timed L)"
      "targets s' (process_active s # timed L) = clock # targets s (timed L)"
      "touches (ready L) {} {} (s\<lparr>clock_wait_head := process_active s\<rparr>) s'" "suspends s [] s'"
    by (auto simp: not_le)
  have "clock \<le> x" if "x \<in> set (targets s (timed L))" for x
    using \<open>timed L = [] \<or> _\<close> kernel_reprD(3) [OF r] that
    by (cases "timed L") (auto simp: targets_def)
  then have srt: "sorted (targets s' (process_active s # timed L))"
    using kernel_reprD(3) [OF r] by (simp add: s'(4))
  have "moved idler s L s'"
    by (rule moved_timed [OF ok s'(5) _ s'(2,3) srt _ idle_left(2) [OF ok a] s'(6)])
      (use active_running [OF r] in \<open>auto simp: running_blocked [OF r]\<close>)
  then show ?thesis by (simp add: s'(1))
qed

section \<open>Changing a priority\<close>

lemma queue_set_priority_moves:
  assumes ok: "kernel_ok idler s L" and p: "p \<in> set (on_queue L q)"
    and new: "0 \<le> new" "new < PROCESS_MAX_PRIORITY"
  shows "moves idler s L (Done v (process_queue_set_priority p new s))"
proof -
  note r = kernel_okD(1) [OF ok]
  let ?s = "process_queue_set_priority p new s" and ?s1 = "upd_proc p (p_priority_update (\<lambda>_. new)) s"
  have q: "pooled s q" using kernel_reprD(7) [OF r, of q] p by force
  obtain as bs where ws: "on_queue L q = as @ p # bs" using p by (metis in_set_conv_decomp)
  have "queue_repr s q (as @ p # bs)" using kernel_reprD(6) [OF r q] ws by simp
  note sp = queue_set_priority_repr [OF this, of new]
  note rw = sp(2)
  have off: "off_rings (ready L) x" if "x \<in> set (as @ p # bs)" for x
  proof (rule waiting_off [OF r])
    have "x \<in> set (on_queue L q)" using that ws by simp
    then show "x \<in> waiting L" by (auto simp: waiting_def)
  qed
  have r1: "sched_repr ?s1 (ready L)"
    using runs_highestD(1) [OF kernel_reprD(1) [OF r]] off [of p] by (intro sched_repr_upd_proc) auto
  have "sched_repr ?s (ready L)" by (rule rewired_sched [OF rw r1 off])
  then have hi: "runs_highest ?s (ready L)"
    using kernel_reprD(1) [OF r] rewired_kernel(2) [OF rw] by (simp add: runs_highest_def)
  have "spares (ready L) (set (on_queue L q)) {q} s ?s"
    using rewired_kernel [OF rw] rewired_fields(6,7) [OF rw] rewired_queue(8) [OF rw] off [of p]
    by (auto simp: spares_def ws)
  moreover have "valid_priority ?s x" if "x \<in> members L" for x
    using members_valid [OF r that] new rewired_fields(2) [OF rw, of x]
    by (cases "x = p") (simp_all add: valid_priority_def)
  moreover have fr: "frames ?s = frames s" "process_active ?s = process_active s"
    using rewired_kernel [OF rw] by simp_all
  moreover have "relatives (ready L) s ?s"
  proof -
    have "kin (proc s x) (proc ?s1 x) \<and> p_state (proc ?s1 x) = p_state (proc s x) \<and> u2 (proc ?s1 x) = u2 (proc s x)" for x
      by (cases "x = p") (simp_all add: kin_def)
    then show ?thesis
      using kin_trans [OF _ rewired_kin [OF rw]] rewired_fields(1,3) [OF rw] by (simp add: relatives_def)
  qed
  ultimately have "moved idler s L ?s"
    using hi sp(1) kernel_okD(3) [OF ok] ws suspends_same [OF fr(1)]
    by (intro moved_queue [OF ok q, where fs = "[]" and R' = "ready L" and ws = "p # as @ bs"]) auto
  then show ?thesis using fr by simp
qed

text \<open>A process that is neither ready nor on a message queue only gets the new number.\<close>

lemma other_set_priority:
  assumes ok: "kernel_ok idler s L"
    and st: "p_state (proc s p) \<noteq> PROCESS_SCHED" "p_state (proc s p) \<noteq> PROCESS_WAIT_QUEUE"
    and new: "0 \<le> new" "new < PROCESS_MAX_PRIORITY"
  shows "kernel_ok idler (upd_proc p (p_priority_update (\<lambda>_. new)) s) L"
proof -
  let ?s = "upd_proc p (p_priority_update (\<lambda>_. new)) s"
  note r = kernel_okD(1) [OF ok]
  have off: "off_rings (ready L) p"
    using waiting_off_rings [OF runs_highestD(1) [OF kernel_reprD(1) [OF r]] st(1)] .
  have "runs_highest ?s (ready L)"
    using kernel_reprD(1) [OF r] sched_repr_upd_proc [of s "ready L" p] off by (simp add: runs_highest_def)
  moreover have f: "p_state (proc ?s x) = p_state (proc s x)" "u0 (proc ?s x) = u0 (proc s x)"
    "u1 (proc ?s x) = u1 (proc s x)" "u2 (proc ?s x) = u2 (proc s x)"
    "p_parent (proc ?s x) = p_parent (proc s x)" "p_child (proc ?s x) = p_child (proc s x)"
    "p_sibling (proc ?s x) = p_sibling (proc s x)" "p_pid (proc ?s x) = p_pid (proc s x)" for x
    by (cases "x = p"; simp)+
  have "time_repr ?s (timed L)" "targets ?s (timed L) = targets s (timed L)" "cons_repr ?s (on_console L)"
    using kernel_reprD(2,4) [OF r] by (simp_all add: time_repr_def targets_def cons_repr_def f)
  moreover have "queue_repr ?s q (on_queue L q)" if "pooled s q" for q
  proof (rule queue_repr_same [OF kernel_reprD(6) [OF r that]])
    show "proc ?s x = proc s x" if "x \<in> set (on_queue L q)" for x
      using waiting_states(3) [OF r that] st(2) by (intro proc_upd_other) auto
  qed simp
  moreover have "valid_priority ?s x" if "x \<in> waiting L" for x
    using kernel_reprD(8) [OF r that] new by (cases "x = p") (simp_all add: valid_priority_def)
  moreover have "queue_table_ok ?s = queue_table_ok s" "pooled ?s = pooled s" "all_placed ?s L = all_placed s L"
    "process_table_ok ?s = process_table_ok s"
    by (simp_all add: queue_table_ok_def pooled_def [abs_def] all_placed_def process_table_ok_def table_def f)
  ultimately have "kernel_repr ?s L"
    using kernel_reprD(3,5,7,9,10) [OF r] by (simp add: kernel_repr_def)
  moreover have v: "valid_priority ?s x" if "valid_priority s x" for x
    using that new by (cases "x = p") (simp_all add: valid_priority_def)
  have "kinship ?s x" if "kinship s x" for x
    using that v [of x] unfolding kinship_def awaits_def waits_for_def child_pid_def children_def
      siblings_def [abs_def] table_def f by simp
  then have "family_ok ?s" using kernel_okD(5) [OF ok] by (simp add: family_ok_def table_def)
  moreover have "pending ?s x = pending s x" for x
    by (simp add: pending_def table_def f)
  ultimately show ?thesis using ok by (simp add: kernel_ok_def)
qed

lemma set_priority_moves:
  assumes ok: "kernel_ok idler s L"
  shows "moves idler s L (process_set_priority n priority s)"
proof -
  define p where "p = process_from_pid s n"
  note r = kernel_okD(1) [OF ok]
  consider (no) "priority < 0 \<or> priority \<ge> PROCESS_MAX_PRIORITY \<or> p = NULL
      \<or> p_state (proc s p) = PROCESS_ZOMBIE \<or> priority = p_priority (proc s p)"
    | (yes) "0 \<le> priority" "priority < PROCESS_MAX_PRIORITY" "p \<noteq> NULL"
      "p_state (proc s p) \<noteq> PROCESS_ZOMBIE" "priority \<noteq> p_priority (proc s p)" by linarith
  then show ?thesis
  proof cases
    case no
    then show ?thesis using ok by (auto simp: process_set_priority_def p_def [symmetric] Let_def)
  next
    case yes
    have "process_pool s n = p" using yes(3) by (auto simp: p_def process_from_pid_def split: if_splits)
    then have pl: "p \<in> members L \<or> p_state (proc s p) \<in> {PROCESS_WAIT_CHILD, PROCESS_ZOMBIE}"
      using kernel_reprD(9) [OF r] yes(3) by (auto simp: all_placed_def table_def)
    show ?thesis
    proof (cases "p_state (proc s p)")
      case PROCESS_SCHED
      then have "p \<in> running L" using pl waiting_states [OF r, of p] by (auto simp: members_def waiting_def)
      then obtain k where k: "p \<in> set (ready L k)" by (auto simp: running_def)
      from moves_calling [OF sched_set_priority_moves [OF ok k yes(1,2)], of "Fr_return (p_priority (proc s p))"
        "\<lambda>_ s1. Done (p_priority (proc s p)) s1"] show ?thesis
        using yes PROCESS_SCHED by (simp add: process_set_priority_def p_def [symmetric] Let_def)
    next
      case PROCESS_WAIT_QUEUE
      then obtain q where "p \<in> set (on_queue L q)"
        using pl waiting_states [OF r, of p] by (auto simp: members_def waiting_def)
      from queue_set_priority_moves [OF ok this yes(1,2)] show ?thesis
        using yes PROCESS_WAIT_QUEUE by (simp add: process_set_priority_def p_def [symmetric] Let_def)
    qed (use other_set_priority [OF ok, of p priority] yes in
      \<open>auto simp: process_set_priority_def p_def [symmetric] Let_def moved_def\<close>)
  qed
qed

section \<open>Creating and deleting message queues\<close>

lemma table_release_ok:
  assumes t: "queue_table_ok s" and q: "queue_pool s n = q" "q \<noteq> NULL"
    and s': "queue_pool s' = (queue_pool s)(n := NULL)" "queue_id_pool s' = id_pool_free (queue_id_pool s) n"
      "\<And>r. qid (queue s' r) = qid (queue s r)"
  shows "queue_table_ok s'" "pooled s' r \<longleftrightarrow> pooled s r \<and> r \<noteq> q"
proof -
  obtain U where U: "pool_ids (queue_id_pool s) U" "table_ids (queue_pool s) U"
    using t by (auto simp: queue_table_ok_def)
  have "queue_pool s n \<noteq> NULL" using q by simp
  from pid_pool.table_release [OF U this]
  have "pool_ids (queue_id_pool s') (U - {n})" "table_ids (queue_pool s') (U - {n})" by (simp_all add: s')
  moreover have "id_pool_cap (queue_id_pool s') = id_pool_cap (queue_id_pool s)"
    by (simp add: s' id_pool_free_def id_pool_push_free_def id_pool_cap_def)
  ultimately show "queue_table_ok s'" using t by (auto simp: queue_table_ok_def s')
  have "queue_pool s i = q \<longleftrightarrow> i = n" for i using t q unfolding queue_table_ok_def by metis
  then show "pooled s' r \<longleftrightarrow> pooled s r \<and> r \<noteq> q" using q by (auto simp: pooled_def s')
qed

lemma wake_rings_same:
  "(\<And>p. p_priority (proc s' p) = p_priority (proc s p)) \<Longrightarrow> wake_rings s' ps R = wake_rings s ps R"
  by (induction ps arbitrary: R) (simp_all add: ready_first_def)

text \<open>The waiting processes are woken, and the queue is gone from the table.\<close>

lemma deleted_moves:
  assumes ok: "kernel_ok idler s L" and n: "queue_pool s n = q" "q \<noteq> NULL"
  defines "s2 \<equiv> s\<lparr>queue_pool := (queue_pool s)(n := NULL), queue_id_pool := id_pool_free (queue_id_pool s) n\<rparr>"
  shows "moves idler s L (process_queue_resume_reset (wait_process (queue s q)) (\<lambda>t. t) s2)"
proof -
  note r = kernel_okD(1) [OF ok]
  have p: "pooled s q" using n by (auto simp: pooled_def)
  let ?ws = "on_queue L q" and ?R = "wake_rings s2 (on_queue L q) (ready L)"
  have R: "?R = wake_rings s ?ws (ready L)"
    by (rule wake_rings_same) (simp add: s2_def)
  have h2: "runs_highest s2 (ready L)" using kernel_reprD(1) [OF r] by (simp add: runs_highest_def s2_def)
  have w2: "waiters s2 q ?ws"
    by (rule waiters_same [OF queue_reprD(8) [OF kernel_reprD(6) [OF r p]]]) (simp_all add: s2_def)
  have v2: "valid_priorities s2 ?ws" using valid_lists(2) [OF r] by (simp add: valid_priorities_def s2_def)
  from resume_reset_repr [OF h2 w2 v2, of "\<lambda>t. t"] obtain s3 g where
    s3: "reset_loop (wait_process (queue s q)) NULL s2 = Some (Done g s3)" "kept s2 s3"
      "preempt_by g s3 = Done () s3 \<or> preempt_by g s3 = Switched (switched g s3)"
      "ends_highest (preempt_by g s3) ?R"
      "\<forall>p. off_rings (ready L) p \<and> p \<notin> set ?ws \<longrightarrow> proc s3 p = proc s2 p" and rel: "relatives (ready L) s2 s3"
    by (auto simp: s2_def)
  have eq: "process_queue_resume_reset (wait_process (queue s q)) (\<lambda>t. t) s2 = preempt_by g s3"
    by (simp add: process_queue_resume_reset_def s3(1))
  from s3(4) obtain s' where o: "outcome_state (preempt_by g s3) = Some s'" "runs_highest s' ?R"
    unfolding ends_highest_def by blast
  have s': "preempt_by g s3 = Done () s3 \<and> s' = s3 \<or> preempt_by g s3 = Switched s' \<and> s' = switched g s3"
    using s3(3) o(1) by (elim disjE) simp_all
  note k = kept_kernel [OF s3(2)]
  have k': "proc s' = proc s3" "queue s' = queue s" "queue_pool s' = queue_pool s2"
    "queue_id_pool s' = queue_id_pool s2" "kbd s' = kbd s" "process_pool s' = process_pool s2"
    "clock_wait_head s' = clock_wait_head s2" "cons_read_wait_head s' = cons_read_wait_head s2"
    "process_id_pool s' = process_id_pool s2"
  proof -
    have "s' = s3 \<or> s' = switched g s3" using s' by blast
    then show "proc s' = proc s3" "queue s' = queue s" "queue_pool s' = queue_pool s2"
      "queue_id_pool s' = queue_id_pool s2" "kbd s' = kbd s" "process_pool s' = process_pool s2"
      "clock_wait_head s' = clock_wait_head s2" "cons_read_wait_head s' = cons_read_wait_head s2"
      "process_id_pool s' = process_id_pool s2"
      by (auto simp: k) (simp_all add: s2_def)
  qed
  have sp: "spares (ready L) (set ?ws) {q} s2 s'"
    using s3(5) by (simp add: spares_def k') (simp add: s2_def)
  have su: "suspends s [] s'"
  proof (rule suspends_cong)
    have "s' = s3 \<or> s' = switched g s3" using s' by blast
    then show "suspends s3 [] s'" by (auto simp: suspends_same)
  qed (use k in \<open>simp_all add: s2_def\<close>)
  have tb: "queue_table_ok s'" "pooled s' x \<longleftrightarrow> pooled s x \<and> x \<noteq> q" for x
    by (rule table_release_ok [OF kernel_reprD(5) [OF r] n]; simp add: k' s2_def)+
  let ?L = "L\<lparr>ready := ?R, on_queue := (on_queue L)(q := [])\<rparr>"
  have run: "running ?L = set ?ws \<union> running L"
    using running_wake [where L = L and s = s and ps = "on_queue L q"] by (simp add: R running_def)
  have "waiting ?L = set (timed L) \<union> (\<Union>r\<in>- {q}. set (on_queue L r)) \<union> set (on_console L)"
    using waiting_queue [of "L\<lparr>ready := ?R\<rparr>" q "[]"] by simp
  then have mem: "members ?L = members L"
    unfolding members_def run waiting_split [of L q] by auto
  have "kernel_repr s' ?L"
  proof (rule kernel_repr_change [OF r _ _ sp])
    show "set ?ws \<subseteq> members L" by (auto simp: members_def waiting_def)
    show "valid_priority s' p" if "p \<in> waiting ?L" for p
    proof -
      have "valid_priority s p" using members_valid [OF r, of p] that mem by (auto simp: members_def)
      then show ?thesis using kept_fields(5) [OF s3(2)] by (simp add: valid_priority_def k'(1) s2_def)
    qed
    show "pooled s' x = pooled s x \<and> on_queue ?L x = on_queue L x \<and> set (on_queue L x) \<inter> set ?ws = {}"
      if "x \<notin> {q}" for x
      using that tb(2) lists_disjoint(4) [OF r, of x q] by simp
    show "queue_table_ok s'" by (rule tb(1))
    show "if pooled s' x then queue_repr s' x (on_queue ?L x) else on_queue ?L x = []" if "x \<in> {q}" for x
      using that tb(2) by simp
  qed (use o(2) mem lists_disjoint(1,2) [OF r, of q] in \<open>simp_all add: s2_def\<close>)
  moreover have "idler \<in> running ?L" using kernel_okD(3) [OF ok] unfolding run by blast
  moreover have "relatives (ready L) s s'" using rel by (rule relatives_cong) (simp_all add: s2_def k'(1))
  moreover have "set ?ws \<subseteq> members L" by (auto simp: members_def waiting_def)
  ultimately have mv: "moved idler s L s'"
    by (intro moved_change [OF ok _ mem _ sp _ _ _ _ _ su calm_Nil]) (simp_all add: s2_def)
  show ?thesis
    using s'
  proof
    assume d: "preempt_by g s3 = Done () s3 \<and> s' = s3"
    then show ?thesis using mv k by (simp add: eq) (simp add: s2_def)
  next
    assume "preempt_by g s3 = Switched s' \<and> s' = switched g s3"
    then have "preempt_by g s3 = Switched s'" by (rule conjunct1)
    then show ?thesis using mv by (simp only: eq moves.simps)
  qed
qed

lemma delete_moves:
  assumes ok: "kernel_ok idler s L"
  shows "moves idler s L (process_queue_delete n s)"
proof -
  define q where "q = process_queue_from_qid s n"
  note r = kernel_okD(1) [OF ok]
  show ?thesis
  proof (cases "q = NULL")
    case True
    then show ?thesis using ok by (simp add: process_queue_delete_def q_def [symmetric])
  next
    case False
    then have n: "queue_pool s n = q" by (auto simp: q_def process_queue_from_qid_def split: if_splits)
    then have id: "qid (queue s q) = n" using kernel_reprD(5) [OF r] False by (auto simp: queue_table_ok_def)
    let ?s2 = "s\<lparr>queue_pool := (queue_pool s)(n := NULL), queue_id_pool := id_pool_free (queue_id_pool s) n\<rparr>"
    have c: "calling ?s2 fr m f = calling s fr m f" for fr and m :: "(kernel, unit) outcome" and f :: "unit \<Rightarrow> kernel \<Rightarrow> (kernel, int) outcome"
      by (cases m) simp_all
    have "moves idler s L (calling s (Fr_delete q)
        (process_queue_resume_reset (wait_process (queue s q)) (\<lambda>t. t) ?s2) (\<lambda>_. delete_frees q))"
    proof (rule moves_calling [OF deleted_moves [OF ok n False]])
      fix v s' L' assume "kernel_ok idler s' L'"
      then show "moves idler s' L' (delete_frees q s')"
        by (auto simp: delete_frees_def Let_def intro!: moved_frames)
    qed simp
    then show ?thesis using False by (simp add: process_queue_delete_def q_def [symmetric] Let_def id c)
  qed
qed

text \<open>
  A new queue: the block that the allocator returned is none of the queues in the table. The
  identifier is new, and nobody waits.
\<close>

lemma table_alloc_ok:
  assumes t: "queue_table_ok s" and f: "\<not> id_pool_empty (queue_id_pool s)"
    and a: "id_pool_alloc (queue_id_pool s) = (n, pool)" and q: "q \<noteq> NULL" "\<not> pooled s q"
    and s': "queue_pool s' = (queue_pool s)(n := q)" "queue_id_pool s' = pool"
      "\<And>r. r \<noteq> q \<Longrightarrow> qid (queue s' r) = qid (queue s r)" "qid (queue s' q) = n"
  shows "queue_table_ok s'" "pooled s' r \<longleftrightarrow> pooled s r \<or> r = q"
proof -
  obtain U where U: "pool_ids (queue_id_pool s) U" "table_ids (queue_pool s) U"
    using t by (auto simp: queue_table_ok_def)
  note al = pid_pool.table_alloc [OF U f a q(1)]
  note id_pool_alloc_cap [OF a]
  moreover have "queue_pool s i \<noteq> q" for i using q by (auto simp: pooled_def)
  ultimately show "queue_table_ok s'" using t al(2,3) by (auto simp: queue_table_ok_def s')
  show "pooled s' r \<longleftrightarrow> pooled s r \<or> r = q" using q(1) al(1) by (auto simp: pooled_def s')
qed

lemma create_moves:
  assumes ok: "kernel_ok idler s L" and q: "\<not> pooled s q"
  shows "moves idler s L (process_queue_create m q cap s)"
proof -
  note r = kernel_okD(1) [OF ok]
  show ?thesis
  proof (cases "cap \<le> 0 \<or> id_pool_empty (queue_id_pool s) \<or> 4 * cap \<ge> 2 ^ 32 \<or> m = NULL \<or> q = NULL")
    case True
    then show ?thesis
      using ok by (auto simp: process_queue_create_def Let_def intro!: moved_frames)
  next
    case False
    then have c: "0 < cap" "\<not> id_pool_empty (queue_id_pool s)" "q \<noteq> NULL" by auto
    obtain n pool where al: "id_pool_alloc (queue_id_pool s) = (n, pool)" by force
    define f :: "process_queue \<Rightarrow> process_queue" where "f = (\<lambda>x. x\<lparr>messages := m, capacity := nat cap, q_length := 0, read_index := 0,
      write_index := 0, wait_process := NULL, qid := n\<rparr>)"
    define s' where "s' = s\<lparr>heap := insert q (insert m (heap s)), queue := (queue s)(q := f (queue s q)),
      queue_id_pool := pool, queue_pool := (queue_pool s)(n := q)\<rparr>"
    have eq: "process_queue_create m q cap s = Done n s'"
      using False al by (simp add: process_queue_create_def Let_def s'_def f_def upd_queue_def)
    have fq: "queue s' q = f (queue s q)" by (simp add: s'_def)
    have tb: "queue_table_ok s'" "pooled s' x \<longleftrightarrow> pooled s x \<or> x = q" for x
      by (rule table_alloc_ok [OF kernel_reprD(5) [OF r] c(2) al c(3) q]; simp add: s'_def f_def)+
    have none: "on_queue L q = []" using kernel_reprD(7) [OF r q] .
    have "sched_repr s' R = sched_repr s R" for R
      by (simp add: sched_repr_def link0_def [abs_def] link1_def [abs_def] s'_def)
    then have hi: "runs_highest s' (ready L)"
      using kernel_reprD(1) [OF r] by (simp add: runs_highest_def) (simp add: s'_def)
    have sp: "spares (ready L) {} {q} s' s'" by (simp add: spares_def)
    have "kernel_repr s' L"
    proof (rule kernel_repr_change [OF r _ _ sp])
      show "valid_priority s' p" if "p \<in> waiting L" for p
        using kernel_reprD(8) [OF r that] by (simp add: valid_priority_def s'_def)
      show "if pooled s' x then queue_repr s' x (on_queue L x) else on_queue L x = []" if "x \<in> {q}" for x
        using that c(1) none by (simp add: tb queue_repr_def waiters_def buffer_ok_def fq f_def)
    qed (use hi tb in \<open>simp_all add: s'_def\<close>)
    moreover have "family_ok s' = family_ok s" "pending s' p = pending s p" for p
      by (rule family_ok_cong; simp add: s'_def)+
    ultimately have "kernel_ok idler s' L" using ok by (simp add: kernel_ok_def) (simp add: s'_def)
    then have "moved idler s L s'" by (rule moved_frames) (simp add: s'_def)
    then show ?thesis by (simp add: eq) (simp add: s'_def)
  qed
qed

end
