(* ===== verification/Kernel_Life.thy ===== *)
theory Kernel_Life
  imports Kernel_Moves
begin

text \<open>
  The calls that change the set of processes keep the invariant: start, exit without children, and
  wait, which either removes a child that has ended or blocks until one ends.
\<close>

section \<open>Back to user level or to another process\<close>

fun ends_ok :: "ptr \<Rightarrow> (kernel, 'a) outcome \<Rightarrow> bool" where
  "ends_ok idler (Done v s') \<longleftrightarrow> (\<exists>L'. kernel_ok idler s' L') \<and> frames s' (process_active s') = []"
| "ends_ok idler (Switched s') \<longleftrightarrow> (\<exists>L'. kernel_ok idler s' L')"
| "ends_ok idler (Panic e) \<longleftrightarrow> False"
| "ends_ok idler Hang \<longleftrightarrow> False"

lemma moves_ends: "moves idler s L m \<Longrightarrow> frames s (process_active s) = [] \<Longrightarrow> ends_ok idler m"
  by (cases m) (auto simp: moved_def)

lemma put_user_ok: "kernel_ok idler s L \<Longrightarrow> kernel_ok idler (put_user_int a v s) L"
  by (auto simp: put_user_int_def)

text \<open>What the family of a process of the table gives.\<close>

lemma kinshipD:
  assumes "kernel_ok idler s L" "p \<in> table s"
  shows "process_pool s n = p \<longleftrightarrow> n = p_pid (proc s p)"
    "\<exists>cs. children s p cs \<and> set cs = {c \<in> table s. p_parent (proc s c) = p}"
    "p_parent (proc s p) \<in> insert NULL (table s)"
    "p_state (proc s p) = PROCESS_ZOMBIE \<Longrightarrow> p_child (proc s p) = NULL"
    "p_state (proc s p) = PROCESS_WAIT_CHILD \<Longrightarrow> awaits s p" "p \<noteq> NULL"
  using kernel_okD(5) [OF assms(1)] assms(2) by (auto simp: family_ok_def kinship_def table_def)

lemma members_table: "kernel_repr s L \<Longrightarrow> p \<in> members L \<Longrightarrow> p \<in> table s"
  using kernel_reprD(9) [of s L] by (auto simp: all_placed_def)

lemma active_table: "kernel_ok idler s L \<Longrightarrow> process_active s \<in> table s"
  using members_table [OF kernel_okD(1)] active_running [OF kernel_okD(1)] by (auto simp: members_def)

lemma active_sched: "kernel_ok idler s L \<Longrightarrow> p_state (proc s (process_active s)) = PROCESS_SCHED"
  using runs_highestD(5) [OF kernel_reprD(1) [OF kernel_okD(1)]] .

lemma idler_pid:
  assumes "kernel_ok idler s L" "p \<in> table s" "p \<noteq> idler"
  shows "p_pid (proc s p) \<noteq> 0"
  using kinshipD(1) [OF assms(1,2), of 0] kernel_okD(6) [OF assms(1)] assms(3) by auto

lemma ids_range:
  assumes "pool_ids pool U" "table_ids tab U" "tab n \<noteq> NULL"
  shows "0 \<le> n \<and> n < int (id_pool_cap pool)"
  using pool_ids_range [OF assms(1)] assms(2,3) by (auto simp: table_ids_def)

lemma table_range:
  "queue_table_ok s \<Longrightarrow> queue_pool s n \<noteq> NULL \<Longrightarrow> 0 \<le> n \<and> n < int QUEUE_POOL_CAP"
  "process_table_ok s \<Longrightarrow> process_pool s n \<noteq> NULL \<Longrightarrow> 0 \<le> n \<and> n < int PROCESS_POOL_CAP"
  using ids_range [of _ _ "queue_pool s" n] ids_range [of _ _ "process_pool s" n]
  by (fastforce simp: queue_table_ok_def process_table_ok_def)+

section \<open>Starting a process\<close>

text \<open>
  The processes on the lists become more by the new one. Its block is none of the processes in the
  table; when a check or an allocation fails only the heap may have changed.
\<close>

lemma start_fails:
  assumes ok: "kernel_ok idler s L"
    and bad: "\<not> (0 \<le> priority \<and> priority < PROCESS_MAX_PRIORITY \<and> process_check_user_ptr s name
      \<and> allocatable s b ssize)"
  shows "moves idler s L (process_start b entry ssize priority name arg s)"
  using ok bad
  by (auto simp: process_start_def process_alloc_def allocatable_def Let_def not_less intro!: moved_frames)

lemma table_insert:
  assumes "process_pool s' = (process_pool s)(n := p)" "process_pool s n = NULL" "p \<noteq> NULL"
  shows "table s' = insert p (table s)"
proof
  show "table s' \<subseteq> insert p (table s)" by (auto simp: table_def assms(1) split: if_splits)
  show "insert p (table s) \<subseteq> table s'"
  proof
    fix x assume "x \<in> insert p (table s)"
    then consider "x = p" | m where "x \<noteq> NULL" "process_pool s m = x" "m \<noteq> n"
      using assms(2) by (auto simp: table_def)
    then have "x \<noteq> NULL \<and> (\<exists>m. process_pool s' m = x)"
    proof cases
      case 1
      then show ?thesis using assms(3) by (auto simp: assms(1))
    next
      case 2
      then have "process_pool s' m = x" by (simp add: assms(1))
      then show ?thesis using 2(1) by blast
    qed
    then show "x \<in> table s'" by (simp add: table_def)
  qed
qed

text \<open>The new process is the first child of the active one.\<close>

lemma start_family:
  assumes ok: "kernel_ok idler s L" and new: "p \<notin> table s" and n: "p \<noteq> NULL" "process_pool s n = NULL"
    and q: "q = process_active s" and pool: "process_pool s' = (process_pool s)(n := p)"
    and p: "p_pid (proc s' p) = n" "p_parent (proc s' p) = q" "p_child (proc s' p) = NULL"
      "p_sibling (proc s' p) = p_child (proc s q)" "p_child (proc s' q) = p" "p_state (proc s' p) = PROCESS_SCHED"
    and oth: "\<forall>x. x \<noteq> p \<longrightarrow> p_state (proc s' x) = p_state (proc s x) \<and> u2 (proc s' x) = u2 (proc s x)
        \<and> p_parent (proc s' x) = p_parent (proc s x) \<and> p_sibling (proc s' x) = p_sibling (proc s x)
        \<and> p_pid (proc s' x) = p_pid (proc s x) \<and> (x \<noteq> q \<longrightarrow> p_child (proc s' x) = p_child (proc s x))"
    and wc: "\<And>x. x \<in> table s \<Longrightarrow> p_state (proc s x) = PROCESS_WAIT_CHILD \<Longrightarrow>
      proc s' x = proc s x \<and> frames s' x = frames s x"
  shows "family_ok s'"
  unfolding family_ok_def
proof
  note t = table_insert [OF pool n(2,1)]
  have q': "q \<in> table s" "p_state (proc s q) = PROCESS_SCHED"
    using active_table [OF ok] active_sched [OF ok] by (simp_all add: q)
  then have pq: "p \<noteq> q" using new by auto
  have par: "p_parent (proc s x) \<noteq> p" if "x \<in> table s" for x
    using kinshipD(3) [OF ok that] new n(1) by auto
  fix x assume x: "x \<in> table s'"
  show "kinship s' x"
  proof (cases "x = p")
    case True
    have "children s' p []" using p by (simp add: children_def)
    moreover have "p_parent (proc s' c) \<noteq> p" if "c \<in> table s'" for c
      using that par [of c] oth p(2) pq new by (cases "c = p") (simp_all add: t)
    then have "set [] = {c \<in> table s'. p_parent (proc s' c) = p}" by simp
    ultimately have "\<exists>cs. children s' p cs \<and> set cs = {c \<in> table s'. p_parent (proc s' c) = p}" by blast
    moreover have "process_pool s m \<noteq> p" for m using new n(1) by (auto simp: table_def)
    ultimately show ?thesis using True p q'(1) by (simp add: kinship_def t pool)
  next
    case False
    then have xt: "x \<in> table s" using x t by simp
    note k = kinshipD [OF ok xt]
    have "\<exists>cs. children s' x cs \<and> set cs = {c \<in> table s'. p_parent (proc s' c) = x}"
    proof -
      obtain cs where cs: "children s x cs" "set cs = {c \<in> table s. p_parent (proc s c) = x}"
        using k(2) by blast
      have pc: "p \<notin> set cs" using cs(2) new by auto
      have sl: "slist (siblings s') h cs = slist (siblings s) h cs" for h
        by (rule slist_cong) (use oth pc in \<open>auto simp: siblings_def\<close>)
      have par': "p_parent (proc s' c) = p_parent (proc s c)" if "c \<noteq> p" for c using oth that by blast
      have kids: "c \<noteq> p \<and> p_parent (proc s' c) = x" if "c \<in> set cs" for c
        using that cs(2) pc par' [of c] by auto
      have set: "{c \<in> table s'. p_parent (proc s' c) = x} = (if x = q then insert p (set cs) else set cs)"
      proof (rule set_eqI)
        fix c
        show "c \<in> {c \<in> table s'. p_parent (proc s' c) = x} \<longleftrightarrow>
            c \<in> (if x = q then insert p (set cs) else set cs)"
          using cs(2) new p(2) par' [of c] by (cases "c = p") (simp_all add: t)
      qed
      have xn: "x \<notin> set cs" using cs(1) by (simp add: children_def)
      show ?thesis
      proof (cases "x = q")
        case True
        have "slist (siblings s') (siblings s' p) cs"
          using cs(1) p(4) True by (simp add: sl children_def) (simp add: siblings_def)
        then have "children s' q (p # cs)"
          using kids xn p(2,5) n(1) pq True by (simp add: children_def)
        then show ?thesis using set True by (intro exI [of _ "p # cs"]) simp
      next
        case xq: False
        have "p_child (proc s' x) = p_child (proc s x)" using oth False xq by blast
        then have "children s' x cs" using cs(1) kids xn by (simp add: children_def sl)
        then show ?thesis using set xq by (intro exI [of _ cs]) simp
      qed
    qed
    moreover have "awaits s' x" if w: "p_state (proc s' x) = PROCESS_WAIT_CHILD"
    proof -
      have w': "p_state (proc s x) = PROCESS_WAIT_CHILD" using w oth False by simp
      note same = wc [OF xt w']
      have xq: "x \<noteq> q" using w' q'(2) by auto
      have wf: "waits_for s' x c \<longleftrightarrow> c \<noteq> p \<and> waits_for s x c" for c
        using oth p(2) same xq by (cases "c = p") (auto simp: waits_for_def)
      have aw: "awaits s x" by (rule k(5) [OF w'])
      show ?thesis
        unfolding awaits_def
      proof (intro conjI ballI impI)
        show "\<exists>a. frames s' x = [Fr_wait a]" "valid_priority s' x"
          using aw same by (simp_all add: awaits_def valid_priority_def)
        obtain c where "c \<in> table s" "waits_for s x c" using aw by (auto simp: awaits_def)
        then show "\<exists>c\<in>table s'. waits_for s' x c" using new wf [of c] by (intro bexI [of _ c]) (auto simp: t)
        show "p_state (proc s' c) \<noteq> PROCESS_ZOMBIE" if "c \<in> table s'" "waits_for s' x c" for c
          using aw that wf [of c] oth by (simp add: awaits_def t)
      qed
    qed
    moreover have "process_pool s' m = x \<longleftrightarrow> m = p_pid (proc s' x)" for m
    proof -
      have "p_pid (proc s' x) = p_pid (proc s x)" using oth False by blast
      moreover have "p_pid (proc s x) \<noteq> n" using k(1) [of n] k(6) n(2) by auto
      ultimately show ?thesis using k(1) [of m] False by (auto simp: pool)
    qed
    moreover have "p_parent (proc s' x) \<in> insert NULL (table s')" using k(3) oth False by (auto simp: t)
    moreover have "p_child (proc s' x) = NULL" if "p_state (proc s' x) = PROCESS_ZOMBIE"
    proof -
      have z: "p_state (proc s x) = PROCESS_ZOMBIE" using that oth False by simp
      then have "x \<noteq> q" using q'(2) by auto
      then show ?thesis using k(4) [OF z] oth False by simp
    qed
    ultimately show ?thesis by (simp add: kinship_def)
  qed
qed

lemma start_adds:
  assumes ok: "kernel_ok idler s L" and e: "frames s (process_active s) = []"
    and new: "\<And>n. process_pool s n \<noteq> process_block b"
    and good: "0 \<le> priority" "priority < PROCESS_MAX_PRIORITY" "process_check_user_ptr s name"
      "allocatable s b ssize"
  shows "ends_ok idler (process_start b entry ssize priority name arg s)"
proof -
  define L' where "L' = L\<lparr>ready := (ready L)(priority := process_block b # ready L priority)\<rparr>"
  let ?p = "process_block b" and ?q = "process_active s"
  note r = kernel_okD(1) [OF ok]
  have out: "?p \<notin> table s" using new by (auto simp: table_def)
  then have outm: "?p \<notin> members L" using members_table [OF r] by blast
  then have off: "off_rings (ready L) ?p" by (simp add: off_running members_def)
  have pn: "?p \<noteq> NULL" using good(4) by (simp add: allocatable_def)
  obtain U where U: "pool_ids (process_id_pool s) U" "table_ids (process_pool s) U"
    using kernel_reprD(10) [OF r] by (auto simp: process_table_ok_def)
  from start_repr [OF kernel_reprD(1) [OF r] good(4) off U good(1-3), of entry arg] obtain s' n where
    s': "returns s (Fr_start ?p) n (process_start b entry ssize priority name arg s) s'"
      "runs_highest s' (ready L')" "n \<notin> U" "process_pool s' = (process_pool s)(n := ?p)"
      "pool_ids (process_id_pool s') (insert n U)" "table_ids (process_pool s') (insert n U)"
      "spares (ready L) {?p} {} (s\<lparr>process_id_pool := process_id_pool s', process_pool := process_pool s'\<rparr>) s'"
      "suspends (s\<lparr>frames := (frames s)(?p := [Fr_startup])\<rparr>) [Fr_start ?p] s'"
      "id_pool_cap (process_id_pool s') = id_pool_cap (process_id_pool s)"
      "process_start b entry ssize priority name arg s = Done n s' \<longrightarrow>
        process_active s' = ?q \<and> frames s' = (frames s)(?p := [Fr_startup])"
    and p: "p_pid (proc s' ?p) = n" "p_parent (proc s' ?p) = ?q" "p_child (proc s' ?p) = NULL"
      "p_sibling (proc s' ?p) = p_child (proc s ?q)" "p_child (proc s' ?q) = ?p"
      "p_state (proc s' ?p) = PROCESS_SCHED"
    and oth: "\<forall>x. x \<noteq> ?p \<longrightarrow> p_state (proc s' x) = p_state (proc s x) \<and> u2 (proc s' x) = u2 (proc s x)
        \<and> p_parent (proc s' x) = p_parent (proc s x) \<and> p_sibling (proc s' x) = p_sibling (proc s x)
        \<and> p_pid (proc s' x) = p_pid (proc s x) \<and> (x \<noteq> ?q \<longrightarrow> p_child (proc s' x) = p_child (proc s x))"
    unfolding L'_def by auto
  have nul: "process_pool s n = NULL" using U(2) s'(3) by (auto simp: table_ids_def)
  note t = table_insert [OF s'(4) nul pn]
  have run: "running L' = insert ?p (running L)" by (auto simp: running_def L'_def split: if_splits)
  have wt: "waiting L' = waiting L" by (simp add: L'_def)
  have mem: "members L' = insert ?p (members L)" by (simp add: members_def run wt)
  have same: "proc s' x = proc s x" if "x \<notin> running L" "x \<noteq> ?p" for x
    using s'(7) that off_running [of L x] by (simp add: spares_def)
  have qm: "?q \<in> members L" "?q \<in> running L"
    using active_running [OF r] by (simp_all add: members_def)
  then have pq: "?p \<noteq> ?q" using outm by metis
  have fr: "frames s' x = frames s x" if "x \<noteq> ?p" "x \<noteq> ?q" for x
    using s'(8) that by (simp add: suspends_def)
  have frs: "frames s' ?p = [Fr_startup]" "frames s' ?q = [] \<or> frames s' ?q = [Fr_start ?p]"
    using s'(8) pq e by (auto simp: suspends_def)
  have tab: "queue_table_ok s' = queue_table_ok s" "pooled s' = pooled s"
    by (rule spares_table [OF s'(7)]; simp)+
  have "kernel_repr s' L'"
  proof (rule kernel_repr_placed [OF r _ _ s'(7) s'(2)])
    show "all_placed s' L'"
      using kernel_reprD(9) [OF r] oth out by (auto simp: all_placed_def mem t)
    show "process_table_ok s'" using s'(5,6,9) kernel_reprD(10) [OF r] by (auto simp: process_table_ok_def)
    show "valid_priority s' x" if "x \<in> waiting L'" for x
    proof -
      have x: "x \<in> waiting L" using that wt by simp
      then have "x \<notin> running L" using waiting_off [OF r x] off_running by blast
      moreover have "x \<noteq> ?p" using x outm by (auto simp: members_def)
      ultimately show ?thesis using same [of x] kernel_reprD(8) [OF r x] by (simp add: valid_priority_def)
    qed
    show "queue_table_ok s'" using tab kernel_reprD(5) [OF r] by simp
    show "pooled s' q = pooled s q \<and> on_queue L' q = on_queue L q \<and> set (on_queue L q) \<inter> {?p} = {}" for q
      using tab outm by (auto simp: L'_def members_def waiting_def)
  qed (use outm in \<open>auto simp: L'_def members_def waiting_def\<close>)
  moreover have "family_ok s'"
  proof (rule start_family [OF ok out pn nul refl s'(4) p oth])
    fix x assume x: "x \<in> table s" "p_state (proc s x) = PROCESS_WAIT_CHILD"
    then have "x \<notin> running L" "x \<noteq> ?p" using waiting_states(5) [OF r, of x] out by auto
    then show "proc s' x = proc s x \<and> frames s' x = frames s x" using same fr qm(2) by metis
  qed
  moreover have "calm idler x (frames s' x) \<or> x \<noteq> idler \<and> pending s' x" if "x \<in> members L'" for x
  proof (cases "x = ?p \<or> x = ?q")
    case True
    then show ?thesis using frs by auto
  next
    case False
    then have xm: "x \<in> members L" using that mem by auto
    have "pending s' x" if "pending s x"
    proof (rule pending_same [OF that])
      fix z assume z: "z \<in> table s" "p_parent (proc s z) = x" "p_state (proc s z) = PROCESS_ZOMBIE"
      then have "z \<noteq> ?p" using out by auto
      then show "z \<in> table s' \<and> p_parent (proc s' z) = x \<and> p_state (proc s' z) = PROCESS_ZOMBIE"
        using z oth by (simp add: t)
    qed (use False oth fr in simp_all)
    then show ?thesis using kernel_okD(2) [OF ok xm] fr False by auto
  qed
  moreover have "kbd s' = kbd s" using s'(7) by (simp add: spares_def)
  moreover have "process_pool s' 0 = idler"
  proof -
    have "idler \<in> members L" using kernel_okD(3) [OF ok] by (simp add: members_def)
    then have "idler \<noteq> NULL" using members_table [OF r] by (auto simp: table_def)
    then have "n \<noteq> 0" using nul kernel_okD(6) [OF ok] by auto
    then show ?thesis using s'(4) kernel_okD(6) [OF ok] by simp
  qed
  ultimately have "kernel_ok idler s' L'"
    using kernel_okD(3,4) [OF ok] run by (simp add: kernel_ok_def)
  then show ?thesis using s'(1,10) e pq by (auto simp: returns_def)
qed

lemma start_ends:
  assumes ok: "kernel_ok idler s L" and e: "frames s (process_active s) = []"
    and new: "process_block b = NULL \<or> process_block b \<notin> table s"
  shows "ends_ok idler (process_start b entry ssize priority name arg s)"
proof (cases "0 \<le> priority \<and> priority < PROCESS_MAX_PRIORITY \<and> process_check_user_ptr s name \<and> allocatable s b ssize")
  case True
  then have "process_pool s n \<noteq> process_block b" for n
    using new by (auto simp: allocatable_def table_def)
  from start_adds [OF ok e this] True show ?thesis by blast
next
  case False
  show ?thesis by (rule moves_ends [OF start_fails [OF ok False] e])
qed

section \<open>Exit\<close>

text \<open>The rings after processes were woken and the active one has left.\<close>

lemma running_left:
  assumes h: "runs_highest s R" and r': "sched_repr s' (blocked s (wake_rings s ws R))"
    and p: "p = process_active s" "p_state (proc s' p) \<noteq> PROCESS_SCHED"
  shows "(\<Union>k. set (blocked s (wake_rings s ws R) k)) = ((\<Union>k. set (R k)) \<union> set ws) - {p}"
proof
  let ?R = "wake_rings s ws R"
  have w: "(\<Union>k. set (?R k)) = set ws \<union> (\<Union>k. set (R k))"
    using running_wake [where L = "\<lparr>ready = R, timed = [], on_queue = \<lambda>_. [], on_console = []\<rparr>" and s = s and ps = ws]
    by (simp add: running_def)
  have sub: "set (blocked s ?R k) \<subseteq> set (?R k)" for k
    using set_remove1_subset [of "process_active s" "?R (p_priority (proc s (process_active s)))"]
    by (auto simp: blocked_def Let_def)
  have "p \<notin> set (blocked s ?R k)" for k using sched_reprD(5) [OF r'] p(2) by blast
  moreover have "(\<Union>k. set (blocked s ?R k)) \<subseteq> (\<Union>k. set (?R k))" using sub by (rule UN_mono [OF subset_refl])
  ultimately show "(\<Union>k. set (blocked s ?R k)) \<subseteq> ((\<Union>k. set (R k)) \<union> set ws) - {p}"
    unfolding w by auto
  have "set (?R k) - {p} \<subseteq> set (blocked s ?R k)" for k
  proof
    fix x assume "x \<in> set (?R k) - {p}"
    then show "x \<in> set (blocked s ?R k)" by (auto simp: blocked_def Let_def p(1))
  qed
  then have "(\<Union>k. set (?R k)) - {p} \<subseteq> (\<Union>k. set (blocked s ?R k))" by blast
  then show "((\<Union>k. set (R k)) \<union> set ws) - {p} \<subseteq> (\<Union>k. set (blocked s ?R k))"
    unfolding w by auto
qed

text \<open>
  The active process leaves its ring: it is a zombie or waits for a child, and processes that waited for
  a child may have become ready.
\<close>

lemma left_repr:
  assumes ok: "kernel_ok idler s L" and p: "p = process_active s" "p \<noteq> idler"
    and hi: "runs_highest s' (blocked s (wake_rings s ws (ready L)))"
    and ws: "\<And>x. x \<in> set ws \<Longrightarrow> x \<in> table s \<and> p_state (proc s x) = PROCESS_WAIT_CHILD"
    and st: "p_state (proc s' p) \<in> {PROCESS_WAIT_CHILD, PROCESS_ZOMBIE}"
    and ran: "ran s s'" and oth: "\<And>x. x \<noteq> p \<Longrightarrow> x \<notin> set ws \<Longrightarrow> p_state (proc s' x) = p_state (proc s x)
        \<and> (off_rings (ready L) x \<longrightarrow> proc s' x = proc s x)"
  defines "L' \<equiv> L\<lparr>ready := blocked s (wake_rings s ws (ready L))\<rparr>"
  shows "kernel_repr s' L'" "members L' = members L \<union> set ws - {p}" "idler \<in> running L'"
    "table s' = table s"
proof -
  note r = kernel_okD(1) [OF ok]
  have run: "running L' = running L \<union> set ws - {p}"
  proof -
    have "p_state (proc s' p) \<noteq> PROCESS_SCHED" using st by auto
    from running_left [OF kernel_reprD(1) [OF r] runs_highestD(1) [OF hi] p(1) this]
    show ?thesis by (simp add: running_def L'_def)
  qed
  have wt: "waiting L' = waiting L" by (simp add: L'_def)
  have pr: "p \<in> running L" using active_running [OF r] p by simp
  then have pw: "p \<notin> waiting L" using waiting_off [OF r, of p] off_running by blast
  show mem: "members L' = members L \<union> set ws - {p}" using pw by (auto simp: members_def run wt)
  show "idler \<in> running L'" using kernel_okD(3) [OF ok] p by (auto simp: run)
  note k = ran_kernel [OF ran]
  show t: "table s' = table s" by (simp add: table_def k)
  have wsm: "x \<notin> members L" if "x \<in> set ws" for x
    using ws [OF that] members_state [OF r, of x] by auto
  have tab: "queue_table_ok s' = queue_table_ok s" "pooled s' = pooled s"
    by (simp_all add: queue_table_ok_def pooled_def [abs_def] k)
  have same: "proc s' x = proc s x" if "x \<in> waiting L" for x
  proof -
    have "x \<noteq> p" "x \<notin> set ws" using that pw wsm by (auto simp: members_def)
    then show ?thesis using oth waiting_off [OF r that] by blast
  qed
  show "kernel_repr s' L'"
  proof (rule kernel_repr_placed [OF r refl refl, of "{p} \<union> set ws" "{}"])
    show "spares (ready L) ({p} \<union> set ws) {} s s'" using oth by (simp add: spares_def k)
    show "runs_highest s' (ready L')" using hi by (simp add: L'_def)
    show "process_table_ok s'" using kernel_reprD(10) [OF r] by (simp add: process_table_ok_def k)
    show "all_placed s' L'"
      unfolding all_placed_def t
    proof (intro conjI ballI)
      show "members L' \<subseteq> table s" using members_table [OF r] ws by (auto simp: mem)
      fix x assume x: "x \<in> table s"
      show "x \<in> members L' \<or> p_state (proc s' x) \<in> {PROCESS_WAIT_CHILD, PROCESS_ZOMBIE}"
        using x st oth [of x] kernel_reprD(9) [OF r] by (cases "x = p"; cases "x \<in> set ws") (auto simp: mem all_placed_def)
    qed
    show "valid_priority s' x" if "x \<in> waiting L'" for x
      using that wt same [of x] kernel_reprD(8) [OF r, of x] by (simp add: valid_priority_def)
    show "queue_table_ok s'" using tab kernel_reprD(5) [OF r] by simp
    show "pooled s' q = pooled s q \<and> on_queue L' q = on_queue L q \<and> set (on_queue L q) \<inter> ({p} \<union> set ws) = {}" for q
      using tab pw wsm by (auto simp: L'_def members_def waiting_def)
  qed (use pw wsm in \<open>auto simp: L'_def members_def waiting_def\<close>)
qed

text \<open>The families after it.\<close>

lemma left_family:
  assumes ok: "kernel_ok idler s L" and p: "p = process_active s"
    and kin: "\<And>x. kin (proc s x) (proc s' x)" and t: "process_pool s' = process_pool s"
    and oth: "\<And>x. x \<noteq> p \<Longrightarrow> x \<notin> W \<Longrightarrow> p_state (proc s' x) = p_state (proc s x)
        \<and> (off_rings (ready L) x \<longrightarrow> proc s' x = proc s x)"
    and fr: "\<And>x. x \<noteq> p \<Longrightarrow> frames s' x = frames s x"
    and W: "\<And>x. x \<in> W \<Longrightarrow> p_state (proc s' x) = PROCESS_SCHED"
    and z: "p_state (proc s' p) = PROCESS_ZOMBIE \<Longrightarrow> p_child (proc s p) = NULL
      \<and> (\<forall>x\<in>table s. p_state (proc s x) = PROCESS_WAIT_CHILD \<and> waits_for s x p \<longrightarrow> x \<in> W)"
    and w: "p_state (proc s' p) = PROCESS_WAIT_CHILD \<Longrightarrow> awaits s' p"
  shows "family_ok s'"
  unfolding family_ok_def
proof
  fix x assume "x \<in> table s'"
  moreover have tt: "table s' = table s" by (simp add: table_def t)
  ultimately have x: "x \<in> table s" by simp
  note k = kinshipD [OF ok x]
  note kf = kin [unfolded kin_def]
  have zomb: "p_state (proc s c) = PROCESS_ZOMBIE \<or> c = p" if "p_state (proc s' c) = PROCESS_ZOMBIE" for c
    using that oth [of c] W [of c] by (metis process_state.distinct(9))
  obtain cs where "children s x cs" "set cs = {c \<in> table s. p_parent (proc s c) = x}" using k(2) by blast
  then have "\<exists>cs. children s' x cs \<and> set cs = {c \<in> table s'. p_parent (proc s' c) = x}"
    using children_kin [OF kin] kf tt by auto
  moreover have "p_child (proc s' x) = NULL" if "p_state (proc s' x) = PROCESS_ZOMBIE"
    using zomb [OF that] k(4) z that kf by auto
  moreover have "awaits s' x" if wx: "p_state (proc s' x) = PROCESS_WAIT_CHILD"
  proof (cases "x = p")
    case True
    then show ?thesis using w wx by simp
  next
    case False
    have xW: "x \<notin> W" using W wx by auto
    then have w': "p_state (proc s x) = PROCESS_WAIT_CHILD" using oth False wx by simp
    have "off_rings (ready L) x"
      using waiting_off_rings [OF runs_highestD(1) [OF kernel_reprD(1) [OF kernel_okD(1) [OF ok]]]] w' by auto
    then have same: "proc s' x = proc s x" using oth False xW by blast
    have wf: "waits_for s' x c = waits_for s x c" for c using kf same by (simp add: waits_for_def)
    have aw: "awaits s x" by (rule k(5) [OF w'])
    have "p_state (proc s' c) \<noteq> PROCESS_ZOMBIE" if c: "c \<in> table s" "waits_for s x c" for c
    proof
      assume zc: "p_state (proc s' c) = PROCESS_ZOMBIE"
      from zomb [OF this] show False
      proof
        assume "c = p"
        then show False using z zc x w' c xW by blast
      qed (use aw c in \<open>simp add: awaits_def\<close>)
    qed
    then show ?thesis using aw same fr [OF False] by (simp add: awaits_def tt wf valid_priority_def)
  qed
  ultimately show "kinship s' x" using k(1,3) kf tt by (simp add: kinship_def t)
qed

lemma exit_ends:
  assumes ok: "kernel_ok idler s L" and a: "process_active s \<noteq> idler"
    and leaf: "p_child (proc s (process_active s)) = NULL"
  shows "ends_ok idler (process_exit code s)"
proof -
  define p where "p = process_active s"
  define q where "q = p_parent (proc s p)"
  define ws where "ws = woken s p"
  note r = kernel_okD(1) [OF ok]
  note h = kernel_reprD(1) [OF r]
  have pt: "p \<in> table s" using active_table [OF ok] by (simp add: p_def)
  have ps: "p_state (proc s p) = PROCESS_SCHED" using active_sched [OF ok] by (simp add: p_def)
  have ws1: "ws = [q] \<and> q \<in> table s \<and> p_state (proc s q) = PROCESS_WAIT_CHILD \<and> awaits s q \<and> q \<noteq> p"
    if "ws \<noteq> []"
  proof -
    have w: "parent_waits s p" using that by (simp add: ws_def woken_def split: if_splits)
    then have "q \<in> table s" using kinshipD(3) [OF ok pt] by (auto simp: parent_waits_def q_def)
    then show ?thesis using w kinshipD(5) [OF ok, of q] ps by (auto simp: ws_def woken_def parent_waits_def q_def)
  qed
  have wst: "x \<in> table s \<and> p_state (proc s x) = PROCESS_WAIT_CHILD" if "x \<in> set ws" for x
    using ws1 that by (cases "ws = []") auto
  have v: "valid_priorities s ws"
    using ws1 by (cases "ws = []") (auto simp: valid_priorities_def awaits_def valid_priority_def)
  have some: "\<exists>j. blocked s (wake_rings s ws (ready L)) j \<noteq> []"
  proof -
    obtain k where "idler \<in> set (ready L k)" using kernel_okD(3) [OF ok] by (auto simp: running_def)
    then have "idler \<in> set (wake_rings s ws (ready L) k)" by (rule wake_rings_mem)
    then have "idler \<in> set (blocked s (wake_rings s ws (ready L)) k)" using a by (auto simp: blocked_def Let_def)
    then show ?thesis by (metis empty_iff empty_set)
  qed
  have pid: "p_pid (proc s p) \<noteq> 0" using idler_pid [OF ok pt] a by (simp add: p_def)
  have "p_child (proc s p) = NULL" using leaf by (simp add: p_def)
  from exit_repr [OF p_def q_def ws_def h this pid v some, of code] obtain s' where
    s': "process_exit code s = Switched s'" "runs_highest s' (blocked s (wake_rings s ws (ready L)))"
      "p_state (proc s' p) = PROCESS_ZOMBIE" "ws \<noteq> [] \<longrightarrow> new_zombie_child (proc s' q) = p"
      "\<forall>x. x \<noteq> p \<longrightarrow> steady (proc s x) (proc s' x)" "p_pid (proc s' p) = p_pid (proc s p)"
      "p_parent (proc s' p) = q" "p_child (proc s' p) = NULL" "p_sibling (proc s' p) = p_sibling (proc s p)"
      "ran s s'" "\<forall>x. x \<noteq> p \<longrightarrow> frames s' x = frames s x"
      "\<forall>x. x \<noteq> p \<and> x \<notin> set ws \<longrightarrow> p_state (proc s' x) = p_state (proc s x)
        \<and> u2 (proc s' x) = u2 (proc s x) \<and> (off_rings (ready L) x \<longrightarrow> proc s' x = proc s x)"
    by auto
  have kin: "kin (proc s x) (proc s' x)" for x
    using s'(5-9) \<open>p_child (proc s p) = NULL\<close> by (cases "x = p") (auto simp: kin_def steady_def q_def)
  note k = ran_kernel [OF s'(10)]
  have oth: "p_state (proc s' x) = p_state (proc s x) \<and> (off_rings (ready L) x \<longrightarrow> proc s' x = proc s x)"
    if "x \<noteq> p" "x \<notin> set ws" for x using s'(12) that by blast
  define L' where "L' = L\<lparr>ready := blocked s (wake_rings s ws (ready L))\<rparr>"
  have pi: "p \<noteq> idler" using a by (simp add: p_def)
  have "p_state (proc s' p) \<in> {PROCESS_WAIT_CHILD, PROCESS_ZOMBIE}" using s'(3) by simp
  note left = left_repr [OF ok p_def pi s'(2) wst this s'(10) oth, folded L'_def]
  have wsr: "x \<in> running L'" if "x \<in> set ws" for x
  proof -
    have "x \<in> members L'" "x \<notin> waiting L" using left(2) that ws1 wst [OF that] members_state [OF r, of x]
      by (cases "ws = []"; auto simp: members_def)+
    then show ?thesis by (simp add: members_def L'_def)
  qed
  have "family_ok s'"
  proof (rule left_family [OF ok p_def kin k(3) oth])
    show "p_state (proc s' x) = PROCESS_SCHED" if "x \<in> set ws" for x
      by (rule waiting_states(5) [OF left(1) wsr [OF that]])
    show "p_child (proc s p) = NULL
      \<and> (\<forall>x\<in>table s. p_state (proc s x) = PROCESS_WAIT_CHILD \<and> waits_for s x p \<longrightarrow> x \<in> set ws)"
      using leaf kinshipD(6) [OF ok] by (auto simp: ws_def woken_def parent_waits_def waits_for_def p_def)
  qed (use s' in auto)
  moreover have "calm idler x (frames s' x) \<or> x \<noteq> idler \<and> pending s' x" if x: "x \<in> members L'" for x
  proof (cases "x \<in> set ws")
    case True
    then have w: "ws \<noteq> []" "x = q" using ws1 by (cases "ws = []"; auto)+
    have "idler \<notin> set ws" using wst waiting_states(5) [OF r kernel_okD(3) [OF ok]] by auto
    moreover have "pending s' q"
      using w ws1 s'(3,4,7,11) waiting_states(5) [OF left(1) wsr [OF True]] pt left(4)
      by (auto simp: pending_def awaits_def)
    ultimately show ?thesis using True w by auto
  next
    case False
    then have xm: "x \<in> members L" "x \<noteq> p" using x left(2) by auto
    have "pending s' x" if "pending s x"
    proof (rule pending_same [OF that])
      fix z assume z: "z \<in> table s" "p_parent (proc s z) = x" "p_state (proc s z) = PROCESS_ZOMBIE"
      then have "z \<noteq> p" "z \<notin> set ws" using ps wst by auto
      then show "z \<in> table s' \<and> p_parent (proc s' z) = x \<and> p_state (proc s' z) = PROCESS_ZOMBIE"
        using z s'(12) kin [of z] left(4) by (simp add: kin_def)
    qed (use False xm s'(11,12) in simp_all)
    then show ?thesis using kernel_okD(2) [OF ok xm(1)] s'(11) xm(2) by auto
  qed
  ultimately have "kernel_ok idler s' L'"
    using left(1,3) k kernel_okD(4,6) [OF ok] by (simp add: kernel_ok_def)
  then show ?thesis using s'(1) by auto
qed

section \<open>Wait\<close>

text \<open>The pointers between parents and children are on no list.\<close>

lemma kernel_repr_kin:
  assumes r: "kernel_repr s L"
    and pr: "\<And>x. proc s' x = (proc s x)\<lparr>p_child := p_child (proc s' x), p_sibling := p_sibling (proc s' x)\<rparr>"
    and s': "s' = s\<lparr>proc := proc s', process_pool := process_pool s', process_id_pool := process_id_pool s',
       heap := heap s', user_stacks := user_stacks s'\<rparr>"
    and pl: "process_table_ok s'" "members L \<subseteq> table s'" "table s' \<subseteq> table s"
  shows "kernel_repr s' L"
proof -
  have f: "p_state (proc s' x) = p_state (proc s x)" "p_priority (proc s' x) = p_priority (proc s x)"
    "u0 (proc s' x) = u0 (proc s x)" "u1 (proc s' x) = u1 (proc s x)" "u2 (proc s' x) = u2 (proc s x)" for x
    by (subst pr, simp)+
  have g: "process_sched_rings s' = process_sched_rings s" "process_active s' = process_active s"
    "clock_wait_head s' = clock_wait_head s" "cons_read_wait_head s' = cons_read_wait_head s"
    "queue s' = queue s" "queue_pool s' = queue_pool s" "queue_id_pool s' = queue_id_pool s"
    by (subst s', simp)+
  have l: "link0 s' = link0 s" "link1 s' = link1 s" by (simp_all add: link0_def [abs_def] link1_def [abs_def] f)
  have "sched_repr s' R = sched_repr s R" for R by (simp add: sched_repr_def l f g)
  then have "runs_highest s' R = runs_highest s R" for R by (simp add: runs_highest_def f g)
  moreover have "time_repr s' ts = time_repr s ts" "cons_repr s' ts = cons_repr s ts" for ts
    by (simp_all add: time_repr_def cons_repr_def l f g)
  moreover have "queue_repr s' q ws = queue_repr s q ws" "targets s' ws = targets s ws" for q ws
    by (simp_all add: queue_repr_def waiters_def targets_def l f g)
  moreover have "queue_table_ok s' = queue_table_ok s" "pooled s' = pooled s"
    by (simp_all add: queue_table_ok_def pooled_def [abs_def] g)
  moreover have "all_placed s' L" using kernel_reprD(9) [OF r] pl(2,3) by (auto simp: all_placed_def f)
  ultimately show ?thesis using r pl(1) by (simp add: kernel_repr_def valid_priority_def f)
qed

text \<open>The family of a process after a child that has ended was removed from the table.\<close>

lemma table_without:
  assumes "process_pool s' = (process_pool s)(p_pid (proc s c) := NULL)"
    and "\<And>n. process_pool s n = c \<longleftrightarrow> n = p_pid (proc s c)"
  shows "table s' = table s - {c}"
proof
  show "table s' \<subseteq> table s - {c}" using assms(2) by (auto simp: table_def assms(1) split: if_splits)
  show "table s - {c} \<subseteq> table s'"
  proof
    fix x assume "x \<in> table s - {c}"
    then obtain n where n: "x \<noteq> NULL" "process_pool s n = x" "x \<noteq> c" by (auto simp: table_def)
    then have "process_pool s' n = x" using assms(2) [of "p_pid (proc s c)"] by (auto simp: assms(1))
    then show "x \<in> table s'" using n(1) by (auto simp: table_def)
  qed
qed

lemma reap_family:
  assumes ok: "kernel_ok idler s L" and q: "q = p_parent (proc s c)" and c: "c \<in> table s" "q \<noteq> NULL"
    and z: "p_state (proc s c) = PROCESS_ZOMBIE" "p_state (proc s q) = PROCESS_SCHED"
    and cs: "children s q cs" "set cs = {c \<in> table s. p_parent (proc s c) = q}"
    and re: "reaped q cs c s s'"
  shows "table s' = table s - {c}" "family_ok s'"
proof -
  note R = re [unfolded reaped_def]
  have pr: "proc s' x = (proc s x)\<lparr>p_child := p_child (proc s' x), p_sibling := p_sibling (proc s' x)\<rparr>" for x
    using R by blast
  have f: "p_state (proc s' x) = p_state (proc s x)" "p_priority (proc s' x) = p_priority (proc s x)"
    "u0 (proc s' x) = u0 (proc s x)" "p_pid (proc s' x) = p_pid (proc s x)"
    "p_parent (proc s' x) = p_parent (proc s x)" for x
    by (subst pr, simp)+
  have "s' = s\<lparr>proc := proc s', process_pool := process_pool s', process_id_pool := process_id_pool s',
       heap := heap s', user_stacks := user_stacks s'\<rparr>" using R by blast
  then have fr: "frames s' = frames s" by (rule ssubst) simp
  have pool: "process_pool s' = (process_pool s)(p_pid (proc s c) := NULL)" using R by blast
  show t: "table s' = table s - {c}" by (rule table_without [OF pool kinshipD(1) [OF ok c(1)]])
  show "family_ok s'"
    unfolding family_ok_def
  proof
    fix x assume "x \<in> table s'"
    then have x: "x \<in> table s" "x \<noteq> c" by (simp_all add: t)
    note k = kinshipD [OF ok x(1)]
    have wf: "waits_for s' y d = waits_for s y d" for y d by (simp add: waits_for_def f child_pid_def)
    have "\<exists>ds. children s' x ds \<and> set ds = {d \<in> table s'. p_parent (proc s' d) = x}"
    proof (cases "x = q")
      case True
      have "children s' q (remove1 c cs)" using R by blast
      moreover have "distinct cs" using cs(1) slist_distinct by (auto simp: children_def)
      ultimately show ?thesis using cs(2) True by (intro exI [of _ "remove1 c cs"]) (auto simp: t f)
    next
      case False
      obtain ds where ds: "children s x ds" "set ds = {d \<in> table s. p_parent (proc s d) = x}" using k(2) by blast
      have "d \<notin> set cs" if "d \<in> set ds" for d using that ds(2) cs(2) False by auto
      then have "slist (siblings s') h ds = slist (siblings s) h ds" for h
        using R by (intro slist_cong) (auto simp: siblings_def)
      moreover have "p_child (proc s' x) = p_child (proc s x)" using R False by blast
      moreover have "c \<notin> set ds" using ds(2) False q by auto
      ultimately show ?thesis using ds by (intro exI [of _ ds]) (auto simp: children_def t f)
    qed
    moreover have "process_pool s' n = x \<longleftrightarrow> n = p_pid (proc s' x)" for n
      using k(1) [of n] k(1) [of "p_pid (proc s c)"] kinshipD(1) [OF ok c(1), of n] k(6) x(2)
      by (auto simp: pool f)
    moreover have "p_parent (proc s' x) \<in> insert NULL (table s')"
    proof -
      have "p_parent (proc s x) \<noteq> c"
      proof
        assume "p_parent (proc s x) = c"
        moreover obtain ds where "children s c ds" "set ds = {d \<in> table s. p_parent (proc s d) = c}"
          using kinshipD(2) [OF ok c(1)] by blast
        moreover have "p_child (proc s c) = NULL" by (rule kinshipD(4) [OF ok c(1) z(1)])
        ultimately show False using x(1) by (cases ds) (auto simp: children_def)
      qed
      then show ?thesis using k(3) by (auto simp: t f)
    qed
    moreover have "p_child (proc s' x) = NULL" if "p_state (proc s' x) = PROCESS_ZOMBIE"
    proof -
      have "p_state (proc s x) = PROCESS_ZOMBIE" using that f(1) by simp
      moreover from this have "x \<noteq> q" using z(2) by auto
      then have "p_child (proc s' x) = p_child (proc s x)" using R by blast
      ultimately show ?thesis using k(4) by simp
    qed
    moreover have "awaits s' x" if w: "p_state (proc s' x) = PROCESS_WAIT_CHILD"
    proof -
      have a: "awaits s x" using k(5) w by (simp add: f)
      then have "\<not> waits_for s x c" using c(1) z(1) by (auto simp: awaits_def)
      then show ?thesis using a by (auto simp: awaits_def t f wf fr valid_priority_def)
    qed
    ultimately show "kinship s' x" by (simp add: kinship_def)
  qed
qed

lemma reap_moves:
  assumes ok: "kernel_ok idler s L" and e: "frames s (process_active s) = []"
    and c: "c \<in> table s" "p_parent (proc s c) = process_active s" "p_state (proc s c) = PROCESS_ZOMBIE"
  shows "moves idler s L (wait_finish a c s)" "\<exists>s'. wait_finish a c s = Done (p_pid (proc s c)) s'"
proof -
  let ?p = "process_active s" and ?s = "put_user_int a (exit_code (proc s c)) s"
  note r = kernel_okD(1) [OF ok]
  note k = kinshipD [OF ok c(1)]
  note pt = active_table [OF ok]
  note ps = active_sched [OF ok]
  obtain cs where cs: "children s ?p cs" "set cs = {c \<in> table s. p_parent (proc s c) = ?p}"
    using kinshipD(2) [OF ok pt] by blast
  have m: "c \<in> set cs" using cs(2) c by simp
  obtain U where U: "pool_ids (process_id_pool s) U" "table_ids (process_pool s) U"
    and cap: "id_pool_cap (process_id_pool s) = PROCESS_POOL_CAP"
    using kernel_reprD(10) [OF r] by (auto simp: process_table_ok_def)
  have "process_pool s (p_pid (proc s c)) = c" using k(1) by simp
  from wait_finish_repr [OF cs(1) m kinshipD(6) [OF ok pt] c(3) k(4) [OF c(3)] U this, of a] obtain s' where
    s': "wait_finish a c s = Done (p_pid (proc s c)) s'" "reaped ?p cs c ?s s'"
      "pool_ids (process_id_pool s') (U - {p_pid (proc s c)})"
      "table_ids (process_pool s') (U - {p_pid (proc s c)})" by blast
  then show "\<exists>s'. wait_finish a c s = Done (p_pid (proc s c)) s'" by blast
  have ok1: "kernel_ok idler ?s L" using put_user_ok [OF ok] .
  have u: "proc ?s = proc s" "process_active ?s = process_active s" "table ?s = table s" "frames ?s = frames s"
    "process_id_pool ?s = process_id_pool s" "process_pool ?s = process_pool s" "kbd ?s = kbd s"
    by (simp_all add: put_user_int_def table_def)
  have cs1: "children ?s ?p cs" using cs(1) by (simp add: children_def siblings_def [abs_def] u)
  have "?p \<noteq> NULL" by (rule kinshipD(6) [OF ok pt])
  note fam = reap_family [OF ok1 _ _ _ _ _ cs1 _ s'(2), unfolded u, OF c(2) [symmetric] c(1) this c(3) ps cs(2)]
  note R = s'(2) [unfolded reaped_def]
  have pr: "proc s' x = (proc s x)\<lparr>p_child := p_child (proc s' x), p_sibling := p_sibling (proc s' x)\<rparr>" for x
    using R u by metis
  have eq: "s' = ?s\<lparr>proc := proc s', process_pool := process_pool s', process_id_pool := process_id_pool s',
       heap := heap s', user_stacks := user_stacks s'\<rparr>" using R by blast
  have g: "process_active s' = process_active s" "frames s' = frames s" "kbd s' = kbd s"
    by (subst eq, simp add: u)+
  have pool: "process_pool s' = (process_pool s)(p_pid (proc s c) := NULL)" using R by (simp add: u)
  have "kernel_repr s' L"
  proof (rule kernel_repr_kin [OF kernel_okD(1) [OF ok1] _ eq])
    show "proc s' x = (proc ?s x)\<lparr>p_child := p_child (proc s' x), p_sibling := p_sibling (proc s' x)\<rparr>" for x
      using pr by (simp add: u)
    show "process_table_ok s'" using s'(3,4) cap R by (auto simp: process_table_ok_def u)
    show "members L \<subseteq> table s'" using members_table [OF r] members_state [OF r, of c] c(3) fam(1) by auto
  qed (simp add: fam(1) u)
  moreover have "calm idler x (frames s' x) \<or> x \<noteq> idler \<and> pending s' x" if x: "x \<in> members L" for x
  proof -
    have "pending s' x" if "pending s x" "x \<noteq> ?p"
    proof (rule pending_same [OF that(1)])
      show "p_state (proc s' x) = p_state (proc s x)" "u2 (proc s' x) = u2 (proc s x)" by (subst pr, simp)+
      fix z assume z: "z \<in> table s" "p_parent (proc s z) = x" "p_state (proc s z) = PROCESS_ZOMBIE"
      then have "z \<in> table s'" using c(2) that(2) fam(1) by auto
      moreover have "p_state (proc s' z) = p_state (proc s z)" "p_parent (proc s' z) = p_parent (proc s z)"
        by (subst pr, simp)+
      ultimately show "z \<in> table s' \<and> p_parent (proc s' z) = x \<and> p_state (proc s' z) = PROCESS_ZOMBIE"
        using z by simp
    qed (simp add: g)
    then show ?thesis using kernel_okD(2) [OF ok x] e g(2) by (cases "x = ?p") auto
  qed
  moreover have "process_pool s' 0 = idler"
  proof -
    have "idler \<in> members L" using kernel_okD(3) [OF ok] by (simp add: members_def)
    then have "c \<noteq> idler" using members_state [OF r, of idler] c(3) by auto
    then have "p_pid (proc s c) \<noteq> 0" by (rule idler_pid [OF ok c(1)])
    then show ?thesis using kernel_okD(6) [OF ok] by (simp add: pool)
  qed
  ultimately have "kernel_ok idler s' L" using fam(2) kernel_okD(3,4) [OF ok] g(3) by (simp add: kernel_ok_def)
  then have "moved idler s L s'" by (rule moved_frames) (rule g(2))
  then show "moves idler s L (wait_finish a c s)" using s'(1) g by simp
qed

text \<open>What is left to wait for when the call blocks.\<close>

lemma blocks_awaits:
  assumes ok: "kernel_ok idler s L" and p: "p = process_active s"
    and cs: "children s p cs" "set cs = {c \<in> table s. p_parent (proc s c) = p}" "cs \<noteq> []"
    and f: "find (wanted s n) cs = None \<and> n < 0
      \<or> (\<exists>c. find (wanted s n) cs = Some c \<and> p_state (proc s c) \<noteq> PROCESS_ZOMBIE)"
    and s': "child_pid (proc s' p) = n" "frames s' p = [Fr_wait a]" "table s' = table s"
      "p_priority (proc s' p) = p_priority (proc s p)"
    and kin: "\<And>x. kin (proc s x) (proc s' x)" and oth: "\<And>x. x \<noteq> p \<Longrightarrow> p_state (proc s' x) = p_state (proc s x)"
  shows "awaits s' p"
proof -
  note r = kernel_okD(1) [OF ok]
  have "p \<in> members L" using active_running [OF r] by (simp add: members_def p)
  then have v: "valid_priority s' p" using members_valid [OF r] s'(4) by (simp add: valid_priority_def)
  have pid: "0 \<le> p_pid (proc s c)" if "c \<in> table s" for c
  proof -
    have "process_pool s (p_pid (proc s c)) = c" using kinshipD(1) [OF ok that] by simp
    then have "process_pool s (p_pid (proc s c)) \<noteq> NULL" using kinshipD(6) [OF ok that] by simp
    then show ?thesis using table_range(2) [OF kernel_reprD(10) [OF r]] by blast
  qed
  have wf: "waits_for s' p c \<longleftrightarrow> c \<in> set cs \<and> (n < 0 \<or> n = p_pid (proc s c))" if "c \<in> table s" for c
    using kin that cs(2) s'(1) by (auto simp: waits_for_def kin_def)
  have w: "(\<exists>c\<in>set cs. n < 0 \<or> n = p_pid (proc s c))
    \<and> (\<forall>c\<in>set cs. n < 0 \<or> n = p_pid (proc s c) \<longrightarrow> p_state (proc s c) \<noteq> PROCESS_ZOMBIE)"
    using f
  proof
    assume a: "find (wanted s n) cs = None \<and> n < 0"
    then have "p_state (proc s c) \<noteq> PROCESS_ZOMBIE" if "c \<in> set cs" for c
      using that by (auto simp: find_None_iff wanted_def)
    then show ?thesis using a cs(3) by (cases cs) auto
  next
    assume "\<exists>c. find (wanted s n) cs = Some c \<and> p_state (proc s c) \<noteq> PROCESS_ZOMBIE"
    then obtain c where c: "c \<in> set cs" "wanted s n c" "p_state (proc s c) \<noteq> PROCESS_ZOMBIE"
      by (metis find_Some_iff nth_mem)
    then have n: "n = p_pid (proc s c)" "c \<in> table s" using cs(2) by (auto simp: wanted_def)
    have "d = c" if "d \<in> set cs" "n = p_pid (proc s d)" for d
    proof -
      have "d \<in> table s" using that(1) cs(2) by blast
      from kinshipD(1) [OF ok this, of n] kinshipD(1) [OF ok n(2), of n] n(1) that(2) show ?thesis by blast
    qed
    then show ?thesis using c n pid [OF n(2)] by auto
  qed
  have pc: "p \<notin> set cs" using cs(1) by (simp add: children_def)
  obtain c where "c \<in> set cs" "n < 0 \<or> n = p_pid (proc s c)" using w by blast
  then have "\<exists>c\<in>table s'. waits_for s' p c" using wf [of c] cs(2) s'(3) by auto
  moreover have "p_state (proc s' c) \<noteq> PROCESS_ZOMBIE" if "c \<in> table s'" "waits_for s' p c" for c
  proof -
    have c: "c \<in> set cs" "n < 0 \<or> n = p_pid (proc s c)" using wf [of c] that s'(3) by auto
    then have "c \<noteq> p" using pc by auto
    then show ?thesis using w c oth [of c] by auto
  qed
  ultimately show ?thesis using v s'(2) by (simp add: awaits_def)
qed

lemma wait_ends:
  assumes ok: "kernel_ok idler s L" and e: "frames s (process_active s) = []"
    and a: "process_active s \<noteq> idler" and n: "- (2 ^ 31) \<le> n" "n < 2 ^ 31"
  shows "ends_ok idler (process_wait n ptr s)"
proof -
  define p where "p = process_active s"
  note r = kernel_okD(1) [OF ok]
  have pt: "p \<in> table s" using active_table [OF ok] by (simp add: p_def)
  obtain cs where cs: "children s p cs" "set cs = {c \<in> table s. p_parent (proc s c) = p}"
    using kinshipD(2) [OF ok pt] by blast
  have stays: "ends_ok idler (process_wait n ptr s)" if "process_wait n ptr s = Done v s" for v
    using that ok e by auto
  consider "find (wanted s n) cs = None" "cs = [] \<or> 0 \<le> n" | "\<not> user_result s ptr"
    | c where "find (wanted s n) cs = Some c" "p_state (proc s c) = PROCESS_ZOMBIE" "user_result s ptr"
    | "user_result s ptr" "cs \<noteq> []" "find (wanted s n) cs = None \<and> n < 0
      \<or> (\<exists>c. find (wanted s n) cs = Some c \<and> p_state (proc s c) \<noteq> PROCESS_ZOMBIE)"
    by (cases "find (wanted s n) cs"; cases "cs = []") (simp, fastforce, simp, fastforce)
  then show ?thesis
  proof cases
    case 1
    then show ?thesis using stays [OF wait_nobody [OF p_def cs(1)]] by blast
  next
    case 2
    then have "process_wait n ptr s = Done (-1) s" by (simp add: process_wait_def user_result_def)
    then show ?thesis by (rule stays)
  next
    case 3
    note w = wait_zombie_finish [OF p_def cs(1) 3]
    have "c \<in> table s" "p_parent (proc s c) = process_active s" using w(2) cs(2) by (auto simp: p_def)
    from moves_ends [OF reap_moves(1) [OF ok e this 3(2)] e] show ?thesis by (simp add: w(1))
  next
    case 4
    from wait_block_repr [OF p_def kernel_reprD(1) [OF r] cs(1) 4(2,3) _ 4(1) n] idle_left(1) [OF ok a] obtain s' where
      s': "process_wait n ptr s = Switched s'" "runs_highest s' (blocked s (ready L))"
        "p_state (proc s' p) = PROCESS_WAIT_CHILD" "child_pid (proc s' p) = n" "frames s' p = [Fr_wait ptr]"
        "\<forall>x. steady (proc s x) (proc s' x)" "ran s s'" "\<forall>x. x \<noteq> p \<longrightarrow> frames s' x = frames s x"
        "\<forall>x. x \<noteq> p \<longrightarrow> p_state (proc s' x) = p_state (proc s x) \<and> u2 (proc s' x) = u2 (proc s x)
        \<and> (off_rings (ready L) x \<longrightarrow> proc s' x = proc s x)" by auto
    have kin: "kin (proc s x) (proc s' x)" for x using s'(6) by (simp add: kin_def steady_def)
    define L' where "L' = L\<lparr>ready := blocked s (ready L)\<rparr>"
    have pi: "p \<noteq> idler" using a by (simp add: p_def)
    have hi: "runs_highest s' (blocked s (wake_rings s [] (ready L)))" using s'(2) by simp
    have st: "p_state (proc s' p) \<in> {PROCESS_WAIT_CHILD, PROCESS_ZOMBIE}" using s'(3) by simp
    have left: "kernel_repr s' L'" "members L' = members L - {p}" "idler \<in> running L'" "table s' = table s"
      using left_repr [OF ok p_def pi hi _ st s'(7)] s'(9) by (simp_all add: L'_def)
    note k = ran_kernel [OF s'(7)]
    have aw: "awaits s' p"
      by (rule blocks_awaits [OF ok p_def cs 4(2,3) s'(4,5) left(4) _ kin]) (use s'(6,9) in \<open>auto simp: steady_def\<close>)
    have "family_ok s'"
      by (rule left_family [OF ok p_def kin k(3), of "{}"]) (use s'(3,8,9) aw in auto)
    moreover have "calm idler x (frames s' x) \<or> x \<noteq> idler \<and> pending s' x" if x: "x \<in> members L'" for x
    proof -
      have xm: "x \<in> members L" "x \<noteq> p" using x left(2) by auto
      have "pending s' x" if "pending s x"
      proof (rule pending_same [OF that])
        fix z assume z: "z \<in> table s" "p_parent (proc s z) = x" "p_state (proc s z) = PROCESS_ZOMBIE"
        then have "z \<noteq> p" using active_sched [OF ok] by (auto simp: p_def)
        then show "z \<in> table s' \<and> p_parent (proc s' z) = x \<and> p_state (proc s' z) = PROCESS_ZOMBIE"
          using z s'(9) kin [of z] left(4) by (simp add: kin_def)
      qed (use xm s'(8,9) in simp_all)
      then show ?thesis using kernel_okD(2) [OF ok xm(1)] s'(8) xm(2) by auto
    qed
    ultimately have "kernel_ok idler s' L'"
      using left(1,3) k kernel_okD(4,6) [OF ok] by (simp add: kernel_ok_def)
    then show ?thesis using s'(1) by auto
  qed
qed

section \<open>Children and kill\<close>

lemma children_loop_list:
  "slist (siblings s) x cs \<Longrightarrow> \<exists>t m. children_loop a x count k s = Some (t, s\<lparr>umem := m\<rparr>)"
proof (induction cs arbitrary: x count k s)
  case Nil
  then show ?case by (intro exI [of _ k] exI [of _ "umem s"]) (subst children_loop.simps, simp)
next
  case (Cons c cs)
  moreover have "siblings s c = p_sibling (proc s c)" by (simp add: siblings_def)
  ultimately have c: "x = c" "c \<noteq> NULL" "slist (siblings s) (p_sibling (proc s c)) cs" by auto
  show ?case
  proof (cases "count > 0 \<and> a \<noteq> NULL")
    case True
    let ?s = "put_user_int (a + 4 * k) (p_pid (proc s c)) s"
    have "slist (siblings ?s) (p_sibling (proc s c)) cs"
      using c(3) by (simp add: siblings_def [abs_def] put_user_int_def)
    from Cons.IH [OF this, of "count - 1" "k + 1"] obtain t m where
      "children_loop a (p_sibling (proc s c)) (count - 1) (k + 1) ?s = Some (t, ?s\<lparr>umem := m\<rparr>)" by blast
    moreover have "?s\<lparr>umem := m\<rparr> = s\<lparr>umem := m\<rparr>" by (simp add: put_user_int_def)
    moreover have "children_loop a x count k s = children_loop a (p_sibling (proc s c)) (count - 1) (k + 1) ?s"
      using True c by (subst children_loop.simps) simp
    ultimately show ?thesis by auto
  next
    case False
    from Cons.IH [OF c(3), of count "k + 1"] obtain t m where
      "children_loop a (p_sibling (proc s c)) count (k + 1) s = Some (t, s\<lparr>umem := m\<rparr>)" by blast
    moreover have "children_loop a x count k s = children_loop a (p_sibling (proc s c)) count (k + 1) s"
      using False c by (subst children_loop.simps) auto
    ultimately show ?thesis by auto
  qed
qed

lemma children_moves:
  assumes ok: "kernel_ok idler s L"
  shows "moves idler s L (process_children n a count s)"
proof (cases "process_from_pid s n = NULL")
  case True
  then show ?thesis using ok by (simp add: process_children_def)
next
  case False
  then have "process_from_pid s n \<in> table s"
    by (auto simp: process_from_pid_def table_def split: if_splits)
  from kinshipD(2) [OF ok this] obtain cs where "slist (siblings s) (p_child (proc s (process_from_pid s n))) cs"
    by (auto simp: children_def)
  from children_loop_list [OF this, of a count 0] obtain t m where
    "children_loop a (p_child (proc s (process_from_pid s n))) count 0 s = Some (t, s\<lparr>umem := m\<rparr>)" by blast
  then show ?thesis using ok by (auto simp: process_children_def Let_def intro!: moved_frames)
qed

text \<open>A process that kills itself exits; a process that has ended is not killed again.\<close>

definition kill_harmless :: "kernel \<Rightarrow> int \<Rightarrow> bool" where
  "kill_harmless s n \<longleftrightarrow> n = 0 \<or> (if n = p_pid (proc s (process_active s)) then p_child (proc s (process_active s)) = NULL
     else process_from_pid s n = NULL \<or> p_state (proc s (process_from_pid s n)) = PROCESS_ZOMBIE)"

lemma kill_ends:
  assumes ok: "kernel_ok idler s L" and e: "frames s (process_active s) = []"
    and k: "kill_harmless s n"
  shows "ends_ok idler (process_kill n s)"
proof (cases "n \<noteq> 0 \<and> n = p_pid (proc s (process_active s))")
  case True
  then have k: "process_kill n s = process_exit 0 s" by (simp add: process_kill_def process_exit_def)
  have "process_active s \<noteq> idler"
    using True kinshipD(1) [OF ok active_table [OF ok], of 0] kernel_okD(6) [OF ok] by auto
  moreover have "p_child (proc s (process_active s)) = NULL" using assms(3) True by (simp add: kill_harmless_def)
  ultimately show ?thesis unfolding k by (rule exit_ends [OF ok])
next
  case False
  then have "process_kill n s = Done (-1) s" using k by (auto simp: process_kill_def kill_harmless_def Let_def)
  then show ?thesis using ok e by auto
qed

end
