(* ===== verification/Kernel_Run.thy ===== *)
theory Kernel_Run
  imports Kernel_Life
begin

text \<open>
  The machine of \<open>Kernel_Machine\<close> as a whole: the console and the interrupts keep the invariant,
  a resumed process keeps it, and so does every run of admitted events. After a switch the kernel
  gets back to user level, because the calls that are left suspended become fewer.
\<close>

section \<open>The console\<close>

lemma moved_console:
  assumes ok: "kernel_ok idler s L"
    and t: "touches (ready L) P {} (s\<lparr>cons_read_wait_head := h\<rparr>) s'" "P \<subseteq> set (on_console L)"
    and hi: "runs_highest s' R'" and cr: "cons_repr s' cs"
    and mem: "running (L\<lparr>ready := R'\<rparr>) \<union> set cs = running L \<union> set (on_console L)"
    and i: "idler \<in> running (L\<lparr>ready := R'\<rparr>)"
    and fr: "suspends s fs s'" "calm idler (process_active s) fs"
  shows "moved idler s L s'"
proof (rule moved_change [OF ok _ _ _ _ _ _ _ _ _ fr])
  let ?L = "L\<lparr>ready := R', on_console := cs\<rparr>"
  note r = kernel_okD(1) [OF ok]
  have run: "running ?L = running (L\<lparr>ready := R'\<rparr>)" by (simp add: running_def)
  then show m: "members ?L = members L" using mem by (auto simp: members_def waiting_def)
  show sp: "spares (ready L) P {} (s\<lparr>cons_read_wait_head := h\<rparr>) s'" using t(1) by (simp add: touches_def)
  show "relatives (ready L) s s'" using t(1) by (simp add: touches_def relatives_def)
  show P: "P \<subseteq> members L" using t(2) by (auto simp: members_def waiting_def)
  have tb: "queue_table_ok s' = queue_table_ok s" "pooled s' = pooled s"
    by (rule spares_table [OF sp]; simp)+
  show "kernel_repr s' ?L"
  proof (rule kernel_repr_change [OF r _ _ sp])
    show "valid_priority s' p" if "p \<in> waiting ?L" for p
    proof (rule touches_valid [OF r t(1)])
      show "p \<in> members L" using that m by (auto simp: members_def)
    qed simp
    show "P \<subseteq> members L" by (rule P)
    show "pooled s' q = pooled s q \<and> on_queue ?L q = on_queue L q \<and> set (on_queue L q) \<inter> P = {}" for q
      using tb t(2) lists_disjoint(2) [OF r, of q] by auto
    show "queue_table_ok s'" using tb kernel_reprD(5) [OF r] by simp
    show "clock_wait_head (s\<lparr>cons_read_wait_head := h\<rparr>) = clock_wait_head s
      \<and> timed ?L = timed L \<and> set (timed L) \<inter> P = {}
      \<or> time_repr s' (timed ?L) \<and> sorted (targets s' (timed ?L))"
      using t(2) lists_disjoint(3) [OF r] by auto
  qed (use m hi cr in simp_all)
  show "idler \<in> running ?L" using i run by simp
qed simp_all

lemma cons_wake_moves:
  assumes ok: "kernel_ok idler s L"
  shows "moves idler s L (process_wait_cons_read_wake s)"
proof -
  note r = kernel_okD(1) [OF ok]
  from cons_wake_repr [OF kernel_reprD(1,4) [OF r] valid_lists(3) [OF r]] obtain s' where
    s': "outcome_state (process_wait_cons_read_wake s) = Some s'"
      "runs_highest s' (wake_rings s (on_console L) (ready L))" "cons_repr s' []"
      "touches (ready L) (set (on_console L)) {} (s\<lparr>cons_read_wait_head := NULL\<rparr>) s'" "suspends s [] s'"
      "process_wait_cons_read_wake s = Done () s' \<longrightarrow>
        process_active s' = process_active s \<and> frames s' = frames s" by blast
  have "moved idler s L s'"
    by (rule moved_console [OF ok s'(4) _ s'(2,3) _ _ s'(5)])
      (use kernel_okD(3) [OF ok] in \<open>auto simp: running_wake\<close>)
  then show ?thesis using s'(1,6) by (cases "process_wait_cons_read_wake s") auto
qed

lemma cons_read_moves:
  assumes ok: "kernel_ok idler s L" and a: "process_active s \<noteq> idler"
  shows "moves idler s L (or_hang (cons_read_loop dst len s))"
proof (cases "all_buffer_len (cons s) \<noteq> 0 \<or> len = 0")
  case True
  from cons_read_loop_done [OF True, of dst] obtain v t where
    t: "cons_read_loop dst len s = Some (Done v t)" "t = s\<lparr>cons := cons t, umem := umem t\<rparr>" by blast
  have "kernel_ok idler t L" by (subst t(2)) (use ok in blast)
  moreover have "frames t = frames s" "process_active t = process_active s" by (subst t(2), simp)+
  ultimately show ?thesis by (simp add: t(1) moved_frames)
next
  case False
  note r = kernel_okD(1) [OF ok]
  from cons_read_loop_block [OF kernel_reprD(1,4) [OF r] idle_left(1) [OF ok a], of len dst] False
  obtain s' where s': "cons_read_loop dst len s = Some (Switched s')"
      "runs_highest s' (blocked s (ready L))" "cons_repr s' (process_active s # on_console L)"
      "touches (ready L) {} {} (s\<lparr>cons_read_wait_head := process_active s\<rparr>) s'"
      "suspends s [Fr_cons_read dst len] s'" by auto
  have "moved idler s L s'"
    by (rule moved_console [OF ok s'(4) _ s'(2,3) _ idle_left(2) [OF ok a] s'(5)])
      (use active_running [OF r] a in \<open>auto simp: running_blocked [OF r]\<close>)
  then show ?thesis by (simp add: s'(1))
qed

section \<open>The keyboard\<close>

abbreviation (input) is_char :: "kbd_call \<Rightarrow> bool" where
  "is_char c \<equiv> (case c of CharCall ch \<Rightarrow> True | _ \<Rightarrow> False)"

text \<open>The calls of the character handler return.\<close>

lemma char_calls_done:
  "\<forall>c\<in>set calls. is_char c \<Longrightarrow>
    \<exists>c k. key_calls calls s = Done 0 (s\<lparr>cons := c, kbd := k\<rparr>) \<and> current_layout k = current_layout (kbd s)"
proof (induction calls arbitrary: s)
  case Nil
  then show ?case by (intro exI [of _ "cons s"] exI [of _ "(kbd s)\<lparr>scan_break := False\<rparr>"]) simp
next
  case (Cons c cs)
  then obtain ch where c: "c = CharCall ch" by (cases c) auto
  from Cons.IH [of "s\<lparr>cons := cons_char_handler ch (cons s)\<rparr>"] Cons.prems show ?case by (auto simp: c)
qed

lemma char_calls_moves:
  assumes ok: "kernel_ok idler s L" and c: "\<forall>c\<in>set calls. is_char c"
  shows "moves idler s L (key_calls calls s)"
proof -
  from char_calls_done [OF c, of s] obtain c k where
    k: "key_calls calls s = Done 0 (s\<lparr>cons := c, kbd := k\<rparr>)" "current_layout k = current_layout (kbd s)" by blast
  have "kernel_ok idler (s\<lparr>cons := c, kbd := k\<rparr>) L"
    using kernel_ok_kbd [OF kernel_ok_globals(2) [OF ok]] kernel_okD(4) [OF ok] k(2) by simp
  then show ?thesis by (simp add: k(1) moved_frames)
qed

lemma key_calls_moves:
  assumes ok: "kernel_ok idler s L" and c: "\<forall>c\<in>set calls. is_char c"
    and room: "all_buffer_len (cons s) < ALL_BUFFER_CAP"
  shows "moves idler s L (key_calls (KeyCall key sc action md # calls) s)"
proof (cases "cons_key_handler key action (cons s)")
  case (Cons_Idle c')
  then show ?thesis
    using moves_trans [OF char_calls_moves [OF kernel_ok_globals(2) [OF ok] c]] by simp
next
  case (Cons_Flushed wake c')
  let ?s = "s\<lparr>cons := c'\<rparr>"
  have echo: "moves idler s' L' (key_calls calls (s'\<lparr>cons := cons_enter_echo (cons s')\<rparr>))"
    if "kernel_ok idler s' L'" for s' L'
    using moves_trans [OF char_calls_moves [OF kernel_ok_globals(2) [OF that] c]] by simp
  have ok': "kernel_ok idler ?s L" using ok by blast
  have "moves idler ?s L (calling ?s (Fr_enter calls) (process_wait_cons_read_wake ?s)
      (\<lambda>_ s2. key_calls calls (s2\<lparr>cons := cons_enter_echo (cons s2)\<rparr>)))"
    by (rule moves_calling [OF cons_wake_moves [OF ok']]) (use c echo in auto)
  then have "moves idler ?s L (key_calls (KeyCall key sc action md # calls) s)"
    using echo [OF ok'] Cons_Flushed by (simp add: Let_def)
  then show ?thesis by (rule moves_trans) simp_all
next
  case Cons_Overrun
  have "sub32 (sub32 ALL_BUFFER_CAP (all_buffer_len (cons s))) 1 = ALL_BUFFER_CAP - all_buffer_len (cons s) - 1"
    using room by simp
  then have "cons_flush_line_buffer (cons s) \<noteq> None" using room by (auto simp: cons_flush_line_buffer_def Let_def)
  then show ?thesis using Cons_Overrun by (auto simp: cons_key_handler_def split: if_splits option.splits)
qed

lemma keyboard_calls:
  assumes "keyboard_handler data k = Some (calls, k')" "current_layout k \<noteq> None"
  shows "current_layout k' \<noteq> None"
    "(\<forall>c\<in>set calls. is_char c) \<or> (\<exists>key sc act md cs. calls = KeyCall key sc act md # cs \<and> (\<forall>c\<in>set cs. is_char c))"
proof -
  obtain l where l: "current_layout k = Some l" using assms(2) by blast
  from handler_some [OF this, of data] assms(1) show "current_layout k' \<noteq> None" by auto
  have key: "(\<forall>c\<in>set cs. is_char c) \<or> (\<exists>key sc act md cs'. cs = KeyCall key sc act md # cs' \<and> (\<forall>c\<in>set cs'. is_char c))"
    if "keyboard_key_handler key sc act k1 = Some (cs, k2)" for key sc act k1 cs k2
    using that by (auto simp: keyboard_key_handler_def Let_def split: if_splits option.splits)
  show "(\<forall>c\<in>set calls. is_char c) \<or> (\<exists>key sc act md cs. calls = KeyCall key sc act md # cs \<and> (\<forall>c\<in>set cs. is_char c))"
  proof (cases "data = 0xF0 \<or> data = 0xE0")
    case False
    then show ?thesis using assms(1) key
      by (simp add: keyboard_handler_def Let_def split: option.splits prod.splits)
  qed (use assms(1) in \<open>auto simp: keyboard_handler_def\<close>)
qed

lemma keyboard_moves:
  assumes ok: "kernel_ok idler s L" and room: "all_buffer_len (cons s) < ALL_BUFFER_CAP"
  shows "moves idler s L (keyboard_interrupt_handler data s)"
proof (cases "data = 0xFA")
  case True
  then show ?thesis using ok by (simp add: keyboard_interrupt_handler_def)
next
  case False
  obtain l where "current_layout (kbd s) = Some l" using kernel_okD(4) [OF ok] by blast
  from handler_some [OF this, of data] obtain calls k where
    k: "keyboard_handler data (kbd s) = Some (calls, k)" by blast
  note kc = keyboard_calls [OF k kernel_okD(4) [OF ok]]
  have eq: "keyboard_interrupt_handler data s = (if data = 0xF0 \<or> data = 0xE0 then Done 0 (s\<lparr>kbd := k\<rparr>)
      else key_calls calls (s\<lparr>kbd := k\<lparr>scan_break := scan_break (kbd s)\<rparr>\<rparr>))"
    using False k by (simp add: keyboard_interrupt_handler_def)
  show ?thesis
  proof (cases "data = 0xF0 \<or> data = 0xE0")
    case True
    have "kernel_ok idler (s\<lparr>kbd := k\<rparr>) L" using ok kc(1) by blast
    then show ?thesis using True by (simp add: eq moved_frames)
  next
    case False
    let ?s = "s\<lparr>kbd := k\<lparr>scan_break := scan_break (kbd s)\<rparr>\<rparr>"
    have ok': "kernel_ok idler ?s L" using kernel_ok_kbd [OF ok] kc(1) by simp
    have "moves idler ?s L (key_calls calls ?s)"
      using kc(2) char_calls_moves [OF ok'] key_calls_moves [OF ok'] room by auto
    then have "moves idler s L (key_calls calls ?s)" by (rule moves_trans) simp_all
    then show ?thesis using False by (simp add: eq)
  qed
qed

section \<open>The timer\<close>

lemma pit_moves:
  assumes ok: "kernel_ok idler s L"
  shows "moves idler s L (pit_interrupt_handler s)"
proof -
  let ?s = "s\<lparr>pit_clock := pit_clock s + 1\<rparr>"
  have ok': "kernel_ok idler ?s L" using ok by blast
  have "moves idler ?s L (process_pit_handler (pit_clock ?s) ?s)"
    unfolding process_pit_handler_def process_sched_pit_handler_def
    by (rule moves_calling [OF advance_moves [OF ok']]) (auto intro: time_handler_moves)
  then have "moves idler ?s L (bindK (process_pit_handler (pit_clock ?s) ?s) (\<lambda>_ s2. Done (0 :: int) s2))"
    by (rule moves_bind) simp
  then have "moves idler s L (bindK (process_pit_handler (pit_clock ?s) ?s) (\<lambda>_ s2. Done (0 :: int) s2))"
    by (rule moves_trans) simp_all
  moreover have "moved idler s L ?s" using ok' by (rule moved_frames) simp
  ultimately show ?thesis by (simp add: pit_interrupt_handler_def Let_def)
qed

section \<open>System calls\<close>

text \<open>
  The calls that are admitted. A process that exits has no children, and one that another process
  kills has ended already. A process asks for a clock that is not behind the first of the waiting list
  (else the kernel hangs, as the properties of the clock list show), and a new process or queue is in
  memory of its own.
\<close>

fun served :: "kernel \<Rightarrow> syscall \<Rightarrow> bool" where
  "served s (SC_PROCESS_START b entry ssize prio name arg) =
     (\<forall>i\<in>{0..<int PROCESS_POOL_CAP}. process_pool s i \<noteq> process_block b \<or> process_block b = NULL)"
| "served s (SC_PROCESS_EXIT code) = (p_child (proc s (process_active s)) = NULL)"
| "served s (SC_PROCESS_WAIT n a) = (- (2 ^ 31) \<le> n \<and> n < 2 ^ 31)"
| "served s (SC_PROCESS_KILL n) = kill_harmless s n"
| "served s SC_SYSTEM_POWER_OFF = False"
| "served s (SC_PROCESS_WAIT_CLOCK clock) = (clock \<le> pit_clock s \<or> clock_wait_head s = NULL
     \<or> clock \<le> target_clock (proc s (clock_wait_head s)))"
| "served s (SC_PROCESS_QUEUE_CREATE m q cap) = (\<forall>i\<in>{0..<int QUEUE_POOL_CAP}. queue_pool s i \<noteq> q \<or> q = NULL)"
| "served s c = True"

fun may_wait :: "syscall \<Rightarrow> bool" where
  "may_wait (SC_PROCESS_EXIT code) = True"
| "may_wait (SC_PROCESS_WAIT n a) = True"
| "may_wait (SC_PROCESS_WAIT_CLOCK clock) = True"
| "may_wait (SC_PROCESS_QUEUE_SEND n m) = True"
| "may_wait (SC_PROCESS_QUEUE_RECEIVE n a) = True"
| "may_wait (SC_CONSOLE_READ dst len) = True"
| "may_wait c = False"

lemma count_moves:
  assumes ok: "kernel_ok idler s L"
  shows "moves idler s L (process_queue_count n a s)"
proof -
  define q where "q = process_queue_from_qid s n"
  have "\<exists>k. count_loop s (wait_process (queue s q)) 0 = Some k" if "q \<noteq> NULL"
    using count_loop_list [OF dlist_slist [OF queue_reprD(2) [OF
      kernel_reprD(6) [OF kernel_okD(1) [OF ok] qid_pooled [OF q_def [symmetric] that]]]]] by blast
  then show ?thesis
    using ok by (auto simp: process_queue_count_def q_def [symmetric] Let_def intro!: moved_frames put_user_ok)
qed

text \<open>The calls that change the set of processes, and the others.\<close>

fun of_life :: "syscall \<Rightarrow> bool" where
  "of_life (SC_PROCESS_START b entry ssize prio name arg) = True"
| "of_life (SC_PROCESS_EXIT code) = True"
| "of_life (SC_PROCESS_WAIT n a) = True"
| "of_life (SC_PROCESS_KILL n) = True"
| "of_life c = False"

lemma syscall_moves:
  assumes ok: "kernel_ok idler s L" and sv: "served s c" and w: "process_active s = idler \<Longrightarrow> \<not> may_wait c"
    and nl: "\<not> of_life c"
  shows "moves idler s L (syscall_handler c s)"
proof (cases c)
  case (SC_PROCESS_WAIT_CLOCK clock)
  have "moves idler s L (process_wait_clock clock s)"
    by (rule wait_clock_moves [OF ok]) (use sv w SC_PROCESS_WAIT_CLOCK in auto)
  then have "moves idler s L (bindK (process_wait_clock clock s) (\<lambda>_ s1. Done (0 :: int) s1))"
    by (rule moves_bind) simp
  then show ?thesis by (simp add: SC_PROCESS_WAIT_CLOCK)
next
  case (SC_PROCESS_QUEUE_CREATE m q cap)
  have "\<not> pooled s q"
    using sv SC_PROCESS_QUEUE_CREATE table_range(1) [OF kernel_reprD(5) [OF kernel_okD(1) [OF ok]]]
    by (fastforce simp: pooled_def)
  then show ?thesis using create_moves [OF ok] SC_PROCESS_QUEUE_CREATE by simp
next
  case (SC_CONSOLE_READ dst len)
  then have "process_active s \<noteq> idler" using w by auto
  from cons_read_moves [OF ok this] show ?thesis using SC_CONSOLE_READ ok by (simp add: process_wait_cons_read_def)
qed (use ok sv w nl send_moves [OF ok] receive_moves [OF ok] reset_moves [OF ok] delete_moves [OF ok]
    set_priority_moves [OF ok] count_moves [OF ok] children_moves [OF ok] in
    \<open>auto simp: process_pid_def process_priority_def process_name_def process_state_of_def clock_settings_def
      console_write_def system_memory_info_def Let_def intro!: moved_frames\<close>)

lemma syscall_ends:
  assumes ok: "kernel_ok idler s L" and e: "frames s (process_active s) = []" and sv: "served s c"
    and w: "process_active s = idler \<Longrightarrow> \<not> may_wait c"
  shows "ends_ok idler (syscall_handler c s)"
proof (cases "of_life c")
  case True
  note pl = kernel_reprD(10) [OF kernel_okD(1) [OF ok]]
  show ?thesis
  proof (cases c)
    case (SC_PROCESS_START b entry ssize prio name arg)
    have "process_block b = NULL \<or> process_block b \<notin> table s"
      using sv table_range(2) [OF pl] SC_PROCESS_START by (fastforce simp: table_def)
    from start_ends [OF ok e this] show ?thesis by (simp add: SC_PROCESS_START)
  qed (use True sv w exit_ends [OF ok] wait_ends [OF ok e] kill_ends [OF ok e] in auto)
next
  case False
  show ?thesis by (rule moves_ends [OF syscall_moves [OF ok sv w False] e])
qed

section \<open>Resuming\<close>

lemma resume_frame_moves:
  assumes ok: "kernel_ok idler s L" and c: "calm idler (process_active s) [fr]"
  shows "moves idler s L (resume_frame fr v s)"
proof (cases fr)
  case (Fr_pit clock)
  have "moves idler s L (bindK (process_time_pit_handler clock s) (\<lambda>_ s1. Done (0 :: int) s1))"
    by (rule moves_bind [OF time_handler_moves [OF ok]]) simp
  then show ?thesis by (simp add: Fr_pit)
next
  case (Fr_cons_read dst len)
  then show ?thesis using cons_read_moves [OF ok] c by auto
next
  case (Fr_enter calls)
  have "moves idler s L (key_calls calls (s\<lparr>cons := cons_enter_echo (cons s)\<rparr>))"
    by (rule moves_trans [OF char_calls_moves [OF kernel_ok_globals(2) [OF ok]]]) (use c Fr_enter in simp_all)
  then show ?thesis by (simp add: Fr_enter)
qed (use ok c in \<open>auto simp: receive_waited_def delete_frees_def Let_def intro!: moved_frames put_user_ok\<close>)

text \<open>A process is resumed from its own stack, which is empty then.\<close>

lemma moves_busy: "frames s (process_active s) \<noteq> [] \<Longrightarrow> moves idler s L m"
  by (cases m) (simp_all add: moved_def)

lemma resume_frames_moves:
  "kernel_ok idler s L \<Longrightarrow> calm idler (process_active s) frs \<Longrightarrow> moves idler s L (resume_frames frs v s)"
proof (induction frs arbitrary: v s L)
  case (Cons fr frs)
  show ?case
  proof (cases "frames s (process_active s) = []")
    case e: True
    have m: "moves idler s L (resume_frame fr v s)"
      by (rule resume_frame_moves [OF Cons.prems(1)]) (use Cons.prems(2) in simp)
    show ?thesis
    proof (cases "resume_frame fr v s")
      case (Done w s1)
      then obtain L1 where l: "kernel_ok idler s1 L1" "members L1 = members L"
          "process_active s1 = process_active s" "frames s1 = frames s" using m e by (auto simp: moved_def)
      from moves_trans [OF Cons.IH [OF l(1)] l(2-4), of w] l(3) Cons.prems(2) show ?thesis by (simp add: Done)
    next
      case (Switched s1)
      then show ?thesis
        using m e kernel_ok_suspend [of idler s1 _ "process_active s" frs] Cons.prems(2) by (auto simp: moved_def)
    qed (use m e in auto)
  qed (rule moves_busy)
qed simp

lemma kernel_ok_running:
  assumes ok: "kernel_ok idler s L"
  shows "kernel_ok idler (s\<lparr>frames := (frames s)(process_active s := [])\<rparr>) L"
  by (rule kernel_ok_frames [OF ok, of "process_active s"]) (use active_sched [OF ok] in auto)

text \<open>Either calm calls are resumed, or a wait for a child that has ended by now.\<close>

lemma resume_cases:
  assumes ok: "kernel_ok idler s L"
  defines "t \<equiv> s\<lparr>frames := (frames s)(process_active s := [])\<rparr>"
  obtains "calm idler (process_active s) (frames s (process_active s))"
  | a c v t' where "resume_active s = wait_finish a c t" "moves idler t L (wait_finish a c t)"
    "wait_finish a c t = Done v t'"
proof -
  define p where "p = process_active s"
  have "p \<in> members L" using active_running [OF kernel_okD(1) [OF ok]] by (simp add: members_def p_def)
  from kernel_okD(2) [OF ok this] show thesis
  proof
    assume "p \<noteq> idler \<and> pending s p"
    then obtain a where f: "frames s p = [Fr_wait a]" and c: "new_zombie_child (proc s p) \<in> table s"
        "p_parent (proc s (new_zombie_child (proc s p))) = p"
        "p_state (proc s (new_zombie_child (proc s p))) = PROCESS_ZOMBIE" by (auto simp: pending_def)
    have t: "kernel_ok idler t L" using kernel_ok_running [OF ok] by (simp add: t_def)
    let ?c = "new_zombie_child (proc s p)"
    have "frames t (process_active t) = []" "?c \<in> table t" "p_parent (proc t ?c) = process_active t"
      "p_state (proc t ?c) = PROCESS_ZOMBIE" using c by (simp_all add: t_def p_def [symmetric] table_def)
    note m = reap_moves [OF t this, of a]
    then obtain v t' where d: "wait_finish a ?c t = Done v t'" by blast
    have "resume_active s = wait_finish a ?c t"
      using f d by (simp add: resume_active_def p_def t_def)
    from that(2) [OF this m(1) d] show thesis .
  qed (use that(1) in \<open>simp add: p_def\<close>)
qed

lemma resume_moves:
  assumes ok: "kernel_ok idler s L"
  shows "moves idler (s\<lparr>frames := (frames s)(process_active s := [])\<rparr>) L (resume_active s)"
proof (cases rule: resume_cases [OF ok])
  case 1
  show ?thesis
    unfolding resume_active_def by (rule resume_frames_moves [OF kernel_ok_running [OF ok]]) (use 1 in simp)
qed simp

lemma resume_ends: "kernel_ok idler s L \<Longrightarrow> ends_ok idler (resume_active s)"
  by (rule moves_ends [OF resume_moves]) simp_all

section \<open>Runs of admitted events\<close>

text \<open>
  A key arrives while there is room for another finished line (a full buffer is overrun by the
  Enter key); the idle process makes no call that waits.
\<close>

fun admitted :: "ptr \<Rightarrow> kernel \<Rightarrow> event \<Rightarrow> bool" where
  "admitted idler s Ev_timer = True"
| "admitted idler s (Ev_key data) = (all_buffer_len (cons s) < ALL_BUFFER_CAP)"
| "admitted idler s (Ev_syscall c) = (served s c \<and> (process_active s = idler \<longrightarrow> \<not> may_wait c))"

inductive admitted_run :: "ptr \<Rightarrow> config \<Rightarrow> event list \<Rightarrow> config \<Rightarrow> bool" for idler where
  Stop: "admitted_run idler c [] c"
| Silent: "kernel_step c None c' \<Longrightarrow> admitted_run idler c' es c'' \<Longrightarrow> admitted_run idler c es c''"
| Visible: "admitted idler s e \<Longrightarrow> kernel_step (User s) (Some e) c' \<Longrightarrow> admitted_run idler c' es c''
    \<Longrightarrow> admitted_run idler (User s) (e # es) c''"

lemma admitted_run_kernel_run: "admitted_run idler c es c' \<Longrightarrow> kernel_run c es c'"
  by (induction rule: admitted_run.induct) (auto intro: kernel_run.intros)

text \<open>At user level no call of the active process is suspended.\<close>

fun config_ok :: "ptr \<Rightarrow> config \<Rightarrow> bool" where
  "config_ok idler (User s) \<longleftrightarrow> (\<exists>L. kernel_ok idler s L) \<and> frames s (process_active s) = []"
| "config_ok idler (Switching s) \<longleftrightarrow> (\<exists>L. kernel_ok idler s L)"
| "config_ok idler (Stopped e) \<longleftrightarrow> False"
| "config_ok idler Hung \<longleftrightarrow> False"

lemma ends_config: "ends_ok idler m \<Longrightarrow> config_ok idler (config_of m)"
  by (cases m) auto

lemma handle_ends:
  assumes ok: "kernel_ok idler s L" "frames s (process_active s) = []" and e: "admitted idler s e"
  shows "ends_ok idler (handle e s)"
proof (cases e)
  case Ev_timer
  then show ?thesis using moves_ends [OF pit_moves [OF ok(1)] ok(2)] by simp
next
  case (Ev_key data)
  then show ?thesis using moves_ends [OF keyboard_moves [OF ok(1)] ok(2)] e by simp
next
  case (Ev_syscall c)
  then show ?thesis using e by (auto intro: syscall_ends [OF ok])
qed

lemma admitted_run_ok: "admitted_run idler c es c' \<Longrightarrow> config_ok idler c \<Longrightarrow> config_ok idler c'"
proof (induction rule: admitted_run.induct)
  case (Silent c c' es c'')
  from Silent.hyps(1) obtain s where s: "c = Switching s" "c' = config_of (resume_active s)"
    by (cases c) auto
  then have "config_ok idler c'" using Silent.prems by (auto intro: ends_config resume_ends)
  then show ?case by (rule Silent.IH)
next
  case (Visible s e c' es c'')
  then have "config_ok idler c'" by (auto intro: ends_config handle_ends)
  then show ?case by (rule Visible.IH)
qed simp

section \<open>The kernel gets back to user level\<close>

lemma finite_members:
  assumes r: "kernel_repr s L"
  shows "finite (members L)"
proof (rule finite_subset)
  show "members L \<subseteq> process_pool s ` {0..<int PROCESS_POOL_CAP}"
  proof
    fix p assume "p \<in> members L"
    then obtain n where n: "p \<noteq> NULL" "process_pool s n = p"
      using members_table [OF r] by (auto simp: table_def)
    then have "n \<in> {0..<int PROCESS_POOL_CAP}" using table_range(2) [OF kernel_reprD(10) [OF r], of n] by simp
    then show "p \<in> process_pool s ` {0..<int PROCESS_POOL_CAP}" using n(2) by blast
  qed
qed simp

text \<open>
  A suspended call that ends in another switch leaves nothing, except that a process that finds no
  line waits for the console again; then it is not ready any more.
\<close>

definition waits_again :: "kernel \<Rightarrow> kernel \<Rightarrow> bool" where
  "waits_again s s' \<longleftrightarrow> p_state (proc s' (process_active s)) \<noteq> PROCESS_SCHED
     \<and> (\<forall>p. p \<noteq> process_active s \<longrightarrow> p_state (proc s' p) = p_state (proc s p))"

lemma resume_frame_leaves:
  assumes ok: "kernel_ok idler s L" and c: "calm idler (process_active s) [fr]"
    and m: "resume_frame fr v s = Switched s'" and e: "frames s (process_active s) = []"
  shows "frames s' (process_active s) = []
    \<or> length (frames s' (process_active s)) = 1 \<and> waits_again s s'"
proof (cases fr)
  case (Fr_pit clock)
  note r = kernel_okD(1) [OF ok]
  from time_handler_repr [OF kernel_reprD(1,2) [OF r] valid_lists(1) [OF r], of clock] obtain t where
    "outcome_state (process_time_pit_handler clock s) = Some t" "suspends s [] t" by blast
  moreover have "process_time_pit_handler clock s = Switched s'"
    using m by (cases "process_time_pit_handler clock s") (simp_all add: Fr_pit)
  ultimately show ?thesis using e by (simp add: suspends_def)
next
  case (Fr_cons_read dst len)
  note r = kernel_okD(1) [OF ok]
  have a: "process_active s \<noteq> idler" using c Fr_cons_read by auto
  have n: "\<not> (all_buffer_len (cons s) \<noteq> 0 \<or> len = 0)"
  proof
    assume "all_buffer_len (cons s) \<noteq> 0 \<or> len = 0"
    from cons_read_loop_done [OF this, of dst] m show False by (auto simp: Fr_cons_read)
  qed
  from cons_read_loop_block [OF kernel_reprD(1,4) [OF r] idle_left(1) [OF ok a], of len dst] n
  obtain t where t: "cons_read_loop dst len s = Some (Switched t)" "cons_repr t (process_active s # on_console L)"
      "frames t (process_active s) = [Fr_cons_read dst len]"
      "\<forall>q. q \<noteq> process_active s \<longrightarrow> p_state (proc t q) = p_state (proc s q)" by auto
  have "s' = t" using m t(1) by (simp add: Fr_cons_read)
  then show ?thesis using t by (auto simp: waits_again_def cons_repr_def)
next
  case (Fr_enter calls)
  then show ?thesis
    using char_calls_done [of calls "s\<lparr>cons := cons_enter_echo (cons s)\<rparr>"] m c by auto
qed (use m c in \<open>auto simp: receive_waited_def delete_frees_def Let_def split: if_splits\<close>)

lemma resume_frames_fewer:
  assumes "kernel_ok idler s L" "calm idler (process_active s) frs"
    "resume_frames frs v s = Switched s'" "frames s (process_active s) = []"
  shows "length (frames s' (process_active s)) < length frs
    \<or> length (frames s' (process_active s)) = length frs \<and> waits_again s s'"
  using assms
proof (induction frs arbitrary: v s L)
  case (Cons fr frs)
  have c: "calm idler (process_active s) [fr]" using Cons.prems(2) by simp
  note m = resume_frame_moves [OF Cons.prems(1) c, of v]
  show ?case
  proof (cases "resume_frame fr v s")
    case (Done w s1)
    then obtain L1 where l: "kernel_ok idler s1 L1" "process_active s1 = process_active s" "frames s1 = frames s"
      using m Cons.prems(4) by (auto simp: moved_def)
    have "length (frames s' (process_active s1)) \<le> length frs"
      using Cons.IH [OF l(1), of w] Cons.prems(2-4) l Done by fastforce
    then show ?thesis using l(2) by simp
  next
    case (Switched s1)
    then have "s' = s1\<lparr>frames := (frames s1)(process_active s := frames s1 (process_active s) @ frs)\<rparr>"
      using Cons.prems(3) by simp
    moreover note resume_frame_leaves [OF Cons.prems(1) c Switched Cons.prems(4)]
    ultimately show ?thesis by (auto simp: waits_again_def)
  qed (use m Cons.prems(4) in auto)
qed simp

text \<open>
  The measure: the suspended calls of all processes, then the processes that are ready. Resuming the
  active process lowers it, unless the kernel is back at user level.
\<close>

definition suspended :: "ptr set \<Rightarrow> kernel \<Rightarrow> nat" where
  "suspended M s = (\<Sum>p\<in>M. length (frames s p))"

definition ready_count :: "ptr set \<Rightarrow> kernel \<Rightarrow> nat" where
  "ready_count M s = card {p \<in> M. p_state (proc s p) = PROCESS_SCHED}"

definition resuming :: "ptr set \<Rightarrow> (kernel \<times> kernel) set" where
  "resuming M = measures [suspended M, ready_count M]"

lemma wf_resuming: "wf (resuming M)"
  by (simp add: resuming_def)

lemma suspended_one:
  assumes "finite M" "a \<in> M" "\<And>p. p \<noteq> a \<Longrightarrow> frames s' p = frames s p"
  shows "suspended M s' + length (frames s a) = suspended M s + length (frames s' a)"
proof -
  have "(\<Sum>p\<in>M - {a}. length (frames s' p)) = (\<Sum>p\<in>M - {a}. length (frames s p))"
    using assms(3) by (intro sum.cong) auto
  then show ?thesis
    by (simp add: suspended_def sum.remove [OF assms(1,2), of "\<lambda>p. length (frames s p)"]
      sum.remove [OF assms(1,2), of "\<lambda>p. length (frames s' p)"])
qed

lemma waits_again_count:
  assumes "finite M" "process_active s \<in> M" "p_state (proc s (process_active s)) = PROCESS_SCHED"
    "waits_again s s'"
  shows "ready_count M s' < ready_count M s"
proof -
  have "{p \<in> M. p_state (proc s' p) = PROCESS_SCHED}
      \<subseteq> {p \<in> M. p_state (proc s p) = PROCESS_SCHED} - {process_active s}"
    using assms(4) by (auto simp: waits_again_def) metis
  then have "ready_count M s' \<le> card ({p \<in> M. p_state (proc s p) = PROCESS_SCHED} - {process_active s})"
    unfolding ready_count_def using assms(1) by (intro card_mono) simp_all
  also have "\<dots> < ready_count M s"
    unfolding ready_count_def using assms(1-3) by (intro card_Diff1_less) simp_all
  finally show ?thesis .
qed

lemma resume_decreases:
  assumes ok: "kernel_ok idler s L" and m: "resume_active s = Switched s'"
  shows "(s', s) \<in> resuming (members L)"
proof -
  define a where "a = process_active s"
  define t where "t = s\<lparr>frames := (frames s)(a := [])\<rparr>"
  note r = kernel_okD(1) [OF ok]
  have a: "a \<in> running L" "a \<in> members L" using active_running [OF r] by (simp_all add: a_def members_def)
  have t: "kernel_ok idler t L" "process_active t = a" "frames t a = []" "proc t = proc s"
    using kernel_ok_running [OF ok] by (simp_all add: t_def a_def)
  have c: "calm idler (process_active t) (frames s a)"
    using m t(2) by (cases rule: resume_cases [OF ok]) (simp_all add: a_def)
  have m': "resume_frames (frames s a) 0 t = Switched s'"
    using m by (simp add: resume_active_def t_def a_def)
  have o: "frames s' p = frames s p" if "p \<noteq> a" for p
    using resume_frames_moves [OF t(1) c, of 0] m' t(2,3) that by (simp add: moved_def t_def)
  note n = suspended_one [OF finite_members [OF r] a(2) o]
  from resume_frames_fewer [OF t(1) c m'] t(2,3) have
    "length (frames s' a) < length (frames s a) \<or> length (frames s' a) = length (frames s a) \<and> waits_again t s'" by simp
  then show ?thesis
  proof
    assume "length (frames s' a) < length (frames s a)"
    then show ?thesis using n by (simp add: resuming_def)
  next
    assume w: "length (frames s' a) = length (frames s a) \<and> waits_again t s'"
    then have "ready_count (members L) s' < ready_count (members L) t"
      using waiting_states(5) [OF r a(1)] t(2,4) a(2) by (intro waits_again_count [OF finite_members [OF r]]) simp_all
    moreover have "ready_count (members L) t = ready_count (members L) s" by (simp add: ready_count_def t(4))
    ultimately show ?thesis using n w by (simp add: resuming_def)
  qed
qed

lemma resume_to_user:
  "kernel_ok idler s L \<Longrightarrow> members L = M \<Longrightarrow>
    \<exists>s'. admitted_run idler (Switching s) [] (User s') \<and> config_ok idler (User s')"
proof (induction s arbitrary: L rule: wf_induct_rule [OF wf_resuming [of M]])
  case (1 s)
  note ok = 1(2)
  note step = admitted_run.Silent [OF kernel_step.Resume [of s], of idler "[]"]
  show ?case
  proof (cases "resume_active s")
    case (Done v t)
    have "admitted_run idler (Switching s) [] (User t)"
      using step [of "User t"] admitted_run.Stop [of idler "User t"] by (simp add: Done)
    then show ?thesis using resume_ends [OF ok] Done by auto
  next
    case (Switched t)
    then obtain L1 where l: "kernel_ok idler t L1" "members L1 = M"
      using resume_moves [OF ok] 1(3) by (auto simp: moved_def)
    have "(t, s) \<in> resuming M" using resume_decreases [OF ok Switched] 1(3) by simp
    from 1(1) [OF this l] obtain s' where s': "admitted_run idler (Switching t) [] (User s')"
      "config_ok idler (User s')" by blast
    moreover have "admitted_run idler (Switching s) [] (User s')" using step [of "User s'"] s'(1) by (simp add: Switched)
    ultimately show ?thesis by blast
  qed (use resume_ends [OF ok] in auto)
qed

lemma event_to_user:
  assumes ok: "kernel_ok idler s L" "frames s (process_active s) = []" and e: "admitted idler s e"
  shows "\<exists>s'. admitted_run idler (User s) [e] (User s') \<and> config_ok idler (User s')"
proof -
  note step = admitted_run.Visible [OF e kernel_step.Event]
  note c = handle_ends [OF ok e]
  show ?thesis
  proof (cases "handle e s")
    case (Done v t)
    have "admitted_run idler (User s) [e] (User t)"
      using step [of "[]"] admitted_run.Stop [of idler "User t"] by (simp add: Done)
    then show ?thesis using c Done by auto
  next
    case (Switched t)
    then obtain L1 where l: "kernel_ok idler t L1" using c by auto
    from resume_to_user [OF l refl] obtain s' where s': "admitted_run idler (Switching t) [] (User s')"
      "config_ok idler (User s')" by blast
    moreover have "admitted_run idler (User s) [e] (User s')" using step [of "[]"] s'(1) by (simp add: Switched)
    ultimately show ?thesis by blast
  qed (use c in auto)
qed

text \<open>Where the processes of the table are.\<close>

lemma placed_or_waits:
  assumes ok: "kernel_ok idler s L" and p: "p \<in> table s"
  shows "p \<in> members L \<or> p_state (proc s p) = PROCESS_ZOMBIE
    \<or> p_state (proc s p) = PROCESS_WAIT_CHILD \<and> awaits s p"
  using kernel_reprD(9) [OF kernel_okD(1) [OF ok]] kinshipD(5) [OF ok p] p by (auto simp: all_placed_def)

end
