(* ===== verification/Sample.thy ===== *)
theory Sample
  imports Kernel_Machine
begin

text \<open>
  A concrete state of the kernel with processes in every state, on which the properties of the
  process subsystem are instantiated: the idle process, two processes of the same priority of
  which the first runs, two that wait for the clock, two that wait for a message, one that waits to
  send one, one that waits for the console, one that waits for its child, and a zombie.
\<close>

definition blank :: process where
  "blank = \<lparr>p_parent = 0, p_child = 0, p_sibling = 0, p_state = PROCESS_ZOMBIE, u0 = 0, u1 = 0,
     u2 = 0, u3 = 0, u4 = False, kernel_stack = 0, kernel_esp = 0, stack = 0, stack_size = 0,
     p_pid = 0, p_name = [], p_priority = 0\<rparr>"

definition sample_proc :: "ptr \<Rightarrow> process" where
  "sample_proc = (\<lambda>_. blank)
    (0x100 := blank\<lparr>p_child := 0x200, p_state := PROCESS_SCHED, u0 := 0x100, u1 := 0x100\<rparr>,
     0x200 := blank\<lparr>p_parent := 0x100, p_child := 0x700, p_sibling := 0x800,
       p_state := PROCESS_SCHED, u0 := 0x300, u1 := 0x300, p_pid := 1, p_priority := 2\<rparr>,
     0x300 := blank\<lparr>p_parent := 0x800, p_state := PROCESS_SCHED, u0 := 0x200, u1 := 0x200,
       p_pid := 2, p_priority := 2\<rparr>,
     0x400 := blank\<lparr>p_parent := 0x200, p_state := PROCESS_WAIT_TIME, u0 := 0x480, u1 := 10,
       p_pid := 3, p_priority := 3\<rparr>,
     0x480 := blank\<lparr>p_state := PROCESS_WAIT_TIME, u1 := 20, p_pid := 4, p_priority := 1\<rparr>,
     0x500 := blank\<lparr>p_state := PROCESS_WAIT_QUEUE, u1 := 0x580, u2 := 0x900, p_pid := 5,
       p_priority := 3\<rparr>,
     0x580 := blank\<lparr>p_state := PROCESS_WAIT_QUEUE, u0 := 0x500, u2 := 0x900, p_pid := 6,
       p_priority := 3\<rparr>,
     0x600 := blank\<lparr>p_state := PROCESS_WAIT_QUEUE, u2 := 0xA00, u3 := 88, p_pid := 7,
       p_priority := 5\<rparr>,
     0x680 := blank\<lparr>p_state := PROCESS_WAIT_CONS_READ, p_pid := 8, p_priority := 1\<rparr>,
     0x700 := blank\<lparr>p_parent := 0x200, p_sibling := 0x400, u0 := 42, p_pid := 9\<rparr>,
     0x800 := blank\<lparr>p_parent := 0x100, p_child := 0x300, p_state := PROCESS_WAIT_CHILD, u0 := -1,
       p_pid := 10, p_priority := 7\<rparr>)"

definition sample_queue :: "ptr \<Rightarrow> process_queue" where
  "sample_queue = (\<lambda>_. \<lparr>qid = 0, messages = 0x980, q_cells = \<lambda>_. 0, capacity = 2, q_length = 0,
       read_index = 0, write_index = 0, wait_process = 0x500\<rparr>)
    (0xA00 := \<lparr>qid = 1, messages = 0xA80, q_cells = \<lambda>_. 77, capacity = 1, q_length = 1,
       read_index = 0, write_index = 0, wait_process = 0x600\<rparr>,
     0xB00 := \<lparr>qid = 2, messages = 0xB80, q_cells = \<lambda>_. 66, capacity = 3, q_length = 1,
       read_index = 2, write_index = 0, wait_process = 0\<rparr>)"

definition sample_cga :: cga where
  "sample_cga = \<lparr>cells = \<lambda>_. 0, cursor_line = 0, cursor_column = 0, cga_ports = []\<rparr>"

definition sample :: kernel where
  "sample = \<lparr>proc = sample_proc, queue = sample_queue,
     process_sched_rings = (\<lambda>_. 0)(0 := 0x100, 2 := 0x200), process_active = 0x200,
     process_id_pool = \<lparr>next_id = 11, counter = 11, free = None,
       slots = map (\<lambda>i. \<lparr>slot_id = int i, slot_next = None\<rparr>) [0..<1024]\<rparr>,
     process_pool = (\<lambda>_. 0)(0 := 0x100, 1 := 0x200, 2 := 0x300, 3 := 0x400, 4 := 0x480,
       5 := 0x500, 6 := 0x580, 7 := 0x600, 8 := 0x680, 9 := 0x700, 10 := 0x800),
     clock_wait_head = 0x400, cons_read_wait_head = 0x680,
     queue_id_pool = \<lparr>next_id = 3, counter = 3, free = None,
       slots = map (\<lambda>i. \<lparr>slot_id = int i, slot_next = None\<rparr>) [0..<256]\<rparr>,
     queue_pool = (\<lambda>_. 0)(0 := 0x900, 1 := 0xA00, 2 := 0xB00), heap = {}, user_stacks = {},
     frames = (\<lambda>_. [])(0x800 := [Fr_wait 0x5000]), tss_esp0 = 0, pit_clock = 5,
     pit_handler_set = True, cons = console_zero sample_cga, kbd = keyboard_zero, umem = \<lambda>_. 0,
     user_start = 0x4000, user_end = 0x8000, startup_code = 0x3000, implicit_exit_code = 0x3100\<rparr>"

definition sample_rings :: rings where
  "sample_rings = (\<lambda>_. [])(0 := [0x100], 2 := [0x200, 0x300])"

lemmas sample_defs = sample_def sample_proc_def sample_queue_def blank_def

lemma sample_fields [simp]:
  "process_active sample = 0x200" "clock_wait_head sample = 0x400" "cons_read_wait_head sample = 0x680"
  "pit_clock sample = 5" "user_start sample = 0x4000" "user_end sample = 0x8000"
  "process_pool sample 9 = 0x700" "process_pool sample 2 = 0x300" "process_pool sample 5 = 0x500"
  "queue_pool sample 0 = 0x900" "queue_pool sample 1 = 0xA00" "queue_pool sample 2 = 0xB00"
  "frames sample = (\<lambda>_. [])(0x800 := [Fr_wait 0x5000])" "proc sample = sample_proc"
  "queue sample = sample_queue" "cons sample = console_zero sample_cga"
  "pit_handler_set sample = True"
  by (simp_all add: sample_def)

lemma sample_sched: "sched_repr sample sample_rings"
  by (simp add: sched_repr_def sample_rings_def sample_defs circ_def link0_def link1_def)

lemma sample_runs: "runs_highest sample sample_rings"
  unfolding runs_highest_def
proof (intro conjI sample_sched exI [of _ 2])
  show "process_active sample \<in> set (sample_rings 2)" by (simp add: sample_rings_def)
qed (auto simp: sample_rings_def split: if_splits)

lemma sample_time: "time_repr sample [0x400, 0x480]"
  by (simp add: time_repr_def sample_proc_def blank_def link0_def)

lemma sample_cons: "cons_repr sample [0x680]"
  by (simp add: cons_repr_def sample_proc_def blank_def link0_def)

lemma sample_readers: "queue_repr sample 0x900 [0x500, 0x580]"
  by (simp add: queue_repr_def waiters_def dlist_def buffer_ok_def sample_queue_def sample_proc_def
      blank_def link0_def link1_def)

lemma sample_writers: "queue_repr sample 0xA00 [0x600]"
  by (simp add: queue_repr_def waiters_def dlist_def buffer_ok_def sample_queue_def sample_proc_def
      blank_def link0_def link1_def)

lemma sample_free_queue: "queue_repr sample 0xB00 []"
  by (simp add: queue_repr_def waiters_def dlist_def buffer_ok_def sample_queue_def)

lemma sample_children: "children sample 0x200 [0x700, 0x400]" "children sample 0x800 [0x300]"
  by (simp_all add: children_def siblings_def sample_proc_def blank_def)

lemma sample_pids: "pool_ids (process_id_pool sample) {0, 1, 2, 3, 4, 5, 6, 7, 8, 9, 10}"
  unfolding pool_ids_def
proof (intro conjI exI [of _ "[]"])
  have "{..<11 :: nat} = {0, 1, 2, 3, 4, 5, 6, 7, 8, 9, 10}" by (auto, presburger)
  then show "{0, 1, 2, 3, 4, 5, 6, 7, 8, 9, 10} \<union> int ` set []
      = int ` {..<unat (next_id (process_id_pool sample))}" by (simp add: sample_def)
qed (simp_all add: sample_def id_pool_cap_def)

lemma sample_table: "table_ids (process_pool sample) {0, 1, 2, 3, 4, 5, 6, 7, 8, 9, 10}"
  by (simp add: table_ids_def sample_def)

lemma sample_priorities: "valid_priorities sample ps"
  by (simp add: valid_priorities_def sample_proc_def blank_def)

text \<open>The same state when the second process of the ring runs: its parent waits for it.\<close>

definition sample_child :: kernel where
  "sample_child = sample\<lparr>process_active := 0x300\<rparr>"

lemma sample_child_runs: "runs_highest sample_child sample_rings"
  unfolding runs_highest_def
proof (intro conjI exI [of _ 2])
  show "process_active sample_child \<in> set (sample_rings 2)"
    by (simp add: sample_rings_def sample_child_def)
qed (use sample_sched in \<open>auto simp: sample_child_def sample_rings_def split: if_splits\<close>)

lemma sample_blocked: "\<exists>j. blocked sample sample_rings j \<noteq> []"
  by (intro exI [of _ 0]) (simp add: blocked_def Let_def sample_rings_def sample_proc_def blank_def)

definition sample_blocks :: blocks where
  "sample_blocks = \<lparr>process_block = 0x2000, kernel_stack_block = 0x2200, user_stack_block = 0x6000\<rparr>"

lemma sample_allocatable: "allocatable sample sample_blocks 512"
  by (simp add: allocatable_def sample_blocks_def sample_def id_pool_empty_def id_pool_cap_def)

lemma sample_fresh: "off_rings sample_rings (process_block sample_blocks)"
  by (simp add: off_rings_def sample_rings_def sample_blocks_def)

end
