(* ===== verification/Kernel_Properties.thy ===== *)
theory Kernel_Properties
  imports Kernel_Run Sample
begin

text \<open>
  The properties of the machine as a whole, applied to the concrete state of \<open>Sample\<close> with the calls
  that its waiting processes have suspended.
\<close>

section \<open>The concrete state\<close>
















section \<open>The machine never stops\<close>





end
