(* ===== verification/Process_Properties.thy ===== *)
theory Process_Properties
  imports Sample
begin

text \<open>
  The properties of the process subsystem, over the definitions of the component theories, each
  with an instance on the state of \<open>Sample\<close>.
\<close>

section \<open>Scheduling\<close>

text \<open>
  C3. A change of the priority of a ready process, its own or another's, puts the process at the
  front of the ring of its new priority and leaves a process of the highest priority running.
\<close>

theorem set_priority_runs_highest:
  assumes "runs_highest s R" and "process_from_pid s n = p" and "p \<in> set (R k)"
    and "0 \<le> priority" and "priority < PROCESS_MAX_PRIORITY" and "priority \<noteq> k"
  shows "\<exists>s'. outcome_state (process_set_priority n priority s) = Some s'
    \<and> runs_highest s' (requeued p k priority R)"
  using process_set_priority_highest [OF assms] by (simp add: ends_highest_def)

theorem set_priority_witness:
  "\<exists>s'. outcome_state (process_set_priority 2 6 sample) = Some s'
    \<and> runs_highest s' (requeued 0x300 2 6 sample_rings)"
  by (rule set_priority_runs_highest [OF sample_runs])
     (simp_all add: process_from_pid_def sample_rings_def)





section \<open>Message queues\<close>

text \<open>
  C4. A message sent to an empty queue on which processes wait is handed to one of them and not
  stored: to the process that has waited longest among those of the highest priority. It becomes
  ready, and it runs at once if its priority is above the sender's.
\<close>

theorem send_hands_over:
  assumes "runs_highest s R" and "process_queue_from_qid s n = q" and "q \<noteq> NULL"
    and "queue_repr s q ws" and "ws \<noteq> []" and "q_length (queue s q) = 0"
    and "valid_priorities s ws"
  shows "\<exists>as g bs s'. chosen s ws as g bs \<and> completes s 0 (process_queue_send n m s) s'
    \<and> runs_highest s' (ready_first s g R) \<and> queue_repr s' q (as @ bs)
    \<and> buffer (queue s' q) = [] \<and> wait_queue_message (proc s' g) = m
    \<and> \<not> wait_queue_reset (proc s' g)"
  using send_deliver [OF assms] by blast

theorem send_hands_over_witness:
  "\<exists>as g bs s'. chosen sample [0x500, 0x580] as g bs \<and> completes sample 0 (process_queue_send 0 99 sample) s'
    \<and> runs_highest s' (ready_first sample g sample_rings) \<and> queue_repr s' 0x900 (as @ bs)
    \<and> buffer (queue s' 0x900) = [] \<and> wait_queue_message (proc s' g) = 99
    \<and> \<not> wait_queue_reset (proc s' g)"
  by (rule send_hands_over [OF sample_runs _ _ sample_readers _ _ sample_priorities])
     (simp_all add: process_queue_from_qid_def sample_queue_def)

text \<open>
  A message sent to a queue with room and no waiting process is stored behind the others, and
  nothing else in the kernel changes.
\<close>

theorem send_stores:
  assumes "process_queue_from_qid s n = q" and "q \<noteq> NULL" and "queue_repr s q []"
    and "q_length (queue s q) < capacity (queue s q)"
  shows "\<exists>s'. process_queue_send n m s = Done 0 s' \<and> queue_repr s' q []
    \<and> buffer (queue s' q) = buffer (queue s q) @ [m]
    \<and> s' = upd_queue q (\<lambda>r. snd (process_queue_raw_write m r)) s"
  by (rule send_store [OF assms])

theorem send_stores_witness:
  "\<exists>s'. process_queue_send 2 99 sample = Done 0 s' \<and> queue_repr s' 0xB00 []
    \<and> buffer (queue s' 0xB00) = buffer (queue sample 0xB00) @ [99]
    \<and> s' = upd_queue 0xB00 (\<lambda>r. snd (process_queue_raw_write 99 r)) sample"
  by (rule send_stores [OF _ _ sample_free_queue])
     (simp_all add: process_queue_from_qid_def sample_queue_def)

text \<open>
  A sender to a full queue waits with its message as the newest waiting process, the buffer is
  not touched, and a ready process of the highest priority runs in its place.
\<close>

theorem send_waits:
  assumes "runs_highest s R" and "process_queue_from_qid s n = q" and "q \<noteq> NULL"
    and "queue_repr s q ws" and "q_length (queue s q) = capacity (queue s q)"
    and "\<exists>j. blocked s R j \<noteq> []"
  shows "\<exists>s'. process_queue_send n m s = Switched s' \<and> runs_highest s' (blocked s R)
    \<and> queue_repr s' q (process_active s # ws) \<and> queue_message (proc s' (process_active s)) = m
    \<and> buffer (queue s' q) = buffer (queue s q)
    \<and> frames s' (process_active s) = [Fr_queue_wait, Fr_send]"
  using send_block [OF assms] by blast

theorem send_waits_witness:
  "\<exists>s'. process_queue_send 1 99 sample = Switched s' \<and> runs_highest s' (blocked sample sample_rings)
    \<and> queue_repr s' 0xA00 (process_active sample # [0x600])
    \<and> queue_message (proc s' (process_active sample)) = 99
    \<and> buffer (queue s' 0xA00) = buffer (queue sample 0xA00)
    \<and> frames s' (process_active sample) = [Fr_queue_wait, Fr_send]"
  by (rule send_waits [OF sample_runs _ _ sample_writers _ sample_blocked])
     (simp_all add: process_queue_from_qid_def sample_queue_def)

text \<open>
  C33. A receive on a full queue with waiting senders returns the oldest message and puts the
  message of the sender that has waited longest at the highest priority behind the others: the
  queue stays full, and that sender is ready.
\<close>

theorem receive_refills:
  assumes "runs_highest s R" and "process_queue_from_qid s n = q" and "q \<noteq> NULL"
    and "queue_repr s q ws" and "ws \<noteq> []" and "q_length (queue s q) = capacity (queue s q)"
    and "valid_priorities s ws" and "user_result s message"
  shows "\<exists>as g bs s' x rest. chosen s ws as g bs
    \<and> completes s 0 (process_queue_receive n message s) s'
    \<and> runs_highest s' (ready_first s g R) \<and> queue_repr s' q (as @ bs)
    \<and> buffer (queue s q) = x # rest \<and> buffer (queue s' q) = rest @ [queue_message (proc s g)]
    \<and> umem s' = umem (put_user_int message x s) \<and> \<not> wait_queue_reset (proc s' g)"
  using receive_refill [OF assms] by blast

theorem receive_refills_witness:
  "\<exists>as g bs s' x rest. chosen sample [0x600] as g bs
    \<and> completes sample 0 (process_queue_receive 1 0x5000 sample) s'
    \<and> runs_highest s' (ready_first sample g sample_rings) \<and> queue_repr s' 0xA00 (as @ bs)
    \<and> buffer (queue sample 0xA00) = x # rest
    \<and> buffer (queue s' 0xA00) = rest @ [queue_message (proc sample g)]
    \<and> umem s' = umem (put_user_int 0x5000 x sample) \<and> \<not> wait_queue_reset (proc s' g)"
  by (rule receive_refills [OF sample_runs _ _ sample_writers _ _ sample_priorities])
     (simp_all add: process_queue_from_qid_def sample_queue_def user_result_def
        process_check_user_ptr_def)

text \<open>A receive on a queue with messages and no waiting process returns the oldest message.\<close>

theorem receive_takes_oldest:
  assumes "process_queue_from_qid s n = q" and "q \<noteq> NULL" and "queue_repr s q []"
    and "0 < q_length (queue s q)" and "user_result s message"
  shows "\<exists>s' x. process_queue_receive n message s = Done 0 s' \<and> queue_repr s' q []
    \<and> buffer (queue s q) = x # buffer (queue s' q) \<and> umem s' = umem (put_user_int message x s)"
  using receive_store [OF assms] by blast

theorem receive_takes_oldest_witness:
  "\<exists>s' x. process_queue_receive 2 0x5000 sample = Done 0 s' \<and> queue_repr s' 0xB00 []
    \<and> buffer (queue sample 0xB00) = x # buffer (queue s' 0xB00)
    \<and> umem s' = umem (put_user_int 0x5000 x sample)"
  by (rule receive_takes_oldest [OF _ _ sample_free_queue])
     (simp_all add: process_queue_from_qid_def sample_queue_def user_result_def
        process_check_user_ptr_def)

text \<open>
  C13. Any sequence of writes to and reads from the ring buffer that respects its bounds is first in,
  first out: the old contents followed by what was written is what was read followed by the new
  contents. The indices wrap around correctly.
\<close>

theorem ring_buffer_fifo:
  assumes "buffer_ok q" and "ring_run ops q = (ins, outs, q')"
  shows "buffer_ok q' \<and> buffer q @ ins = outs @ buffer q'"
  by (rule message_fifo.run_fifo [OF assms(1) assms(2) [unfolded ring_run_eq]])

theorem ring_buffer_fifo_witness:
  "let (ins, outs, q') = ring_run [Put 1, Put 2, Get, Put 3, Get, Get] (sample_queue 0xB00)
   in buffer_ok q' \<and> buffer (sample_queue 0xB00) @ ins = outs @ buffer q'"
proof -
  have "buffer_ok (sample_queue 0xB00)" by (simp add: buffer_ok_def sample_queue_def)
  from ring_buffer_fifo [OF this] show ?thesis by (simp only: Let_def split: prod.split) blast
qed

text \<open>
  Resetting a queue empties it, wakes every process that waits on it with the flag that makes
  its call fail, and leaves a process of the highest priority running.
\<close>

theorem reset_wakes_all:
  assumes "runs_highest s R" and "process_queue_from_qid s n = q" and "q \<noteq> NULL"
    and "queue_repr s q ws" and "valid_priorities s ws"
  shows "\<exists>s'. completes s 0 (process_queue_reset n s) s' \<and> runs_highest s' (wake_rings s ws R)
    \<and> queue_repr s' q [] \<and> buffer (queue s' q) = [] \<and> (\<forall>p\<in>set ws. wait_queue_reset (proc s' p))"
  using reset_repr [OF assms] by blast

theorem reset_wakes_all_witness:
  "\<exists>s'. completes sample 0 (process_queue_reset 0 sample) s'
    \<and> runs_highest s' (wake_rings sample [0x500, 0x580] sample_rings)
    \<and> queue_repr s' 0x900 [] \<and> buffer (queue s' 0x900) = []
    \<and> (\<forall>p\<in>set [0x500, 0x580]. wait_queue_reset (proc s' p))"
  by (rule reset_wakes_all [OF sample_runs _ _ sample_readers sample_priorities])
     (simp_all add: process_queue_from_qid_def)

text \<open>
  \<open>process_queue_count\<close> stores the negated number of waiting readers for an empty queue, the
  capacity plus the number of waiting writers for a full one, and 0 in between.
\<close>

theorem queue_count:
  assumes "process_queue_from_qid s n = q" and "q \<noteq> NULL" and "queue_repr s q ws"
    and "count \<noteq> NULL" and "process_check_user_ptr s count"
  shows "process_queue_count n count s = Done 0 (put_user_int count
    (if buffer (queue s q) = [] then - int (length ws)
     else if length (buffer (queue s q)) = capacity (queue s q)
     then int (capacity (queue s q)) + int (length ws) else 0) s)"
  by (rule count_repr [OF assms])

theorem queue_count_witness:
  "process_queue_count 0 0x5000 sample = Done 0 (put_user_int 0x5000
    (if buffer (queue sample 0x900) = [] then - int (length [0x500, 0x580 :: ptr])
     else if length (buffer (queue sample 0x900)) = capacity (queue sample 0x900)
     then int (capacity (queue sample 0x900)) + int (length [0x500, 0x580 :: ptr]) else 0) sample)"
  by (rule queue_count [OF _ _ sample_readers])
     (simp_all add: process_queue_from_qid_def process_check_user_ptr_def)

section \<open>Waiting for the clock and for the console\<close>

text \<open>
  C34. If the waiting list is sorted, the timer handler makes ready exactly the processes whose
  target clock is reached, keeps the others waiting unchanged, and leaves a process of the highest
  priority running.
\<close>

theorem timer_wakes_expired:
  assumes "runs_highest s R" and "time_repr s ts" and "valid_priorities s ts"
    and "sorted (targets s ts)"
  shows "\<exists>s' rest. outcome_state (process_time_pit_handler clock s) = Some s'
    \<and> runs_highest s' (wake_rings s (filter (\<lambda>p. target_clock (proc s p) \<le> clock) ts) R)
    \<and> time_repr s' rest \<and> ts = filter (\<lambda>p. target_clock (proc s p) \<le> clock) ts @ rest
    \<and> (\<forall>p\<in>set rest. proc s' p = proc s p)"
proof -
  have e: "(\<lambda>p. target_clock (proc s p) \<le> clock) = expired s clock"
    by (simp add: expired_def [abs_def])
  from time_handler_repr [OF assms(1-3), of clock] show ?thesis
    using takeWhile_dropWhile_id [of "expired s clock" ts] expired_sorted [OF assms(4), of clock]
    unfolding e by metis
qed

theorem timer_wakes_expired_witness:
  "\<exists>s' rest. outcome_state (process_time_pit_handler 15 sample) = Some s'
    \<and> runs_highest s' (wake_rings sample
        (filter (\<lambda>p. target_clock (proc sample p) \<le> 15) [0x400, 0x480]) sample_rings)
    \<and> time_repr s' rest
    \<and> [0x400, 0x480] = filter (\<lambda>p. target_clock (proc sample p) \<le> 15) [0x400, 0x480] @ rest
    \<and> (\<forall>p\<in>set rest. proc s' p = proc sample p)"
  by (rule timer_wakes_expired [OF sample_runs sample_time sample_priorities])
     (simp add: targets_def sample_proc_def blank_def)

text \<open>
  C35. A process that waits for a future clock leaves its ring for the front of the waiting list, if
  no process there waits for an earlier clock. If one does, the insertion loop never advances: the
  kernel hangs.
\<close>

theorem wait_clock_inserts_or_hangs:
  assumes "runs_highest s R" and "time_repr s ts" and "pit_clock s < clock"
    and "\<exists>j. blocked s R j \<noteq> []"
  shows "if ts = [] \<or> clock \<le> target_clock (proc s (hd ts))
    then \<exists>s'. process_wait_clock clock s = Switched s' \<and> runs_highest s' (blocked s R)
      \<and> time_repr s' (process_active s # ts)
      \<and> targets s' (process_active s # ts) = clock # targets s ts
    else process_wait_clock clock s = Hang"
  using wait_clock_repr [OF assms] by (simp add: split: if_splits) blast

theorem wait_clock_witness:
  "process_wait_clock 15 sample = Hang"
  using wait_clock_inserts_or_hangs [OF sample_runs sample_time _ sample_blocked, of 15]
  by (simp add: sample_proc_def blank_def)

text \<open>
  A process that reads the console while there is no finished line waits, and the console is
  told to wake it; when a line is finished, every waiting process becomes ready and a process of
  the highest priority runs.
\<close>

theorem console_read_waits:
  assumes "runs_highest s R" and "cons_repr s cs" and "\<exists>j. blocked s R j \<noteq> []"
    and "all_buffer_len (cons s) = 0" and "len \<noteq> 0"
    and "dst = NULL \<or> process_check_user_ptr s dst"
  shows "\<exists>s'. process_wait_cons_read dst len s = Switched s' \<and> runs_highest s' (blocked s R)
    \<and> cons_repr s' (process_active s # cs) \<and> wake_set (cons s')
    \<and> frames s' (process_active s) = [Fr_cons_read dst len]"
  by (rule cons_read_block [OF assms])

theorem console_read_waits_witness:
  "\<exists>s'. process_wait_cons_read 0x5000 16 sample = Switched s'
    \<and> runs_highest s' (blocked sample sample_rings)
    \<and> cons_repr s' (process_active sample # [0x680]) \<and> wake_set (cons s')
    \<and> frames s' (process_active sample) = [Fr_cons_read 0x5000 16]"
  by (rule console_read_waits [OF sample_runs sample_cons sample_blocked])
     (simp_all add: console_zero_def process_check_user_ptr_def)

text \<open>The wake callback makes every process that waits for the console ready.\<close>

theorem console_wake:
  assumes "runs_highest s R" and "cons_repr s cs" and "valid_priorities s cs"
  shows "\<exists>s'. outcome_state (process_wait_cons_read_wake s) = Some s'
    \<and> runs_highest s' (wake_rings s cs R) \<and> cons_repr s' []"
  using cons_wake_repr [OF assms] by blast

theorem console_wake_witness:
  "\<exists>s'. outcome_state (process_wait_cons_read_wake sample) = Some s'
    \<and> runs_highest s' (wake_rings sample [0x680] sample_rings) \<and> cons_repr s' []"
  by (rule console_wake [OF sample_runs sample_cons sample_priorities])

section \<open>Start, exit and wait\<close>

text \<open>
  C36. A started process gets an identifier that is not in use, is the first child of the caller and
  ready at the front of its ring; it runs at once if its priority is above the caller's.
\<close>

theorem start_process:
  assumes "runs_highest s R" and "allocatable s b ssize" and "off_rings R (process_block b)"
    and "pool_ids (process_id_pool s) U" and "table_ids (process_pool s) U"
    and "0 \<le> priority" and "priority < PROCESS_MAX_PRIORITY" and "process_check_user_ptr s name"
  shows "\<exists>s' n. returns s (Fr_start (process_block b)) n
      (process_start b entry ssize priority name arg s) s'
    \<and> runs_highest s' (R(priority := process_block b # R priority))
    \<and> n \<notin> U \<and> p_pid (proc s' (process_block b)) = n \<and> process_pool s' n = process_block b
    \<and> pool_ids (process_id_pool s') (insert n U) \<and> table_ids (process_pool s') (insert n U)
    \<and> p_parent (proc s' (process_block b)) = process_active s
    \<and> p_child (proc s' (process_block b)) = NULL
    \<and> p_sibling (proc s' (process_block b)) = p_child (proc s (process_active s))
    \<and> p_child (proc s' (process_active s)) = process_block b
    \<and> frames s' (process_block b) = [Fr_startup]"
  using start_repr [OF assms] by blast

theorem start_process_witness:
  "\<exists>s' n. returns sample (Fr_start (process_block sample_blocks)) n
      (process_start sample_blocks 0x4000 512 4 0x4100 0 sample) s'
    \<and> runs_highest s' (sample_rings(4 := process_block sample_blocks # sample_rings 4))
    \<and> n \<notin> {0, 1, 2, 3, 4, 5, 6, 7, 8, 9, 10}
    \<and> p_pid (proc s' (process_block sample_blocks)) = n
    \<and> process_pool s' n = process_block sample_blocks
    \<and> pool_ids (process_id_pool s') (insert n {0, 1, 2, 3, 4, 5, 6, 7, 8, 9, 10})
    \<and> table_ids (process_pool s') (insert n {0, 1, 2, 3, 4, 5, 6, 7, 8, 9, 10})
    \<and> p_parent (proc s' (process_block sample_blocks)) = process_active sample
    \<and> p_child (proc s' (process_block sample_blocks)) = NULL
    \<and> p_sibling (proc s' (process_block sample_blocks)) = p_child (proc sample (process_active sample))
    \<and> p_child (proc s' (process_active sample)) = process_block sample_blocks
    \<and> frames s' (process_block sample_blocks) = [Fr_startup]"
  by (rule start_process [OF sample_runs sample_allocatable sample_fresh sample_pids sample_table])
     (simp_all add: process_check_user_ptr_def)



text \<open>
  A wait that finds a finished child returns its identifier, stores its exit code, removes it
  from the children and releases its identifier and its memory.
\<close>

theorem wait_reaps_zombie:
  assumes "p = process_active s" and "children s p cs" and "p \<noteq> NULL"
    and "find (wanted s n) cs = Some c" and "p_state (proc s c) = PROCESS_ZOMBIE"
    and "p_child (proc s c) = NULL"
    and "pool_ids (process_id_pool s) U" and "table_ids (process_pool s) U"
    and "process_pool s (p_pid (proc s c)) = c" and "user_result s a"
  shows "\<exists>s'. process_wait n a s = Done (p_pid (proc s c)) s'
    \<and> umem s' = umem (put_user_int a (exit_code (proc s c)) s)
    \<and> children s' p (remove1 c cs)
    \<and> process_pool s' (p_pid (proc s c)) = NULL
    \<and> pool_ids (process_id_pool s') (U - {p_pid (proc s c)})
    \<and> table_ids (process_pool s') (U - {p_pid (proc s c)})
    \<and> heap s' = heap s - {c, kernel_stack (proc s c)}"
  by (rule wait_zombie_repr [OF assms])

theorem wait_reaps_zombie_witness:
  "\<exists>s'. process_wait (-1) 0x5000 sample = Done (p_pid (proc sample 0x700)) s'
    \<and> umem s' = umem (put_user_int 0x5000 (exit_code (proc sample 0x700)) sample)
    \<and> children s' 0x200 (remove1 0x700 [0x700, 0x400])
    \<and> process_pool s' (p_pid (proc sample 0x700)) = NULL
    \<and> pool_ids (process_id_pool s') ({0, 1, 2, 3, 4, 5, 6, 7, 8, 9, 10} - {p_pid (proc sample 0x700)})
    \<and> table_ids (process_pool s') ({0, 1, 2, 3, 4, 5, 6, 7, 8, 9, 10} - {p_pid (proc sample 0x700)})
    \<and> heap s' = heap sample - {0x700, kernel_stack (proc sample 0x700)}"
  by (rule wait_reaps_zombie [OF _ sample_children(1) _ _ _ _ sample_pids sample_table])
     (simp_all add: wanted_def sample_proc_def blank_def user_result_def process_check_user_ptr_def)

text \<open>
  A wait for a child that is alive, or for any child while none is finished, blocks the caller
  with what it waits for, and a ready process of the highest priority runs.
\<close>

theorem wait_blocks:
  assumes "p = process_active s" and "runs_highest s R" and "children s p cs" and "cs \<noteq> []"
    and "find (wanted s n) cs = None \<and> n < 0
      \<or> (\<exists>c. find (wanted s n) cs = Some c \<and> p_state (proc s c) \<noteq> PROCESS_ZOMBIE)"
    and "\<exists>j. blocked s R j \<noteq> []" and "user_result s a"
    and "- (2 ^ 31) \<le> n" and "n < 2 ^ 31"
  shows "\<exists>s'. process_wait n a s = Switched s' \<and> runs_highest s' (blocked s R)
    \<and> p_state (proc s' p) = PROCESS_WAIT_CHILD \<and> child_pid (proc s' p) = n
    \<and> frames s' p = [Fr_wait a] \<and> (\<forall>x. steady (proc s x) (proc s' x))"
  using wait_block_repr [OF assms] by blast

theorem wait_blocks_witness:
  "\<exists>s'. process_wait 3 NULL sample = Switched s' \<and> runs_highest s' (blocked sample sample_rings)
    \<and> p_state (proc s' 0x200) = PROCESS_WAIT_CHILD \<and> child_pid (proc s' 0x200) = 3
    \<and> frames s' 0x200 = [Fr_wait NULL] \<and> (\<forall>x. steady (proc sample x) (proc s' x))"
  by (rule wait_blocks [OF _ sample_runs sample_children(1) _ _ sample_blocked])
     (simp_all add: wanted_def sample_proc_def blank_def user_result_def)

end
