(* ===== verification/Device_Properties.thy ===== *)
theory Device_Properties
  imports Pool Console
begin

text \<open>
  The properties of the identifier pool, the screen, the keyboard driver and the console.
\<close>

section \<open>Identifiers\<close>

text \<open>A history of a pool: \<open>U\<close> are the identifiers that the client holds.\<close>

datatype pool_op = Pool_Alloc | Pool_Free int

primrec pool_run :: "pool_op list \<Rightarrow> id_pool \<times> int list \<Rightarrow> id_pool \<times> int list" where
  "pool_run [] x = x"
| "pool_run (op # ops) x = pool_run ops
     (case x of (var, U) \<Rightarrow> (case op of
        Pool_Alloc \<Rightarrow> if id_pool_empty var then (var, U)
          else (case id_pool_alloc var of (i, var') \<Rightarrow> (var', i # U))
      | Pool_Free i \<Rightarrow> if i \<in> set U then (id_pool_free var i, remove1 i U) else (var, U)))"

lemma pool_run_ids:
  "pool_ids var (set U) \<Longrightarrow> distinct U \<Longrightarrow> pool_run ops (var, U) = (var', U') \<Longrightarrow>
     pool_ids var' (set U') \<and> distinct U' \<and> id_pool_cap var' = id_pool_cap var"
proof (induction ops arbitrary: var U)
  case (Cons op ops)
  show ?case
  proof (cases op)
    case Pool_Alloc
    obtain i v1 where a: "id_pool_alloc var = (i, v1)" by (cases "id_pool_alloc var")
    have "id_pool_cap v1 = id_pool_cap var"
      using a by (auto simp: id_pool_alloc_def id_pool_pop_new_def id_pool_pop_free_def id_pool_cap_def
          split: if_splits option.splits)
    with Cons.prems Cons.IH [of v1 "i # U"] Cons.IH [of var U] a Pool_Alloc
      pool_alloc [OF Cons.prems(1) _ a] show ?thesis
      by (cases "id_pool_empty var") simp_all
  next
    case (Pool_Free i)
    have "id_pool_cap (id_pool_free var i) = id_pool_cap var"
      by (simp add: id_pool_free_def id_pool_push_free_def id_pool_cap_def)
    with Cons.prems Cons.IH [of "id_pool_free var i" "remove1 i U"] Cons.IH [of var U] Pool_Free
      pool_free [OF Cons.prems(1), of i] show ?thesis
      by (cases "i \<in> set U") simp_all
  qed
qed simp

text \<open>
  C12. Whatever is allocated and freed, in any order, the pool never gives out an identifier that
  is in use, every identifier is below the capacity, and the pool is empty exactly when as many
  are in use as the capacity allows.
\<close>

theorem pool_identifiers_unique:
  assumes "cap < 2 ^ 31" and "pool_run ops (id_pool_zero cap, []) = (var, U)"
  shows "distinct U \<and> set U \<subseteq> {0..<int cap} \<and> (id_pool_empty var \<longleftrightarrow> length U = cap)"
proof -
  have z: "pool_ids (id_pool_zero cap) (set [])" "id_pool_cap (id_pool_zero cap) = cap"
    using pool_ids_zero [OF assms(1)] by (simp_all add: id_pool_cap_def id_pool_zero_def)
  from pool_run_ids [OF z(1) _ assms(2)] z(2)
  have r: "pool_ids var (set U)" "distinct U" "id_pool_cap var = cap" by auto
  from pool_ids_range [OF r(1)] r(3) have "set U \<subseteq> {0..<int cap}" by auto
  moreover have "id_pool_empty var \<longleftrightarrow> length U = cap"
    using pool_full [OF r(1)] r(2,3) by (simp add: distinct_card)
  ultimately show ?thesis using r(2) by simp
qed

theorem pool_identifiers_witness:
  "\<exists>var. pool_run [Pool_Alloc, Pool_Alloc, Pool_Alloc, Pool_Free 0, Pool_Alloc] (id_pool_zero 2, [])
     = (var, [0, 1]) \<and> distinct [0, 1 :: int] \<and> set [0, 1] \<subseteq> {0..<int 2}
     \<and> (id_pool_empty var \<longleftrightarrow> length [0, 1 :: int] = 2)"
proof -
  define r where "r = pool_run [Pool_Alloc, Pool_Alloc, Pool_Alloc, Pool_Free 0, Pool_Alloc] (id_pool_zero 2, [])"
  have two: "replicate 2 x = [x, x]" for x :: id_pool_slot by (simp add: numeral_2_eq_2)
  have "snd r = [0, 1]"
    by (simp add: two r_def id_pool_zero_def id_pool_empty_def id_pool_alloc_def id_pool_pop_new_def
        id_pool_pop_free_def id_pool_free_def id_pool_push_free_def id_pool_cap_def)
  then have e: "pool_run [Pool_Alloc, Pool_Alloc, Pool_Alloc, Pool_Free 0, Pool_Alloc]
      (id_pool_zero 2, []) = (fst r, [0, 1])"
    by (cases r) (simp add: r_def)
  from pool_identifiers_unique [OF _ e] e show ?thesis by (intro exI [of _ "fst r"]) auto
qed

section \<open>Screen\<close>

definition blank_screen :: cga where
  "blank_screen = cga_clear \<lparr>cells = (\<lambda>_. 0), cursor_line = 0, cursor_column = 0, cga_ports = []\<rparr>"

text \<open>
  A character written to a cell of the screen reads back with its colours; the top bit of the
  background colour, which the hardware uses for blinking, is dropped.
\<close>

theorem screen_cell_roundtrip:
  "cga_char (cga_set_char line column ch fg bg g) line column = (ch, fg AND 15, bg AND 7)"
  by (rule cga_set_char_roundtrip)

text \<open>
  C40. Whatever text is written, with tabs, line feeds, form feeds and colour escapes, the write
  position stays inside the screen, above its last line, and no memory beyond the 25 lines of 80
  cells is written.
\<close>

theorem console_output_on_screen:
  assumes "on_screen c"
  shows "on_screen (cons_write src c) \<and> same_outside (scr c) (scr (cons_write src c))"
  using cons_write_chars_screen [OF assms, of src]
  by (auto simp: cons_write_def Let_def on_screen_def intro: same_outside_trans)

theorem console_output_witness:
  "on_screen (cons_write [0x41, 0x09, 0x0A, 0x42] (console_zero blank_screen))
    \<and> same_outside blank_screen (scr (cons_write [0x41, 0x09, 0x0A, 0x42] (console_zero blank_screen)))"
  using console_output_on_screen [of "console_zero blank_screen" "[0x41, 0x09, 0x0A, 0x42]"]
  by (simp add: on_screen_def console_zero_def)

section \<open>Keyboard\<close>


text \<open>
  A key pressed and released, from a state where no prefix is pending: the key handler is called
  with the key and \<open>K_PRESS\<close>, then with the same key and \<open>K_RELEASE\<close>; the driver is idle again and
  has seen the modifiers go down and up.
\<close>

theorem key_press_release:
  assumes "idle k" and "current_layout k = Some l" and "key_handler_set k"
    and "code \<noteq> 0xF0" and "code \<noteq> 0xE0" and "key = scan_key ext code"
  shows "\<exists>m1 m2 chars k'. keyboard_run (scan_bytes ext K_PRESS code @ scan_bytes ext K_RELEASE code) k
      = Some (KeyCall key code K_PRESS m1 # chars @ [KeyCall key code K_RELEASE m2], k')
    \<and> idle k' \<and> chars \<in> {[]} \<union> range (\<lambda>c. [CharCall c])
    \<and> k' = keyboard_update_modifiers key K_RELEASE (keyboard_update_modifiers key K_PRESS k)"
proof -
  from run_code [OF assms(1-5), of ext K_PRESS] obtain m1 chars where
    1: "keyboard_run (scan_bytes ext K_PRESS code) k = Some (KeyCall key code K_PRESS m1 # chars,
      keyboard_update_modifiers key K_PRESS k)" "chars \<in> {[]} \<union> range (\<lambda>c. [CharCall c])"
    by (auto simp: assms(6))
  let ?k1 = "keyboard_update_modifiers key K_PRESS k"
  from run_code [of ?k1 l code ext K_RELEASE] assms obtain m2 where
    2: "keyboard_run (scan_bytes ext K_RELEASE code) ?k1 = Some ([KeyCall key code K_RELEASE m2],
      keyboard_update_modifiers key K_RELEASE ?k1)" by auto
  from 1 2 assms(1) show ?thesis by (auto simp: run_append)
qed

definition ready_keyboard :: keyboard where
  "ready_keyboard = keyboard_set_char_handler (keyboard_set_key_handler
     (keyboard_set_layout KEYBOARD_LAYOUT_FR keyboard_zero))"

lemma ready_facts: "idle ready_keyboard" "current_layout ready_keyboard = Some (all_layouts KEYBOARD_LAYOUT_FR)"
  "key_handler_set ready_keyboard" "char_handler_set ready_keyboard"
  by (simp_all add: ready_keyboard_def keyboard_zero_def keyboard_set_layout_def
      keyboard_set_key_handler_def keyboard_set_char_handler_def idle_def)

theorem key_press_release_witness:
  "\<exists>m1 m2 chars k'. keyboard_run [0xE0, 0x14, 0xE0, 0xF0, 0x14] ready_keyboard
      = Some (KeyCall K_RIGHT_CTRL 0x14 K_PRESS m1 # chars @ [KeyCall K_RIGHT_CTRL 0x14 K_RELEASE m2], k')
    \<and> idle k'"
proof -
  have "K_RIGHT_CTRL = scan_key True 0x14" by (simp add: scan_key_def extended_codes_def)
  from key_press_release [OF ready_facts(1-3) _ _ this] show ?thesis
    by (fastforce simp: scan_bytes_def)
qed

text \<open>
  While a shift key is held, a printable key gives the character of the shifted table of the
  layout, and after the shift key is released it gives the one of the plain table.
\<close>

theorem shift_selects_table:
  assumes "idle k" and "current_layout k = Some l" and "char_handler_set k" and "\<not> key_handler_set k"
    and "\<not> key_alt_graph k" and "\<not> key_caps_lock k"
    and "code \<noteq> 0xF0" and "code \<noteq> 0xE0" and "key = scan_key False code"
    and "K_PRINTABLE_FIRST \<le> key" and "key \<le> K_PRINTABLE_LAST"
    and "a = printable_shift l ! (key - K_PRINTABLE_FIRST)"
    and "b = printable l ! (key - K_PRINTABLE_FIRST)" and "a \<noteq> 0" and "b \<noteq> 0"
  shows "\<exists>k'. keyboard_run [0x12, code, 0xF0, 0x12, code] k = Some ([CharCall a, CharCall b], k') \<and> idle k'"
proof -
  have s: "normal_codes ! 18 = K_LEFT_SHIFT" by (simp add: normal_codes_def)
  have n: "normal_codes ! unat code = key" using assms(9) by (simp add: scan_key_def)
  have "\<And>act. key \<noteq> 0 \<and> key < 68 \<Longrightarrow> keyboard_update_modifiers key act = (\<lambda>k. k)"
    by (auto simp: keyboard_update_modifiers_def fun_eq_iff)
  with assms(10,11) have u: "\<And>act. keyboard_update_modifiers key act = (\<lambda>k. k)" by simp
  show ?thesis
    using assms(1-8,10-15)
    by (auto simp: keyboard_handler_def keyboard_key_handler_def Let_def s n u idle_def
        printable_char_def) (auto simp: keyboard_update_modifiers_def)
qed

theorem shift_selects_table_witness:
  "\<exists>k'. keyboard_run [0x12, 0x1C, 0xF0, 0x12, 0x1C]
      (keyboard_set_char_handler (keyboard_set_layout KEYBOARD_LAYOUT_EN keyboard_zero))
      = Some ([CharCall 0x41, CharCall 0x61], k') \<and> idle k'"
proof -
  let ?k = "keyboard_set_char_handler (keyboard_set_layout KEYBOARD_LAYOUT_EN keyboard_zero)"
  have i: "idle ?k" and l: "current_layout ?k = Some (all_layouts KEYBOARD_LAYOUT_EN)"
    and f: "char_handler_set ?k" "\<not> key_handler_set ?k" "\<not> key_alt_graph ?k" "\<not> key_caps_lock ?k"
    by (simp_all add: idle_def keyboard_zero_def keyboard_set_layout_def keyboard_set_char_handler_def)
  have k: "K_A = scan_key False 0x1C" by (simp add: scan_key_def normal_codes_def)
  show ?thesis
    by (rule shift_selects_table [OF i l f _ _ k])
      (simp_all add: layout_en_def layout_en_shift_def)
qed

section \<open>The line editor and the lines\<close>

text \<open>
  C15. The line editor implements a zipper: after any sequence of characters, deletions and cursor
  moves, the text before and after the cursor is what the same edits give on a pair of strings, and
  the cursor and the length stay inside the buffer.
\<close>

theorem line_editor_refines_zipper:
  "zipper (fold edit_event es (console_zero g)) = fold (zip_edit True) es ([], [])
    \<and> line_buffer_cursor (fold edit_event es (console_zero g)) \<le> line_buffer_len (fold edit_event es (console_zero g))
    \<and> line_buffer_len (fold edit_event es (console_zero g)) \<le> LINE_BUFFER_CAP"
  using cons_edits_zipper [OF zero_editor_ok [of g], of es]
  by (simp add: edit_event_eq zero_zipper editor_ok_def)



text \<open>
  C38. When the buffer of finished lines is full, the Enter key makes the driver write past its end:
  the free space is computed as \<open>ALL_BUFFER_CAP - all_buffer_len - 1\<close> in unsigned arithmetic, which
  wraps around. With any room left, the line is stored, cut to fit, and its line feed with it.
\<close>

theorem enter_key_overruns_when_full:
  assumes "editor_ok c" and "all_ok c"
  shows "cons_key_handler K_ENTER K_PRESS c = Cons_Overrun \<longleftrightarrow> all_buffer_len c = ALL_BUFFER_CAP"
proof (cases "all_buffer_len c < ALL_BUFFER_CAP")
  case True
  from flush_some [OF assms(2,1) True] show ?thesis using True by (auto simp: cons_key_handler_def)
next
  case False
  with assms(2) have "all_buffer_len c = ALL_BUFFER_CAP" by (simp add: all_ok_def)
  with flush_full [OF _ assms(1)] show ?thesis by (simp add: cons_key_handler_def)
qed

theorem enter_key_overruns_witness:
  "cons_key_handler K_ENTER K_PRESS ((console_zero blank_screen)\<lparr>all_buffer_len := 2048\<rparr>) = Cons_Overrun"
proof -
  have "editor_ok ((console_zero blank_screen)\<lparr>all_buffer_len := 2048\<rparr>)" "all_ok ((console_zero blank_screen)\<lparr>all_buffer_len := 2048\<rparr>)"
    by (simp_all add: editor_ok_def all_ok_def console_zero_def)
  from enter_key_overruns_when_full [OF this] show ?thesis by simp
qed

end
