(* ===== verification/Allocator.thy ===== *)
theory Allocator
  imports Prelude
begin

text \<open>
  The client of an allocator: it asks for blocks, gives back blocks that it holds and writes into
  them. The locale \<open>allocator\<close> states what it may rely on; the page allocator and the kernel heap both
  provide it.
\<close>

section \<open>The client of an allocator\<close>

text \<open>
  A client holds a list of blocks with the sizes it asked for, and remembers what it wrote. It gives
  back only blocks that it holds and writes only into them.
\<close>

datatype heap_op = Get u32 | Put ptr | Write ptr u8

type_synonym 's client = "'s \<times> (ptr \<times> u32) list \<times> (ptr \<Rightarrow> u8 option)"

definition area :: "ptr \<times> u32 \<Rightarrow> nat set" where
  "area e = {unat (fst e) ..< unat (fst e) + unat (snd e)}"

fun in_area :: "ptr \<Rightarrow> ptr \<times> u32 \<Rightarrow> bool" where
  "in_area x (q, z) \<longleftrightarrow> unat q \<le> unat x \<and> unat x < unat q + unat z"

lemma in_area_iff: "in_area x e \<longleftrightarrow> unat x \<in> area e"
  by (cases e) (auto simp: area_def)

text \<open>\<open>None\<close>: the allocator panicked or did not return.\<close>

fun client_step :: "(u32 \<Rightarrow> 's \<Rightarrow> ('s, ptr) outcome) \<Rightarrow> (ptr \<Rightarrow> u32 \<Rightarrow> 's \<Rightarrow> ('s, unit) outcome)
    \<Rightarrow> (ptr \<Rightarrow> u8 \<Rightarrow> 's \<Rightarrow> 's) \<Rightarrow> heap_op \<Rightarrow> 's client \<Rightarrow> 's client option" where
  "client_step alloc free wr (Get z) (s, L, W) = (case alloc z s of
     Done q s' \<Rightarrow> Some (s', if q = NULL then L else (q, z) # L, W) | _ \<Rightarrow> None)"
| "client_step alloc free wr (Put q) (s, L, W) = (case map_of L q of
     None \<Rightarrow> Some (s, L, W)
   | Some z \<Rightarrow> (case free q z s of
       Done _ s' \<Rightarrow> Some (s', filter (\<lambda>e. fst e \<noteq> q) L, \<lambda>x. if in_area x (q, z) then None else W x)
     | _ \<Rightarrow> None))"
| "client_step alloc free wr (Write x v) (s, L, W) =
     (if \<exists>e \<in> set L. in_area x e then Some (wr x v s, L, W(x \<mapsto> v)) else Some (s, L, W))"

fun client_run :: "(u32 \<Rightarrow> 's \<Rightarrow> ('s, ptr) outcome) \<Rightarrow> (ptr \<Rightarrow> u32 \<Rightarrow> 's \<Rightarrow> ('s, unit) outcome)
    \<Rightarrow> (ptr \<Rightarrow> u8 \<Rightarrow> 's \<Rightarrow> 's) \<Rightarrow> heap_op list \<Rightarrow> 's client \<Rightarrow> 's client option" where
  "client_run alloc free wr [] c = Some c"
| "client_run alloc free wr (op # ops) c =
     Option.bind (client_step alloc free wr op c) (client_run alloc free wr ops)"

text \<open>What the client sees: separate blocks that hold what it wrote.\<close>

definition private_memory :: "('s \<Rightarrow> ptr \<Rightarrow> u8) \<Rightarrow> 's client \<Rightarrow> bool" where
  "private_memory rd c \<longleftrightarrow> (case c of (s, L, W) \<Rightarrow>
     sorted_wrt (\<lambda>x y. disjnt (area x) (area y)) L \<and> (\<forall>e \<in> set L. fst e \<noteq> NULL)
     \<and> (\<forall>x v. W x = Some v \<longrightarrow> rd s x = v \<and> (\<exists>e \<in> set L. in_area x e)))"

locale allocator =
  fixes alloc :: "u32 \<Rightarrow> 's \<Rightarrow> ('s, ptr) outcome"
    and free :: "ptr \<Rightarrow> u32 \<Rightarrow> 's \<Rightarrow> ('s, unit) outcome"
    and wr :: "ptr \<Rightarrow> u8 \<Rightarrow> 's \<Rightarrow> 's"
    and rd :: "'s \<Rightarrow> ptr \<Rightarrow> u8"
    and legal :: "u32 \<Rightarrow> bool"
    and holds :: "'s \<Rightarrow> (ptr \<times> u32) set \<Rightarrow> bool"
  assumes alloc_law: "holds s B \<Longrightarrow> legal z \<Longrightarrow> \<exists>q s'. alloc z s = Done q s'
      \<and> (q = NULL \<and> holds s' B \<or> q \<noteq> NULL \<and> q \<notin> fst ` B \<and> holds s' (insert (q, z) B))
      \<and> (\<forall>x. \<forall>e \<in> B. in_area x e \<longrightarrow> rd s' x = rd s x)"
    and free_law: "holds s B \<Longrightarrow> (q, z) \<in> B \<Longrightarrow> \<exists>s'. free q z s = Done () s' \<and> holds s' (B - {(q, z)})
      \<and> (\<forall>x. \<forall>e \<in> B - {(q, z)}. in_area x e \<longrightarrow> rd s' x = rd s x)"
    and write_law: "holds s B \<Longrightarrow> e \<in> B \<Longrightarrow> in_area x e \<Longrightarrow>
      holds (wr x v s) B \<and> rd (wr x v s) = (rd s)(x := v)"
    and apart_law: "holds s B \<Longrightarrow> d \<in> B \<Longrightarrow> e \<in> B \<Longrightarrow> d \<noteq> e \<Longrightarrow> fst d \<noteq> fst e \<and> disjnt (area d) (area e)"
    and null_law: "holds s B \<Longrightarrow> e \<in> B \<Longrightarrow> fst e \<noteq> NULL"
begin

definition good :: "'s client \<Rightarrow> bool" where
  "good c \<longleftrightarrow> (case c of (s, L, W) \<Rightarrow> holds s (set L) \<and> distinct (map fst L)
     \<and> (\<forall>x v. W x = Some v \<longrightarrow> rd s x = v \<and> (\<exists>e \<in> set L. in_area x e)))"

lemma good_step:
  assumes c: "good c" and op: "\<forall>z. op = Get z \<longrightarrow> legal z"
  shows "\<exists>c'. client_step alloc free wr op c = Some c' \<and> good c'"
proof -
  obtain s L W where c_def: "c = (s, L, W)" by (cases c)
  have h: "holds s (set L)" "distinct (map fst L)"
    and w: "\<And>x v. W x = Some v \<Longrightarrow> rd s x = v \<and> (\<exists>e \<in> set L. in_area x e)"
    using c by (auto simp: good_def c_def)
  show ?thesis
  proof (cases op)
    case (Get z)
    then have "legal z" using op by simp
    from alloc_law [OF h(1) this] obtain q s' where a: "alloc z s = Done q s'"
      "q = NULL \<and> holds s' (set L) \<or> q \<noteq> NULL \<and> q \<notin> fst ` set L \<and> holds s' (insert (q, z) (set L))"
      "\<And>x e. e \<in> set L \<Longrightarrow> in_area x e \<Longrightarrow> rd s' x = rd s x" by blast
    have same: "rd s' x = v" if "W x = Some v" for x v using w [OF that] a(3) by auto
    have "good (s', if q = NULL then L else (q, z) # L, W)"
      using a(2) h(2) w same by (auto simp: good_def)
    then show ?thesis using a(1) Get by (simp add: c_def)
  next
    case (Put q)
    show ?thesis
    proof (cases "map_of L q")
      case None
      then show ?thesis using c Put by (simp add: c_def)
    next
      case (Some z)
      then have m: "(q, z) \<in> set L" by (rule map_of_SomeD)
      from free_law [OF h(1) m] obtain s' where f: "free q z s = Done () s'" "holds s' (set L - {(q, z)})"
        "\<And>x e. e \<in> set L - {(q, z)} \<Longrightarrow> in_area x e \<Longrightarrow> rd s' x = rd s x" by blast
      have fl: "set (filter (\<lambda>e. fst e \<noteq> q) L) = set L - {(q, z)}"
        using m by (auto dest: eq_key_imp_eq_value [OF h(2)])
      have "good (s', filter (\<lambda>e. fst e \<noteq> q) L, \<lambda>x. if in_area x (q, z) then None else W x)"
        unfolding good_def split_conv fl
      proof (intro conjI allI impI)
        show "distinct (map fst (filter (\<lambda>e. fst e \<noteq> q) L))" using h(2) by (rule distinct_map_filter)
        fix x v assume x: "(if in_area x (q, z) then None else W x) = Some v"
        then have n: "\<not> in_area x (q, z)" "W x = Some v" by (simp_all del: in_area.simps split: if_splits)
        from w [OF n(2)] n(1) obtain e where e: "e \<in> set L - {(q, z)}" "in_area x e" by blast
        then show "\<exists>e \<in> set L - {(q, z)}. in_area x e" by blast
        show "rd s' x = v" using w [OF n(2)] f(3) [OF e] by simp
      qed (rule f(2))
      then show ?thesis using f(1) Some Put by (simp add: c_def)
    qed
  next
    case (Write x v)
    show ?thesis
    proof (cases "\<exists>e \<in> set L. in_area x e")
      case False
      then show ?thesis using c Write by (simp add: c_def)
    next
      case True
      then obtain e where e: "e \<in> set L" "in_area x e" by blast
      from write_law [OF h(1) e, of v] have "good (wr x v s, L, W(x \<mapsto> v))"
        using h(2) w e by (auto simp: good_def)
      then show ?thesis using True Write by (simp add: c_def)
    qed
  qed
qed

lemma good_run:
  "good c \<Longrightarrow> \<forall>z. Get z \<in> set ops \<longrightarrow> legal z \<Longrightarrow> \<exists>c'. client_run alloc free wr ops c = Some c' \<and> good c'"
proof (induction ops arbitrary: c)
  case (Cons op ops)
  from good_step [OF Cons.prems(1), of op] Cons.prems(2)
  obtain c' where "client_step alloc free wr op c = Some c'" "good c'" by auto
  with Cons.IH [of c'] Cons.prems(2) show ?case by simp
qed simp

lemma good_private: "good c \<Longrightarrow> private_memory rd c"
proof -
  assume c: "good c"
  obtain s L W where c_def: "c = (s, L, W)" by (cases c)
  have h: "holds s (set L)" "distinct (map fst L)" using c by (auto simp: good_def c_def)
  have "sorted_wrt (\<lambda>x y. disjnt (area x) (area y)) L"
    unfolding sorted_wrt_iff_nth_less
  proof (intro allI impI)
    fix i j assume i: "i < j" "j < length L"
    then have "map fst L ! i \<noteq> map fst L ! j" using nth_eq_iff_index_eq [OF h(2), of i j] by simp
    then have "L ! i \<noteq> L ! j" using i by auto
    then show "disjnt (area (L ! i)) (area (L ! j))"
      using apart_law [OF h(1), of "L ! i" "L ! j"] i by auto
  qed
  then show ?thesis using c null_law [OF h(1)] by (auto simp: private_memory_def good_def c_def)
qed

text \<open>Whatever the client does, the allocator returns and the blocks behave as private memory.\<close>

lemma client_private:
  assumes "holds s {}" "\<forall>z. Get z \<in> set ops \<longrightarrow> legal z"
  shows "\<exists>c. client_run alloc free wr ops (s, [], \<lambda>_. None) = Some c \<and> private_memory rd c"
proof -
  have "good (s, [], \<lambda>_. None)" using assms(1) by (simp add: good_def)
  from good_run [OF this assms(2)] show ?thesis using good_private by blast
qed

end

end
