(* ===== verification/Page.thy ===== *)
theory Page
  imports Allocator
begin

text \<open>
  The page allocator of \<^verbatim>\<open>kernel/memory/page.c\<close>: a bitmap at the start of the kernel heap with one
  bit per page, searched from the first page behind it. Sizes are 32-bit words, as the additions
  that the callers make wrap around; page numbers stay far below that and are \<open>nat\<close>. The log lines of
  \<open>page_init\<close> are left out. A failed \<open>assert\<close> panics.
\<close>

section \<open>State and operations\<close>

abbreviation (input) PAGE_SIZE :: nat where "PAGE_SIZE \<equiv> 4096"

record pages =
  mem :: bmem
  mem_heap :: ptr
  mem_heap_end :: ptr
  heap_size :: nat
  page_count :: nat
  meta_page_count :: nat
  alloc_count :: u32

text \<open>\<open>memset(a, v, n)\<close>\<close>

definition fill :: "bmem \<Rightarrow> ptr \<Rightarrow> u8 \<Rightarrow> nat \<Rightarrow> bmem" where
  "fill m a v n = (\<lambda>x. if unat (x - a) < n then v else m x)"

definition page_set_allocated :: "nat \<Rightarrow> bool \<Rightarrow> 'a pages_scheme \<Rightarrow> 'a pages_scheme" where
  "page_set_allocated num allocated s =
     (let index = num div 8; bit = num mod 8; slot = mem_heap s + of_nat index in
      if allocated then s\<lparr>mem := (mem s)(slot := mem s slot OR push_bit bit 1)\<rparr>
      else s\<lparr>mem := (mem s)(slot := mem s slot AND NOT (push_bit bit 1))\<rparr>)"

text \<open>The \<open>n\<close> pages from \<open>num\<close> on, as the loops of the three callers do it.\<close>

primrec set_pages :: "nat \<Rightarrow> nat \<Rightarrow> bool \<Rightarrow> 'a pages_scheme \<Rightarrow> 'a pages_scheme" where
  "set_pages 0 num allocated s = s"
| "set_pages (Suc n) num allocated s = set_pages n (num + 1) allocated (page_set_allocated num allocated s)"

definition page_count_padded :: "u32 \<Rightarrow> nat" where
  "page_count_padded sz = unat ((sz - 1) div 4096 + 1)"

definition page_init :: "'a pages_scheme \<Rightarrow> 'a pages_scheme" where
  "page_init s =
     (let s1 = s\<lparr>heap_size := unat (mem_heap_end s - mem_heap s)\<rparr>;
          s2 = s1\<lparr>page_count := heap_size s1 div PAGE_SIZE\<rparr>;
          s3 = s2\<lparr>meta_page_count := page_count_padded (of_nat (page_count s2))\<rparr>;
          s4 = s3\<lparr>mem := fill (mem s3) (mem_heap s3) 0 (meta_page_count s3 * PAGE_SIZE)\<rparr>
      in set_pages (meta_page_count s4) 0 True s4)"

text \<open>
  The search loop. \<open>slot\<close> and \<open>pmask\<close> (\<open>mask\<close>) address the bit of \<open>page_index\<close>; \<open>alloc_counter\<close> free pages
  end just before it, the first of them is \<open>alloc_index\<close>.
\<close>

function alloc_loop ::
    "nat \<Rightarrow> ptr \<Rightarrow> u8 \<Rightarrow> nat \<Rightarrow> nat \<Rightarrow> nat \<Rightarrow> 'a pages_scheme \<Rightarrow> ptr \<times> 'a pages_scheme" where
  "alloc_loop count slot pmask page_index alloc_index alloc_counter s =
     (if page_index < page_count s then
        let next_slot = (if pmask = 0x80 then slot + 1 else slot);
            next_mask = (if pmask = 0x80 then 1 else push_bit 1 pmask)
        in if mem s slot AND pmask = 0 then
             let first = (if alloc_counter = 0 then page_index else alloc_index);
                 counter = alloc_counter + 1
             in if counter = count then
                  (mem_heap s + of_nat (first * PAGE_SIZE),
                   (set_pages counter first True s)\<lparr>alloc_count := alloc_count s + of_nat count\<rparr>)
                else alloc_loop count next_slot next_mask (page_index + 1) first counter s
           else alloc_loop count next_slot next_mask (page_index + 1) alloc_index 0 s
      else (NULL, s))"
  by pat_completeness auto
termination
  by (relation "measure (\<lambda>(count, slot, pmask, i, ai, ac, s). page_count s - i)") auto

declare alloc_loop.simps [simp del]

definition page_alloc :: "u32 \<Rightarrow> 'a pages_scheme \<Rightarrow> ('a pages_scheme, ptr) outcome" where
  "page_alloc sz s =
     (if sz = 0 then Panic ''failed assertion size > 0''
      else
        let meta_index = meta_page_count s div 8;
            meta_bit = meta_page_count s mod 8;
            (p, s1) = alloc_loop (page_count_padded sz) (mem_heap s + of_nat meta_index)
              (push_bit meta_bit 1) (meta_page_count s) 0 0 s
        in Done p s1)"

text \<open>The loop of \<open>page_free\<close> counts its own variable down to zero before it is subtracted.\<close>

definition page_free :: "ptr \<Rightarrow> u32 \<Rightarrow> 'a pages_scheme \<Rightarrow> ('a pages_scheme, unit) outcome" where
  "page_free p sz s =
     (if p = NULL \<or> sz = 0 then Panic ''failed assertion''
      else
        let page_index = unat (p - mem_heap s) div PAGE_SIZE;
            s1 = set_pages (page_count_padded sz) page_index False s;
            count = 0
        in Done () (s1\<lparr>alloc_count := alloc_count s1 - count\<rparr>))"

definition page_capacity :: "'a pages_scheme \<Rightarrow> nat" where
  "page_capacity s = page_count s"

definition page_used :: "'a pages_scheme \<Rightarrow> u32" where
  "page_used s = alloc_count s"

section \<open>The bitmap\<close>

definition used :: "'a pages_scheme \<Rightarrow> nat \<Rightarrow> bool" where
  "used s i \<longleftrightarrow> bit (mem s (mem_heap s + of_nat (i div 8))) (i mod 8)"

lemma pages_frame [simp, frame]:
  "mem_heap (page_set_allocated n b s) = mem_heap s"
  "mem_heap_end (page_set_allocated n b s) = mem_heap_end s"
  "heap_size (page_set_allocated n b s) = heap_size s"
  "page_count (page_set_allocated n b s) = page_count s"
  "meta_page_count (page_set_allocated n b s) = meta_page_count s"
  "alloc_count (page_set_allocated n b s) = alloc_count s"
  "pages.more (page_set_allocated n b s) = pages.more s"
  by (simp_all add: page_set_allocated_def Let_def)

lemma set_pages_frame [simp, frame]:
  "mem_heap (set_pages c n b s) = mem_heap s"
  "mem_heap_end (set_pages c n b s) = mem_heap_end s"
  "heap_size (set_pages c n b s) = heap_size s"
  "page_count (set_pages c n b s) = page_count s"
  "meta_page_count (set_pages c n b s) = meta_page_count s"
  "alloc_count (set_pages c n b s) = alloc_count s"
  "pages.more (set_pages c n b s) = pages.more s"
  by (induction c arbitrary: n s) simp_all

lemma slot_inj: "i < 2 ^ 32 \<Longrightarrow> j < 2 ^ 32 \<Longrightarrow> (of_nat i :: u32) = of_nat j \<longleftrightarrow> i = j"
  by (metis unat_of_nat32)

lemma bit_pmask: "n < 8 \<Longrightarrow> bit (2 ^ n :: u8) k \<longleftrightarrow> k = n"
  by (auto simp: bit_exp_iff)

lemma used_set:
  assumes "n < 2 ^ 32" "i < 2 ^ 32"
  shows "used (page_set_allocated n b s) i \<longleftrightarrow> (if i = n then b else used s i)"
proof (cases "i div 8 = n div 8")
  case True
  then have "i = n \<longleftrightarrow> i mod 8 = n mod 8" by (metis div_mult_mod_eq)
  with True show ?thesis
    by (auto simp: used_def page_set_allocated_def Let_def bit_or_iff bit_and_iff bit_not_iff bit_pmask)
next
  case False
  moreover have "i div 8 < 2 ^ 32" "n div 8 < 2 ^ 32" using assms by auto
  ultimately have "(of_nat (i div 8) :: u32) \<noteq> of_nat (n div 8)" using slot_inj by blast
  then show ?thesis using False by (auto simp: used_def page_set_allocated_def Let_def)
qed

lemma used_set_pages:
  "n + c \<le> 2 ^ 32 \<Longrightarrow> i < 2 ^ 32 \<Longrightarrow>
     used (set_pages c n b s) i \<longleftrightarrow> (if n \<le> i \<and> i < n + c then b else used s i)"
  by (induction c arbitrary: n s) (auto simp: used_set)

lemma page_set_mem:
  "mem (page_set_allocated n b s) x = mem s x \<or> x = mem_heap s + of_nat (n div 8)"
  by (auto simp: page_set_allocated_def Let_def)

lemma set_pages_mem:
  "(\<And>i. n \<le> i \<Longrightarrow> i < n + c \<Longrightarrow> x \<noteq> mem_heap s + of_nat (i div 8)) \<Longrightarrow> mem (set_pages c n b s) x = mem s x"
proof (induction c arbitrary: n s)
  case (Suc c)
  have "mem (set_pages c (Suc n) b (page_set_allocated n b s)) x = mem (page_set_allocated n b s) x"
    by (rule Suc.IH) (use Suc.prems in simp)
  also have "\<dots> = mem s x" using page_set_mem [of n b s x] Suc.prems [of n] by auto
  finally show ?case by simp
qed simp

text \<open>The bit that the loop looks at.\<close>

definition cursor :: "'a pages_scheme \<Rightarrow> nat \<Rightarrow> ptr \<Rightarrow> u8 \<Rightarrow> bool" where
  "cursor s i slot pmask \<longleftrightarrow> slot = mem_heap s + of_nat (i div 8) \<and> pmask = push_bit (i mod 8) 1"

lemma mask_test: "n < 8 \<Longrightarrow> x AND 2 ^ n = 0 \<longleftrightarrow> \<not> bit (x :: u8) n"
  by (simp add: and_exp_eq_0_iff_not_bit)

lemma cursor_used: "cursor s i slot pmask \<Longrightarrow> mem s slot AND pmask = 0 \<longleftrightarrow> \<not> used s i"
  by (simp add: cursor_def used_def mask_test)

lemma mask_top: "n < 8 \<Longrightarrow> (2 ^ n :: u8) = 0x80 \<longleftrightarrow> n = 7"
proof -
  have "\<forall>n \<in> {0, 1, 2, 3, 4, 5, 6, 7 :: nat}. (2 ^ n :: u8) = 0x80 \<longleftrightarrow> n = 7" by simp
  moreover assume "n < 8"
  then have "n \<in> {0, 1, 2, 3, 4, 5, 6, 7}" by auto
  ultimately show ?thesis by blast
qed

lemma cursor_next:
  "cursor s i slot pmask \<Longrightarrow> cursor s (i + 1) (if pmask = 0x80 then slot + 1 else slot)
     (if pmask = 0x80 then 1 else push_bit 1 pmask)"
proof -
  assume c: "cursor s i slot pmask"
  then have top: "pmask = 0x80 \<longleftrightarrow> i mod 8 = 7" by (simp add: cursor_def mask_top)
  show ?thesis
  proof (cases "i mod 8 = 7")
    case True
    then have "(i + 1) mod 8 = 0" "(i + 1) div 8 = i div 8 + 1" by (simp_all add: mod_Suc div_Suc)
    with True c top show ?thesis by (simp add: cursor_def)
  next
    case False
    then have "(i + 1) mod 8 = i mod 8 + 1" "(i + 1) div 8 = i div 8" by (simp_all add: mod_Suc div_Suc)
    with False c top show ?thesis by (simp add: cursor_def)
  qed
qed

section \<open>First fit\<close>

text \<open>\<open>c\<close> free pages from page \<open>a\<close> on, behind the bitmap.\<close>

definition free_run :: "'a pages_scheme \<Rightarrow> nat \<Rightarrow> nat \<Rightarrow> bool" where
  "free_run s c a \<longleftrightarrow> meta_page_count s \<le> a \<and> a + c \<le> page_count s \<and> (\<forall>i. a \<le> i \<and> i < a + c \<longrightarrow> \<not> used s i)"

text \<open>What \<open>page_alloc\<close> does when it takes the \<open>c\<close> pages from \<open>a\<close> on.\<close>

definition taken :: "nat \<Rightarrow> nat \<Rightarrow> 'a pages_scheme \<Rightarrow> 'a pages_scheme" where
  "taken c a s = (set_pages c a True s)\<lparr>alloc_count := alloc_count s + of_nat c\<rparr>"

lemma alloc_loop_first_fit:
  assumes "cursor s i slot pmask" "0 < c" "ac < c" "ac \<le> i" "meta_page_count s \<le> i - ac"
    "\<forall>j. i - ac \<le> j \<and> j < i \<longrightarrow> \<not> used s j" "\<forall>a < i - ac. \<not> free_run s c a"
    "0 < ac \<longrightarrow> ai = i - ac"
  shows "alloc_loop c slot pmask i ai ac s =
    (if \<exists>a. free_run s c a
     then (let a = LEAST a. free_run s c a in (mem_heap s + of_nat (a * PAGE_SIZE), taken c a s))
     else (NULL, s))"
  using assms
proof (induction "page_count s - i" arbitrary: slot pmask i ai ac rule: less_induct)
  case less
  note p = less.prems
  define ns where "ns = (if pmask = 0x80 then slot + 1 else slot)"
  define nm where "nm = (if pmask = 0x80 then 1 else push_bit 1 pmask)"
  have nc: "cursor s (i + 1) ns nm" using cursor_next [OF p(1)] by (simp add: ns_def nm_def)
  have test: "mem s slot AND pmask = 0 \<longleftrightarrow> \<not> used s i" by (rule cursor_used [OF p(1)])
  show ?case
  proof (cases "i < page_count s")
    case False
    have "\<not> free_run s c a" for a
    proof (cases "a < i - ac")
      case False
      with \<open>\<not> i < page_count s\<close> p(3,4) show ?thesis by (auto simp: free_run_def)
    qed (use p(7) in blast)
    with False show ?thesis by (subst alloc_loop.simps) auto
  next
    case lt: True
    show ?thesis
    proof (cases "used s i")
      case True
      have none: "\<forall>a < i + 1. \<not> free_run s c a"
      proof (intro allI impI)
        fix a assume "a < i + 1"
        with p(2,3) have "a < i - ac \<or> a \<le> i \<and> i < a + c" by linarith
        with p(7) True show "\<not> free_run s c a" by (auto simp: free_run_def)
      qed
      have "alloc_loop c slot pmask i ai ac s = alloc_loop c ns nm (i + 1) ai 0 s"
        using lt True test by (subst alloc_loop.simps) (simp add: Let_def ns_def nm_def)
      also have "\<dots> = (if \<exists>a. free_run s c a
        then (let a = LEAST a. free_run s c a in (mem_heap s + of_nat (a * PAGE_SIZE), taken c a s))
        else (NULL, s))"
        by (rule less.hyps) (use lt nc p(2,4,5) none in auto)
      finally show ?thesis .
    next
      case free: False
      define first where "first = (if ac = 0 then i else ai)"
      have first: "first = i - ac" using p(8) by (simp add: first_def)
      have run: "\<forall>j. i - ac \<le> j \<and> j < i + 1 \<longrightarrow> \<not> used s j" using p(6) free by (auto simp: less_Suc_eq)
      show ?thesis
      proof (cases "ac + 1 = c")
        case True
        have f: "free_run s c (i - ac)"
          using run p(4,5) lt True by (auto simp: free_run_def)
        then have least: "(LEAST a. free_run s c a) = i - ac"
          using p(7) by (intro Least_equality) (auto simp: not_less [symmetric])
        have "alloc_loop c slot pmask i ai ac s = (mem_heap s + of_nat (first * PAGE_SIZE), taken c first s)"
          using lt free test True by (subst alloc_loop.simps) (simp add: Let_def first_def taken_def)
        with f least first show ?thesis by (auto simp: Let_def)
      next
        case False
        have "alloc_loop c slot pmask i ai ac s = alloc_loop c ns nm (i + 1) first (ac + 1) s"
          using lt free test False by (subst alloc_loop.simps) (simp add: Let_def ns_def nm_def first_def)
        also have "\<dots> = (if \<exists>a. free_run s c a
          then (let a = LEAST a. free_run s c a in (mem_heap s + of_nat (a * PAGE_SIZE), taken c a s))
          else (NULL, s))"
          by (rule less.hyps) (use lt nc p(2,3,4,5,7) run first False in auto)
        finally show ?thesis .
      qed
    qed
  qed
qed

text \<open>\<open>page_alloc\<close> takes the first run of free pages that is long enough.\<close>

lemma page_alloc_first_fit:
  assumes "sz \<noteq> 0"
  defines "c \<equiv> page_count_padded sz"
  shows "page_alloc sz s =
    (if \<exists>a. free_run s c a
     then (let a = LEAST a. free_run s c a in Done (mem_heap s + of_nat (a * PAGE_SIZE)) (taken c a s))
     else Done NULL s)"
proof -
  let ?i = "meta_page_count s"
  have c: "0 < c"
  proof -
    have "unat (sz - 1) < 2 ^ 32" by (rule unat_lt32)
    then have "unat (sz - 1) div 4096 < 2 ^ 20" by simp
    then show ?thesis unfolding c_def page_count_padded_def by (simp add: unat_word_ariths unat_div)
  qed
  have "alloc_loop c (mem_heap s + of_nat (?i div 8)) (push_bit (?i mod 8) 1) ?i 0 0 s =
    (if \<exists>a. free_run s c a
     then (let a = LEAST a. free_run s c a in (mem_heap s + of_nat (a * PAGE_SIZE), taken c a s))
     else (NULL, s))"
    using c by (intro alloc_loop_first_fit) (auto simp: cursor_def free_run_def)
  with assms(1) show ?thesis by (simp add: page_alloc_def c_def Let_def)
qed

section \<open>What allocation and release do to the bitmap\<close>

text \<open>
  The state that \<open>page_init\<close> leaves: the pages lie in memory, the pages of the bitmap are marked and
  hold a bit for every page.
\<close>

definition pages_ok :: "'a pages_scheme \<Rightarrow> bool" where
  "pages_ok s \<longleftrightarrow> mem_heap s \<noteq> NULL \<and> unat (mem_heap s) + page_count s * PAGE_SIZE \<le> 2 ^ 32
     \<and> meta_page_count s \<le> page_count s \<and> page_count s \<le> meta_page_count s * PAGE_SIZE
     \<and> (\<forall>i < meta_page_count s. used s i)"

lemma pages_ok_bound: "pages_ok s \<Longrightarrow> page_count s \<le> 2 ^ 20"
  by (simp add: pages_ok_def)

text \<open>The address of a page, and the page of an address.\<close>

definition page_addr :: "'a pages_scheme \<Rightarrow> nat \<Rightarrow> ptr" where
  "page_addr s i = mem_heap s + of_nat (i * PAGE_SIZE)"

lemma unat_page_addr:
  assumes "pages_ok s" "i < page_count s"
  shows "unat (page_addr s i) = unat (mem_heap s) + i * PAGE_SIZE" "page_addr s i \<noteq> NULL"
    "unat (page_addr s i - mem_heap s) div PAGE_SIZE = i"
proof -
  have h: "unat (mem_heap s) + i * PAGE_SIZE < 2 ^ 32" "0 < unat (mem_heap s)"
    using assms by (auto simp: pages_ok_def unat_gt_0)
  then have o: "unat (of_nat (i * PAGE_SIZE) :: u32) = i * PAGE_SIZE" by (intro unat_of_nat32) simp
  show u: "unat (page_addr s i) = unat (mem_heap s) + i * PAGE_SIZE"
    using h(1) o unfolding page_addr_def by (simp only: unat_word_ariths(1) len_bit0 len_num1) simp
  with h(2) show "page_addr s i \<noteq> NULL" by auto
  show "unat (page_addr s i - mem_heap s) div PAGE_SIZE = i"
    using o unfolding page_addr_def by (simp del: of_nat_mult)
qed

lemma taken_frame [simp, frame]:
  "mem_heap (taken c a s) = mem_heap s" "mem_heap_end (taken c a s) = mem_heap_end s"
  "heap_size (taken c a s) = heap_size s" "page_count (taken c a s) = page_count s"
  "meta_page_count (taken c a s) = meta_page_count s" "pages.more (taken c a s) = pages.more s"
  "alloc_count (taken c a s) = alloc_count s + of_nat c"
  "used (taken c a s) = used (set_pages c a True s)"
  by (simp_all add: taken_def used_def fun_eq_iff)

lemma page_alloc_used:
  assumes ok: "pages_ok s" and sz: "sz \<noteq> 0"
  defines "c \<equiv> page_count_padded sz"
  shows "(page_alloc sz s = Done NULL s \<and> (\<forall>a. \<not> free_run s c a))
    \<or> (\<exists>a s'. page_alloc sz s = Done (page_addr s a) s' \<and> page_addr s a \<noteq> NULL
        \<and> free_run s c a \<and> (\<forall>b < a. \<not> free_run s c b) \<and> s' = taken c a s
        \<and> (\<forall>i < page_count s. used s' i \<longleftrightarrow> used s i \<or> a \<le> i \<and> i < a + c) \<and> pages_ok s')"
proof (cases "\<exists>a. free_run s c a")
  case False
  with page_alloc_first_fit [OF sz, of s] show ?thesis by (simp add: c_def)
next
  case True
  define a where "a = (LEAST a. free_run s c a)"
  from True have a: "free_run s c a" unfolding a_def by (rule LeastI_ex)
  have least: "\<forall>b < a. \<not> free_run s c b" unfolding a_def by (blast dest: not_less_Least)
  have cp: "0 < c"
  proof -
    have "unat (sz - 1) < 2 ^ 32" by (rule unat_lt32)
    then have "unat (sz - 1) div 4096 < 2 ^ 20" by simp
    then show ?thesis unfolding c_def page_count_padded_def by (simp add: unat_word_ariths unat_div)
  qed
  have b: "meta_page_count s \<le> a" "a + c \<le> page_count s" "page_count s \<le> 2 ^ 20"
    using a pages_ok_bound [OF ok] by (auto simp: free_run_def)
  have u: "\<forall>i < page_count s. used (taken c a s) i \<longleftrightarrow> used s i \<or> a \<le> i \<and> i < a + c"
    using b by (auto simp: used_set_pages)
  have "page_addr s a \<noteq> NULL" using unat_page_addr(2) [OF ok, of a] b cp by simp
  moreover have "page_alloc sz s = Done (page_addr s a) (taken c a s)"
    using page_alloc_first_fit [OF sz, of s] True by (simp add: c_def a_def page_addr_def Let_def)
  moreover have "pages_ok (taken c a s)"
    using ok u by (auto simp: pages_ok_def)
  ultimately show ?thesis using a least u by blast
qed

text \<open>
  \<open>page_free\<close> clears the bits of the pages, but the count of used pages stays what it was: the
  loop has counted the number that is subtracted down to zero.
\<close>

lemma page_free_used:
  assumes ok: "pages_ok s" and sz: "sz \<noteq> 0" and a: "meta_page_count s \<le> a" "a + page_count_padded sz \<le> page_count s"
    and lt: "a < page_count s"
  shows "\<exists>s'. page_free (page_addr s a) sz s = Done () s' \<and> pages_ok s'
    \<and> (\<forall>i < page_count s. used s' i \<longleftrightarrow> used s i \<and> \<not> (a \<le> i \<and> i < a + page_count_padded sz))
    \<and> page_used s' = page_used s \<and> s' = set_pages (page_count_padded sz) a False s"
proof -
  have b: "page_count s \<le> 2 ^ 20" by (rule pages_ok_bound [OF ok])
  let ?s = "set_pages (page_count_padded sz) a False s"
  have u: "\<forall>i < page_count s. used ?s i \<longleftrightarrow> used s i \<and> \<not> (a \<le> i \<and> i < a + page_count_padded sz)"
    using b a by (auto simp: used_set_pages)
  have "page_free (page_addr s a) sz s = Done () ?s"
    using unat_page_addr [OF ok lt] sz by (simp add: page_free_def Let_def)
  moreover have "pages_ok ?s" using ok u a by (auto simp: pages_ok_def)
  ultimately show ?thesis using u by (simp add: page_used_def)
qed

text \<open>Memory that is not part of the bitmap does not change.\<close>

definition bitmap :: "'a pages_scheme \<Rightarrow> ptr set" where
  "bitmap s = {x. unat (x - mem_heap s) < meta_page_count s * PAGE_SIZE}"

lemma bitmap_slot:
  assumes "pages_ok s" "i < page_count s"
  shows "mem_heap s + of_nat (i div 8) \<in> bitmap s"
proof -
  have "i div 8 < 2 ^ 32" using assms pages_ok_bound [OF assms(1)] by simp
  then have "unat (of_nat (i div 8) :: u32) = i div 8" by (rule unat_of_nat32)
  moreover have "i div 8 < meta_page_count s * PAGE_SIZE" using assms by (auto simp: pages_ok_def)
  ultimately show ?thesis by (simp add: bitmap_def)
qed

lemma set_pages_outside:
  assumes "pages_ok s" "a + c \<le> page_count s" "x \<notin> bitmap s"
  shows "mem (set_pages c a b s) x = mem s x"
  using assms bitmap_slot [OF assms(1)] by (intro set_pages_mem) fastforce

text \<open>Writes outside the bitmap do not change which pages are used.\<close>

lemma pages_ok_mem:
  assumes ok: "pages_ok s" and same: "\<forall>x \<in> bitmap s. m x = mem s x"
  shows "pages_ok (s\<lparr>mem := m\<rparr>)" "i < page_count s \<Longrightarrow> used (s\<lparr>mem := m\<rparr>) i = used s i"
proof -
  have u: "used (s\<lparr>mem := m\<rparr>) i = used s i" if "i < page_count s" for i
    using same bitmap_slot [OF ok that] by (simp add: used_def)
  then show "i < page_count s \<Longrightarrow> used (s\<lparr>mem := m\<rparr>) i = used s i" .
  show "pages_ok (s\<lparr>mem := m\<rparr>)" using ok u by (auto simp: pages_ok_def)
qed

section \<open>Start\<close>

text \<open>The allocator is set up correctly for a heap of at least one page.\<close>

lemma page_init_ok:
  assumes h: "mem_heap s \<noteq> NULL" "mem_heap s \<le> mem_heap_end s"
    and n: "PAGE_SIZE \<le> unat (mem_heap_end s - mem_heap s)"
  shows "pages_ok (page_init s)"
    and "\<forall>i < page_count (page_init s). used (page_init s) i \<longleftrightarrow> i < meta_page_count (page_init s)"
proof -
  let ?H = "unat (mem_heap_end s - mem_heap s)"
  define n where "n = ?H div PAGE_SIZE"
  define k where "k = page_count_padded (of_nat n)"
  have H: "?H < 2 ^ 32" by (rule unat_lt32)
  then have nb: "0 < n" "n < 2 ^ 20" using n by (auto simp: n_def div_greater_zero_iff)
  have un: "unat (of_nat n :: u32) = n" using nb by (intro unat_of_nat32) simp
  with nb(1) have "(of_nat n :: u32) \<noteq> 0" by (metis unat_0 less_irrefl)
  then have "unat (of_nat n - 1 :: u32) = n - 1" by (simp add: unat_minus_one un)
  then have k: "k = (n - 1) div PAGE_SIZE + 1"
    using nb by (simp add: k_def page_count_padded_def unat_word_ariths unat_div)
  define z where "z = s\<lparr>heap_size := ?H, page_count := n, meta_page_count := k,
    mem := fill (mem s) (mem_heap s) 0 (k * PAGE_SIZE)\<rparr>"
  have init: "page_init s = set_pages k 0 True z"
    by (simp add: page_init_def Let_def z_def n_def k_def)
  have kn: "k \<le> n" "n \<le> k * PAGE_SIZE" using nb k by (auto simp: div_le_dividend)
  have clear: "\<not> used z i" if "i < n" for i
  proof -
    have "i div 8 < 2 ^ 32" "i div 8 < k * PAGE_SIZE" using that nb kn by auto
    then show ?thesis by (simp add: used_def z_def fill_def unat_of_nat32)
  qed
  have u: "\<forall>i < n. used (page_init s) i \<longleftrightarrow> i < k"
    using kn nb clear by (auto simp: init used_set_pages)
  have "unat (mem_heap s) + ?H = unat (mem_heap_end s)"
    using h(2) by (simp add: unat_sub word_le_nat_alt)
  then have "unat (mem_heap s) + ?H < 2 ^ 32" using unat_lt32 [of "mem_heap_end s"] by simp
  moreover have "n * PAGE_SIZE \<le> ?H" by (simp add: n_def)
  ultimately show "pages_ok (page_init s)"
    using h(1) kn u by (auto simp: pages_ok_def init z_def)
  show "\<forall>i < page_count (page_init s). used (page_init s) i \<longleftrightarrow> i < meta_page_count (page_init s)"
    using u by (simp add: init z_def)
qed

section \<open>Allocated blocks\<close>

definition extent :: "ptr \<times> u32 \<Rightarrow> nat set" where
  "extent x = {unat (fst x) ..< unat (fst x) + page_count_padded (snd x) * PAGE_SIZE}"

definition held :: "'a pages_scheme \<Rightarrow> ptr \<times> u32 \<Rightarrow> bool" where
  "held s x \<longleftrightarrow> snd x \<noteq> 0 \<and> (\<exists>a. fst x = page_addr s a \<and> meta_page_count s \<le> a
     \<and> a + page_count_padded (snd x) \<le> page_count s
     \<and> (\<forall>i. a \<le> i \<and> i < a + page_count_padded (snd x) \<longrightarrow> used s i))"

definition live_ok :: "'a pages_scheme \<Rightarrow> (ptr \<times> u32) set \<Rightarrow> bool" where
  "live_ok s B \<longleftrightarrow> pages_ok s \<and> (\<forall>x \<in> B. held s x) \<and> pairwise (\<lambda>x y. disjnt (extent x) (extent y)) B"

lemma page_count_padded_pos: "0 < page_count_padded sz"
proof -
  have "unat (sz - 1) < 2 ^ 32" by (rule unat_lt32)
  then have "unat (sz - 1) div 4096 < 2 ^ 20" by simp
  then show ?thesis unfolding page_count_padded_def by (simp add: unat_word_ariths unat_div)
qed

lemma page_count_padded_covers: "sz \<noteq> 0 \<Longrightarrow> unat sz \<le> page_count_padded sz * PAGE_SIZE"
proof -
  assume "sz \<noteq> 0"
  then have u: "unat (sz - 1) = unat sz - 1" "0 < unat sz" by (simp_all add: unat_minus_one unat_gt_0)
  have "unat (sz - 1) < 2 ^ 32" by (rule unat_lt32)
  then have "unat (sz - 1) div 4096 < 2 ^ 20" by simp
  then have "page_count_padded sz = (unat sz - 1) div 4096 + 1"
    unfolding page_count_padded_def by (simp add: unat_word_ariths(1) unat_div u)
  moreover have "k < (k div 4096 + 1) * 4096" for k :: nat
    by (simp add: less_mult_imp_div_less dividend_less_times_div)
  from this [of "unat sz - 1"] calculation show ?thesis using u(2) by linarith
qed

lemma extent_pages:
  assumes "pages_ok s" "a + page_count_padded sz \<le> page_count s"
  shows "extent (page_addr s a, sz) = (+) (unat (mem_heap s)) `
    {a * PAGE_SIZE ..< (a + page_count_padded sz) * PAGE_SIZE}"
proof -
  have "a < page_count s" using assms(2) page_count_padded_pos [of sz] by linarith
  then have "unat (page_addr s a) = unat (mem_heap s) + a * PAGE_SIZE" by (rule unat_page_addr(1) [OF assms(1)])
  then show ?thesis
    unfolding extent_def fst_conv snd_conv
    using image_add_atLeastLessThan [of "unat (mem_heap s)" "a * PAGE_SIZE" "(a + page_count_padded sz) * PAGE_SIZE"]
    by (simp only: add_mult_distrib ac_simps)
qed

lemma extent_disjoint:
  assumes "pages_ok s" "a + page_count_padded x \<le> page_count s" "b + page_count_padded y \<le> page_count s"
  shows "disjnt (extent (page_addr s a, x)) (extent (page_addr s b, y))
    \<longleftrightarrow> a + page_count_padded x \<le> b \<or> b + page_count_padded y \<le> a"
proof -
  have p: "0 < page_count_padded x" "0 < page_count_padded y" by (rule page_count_padded_pos)+
  have d: "disjnt {a * k ..< c * k} {b * k ..< d * k} \<longleftrightarrow> c \<le> b \<or> d \<le> a"
    if "a < c" "b < d" "0 < k" for a b c d k :: nat
  proof
    assume h: "disjnt {a * k ..< c * k} {b * k ..< d * k}"
    show "c \<le> b \<or> d \<le> a"
    proof (rule ccontr)
      assume "\<not> (c \<le> b \<or> d \<le> a)"
      then have "max a b * k \<in> {a * k ..< c * k} \<inter> {b * k ..< d * k}" using that by (auto simp: max_def)
      with h show False by (auto simp: disjnt_def)
    qed
  next
    assume "c \<le> b \<or> d \<le> a"
    then have "c * k \<le> b * k \<or> d * k \<le> a * k" using that by auto
    then show "disjnt {a * k ..< c * k} {b * k ..< d * k}" by (auto simp: disjnt_def)
  qed
  have inj: "disjnt ((+) n ` A) ((+) n ` B) \<longleftrightarrow> disjnt A B" for n :: nat and A B
    by (auto simp: disjnt_def)
  show ?thesis unfolding extent_pages [OF assms(1,2)] extent_pages [OF assms(1,3)] inj
    using d [of a "a + page_count_padded x" b "b + page_count_padded y" PAGE_SIZE] p by simp
qed

lemma held_mono:
  assumes "held s x" "page_count s' = page_count s" "mem_heap s' = mem_heap s"
    "meta_page_count s' = meta_page_count s"
    "\<And>a i. fst x = page_addr s a \<Longrightarrow> meta_page_count s \<le> a \<Longrightarrow> a + page_count_padded (snd x) \<le> page_count s
       \<Longrightarrow> a \<le> i \<Longrightarrow> i < a + page_count_padded (snd x) \<Longrightarrow> used s i \<Longrightarrow> used s' i"
  shows "held s' x"
  using assms unfolding held_def page_addr_def by metis

text \<open>The bytes of a block lie in used pages behind the bitmap.\<close>

lemma held_area:
  assumes ok: "pages_ok s" and h: "held s e"
  shows "area e \<subseteq> extent e" "extent e \<noteq> {}" "fst e \<noteq> NULL" "in_area x e \<Longrightarrow> x \<notin> bitmap s"
proof -
  from h obtain a where a: "fst e = page_addr s a" "snd e \<noteq> 0" "meta_page_count s \<le> a"
    "a + page_count_padded (snd e) \<le> page_count s" by (auto simp: held_def)
  have c: "0 < page_count_padded (snd e)" by (rule page_count_padded_pos)
  have lt: "a < page_count s" using a(4) c by linarith
  show "area e \<subseteq> extent e" using page_count_padded_covers [OF a(2)] by (auto simp: area_def extent_def)
  show "extent e \<noteq> {}" using c by (simp add: extent_def)
  show "fst e \<noteq> NULL" using unat_page_addr(2) [OF ok lt] a(1) by simp
  assume "in_area x e"
  then have "unat (page_addr s a) \<le> unat x" using a(1) by (cases e) auto
  then have "unat (mem_heap s) + a * PAGE_SIZE \<le> unat x" using unat_page_addr(1) [OF ok lt] by simp
  then have g: "unat (mem_heap s) \<le> unat x" "a * PAGE_SIZE \<le> unat x - unat (mem_heap s)" by linarith+
  have "unat (x - mem_heap s) = unat x - unat (mem_heap s)" using g(1) by (simp add: unat_sub word_le_nat_alt)
  moreover have "meta_page_count s * PAGE_SIZE \<le> a * PAGE_SIZE" using a(3) by simp
  ultimately show "x \<notin> bitmap s" using g(2) by (simp add: bitmap_def)
qed

lemma page_alloc_live:
  assumes L: "live_ok s B" and sz: "sz \<noteq> 0"
  shows "\<exists>p s'. page_alloc sz s = Done p s'
    \<and> (p = NULL \<and> live_ok s' B \<or> p \<noteq> NULL \<and> p \<notin> fst ` B \<and> live_ok s' (insert (p, sz) B))
    \<and> (\<forall>x. \<forall>e \<in> B. in_area x e \<longrightarrow> mem s' x = mem s x)"
proof -
  let ?c = "page_count_padded sz"
  have ok: "pages_ok s" using L by (simp add: live_ok_def)
  from page_alloc_used [OF ok sz] show ?thesis
  proof
    assume "page_alloc sz s = Done NULL s \<and> (\<forall>a. \<not> free_run s ?c a)"
    with L show ?thesis by simp
  next
    assume "\<exists>a s'. page_alloc sz s = Done (page_addr s a) s' \<and> page_addr s a \<noteq> NULL \<and> free_run s ?c a
      \<and> (\<forall>b < a. \<not> free_run s ?c b) \<and> s' = taken ?c a s
      \<and> (\<forall>i < page_count s. used s' i \<longleftrightarrow> used s i \<or> a \<le> i \<and> i < a + ?c) \<and> pages_ok s'"
    then obtain a t where a: "page_alloc sz s = Done (page_addr s a) t" "page_addr s a \<noteq> NULL"
      "free_run s ?c a" "t = taken ?c a s"
      "\<forall>i < page_count s. used t i \<longleftrightarrow> used s i \<or> a \<le> i \<and> i < a + ?c" "pages_ok t" by blast
    have f: "meta_page_count s \<le> a" "a + ?c \<le> page_count s" "\<forall>i. a \<le> i \<and> i < a + ?c \<longrightarrow> \<not> used s i"
      using a(3) by (auto simp: free_run_def)
    have fr: "page_addr t = page_addr s" "page_count t = page_count s" "meta_page_count t = meta_page_count s"
      by (simp_all add: page_addr_def fun_eq_iff a(4))
    have "\<forall>i. a \<le> i \<and> i < a + ?c \<longrightarrow> used t i" using f(2) a(5) by auto
    then have new: "held t (page_addr s a, sz)"
      unfolding held_def fst_conv snd_conv fr using sz f(1,2) by blast
    have old: "held t x" if "x \<in> B" for x
    proof (rule held_mono [of s])
      show "held s x" using L that by (simp add: live_ok_def)
    qed (use a(4,5) in simp_all)
    have dis: "disjnt (extent (page_addr s a, sz)) (extent x)" if "x \<in> B" for x
    proof -
      from L that obtain b where b: "x = (page_addr s b, snd x)" "b + page_count_padded (snd x) \<le> page_count s"
        "\<forall>i. b \<le> i \<and> i < b + page_count_padded (snd x) \<longrightarrow> used s i"
        unfolding live_ok_def held_def by (metis prod.collapse)
      have "a + ?c \<le> b \<or> b + page_count_padded (snd x) \<le> a"
      proof (rule ccontr)
        assume "\<not> ?thesis"
        then have "a \<le> max a b \<and> max a b < a + ?c" "b \<le> max a b \<and> max a b < b + page_count_padded (snd x)"
          using page_count_padded_pos [of sz] page_count_padded_pos [of "snd x"] by (auto simp: max_def)
        with f(3) b(3) show False by blast
      qed
      with extent_disjoint [OF ok f(2) b(2)] b(1) show ?thesis by metis
    qed
    have notin: "page_addr s a \<notin> fst ` B"
    proof
      assume "page_addr s a \<in> fst ` B"
      then obtain x where x: "x \<in> B" "fst x = page_addr s a" by force
      have "unat (page_addr s a) \<in> extent (page_addr s a, sz) \<inter> extent x"
        using x(2) page_count_padded_pos [of sz] page_count_padded_pos [of "snd x"] by (simp add: extent_def)
      with dis [OF x(1)] show False by (auto simp: disjnt_def)
    qed
    have "mem t x = mem s x" if "e \<in> B" "in_area x e" for x e
    proof -
      have "held s e" using L that(1) by (simp add: live_ok_def)
      from held_area(4) [OF ok this that(2)] show ?thesis
        using set_pages_outside [OF ok f(2)] by (simp add: a(4) taken_def)
    qed
    moreover have "live_ok t (insert (page_addr s a, sz) B)"
      using new old dis a(6) L by (auto simp: live_ok_def pairwise_insert disjnt_sym)
    ultimately show ?thesis using a(1,2) notin by blast
  qed
qed

lemma page_free_live:
  assumes L: "live_ok s B" and m: "(p, sz) \<in> B"
  shows "\<exists>s'. page_free p sz s = Done () s' \<and> live_ok s' (B - {(p, sz)})
    \<and> (\<forall>x. \<forall>e \<in> B - {(p, sz)}. in_area x e \<longrightarrow> mem s' x = mem s x)"
proof -
  let ?c = "page_count_padded sz"
  have ok: "pages_ok s" using L by (simp add: live_ok_def)
  from L m have "held s (p, sz)" by (auto simp: live_ok_def)
  then obtain a where a: "p = page_addr s a" "meta_page_count s \<le> a" "a + ?c \<le> page_count s" "sz \<noteq> 0"
    by (auto simp: held_def)
  have lt: "a < page_count s" using a(3) page_count_padded_pos [of sz] by linarith
  from page_free_used [OF ok a(4,2,3) lt] obtain t where t: "page_free p sz s = Done () t" "pages_ok t"
    "\<forall>i < page_count s. used t i \<longleftrightarrow> used s i \<and> \<not> (a \<le> i \<and> i < a + ?c)" "t = set_pages ?c a False s"
    unfolding a(1) by blast
  have keep: "held t x" if x: "x \<in> B - {(p, sz)}" for x
  proof (rule held_mono [of s])
    show "held s x" using L x by (auto simp: live_ok_def)
    fix b i
    assume b: "fst x = page_addr s b" "b + page_count_padded (snd x) \<le> page_count s"
      "b \<le> i" "i < b + page_count_padded (snd x)" "used s i"
    have "x = (page_addr s b, snd x)" using b(1) by (metis prod.collapse)
    moreover have "disjnt (extent (p, sz)) (extent x)" using L x m by (auto simp: live_ok_def pairwise_def)
    ultimately have "disjnt (extent (page_addr s a, sz)) (extent (page_addr s b, snd x))" using a(1) by simp
    with extent_disjoint [OF ok a(3) b(2)] have "a + ?c \<le> b \<or> b + page_count_padded (snd x) \<le> a" by simp
    with b t(3) show "used t i" by auto
  qed (simp_all add: t(4))
  have "mem t x = mem s x" if "e \<in> B - {(p, sz)}" "in_area x e" for x e
  proof -
    have "held s e" using L that(1) by (simp add: live_ok_def)
    from held_area(4) [OF ok this that(2)] show ?thesis using set_pages_outside [OF ok a(3)] by (simp add: t(4))
  qed
  moreover have "live_ok t (B - {(p, sz)})"
    using keep t(2) L by (auto simp: live_ok_def intro: pairwise_subset)
  ultimately show ?thesis using t(1) by blast
qed

text \<open>A write into a block is no write into the bitmap.\<close>

definition poke :: "ptr \<Rightarrow> u8 \<Rightarrow> 'a pages_scheme \<Rightarrow> 'a pages_scheme" where
  "poke x v s = s\<lparr>mem := (mem s)(x := v)\<rparr>"

lemma poke_live:
  assumes L: "live_ok s B" and e: "e \<in> B" "in_area x e"
  shows "live_ok (poke x v s) B"
proof -
  have ok: "pages_ok s" using L by (simp add: live_ok_def)
  have "held s e" using L e(1) by (simp add: live_ok_def)
  then have nb: "x \<notin> bitmap s" using held_area(4) [OF ok _ e(2)] by blast
  then have same: "\<forall>y \<in> bitmap s. ((mem s)(x := v)) y = mem s y" by auto
  note m = pages_ok_mem [OF ok, where m = "(mem s)(x := v)", OF same]
  have "held (poke x v s) y" if "y \<in> B" for y
  proof (rule held_mono [of s])
    show "held s y" using L that by (simp add: live_ok_def)
    fix a i
    assume i: "a + page_count_padded (snd y) \<le> page_count s" "i < a + page_count_padded (snd y)" "used s i"
    then have "i < page_count s" by linarith
    from m(2) [OF this] i(3) show "used (poke x v s) i" unfolding poke_def by simp
  qed (simp_all add: poke_def)
  then show ?thesis using L m(1) unfolding live_ok_def poke_def by blast
qed

text \<open>The page allocator is an allocator: blocks of any size but 0.\<close>

interpretation page_blocks: allocator page_alloc page_free poke mem "\<lambda>sz. sz \<noteq> 0" live_ok
proof
  show "\<exists>q s'. page_alloc z s = Done q s'
      \<and> (q = NULL \<and> live_ok s' B \<or> q \<noteq> NULL \<and> q \<notin> fst ` B \<and> live_ok s' (insert (q, z) B))
      \<and> (\<forall>x. \<forall>e \<in> B. in_area x e \<longrightarrow> mem s' x = mem s x)" if "live_ok s B" "z \<noteq> 0" for s B z
    using that by (rule page_alloc_live)
  show "\<exists>s'. page_free q z s = Done () s' \<and> live_ok s' (B - {(q, z)})
      \<and> (\<forall>x. \<forall>e \<in> B - {(q, z)}. in_area x e \<longrightarrow> mem s' x = mem s x)" if "live_ok s B" "(q, z) \<in> B" for s B q z
    using that by (rule page_free_live)
  show "live_ok (poke x v s) B \<and> mem (poke x v s) = (mem s)(x := v)"
    if "live_ok s B" "e \<in> B" "in_area x e" for s B e x v
    using poke_live [OF that] by (simp add: poke_def)
  show "fst d \<noteq> fst e \<and> disjnt (area d) (area e)" if "live_ok s B" "d \<in> B" "e \<in> B" "d \<noteq> e" for s B d e
  proof -
    have h: "pages_ok s" "held s d" "held s e" "disjnt (extent d) (extent e)"
      using that by (auto simp: live_ok_def pairwise_def)
    have "unat (fst d) \<in> extent d" "unat (fst e) \<in> extent e"
      using page_count_padded_pos by (simp_all add: extent_def)
    with h(4) have "fst d \<noteq> fst e" by (auto simp: disjnt_def)
    then show ?thesis using held_area(1) [OF h(1,2)] held_area(1) [OF h(1,3)] h(4) by (auto simp: disjnt_def)
  qed
  show "fst e \<noteq> NULL" if "live_ok s B" "e \<in> B" for s B e
    using that by (intro held_area(3) [of s]) (auto simp: live_ok_def)
qed

end
