(* ===== verification/Kernel_Heap.thy ===== *)
theory Kernel_Heap
  imports Page Links
begin

text \<open>
  The kernel heap of \<^verbatim>\<open>kernel/memory\<close>: \<^verbatim>\<open>malloc.c\<close> chooses by size between a pool of fixed chunks
  (\<^verbatim>\<open>mem_small.c\<close>), a buddy allocator (\<^verbatim>\<open>mem_medium.c\<close>) and whole pages (\<^verbatim>\<open>mem_large.c\<close>); every block
  carries a mark of two words at each end (\<^verbatim>\<open>mem_internals.c\<close>). Free chunks are linked through
  their first word. Sizes are 32-bit words and additions to them wrap around.
\<close>

section \<open>State\<close>

abbreviation (input) MARK_SIZE :: u32 where "MARK_SIZE \<equiv> 16"
abbreviation (input) MARK_USER_OFFSET :: u32 where "MARK_USER_OFFSET \<equiv> 8"
abbreviation (input) SMALLALLOC :: u32 where "SMALLALLOC \<equiv> 64"
abbreviation (input) CHUNKSIZE :: u32 where "CHUNKSIZE \<equiv> 80"
abbreviation (input) LARGEALLOC :: u32 where "LARGEALLOC \<equiv> 0x20000"
abbreviation (input) FIRST_ALLOC_SMALL :: u32 where "FIRST_ALLOC_SMALL \<equiv> 10240"
abbreviation (input) FIRST_ALLOC_MEDIUM_EXPOSANT :: nat where "FIRST_ALLOC_MEDIUM_EXPOSANT \<equiv> 17"
abbreviation (input) FIRST_ALLOC_MEDIUM :: u32 where "FIRST_ALLOC_MEDIUM \<equiv> 0x20000"
abbreviation (input) TZL_SIZE :: nat where "TZL_SIZE \<equiv> 48"

text \<open>\<open>enum mem_kind\<close>; the kind of a block is read from two bits of its mark.\<close>

abbreviation (input) MEM_SMALL :: u32 where "MEM_SMALL \<equiv> 0"
abbreviation (input) MEM_MEDIUM :: u32 where "MEM_MEDIUM \<equiv> 1"
abbreviation (input) MEM_LARGE :: u32 where "MEM_LARGE \<equiv> 2"

record mem_alloc =
  ma_ptr :: ptr
  ma_kind :: u32
  ma_size :: u32

text \<open>\<open>struct mem_arena\<close>, beside the pages.\<close>

record kheap = pages +
  chunkpool :: ptr
  tzl :: "nat \<Rightarrow> ptr"
  small_next_exponant :: nat
  medium_next_exponant :: nat

definition store :: "ptr \<Rightarrow> u32 \<Rightarrow> kheap \<Rightarrow> kheap" where
  "store a v s = s\<lparr>mem := store32 (mem s) a v\<rparr>"

abbreviation load :: "kheap \<Rightarrow> ptr \<Rightarrow> u32" where
  "load s a \<equiv> load32 (mem s) a"

section \<open>Marks\<close>

definition hash_ptr :: "ptr \<Rightarrow> u32" where
  "hash_ptr p = p * 4294967279"

definition mem_mark_and_get_user_ptr :: "ptr \<Rightarrow> u32 \<Rightarrow> u32 \<Rightarrow> kheap \<Rightarrow> ptr \<times> kheap" where
  "mem_mark_and_get_user_ptr p sz kind s =
     (let magic = (hash_ptr p AND NOT 3) OR kind;
          s1 = store p sz s;
          s2 = store (p + 4) magic s1;
          ptr_tail = p + sz - MARK_USER_OFFSET;
          s3 = store ptr_tail magic s2;
          s4 = store (ptr_tail + 4) sz s3
      in (p + MARK_USER_OFFSET, s4))"

definition mem_mark_check :: "ptr \<Rightarrow> kheap \<Rightarrow> mem_alloc option" where
  "mem_mark_check p s =
     (let ptr_head = p - MARK_USER_OFFSET;
          sz = load s ptr_head;
          magic = load s (ptr_head + 4);
          ptr_tail = ptr_head + sz - MARK_USER_OFFSET
      in if load s ptr_tail \<noteq> magic \<or> load s (ptr_tail + 4) \<noteq> sz then None
         else Some \<lparr>ma_ptr = ptr_head, ma_kind = magic AND 3, ma_size = sz\<rparr>)"

section \<open>Small blocks\<close>

definition mem_realloc_small :: "kheap \<Rightarrow> (kheap, u32) outcome" where
  "mem_realloc_small s =
     (let sz = push_bit (small_next_exponant s) FIRST_ALLOC_SMALL in
      bindK (page_alloc sz s) (\<lambda>p s1.
        let s2 = s1\<lparr>chunkpool := p\<rparr> in
        if chunkpool s2 = NULL then Done 0 s2
        else Done sz (s2\<lparr>small_next_exponant := small_next_exponant s2 + 1\<rparr>)))"

text \<open>The loop that links the chunks of a new pool.\<close>

function chunk_loop :: "ptr \<Rightarrow> nat \<Rightarrow> nat \<Rightarrow> kheap \<Rightarrow> kheap" where
  "chunk_loop chunk offset sz s =
     (if offset < sz then
        (let next_chunk = chunk + CHUNKSIZE
         in chunk_loop next_chunk (offset + 80) sz (store chunk next_chunk s))
      else store chunk NULL s)"
  by pat_completeness auto
termination by (relation "measure (\<lambda>(c, offset, sz, s). sz - offset)") auto

declare chunk_loop.simps [simp del]

definition kalloc_small :: "kheap \<Rightarrow> (kheap, ptr) outcome" where
  "kalloc_small s =
     bindK (if chunkpool s = NULL then
              bindK (mem_realloc_small s) (\<lambda>sz s1.
                if sz = 0 then Done False s1
                else Done True (chunk_loop (chunkpool s1) 80 (unat sz) s1))
            else Done True s)
       (\<lambda>ok s1.
          if \<not> ok then Done NULL s1
          else
            let alloc_chunk = chunkpool s1;
                new_head_chunk = load s1 alloc_chunk;
                s2 = s1\<lparr>chunkpool := new_head_chunk\<rparr>;
                (p, s3) = mem_mark_and_get_user_ptr alloc_chunk CHUNKSIZE MEM_SMALL s2
            in Done p s3)"

definition kfree_small :: "mem_alloc \<Rightarrow> kheap \<Rightarrow> kheap" where
  "kfree_small a s =
     (let next_chunk = chunkpool s;
          s1 = s\<lparr>chunkpool := ma_ptr a\<rparr>
      in store (chunkpool s1) next_chunk s1)"

section \<open>Medium blocks\<close>

text \<open>The loop of \<open>power2\<close>: the number of bits.\<close>

function bits_loop :: "nat \<Rightarrow> nat \<Rightarrow> nat" where
  "bits_loop sz p = (if sz \<noteq> 0 then bits_loop (sz div 2) (p + 1) else p)"
  by pat_completeness auto
termination by (relation "measure fst") auto

declare bits_loop.simps [simp del]

text \<open>The comparison behind the loop sees \<open>size = 0\<close>, so it never holds.\<close>

definition power2 :: "u32 \<Rightarrow> nat" where
  "power2 sz = bits_loop (unat (sz - 1)) 0"

definition mem_realloc_medium :: "kheap \<Rightarrow> (kheap, u32) outcome" where
  "mem_realloc_medium s =
     (let exp = FIRST_ALLOC_MEDIUM_EXPOSANT + medium_next_exponant s;
          sz = push_bit (medium_next_exponant s) FIRST_ALLOC_MEDIUM in
      bindK (page_alloc (sz * 2) s) (\<lambda>p s1.
        let s2 = s1\<lparr>tzl := (tzl s1)(exp := p)\<rparr> in
        if tzl s2 exp = NULL then Done 0 s2
        else
          let s3 = s2\<lparr>tzl := (tzl s2)(exp := tzl s2 exp + (sz - tzl s2 exp mod sz))\<rparr>
          in Done sz (s3\<lparr>medium_next_exponant := medium_next_exponant s3 + 1\<rparr>)))"

function alloc_tzl_chunk :: "nat \<Rightarrow> kheap \<Rightarrow> (kheap, bool) outcome" where
  "alloc_tzl_chunk index s =
     (if tzl s index \<noteq> NULL then Done True s
      else if index \<ge> FIRST_ALLOC_MEDIUM_EXPOSANT + medium_next_exponant s then
        bindK (mem_realloc_medium (s\<lparr>medium_next_exponant := index - FIRST_ALLOC_MEDIUM_EXPOSANT\<rparr>))
          (\<lambda>sz s1. if sz = 0 then Done False s1 else Done True (store (tzl s1 index) NULL s1))
      else
        bindK (alloc_tzl_chunk (index + 1) s) (\<lambda>ok s1.
          if \<not> ok then Done False s1
          else
            let sz = push_bit index 1;
                chunk0 = tzl s1 (index + 1);
                chunk1 = chunk0 + sz;
                s2 = s1\<lparr>tzl := (tzl s1)(index + 1 := load s1 chunk0)\<rparr>;
                chunk_next = tzl s2 index;
                s3 = store chunk0 chunk1 s2;
                s4 = store chunk1 chunk_next s3
            in Done True (s4\<lparr>tzl := (tzl s4)(index := chunk0)\<rparr>)))"
  by pat_completeness auto
termination
  by (relation "measure (\<lambda>(index, s). FIRST_ALLOC_MEDIUM_EXPOSANT + medium_next_exponant s - index)") auto

declare alloc_tzl_chunk.simps [simp del]

definition kalloc_medium :: "u32 \<Rightarrow> kheap \<Rightarrow> (kheap, ptr) outcome" where
  "kalloc_medium sz s =
     (let size_marked = sz + MARK_SIZE;
          index = power2 size_marked in
      bindK (alloc_tzl_chunk index s) (\<lambda>ok s1.
        if \<not> ok then Done NULL s1
        else
          let alloc_chunk = tzl s1 index;
              chunk_next = load s1 alloc_chunk;
              s2 = s1\<lparr>tzl := (tzl s1)(index := chunk_next)\<rparr>;
              (p, s3) = mem_mark_and_get_user_ptr alloc_chunk size_marked MEM_MEDIUM s2
          in Done p s3))"

text \<open>
  The pointer \<open>chunk_it\<close> of \<open>free_tzl_chunk\<close> points to the head of a list (\<open>None\<close>) or to the
  first word of a chunk.
\<close>

definition chunk_at :: "nat \<Rightarrow> ptr option \<Rightarrow> kheap \<Rightarrow> ptr" where
  "chunk_at index it s = (case it of None \<Rightarrow> tzl s index | Some c \<Rightarrow> load s c)"

definition set_chunk_at :: "nat \<Rightarrow> ptr option \<Rightarrow> ptr \<Rightarrow> kheap \<Rightarrow> kheap" where
  "set_chunk_at index it v s =
     (case it of None \<Rightarrow> s\<lparr>tzl := (tzl s)(index := v)\<rparr> | Some c \<Rightarrow> store c v s)"

text \<open>The search for the buddy: whether it is in the list, and the pointer to it.\<close>

partial_function (option) buddy_loop ::
    "ptr \<Rightarrow> nat \<Rightarrow> ptr option \<Rightarrow> kheap \<Rightarrow> (bool \<times> ptr option) option" where
  "buddy_loop buddy_chunk index chunk_it s =
     (if chunk_at index chunk_it s \<noteq> NULL then
        (if chunk_at index chunk_it s = buddy_chunk then Some (True, chunk_it)
         else buddy_loop buddy_chunk index (Some (chunk_at index chunk_it s)) s)
      else Some (False, chunk_it))"

partial_function (option) free_tzl_chunk :: "ptr \<Rightarrow> u32 \<Rightarrow> nat \<Rightarrow> kheap \<Rightarrow> kheap option" where
  "free_tzl_chunk self_chunk sz index s =
     (let buddy_chunk = self_chunk XOR sz in
      case buddy_loop buddy_chunk index None s of
        None \<Rightarrow> None
      | Some (found, chunk_it) \<Rightarrow>
          if found then
            (let s1 = set_chunk_at index chunk_it (load s buddy_chunk) s
             in if buddy_chunk < self_chunk
                then free_tzl_chunk buddy_chunk (push_bit 1 sz) (index + 1) s1
                else free_tzl_chunk self_chunk (push_bit 1 sz) (index + 1) s1)
          else
            (let chunk_next = tzl s index;
                 s1 = store self_chunk chunk_next s
             in Some (s1\<lparr>tzl := (tzl s1)(index := self_chunk)\<rparr>)))"

definition kfree_medium :: "mem_alloc \<Rightarrow> kheap \<Rightarrow> (kheap, unit) outcome" where
  "kfree_medium a s =
     (let index = power2 (ma_size a)
      in or_hang (map_option (Done ()) (free_tzl_chunk (ma_ptr a) (push_bit index 1) index s)))"

section \<open>Large blocks\<close>

definition kalloc_large :: "u32 \<Rightarrow> kheap \<Rightarrow> (kheap, ptr) outcome" where
  "kalloc_large sz s =
     (let size_marked = sz + MARK_SIZE in
      bindK (page_alloc size_marked s) (\<lambda>p s1.
        if p = NULL then Done NULL s1
        else case mem_mark_and_get_user_ptr p size_marked MEM_LARGE s1 of (q, s2) \<Rightarrow> Done q s2))"

definition kfree_large :: "mem_alloc \<Rightarrow> kheap \<Rightarrow> (kheap, unit) outcome" where
  "kfree_large a s = page_free (ma_ptr a) (ma_size a) s"

section \<open>The entry points\<close>

definition kalloc :: "u32 \<Rightarrow> kheap \<Rightarrow> (kheap, ptr) outcome" where
  "kalloc sz s =
     (if sz = 0 then Done NULL s
      else if sz \<ge> LARGEALLOC then kalloc_large sz s
      else if sz \<le> SMALLALLOC then kalloc_small s
      else kalloc_medium sz s)"

definition kfree :: "ptr \<Rightarrow> kheap \<Rightarrow> (kheap, unit) outcome" where
  "kfree p s = (case mem_mark_check p s of
     None \<Rightarrow> Done () s
   | Some a \<Rightarrow>
       if ma_kind a = MEM_SMALL then Done () (kfree_small a s)
       else if ma_kind a = MEM_MEDIUM then kfree_medium a s
       else if ma_kind a = MEM_LARGE then kfree_large a s
       else Done () s)"

end
