(* ===== verification/Heap_Ownership.thy ===== *)
theory Heap_Ownership
  imports Kernel_Heap
begin

text \<open>
  Who owns the bytes of the kernel heap. A \<open>ghost\<close> state lists the free chunks of every size, the
  live blocks, and the regions that an operation has in its hands (\<open>raw\<close>). \<open>heap_ok s g\<close> says that the
  lists of the allocator are those of \<open>g\<close> and that no two owned regions overlap. The lemmas are the
  moves of the allocator: take a run of pages, split and join raw regions, push and pop chunks, mark
  and unmark blocks. Each keeps \<open>heap_ok\<close> and tells which memory it writes.
\<close>

section \<open>Regions\<close>

definition span :: "ptr \<Rightarrow> nat \<Rightarrow> nat set" where
  "span a n = {unat a ..< unat a + n}"

definition room :: "mem_alloc \<Rightarrow> nat" where
  "room b = (if ma_kind b = MEM_SMALL then 80
     else if ma_kind b = MEM_MEDIUM then 2 ^ power2 (ma_size b)
     else page_count_padded (ma_size b) * PAGE_SIZE)"

datatype item = Small_Item ptr | Medium_Item nat ptr | Live_Item mem_alloc | Raw_Item ptr nat

fun place :: "item \<Rightarrow> nat set" where
  "place (Small_Item a) = span a 80"
| "place (Medium_Item k a) = span a (2 ^ k)"
| "place (Live_Item b) = span (ma_ptr b) (room b)"
| "place (Raw_Item a n) = span a n"

text \<open>The bytes of the pages that are marked used, the bitmap left out.\<close>

definition owned :: "'a pages_scheme \<Rightarrow> nat set" where
  "owned s = (\<Union>i \<in> {i. meta_page_count s \<le> i \<and> i < page_count s \<and> used s i}.
     {unat (mem_heap s) + i * PAGE_SIZE ..< unat (mem_heap s) + (i + 1) * PAGE_SIZE})"

definition page_run :: "'a pages_scheme \<Rightarrow> ptr \<Rightarrow> nat \<Rightarrow> bool" where
  "page_run s p c \<longleftrightarrow> (\<exists>i. p = page_addr s i \<and> meta_page_count s \<le> i \<and> i + c \<le> page_count s)"

fun sound :: "kheap \<Rightarrow> item \<Rightarrow> bool" where
  "sound s (Small_Item a) \<longleftrightarrow> True"
| "sound s (Medium_Item k a) \<longleftrightarrow> 7 \<le> k \<and> 2 ^ k dvd unat a"
| "sound s (Live_Item b) \<longleftrightarrow> mem_mark_check (ma_ptr b + 8) s = Some b
     \<and> 16 \<le> unat (ma_size b) \<and> unat (ma_size b) \<le> room b
     \<and> (ma_kind b = MEM_SMALL \<or> ma_kind b = MEM_MEDIUM \<or> ma_kind b = MEM_LARGE)
     \<and> (ma_kind b = MEM_MEDIUM \<longrightarrow> 7 \<le> power2 (ma_size b) \<and> 2 ^ power2 (ma_size b) dvd unat (ma_ptr b))
     \<and> (ma_kind b = MEM_LARGE \<longrightarrow> page_run s (ma_ptr b) (page_count_padded (ma_size b)))"
| "sound s (Raw_Item a n) \<longleftrightarrow> 0 < n"

record ghost =
  small :: "ptr list"
  medium :: "nat \<Rightarrow> ptr list"
  live :: "mem_alloc set"
  raw :: "(ptr \<times> nat) set"

definition items :: "ghost \<Rightarrow> item set" where
  "items g = Small_Item ` set (small g) \<union> (\<Union>k. Medium_Item k ` set (medium g k))
     \<union> Live_Item ` live g \<union> (\<lambda>(a, n). Raw_Item a n) ` raw g"

text \<open>
  The two exponents stay small: a pool or region that does not fit in the pages is never obtained.
\<close>

definition heap_ok :: "kheap \<Rightarrow> ghost \<Rightarrow> bool" where
  "heap_ok s g \<longleftrightarrow> pages_ok s \<and> page_count s \<le> 2 ^ 18
     \<and> small_next_exponant s \<le> 17 \<and> medium_next_exponant s \<le> 13
     \<and> slist (load s) (chunkpool s) (small g) \<and> (\<forall>k. slist (load s) (tzl s k) (medium g k))
     \<and> pairwise (\<lambda>x y. disjnt (place x) (place y)) (items g)
     \<and> (\<forall>x \<in> items g. place x \<subseteq> owned s \<and> sound s x)"

lemma items_simps [simp]:
  "Small_Item a \<in> items g \<longleftrightarrow> a \<in> set (small g)"
  "Medium_Item k a \<in> items g \<longleftrightarrow> a \<in> set (medium g k)"
  "Live_Item b \<in> items g \<longleftrightarrow> b \<in> live g"
  "Raw_Item a n \<in> items g \<longleftrightarrow> (a, n) \<in> raw g"
  by (auto simp: items_def)

lemma heap_okD:
  assumes "heap_ok s g"
  shows "pages_ok s" "slist (load s) (chunkpool s) (small g)" "slist (load s) (tzl s k) (medium g k)"
    "x \<in> items g \<Longrightarrow> y \<in> items g \<Longrightarrow> x \<noteq> y \<Longrightarrow> disjnt (place x) (place y)"
    "x \<in> items g \<Longrightarrow> place x \<subseteq> owned s" "x \<in> items g \<Longrightarrow> sound s x"
    "page_count s \<le> 2 ^ 18" "small_next_exponant s \<le> 17" "medium_next_exponant s \<le> 13"
  using assms by (auto simp: heap_ok_def pairwise_def)

section \<open>Bytes and words\<close>

lemma span_mono: "m \<le> n \<Longrightarrow> span a m \<subseteq> span a n"
  by (auto simp: span_def)

lemma span_offset:
  assumes "unat a + n \<le> 2 ^ 32" "unat d + m \<le> n" "0 < m"
  shows "span (a + d) m \<subseteq> span a n" "unat (a + d) = unat a + unat d"
proof -
  have "unat a + unat d < 2 ^ 32" using assms by simp
  then show "unat (a + d) = unat a + unat d" by (simp add: unat_word_ariths(1))
  then show "span (a + d) m \<subseteq> span a n" using assms by (auto simp: span_def)
qed

text \<open>Owned bytes lie behind the bitmap and below \<open>2 ^ 32\<close>.\<close>

lemma owned_bounds:
  assumes "pages_ok s" "x \<in> owned s"
  shows "unat (mem_heap s) + meta_page_count s * PAGE_SIZE \<le> x" "x < 2 ^ 32" "0 < x"
proof -
  from assms(2) obtain i where i: "meta_page_count s \<le> i" "i < page_count s"
    "unat (mem_heap s) + i * PAGE_SIZE \<le> x" "x < unat (mem_heap s) + (i + 1) * PAGE_SIZE"
    by (auto simp: owned_def)
  have "meta_page_count s * PAGE_SIZE \<le> i * PAGE_SIZE" using i(1) by (rule mult_le_mono1)
  with i(3) show 1: "unat (mem_heap s) + meta_page_count s * PAGE_SIZE \<le> x" by linarith
  have "(i + 1) * PAGE_SIZE \<le> page_count s * PAGE_SIZE" using i(2) by (intro mult_le_mono1) simp
  with i(4) assms(1) show "x < 2 ^ 32" by (auto simp: pages_ok_def)
  have "0 < unat (mem_heap s)" using assms(1) by (simp add: pages_ok_def unat_gt_0)
  with 1 show "0 < x" by linarith
qed

lemma owned_span:
  assumes "pages_ok s" "span a n \<subseteq> owned s" "0 < n"
  shows "unat a + n \<le> 2 ^ 32" "a \<noteq> NULL" "unat (mem_heap s) + meta_page_count s * PAGE_SIZE \<le> unat a"
proof -
  have l: "unat a + n - 1 \<in> owned s" "unat a \<in> owned s" using assms(2,3) by (auto simp: span_def)
  from owned_bounds(2) [OF assms(1) l(1)] assms(3) show "unat a + n \<le> 2 ^ 32" by linarith
  from owned_bounds(3) [OF assms(1) l(2)] show "a \<noteq> NULL" by auto
  from owned_bounds(1) [OF assms(1) l(2)]
  show "unat (mem_heap s) + meta_page_count s * PAGE_SIZE \<le> unat a" .
qed

lemma store_other:
  assumes "unat a + 4 \<le> 2 ^ 32" "unat x \<notin> span a 4"
  shows "mem (store a v s) x = mem s x"
proof -
  have "unat (a + 1) = unat a + 1" "unat (a + 2) = unat a + 2" "unat (a + 3) = unat a + 3"
    using assms(1) by (simp_all add: unat_word_ariths(1))
  then have "x \<notin> {a, a + 1, a + 2, a + 3}" using assms(2) by (auto simp: span_def)
  then show ?thesis by (simp add: store_def store32_other)
qed

lemma load_cong:
  assumes "unat a + 4 \<le> 2 ^ 32" "\<And>x. unat x \<in> span a 4 \<Longrightarrow> mem s' x = mem s x"
  shows "load s' a = load s a"
proof -
  have "unat (a + 1) = unat a + 1" "unat (a + 2) = unat a + 2" "unat (a + 3) = unat a + 3"
    using assms(1) by (simp_all add: unat_word_ariths(1))
  then have "mem s' a = mem s a" "mem s' (a + 1) = mem s (a + 1)" "mem s' (a + 2) = mem s (a + 2)"
    "mem s' (a + 3) = mem s (a + 3)"
    by (auto intro!: assms(2) simp: span_def)
  then show ?thesis by (simp add: load32_def)
qed

lemma load_store_same [simp]: "load (store a v s) a = v"
  by (simp add: store_def)

lemma load_store_other:
  "unat a + 4 \<le> 2 ^ 32 \<Longrightarrow> unat b + 4 \<le> 2 ^ 32 \<Longrightarrow> disjnt (span a 4) (span b 4)
     \<Longrightarrow> load (store a v s) b = load s b"
  by (rule load_cong) (auto intro!: store_other simp: disjnt_def)

lemma store_frame [simp, frame]:
  "mem_heap (store a v s) = mem_heap s" "page_count (store a v s) = page_count s"
  "meta_page_count (store a v s) = meta_page_count s" "alloc_count (store a v s) = alloc_count s"
  "chunkpool (store a v s) = chunkpool s" "tzl (store a v s) = tzl s"
  "small_next_exponant (store a v s) = small_next_exponant s"
  "medium_next_exponant (store a v s) = medium_next_exponant s"
  by (simp_all add: store_def)

section \<open>What depends on memory\<close>

text \<open>
  \<open>same_on X s s'\<close>: the two states have the same pages and exponents, and the same memory at the
  bitmap and at \<open>X\<close>.
\<close>

definition same_on :: "nat set \<Rightarrow> kheap \<Rightarrow> kheap \<Rightarrow> bool" where
  "same_on X s s' \<longleftrightarrow> mem_heap s' = mem_heap s \<and> page_count s' = page_count s
     \<and> meta_page_count s' = meta_page_count s
     \<and> small_next_exponant s' = small_next_exponant s \<and> medium_next_exponant s' = medium_next_exponant s
     \<and> (\<forall>x. x \<in> bitmap s \<or> unat x \<in> X \<longrightarrow> mem s' x = mem s x)"

lemma bitmap_unat:
  assumes "pages_ok s" "x \<in> bitmap s"
  shows "unat x < unat (mem_heap s) + meta_page_count s * PAGE_SIZE"
proof -
  have m: "unat (mem_heap s) + meta_page_count s * PAGE_SIZE \<le> 2 ^ 32"
  proof -
    have "meta_page_count s * PAGE_SIZE \<le> page_count s * PAGE_SIZE"
      using assms(1) by (intro mult_le_mono1) (simp add: pages_ok_def)
    with assms(1) show ?thesis by (auto simp: pages_ok_def)
  qed
  define d where "d = x - mem_heap s"
  have "unat d < meta_page_count s * PAGE_SIZE" using assms(2) by (simp add: bitmap_def d_def)
  with m have "unat (mem_heap s) + unat d < 2 ^ 32" by linarith
  then have "unat (mem_heap s + d) = unat (mem_heap s) + unat d" by (simp add: unat_word_ariths(1))
  with \<open>unat d < _\<close> show ?thesis by (simp add: d_def)
qed

lemma owned_not_bitmap: "pages_ok s \<Longrightarrow> unat x \<in> owned s \<Longrightarrow> x \<notin> bitmap s"
  using bitmap_unat [of s x] owned_bounds(1) [of s "unat x"] by fastforce

lemma pages_ok_same:
  assumes "pages_ok s" "same_on X s s'"
  shows "pages_ok s'" "owned s' = owned s" "i < page_count s \<Longrightarrow> used s' i = used s i"
    "page_run s' = page_run s"
proof -
  have b: "\<forall>x \<in> bitmap s. mem s' x = mem s x" and e: "mem_heap s' = mem_heap s"
    "page_count s' = page_count s" "meta_page_count s' = meta_page_count s"
    using assms(2) by (auto simp: same_on_def)
  have u: "used s' i = used s i" if "i < page_count s" for i
    using b bitmap_slot [OF assms(1) that] e by (simp add: used_def)
  then show "i < page_count s \<Longrightarrow> used s' i = used s i" .
  show "pages_ok s'" using assms(1) u e by (auto simp: pages_ok_def)
  show "owned s' = owned s" using u e by (auto simp: owned_def)
  show "page_run s' = page_run s" using e by (auto simp: page_run_def page_addr_def fun_eq_iff)
qed

lemma store_same_on:
  assumes "pages_ok s" "span a 4 \<subseteq> owned s" "span a 4 \<inter> X = {}"
  shows "same_on X s (store a v s)"
proof -
  have w: "unat a + 4 \<le> 2 ^ 32" using owned_span(1) [OF assms(1,2)] by simp
  have "mem (store a v s) x = mem s x" if "x \<in> bitmap s \<or> unat x \<in> X" for x
  proof (rule store_other [OF w])
    show "unat x \<notin> span a 4" using that assms owned_not_bitmap [OF assms(1), of x] by auto
  qed
  then show ?thesis by (simp add: same_on_def)
qed

text \<open>The bytes of a region that the allocator itself reads.\<close>

fun vital :: "item \<Rightarrow> nat set" where
  "vital (Small_Item a) = span a 4"
| "vital (Medium_Item k a) = span a 4"
| "vital (Live_Item b) = span (ma_ptr b) 8 \<union> span (ma_ptr b + ma_size b - 8) 8"
| "vital (Raw_Item a n) = {}"

lemma unat_tail:
  fixes a z :: u32
  assumes "unat a + n \<le> 2 ^ 32" "16 \<le> unat z" "unat z \<le> n"
  shows "unat (a + z - 8) = unat a + unat z - 8" "unat (a + z - 8 + 4) = unat a + unat z - 4"
    "unat (a + 4) = unat a + 4"
proof -
  have z: "unat (z - 8) = unat z - 8" using assms(2) by (subst unat_sub) (simp_all add: word_le_nat_alt)
  have lt: "unat a + unat (z - 8) < 2 ^ 32" using assms z by linarith
  have "a + z - 8 = a + (z - 8)" by simp
  also have u: "unat \<dots> = unat a + unat (z - 8)" using lt by (simp add: unat_word_ariths(1))
  finally show t: "unat (a + z - 8) = unat a + unat z - 8" using z assms(2) by simp
  have "unat (w + 4) = unat w + 4" if "unat w + 4 < 2 ^ 32" for w :: u32
    using that by (simp add: unat_word_ariths(1))
  from this [of "a + z - 8"] t assms show "unat (a + z - 8 + 4) = unat a + unat z - 4" by simp
  have "unat a + 4 < 2 ^ 32" using assms by linarith
  then show "unat (a + 4) = unat a + 4" by (simp add: unat_word_ariths(1))
qed

lemma mark_check_cong:
  assumes "unat a + n \<le> 2 ^ 32" "16 \<le> unat (ma_size b)" "unat (ma_size b) \<le> n" "ma_ptr b = a"
    and c: "mem_mark_check (a + 8) s = Some b"
    and same: "\<And>x. unat x \<in> vital (Live_Item b) \<Longrightarrow> mem s' x = mem s x"
  shows "mem_mark_check (a + 8) s' = Some b"
proof -
  let ?t = "a + ma_size b - 8"
  note t = unat_tail [OF assms(1-3)]
  have sz: "load s a = ma_size b"
    using c by (auto simp: mem_mark_check_def Let_def split: if_splits)
  have v: "vital (Live_Item b) = span a 8 \<union> span ?t 8" by (simp add: assms(4))
  have ld: "load s' x = load s x" if "unat x + 4 \<le> 2 ^ 32" "span x 4 \<subseteq> vital (Live_Item b)" for x
    using that by (intro load_cong same) auto
  have l: "load s' a = load s a" "load s' (a + 4) = load s (a + 4)"
    "load s' ?t = load s ?t" "load s' (?t + 4) = load s (?t + 4)"
  proof -
    have "span a 4 \<subseteq> span a 8" "span (a + 4) 4 \<subseteq> span a 8" using t(3) by (auto simp: span_def)
    moreover have "span ?t 4 \<subseteq> span ?t 8" "span (?t + 4) 4 \<subseteq> span ?t 8"
      using t(1,2) assms(2) by (auto simp: span_def)
    ultimately have sub: "span a 4 \<subseteq> vital (Live_Item b)" "span (a + 4) 4 \<subseteq> vital (Live_Item b)"
      "span ?t 4 \<subseteq> vital (Live_Item b)" "span (?t + 4) 4 \<subseteq> vital (Live_Item b)"
      unfolding v by blast+
    show "load s' a = load s a" by (rule ld [OF _ sub(1)]) (use assms in linarith)
    show "load s' (a + 4) = load s (a + 4)" by (rule ld [OF _ sub(2)]) (use assms t in linarith)
    show "load s' ?t = load s ?t" by (rule ld [OF _ sub(3)]) (use assms t in linarith)
    show "load s' (?t + 4) = load s (?t + 4)" by (rule ld [OF _ sub(4)]) (use assms t in linarith)
  qed
  have "mem_mark_check (a + 8) s' = mem_mark_check (a + 8) s"
    using l unfolding sz [symmetric] by (simp add: mem_mark_check_def Let_def)
  with c show ?thesis by simp
qed

lemma vital_place: "sound s x \<Longrightarrow> place x \<subseteq> owned s \<Longrightarrow> pages_ok s \<Longrightarrow> vital x \<subseteq> place x"
proof (cases x)
  case (Medium_Item k a)
  moreover assume "sound s x"
  ultimately have "(2::nat) ^ 2 \<le> 2 ^ k" by (intro power_increasing) auto
  then show ?thesis using Medium_Item by (simp add: span_mono)
next
  case (Live_Item b)
  assume a: "sound s x" "place x \<subseteq> owned s" "pages_ok s"
  then have r: "16 \<le> unat (ma_size b)" "unat (ma_size b) \<le> room b" by (auto simp: Live_Item)
  have w: "unat (ma_ptr b) + room b \<le> 2 ^ 32"
    using owned_span(1) [OF a(3), of "ma_ptr b" "room b"] a(2) r by (simp add: Live_Item)
  from unat_tail(1) [OF w r] r show ?thesis by (auto simp: Live_Item span_def)
qed (auto simp: span_mono)

lemma sound_same:
  assumes ok: "pages_ok s" and so: "sound s x" "place x \<subseteq> owned s" and same: "same_on (vital x) s s'"
  shows "sound s' x"
proof (cases x)
  case (Live_Item b)
  have r: "16 \<le> unat (ma_size b)" "unat (ma_size b) \<le> room b" "mem_mark_check (ma_ptr b + 8) s = Some b"
    using so(1) by (auto simp: Live_Item)
  have w: "unat (ma_ptr b) + room b \<le> 2 ^ 32"
    using owned_span(1) [OF ok, of "ma_ptr b" "room b"] so(2) r by (simp add: Live_Item)
  have "mem_mark_check (ma_ptr b + 8) s' = Some b"
    by (rule mark_check_cong [OF w r(1,2) refl r(3)])
       (use same in \<open>auto simp: same_on_def Live_Item\<close>)
  moreover have "page_run s' = page_run s" by (rule pages_ok_same(4) [OF ok same])
  ultimately show ?thesis using so(1) by (simp add: Live_Item)
qed (use so in auto)

lemma same_on_mono: "same_on X s s' \<Longrightarrow> Y \<subseteq> X \<Longrightarrow> same_on Y s s'"
  by (auto simp: same_on_def)

lemma same_on_refl [simp]: "same_on X s s"
  by (simp add: same_on_def)

lemma same_on_pools [simp]:
  "same_on X s (s'\<lparr>chunkpool := c\<rparr>) \<longleftrightarrow> same_on X s s'" "same_on X s (s'\<lparr>tzl := t\<rparr>) \<longleftrightarrow> same_on X s s'"
  by (simp_all add: same_on_def)

lemma load_pools [simp]:
  "load (s\<lparr>chunkpool := c\<rparr>) = load s" "load (s\<lparr>tzl := t\<rparr>) = load s"
  by simp_all

lemma same_on_trans:
  assumes "same_on X s s'" "same_on X s' s''" "pages_ok s"
  shows "same_on X s s''"
proof -
  have "bitmap s' = bitmap s" using assms(1) by (simp add: same_on_def bitmap_def)
  with assms(1,2) show ?thesis by (auto simp: same_on_def)
qed

text \<open>Links through memory that does not change.\<close>

lemma slist_same:
  assumes "pages_ok s" "same_on X s s'" "\<And>a. a \<in> set xs \<Longrightarrow> span a 4 \<subseteq> X \<and> span a 4 \<subseteq> owned s"
  shows "slist (load s') h xs \<longleftrightarrow> slist (load s) h xs"
proof (rule slist_cong)
  fix a assume a: "a \<in> set xs"
  with assms(3) have "unat a + 4 \<le> 2 ^ 32" using owned_span(1) [OF assms(1), of a 4] by simp
  then show "load s' a = load s a"
    using assms(2,3) a by (intro load_cong) (auto simp: same_on_def)
qed

section \<open>Moves\<close>

text \<open>
  The regions \<open>X\<close> are exchanged for the regions \<open>Y\<close>, which lie inside them; what the allocator
  reads of the other regions does not change.
\<close>

lemma heap_ok_move:
  assumes ok: "heap_ok s g"
    and same: "same_on (\<Union>x \<in> items g - X. vital x) s s'"
    and lists: "slist (load s') (chunkpool s') (small g')" "\<And>k. slist (load s') (tzl s' k) (medium g' k)"
    and its: "items g' \<subseteq> items g - X \<union> Y" and X: "X \<subseteq> items g"
    and Y: "pairwise (\<lambda>x y. disjnt (place x) (place y)) Y" "\<And>y. y \<in> Y \<Longrightarrow> place y \<subseteq> (\<Union>x \<in> X. place x)"
    "\<And>y. y \<in> Y \<Longrightarrow> sound s' y"
  shows "heap_ok s' g'"
proof -
  note d = heap_okD [OF ok]
  note p = pages_ok_same [OF d(1) same]
  have dis: "disjnt (place x) (place y)" if h: "x \<in> items g'" "y \<in> items g'" "x \<noteq> y" for x y
  proof -
    have out: "disjnt (place x) (place y)" if "x \<in> items g - X" "y \<in> Y" for x y
      using that X Y(2) [OF that(2)] d(4) [of x] by (fastforce simp: disjnt_def)
    consider "x \<in> items g - X" "y \<in> items g - X" | "x \<in> items g - X" "y \<in> Y"
      | "x \<in> Y" "y \<in> items g - X" | "x \<in> Y" "y \<in> Y" using h its by auto
    then show ?thesis
    proof cases
      case 1 with d(4) h(3) show ?thesis by auto
    next
      case 2 with out show ?thesis by auto
    next
      case 3 with out show ?thesis by (auto simp: disjnt_sym)
    next
      case 4 with Y(1) h(3) show ?thesis by (auto simp: pairwise_def)
    qed
  qed
  have each: "place x \<subseteq> owned s' \<and> sound s' x" if "x \<in> items g'" for x
  proof (cases "x \<in> items g - X")
    case True
    with d(5,6) have "place x \<subseteq> owned s" "sound s x" by auto
    moreover have "same_on (vital x) s s'" by (rule same_on_mono [OF same]) (use True in auto)
    ultimately show ?thesis using sound_same [OF d(1)] p(2) by auto
  next
    case False
    with that its have y: "x \<in> Y" by auto
    have "(\<Union>x \<in> X. place x) \<subseteq> owned s" using X d(5) by blast
    with Y(2) [OF y] Y(3) [OF y] p(2) show ?thesis by auto
  qed
  show ?thesis
    unfolding heap_ok_def
    using p(1) lists dis each d(7-9) same by (auto simp: pairwise_def same_on_def)
qed

text \<open>Any region may be forgotten.\<close>

lemma heap_ok_forget: "heap_ok s g \<Longrightarrow> raw g' \<subseteq> raw g \<Longrightarrow> small g' = small g \<Longrightarrow> medium g' = medium g
    \<Longrightarrow> live g' = live g \<Longrightarrow> heap_ok s g'"
  by (rule heap_ok_move [where X = "{}" and Y = "{}" and s = s and g = g])
     (auto simp: heap_ok_def items_def)

text \<open>The memory of the live blocks stays as it is.\<close>

definition live_bytes :: "mem_alloc set \<Rightarrow> nat set" where
  "live_bytes B = (\<Union>b \<in> B. span (ma_ptr b) (room b))"

definition keeps :: "mem_alloc set \<Rightarrow> kheap \<Rightarrow> kheap \<Rightarrow> bool" where
  "keeps B s s' \<longleftrightarrow> (\<forall>x. unat x \<in> live_bytes B \<longrightarrow> mem s' x = mem s x)"

lemma keeps_refl [simp]: "keeps B s s"
  by (simp add: keeps_def)

lemma keeps_trans: "keeps B s s' \<Longrightarrow> keeps B s' s'' \<Longrightarrow> keeps B s s''"
  by (simp add: keeps_def)

lemma keeps_mono: "keeps B s s' \<Longrightarrow> C \<subseteq> B \<Longrightarrow> keeps C s s'"
  by (fastforce simp: keeps_def live_bytes_def)

lemma keeps_pools [simp]:
  "keeps B s (s'\<lparr>chunkpool := c\<rparr>) \<longleftrightarrow> keeps B s s'" "keeps B s (s'\<lparr>tzl := t\<rparr>) \<longleftrightarrow> keeps B s s'"
  by (simp_all add: keeps_def)

lemma raw_facts:
  assumes "heap_ok s g" "(a, n) \<in> raw g"
  shows "span a n \<subseteq> owned s" "0 < n" "unat a + n \<le> 2 ^ 32" "a \<noteq> NULL"
    "x \<in> items g \<Longrightarrow> x \<noteq> Raw_Item a n \<Longrightarrow> disjnt (place x) (span a n)"
    "(b, m) \<in> raw g \<Longrightarrow> (b, m) \<noteq> (a, n) \<Longrightarrow> disjnt (span b m) (span a n)"
proof -
  have r: "Raw_Item a n \<in> items g" using assms(2) by simp
  show sp: "span a n \<subseteq> owned s" using heap_okD(5) [OF assms(1) r] by simp
  show n: "0 < n" using heap_okD(6) [OF assms(1) r] by simp
  show "unat a + n \<le> 2 ^ 32" "a \<noteq> NULL" using owned_span [OF heap_okD(1) [OF assms(1)] sp n] by auto
  show d: "x \<in> items g \<Longrightarrow> x \<noteq> Raw_Item a n \<Longrightarrow> disjnt (place x) (span a n)" for x
    using heap_okD(4) [OF assms(1) _ r] by simp
  show "(b, m) \<in> raw g \<Longrightarrow> (b, m) \<noteq> (a, n) \<Longrightarrow> disjnt (span b m) (span a n)"
    using d [of "Raw_Item b m"] by simp
qed

lemma vital_items: "heap_ok s g \<Longrightarrow> x \<in> items g \<Longrightarrow> vital x \<subseteq> place x"
  using heap_okD(1,5,6) vital_place by blast

lemma small_facts:
  assumes "heap_ok s g" "a \<in> set (small g)"
  shows "span a 80 \<subseteq> owned s" "unat a + 80 \<le> 2 ^ 32" "a \<noteq> NULL"
  using heap_okD(5) [OF assms(1), of "Small_Item a"] assms(2) owned_span [OF heap_okD(1) [OF assms(1)], of a 80]
  by auto

lemma medium_facts:
  assumes "heap_ok s g" "a \<in> set (medium g k)"
  shows "span a (2 ^ k) \<subseteq> owned s" "unat a + 2 ^ k \<le> 2 ^ 32" "a \<noteq> NULL" "7 \<le> k" "2 ^ k dvd unat a" "k < 32"
proof -
  have m: "Medium_Item k a \<in> items g" using assms(2) by simp
  show sp: "span a (2 ^ k) \<subseteq> owned s" using heap_okD(5) [OF assms(1) m] by simp
  show a: "unat a + 2 ^ k \<le> 2 ^ 32" "a \<noteq> NULL"
    using owned_span [OF heap_okD(1) [OF assms(1)] sp] by auto
  show "7 \<le> k" "2 ^ k dvd unat a" using heap_okD(6) [OF assms(1) m] by auto
  have "0 < unat a" using a(2) by (simp add: unat_gt_0)
  with a(1) have "(2::nat) ^ k < 2 ^ 32" by linarith
  then show "k < 32" by (rule power_less_imp_less_exp [rotated]) simp
qed

text \<open>Links of the free lists outside \<open>X\<close>.\<close>

lemma lists_same:
  assumes ok: "heap_ok s g" and same: "same_on (\<Union>x \<in> items g - X. vital x) s s'"
  shows "set xs \<subseteq> set (small g) - {a. Small_Item a \<in> X} \<Longrightarrow> slist (load s') h xs \<longleftrightarrow> slist (load s) h xs"
    and "set xs \<subseteq> set (medium g k) - {a. Medium_Item k a \<in> X} \<Longrightarrow> slist (load s') h xs \<longleftrightarrow> slist (load s) h xs"
proof -
  have v: "vital x \<subseteq> (\<Union>x \<in> items g - X. vital x) \<and> vital x \<subseteq> owned s" if "x \<in> items g - X" for x
    using that vital_items [OF ok, of x] heap_okD(5) [OF ok, of x] by blast
  show "slist (load s') h xs \<longleftrightarrow> slist (load s) h xs"
    if h: "set xs \<subseteq> set (small g) - {a. Small_Item a \<in> X}"
  proof (rule slist_same [OF heap_okD(1) [OF ok] same])
    fix a assume "a \<in> set xs"
    with h have "Small_Item a \<in> items g - X" by auto
    from v [OF this] show "span a 4 \<subseteq> (\<Union>x \<in> items g - X. vital x) \<and> span a 4 \<subseteq> owned s" by simp
  qed
  show "slist (load s') h xs \<longleftrightarrow> slist (load s) h xs"
    if h: "set xs \<subseteq> set (medium g k) - {a. Medium_Item k a \<in> X}"
  proof (rule slist_same [OF heap_okD(1) [OF ok] same])
    fix a assume "a \<in> set xs"
    with h have "Medium_Item k a \<in> items g - X" by auto
    from v [OF this] show "span a 4 \<subseteq> (\<Union>x \<in> items g - X. vital x) \<and> span a 4 \<subseteq> owned s" by simp
  qed
qed

text \<open>A write that leaves alone what the allocator reads.\<close>

lemma heap_ok_same:
  assumes ok: "heap_ok s g" and same: "same_on (\<Union>x \<in> items g. vital x) s s'"
    and "chunkpool s' = chunkpool s" "tzl s' = tzl s"
  shows "heap_ok s' g"
proof -
  have same': "same_on (\<Union>x \<in> items g - {}. vital x) s s'" using same by simp
  show ?thesis
  proof (rule heap_ok_move [OF ok same', where Y = "{}"])
    show "slist (load s') (chunkpool s') (small g)"
      using lists_same(1) [OF ok same', of "small g"] heap_okD(2) [OF ok] assms(3) by simp
    show "slist (load s') (tzl s' k) (medium g k)" for k
      using lists_same(2) [OF ok same', of "medium g k" k] heap_okD(3) [OF ok, of k] assms(4) by simp
  qed auto
qed

text \<open>A write into a raw region.\<close>

lemma store_raw:
  assumes ok: "heap_ok s g" and r: "(a, n) \<in> raw g" and sub: "span w 4 \<subseteq> span a n"
  shows "heap_ok (store w v s) g" "keeps (live g) s (store w v s)"
    "(b, m) \<in> raw g \<Longrightarrow> (b, m) \<noteq> (a, n) \<Longrightarrow> span y 4 \<subseteq> span b m \<Longrightarrow> load (store w v s) y = load s y"
proof -
  note f = raw_facts [OF ok r]
  have ow: "span w 4 \<subseteq> owned s" using sub f(1) by blast
  have dis: "span w 4 \<inter> place x = {}" if "x \<in> items g - {Raw_Item a n}" for x
    using f(5) [of x] sub that by (auto simp: disjnt_def)
  have so: "same_on (\<Union>x \<in> items g - {Raw_Item a n}. place x) s (store w v s)"
    by (rule store_same_on [OF heap_okD(1) [OF ok] ow]) (use dis in blast)
  have sv: "same_on (\<Union>x \<in> items g. vital x) s (store w v s)"
  proof (rule same_on_mono [OF so])
    have "vital (Raw_Item a n) = {}" by simp
    then show "(\<Union>x \<in> items g. vital x) \<subseteq> (\<Union>x \<in> items g - {Raw_Item a n}. place x)"
      using vital_items [OF ok] by blast
  qed
  show "heap_ok (store w v s) g" by (rule heap_ok_same [OF ok sv]) simp_all
  have "live_bytes (live g) \<subseteq> (\<Union>x \<in> items g - {Raw_Item a n}. place x)"
  proof
    fix x assume "x \<in> live_bytes (live g)"
    then obtain b where "Live_Item b \<in> items g - {Raw_Item a n}" "x \<in> place (Live_Item b)"
      by (auto simp: live_bytes_def)
    then show "x \<in> (\<Union>x \<in> items g - {Raw_Item a n}. place x)" by blast
  qed
  with so show "keeps (live g) s (store w v s)" unfolding keeps_def same_on_def by blast
  assume b: "(b, m) \<in> raw g" "(b, m) \<noteq> (a, n)" "span y 4 \<subseteq> span b m"
  show "load (store w v s) y = load s y"
  proof (rule load_store_other)
    show "unat w + 4 \<le> 2 ^ 32" using owned_span(1) [OF heap_okD(1) [OF ok] ow] by simp
    have "span y 4 \<subseteq> owned s" using b(3) raw_facts(1) [OF ok b(1)] by blast
    then show "unat y + 4 \<le> 2 ^ 32" using owned_span(1) [OF heap_okD(1) [OF ok]] by simp
    have "disjnt (span b m) (span a n)" by (rule f(6) [OF b(1,2)])
    then show "disjnt (span w 4) (span y 4)" using sub b(3) unfolding disjnt_def by blast
  qed
qed

text \<open>Raw regions are cut and joined.\<close>

lemma raw_exchange:
  assumes ok: "heap_ok s g" and P: "P \<subseteq> raw g"
    and Q: "pairwise (\<lambda>x y. disjnt (span (fst x) (snd x)) (span (fst y) (snd y))) Q"
      "\<And>b m. (b, m) \<in> Q \<Longrightarrow> 0 < m \<and> span b m \<subseteq> (\<Union>(a, n) \<in> P. span a n)"
  shows "heap_ok s (g\<lparr>raw := raw g - P \<union> Q\<rparr>)"
proof (rule heap_ok_move [OF ok, where X = "(\<lambda>(a, n). Raw_Item a n) ` P" and Y = "(\<lambda>(a, n). Raw_Item a n) ` Q"])
  show "items (g\<lparr>raw := raw g - P \<union> Q\<rparr>) \<subseteq> items g - (\<lambda>(a, n). Raw_Item a n) ` P \<union> (\<lambda>(a, n). Raw_Item a n) ` Q"
    by (auto simp: items_def)
  show "(\<lambda>(a, n). Raw_Item a n) ` P \<subseteq> items g" using P by (auto simp: items_def)
  show "pairwise (\<lambda>x y. disjnt (place x) (place y)) ((\<lambda>(a, n). Raw_Item a n) ` Q)"
  proof -
    have d: "disjnt (span a n) (span b m)" if "(a, n) \<in> Q" "(b, m) \<in> Q" "(a, n) \<noteq> (b, m)" for a n b m
      using Q(1) that unfolding pairwise_def by fastforce
    show ?thesis
      unfolding pairwise_def
    proof (intro ballI impI)
      fix x y assume "x \<in> (\<lambda>(a, n). Raw_Item a n) ` Q" "y \<in> (\<lambda>(a, n). Raw_Item a n) ` Q" "x \<noteq> y"
      then obtain a n b m where "(a, n) \<in> Q" "(b, m) \<in> Q" "x = Raw_Item a n" "y = Raw_Item b m"
        "(a, n) \<noteq> (b, m)" by auto
      with d show "disjnt (place x) (place y)" by simp
    qed
  qed
  show "place y \<subseteq> (\<Union>x \<in> (\<lambda>(a, n). Raw_Item a n) ` P. place x)" if "y \<in> (\<lambda>(a, n). Raw_Item a n) ` Q" for y
  proof -
    from that obtain b m where "(b, m) \<in> Q" "y = Raw_Item b m" by auto
    moreover have "(\<Union>x \<in> (\<lambda>(a, n). Raw_Item a n) ` P. place x) = (\<Union>(a, n) \<in> P. span a n)"
      by (simp add: case_prod_unfold)
    ultimately show ?thesis using Q(2) [of b m] by simp
  qed
  show "sound s y" if "y \<in> (\<lambda>(a, n). Raw_Item a n) ` Q" for y using that Q(2) by auto
  show "slist (load s) (tzl s k) (medium (g\<lparr>raw := raw g - P \<union> Q\<rparr>) k)" for k
    using heap_okD(3) [OF ok, of k] by simp
qed (use heap_okD(2) [OF ok] in simp_all)

section \<open>Chunks\<close>

lemma push_small:
  assumes ok: "heap_ok s g" and r: "(a, 80) \<in> raw g" and l: "load s a = chunkpool s"
  shows "heap_ok (s\<lparr>chunkpool := a\<rparr>) (g\<lparr>small := a # small g, raw := raw g - {(a, 80)}\<rparr>)"
proof (rule heap_ok_move [OF ok, where X = "{Raw_Item a 80}" and Y = "{Small_Item a}"])
  show "slist (load (s\<lparr>chunkpool := a\<rparr>)) (chunkpool (s\<lparr>chunkpool := a\<rparr>))
      (small (g\<lparr>small := a # small g, raw := raw g - {(a, 80)}\<rparr>))"
    using raw_facts(4) [OF ok r] heap_okD(2) [OF ok] l by simp
  show "slist (load (s\<lparr>chunkpool := a\<rparr>)) (tzl (s\<lparr>chunkpool := a\<rparr>) k)
      (medium (g\<lparr>small := a # small g, raw := raw g - {(a, 80)}\<rparr>) k)" for k
    using heap_okD(3) [OF ok, of k] by simp
qed (use r in \<open>auto simp: items_def\<close>)

lemma pop_small:
  assumes ok: "heap_ok s g" and c: "small g = a # S"
  shows "chunkpool s = a" "heap_ok (s\<lparr>chunkpool := load s a\<rparr>) (g\<lparr>small := S, raw := insert (a, 80) (raw g)\<rparr>)"
proof -
  have sl: "slist (load s) (chunkpool s) (a # S)" using heap_okD(2) [OF ok] c by simp
  then show "chunkpool s = a" by simp
  have a: "a \<notin> set S" using slist_distinct [OF sl] by simp
  show "heap_ok (s\<lparr>chunkpool := load s a\<rparr>) (g\<lparr>small := S, raw := insert (a, 80) (raw g)\<rparr>)"
  proof (rule heap_ok_move [OF ok, where X = "{Small_Item a}" and Y = "{Raw_Item a 80}"])
    show "slist (load (s\<lparr>chunkpool := load s a\<rparr>)) (chunkpool (s\<lparr>chunkpool := load s a\<rparr>))
        (small (g\<lparr>small := S, raw := insert (a, 80) (raw g)\<rparr>))"
      using sl by simp
    show "slist (load (s\<lparr>chunkpool := load s a\<rparr>)) (tzl (s\<lparr>chunkpool := load s a\<rparr>) k)
        (medium (g\<lparr>small := S, raw := insert (a, 80) (raw g)\<rparr>) k)" for k
      using heap_okD(3) [OF ok, of k] by simp
  qed (use a c in \<open>auto simp: items_def\<close>)
qed

lemma push_medium:
  assumes ok: "heap_ok s g" and r: "(a, 2 ^ k) \<in> raw g" and l: "load s a = tzl s k"
    and k: "7 \<le> k" "2 ^ k dvd unat a"
  shows "heap_ok (s\<lparr>tzl := (tzl s)(k := a)\<rparr>)
    (g\<lparr>medium := (medium g)(k := a # medium g k), raw := raw g - {(a, 2 ^ k)}\<rparr>)"
proof (rule heap_ok_move [OF ok, where X = "{Raw_Item a (2 ^ k)}" and Y = "{Medium_Item k a}"])
  show "slist (load (s\<lparr>tzl := (tzl s)(k := a)\<rparr>)) (tzl (s\<lparr>tzl := (tzl s)(k := a)\<rparr>) i)
      (medium (g\<lparr>medium := (medium g)(k := a # medium g k), raw := raw g - {(a, 2 ^ k)}\<rparr>) i)" for i
    using raw_facts(4) [OF ok r] heap_okD(3) [OF ok, of i] heap_okD(3) [OF ok, of k] l by simp
  show "{Raw_Item a (2 ^ k)} \<subseteq> items g" using r by simp
qed (use r k heap_okD(2) [OF ok] in \<open>auto simp: items_def split: if_splits\<close>)

lemma pop_medium:
  assumes ok: "heap_ok s g" and c: "medium g k = a # T"
  shows "tzl s k = a" "heap_ok (s\<lparr>tzl := (tzl s)(k := load s a)\<rparr>)
    (g\<lparr>medium := (medium g)(k := T), raw := insert (a, 2 ^ k) (raw g)\<rparr>)"
proof -
  have sl: "slist (load s) (tzl s k) (a # T)" using heap_okD(3) [OF ok, of k] c by simp
  then show "tzl s k = a" by simp
  have a: "a \<notin> set T" using slist_distinct [OF sl] by simp
  show "heap_ok (s\<lparr>tzl := (tzl s)(k := load s a)\<rparr>)
    (g\<lparr>medium := (medium g)(k := T), raw := insert (a, 2 ^ k) (raw g)\<rparr>)"
  proof (rule heap_ok_move [OF ok, where X = "{Medium_Item k a}" and Y = "{Raw_Item a (2 ^ k)}"])
    show "slist (load (s\<lparr>tzl := (tzl s)(k := load s a)\<rparr>)) (tzl (s\<lparr>tzl := (tzl s)(k := load s a)\<rparr>) i)
        (medium (g\<lparr>medium := (medium g)(k := T), raw := insert (a, 2 ^ k) (raw g)\<rparr>) i)" for i
      using sl heap_okD(3) [OF ok, of i] by simp
    show "{Medium_Item k a} \<subseteq> items g" using c by simp
  qed (use a c heap_okD(2) [OF ok] in \<open>auto simp: items_def split: if_splits\<close>)
qed

text \<open>A chunk is taken out of the middle of its list: the one before it is linked to the next.\<close>

lemma remove_medium:
  assumes ok: "heap_ok s g" and c: "medium g k = as @ b # bs" and ne: "as \<noteq> []"
  shows "heap_ok (store (last as) (load s b) s)
      (g\<lparr>medium := (medium g)(k := as @ bs), raw := insert (b, 2 ^ k) (raw g)\<rparr>)"
    "keeps (live g) s (store (last as) (load s b) s)"
proof -
  let ?a = "last as" and ?s = "store (last as) (load s b) s"
  let ?X = "{Medium_Item k b, Medium_Item k ?a}"
  have sl: "slist (load s) (tzl s k) (as @ b # bs)" using heap_okD(3) [OF ok, of k] c by simp
  have d: "distinct (as @ b # bs)" by (rule slist_distinct [OF sl])
  have la: "?a \<in> set as" using ne by simp
  have am: "?a \<in> set (medium g k)" "b \<in> set (medium g k)" using c la by auto
  note fa = medium_facts [OF ok am(1)]
  have "(2::nat) ^ 2 \<le> 2 ^ k" using fa(4) by (intro power_increasing) auto
  then have sp: "span ?a 4 \<subseteq> span ?a (2 ^ k)" by (intro span_mono) simp
  with fa(1) have ow: "span ?a 4 \<subseteq> owned s" by blast
  have out: "span ?a 4 \<inter> place x = {}" if "x \<in> items g - ?X" for x
    using heap_okD(4) [OF ok, of x "Medium_Item k ?a"] that am(1) sp by (auto simp: disjnt_def)
  have so: "same_on (\<Union>x \<in> items g - ?X. place x) s ?s"
    by (rule store_same_on [OF heap_okD(1) [OF ok] ow]) (use out in blast)
  have sv: "same_on (\<Union>x \<in> items g - ?X. vital x) s ?s"
    by (rule same_on_mono [OF so]) (use vital_items [OF ok] in blast)
  have upd: "slist (load ?s) h xs \<longleftrightarrow> slist ((load s)(?a := load s b)) h xs"
    if "set xs \<subseteq> set (as @ bs)" for h xs
  proof (rule slist_cong)
    fix x assume x: "x \<in> set xs"
    show "load ?s x = ((load s)(?a := load s b)) x"
    proof (cases "x = ?a")
      case False
      have xm: "x \<in> set (medium g k)" "x \<noteq> b" using x that c d by auto
      then have "span x 4 \<subseteq> (\<Union>x \<in> items g - ?X. vital x)"
        using False by (intro UN_upper [of "Medium_Item k x", THEN subset_trans [rotated]]) auto
      moreover have "unat x + 4 \<le> 2 ^ 32"
        using medium_facts(2,4) [OF ok xm(1)] power_increasing [of 2 k "2::nat"] by simp
      ultimately have "load ?s x = load s x"
        using sv by (intro load_cong) (auto simp: same_on_def)
      with False show ?thesis by simp
    qed simp
  qed
  show "heap_ok ?s (g\<lparr>medium := (medium g)(k := as @ bs), raw := insert (b, 2 ^ k) (raw g)\<rparr>)"
  proof (rule heap_ok_move [OF ok sv, where Y = "{Raw_Item b (2 ^ k), Medium_Item k ?a}"])
    show "slist (load ?s) (chunkpool ?s) (small (g\<lparr>medium := (medium g)(k := as @ bs), raw := insert (b, 2 ^ k) (raw g)\<rparr>))"
      using lists_same(1) [OF ok sv, of "small g"] heap_okD(2) [OF ok] by auto
    show "slist (load ?s) (tzl ?s i) (medium (g\<lparr>medium := (medium g)(k := as @ bs), raw := insert (b, 2 ^ k) (raw g)\<rparr>) i)" for i
    proof (cases "i = k")
      case True
      then show ?thesis using slist_remove [OF sl ne d] upd [of "as @ bs"] by simp
    next
      case False
      then show ?thesis using lists_same(2) [OF ok sv, of "medium g i" i] heap_okD(3) [OF ok, of i] by auto
    qed
    show "items (g\<lparr>medium := (medium g)(k := as @ bs), raw := insert (b, 2 ^ k) (raw g)\<rparr>)
        \<subseteq> items g - ?X \<union> {Raw_Item b (2 ^ k), Medium_Item k ?a}"
      using c d by (auto simp: items_def split: if_splits)
    show "?X \<subseteq> items g" using am by auto
    have ab: "?a \<noteq> b" using d la by auto
    show "pairwise (\<lambda>x y. disjnt (place x) (place y)) {Raw_Item b (2 ^ k), Medium_Item k ?a}"
      using heap_okD(4) [OF ok, of "Medium_Item k b" "Medium_Item k ?a"] am ab
      by (auto simp: pairwise_insert disjnt_sym)
    show "place y \<subseteq> (\<Union>x \<in> ?X. place x)" if "y \<in> {Raw_Item b (2 ^ k), Medium_Item k ?a}" for y
      using that by auto
    show "sound ?s y" if "y \<in> {Raw_Item b (2 ^ k), Medium_Item k ?a}" for y
      using that fa by auto
  qed
  have "live_bytes (live g) \<subseteq> (\<Union>x \<in> items g - ?X. place x)"
  proof
    fix x assume "x \<in> live_bytes (live g)"
    then obtain e where "Live_Item e \<in> items g - ?X" "x \<in> place (Live_Item e)"
      by (auto simp: live_bytes_def)
    then show "x \<in> (\<Union>x \<in> items g - ?X. place x)" by blast
  qed
  with so show "keeps (live g) s ?s" unfolding keeps_def same_on_def by blast
qed

section \<open>Blocks\<close>

lemma magic_kind: "kind < 4 \<Longrightarrow> ((h AND NOT 3) OR kind) AND 3 = (kind :: u32)"
proof -
  assume k: "kind < 4"
  have m: "(3 :: u32) = mask 2" by (simp add: mask_eq_exp_minus_1)
  have "unat (take_bit 2 kind) = unat kind"
    using k by (simp add: unsigned_take_bit_eq take_bit_nat_eq_self word_less_nat_alt)
  then have "take_bit 2 kind = kind" by (rule unsigned_word_eqI)
  moreover have "take_bit 2 (h AND NOT (mask 2)) = 0" by (rule bit_word_eqI) (auto simp: bit_simps)
  ultimately show ?thesis unfolding m by (simp add: take_bit_eq_mask [symmetric])
qed

lemma unmark:
  assumes ok: "heap_ok s g" and b: "b \<in> live g"
  shows "heap_ok s (g\<lparr>live := live g - {b}, raw := insert (ma_ptr b, room b) (raw g)\<rparr>)"
proof (rule heap_ok_move [OF ok, where X = "{Live_Item b}" and Y = "{Raw_Item (ma_ptr b) (room b)}"])
  have "sound s (Live_Item b)" by (rule heap_okD(6) [OF ok]) (use b in simp)
  then show "sound s y" if "y \<in> {Raw_Item (ma_ptr b) (room b)}" for y using that by auto
  show "slist (load s) (tzl s k) (medium (g\<lparr>live := live g - {b}, raw := insert (ma_ptr b, room b) (raw g)\<rparr>) k)" for k
    using heap_okD(3) [OF ok, of k] by simp
qed (use b heap_okD(2) [OF ok] in \<open>auto simp: items_def\<close>)

lemma mark:
  assumes ok: "heap_ok s g" and r: "(a, n) \<in> raw g" and b: "b = \<lparr>ma_ptr = a, ma_kind = kind, ma_size = z\<rparr>"
    and n: "room b = n" and z: "16 \<le> unat z" "unat z \<le> n"
    and k: "kind = MEM_SMALL \<or> kind = MEM_MEDIUM \<or> kind = MEM_LARGE"
    and md: "kind = MEM_MEDIUM \<Longrightarrow> 7 \<le> power2 z \<and> 2 ^ power2 z dvd unat a"
    and lg: "kind = MEM_LARGE \<Longrightarrow> page_run s a (page_count_padded z)"
  shows "\<exists>s'. mem_mark_and_get_user_ptr a z kind s = (a + 8, s')
    \<and> heap_ok s' (g\<lparr>live := insert b (live g), raw := raw g - {(a, n)}\<rparr>) \<and> keeps (live g) s s' \<and> b \<notin> live g"
proof -
  define magic where "magic = (hash_ptr a AND NOT 3) OR kind"
  define t where "t = a + z - 8"
  define s1 where "s1 = store a z s"
  define s2 where "s2 = store (a + 4) magic s1"
  define s3 where "s3 = store t magic s2"
  define s4 where "s4 = store (t + 4) z s3"
  have w: "unat a + n \<le> 2 ^ 32" by (rule raw_facts(3) [OF ok r])
  note u = unat_tail [OF w z, folded t_def]
  have sub: "span a 4 \<subseteq> span a n" "span (a + 4) 4 \<subseteq> span a n" "span t 4 \<subseteq> span a n" "span (t + 4) 4 \<subseteq> span a n"
    using u z by (auto simp: span_def)
  note st1 = store_raw [OF ok r sub(1), of z, folded s1_def]
  note st2 = store_raw [OF st1(1) r sub(2), of magic, folded s2_def]
  note st3 = store_raw [OF st2(1) r sub(3), of magic, folded s3_def]
  note st4 = store_raw [OF st3(1) r sub(4), of z, folded s4_def]
  have mk: "mem_mark_and_get_user_ptr a z kind s = (a + 8, s4)"
    by (simp add: mem_mark_and_get_user_ptr_def Let_def s4_def s3_def s2_def s1_def magic_def t_def)
  have dj: "disjnt (span a 4) (span (a + 4) 4)" "disjnt (span a 4) (span t 4)" "disjnt (span a 4) (span (t + 4) 4)"
    "disjnt (span (a + 4) 4) (span t 4)" "disjnt (span (a + 4) 4) (span (t + 4) 4)" "disjnt (span t 4) (span (t + 4) 4)"
    using u z by (auto simp: span_def disjnt_def)
  have b32: "unat a + 4 \<le> 2 ^ 32" "unat (a + 4) + 4 \<le> 2 ^ 32" "unat t + 4 \<le> 2 ^ 32" "unat (t + 4) + 4 \<le> 2 ^ 32"
    using u z w by linarith+
  have ld: "load s4 a = z" "load s4 (a + 4) = magic" "load s4 t = magic" "load s4 (t + 4) = z"
    using dj b32 by (simp_all add: s4_def s3_def s2_def s1_def load_store_other disjnt_sym)
  have km: "magic AND 3 = kind" unfolding magic_def using k by (intro magic_kind) auto
  have chk: "mem_mark_check (a + 8) s4 = Some b"
    using ld km by (simp add: mem_mark_check_def Let_def t_def b)
  have pr: "page_run s4 = page_run s"
    by (simp add: page_run_def page_addr_def fun_eq_iff s4_def s3_def s2_def s1_def)
  have so: "sound s4 (Live_Item b)"
    using chk z n k md lg pr by (auto simp: b)
  have notin: "b \<notin> live g"
  proof
    assume "b \<in> live g"
    then have "disjnt (place (Live_Item b)) (span a n)" using raw_facts(5) [OF ok r, of "Live_Item b"] by simp
    with n z show False by (auto simp: b disjnt_def span_def)
  qed
  have "heap_ok s4 (g\<lparr>live := insert b (live g), raw := raw g - {(a, n)}\<rparr>)"
  proof (rule heap_ok_move [OF st4(1), where X = "{Raw_Item a n}" and Y = "{Live_Item b}"])
    show "slist (load s4) (tzl s4 k) (medium (g\<lparr>live := insert b (live g), raw := raw g - {(a, n)}\<rparr>) k)" for k
      using heap_okD(3) [OF st4(1), of k] by simp
    show "place y \<subseteq> (\<Union>x \<in> {Raw_Item a n}. place x)" if "y \<in> {Live_Item b}" for y
      using that n by (simp add: b)
    show "sound s4 y" if "y \<in> {Live_Item b}" for y using that so by simp
  qed (use r heap_okD(2) [OF st4(1)] in \<open>auto simp: items_def\<close>)
  moreover have "keeps (live g) s s4"
    using st1(2) st2(2) st3(2) st4(2) keeps_trans by blast
  ultimately show ?thesis using mk notin by blast
qed

end
