(* ===== verification/Heap_Safety.thy ===== *)
theory Heap_Safety
  imports Heap_Ownership
begin

text \<open>
  The page and small block operations of the kernel heap keep \<open>heap_ok\<close>. \<open>serves\<close> and \<open>releases\<close> say
  what an allocation and a release promise: the block that is returned overlaps no other and has the
  room that was asked for, and the blocks that stay allocated keep their contents.
\<close>

section \<open>Runs of pages\<close>

lemma sound_cong:
  assumes ok: "pages_ok s" and so: "sound s x" "place x \<subseteq> owned s"
    and same: "\<And>y. unat y \<in> owned s \<Longrightarrow> mem s' y = mem s y" and pr: "page_run s' = page_run s"
  shows "sound s' x"
proof (cases x)
  case (Live_Item b)
  have r: "16 \<le> unat (ma_size b)" "unat (ma_size b) \<le> room b" "mem_mark_check (ma_ptr b + 8) s = Some b"
    using so(1) by (auto simp: Live_Item)
  have w: "unat (ma_ptr b) + room b \<le> 2 ^ 32"
    using owned_span(1) [OF ok, of "ma_ptr b" "room b"] so(2) r by (simp add: Live_Item)
  have "vital x \<subseteq> owned s" using vital_place [OF so ok] so(2) by blast
  then have "mem_mark_check (ma_ptr b + 8) s' = Some b"
    by (intro mark_check_cong [OF w r(1,2) refl r(3)] same) (auto simp: Live_Item)
  then show ?thesis using so(1) pr by (simp add: Live_Item)
qed (use so in auto)

text \<open>The bitmap changes, what the regions hold does not.\<close>

lemma heap_ok_pages:
  assumes ok: "heap_ok s g" and p: "pages_ok s'"
    and same: "\<And>y. unat y \<in> owned s \<Longrightarrow> mem s' y = mem s y"
    and fr: "mem_heap s' = mem_heap s" "page_count s' = page_count s" "meta_page_count s' = meta_page_count s"
      "small_next_exponant s' = small_next_exponant s" "medium_next_exponant s' = medium_next_exponant s"
      "chunkpool s' = chunkpool s" "tzl s' = tzl s"
    and its: "\<And>x. x \<in> items (g\<lparr>raw := R\<rparr>) \<Longrightarrow> x \<in> items g \<or> (\<exists>a n. x = Raw_Item a n \<and> 0 < n)"
      "\<And>x. x \<in> items (g\<lparr>raw := R\<rparr>) \<Longrightarrow> place x \<subseteq> owned s'"
      "\<And>x y. x \<in> items (g\<lparr>raw := R\<rparr>) \<Longrightarrow> y \<in> items (g\<lparr>raw := R\<rparr>) \<Longrightarrow> x \<noteq> y \<Longrightarrow> disjnt (place x) (place y)"
  shows "heap_ok s' (g\<lparr>raw := R\<rparr>)"
proof -
  note d = heap_okD [OF ok]
  have pr: "page_run s' = page_run s" by (simp add: page_run_def page_addr_def fun_eq_iff fr)
  have ld: "load s' a = load s a" if "span a 4 \<subseteq> owned s" for a
    using that owned_span(1) [OF d(1) that] by (intro load_cong same) auto
  have sm: "slist (load s') (chunkpool s') (small (g\<lparr>raw := R\<rparr>))"
  proof -
    have "load s' a = load s a" if "a \<in> set (small g)" for a
      by (rule ld) (use small_facts(1) [OF ok that] span_mono [of 4 80 a] in auto)
    then show ?thesis using d(2) slist_cong [of "small g" "load s'" "load s" "chunkpool s"] fr by simp
  qed
  have md: "slist (load s') (tzl s' k) (medium (g\<lparr>raw := R\<rparr>) k)" for k
  proof -
    have "load s' a = load s a" if "a \<in> set (medium g k)" for a
    proof (rule ld)
      have "(2::nat) ^ 2 \<le> 2 ^ k" using medium_facts(4) [OF ok that] by (intro power_increasing) auto
      then show "span a 4 \<subseteq> owned s" using medium_facts(1) [OF ok that] span_mono [of 4 "2 ^ k" a] by auto
    qed
    then show ?thesis using d(3) [of k] slist_cong [of "medium g k" "load s'" "load s" "tzl s k"] fr by simp
  qed
  have "sound s' x" if "x \<in> items (g\<lparr>raw := R\<rparr>)" for x
    using its(1) [OF that]
  proof
    assume x: "x \<in> items g"
    show ?thesis by (rule sound_cong [OF d(1) d(6) [OF x] d(5) [OF x] same pr])
  qed auto
  with its(2,3) sm md p d(7-9) fr show ?thesis by (auto simp: heap_ok_def pairwise_def)
qed

text \<open>The page of a byte.\<close>

lemma owned_iff:
  assumes "unat (mem_heap s) \<le> x"
  shows "x \<in> owned s \<longleftrightarrow> (let i = (x - unat (mem_heap s)) div PAGE_SIZE
     in meta_page_count s \<le> i \<and> i < page_count s \<and> used s i)"
proof -
  obtain d where x: "x = unat (mem_heap s) + d" using assms by (metis le_Suc_ex)
  have "x \<in> {unat (mem_heap s) + i * PAGE_SIZE ..< unat (mem_heap s) + (i + 1) * PAGE_SIZE}
      \<longleftrightarrow> i = d div PAGE_SIZE" for i
    by (auto simp: x div_nat_eqI [symmetric])
  then show ?thesis by (auto simp: owned_def x Let_def)
qed

lemma owned_ge: "x \<in> owned s \<Longrightarrow> unat (mem_heap s) \<le> x"
  by (auto simp: owned_def)

lemma run_span:
  assumes "pages_ok s" "a < page_count s" "unat (mem_heap s) \<le> x"
  shows "x \<in> span (page_addr s a) (c * PAGE_SIZE)
    \<longleftrightarrow> a \<le> (x - unat (mem_heap s)) div PAGE_SIZE \<and> (x - unat (mem_heap s)) div PAGE_SIZE < a + c"
proof -
  obtain d where x: "x = unat (mem_heap s) + d" using assms(3) by (metis le_Suc_ex)
  have "a * PAGE_SIZE \<le> d \<longleftrightarrow> a \<le> d div PAGE_SIZE" by (simp add: less_eq_div_iff_mult_less_eq)
  moreover have "d < (a + c) * PAGE_SIZE \<longleftrightarrow> d div PAGE_SIZE < a + c" by (simp add: div_less_iff_less_mult)
  ultimately show ?thesis
    using unat_page_addr(1) [OF assms(1,2)] by (auto simp: span_def x algebra_simps)
qed

lemma span_ge: "pages_ok s \<Longrightarrow> a < page_count s \<Longrightarrow> x \<in> span (page_addr s a) n \<Longrightarrow> unat (mem_heap s) \<le> x"
  using unat_page_addr(1) [of s a] by (auto simp: span_def)

lemma take_pages:
  assumes ok: "heap_ok s g" and sz: "sz \<noteq> 0"
  defines "c \<equiv> page_count_padded sz"
  shows "page_alloc sz s = Done NULL s \<or>
    (\<exists>p s'. page_alloc sz s = Done p s' \<and> p \<noteq> NULL \<and> page_run s p c \<and> c \<le> page_count s
      \<and> heap_ok s' (g\<lparr>raw := insert (p, c * PAGE_SIZE) (raw g)\<rparr>) \<and> (p, c * PAGE_SIZE) \<notin> raw g
      \<and> keeps (live g) s s' \<and> page_run s' = page_run s \<and> kheap.more s' = kheap.more s
      \<and> small_next_exponant s' = small_next_exponant s \<and> medium_next_exponant s' = medium_next_exponant s
      \<and> chunkpool s' = chunkpool s \<and> tzl s' = tzl s \<and> page_count s' = page_count s)"
proof -
  note d = heap_okD [OF ok]
  from page_alloc_used [OF d(1) sz, folded c_def] show ?thesis
  proof
    assume "\<exists>a s'. page_alloc sz s = Done (page_addr s a) s' \<and> page_addr s a \<noteq> NULL \<and> free_run s c a
      \<and> (\<forall>b < a. \<not> free_run s c b) \<and> s' = taken c a s
      \<and> (\<forall>i < page_count s. used s' i \<longleftrightarrow> used s i \<or> a \<le> i \<and> i < a + c) \<and> pages_ok s'"
    then obtain a s' where a: "page_alloc sz s = Done (page_addr s a) s'" "page_addr s a \<noteq> NULL"
      "free_run s c a" "s' = taken c a s"
      "\<forall>i < page_count s. used s' i \<longleftrightarrow> used s i \<or> a \<le> i \<and> i < a + c" "pages_ok s'" by blast
    let ?p = "page_addr s a"
    have f: "meta_page_count s \<le> a" "a + c \<le> page_count s" "\<forall>i. a \<le> i \<and> i < a + c \<longrightarrow> \<not> used s i"
      using a(3) by (auto simp: free_run_def)
    have c: "0 < c" unfolding c_def by (rule page_count_padded_pos)
    have lt: "a < page_count s" using f c by linarith
    have more: "pages.more s' = pages.more s" "mem s' = mem (set_pages c a True s)" by (simp_all add: a(4) taken_def)
    have fr: "mem_heap s' = mem_heap s" "page_count s' = page_count s" "meta_page_count s' = meta_page_count s"
      by (simp_all add: a(4))
    have fr2: "small_next_exponant s' = small_next_exponant s" "medium_next_exponant s' = medium_next_exponant s"
      "chunkpool s' = chunkpool s" "tzl s' = tzl s" "kheap.more s' = kheap.more s"
      using more(1) by (cases s; cases s'; simp)+
    have in': "x \<in> owned s' \<longleftrightarrow> x \<in> owned s \<or> x \<in> span ?p (c * PAGE_SIZE)" for x
    proof (cases "unat (mem_heap s) \<le> x")
      case True
      then show ?thesis
        using owned_iff [of s x] owned_iff [of s' x] run_span [OF d(1) lt, of x c] a(5) fr f(1,2)
        by (auto simp: Let_def)
    next
      case False
      then show ?thesis
        using owned_ge [of x s] owned_ge [of x s'] span_ge [OF d(1) lt, of x "c * PAGE_SIZE"] fr by auto
    qed
    have out: "disjnt (owned s) (span ?p (c * PAGE_SIZE))"
    proof -
      have "x \<notin> span ?p (c * PAGE_SIZE)" if x: "x \<in> owned s" for x
        using x owned_iff [OF owned_ge [OF x]] run_span [OF d(1) lt owned_ge [OF x], of c] f(3)
        by (auto simp: Let_def)
      then show ?thesis by (auto simp: disjnt_def)
    qed
    have same: "mem s' y = mem s y" if "unat y \<in> owned s" for y
      using set_pages_outside [OF d(1) f(2) owned_not_bitmap [OF d(1) that]] more(2) by simp
    have sp: "span ?p (c * PAGE_SIZE) \<noteq> {}" using c by (simp add: span_def)
    have pl: "place x \<subseteq> owned s" if "x \<in> items g" for x using d(5) that by auto
    have outp: "disjnt (place x) (span ?p (c * PAGE_SIZE))" if "x \<in> items g" for x
      using pl [OF that] out unfolding disjnt_def by blast
    have new: "(?p, c * PAGE_SIZE) \<notin> raw g"
    proof
      assume "(?p, c * PAGE_SIZE) \<in> raw g"
      with pl [of "Raw_Item ?p (c * PAGE_SIZE)"] out sp show False by (auto simp: disjnt_def)
    qed
    have its: "x \<in> items (g\<lparr>raw := insert (?p, c * PAGE_SIZE) (raw g)\<rparr>)
        \<longleftrightarrow> x \<in> items g \<or> x = Raw_Item ?p (c * PAGE_SIZE)" for x
      by (auto simp: items_def)
    have "heap_ok s' (g\<lparr>raw := insert (?p, c * PAGE_SIZE) (raw g)\<rparr>)"
    proof (rule heap_ok_pages [OF ok a(6) same fr fr2(1-4)])
      show "place x \<subseteq> owned s'" if "x \<in> items (g\<lparr>raw := insert (?p, c * PAGE_SIZE) (raw g)\<rparr>)" for x
        using that pl in' unfolding its by (auto simp: subset_iff)
      show "disjnt (place x) (place y)" if "x \<in> items (g\<lparr>raw := insert (?p, c * PAGE_SIZE) (raw g)\<rparr>)"
        "y \<in> items (g\<lparr>raw := insert (?p, c * PAGE_SIZE) (raw g)\<rparr>)" "x \<noteq> y" for x y
        using that d(4) [of x y] outp [of x] outp [of y] unfolding its by (auto simp: disjnt_sym)
    qed (use c its in auto)
    moreover have "keeps (live g) s s'"
      using same pl [of "Live_Item b" for b] by (fastforce simp: keeps_def live_bytes_def)
    moreover have "page_run s' = page_run s" by (simp add: page_run_def page_addr_def fun_eq_iff fr)
    moreover have "page_run s ?p c" using f by (auto simp: page_run_def)
    ultimately show ?thesis using a(1,2) new fr(2) fr2 f(2) by auto
  qed blast
qed

lemma give_pages:
  assumes ok: "heap_ok s g" and sz: "sz \<noteq> 0" and c_def: "c = page_count_padded sz"
    and r: "(p, c * PAGE_SIZE) \<in> raw g" "page_run s p c"
  shows "\<exists>s'. page_free p sz s = Done () s' \<and> heap_ok s' (g\<lparr>raw := raw g - {(p, c * PAGE_SIZE)}\<rparr>)
    \<and> keeps (live g) s s'"
proof -
  note d = heap_okD [OF ok]
  from r(2) obtain a where a: "p = page_addr s a" "meta_page_count s \<le> a" "a + c \<le> page_count s"
    by (auto simp: page_run_def)
  have c: "0 < c" unfolding c_def by (rule page_count_padded_pos)
  have lt: "a < page_count s" using a c by linarith
  from page_free_used [OF d(1) sz a(2,3) [unfolded c_def] lt, folded c_def]
  obtain s' where s': "page_free p sz s = Done () s'" "pages_ok s'"
    "\<forall>i < page_count s. used s' i \<longleftrightarrow> used s i \<and> \<not> (a \<le> i \<and> i < a + c)" "s' = set_pages c a False s"
    by (auto simp: a(1))
  have more: "pages.more s' = pages.more s" by (simp add: s'(4))
  have fr: "mem_heap s' = mem_heap s" "page_count s' = page_count s" "meta_page_count s' = meta_page_count s"
    by (simp_all add: s'(4))
  have fr2: "small_next_exponant s' = small_next_exponant s" "medium_next_exponant s' = medium_next_exponant s"
    "chunkpool s' = chunkpool s" "tzl s' = tzl s"
    using more by (cases s; cases s'; simp)+
  have in': "x \<in> owned s' \<longleftrightarrow> x \<in> owned s \<and> x \<notin> span p (c * PAGE_SIZE)" for x
  proof (cases "unat (mem_heap s) \<le> x")
    case True
    then show ?thesis
      using owned_iff [of s x] owned_iff [of s' x] run_span [OF d(1) lt, of x c] s'(3) fr a(1)
      by (auto simp: Let_def)
  next
    case False
    then show ?thesis using owned_ge [of x s] owned_ge [of x s'] fr by auto
  qed
  have same: "mem s' y = mem s y" if "unat y \<in> owned s" for y
    using set_pages_outside [OF d(1) a(3) owned_not_bitmap [OF d(1) that]] by (simp add: s'(4))
  have its: "x \<in> items (g\<lparr>raw := raw g - {(p, c * PAGE_SIZE)}\<rparr>)
      \<longleftrightarrow> x \<in> items g \<and> x \<noteq> Raw_Item p (c * PAGE_SIZE)" for x
    by (auto simp: items_def)
  have "heap_ok s' (g\<lparr>raw := raw g - {(p, c * PAGE_SIZE)}\<rparr>)"
  proof (rule heap_ok_pages [OF ok s'(2) same fr fr2])
    show "place x \<subseteq> owned s'" if "x \<in> items (g\<lparr>raw := raw g - {(p, c * PAGE_SIZE)}\<rparr>)" for x
      using that raw_facts(5) [OF ok r(1), of x] d(5) [of x] in' unfolding its by (auto simp: disjnt_def)
  qed (use d(4) its in auto)
  moreover have "keeps (live g) s s'"
    using same d(5) [of "Live_Item b" for b] by (fastforce simp: keeps_def live_bytes_def)
  ultimately show ?thesis using s'(1) by blast
qed

section \<open>Raw regions are cut\<close>

lemma raw_inside:
  assumes "heap_ok s g" "(a, n) \<in> raw g" "span b m \<subseteq> span a n" "0 < m" "(b, m) \<in> raw g"
  shows "(b, m) = (a, n)"
proof (rule ccontr)
  assume "(b, m) \<noteq> (a, n)"
  then have "disjnt (span b m) (span a n)" using raw_facts(6) [OF assms(1,2,5)] by simp
  with assms(3,4) show False by (auto simp: disjnt_def span_def)
qed

lemma split_raw:
  assumes ok: "heap_ok s g" and r: "(a, m + n) \<in> raw g" and pos: "0 < m" "0 < n"
  defines "b \<equiv> a + of_nat m"
  shows "heap_ok s (g\<lparr>raw := raw g - {(a, m + n)} \<union> {(a, m), (b, n)}\<rparr>)" "(a, m) \<notin> raw g" "(b, n) \<notin> raw g"
    "unat b = unat a + m" "a \<noteq> b"
proof -
  have w: "unat a + (m + n) \<le> 2 ^ 32" by (rule raw_facts(3) [OF ok r])
  then have "m < 2 ^ 32" "unat a + m < 2 ^ 32" using pos by linarith+
  then show b: "unat b = unat a + m" by (simp add: b_def unat_word_ariths(1) unat_of_nat32)
  then show ab: "a \<noteq> b" using pos by auto
  have sub: "span a m \<subseteq> span a (m + n)" "span b n \<subseteq> span a (m + n)" using b by (auto simp: span_def)
  show "(a, m) \<notin> raw g" using raw_inside [OF ok r sub(1) pos(1)] pos(2) by auto
  show "(b, n) \<notin> raw g" using raw_inside [OF ok r sub(2) pos(2)] ab by auto
  show "heap_ok s (g\<lparr>raw := raw g - {(a, m + n)} \<union> {(a, m), (b, n)}\<rparr>)"
  proof (rule raw_exchange [OF ok])
    show "pairwise (\<lambda>x y. disjnt (span (fst x) (snd x)) (span (fst y) (snd y))) {(a, m), (b, n)}"
      using b by (auto simp: pairwise_def disjnt_def span_def)
    show "0 < k \<and> span c k \<subseteq> (\<Union>(a, n) \<in> {(a, m + n)}. span a n)" if "(c, k) \<in> {(a, m), (b, n)}" for c k
      using that sub pos by auto
  qed (use r in simp)
qed

text \<open>A region shrinks; what is left over is lost.\<close>

lemma shrink_raw:
  assumes ok: "heap_ok s g" and r: "(a, n) \<in> raw g" and sub: "span b m \<subseteq> span a n" "0 < m"
  shows "heap_ok s (g\<lparr>raw := raw g - {(a, n)} \<union> {(b, m)}\<rparr>)"
  by (rule raw_exchange [OF ok]) (use r sub in auto)

section \<open>Small blocks\<close>

lemma store_pools [simp]:
  "store a v (s\<lparr>chunkpool := c\<rparr>) = (store a v s)\<lparr>chunkpool := c\<rparr>"
  "store a v (s\<lparr>tzl := t\<rparr>) = (store a v s)\<lparr>tzl := t\<rparr>"
  by (simp_all add: store_def)

lemma chunk_loop_pool: "chunk_loop c i z (s\<lparr>chunkpool := x\<rparr>) = (chunk_loop c i z s)\<lparr>chunkpool := x\<rparr>"
proof (induction c i z s rule: chunk_loop.induct)
  case (1 c i z s)
  then show ?case
    by (subst (1 2) chunk_loop.simps) (simp add: Let_def)
qed

text \<open>The loop turns a raw region into a list of chunks.\<close>

lemma chunk_loop_ok:
  assumes "heap_ok s g" "(c, n * 80) \<in> raw g" "0 < n" "z + 80 = i + n * 80" "chunkpool s = NULL"
  shows "\<exists>s' S. chunk_loop c i z s = s' \<and> S \<noteq> []
    \<and> heap_ok (s'\<lparr>chunkpool := c\<rparr>) (g\<lparr>small := S, raw := raw g - {(c, n * 80)}\<rparr>) \<and> keeps (live g) s s'
    \<and> (\<forall>b m y. (b, m) \<in> raw g - {(c, n * 80)} \<longrightarrow> span y 4 \<subseteq> span b m \<longrightarrow> load s' y = load s y)"
  using assms
proof (induction n arbitrary: c i s g)
  case (Suc n)
  note ok = Suc.prems(1) and r = Suc.prems(2)
  have sub: "span c 4 \<subseteq> span c (Suc n * 80)" by (rule span_mono) simp
  have nil: "small g = []" using heap_okD(2) [OF ok] Suc.prems(5) by (cases "small g") auto
  show ?case
  proof (cases "n = 0")
    case True
    let ?s = "store c NULL s"
    have e: "chunk_loop c i z s = ?s" using True Suc.prems(4) by (subst chunk_loop.simps) simp
    note st = store_raw [OF ok r sub, where v = NULL]
    have "heap_ok (?s\<lparr>chunkpool := c\<rparr>) (g\<lparr>small := c # small g, raw := raw g - {(c, 80)}\<rparr>)"
      by (rule push_small [OF st(1)]) (use r True Suc.prems(5) in simp_all)
    then have "heap_ok (?s\<lparr>chunkpool := c\<rparr>) (g\<lparr>small := [c], raw := raw g - {(c, Suc n * 80)}\<rparr>)"
      using True nil by simp
    moreover have "\<forall>b m y. (b, m) \<in> raw g - {(c, Suc n * 80)} \<longrightarrow> span y 4 \<subseteq> span b m \<longrightarrow> load ?s y = load s y"
      using st(3) by auto
    ultimately show ?thesis using st(2) unfolding e by (intro exI [of _ ?s] exI [of _ "[c]"]) simp
  next
    case False
    let ?c = "c + 80" and ?t = "store c (c + 80) s"
    define G where "G = g\<lparr>raw := raw g - {(c, 80 + n * 80)} \<union> {(c, 80), (?c, n * 80)}\<rparr>"
    have r': "(c, 80 + n * 80) \<in> raw g" using r by simp
    have pos: "0 < (80 :: nat)" "0 < n * 80" using False by simp_all
    note sp = split_raw [OF ok r' pos, unfolded of_nat_numeral]
    have okG: "heap_ok s G" using sp(1) by (simp add: G_def)
    have rG: "(c, 80) \<in> raw G" "(?c, n * 80) \<in> raw G" by (simp_all add: G_def)
    have sub80: "span c 4 \<subseteq> span c 80" by (rule span_mono) simp
    note st = store_raw [OF okG rG(1) sub80, where v = ?c]
    have ne: "(?c, n * 80) \<noteq> (c, 80)" by simp
    have step: "chunk_loop c i z s = chunk_loop ?c (i + 80) z ?t"
      using Suc.prems(4) False by (subst chunk_loop.simps) (simp add: Let_def)
    obtain s' S where IH: "chunk_loop ?c (i + 80) z ?t = s'" "S \<noteq> []"
      "heap_ok (s'\<lparr>chunkpool := ?c\<rparr>) (G\<lparr>small := S, raw := raw G - {(?c, n * 80)}\<rparr>)" "keeps (live G) ?t s'"
      "\<forall>b m y. (b, m) \<in> raw G - {(?c, n * 80)} \<longrightarrow> span y 4 \<subseteq> span b m \<longrightarrow> load s' y = load ?t y"
      using Suc.IH [OF st(1) rG(2)] False Suc.prems(4,5) by auto
    have lc: "load s' c = ?c"
      using IH(5) [rule_format, of c 80 c] rG(1) ne sub80 by auto
    have "heap_ok (s'\<lparr>chunkpool := ?c\<rparr>\<lparr>chunkpool := c\<rparr>) (G\<lparr>small := c # S, raw := raw G - {(?c, n * 80)} - {(c, 80)}\<rparr>)"
      using push_small [OF IH(3), of c] rG(1) ne lc by simp
    moreover have "raw G - {(?c, n * 80)} - {(c, 80)} = raw g - {(c, Suc n * 80)}"
      using sp(2,3) by (auto simp: G_def)
    ultimately have h: "heap_ok (s'\<lparr>chunkpool := c\<rparr>) (g\<lparr>small := c # S, raw := raw g - {(c, Suc n * 80)}\<rparr>)"
      by (simp add: G_def)
    have k: "keeps (live g) s s'" using st(2) IH(4) by (auto simp: G_def intro: keeps_trans)
    have l: "load s' y = load s y" if y: "(b, m) \<in> raw g - {(c, Suc n * 80)}" "span y 4 \<subseteq> span b m" for b m y
    proof -
      have "(b, m) \<in> raw G - {(?c, n * 80)}" "(b, m) \<noteq> (c, 80)" "(b, m) \<in> raw G"
        using y(1) sp(2,3) by (auto simp: G_def)
      then show ?thesis using IH(5) st(3) y(2) by metis
    qed
    show ?thesis unfolding step IH(1) using h k l by blast
  qed
qed simp

text \<open>
  What an allocation promises: NULL, or a new block with room for the size and the marks. The other
  blocks keep their contents.
\<close>

definition serves :: "u32 \<Rightarrow> kheap \<Rightarrow> ghost \<Rightarrow> (kheap, ptr) outcome \<Rightarrow> bool" where
  "serves z s g r \<longleftrightarrow> (\<exists>q s' g'. r = Done q s' \<and> heap_ok s' g' \<and> keeps (live g) s s' \<and> raw g' = {}
     \<and> (q = NULL \<and> live g' = live g \<or>
        (\<exists>b. q = ma_ptr b + MARK_USER_OFFSET \<and> q \<noteq> NULL \<and> b \<notin> live g \<and> live g' = insert b (live g)
           \<and> unat z + 16 \<le> unat (ma_size b))))"

lemma serves_null:
  assumes "heap_ok s' g'" "keeps (live g) s s'" "live g' = live g"
  shows "serves z s g (Done NULL s')"
proof -
  have "heap_ok s' (g'\<lparr>raw := {}\<rparr>)" by (rule heap_ok_forget [OF assms(1)]) simp_all
  with assms(2,3) show ?thesis unfolding serves_def by (intro exI [of _ NULL] exI [of _ s'] exI [of _ "g'\<lparr>raw := {}\<rparr>"]) simp
qed

lemma user_ptr:
  assumes "heap_ok s g" "b \<in> live g"
  shows "ma_ptr b + 8 \<noteq> NULL" "unat (ma_ptr b + 8) = unat (ma_ptr b) + 8"
    "unat (ma_ptr b) + unat (ma_size b) \<le> 2 ^ 32" "span (ma_ptr b) (unat (ma_size b)) \<subseteq> owned s"
    "16 \<le> unat (ma_size b)" "unat (ma_size b) \<le> room b"
proof -
  have so: "sound s (Live_Item b)" and pl: "place (Live_Item b) \<subseteq> owned s"
    using heap_okD(5,6) [OF assms(1), of "Live_Item b"] assms(2) by auto
  show r: "16 \<le> unat (ma_size b)" "unat (ma_size b) \<le> room b" using so by auto
  have w: "unat (ma_ptr b) + room b \<le> 2 ^ 32"
    using owned_span(1) [OF heap_okD(1) [OF assms(1)], of "ma_ptr b" "room b"] pl r by simp
  with r show "unat (ma_ptr b) + unat (ma_size b) \<le> 2 ^ 32" by linarith
  show "span (ma_ptr b) (unat (ma_size b)) \<subseteq> owned s"
    using pl span_mono [OF r(2), of "ma_ptr b"] by auto
  from w r have "unat (ma_ptr b) + 8 < 2 ^ 32" by linarith
  then show u: "unat (ma_ptr b + 8) = unat (ma_ptr b) + 8" by (simp add: unat_word_ariths(1))
  then show "ma_ptr b + 8 \<noteq> NULL" by auto
qed

text \<open>A raw region is marked and handed out.\<close>

lemma serves_mark:
  assumes ok: "heap_ok s1 g1" and r: "(a, room b) \<in> raw g1" and b: "b = \<lparr>ma_ptr = a, ma_kind = kind, ma_size = y\<rparr>"
    and y: "unat z + 16 \<le> unat y" "unat y \<le> room b"
    and k: "kind = MEM_SMALL \<or> kind = MEM_MEDIUM \<or> kind = MEM_LARGE"
    and md: "kind = MEM_MEDIUM \<Longrightarrow> 7 \<le> power2 y \<and> 2 ^ power2 y dvd unat a"
    and lg: "kind = MEM_LARGE \<Longrightarrow> page_run s1 a (page_count_padded y)"
    and kp: "keeps (live g) s s1" and lv: "live g1 = live g"
  shows "serves z s g (case mem_mark_and_get_user_ptr a y kind s1 of (p, s3) \<Rightarrow> Done p s3)"
proof -
  have "16 \<le> unat y" using y by simp
  from mark [OF ok r b refl this y(2) k md lg] obtain s' where
    m: "mem_mark_and_get_user_ptr a y kind s1 = (a + 8, s')"
      "heap_ok s' (g1\<lparr>live := insert b (live g1), raw := raw g1 - {(a, room b)}\<rparr>)"
      "keeps (live g1) s1 s'" "b \<notin> live g1" by blast
  define G where "G = g1\<lparr>live := insert b (live g1), raw := {}\<rparr>"
  have okG: "heap_ok s' G" by (rule heap_ok_forget [OF m(2)]) (simp_all add: G_def)
  have "a + 8 \<noteq> NULL" using user_ptr(1) [OF okG, of b] by (simp add: G_def b)
  moreover have "keeps (live g) s s'" using kp m(3) lv keeps_trans by simp
  ultimately show ?thesis
    unfolding serves_def m(1) using okG m(4) lv y(1)
    by (intro exI [of _ "a + 8"] exI [of _ s'] exI [of _ G] conjI disjI2 exI [of _ b]) (simp_all add: G_def b)
qed

lemma push_bit_small:
  assumes "c * 2 ^ n < 2 ^ 32"
  shows "unat (push_bit n (of_nat c) :: u32) = c * 2 ^ n"
proof -
  have "(push_bit n (of_nat c) :: u32) = of_nat (c * 2 ^ n)" by (simp add: push_bit_eq_mult)
  then show ?thesis using unat_of_nat32 [OF assms] by simp
qed

text \<open>The exponents only matter for the bounds.\<close>

lemma sound_exponants [simp]:
  "sound (s\<lparr>small_next_exponant := n\<rparr>) x \<longleftrightarrow> sound s x" "sound (s\<lparr>medium_next_exponant := n\<rparr>) x \<longleftrightarrow> sound s x"
  by (cases x; simp add: mem_mark_check_def page_run_def page_addr_def)+

lemma heap_ok_exponants:
  "heap_ok s g \<Longrightarrow> n \<le> 17 \<Longrightarrow> heap_ok (s\<lparr>small_next_exponant := n\<rparr>) g"
  "heap_ok s g \<Longrightarrow> n \<le> 13 \<Longrightarrow> heap_ok (s\<lparr>medium_next_exponant := n\<rparr>) g"
  by (simp_all add: heap_ok_def pages_ok_def owned_def used_def)

text \<open>A new pool: the loop makes a list of the pages that were obtained.\<close>

lemma small_pool:
  assumes ok: "heap_ok s g" and nil: "chunkpool s = NULL"
  shows "(\<exists>s1. mem_realloc_small s = Done 0 s1 \<and> heap_ok s1 g \<and> keeps (live g) s s1)
    \<or> (\<exists>v s1 g'. mem_realloc_small s = Done v s1 \<and> v \<noteq> 0
        \<and> heap_ok (chunk_loop (chunkpool s1) 80 (unat v) s1) g' \<and> live g' = live g \<and> small g' \<noteq> []
        \<and> keeps (live g) s (chunk_loop (chunkpool s1) 80 (unat v) s1))"
proof -
  define n where "n = small_next_exponant s"
  define v :: u32 where "v = push_bit n 10240"
  have n: "n \<le> 17" using heap_okD(8) [OF ok] by (simp add: n_def)
  then have "(2::nat) ^ n \<le> 2 ^ 17" by (intro power_increasing) auto
  then have uv: "unat v = 10240 * 2 ^ n" using push_bit_small [of 10240 n] by (simp add: v_def)
  then have v0: "v \<noteq> 0" by (metis unat_0 mult_eq_0_iff power_not_zero zero_neq_numeral)
  from take_pages [OF ok v0] show ?thesis
  proof
    assume "page_alloc v s = Done NULL s"
    moreover have "s\<lparr>chunkpool := NULL\<rparr> = s" using nil by simp
    ultimately have "mem_realloc_small s = Done 0 s"
      by (simp add: mem_realloc_small_def v_def [symmetric] n_def [symmetric] nil)
    with ok show ?thesis by auto
  next
    assume "\<exists>p s'. page_alloc v s = Done p s' \<and> p \<noteq> NULL \<and> page_run s p (page_count_padded v)
      \<and> page_count_padded v \<le> page_count s
      \<and> heap_ok s' (g\<lparr>raw := insert (p, page_count_padded v * PAGE_SIZE) (raw g)\<rparr>)
      \<and> (p, page_count_padded v * PAGE_SIZE) \<notin> raw g \<and> keeps (live g) s s' \<and> page_run s' = page_run s
      \<and> kheap.more s' = kheap.more s
      \<and> small_next_exponant s' = small_next_exponant s \<and> medium_next_exponant s' = medium_next_exponant s
      \<and> chunkpool s' = chunkpool s \<and> tzl s' = tzl s \<and> page_count s' = page_count s"
    then obtain p s' where p: "page_alloc v s = Done p s'" "p \<noteq> NULL" "page_count_padded v \<le> page_count s"
      "heap_ok s' (g\<lparr>raw := insert (p, page_count_padded v * PAGE_SIZE) (raw g)\<rparr>)" "keeps (live g) s s'"
      "small_next_exponant s' = n" "chunkpool s' = NULL" using nil by (auto simp: n_def)
    let ?N = "page_count_padded v * PAGE_SIZE"
    define m :: nat where "m = 128 * 2 ^ n"
    have m: "0 < m" "unat v = m * 80" using uv by (simp_all add: m_def)
    have cov: "unat v \<le> ?N" by (rule page_count_padded_covers [OF v0])
    have n16: "n + 1 \<le> 17"
    proof (rule ccontr)
      assume "\<not> n + 1 \<le> 17"
      then have "n = 17" using n by simp
      with uv cov p(3) heap_okD(7) [OF ok] show False by simp
    qed
    let ?g = "g\<lparr>raw := insert (p, ?N) (raw g)\<rparr>"
    have sub: "span p (m * 80) \<subseteq> span p ?N" using cov m(2) by (intro span_mono) simp
    define g1 where "g1 = ?g\<lparr>raw := raw ?g - {(p, ?N)} \<union> {(p, m * 80)}\<rparr>"
    define s2 where "s2 = s'\<lparr>small_next_exponant := n + 1\<rparr>"
    have "heap_ok s' g1"
      unfolding g1_def by (rule shrink_raw [OF p(4)]) (use sub m(1) in auto)
    then have g1: "heap_ok s2 g1" "(p, m * 80) \<in> raw g1" "live g1 = live g"
      using heap_ok_exponants(1) n16 by (simp_all add: g1_def s2_def)
    have nil2: "chunkpool s2 = NULL" using p(7) by (simp add: s2_def)
    have al: "mem_realloc_small s = Done v (s2\<lparr>chunkpool := p\<rparr>)"
      using p(1,2,6) by (simp add: mem_realloc_small_def v_def [symmetric] n_def [symmetric] s2_def Let_def)
    obtain t S where t: "chunk_loop p 80 (m * 80) s2 = t" "S \<noteq> []"
      "heap_ok (t\<lparr>chunkpool := p\<rparr>) (g1\<lparr>small := S, raw := raw g1 - {(p, m * 80)}\<rparr>)" "keeps (live g1) s2 t"
      using chunk_loop_ok [OF g1(1,2) m(1) _ nil2, of "m * 80" 80] by auto
    let ?s1 = "s2\<lparr>chunkpool := p\<rparr>" and ?g1 = "g1\<lparr>small := S, raw := raw g1 - {(p, m * 80)}\<rparr>"
    have lp: "chunk_loop (chunkpool ?s1) 80 (unat v) ?s1 = t\<lparr>chunkpool := p\<rparr>"
      using t(1) m(2) by (simp add: chunk_loop_pool)
    have "keeps (live g) s (t\<lparr>chunkpool := p\<rparr>)"
      using p(5) t(4) g1(3) by (simp add: keeps_def s2_def)
    moreover have "live ?g1 = live g" "small ?g1 \<noteq> []" using g1(3) t(2) by simp_all
    ultimately show ?thesis using al v0 t(3) unfolding lp [symmetric] by blast
  qed
qed

lemma pop_serves_small:
  assumes ok: "heap_ok s1 g1" and ne: "small g1 \<noteq> []" and kp: "keeps (live g) s s1" and lv: "live g1 = live g"
    and z: "unat z \<le> 64"
  shows "serves z s g (case mem_mark_and_get_user_ptr (chunkpool s1) CHUNKSIZE MEM_SMALL
      (s1\<lparr>chunkpool := load s1 (chunkpool s1)\<rparr>) of (p, s3) \<Rightarrow> Done p s3)"
proof -
  from ne obtain a S where c: "small g1 = a # S" by (cases "small g1") auto
  note pop = pop_small [OF ok c]
  show ?thesis unfolding pop(1)
    by (rule serves_mark [OF pop(2), of _ "\<lparr>ma_ptr = a, ma_kind = MEM_SMALL, ma_size = CHUNKSIZE\<rparr>"])
       (use z kp lv in \<open>simp_all add: room_def\<close>)
qed

lemma kalloc_small_ok:
  assumes ok: "heap_ok s g" and z: "unat z \<le> 64"
  shows "serves z s g (kalloc_small s)"
proof (cases "chunkpool s = NULL")
  case False
  then have "small g \<noteq> []" using heap_okD(2) [OF ok] by auto
  from pop_serves_small [OF ok this keeps_refl refl z] show ?thesis
    using False by (simp add: kalloc_small_def Let_def)
next
  case nil: True
  from small_pool [OF ok nil] show ?thesis
  proof
    assume "\<exists>s1. mem_realloc_small s = Done 0 s1 \<and> heap_ok s1 g \<and> keeps (live g) s s1"
    then obtain s1 where s1: "mem_realloc_small s = Done 0 s1" "heap_ok s1 g" "keeps (live g) s s1" by blast
    have "kalloc_small s = Done NULL s1" using nil s1(1) by (simp add: kalloc_small_def)
    with serves_null [OF s1(2,3) refl] show ?thesis by simp
  next
    assume "\<exists>v s1 g'. mem_realloc_small s = Done v s1 \<and> v \<noteq> 0
        \<and> heap_ok (chunk_loop (chunkpool s1) 80 (unat v) s1) g' \<and> live g' = live g \<and> small g' \<noteq> []
        \<and> keeps (live g) s (chunk_loop (chunkpool s1) 80 (unat v) s1)"
    then obtain v s1 g' where v: "mem_realloc_small s = Done v s1" "v \<noteq> 0" "live g' = live g" "small g' \<noteq> []"
      and h: "heap_ok (chunk_loop (chunkpool s1) 80 (unat v) s1) g'"
        "keeps (live g) s (chunk_loop (chunkpool s1) 80 (unat v) s1)" by blast
    from pop_serves_small [OF h(1) v(4) h(2) v(3) z] show ?thesis
      using nil v(1,2) by (simp add: kalloc_small_def Let_def)
  qed
qed

text \<open>What a release promises: the block is gone, the others keep their contents.\<close>

definition releases :: "mem_alloc \<Rightarrow> kheap \<Rightarrow> ghost \<Rightarrow> (kheap, unit) outcome \<Rightarrow> bool" where
  "releases b s g r \<longleftrightarrow> (\<exists>s' g'. r = Done () s' \<and> heap_ok s' g' \<and> keeps (live g') s s' \<and> raw g' = {}
     \<and> live g' = live g - {b})"

lemma releasesI:
  assumes "heap_ok s' g'" "keeps (live g') s s'" "live g' = live g - {b}"
  shows "releases b s g (Done () s')"
proof -
  have "heap_ok s' (g'\<lparr>raw := {}\<rparr>)" by (rule heap_ok_forget [OF assms(1)]) simp_all
  with assms(2,3) show ?thesis unfolding releases_def by (intro exI [of _ s'] exI [of _ "g'\<lparr>raw := {}\<rparr>"]) simp
qed

lemma kfree_small_ok:
  assumes ok: "heap_ok s g" and b: "b \<in> live g" and k: "ma_kind b = MEM_SMALL"
  shows "releases b s g (Done () (kfree_small b s))"
proof -
  let ?a = "ma_ptr b"
  define G where "G = g\<lparr>live := live g - {b}, raw := insert (?a, 80) (raw g)\<rparr>"
  define t where "t = store ?a (chunkpool s) s"
  have okG: "heap_ok s G" using unmark [OF ok b] k by (simp add: G_def room_def)
  have r: "(?a, 80) \<in> raw G" by (simp add: G_def)
  have "span ?a 4 \<subseteq> span ?a 80" by (rule span_mono) simp
  note st = store_raw [OF okG r this, where v = "chunkpool s", folded t_def]
  have l: "load t ?a = chunkpool t" by (simp add: t_def)
  from push_small [OF st(1) r l] have p: "heap_ok (t\<lparr>chunkpool := ?a\<rparr>) (G\<lparr>small := ?a # small G, raw := raw G - {(?a, 80)}\<rparr>)" .
  have e: "kfree_small b s = t\<lparr>chunkpool := ?a\<rparr>" by (simp add: kfree_small_def t_def Let_def)
  show ?thesis unfolding e by (rule releasesI [OF p]) (use st(2) in \<open>simp_all add: G_def\<close>)
qed

end
