(* ===== verification/Heap_Buddy.thy ===== *)
theory Heap_Buddy
  imports Heap_Safety
begin

text \<open>
  The buddy allocator of \<^verbatim>\<open>mem_medium.c\<close>: the index of a size, the search for a chunk with the splits
  it makes, and the release with its joins. Both end, and keep \<open>heap_ok\<close>.
\<close>

section \<open>Medium blocks\<close>

lemma bits_loop_bound: "n < 2 ^ (bits_loop n p - p) \<and> p \<le> bits_loop n p \<and> (0 < n \<longrightarrow> 2 ^ (bits_loop n p - p) \<le> 2 * n)"
proof (induction n p rule: bits_loop.induct)
  case (1 n p)
  show ?case
  proof (cases "n = 0")
    case True
    then show ?thesis by (simp add: bits_loop.simps)
  next
    case False
    define k where "k = bits_loop (n div 2) (p + 1) - (p + 1)"
    note IH = "1.IH" [OF False]
    have e: "bits_loop n p = bits_loop (n div 2) (p + 1)" using False by (subst bits_loop.simps) simp
    have "p + 1 \<le> bits_loop (n div 2) (p + 1)" using IH by blast
    then have b: "bits_loop n p - p = Suc k" unfolding e k_def by linarith
    have "n div 2 < 2 ^ k" using IH by (simp add: k_def)
    then have "n < 2 ^ Suc k" by simp
    moreover have "2 ^ Suc k \<le> 2 * n"
    proof (cases "n div 2 = 0")
      case True
      then have "k = 0" by (simp add: k_def bits_loop.simps)
      with False show ?thesis by simp
    next
      case False
      then have "2 ^ k \<le> 2 * (n div 2)" using IH by (simp add: k_def)
      then show ?thesis by simp
    qed
    ultimately show ?thesis using IH e b by simp
  qed
qed

text \<open>The index of a size is the least power of two that holds it.\<close>

lemma power2_bounds:
  assumes "2 \<le> unat z"
  shows "unat z \<le> 2 ^ power2 z" "2 ^ power2 z < 2 * unat z" "unat z \<le> 2 ^ k \<longleftrightarrow> power2 z \<le> k"
proof -
  have "z \<noteq> 0" using assms by auto
  then have u: "unat (z - 1) = unat z - 1" by (rule unat_minus_one)
  have b: "unat z - 1 < 2 ^ power2 z" "2 ^ power2 z \<le> 2 * (unat z - 1)"
    using bits_loop_bound [of "unat z - 1" 0] assms by (simp_all add: power2_def u)
  then show 1: "unat z \<le> 2 ^ power2 z" and 2: "2 ^ power2 z < 2 * unat z" using assms by linarith+
  show "unat z \<le> 2 ^ k \<longleftrightarrow> power2 z \<le> k"
  proof
    assume "unat z \<le> 2 ^ k"
    with 2 have "(2::nat) ^ power2 z < 2 ^ Suc k" by simp
    then have "power2 z < Suc k" by (rule power_less_imp_less_exp [rotated]) simp
    then show "power2 z \<le> k" by simp
  next
    assume "power2 z \<le> k"
    then have "(2::nat) ^ power2 z \<le> 2 ^ k" by (intro power_increasing) auto
    with 1 show "unat z \<le> 2 ^ k" by linarith
  qed
qed

section \<open>Allocation\<close>

lemma push_bit_one: "k < 32 \<Longrightarrow> unat (push_bit k 1 :: u32) = 2 ^ k"
  using push_bit_small [of 1 k] power_strict_increasing [of k 32 "2::nat"] by simp

lemma align_up:
  fixes p z :: u32
  assumes z: "unat z = 2 ^ k" "k < 31" and w: "unat p + 2 * 2 ^ k \<le> 2 ^ 32"
  shows "span (p + (z - p mod z)) (2 ^ k) \<subseteq> span p (2 * 2 ^ k)" "2 ^ k dvd unat (p + (z - p mod z))"
proof -
  define r where "r = unat p mod 2 ^ k"
  have r: "r < 2 ^ k" by (simp add: r_def)
  have m: "unat (p mod z) = r" by (simp add: unat_mod z r_def)
  then have "p mod z \<le> z" using r z(1) by (simp add: word_le_nat_alt)
  then have d: "unat (z - p mod z) = 2 ^ k - r" by (simp add: unat_sub m z(1))
  have "unat p + (2 ^ k - r) < 2 ^ 32"
  proof -
    have "2 ^ k - r \<le> (2::nat) ^ k" "0 < (2::nat) ^ k" by simp_all
    with w show ?thesis by linarith
  qed
  then have u: "unat (p + (z - p mod z)) = unat p + (2 ^ k - r)" by (simp add: unat_word_ariths(1) d)
  have "unat p + (2 ^ k - r) = (unat p div 2 ^ k + 1) * 2 ^ k"
    using r div_mult_mod_eq [of "unat p" "2 ^ k"] by (simp add: r_def)
  then show "2 ^ k dvd unat (p + (z - p mod z))" unfolding u by simp
  show "span (p + (z - p mod z)) (2 ^ k) \<subseteq> span p (2 * 2 ^ k)" using r by (auto simp: span_def u)
qed

text \<open>A new region of \<open>2 ^ (17 + n)\<close> bytes, cut out of twice as many.\<close>

lemma medium_region:
  assumes ok: "heap_ok s g" and nil: "tzl s k = NULL" and n: "medium_next_exponant s = n" "k = 17 + n"
  shows "(\<exists>s1. mem_realloc_medium s = Done 0 s1 \<and> heap_ok s1 g \<and> keeps (live g) s s1)
    \<or> (\<exists>v s1 g'. mem_realloc_medium s = Done v s1 \<and> v \<noteq> 0 \<and> heap_ok (store (tzl s1 k) NULL s1) g'
        \<and> live g' = live g \<and> medium g' k \<noteq> [] \<and> keeps (live g) s (store (tzl s1 k) NULL s1))"
proof -
  define v :: u32 where "v = push_bit n 0x20000"
  have n13: "n \<le> 13" using heap_okD(9) [OF ok] n by simp
  then have "(2::nat) ^ n \<le> 2 ^ 13" by (intro power_increasing) auto
  then have uv: "unat v = 2 ^ k" using push_bit_small [of 131072 n] by (simp add: v_def n power_add)
  have "(2::nat) ^ k \<le> 2 ^ 30" using n13 n by (intro power_increasing) auto
  then have uw: "unat (v * 2) = 2 * 2 ^ k" by (simp add: unat_word_ariths(2) uv)
  have v0: "v \<noteq> 0" "v * 2 \<noteq> 0" using uv uw by (metis unat_0 mult_eq_0_iff power_not_zero zero_neq_numeral)+
  from take_pages [OF ok v0(2)] show ?thesis
  proof
    assume "page_alloc (v * 2) s = Done NULL s"
    moreover have "s\<lparr>tzl := (tzl s)(k := NULL)\<rparr> = s" using nil by (simp add: fun_upd_idem)
    ultimately have "mem_realloc_medium s = Done 0 s"
      by (simp add: mem_realloc_medium_def v_def [symmetric] n Let_def)
    with ok show ?thesis by auto
  next
    assume "\<exists>p s'. page_alloc (v * 2) s = Done p s' \<and> p \<noteq> NULL \<and> page_run s p (page_count_padded (v * 2))
      \<and> page_count_padded (v * 2) \<le> page_count s
      \<and> heap_ok s' (g\<lparr>raw := insert (p, page_count_padded (v * 2) * PAGE_SIZE) (raw g)\<rparr>)
      \<and> (p, page_count_padded (v * 2) * PAGE_SIZE) \<notin> raw g \<and> keeps (live g) s s' \<and> page_run s' = page_run s
      \<and> kheap.more s' = kheap.more s
      \<and> small_next_exponant s' = small_next_exponant s \<and> medium_next_exponant s' = medium_next_exponant s
      \<and> chunkpool s' = chunkpool s \<and> tzl s' = tzl s \<and> page_count s' = page_count s"
    then obtain p s' where p: "page_alloc (v * 2) s = Done p s'" "p \<noteq> NULL" "page_count_padded (v * 2) \<le> page_count s"
      "heap_ok s' (g\<lparr>raw := insert (p, page_count_padded (v * 2) * PAGE_SIZE) (raw g)\<rparr>)" "keeps (live g) s s'"
      "medium_next_exponant s' = n" "tzl s' = tzl s" using n by auto
    let ?N = "page_count_padded (v * 2) * PAGE_SIZE"
    let ?g = "g\<lparr>raw := insert (p, ?N) (raw g)\<rparr>"
    have cov: "2 * 2 ^ k \<le> ?N" using page_count_padded_covers [OF v0(2)] uw by simp
    have n12: "n + 1 \<le> 13"
    proof (rule ccontr)
      assume "\<not> n + 1 \<le> 13"
      then have "n = 13" using n13 by simp
      with cov p(3) heap_okD(7) [OF ok] n(2) show False by simp
    qed
    define q where "q = p + (v - p mod v)"
    have w: "unat p + 2 * 2 ^ k \<le> 2 ^ 32"
      using raw_facts(3) [OF p(4), of p ?N] cov by simp
    note al = align_up [OF uv _ w, folded q_def]
    have k31: "k < 31" using n12 n by simp
    have "span q (2 ^ k) \<subseteq> span p ?N" using al(1) [OF k31] span_mono [OF cov, of p] by auto
    then have ok1: "heap_ok s' (?g\<lparr>raw := raw ?g - {(p, ?N)} \<union> {(q, 2 ^ k)}\<rparr>)"
      by (intro shrink_raw [OF p(4)]) auto
    define g1 where "g1 = ?g\<lparr>raw := raw ?g - {(p, ?N)} \<union> {(q, 2 ^ k)}\<rparr>"
    define s2 where "s2 = s'\<lparr>medium_next_exponant := n + 1\<rparr>"
    define t where "t = store q NULL s2"
    have g1: "heap_ok s2 g1" "(q, 2 ^ k) \<in> raw g1" "live g1 = live g"
      using heap_ok_exponants(2) n12 ok1 by (simp_all add: g1_def s2_def)
    have "(2::nat) ^ 2 \<le> 2 ^ k" using n by (intro power_increasing) auto
    then have "span q 4 \<subseteq> span q (2 ^ k)" by (intro span_mono) simp
    note st = store_raw [OF g1(1,2) this, where v = NULL, folded t_def]
    have tt: "tzl t = tzl s" using p(7) by (simp add: t_def s2_def)
    have push: "heap_ok (t\<lparr>tzl := (tzl t)(k := q)\<rparr>) (g1\<lparr>medium := (medium g1)(k := q # medium g1 k), raw := raw g1 - {(q, 2 ^ k)}\<rparr>)"
      by (rule push_medium [OF st(1) g1(2)]) (use nil tt n al(2) [OF k31] in \<open>simp_all add: t_def\<close>)
    let ?s1 = "s2\<lparr>tzl := (tzl s2)(k := q)\<rparr>"
      and ?g1 = "g1\<lparr>medium := (medium g1)(k := q # medium g1 k), raw := raw g1 - {(q, 2 ^ k)}\<rparr>"
    have al: "mem_realloc_medium s = Done v ?s1"
      using p(1,2,6) by (simp add: mem_realloc_medium_def v_def [symmetric] n q_def s2_def Let_def)
    have e: "store (tzl ?s1 k) NULL ?s1 = t\<lparr>tzl := (tzl t)(k := q)\<rparr>" by (simp add: t_def)
    have "keeps (live g) s (t\<lparr>tzl := (tzl t)(k := q)\<rparr>)"
      using p(5) st(2) g1(3) by (simp add: keeps_def s2_def)
    moreover have "live ?g1 = live g" "medium ?g1 k \<noteq> []" using g1(3) by simp_all
    ultimately show ?thesis using al v0(1) push unfolding e [symmetric] by blast
  qed
qed

text \<open>A chunk is split in two, which become the first of the list below.\<close>

lemma split_chunk:
  assumes ok: "heap_ok s g" and c: "medium g (k + 1) = c0 # T" and k: "7 \<le> k"
  defines "c1 \<equiv> c0 + push_bit k 1"
  defines "s' \<equiv> (store c1 (tzl s k) (store c0 c1 (s\<lparr>tzl := (tzl s)(k + 1 := load s c0)\<rparr>)))
     \<lparr>tzl := ((tzl s)(k + 1 := load s c0))(k := c0)\<rparr>"
  shows "tzl s (k + 1) = c0" "\<exists>g'. heap_ok s' g' \<and> live g' = live g \<and> medium g' k \<noteq> []" "keeps (live g) s s'"
proof -
  note pop = pop_medium [OF ok c]
  from pop(1) show "tzl s (k + 1) = c0" .
  have "c0 \<in> set (medium g (k + 1))" using c by simp
  note m = medium_facts [OF ok this]
  define s1 where "s1 = s\<lparr>tzl := (tzl s)(k + 1 := load s c0)\<rparr>"
  define g1 where "g1 = g\<lparr>medium := (medium g)(k + 1 := T), raw := insert (c0, 2 ^ (k + 1)) (raw g)\<rparr>"
  have ok1: "heap_ok s1 g1" using pop(2) by (simp add: s1_def g1_def)
  have r1: "(c0, 2 ^ k + 2 ^ k) \<in> raw g1" by (simp add: g1_def mult_2)
  have p2: "0 < (2::nat) ^ k" by simp
  have pb: "of_nat (2 ^ k) = (push_bit k 1 :: u32)" by (simp add: push_bit_eq_mult)
  note sp = split_raw [OF ok1 r1 p2 p2, unfolded pb, folded c1_def]
  define g2 where "g2 = g1\<lparr>raw := raw g1 - {(c0, 2 ^ k + 2 ^ k)} \<union> {(c0, 2 ^ k), (c1, 2 ^ k)}\<rparr>"
  have ok2: "heap_ok s1 g2" using sp(1) by (simp add: g2_def)
  have r2: "(c0, 2 ^ k) \<in> raw g2" "(c1, 2 ^ k) \<in> raw g2" by (simp_all add: g2_def)
  have "(2::nat) ^ 2 \<le> 2 ^ k" using k by (intro power_increasing) auto
  then have sub: "span c 4 \<subseteq> span c (2 ^ k)" for c by (intro span_mono) simp
  define s2 where "s2 = store c0 c1 s1"
  define s3 where "s3 = store c1 (tzl s k) s2"
  note st2 = store_raw [OF ok2 r2(1) sub, where v = c1, folded s2_def]
  note st3 = store_raw [OF st2(1) r2(2) sub, where v = "tzl s k", folded s3_def]
  have l0: "load s3 c0 = c1"
    using st3(3) [OF r2(1) _ sub] sp(5) by (simp add: s2_def)
  have tz: "tzl s3 = tzl s1" "tzl s1 k = tzl s k" by (simp_all add: s3_def s2_def s1_def)
  have "load s3 c1 = tzl s k" by (simp add: s3_def)
  then have l1: "load s3 c1 = tzl s3 k" using tz by simp
  have al: "2 ^ k dvd unat c0" "2 ^ k dvd unat c1"
    using m(5) sp(4) by (auto intro: dvd_trans [OF le_imp_power_dvd, of k "k + 1"])
  define s4 where "s4 = s3\<lparr>tzl := (tzl s3)(k := c1)\<rparr>"
  define g4 where "g4 = g2\<lparr>medium := (medium g2)(k := c1 # medium g2 k), raw := raw g2 - {(c1, 2 ^ k)}\<rparr>"
  have ok4: "heap_ok s4 g4"
    unfolding s4_def g4_def by (rule push_medium [OF st3(1) r2(2) l1 k al(2)])
  have r4: "(c0, 2 ^ k) \<in> raw g4" using r2 sp(5) by (simp add: g4_def)
  define g5 where "g5 = g4\<lparr>medium := (medium g4)(k := c0 # medium g4 k), raw := raw g4 - {(c0, 2 ^ k)}\<rparr>"
  have ok5: "heap_ok (s4\<lparr>tzl := (tzl s4)(k := c0)\<rparr>) g5"
    unfolding g5_def
    by (rule push_medium [OF ok4 r4 _ k al(1)]) (use l0 in \<open>simp add: s4_def\<close>)
  have e: "s4\<lparr>tzl := (tzl s4)(k := c0)\<rparr> = s'"
    using tz by (simp add: s4_def s'_def s3_def s2_def s1_def)
  have "live g5 = live g" "medium g5 k \<noteq> []" by (simp_all add: g5_def g4_def g2_def g1_def)
  with ok5 show "\<exists>g'. heap_ok s' g' \<and> live g' = live g \<and> medium g' k \<noteq> []" unfolding e by blast
  have lv: "live g2 = live g" by (simp add: g2_def g1_def)
  have "keeps (live g) s s1" by (simp add: s1_def)
  moreover have "keeps (live g) s1 s3" using keeps_trans [OF st2(2) st3(2)] lv by simp
  ultimately have "keeps (live g) s s3" by (rule keeps_trans)
  then show "keeps (live g) s s'" unfolding e [symmetric] s4_def by simp
qed

lemma alloc_tzl_chunk_ok:
  assumes "heap_ok s g" "7 \<le> k" "k \<le> max 18 (17 + medium_next_exponant s)"
  shows "\<exists>r s' g'. alloc_tzl_chunk k s = Done r s' \<and> heap_ok s' g' \<and> live g' = live g \<and> keeps (live g) s s'
    \<and> (r \<longrightarrow> medium g' k \<noteq> [])"
  using assms
proof (induction k s arbitrary: g rule: alloc_tzl_chunk.induct)
  case (1 k s)
  note ok = "1.prems"(1)
  consider "tzl s k \<noteq> NULL" | "tzl s k = NULL" "17 + medium_next_exponant s \<le> k"
    | "tzl s k = NULL" "k < 17 + medium_next_exponant s" by fastforce
  then show ?case
  proof cases
    case 1
    then have "medium g k \<noteq> []" using heap_okD(3) [OF ok, of k] by auto
    moreover have "alloc_tzl_chunk k s = Done True s" using 1 by (subst alloc_tzl_chunk.simps) simp
    ultimately show ?thesis using ok by auto
  next
    case 2
    let ?s = "s\<lparr>medium_next_exponant := k - 17\<rparr>"
    have "k - 17 \<le> 13" using "1.prems"(3) heap_okD(9) [OF ok] by auto
    then have ok': "heap_ok ?s g" by (rule heap_ok_exponants(2) [OF ok])
    have step: "alloc_tzl_chunk k s = bindK (mem_realloc_medium ?s)
        (\<lambda>sz s1. if sz = 0 then Done False s1 else Done True (store (tzl s1 k) NULL s1))"
      using 2 by (subst alloc_tzl_chunk.simps) simp
    have e: "tzl ?s k = NULL" "medium_next_exponant ?s = k - 17" "k = 17 + (k - 17)" using 2 by simp_all
    have kp: "keeps (live g) ?s t \<Longrightarrow> keeps (live g) s t" for t by (simp add: keeps_def)
    from medium_region [OF ok' e] show ?thesis
    proof
      assume "\<exists>s1. mem_realloc_medium ?s = Done 0 s1 \<and> heap_ok s1 g \<and> keeps (live g) ?s s1"
      then obtain s1 where "mem_realloc_medium ?s = Done 0 s1" "heap_ok s1 g" "keeps (live g) s s1"
        using kp by blast
      then show ?thesis unfolding step by auto
    next
      assume "\<exists>v s1 g'. mem_realloc_medium ?s = Done v s1 \<and> v \<noteq> 0 \<and> heap_ok (store (tzl s1 k) NULL s1) g'
        \<and> live g' = live g \<and> medium g' k \<noteq> [] \<and> keeps (live g) ?s (store (tzl s1 k) NULL s1)"
      then obtain v s1 g' where v: "mem_realloc_medium ?s = Done v s1" "v \<noteq> 0"
        "heap_ok (store (tzl s1 k) NULL s1) g'" "live g' = live g" "medium g' k \<noteq> []"
        "keeps (live g) s (store (tzl s1 k) NULL s1)" using kp by blast
      then show ?thesis unfolding step by auto
    qed
  next
    case 3
    have step: "alloc_tzl_chunk k s = bindK (alloc_tzl_chunk (k + 1) s) (\<lambda>ok s1. if \<not> ok then Done False s1
        else Done True ((store (tzl s1 (k + 1) + push_bit k 1) (tzl s1 k)
            (store (tzl s1 (k + 1)) (tzl s1 (k + 1) + push_bit k 1)
              (s1\<lparr>tzl := (tzl s1)(k + 1 := load s1 (tzl s1 (k + 1)))\<rparr>)))
          \<lparr>tzl := ((tzl s1)(k + 1 := load s1 (tzl s1 (k + 1))))(k := tzl s1 (k + 1))\<rparr>))"
      using 3 by (subst alloc_tzl_chunk.simps) (simp add: Let_def cong: if_cong)
    have "k + 1 \<le> max 18 (17 + medium_next_exponant s)" using 3 by simp
    then obtain r s1 g1 where IH: "alloc_tzl_chunk (k + 1) s = Done r s1" "heap_ok s1 g1" "live g1 = live g"
      "keeps (live g) s s1" "r \<longrightarrow> medium g1 (k + 1) \<noteq> []"
      using "1.IH" [OF _ _ ok] 3 "1.prems"(2) by auto
    show ?thesis
    proof (cases r)
      case False
      then show ?thesis using IH unfolding step by auto
    next
      case True
      then obtain c0 T where c: "medium g1 (k + 1) = c0 # T" using IH(5) by (cases "medium g1 (k + 1)") auto
      define S where "S = (store (c0 + push_bit k 1) (tzl s1 k) (store c0 (c0 + push_bit k 1)
          (s1\<lparr>tzl := (tzl s1)(k + 1 := load s1 c0)\<rparr>)))\<lparr>tzl := ((tzl s1)(k + 1 := load s1 c0))(k := c0)\<rparr>"
      note sp = split_chunk [OF IH(2) c "1.prems"(2), folded S_def]
      have "alloc_tzl_chunk k s = Done True S" using True sp(1) unfolding step IH(1) S_def by simp
      moreover have "keeps (live g) s S" using keeps_trans [OF IH(4)] sp(3) IH(3) by simp
      ultimately show ?thesis using sp(2) IH(3) by auto
    qed
  qed
qed

lemma kalloc_medium_ok:
  assumes ok: "heap_ok s g" and z: "64 < unat z" "unat z < 0x20000"
  shows "serves z s g (kalloc_medium z s)"
proof -
  let ?y = "z + MARK_SIZE" and ?k = "power2 (z + MARK_SIZE)"
  have y: "unat ?y = unat z + 16" using z by (simp add: unat_word_ariths(1))
  then have y2: "2 \<le> unat ?y" by simp
  have k: "\<not> ?k \<le> 6" "?k \<le> 18" using power2_bounds(3) [OF y2, of 6] power2_bounds(3) [OF y2, of 18] y z by simp_all
  then have k7: "7 \<le> ?k" by simp
  have "?k \<le> max 18 (17 + medium_next_exponant s)" using k(2) by simp
  from alloc_tzl_chunk_ok [OF ok k7 this] obtain r s1 g1 where
    al: "alloc_tzl_chunk ?k s = Done r s1" "heap_ok s1 g1" "live g1 = live g" "keeps (live g) s s1"
      "r \<longrightarrow> medium g1 ?k \<noteq> []" by blast
  show ?thesis
  proof (cases r)
    case False
    then have "kalloc_medium z s = Done NULL s1" using al(1) by (simp add: kalloc_medium_def Let_def)
    then show ?thesis using serves_null [OF al(2,4,3)] by simp
  next
    case True
    then obtain a T where c: "medium g1 ?k = a # T" using al(5) by (cases "medium g1 ?k") auto
    note pop = pop_medium [OF al(2) c]
    have "a \<in> set (medium g1 ?k)" using c by simp
    note m = medium_facts [OF al(2) this]
    let ?b = "\<lparr>ma_ptr = a, ma_kind = MEM_MEDIUM, ma_size = ?y\<rparr>"
    have "serves z s g (case mem_mark_and_get_user_ptr a ?y MEM_MEDIUM (s1\<lparr>tzl := (tzl s1)(?k := load s1 a)\<rparr>)
        of (p, s3) \<Rightarrow> Done p s3)"
      by (rule serves_mark [OF pop(2), of _ ?b])
         (use y power2_bounds(1) [OF y2] k7 m(5) al(3,4) in \<open>simp_all add: room_def\<close>)
    then show ?thesis using True al(1) pop(1) by (simp add: kalloc_medium_def Let_def)
  qed
qed

section \<open>Release\<close>

text \<open>The search ends: it finds the buddy behind the chunks before it, or nothing.\<close>

lemma buddy_loop_found:
  "slist (load s) (chunk_at k it s) (as @ b # bs) \<Longrightarrow> b \<notin> set as \<Longrightarrow>
     buddy_loop b k it s = Some (True, if as = [] then it else Some (last as))"
proof (induction as arbitrary: it)
  case Nil
  then show ?case by (subst buddy_loop.simps) simp
next
  case (Cons a as)
  have "slist (load s) (chunk_at k (Some a) s) (as @ b # bs)" using Cons.prems(1) by (simp add: chunk_at_def)
  from Cons.IH [OF this] Cons.prems show ?case by (subst buddy_loop.simps) auto
qed

lemma buddy_loop_absent:
  "slist (load s) (chunk_at k it s) xs \<Longrightarrow> b \<notin> set xs \<Longrightarrow> \<exists>it'. buddy_loop b k it s = Some (False, it')"
proof (induction xs arbitrary: it)
  case Nil
  then show ?case by (subst buddy_loop.simps) simp
next
  case (Cons a as)
  have "slist (load s) (chunk_at k (Some a) s) as" using Cons.prems(1) by (simp add: chunk_at_def)
  from Cons.IH [OF this] Cons.prems show ?case by (subst buddy_loop.simps) auto
qed

text \<open>The buddy of an aligned chunk is the other half of the chunk of twice the size.\<close>

lemma buddy_address:
  fixes c :: u32
  assumes k: "k < 32" and al: "2 ^ k dvd unat c"
  defines "b \<equiv> c XOR push_bit k 1"
  shows "2 ^ k dvd unat b" "2 ^ (k + 1) dvd unat (min b c)" "unat (max b c) = unat (min b c) + 2 ^ k" "b \<noteq> c"
proof -
  have u: "unat b = unat c XOR 2 ^ k"
    using push_bit_one [OF k] unfolding b_def by (simp only: unsigned_xor_eq)
  obtain q where q: "unat c = q * 2 ^ k" using al by (metis dvd_def mult.commute)
  have x: "q * 2 ^ k XOR 2 ^ k = (q XOR 1) * 2 ^ k"
    using push_bit_xor [of k q 1] by (simp add: push_bit_eq_mult)
  have ux: "unat b = (q XOR 1) * 2 ^ k" by (simp only: u q x)
  then show "2 ^ k dvd unat b" by simp
  have "(even q \<and> q XOR 1 = q + 1) \<or> (odd q \<and> q XOR 1 = q - 1 \<and> 0 < q)"
    by (cases "even q") (auto simp: xor_Suc_0_eq odd_pos)
  then have "2 ^ (k + 1) dvd unat (min b c) \<and> unat (max b c) = unat (min b c) + 2 ^ k \<and> b \<noteq> c"
  proof (elim disjE conjE)
    assume e: "even q" "q XOR 1 = q + 1"
    have ub: "unat b = unat c + 2 ^ k" unfolding ux e(2) q by simp
    then have lt: "c < b" by (simp add: word_less_nat_alt)
    have "2 ^ (k + 1) dvd unat c" using e(1) by (simp add: q mult_dvd_mono mult.commute)
    with lt ub show ?thesis by (auto simp: min_def max_def)
  next
    assume o: "odd q" "q XOR 1 = q - 1" "0 < q"
    then obtain p where p: "q = Suc (2 * p)" by (metis oddE Suc_eq_plus1)
    have ub: "unat c = unat b + 2 ^ k" unfolding ux o(2) q by (simp add: p)
    then have lt: "b < c" by (simp add: word_less_nat_alt)
    have "unat b = p * 2 ^ (k + 1)" unfolding ux o(2) by (simp add: p)
    then have "2 ^ (k + 1) dvd unat b" by simp
    with lt ub show ?thesis by (auto simp: min_def max_def)
  qed
  then show "2 ^ (k + 1) dvd unat (min b c)" "unat (max b c) = unat (min b c) + 2 ^ k" "b \<noteq> c" by blast+
qed

text \<open>Two halves that are both free become one chunk.\<close>

lemma join_raw:
  assumes ok: "heap_ok s g" and r: "(c, 2 ^ k) \<in> raw g" "(c XOR push_bit k 1, 2 ^ k) \<in> raw g"
    and k: "k < 32" "2 ^ k dvd unat c"
  defines "b \<equiv> c XOR push_bit k 1"
  shows "heap_ok s (g\<lparr>raw := raw g - {(c, 2 ^ k), (b, 2 ^ k)} \<union> {(min b c, 2 ^ (k + 1))}\<rparr>)"
proof (rule raw_exchange [OF ok])
  note bd = buddy_address [OF k, folded b_def]
  have mm: "{min b c, max b c} = {b, c}" by (auto simp: min_def max_def)
  have "span (min b c) (2 ^ (k + 1)) \<subseteq> span (min b c) (2 ^ k) \<union> span (max b c) (2 ^ k)"
    using bd(3) by (auto simp: span_def)
  also have "\<dots> = span b (2 ^ k) \<union> span c (2 ^ k)"
    using mm by (auto simp: doubleton_eq_iff)
  finally show "0 < n \<and> span a n \<subseteq> (\<Union>(a, n) \<in> {(c, 2 ^ k), (b, 2 ^ k)}. span a n)"
    if "(a, n) \<in> {(min b c, 2 ^ (k + 1))}" for a n using that by auto
qed (use r b_def in auto)

text \<open>A chunk leaves its list, wherever in it it stands.\<close>

lemma unlink_chunk:
  assumes ok: "heap_ok s g" and c: "medium g k = as @ b # bs"
  defines "s' \<equiv> set_chunk_at k (if as = [] then None else Some (last as)) (load s b) s"
    and "g' \<equiv> g\<lparr>medium := (medium g)(k := as @ bs), raw := insert (b, 2 ^ k) (raw g)\<rparr>"
  shows "heap_ok s' g'" "keeps (live g) s s'"
proof -
  have "heap_ok s' g' \<and> keeps (live g) s s'"
  proof (cases "as = []")
    case True
    then have "medium g k = b # bs" using c by simp
    from pop_medium(2) [OF ok this] show ?thesis using True by (simp add: s'_def g'_def set_chunk_at_def)
  next
    case False
    from remove_medium [OF ok c False] show ?thesis using False by (simp add: s'_def g'_def set_chunk_at_def)
  qed
  then show "heap_ok s' g'" "keeps (live g) s s'" by simp_all
qed

text \<open>The joins end, because the chunk doubles at each of them, and the chunk ends in some list.\<close>

lemma free_tzl_chunk_ok:
  assumes "heap_ok s g" "(c, 2 ^ k) \<in> raw g" "7 \<le> k" "2 ^ k dvd unat c"
  shows "\<exists>s' g'. free_tzl_chunk c (push_bit k 1) k s = Some s' \<and> heap_ok s' g' \<and> live g' = live g
    \<and> keeps (live g) s s'"
  using assms
proof (induction "32 - k" arbitrary: k c s g rule: less_induct)
  case less
  note ok = less.prems(1) and r = less.prems(2) and k7 = less.prems(3) and al = less.prems(4)
  have "0 < unat c" using raw_facts(4) [OF ok r] by (simp add: unat_gt_0)
  then have "(2::nat) ^ k < 2 ^ 32" using raw_facts(3) [OF ok r] by linarith
  then have k: "k < 32" by (rule power_less_imp_less_exp [rotated]) simp
  define b where "b = c XOR push_bit k 1"
  have sl: "slist (load s) (chunk_at k None s) (medium g k)"
    using heap_okD(3) [OF ok, of k] by (simp add: chunk_at_def)
  show ?case
  proof (cases "b \<in> set (medium g k)")
    case False
    from buddy_loop_absent [OF sl False] obtain it where it: "buddy_loop b k None s = Some (False, it)" by blast
    define t where "t = store c (tzl s k) s"
    have "(2::nat) ^ 2 \<le> 2 ^ k" using k7 by (intro power_increasing) auto
    then have "span c 4 \<subseteq> span c (2 ^ k)" by (intro span_mono) simp
    note st = store_raw [OF ok r this, where v = "tzl s k", folded t_def]
    have l: "load t c = tzl t k" by (simp add: t_def)
    note push = push_medium [OF st(1) r l k7 al]
    have "free_tzl_chunk c (push_bit k 1) k s = Some (t\<lparr>tzl := (tzl t)(k := c)\<rparr>)"
      using it by (subst free_tzl_chunk.simps) (simp add: b_def [symmetric] t_def Let_def del: push_bit_of_1)
    then show ?thesis using push st(2)
      by (intro exI [of _ "t\<lparr>tzl := (tzl t)(k := c)\<rparr>"] exI conjI) (assumption | simp)+
  next
    case True
    then obtain as bs where c: "medium g k = as @ b # bs" "b \<notin> set as" by (meson split_list_first)
    let ?it = "if as = [] then None else Some (last as)"
    define s1 where "s1 = set_chunk_at k ?it (load s b) s"
    define g1 where "g1 = g\<lparr>medium := (medium g)(k := as @ bs), raw := insert (b, 2 ^ k) (raw g)\<rparr>"
    have "buddy_loop b k None s = Some (True, ?it)"
      using buddy_loop_found [OF sl [unfolded c(1)] c(2)] by simp
    then have step: "free_tzl_chunk c (push_bit k 1) k s
        = free_tzl_chunk (min b c) (push_bit (k + 1) 1) (k + 1) s1"
      by (subst free_tzl_chunk.simps)
         (auto simp: b_def [symmetric] s1_def Let_def min_def simp del: push_bit_of_1)
    note ul = unlink_chunk [OF ok c(1), folded s1_def g1_def]
    have r1: "(c, 2 ^ k) \<in> raw g1" "(b, 2 ^ k) \<in> raw g1" using r by (simp_all add: g1_def)
    define g2 where "g2 = g1\<lparr>raw := raw g1 - {(c, 2 ^ k), (b, 2 ^ k)} \<union> {(min b c, 2 ^ (k + 1))}\<rparr>"
    have ok2: "heap_ok s1 g2"
      unfolding g2_def b_def by (rule join_raw [OF ul(1) r1(1) _ k al]) (use r1(2) b_def in simp)
    have r2: "(min b c, 2 ^ (k + 1)) \<in> raw g2" by (simp add: g2_def)
    have al2: "2 ^ (k + 1) dvd unat (min b c)" using buddy_address(2) [OF k al] by (simp add: b_def)
    have "32 - (k + 1) < 32 - k" "7 \<le> k + 1" using k k7 by linarith+
    from less.hyps [OF this(1) ok2 r2 this(2) al2] obtain s' g' where
      f: "free_tzl_chunk (min b c) (push_bit (k + 1) 1) (k + 1) s1 = Some s'" "heap_ok s' g'" "live g' = live g2"
      "keeps (live g2) s1 s'" by blast
    have lv: "live g2 = live g" by (simp add: g2_def g1_def)
    then have "keeps (live g) s s'" using keeps_trans [OF ul(2)] f(4) by simp
    then show ?thesis using f(1-3) lv unfolding step by auto
  qed
qed

lemma kfree_medium_ok:
  assumes ok: "heap_ok s g" and b: "b \<in> live g" and k: "ma_kind b = MEM_MEDIUM"
  shows "releases b s g (kfree_medium b s)"
proof -
  let ?a = "ma_ptr b" and ?k = "power2 (ma_size b)"
  define G where "G = g\<lparr>live := live g - {b}, raw := insert (?a, 2 ^ ?k) (raw g)\<rparr>"
  have okG: "heap_ok s G" using unmark [OF ok b] k by (simp add: G_def room_def)
  have r: "(?a, 2 ^ ?k) \<in> raw G" by (simp add: G_def)
  have "sound s (Live_Item b)" by (rule heap_okD(6) [OF ok]) (use b in simp)
  then have al: "7 \<le> ?k" "2 ^ ?k dvd unat ?a" using k by auto
  from free_tzl_chunk_ok [OF okG r al] obtain s' g' where
    f: "free_tzl_chunk ?a (push_bit ?k 1) ?k s = Some s'" "heap_ok s' g'" "live g' = live G" "keeps (live G) s s'"
    by blast
  have e: "kfree_medium b s = Done () s'" using f(1) by (simp add: kfree_medium_def Let_def del: push_bit_of_1)
  show ?thesis unfolding e by (rule releasesI [OF f(2)]) (use f(3,4) in \<open>simp_all add: G_def\<close>)
qed

end
