(* ===== verification/Heap_Calls.thy ===== *)
theory Heap_Calls
  imports Heap_Buddy
begin

text \<open>
  The entry points of the kernel heap. They provide what the locale \<open>allocator\<close> asks for, so a client
  of the heap has private memory.
\<close>

section \<open>Large blocks\<close>

lemma kalloc_large_ok:
  assumes ok: "heap_ok s g" and z: "unat z + 16 < 2 ^ 32"
  shows "serves z s g (kalloc_large z s)"
proof -
  let ?y = "z + MARK_SIZE"
  have y: "unat ?y = unat z + 16" using z by (simp add: unat_word_ariths(1))
  then have y0: "?y \<noteq> 0" by (metis add_is_0 unat_0 zero_neq_numeral)
  from take_pages [OF ok y0] show ?thesis
  proof
    assume "page_alloc ?y s = Done NULL s"
    then have "kalloc_large z s = Done NULL s" by (simp add: kalloc_large_def Let_def)
    then show ?thesis using serves_null [OF ok keeps_refl refl] by simp
  next
    let ?n = "page_count_padded ?y"
    assume "\<exists>p s'. page_alloc ?y s = Done p s' \<and> p \<noteq> NULL \<and> page_run s p ?n \<and> ?n \<le> page_count s
      \<and> heap_ok s' (g\<lparr>raw := insert (p, ?n * PAGE_SIZE) (raw g)\<rparr>) \<and> (p, ?n * PAGE_SIZE) \<notin> raw g
      \<and> keeps (live g) s s' \<and> page_run s' = page_run s \<and> kheap.more s' = kheap.more s
      \<and> small_next_exponant s' = small_next_exponant s \<and> medium_next_exponant s' = medium_next_exponant s
      \<and> chunkpool s' = chunkpool s \<and> tzl s' = tzl s \<and> page_count s' = page_count s"
    then obtain p s' where p: "page_alloc ?y s = Done p s'" "p \<noteq> NULL" "page_run s' p ?n"
      "heap_ok s' (g\<lparr>raw := insert (p, ?n * PAGE_SIZE) (raw g)\<rparr>)" "keeps (live g) s s'" by auto
    let ?b = "\<lparr>ma_ptr = p, ma_kind = MEM_LARGE, ma_size = ?y\<rparr>"
    have "serves z s g (case mem_mark_and_get_user_ptr p ?y MEM_LARGE s' of (q, s2) \<Rightarrow> Done q s2)"
      by (rule serves_mark [OF p(4), of _ ?b])
         (use y p(3,5) page_count_padded_covers [OF y0] in \<open>simp_all add: room_def\<close>)
    then show ?thesis using p(1,2) by (simp add: kalloc_large_def Let_def)
  qed
qed

lemma kfree_large_ok:
  assumes ok: "heap_ok s g" and b: "b \<in> live g" and k: "ma_kind b = MEM_LARGE"
  shows "releases b s g (kfree_large b s)"
proof -
  let ?c = "page_count_padded (ma_size b)"
  define G where "G = g\<lparr>live := live g - {b}, raw := insert (ma_ptr b, ?c * PAGE_SIZE) (raw g)\<rparr>"
  have okG: "heap_ok s G" using unmark [OF ok b] k by (simp add: G_def room_def)
  have "sound s (Live_Item b)" by (rule heap_okD(6) [OF ok]) (use b in simp)
  then have so: "page_run s (ma_ptr b) ?c" "ma_size b \<noteq> 0" using k by auto
  from give_pages [OF okG so(2) refl _ so(1)] obtain s' where
    f: "page_free (ma_ptr b) (ma_size b) s = Done () s'"
      "heap_ok s' (G\<lparr>raw := raw G - {(ma_ptr b, ?c * PAGE_SIZE)}\<rparr>)" "keeps (live G) s s'"
    by (auto simp: G_def)
  show ?thesis unfolding kfree_large_def f(1) by (rule releasesI [OF f(2)]) (use f(3) in \<open>simp_all add: G_def\<close>)
qed

section \<open>Entry points\<close>

lemma kalloc_ok:
  assumes ok: "heap_ok s g" "raw g = {}" and z: "unat z + 16 < 2 ^ 32"
  shows "serves z s g (kalloc z s)"
proof -
  consider "z = 0" | "z \<noteq> 0" "LARGEALLOC \<le> z" | "z \<noteq> 0" "\<not> LARGEALLOC \<le> z" "z \<le> SMALLALLOC"
    | "z \<noteq> 0" "\<not> LARGEALLOC \<le> z" "\<not> z \<le> SMALLALLOC" by blast
  then show ?thesis
  proof cases
    case 1
    then show ?thesis using serves_null [OF ok(1) keeps_refl refl] by (simp add: kalloc_def)
  next
    case 2
    then show ?thesis using kalloc_large_ok [OF ok(1) z] by (simp add: kalloc_def)
  next
    case 3
    then have "unat z \<le> 64" by (simp add: word_le_nat_alt)
    then show ?thesis using 3 kalloc_small_ok [OF ok(1)] by (simp add: kalloc_def)
  next
    case 4
    then have "64 < unat z" "unat z < 0x20000" by (simp_all add: word_le_nat_alt word_less_nat_alt)
    then show ?thesis using 4 kalloc_medium_ok [OF ok(1)] by (simp add: kalloc_def)
  qed
qed

lemma kfree_ok:
  assumes ok: "heap_ok s g" and b: "b \<in> live g"
  shows "releases b s g (kfree (ma_ptr b + MARK_USER_OFFSET) s)"
proof -
  have "sound s (Live_Item b)" by (rule heap_okD(6) [OF ok]) (use b in simp)
  then have c: "mem_mark_check (ma_ptr b + 8) s = Some b"
    and k: "ma_kind b = MEM_SMALL \<or> ma_kind b = MEM_MEDIUM \<or> ma_kind b = MEM_LARGE" by auto
  show ?thesis
    using k kfree_small_ok [OF ok b] kfree_medium_ok [OF ok b] kfree_large_ok [OF ok b]
    by (elim disjE) (simp_all add: kfree_def c)
qed

section \<open>The kernel heap is an allocator\<close>

text \<open>The client knows of a block the user pointer and the size it asked for.\<close>

definition client_of :: "(ptr \<times> u32) set \<Rightarrow> mem_alloc set \<Rightarrow> bool" where
  "client_of B M \<longleftrightarrow> inj_on fst B
     \<and> (\<forall>e \<in> B. \<exists>b \<in> M. fst e = ma_ptr b + MARK_USER_OFFSET \<and> unat (snd e) + 16 \<le> unat (ma_size b))"

definition heap_holds :: "kheap \<Rightarrow> (ptr \<times> u32) set \<Rightarrow> bool" where
  "heap_holds s B \<longleftrightarrow> (\<exists>g. heap_ok s g \<and> raw g = {} \<and> client_of B (live g))"

lemma client_ofE:
  assumes "client_of B M" "e \<in> B"
  obtains b where "b \<in> M" "fst e = ma_ptr b + 8" "unat (snd e) + 16 \<le> unat (ma_size b)"
  using assms unfolding client_of_def by blast

lemma client_of_inj: "client_of B M \<Longrightarrow> d \<in> B \<Longrightarrow> e \<in> B \<Longrightarrow> fst d = fst e \<Longrightarrow> d = e"
  by (auto simp: client_of_def dest: inj_onD)

lemma live_apart:
  assumes "heap_ok s g" "b \<in> live g" "c \<in> live g" "b \<noteq> c"
  shows "disjnt (span (ma_ptr b) (room b)) (span (ma_ptr c) (room c))" "ma_ptr b \<noteq> ma_ptr c"
proof -
  show d: "disjnt (span (ma_ptr b) (room b)) (span (ma_ptr c) (room c))"
    using heap_okD(4) [OF assms(1), of "Live_Item b" "Live_Item c"] assms(2-4) by simp
  have "0 < room b" "0 < room c"
    using user_ptr(5,6) [OF assms(1,2)] user_ptr(5,6) [OF assms(1,3)] by linarith+
  with d show "ma_ptr b \<noteq> ma_ptr c" by (auto simp: disjnt_def span_def)
qed

lemma user_area:
  assumes ok: "heap_ok s g" and b: "b \<in> live g" "fst e = ma_ptr b + 8" "unat (snd e) + 16 \<le> unat (ma_size b)"
  shows "area e \<subseteq> {unat (ma_ptr b) + 8 ..< unat (ma_ptr b) + unat (ma_size b) - 8}"
    "area e \<subseteq> span (ma_ptr b) (room b)"
proof -
  note u = user_ptr [OF ok b(1)]
  show "area e \<subseteq> {unat (ma_ptr b) + 8 ..< unat (ma_ptr b) + unat (ma_size b) - 8}"
    using u(2) b(3) by (auto simp: area_def b(2))
  then show "area e \<subseteq> span (ma_ptr b) (room b)" using u(6) by (fastforce simp: span_def)
qed

lemma kalloc_holds:
  assumes h: "heap_holds s B" and z: "unat z + 16 < 2 ^ 32"
  shows "\<exists>q s'. kalloc z s = Done q s'
    \<and> (q = NULL \<and> heap_holds s' B \<or> q \<noteq> NULL \<and> q \<notin> fst ` B \<and> heap_holds s' (insert (q, z) B))
    \<and> (\<forall>x. \<forall>e \<in> B. in_area x e \<longrightarrow> mem s' x = mem s x)"
proof -
  from h obtain g where g: "heap_ok s g" "raw g = {}" "client_of B (live g)" by (auto simp: heap_holds_def)
  from kalloc_ok [OF g(1,2) z] obtain q s' g' where k: "kalloc z s = Done q s'" "heap_ok s' g'" "keeps (live g) s s'"
    "raw g' = {}" "q = NULL \<and> live g' = live g \<or> (\<exists>b. q = ma_ptr b + 8 \<and> q \<noteq> NULL \<and> b \<notin> live g
      \<and> live g' = insert b (live g) \<and> unat z + 16 \<le> unat (ma_size b))" unfolding serves_def by blast
  have "mem s' x = mem s x" if e: "e \<in> B" "in_area x e" for x e
  proof -
    obtain b where b: "b \<in> live g" "fst e = ma_ptr b + 8" "unat (snd e) + 16 \<le> unat (ma_size b)"
      by (rule client_ofE [OF g(3) e(1)])
    have "unat x \<in> live_bytes (live g)"
      using user_area(2) [OF g(1) b] e(2) b(1) unfolding in_area_iff live_bytes_def by blast
    with k(3) show ?thesis by (simp add: keeps_def)
  qed
  moreover from k(5) have "q = NULL \<and> heap_holds s' B
      \<or> q \<noteq> NULL \<and> q \<notin> fst ` B \<and> heap_holds s' (insert (q, z) B)"
  proof
    assume "q = NULL \<and> live g' = live g"
    with k(2,4) g(3) show ?thesis by (auto simp: heap_holds_def)
  next
    assume "\<exists>b. q = ma_ptr b + 8 \<and> q \<noteq> NULL \<and> b \<notin> live g \<and> live g' = insert b (live g)
      \<and> unat z + 16 \<le> unat (ma_size b)"
    then obtain b where b: "q = ma_ptr b + 8" "q \<noteq> NULL" "b \<notin> live g" "live g' = insert b (live g)"
      "unat z + 16 \<le> unat (ma_size b)" by blast
    have "q \<notin> fst ` B"
    proof
      assume "q \<in> fst ` B"
      then obtain e where e: "e \<in> B" "fst e = q" by force
      obtain c where c: "c \<in> live g" "fst e = ma_ptr c + 8" by (rule client_ofE [OF g(3) e(1)])
      have "ma_ptr b \<noteq> ma_ptr c" using live_apart(2) [OF k(2), of b c] c(1) b(3,4) by auto
      with e(2) c(2) b(1) show False by simp
    qed
    moreover have "client_of (insert (q, z) B) (live g')"
      using g(3) b \<open>q \<notin> fst ` B\<close> by (auto simp: client_of_def)
    ultimately show ?thesis using b(2) k(2,4) by (auto simp: heap_holds_def)
  qed
  ultimately show ?thesis using k(1) by blast
qed

lemma kfree_holds:
  assumes h: "heap_holds s B" and e: "(q, z) \<in> B"
  shows "\<exists>s'. kfree q s = Done () s' \<and> heap_holds s' (B - {(q, z)})
    \<and> (\<forall>x. \<forall>d \<in> B - {(q, z)}. in_area x d \<longrightarrow> mem s' x = mem s x)"
proof -
  from h obtain g where g: "heap_ok s g" "raw g = {}" "client_of B (live g)" by (auto simp: heap_holds_def)
  obtain b where b: "b \<in> live g" "q = ma_ptr b + 8" using client_ofE [OF g(3) e] by auto
  from kfree_ok [OF g(1) b(1)] obtain s' g' where k: "kfree q s = Done () s'" "heap_ok s' g'" "keeps (live g') s s'"
    "raw g' = {}" "live g' = live g - {b}" unfolding releases_def b(2) by blast
  have other: "\<exists>c \<in> live g'. fst d = ma_ptr c + 8 \<and> unat (snd d) + 16 \<le> unat (ma_size c)" if d: "d \<in> B - {(q, z)}" for d
  proof -
    obtain c where c: "c \<in> live g" "fst d = ma_ptr c + 8" "unat (snd d) + 16 \<le> unat (ma_size c)"
      using d by (auto intro: client_ofE [OF g(3)])
    have "fst d \<noteq> q" using client_of_inj [OF g(3) _ e, of d] d by auto
    then have "c \<noteq> b" using c(2) b(2) by auto
    with c k(5) show ?thesis by auto
  qed
  have "inj_on fst (B - {(q, z)})" using g(3) by (auto simp: client_of_def intro: inj_on_subset)
  then have "client_of (B - {(q, z)}) (live g')" using other unfolding client_of_def by blast
  then have "heap_holds s' (B - {(q, z)})" using k(2,4) unfolding heap_holds_def by blast
  moreover have "mem s' x = mem s x" if d: "d \<in> B - {(q, z)}" "in_area x d" for x d
  proof -
    from other [OF d(1)] obtain c where c: "c \<in> live g'" "fst d = ma_ptr c + 8" "unat (snd d) + 16 \<le> unat (ma_size c)"
      by blast
    have "unat x \<in> live_bytes (live g')"
      using user_area(2) [OF k(2) c] d(2) c(1) unfolding in_area_iff live_bytes_def by blast
    with k(3) show ?thesis by (simp add: keeps_def)
  qed
  ultimately show ?thesis using k(1) by blast
qed

text \<open>The user may write anything into his part of a block: the marks and the links lie outside.\<close>

lemma user_write:
  assumes h: "heap_holds s B" and e: "e \<in> B" "in_area x e"
  shows "heap_holds (poke x v s) B"
proof -
  from h obtain g where g: "heap_ok s g" "raw g = {}" "client_of B (live g)" by (auto simp: heap_holds_def)
  obtain b where b: "b \<in> live g" "fst e = ma_ptr b + 8" "unat (snd e) + 16 \<le> unat (ma_size b)"
    by (rule client_ofE [OF g(3) e(1)])
  have x: "unat x \<in> area e" using e(2) by (simp add: in_area_iff)
  note u = user_area [OF g(1) b]
  have own: "unat x \<in> owned s" using user_ptr(4) [OF g(1) b(1)] u(1) x by (fastforce simp: span_def)
  have out: "unat x \<notin> vital y" if "y \<in> items g" for y
  proof (cases "y = Live_Item b")
    case True
    note w = user_ptr [OF g(1) b(1)]
    have "unat (ma_ptr b + ma_size b - 8) = unat (ma_ptr b) + unat (ma_size b) - 8"
      by (rule unat_tail(1) [OF w(3,5)]) simp
    then show ?thesis using u(1) x unfolding True by (fastforce simp: span_def)
  next
    case False
    then have "disjnt (place y) (place (Live_Item b))" using heap_okD(4) [OF g(1) that, of "Live_Item b"] b(1) by simp
    then show ?thesis using vital_items [OF g(1) that] u(2) x by (auto simp: disjnt_def)
  qed
  have "same_on (\<Union>y \<in> items g. vital y) s (poke x v s)"
    using out owned_not_bitmap [OF heap_okD(1) [OF g(1)] own] by (auto simp: same_on_def poke_def)
  then have "heap_ok (poke x v s) g" by (rule heap_ok_same [OF g(1)]) (simp_all add: poke_def)
  with g(2,3) show ?thesis by (auto simp: heap_holds_def)
qed

interpretation kheap_blocks: allocator kalloc "\<lambda>q z. kfree q" poke mem "\<lambda>z. unat z + 16 < 2 ^ 32" heap_holds
proof
  show "\<exists>q s'. kalloc z s = Done q s'
      \<and> (q = NULL \<and> heap_holds s' B \<or> q \<noteq> NULL \<and> q \<notin> fst ` B \<and> heap_holds s' (insert (q, z) B))
      \<and> (\<forall>x. \<forall>e \<in> B. in_area x e \<longrightarrow> mem s' x = mem s x)" if "heap_holds s B" "unat z + 16 < 2 ^ 32" for s B z
    using that by (rule kalloc_holds)
  show "\<exists>s'. kfree q s = Done () s' \<and> heap_holds s' (B - {(q, z)})
      \<and> (\<forall>x. \<forall>e \<in> B - {(q, z)}. in_area x e \<longrightarrow> mem s' x = mem s x)" if "heap_holds s B" "(q, z) \<in> B" for s B q z
    using that by (rule kfree_holds)
  show "heap_holds (poke x v s) B \<and> mem (poke x v s) = (mem s)(x := v)"
    if "heap_holds s B" "e \<in> B" "in_area x e" for s B e x v
    using user_write [OF that] by (simp add: poke_def)
  fix s B d e
  assume h: "heap_holds s B" "d \<in> B" "e \<in> B"
  then obtain g where g: "heap_ok s g" "client_of B (live g)" by (auto simp: heap_holds_def)
  obtain b where b: "b \<in> live g" "fst d = ma_ptr b + 8" "unat (snd d) + 16 \<le> unat (ma_size b)"
    by (rule client_ofE [OF g(2) h(2)])
  show "fst d \<noteq> NULL" using user_ptr(1) [OF g(1) b(1)] b(2) by simp
  obtain c where c: "c \<in> live g" "fst e = ma_ptr c + 8" "unat (snd e) + 16 \<le> unat (ma_size c)"
    by (rule client_ofE [OF g(2) h(3)])
  assume "d \<noteq> e"
  then have f: "fst d \<noteq> fst e" using client_of_inj [OF g(2) h(2,3)] by blast
  then have "b \<noteq> c" using b(2) c(2) by auto
  then have "disjnt (span (ma_ptr b) (room b)) (span (ma_ptr c) (room c))"
    by (rule live_apart(1) [OF g(1) b(1) c(1)])
  then show "fst d \<noteq> fst e \<and> disjnt (area d) (area e)"
    using f user_area(2) [OF g(1) b] user_area(2) [OF g(1) c] by (auto simp: disjnt_def)
qed

section \<open>Start\<close>

text \<open>After \<open>page_init\<close>, with the arena still zero, no block is held.\<close>

lemma heap_start:
  assumes h: "mem_heap s \<noteq> NULL" "mem_heap s \<le> mem_heap_end s"
    and n: "PAGE_SIZE \<le> unat (mem_heap_end s - mem_heap s)" "unat (mem_heap_end s - mem_heap s) \<le> 2 ^ 30"
    and z: "chunkpool s = NULL" "tzl s = (\<lambda>_. NULL)" "small_next_exponant s = 0" "medium_next_exponant s = 0"
  shows "heap_holds (page_init s) {}"
proof -
  let ?s = "page_init s" and ?g = "\<lparr>small = [], medium = (\<lambda>_. []), live = {}, raw = {}\<rparr>"
  have m: "chunkpool ?s = NULL" "tzl ?s = (\<lambda>_. NULL)" "small_next_exponant ?s = 0" "medium_next_exponant ?s = 0"
  proof -
    have "pages.more ?s = pages.more s" by (simp add: page_init_def Let_def)
    then show "chunkpool ?s = NULL" "tzl ?s = (\<lambda>_. NULL)" "small_next_exponant ?s = 0" "medium_next_exponant ?s = 0"
      using z by (cases s; cases ?s; simp)+
  qed
  have "page_count ?s \<le> 2 ^ 18" using n(2) by (simp add: page_init_def Let_def div_le_mono [of _ "2 ^ 30" 4096, simplified])
  then have "heap_ok ?s ?g" using page_init_ok(1) [OF h n(1)] m by (auto simp: heap_ok_def items_def)
  then show ?thesis by (auto simp: heap_holds_def client_of_def)
qed

end
