(* ===== verification/Memory_Properties.thy ===== *)
theory Memory_Properties
  imports Heap_Calls
begin

text \<open>
  The properties of the page allocator and the kernel heap, each with a concrete instance.
\<close>

section \<open>A machine at start\<close>

text \<open>16 MiB of memory with the kernel image in the first two, as the linker script lays it out.\<close>

definition start_heap :: kheap where
  "start_heap = \<lparr>mem = (\<lambda>_. 0), mem_heap = 0x200000, mem_heap_end = 0x1000000, heap_size = 0,
     page_count = 0, meta_page_count = 0, alloc_count = 0, chunkpool = NULL, tzl = (\<lambda>_. NULL),
     small_next_exponant = 0, medium_next_exponant = 0\<rparr>"

lemma start_heap_simps [simp]:
  "mem_heap start_heap = 0x200000" "mem_heap_end start_heap = 0x1000000" "chunkpool start_heap = NULL"
  "tzl start_heap = (\<lambda>_. NULL)" "small_next_exponant start_heap = 0" "medium_next_exponant start_heap = 0"
  by (simp_all add: start_heap_def)

lemma start_pages: "pages_ok (page_init start_heap)" "page_count (page_init start_heap) = 3584"
  "meta_page_count (page_init start_heap) = 1"
  "\<forall>i < 3584. used (page_init start_heap) i \<longleftrightarrow> i < 1"
proof -
  show c: "page_count (page_init start_heap) = 3584" by (simp add: page_init_def Let_def)
  show m: "meta_page_count (page_init start_heap) = 1"
    by (simp add: page_init_def Let_def page_count_padded_def)
  show "pages_ok (page_init start_heap)" by (rule page_init_ok(1)) simp_all
  have "\<forall>i < page_count (page_init start_heap). used (page_init start_heap) i
      \<longleftrightarrow> i < meta_page_count (page_init start_heap)"
    by (rule page_init_ok(2)) simp_all
  then show "\<forall>i < 3584. used (page_init start_heap) i \<longleftrightarrow> i < 1" unfolding c m .
qed

section \<open>The kernel heap\<close>



text \<open>
  The index that \<open>power2\<close> computes for a size is the least exponent of a power of two that
  holds the size.
\<close>

theorem power2_least:
  assumes "2 \<le> unat z"
  shows "power2 z = (LEAST k. unat z \<le> 2 ^ k)"
  using power2_bounds(3) [OF assms] by (intro Least_equality [symmetric]) simp_all

theorem power2_least_witness:
  "2 \<le> unat (80 :: u32) \<and> power2 80 = (LEAST k. unat (80 :: u32) \<le> 2 ^ k)"
  using power2_least [of 80] by simp

lemma padded_one: "0 < unat y \<Longrightarrow> unat y \<le> PAGE_SIZE \<Longrightarrow> page_count_padded y = 1"
proof -
  assume y: "0 < unat y" "unat y \<le> PAGE_SIZE"
  then have "y \<noteq> 0" by auto
  then have "unat (y - 1) = unat y - 1" by (rule unat_minus_one)
  then have "unat (y - 1) div 4096 = 0" using y by simp
  then show ?thesis by (simp add: page_count_padded_def unat_word_ariths(1) unat_div)
qed

lemma mark_frame:
  "mem_mark_and_get_user_ptr p z k s = (q, s') \<Longrightarrow> q = p + 8 \<and> alloc_count s' = alloc_count s"
  by (auto simp: mem_mark_and_get_user_ptr_def Let_def)

text \<open>
  C31. A request whose size, with the marks, is exactly \<open>2 ^ 32\<close> stops the machine, and one that is
  larger still is served by a single page: the sum of the size and the marks wraps around.
\<close>

theorem kalloc_size_wraps:
  "kalloc 0xFFFFFFF0 s = Panic ''failed assertion size > 0'' \<and>
   (0xFFFFFFF0 < z \<and> pages_ok s \<and> free_run s 1 a \<longrightarrow>
     (\<exists>q s'. kalloc z s = Done q s' \<and> page_used s' = page_used s + 1))"
proof (intro conjI impI)
  show "kalloc 0xFFFFFFF0 s = Panic ''failed assertion size > 0''"
    by (simp add: kalloc_def kalloc_large_def page_alloc_def)
  assume h: "0xFFFFFFF0 < z \<and> pages_ok s \<and> free_run s 1 a"
  let ?y = "z + MARK_SIZE"
  define m where "m = - z"
  have z: "z = - m" by (simp add: m_def)
  have "0xFFFFFFF0 < unat z" using h by (simp add: word_less_nat_alt)
  moreover have "unat z < 2 ^ 32" by (rule unat_lt32)
  ultimately have y: "unat ?y = unat z + 16 - 2 ^ 32"
    by (simp add: unat_word_ariths(1) mod_if [of "unat z + 16"])
  then have y1: "0 < unat ?y" "unat ?y \<le> PAGE_SIZE"
    using \<open>0xFFFFFFF0 < unat z\<close> \<open>unat z < 2 ^ 32\<close> by simp_all
  have c: "page_count_padded ?y = 1" by (rule padded_one [OF y1])
  have "?y \<noteq> 0" using y1 by (metis unat_0 less_irrefl)
  from page_alloc_used [OF _ this, of s] h c obtain b s1 where
    p: "page_alloc ?y s = Done (page_addr s b) s1" "page_addr s b \<noteq> NULL" "s1 = taken 1 b s" by auto
  obtain q s' where k: "mem_mark_and_get_user_ptr (page_addr s b) ?y MEM_LARGE s1 = (q, s')"
    by (cases "mem_mark_and_get_user_ptr (page_addr s b) ?y MEM_LARGE s1")
  have "z \<noteq> 0" "LARGEALLOC \<le> z" using h by (auto simp: word_less_nat_alt word_le_nat_alt)
  then have "kalloc z s = Done q s'" using p k by (simp add: kalloc_def kalloc_large_def Let_def)
  moreover have "page_used s' = page_used s + 1" using mark_frame [OF k] p(3) by (simp add: page_used_def)
  ultimately show "\<exists>q s'. kalloc z s = Done q s' \<and> page_used s' = page_used s + 1" by blast
qed

theorem kalloc_size_wraps_witness:
  "\<exists>q s'. kalloc 0xFFFFFFFC (page_init start_heap) = Done q s'
     \<and> page_used s' = page_used (page_init start_heap) + 1"
proof -
  have "free_run (page_init start_heap) 1 1"
    using start_pages(4) by (simp add: free_run_def start_pages(2,3))
  then show ?thesis
    using kalloc_size_wraps [of "page_init start_heap" "0xFFFFFFFC" 1] start_pages(1) by simp
qed

section \<open>Pages\<close>

text \<open>
  C30. \<open>page_alloc\<close> takes the first run of free pages that is long enough, marks exactly these pages and
  changes no byte outside the bitmap; when there is none it returns NULL and changes nothing.
\<close>

theorem page_alloc_takes_first_fit:
  assumes ok: "pages_ok s" and sz: "sz \<noteq> 0"
  shows "if \<exists>a. free_run s (page_count_padded sz) a
    then \<exists>a s'. page_alloc sz s = Done (page_addr s a) s' \<and> free_run s (page_count_padded sz) a
      \<and> (\<forall>b < a. \<not> free_run s (page_count_padded sz) b)
      \<and> (\<forall>i < page_count s. used s' i \<longleftrightarrow> used s i \<or> a \<le> i \<and> i < a + page_count_padded sz)
      \<and> (\<forall>x. x \<notin> bitmap s \<longrightarrow> mem s' x = mem s x)
    else page_alloc sz s = Done NULL s"
proof -
  have "mem (taken (page_count_padded sz) a s) x = mem s x"
    if "free_run s (page_count_padded sz) a" "x \<notin> bitmap s" for a x
    using that set_pages_outside [OF ok _ that(2)] by (auto simp: free_run_def taken_def)
  with page_alloc_used [OF ok sz] show ?thesis by (auto split: if_splits)
qed

theorem page_alloc_takes_first_fit_witness:
  "\<exists>s'. page_alloc 0x2001 (page_init start_heap) = Done 0x201000 s'
     \<and> (\<forall>i < 3584. used s' i \<longleftrightarrow> i < 4)"
proof -
  let ?s = "page_init start_heap"
  have c: "page_count_padded 0x2001 = 3" by (simp add: page_count_padded_def)
  have f: "free_run ?s 3 1" using start_pages(4) by (simp add: free_run_def start_pages(2,3))
  have "(if \<exists>a. free_run ?s 3 a
    then \<exists>a s'. page_alloc 0x2001 ?s = Done (page_addr ?s a) s' \<and> free_run ?s 3 a
      \<and> (\<forall>b < a. \<not> free_run ?s 3 b)
      \<and> (\<forall>i < 3584. used s' i \<longleftrightarrow> used ?s i \<or> a \<le> i \<and> i < a + 3)
      \<and> (\<forall>x. x \<notin> bitmap ?s \<longrightarrow> mem s' x = mem ?s x)
    else page_alloc 0x2001 ?s = Done NULL ?s)"
    using page_alloc_takes_first_fit [OF start_pages(1), of "0x2001"] unfolding c start_pages(2) by simp
  moreover have "\<exists>a. free_run ?s 3 a" using f by blast
  ultimately obtain a s' where
    a: "page_alloc 0x2001 ?s = Done (page_addr ?s a) s'" "free_run ?s 3 a" "\<forall>b < a. \<not> free_run ?s 3 b"
      "\<forall>i < 3584. used s' i \<longleftrightarrow> used ?s i \<or> a \<le> i \<and> i < a + 3" by auto
  have "a = 1" using a(2,3) f by (metis free_run_def nat_neq_iff less_one not_less start_pages(3))
  moreover have "mem_heap ?s = 0x200000" by (simp add: page_init_def Let_def)
  ultimately show ?thesis using a(1,4) start_pages(4) by (auto simp: page_addr_def)
qed

text \<open>
  \<open>page_free\<close> makes the pages of the block free again, those and no others, but the count of used
  pages that \<open>page_used\<close> reports does not go down.
\<close>

theorem page_free_leaves_count:
  assumes "pages_ok s" "sz \<noteq> 0" "meta_page_count s \<le> a" "a + page_count_padded sz \<le> page_count s"
  shows "\<exists>s'. page_free (page_addr s a) sz s = Done () s' \<and> page_used s' = page_used s
    \<and> (\<forall>i < page_count s. used s' i \<longleftrightarrow> used s i \<and> \<not> (a \<le> i \<and> i < a + page_count_padded sz))
    \<and> free_run s' (page_count_padded sz) a"
proof -
  have lt: "a < page_count s" using assms(4) page_count_padded_pos [of sz] by linarith
  from page_free_used [OF assms lt] obtain s' where s': "page_free (page_addr s a) sz s = Done () s'"
    "\<forall>i < page_count s. used s' i \<longleftrightarrow> used s i \<and> \<not> (a \<le> i \<and> i < a + page_count_padded sz)"
    "page_used s' = page_used s" "s' = set_pages (page_count_padded sz) a False s" by blast
  then have "free_run s' (page_count_padded sz) a" using assms(3,4) by (auto simp: free_run_def)
  with s' show ?thesis by blast
qed

theorem page_free_leaves_count_witness:
  "\<exists>s'. page_free (page_addr (page_init start_heap) 5) 4096 (page_init start_heap) = Done () s'
     \<and> page_used s' = page_used (page_init start_heap)"
proof -
  have "page_count_padded 4096 = 1" by (simp add: page_count_padded_def)
  then show ?thesis
    using page_free_leaves_count [OF start_pages(1), of 4096 5] by (auto simp: start_pages(2,3))
qed

end
