(* ===== verification/Strings.thy ===== *)
theory Strings
  imports Prelude
begin

text \<open>
  The memory and string functions of \<^verbatim>\<open>src/shared/string.c\<close>, over the byte memory. Lengths are \<open>nat\<close>,
  pointers wrap around. A loop that looks for a null byte is a partial function: \<open>None\<close> when there is
  none in the whole memory. The string instructions of the i386 branches are written out. A \<open>char\<close> that
  is only compared and copied is a byte.
\<close>

section \<open>Memory\<close>

primrec memccpy :: "ptr \<Rightarrow> ptr \<Rightarrow> u8 \<Rightarrow> nat \<Rightarrow> bmem \<Rightarrow> ptr \<times> bmem" where
  "memccpy q p c 0 m = (NULL, m)"
| "memccpy q p c (Suc n) m =
     (let ch = m p; m1 = m(q := ch) in if ch = c then (q + 1, m1) else memccpy (q + 1) (p + 1) c n m1)"

primrec memchr :: "ptr \<Rightarrow> u8 \<Rightarrow> nat \<Rightarrow> bmem \<Rightarrow> ptr" where
  "memchr sp c 0 m = NULL"
| "memchr sp c (Suc n) m = (if m sp = c then sp else memchr (sp + 1) c n m)"

primrec memrchr_loop :: "ptr \<Rightarrow> u8 \<Rightarrow> nat \<Rightarrow> bmem \<Rightarrow> ptr" where
  "memrchr_loop sp c 0 m = NULL"
| "memrchr_loop sp c (Suc n) m = (if m sp = c then sp else memrchr_loop (sp - 1) c n m)"

definition memrchr :: "ptr \<Rightarrow> u8 \<Rightarrow> nat \<Rightarrow> bmem \<Rightarrow> ptr" where
  "memrchr s c n m = memrchr_loop (s + of_nat n - 1) c n m"

primrec memcmp :: "ptr \<Rightarrow> ptr \<Rightarrow> nat \<Rightarrow> bmem \<Rightarrow> int" where
  "memcmp c1 c2 0 m = 0"
| "memcmp c1 c2 (Suc n) m =
     (let d = uint (m c1) - uint (m c2) in if d \<noteq> 0 then d else memcmp (c1 + 1) (c2 + 1) n m)"

text \<open>\<open>rep movsl\<close>, \<open>rep movsb\<close> with the direction flag clear and set, \<open>rep stosl\<close>, \<open>rep stosb\<close>.\<close>

primrec movsl :: "nat \<Rightarrow> ptr \<times> ptr \<times> bmem \<Rightarrow> ptr \<times> ptr \<times> bmem" where
  "movsl 0 r = r"
| "movsl (Suc n) r = movsl n (case r of (p, q, m) \<Rightarrow> (p + 4, q + 4, store32 m q (load32 m p)))"

primrec movsb :: "nat \<Rightarrow> ptr \<times> ptr \<times> bmem \<Rightarrow> ptr \<times> ptr \<times> bmem" where
  "movsb 0 r = r"
| "movsb (Suc n) r = movsb n (case r of (p, q, m) \<Rightarrow> (p + 1, q + 1, m(q := m p)))"

primrec movsb_down :: "nat \<Rightarrow> ptr \<times> ptr \<times> bmem \<Rightarrow> ptr \<times> ptr \<times> bmem" where
  "movsb_down 0 r = r"
| "movsb_down (Suc n) r = movsb_down n (case r of (p, q, m) \<Rightarrow> (p - 1, q - 1, m(q := m p)))"

primrec stosl :: "nat \<Rightarrow> u32 \<Rightarrow> ptr \<times> bmem \<Rightarrow> ptr \<times> bmem" where
  "stosl 0 a r = r"
| "stosl (Suc n) a r = stosl n a (case r of (q, m) \<Rightarrow> (q + 4, store32 m q a))"

primrec stosb :: "nat \<Rightarrow> u32 \<Rightarrow> ptr \<times> bmem \<Rightarrow> ptr \<times> bmem" where
  "stosb 0 a r = r"
| "stosb (Suc n) a r = stosb n a (case r of (q, m) \<Rightarrow> (q + 1, m(q := ucast a)))"

definition memcpy :: "ptr \<Rightarrow> ptr \<Rightarrow> nat \<Rightarrow> bmem \<Rightarrow> ptr \<times> bmem" where
  "memcpy dst src n m = (case movsb (n mod 4) (movsl (n div 4) (src, dst, m)) of (p, q, m1) \<Rightarrow> (dst, m1))"

definition memmove :: "ptr \<Rightarrow> ptr \<Rightarrow> nat \<Rightarrow> bmem \<Rightarrow> ptr \<times> bmem" where
  "memmove dst src n m =
     (if dst < src then (case movsb n (src, dst, m) of (p, q, m1) \<Rightarrow> (dst, m1))
      else (case movsb_down n (src + of_nat n - 1, dst + of_nat n - 1, m) of (p, q, m1) \<Rightarrow> (dst, m1)))"

definition memset :: "ptr \<Rightarrow> u8 \<Rightarrow> nat \<Rightarrow> bmem \<Rightarrow> ptr \<times> bmem" where
  "memset dst c n m =
     (let a = ucast c * 0x01010101
      in case stosb (n mod 4) a (stosl (n div 4) a (dst, m)) of (q, m1) \<Rightarrow> (dst, m1))"

primrec memswap :: "ptr \<Rightarrow> ptr \<Rightarrow> nat \<Rightarrow> bmem \<Rightarrow> bmem" where
  "memswap p q 0 m = m"
| "memswap p q (Suc n) m =
     (let tmp = m p; m1 = m(p := m q); m2 = m1(q := tmp) in memswap (p + 1) (q + 1) n m2)"

text \<open>
  The loop of \<open>memmem\<close> for needles of two bytes and more. \<open>twin\<close>: the first two bytes of the needle are
  the same, which fixes the steps \<open>k\<close> and \<open>l\<close>.
\<close>

function memmem_loop :: "bool \<Rightarrow> nat \<Rightarrow> ptr \<Rightarrow> nat \<Rightarrow> ptr \<Rightarrow> nat \<Rightarrow> bmem \<Rightarrow> ptr" where
  "memmem_loop twin j y n x mlen m =
     (let k = (if twin then 2 else 1); l = (if twin then 1 else 2)
      in if j \<le> n - mlen then
        (if m (x + 1) \<noteq> m (y + of_nat (j + 1)) then memmem_loop twin (j + k) y n x mlen m
         else if memcmp (x + 2) (y + of_nat j + 2) (mlen - 2) m = 0 \<and> m x = m (y + of_nat j)
         then y + of_nat j
         else memmem_loop twin (j + l) y n x mlen m)
      else NULL)"
  by pat_completeness auto
termination
  by (relation "measure (\<lambda>(twin, j, y, n, x, mlen, m). n - mlen + 1 - j)") auto

declare memmem_loop.simps [simp del]

definition memmem :: "ptr \<Rightarrow> nat \<Rightarrow> ptr \<Rightarrow> nat \<Rightarrow> bmem \<Rightarrow> ptr" where
  "memmem haystack n needle mlen m =
     (if mlen > n \<or> mlen = 0 \<or> n = 0 then NULL
      else if mlen \<noteq> 1 then memmem_loop (m needle = m (needle + 1)) 0 haystack n needle mlen m
      else memchr haystack (m needle) n m)"

section \<open>Strings\<close>

partial_function (option) strchr :: "ptr \<Rightarrow> u8 \<Rightarrow> bmem \<Rightarrow> ptr option" where
  "strchr s c m = (if m s \<noteq> c then (if m s = 0 then Some NULL else strchr (s + 1) c m) else Some s)"

partial_function (option) strrchr_loop :: "ptr \<Rightarrow> u8 \<Rightarrow> ptr \<Rightarrow> bmem \<Rightarrow> ptr option" where
  "strrchr_loop s c found m =
     (if m s \<noteq> 0 then strrchr_loop (s + 1) c (if m s = c then s else found) m else Some found)"

definition strrchr :: "ptr \<Rightarrow> u8 \<Rightarrow> bmem \<Rightarrow> ptr option" where
  "strrchr s c m = strrchr_loop s c NULL m"

partial_function (option) strcmp :: "ptr \<Rightarrow> ptr \<Rightarrow> bmem \<Rightarrow> int option" where
  "strcmp c1 c2 m =
     (let ch = m c1; d = uint ch - uint (m c2)
      in if d \<noteq> 0 \<or> ch = 0 then Some d else strcmp (c1 + 1) (c2 + 1) m)"

partial_function (option) strcpy_loop :: "ptr \<Rightarrow> ptr \<Rightarrow> bmem \<Rightarrow> bmem option" where
  "strcpy_loop q p m =
     (let ch = m p; m1 = m(q := ch) in if ch \<noteq> 0 then strcpy_loop (q + 1) (p + 1) m1 else Some m1)"

definition strcpy :: "ptr \<Rightarrow> ptr \<Rightarrow> bmem \<Rightarrow> (ptr \<times> bmem) option" where
  "strcpy dst src m = map_option (Pair dst) (strcpy_loop dst src m)"

definition strcat :: "ptr \<Rightarrow> ptr \<Rightarrow> bmem \<Rightarrow> (ptr \<times> bmem) option" where
  "strcat dst src m = Option.bind (strchr dst 0 m)
     (\<lambda>q. map_option (\<lambda>(_, m1). (dst, m1)) (strcpy q src m))"

partial_function (option) strlen_loop :: "ptr \<Rightarrow> bmem \<Rightarrow> ptr option" where
  "strlen_loop ss m = (if m ss \<noteq> 0 then strlen_loop (ss + 1) m else Some ss)"

definition strlen :: "ptr \<Rightarrow> bmem \<Rightarrow> nat option" where
  "strlen s m = map_option (\<lambda>ss. unat (ss - s)) (strlen_loop s m)"

primrec strnlen_loop :: "ptr \<Rightarrow> nat \<Rightarrow> bmem \<Rightarrow> ptr" where
  "strnlen_loop ss 0 m = ss"
| "strnlen_loop ss (Suc maxlen) m = (if m ss \<noteq> 0 then strnlen_loop (ss + 1) maxlen m else ss)"

definition strnlen :: "ptr \<Rightarrow> nat \<Rightarrow> bmem \<Rightarrow> nat" where
  "strnlen s maxlen m = unat (strnlen_loop s maxlen m - s)"

primrec strncat_loop :: "ptr \<Rightarrow> ptr \<Rightarrow> nat \<Rightarrow> bmem \<Rightarrow> bmem" where
  "strncat_loop q p 0 m = m(q := 0)"
| "strncat_loop q p (Suc n) m =
     (let ch = m p; m1 = m(q := ch) in if ch = 0 then m1 else strncat_loop (q + 1) (p + 1) n m1)"

definition strncat :: "ptr \<Rightarrow> ptr \<Rightarrow> nat \<Rightarrow> bmem \<Rightarrow> (ptr \<times> bmem) option" where
  "strncat dst src n m = map_option (\<lambda>q. (dst, strncat_loop q src n m)) (strchr dst 0 m)"

text \<open>The two loops of \<open>strlcat\<close>.\<close>

function strlcat_end :: "nat \<Rightarrow> ptr \<Rightarrow> nat \<Rightarrow> bmem \<Rightarrow> nat \<times> ptr" where
  "strlcat_end n q sz m = (if n < sz \<and> m q \<noteq> 0 then strlcat_end (n + 1) (q + 1) sz m else (n, q))"
  by pat_completeness auto
termination by (relation "measure (\<lambda>(n, q, sz, m). sz - n)") auto

declare strlcat_end.simps [simp del]

partial_function (option) strlcat_loop :: "nat \<Rightarrow> ptr \<Rightarrow> ptr \<Rightarrow> nat \<Rightarrow> bmem \<Rightarrow> (nat \<times> ptr \<times> bmem) option" where
  "strlcat_loop n q p sz m =
     (let ch = m p
      in if ch \<noteq> 0 then
           (if n + 1 < sz then strlcat_loop (n + 1) (q + 1) (p + 1) sz (m(q := ch))
            else strlcat_loop (n + 1) q (p + 1) sz m)
         else Some (n, q, m))"

definition strlcat :: "ptr \<Rightarrow> ptr \<Rightarrow> nat \<Rightarrow> bmem \<Rightarrow> (nat \<times> bmem) option" where
  "strlcat dst src sz m =
     (case strlcat_end 0 dst sz m of (n, q) \<Rightarrow>
        if n = sz then map_option (\<lambda>k. (n + k, m)) (strlen src m)
        else map_option (\<lambda>(n1, q1, m1). (n1, m1(q1 := 0))) (strlcat_loop n q src sz m))"

primrec strncmp :: "ptr \<Rightarrow> ptr \<Rightarrow> nat \<Rightarrow> bmem \<Rightarrow> int" where
  "strncmp c1 c2 0 m = 0"
| "strncmp c1 c2 (Suc n) m =
     (let ch = m c1; d = uint ch - uint (m c2)
      in if d \<noteq> 0 \<or> ch = 0 then d else strncmp (c1 + 1) (c2 + 1) n m)"

text \<open>What is left to fill, and from where.\<close>

primrec strncpy_loop :: "ptr \<Rightarrow> ptr \<Rightarrow> nat \<Rightarrow> bmem \<Rightarrow> ptr \<times> nat \<times> bmem" where
  "strncpy_loop q p 0 m = (q, 0, m)"
| "strncpy_loop q p (Suc n) m =
     (let ch = m p; m1 = m(q := ch) in if ch = 0 then (q + 1, n, m1) else strncpy_loop (q + 1) (p + 1) n m1)"

definition strncpy :: "ptr \<Rightarrow> ptr \<Rightarrow> nat \<Rightarrow> bmem \<Rightarrow> ptr \<times> bmem" where
  "strncpy dst src n m = (case strncpy_loop dst src n m of (q, k, m1) \<Rightarrow> (dst, snd (memset q 0 k m1)))"

section \<open>Spans\<close>

text \<open>The table \<open>matchmap\<close> with the bytes of a string set.\<close>

partial_function (option) matchmap_loop :: "ptr \<Rightarrow> (u8 \<Rightarrow> u8) \<Rightarrow> bmem \<Rightarrow> (u8 \<Rightarrow> u8) option" where
  "matchmap_loop map_ptr matchmap m =
     (if m map_ptr \<noteq> 0 then matchmap_loop (map_ptr + 1) (matchmap(m map_ptr := 1)) m else Some matchmap)"

partial_function (option) span_loop :: "ptr \<Rightarrow> (u8 \<Rightarrow> u8) \<Rightarrow> u8 \<Rightarrow> nat \<Rightarrow> bmem \<Rightarrow> nat option" where
  "span_loop s matchmap parity n m =
     (if matchmap (m s) XOR parity \<noteq> 0 then span_loop (s + 1) matchmap parity (n + 1) m else Some n)"

definition strxspn :: "ptr \<Rightarrow> ptr \<Rightarrow> u8 \<Rightarrow> bmem \<Rightarrow> nat option" where
  "strxspn s map_ptr parity m = Option.bind (matchmap_loop map_ptr (\<lambda>_. 0) m)
     (\<lambda>matchmap. span_loop s (matchmap(0 := parity)) parity 0 m)"

definition strcspn :: "ptr \<Rightarrow> ptr \<Rightarrow> bmem \<Rightarrow> nat option" where
  "strcspn s reject m = strxspn s reject 1 m"

definition strspn :: "ptr \<Rightarrow> ptr \<Rightarrow> bmem \<Rightarrow> nat option" where
  "strspn s accept m = strxspn s accept 0 m"

definition strpbrk :: "ptr \<Rightarrow> ptr \<Rightarrow> bmem \<Rightarrow> ptr option" where
  "strpbrk s accept m = map_option
     (\<lambda>n. let ss = s + of_nat n in if m ss \<noteq> 0 then ss else NULL) (strxspn s accept 1 m)"

text \<open>\<open>strsep\<close>: the token, the new value of \<open>*stringp\<close> and the memory.\<close>

definition strsep :: "ptr \<Rightarrow> ptr \<Rightarrow> bmem \<Rightarrow> (ptr \<times> ptr \<times> bmem) option" where
  "strsep stringp delim m =
     (if stringp = NULL then Some (NULL, stringp, m)
      else map_option
        (\<lambda>e. if e \<noteq> NULL then (stringp, e + 1, m(e := 0)) else (stringp, e, m))
        (strpbrk stringp delim m))"

definition strstr :: "ptr \<Rightarrow> ptr \<Rightarrow> bmem \<Rightarrow> ptr option" where
  "strstr haystack needle m = Option.bind (strlen haystack m)
     (\<lambda>n. map_option (\<lambda>mlen. memmem haystack n needle mlen m) (strlen needle m))"

text \<open>\<open>holder\<close> is the static variable of \<open>strtok\<close>.\<close>

definition strtok :: "ptr \<Rightarrow> ptr \<Rightarrow> ptr \<Rightarrow> bmem \<Rightarrow> (ptr \<times> ptr \<times> bmem) option" where
  "strtok s delim holder m = strsep (if s \<noteq> NULL then s else holder) delim m"

end
