(* ===== verification/Strings_Facts.thy ===== *)
theory Strings_Facts
  imports Strings
begin

text \<open>
  What the memory and string functions compute: copies as functions on memory, comparison and search
  as operations on lists of bytes, and the search of \<open>memmem\<close> as the first occurrence.
\<close>

section \<open>Copies\<close>

definition copied :: "bmem \<Rightarrow> ptr \<Rightarrow> ptr \<Rightarrow> nat \<Rightarrow> bmem" where
  "copied m q p n = (\<lambda>x. if unat (x - q) < n then m (p + (x - q)) else m x)"

definition filled :: "bmem \<Rightarrow> ptr \<Rightarrow> u8 \<Rightarrow> nat \<Rightarrow> bmem" where
  "filled m q c n = (\<lambda>x. if unat (x - q) < n then c else m x)"

lemma unat_pred: "x \<noteq> q \<Longrightarrow> unat (x - (q + 1) :: u32) + 1 = unat (x - q)"
proof -
  assume "x \<noteq> q"
  then have "x - q \<noteq> 0" by simp
  then have "unat (x - q - 1) = unat (x - q) - 1" "0 < unat (x - q)"
    by (simp_all add: unat_minus_one unat_gt_0)
  then show ?thesis by (simp add: diff_diff_eq)
qed

lemma copied_0 [simp]: "copied m q p 0 = m"
  by (simp add: copied_def)

lemma copied_Suc:
  assumes n: "n < 2 ^ 32" and safe: "\<And>j. 0 < j \<Longrightarrow> j \<le> n \<Longrightarrow> q \<noteq> p + of_nat j"
  shows "copied (m(q := m p)) (q + 1) (p + 1) n = copied m q p (Suc n)"
proof
  fix x
  show "copied (m(q := m p)) (q + 1) (p + 1) n x = copied m q p (Suc n) x"
  proof (cases "x = q")
    case True
    have "unat (q - (q + 1) :: u32) = 2 ^ 32 - 1" by (simp add: unsigned_minus_1_eq_mask mask_eq_exp_minus_1)
    with n True show ?thesis by (simp add: copied_def)
  next
    case False
    note u = unat_pred [OF False]
    have e: "p + 1 + (x - (q + 1)) = p + (x - q)" by simp
    have "p + (x - q) \<noteq> q" if "unat (x - q) < Suc n"
      using safe [of "unat (x - q)"] that u by auto
    with u False show ?thesis by (auto simp: copied_def e)
  qed
qed

lemma movsb_copied:
  "n \<le> 2 ^ 32 \<Longrightarrow> (\<And>i j. i < j \<Longrightarrow> j < n \<Longrightarrow> q + of_nat i \<noteq> p + of_nat j) \<Longrightarrow>
     movsb n (p, q, m) = (p + of_nat n, q + of_nat n, copied m q p n)"
proof (induction n arbitrary: p q m)
  case (Suc n)
  have "(q + 1) + of_nat i \<noteq> (p + 1) + of_nat j" if "i < j" "j < n" for i j
    using Suc.prems(2) [of "Suc i" "Suc j"] that by (simp add: add.assoc)
  with Suc.IH Suc.prems(1) have "movsb (Suc n) (p, q, m)
      = (p + 1 + of_nat n, q + 1 + of_nat n, copied (m(q := m p)) (q + 1) (p + 1) n)" by simp
  moreover have "copied (m(q := m p)) (q + 1) (p + 1) n = copied m q p (Suc n)"
    using Suc.prems by (intro copied_Suc) (auto dest: Suc.prems(2) [of 0])
  ultimately show ?case by simp
qed simp

text \<open>The last byte first.\<close>

lemma copied_last:
  assumes n: "n < 2 ^ 32" and safe: "\<And>j. j < n \<Longrightarrow> q + of_nat n \<noteq> p + of_nat j"
  shows "copied (m(q + of_nat n := m (p + of_nat n))) q p n = copied m q p (Suc n)"
proof
  fix x
  have un: "unat (of_nat n :: u32) = n" using n by (rule unat_of_nat32)
  show "copied (m(q + of_nat n := m (p + of_nat n))) q p n x = copied m q p (Suc n) x"
  proof (cases "unat (x - q) < n")
    case True
    then show ?thesis using safe [OF True] by (auto simp: copied_def)
  next
    case False
    have "x = q + of_nat n \<longleftrightarrow> unat (x - q) = n"
    proof
      assume "unat (x - q) = n"
      then have "unat (x - q) = unat (of_nat n :: u32)" using un by simp
      then have "x - q = of_nat n" by (rule unsigned_word_eqI)
      then show "x = q + of_nat n" by (metis diff_add_cancel add.commute)
    qed (simp add: un)
    with False show ?thesis by (auto simp: copied_def un less_Suc_eq)
  qed
qed

lemma movsb_down_copied:
  "n \<le> 2 ^ 32 \<Longrightarrow> (\<And>i j. j < i \<Longrightarrow> i < n \<Longrightarrow> q + of_nat i \<noteq> p + of_nat j) \<Longrightarrow>
     snd (snd (movsb_down n (p + of_nat n - 1, q + of_nat n - 1, m))) = copied m q p n"
proof (induction n arbitrary: m)
  case (Suc n)
  have e: "p + of_nat (Suc n) - 1 = p + of_nat n" "q + of_nat (Suc n) - 1 = q + of_nat n" by simp_all
  have "snd (snd (movsb_down (Suc n) (p + of_nat (Suc n) - 1, q + of_nat (Suc n) - 1, m)))
      = snd (snd (movsb_down n (p + of_nat n - 1, q + of_nat n - 1, m(q + of_nat n := m (p + of_nat n)))))"
    unfolding e by simp
  also have "\<dots> = copied (m(q + of_nat n := m (p + of_nat n))) q p n"
    using Suc.prems by (intro Suc.IH) auto
  also have "\<dots> = copied m q p (Suc n)" using Suc.prems by (intro copied_last) auto
  finally show ?case .
qed simp

lemma unat_offset: "unat (p :: ptr) + n \<le> 2 ^ 32 \<Longrightarrow> i < n \<Longrightarrow> unat (p + of_nat i) = unat p + i"
  by (simp add: unat_word_ariths(1) unat_of_nat32)

lemma memmove_copied:
  assumes w: "unat src + n \<le> 2 ^ 32" "unat dst + n \<le> 2 ^ 32"
  shows "memmove dst src n m = (dst, copied m dst src n)"
proof (cases "dst < src")
  case True
  have "dst + of_nat i \<noteq> src + of_nat j" if "i < j" "j < n" for i j
  proof
    assume "dst + of_nat i = src + of_nat j"
    then have "unat (dst + of_nat i) = unat (src + of_nat j)" by simp
    moreover have "unat dst < unat src" using True by (simp add: word_less_nat_alt)
    ultimately show False
      using that unat_offset [OF w(1), of j] unat_offset [OF w(2), of i] by simp
  qed
  with movsb_copied [of n dst src m] w True show ?thesis by (simp add: memmove_def)
next
  case False
  have "dst + of_nat i \<noteq> src + of_nat j" if "j < i" "i < n" for i j
  proof
    assume "dst + of_nat i = src + of_nat j"
    then have "unat (dst + of_nat i) = unat (src + of_nat j)" by simp
    moreover have "unat src \<le> unat dst" using False by (simp add: word_less_nat_alt)
    ultimately show False
      using that unat_offset [OF w(1), of j] unat_offset [OF w(2), of i] by simp
  qed
  with movsb_down_copied [of n dst src m] w False show ?thesis
    by (auto simp: memmove_def split: prod.splits)
qed

section \<open>Word copies\<close>

lemma bytes_of_load32:
  "ucast (load32 m a) = m a" "ucast (drop_bit 8 (load32 m a)) = m (a + 1)"
  "ucast (drop_bit 16 (load32 m a)) = m (a + 2)" "ucast (drop_bit 24 (load32 m a)) = m (a + 3)"
  by (rule bit_word_eqI, auto simp: load32_def bit_or_iff bit_push_bit_iff bit_unsigned_iff bit_drop_bit_eq
      dest: bit_imp_le_length)+

text \<open>A word copy is four byte copies when no byte is written before it is read.\<close>

lemma movsl_step:
  assumes "\<And>i j. i < j \<Longrightarrow> j < 4 \<Longrightarrow> q + of_nat i \<noteq> p + of_nat j"
  shows "movsb 4 (p, q, m) = (p + 4, q + 4, store32 m q (load32 m p))"
proof -
  have ne: "q \<noteq> p + 1" "q \<noteq> p + 2" "q \<noteq> p + 3" "q + 1 \<noteq> p + 2" "q + 1 \<noteq> p + 3" "q + 2 \<noteq> p + 3"
    using assms [of 0 1] assms [of 0 2] assms [of 0 3] assms [of 1 2] assms [of 1 3] assms [of 2 3] by simp_all
  have ne': "p + 1 \<noteq> q" "p + 2 \<noteq> q" "p + 3 \<noteq> q" "p + 2 \<noteq> q + 1" "p + 3 \<noteq> q + 1" "p + 3 \<noteq> q + 2"
    using ne by metis+
  have "movsb 4 (p, q, m) = (p + 4, q + 4,
      m(q := m p, q + 1 := m (p + 1), q + 2 := m (p + 2), q + 3 := m (p + 3)))"
    using ne' by (simp add: eval_nat_numeral add.assoc)
  then show ?thesis by (simp add: store32_def bytes_of_load32)
qed

lemma movsb_add: "movsb (i + j) r = movsb j (movsb i r)"
  by (induction i arbitrary: r) simp_all

lemma movsl_movsb:
  "(\<And>i j. i < j \<Longrightarrow> j < 4 * n \<Longrightarrow> q + of_nat i \<noteq> p + of_nat j) \<Longrightarrow> movsl n (p, q, m) = movsb (4 * n) (p, q, m)"
proof (induction n arbitrary: p q m)
  case (Suc n)
  have s: "movsb 4 (p, q, m) = (p + 4, q + 4, store32 m q (load32 m p))"
    by (rule movsl_step) (use Suc.prems in simp)
  have "(q + 4) + of_nat i \<noteq> (p + 4) + of_nat j" if "i < j" "j < 4 * n" for i j
    using Suc.prems [of "i + 4" "j + 4"] that by (simp add: algebra_simps)
  with Suc.IH have "movsl (Suc n) (p, q, m) = movsb (4 * n) (p + 4, q + 4, store32 m q (load32 m p))" by simp
  also have "\<dots> = movsb (4 + 4 * n) (p, q, m)" by (simp only: movsb_add s)
  finally show ?case by simp
qed simp

lemma memcpy_copied:
  assumes n: "n \<le> 2 ^ 32" and safe: "\<And>i j. i < j \<Longrightarrow> j < n \<Longrightarrow> dst + of_nat i \<noteq> src + of_nat j"
  shows "memcpy dst src n m = (dst, copied m dst src n)"
proof -
  have "movsl (n div 4) (src, dst, m) = movsb (4 * (n div 4)) (src, dst, m)"
    by (rule movsl_movsb) (use safe in auto)
  then have "movsb (n mod 4) (movsl (n div 4) (src, dst, m)) = movsb (4 * (n div 4) + n mod 4) (src, dst, m)"
    by (simp only: movsb_add)
  also have "\<dots> = (src + of_nat n, dst + of_nat n, copied m dst src n)" using movsb_copied [OF n] safe by simp
  finally show ?thesis by (simp add: memcpy_def)
qed

lemma filled_Suc:
  assumes n: "n < 2 ^ 32"
  shows "filled (m(q := c)) (q + 1) c n = filled m q c (Suc n)"
proof
  fix x
  show "filled (m(q := c)) (q + 1) c n x = filled m q c (Suc n) x"
  proof (cases "x = q")
    case True
    have "unat (q - (q + 1) :: u32) = 2 ^ 32 - 1" by (simp add: unsigned_minus_1_eq_mask mask_eq_exp_minus_1)
    with n True show ?thesis by (simp add: filled_def)
  next
    case False
    then show ?thesis using unat_pred [OF False] by (auto simp: filled_def)
  qed
qed

lemma stosb_filled:
  "n \<le> 2 ^ 32 \<Longrightarrow> stosb n a (q, m) = (q + of_nat n, filled m q (ucast a) n)"
proof (induction n arbitrary: q m)
  case 0
  then show ?case by (simp add: filled_def)
next
  case (Suc n)
  then show ?case using filled_Suc [of n m q "ucast a"] by simp
qed

lemma same_bytes:
  fixes c :: u8
  defines "a \<equiv> (ucast c * 0x01010101 :: u32)"
  shows "ucast a = c" "ucast (drop_bit 8 a) = c" "ucast (drop_bit 16 a) = c" "ucast (drop_bit 24 a) = c"
proof -
  have c: "unat c < 256" using unsigned_less [of c, where 'a = nat] by simp
  have u: "unat a = unat c * 0x01010101"
    using c by (simp add: a_def unat_word_ariths(2) unsigned_ucast_eq take_bit_nat_eq_self)
  have d: "unat (drop_bit k a) = unat a div 2 ^ k" for k
    using unat_lt32 [of a] unfolding unsigned_drop_bit_eq by (simp add: drop_bit_eq_div take_bit_nat_eq_self)
  have eqI: "ucast (w :: u32) = c" if "unat w mod 256 = unat c" for w
  proof (rule unsigned_word_eqI)
    show "unat (ucast w :: u8) = unat c" using that by (simp add: unsigned_ucast_eq take_bit_eq_mod)
  qed
  have m: "(x * 256 + unat c) mod 256 = unat c" "(x * 256 + unat c) div 256 = x" for x
    using c by auto
  have s1: "unat c * 0x01010101 = (unat c * 0x010101) * 256 + unat c"
    "unat c * 0x010101 = (unat c * 0x0101) * 256 + unat c" "unat c * 0x0101 = unat c * 256 + unat c" by simp_all
  show "ucast a = c" by (rule eqI) (simp only: u s1(1) m)
  have d8: "unat (drop_bit 8 a) = unat c * 0x010101" using d [of 8] m(2) by (simp add: u s1(1) del: mult_numeral_1_right)
  then show "ucast (drop_bit 8 a) = c" by (intro eqI) (simp only: s1(2) m)
  have d16: "unat (drop_bit 16 a) = unat c * 0x0101"
  proof -
    have "unat (drop_bit 16 a) = unat (drop_bit 8 a) div 256"
      using d [of 16] d [of 8] by (simp add: div_mult2_eq [symmetric])
    then show ?thesis unfolding d8 s1(2) m .
  qed
  then show "ucast (drop_bit 16 a) = c" by (intro eqI) (simp only: s1(3) m)
  have "unat (drop_bit 24 a) = unat (drop_bit 16 a) div 256"
    using d [of 24] d [of 16] by (simp add: div_mult2_eq [symmetric])
  then have "unat (drop_bit 24 a) = unat c" unfolding d16 s1(3) m .
  then show "ucast (drop_bit 24 a) = c" using c by (intro eqI) simp
qed

lemma stosl_stosb:
  fixes c :: u8
  defines "a \<equiv> (ucast c * 0x01010101 :: u32)"
  shows "stosl n a (q, m) = stosb (4 * n) a (q, m)"
proof (induction n arbitrary: q m)
  case (Suc n)
  note b = same_bytes [of c, folded a_def]
  have "stosb 4 a (q, m) = (q + 4, store32 m q a)"
    unfolding store32_def b by (simp add: eval_nat_numeral b(1) add.assoc)
  moreover have add: "stosb (i + j) a r = stosb j a (stosb i a r)" for i j r by (induction i arbitrary: r) simp_all
  ultimately have "stosb (4 + 4 * n) a (q, m) = stosl n a (q + 4, store32 m q a)" by (simp only: add Suc.IH)
  then show ?case by simp
qed simp

lemma memset_filled: "n \<le> 2 ^ 32 \<Longrightarrow> memset dst c n m = (dst, filled m dst c n)"
proof -
  assume n: "n \<le> 2 ^ 32"
  let ?a = "ucast c * 0x01010101 :: u32"
  have add: "stosb (i + j) ?a r = stosb j ?a (stosb i ?a r)" for i j r by (induction i arbitrary: r) simp_all
  have "stosb (n mod 4) ?a (stosl (n div 4) ?a (dst, m)) = stosb (4 * (n div 4) + n mod 4) ?a (dst, m)"
    by (simp only: stosl_stosb add)
  also have "\<dots> = (dst + of_nat n, filled m dst c n)" using stosb_filled [OF n, of ?a] same_bytes(1) [of c] by simp
  finally show ?thesis by (simp add: memset_def)
qed

section \<open>Strings as lists\<close>

fun cstr :: "bmem \<Rightarrow> ptr \<Rightarrow> u8 list \<Rightarrow> bool" where
  "cstr m p [] \<longleftrightarrow> m p = 0"
| "cstr m p (x # xs) \<longleftrightarrow> m p = x \<and> x \<noteq> 0 \<and> cstr m (p + 1) xs"

definition bytes_at :: "bmem \<Rightarrow> ptr \<Rightarrow> nat \<Rightarrow> u8 list" where
  "bytes_at m p n = map (\<lambda>i. m (p + of_nat i)) [0 ..< n]"

lemma bytes_at_Suc: "bytes_at m p (Suc n) = m p # bytes_at m (p + 1) n"
proof -
  have "bytes_at m p (Suc n) = map (\<lambda>i. m (p + of_nat i)) (0 # map Suc [0 ..< n])"
    by (simp add: bytes_at_def map_Suc_upt upt_conv_Cons del: upt_Suc)
  then show ?thesis by (simp add: bytes_at_def add.assoc)
qed

lemma bytes_at_0 [simp]: "bytes_at m p 0 = []"
  by (simp add: bytes_at_def)

lemma cstr_unique: "cstr m p xs \<Longrightarrow> cstr m p ys \<Longrightarrow> xs = ys"
proof (induction xs arbitrary: p ys)
  case Nil
  then show ?case by (cases ys) auto
next
  case (Cons x xs)
  then show ?case by (cases ys) auto
qed

lemma cstr_cong:
  "(\<And>j. j \<le> length xs \<Longrightarrow> m' (a + of_nat j) = m (a + of_nat j)) \<Longrightarrow> cstr m' a xs \<longleftrightarrow> cstr m a xs"
proof (induction xs arbitrary: a)
  case Nil
  from Nil [of 0] show ?case by simp
next
  case (Cons x xs)
  have "m' (a + 1 + of_nat j) = m (a + 1 + of_nat j)" if "j \<le> length xs" for j
    using Cons.prems [of "Suc j"] that by (simp add: add.assoc)
  with Cons.IH [of "a + 1"] Cons.prems [of 0] show ?case by simp
qed

lemma strlen_loop_cstr: "cstr m p xs \<Longrightarrow> strlen_loop p m = Some (p + of_nat (length xs))"
proof (induction xs arbitrary: p)
  case Nil
  then show ?case by (subst strlen_loop.simps) simp
next
  case (Cons x xs)
  then show ?case by (subst strlen_loop.simps) (auto simp: add.assoc)
qed

lemma strlen_cstr: "cstr m p xs \<Longrightarrow> length xs < 2 ^ 32 \<Longrightarrow> strlen p m = Some (length xs)"
  using strlen_loop_cstr [of m p xs] unat_of_nat32 [of "length xs"] by (simp add: strlen_def)

lemma strchr_cstr:
  "cstr m p xs \<Longrightarrow> strchr p c m = Some (if c = 0 then p + of_nat (length xs)
     else if c \<in> set xs then p + of_nat (length (takeWhile (\<lambda>x. x \<noteq> c) xs)) else NULL)"
proof (induction xs arbitrary: p)
  case Nil
  then show ?case by (subst strchr.simps) auto
next
  case (Cons x xs)
  then show ?case by (subst strchr.simps) (auto simp: add.assoc)
qed

lemma uint_byte:
  "uint (x :: u8) = uint y \<longleftrightarrow> x = y" "uint (x :: u8) = 0 \<longleftrightarrow> x = 0" "0 < uint (x :: u8) \<longleftrightarrow> x \<noteq> 0"
proof -
  show 1: "uint (x :: u8) = uint y \<longleftrightarrow> x = y" for y by (simp only: word_uint_eq_iff)
  from 1 [of 0] show "uint (x :: u8) = 0 \<longleftrightarrow> x = 0" by simp
  then show "0 < uint (x :: u8) \<longleftrightarrow> x \<noteq> 0" using uint_nonnegative [of x] by linarith
qed

text \<open>The sign of the comparison is that of the lexicographic order of bytes.\<close>

lemma strcmp_cstr:
  "cstr m p xs \<Longrightarrow> cstr m q ys \<Longrightarrow> \<exists>d. strcmp p q m = Some d \<and> (d = 0 \<longleftrightarrow> xs = ys)
     \<and> (d < 0 \<longleftrightarrow> (xs, ys) \<in> lexord {(x, y). x < y})"
proof (induction xs arbitrary: p q ys)
  case Nil
  then show ?case
    by (cases ys; subst strcmp.simps) (auto simp: uint_byte)
next
  case (Cons x xs)
  show ?case
  proof (cases ys)
    case Nil
    with Cons.prems show ?thesis by (subst strcmp.simps) (auto simp: Let_def uint_byte uint_nonnegative not_less)
  next
    case (Cons y zs)
    show ?thesis
    proof (cases "x = y")
      case True
      from Cons.IH [of "p + 1" "q + 1" zs] Cons.prems Cons True show ?thesis
        by (subst strcmp.simps) auto
    next
      case False
      with Cons.prems Cons show ?thesis
        by (subst strcmp.simps) (auto simp: word_less_def uint_byte)
    qed
  qed
qed

lemma memcmp_bytes: "memcmp p q n m = 0 \<longleftrightarrow> bytes_at m p n = bytes_at m q n"
  by (induction n arbitrary: p q) (auto simp: bytes_at_Suc Let_def uint_byte)

lemma memchr_bytes:
  "memchr p c n m = (if c \<in> set (bytes_at m p n)
     then p + of_nat (length (takeWhile (\<lambda>x. x \<noteq> c) (bytes_at m p n))) else NULL)"
  by (induction n arbitrary: p) (auto simp: bytes_at_Suc add.assoc)

section \<open>Search\<close>

text \<open>The needle occurs at offset \<open>j\<close> of the haystack.\<close>

definition occurs :: "bmem \<Rightarrow> ptr \<Rightarrow> ptr \<Rightarrow> nat \<Rightarrow> nat \<Rightarrow> bool" where
  "occurs m y x mlen j \<longleftrightarrow> (\<forall>i < mlen. m (x + of_nat i) = m (y + of_nat (j + i)))"

lemma occurs_split:
  assumes "2 \<le> mlen"
  shows "occurs m y x mlen j \<longleftrightarrow> m x = m (y + of_nat j) \<and> m (x + 1) = m (y + of_nat (j + 1))
    \<and> memcmp (x + 2) (y + of_nat j + 2) (mlen - 2) m = 0"
proof -
  have "memcmp (x + 2) (y + of_nat j + 2) (mlen - 2) m = 0
      \<longleftrightarrow> (\<forall>i < mlen - 2. m (x + of_nat (i + 2)) = m (y + of_nat (j + (i + 2))))"
    by (simp add: memcmp_bytes bytes_at_def add.commute add.left_commute Ball_def)
  moreover have "(\<forall>i < mlen. P i) \<longleftrightarrow> P 0 \<and> P 1 \<and> (\<forall>i < mlen - 2. P (i + 2))" for P
  proof
    assume h: "P 0 \<and> P 1 \<and> (\<forall>i < mlen - 2. P (i + 2))"
    show "\<forall>i < mlen. P i"
    proof (intro allI impI)
      fix i assume i: "i < mlen"
      show "P i"
      proof (cases "2 \<le> i")
        case True
        then obtain k where k: "i = k + 2" by (metis add.commute le_Suc_ex)
        with h i show ?thesis by auto
      next
        case False
        then have "i = 0 \<or> i = 1" by auto
        with h show ?thesis by auto
      qed
    qed
  qed (use assms in auto)
  from this [of "\<lambda>i. m (x + of_nat i) = m (y + of_nat (j + i))"] calculation
  show ?thesis unfolding occurs_def by simp
qed

lemma memmem_loop_first:
  assumes "2 \<le> mlen" "twin \<longleftrightarrow> m x = m (x + 1)" "\<forall>i < j. \<not> occurs m y x mlen i"
  shows "memmem_loop twin j y n x mlen m =
    (if \<exists>i \<le> n - mlen. occurs m y x mlen i then y + of_nat (LEAST i. occurs m y x mlen i) else NULL)"
  using assms
proof (induction twin j y n x mlen m rule: memmem_loop.induct)
  case (1 twin j y n x mlen m)
  note split = occurs_split [OF "1.prems"(1), of m y x]
  define k where "k = (if twin then 2 else 1 :: nat)"
  define l where "l = (if twin then 1 else 2 :: nat)"
  show ?case
  proof (cases "j \<le> n - mlen")
    case False
    then have "\<not> (\<exists>i \<le> n - mlen. occurs m y x mlen i)" using "1.prems"(3) by (meson le_less_trans not_le)
    with False show ?thesis by (subst memmem_loop.simps) auto
  next
    case True
    consider "m (x + 1) \<noteq> m (y + of_nat (j + 1))"
      | "m (x + 1) = m (y + of_nat (j + 1))" "occurs m y x mlen j"
      | "m (x + 1) = m (y + of_nat (j + 1))" "\<not> occurs m y x mlen j" by blast
    then show ?thesis
    proof cases
      case 1
      have no: "\<not> occurs m y x mlen i" if "i < j + k" for i
      proof -
        have "i < j \<or> i = j \<or> i = j + 1 \<and> twin" using that by (cases twin) (auto simp: k_def)
        then consider "i < j" | "i = j" | "i = j + 1" "twin" by blast
        then show "\<not> occurs m y x mlen i"
        proof cases
          case 1 with "1.prems"(3) show ?thesis by simp
        next
          case 2 with split [of j] \<open>m (x + 1) \<noteq> m (y + of_nat (j + 1))\<close> show ?thesis by simp
        next
          case 3 with split [of i] \<open>m (x + 1) \<noteq> m (y + of_nat (j + 1))\<close> "1.prems"(2) show ?thesis by simp
        qed
      qed
      have "memmem_loop twin j y n x mlen m = memmem_loop twin (j + k) y n x mlen m"
        using True 1 by (subst memmem_loop.simps) (simp add: k_def Let_def)
      also have "\<dots> = (if \<exists>i \<le> n - mlen. occurs m y x mlen i
          then y + of_nat (LEAST i. occurs m y x mlen i) else NULL)"
        using "1.IH"(1) [OF refl refl True 1 "1.prems"(1,2)] no by (simp add: k_def)
      finally show ?thesis .
    next
      case 2
      then have least: "(LEAST i. occurs m y x mlen i) = j"
        using "1.prems"(3) by (intro Least_equality) (auto simp: not_less [symmetric])
      have "memmem_loop twin j y n x mlen m = y + of_nat j"
        using True 2 split [of j] by (subst memmem_loop.simps) (simp add: Let_def)
      with 2(2) True least show ?thesis by auto
    next
      case 3
      then have nm: "\<not> (memcmp (x + 2) (y + of_nat j + 2) (mlen - 2) m = 0 \<and> m x = m (y + of_nat j))"
        using split [of j] by auto
      have no: "\<not> occurs m y x mlen i" if "i < j + l" for i
      proof -
        have "i < j \<or> i = j \<or> i = j + 1 \<and> \<not> twin" using that by (cases twin) (auto simp: l_def)
        then consider "i < j" | "i = j" | "i = j + 1" "\<not> twin" by blast
        then show "\<not> occurs m y x mlen i"
        proof cases
          case 1 with "1.prems"(3) show ?thesis by simp
        next
          case 2 with 3(2) show ?thesis by simp
        next
          case c: 3
          with split [of i] 3(1) "1.prems"(2) show ?thesis by simp
        qed
      qed
      have "memmem_loop twin j y n x mlen m = memmem_loop twin (j + l) y n x mlen m"
        using True 3(1) nm by (subst memmem_loop.simps) (auto simp: l_def Let_def)
      also have "\<dots> = (if \<exists>i \<le> n - mlen. occurs m y x mlen i
          then y + of_nat (LEAST i. occurs m y x mlen i) else NULL)"
        using "1.IH"(2) [OF refl refl True _ nm "1.prems"(1,2)] 3(1) no by (simp add: l_def)
      finally show ?thesis .
    qed
  qed
qed

lemma memmem_occurs:
  assumes "0 < mlen" "mlen \<le> n"
  shows "memmem y n x mlen m =
    (if \<exists>i \<le> n - mlen. occurs m y x mlen i then y + of_nat (LEAST i. occurs m y x mlen i) else NULL)"
proof (cases "mlen = 1")
  case False
  with assms show ?thesis using memmem_loop_first [of mlen _ m x 0 y n] by (simp add: memmem_def)
next
  case True
  have mm: "memmem y n x mlen m = memchr y (m x) n m" using assms True by (simp add: memmem_def)
  let ?b = "bytes_at m y n" and ?P = "\<lambda>b. b \<noteq> m x"
  have occ: "occurs m y x mlen i \<longleftrightarrow> m x = m (y + of_nat i)" for i by (simp add: occurs_def True)
  have len: "length ?b = n" by (simp add: bytes_at_def)
  have nth: "?b ! i = m (y + of_nat i)" if "i < n" for i using that by (simp add: bytes_at_def)
  have mem: "m x \<in> set ?b \<longleftrightarrow> (\<exists>i \<le> n - mlen. occurs m y x mlen i)"
  proof -
    have lt: "i < n \<longleftrightarrow> i \<le> n - mlen" for i using assms True by auto
    have "m x \<in> set ?b \<longleftrightarrow> (\<exists>i. i < n \<and> m x = m (y + of_nat i))" by (auto simp: bytes_at_def)
    then show ?thesis by (simp only: lt occ)
  qed
  show ?thesis
  proof (cases "m x \<in> set ?b")
    case False
    then show ?thesis unfolding mm memchr_bytes mem [symmetric] by simp
  next
    case ex: True
    let ?k = "length (takeWhile ?P ?b)"
    have "dropWhile ?P ?b \<noteq> []" using ex by (auto simp: dropWhile_eq_Nil_conv)
    moreover have "?k + length (dropWhile ?P ?b) = n"
      using len takeWhile_dropWhile_id [of ?P ?b] by (metis length_append)
    ultimately have k: "?k < n" using length_greater_0_conv [of "dropWhile ?P ?b"] by linarith
    then have "\<not> ?P (?b ! ?k)" using nth_length_takeWhile [of ?P ?b] len by simp
    then have at: "occurs m y x mlen ?k" using nth [OF k] by (simp add: occ)
    have "?k \<le> i" if "occurs m y x mlen i" for i
    proof (rule ccontr)
      assume "\<not> ?k \<le> i"
      then have "i < ?k" by simp
      moreover then have "takeWhile ?P ?b ! i \<in> set (takeWhile ?P ?b)" by (intro nth_mem)
      ultimately have "?P (?b ! i)" by (metis set_takeWhileD takeWhile_nth)
      with that nth [of i] \<open>i < ?k\<close> k show False by (simp add: occ)
    qed
    with at have "(LEAST i. occurs m y x mlen i) = ?k" by (intro Least_equality)
    with ex show ?thesis unfolding mm memchr_bytes mem [symmetric] by simp
  qed
qed

section \<open>Copies of strings\<close>

lemma strncpy_loop_cstr:
  "cstr m p xs \<Longrightarrow> n < 2 ^ 32 \<Longrightarrow> (\<And>i j. i < j \<Longrightarrow> j \<le> length xs \<Longrightarrow> i < n \<Longrightarrow> q + of_nat i \<noteq> p + of_nat j) \<Longrightarrow>
     strncpy_loop q p n m = (q + of_nat (min n (length xs + 1)), n - (length xs + 1),
       \<lambda>x. if unat (x - q) < min n (length xs + 1) then (xs @ [0]) ! unat (x - q) else m x)"
proof (induction n arbitrary: p q m xs)
  case (Suc n)
  note p = Suc.prems
  let ?m = "m(q := m p)"
  have at: "q \<noteq> p + of_nat j" if "0 < j" "j \<le> length xs" for j
    using p(3) [of 0 j] that by simp
  have pq: "unat (q - (q + 1) :: u32) = 2 ^ 32 - 1" by (simp add: unsigned_minus_1_eq_mask mask_eq_exp_minus_1)
  show ?case
  proof (cases xs)
    case Nil
    then have "m p = 0" using p(1) by simp
    moreover have "x = q \<longleftrightarrow> unat (x - q) < 1" for x by (simp add: unat_eq_0)
    ultimately show ?thesis using Nil by (auto simp: fun_eq_iff)
  next
    case (Cons y ys)
    have ne: "m p \<noteq> 0" "m p = y" using p(1) Cons by auto
    have c: "cstr ?m (p + 1) ys"
    proof (rule cstr_cong [THEN iffD2])
      show "cstr m (p + 1) ys" using p(1) Cons by simp
      show "?m (p + 1 + of_nat j) = m (p + 1 + of_nat j)" if "j \<le> length ys" for j
        using at [of "Suc j"] that Cons by (simp add: add.assoc)
    qed
    have sep: "(q + 1) + of_nat i \<noteq> (p + 1) + of_nat j" if "i < j" "j \<le> length ys" "i < n" for i j
      using p(3) [of "Suc i" "Suc j"] that Cons by (simp add: add.assoc)
    have IH: "strncpy_loop (q + 1) (p + 1) n ?m = (q + 1 + of_nat (min n (length ys + 1)), n - (length ys + 1),
       \<lambda>x. if unat (x - (q + 1)) < min n (length ys + 1) then (ys @ [0]) ! unat (x - (q + 1)) else ?m x)"
      by (rule Suc.IH [OF c]) (use p(2) sep in auto)
    have fe: "(if unat (x - (q + 1)) < min n (length ys + 1) then (ys @ [0]) ! unat (x - (q + 1)) else ?m x)
      = (if unat (x - q) < min (Suc n) (length xs + 1) then (xs @ [0]) ! unat (x - q) else m x)" for x
    proof (cases "x = q")
      case True
      then show ?thesis using p(2) pq Cons ne by simp
    next
      case False
      have "unat (x - q) = Suc (unat (x - (q + 1)))" using unat_pred [OF False] by simp
      then show ?thesis using Cons False by simp
    qed
    have "strncpy_loop q p (Suc n) m = strncpy_loop (q + 1) (p + 1) n ?m" using ne by (simp add: Let_def)
    then show ?thesis unfolding IH fe using Cons by (simp add: min_def)
  qed
qed simp

text \<open>\<open>strncpy\<close> writes the string and fills up with null bytes.\<close>

lemma strncpy_cstr:
  assumes "cstr m src xs" "n < 2 ^ 32" "\<And>i j. i < j \<Longrightarrow> j \<le> length xs \<Longrightarrow> i < n \<Longrightarrow> dst + of_nat i \<noteq> src + of_nat j"
  shows "strncpy dst src n m = (dst, \<lambda>x. let k = unat (x - dst) in
    if k < n then (if k < length xs then xs ! k else 0) else m x)"
proof -
  let ?l = "length xs + 1"
  let ?m = "\<lambda>x. if unat (x - dst) < min n ?l then (xs @ [0]) ! unat (x - dst) else m x"
  have nl: "n - ?l \<le> 2 ^ 32" using assms(2) by simp
  have lp: "strncpy_loop dst src n m = (dst + of_nat (min n ?l), n - ?l, ?m)"
    by (rule strncpy_loop_cstr [OF assms(1,2)]) (rule assms(3))
  have e: "strncpy dst src n m = (dst, filled ?m (dst + of_nat (min n ?l)) 0 (n - ?l))"
    unfolding strncpy_def lp split_conv memset_filled [OF nl] by simp
  have "filled ?m (dst + of_nat (min n ?l)) 0 (n - ?l) x
      = (let k = unat (x - dst) in if k < n then (if k < length xs then xs ! k else 0) else m x)" for x
  proof (cases "n \<le> ?l")
    case True
    then show ?thesis by (auto simp: filled_def nth_append Let_def)
  next
    case False
    then have l: "?l < n" "min n ?l = ?l" by simp_all
    have ul: "unat (of_nat ?l :: u32) = ?l" using l assms(2) by (intro unat_of_nat32) simp
    let ?d = "x - dst"
    have eq: "x - (dst + of_nat ?l) = ?d - of_nat ?l" by simp
    show ?thesis
    proof (cases "unat ?d < ?l")
      case True
      have "unat (?d - of_nat ?l) \<ge> n - ?l"
      proof -
        have "unat (?d - of_nat ?l) = unat ?d + 2 ^ 32 - ?l"
          using True ul unat_lt32 [of ?d] by (simp add: unat_sub_if' word_le_nat_alt)
        then show ?thesis using assms(2) by simp
      qed
      with True l show ?thesis unfolding filled_def eq l(2) by (auto simp: Let_def nth_append)
    next
      case False
      then have "unat (?d - of_nat ?l) = unat ?d - ?l" using ul by (simp add: unat_sub word_le_nat_alt)
      with False l show ?thesis unfolding filled_def eq l(2) by (auto simp: Let_def)
    qed
  qed
  then show ?thesis unfolding e by auto
qed

section \<open>Spans and tokens\<close>

lemma matchmap_cstr:
  "cstr m d ds \<Longrightarrow> matchmap_loop d f m = Some (\<lambda>b. if b \<in> set ds then 1 else f b)"
proof (induction ds arbitrary: d f)
  case Nil
  then show ?case by (subst matchmap_loop.simps) simp
next
  case (Cons x ds)
  then show ?case by (subst matchmap_loop.simps) (auto simp: fun_eq_iff)
qed

text \<open>The loop runs over the bytes that the table keeps apart from the parity.\<close>

lemma span_loop_cstr:
  assumes "f 0 = parity" "cstr m s xs"
  shows "span_loop s f parity n m = Some (n + length (takeWhile (\<lambda>x. f x \<noteq> parity) xs))"
  using assms(2)
proof (induction xs arbitrary: s n)
  case Nil
  then show ?case using assms(1) by (subst span_loop.simps) simp
next
  case (Cons x xs)
  have "f x XOR parity = 0 \<longleftrightarrow> f x = parity"
    by (metis xor_self_eq bit.xor_left_self word_bitwise_1_simps(2) xor.comm_neutral)
  with Cons show ?case by (subst span_loop.simps) simp
qed

lemma cstr_nonzero: "cstr m p xs \<Longrightarrow> 0 \<notin> set xs"
  by (induction xs arbitrary: p) auto

lemma strxspn_cstr:
  assumes "cstr m s xs" "cstr m d ds" "parity = 0 \<or> parity = 1"
  shows "strxspn s d parity m = Some (length (takeWhile (\<lambda>x. x \<in> set ds \<longleftrightarrow> parity = 0) xs))"
proof -
  let ?f = "(\<lambda>b. if b \<in> set ds then 1 else 0)(0 := parity)"
  have "takeWhile (\<lambda>x. ?f x \<noteq> parity) xs = takeWhile (\<lambda>x. x \<in> set ds \<longleftrightarrow> parity = 0) xs"
    using cstr_nonzero [OF assms(1)] assms(3) by (intro takeWhile_cong) auto
  then show ?thesis
    using span_loop_cstr [of ?f parity m s xs 0] matchmap_cstr [OF assms(2)] assms(1) by (simp add: strxspn_def)
qed

lemma cstr_append: "cstr m p (as @ bs) \<longleftrightarrow> (\<forall>i < length as. m (p + of_nat i) = as ! i) \<and> 0 \<notin> set as
   \<and> cstr m (p + of_nat (length as)) bs"
proof (induction as arbitrary: p)
  case (Cons a as)
  have "(\<forall>i < length (a # as). m (p + of_nat i) = (a # as) ! i)
      \<longleftrightarrow> m p = a \<and> (\<forall>i < length as. m (p + 1 + of_nat i) = as ! i)"
    by (auto simp: less_Suc_eq_0_disj add.assoc)
  with Cons show ?case by (auto simp: add.assoc)
qed simp

text \<open>
  \<open>strsep\<close> cuts the string at its first delimiter: the token stands where the string began, the rest
  behind the delimiter.
\<close>

lemma strsep_cut:
  assumes s: "cstr m s (as @ d # bs)" "s \<noteq> NULL" and ds: "cstr m dl ds" "d \<in> set ds" "set as \<inter> set ds = {}"
    and w: "unat s + length (as @ d # bs) < 2 ^ 32"
  shows "\<exists>m'. strsep s dl m = Some (s, s + of_nat (length as) + 1, m') \<and> cstr m' s as
    \<and> cstr m' (s + of_nat (length as) + 1) bs \<and> (\<forall>x. x \<noteq> s + of_nat (length as) \<longrightarrow> m' x = m x)"
proof -
  let ?e = "s + of_nat (length as)"
  have tw: "takeWhile (\<lambda>x. x \<in> set ds \<longleftrightarrow> (1 :: u8) = 0) (as @ d # bs) = as"
    using ds by (auto simp: takeWhile_append)
  have a: "\<forall>i < length as. m (s + of_nat i) = as ! i" "0 \<notin> set as" "m ?e = d" "d \<noteq> 0" "cstr m (?e + 1) bs"
    using s(1) unfolding cstr_append by auto
  have off: "unat (s + of_nat k) = unat s + k" if "k \<le> length (as @ d # bs)" for k
    using that w by (intro unat_offset [of s "length (as @ d # bs) + 1"]) auto
  have "0 < unat s" using s(2) by (simp add: unat_gt_0)
  then have "?e \<noteq> NULL" using off [of "length as"] by (metis add_is_0 le_add1 length_append less_irrefl unat_0)
  then have pb: "strpbrk s dl m = Some ?e"
    using strxspn_cstr [OF s(1) ds(1), of 1] tw a(3,4) by (simp add: strpbrk_def Let_def)
  let ?m = "m(?e := 0)"
  have ne: "s + of_nat i \<noteq> ?e" if "i \<le> length (as @ d # bs)" "i \<noteq> length as" for i
  proof
    assume "s + of_nat i = ?e"
    then have "unat (s + of_nat i) = unat ?e" by simp
    then show False using off [OF that(1)] off [of "length as"] that(2) by simp
  qed
  have "cstr ?m s (as @ [])" unfolding cstr_append using a(1,2) ne by simp
  moreover have "cstr ?m (?e + 1) bs"
  proof (rule cstr_cong [THEN iffD2, OF _ a(5)])
    fix j assume "j \<le> length bs"
    then show "?m (?e + 1 + of_nat j) = m (?e + 1 + of_nat j)"
      using ne [of "length as + 1 + j"] by (simp add: add.assoc)
  qed
  ultimately show ?thesis using pb s(2) \<open>?e \<noteq> NULL\<close> by (intro exI [of _ ?m]) (simp add: strsep_def)
qed

lemma strsep_last:
  assumes "cstr m s xs" "s \<noteq> NULL" "cstr m dl ds" "set xs \<inter> set ds = {}"
  shows "strsep s dl m = Some (s, NULL, m)"
proof -
  have tw: "takeWhile (\<lambda>x. x \<in> set ds \<longleftrightarrow> (1 :: u8) = 0) xs = xs"
    using assms(4) by (auto simp: takeWhile_eq_all_conv)
  have "m (s + of_nat (length xs)) = 0" using assms(1) cstr_append [of m s xs "[]"] by simp
  then have "strpbrk s dl m = Some NULL"
    using strxspn_cstr [OF assms(1,3), of 1] unfolding tw by (simp add: strpbrk_def Let_def)
  then show ?thesis using assms(2) by (simp add: strsep_def)
qed

end
