(* ===== verification/Formatting.thy ===== *)
theory Formatting
  imports Strings
begin

text \<open>
  Formatted output: \<^verbatim>\<open>doprnt.c\<close>, which turns a format and its arguments into characters, and its two
  clients, the buffered \<^verbatim>\<open>printf.c\<close> and the string writer \<^verbatim>\<open>sprintf.c\<close>.

  \<open>_doprnt\<close> calls back for every character; here it is the list of these characters. The format and
  the strings among the arguments are lists of bytes without the null byte that ends them. \<open>None\<close>
  stands for what C leaves undefined: a missing or mismatched argument, a base that is 0 or has no
  digits in the table, a shift out of range, a read behind the end of a string. The widths and
  precisions are C \<open>int\<close>s that the code only moves within small ranges. \<open>_doprnt_truncates\<close> is never
  set and \<open>DOPRNT_FLOATS\<close> is not defined, so neither appears. The radix of \<open>%r\<close> and \<open>%n\<close> is the
  argument that both clients pass as 0.
\<close>

section \<open>Numbers\<close>

definition digits_table :: "u8 list" where
  "digits_table = [0x30, 0x31, 0x32, 0x33, 0x34, 0x35, 0x36, 0x37, 0x38, 0x39,
     0x61, 0x62, 0x63, 0x64, 0x65, 0x66]"

text \<open>The loop that builds a number from its last digit on. It does not end for base 1.\<close>

partial_function (option) digits_loop :: "nat \<Rightarrow> nat \<Rightarrow> u8 list \<Rightarrow> u8 list option" where
  "digits_loop u base buf =
     (let buf1 = digits_table ! (u mod base) # buf; u1 = u div base
      in if u1 \<noteq> 0 then digits_loop u1 base buf1 else Some buf1)"

definition good_base :: "int \<Rightarrow> bool" where
  "good_base base \<longleftrightarrow> 2 \<le> base \<and> base \<le> 16"

definition printnum :: "u32 \<Rightarrow> int \<Rightarrow> u8 list option" where
  "printnum u base = (if good_base base then digits_loop (unat u) (nat base) [] else None)"

section \<open>Register fields, \<open>%b\<close>\<close>

definition printable :: "u8 \<Rightarrow> bool" where
  "printable c \<longleftrightarrow> 32 < sint c"

definition separator :: "bool \<Rightarrow> u8" where
  "separator any = (if any then 0x2C else 0x3C)"

function reg_loop :: "u32 \<Rightarrow> int \<Rightarrow> bool \<Rightarrow> u8 list \<Rightarrow> u8 list option" where
  "reg_loop u base any [] = Some (if any then [0x3E] else [])"
| "reg_loop u base any (ci # p) =
     (let i = sint ci in
      case p of
        [] \<Rightarrow> None
      | c # p1 \<Rightarrow>
          if \<not> printable c then
            (let j = sint c; name = takeWhile printable p1; rest = dropWhile printable p1 in
             if j < 1 \<or> i < j \<or> 32 < i then None
             else
               let field = drop_bit (nat (j - 1)) u AND (push_bit (nat (i - j)) 2 - 1)
               in Option.bind (printnum field base) (\<lambda>ds.
                    map_option (\<lambda>out. separator any # name @ ds @ out) (reg_loop u base True rest)))
          else if i < 1 \<or> 32 < i then None
          else if u AND push_bit (nat (i - 1)) 1 \<noteq> 0 then
            map_option (\<lambda>out. separator any # takeWhile printable p @ out)
              (reg_loop u base True (dropWhile printable p))
          else reg_loop u base any (dropWhile printable p))"
  by pat_completeness auto
termination
  by (relation "measure (\<lambda>(u, base, any, p). length p)")
     (auto simp: le_imp_less_Suc le_SucI length_dropWhile_le)

declare reg_loop.simps [simp del]

definition print_register :: "u32 \<Rightarrow> u8 list \<Rightarrow> u8 list option" where
  "print_register u p = (case p of
     [] \<Rightarrow> None
   | b # p1 \<Rightarrow> Option.bind (printnum u (sint b)) (\<lambda>ds.
       if u = 0 then Some ds else map_option (append ds) (reg_loop u (sint b) False p1)))"

section \<open>The flags of a conversion\<close>

record flags =
  altfmt :: bool
  ladjust :: bool
  plus_sign :: u8
  padc :: u8
  field_width :: int
  prec :: int

definition no_flags :: flags where
  "no_flags = \<lparr>altfmt = False, ladjust = False, plus_sign = 0, padc = 0x20, field_width = 0, prec = -1\<rparr>"

text \<open>The arguments: a word (\<open>int\<close>, \<open>long\<close>, a pointer), or a string that may be NULL.\<close>

datatype fmt_arg = Word u32 | Text "u8 list option"

fun flag_loop :: "u8 list \<Rightarrow> flags \<Rightarrow> u8 list \<times> flags" where
  "flag_loop [] s = ([], s)"
| "flag_loop (c # fmt) s =
     (if c = 0x23 then flag_loop fmt (s\<lparr>altfmt := True\<rparr>)
      else if c = 0x2D then flag_loop fmt (s\<lparr>ladjust := True\<rparr>)
      else if c = 0x2B then flag_loop fmt (s\<lparr>plus_sign := 0x2B\<rparr>)
      else if c = 0x20 then flag_loop fmt (if plus_sign s = 0 then s\<lparr>plus_sign := 0x20\<rparr> else s)
      else (c # fmt, s))"

definition isdigit :: "u8 \<Rightarrow> bool" where
  "isdigit d \<longleftrightarrow> 0x30 \<le> d \<and> d \<le> 0x39"

definition Ctod :: "u8 \<Rightarrow> int" where
  "Ctod c = uint c - 0x30"

fun number_loop :: "u8 list \<Rightarrow> int \<Rightarrow> u8 list \<times> int" where
  "number_loop [] n = ([], n)"
| "number_loop (c # fmt) n = (if isdigit c then number_loop fmt (10 * n + Ctod c) else (c # fmt, n))"

definition starts :: "(u8 \<Rightarrow> bool) \<Rightarrow> u8 list \<Rightarrow> bool" where
  "starts P fmt \<longleftrightarrow> (case fmt of [] \<Rightarrow> False | c # _ \<Rightarrow> P c)"

text \<open>\<open>va_arg(args, int)\<close>\<close>

definition int_arg :: "fmt_arg list \<Rightarrow> (u32 \<times> fmt_arg list) option" where
  "int_arg args = (case args of Word w # rest \<Rightarrow> Some (w, rest) | _ \<Rightarrow> None)"

definition parse_padc :: "u8 list \<Rightarrow> flags \<Rightarrow> u8 list \<times> flags" where
  "parse_padc fmt s = (if starts ((=) 0x30) fmt then (tl fmt, s\<lparr>padc := 0x30\<rparr>) else (fmt, s))"

definition parse_length :: "u8 list \<Rightarrow> flags \<Rightarrow> fmt_arg list \<Rightarrow> (u8 list \<times> flags \<times> fmt_arg list) option" where
  "parse_length fmt s args =
     (if starts isdigit fmt then
        (case number_loop fmt (field_width s) of (f, n) \<Rightarrow> Some (f, s\<lparr>field_width := n\<rparr>, args))
      else if starts ((=) 0x2A) fmt then
        map_option (\<lambda>(w, rest). (tl fmt,
            if sint w < 0 then s\<lparr>ladjust := \<not> ladjust s, field_width := - sint w\<rparr>
            else s\<lparr>field_width := sint w\<rparr>, rest))
          (int_arg args)
      else Some (fmt, s, args))"

definition parse_prec :: "u8 list \<Rightarrow> flags \<Rightarrow> fmt_arg list \<Rightarrow> (u8 list \<times> flags \<times> fmt_arg list) option" where
  "parse_prec fmt s args =
     (if starts ((=) 0x2E) fmt then
        (let f1 = tl fmt in
         if starts isdigit f1 then
           (case number_loop f1 0 of (f, n) \<Rightarrow> Some (f, s\<lparr>prec := n\<rparr>, args))
         else if starts ((=) 0x2A) f1 then
           map_option (\<lambda>(w, rest). (tl f1, s\<lparr>prec := sint w\<rparr>, rest)) (int_arg args)
         else Some (f1, s, args))
      else Some (fmt, s, args))"

definition parse_long :: "u8 list \<Rightarrow> u8 list" where
  "parse_long fmt = (if starts ((=) 0x6C) fmt then tl fmt else fmt)"

section \<open>Conversions\<close>

definition print_string :: "flags \<Rightarrow> u8 list \<Rightarrow> u8 list" where
  "print_string s p =
     (let pr = (if prec s = -1 then 0x7fffffff else prec s);
          len = int (List.length p);
          before = (if field_width s > 0 \<and> \<not> ladjust s
                    then replicate (nat (field_width s - max 0 (min len pr))) 0x20 else []);
          n = (if len > pr then max 0 pr + 1 else len);
          after = (if n < field_width s \<and> ladjust s then replicate (nat (field_width s - n)) 0x20 else [])
      in before @ take (nat pr) p @ after)"

definition print_num :: "flags \<Rightarrow> u32 \<Rightarrow> int \<Rightarrow> u8 \<Rightarrow> u8 list option" where
  "print_num s u base sign_char = Option.bind (printnum u base) (\<lambda>ds.
     let prefix = (if u \<noteq> 0 \<and> altfmt s
                   then (if base = 8 then [0x30] else if base = 16 then [0x30, 0x78] else []) else []);
         prec1 = prec s - int (List.length ds);
         len1 = field_width s - int (List.length ds) - (if sign_char \<noteq> 0 then 1 else 0)
                - int (List.length prefix);
         len2 = (if prec1 > 0 then len1 - prec1 else len1);
         blanks = (if padc s = 0x20 \<and> \<not> ladjust s then replicate (nat len2) 0x20 else []);
         len3 = (if padc s = 0x20 \<and> \<not> ladjust s then min len2 0 else len2);
         sign = (if sign_char \<noteq> 0 then [sign_char] else []);
         zeros = replicate (nat prec1) 0x30;
         zpad = (if padc s = 0x30 then replicate (nat len3) 0x30 else []);
         len4 = (if padc s = 0x30 then min len3 0 else len3);
         after = (if ladjust s then replicate (nat len4) 0x20 else [])
     in Some (blanks @ sign @ prefix @ zeros @ zpad @ ds @ after))"

definition print_signed :: "flags \<Rightarrow> u32 \<Rightarrow> int \<Rightarrow> u8 list option" where
  "print_signed s n base =
     (if sint n \<ge> 0 then print_num s n base (plus_sign s) else print_num s (- n) base 0x2D)"

definition print_unsigned :: "flags \<Rightarrow> u32 \<Rightarrow> int \<Rightarrow> u8 list option" where
  "print_unsigned s u base = print_num s u base 0"

definition radix :: int where "radix = 0"

text \<open>A conversion that takes one word.\<close>

definition with_word :: "fmt_arg list \<Rightarrow> (u32 \<Rightarrow> u8 list option) \<Rightarrow> (u8 list \<times> fmt_arg list) option" where
  "with_word args f = Option.bind (int_arg args) (\<lambda>(w, rest). map_option (\<lambda>out. (out, rest)) (f w))"

text \<open>The switch on the conversion character.\<close>

definition convert_char :: "u8 \<Rightarrow> flags \<Rightarrow> fmt_arg list \<Rightarrow> (u8 list \<times> fmt_arg list) option" where
  "convert_char c s args =
     (if c = 0x62 \<or> c = 0x42 then
        (case args of Word u # Text (Some p) # rest \<Rightarrow> map_option (\<lambda>out. (out, rest)) (print_register u p)
         | _ \<Rightarrow> None)
      else if c = 0x63 then with_word args (\<lambda>w. Some [ucast w])
      else if c = 0x73 then
        (case args of Text p # rest \<Rightarrow> Some (print_string s (case p of None \<Rightarrow> [] | Some p \<Rightarrow> p), rest)
         | _ \<Rightarrow> None)
      else if c = 0x6F \<or> c = 0x4F then with_word args (\<lambda>w. print_unsigned s w 8)
      else if c = 0x64 \<or> c = 0x69 \<or> c = 0x44 then with_word args (\<lambda>w. print_signed s w 10)
      else if c = 0x75 \<or> c = 0x55 then with_word args (\<lambda>w. print_unsigned s w 10)
      else if c = 0x70 then
        with_word args (\<lambda>w. map_option (\<lambda>out. 0x30 # 0x78 # out)
          (print_unsigned (s\<lparr>padc := 0x30, field_width := 8\<rparr>) w 16))
      else if c = 0x78 \<or> c = 0x58 then with_word args (\<lambda>w. print_unsigned s w 16)
      else if c = 0x7A \<or> c = 0x5A then with_word args (\<lambda>w. print_signed s w 16)
      else if c = 0x72 \<or> c = 0x52 then with_word args (\<lambda>w. print_signed s w radix)
      else if c = 0x6E \<or> c = 0x4E then with_word args (\<lambda>w. print_unsigned s w radix)
      else Some ([c], args))"

text \<open>From behind the percent sign: the output, the rest of the format and of the arguments.\<close>

definition convert :: "u8 list \<Rightarrow> fmt_arg list \<Rightarrow> (u8 list \<times> u8 list \<times> fmt_arg list) option" where
  "convert fmt args =
     (case flag_loop fmt no_flags of (f1, s1) \<Rightarrow>
      case parse_padc f1 s1 of (f2, s2) \<Rightarrow>
      Option.bind (parse_length f2 s2 args) (\<lambda>(f3, s3, args3).
      Option.bind (parse_prec f3 s3 args3) (\<lambda>(f4, s4, args4).
      case parse_long f4 of
        [] \<Rightarrow> Some ([], [], args4)
      | c # f5 \<Rightarrow> map_option (\<lambda>(out, args5). (out, f5, args5)) (convert_char c s4 args4))))"

text \<open>Every step takes at least one character off the format.\<close>

lemma flag_loop_shorter: "flag_loop fmt s = (f, s') \<Longrightarrow> List.length f \<le> List.length fmt"
  by (induction fmt s rule: flag_loop.induct) (fastforce split: if_splits)+

lemma number_loop_shorter: "number_loop fmt n = (f, n') \<Longrightarrow> List.length f \<le> List.length fmt"
  by (induction fmt n rule: number_loop.induct) (fastforce split: if_splits)+

lemma tl_shorter: "List.length (tl fmt) \<le> List.length fmt"
  by simp

lemma parse_length_shorter: "parse_length fmt s args = Some (f, s', a') \<Longrightarrow> List.length f \<le> List.length fmt"
  by (auto simp: parse_length_def split: if_splits prod.splits dest: number_loop_shorter)

lemma parse_prec_shorter: "parse_prec fmt s args = Some (f, s', a') \<Longrightarrow> List.length f \<le> List.length fmt"
  using tl_shorter [of fmt]
  by (auto simp: parse_prec_def Let_def split: if_splits prod.splits dest!: number_loop_shorter)

lemma convert_shorter: "convert fmt args = Some (out, f, args') \<Longrightarrow> List.length f \<le> List.length fmt"
proof -
  assume c: "convert fmt args = Some (out, f, args')"
  obtain f1 s1 where 1: "flag_loop fmt no_flags = (f1, s1)" by (cases "flag_loop fmt no_flags")
  obtain f2 s2 where 2: "parse_padc f1 s1 = (f2, s2)" by (cases "parse_padc f1 s1")
  from c obtain f3 s3 a3 where 3: "parse_length f2 s2 args = Some (f3, s3, a3)"
    and c3: "Option.bind (parse_prec f3 s3 a3) (\<lambda>(f4, s4, args4). case parse_long f4 of
        [] \<Rightarrow> Some ([], [], args4)
      | c # f5 \<Rightarrow> map_option (\<lambda>(out, args5). (out, f5, args5)) (convert_char c s4 args4)) = Some (out, f, args')"
    by (auto simp: convert_def 1 2 bind_eq_Some_conv)
  from c3 obtain f4 s4 a4 where 4: "parse_prec f3 s3 a3 = Some (f4, s4, a4)"
    and "(case parse_long f4 of [] \<Rightarrow> Some ([], [], a4)
      | c # f5 \<Rightarrow> map_option (\<lambda>(out, args5). (out, f5, args5)) (convert_char c s4 a4)) = Some (out, f, args')"
    by (auto simp: bind_eq_Some_conv)
  then have 5: "List.length f \<le> List.length (parse_long f4)" by (auto split: list.splits)
  have "List.length f2 \<le> List.length f1" using 2 by (auto simp: parse_padc_def split: if_splits)
  moreover have "List.length (parse_long f4) \<le> List.length f4" by (simp add: parse_long_def)
  ultimately show ?thesis
    using 5 flag_loop_shorter [OF 1] parse_length_shorter [OF 3] parse_prec_shorter [OF 4] by linarith
qed

function doprnt :: "u8 list \<Rightarrow> fmt_arg list \<Rightarrow> u8 list option" where
  "doprnt [] args = Some []"
| "doprnt (c # fmt) args =
     (if c \<noteq> 0x25 then map_option ((#) c) (doprnt fmt args)
      else Option.bind (convert fmt args) (\<lambda>(out, rest, args').
        map_option (append out) (doprnt rest args')))"
  by pat_completeness auto
termination
  by (relation "measure (\<lambda>(fmt, args). List.length fmt)") (auto dest: convert_shorter)

section \<open>Output to the console\<close>

text \<open>The buffer of \<open>printf\<close>, and the calls of \<open>console_putbytes\<close> so far.\<close>

record printf_state =
  buf :: "u8 list"
  index :: nat
  putbytes :: "u8 list list"

abbreviation (input) PRINTF_BUFMAX :: nat where "PRINTF_BUFMAX \<equiv> 128"

definition flush :: "printf_state \<Rightarrow> printf_state" where
  "flush s = s\<lparr>putbytes := putbytes s @ [take (index s) (buf s)], index := 0\<rparr>"

definition printf_char :: "printf_state \<Rightarrow> u8 \<Rightarrow> printf_state" where
  "printf_char s c =
     (if c = 0 \<or> c = 0x0A \<or> index s \<ge> PRINTF_BUFMAX then
        let s1 = flush s; s2 = s1\<lparr>buf := (buf s1)[0 := c]\<rparr>
        in s2\<lparr>putbytes := putbytes s2 @ [take 1 (buf s2)]\<rparr>
      else s\<lparr>buf := (buf s)[index s := c], index := index s + 1\<rparr>)"

definition vprintf :: "u8 list \<Rightarrow> u8 list \<Rightarrow> fmt_arg list \<Rightarrow> u8 list list option" where
  "vprintf garbage fmt args = map_option
     (\<lambda>out. let s = fold (\<lambda>c s. printf_char s c) out \<lparr>buf = garbage, index = 0, putbytes = []\<rparr>;
            s1 = (if index s \<noteq> 0 then flush s else s)
        in putbytes s1)
     (doprnt fmt args)"

definition printf :: "u8 list \<Rightarrow> u8 list \<Rightarrow> fmt_arg list \<Rightarrow> u8 list list option" where
  "printf garbage fmt args = vprintf garbage fmt args"

text \<open>What \<open>panic\<close> prints before it loops for ever: \<open>PANIC: \<close> and the message.\<close>

definition panic :: "u8 list \<Rightarrow> u8 list \<Rightarrow> u8 list \<Rightarrow> fmt_arg list \<Rightarrow> u8 list list option" where
  "panic garbage1 garbage2 fmt args =
     Option.bind (printf garbage1 [0x50, 0x41, 0x4E, 0x49, 0x43, 0x3A, 0x20] []) (\<lambda>calls.
       map_option (append calls) (vprintf garbage2 fmt args))"

definition putchar :: "u8 \<Rightarrow> u8 list list" where
  "putchar c = [[c]]"

definition puts :: "u8 list \<Rightarrow> u8 list list" where
  "puts s = concat (map putchar s) @ putchar 0x0A"

section \<open>Output to a string\<close>

abbreviation (input) SPRINTF_UNLIMITED :: nat where "SPRINTF_UNLIMITED \<equiv> 0xFFFFFFF"

record sprintf_state =
  sbuf :: ptr
  slen :: nat
  smax :: nat

definition savechar :: "u8 \<Rightarrow> sprintf_state \<times> bmem \<Rightarrow> sprintf_state \<times> bmem" where
  "savechar c r = (case r of (s, m) \<Rightarrow>
     if smax s \<noteq> SPRINTF_UNLIMITED \<and> slen s = smax s then (s, m)
     else (s\<lparr>slen := slen s + 1, sbuf := sbuf s + 1\<rparr>, m(sbuf s := c)))"

definition vsnprintf :: "ptr \<Rightarrow> nat \<Rightarrow> u8 list \<Rightarrow> fmt_arg list \<Rightarrow> bmem \<Rightarrow> (nat \<times> bmem) option" where
  "vsnprintf s sz fmt args m = map_option
     (\<lambda>out. case fold savechar out (\<lparr>sbuf = s, slen = 0, smax = sz\<rparr>, m) of
        (st, m1) \<Rightarrow> (slen st, m1(sbuf st := 0)))
     (doprnt fmt args)"

definition vsprintf :: "ptr \<Rightarrow> u8 list \<Rightarrow> fmt_arg list \<Rightarrow> bmem \<Rightarrow> (nat \<times> bmem) option" where
  "vsprintf s fmt args m = map_option
     (\<lambda>out. case fold savechar out (\<lparr>sbuf = s, slen = 0, smax = SPRINTF_UNLIMITED\<rparr>, m) of
        (st, m1) \<Rightarrow> (slen st, m1(sbuf st := 0)))
     (doprnt fmt args)"

definition sprintf :: "ptr \<Rightarrow> u8 list \<Rightarrow> fmt_arg list \<Rightarrow> bmem \<Rightarrow> (nat \<times> bmem) option" where
  "sprintf s fmt args m = vsprintf s fmt args m"

definition snprintf :: "ptr \<Rightarrow> nat \<Rightarrow> u8 list \<Rightarrow> fmt_arg list \<Rightarrow> bmem \<Rightarrow> (nat \<times> bmem) option" where
  "snprintf s sz fmt args m = vsnprintf s sz fmt args m"

end
