(* ===== verification/Number_Parsing.thy ===== *)
theory Number_Parsing
  imports Strings
begin

text \<open>
  The number readers of \<^verbatim>\<open>strtol.c\<close> and \<^verbatim>\<open>strtoul.c\<close>, which read a string in memory. The value is a
  word; the code does not look for overflow, so it wraps around. The results are the value and the
  pointer that is stored through \<open>out_p\<close>. The loops end at the first byte that is no space or digit;
  \<open>None\<close> when all of the memory is spaces or digits.
\<close>

definition isspace :: "u8 \<Rightarrow> bool" where
  "isspace c \<longleftrightarrow> c = 0x20 \<or> c = 0x0C \<or> c = 0x0A \<or> c = 0x0D \<or> c = 0x09 \<or> c = 0x0B"

partial_function (option) space_loop :: "ptr \<Rightarrow> bmem \<Rightarrow> ptr option" where
  "space_loop p m = (if isspace (m p) then space_loop (p + 1) m else Some p)"

text \<open>The value of a digit in a base, as the three tests of the loop have it.\<close>

definition digit_value :: "int \<Rightarrow> u8 \<Rightarrow> int option" where
  "digit_value base c =
     (if 0x30 \<le> c \<and> c \<le> 0x39 \<and> uint c - 0x30 < base then Some (uint c - 0x30)
      else if 0x61 \<le> c \<and> c \<le> 0x7A \<and> uint c - 0x61 + 10 < base then Some (uint c - 0x61 + 10)
      else if 0x41 \<le> c \<and> c \<le> 0x5A \<and> uint c - 0x41 + 10 < base then Some (uint c - 0x41 + 10)
      else None)"

partial_function (option) digit_loop :: "ptr \<Rightarrow> int \<Rightarrow> u32 \<Rightarrow> bmem \<Rightarrow> (u32 \<times> ptr) option" where
  "digit_loop p base v m =
     (case digit_value base (m p) of
        Some d \<Rightarrow> digit_loop (p + 1) base (v * word_of_int base + word_of_int d) m
      | None \<Rightarrow> Some (v, p))"

text \<open>The prefix \<open>0x\<close>, and the base that base 0 stands for.\<close>

definition hex_prefix :: "ptr \<Rightarrow> int \<Rightarrow> bmem \<Rightarrow> bool" where
  "hex_prefix p base m \<longleftrightarrow> (base = 16 \<or> base = 0) \<and> m p = 0x30 \<and> (m (p + 1) = 0x78 \<or> m (p + 1) = 0x58)"

definition base_of :: "ptr \<Rightarrow> int \<Rightarrow> bmem \<Rightarrow> int" where
  "base_of p base m = (if base = 0 then (if m p = 0x30 then 8 else 10) else base)"

definition strtol :: "ptr \<Rightarrow> int \<Rightarrow> bmem \<Rightarrow> (u32 \<times> ptr) option" where
  "strtol p base m = Option.bind (space_loop p m) (\<lambda>p.
     let is_neg = (m p = 0x2D);
         p = (if m p = 0x2D then p + 1 else p);
         (p, base) = (if hex_prefix p base m then (p + 2, 16) else (p, base));
         base = base_of p base m
     in map_option (\<lambda>(v, p). (if is_neg then - v else v, p)) (digit_loop p base 0 m))"

definition strtoul :: "ptr \<Rightarrow> int \<Rightarrow> bmem \<Rightarrow> (u32 \<times> ptr) option" where
  "strtoul p base m = Option.bind (space_loop p m) (\<lambda>p.
     let (p, base) = (if hex_prefix p base m then (p + 2, 16) else (p, base));
         base = base_of p base m
     in digit_loop p base 0 m)"

section \<open>Strings of digits\<close>

text \<open>The value of a list of digits, most significant first.\<close>

definition digits_value :: "int \<Rightarrow> u8 list \<Rightarrow> u32 \<Rightarrow> u32" where
  "digits_value base ds v = fold (\<lambda>c v. v * word_of_int base + word_of_int (the (digit_value base c))) ds v"

lemma digit_value_0: "digit_value base 0 = None"
  by (simp add: digit_value_def)

lemma digit_loop_digits:
  "(\<And>i. i < length ds \<Longrightarrow> m (p + of_nat i) = ds ! i) \<Longrightarrow> (\<forall>c \<in> set ds. digit_value base c \<noteq> None) \<Longrightarrow>
     digit_value base (m (p + of_nat (length ds))) = None \<Longrightarrow>
     digit_loop p base v m = Some (digits_value base ds v, p + of_nat (length ds))"
proof (induction ds arbitrary: p v)
  case Nil
  then show ?case by (subst digit_loop.simps) (simp add: digits_value_def)
next
  case (Cons c ds)
  have "m (p + 1 + of_nat i) = ds ! i" if "i < length ds" for i
    using Cons.prems(1) [of "Suc i"] that by (simp add: add.assoc)
  moreover have "digit_value base (m (p + 1 + of_nat (length ds))) = None"
    using Cons.prems(3) by (simp add: add.assoc)
  ultimately have IH: "digit_loop (p + 1) base v' m = Some (digits_value base ds v', p + 1 + of_nat (length ds))" for v'
    using Cons.IH Cons.prems(2) by simp
  have "m p = c" using Cons.prems(1) [of 0] by simp
  moreover obtain d where "digit_value base c = Some d" using Cons.prems(2) by auto
  ultimately show ?case by (subst digit_loop.simps) (simp add: IH digits_value_def add.assoc)
qed

end
