(* ===== verification/Formatting_Facts.thy ===== *)
theory Formatting_Facts
  imports Formatting Number_Parsing Strings_Facts
begin

text \<open>
  The digits of a number and what reads them back, the field widths of the conversions, and how the
  characters of \<open>_doprnt\<close> reach the console and a string.
\<close>

section \<open>Digits\<close>

fun digits_of :: "nat \<Rightarrow> nat \<Rightarrow> u8 list" where
  "digits_of base u = (if base < 2 \<or> u < base then [digits_table ! (u mod base)]
     else digits_of base (u div base) @ [digits_table ! (u mod base)])"

declare digits_of.simps [simp del]

lemma digits_loop_of: "2 \<le> base \<Longrightarrow> digits_loop u base acc = Some (digits_of base u @ acc)"
proof (induction base u arbitrary: acc rule: digits_of.induct)
  case (1 base u)
  show ?case
  proof (cases "u < base")
    case True
    then show ?thesis by (subst digits_loop.simps, subst digits_of.simps) (simp add: Let_def)
  next
    case False
    then have "u div base \<noteq> 0" using 1(2) by (simp add: div_eq_0_iff)
    with False 1 show ?thesis by (subst digits_loop.simps, subst digits_of.simps) (simp add: Let_def)
  qed
qed

lemma printnum_digits: "good_base base \<Longrightarrow> printnum u base = Some (digits_of (nat base) (unat u))"
  by (simp add: printnum_def good_base_def digits_loop_of le_nat_iff)

lemma digits_of_nonempty: "digits_of base u \<noteq> []"
  by (subst digits_of.simps) simp

text \<open>Each digit of the table reads back as its place.\<close>

lemma table_value: "d < 16 \<Longrightarrow> int d < base \<Longrightarrow> digit_value base (digits_table ! d) = Some (int d)"
proof -
  assume "d < 16" and b: "int d < base"
  then have "d \<in> {0, 1, 2, 3, 4, 5, 6, 7, 8, 9, 10, 11, 12, 13, 14, 15}"
    by (simp only: insert_iff empty_iff) presburger
  then show ?thesis using b by (elim insertE) (simp_all add: digit_value_def digits_table_def)
qed

lemma digits_of_values: "2 \<le> base \<Longrightarrow> base \<le> 16 \<Longrightarrow> c \<in> set (digits_of base u) \<Longrightarrow> digit_value (int base) c \<noteq> None"
proof (induction base u rule: digits_of.induct)
  case (1 base u)
  have "digit_value (int base) (digits_table ! (u mod base)) = Some (int (u mod base))"
    using 1(2,3) by (intro table_value) (auto simp: less_le_trans [OF mod_less_divisor])
  with 1 show ?case by (subst (asm) digits_of.simps) (auto split: if_splits)
qed

lemma digits_value_of:
  "2 \<le> base \<Longrightarrow> base \<le> 16 \<Longrightarrow> digits_value (int base) (digits_of base u) 0 = of_nat u"
proof (induction base u rule: digits_of.induct)
  case (1 base u)
  have v: "digit_value (int base) (digits_table ! (u mod base)) = Some (int (u mod base))"
    using 1(2,3) by (intro table_value) (auto simp: less_le_trans [OF mod_less_divisor])
  show ?case
  proof (cases "u < base")
    case True
    then show ?thesis using v by (subst digits_of.simps) (simp add: digits_value_def)
  next
    case False
    have "digits_value (int base) (digits_of base u) 0
        = of_nat (u div base) * word_of_int (int base) + word_of_int (int (u mod base))"
      using False 1 v by (subst digits_of.simps) (simp add: digits_value_def)
    also have "\<dots> = of_nat (u div base) * of_nat base + of_nat (u mod base)" by simp
    also have "\<dots> = of_nat (u div base * base + u mod base)" by (simp only: of_nat_add of_nat_mult)
    finally show ?thesis by (simp only: div_mult_mod_eq)
  qed
qed

section \<open>Field widths\<close>

lemma print_num_plain:
  assumes b: "good_base base" and f: "altfmt s = False" "prec s = -1" "field_width s = 0"
  shows "print_num s u base sign_char =
    Some ((if sign_char \<noteq> 0 then [sign_char] else []) @ digits_of (nat base) (unat u))"
  using f by (simp add: print_num_def printnum_digits [OF b] Let_def)

text \<open>
  A string takes the width of its field. A string that is cut off by the precision and left adjusted
  gets one blank too few: the loop has counted the character that it did not print.
\<close>

lemma print_string_length:
  assumes "0 \<le> prec s"
  shows "int (length (print_string s p)) =
    (if \<not> ladjust s \<or> int (length p) \<le> prec s then max (field_width s) (min (int (length p)) (prec s))
     else max (field_width s - 1) (prec s))"
  using assms by (auto simp: print_string_def Let_def min_def max_def)

section \<open>The console\<close>

text \<open>The characters of the calls so far and of the buffer are those that were printed.\<close>

definition printed :: "printf_state \<Rightarrow> u8 list" where
  "printed s = concat (putbytes s) @ take (index s) (buf s)"

definition printing :: "printf_state \<Rightarrow> bool" where
  "printing s \<longleftrightarrow> length (buf s) = PRINTF_BUFMAX \<and> index s \<le> PRINTF_BUFMAX
     \<and> (\<forall>b \<in> set (putbytes s). length b \<le> PRINTF_BUFMAX)"

lemma printf_char_printed:
  assumes "printing s"
  shows "printing (printf_char s c)" "printed (printf_char s c) = printed s @ [c]"
proof -
  have l: "length (buf s) = PRINTF_BUFMAX" "index s \<le> PRINTF_BUFMAX" using assms by (simp_all add: printing_def)
  have t: "take 1 ((buf s)[0 := c]) = [c]" using l(1) by (cases "buf s") auto
  show "printing (printf_char s c)"
    using assms by (auto simp: printing_def printf_char_def flush_def Let_def)
  show "printed (printf_char s c) = printed s @ [c]"
    using l t by (auto simp: printed_def printf_char_def flush_def Let_def take_Suc_conv_app_nth)
qed

lemma printf_chars_printed:
  "printing s \<Longrightarrow> printing (fold (\<lambda>c s. printf_char s c) cs s) \<and> printed (fold (\<lambda>c s. printf_char s c) cs s) = printed s @ cs"
  by (induction cs arbitrary: s) (auto simp: printf_char_printed)

lemma vprintf_prints:
  assumes "doprnt fmt args = Some out" "length garbage = PRINTF_BUFMAX"
  shows "\<exists>calls. vprintf garbage fmt args = Some calls \<and> concat calls = out
    \<and> (\<forall>b \<in> set calls. length b \<le> PRINTF_BUFMAX)"
proof -
  let ?s = "\<lparr>buf = garbage, index = 0, putbytes = []\<rparr>"
  let ?t = "fold (\<lambda>c s. printf_char s c) out ?s"
  have "printing ?s" "printed ?s = []" using assms(2) by (simp_all add: printing_def printed_def)
  with printf_chars_printed [of ?s out] have t: "printing ?t" "printed ?t = out" by simp_all
  then have f: "concat (putbytes (if index ?t \<noteq> 0 then flush ?t else ?t)) = out"
    "\<forall>b \<in> set (putbytes (if index ?t \<noteq> 0 then flush ?t else ?t)). length b \<le> PRINTF_BUFMAX"
    by (auto simp: printed_def printing_def flush_def)
  then show ?thesis using assms(1) by (simp add: vprintf_def Let_def)
qed

section \<open>Strings\<close>

text \<open>The bytes that are written into a string.\<close>

definition written :: "bmem \<Rightarrow> ptr \<Rightarrow> u8 list \<Rightarrow> bmem" where
  "written m q bs = (\<lambda>x. if unat (x - q) < length bs then bs ! unat (x - q) else m x)"

lemma written_at: "i < length bs \<Longrightarrow> length bs \<le> 2 ^ 32 \<Longrightarrow> written m q bs (q + of_nat i) = bs ! i"
  by (simp add: written_def unat_of_nat32)

lemma written_Nil [simp]: "written m q [] = m"
  by (simp add: written_def)

lemma written_Cons:
  assumes "length bs < 2 ^ 32 - 1"
  shows "written (m(q := b)) (q + 1) bs = written m q (b # bs)"
proof
  fix x
  show "written (m(q := b)) (q + 1) bs x = written m q (b # bs) x"
  proof (cases "x = q")
    case True
    have "unat (q - (q + 1) :: u32) = 2 ^ 32 - 1" by (simp add: unsigned_minus_1_eq_mask mask_eq_exp_minus_1)
    with assms True show ?thesis by (simp add: written_def)
  next
    case False
    have "unat (x - q) = Suc (unat (x - (q + 1)))" using unat_pred [OF False] by simp
    with False show ?thesis by (simp add: written_def)
  qed
qed

lemma written_snoc:
  assumes "length bs < 2 ^ 32" "k = length bs"
  shows "(written m q bs)(q + of_nat k := b) = written m q (bs @ [b])"
proof
  fix x
  have un: "unat (of_nat (length bs) :: u32) = length bs" using assms(1) by (rule unat_of_nat32)
  show "((written m q bs)(q + of_nat k := b)) x = written m q (bs @ [b]) x"
  proof (cases "x = q + of_nat (length bs)")
    case True
    then show ?thesis using assms(2) by (simp add: written_def un)
  next
    case False
    have "unat (x - q) \<noteq> length bs"
    proof
      assume "unat (x - q) = length bs"
      then have "unat (x - q) = unat (of_nat (length bs) :: u32)" using un by simp
      then have "x - q = of_nat (length bs)" by (rule unsigned_word_eqI)
      with False show False by (metis diff_add_cancel add.commute)
    qed
    with False assms(2) show ?thesis by (auto simp: written_def nth_append less_Suc_eq)
  qed
qed

lemma savechars:
  "smax s = SPRINTF_UNLIMITED \<or> slen s \<le> smax s \<Longrightarrow> length out < 2 ^ 32 \<Longrightarrow> fold savechar out (s, m) =
     (let bs = (if smax s = SPRINTF_UNLIMITED then out else take (smax s - slen s) out)
      in (s\<lparr>slen := slen s + length bs, sbuf := sbuf s + of_nat (length bs)\<rparr>, written m (sbuf s) bs))"
proof (induction out arbitrary: s m)
  case (Cons c out)
  show ?case
  proof (cases "smax s \<noteq> SPRINTF_UNLIMITED \<and> slen s = smax s")
    case True
    then have "savechar c (s, m) = (s, m)" by (simp add: savechar_def)
    with True Cons show ?thesis by (simp add: Let_def)
  next
    case False
    let ?s = "s\<lparr>slen := slen s + 1, sbuf := sbuf s + 1\<rparr>" and ?m = "m(sbuf s := c)"
    let ?bs = "if smax s = SPRINTF_UNLIMITED then out else take (smax s - (slen s + 1)) out"
    have e: "savechar c (s, m) = (?s, ?m)" using False by (auto simp: savechar_def)
    have "length ?bs < 2 ^ 32 - 1" using Cons.prems(2) by auto
    note w = written_Cons [OF this, of m "sbuf s" c]
    have cs: "(if smax s = SPRINTF_UNLIMITED then c # out else take (smax s - slen s) (c # out)) = c # ?bs"
      using False Cons.prems(1) by (auto simp: take_Cons')
    have p: "smax ?s = SPRINTF_UNLIMITED \<or> slen ?s \<le> smax ?s" using False Cons.prems(1) by auto
    have "fold savechar (c # out) (s, m) = fold savechar out (?s, ?m)" by (simp add: e)
    also have "\<dots> = (?s\<lparr>slen := slen ?s + length ?bs, sbuf := sbuf ?s + of_nat (length ?bs)\<rparr>, written ?m (sbuf ?s) ?bs)"
    proof -
      have "length out < 2 ^ 32" using Cons.prems(2) by simp
      from Cons.IH [OF p this, of ?m] show ?thesis by (simp add: Let_def del: fun_upd_apply)
    qed
    finally show ?thesis unfolding cs using w by (simp add: Let_def add.assoc)
  qed
qed simp

text \<open>
  \<open>vsnprintf\<close> writes the characters that fit and then a null byte. When all of the buffer is used the
  null byte is the first byte behind it.
\<close>

lemma vsnprintf_writes:
  assumes "doprnt fmt args = Some out" "sz \<noteq> SPRINTF_UNLIMITED" "length out < 2 ^ 32 - 1"
  shows "vsnprintf s sz fmt args m = Some (min (length out) sz, written m s (take sz out @ [0]))"
proof -
  let ?k = "min (length out) sz"
  have "fold savechar out (\<lparr>sbuf = s, slen = 0, smax = sz\<rparr>, m)
      = (\<lparr>sbuf = s + of_nat ?k, slen = ?k, smax = sz\<rparr>, written m s (take sz out))"
    using savechars [of "\<lparr>sbuf = s, slen = 0, smax = sz\<rparr>" out m] assms by (simp add: Let_def min.commute)
  moreover have "(written m s (take sz out))(s + of_nat ?k := 0) = written m s (take sz out @ [0])"
    using assms(3) by (intro written_snoc) (simp_all add: min.commute)
  ultimately show ?thesis using assms(1) by (simp add: vsnprintf_def)
qed

lemma vsprintf_writes:
  assumes "doprnt fmt args = Some out" "length out < 2 ^ 32 - 1"
  shows "vsprintf s fmt args m = Some (length out, written m s (out @ [0]))"
proof -
  have "fold savechar out (\<lparr>sbuf = s, slen = 0, smax = SPRINTF_UNLIMITED\<rparr>, m)
      = (\<lparr>sbuf = s + of_nat (length out), slen = length out, smax = SPRINTF_UNLIMITED\<rparr>, written m s out)"
    using savechars [of "\<lparr>sbuf = s, slen = 0, smax = SPRINTF_UNLIMITED\<rparr>" out m] assms by (simp add: Let_def)
  moreover have "(written m s out)(s + of_nat (length out) := 0) = written m s (out @ [0])"
    using assms(2) by (intro written_snoc) simp_all
  ultimately show ?thesis using assms(1) by (simp add: vsprintf_def)
qed

lemma written_cstr:
  assumes "length bs < 2 ^ 32 - 1" "0 \<notin> set bs"
  shows "cstr (written m q (bs @ [0])) q bs"
proof -
  have u: "unat (of_nat i :: u32) = i" if "i \<le> length bs" for i using that assms(1) by (intro unat_of_nat32) simp
  have "cstr (written m q (bs @ [0])) q (bs @ [])"
    unfolding cstr_append using assms(2) u by (auto simp: written_def nth_append)
  then show ?thesis by simp
qed

section \<open>Printing and reading back\<close>

lemma doprnt_d: "doprnt [0x25, 0x64] [Word w] = print_signed no_flags w 10"
proof -
  have "convert [0x64] [Word w] = map_option (\<lambda>out. (out, [], [])) (print_signed no_flags w 10)"
    by (simp add: convert_def no_flags_def parse_padc_def parse_length_def parse_prec_def parse_long_def starts_def
        isdigit_def convert_char_def with_word_def int_arg_def option.map_comp comp_def)
  then show ?thesis by (cases "print_signed no_flags w 10") simp_all
qed

text \<open>The characters of \<open>%d\<close>.\<close>

definition decimal :: "u32 \<Rightarrow> u8 list" where
  "decimal w = (if sint w < 0 then 0x2D # digits_of 10 (unat (- w)) else digits_of 10 (unat w))"

lemma print_signed_decimal: "print_signed no_flags w 10 = Some (decimal w)"
  by (simp add: print_signed_def decimal_def print_num_plain good_base_def no_flags_def)

lemma digits_of_length: "2 \<le> base \<Longrightarrow> u < base ^ k \<Longrightarrow> 0 < k \<Longrightarrow> length (digits_of base u) \<le> k"
proof (induction base u arbitrary: k rule: digits_of.induct)
  case (1 base u)
  show ?case
  proof (cases "u < base")
    case True
    with 1(4) show ?thesis by (subst digits_of.simps) simp
  next
    case False
    then have "k \<noteq> 1" using 1(3) by auto
    then obtain j where j: "k = Suc j" "0 < j" using 1(4) by (cases k) auto
    then have "u div base < base ^ j" using 1(2,3) by (simp add: div_less_iff_less_mult mult.commute)
    with 1 False j show ?thesis by (subst digits_of.simps) simp
  qed
qed

lemma digit_chars:
  assumes "digit_value 10 c \<noteq> None"
  shows "c \<noteq> 0" "\<not> isspace c" "c \<noteq> 0x2D" "c \<noteq> 0x78" "c \<noteq> 0x58"
  using assms by (auto simp: digit_value_def isspace_def split: if_splits)

lemma decimal_facts: "length (decimal w) \<le> 11" "0 \<notin> set (decimal w)"
proof -
  have d: "length (digits_of 10 (unat v)) \<le> 10" for v :: u32
    using digits_of_length [of 10 "unat v" 10] unat_lt32 [of v] by simp
  show "length (decimal w) \<le> 11" using d [of w] d [of "- w"] by (simp add: decimal_def)
  have "0 \<notin> set (digits_of 10 u)" for u using digits_of_values [of 10 0 u] by (auto simp: digit_value_0)
  then show "0 \<notin> set (decimal w)" by (simp add: decimal_def)
qed

text \<open>\<open>strtol\<close> on a number without a sign and with one.\<close>

lemma strtol_decimal:
  assumes "cstr m p (decimal w)"
  shows "strtol p 10 m = Some (w, p + of_nat (length (decimal w)))"
proof -
  have dl: "digit_loop q 10 0 m = Some (of_nat u, q + of_nat (length (digits_of 10 u)))"
    if c: "cstr m q (digits_of 10 u)" for q u
  proof -
    have "\<forall>i < length (digits_of 10 u). m (q + of_nat i) = digits_of 10 u ! i"
      "m (q + of_nat (length (digits_of 10 u))) = 0"
      using c cstr_append [of m q "digits_of 10 u" "[]"] by auto
    then have "digit_loop q 10 0 m = Some (digits_value 10 (digits_of 10 u) 0, q + of_nat (length (digits_of 10 u)))"
      using digits_of_values [of 10 _ u] by (intro digit_loop_digits) (auto simp: digit_value_0)
    moreover have "digits_value 10 (digits_of 10 u) 0 = of_nat u" using digits_value_of [of 10 u] by simp
    ultimately show ?thesis by simp
  qed
  have first: "\<not> isspace (m q) \<and> m q \<noteq> 0x2D" if c: "cstr m q (digits_of 10 u)" for q u
  proof -
    obtain x xs where x: "digits_of 10 u = x # xs" using digits_of_nonempty [of 10 u] by (cases "digits_of 10 u") auto
    then have "m q = x" "digit_value 10 x \<noteq> None" using c digits_of_values [of 10 x u] by auto
    then show ?thesis using digit_chars [of x] by simp
  qed
  have base: "\<not> hex_prefix q 10 m" "base_of q 10 m = 10" for q by (simp_all add: hex_prefix_def base_of_def)
  show ?thesis
  proof (cases "sint w < 0")
    case False
    then have c: "cstr m p (digits_of 10 (unat w))" using assms by (simp add: decimal_def)
    have "space_loop p m = Some p" using first [OF c] by (subst space_loop.simps) simp
    then show ?thesis using first [OF c] dl [OF c] base False by (simp add: strtol_def decimal_def)
  next
    case True
    then have c: "m p = 0x2D" "cstr m (p + 1) (digits_of 10 (unat (- w)))" using assms by (simp_all add: decimal_def)
    have "space_loop p m = Some p" using c(1) by (subst space_loop.simps) (simp add: isspace_def)
    then show ?thesis using c(1) dl [OF c(2)] base True by (simp add: strtol_def decimal_def add.assoc)
  qed
qed

end
