(* ===== verification/Division.thy ===== *)
theory Division
  imports Prelude
begin

text \<open>
  The 64-bit division of \<^verbatim>\<open>div64.c\<close>, made of 32-bit divisions. The macros are the i386 instructions
  \<^verbatim>\<open>bsr\<close>, \<^verbatim>\<open>shrd\<close>, \<^verbatim>\<open>shr\<close> and \<^verbatim>\<open>div\<close>: a shift count is taken modulo 32, and a division faults when the
  divisor is 0 or the quotient does not fit. \<open>None\<close> is a fault.
\<close>

type_synonym u64 = "64 word"

text \<open>The index of the highest bit.\<close>

fun top_bit :: "nat \<Rightarrow> nat" where
  "top_bit n = (if n < 2 then 0 else top_bit (n div 2) + 1)"

declare top_bit.simps [simp del]

definition hard_bsr :: "u32 \<Rightarrow> nat" where
  "hard_bsr n = top_bit (unat n)"

definition shrd :: "u32 \<Rightarrow> u32 \<Rightarrow> nat \<Rightarrow> u32" where
  "shrd hi lo n = drop_bit (n mod 32) lo OR push_bit (32 - n mod 32) hi"

definition rshift64 :: "u32 \<Rightarrow> u32 \<Rightarrow> nat \<Rightarrow> u32 \<times> u32" where
  "rshift64 x1 x0 n =
     (let a0 = shrd x1 x0 n; a1 = drop_bit (n mod 32) x1
      in if n AND 32 \<noteq> 0 then (0, a1) else (a1, a0))"

definition rshift64_32 :: "u32 \<Rightarrow> u32 \<Rightarrow> nat \<Rightarrow> u32" where
  "rshift64_32 x1 x0 n = (let a0 = shrd x1 x0 n in if n AND 32 \<noteq> 0 then x1 else a0)"

definition join :: "u32 \<Rightarrow> u32 \<Rightarrow> nat" where
  "join hi lo = unat hi * 2 ^ 32 + unat lo"

text \<open>\<open>div64_32\<close>: the remainder and the quotient.\<close>

definition div64_32 :: "u32 \<Rightarrow> u32 \<Rightarrow> u32 \<Rightarrow> (u32 \<times> u32) option" where
  "div64_32 x1 x0 y =
     (if y = 0 \<or> join x1 x0 div unat y \<ge> 2 ^ 32 then None
      else Some (of_nat (join x1 x0 mod unat y), of_nat (join x1 x0 div unat y)))"

partial_function (option) correct_loop :: "u64 \<Rightarrow> u32 \<Rightarrow> u64 \<Rightarrow> (u32 \<times> u64) option" where
  "correct_loop y x0 r = (if r \<ge> y then correct_loop y (x0 + 1) (r - y) else Some (x0, r))"

text \<open>The quotient and the remainder.\<close>

definition do_div64 :: "u64 \<Rightarrow> u64 \<Rightarrow> (u64 \<times> u64) option" where
  "do_div64 x y =
     (let y1 = ucast (drop_bit 32 y) :: u32; y0 = ucast (y AND 0xffffffff) :: u32;
          x1 = ucast (drop_bit 32 x) :: u32; x0 = ucast (x AND 0xffffffff) :: u32
      in if y1 \<noteq> 0 then
           (let l = hard_bsr y1 + 1;
                y0 = rshift64_32 y1 y0 l;
                (x1, x0) = rshift64 x1 x0 l
            in Option.bind (div64_32 x1 x0 (y0 + 1)) (\<lambda>(x1, x0).
                 let r = x - y * ucast x0
                 in map_option (\<lambda>(x0, r). (ucast x0, r)) (correct_loop y x0 r)))
         else if x1 < y0 then
           map_option (\<lambda>(x1, x0). (ucast x0, ucast x1)) (div64_32 x1 x0 y0)
         else if y0 \<noteq> 0 then
           Option.bind (div64_32 0 x1 y0) (\<lambda>(x2, x1).
             map_option (\<lambda>(x2, x0). (push_bit 32 (ucast x1) + ucast x0, ucast x2)) (div64_32 x2 x0 y0))
         else Some (0, x))"

definition div64 :: "u64 \<Rightarrow> u64 \<Rightarrow> u64 option" where
  "div64 x y = map_option fst (do_div64 x y)"

definition mod64 :: "u64 \<Rightarrow> u64 \<Rightarrow> u64 option" where
  "mod64 x y = map_option snd (do_div64 x y)"

section \<open>Halves and shifts\<close>

lemma unat_lt64: "unat (x :: u64) < 2 ^ 64"
  using unsigned_less [of x, where 'a = nat] by simp

lemma unat_of_nat64: "n < 2 ^ 64 \<Longrightarrow> unat (of_nat n :: u64) = n"
  by (simp add: unat_of_nat take_bit_nat_eq_self)

lemma halves:
  fixes x :: u64
  shows "unat (ucast (drop_bit 32 x) :: u32) = unat x div 2 ^ 32"
    "unat (ucast (x AND 0xffffffff) :: u32) = unat x mod 2 ^ 32"
proof -
  have "unat x div 2 ^ 32 < 2 ^ 32" using unat_lt64 [of x] by (simp add: div_less_iff_less_mult)
  moreover have "unat (drop_bit 32 x) = unat x div 2 ^ 32"
    using unat_lt64 [of x] unfolding unsigned_drop_bit_eq by (simp add: drop_bit_eq_div take_bit_nat_eq_self)
  ultimately show "unat (ucast (drop_bit 32 x) :: u32) = unat x div 2 ^ 32"
    unfolding unsigned_ucast_eq by (simp add: take_bit_nat_eq_self)
  have m: "(0xffffffff :: u64) = mask 32" by (simp add: mask_eq_exp_minus_1)
  have "x AND 0xffffffff = take_bit 32 x" unfolding m by (simp add: take_bit_eq_mask)
  then have "unat (x AND 0xffffffff) = unat x mod 2 ^ 32"
    by (simp only: unsigned_take_bit_eq) (simp add: take_bit_eq_mod)
  then show "unat (ucast (x AND 0xffffffff) :: u32) = unat x mod 2 ^ 32"
    unfolding unsigned_ucast_eq by (simp add: take_bit_eq_mod)
qed

lemma unat_drop_bit32: "unat (drop_bit n (x :: u32)) = unat x div 2 ^ n"
  using unat_lt32 [of x] unfolding unsigned_drop_bit_eq by (simp add: drop_bit_eq_div take_bit_nat_eq_self)

text \<open>The low word of a shift by fewer than 32 bits.\<close>

lemma shrd_shift:
  assumes "n < 32"
  shows "unat (shrd hi lo n) = join hi lo div 2 ^ n mod 2 ^ 32"
proof -
  have "shrd hi lo n = of_nat (join hi lo div 2 ^ n)"
  proof (rule bit_word_eqI)
    fix k assume "k < LENGTH(32)"
    then have k: "k < 32" by simp
    have b: "bit (join hi lo) i \<longleftrightarrow> (if i < 32 then bit lo i else bit hi (i - 32))" for i
    proof -
      have "join hi lo = push_bit 32 (unat hi) OR unat lo"
      proof -
        have "push_bit 32 (unat hi) AND unat lo = 0"
          by (rule bit_eqI) (auto simp: bit_and_iff bit_push_bit_iff bit_unsigned_iff dest: bit_imp_le_length)
        then have "push_bit 32 (unat hi) OR unat lo = push_bit 32 (unat hi) + unat lo" by (rule disjunctive_add_eq_or [symmetric])
        then show ?thesis by (simp add: join_def push_bit_eq_mult)
      qed
      then show ?thesis
        by (auto simp: bit_or_iff bit_push_bit_iff bit_unsigned_iff dest: bit_imp_le_length)
    qed
    have "bit (of_nat (join hi lo div 2 ^ n) :: u32) k \<longleftrightarrow> bit (join hi lo) (n + k)"
      using k by (simp add: bit_of_nat_iff drop_bit_eq_div [symmetric] bit_drop_bit_eq add.commute)
    moreover have "bit (shrd hi lo n) k \<longleftrightarrow> bit lo (n + k) \<or> 32 - n \<le> k \<and> bit hi (k - (32 - n))"
      using assms k by (simp add: shrd_def bit_or_iff bit_drop_bit_eq bit_push_bit_iff)
    moreover have "k - (32 - n) = n + k - 32" using assms by simp
    ultimately show "bit (shrd hi lo n) k \<longleftrightarrow> bit (of_nat (join hi lo div 2 ^ n) :: u32) k"
      using assms k b [of "n + k"] by (auto dest: bit_imp_le_length)
  qed
  then show ?thesis by (simp add: unat_of_nat take_bit_eq_mod)
qed

lemma and_32: "n < 32 \<Longrightarrow> n AND 32 = (0 :: nat)" "(32 :: nat) AND 32 = 32"
proof -
  assume "n < 32"
  then have "\<not> bit n 5" by (simp add: bit_iff_odd)
  with and_exp_eq_0_iff_not_bit [of n 5] show "n AND 32 = 0" by simp
qed simp

lemma shift_low: "n \<le> 32 \<Longrightarrow> unat (rshift64_32 x1 x0 n) = join x1 x0 div 2 ^ n mod 2 ^ 32"
proof (cases "n = 32")
  case True
  then show ?thesis using unat_lt32 [of x0] unat_lt32 [of x1]
    by (simp add: rshift64_32_def and_32 join_def Let_def)
next
  case False
  moreover assume "n \<le> 32"
  ultimately show ?thesis using and_32(1) [of n] shrd_shift [of n] by (simp add: rshift64_32_def Let_def)
qed

lemma shift_both:
  assumes n: "n \<le> 32"
  shows "\<exists>a1 a0. rshift64 x1 x0 n = (a1, a0) \<and> join a1 a0 = join x1 x0 div 2 ^ n"
proof (cases "n = 32")
  case True
  then show ?thesis using unat_lt32 [of x0] by (simp add: rshift64_def and_32 join_def Let_def)
next
  case False
  with n have n: "n < 32" by simp
  have "join x1 x0 div 2 ^ n div 2 ^ 32 = join x1 x0 div 2 ^ 32 div 2 ^ n"
    by (simp add: div_mult2_eq [symmetric] mult.commute)
  also have "join x1 x0 div 2 ^ 32 = unat x1" using unat_lt32 [of x0] by (simp add: join_def)
  finally have "join x1 x0 div 2 ^ n div 2 ^ 32 = unat (drop_bit n x1)" by (simp add: unat_drop_bit32)
  then have "join (drop_bit n x1) (shrd x1 x0 n) = join x1 x0 div 2 ^ n"
    using shrd_shift [OF n, of x1 x0] div_mult_mod_eq [of "join x1 x0 div 2 ^ n" "2 ^ 32"] by (simp add: join_def)
  then show ?thesis using n and_32(1) [OF n] by (simp add: rshift64_def Let_def)
qed

lemma top_bit_bounds: "0 < n \<Longrightarrow> 2 ^ top_bit n \<le> n \<and> n < 2 ^ (top_bit n + 1)"
proof (induction n rule: top_bit.induct)
  case (1 n)
  show ?case
  proof (cases "n < 2")
    case True
    with "1.prems" show ?thesis by (subst (1 2) top_bit.simps) simp
  next
    case False
    then have IH: "2 ^ top_bit (n div 2) \<le> n div 2 \<and> n div 2 < 2 ^ (top_bit (n div 2) + 1)" using "1.IH" by simp
    have e: "top_bit n = top_bit (n div 2) + 1" using False by (subst top_bit.simps) simp
    have "2 * (n div 2) \<le> n" "n < 2 * (n div 2) + 2" by simp_all
    moreover have "(2::nat) ^ top_bit n = 2 * 2 ^ top_bit (n div 2)" "(2::nat) ^ (top_bit n + 1) = 2 * 2 ^ (top_bit (n div 2) + 1)"
      unfolding e by simp_all
    ultimately show ?thesis using IH by linarith
  qed
qed

lemma div64_32_fits:
  assumes "y \<noteq> 0" "unat x1 < unat y"
  shows "\<exists>r q. div64_32 x1 x0 y = Some (r, q) \<and> unat r = join x1 x0 mod unat y \<and> unat q = join x1 x0 div unat y"
proof -
  have y: "0 < unat y" using assms(1) by (simp add: unat_gt_0)
  have "join x1 x0 < (unat x1 + 1) * 2 ^ 32" using unat_lt32 [of x0] by (simp add: join_def)
  also have "\<dots> \<le> unat y * 2 ^ 32" using assms(2) by (intro mult_le_mono1) simp
  finally have q: "join x1 x0 div unat y < 2 ^ 32" using y by (simp add: div_less_iff_less_mult mult.commute)
  have "join x1 x0 mod unat y < unat y" using y by simp
  also have "\<dots> < 2 ^ 32" by (rule unat_lt32)
  finally have r: "join x1 x0 mod unat y < 2 ^ 32" .
  show ?thesis using assms(1) q r by (simp add: div64_32_def unat_of_nat32 not_le [symmetric])
qed

text \<open>The loop adds what the first quotient falls short by.\<close>

lemma correct_loop_div:
  assumes "y \<noteq> 0" "unat x0 + unat r div unat y < 2 ^ 32"
  shows "\<exists>q. correct_loop y x0 r = Some (q, r mod y) \<and> unat q = unat x0 + unat r div unat y"
  using assms
proof (induction "unat r" arbitrary: r x0 rule: less_induct)
  case less
  have y: "0 < unat y" using less.prems(1) by (simp add: unat_gt_0)
  show ?case
  proof (cases "y \<le> r")
    case False
    then have lt: "unat r < unat y" by (simp add: word_le_nat_alt)
    then have "r mod y = r" by (metis mod_less unat_mod unsigned_word_eqI)
    with False lt show ?thesis by (subst correct_loop.simps) simp
  next
    case True
    then have le: "unat y \<le> unat r" by (simp add: word_le_nat_alt)
    have u: "unat (r - y) = unat r - unat y" using True by (simp add: unat_sub)
    have d: "unat r div unat y = unat (r - y) div unat y + 1" using le y by (simp add: u le_div_geq)
    have x: "unat (x0 + 1) = unat x0 + 1"
    proof -
      have "unat x0 + 1 < 2 ^ 32" using less.prems(2) unfolding d by linarith
      then show ?thesis by (simp add: unat_word_ariths(1))
    qed
    have "unat (r - y) < unat r" using u le y by linarith
    moreover have "unat (x0 + 1) + unat (r - y) div unat y < 2 ^ 32" using less.prems(2) d x by simp
    ultimately obtain q where q: "correct_loop y (x0 + 1) (r - y) = Some (q, (r - y) mod y)"
      "unat q = unat (x0 + 1) + unat (r - y) div unat y" using less.hyps less.prems(1) by blast
    have "unat ((r - y) mod y) = unat (r mod y)"
      using le by (simp add: unat_mod u le_mod_geq)
    then have "(r - y) mod y = r mod y" by (rule unsigned_word_eqI)
    with q True x d show ?thesis by (subst correct_loop.simps) simp
  qed
qed

section \<open>The division\<close>

text \<open>The quotient of the shifted numbers, with the divisor rounded up, is never too large.\<close>

lemma quotient_below:
  fixes X Y q l :: nat
  assumes "q = X div 2 ^ l div (Y div 2 ^ l + 1)"
  shows "q * Y \<le> X"
proof -
  have "Y < (Y div 2 ^ l + 1) * 2 ^ l"
    using dividend_less_div_times [of "2 ^ l" Y] by (simp add: algebra_simps)
  then have "q * Y \<le> q * ((Y div 2 ^ l + 1) * 2 ^ l)" by (intro mult_le_mono2) simp
  also have "\<dots> = q * (Y div 2 ^ l + 1) * 2 ^ l" by (simp only: mult.assoc)
  also have "\<dots> \<le> X div 2 ^ l * 2 ^ l" unfolding assms
    by (intro mult_le_mono1) (rule div_times_less_eq_dividend)
  also have "\<dots> \<le> X" by simp
  finally show ?thesis .
qed

lemma top_shift:
  fixes Y :: nat
  assumes "Y < 2 ^ 64" "Y div 2 ^ 32 \<noteq> 0" and l: "l = top_bit (Y div 2 ^ 32) + 1"
  shows "l \<le> 32" "2 ^ 31 \<le> Y div 2 ^ l" "Y div 2 ^ l < 2 ^ 32"
proof -
  let ?H = "Y div 2 ^ 32"
  have b: "2 ^ top_bit ?H \<le> ?H" "?H < 2 ^ l" using top_bit_bounds [of ?H] assms(2) l by simp_all
  have "?H < 2 ^ 32" using assms(1) by (simp add: div_less_iff_less_mult)
  with b(1) have "(2::nat) ^ top_bit ?H < 2 ^ 32" by linarith
  then have "top_bit ?H < 32" by (rule power_less_imp_less_exp [rotated]) simp
  with l show "l \<le> 32" by simp
  have "(2::nat) ^ 31 * 2 ^ l = 2 ^ top_bit ?H * 2 ^ 32" by (simp add: l power_add)
  also have "\<dots> \<le> ?H * 2 ^ 32" using b(1) by (intro mult_le_mono1)
  also have "\<dots> \<le> Y" by simp
  finally show "2 ^ 31 \<le> Y div 2 ^ l" by (simp add: less_eq_div_iff_mult_less_eq)
  have "Y < (?H + 1) * 2 ^ 32" using dividend_less_div_times [of "2 ^ 32" Y] by (simp add: algebra_simps)
  also have "\<dots> \<le> 2 ^ l * 2 ^ 32" using b(2) by (intro mult_le_mono1) simp
  finally show "Y div 2 ^ l < 2 ^ 32" by (simp add: div_less_iff_less_mult mult.commute)
qed

definition overflows :: "u64 \<Rightarrow> bool" where
  "overflows y \<longleftrightarrow> unat y div 2 ^ 32 \<noteq> 0 \<and> unat y div 2 ^ (top_bit (unat y div 2 ^ 32) + 1) = 2 ^ 32 - 1"

lemma unat_word_eqs:
  fixes x :: u64 and y :: u64
  shows "unat (x div y) = unat x div unat y" "unat (x mod y) = unat x mod unat y"
  by (simp_all add: unat_div unat_mod)

lemma do_div64_large:
  fixes x y :: u64
  assumes big: "unat y div 2 ^ 32 \<noteq> 0"
  shows "do_div64 x y = (if overflows y then None else Some (x div y, x mod y))"
proof -
  define y1 where "y1 = (ucast (drop_bit 32 y) :: u32)"
  define y0 where "y0 = (ucast (y AND 0xffffffff) :: u32)"
  define x1 where "x1 = (ucast (drop_bit 32 x) :: u32)"
  define x0 where "x0 = (ucast (x AND 0xffffffff) :: u32)"
  define l where "l = hard_bsr y1 + 1"
  have u: "unat y1 = unat y div 2 ^ 32" "unat y0 = unat y mod 2 ^ 32" "unat x1 = unat x div 2 ^ 32" "unat x0 = unat x mod 2 ^ 32"
    unfolding y1_def y0_def x1_def x0_def by (rule halves)+
  have jx: "join x1 x0 = unat x" and jy: "join y1 y0 = unat y"
    unfolding join_def u by (simp_all add: div_mult_mod_eq)
  have l: "l = top_bit (unat y div 2 ^ 32) + 1" by (simp add: l_def hard_bsr_def u)
  note ts = top_shift [OF unat_lt64 big l]
  have yl: "unat (rshift64_32 y1 y0 l) = unat y div 2 ^ l" using shift_low [OF ts(1), of y1 y0] ts(3) by (simp add: jy)
  obtain a1 a0 where a: "rshift64 x1 x0 l = (a1, a0)" "join a1 a0 = unat x div 2 ^ l"
    using shift_both [OF ts(1), of x1 x0] jx by auto
  have y1: "y1 \<noteq> 0" using big u(1) by auto
  define d where "d = rshift64_32 y1 y0 l + 1"
  have dd: "do_div64 x y = Option.bind (div64_32 a1 a0 d) (\<lambda>(x1, x0).
      map_option (\<lambda>(x0, r). (ucast x0, r)) (correct_loop y x0 (x - y * ucast x0)))"
    using y1 a(1) [unfolded l_def] unfolding do_div64_def y1_def [symmetric] y0_def [symmetric] x1_def [symmetric] x0_def [symmetric]
    by (simp add: Let_def l_def d_def)
  show ?thesis
  proof (cases "overflows y")
    case True
    then have "unat (rshift64_32 y1 y0 l) = 2 ^ 32 - 1" unfolding overflows_def yl l [symmetric] by (rule conjunct2)
    then have "unat d = 0" by (simp add: d_def unat_word_ariths(1))
    then have "d = 0" by (simp add: unat_eq_0)
    then show ?thesis using True by (simp add: dd div64_32_def)
  next
    case False
    then have "unat y div 2 ^ l \<noteq> 2 ^ 32 - 1" using big unfolding overflows_def l by blast
    then have "unat y div 2 ^ l + 1 < 2 ^ 32" using ts(3) by linarith
    then have ud: "unat d = unat y div 2 ^ l + 1" by (simp add: d_def unat_word_ariths(1) yl)
    have "unat a1 = unat x div 2 ^ l div 2 ^ 32" using a(2) unat_lt32 [of a0] by (simp add: join_def)
    also have "\<dots> \<le> unat x div 2 div 2 ^ 32"
    proof -
      have "(2::nat) ^ 1 \<le> 2 ^ l" using l by (intro power_increasing) auto
      then have "unat x div 2 ^ l \<le> unat x div 2" by (intro div_le_mono2) simp_all
      then show ?thesis by (rule div_le_mono)
    qed
    also have "\<dots> < 2 ^ 31" using unat_lt64 [of x] by (simp add: div_mult2_eq [symmetric] div_less_iff_less_mult)
    finally have "unat a1 < unat d" using ud ts(2) by linarith
    moreover have "d \<noteq> 0" using ud by auto
    ultimately obtain r q where q: "div64_32 a1 a0 d = Some (r, q)" "unat q = unat x div 2 ^ l div (unat y div 2 ^ l + 1)"
      using div64_32_fits [of d a1 a0] a(2) ud by auto
    have le: "unat q * unat y \<le> unat x" by (rule quotient_below [OF q(2)])
    have uq: "unat (ucast q :: u64) = unat q" using unat_lt32 [of q]
      unfolding unsigned_ucast_eq by (simp add: take_bit_nat_eq_self)
    define r1 where "r1 = x - y * ucast q"
    have "unat (y * ucast q) = unat q * unat y"
      using le unat_lt64 [of x] by (simp add: unat_word_ariths(2) uq mult.commute)
    then have ur: "unat r1 = unat x - unat q * unat y" using le by (simp add: r1_def unat_sub word_le_nat_alt)
    have y: "0 < unat y" "y \<noteq> 0" using big by (cases "y = 0"; simp add: unat_gt_0)+
    have dv: "unat r1 div unat y + unat q = unat x div unat y" "unat r1 mod unat y = unat x mod unat y"
    proof -
      have "unat x = unat r1 + unat q * unat y" using ur le by simp
      then show "unat r1 div unat y + unat q = unat x div unat y" "unat r1 mod unat y = unat x mod unat y"
        using y(1) by simp_all
    qed
    have "2 ^ 32 \<le> unat y" using big by (metis div_less not_less)
    then have "unat x div unat y \<le> unat x div 2 ^ 32" by (intro div_le_mono2) simp_all
    also have "\<dots> < 2 ^ 32" using unat_lt64 [of x] by (simp add: div_less_iff_less_mult)
    finally have fit: "unat q + unat r1 div unat y < 2 ^ 32" using dv(1) by simp
    from correct_loop_div [OF y(2) fit] obtain q2 where q2: "correct_loop y q r1 = Some (q2, r1 mod y)"
      "unat q2 = unat q + unat r1 div unat y" by blast
    have "unat (ucast q2 :: u64) = unat q2" using unat_lt32 [of q2]
      unfolding unsigned_ucast_eq by (simp add: take_bit_nat_eq_self)
    then have "(ucast q2 :: u64) = x div y" using q2(2) dv(1) by (simp add: word_unat_eq_iff unat_word_eqs)
    moreover have "r1 mod y = x mod y" using dv(2) by (simp add: word_unat_eq_iff unat_word_eqs)
    ultimately show ?thesis using False q(1) q2(1) by (simp add: dd r1_def [symmetric])
  qed
qed

text \<open>The divisor fits in one word.\<close>

lemma join_zero: "join 0 x = unat x"
  by (simp add: join_def)

lemma unat_ucast_up: "unat (ucast (q :: u32) :: u64) = unat q"
  using unat_lt32 [of q] unfolding unsigned_ucast_eq by (simp add: take_bit_nat_eq_self)

lemma do_div64_small:
  fixes x y :: u64
  assumes small: "unat y div 2 ^ 32 = 0"
  shows "do_div64 x y = (if y = 0 then Some (0, x) else Some (x div y, x mod y))"
proof -
  define y1 where "y1 = (ucast (drop_bit 32 y) :: u32)"
  define y0 where "y0 = (ucast (y AND 0xffffffff) :: u32)"
  define x1 where "x1 = (ucast (drop_bit 32 x) :: u32)"
  define x0 where "x0 = (ucast (x AND 0xffffffff) :: u32)"
  have u: "unat y1 = unat y div 2 ^ 32" "unat y0 = unat y mod 2 ^ 32" "unat x1 = unat x div 2 ^ 32" "unat x0 = unat x mod 2 ^ 32"
    unfolding y1_def y0_def x1_def x0_def by (rule halves)+
  have jx: "join x1 x0 = unat x" unfolding join_def u by (simp add: div_mult_mod_eq)
  have y1: "y1 = 0" using u(1) small by (simp add: unat_eq_0)
  have y0: "unat y0 = unat y" using u(2) small by (metis div_mult_mod_eq mult_zero_left add_0)
  have z: "y0 = 0 \<longleftrightarrow> y = 0" using y0 by (metis unat_eq_0)
  have dd: "do_div64 x y =
     (if x1 < y0 then map_option (\<lambda>(x1, x0). (ucast x0, ucast x1)) (div64_32 x1 x0 y0)
      else if y0 \<noteq> 0 then
        Option.bind (div64_32 0 x1 y0) (\<lambda>(x2, x1).
          map_option (\<lambda>(x2, x0). (push_bit 32 (ucast x1) + ucast x0, ucast x2)) (div64_32 x2 x0 y0))
      else Some (0, x))"
    using y1 unfolding do_div64_def y1_def [symmetric] y0_def [symmetric] x1_def [symmetric] x0_def [symmetric]
    by (simp add: Let_def)
  have same: "(q :: u64, r :: u64) = (x div y, x mod y)"
    if "unat q = unat x div unat y" "unat r = unat x mod unat y" for q r
    using that word_unat_eq_iff [of q "x div y"] word_unat_eq_iff [of r "x mod y"] by (simp add: unat_word_eqs)
  consider (one) "x1 < y0" | (two) "\<not> x1 < y0" "y0 \<noteq> 0" | (zero) "\<not> x1 < y0" "y0 = 0" by blast
  then show ?thesis
  proof cases
    case one
    then have ne: "y0 \<noteq> 0" by (auto simp: word_less_nat_alt)
    obtain r q where "div64_32 x1 x0 y0 = Some (r, q)" "unat r = unat x mod unat y" "unat q = unat x div unat y"
      using div64_32_fits [OF ne, of x1 x0] one by (auto simp: word_less_nat_alt jx y0)
    then show ?thesis using one ne z same [of "ucast q" "ucast r"] by (simp add: dd unat_ucast_up)
  next
    case two
    then have pos: "0 < unat y0" by (simp add: unat_gt_0)
    obtain r q where a: "div64_32 0 x1 y0 = Some (r, q)" "unat r = unat x1 mod unat y" "unat q = unat x1 div unat y"
      using div64_32_fits [OF two(2), of 0 x1] pos by (auto simp: join_zero y0)
    have "unat r < unat y0" using a(2) pos by (simp add: y0)
    then obtain r2 q2 where b: "div64_32 r x0 y0 = Some (r2, q2)" "unat r2 = join r x0 mod unat y" "unat q2 = join r x0 div unat y"
      using div64_32_fits [OF two(2), of r x0] by (auto simp: y0)
    have e: "unat x = unat q * 2 ^ 32 * unat y + join r x0"
    proof -
      have "unat x1 = unat q * unat y + unat r" unfolding a(2,3) by (simp add: div_mult_mod_eq)
      then have "unat x = (unat q * unat y + unat r) * 2 ^ 32 + unat x0" using jx by (simp only: join_def)
      then show ?thesis by (simp add: join_def algebra_simps)
    qed
    have py: "0 < unat y" using pos y0 by simp
    have d: "unat x div unat y = unat q * 2 ^ 32 + unat q2" "unat x mod unat y = unat r2"
      unfolding e b(2,3) using py by simp_all
    have "unat (push_bit 32 (ucast q) + ucast q2 :: u64) = unat q * 2 ^ 32 + unat q2"
    proof -
      have bd: "unat q * 2 ^ 32 + unat q2 < 2 ^ 64" using unat_lt32 [of q] unat_lt32 [of q2] by simp
      have "(push_bit 32 (ucast q) + ucast q2 :: u64) = of_nat (unat q * 2 ^ 32 + unat q2)"
        by (simp add: push_bit_eq_mult)
      then show ?thesis using unat_of_nat64 [OF bd] by simp
    qed
    then show ?thesis using two z d same [of "push_bit 32 (ucast q) + ucast q2" "ucast r2"]
      by (simp add: dd a(1) b(1) unat_ucast_up)
  next
    case zero
    then show ?thesis using z dd by simp
  qed
qed

lemma do_div64_value:
  "do_div64 x y = (if overflows y then None else if y = 0 then Some (0, x) else Some (x div y, x mod y))"
  using do_div64_large [of y x] do_div64_small [of y x] by (cases "unat y div 2 ^ 32 = 0") (auto simp: overflows_def)

end
