(* ===== verification/Priority_Queue.thy ===== *)
theory Priority_Queue
  imports Links
begin

text \<open>
  The generic priority queues of \<^verbatim>\<open>shared/queue.h\<close>: a circular doubly linked list through a field of the
  elements, sorted by ascending priority, with the element to take out at the end. The offset \<open>diff\<close> of
  the field takes an element to its link. The priorities are fields of the elements that the macros only
  read: an argument. \<open>None\<close> is a failed assertion, or a loop that does not end.
\<close>

section \<open>The macros\<close>

record link_memory =
  lk_prev :: "ptr \<Rightarrow> ptr"
  lk_next :: "ptr \<Rightarrow> ptr"

definition set_prev :: "ptr \<Rightarrow> ptr \<Rightarrow> link_memory \<Rightarrow> link_memory" where
  "set_prev l v s = s\<lparr>lk_prev := (lk_prev s)(l := v)\<rparr>"

definition set_next :: "ptr \<Rightarrow> ptr \<Rightarrow> link_memory \<Rightarrow> link_memory" where
  "set_next l v s = s\<lparr>lk_next := (lk_next s)(l := v)\<rparr>"

definition INIT_LIST_HEAD :: "ptr \<Rightarrow> link_memory \<Rightarrow> link_memory" where
  "INIT_LIST_HEAD l s = set_prev l l (set_next l l s)"

definition INIT_LINK :: "ptr \<Rightarrow> link_memory \<Rightarrow> link_memory" where
  "INIT_LINK l s = set_prev l 0 (set_next l 0 s)"

definition queue_entry :: "ptr \<Rightarrow> ptr \<Rightarrow> ptr" where
  "queue_entry diff l = l - diff"

partial_function (option) queue_add_loop ::
    "ptr \<Rightarrow> (ptr \<Rightarrow> int) \<Rightarrow> ptr \<Rightarrow> ptr \<Rightarrow> ptr \<Rightarrow> link_memory \<Rightarrow> ptr option" where
  "queue_add_loop diff priofield head elem cur_link s =
     (let cur1 = lk_next s cur_link
      in if cur1 \<noteq> head \<and> priofield (queue_entry diff cur1) < priofield elem
         then queue_add_loop diff priofield head elem cur1 s else Some cur1)"

definition queue_add :: "ptr \<Rightarrow> (ptr \<Rightarrow> int) \<Rightarrow> ptr \<Rightarrow> ptr \<Rightarrow> link_memory \<Rightarrow> link_memory option" where
  "queue_add diff priofield head elem s =
     (let elem_link = elem + diff
      in if lk_prev s elem_link \<noteq> 0 \<or> lk_next s elem_link \<noteq> 0 then None
         else map_option
           (\<lambda>cur_link.
              let s1 = set_next elem_link cur_link s;
                  s2 = set_prev elem_link (lk_prev s1 cur_link) s1;
                  s3 = set_next (lk_prev s2 cur_link) elem_link s2
              in set_prev cur_link elem_link s3)
           (queue_add_loop diff priofield head elem head s))"

definition queue_empty :: "ptr \<Rightarrow> link_memory \<Rightarrow> bool" where
  "queue_empty head s = (lk_next s head = head)"

definition queue_out :: "ptr \<Rightarrow> ptr \<Rightarrow> link_memory \<Rightarrow> ptr \<times> link_memory" where
  "queue_out diff head s =
     (let ptr_link_ret = lk_prev s head
      in if queue_empty head s then (NULL, s)
         else
           let s1 = set_prev head (lk_prev s (lk_prev s head)) s;
               s2 = set_next (lk_prev s1 head) head s1;
               s3 = set_prev ptr_link_ret 0 s2;
               s4 = set_next ptr_link_ret 0 s3
           in (ptr_link_ret - diff, s4))"

definition queue_del :: "ptr \<Rightarrow> ptr \<Rightarrow> link_memory \<Rightarrow> link_memory option" where
  "queue_del diff elem s =
     (let elem_link = elem + diff
      in if lk_prev s elem_link = 0 \<or> lk_next s elem_link = 0 then None
         else
           let s1 = set_next (lk_prev s elem_link) (lk_next s elem_link) s;
               s2 = set_prev (lk_next s1 elem_link) (lk_prev s1 elem_link) s1;
               s3 = set_next elem_link 0 s2
           in Some (set_prev elem_link 0 s3))"

text \<open>The elements that the two loops visit, in order.\<close>

partial_function (option) queue_for_each_loop :: "ptr \<Rightarrow> ptr \<Rightarrow> ptr \<Rightarrow> link_memory \<Rightarrow> ptr list option" where
  "queue_for_each_loop diff head elem s =
     (if elem + diff \<noteq> head
      then Option.bind (queue_for_each_loop diff head (queue_entry diff (lk_next s (elem + diff))) s) (\<lambda>elems. Some (elem # elems))
      else Some [])"

definition queue_for_each :: "ptr \<Rightarrow> ptr \<Rightarrow> link_memory \<Rightarrow> ptr list option" where
  "queue_for_each diff head s = queue_for_each_loop diff head (queue_entry diff (lk_next s head)) s"

partial_function (option) queue_for_each_prev_loop :: "ptr \<Rightarrow> ptr \<Rightarrow> ptr \<Rightarrow> link_memory \<Rightarrow> ptr list option" where
  "queue_for_each_prev_loop diff head elem s =
     (if elem + diff \<noteq> head
      then Option.bind (queue_for_each_prev_loop diff head (queue_entry diff (lk_prev s (elem + diff))) s) (\<lambda>elems. Some (elem # elems))
      else Some [])"

definition queue_for_each_prev :: "ptr \<Rightarrow> ptr \<Rightarrow> link_memory \<Rightarrow> ptr list option" where
  "queue_for_each_prev diff head s = queue_for_each_prev_loop diff head (queue_entry diff (lk_prev s head)) s"

definition queue_top :: "ptr \<Rightarrow> ptr \<Rightarrow> link_memory \<Rightarrow> ptr" where
  "queue_top diff head s =
     (let ptr_link_ret = lk_prev s head in if queue_empty head s then NULL else ptr_link_ret - diff)"

section \<open>A fair priority queue\<close>

text \<open>
  The specification, on the list of the elements in the order of their arrival: the element that leaves
  is the first one among those of the highest priority.
\<close>

definition best :: "('a \<Rightarrow> int) \<Rightarrow> 'a list \<Rightarrow> 'a" where
  "best prio q = hd (filter (\<lambda>x. prio x = Max (set (map prio q))) q)"

datatype 'a queue_op = Enter 'a | Leave

fun fair_run :: "('a \<Rightarrow> int) \<Rightarrow> 'a queue_op list \<Rightarrow> 'a list \<Rightarrow> 'a option list \<times> 'a list" where
  "fair_run prio [] q = ([], q)"
| "fair_run prio (Enter x # ops) q = fair_run prio ops (q @ [x])"
| "fair_run prio (Leave # ops) q =
     (if q = [] then (case fair_run prio ops [] of (out, q') \<Rightarrow> (None # out, q'))
      else (case fair_run prio ops (remove1 (best prio q) q) of (out, q') \<Rightarrow> (Some (best prio q) # out, q')))"

text \<open>A run enters an element only while it is not in the queue.\<close>

fun fair_ops :: "('a \<Rightarrow> int) \<Rightarrow> 'a set \<Rightarrow> 'a queue_op list \<Rightarrow> 'a list \<Rightarrow> bool" where
  "fair_ops prio E [] q \<longleftrightarrow> True"
| "fair_ops prio E (Enter x # ops) q \<longleftrightarrow> x \<in> E \<and> x \<notin> set q \<and> fair_ops prio E ops (q @ [x])"
| "fair_ops prio E (Leave # ops) q \<longleftrightarrow> fair_ops prio E ops (if q = [] then [] else remove1 (best prio q) q)"

text \<open>A run of an implementation.\<close>

fun op_run :: "('a \<Rightarrow> 's \<Rightarrow> 's option) \<Rightarrow> ('s \<Rightarrow> 'a option \<times> 's) \<Rightarrow> 'a queue_op list \<Rightarrow> 's
    \<Rightarrow> ('a option list \<times> 's) option" where
  "op_run enter leave [] s = Some ([], s)"
| "op_run enter leave (Enter x # ops) s = Option.bind (enter x s) (op_run enter leave ops)"
| "op_run enter leave (Leave # ops) s =
     (case leave s of (r, s') \<Rightarrow> map_option (\<lambda>(out, t). (r # out, t)) (op_run enter leave ops s'))"

text \<open>
  The interface: \<open>holds s q\<close> relates a state to the elements in their order of arrival. A provider of the
  two operations that keeps it behaves like the specification in every run.
\<close>

locale fair_queue =
  fixes prio :: "'a \<Rightarrow> int" and E :: "'a set" and holds :: "'s \<Rightarrow> 'a list \<Rightarrow> bool"
    and enter :: "'a \<Rightarrow> 's \<Rightarrow> 's option" and leave :: "'s \<Rightarrow> 'a option \<times> 's"
  assumes enter: "holds s q \<Longrightarrow> x \<in> E \<Longrightarrow> x \<notin> set q \<Longrightarrow> \<exists>s'. enter x s = Some s' \<and> holds s' (q @ [x])"
    and leave_empty: "holds s [] \<Longrightarrow> leave s = (None, s)"
    and leave: "holds s q \<Longrightarrow> q \<noteq> [] \<Longrightarrow> \<exists>s'. leave s = (Some (best prio q), s') \<and> holds s' (remove1 (best prio q) q)"
begin

lemma run_fair:
  "holds s q \<Longrightarrow> fair_ops prio E ops q \<Longrightarrow>
     \<exists>s'. op_run enter leave ops s = Some (fst (fair_run prio ops q), s') \<and> holds s' (snd (fair_run prio ops q))"
proof (induction ops arbitrary: s q)
  case (Cons op ops)
  show ?case
  proof (cases op)
    case (Enter x)
    then obtain s' where "enter x s = Some s'" "holds s' (q @ [x])" using enter [of s q x] Cons.prems by auto
    then show ?thesis using Cons.IH [of s' "q @ [x]"] Cons.prems Enter by simp
  next
    case Leave
    show ?thesis
    proof (cases "q = []")
      case True
      then show ?thesis using Leave Cons.IH [of s "[]"] Cons.prems leave_empty [of s] by (auto split: prod.splits)
    next
      case False
      obtain s' where "leave s = (Some (best prio q), s')" "holds s' (remove1 (best prio q) q)"
        using leave [OF Cons.prems(1) False] by blast
      then show ?thesis using Leave False Cons.IH [of s' "remove1 (best prio q) q"] Cons.prems by (auto split: prod.splits)
    qed
  qed
qed simp

end

section \<open>The macros implement it\<close>

text \<open>
  The list from the head holds the links of the elements by ascending priority; those of one priority
  stand in the reverse order of their arrival, as a new one is put in front of them. The links of the other
  elements of \<open>E\<close> are cleared.
\<close>

definition link_list :: "ptr \<Rightarrow> ptr \<Rightarrow> link_memory \<Rightarrow> ptr list \<Rightarrow> bool" where
  "link_list diff head s xs \<longleftrightarrow> circ (lk_next s) (lk_prev s) (head # map (\<lambda>e. e + diff) xs)
     \<and> distinct xs \<and> head \<notin> (\<lambda>e. e + diff) ` set xs"

definition queue_holds :: "ptr \<Rightarrow> (ptr \<Rightarrow> int) \<Rightarrow> ptr \<Rightarrow> ptr set \<Rightarrow> link_memory \<Rightarrow> ptr list \<Rightarrow> bool" where
  "queue_holds diff prio head E s q \<longleftrightarrow> set q \<subseteq> E \<and> distinct q \<and> NULL \<notin> E \<and> head \<notin> (\<lambda>e. e + diff) ` E
     \<and> (\<exists>xs. link_list diff head s xs \<and> sorted (map prio xs)
        \<and> (\<forall>k. filter (\<lambda>x. prio x = k) xs = rev (filter (\<lambda>x. prio x = k) q)))
     \<and> (\<forall>e \<in> E - set q. lk_prev s (e + diff) = 0 \<and> lk_next s (e + diff) = 0)"

lemma filter_prio_set:
  assumes "\<forall>k. filter (\<lambda>x. prio x = k) xs = rev (filter (\<lambda>x. prio x = k) q)"
  shows "set xs = set q"
proof -
  have "x \<in> set xs \<longleftrightarrow> x \<in> set q" for x
  proof -
    have "set (filter (\<lambda>y. prio y = prio x) xs) = set (filter (\<lambda>y. prio y = prio x) q)" by (simp add: assms)
    then show ?thesis by (auto simp: set_eq_iff)
  qed
  then show ?thesis by auto
qed

lemma links_inj: "distinct (map (\<lambda>e. e + (diff :: ptr)) xs) = distinct xs"
  by (simp add: distinct_map inj_on_def)

text \<open>The loop stops at the first element whose priority is not lower.\<close>

lemma add_loop_finds:
  assumes c: "circ (lk_next s) (lk_prev s) (head # map (\<lambda>e. e + diff) (seen @ xs))"
    and h: "head \<notin> (\<lambda>e. e + diff) ` set (seen @ xs)"
    and cur: "cur = (if seen = [] then head else last seen + diff)"
  shows "queue_add_loop diff prio head p cur s = Some (hd (map (\<lambda>e. e + diff) (dropWhile (\<lambda>x. prio x < prio p) xs) @ [head]))"
  using assms
proof (induction xs arbitrary: seen cur)
  case Nil
  have "lk_next s cur = head"
  proof (cases seen rule: rev_cases)
    case (snoc ys y)
    with Nil.prems(1) circ_next(1) [of "lk_next s" "lk_prev s" "head # map (\<lambda>e. e + diff) ys" "y + diff" "[]"]
    show ?thesis by (simp add: Nil.prems(3))
  qed (use Nil.prems in simp)
  then show ?case by (subst queue_add_loop.simps) simp
next
  case (Cons x xs)
  have n: "lk_next s cur = x + diff"
  proof (cases seen rule: rev_cases)
    case (snoc ys y)
    with Cons.prems(1) circ_next(1) [of "lk_next s" "lk_prev s" "head # map (\<lambda>e. e + diff) ys" "y + diff" "map (\<lambda>e. e + diff) (x # xs)"]
    show ?thesis by (simp add: Cons.prems(3))
  next
    case Nil
    with Cons.prems(1) circ_next(1) [of "lk_next s" "lk_prev s" "[]" head "map (\<lambda>e. e + diff) (x # xs)"]
    show ?thesis by (simp add: Cons.prems(3))
  qed
  have ne: "x + diff \<noteq> head" using Cons.prems(2) by auto
  show ?case
  proof (cases "prio x < prio p")
    case True
    have "queue_add_loop diff prio head p (x + diff) s
        = Some (hd (map (\<lambda>e. e + diff) (dropWhile (\<lambda>x. prio x < prio p) xs) @ [head]))"
      using Cons.prems by (intro Cons.IH [of "seen @ [x]"]) simp_all
    then show ?thesis using True n ne by (subst queue_add_loop.simps) (simp add: queue_entry_def)
  next
    case False
    then show ?thesis using n ne by (subst queue_add_loop.simps) (simp add: queue_entry_def)
  qed
qed

lemma add_links:
  assumes l: "link_list diff head s (as @ bs)" and p: "p \<notin> set (as @ bs)" "p + diff \<noteq> head"
    and cur: "cur = hd (map (\<lambda>e. e + diff) bs @ [head])"
    and s': "s' = (let s1 = set_next (p + diff) cur s;
                  s2 = set_prev (p + diff) (lk_prev s1 cur) s1;
                  s3 = set_next (lk_prev s2 cur) (p + diff) s2
              in set_prev cur (p + diff) s3)"
  shows "link_list diff head s' (as @ p # bs)"
    "\<And>l. l \<notin> insert head (insert (p + diff) ((\<lambda>e. e + diff) ` set (as @ bs))) \<Longrightarrow> lk_prev s' l = lk_prev s l \<and> lk_next s' l = lk_next s l"
proof -
  let ?L = "map (\<lambda>e. e + diff)"
  have c: "circ (lk_next s) (lk_prev s) ((head # ?L as) @ ?L bs)" and d: "distinct (head # ?L (as @ bs))"
    using l by (auto simp: link_list_def distinct_map inj_on_def)
  let ?xs = "?L bs @ head # ?L as"
  have c1: "circ (lk_next s) (lk_prev s) ?xs" using c circ_rotate [of "lk_next s" "lk_prev s" "head # ?L as" "?L bs"] by simp
  have hd: "hd ?xs = cur" by (cases bs) (simp_all add: cur)
  have np: "p + diff \<notin> set ?xs" using p by auto
  have dx: "distinct ?xs" using d by auto
  from circ_insert [OF c1 _ np dx] have
    c2: "circ ((lk_next s)(p + diff := cur, lk_prev s cur := p + diff)) ((lk_prev s)(p + diff := lk_prev s cur, cur := p + diff)) ((p + diff) # ?xs)"
    unfolding hd by simp
  have cx: "cur \<in> set ?xs" using hd by (cases bs) auto
  then have nc: "cur \<noteq> p + diff" using np by auto
  have f: "lk_next s' = (lk_next s)(p + diff := cur, lk_prev s cur := p + diff)"
    "lk_prev s' = (lk_prev s)(p + diff := lk_prev s cur, cur := p + diff)"
    using nc by (simp_all add: s' set_next_def set_prev_def Let_def)
  have "circ (lk_next s') (lk_prev s') (((p + diff) # ?L bs) @ (head # ?L as))" using c2 by (simp add: f)
  then have "circ (lk_next s') (lk_prev s') ((head # ?L as) @ ((p + diff) # ?L bs))"
    using circ_rotate [of "lk_next s'" "lk_prev s'" "head # ?L as" "(p + diff) # ?L bs"] by simp
  then show "link_list diff head s' (as @ p # bs)"
    using l p by (auto simp: link_list_def)
  have "lk_prev s cur \<in> set ?xs" using circ_mem_next(2) [OF c1 cx] .
  then show "\<And>l. l \<notin> insert head (insert (p + diff) ((\<lambda>e. e + diff) ` set (as @ bs))) \<Longrightarrow> lk_prev s' l = lk_prev s l \<and> lk_next s' l = lk_next s l"
    using cx by (auto simp: f)
qed

lemma out_links:
  assumes l: "link_list diff head s (ys @ [b])"
  shows "\<exists>s'. queue_out diff head s = (b, s') \<and> link_list diff head s' ys
    \<and> lk_prev s' (b + diff) = 0 \<and> lk_next s' (b + diff) = 0
    \<and> (\<forall>l. l \<notin> insert head ((\<lambda>e. e + diff) ` set (ys @ [b])) \<longrightarrow> lk_prev s' l = lk_prev s l \<and> lk_next s' l = lk_next s l)"
proof -
  let ?L = "map (\<lambda>e. e + diff)" and ?p = "b + diff"
  have c: "circ (lk_next s) (lk_prev s) ((head # ?L ys) @ ?p # [])" and d: "distinct ((head # ?L ys) @ ?p # [])"
    using l by (auto simp: link_list_def distinct_map inj_on_def)
  have pp: "lk_prev s head = ?p" "lk_next s head = hd (?L ys @ [?p])"
    using circ_next [of "lk_next s" "lk_prev s" "[]" head "?L ys @ [?p]"] c by (cases ys; simp)+
  have np: "lk_next s ?p = head" using circ_next(1) [OF c] by simp
  have ne: "\<not> queue_empty head s" using pp(2) d by (cases ys) (auto simp: queue_empty_def)
  have cr: "circ ((lk_next s)(lk_prev s ?p := head)) ((lk_prev s)(head := lk_prev s ?p)) (head # ?L ys)"
    using circ_remove [OF c _ d] by (simp add: np)
  have m: "lk_prev s ?p \<in> set (head # ?L ys)"
    using circ_next(2) [OF c] by (cases ys rule: rev_cases) auto
  define s' where "s' = \<lparr>lk_prev = (lk_prev s)(head := lk_prev s ?p, ?p := 0), lk_next = (lk_next s)(lk_prev s ?p := head, ?p := 0)\<rparr>"
  have hp: "head \<noteq> ?p" using d by auto
  have "queue_out diff head s = (b, s')"
    using ne hp by (simp add: queue_out_def Let_def pp(1) set_prev_def set_next_def s'_def)
  moreover have "circ (lk_next s') (lk_prev s') (head # ?L ys)"
    using cr d by (subst circ_cong [where nx = "(lk_next s)(lk_prev s ?p := head)" and pv = "(lk_prev s)(head := lk_prev s ?p)"])
      (auto simp: s'_def)
  moreover have "lk_prev s' l = lk_prev s l \<and> lk_next s' l = lk_next s l"
    if "l \<notin> insert head ((\<lambda>e. e + diff) ` set (ys @ [b]))" for l
    using that m by (auto simp: s'_def)
  ultimately show ?thesis using l by (auto simp: link_list_def s'_def)
qed

lemma sorted_split: "sorted (map prio xs) \<Longrightarrow> x \<in> set (dropWhile (\<lambda>x. prio x < (k :: int)) xs) \<Longrightarrow> k \<le> prio x"
proof (induction xs)
  case (Cons y xs)
  then show ?case by (auto split: if_splits)
qed simp

lemma queue_add_holds:
  assumes h: "queue_holds diff prio head E s q" and p: "p \<in> E" "p \<notin> set q"
  shows "\<exists>s'. queue_add diff prio head p s = Some s' \<and> queue_holds diff prio head E s' (q @ [p])"
proof -
  from h obtain xs where l: "link_list diff head s xs" and so: "sorted (map prio xs)"
    and f: "\<forall>k. filter (\<lambda>x. prio x = k) xs = rev (filter (\<lambda>x. prio x = k) q)"
    by (auto simp: queue_holds_def)
  have sx: "set xs = set q" by (rule filter_prio_set [OF f])
  let ?a = "takeWhile (\<lambda>x. prio x < prio p) xs" and ?b = "dropWhile (\<lambda>x. prio x < prio p) xs"
  let ?cur = "hd (map (\<lambda>e. e + diff) ?b @ [head])"
  have free: "lk_prev s (p + diff) = 0" "lk_next s (p + diff) = 0" using h p by (auto simp: queue_holds_def)
  have loop: "queue_add_loop diff prio head p head s = Some ?cur"
    using l by (intro add_loop_finds [where seen = "[]"]) (auto simp: link_list_def)
  define s' where "s' = (let s1 = set_next (p + diff) ?cur s;
                  s2 = set_prev (p + diff) (lk_prev s1 ?cur) s1;
                  s3 = set_next (lk_prev s2 ?cur) (p + diff) s2
              in set_prev ?cur (p + diff) s3)"
  have add: "queue_add diff prio head p s = Some s'"
    by (simp add: queue_add_def free loop s'_def Let_def)
  have ab: "link_list diff head s (?a @ ?b)" "p \<notin> set (?a @ ?b)" "p + diff \<noteq> head"
    using l p h sx by (auto simp: queue_holds_def)
  note a = add_links [OF ab refl s'_def]
  have "sorted (map prio (?a @ p # ?b))"
  proof -
    have "sorted (map prio ?a @ map prio ?b)" using so by (simp flip: map_append)
    moreover have "\<forall>x \<in> set ?a. prio x < prio p" by (auto dest: set_takeWhileD)
    ultimately show ?thesis using sorted_split [OF so, of _ "prio p"] by (auto simp: sorted_append)
  qed
  moreover have "filter (\<lambda>x. prio x = k) (?a @ p # ?b) = rev (filter (\<lambda>x. prio x = k) (q @ [p]))" for k
  proof -
    have s: "filter (\<lambda>x. prio x = k) xs = filter (\<lambda>x. prio x = k) ?a @ filter (\<lambda>x. prio x = k) ?b"
      by (simp flip: filter_append)
    have "k = prio p \<Longrightarrow> filter (\<lambda>x. prio x = k) ?a = []" by (auto simp: filter_empty_conv dest: set_takeWhileD)
    then show ?thesis using s f by auto
  qed
  moreover have "lk_prev s' (e + diff) = 0 \<and> lk_next s' (e + diff) = 0" if "e \<in> E - set (q @ [p])" for e
  proof -
    have "e + diff \<notin> insert head (insert (p + diff) ((\<lambda>e. e + diff) ` set (?a @ ?b)))"
      using that h sx by (auto simp: queue_holds_def)
    from a(2) [OF this] that h show ?thesis by (auto simp: queue_holds_def)
  qed
  ultimately have "queue_holds diff prio head E s' (q @ [p])"
    using a(1) h p unfolding queue_holds_def by (intro conjI exI [of _ "?a @ p # ?b"]) auto
  with add show ?thesis by blast
qed

text \<open>\<open>queue_out\<close> with NULL as no element.\<close>

definition queue_leave :: "ptr \<Rightarrow> ptr \<Rightarrow> link_memory \<Rightarrow> ptr option \<times> link_memory" where
  "queue_leave diff head s = (case queue_out diff head s of (e, s') \<Rightarrow> (if e = NULL then None else Some e, s'))"

lemma queue_out_holds:
  assumes h: "queue_holds diff prio head E s q" and ne: "q \<noteq> []"
  shows "\<exists>s'. queue_leave diff head s = (Some (best prio q), s') \<and> queue_holds diff prio head E s' (remove1 (best prio q) q)"
proof -
  from h obtain xs where l: "link_list diff head s xs" and so: "sorted (map prio xs)"
    and f: "\<forall>k. filter (\<lambda>x. prio x = k) xs = rev (filter (\<lambda>x. prio x = k) q)"
    by (auto simp: queue_holds_def)
  have sx: "set xs = set q" by (rule filter_prio_set [OF f])
  then obtain ys b where xs: "xs = ys @ [b]" using ne by (cases xs rule: rev_cases) auto
  have dx: "distinct xs" using l by (simp add: link_list_def)
  have mx: "Max (set (map prio q)) = prio b"
  proof (rule Max_eqI)
    show "y \<le> prio b" if "y \<in> set (map prio q)" for y
      using that so sx by (auto simp: xs sorted_append)
    show "prio b \<in> set (map prio q)" using sx xs by auto
  qed simp
  have fb: "filter (\<lambda>x. prio x = prio b) q = b # rev (filter (\<lambda>x. prio x = prio b) ys)"
    using f [rule_format, of "prio b"] by (simp add: xs) (metis rev_rev_ident rev.simps(2) rev_append append_Cons append_Nil)
  then have bb: "best prio q = b" by (simp add: best_def mx [unfolded set_map])
  from out_links [OF l [unfolded xs]] obtain s' where s': "queue_out diff head s = (b, s')" "link_list diff head s' ys"
    "lk_prev s' (b + diff) = 0" "lk_next s' (b + diff) = 0"
    "\<forall>l. l \<notin> insert head ((\<lambda>e. e + diff) ` set (ys @ [b])) \<longrightarrow> lk_prev s' l = lk_prev s l \<and> lk_next s' l = lk_next s l"
    by blast
  have bE: "b \<in> E" "b \<noteq> NULL" using h sx xs by (auto simp: queue_holds_def)
  have dq: "distinct q" using h by (simp add: queue_holds_def)
  have "filter (\<lambda>x. prio x = k) ys = rev (filter (\<lambda>x. prio x = k) (remove1 b q))" for k
  proof (cases "k = prio b")
    case True
    have "filter (\<lambda>x. prio x = prio b) (remove1 b q) = remove1 b (filter (\<lambda>x. prio x = prio b) q)" by (simp add: filter_remove1)
    then show ?thesis using True fb by simp
  next
    case False
    then have "filter (\<lambda>x. prio x = k) (remove1 b q) = filter (\<lambda>x. prio x = k) q" by (simp add: filter_remove1 remove1_idem)
    then show ?thesis using f [rule_format, of k] False by (simp add: xs)
  qed
  moreover have "lk_prev s' (e + diff) = 0 \<and> lk_next s' (e + diff) = 0" if "e \<in> E - set (remove1 b q)" for e
  proof (cases "e = b")
    case False
    then have "e \<notin> set q" using that dq by (auto simp: in_set_remove1)
    then have "e + diff \<notin> insert head ((\<lambda>e. e + diff) ` set (ys @ [b]))"
      using that h sx xs by (auto simp: queue_holds_def)
    with s'(5) \<open>e \<notin> set q\<close> that h show ?thesis by (auto simp: queue_holds_def)
  qed (use s'(3,4) in simp)
  moreover have "sorted (map prio ys)" using so by (simp add: xs sorted_append)
  ultimately have "queue_holds diff prio head E s' (remove1 b q)"
    using h s'(2) dq unfolding queue_holds_def by (intro conjI exI [of _ ys]) (auto dest: notin_set_remove1)
  then show ?thesis using s'(1) bE(2) by (simp add: queue_leave_def bb)
qed

lemma queue_leave_empty: "queue_holds diff prio head E s [] \<Longrightarrow> queue_leave diff head s = (None, s)"
proof -
  assume "queue_holds diff prio head E s []"
  then obtain xs where l: "link_list diff head s xs"
    and f: "\<forall>k. filter (\<lambda>x. prio x = k) xs = rev (filter (\<lambda>x. prio x = k) [])"
    unfolding queue_holds_def by blast
  have "set xs = set []" by (rule filter_prio_set [OF f])
  with l have "link_list diff head s []" by simp
  then show ?thesis by (simp add: link_list_def queue_leave_def queue_out_def queue_empty_def)
qed

interpretation links: fair_queue prio E "queue_holds diff prio head E" "queue_add diff prio head" "queue_leave diff head"
  for diff prio head E
  by unfold_locales (simp_all add: queue_add_holds queue_leave_empty queue_out_holds)

lemma queue_init_holds:
  assumes "NULL \<notin> E" "head \<notin> (\<lambda>e. e + diff) ` E" "\<And>e. e \<in> E \<Longrightarrow> lk_prev s (e + diff) = 0 \<and> lk_next s (e + diff) = 0"
  shows "queue_holds diff prio head E (INIT_LIST_HEAD head s) []"
proof -
  have "e + diff \<noteq> head" if "e \<in> E" for e using assms(2) that by auto
  then show ?thesis using assms
    unfolding queue_holds_def by (intro conjI exI [of _ "[]"])
      (auto simp: link_list_def INIT_LIST_HEAD_def set_prev_def set_next_def)
qed

text \<open>\<open>queue_top\<close> is the element that would leave; the loop visits the list in order; removal of any element.\<close>

lemma queue_top_best: "queue_holds diff prio head E s q \<Longrightarrow> q \<noteq> [] \<Longrightarrow> queue_top diff head s = best prio q"
  using queue_out_holds [of diff prio head E s q]
  by (auto simp: queue_leave_def queue_top_def queue_out_def Let_def split: if_splits prod.splits)

lemma for_each_suffix:
  "circ (lk_next s) (lk_prev s) (head # map (\<lambda>e. e + diff) (seen @ xs)) \<Longrightarrow> head \<notin> (\<lambda>e. e + diff) ` set (seen @ xs) \<Longrightarrow>
     l = hd (map (\<lambda>e. e + diff) xs @ [head]) \<Longrightarrow> queue_for_each_loop diff head (queue_entry diff l) s = Some xs"
proof (induction xs arbitrary: seen l)
  case Nil
  then show ?case by (subst queue_for_each_loop.simps) (simp add: queue_entry_def)
next
  case (Cons x xs)
  have n: "lk_next s (x + diff) = hd (map (\<lambda>e. e + diff) xs @ [head])"
    using circ_next(1) [of "lk_next s" "lk_prev s" "head # map (\<lambda>e. e + diff) seen" "x + diff" "map (\<lambda>e. e + diff) xs"] Cons.prems(1)
    by (cases xs) simp_all
  have "queue_for_each_loop diff head (queue_entry diff (lk_next s (x + diff))) s = Some xs"
    using Cons.prems n by (intro Cons.IH [of "seen @ [x]"]) simp_all
  moreover have "x + diff \<noteq> head" using Cons.prems(2) by auto
  ultimately show ?case using Cons.prems(3) by (subst queue_for_each_loop.simps) (simp add: queue_entry_def)
qed

lemma for_each_prev_prefix:
  "circ (lk_next s) (lk_prev s) (head # map (\<lambda>e. e + diff) (xs @ seen)) \<Longrightarrow> head \<notin> (\<lambda>e. e + diff) ` set (xs @ seen) \<Longrightarrow>
     l = last (head # map (\<lambda>e. e + diff) xs) \<Longrightarrow> queue_for_each_prev_loop diff head (queue_entry diff l) s = Some (rev xs)"
proof (induction xs arbitrary: seen l rule: rev_induct)
  case Nil
  then show ?case by (subst queue_for_each_prev_loop.simps) (simp add: queue_entry_def)
next
  case (snoc x xs)
  have n: "lk_prev s (x + diff) = last (head # map (\<lambda>e. e + diff) xs)"
    using circ_next(2) [of "lk_next s" "lk_prev s" "head # map (\<lambda>e. e + diff) xs" "x + diff" "map (\<lambda>e. e + diff) seen"] snoc.prems(1)
    by (simp add: last_map)
  have "queue_for_each_prev_loop diff head (queue_entry diff (lk_prev s (x + diff))) s = Some (rev xs)"
    using snoc.prems n by (intro snoc.IH [of "x # seen"]) simp_all
  moreover have "x + diff \<noteq> head" using snoc.prems(2) by auto
  ultimately show ?case using snoc.prems(3) by (subst queue_for_each_prev_loop.simps) (simp add: queue_entry_def)
qed

lemma queue_for_each_list:
  assumes "link_list diff head s xs"
  shows "queue_for_each diff head s = Some xs" "queue_for_each_prev diff head s = Some (rev xs)"
proof -
  have c: "circ (lk_next s) (lk_prev s) ([] @ head # map (\<lambda>e. e + diff) xs)" "head \<notin> (\<lambda>e. e + diff) ` set xs"
    using assms by (auto simp: link_list_def)
  from circ_next [OF c(1)] have n: "lk_next s head = hd (map (\<lambda>e. e + diff) xs @ [head])"
    "lk_prev s head = last (head # map (\<lambda>e. e + diff) xs)" by simp_all
  show "queue_for_each diff head s = Some xs"
    unfolding queue_for_each_def using c n(1) by (intro for_each_suffix [of s head diff "[]"]) simp_all
  show "queue_for_each_prev diff head s = Some (rev xs)"
    unfolding queue_for_each_prev_def using c n(2) by (intro for_each_prev_prefix [of s head diff xs "[]"]) simp_all
qed

lemma queue_del_holds:
  assumes h: "queue_holds diff prio head E s q" and p: "p \<in> set q" and nz: "head \<noteq> 0" "\<And>e. e \<in> E \<Longrightarrow> e + diff \<noteq> 0"
  shows "\<exists>s'. queue_del diff p s = Some s' \<and> queue_holds diff prio head E s' (remove1 p q)"
proof -
  from h obtain xs where l: "link_list diff head s xs" and so: "sorted (map prio xs)"
    and f: "\<forall>k. filter (\<lambda>x. prio x = k) xs = rev (filter (\<lambda>x. prio x = k) q)"
    by (auto simp: queue_holds_def)
  have sx: "set xs = set q" by (rule filter_prio_set [OF f])
  have dx: "distinct xs" and dq: "distinct q" using l h by (simp_all add: link_list_def queue_holds_def)
  obtain as bs where xs: "xs = as @ p # bs" using p sx by (metis split_list)
  let ?L = "map (\<lambda>e. e + diff)" and ?p = "p + diff"
  have c: "circ (lk_next s) (lk_prev s) ((head # ?L as) @ ?p # ?L bs)" and d: "distinct ((head # ?L as) @ ?p # ?L bs)"
    using l xs by (auto simp: link_list_def distinct_map inj_on_def)
  let ?n = "lk_next s ?p" and ?v = "lk_prev s ?p"
  have cr: "circ ((lk_next s)(?v := ?n)) ((lk_prev s)(?n := ?v)) (head # ?L (as @ bs))"
    using circ_remove [OF c _ d] by simp
  have nx: "?n = hd (?L bs @ [head])" and pv: "?v = last (head # ?L as)"
    using circ_next [OF c] by (cases bs; simp)+
  have mem: "?n \<in> set (head # ?L (as @ bs))" "?v \<in> set (head # ?L (as @ bs))"
    using nx pv by (cases bs; simp) (cases as rule: rev_cases; simp add: pv)
  have "0 \<notin> set (head # ?L (as @ bs))" using nz h sx xs by (auto simp: queue_holds_def)
  with mem have nn: "?n \<noteq> 0" "?v \<noteq> 0" by metis+
  have np: "?p \<notin> set (head # ?L (as @ bs))" using d by auto
  define s' where "s' = \<lparr>lk_prev = (lk_prev s)(?n := ?v, ?p := 0), lk_next = (lk_next s)(?v := ?n, ?p := 0)\<rparr>"
  have ne: "?n \<noteq> ?p" "?v \<noteq> ?p" using mem np by metis+
  have del: "queue_del diff p s = Some s'"
    using nn ne by (simp add: queue_del_def Let_def set_prev_def set_next_def s'_def)
  have "circ (lk_next s') (lk_prev s') (head # ?L (as @ bs))"
    using cr np by (subst circ_cong [where nx = "(lk_next s)(?v := ?n)" and pv = "(lk_prev s)(?n := ?v)"])
      (auto simp: s'_def)
  then have "link_list diff head s' (as @ bs)" using l dx xs by (auto simp: link_list_def)
  moreover have "sorted (map prio (as @ bs))" using so by (simp add: xs sorted_append)
  moreover have "filter (\<lambda>x. prio x = k) (as @ bs) = rev (filter (\<lambda>x. prio x = k) (remove1 p q))" for k
  proof -
    have "filter (\<lambda>x. prio x = k) (as @ bs) = remove1 p (filter (\<lambda>x. prio x = k) xs)"
      using dx by (auto simp: xs remove1_append remove1_idem)
    also have "\<dots> = remove1 p (rev (filter (\<lambda>x. prio x = k) q))" by (simp only: f)
    also have "\<dots> = rev (remove1 p (filter (\<lambda>x. prio x = k) q))"
      using dq by (simp add: distinct_remove1_removeAll rev_filter removeAll_filter_not_eq)
    finally show ?thesis by (simp only: filter_remove1)
  qed
  moreover have "lk_prev s' (e + diff) = 0 \<and> lk_next s' (e + diff) = 0" if "e \<in> E - set (remove1 p q)" for e
  proof (cases "e = p")
    case False
    then have e: "e \<notin> set q" using that dq by (auto simp: in_set_remove1)
    then have "e + diff \<notin> set (head # ?L (as @ bs))" using that h sx xs by (auto simp: queue_holds_def)
    then have "e + diff \<noteq> ?n" "e + diff \<noteq> ?v" using mem by metis+
    then show ?thesis using e that h by (auto simp: s'_def queue_holds_def)
  qed (simp add: s'_def)
  ultimately have "queue_holds diff prio head E s' (remove1 p q)"
    using h dq unfolding queue_holds_def by (intro conjI exI [of _ "as @ bs"]) (auto dest: notin_set_remove1)
  with del show ?thesis by blast
qed

end
