(* ===== verification/Library_Properties.thy ===== *)
theory Library_Properties
  imports Console Strings_Facts Formatting_Facts Division Priority_Queue "HOL-Library.Sublist"
begin

text \<open>
  The properties of the library that the kernel and the programs share, each with a concrete
  instance: memory and string functions, formatted output, number parsing, 64-bit division and priority queues.
\<close>

section \<open>Memory and strings\<close>

lemma bytes_at_written: "length bs < 2 ^ 32 \<Longrightarrow> bytes_at (written m p bs) p (length bs) = bs"
  by (auto simp: bytes_at_def written_def unat_of_nat32 intro!: nth_equalityI)

lemma bytes_at_eq_iff: "bytes_at m p n = bytes_at m' q n \<longleftrightarrow> (\<forall>i < n. m (p + of_nat i) = m' (q + of_nat i))"
  by (auto simp: bytes_at_def list_eq_iff_nth_eq)

text \<open>
  C18. \<open>memmove\<close> leaves the old contents of the source at the destination, byte for byte, however the
  two areas overlap, returns the destination, and changes no byte outside of it.
\<close>

theorem memmove_keeps_contents:
  assumes "unat src + n \<le> 2 ^ 32" "unat dst + n \<le> 2 ^ 32" and m: "memmove dst src n m = (r, m')"
  shows "r = dst \<and> bytes_at m' dst n = bytes_at m src n \<and> (\<forall>x. x < dst \<or> unat dst + n \<le> unat x \<longrightarrow> m' x = m x)"
proof (intro conjI allI impI)
  have e: "r = dst" "m' = copied m dst src n" using memmove_copied [OF assms(1,2), of m] m by simp_all
  show "r = dst" by (rule e)
  have "unat (of_nat i :: u32) = i" if "i < n" for i using that assms(1) by (intro unat_of_nat32) simp
  then show "bytes_at m' dst n = bytes_at m src n" unfolding bytes_at_eq_iff by (simp add: e copied_def)
  fix x assume x: "x < dst \<or> unat dst + n \<le> unat x"
  have "n \<le> unat (x - dst)"
  proof (cases "x < dst")
    case True
    then have "unat (x - dst) = 2 ^ 32 + unat x - unat dst"
      by (simp add: unat_sub_if_size word_size word_less_nat_alt not_le)
    then show ?thesis using assms(2) by simp
  next
    case False
    then show ?thesis using x by (simp add: unat_sub word_less_nat_alt word_le_nat_alt)
  qed
  then show "m' x = m x" by (simp add: e copied_def)
qed

definition sample_text :: bmem where
  "sample_text = written (\<lambda>_. 0) 0x2000 [0x61, 0x62, 0x61, 0x62, 0x61, 0x63, 0, 0x61, 0x62, 0x61, 0x63, 0]"

theorem memmove_keeps_contents_witness:
  "fst (memmove 0x2001 0x2000 5 sample_text) = 0x2001
   \<and> bytes_at (snd (memmove 0x2001 0x2000 5 sample_text)) 0x2001 5 = [0x61, 0x62, 0x61, 0x62, 0x61]"
proof -
  obtain r m' where m: "memmove 0x2001 0x2000 5 sample_text = (r, m')" by fastforce
  have "bytes_at sample_text 0x2000 5 = [0x61, 0x62, 0x61, 0x62, 0x61]" by code_simp
  then show ?thesis using memmove_keeps_contents [OF _ _ m] by (simp add: m)
qed

text \<open>A string occurs in another at the places where it is a prefix of the rest.\<close>

lemma prefix_nth: "prefix ys zs \<longleftrightarrow> length ys \<le> length zs \<and> (\<forall>i < length ys. ys ! i = zs ! i)"
  by (auto simp: prefix_def nth_append list_eq_iff_nth_eq intro: exI [of _ "drop (length ys) zs"])

lemma cstr_nth: "cstr m p xs \<Longrightarrow> i < length xs \<Longrightarrow> m (p + of_nat i) = xs ! i"
  using cstr_append [of m p xs "[]"] by simp

lemma occurs_prefix:
  assumes "cstr m y xs" "cstr m x ys" "j + length ys \<le> length xs"
  shows "occurs m y x (length ys) j \<longleftrightarrow> prefix ys (drop j xs)"
  using assms cstr_nth [OF assms(1)] cstr_nth [OF assms(2)]
  by (auto simp: occurs_def prefix_nth simp del: of_nat_add)

text \<open>
  C20. \<open>strstr\<close> with a needle that is not empty finds its first occurrence: it returns the address of
  the first place from which on the text starts with the needle, and NULL when the needle is not a
  sublist of the text.
\<close>

theorem strstr_first_occurrence:
  assumes h: "cstr m y xs" "length xs < 2 ^ 32" and x: "cstr m x ys" "ys \<noteq> []" "length ys < 2 ^ 32"
  shows "if sublist ys xs
    then \<exists>i. strstr y x m = Some (y + of_nat i) \<and> prefix ys (drop i xs) \<and> (\<forall>j < i. \<not> prefix ys (drop j xs))
    else strstr y x m = Some NULL"
proof -
  have s: "strstr y x m = Some (memmem y (length xs) x (length ys) m)"
    by (simp add: strstr_def strlen_cstr [OF h] strlen_cstr [OF x(1,3)])
  let ?P = "\<lambda>i. prefix ys (drop i xs)" and ?O = "\<lambda>i. occurs m y x (length ys) i"
  have fits: "i + length ys \<le> length xs" if "?P i" for i
    using prefix_length_le [OF that] x(2) by (cases "i \<le> length xs") auto
  have sub: "sublist ys xs \<longleftrightarrow> (\<exists>i. ?P i)"
    unfolding sublist_def prefix_def by (metis append_eq_conv_conj append_take_drop_id)
  show ?thesis
  proof (cases "\<exists>i. ?P i")
    case True
    define k where "k = (LEAST i. ?P i)"
    have k: "?P k" using LeastI_ex [OF True] by (simp only: k_def)
    have below: "\<not> ?P j" if "j < k" for j using not_less_Least that by (simp only: k_def)
    have le: "length ys \<le> length xs" "k \<le> length xs - length ys" using fits [OF k] by simp_all
    have eq: "?O i \<longleftrightarrow> ?P i" if "i \<le> k" for i
      using that fits [OF k] by (intro occurs_prefix [OF h(1) x(1)]) simp
    then have "(LEAST i. ?O i) = k" using k below by (intro Least_equality) (blast, meson nat_le_linear not_le)
    moreover have "\<exists>i \<le> length xs - length ys. ?O i" using eq k le(2) by blast
    ultimately have "memmem y (length xs) x (length ys) m = y + of_nat k"
      using memmem_occurs [of "length ys" "length xs" y x m] x(2) le(1) by simp
    then show ?thesis using s k below True sub by auto
  next
    case False
    have "memmem y (length xs) x (length ys) m = NULL"
    proof (cases "length ys \<le> length xs")
      case True
      have "\<not> ?O i" if "i \<le> length xs - length ys" for i
        using False that True occurs_prefix [OF h(1) x(1), of i] by simp
      then show ?thesis using memmem_occurs [of "length ys" "length xs" y x m] x(2) True by auto
    qed (simp add: memmem_def)
    then show ?thesis using s sub False by simp
  qed
qed

lemma sample_strings: "cstr sample_text 0x2000 [0x61, 0x62, 0x61, 0x62, 0x61, 0x63]"
  "cstr sample_text 0x2007 [0x61, 0x62, 0x61, 0x63]"
  by (simp_all add: sample_text_def written_def)

theorem strstr_first_occurrence_witness: "strstr 0x2000 0x2007 sample_text = Some 0x2002"
proof -
  let ?xs = "[0x61, 0x62, 0x61, 0x62, 0x61, 0x63] :: u8 list" and ?ys = "[0x61, 0x62, 0x61, 0x63] :: u8 list"
  have p: "prefix ?ys (drop 2 ?xs)" "\<not> prefix ?ys (drop 0 ?xs)" "\<not> prefix ?ys (drop 1 ?xs)" by simp_all
  have sub: "sublist ?ys ?xs" by (simp add: sublist_Cons_right)
  from strstr_first_occurrence [OF sample_strings(1) _ sample_strings(2)] sub obtain i where
    i: "strstr 0x2000 0x2007 sample_text = Some (0x2000 + of_nat i)" "prefix ?ys (drop i ?xs)"
      "\<forall>j < i. \<not> prefix ?ys (drop j ?xs)" by auto
  have "i \<noteq> 0" "i \<noteq> 1" using i(2) p(2,3) by metis+
  moreover have "\<not> 2 < i" using i(3) p(1) by blast
  ultimately have "i = 2" by linarith
  with i(1) show ?thesis by simp
qed

section \<open>Division\<close>

lemma overflows_iff:
  "overflows y \<longleftrightarrow> (\<exists>k. 1 \<le> k \<and> k \<le> 32 \<and> (2 ^ 32 - 1) * 2 ^ k \<le> unat y \<and> unat y < 2 ^ (32 + k))"
proof
  assume o: "overflows y"
  let ?l = "top_bit (unat y div 2 ^ 32) + 1"
  from o have h: "unat y div 2 ^ 32 \<noteq> 0" "unat y div 2 ^ ?l = 2 ^ 32 - 1" by (auto simp only: overflows_def)
  note ts = top_shift [OF unat_lt64 h(1) refl]
  have "(2 ^ 32 - 1) * 2 ^ ?l \<le> unat y" unfolding h(2) [symmetric] by (rule div_times_less_eq_dividend)
  moreover have "unat y < 2 ^ (32 + ?l)"
  proof -
    have "unat y < 2 ^ 32 * 2 ^ ?l" using ts(3) by (subst (asm) div_less_iff_less_mult) (simp_all only: zero_less_power zero_less_numeral)
    then show ?thesis by (simp only: power_add)
  qed
  ultimately show "\<exists>k. 1 \<le> k \<and> k \<le> 32 \<and> (2 ^ 32 - 1) * 2 ^ k \<le> unat y \<and> unat y < 2 ^ (32 + k)"
    using ts(1) by (intro exI [of _ ?l]) (simp only: le_add2 simp_thms)
next
  assume "\<exists>k. 1 \<le> k \<and> k \<le> 32 \<and> (2 ^ 32 - 1) * 2 ^ k \<le> unat y \<and> unat y < 2 ^ (32 + k)"
  then obtain k where k: "1 \<le> k" "k \<le> 32" "(2 ^ 32 - 1) * 2 ^ k \<le> unat y" "unat y < 2 ^ (32 + k)" by blast
  have lo: "2 ^ (31 + k) \<le> unat y"
  proof -
    have "(2::nat) ^ (31 + k) \<le> (2 ^ 32 - 1) * 2 ^ k" by (simp add: power_add)
    with k(3) show ?thesis by linarith
  qed
  let ?H = "unat y div 2 ^ 32"
  have "(2::nat) ^ 32 \<le> 2 ^ (31 + k)" using k(1) by (intro power_increasing) simp_all
  with lo have "2 ^ 32 \<le> unat y" by linarith
  then have h: "?H \<noteq> 0" by (simp add: div_eq_0_iff)
  let ?l = "top_bit ?H + 1"
  note ts = top_shift [OF unat_lt64 h refl]
  have d: "2 ^ 31 * 2 ^ ?l \<le> unat y" "unat y < 2 ^ 32 * 2 ^ ?l"
    using ts(2,3) by (simp_all only: less_eq_div_iff_mult_less_eq div_less_iff_less_mult zero_less_power zero_less_numeral)
  have "(2::nat) ^ (31 + ?l) < 2 ^ (32 + k)" using d(1) k(4) by (simp only: power_add)
  then have "?l \<le> k" by (simp add: power_strict_increasing_iff)
  moreover have "(2::nat) ^ (31 + k) < 2 ^ (32 + ?l)" using d(2) lo by (simp only: power_add)
  then have "k \<le> ?l" by (simp add: power_strict_increasing_iff)
  ultimately have "k = ?l" by (rule order.antisym [rotated])
  then have e: "2 ^ 32 - 1 \<le> unat y div 2 ^ ?l" using k(3)
    by (simp only: less_eq_div_iff_mult_less_eq zero_less_power zero_less_numeral)
  with ts(3) h show "overflows y" unfolding overflows_def by (metis le_antisym less_Suc_eq_le Suc_diff_1 zero_less_power zero_less_numeral)
qed

text \<open>
  C19. \<open>do_div64\<close> divides with quotient and remainder for every dividend and every divisor but these:
  it gives 0 and the dividend for the divisor 0, and it faults for every divisor above 32 bits whose
  32 highest bits, from the first one on, are all set.
\<close>

theorem do_div64_divides:
  "do_div64 x y =
     (if \<exists>k. 1 \<le> k \<and> k \<le> 32 \<and> (2 ^ 32 - 1) * 2 ^ k \<le> unat y \<and> unat y < 2 ^ (32 + k) then None
      else if y = 0 then Some (0, x) else Some (x div y, x mod y))"
  unfolding do_div64_value overflows_iff ..

section \<open>Formatted output\<close>

text \<open>
  C16. Printing and reading back: a number written to a string with \<open>sprintf(s, "%d", w)\<close> is read by
  \<open>strtol(s, \<dots>, 10)\<close> as the same 32-bit number, negative ones included, and the pointer that
  \<open>strtol\<close> stores is right behind the characters that \<open>sprintf\<close> counted.
\<close>

theorem print_read_roundtrip:
  "\<exists>n m'. sprintf s [0x25, 0x64] [Word w] m = Some (n, m') \<and> strtol s 10 m' = Some (w, s + of_nat n)"
proof -
  have d: "doprnt [0x25, 0x64] [Word w] = Some (decimal w)" by (simp only: doprnt_d print_signed_decimal)
  have "length (decimal w) < 2 ^ 32 - 1" using decimal_facts(1) [of w] by simp
  then show ?thesis unfolding sprintf_def
    using vsprintf_writes [OF d, of s m] strtol_decimal [OF written_cstr [of "decimal w" m s]] decimal_facts(2) [of w]
    by simp
qed

text \<open>
  C29. \<open>snprintf\<close> stores the first characters of the output, as many as the given size, and a null
  byte behind them, and nothing else: when the output is as long as the size or longer, the null
  byte is outside the buffer.
\<close>

theorem snprintf_null_byte_outside:
  assumes "doprnt fmt args = Some out" "sz \<noteq> 0xFFFFFFF" "length out < 2 ^ 32 - 1"
  shows "\<exists>m'. snprintf s sz fmt args m = Some (min (length out) sz, m')
    \<and> bytes_at m' s (min (length out) sz) = take sz out
    \<and> m' (s + of_nat (min (length out) sz)) = 0
    \<and> (\<forall>x. min (length out) sz < unat (x - s) \<longrightarrow> m' x = m x)"
proof -
  let ?n = "min (length out) sz"
  have u: "unat (of_nat i :: u32) = i" if "i \<le> ?n" for i using that assms(3) by (intro unat_of_nat32) simp
  have "bytes_at (written m s (take sz out @ [0])) s ?n = take sz out"
    using u by (auto simp: bytes_at_def written_def nth_append min.commute intro!: nth_equalityI)
  then show ?thesis unfolding snprintf_def
    using vsnprintf_writes [OF assms, of s m] u [of ?n] by (auto simp: written_def nth_append min.commute)
qed

theorem snprintf_null_byte_outside_witness:
  "\<exists>m'. snprintf 0x3000 2 [0x6F, 0x6B] [] (\<lambda>_. 0xAA) = Some (2, m') \<and> m' 0x3002 = 0"
proof -
  have d: "doprnt [0x6F, 0x6B] [] = Some [0x6F, 0x6B]" by simp
  from snprintf_null_byte_outside [OF d, of 2 "0x3000" "\<lambda>_. 0xAA"] show ?thesis by auto
qed

text \<open>
  Two consoles that differ only in the trace of the cursor ports and in the values that
  \<open>cons_write\<close> computes anew.
\<close>

definition settled :: "console \<Rightarrow> console" where
  "settled c = c\<lparr>line_buffer_line := 0, line_buffer_column := 0,
     scr := (scr c)\<lparr>cursor_line := 0, cursor_column := 0, cga_ports := []\<rparr>\<rparr>"

definition untraced :: "console \<Rightarrow> console" where
  "untraced c = c\<lparr>scr := (scr c)\<lparr>cga_ports := []\<rparr>\<rparr>"

lemma settled_fields: "settled c = settled d \<longleftrightarrow>
    cells (scr c) = cells (scr d) \<and> fg_color c = fg_color d \<and> bg_color c = bg_color d
    \<and> write_line c = write_line d \<and> write_column c = write_column d
    \<and> write_escape c = write_escape d \<and> write_escape_bg c = write_escape_bg d
    \<and> all_buffer c = all_buffer d \<and> all_buffer_len c = all_buffer_len d \<and> wake_set c = wake_set d
    \<and> line_buffer c = line_buffer d \<and> line_buffer_len c = line_buffer_len d
    \<and> line_buffer_cursor c = line_buffer_cursor d \<and> line_buffer_insert c = line_buffer_insert d
    \<and> echo_on c = echo_on d"
  by (cases c; cases d; cases "scr c"; cases "scr d") (auto simp: settled_def)

lemma settled_scroll: "settled c = settled d \<Longrightarrow> settled (cons_scroll c) = settled (cons_scroll d)"
proof (induction c arbitrary: d rule: cons_scroll.induct)
  case (1 c)
  let ?step = "\<lambda>c. c\<lparr>scr := cga_scroll_down (scr c), write_line := write_line c - 1,
             line_buffer_line := sub32 (line_buffer_line c) 1\<rparr>"
  have w: "write_line c = write_line d" using "1.prems" by (simp add: settled_fields)
  have "cells (scr c) = cells (scr d)" using "1.prems" by (simp add: settled_fields)
  then have "cells (cga_scroll_down (scr c)) = cells (cga_scroll_down (scr d))" by (auto simp: cga_scroll_down_def)
  then have "settled (?step c) = settled (?step d)" using "1.prems" by (simp add: settled_fields)
  then show ?case using "1.IH" [of "?step d"] "1.prems" w
    by (subst (1 2) cons_scroll.simps) simp
qed

lemma settled_char: "settled c = settled d \<Longrightarrow> settled (cons_write_char ch c) = settled (cons_write_char ch d)"
proof -
  assume h: "settled c = settled d"
  have wrap: "settled (cons_wrap c) = settled (cons_wrap d)" if "settled c = settled d" for c d
    unfolding cons_wrap_def by (rule settled_scroll) (use that in \<open>simp add: settled_fields\<close>)
  have clear: "cells (cga_clear (scr c)) = cells (cga_clear (scr d))"
    using h by (auto simp: cga_clear_def settled_fields)
  show ?thesis
  proof (cases "write_escape c")
    case True
    then show ?thesis using h by (simp add: cons_write_char_def Let_def settled_fields)
  next
    case False
    then have d: "\<not> write_escape d" using h by (simp add: settled_fields)
    show ?thesis unfolding cons_write_char_def if_not_P [OF False] if_not_P [OF d]
      by (rule wrap) (use h clear in \<open>simp add: settled_fields cga_set_char_def\<close>)
  qed
qed

lemma settled_chars: "settled c = settled d \<Longrightarrow> settled (cons_write_chars chs c) = settled (cons_write_chars chs d)"
proof (induction chs arbitrary: c d)
  case (Cons ch chs)
  from Cons.IH [OF settled_char [OF Cons.prems, of ch]] show ?case by simp
qed simp

lemma untraced_write: "settled c = settled d \<Longrightarrow> untraced (cons_write chs c) = untraced (cons_write chs d)"
  using settled_chars [of c d chs]
  by (simp add: cons_write_def Let_def untraced_def cga_set_cursor_def settled_fields)

lemma settled_write: "settled (cons_write chs c) = settled (cons_write_chars chs c)"
  by (simp add: cons_write_def Let_def cga_set_cursor_def settled_fields)

lemma cons_write_chars_append: "cons_write_chars (as @ bs) c = cons_write_chars bs (cons_write_chars as c)"
  by (induction as arbitrary: c) simp_all

text \<open>Pieces written one after the other, and all at once.\<close>

lemma untraced_append: "untraced (cons_write bs (cons_write as c)) = untraced (cons_write (as @ bs) c)"
proof -
  have "untraced (cons_write bs (cons_write as c)) = untraced (cons_write bs (cons_write_chars as c))"
    by (rule untraced_write) (rule settled_write)
  then show ?thesis by (simp add: cons_write_def cons_write_chars_append)
qed

lemma untraced_settled: "untraced c = untraced d \<Longrightarrow> settled c = settled d"
  by (cases c; cases d; cases "scr c"; cases "scr d") (auto simp: settled_def untraced_def)

lemma putbytes_all: "untraced (fold console_putbytes calls c) = untraced (console_putbytes (concat calls) c)"
proof (induction calls arbitrary: c)
  case (Cons b calls)
  show ?case
  proof (cases "b = [] \<or> concat calls = []")
    case True
    then show ?thesis using Cons [of "cons_write b c"] Cons [of c]
      by (auto simp: console_putbytes_def simp del: concat_eq_Nil_conv)
  next
    case False
    then show ?thesis using Cons [of "cons_write b c"] untraced_append [of "concat calls" b c]
      by (simp add: console_putbytes_def)
  qed
qed (simp add: console_putbytes_def)

text \<open>
  C21. \<open>printf\<close> on the kernel console: although the characters pass through a buffer of 128 bytes that
  is flushed at line feeds, at null bytes and when it is full, the console ends as if the whole output
  had been written at once, and no call passes more than 128 bytes. \<open>garbage\<close> is what the buffer on
  the stack held before.
\<close>

theorem printf_reaches_console:
  assumes "doprnt fmt args = Some out" "length garbage = 128"
  shows "\<exists>calls. printf garbage fmt args = Some calls \<and> (\<forall>b \<in> set calls. length b \<le> 128)
    \<and> untraced (fold console_putbytes calls c) = untraced (console_putbytes out c)"
proof -
  from vprintf_prints [OF assms] obtain calls where
    "vprintf garbage fmt args = Some calls" "concat calls = out" "\<forall>b \<in> set calls. length b \<le> 128" by blast
  then show ?thesis unfolding printf_def using putbytes_all [of calls c] by auto
qed

theorem printf_reaches_console_witness:
  "\<forall>g. \<exists>calls. printf (replicate 128 0) [0x6F, 0x0A, 0x6B] [] = Some calls
    \<and> write_column (fold console_putbytes calls (console_zero g)) = 1"
proof
  fix g
  have d: "doprnt [0x6F, 0x0A, 0x6B] [] = Some [0x6F, 0x0A, 0x6B]" by simp
  from printf_reaches_console [OF d, of "replicate 128 0" "console_zero g"] obtain calls where
    c: "printf (replicate 128 0) [0x6F, 0x0A, 0x6B] [] = Some calls"
      "untraced (fold console_putbytes calls (console_zero g)) = untraced (console_putbytes [0x6F, 0x0A, 0x6B] (console_zero g))"
    by auto
  have "write_column (console_putbytes [0x6F, 0x0A, 0x6B] (console_zero g)) = 1"
    by (simp add: console_putbytes_def cons_write_def cons_write_char_def cons_wrap_def cons_scroll.simps console_zero_def Let_def)
  then have "write_column (fold console_putbytes calls (console_zero g)) = 1"
    using c(2) [THEN untraced_settled] by (simp add: settled_fields)
  with c(1) show "\<exists>calls. printf (replicate 128 0) [0x6F, 0x0A, 0x6B] [] = Some calls
    \<and> write_column (fold console_putbytes calls (console_zero g)) = 1" by blast
qed

section \<open>Priority queues\<close>

text \<open>
  C8. The macros \<open>queue_add\<close> and \<open>queue_out\<close> on a list head that was just initialised behave in every
  sequence of calls like a fair priority queue: what leaves is the element of the highest priority that
  came first, NULL when the queue is empty, and no loop of the macros runs for ever. An element is
  entered only while it is not in the queue, with its link cleared at the start; the link may be at any
  offset in it.
\<close>

theorem priority_queue_is_fair:
  assumes "NULL \<notin> E" "head \<notin> (\<lambda>e. e + diff) ` E"
    and "\<And>e. e \<in> E \<Longrightarrow> lk_prev s (e + diff) = 0 \<and> lk_next s (e + diff) = 0"
    and "fair_ops prio E ops []"
  shows "\<exists>s'. op_run (queue_add diff prio head) (queue_leave diff head) ops (INIT_LIST_HEAD head s) =
    Some (fst (fair_run prio ops []), s')"
  using links.run_fair [OF queue_init_holds [OF assms(1-3)] assms(4)] by blast

text \<open>Three elements with two priorities: those of the higher one leave first, in the order of their arrival.\<close>

definition sample_prio :: "ptr \<Rightarrow> int" where
  "sample_prio e = (if e = 0x1000 then 1 else 2)"

theorem priority_queue_is_fair_witness:
  "\<exists>s'. op_run (queue_add 8 sample_prio 0x500) (queue_leave 8 0x500)
      [Enter 0x1000, Enter 0x2000, Enter 0x3000, Leave, Leave, Leave, Leave]
      (INIT_LIST_HEAD 0x500 \<lparr>lk_prev = (\<lambda>_. 0), lk_next = (\<lambda>_. 0)\<rparr>) =
    Some ([Some 0x2000, Some 0x3000, Some 0x1000, None], s')"
proof -
  let ?ops = "[Enter 0x1000, Enter 0x2000, Enter 0x3000, Leave, Leave, Leave, Leave] :: ptr queue_op list"
  let ?E = "{0x1000, 0x2000, 0x3000} :: ptr set"
  have "NULL \<notin> ?E" "0x500 \<notin> (\<lambda>e. e + 8) ` ?E" by simp_all
  moreover have "fair_ops sample_prio ?E ?ops []" by (simp add: best_def sample_prio_def)
  moreover have "fst (fair_run sample_prio ?ops []) = [Some 0x2000, Some 0x3000, Some 0x1000, None]"
    by (simp add: best_def sample_prio_def)
  ultimately show ?thesis
    using priority_queue_is_fair [of ?E "0x500" 8 "\<lparr>lk_prev = (\<lambda>_. 0), lk_next = (\<lambda>_. 0)\<rparr>" sample_prio ?ops] by simp
qed

end
