(* ===== verification/Ports.thy ===== *)
theory Ports
  imports Console Formatting
begin

text \<open>
  What the drivers share: the port instructions of \<^verbatim>\<open>include/cpu.h\<close>, with the hardware behind the ports
  as a parameter, and messages printed on the console with \<open>printf\<close>.

  The hardware is no code of this repository: it is a value of type \<open>hardware\<close>, an answer to each port
  instruction in each state of the devices, and the theorems state what they need of it.
\<close>

section \<open>Port instructions\<close>

record 'd hardware =
  read_byte :: "u16 \<Rightarrow> 'd \<Rightarrow> u8 \<times> 'd"
  write_byte :: "u8 \<Rightarrow> u16 \<Rightarrow> 'd \<Rightarrow> 'd"
  write_word :: "u16 \<Rightarrow> u16 \<Rightarrow> 'd \<Rightarrow> 'd"

definition inb :: "'d hardware \<Rightarrow> u16 \<Rightarrow> 'd \<Rightarrow> u8 \<times> 'd" where
  "inb hw port d = read_byte hw port d"

definition outb :: "'d hardware \<Rightarrow> u8 \<Rightarrow> u16 \<Rightarrow> 'd \<Rightarrow> 'd" where
  "outb hw value port d = write_byte hw value port d"

definition outw :: "'d hardware \<Rightarrow> u16 \<Rightarrow> u16 \<Rightarrow> 'd \<Rightarrow> 'd" where
  "outw hw value port d = write_word hw value port d"

section \<open>Messages\<close>

text \<open>A string literal as bytes; \<open>esc\<close> is the escape character that the console reads as a colour.\<close>

definition bytes :: "string \<Rightarrow> u8 list" where
  "bytes s = map of_char s"

definition esc :: "string \<Rightarrow> u8 list" where
  "esc s = 0x1B # bytes s"

definition LOG_EMPTY :: "u8 list" where "LOG_EMPTY = bytes ''[    ] ''"
definition LOG_INDENT :: "u8 list" where "LOG_INDENT = bytes ''       ''"
definition LOG_FAIL :: "u8 list" where "LOG_FAIL = bytes ''['' @ esc ''cFAIL'' @ esc ''r] ''"
definition LOG_WARN :: "u8 list" where "LOG_WARN = bytes ''['' @ esc ''eWARN'' @ esc ''r] ''"
definition LOG_OK :: "u8 list" where "LOG_OK = bytes ''[ '' @ esc ''aOK'' @ esc ''r ] ''"

text \<open>
  \<open>printf\<close> on the kernel console. Its buffer is on the stack; what it holds at first does not matter
  (\<open>vprintf_prints\<close>), so it is zero here.
\<close>

definition console_printf :: "u8 list \<Rightarrow> fmt_arg list \<Rightarrow> console \<Rightarrow> console option" where
  "console_printf fmt args c =
     map_option (\<lambda>calls. fold console_putbytes calls c) (printf (replicate 128 0) fmt args)"

end
