(* ===== verification/Interrupts.thy ===== *)
theory Interrupts
  imports Ports
begin

text \<open>
  The interrupt descriptor table and the interrupt controller of \<^verbatim>\<open>peripheral/interrupt.c\<close>. The table is
  at address 0x1000 of the kernel's byte memory, two words for each gate. \<open>irq_handlers_entry\<close>, the
  addresses of the assembly stubs, is an argument. A handler is a function of type \<open>irq_handler\<close>.
\<close>

section \<open>Gates\<close>

abbreviation (input) KERNEL_CS :: u16 where "KERNEL_CS \<equiv> 0x10"
abbreviation (input) IDT_PRESENT :: u16 where "IDT_PRESENT \<equiv> 0x8000"
abbreviation (input) IDT_INTERRUPT_GATE :: u16 where "IDT_INTERRUPT_GATE \<equiv> 0x0E00"
abbreviation (input) IDT_TRAP_GATE :: u16 where "IDT_TRAP_GATE \<equiv> 0x0F00"
abbreviation (input) IDT_TASK_GATE :: u16 where "IDT_TASK_GATE \<equiv> 0x0500"

definition idt_entry :: "u8 \<Rightarrow> ptr" where
  "idt_entry n = 0x1000 + ucast n * 8"

definition idt_set_gate :: "u8 \<Rightarrow> u16 \<Rightarrow> u32 \<Rightarrow> u16 \<Rightarrow> bmem \<Rightarrow> bmem" where
  "idt_set_gate n segment handler flag_bits m =
     (let entry = idt_entry n;
          m1 = store32 m entry (push_bit 16 (ucast segment) OR (handler AND 0xFFFF))
      in store32 m1 (entry + 4) ((handler AND 0xFFFF0000) OR ucast flag_bits))"

definition dpl_bits :: "u8 \<Rightarrow> u16" where
  "dpl_bits dpl = push_bit 13 (ucast (dpl AND 3))"

definition idt_interrupt_gate :: "u8 \<Rightarrow> u32 \<Rightarrow> u8 \<Rightarrow> bmem \<Rightarrow> bmem" where
  "idt_interrupt_gate n handler_offset dpl m =
     idt_set_gate n KERNEL_CS handler_offset (IDT_PRESENT OR IDT_INTERRUPT_GATE OR dpl_bits dpl) m"

definition idt_trap_gate :: "u8 \<Rightarrow> u32 \<Rightarrow> u8 \<Rightarrow> bmem \<Rightarrow> bmem" where
  "idt_trap_gate n handler_offset dpl m =
     idt_set_gate n KERNEL_CS handler_offset (IDT_PRESENT OR IDT_TRAP_GATE OR dpl_bits dpl) m"

definition idt_task_gate :: "u8 \<Rightarrow> u16 \<Rightarrow> u8 \<Rightarrow> bmem \<Rightarrow> bmem" where
  "idt_task_gate n tss_segment dpl m =
     idt_set_gate n tss_segment 0 (IDT_PRESENT OR IDT_TASK_GATE OR dpl_bits dpl) m"

definition idt_remove_gate :: "u8 \<Rightarrow> bmem \<Rightarrow> bmem" where
  "idt_remove_gate n m = idt_set_gate n 0 0 0 m"

section \<open>Interrupt requests\<close>

abbreviation (input) IRQ_INTERRUPT_OFFSET :: u8 where "IRQ_INTERRUPT_OFFSET \<equiv> 32"
abbreviation (input) IRQ_PIT :: u8 where "IRQ_PIT \<equiv> 0"
abbreviation (input) IRQ_PS2_A :: u8 where "IRQ_PS2_A \<equiv> 1"
abbreviation (input) IRQ_SLAVE :: u8 where "IRQ_SLAVE \<equiv> 2"
abbreviation (input) IRQ_RTC :: u8 where "IRQ_RTC \<equiv> 8"
abbreviation (input) IRQ_PS2_B :: u8 where "IRQ_PS2_B \<equiv> 12"

text \<open>The functions that the drivers install.\<close>

datatype irq_handler = Pit_Interrupt | Ps2_Port_A | Ps2_Port_B | Rtc_Interrupt

record irqs =
  idt_memory :: bmem
  irq_handlers :: "u8 \<Rightarrow> irq_handler option"

definition irq_set_handler :: "(u8 \<Rightarrow> u32) \<Rightarrow> u8 \<Rightarrow> irq_handler \<Rightarrow> irqs \<Rightarrow> irqs" where
  "irq_set_handler irq_handlers_entry n handler s =
     s\<lparr>idt_memory := idt_interrupt_gate (IRQ_INTERRUPT_OFFSET + n) (irq_handlers_entry n) 0 (idt_memory s),
       irq_handlers := (irq_handlers s)(n \<mapsto> handler)\<rparr>"

definition irq_eoi :: "'d hardware \<Rightarrow> u8 \<Rightarrow> 'd \<Rightarrow> 'd" where
  "irq_eoi hw n d =
     (let d1 = outb hw 0x20 0x20 d in if n \<ge> 8 then outb hw 0x20 0xA0 d1 else d1)"

function irq_mask :: "'d hardware \<Rightarrow> u8 \<Rightarrow> bool \<Rightarrow> 'd \<Rightarrow> 'd" where
  "irq_mask hw n masked d =
     (let master = (n < 8);
          d1 = (if \<not> master \<and> \<not> masked then irq_mask hw IRQ_SLAVE False d else d);
          mask_port = (if master then 0x21 else 0xA1);
          (current_mask, d2) = inb hw mask_port d1;
          mask = push_bit (unat (if master then n else n - 8)) 1
      in outb hw (if masked then current_mask OR mask else current_mask AND NOT mask) mask_port d2)"
  by pat_completeness auto
termination
  by (relation "measure (\<lambda>(hw, n, masked, d). if n < 8 then 0 else 1)") auto

declare irq_mask.simps [simp del]

section \<open>How the processor reads a gate\<close>

text \<open>The fields of the gate at an address, by the layout of the processor's manual.\<close>

record gate =
  gate_offset :: u32
  gate_selector :: u16
  gate_type :: u8
  gate_dpl :: u8
  gate_present :: bool

definition gate_of :: "u32 \<Rightarrow> u32 \<Rightarrow> gate" where
  "gate_of lo hi =
     \<lparr>gate_offset = (hi AND 0xFFFF0000) OR (lo AND 0xFFFF), gate_selector = ucast (drop_bit 16 lo),
      gate_type = ucast (drop_bit 8 hi AND 0x1F), gate_dpl = ucast (drop_bit 13 hi AND 3),
      gate_present = bit hi 15\<rparr>"

definition read_gate :: "bmem \<Rightarrow> ptr \<Rightarrow> gate" where
  "read_gate m a = gate_of (load32 m a) (load32 m (a + 4))"

lemma word_masks:
  "(x :: 'a::len word) AND 0xFFFF = take_bit 16 x" "(x :: 'a::len word) AND 3 = take_bit 2 x"
  "(x :: 'a::len word) AND 0x1F = take_bit 5 x"
  by (simp_all add: take_bit_eq_mask mask_eq_exp_minus_1)

lemma high_mask: "(x :: u32) AND 0xFFFF0000 = x AND NOT (mask 16)"
proof -
  have "(0xFFFF0000 :: u32) = NOT (mask 16)" by (simp add: mask_eq_exp_minus_1 not_eq_complement)
  then show ?thesis by simp
qed

text \<open>The constants of the flags, bit by bit.\<close>

lemma flag_bits:
  assumes "i < 16"
  shows "bit (0x8E00 :: u16) i \<longleftrightarrow> i \<in> {9, 10, 11, 15}" "bit (0x8F00 :: u16) i \<longleftrightarrow> i \<in> {8, 9, 10, 11, 15}"
    "bit (0x8500 :: u16) i \<longleftrightarrow> i \<in> {8, 10, 15}"
proof -
  have "i \<in> {0, 1, 2, 3, 4, 5, 6, 7, 8, 9, 10, 11, 12, 13, 14, 15}" using assms by (simp only: insert_iff empty_iff) presburger
  then show "bit (0x8E00 :: u16) i \<longleftrightarrow> i \<in> {9, 10, 11, 15}" "bit (0x8F00 :: u16) i \<longleftrightarrow> i \<in> {8, 9, 10, 11, 15}"
    "bit (0x8500 :: u16) i \<longleftrightarrow> i \<in> {8, 10, 15}"
    by (elim insertE; simp)+
qed

lemma gate_of_fields:
  fixes handler :: u32 and segment f :: u16
  shows "gate_of (push_bit 16 (ucast segment) OR (handler AND 0xFFFF)) ((handler AND 0xFFFF0000) OR ucast f) =
     \<lparr>gate_offset = handler, gate_selector = segment, gate_type = ucast (drop_bit 8 f AND 0x1F),
      gate_dpl = ucast (drop_bit 13 f AND 3), gate_present = bit f 15\<rparr>"
proof -
  let ?lo = "push_bit 16 (ucast segment) OR (handler AND 0xFFFF) :: u32"
  let ?hi = "(handler AND 0xFFFF0000) OR ucast f :: u32"
  note bits = bit_and_iff bit_or_iff bit_not_iff bit_push_bit_iff bit_drop_bit_eq bit_unsigned_iff bit_take_bit_iff bit_mask_iff
  have "(?hi AND 0xFFFF0000) OR (?lo AND 0xFFFF) = handler"
    unfolding high_mask word_masks by (rule bit_word_eqI) (auto simp: bits dest: bit_imp_le_length)
  moreover have "ucast (drop_bit 16 ?lo) = segment"
    unfolding word_masks by (rule bit_word_eqI) (auto simp: bits)
  moreover have "(ucast (drop_bit 8 ?hi AND 0x1F) :: u8) = ucast (drop_bit 8 f AND 0x1F)"
    unfolding high_mask word_masks by (rule bit_word_eqI) (auto simp: bits dest: bit_imp_le_length)
  moreover have "(ucast (drop_bit 13 ?hi AND 3) :: u8) = ucast (drop_bit 13 f AND 3)"
    unfolding high_mask word_masks by (rule bit_word_eqI) (auto simp: bits dest: bit_imp_le_length)
  moreover have "bit ?hi 15 = bit f 15"
    unfolding high_mask by (simp add: bits)
  ultimately show ?thesis unfolding gate_of_def by simp
qed

lemma gate_read_back:
  "read_gate (idt_set_gate n segment handler f m) (idt_entry n) =
     \<lparr>gate_offset = handler, gate_selector = segment, gate_type = ucast (drop_bit 8 f AND 0x1F),
      gate_dpl = ucast (drop_bit 13 f AND 3), gate_present = bit f 15\<rparr>"
proof -
  have d: "disjoint32 (idt_entry n + 4) (idt_entry n)" by (simp add: disjoint32_def)
  have "load32 (idt_set_gate n segment handler f m) (idt_entry n) = push_bit 16 (ucast segment) OR (handler AND 0xFFFF)"
    "load32 (idt_set_gate n segment handler f m) (idt_entry n + 4) = (handler AND 0xFFFF0000) OR ucast f"
    unfolding idt_set_gate_def Let_def by (simp_all add: d)
  then show ?thesis unfolding read_gate_def by (simp only: gate_of_fields)
qed

text \<open>The fields of the three kinds of flags.\<close>

lemma flag_fields:
  fixes c :: u16
  assumes "c \<in> {0x8E00, 0x8F00, 0x8500}"
  shows "drop_bit 8 (c OR dpl_bits dpl) AND 0x1F = drop_bit 8 c AND 0x1F"
    "(ucast (drop_bit 13 (c OR dpl_bits dpl) AND 3) :: u8) = dpl AND 3" "bit (c OR dpl_bits dpl) 15"
proof -
  have c: "bit c 15" "\<not> bit c 13" "\<not> bit c 14" "\<not> bit c 12" using assms by (auto simp: flag_bits)
  note bits = bit_and_iff bit_or_iff bit_push_bit_iff bit_drop_bit_eq bit_unsigned_iff bit_take_bit_iff
  show "drop_bit 8 (c OR dpl_bits dpl) AND 0x1F = drop_bit 8 c AND 0x1F"
    unfolding word_masks dpl_bits_def by (rule bit_word_eqI) (auto simp: bits)
  show "(ucast (drop_bit 13 (c OR dpl_bits dpl) AND 3) :: u8) = dpl AND 3"
    unfolding word_masks dpl_bits_def
  proof (rule bit_word_eqI)
    fix i
    let ?l = "ucast (take_bit 2 (drop_bit 13 (c OR push_bit 13 (ucast (take_bit 2 dpl))))) :: u8"
    show "bit ?l i \<longleftrightarrow> bit (take_bit 2 dpl) i"
    proof (cases "i < 2")
      case True
      then have "i = 0 \<or> i = 1" by auto
      then show ?thesis using c by (elim disjE) (simp_all add: bits)
    qed (simp add: bits)
  qed
  show "bit (c OR dpl_bits dpl) 15" using c(1) by (simp add: bit_or_iff)
qed

lemma flag_sums:
  "IDT_PRESENT OR IDT_INTERRUPT_GATE OR x = 0x8E00 OR x" "IDT_PRESENT OR IDT_TRAP_GATE OR x = 0x8F00 OR x"
  "IDT_PRESENT OR IDT_TASK_GATE OR x = 0x8500 OR x"
  by (simp_all flip: or.assoc)

lemma interrupt_gate_reads:
  "read_gate (idt_interrupt_gate n h dpl m) (idt_entry n) =
     \<lparr>gate_offset = h, gate_selector = KERNEL_CS, gate_type = 14, gate_dpl = dpl AND 3, gate_present = True\<rparr>"
  "read_gate (idt_trap_gate n h dpl m) (idt_entry n) =
     \<lparr>gate_offset = h, gate_selector = KERNEL_CS, gate_type = 15, gate_dpl = dpl AND 3, gate_present = True\<rparr>"
  "read_gate (idt_task_gate n ts dpl m) (idt_entry n) =
     \<lparr>gate_offset = 0, gate_selector = ts, gate_type = 5, gate_dpl = dpl AND 3, gate_present = True\<rparr>"
  "read_gate (idt_remove_gate n m) (idt_entry n) =
     \<lparr>gate_offset = 0, gate_selector = 0, gate_type = 0, gate_dpl = 0, gate_present = False\<rparr>"
  unfolding idt_interrupt_gate_def idt_trap_gate_def idt_task_gate_def idt_remove_gate_def gate_read_back flag_sums
  by (simp_all only: flag_fields insert_iff simp_thms) simp_all

text \<open>Two gates do not share a byte.\<close>

lemma idt_entry_disjoint:
  assumes "n \<noteq> k" "i < 8" "j < 8"
  shows "idt_entry n + of_nat i \<noteq> idt_entry k + of_nat j"
proof
  have u: "unat (idt_entry n + of_nat i) = 4096 + 8 * unat n + i" if "i < 8" for n i
  proof -
    have "unat n < 256" using unsigned_less [of n, where 'a = nat] by simp
    moreover have "unat (ucast n :: u32) = unat n"
      using \<open>unat n < 256\<close> unfolding unsigned_ucast_eq by (simp add: take_bit_nat_eq_self)
    ultimately show ?thesis using that by (simp add: idt_entry_def unat_word_ariths unat_of_nat32)
  qed
  assume "idt_entry n + of_nat i = idt_entry k + of_nat j"
  then have "8 * unat n + i = 8 * unat k + j" using u [OF assms(2), of n] u [OF assms(3), of k] by simp
  then have "unat n = unat k" using assms(2,3) by presburger
  then show False using assms(1) by (simp add: word_unat_eq_iff)
qed

lemma idt_set_gate_outside:
  "(\<And>i. i < 8 \<Longrightarrow> a \<noteq> idt_entry n + of_nat i) \<Longrightarrow> idt_set_gate n segment h f m a = m a"
proof -
  assume h: "\<And>i. i < 8 \<Longrightarrow> a \<noteq> idt_entry n + of_nat i"
  have "a \<notin> {idt_entry n, idt_entry n + 1, idt_entry n + 2, idt_entry n + 3}"
    using h [of 0] h [of 1] h [of 2] h [of 3] by simp
  then have 1: "store32 m (idt_entry n) v a = m a" for v by (rule store32_other)
  have "a \<notin> {idt_entry n + 4, idt_entry n + 4 + 1, idt_entry n + 4 + 2, idt_entry n + 4 + 3}"
    using h [of 4] h [of 5] h [of 6] h [of 7] by (simp add: add.assoc)
  then have "store32 m' (idt_entry n + 4) v a = m' a" for m' v by (rule store32_other)
  with 1 show ?thesis by (simp add: idt_set_gate_def Let_def)
qed

lemma other_gates:
  assumes "n \<noteq> k"
  shows "read_gate (idt_set_gate n segment h f m) (idt_entry k) = read_gate m (idt_entry k)"
proof -
  let ?m = "idt_set_gate n segment h f m"
  have "?m (idt_entry k + of_nat j) = m (idt_entry k + of_nat j)" if "j < 8" for j
    using idt_entry_disjoint [OF assms _ that] by (intro idt_set_gate_outside) metis
  from this [of 0] this [of 1] this [of 2] this [of 3] this [of 4] this [of 5] this [of 6] this [of 7]
  have "load32 ?m (idt_entry k) = load32 m (idt_entry k)" "load32 ?m (idt_entry k + 4) = load32 m (idt_entry k + 4)"
    by (simp_all add: load32_def add.assoc)
  then show ?thesis by (simp add: read_gate_def)
qed

section \<open>Masks\<close>

text \<open>
  A pair of interrupt controllers as the 8259 data sheet has them: the two mask registers read back what
  was written to them last, and no other register is touched by that.
\<close>

definition mask_registers :: "'d hardware \<Rightarrow> ('d \<Rightarrow> u8) \<Rightarrow> ('d \<Rightarrow> u8) \<Rightarrow> bool" where
  "mask_registers hw master slave \<longleftrightarrow>
     (\<forall>d. let (v, d') = inb hw 0x21 d in v = master d \<and> master d' = master d \<and> slave d' = slave d)
   \<and> (\<forall>d. let (v, d') = inb hw 0xA1 d in v = slave d \<and> master d' = master d \<and> slave d' = slave d)
   \<and> (\<forall>v d. master (outb hw v 0x21 d) = v \<and> slave (outb hw v 0x21 d) = slave d)
   \<and> (\<forall>v d. slave (outb hw v 0xA1 d) = v \<and> master (outb hw v 0xA1 d) = master d)"

definition irq_masked :: "('d \<Rightarrow> u8) \<Rightarrow> ('d \<Rightarrow> u8) \<Rightarrow> u8 \<Rightarrow> 'd \<Rightarrow> bool" where
  "irq_masked master slave i d = (if i < 8 then bit (master d) (unat i) else bit (slave d) (unat i - 8))"

lemma mask_registersD:
  assumes "mask_registers hw master slave"
  shows "inb hw 0x21 d = (v, d') \<Longrightarrow> v = master d \<and> master d' = master d \<and> slave d' = slave d"
    "inb hw 0xA1 d = (v, d') \<Longrightarrow> v = slave d \<and> master d' = master d \<and> slave d' = slave d"
    "master (outb hw w 0x21 d) = w \<and> slave (outb hw w 0x21 d) = slave d"
    "slave (outb hw w 0xA1 d) = w \<and> master (outb hw w 0xA1 d) = master d"
proof -
  have a: "let (v, d') = inb hw 0x21 d in v = master d \<and> master d' = master d \<and> slave d' = slave d"
    "let (v, d') = inb hw 0xA1 d in v = slave d \<and> master d' = master d \<and> slave d' = slave d"
    using assms unfolding mask_registers_def by blast+
  show "inb hw 0x21 d = (v, d') \<Longrightarrow> v = master d \<and> master d' = master d \<and> slave d' = slave d"
    "inb hw 0xA1 d = (v, d') \<Longrightarrow> v = slave d \<and> master d' = master d \<and> slave d' = slave d"
    using a by simp_all
  show "master (outb hw w 0x21 d) = w \<and> slave (outb hw w 0x21 d) = slave d"
    "slave (outb hw w 0xA1 d) = w \<and> master (outb hw w 0xA1 d) = master d"
    using assms unfolding mask_registers_def by blast+
qed

definition new_mask :: "bool \<Rightarrow> nat \<Rightarrow> u8 \<Rightarrow> u8" where
  "new_mask masked k m = (if masked then m OR push_bit k 1 else m AND NOT (push_bit k 1))"

lemma bit_new_mask: "k < 8 \<Longrightarrow> bit (new_mask masked k m) i \<longleftrightarrow> (if i = k then masked else bit m i)"
  by (auto simp: new_mask_def bit_or_iff bit_and_iff bit_not_iff bit_exp_iff dest: bit_imp_le_length)

lemma irq_mask_low:
  assumes hw: "mask_registers hw master slave" and n: "n < 8"
  shows "master (irq_mask hw n masked d) = new_mask masked (unat n) (master d) \<and> slave (irq_mask hw n masked d) = slave d"
proof -
  obtain v d' where i: "inb hw 0x21 d = (v, d')" by fastforce
  note r = mask_registersD(1) [OF hw i] mask_registersD(3) [OF hw]
  have "irq_mask hw n masked d = outb hw (new_mask masked (unat n) v) 0x21 d'"
    using n i by (subst irq_mask.simps) (simp add: Let_def new_mask_def)
  with r show ?thesis by simp
qed

lemma irq_mask_high:
  assumes hw: "mask_registers hw master slave" and n: "\<not> n < 8"
  shows "slave (irq_mask hw n masked d) = new_mask masked (unat (n - 8)) (slave d)
    \<and> master (irq_mask hw n masked d) = (if masked then master d else new_mask False 2 (master d))"
proof -
  let ?d = "if masked then d else irq_mask hw 2 False d"
  obtain v d' where i: "inb hw 0xA1 ?d = (v, d')" by fastforce
  note r = mask_registersD(2) [OF hw i] mask_registersD(4) [OF hw]
  have "irq_mask hw n masked d = outb hw (new_mask masked (unat (n - 8)) v) 0xA1 d'"
    using n i by (cases masked; subst irq_mask.simps) (simp_all add: Let_def new_mask_def)
  moreover have "master (irq_mask hw 2 False d) = new_mask False 2 (master d)" "slave (irq_mask hw 2 False d) = slave d"
    using irq_mask_low [OF hw, of 2 False d] by simp_all
  ultimately show ?thesis using r by (auto split: if_splits)
qed

lemma irq_mask_changes:
  assumes hw: "mask_registers hw master slave" and n: "n < 16" and i: "i < 16"
  shows "irq_masked master slave i (irq_mask hw n masked d) =
    (if i = n then masked else if i = IRQ_SLAVE \<and> 8 \<le> n \<and> \<not> masked then False else irq_masked master slave i d)"
proof (cases "n < 8")
  case True
  then have k: "unat n < 8" by (simp add: word_less_nat_alt)
  have "unat i = unat n \<longleftrightarrow> i = n" by (simp add: word_unat_eq_iff)
  moreover have "\<not> 8 \<le> n" "i = n \<Longrightarrow> i < 8" using True by simp_all
  ultimately show ?thesis using irq_mask_low [OF hw True, of masked d] by (auto simp: irq_masked_def bit_new_mask [OF k])
next
  case False
  then have m: "unat (n - 8) = unat n - 8" "8 \<le> unat n" by (simp_all add: unat_sub word_le_nat_alt word_less_nat_alt)
  then have k: "unat (n - 8) < 8" using n by (simp add: word_less_nat_alt)
  have e: "unat i = unat n \<longleftrightarrow> i = n" "unat i = 2 \<longleftrightarrow> i = 2" by (simp_all add: word_unat_eq_iff)
  have h: "\<not> i < 8 \<Longrightarrow> 8 \<le> unat i" by (simp add: word_less_nat_alt)
  have "\<not> i < 8 \<Longrightarrow> unat i - 8 = unat (n - 8) \<longleftrightarrow> i = n" using h m e(1) by (simp add: eq_diff_iff)
  moreover have "i < 8 \<Longrightarrow> i \<noteq> n" using False by auto
  ultimately show ?thesis
    using irq_mask_high [OF hw False, of masked d] False e(2)
    by (auto simp: irq_masked_def bit_new_mask [OF k] bit_new_mask [of 2])
qed

end
