(* ===== verification/Ps2.thy ===== *)
theory Ps2
  imports Interrupts "HOL-Library.Monad_Syntax"
begin

text \<open>
  The PS/2 controller driver of \<^verbatim>\<open>peripheral/ps2.c\<close> and the start of the keyboard driver,
  \<open>keyboard_init\<close> of \<^verbatim>\<open>peripheral/keyboard.c\<close>. A function on the state \<open>'d\<close> of the hardware only talks
  to the ports; the state of the drivers is the record \<open>drivers\<close>. The loops that wait for the
  controller, and the one that sends a command again, are partial functions: \<open>None\<close> when they do not
  end.
\<close>

section \<open>The controller\<close>

abbreviation (input) PS2_DATA_RW :: u16 where "PS2_DATA_RW \<equiv> 0x0060"
abbreviation (input) PS2_STATUS_R :: u16 where "PS2_STATUS_R \<equiv> 0x0064"
abbreviation (input) PS2_CMD_W :: u16 where "PS2_CMD_W \<equiv> 0x0064"

abbreviation (input) PS2_STATUS_OUTPUT_BUFFER :: u8 where "PS2_STATUS_OUTPUT_BUFFER \<equiv> 0x01"
abbreviation (input) PS2_STATUS_INPUT_BUFFER :: u8 where "PS2_STATUS_INPUT_BUFFER \<equiv> 0x02"

abbreviation (input) PS2_CMD_READ_CONF :: u8 where "PS2_CMD_READ_CONF \<equiv> 0x20"
abbreviation (input) PS2_CMD_WRITE_CONF :: u8 where "PS2_CMD_WRITE_CONF \<equiv> 0x60"
abbreviation (input) PS2_CMD_DISABLE_PORT_B :: u8 where "PS2_CMD_DISABLE_PORT_B \<equiv> 0xA7"
abbreviation (input) PS2_CMD_ENABLE_PORT_B :: u8 where "PS2_CMD_ENABLE_PORT_B \<equiv> 0xA8"
abbreviation (input) PS2_CMD_TEST_PORT_B :: u8 where "PS2_CMD_TEST_PORT_B \<equiv> 0xA9"
abbreviation (input) PS2_CMD_TEST :: u8 where "PS2_CMD_TEST \<equiv> 0xAA"
abbreviation (input) PS2_CMD_TEST_PORT_A :: u8 where "PS2_CMD_TEST_PORT_A \<equiv> 0xAB"
abbreviation (input) PS2_CMD_DISABLE_PORT_A :: u8 where "PS2_CMD_DISABLE_PORT_A \<equiv> 0xAD"
abbreviation (input) PS2_CMD_ENABLE_PORT_A :: u8 where "PS2_CMD_ENABLE_PORT_A \<equiv> 0xAE"
abbreviation (input) PS2_CMD_SEND_PORT_B :: u8 where "PS2_CMD_SEND_PORT_B \<equiv> 0xD4"

abbreviation (input) PS2_CONF_PORT_A_INT :: u8 where "PS2_CONF_PORT_A_INT \<equiv> 0x01"
abbreviation (input) PS2_CONF_PORT_B_INT :: u8 where "PS2_CONF_PORT_B_INT \<equiv> 0x02"
abbreviation (input) PS2_CONF_PORT_B_CLOCK :: u8 where "PS2_CONF_PORT_B_CLOCK \<equiv> 0x20"
abbreviation (input) PS2_CONF_PORT_A_TRANSLATE :: u8 where "PS2_CONF_PORT_A_TRANSLATE \<equiv> 0x40"

abbreviation (input) PS2_DEV_RES_ACK :: u8 where "PS2_DEV_RES_ACK \<equiv> 0xFA"
abbreviation (input) PS2_DEV_RES_RESEND :: u8 where "PS2_DEV_RES_RESEND \<equiv> 0xFE"
abbreviation (input) PS2_DEV_KEYBOARD_MF2 :: u16 where "PS2_DEV_KEYBOARD_MF2 \<equiv> 0x83AB"
abbreviation (input) PS2_DEV_INVALID :: u16 where "PS2_DEV_INVALID \<equiv> 0xFFFF"

datatype ps2_port = PS2_FIRST | PS2_SECOND

definition ps2_status :: "'d hardware \<Rightarrow> 'd \<Rightarrow> u8 \<times> 'd" where
  "ps2_status hw d = inb hw PS2_STATUS_R d"

definition ps2_read_ready :: "'d hardware \<Rightarrow> 'd \<Rightarrow> bool \<times> 'd" where
  "ps2_read_ready hw d = (let (status, d1) = ps2_status hw d in (status AND PS2_STATUS_OUTPUT_BUFFER \<noteq> 0, d1))"

definition ps2_write_ready :: "'d hardware \<Rightarrow> 'd \<Rightarrow> bool \<times> 'd" where
  "ps2_write_ready hw d = (let (status, d1) = ps2_status hw d in (status AND PS2_STATUS_INPUT_BUFFER = 0, d1))"

definition ps2_read_unchecked :: "'d hardware \<Rightarrow> 'd \<Rightarrow> u8 \<times> 'd" where
  "ps2_read_unchecked hw d = inb hw PS2_DATA_RW d"

definition ps2_write_unchecked :: "'d hardware \<Rightarrow> u8 \<Rightarrow> 'd \<Rightarrow> 'd" where
  "ps2_write_unchecked hw data d = outb hw data PS2_DATA_RW d"

partial_function (option) ps2_read_wait :: "'d hardware \<Rightarrow> 'd \<Rightarrow> (u8 \<times> 'd) option" where
  "ps2_read_wait hw d =
     (let (ready, d1) = ps2_read_ready hw d
      in if \<not> ready then ps2_read_wait hw d1 else Some (ps2_read_unchecked hw d1))"

partial_function (option) ps2_write_wait :: "'d hardware \<Rightarrow> u8 \<Rightarrow> 'd \<Rightarrow> 'd option" where
  "ps2_write_wait hw data d =
     (let (ready, d1) = ps2_write_ready hw d
      in if \<not> ready then ps2_write_wait hw data d1 else Some (ps2_write_unchecked hw data d1))"

definition ps2_command :: "'d hardware \<Rightarrow> u8 \<Rightarrow> 'd \<Rightarrow> 'd" where
  "ps2_command hw command d = outb hw command PS2_CMD_W d"

definition ps2_command_read :: "'d hardware \<Rightarrow> u8 \<Rightarrow> 'd \<Rightarrow> (u8 \<times> 'd) option" where
  "ps2_command_read hw command d = ps2_read_wait hw (ps2_command hw command d)"

definition ps2_command_write :: "'d hardware \<Rightarrow> u8 \<Rightarrow> u8 \<Rightarrow> 'd \<Rightarrow> 'd option" where
  "ps2_command_write hw command data d = ps2_write_wait hw data (ps2_command hw command d)"

definition ps2_config_read :: "'d hardware \<Rightarrow> 'd \<Rightarrow> (u8 \<times> 'd) option" where
  "ps2_config_read hw d = ps2_command_read hw PS2_CMD_READ_CONF d"

definition ps2_config_write :: "'d hardware \<Rightarrow> u8 \<Rightarrow> 'd \<Rightarrow> 'd option" where
  "ps2_config_write hw config d = ps2_command_write hw PS2_CMD_WRITE_CONF config d"

section \<open>Commands to a device\<close>

definition ps2_device_command_raw :: "'d hardware \<Rightarrow> ps2_port \<Rightarrow> u8 \<Rightarrow> 'd \<Rightarrow> 'd option" where
  "ps2_device_command_raw hw port command d =
     ps2_write_wait hw command (if port = PS2_SECOND then ps2_command hw PS2_CMD_SEND_PORT_B d else d)"

text \<open>The loop of \<open>ps2_device_command\<close>.\<close>

partial_function (option) ps2_send_loop :: "'d hardware \<Rightarrow> ps2_port \<Rightarrow> u16 \<Rightarrow> bool \<Rightarrow> 'd \<Rightarrow> (u8 \<times> 'd) option" where
  "ps2_send_loop hw port command subcommand d = do {
     d1 \<leftarrow> ps2_device_command_raw hw port (ucast (command AND 0xFF)) d;
     d2 \<leftarrow> (if subcommand then ps2_device_command_raw hw port (ucast (drop_bit 8 command AND 0xFF)) d1 else Some d1);
     (data, d3) \<leftarrow> ps2_read_wait hw d2;
     if data = PS2_DEV_RES_RESEND then ps2_send_loop hw port command subcommand d3 else Some (data, d3)
   }"

definition ps2_device_command :: "'d hardware \<Rightarrow> ps2_port \<Rightarrow> u16 \<Rightarrow> bool \<Rightarrow> bool \<Rightarrow> 'd \<Rightarrow> (u8 \<times> 'd) option" where
  "ps2_device_command hw port command subcommand follow_ack d = do {
     (data, d1) \<leftarrow> ps2_send_loop hw port command subcommand d;
     if follow_ack \<and> data = PS2_DEV_RES_ACK then ps2_read_wait hw d1 else Some (data, d1)
   }"

text \<open>The bounded loop that reads the two bytes of an identity; \<open>n\<close> iterations are left.\<close>

primrec ps2_identity_loop :: "'d hardware \<Rightarrow> nat \<Rightarrow> nat \<Rightarrow> u16 \<Rightarrow> 'd \<Rightarrow> u16 \<times> 'd" where
  "ps2_identity_loop hw 0 shift ident d = (ident, d)"
| "ps2_identity_loop hw (Suc n) shift ident d =
     (if shift < 16 then
        let (ready, d1) = ps2_read_ready hw d
        in if ready then
             let (data, d2) = ps2_read_unchecked hw d1
             in ps2_identity_loop hw n (shift + 8) (ident OR push_bit shift (ucast data)) d2
           else ps2_identity_loop hw n shift ident d1
      else (ident, d))"

definition ps2_device_identify :: "'d hardware \<Rightarrow> ps2_port \<Rightarrow> 'd \<Rightarrow> (u16 \<times> 'd) option" where
  "ps2_device_identify hw port d = do {
     (a, d1) \<leftarrow> ps2_device_command hw port 0xF5 False False d;
     if a \<noteq> PS2_DEV_RES_ACK then Some (PS2_DEV_INVALID, d1)
     else do {
       (b, d2) \<leftarrow> ps2_device_command hw port 0xF2 False False d1;
       if b \<noteq> PS2_DEV_RES_ACK then Some (PS2_DEV_INVALID, d2)
       else do {
         let (ident, d3) = ps2_identity_loop hw 1000 0 0 d2;
         (c, d4) \<leftarrow> ps2_device_command hw port 0xF4 False False d3;
         Some (if c \<noteq> PS2_DEV_RES_ACK then PS2_DEV_INVALID else ident, d4)
       }
     }
   }"

section \<open>The drivers\<close>

text \<open>The functions that may be set as the handler of a device.\<close>

datatype ps2_device_handler = Keyboard_Handler

record 'd drivers =
  hw_state :: 'd
  dcons :: console
  dirqs :: irqs
  dkbd :: keyboard
  ps2_is_ready :: bool
  ps2_is_dual :: bool
  ps2_port_ids :: "ps2_port \<Rightarrow> u16"
  ps2_device_handlers :: "ps2_port \<Rightarrow> ps2_device_handler option"

definition ps2_device_set_handler :: "ps2_port \<Rightarrow> ps2_device_handler \<Rightarrow> 'd drivers \<Rightarrow> 'd drivers" where
  "ps2_device_set_handler port handler s =
     s\<lparr>ps2_device_handlers := (ps2_device_handlers s)(port \<mapsto> handler)\<rparr>"

text \<open>The interrupt handlers: the call that they make, if any.\<close>

definition ps2_port_a_handler :: "'d hardware \<Rightarrow> 'd drivers \<Rightarrow> (ps2_device_handler \<times> u8) option \<times> 'd drivers" where
  "ps2_port_a_handler hw s =
     (let (ready, d) = ps2_read_ready hw (irq_eoi hw IRQ_PS2_A (hw_state s))
      in if ready then
           let handler = ps2_device_handlers s PS2_FIRST; (data, d1) = ps2_read_unchecked hw d
           in (if data \<noteq> PS2_DEV_RES_ACK then map_option (\<lambda>h. (h, data)) handler else None, s\<lparr>hw_state := d1\<rparr>)
         else (None, s\<lparr>hw_state := d\<rparr>))"

definition ps2_port_b_handler :: "'d hardware \<Rightarrow> 'd drivers \<Rightarrow> (ps2_device_handler \<times> u8) option \<times> 'd drivers" where
  "ps2_port_b_handler hw s =
     (let (ready, d) = ps2_read_ready hw (irq_eoi hw IRQ_PS2_B (hw_state s))
      in if ready then
           let handler = ps2_device_handlers s PS2_SECOND; (data, d1) = ps2_read_unchecked hw d
           in (if data \<noteq> PS2_DEV_RES_ACK then map_option (\<lambda>h. (h, data)) handler else None, s\<lparr>hw_state := d1\<rparr>)
         else (None, s\<lparr>hw_state := d\<rparr>))"

definition dprintf :: "u8 list \<Rightarrow> fmt_arg list \<Rightarrow> 'd drivers \<Rightarrow> 'd drivers option" where
  "dprintf fmt args s = map_option (\<lambda>c. s\<lparr>dcons := c\<rparr>) (console_printf fmt args (dcons s))"

text \<open>A port function on the state of the drivers.\<close>

definition on_hw :: "('d \<Rightarrow> ('v \<times> 'd) option) \<Rightarrow> 'd drivers \<Rightarrow> ('v \<times> 'd drivers) option" where
  "on_hw f s = map_option (\<lambda>(v, d). (v, s\<lparr>hw_state := d\<rparr>)) (f (hw_state s))"

definition run_hw :: "('d \<Rightarrow> 'd option) \<Rightarrow> 'd drivers \<Rightarrow> 'd drivers option" where
  "run_hw f s = map_option (\<lambda>d. s\<lparr>hw_state := d\<rparr>) (f (hw_state s))"

section \<open>Start of the driver\<close>

text \<open>
  \<open>ps2_init\<close> in its parts. The first one turns the devices off, empties the output buffer and writes the
  configuration with interrupts and translation off; its result is this configuration.
\<close>

definition ps2_init_config :: "'d hardware \<Rightarrow> 'd drivers \<Rightarrow> (u8 \<times> 'd drivers) option" where
  "ps2_init_config hw s = do {
     let d1 = ps2_command hw PS2_CMD_DISABLE_PORT_B (ps2_command hw PS2_CMD_DISABLE_PORT_A (hw_state s));
     let (ready, d2) = ps2_read_ready hw d1;
     let d3 = (if ready then snd (ps2_read_unchecked hw d2) else d2);
     (conf, d4) \<leftarrow> ps2_config_read hw d3;
     let s1 = s\<lparr>hw_state := d4, ps2_is_dual := ps2_is_dual s \<and> conf AND PS2_CONF_PORT_B_CLOCK \<noteq> 0\<rparr>;
     let conf1 = conf AND NOT PS2_CONF_PORT_A_INT AND NOT PS2_CONF_PORT_B_INT AND NOT PS2_CONF_PORT_A_TRANSLATE;
     s2 \<leftarrow> run_hw (ps2_config_write hw conf1) s1;
     Some (conf1, s2)
   }"

text \<open>Is there a second port?\<close>

definition ps2_init_dual :: "'d hardware \<Rightarrow> 'd drivers \<Rightarrow> 'd drivers option" where
  "ps2_init_dual hw s =
     (if ps2_is_dual s then do {
        (conf, d) \<leftarrow> ps2_config_read hw (ps2_command hw PS2_CMD_ENABLE_PORT_B (hw_state s));
        Some (if conf AND PS2_CONF_PORT_B_CLOCK \<noteq> 0 then s\<lparr>hw_state := d, ps2_is_dual := False\<rparr>
              else s\<lparr>hw_state := ps2_command hw PS2_CMD_DISABLE_PORT_B d\<rparr>)
      } else Some s)"

text \<open>The devices are turned on and identified.\<close>

definition ps2_init_identify :: "'d hardware \<Rightarrow> 'd drivers \<Rightarrow> 'd drivers option" where
  "ps2_init_identify hw s = do {
     let d1 = ps2_command hw PS2_CMD_ENABLE_PORT_A (hw_state s);
     let d2 = (if ps2_is_dual s then ps2_command hw PS2_CMD_ENABLE_PORT_B d1 else d1);
     (ident, s1) \<leftarrow> on_hw (ps2_device_identify hw PS2_FIRST) (s\<lparr>hw_state := d2\<rparr>);
     s2 \<leftarrow> (if ident = PS2_DEV_INVALID then dprintf (LOG_WARN @ bytes ''PS/2 failed to identify first device'' @ [0x0A]) [] s1
           else Some (s1\<lparr>ps2_port_ids := (ps2_port_ids s1)(PS2_FIRST := ident)\<rparr>));
     if ps2_is_dual s2 then do {
       (ident2, s3) \<leftarrow> on_hw (ps2_device_identify hw PS2_SECOND) s2;
       if ident2 = PS2_DEV_INVALID then dprintf (LOG_WARN @ bytes ''PS/2 failed to identify second device'' @ [0x0A]) [] s3
       else Some (s3\<lparr>ps2_port_ids := (ps2_port_ids s3)(PS2_SECOND := ident2)\<rparr>)
     } else Some s2
   }"

text \<open>Interrupts are turned on, the handlers installed, and the driver is ready.\<close>

definition ps2_install :: "'d hardware \<Rightarrow> (u8 \<Rightarrow> u32) \<Rightarrow> u8 \<Rightarrow> irq_handler \<Rightarrow> 'd drivers \<Rightarrow> 'd drivers" where
  "ps2_install hw entries n handler s =
     s\<lparr>dirqs := irq_set_handler entries n handler (dirqs s), hw_state := irq_mask hw n False (hw_state s)\<rparr>"

definition ps2_init_irqs :: "'d hardware \<Rightarrow> (u8 \<Rightarrow> u32) \<Rightarrow> 'd drivers \<Rightarrow> 'd drivers option" where
  "ps2_init_irqs hw entries s = do {
     (conf, s1) \<leftarrow> on_hw (ps2_config_read hw) s;
     let conf1 = conf OR PS2_CONF_PORT_A_INT;
     let conf2 = (if ps2_is_dual s1 then conf1 OR PS2_CONF_PORT_B_INT else conf1);
     s2 \<leftarrow> run_hw (ps2_config_write hw conf2) s1;
     let s3 = ps2_install hw entries IRQ_PS2_A Ps2_Port_A s2;
     let s4 = (if ps2_is_dual s3 then ps2_install hw entries IRQ_PS2_B Ps2_Port_B s3 else s3);
     let s5 = s4\<lparr>ps2_is_ready := True\<rparr>;
     s6 \<leftarrow> dprintf (LOG_OK @ bytes ''PS/2 driver ready      '' @ [0x0A]) [] s5;
     s7 \<leftarrow> dprintf (LOG_INDENT @ bytes ''first dev: 0x%04X'') [Word (ucast (ps2_port_ids s6 PS2_FIRST))] s6;
     s8 \<leftarrow> (if ps2_is_dual s7 then dprintf (bytes '', second dev: 0x%04X'') [Word (ucast (ps2_port_ids s7 PS2_SECOND))] s7
           else Some s7);
     dprintf [0x0A] [] s8
   }"

text \<open>From the test of the second port on, and from that of the first.\<close>

definition ps2_init_port_b :: "'d hardware \<Rightarrow> (u8 \<Rightarrow> u32) \<Rightarrow> 'd drivers \<Rightarrow> 'd drivers option" where
  "ps2_init_port_b hw entries s = do {
     (port_test, s1) \<leftarrow> (if ps2_is_dual s then on_hw (ps2_command_read hw PS2_CMD_TEST_PORT_B) s else Some (0, s));
     if port_test \<noteq> 0 then
       dprintf (LOG_FAIL @ bytes ''PS/2 second port failed test, code: %d'' @ [0x0A]) [Word (ucast port_test)] s1
     else do {
       s2 \<leftarrow> ps2_init_identify hw s1;
       ps2_init_irqs hw entries s2
     }
   }"

definition ps2_init_port_a :: "'d hardware \<Rightarrow> (u8 \<Rightarrow> u32) \<Rightarrow> 'd drivers \<Rightarrow> 'd drivers option" where
  "ps2_init_port_a hw entries s = do {
     (port_test, s1) \<leftarrow> on_hw (ps2_command_read hw PS2_CMD_TEST_PORT_A) s;
     if port_test \<noteq> 0 then
       dprintf (LOG_FAIL @ bytes ''PS/2 first port failed test, code: %d'' @ [0x0A]) [Word (ucast port_test)] s1
     else ps2_init_port_b hw entries s1
   }"

definition ps2_init :: "'d hardware \<Rightarrow> (u8 \<Rightarrow> u32) \<Rightarrow> 'd drivers \<Rightarrow> 'd drivers option" where
  "ps2_init hw entries s = do {
     s1 \<leftarrow> dprintf (LOG_EMPTY @ bytes ''PS/2 driver init...'' @ [0x0D]) [] s;
     (conf, s2) \<leftarrow> ps2_init_config hw s1;
     (port_test, s3) \<leftarrow> on_hw (ps2_command_read hw PS2_CMD_TEST) s2;
     if port_test \<noteq> 0x55 then
       dprintf (LOG_FAIL @ bytes ''PS/2 driver failed self test, code: %d'' @ [0x0A]) [Word (ucast port_test)] s3
     else do {
       s4 \<leftarrow> run_hw (ps2_config_write hw conf) s3;
       s5 \<leftarrow> ps2_init_dual hw s4;
       ps2_init_port_a hw entries s5
     }
   }"

definition ps2_ready :: "'d drivers \<Rightarrow> bool" where
  "ps2_ready s = ps2_is_ready s"

definition ps2_dual :: "'d drivers \<Rightarrow> bool" where
  "ps2_dual s = ps2_is_dual s"

definition ps2_device_id :: "ps2_port \<Rightarrow> 'd drivers \<Rightarrow> u16" where
  "ps2_device_id port s = ps2_port_ids s port"

section \<open>Start of the keyboard driver\<close>

text \<open>From the choice of scan code set 2 on.\<close>

definition keyboard_init_device :: "'d hardware \<Rightarrow> 'd drivers \<Rightarrow> 'd drivers option" where
  "keyboard_init_device hw s = do {
     (a, s1) \<leftarrow> on_hw (ps2_device_command hw PS2_FIRST 0x02F0 True False) s;
     if a \<noteq> PS2_DEV_RES_ACK then
       dprintf (LOG_FAIL @ bytes ''Keyboard driver failed to set scancode set 2'' @ [0x0A]) [] s1
     else do {
       (b, s2) \<leftarrow> on_hw (ps2_device_command hw PS2_FIRST 0x00F0 True True) s1;
       if b \<noteq> 0x02 then
         dprintf (LOG_FAIL @ bytes ''Keyboard driver failed to set scancode set 2'' @ [0x0A]) [] s2
       else do {
         let s3 = s2\<lparr>dkbd := keyboard_set_layout KEYBOARD_LAYOUT_FR (dkbd s2)\<rparr>;
         dprintf (LOG_OK @ bytes ''Keyboard driver ready       '' @ [0x0A]) []
           (ps2_device_set_handler PS2_FIRST Keyboard_Handler s3)
       }
     }
   }"

definition keyboard_init :: "'d hardware \<Rightarrow> 'd drivers \<Rightarrow> 'd drivers option" where
  "keyboard_init hw s = do {
     s1 \<leftarrow> dprintf (LOG_EMPTY @ bytes ''Keyboard driver init...'' @ [0x0D]) [] s;
     if \<not> ps2_ready s1 then
       dprintf (LOG_FAIL @ bytes ''Keyboard driver failed because PS/2 driver has failed'' @ [0x0A]) [] s1
     else if ps2_device_id PS2_FIRST s1 \<noteq> PS2_DEV_KEYBOARD_MF2 then
       dprintf (LOG_FAIL @ bytes ''Keyboard driver failed because no PS/2 keyboard detected: %d'' @ [0x0A])
         [Word (ucast (ps2_device_id PS2_FIRST s1))] s1
     else keyboard_init_device hw s1
   }"

end
