(* ===== verification/Ps2_Facts.thy ===== *)
theory Ps2_Facts
  imports Ps2
begin

text \<open>
  What the PS/2 driver does with a controller that behaves as the data sheet of the 8042 says, and what
  holds of the start of the drivers whatever the hardware does.
\<close>

section \<open>A controller\<close>

text \<open>
  \<open>outbuf\<close> are the bytes that wait to be read, \<open>sent\<close> all the data bytes that went to the devices so
  far, \<open>target\<close> the device that the next one goes to, \<open>delay\<close> how many times the status is still read as
  busy. \<open>react\<close> is the devices: what is pending after a byte was sent, from all that was sent to it and
  what was pending before. A command to write to the second port redirects the next byte only.
\<close>

definition ps2_controller ::
  "'d hardware \<Rightarrow> ('d \<Rightarrow> u8 list) \<Rightarrow> ('d \<Rightarrow> (ps2_port \<times> u8) list) \<Rightarrow> ('d \<Rightarrow> ps2_port) \<Rightarrow> ('d \<Rightarrow> nat)
   \<Rightarrow> ((ps2_port \<times> u8) list \<Rightarrow> u8 list \<Rightarrow> u8 list) \<Rightarrow> bool" where
  "ps2_controller hw outbuf sent target delay react \<longleftrightarrow>
     (\<forall>d. let (v, d') = inb hw PS2_STATUS_R d in
        (v AND 1 \<noteq> 0 \<longleftrightarrow> outbuf d \<noteq> [] \<and> delay d = 0) \<and> (v AND 2 = 0 \<longleftrightarrow> delay d = 0)
        \<and> outbuf d' = outbuf d \<and> sent d' = sent d \<and> target d' = target d \<and> delay d' = delay d - 1)
   \<and> (\<forall>d x xs. outbuf d = x # xs \<longrightarrow> (let (v, d') = inb hw PS2_DATA_RW d in
        v = x \<and> outbuf d' = xs \<and> sent d' = sent d \<and> target d' = target d))
   \<and> (\<forall>d c. let d' = outb hw c PS2_DATA_RW d; log = sent d @ [(target d, c)] in
        sent d' = log \<and> target d' = PS2_FIRST \<and> outbuf d' = react log (outbuf d))
   \<and> (\<forall>d. let d' = outb hw 0xD4 PS2_CMD_W d in
        sent d' = sent d \<and> target d' = PS2_SECOND \<and> outbuf d' = outbuf d)"

lemma controller_status:
  assumes "ps2_controller hw outbuf sent target delay react" "inb hw PS2_STATUS_R d = (v, d')"
  shows "v AND 1 \<noteq> 0 \<longleftrightarrow> outbuf d \<noteq> [] \<and> delay d = 0" "v AND 2 = 0 \<longleftrightarrow> delay d = 0"
    "outbuf d' = outbuf d" "sent d' = sent d" "target d' = target d" "delay d' = delay d - 1"
proof -
  have "let (v, d') = inb hw PS2_STATUS_R d in
        (v AND 1 \<noteq> 0 \<longleftrightarrow> outbuf d \<noteq> [] \<and> delay d = 0) \<and> (v AND 2 = 0 \<longleftrightarrow> delay d = 0)
        \<and> outbuf d' = outbuf d \<and> sent d' = sent d \<and> target d' = target d \<and> delay d' = delay d - 1"
    using assms(1) unfolding ps2_controller_def by blast
  then show "v AND 1 \<noteq> 0 \<longleftrightarrow> outbuf d \<noteq> [] \<and> delay d = 0" "v AND 2 = 0 \<longleftrightarrow> delay d = 0"
    "outbuf d' = outbuf d" "sent d' = sent d" "target d' = target d" "delay d' = delay d - 1"
    unfolding assms(2) Let_def case_prod_conv by blast+
qed

lemma controller_data:
  assumes "ps2_controller hw outbuf sent target delay react" "inb hw PS2_DATA_RW d = (v, d')" "outbuf d = x # xs"
  shows "v = x" "outbuf d' = xs" "sent d' = sent d" "target d' = target d"
proof -
  have "let (v, d') = inb hw PS2_DATA_RW d in
        v = x \<and> outbuf d' = xs \<and> sent d' = sent d \<and> target d' = target d"
    using assms(1,3) unfolding ps2_controller_def by blast
  then show "v = x" "outbuf d' = xs" "sent d' = sent d" "target d' = target d"
    unfolding assms(2) Let_def case_prod_conv by blast+
qed

lemma controller_write:
  assumes "ps2_controller hw outbuf sent target delay react"
  shows "sent (outb hw c PS2_DATA_RW d) = sent d @ [(target d, c)]" "target (outb hw c PS2_DATA_RW d) = PS2_FIRST"
    "outbuf (outb hw c PS2_DATA_RW d) = react (sent d @ [(target d, c)]) (outbuf d)"
    "sent (outb hw 0xD4 PS2_CMD_W d) = sent d" "target (outb hw 0xD4 PS2_CMD_W d) = PS2_SECOND"
    "outbuf (outb hw 0xD4 PS2_CMD_W d) = outbuf d"
  using assms unfolding ps2_controller_def Let_def by blast+

text \<open>The two loops that wait end, after as many turns as the controller is busy.\<close>

lemma write_wait:
  assumes hw: "ps2_controller hw outbuf sent target delay react"
  shows "\<exists>d'. ps2_write_wait hw c d = Some d' \<and> sent d' = sent d @ [(target d, c)] \<and> target d' = PS2_FIRST
    \<and> outbuf d' = react (sent d @ [(target d, c)]) (outbuf d)"
proof (induction "delay d" arbitrary: d)
  case 0
  obtain v d1 where i: "inb hw PS2_STATUS_R d = (v, d1)" by fastforce
  note st = controller_status [OF hw i]
  have "ps2_write_wait hw c d = Some (outb hw c PS2_DATA_RW d1)"
    using st(2) 0 by (subst ps2_write_wait.simps) (simp add: ps2_write_ready_def ps2_status_def i ps2_write_unchecked_def)
  then show ?case using controller_write(1-3) [OF hw, of c d1] st by simp
next
  case (Suc n)
  obtain v d1 where i: "inb hw PS2_STATUS_R d = (v, d1)" by fastforce
  note st = controller_status [OF hw i]
  have "ps2_write_wait hw c d = ps2_write_wait hw c d1"
    using st(2) Suc(2) by (subst ps2_write_wait.simps) (simp add: ps2_write_ready_def ps2_status_def i)
  moreover have "n = delay d1" using st(6) Suc(2) by simp
  ultimately show ?case using Suc.hyps(1) [of d1] st by simp
qed

lemma read_wait:
  assumes hw: "ps2_controller hw outbuf sent target delay react" and "outbuf d = x # xs"
  shows "\<exists>d'. ps2_read_wait hw d = Some (x, d') \<and> sent d' = sent d \<and> target d' = target d \<and> outbuf d' = xs"
  using assms(2)
proof (induction "delay d" arbitrary: d)
  case 0
  obtain v d1 where i: "inb hw PS2_STATUS_R d = (v, d1)" by fastforce
  note st = controller_status [OF hw i]
  obtain w d2 where j: "inb hw PS2_DATA_RW d1 = (w, d2)" by fastforce
  note da = controller_data [OF hw j]
  have "ps2_read_wait hw d = Some (w, d2)"
    using st(1) 0 by (subst ps2_read_wait.simps) (simp add: ps2_read_ready_def ps2_status_def i ps2_read_unchecked_def j)
  then show ?case using da st 0(2) by simp
next
  case (Suc n)
  obtain v d1 where i: "inb hw PS2_STATUS_R d = (v, d1)" by fastforce
  note st = controller_status [OF hw i]
  have "ps2_read_wait hw d = ps2_read_wait hw d1"
    using st(1) Suc(2) by (subst ps2_read_wait.simps) (simp add: ps2_read_ready_def ps2_status_def i)
  moreover have "n = delay d1" using st(6) Suc(2) by simp
  ultimately show ?case using Suc.hyps(1) [of d1] st Suc(3) by simp
qed

section \<open>Commands that are sent again\<close>

lemma command_raw:
  assumes hw: "ps2_controller hw outbuf sent target delay react" and t: "target d = PS2_FIRST"
  shows "\<exists>d'. ps2_device_command_raw hw port c d = Some d' \<and> sent d' = sent d @ [(port, c)] \<and> target d' = PS2_FIRST
    \<and> outbuf d' = react (sent d @ [(port, c)]) (outbuf d)"
proof (cases port)
  case PS2_FIRST
  then show ?thesis using write_wait [OF hw, of c d] t by (simp add: ps2_device_command_raw_def)
next
  case PS2_SECOND
  let ?d = "outb hw 0xD4 PS2_CMD_W d"
  show ?thesis using write_wait [OF hw, of c ?d] controller_write(4-6) [OF hw, of d] PS2_SECOND
    by (simp add: ps2_device_command_raw_def ps2_command_def)
qed

lemma low_byte: "(ucast ((ucast (c :: u8) :: u16) AND 0xFF) :: u8) = c"
proof -
  have m: "(0xFF :: u16) = mask 8" by (simp add: mask_eq_exp_minus_1)
  show ?thesis unfolding m
    by (intro bit_word_eqI) (simp add: bit_and_iff bit_unsigned_iff bit_mask_iff)
qed

lemma send_loop:
  assumes hw: "ps2_controller hw outbuf sent target delay react"
    and "target d = PS2_FIRST" "outbuf d = []"
    and "\<And>j. j < k \<Longrightarrow> react (sent d @ replicate (Suc j) (port, c)) [] = [PS2_DEV_RES_RESEND]"
    and "react (sent d @ replicate (Suc k) (port, c)) [] = r # rs" "r \<noteq> PS2_DEV_RES_RESEND"
  shows "\<exists>d'. ps2_send_loop hw port (ucast c) False d = Some (r, d') \<and> outbuf d' = rs
    \<and> sent d' = sent d @ replicate (Suc k) (port, c)"
  using assms(2-5)
proof (induction k arbitrary: d)
  case 0
  from command_raw [OF hw 0(1), of port c] obtain d1 where
    1: "ps2_device_command_raw hw port c d = Some d1" "sent d1 = sent d @ [(port, c)]" "outbuf d1 = r # rs"
    using 0 by auto
  from read_wait [OF hw 1(3)] obtain d2 where 2: "ps2_read_wait hw d1 = Some (r, d2)" "sent d2 = sent d1" "outbuf d2 = rs" by blast
  have "ps2_send_loop hw port (ucast c) False d = Some (r, d2)"
    using 1(1) 2(1) assms(6) by (subst ps2_send_loop.simps) (simp add: low_byte)
  then show ?case using 1 2 by simp
next
  case (Suc k)
  have first: "react (sent d @ [(port, c)]) [] = [PS2_DEV_RES_RESEND]" using Suc.prems(3) [of 0] by simp
  from command_raw [OF hw Suc.prems(1), of port c] obtain d1 where
    1: "ps2_device_command_raw hw port c d = Some d1" "sent d1 = sent d @ [(port, c)]" "target d1 = PS2_FIRST"
      "outbuf d1 = [PS2_DEV_RES_RESEND]"
    using Suc.prems(2) first by auto
  from read_wait [OF hw 1(4)] obtain d2 where
    2: "ps2_read_wait hw d1 = Some (PS2_DEV_RES_RESEND, d2)" "sent d2 = sent d1" "target d2 = target d1" "outbuf d2 = []" by blast
  have s: "sent d2 @ replicate n (port, c) = sent d @ replicate (Suc n) (port, c)" for n using 1(2) 2(2) by simp
  have "\<exists>d'. ps2_send_loop hw port (ucast c) False d2 = Some (r, d') \<and> outbuf d' = rs
      \<and> sent d' = sent d2 @ replicate (Suc k) (port, c)"
  proof (rule Suc.IH)
    show "target d2 = PS2_FIRST" "outbuf d2 = []" using 1 2 by simp_all
    show "react (sent d2 @ replicate (Suc j) (port, c)) [] = [PS2_DEV_RES_RESEND]" if "j < k" for j
      unfolding s using Suc.prems(3) [of "Suc j"] that by simp
    show "react (sent d2 @ replicate (Suc k) (port, c)) [] = r # rs" unfolding s by (rule Suc.prems(4))
  qed
  moreover have "ps2_send_loop hw port (ucast c) False d = ps2_send_loop hw port (ucast c) False d2"
    using 1(1) 2(1) by (subst ps2_send_loop.simps) (simp add: low_byte)
  ultimately show ?case unfolding s by metis
qed

section \<open>The start of the drivers\<close>

text \<open>What the start of the PS/2 driver leaves alone until it installs its handlers.\<close>

definition quiet :: "'d drivers \<Rightarrow> 'd drivers \<Rightarrow> bool" where
  "quiet s s' \<longleftrightarrow> dirqs s' = dirqs s \<and> dkbd s' = dkbd s \<and> ps2_is_ready s' = ps2_is_ready s
     \<and> ps2_device_handlers s' = ps2_device_handlers s"

lemma quiet_refl [simp]: "quiet s s"
  by (simp add: quiet_def)

lemma quiet_trans: "quiet s1 s2 \<Longrightarrow> quiet s2 s3 \<Longrightarrow> quiet s1 s3"
  by (simp add: quiet_def)

lemma quiet_steps:
  "dprintf fmt args s = Some s' \<Longrightarrow> quiet s s'" "on_hw f s = Some (v, s') \<Longrightarrow> quiet s s'" "run_hw g s = Some s' \<Longrightarrow> quiet s s'"
  by (auto simp: dprintf_def on_hw_def run_hw_def quiet_def)

lemma printed_same: "dprintf fmt args s = Some s' \<Longrightarrow>
    ps2_port_ids s' = ps2_port_ids s \<and> ps2_is_dual s' = ps2_is_dual s \<and> hw_state s' = hw_state s"
  by (auto simp: dprintf_def)

lemma quiet_config: "ps2_init_config hw s = Some (conf, s') \<Longrightarrow> quiet s s'"
  by (auto simp: ps2_init_config_def Let_def run_hw_def quiet_def bind_eq_Some_conv split: prod.splits)

lemma quiet_dual: "ps2_init_dual hw s = Some s' \<Longrightarrow> quiet s s'"
  by (auto simp: ps2_init_dual_def quiet_def bind_eq_Some_conv split: prod.splits if_splits)

lemma quiet_identify: "ps2_init_identify hw s = Some s' \<Longrightarrow> quiet s s'"
proof -
  assume "ps2_init_identify hw s = Some s'"
  then obtain ident s0 s1 s2 where 1: "on_hw (ps2_device_identify hw PS2_FIRST) s0 = Some (ident, s1)" "quiet s s0"
    and 2: "(if ident = PS2_DEV_INVALID then dprintf (LOG_WARN @ bytes ''PS/2 failed to identify first device'' @ [0x0A]) [] s1
           else Some (s1\<lparr>ps2_port_ids := (ps2_port_ids s1)(PS2_FIRST := ident)\<rparr>)) = Some s2"
    and 3: "(if ps2_is_dual s2 then do {
       (ident2, s3) \<leftarrow> on_hw (ps2_device_identify hw PS2_SECOND) s2;
       if ident2 = PS2_DEV_INVALID then dprintf (LOG_WARN @ bytes ''PS/2 failed to identify second device'' @ [0x0A]) [] s3
       else Some (s3\<lparr>ps2_port_ids := (ps2_port_ids s3)(PS2_SECOND := ident2)\<rparr>)
     } else Some s2) = Some s'"
    unfolding ps2_init_identify_def Let_def bind_eq_Some_conv split_paired_Ex prod.case
    by (fastforce simp: quiet_def)
  have ids: "quiet x (x\<lparr>ps2_port_ids := i\<rparr>)" for x :: "'a drivers" and i by (simp add: quiet_def)
  from 2 have "quiet s1 s2" by (auto split: if_splits intro: quiet_steps ids)
  moreover from 3 have "quiet s2 s'"
    by (auto simp: bind_eq_Some_conv split: if_splits dest!: quiet_steps intro: quiet_trans ids)
  ultimately show ?thesis using quiet_steps(2) [OF 1(1)] 1(2) quiet_trans by blast
qed

text \<open>After it: the driver is ready, with the handler and its gate for each port that there is.\<close>

definition port_installed :: "(u8 \<Rightarrow> u32) \<Rightarrow> u8 \<Rightarrow> irq_handler \<Rightarrow> 'd drivers \<Rightarrow> bool" where
  "port_installed entries n handler s \<longleftrightarrow> irq_handlers (dirqs s) n = Some handler
     \<and> read_gate (idt_memory (dirqs s)) (idt_entry (32 + n)) =
       \<lparr>gate_offset = entries n, gate_selector = KERNEL_CS, gate_type = 14, gate_dpl = 0, gate_present = True\<rparr>"

lemma install_facts:
  "port_installed entries n h (ps2_install hw entries n h s)"
  "n \<noteq> k \<Longrightarrow> port_installed entries k h' s \<Longrightarrow> port_installed entries k h' (ps2_install hw entries n h s)"
proof -
  show "port_installed entries n h (ps2_install hw entries n h s)"
    by (simp add: port_installed_def ps2_install_def irq_set_handler_def interrupt_gate_reads)
  assume "n \<noteq> k" and p: "port_installed entries k h' s"
  then have "32 + n \<noteq> 32 + k" by simp
  then show "port_installed entries k h' (ps2_install hw entries n h s)"
    using p \<open>n \<noteq> k\<close> by (simp add: port_installed_def ps2_install_def irq_set_handler_def idt_interrupt_gate_def other_gates)
qed

lemma quiet_installed: "quiet s s' \<Longrightarrow> port_installed entries n h s' \<longleftrightarrow> port_installed entries n h s"
  by (simp add: quiet_def port_installed_def)

lemma ps2_init_irqs_effect:
  assumes "ps2_init_irqs hw entries s = Some s'"
  shows "ps2_is_ready s' \<and> port_installed entries IRQ_PS2_A Ps2_Port_A s'
    \<and> (ps2_is_dual s' \<longrightarrow> port_installed entries IRQ_PS2_B Ps2_Port_B s')
    \<and> dkbd s' = dkbd s \<and> ps2_device_handlers s' = ps2_device_handlers s
    \<and> ps2_port_ids s' = ps2_port_ids s
    \<and> (\<forall>n h. n \<noteq> IRQ_PS2_A \<longrightarrow> n \<noteq> IRQ_PS2_B \<longrightarrow> port_installed entries n h s \<longrightarrow> port_installed entries n h s')"
proof -
  from assms obtain conf s1 s2 s6 s7 s8 where
    1: "on_hw (ps2_config_read hw) s = Some (conf, s1)"
    and 2: "run_hw (ps2_config_write hw (if ps2_is_dual s1 then conf OR PS2_CONF_PORT_A_INT OR PS2_CONF_PORT_B_INT
              else conf OR PS2_CONF_PORT_A_INT)) s1 = Some s2"
    and 3: "dprintf (LOG_OK @ bytes ''PS/2 driver ready      '' @ [0x0A]) []
        ((let s3 = ps2_install hw entries IRQ_PS2_A Ps2_Port_A s2
          in if ps2_is_dual s3 then ps2_install hw entries IRQ_PS2_B Ps2_Port_B s3 else s3)\<lparr>ps2_is_ready := True\<rparr>) = Some s6"
    and 4: "dprintf (LOG_INDENT @ bytes ''first dev: 0x%04X'') [Word (ucast (ps2_port_ids s6 PS2_FIRST))] s6 = Some s7"
    and 5: "(if ps2_is_dual s7 then dprintf (bytes '', second dev: 0x%04X'') [Word (ucast (ps2_port_ids s7 PS2_SECOND))] s7
           else Some s7) = Some s8"
    and 6: "dprintf [0x0A] [] s8 = Some s'"
    unfolding ps2_init_irqs_def Let_def bind_eq_Some_conv split_paired_Ex prod.case or.assoc by blast
  let ?s3 = "ps2_install hw entries IRQ_PS2_A Ps2_Port_A s2"
  define s4 where "s4 = (if ps2_is_dual ?s3 then ps2_install hw entries IRQ_PS2_B Ps2_Port_B ?s3 else ?s3)"
  define s5 where "s5 = s4\<lparr>ps2_is_ready := True\<rparr>"
  have a: "port_installed entries IRQ_PS2_A Ps2_Port_A s5" "ps2_is_dual s5 \<Longrightarrow> port_installed entries IRQ_PS2_B Ps2_Port_B s5"
    "ps2_is_ready s5" "dkbd s5 = dkbd s2" "ps2_device_handlers s5 = ps2_device_handlers s2" "ps2_port_ids s5 = ps2_port_ids s2"
    using install_facts(1) [of entries IRQ_PS2_B Ps2_Port_B hw ?s3] install_facts(1) [of entries IRQ_PS2_A Ps2_Port_A hw s2]
      install_facts(2) [of IRQ_PS2_B IRQ_PS2_A entries Ps2_Port_A ?s3 hw Ps2_Port_B]
    by (auto simp: s5_def s4_def port_installed_def ps2_install_def)
  have keep: "port_installed entries n h s5" if "n \<noteq> IRQ_PS2_A" "n \<noteq> IRQ_PS2_B" "port_installed entries n h s2" for n h
    using that install_facts(2) [of IRQ_PS2_A n entries h s2 hw Ps2_Port_A] install_facts(2) [of IRQ_PS2_B n entries h ?s3 hw Ps2_Port_B]
    by (auto simp: s5_def s4_def port_installed_def)
  have s5: "dprintf (LOG_OK @ bytes ''PS/2 driver ready      '' @ [0x0A]) [] s5 = Some s6"
    using 3 by (simp add: s5_def s4_def Let_def)
  have q: "quiet s6 s7" "quiet s7 s8" "ps2_port_ids s8 = ps2_port_ids s7" "ps2_is_dual s8 = ps2_is_dual s7"
    using 4 5 by (auto split: if_splits dest: quiet_steps printed_same)
  have q5: "quiet s5 s'"
    using quiet_steps(1) [OF s5] q(1,2) quiet_steps(1) [OF 6] quiet_trans by blast
  have ids: "ps2_port_ids s' = ps2_port_ids s5" "ps2_is_dual s' = ps2_is_dual s5"
    using printed_same [OF s5] printed_same [OF 4] q(3,4) printed_same [OF 6] by simp_all
  have q2: "quiet s s2" using quiet_steps(2) [OF 1] quiet_steps(3) [OF 2] quiet_trans by blast
  then have "dkbd s2 = dkbd s" "ps2_device_handlers s2 = ps2_device_handlers s" by (simp_all add: quiet_def)
  moreover have "ps2_port_ids s2 = ps2_port_ids s" using 1 2 by (auto simp: on_hw_def run_hw_def)
  ultimately show ?thesis
    using a keep ids q5 [unfolded quiet_def] unfolding quiet_installed [OF q5] quiet_installed [OF q2] by auto
qed

text \<open>Either nothing is installed, or all of it.\<close>

definition started :: "(u8 \<Rightarrow> u32) \<Rightarrow> 'd drivers \<Rightarrow> 'd drivers \<Rightarrow> bool" where
  "started entries s s' \<longleftrightarrow> quiet s s' \<or> (ps2_is_ready s' \<and> port_installed entries IRQ_PS2_A Ps2_Port_A s'
     \<and> (ps2_is_dual s' \<longrightarrow> port_installed entries IRQ_PS2_B Ps2_Port_B s')
     \<and> dkbd s' = dkbd s \<and> ps2_device_handlers s' = ps2_device_handlers s
     \<and> (\<forall>n h. n \<noteq> IRQ_PS2_A \<longrightarrow> n \<noteq> IRQ_PS2_B \<longrightarrow> port_installed entries n h s \<longrightarrow> port_installed entries n h s'))"

lemma started_quiet: "quiet s s1 \<Longrightarrow> started entries s1 s' \<Longrightarrow> started entries s s'"
  unfolding started_def using quiet_installed [of s s1 entries] quiet_trans [of s s1 s']
  by (auto simp: quiet_def)

lemma ps2_init_port_b_effect:
  assumes "ps2_init_port_b hw entries s = Some s'"
  shows "started entries s s'"
proof -
  from assms obtain tb s1 where 1: "(if ps2_is_dual s then on_hw (ps2_command_read hw PS2_CMD_TEST_PORT_B) s else Some (0, s)) = Some (tb, s1)"
    and r: "(if tb \<noteq> 0 then
         dprintf (LOG_FAIL @ bytes ''PS/2 second port failed test, code: %d'' @ [0x0A]) [Word (ucast tb)] s1
       else Option.bind (ps2_init_identify hw s1) (ps2_init_irqs hw entries)) = Some s'"
    unfolding ps2_init_port_b_def bind_eq_Some_conv split_paired_Ex prod.case by blast
  have q: "quiet s s1" using 1 by (auto split: if_splits dest: quiet_steps)
  show ?thesis
  proof (cases "tb = 0")
    case False
    then show ?thesis using r q unfolding started_def by (auto dest: quiet_steps intro: quiet_trans)
  next
    case True
    with r obtain s2 where 2: "ps2_init_identify hw s1 = Some s2" "ps2_init_irqs hw entries s2 = Some s'"
      by (auto simp: bind_eq_Some_conv)
    have "started entries s2 s'" using ps2_init_irqs_effect [OF 2(2)] by (simp add: started_def)
    then show ?thesis using q quiet_identify [OF 2(1)] quiet_trans started_quiet by blast
  qed
qed

lemma ps2_init_port_a_effect:
  assumes "ps2_init_port_a hw entries s = Some s'"
  shows "started entries s s'"
proof -
  from assms obtain ta s1 where 1: "on_hw (ps2_command_read hw PS2_CMD_TEST_PORT_A) s = Some (ta, s1)"
    and r: "(if ta \<noteq> 0 then
         dprintf (LOG_FAIL @ bytes ''PS/2 first port failed test, code: %d'' @ [0x0A]) [Word (ucast ta)] s1
       else ps2_init_port_b hw entries s1) = Some s'"
    unfolding ps2_init_port_a_def bind_eq_Some_conv split_paired_Ex prod.case by blast
  have "started entries s1 s'"
    using r by (auto split: if_splits simp: started_def dest: quiet_steps dest!: ps2_init_port_b_effect)
  then show ?thesis using quiet_steps(2) [OF 1] started_quiet by blast
qed

lemma ps2_init_effect:
  assumes "ps2_init hw entries s = Some s'"
  shows "started entries s s'"
proof -
  from assms obtain s1 conf s2 pt s3 where
    1: "dprintf (LOG_EMPTY @ bytes ''PS/2 driver init...'' @ [0x0D]) [] s = Some s1"
    and 2: "ps2_init_config hw s1 = Some (conf, s2)" and 3: "on_hw (ps2_command_read hw PS2_CMD_TEST) s2 = Some (pt, s3)"
    and r: "(if pt \<noteq> 0x55 then
       dprintf (LOG_FAIL @ bytes ''PS/2 driver failed self test, code: %d'' @ [0x0A]) [Word (ucast pt)] s3
     else Option.bind (run_hw (ps2_config_write hw conf) s3) (\<lambda>s4. Option.bind (ps2_init_dual hw s4) (ps2_init_port_a hw entries))) = Some s'"
    unfolding ps2_init_def bind_eq_Some_conv split_paired_Ex prod.case by blast
  have q: "quiet s s3" using quiet_steps(1) [OF 1] quiet_config [OF 2] quiet_steps(2) [OF 3] quiet_trans by blast
  show ?thesis
  proof (cases "pt = 0x55")
    case False
    then show ?thesis using r q unfolding started_def by (auto dest: quiet_steps intro: quiet_trans)
  next
    case True
    with r obtain s4 s5 where "run_hw (ps2_config_write hw conf) s3 = Some s4" "ps2_init_dual hw s4 = Some s5"
      and 5: "ps2_init_port_a hw entries s5 = Some s'" by (auto simp: bind_eq_Some_conv)
    then have "quiet s s5" using q quiet_steps(3) quiet_dual quiet_trans by blast
    then show ?thesis using ps2_init_port_a_effect [OF 5] by (rule started_quiet)
  qed
qed

text \<open>The keyboard driver sets its handler only on a keyboard behind a driver that is ready.\<close>

definition same_ports :: "'d drivers \<Rightarrow> 'd drivers \<Rightarrow> bool" where
  "same_ports s s' \<longleftrightarrow> ps2_port_ids s' = ps2_port_ids s \<and> ps2_is_dual s' = ps2_is_dual s"

lemma still_steps:
  "dprintf fmt args s = Some s' \<Longrightarrow> quiet s s' \<and> same_ports s s'" "on_hw f s = Some (v, s') \<Longrightarrow> quiet s s' \<and> same_ports s s'"
  using quiet_steps(1,2) by (auto simp: same_ports_def on_hw_def dprintf_def quiet_def)

definition keyboard_on :: "'d drivers \<Rightarrow> 'd drivers \<Rightarrow> bool" where
  "keyboard_on s s' \<longleftrightarrow> dirqs s' = dirqs s \<and> ps2_is_ready s' = ps2_is_ready s \<and> same_ports s s'
     \<and> ps2_device_handlers s' = (ps2_device_handlers s)(PS2_FIRST \<mapsto> Keyboard_Handler)
     \<and> dkbd s' = keyboard_set_layout KEYBOARD_LAYOUT_FR (dkbd s)"

lemma keyboard_device_effect:
  assumes "keyboard_init_device hw s = Some s'"
  shows "(quiet s s' \<and> same_ports s s') \<or> keyboard_on s s'"
proof -
  from assms obtain a s1 where 1: "on_hw (ps2_device_command hw PS2_FIRST 0x02F0 True False) s = Some (a, s1)"
    and r: "(if a \<noteq> PS2_DEV_RES_ACK then
       dprintf (LOG_FAIL @ bytes ''Keyboard driver failed to set scancode set 2'' @ [0x0A]) [] s1
     else do {
       (b, s2) \<leftarrow> on_hw (ps2_device_command hw PS2_FIRST 0x00F0 True True) s1;
       if b \<noteq> 0x02 then
         dprintf (LOG_FAIL @ bytes ''Keyboard driver failed to set scancode set 2'' @ [0x0A]) [] s2
       else dprintf (LOG_OK @ bytes ''Keyboard driver ready       '' @ [0x0A]) []
           (ps2_device_set_handler PS2_FIRST Keyboard_Handler (s2\<lparr>dkbd := keyboard_set_layout KEYBOARD_LAYOUT_FR (dkbd s2)\<rparr>))
     }) = Some s'"
    unfolding keyboard_init_device_def Let_def bind_eq_Some_conv split_paired_Ex prod.case by blast
  note q1 = still_steps(2) [OF 1]
  show ?thesis
  proof (cases "a = PS2_DEV_RES_ACK")
    case False
    then show ?thesis using r q1 by (auto dest!: still_steps simp: quiet_def same_ports_def)
  next
    case True
    with r obtain b s2 where 2: "on_hw (ps2_device_command hw PS2_FIRST 0x00F0 True True) s1 = Some (b, s2)"
      and r: "(if b \<noteq> 0x02 then
         dprintf (LOG_FAIL @ bytes ''Keyboard driver failed to set scancode set 2'' @ [0x0A]) [] s2
       else dprintf (LOG_OK @ bytes ''Keyboard driver ready       '' @ [0x0A]) []
           (ps2_device_set_handler PS2_FIRST Keyboard_Handler (s2\<lparr>dkbd := keyboard_set_layout KEYBOARD_LAYOUT_FR (dkbd s2)\<rparr>))) = Some s'"
      by (auto simp: bind_eq_Some_conv)
    note q2 = still_steps(2) [OF 2]
    show ?thesis
    proof (cases "b = 2")
      case False
      then show ?thesis using r q1 q2 by (auto dest!: still_steps simp: quiet_def same_ports_def)
    next
      case True
      with r have "keyboard_on s2 s'"
        by (auto dest!: still_steps simp: quiet_def same_ports_def keyboard_on_def ps2_device_set_handler_def)
      then show ?thesis using q1 q2 by (simp add: quiet_def same_ports_def keyboard_on_def)
    qed
  qed
qed

lemma keyboard_init_effect:
  assumes "keyboard_init hw s = Some s'"
  shows "(quiet s s' \<and> same_ports s s')
    \<or> (ps2_is_ready s \<and> ps2_port_ids s PS2_FIRST = PS2_DEV_KEYBOARD_MF2 \<and> keyboard_on s s')"
proof -
  from assms obtain s1 where 1: "dprintf (LOG_EMPTY @ bytes ''Keyboard driver init...'' @ [0x0D]) [] s = Some s1"
    and r: "(if \<not> ps2_ready s1 then
       dprintf (LOG_FAIL @ bytes ''Keyboard driver failed because PS/2 driver has failed'' @ [0x0A]) [] s1
     else if ps2_device_id PS2_FIRST s1 \<noteq> PS2_DEV_KEYBOARD_MF2 then
       dprintf (LOG_FAIL @ bytes ''Keyboard driver failed because no PS/2 keyboard detected: %d'' @ [0x0A])
         [Word (ucast (ps2_device_id PS2_FIRST s1))] s1
     else keyboard_init_device hw s1) = Some s'"
    unfolding keyboard_init_def bind_eq_Some_conv by blast
  note q1 = still_steps(1) [OF 1]
  from r consider "quiet s1 s' \<and> same_ports s1 s'"
    | "ps2_ready s1" "ps2_device_id PS2_FIRST s1 = PS2_DEV_KEYBOARD_MF2" "keyboard_init_device hw s1 = Some s'"
    by (auto split: if_splits dest: still_steps)
  then show ?thesis
  proof cases
    case 1
    then show ?thesis using q1 by (simp add: quiet_def same_ports_def)
  next
    case 2
    from keyboard_device_effect [OF 2(3)] 2(1,2) q1 show ?thesis
      by (auto simp: quiet_def same_ports_def keyboard_on_def ps2_ready_def ps2_device_id_def)
  qed
qed

end
