(* ===== verification/Devices.thy ===== *)
theory Devices
  imports Ps2 Page
begin

text \<open>
  The other drivers: the set-up of the timer (\<^verbatim>\<open>peripheral/pit.c\<close>), the CMOS and the real-time clock
  (\<^verbatim>\<open>cmos.c\<close>, \<^verbatim>\<open>rtc.c\<close>), the serial line (\<^verbatim>\<open>serial.c\<close>), power (\<^verbatim>\<open>power.c\<close>), and the order in which
  \<open>kernel_start\<close> (\<^verbatim>\<open>start.c\<close>) starts them. The addresses of the assembly stubs are arguments.
\<close>

section \<open>Timer\<close>

abbreviation (input) PIT_CHAN0_DATA :: u16 where "PIT_CHAN0_DATA \<equiv> 0x0040"
abbreviation (input) PIT_CMD :: u16 where "PIT_CMD \<equiv> 0x0043"
abbreviation (input) PIT_CMD_FREQ :: u8 where "PIT_CMD_FREQ \<equiv> 0x34"

text \<open>\<open>PIT_INTERVAL\<close>: the quartz frequency divided by 50.\<close>

definition freq_value :: u16 where
  "freq_value = word_of_int (0x1234DD div 50)"

definition pit_set_frequency :: "'d hardware \<Rightarrow> 'd \<Rightarrow> 'd" where
  "pit_set_frequency hw d =
     (let d1 = outb hw PIT_CMD_FREQ PIT_CMD d;
          d2 = outb hw (ucast (freq_value AND 0xFF)) PIT_CHAN0_DATA d1
      in outb hw (ucast (drop_bit 8 freq_value AND 0xFF)) PIT_CHAN0_DATA d2)"

definition pit_init :: "'d hardware \<Rightarrow> (u8 \<Rightarrow> u32) \<Rightarrow> 'd drivers \<Rightarrow> 'd drivers option" where
  "pit_init hw entries s = do {
     s1 \<leftarrow> dprintf (LOG_EMPTY @ bytes ''PIT init...'' @ [0x0D]) [] s;
     let s2 = s1\<lparr>hw_state := pit_set_frequency hw (hw_state s1)\<rparr>;
     dprintf (LOG_OK @ bytes ''PIT ready     '' @ [0x0A]) [] (ps2_install hw entries IRQ_PIT Pit_Interrupt s2)
   }"

section \<open>CMOS\<close>

abbreviation (input) CMOS_CMD :: u16 where "CMOS_CMD \<equiv> 0x0070"
abbreviation (input) CMOS_DATA :: u16 where "CMOS_DATA \<equiv> 0x0071"

definition cmos_nmi_enable :: "'d hardware \<Rightarrow> 'd \<Rightarrow> 'd" where
  "cmos_nmi_enable hw d =
     (let (v, d1) = inb hw CMOS_CMD d in snd (inb hw CMOS_DATA (outb hw (v AND 0x7F) CMOS_CMD d1)))"

definition cmos_nmi_disable :: "'d hardware \<Rightarrow> 'd \<Rightarrow> 'd" where
  "cmos_nmi_disable hw d =
     (let (v, d1) = inb hw CMOS_CMD d in snd (inb hw CMOS_DATA (outb hw (v OR 0x80) CMOS_CMD d1)))"

definition nmi_bit :: "bool \<Rightarrow> u8" where
  "nmi_bit mask_nmi = push_bit 7 (of_bool mask_nmi)"

definition get_cmos_reg :: "'d hardware \<Rightarrow> u8 \<Rightarrow> bool \<Rightarrow> 'd \<Rightarrow> u8 \<times> 'd" where
  "get_cmos_reg hw reg_num mask_nmi d = inb hw CMOS_DATA (outb hw (nmi_bit mask_nmi OR reg_num) CMOS_CMD d)"

definition bcd_value :: "u8 \<Rightarrow> u8" where
  "bcd_value v = drop_bit 4 (v AND 0xF0) * 10 + (v AND 0x0F)"

definition get_cmos_reg_bcd :: "'d hardware \<Rightarrow> u8 \<Rightarrow> bool \<Rightarrow> 'd \<Rightarrow> u8 \<times> 'd" where
  "get_cmos_reg_bcd hw reg_num mask_nmi d = apfst bcd_value (get_cmos_reg hw reg_num mask_nmi d)"

definition set_cmos_reg :: "'d hardware \<Rightarrow> u8 \<Rightarrow> u8 \<Rightarrow> bool \<Rightarrow> 'd \<Rightarrow> 'd" where
  "set_cmos_reg hw reg_num data mask_nmi d =
     outb hw data CMOS_DATA (outb hw (nmi_bit mask_nmi OR reg_num) CMOS_CMD d)"

section \<open>Real-time clock\<close>

abbreviation (input) CMOS_REG_SECONDS :: u8 where "CMOS_REG_SECONDS \<equiv> 0x00"
abbreviation (input) CMOS_REG_MINUTES :: u8 where "CMOS_REG_MINUTES \<equiv> 0x02"
abbreviation (input) CMOS_REG_HOURS :: u8 where "CMOS_REG_HOURS \<equiv> 0x04"
abbreviation (input) CMOS_REG_DAY_IN_MONTH :: u8 where "CMOS_REG_DAY_IN_MONTH \<equiv> 0x07"
abbreviation (input) CMOS_REG_MONTH :: u8 where "CMOS_REG_MONTH \<equiv> 0x08"
abbreviation (input) CMOS_REG_STATUS_A :: u8 where "CMOS_REG_STATUS_A \<equiv> 0x0A"
abbreviation (input) CMOS_REG_STATUS_B :: u8 where "CMOS_REG_STATUS_B \<equiv> 0x0B"
abbreviation (input) CMOS_REG_STATUS_C :: u8 where "CMOS_REG_STATUS_C \<equiv> 0x0C"

record rtc =
  seconds :: u8
  minutes :: u8
  hours :: u8
  day :: u8
  month :: u8

definition time_update :: "'d hardware \<Rightarrow> rtc \<Rightarrow> 'd \<Rightarrow> rtc \<times> 'd" where
  "time_update hw r d =
     (let (v1, d1) = get_cmos_reg_bcd hw CMOS_REG_SECONDS False d;
          (v2, d2) = get_cmos_reg_bcd hw CMOS_REG_MINUTES False d1;
          (v3, d3) = get_cmos_reg_bcd hw CMOS_REG_HOURS False d2;
          (v4, d4) = get_cmos_reg_bcd hw CMOS_REG_DAY_IN_MONTH False d3;
          (v5, d5) = get_cmos_reg_bcd hw CMOS_REG_MONTH False d4
      in (r\<lparr>seconds := v1, minutes := v2, hours := v3, day := v4, month := v5 - 1\<rparr>, d5))"

definition rtc_set_frequency :: "'d hardware \<Rightarrow> 'd \<Rightarrow> 'd" where
  "rtc_set_frequency hw d =
     (let (v, d1) = get_cmos_reg hw CMOS_REG_STATUS_A True d
      in set_cmos_reg hw CMOS_REG_STATUS_A ((v AND 0xF0) OR 0x0F) True d1)"

definition rtc_enable_interrupt :: "'d hardware \<Rightarrow> 'd \<Rightarrow> 'd" where
  "rtc_enable_interrupt hw d =
     (let (v, d1) = get_cmos_reg hw CMOS_REG_STATUS_B True d
      in set_cmos_reg hw CMOS_REG_STATUS_B (v OR 0x40) True d1)"

definition rtc_interrupt_handler :: "'d hardware \<Rightarrow> rtc \<Rightarrow> 'd \<Rightarrow> rtc \<times> 'd" where
  "rtc_interrupt_handler hw r d =
     (let d1 = snd (get_cmos_reg hw CMOS_REG_STATUS_C False d);
          (r1, d2) = time_update hw r d1
      in (r1, irq_eoi hw IRQ_RTC d2))"

text \<open>\<open>rtc_init\<close> starts with a call of \<open>panic\<close>, so nothing of what follows there runs: this is its output.\<close>

definition rtc_init :: "u8 list \<Rightarrow> u8 list \<Rightarrow> u8 list list option" where
  "rtc_init garbage1 garbage2 = panic garbage1 garbage2 (bytes ''code to update'') []"

section \<open>Serial line\<close>

abbreviation (input) COM1 :: u16 where "COM1 \<equiv> 0x3f8"

text \<open>The flag is the static variable \<open>done\<close>.\<close>

definition init_serial :: "'d hardware \<Rightarrow> bool \<times> 'd \<Rightarrow> bool \<times> 'd" where
  "init_serial hw s = (case s of (init, d) \<Rightarrow>
     if init then (init, d)
     else
       let d1 = outb hw 0x0f (COM1 + 4) d;
           d2 = outb hw 0 (COM1 + 1) d1;
           d3 = outb hw 0x83 (COM1 + 3) d2;
           d4 = outb hw 1 COM1 d3;
           d5 = outb hw 0 (COM1 + 1) d4
       in (True, outb hw 0x03 (COM1 + 3) d5))"

partial_function (option) com1_write_wait :: "'d hardware \<Rightarrow> 'd \<Rightarrow> 'd option" where
  "com1_write_wait hw d =
     (let (v, d1) = inb hw (COM1 + 5) d in if v AND 0x20 = 0 then com1_write_wait hw d1 else Some d1)"

definition write_com1 :: "'d hardware \<Rightarrow> u32 \<Rightarrow> bool \<times> 'd \<Rightarrow> (bool \<times> 'd) option" where
  "write_com1 hw c s = (case init_serial hw s of (init, d) \<Rightarrow>
     map_option (\<lambda>d1. (init, outb hw (ucast c) COM1 d1)) (com1_write_wait hw d))"

partial_function (option) com1_read_wait :: "'d hardware \<Rightarrow> 'd \<Rightarrow> 'd option" where
  "com1_read_wait hw d =
     (let (c, d1) = inb hw (COM1 + 5) d
      in if c AND 0x1e \<noteq> 0 \<or> c AND 1 = 0 then com1_read_wait hw d1 else Some d1)"

definition read_com1 :: "'d hardware \<Rightarrow> bool \<times> 'd \<Rightarrow> (u32 \<times> bool \<times> 'd) option" where
  "read_com1 hw s = (case init_serial hw s of (init, d) \<Rightarrow>
     map_option (\<lambda>d1. case inb hw COM1 d1 of (c, d2) \<Rightarrow> (ucast c, init, d2)) (com1_read_wait hw d))"

section \<open>Power\<close>

definition power_off :: "'d hardware \<Rightarrow> 'd \<Rightarrow> 'd" where
  "power_off hw d = outw hw 0x2000 0x604 d"

section \<open>Start of the kernel\<close>

abbreviation (input) SYSCALL_INTERRUPT :: u8 where "SYSCALL_INTERRUPT \<equiv> 49"
abbreviation (input) SYSCALL_COUNT :: u32 where "SYSCALL_COUNT \<equiv> 24"

definition syscall_init :: "u32 \<Rightarrow> 'd drivers \<Rightarrow> 'd drivers option" where
  "syscall_init handler_entry s = do {
     s1 \<leftarrow> dprintf (LOG_EMPTY @ bytes ''System calls init...'' @ [0x0D]) [] s;
     let s2 = s1\<lparr>dirqs := (dirqs s1)\<lparr>idt_memory :=
       idt_interrupt_gate SYSCALL_INTERRUPT handler_entry 3 (idt_memory (dirqs s1))\<rparr>\<rparr>;
     dprintf (LOG_OK @ bytes ''System calls ready: %d syscalls'' @ [0x0A]) [Word SYSCALL_COUNT] s2
   }"

definition cons_start :: "'d drivers \<Rightarrow> 'd drivers" where
  "cons_start s = s\<lparr>dkbd := keyboard_set_char_handler (keyboard_set_key_handler (dkbd s))\<rparr>"

text \<open>\<open>page_init\<close> with its messages.\<close>

definition page_init_logged :: "pages \<Rightarrow> 'd drivers \<Rightarrow> (pages \<times> 'd drivers) option" where
  "page_init_logged h s = do {
     s1 \<leftarrow> dprintf (LOG_EMPTY @ bytes ''Page allocator init...'' @ [0x0D]) [] s;
     let h1 = page_init h;
     s2 \<leftarrow> dprintf (LOG_OK @ bytes ''Page allocator ready          '' @ [0x0A]) [] s1;
     s3 \<leftarrow> dprintf (LOG_INDENT @ bytes ''heap: %d Mio, pages: %d, meta pages: %d'' @ [0x0A])
       [Word (of_nat (heap_size h1) div 1048576), Word (of_nat (page_count h1)), Word (of_nat (meta_page_count h1))] s2;
     Some (h1, s3)
   }"

text \<open>All of \<open>kernel_start\<close> before the idle process is created.\<close>

definition kernel_start :: "'d hardware \<Rightarrow> (u8 \<Rightarrow> u32) \<Rightarrow> u32 \<Rightarrow> pages \<Rightarrow> 'd drivers \<Rightarrow> (pages \<times> 'd drivers) option" where
  "kernel_start hw entries syscall_entry h s = do {
     s1 \<leftarrow> dprintf [0x0C] [] s;
     (h1, s2) \<leftarrow> page_init_logged h s1;
     s3 \<leftarrow> pit_init hw entries s2;
     s4 \<leftarrow> ps2_init hw entries s3;
     s5 \<leftarrow> keyboard_init hw s4;
     s6 \<leftarrow> syscall_init syscall_entry s5;
     s7 \<leftarrow> dprintf (LOG_OK @ bytes ''Kernel ready'' @ [0x0A, 0x0A]) [] s6;
     Some (h1, cons_start s7)
   }"

end
