(* ===== verification/Driver_Sample.thy ===== *)
theory Driver_Sample
  imports Ps2_Facts Devices Formatting_Facts
begin

text \<open>
  A machine with one PS/2 port and a keyboard on it, simulated down to the port instructions, and the run
  of \<open>kernel_start\<close> on it.
\<close>

section \<open>The machine\<close>

record kb_sim =
  out_queue :: "u8 list"
  conf_next :: bool
  conf_byte :: u8

definition kb_answer :: "u8 \<Rightarrow> u8 list" where
  "kb_answer v = (if v = 0xF2 then [0xFA, 0xAB, 0x83] else if v = 0x00 then [0xFA, 0x02] else [0xFA])"

definition kb_command :: "u8 \<Rightarrow> kb_sim \<Rightarrow> kb_sim" where
  "kb_command v d =
     (if v = 0x20 then d\<lparr>out_queue := [conf_byte d]\<rparr> else if v = 0xAA then d\<lparr>out_queue := [0x55]\<rparr>
      else if v = 0xAB then d\<lparr>out_queue := [0]\<rparr> else if v = 0x60 then d\<lparr>conf_next := True\<rparr> else d)"

definition kb_data :: "u8 \<Rightarrow> kb_sim \<Rightarrow> kb_sim" where
  "kb_data v d = (if conf_next d then d\<lparr>conf_byte := v, conf_next := False\<rparr> else d\<lparr>out_queue := kb_answer v\<rparr>)"

definition kb_hw :: "kb_sim hardware" where
  "kb_hw = \<lparr>read_byte = (\<lambda>port d.
       if port = 0x64 then (if out_queue d \<noteq> [] then 1 else 0, d)
       else if port = 0x60 \<and> out_queue d \<noteq> [] then (hd (out_queue d), d\<lparr>out_queue := tl (out_queue d)\<rparr>)
       else (0, d)),
     write_byte = (\<lambda>v port d. if port = 0x64 then kb_command v d else if port = 0x60 then kb_data v d else d),
     write_word = (\<lambda>v port d. d)\<rparr>"

lemma kb_ports [simp]:
  "inb kb_hw 0x64 d = (if out_queue d \<noteq> [] then 1 else 0, d)"
  "out_queue d = x # xs \<Longrightarrow> inb kb_hw 0x60 d = (x, d\<lparr>out_queue := xs\<rparr>)"
  "inb kb_hw 0x21 d = (0, d)" "outb kb_hw v 0x64 d = kb_command v d" "outb kb_hw v 0x60 d = kb_data v d"
  "outb kb_hw v 0x21 d = d" "outb kb_hw v 0x43 d = d" "outb kb_hw v 0x40 d = d"
  by (simp_all add: inb_def outb_def kb_hw_def)

lemma kb_ready: "ps2_read_ready kb_hw d = (out_queue d \<noteq> [], d)" "ps2_write_ready kb_hw d = (True, d)"
  by (simp_all add: ps2_read_ready_def ps2_write_ready_def ps2_status_def)

lemma kb_wait:
  "out_queue d = x # xs \<Longrightarrow> ps2_read_wait kb_hw d = Some (x, d\<lparr>out_queue := xs\<rparr>)"
  "ps2_write_wait kb_hw v d = Some (kb_data v d)"
  by (subst ps2_read_wait.simps, simp add: kb_ready ps2_read_unchecked_def,
      subst ps2_write_wait.simps, simp add: kb_ready ps2_write_unchecked_def)

lemma kb_config:
  "ps2_config_read kb_hw d = Some (conf_byte d, d\<lparr>out_queue := []\<rparr>)"
  "ps2_config_write kb_hw v d = Some (d\<lparr>conf_byte := v, conf_next := False\<rparr>)"
  by (simp_all add: ps2_config_read_def ps2_config_write_def ps2_command_read_def ps2_command_write_def
      ps2_command_def kb_command_def kb_wait kb_data_def)

lemma kb_send:
  assumes "\<not> conf_next d"
  shows "ps2_send_loop kb_hw PS2_FIRST c False d = (case kb_answer (ucast (c AND 0xFF)) of
      x # xs \<Rightarrow> Some (x, d\<lparr>out_queue := xs\<rparr>))"
    "ps2_send_loop kb_hw PS2_FIRST c True d = (case kb_answer (ucast (drop_bit 8 c AND 0xFF)) of
      x # xs \<Rightarrow> Some (x, d\<lparr>out_queue := xs\<rparr>))"
  using assms
  by (subst ps2_send_loop.simps, simp add: ps2_device_command_raw_def kb_wait kb_data_def kb_answer_def)+

lemma identity_loop_rec:
  "ps2_identity_loop hw n shift ident d =
     (if n = 0 then (ident, d)
      else if shift < 16 then
        let (ready, d1) = ps2_read_ready hw d
        in if ready then
             let (data, d2) = ps2_read_unchecked hw d1
             in ps2_identity_loop hw (n - 1) (shift + 8) (ident OR push_bit shift (ucast data)) d2
           else ps2_identity_loop hw (n - 1) shift ident d1
      else (ident, d))"
  by (cases n, simp, hypsubst) (simp split: prod.split)

lemma kb_identity:
  assumes "out_queue d = [x, y]"
  shows "ps2_identity_loop kb_hw 1000 0 0 d = (ucast x OR push_bit 8 (ucast y), d\<lparr>out_queue := []\<rparr>)"
proof -
  let ?d = "d\<lparr>out_queue := [y]\<rparr>"
  have "ps2_identity_loop kb_hw 1000 0 0 d = ps2_identity_loop kb_hw 999 8 (ucast x) ?d"
    using assms by (subst identity_loop_rec) (simp add: kb_ready ps2_read_unchecked_def)
  also have "\<dots> = ps2_identity_loop kb_hw 998 16 (ucast x OR push_bit 8 (ucast y)) (d\<lparr>out_queue := []\<rparr>)"
    by (subst identity_loop_rec) (simp add: kb_ready ps2_read_unchecked_def)
  also have "\<dots> = (ucast x OR push_bit 8 (ucast y), d\<lparr>out_queue := []\<rparr>)"
    by (subst identity_loop_rec) simp
  finally show ?thesis .
qed

lemma kb_identify:
  "\<not> conf_next d \<Longrightarrow> ps2_device_identify kb_hw PS2_FIRST d = Some (0x83AB, d\<lparr>out_queue := []\<rparr>)"
  by (simp add: ps2_device_identify_def ps2_device_command_def kb_send kb_answer_def kb_identity)

section \<open>Messages\<close>

lemma doprnt_next:
  "c \<noteq> 0x25 \<Longrightarrow> doprnt (c # fmt) args = map_option ((#) c) (doprnt fmt args)"
  "doprnt (0x25 # 0x64 # fmt) (Word w # args) = map_option (append (decimal w)) (doprnt fmt args)"
proof -
  have "convert (0x64 # fmt) (Word w # args) = map_option (\<lambda>out. (out, fmt, args)) (print_signed no_flags w 10)"
    by (simp add: convert_def no_flags_def parse_padc_def parse_length_def parse_prec_def parse_long_def starts_def
        isdigit_def convert_char_def with_word_def int_arg_def option.map_comp comp_def)
  then have "convert (0x64 # fmt) (Word w # args) = Some (decimal w, fmt, args)" by (simp add: print_signed_decimal)
  then show "doprnt (0x25 # 0x64 # fmt) (Word w # args) = map_option (append (decimal w)) (doprnt fmt args)" by simp
qed simp

lemma doprnt_plain: "0x25 \<notin> set fmt \<Longrightarrow> doprnt (fmt @ rest) args = map_option (append fmt) (doprnt rest args)"
  by (cases "doprnt rest args"; induction fmt) (auto simp: doprnt_next(1) simp del: doprnt.simps)

definition shown :: "u8 list \<Rightarrow> fmt_arg list \<Rightarrow> 'd drivers \<Rightarrow> 'd drivers" where
  "shown fmt args s = s\<lparr>dcons := the (console_printf fmt args (dcons s))\<rparr>"

lemma dprintf_shown: "doprnt fmt args \<noteq> None \<Longrightarrow> dprintf fmt args s = Some (shown fmt args s)"
  by (auto simp: dprintf_def shown_def console_printf_def printf_def vprintf_def)

section \<open>The start\<close>

lemma shown_fields [simp]:
  "hw_state (shown fmt args s) = hw_state s" "dirqs (shown fmt args s) = dirqs s" "dkbd (shown fmt args s) = dkbd s"
  "ps2_is_ready (shown fmt args s) = ps2_is_ready s" "ps2_is_dual (shown fmt args s) = ps2_is_dual s"
  "ps2_port_ids (shown fmt args s) = ps2_port_ids s" "ps2_device_handlers (shown fmt args s) = ps2_device_handlers s"
  by (simp_all add: shown_def)

text \<open>The formats that the start prints on this machine are well formed.\<close>

lemma plain_messages [simp]:
  "doprnt [0x0C] [] \<noteq> None" "doprnt [0x0A] [] \<noteq> None"
  "doprnt (LOG_EMPTY @ bytes ''Page allocator init...'' @ [0x0D]) [] \<noteq> None"
  "doprnt (LOG_OK @ bytes ''Page allocator ready          '' @ [0x0A]) [] \<noteq> None"
  "doprnt (LOG_EMPTY @ bytes ''PIT init...'' @ [0x0D]) [] \<noteq> None"
  "doprnt (LOG_OK @ bytes ''PIT ready     '' @ [0x0A]) [] \<noteq> None"
  "doprnt (LOG_EMPTY @ bytes ''PS/2 driver init...'' @ [0x0D]) [] \<noteq> None"
  "doprnt (LOG_OK @ bytes ''PS/2 driver ready      '' @ [0x0A]) [] \<noteq> None"
  "doprnt (LOG_EMPTY @ bytes ''Keyboard driver init...'' @ [0x0D]) [] \<noteq> None"
  "doprnt (LOG_OK @ bytes ''Keyboard driver ready       '' @ [0x0A]) [] \<noteq> None"
  "doprnt (LOG_EMPTY @ bytes ''System calls init...'' @ [0x0D]) [] \<noteq> None"
  "doprnt (LOG_OK @ bytes ''Kernel ready'' @ [0x0A, 0x0A]) [] \<noteq> None"
  by code_simp+

lemma number_messages [simp]:
  "doprnt (LOG_OK @ bytes ''System calls ready: %d syscalls'' @ [0x0A]) [Word w] \<noteq> None"
  "doprnt (LOG_INDENT @ bytes ''first dev: 0x%04X'') [Word w] \<noteq> None"
proof -
  let ?p = "LOG_OK @ bytes ''System calls ready: ''" and ?q = "bytes '' syscalls'' @ [0x0A]"
  have e: "LOG_OK @ bytes ''System calls ready: %d syscalls'' @ [0x0A] = ?p @ 0x25 # 0x64 # ?q @ []" by code_simp
  have p: "0x25 \<notin> set ?p" and q: "0x25 \<notin> set ?q" by code_simp+
  show "doprnt (LOG_OK @ bytes ''System calls ready: %d syscalls'' @ [0x0A]) [Word w] \<noteq> None"
    unfolding e doprnt_plain [OF p] doprnt_next(2) doprnt_plain [OF q] by simp
  let ?r = "LOG_INDENT @ bytes ''first dev: 0x''"
  have f: "LOG_INDENT @ bytes ''first dev: 0x%04X'' = ?r @ [0x25, 0x30, 0x34, 0x58]" by code_simp
  have c: "convert [0x30, 0x34, 0x58] [Word w] = map_option (\<lambda>out. (out, [], []))
      (print_unsigned (no_flags\<lparr>padc := 0x30, field_width := 4\<rparr>) w 16)"
    by (simp add: convert_def no_flags_def parse_padc_def parse_length_def parse_prec_def parse_long_def starts_def
        isdigit_def Ctod_def convert_char_def with_word_def int_arg_def option.map_comp comp_def)
  have "print_unsigned fl w 16 \<noteq> None" for fl
    by (simp add: print_unsigned_def print_num_def printnum_digits good_base_def Let_def)
  then obtain out where "print_unsigned (no_flags\<lparr>padc := 0x30, field_width := 4\<rparr>) w 16 = Some out" by blast
  then have d: "doprnt [0x25, 0x30, 0x34, 0x58] [Word w] \<noteq> None" by (simp add: c)
  have r: "0x25 \<notin> set ?r" by code_simp
  from d show "doprnt (LOG_INDENT @ bytes ''first dev: 0x%04X'') [Word w] \<noteq> None"
    unfolding f doprnt_plain [OF r] by (simp only: option.map_disc_iff not_False_eq_True)
qed

lemma page_message [simp]:
  "doprnt (LOG_INDENT @ bytes ''heap: %d Mio, pages: %d, meta pages: %d'' @ [0x0A]) [Word a, Word b, Word c] \<noteq> None"
proof -
  let ?p = "LOG_INDENT @ bytes ''heap: ''" and ?q = "bytes '' Mio, pages: ''" and ?r = "bytes '', meta pages: ''"
  have e: "LOG_INDENT @ bytes ''heap: %d Mio, pages: %d, meta pages: %d'' @ [0x0A]
      = ?p @ 0x25 # 0x64 # ?q @ 0x25 # 0x64 # ?r @ 0x25 # 0x64 # [0x0A]" by code_simp
  have "0x25 \<notin> set ?p" "0x25 \<notin> set ?q" "0x25 \<notin> set ?r" by code_simp+
  then show ?thesis unfolding e by (simp add: doprnt_plain doprnt_next del: doprnt.simps) (simp add: doprnt_next)
qed

definition kb_start :: "kb_sim drivers" where
  "kb_start = \<lparr>hw_state = \<lparr>out_queue = [], conf_next = False, conf_byte = 0\<rparr>,
     dcons = console_zero \<lparr>cells = (\<lambda>_. 0), cursor_line = 0, cursor_column = 0, cga_ports = []\<rparr>,
     dirqs = \<lparr>idt_memory = (\<lambda>_. 0), irq_handlers = (\<lambda>_. None)\<rparr>, dkbd = keyboard_zero,
     ps2_is_ready = False, ps2_is_dual = True, ps2_port_ids = (\<lambda>_. 0xFFFF), ps2_device_handlers = (\<lambda>_. None)\<rparr>"

lemma kb_mask: "irq_mask kb_hw n masked d = d" if "n < 8"
  using that by (subst irq_mask.simps) (simp add: Let_def)

lemma kb_pit: "\<exists>s'. pit_init kb_hw entries s = Some s' \<and> hw_state s' = hw_state s \<and> ps2_is_ready s' = ps2_is_ready s
    \<and> ps2_device_handlers s' = ps2_device_handlers s \<and> dkbd s' = dkbd s \<and> same_ports s s'"
  by (simp add: pit_init_def Let_def dprintf_shown ps2_install_def kb_mask pit_set_frequency_def same_ports_def)

text \<open>The PS/2 driver finds one port, with a keyboard.\<close>

lemma kb_ps2:
  assumes s: "hw_state s = \<lparr>out_queue = [], conf_next = False, conf_byte = 0\<rparr>"
  shows "\<exists>s'. ps2_init kb_hw entries s = Some s' \<and> ps2_is_ready s' \<and> ps2_port_ids s' PS2_FIRST = 0x83AB
    \<and> \<not> conf_next (hw_state s')"
proof -
  let ?s1 = "shown (LOG_EMPTY @ bytes ''PS/2 driver init...'' @ [0x0D]) [] s"
  let ?h = "\<lparr>out_queue = [], conf_next = False, conf_byte = 0\<rparr>"
  have 2: "ps2_init_config kb_hw ?s1 = Some (0, ?s1\<lparr>hw_state := ?h, ps2_is_dual := False\<rparr>)"
    using s by (simp add: ps2_init_config_def Let_def ps2_command_def kb_command_def kb_ready kb_config run_hw_def)
  let ?s2 = "?s1\<lparr>hw_state := ?h, ps2_is_dual := False\<rparr>"
  have 3: "on_hw (ps2_command_read kb_hw PS2_CMD_TEST) ?s2 = Some (0x55, ?s2)"
    "on_hw (ps2_command_read kb_hw PS2_CMD_TEST_PORT_A) ?s2 = Some (0, ?s2)"
    by (simp_all add: on_hw_def ps2_command_read_def ps2_command_def kb_command_def kb_wait)
  have 4: "run_hw (ps2_config_write kb_hw 0) ?s2 = Some ?s2" "ps2_init_dual kb_hw ?s2 = Some ?s2"
    by (simp_all add: run_hw_def kb_config ps2_init_dual_def)
  let ?s5 = "?s2\<lparr>ps2_port_ids := (ps2_port_ids s)(PS2_FIRST := 0x83AB)\<rparr>"
  have 5: "ps2_init_identify kb_hw ?s2 = Some ?s5"
    by (simp add: ps2_init_identify_def Let_def ps2_command_def kb_command_def on_hw_def kb_identify)
  have 6: "\<exists>s'. ps2_init_irqs kb_hw entries ?s5 = Some s' \<and> ps2_is_ready s' \<and> ps2_port_ids s' PS2_FIRST = 0x83AB
      \<and> \<not> conf_next (hw_state s')"
    by (simp add: ps2_init_irqs_def Let_def on_hw_def run_hw_def kb_config ps2_install_def dprintf_shown kb_mask)
  have "ps2_init kb_hw entries s = ps2_init_irqs kb_hw entries ?s5"
    by (simp add: ps2_init_def ps2_init_port_a_def ps2_init_port_b_def dprintf_shown 2 3 4 5)
  with 6 show ?thesis by simp
qed

lemma kb_keyboard:
  assumes "ps2_is_ready s" "ps2_port_ids s PS2_FIRST = 0x83AB" "\<not> conf_next (hw_state s)"
  shows "\<exists>s'. keyboard_init kb_hw s = Some s' \<and> ps2_device_handlers s' PS2_FIRST = Some Keyboard_Handler"
  using assms
  by (simp add: keyboard_init_def keyboard_init_device_def dprintf_shown ps2_ready_def ps2_device_id_def on_hw_def
      ps2_device_command_def kb_send kb_answer_def kb_wait Let_def ps2_device_set_handler_def)

lemma kb_start_runs:
  "\<exists>h' s'. kernel_start kb_hw entries sc h kb_start = Some (h', s') \<and> ps2_device_handlers s' PS2_FIRST = Some Keyboard_Handler"
proof -
  have a: "\<exists>h' s'. page_init_logged h s = Some (h', s') \<and> hw_state s' = hw_state s" for s :: "kb_sim drivers"
    by (simp add: page_init_logged_def Let_def dprintf_shown)
  have b: "\<exists>s'. syscall_init sc s = Some s' \<and> ps2_device_handlers s' = ps2_device_handlers s" for s :: "kb_sim drivers"
    by (simp add: syscall_init_def Let_def dprintf_shown)
  let ?s1 = "shown [0x0C] [] kb_start"
  obtain h' s2 where 2: "page_init_logged h ?s1 = Some (h', s2)" "hw_state s2 = hw_state kb_start" using a [of ?s1] by auto
  obtain s3 where 3: "pit_init kb_hw entries s2 = Some s3" "hw_state s3 = hw_state s2" using kb_pit by blast
  have "hw_state s3 = \<lparr>out_queue = [], conf_next = False, conf_byte = 0\<rparr>" using 2(2) 3(2) by (simp add: kb_start_def)
  from kb_ps2 [OF this] obtain s4 where
    4: "ps2_init kb_hw entries s3 = Some s4" "ps2_is_ready s4" "ps2_port_ids s4 PS2_FIRST = 0x83AB" "\<not> conf_next (hw_state s4)"
    by blast
  from kb_keyboard [OF 4(2-4)] obtain s5 where
    5: "keyboard_init kb_hw s4 = Some s5" "ps2_device_handlers s5 PS2_FIRST = Some Keyboard_Handler" by blast
  obtain s6 where 6: "syscall_init sc s5 = Some s6" "ps2_device_handlers s6 = ps2_device_handlers s5" using b by blast
  show ?thesis
    using 5(2) 6(2) by (simp add: kernel_start_def dprintf_shown 2(1) 3(1) 4(1) 5(1) 6(1) cons_start_def)
qed

end
