(* ===== verification/Descriptors.thy ===== *)
theory Descriptors
  imports Interrupts
begin

text \<open>
  The tables of the processor that \<^verbatim>\<open>boot/processor_structs.c\<close> fills at boot: segment descriptors, task
  gates for the exceptions with one task state per exception, the interrupt controllers, and the write
  protection of the read-only pages. The addresses that the linker chooses and the stubs written in
  assembly are arguments. A table is a function from the number of the entry.
\<close>

section \<open>Entries\<close>

type_synonym u64 = "64 word"

abbreviation (input) SZ_32 :: u32 where "SZ_32 \<equiv> 0x4"
abbreviation (input) SZ_G :: u32 where "SZ_G \<equiv> 0x8"
abbreviation (input) ACC_TASK_GATE :: u32 where "ACC_TASK_GATE \<equiv> 0x05"
abbreviation (input) ACC_TSS :: u32 where "ACC_TSS \<equiv> 0x09"
abbreviation (input) ACC_DATA_W :: u32 where "ACC_DATA_W \<equiv> 0x12"
abbreviation (input) ACC_CODE_R :: u32 where "ACC_CODE_R \<equiv> 0x1a"
abbreviation (input) ACC_PL_K :: u32 where "ACC_PL_K \<equiv> 0x00"
abbreviation (input) ACC_PL_U :: u32 where "ACC_PL_U \<equiv> 0x60"
abbreviation (input) ACC_P :: u32 where "ACC_P \<equiv> 0x80"

definition two_words :: "u32 \<Rightarrow> u32 \<Rightarrow> u64" where
  "two_words p1 p0 = push_bit 32 (ucast p1) OR ucast p0"

definition fill_descriptor :: "u32 \<Rightarrow> u32 \<Rightarrow> u32 \<Rightarrow> u32 \<Rightarrow> u64" where
  "fill_descriptor base limit access sizebits =
     (let (limit, sizebits) = (if limit > 0xfffff then (drop_bit 12 limit, sizebits OR SZ_G) else (limit, sizebits));
          p0 = (limit AND 0xffff) + push_bit 16 (base AND 0xffff);
          p1 = drop_bit 16 base AND 0xff;
          p1 = p1 OR push_bit 8 ((access OR ACC_P) AND 0xff);
          p1 = p1 OR (limit AND 0xf0000);
          p1 = p1 OR push_bit 20 (sizebits AND 0xf);
          p1 = p1 OR (base AND 0xff000000)
      in two_words p1 p0)"

definition fill_gate :: "u32 \<Rightarrow> u16 \<Rightarrow> u8 \<Rightarrow> u8 \<Rightarrow> u64" where
  "fill_gate offset selector access word_count =
     (let p0 = (offset AND 0xffff) OR push_bit 16 (ucast selector);
          p1 = ucast word_count AND 0xf;
          p1 = p1 OR push_bit 8 (ucast access OR ACC_P);
          p1 = p1 OR (offset AND 0xffff0000)
      in two_words p1 p0)"

record x86_tss =
  back_link :: u32
  esp0 :: u32
  ss0 :: u32
  esp1 :: u32
  ss1 :: u32
  esp2 :: u32
  ss2 :: u32
  cr3 :: u32
  eip :: u32
  eflags :: u32
  eax :: u32
  ecx :: u32
  edx :: u32
  ebx :: u32
  esp :: u32
  ebp :: u32
  esi :: u32
  edi :: u32
  es :: u32
  cs :: u32
  ss :: u32
  ds :: u32
  fs :: u32
  gs :: u32
  ldt :: u32
  trace_trap :: u16
  io_bit_map_offset :: u16

definition tss_zero :: x86_tss where
  "tss_zero = \<lparr>back_link = 0, esp0 = 0, ss0 = 0, esp1 = 0, ss1 = 0, esp2 = 0, ss2 = 0, cr3 = 0, eip = 0,
     eflags = 0, eax = 0, ecx = 0, edx = 0, ebx = 0, esp = 0, ebp = 0, esi = 0, edi = 0, es = 0, cs = 0, ss = 0,
     ds = 0, fs = 0, gs = 0, ldt = 0, trace_trap = 0, io_bit_map_offset = 0\<rparr>"

abbreviation (input) TSS_SIZE :: nat where "TSS_SIZE \<equiv> 104"

section \<open>The tables\<close>

abbreviation (input) BASE_TSS :: u16 where "BASE_TSS \<equiv> 0x08"
abbreviation (input) KERNEL_DS :: u16 where "KERNEL_DS \<equiv> 0x18"
abbreviation (input) USER_CS :: u16 where "USER_CS \<equiv> 0x43"
abbreviation (input) USER_DS :: u16 where "USER_DS \<equiv> 0x4b"
abbreviation (input) TRAP_TSS_BASE :: u16 where "TRAP_TSS_BASE \<equiv> 0x50"
abbreviation (input) HANDLER_ENTRIES :: nat where "HANDLER_ENTRIES \<equiv> 32"

text \<open>What the linker and the assembly files determine.\<close>

record layout =
  gdt_address :: u32
  idt_address :: u32
  tss_address :: u32
  trap_tss_address :: u32
  trap_stack_end :: u32
  first_stack_end :: u32
  pgdir :: u32
  exception_handler_tasks :: "nat \<Rightarrow> u32"
  rodata_start :: u32
  rodata_end :: u32

text \<open>
  The tables, the registers that point to them (with the limit and the base that \<open>lgdt\<close> and \<open>lidt\<close> load),
  and the segment registers.
\<close>

record processor =
  gdt :: "nat \<Rightarrow> u64"
  idt :: "nat \<Rightarrow> u64"
  main_tss :: x86_tss
  trap_tss :: "nat \<Rightarrow> x86_tss"
  gdtr :: "u16 \<times> u32"
  idtr :: "u16 \<times> u32"
  ldtr :: u16
  tr :: u16
  seg_cs :: u16
  seg_ds :: u16
  seg_es :: u16
  seg_fs :: u16
  seg_gs :: u16
  seg_ss :: u16
  pgtab :: "nat \<Rightarrow> u32"

definition trap_tss_at :: "layout \<Rightarrow> nat \<Rightarrow> u32" where
  "trap_tss_at l i = trap_tss_address l + of_nat (TSS_SIZE * i)"

primrec fill_trap_descriptors :: "layout \<Rightarrow> nat \<Rightarrow> (nat \<Rightarrow> u64) \<Rightarrow> nat \<Rightarrow> u64" where
  "fill_trap_descriptors l 0 g = g"
| "fill_trap_descriptors l (Suc n) g =
     (let g1 = fill_trap_descriptors l n g
      in g1(n + unat (TRAP_TSS_BASE div 8) :=
           fill_descriptor (trap_tss_at l n) (of_nat (TSS_SIZE - 1)) (ACC_PL_K OR ACC_TSS OR ACC_P) 0))"

definition setup_gdt :: "layout \<Rightarrow> processor \<Rightarrow> processor" where
  "setup_gdt l s =
     (let g0 = (\<lambda>_. 0);
          g1 = g0(unat (BASE_TSS div 8) := fill_descriptor (tss_address l) (of_nat (TSS_SIZE - 1)) (ACC_PL_K OR ACC_TSS OR ACC_P) 0);
          g2 = g1(unat (KERNEL_CS div 8) := fill_descriptor 0 0xffffffff (ACC_PL_K OR ACC_CODE_R) SZ_32);
          g3 = g2(unat (KERNEL_DS div 8) := fill_descriptor 0 0xffffffff (ACC_PL_K OR ACC_DATA_W) SZ_32);
          g4 = g3(unat (USER_CS div 8) := fill_descriptor 0 0xffffffff (ACC_PL_U OR ACC_CODE_R) SZ_32);
          g5 = g4(unat (USER_DS div 8) := fill_descriptor 0 0xffffffff (ACC_PL_U OR ACC_DATA_W) SZ_32);
          g6 = fill_trap_descriptors l HANDLER_ENTRIES g5
      in s\<lparr>gdt := g6, gdtr := (0xffff, gdt_address l), ldtr := 0, seg_cs := KERNEL_CS, seg_ds := KERNEL_DS,
           seg_es := KERNEL_DS, seg_fs := 0, seg_gs := 0, seg_ss := KERNEL_DS\<rparr>)"

definition setup_trap :: "layout \<Rightarrow> nat \<Rightarrow> processor \<Rightarrow> processor" where
  "setup_trap l i s =
     (let ts = (trap_tss s i)\<lparr>ss0 := ucast KERNEL_DS, esp0 := trap_stack_end l, ss := ucast KERNEL_DS, esp := trap_stack_end l,
            io_bit_map_offset := of_nat TSS_SIZE, cs := ucast KERNEL_CS, eip := exception_handler_tasks l i,
            ds := ucast KERNEL_DS, es := ucast KERNEL_DS, fs := 0, gs := 0, eflags := 2, trace_trap := 0, cr3 := pgdir l\<rparr>;
          access = ACC_TASK_GATE + (if i = 3 then 0x60 else 0)
      in s\<lparr>trap_tss := (trap_tss s)(i := ts),
           idt := (idt s)(i := fill_gate 0 (TRAP_TSS_BASE + of_nat (8 * i)) (ucast access) 0)\<rparr>)"

primrec setup_traps :: "layout \<Rightarrow> nat \<Rightarrow> processor \<Rightarrow> processor" where
  "setup_traps l 0 s = s"
| "setup_traps l (Suc n) s = setup_trap l n (setup_traps l n s)"

definition setup_idt :: "layout \<Rightarrow> processor \<Rightarrow> processor" where
  "setup_idt l s = (setup_traps l HANDLER_ENTRIES (s\<lparr>idt := (\<lambda>_. 0)\<rparr>))\<lparr>idtr := (of_nat (256 * 8 - 1), idt_address l)\<rparr>"

definition setup_tss :: "layout \<Rightarrow> processor \<Rightarrow> processor" where
  "setup_tss l s = s\<lparr>main_tss := tss_zero\<lparr>ss0 := ucast KERNEL_DS, esp0 := first_stack_end l,
     io_bit_map_offset := of_nat TSS_SIZE, cr3 := pgdir l\<rparr>, tr := BASE_TSS\<rparr>"

definition setup_pic :: "'d hardware \<Rightarrow> 'd \<Rightarrow> 'd" where
  "setup_pic hw d =
     (let d = outb hw 0x11 0x20 d; d = outb hw 0x20 0x21 d; d = outb hw 0x4 0x21 d; d = outb hw 0x1 0x21 d;
          d = outb hw 0x11 0xa0 d; d = outb hw 0x28 0xa1 d; d = outb hw 0x2 0xa1 d; d = outb hw 0x1 0xa1 d;
          d = outb hw 0x20 0x20 d; d = outb hw 0x20 0xa0 d;
          d = outb hw 0xff 0x21 d
      in outb hw 0xff 0xa1 d)"

text \<open>The loop of \<open>setup_rodata\<close>, from \<open>index\<close> on.\<close>

function rodata_loop :: "nat \<Rightarrow> nat \<Rightarrow> (nat \<Rightarrow> u32) \<Rightarrow> nat \<Rightarrow> u32" where
  "rodata_loop i stop pt = (if i < stop then rodata_loop (i + 1) stop (pt(i := pt i AND 0xFFFFFFFD)) else pt)"
  by pat_completeness auto
termination by (relation "measure (\<lambda>(i, stop, pt). stop - i)") auto

declare rodata_loop.simps [simp del]

definition setup_rodata :: "layout \<Rightarrow> processor \<Rightarrow> processor" where
  "setup_rodata l s = s\<lparr>pgtab := rodata_loop (unat (drop_bit 12 (rodata_start l))) (unat (drop_bit 12 (rodata_end l))) (pgtab s)\<rparr>"

text \<open>\<open>setup_pgtab\<close> is written in assembly: an argument.\<close>

definition cpu_init :: "'d hardware \<Rightarrow> layout \<Rightarrow> (processor \<Rightarrow> processor) \<Rightarrow> processor \<times> 'd \<Rightarrow> processor \<times> 'd" where
  "cpu_init hw l setup_pgtab r = (case r of (s, d) \<Rightarrow>
     (setup_pgtab (setup_tss l (setup_idt l (setup_gdt l s))), setup_pic hw d))"

section \<open>How the processor reads a descriptor\<close>

record segment =
  seg_base :: u32
  seg_limit :: u32
  seg_access :: u8
  seg_size :: u8

definition low_word :: "u64 \<Rightarrow> u32" where "low_word d = ucast d"
definition high_word :: "u64 \<Rightarrow> u32" where "high_word d = ucast (drop_bit 32 d)"

definition read_segment :: "u64 \<Rightarrow> segment" where
  "read_segment d =
     (let lo = low_word d; hi = high_word d;
          raw = (lo AND 0xffff) OR (hi AND 0xf0000);
          flag_g = bit hi 23
      in \<lparr>seg_base = drop_bit 16 lo OR push_bit 16 (hi AND 0xff) OR (hi AND 0xff000000),
          seg_limit = (if flag_g then push_bit 12 raw OR 0xfff else raw),
          seg_access = ucast (drop_bit 8 hi), seg_size = ucast (drop_bit 20 hi AND 0xf)\<rparr>)"

lemma two_words_parts [simp]: "low_word (two_words p1 p0) = p0" "high_word (two_words p1 p0) = p1"
  by (rule bit_word_eqI;
      auto simp: low_word_def high_word_def two_words_def bit_or_iff bit_push_bit_iff bit_drop_bit_eq bit_unsigned_iff
        dest: bit_imp_le_length)+

lemma descriptor_masks:
  "(x :: u32) AND 0xffff = take_bit 16 x" "(x :: u32) AND 0xff = take_bit 8 x" "(x :: u32) AND 0xf = take_bit 4 x"
  "(0xfff :: u32) = mask 12"
  by (simp_all add: take_bit_eq_mask mask_eq_exp_minus_1)

lemma descriptor_fields:
  "(x :: u32) AND 0xff000000 = push_bit 24 (drop_bit 24 x)"
  "(x :: u32) AND 0xf0000 = push_bit 16 (take_bit 4 (drop_bit 16 x))"
proof -
  have m: "(0xff000000 :: u32) = push_bit 24 (mask 8)" "(0xf0000 :: u32) = push_bit 16 (mask 4)"
    by (simp_all add: mask_eq_exp_minus_1 push_bit_eq_mult)
  show "(x :: u32) AND 0xff000000 = push_bit 24 (drop_bit 24 x)" "(x :: u32) AND 0xf0000 = push_bit 16 (take_bit 4 (drop_bit 16 x))"
    unfolding m by (rule bit_word_eqI; auto simp: bit_and_iff bit_push_bit_iff bit_drop_bit_eq bit_take_bit_iff bit_mask_iff)+
qed

text \<open>The packed halves of a descriptor, from the limit and the flags in it.\<close>

lemma low_half: "((limit :: u32) AND 0xffff) + push_bit 16 (base AND 0xffff) = take_bit 16 limit OR push_bit 16 (take_bit 16 base)"
proof -
  have "take_bit 16 limit AND push_bit 16 (take_bit 16 base) = 0"
    by (rule bit_word_eqI) (auto simp: bit_and_iff bit_take_bit_iff bit_push_bit_iff)
  then show ?thesis unfolding descriptor_masks by (rule disjunctive_add_eq_or)
qed

lemma take_bit_word_eq_self_small: "unat x < 2 ^ n \<Longrightarrow> x = take_bit n x"
  by (rule word_unat_eq_iff [THEN iffD2]) (simp add: unsigned_take_bit_eq take_bit_nat_eq_self)

lemma pack_unpack:
  fixes base limit access sizebits :: u32
  assumes "limit \<le> 0xfffff"
  defines "lo \<equiv> take_bit 16 limit OR push_bit 16 (take_bit 16 base)"
  defines "hi \<equiv> ((((drop_bit 16 base AND 0xff) OR push_bit 8 (access AND 0xff)) OR (limit AND 0xf0000))
    OR push_bit 20 (sizebits AND 0xf)) OR (base AND 0xff000000)"
  shows "(lo AND 0xffff) OR (hi AND 0xf0000) = limit"
    "drop_bit 16 lo OR push_bit 16 (hi AND 0xff) OR (hi AND 0xff000000) = base"
    "(ucast (drop_bit 8 hi) :: u8) = ucast access" "(ucast (drop_bit 20 hi AND 0xf) :: u8) = ucast (sizebits AND 0xf)"
    "bit hi 23 \<longleftrightarrow> bit sizebits 3"
proof -
  note bits = bit_and_iff bit_or_iff bit_push_bit_iff bit_drop_bit_eq bit_unsigned_iff bit_take_bit_iff
  have l: "bit limit i \<longleftrightarrow> i < 20 \<and> bit limit i" for i
  proof -
    have "limit = take_bit 20 limit"
      using assms(1) by (intro take_bit_word_eq_self_small) (simp add: word_le_nat_alt)
    then show ?thesis by (metis bit_take_bit_iff)
  qed
  have lo: "bit lo i \<longleftrightarrow> (if i < 16 then bit limit i else i < 32 \<and> bit base (i - 16))" for i
    unfolding lo_def by (auto simp: bits)
  have hi: "bit hi i \<longleftrightarrow> (if i < 8 then bit base (i + 16) else if i < 16 then bit access (i - 8)
      else if i < 20 then bit limit i else if i < 24 then bit sizebits (i - 20) else bit base i)" for i
  proof -
    consider "i < 8" | "8 \<le> i" "i < 16" | "16 \<le> i" "i < 20" | "20 \<le> i" "i < 24" | "24 \<le> i" "i < 32" | "32 \<le> i"
      by linarith
    then show ?thesis
    proof cases
      case 6 then show ?thesis using bit_imp_le_length [of hi i] bit_imp_le_length [of base i] by auto
    qed (simp_all add: hi_def descriptor_masks descriptor_fields bits add.commute less_diff_conv2)
  qed
  show "(lo AND 0xffff) OR (hi AND 0xf0000) = limit"
    unfolding descriptor_masks descriptor_fields
    by (rule bit_word_eqI) (subst l, auto simp: bits lo hi)
  show "drop_bit 16 lo OR push_bit 16 (hi AND 0xff) OR (hi AND 0xff000000) = base"
    unfolding descriptor_masks descriptor_fields
    by (rule bit_word_eqI) (auto simp: bits lo hi)
  show "(ucast (drop_bit 8 hi) :: u8) = ucast access"
    by (rule bit_word_eqI) (auto simp: bits hi)
  show "(ucast (drop_bit 20 hi AND 0xf) :: u8) = ucast (sizebits AND 0xf)"
    unfolding descriptor_masks by (rule bit_word_eqI) (auto simp: bits hi)
  show "bit hi 23 \<longleftrightarrow> bit sizebits 3"
    by (simp add: hi)
qed

definition descriptor_of :: "u32 \<Rightarrow> u32 \<Rightarrow> u32 \<Rightarrow> u32 \<Rightarrow> segment" where
  "descriptor_of base limit access sizebits =
     \<lparr>seg_base = base, seg_limit = (if limit > 0xfffff \<or> bit sizebits 3 then
        (if limit > 0xfffff then limit else push_bit 12 limit) OR 0xfff else limit),
      seg_access = ucast (access OR 0x80),
      seg_size = ucast ((if limit > 0xfffff then sizebits OR SZ_G else sizebits) AND 0xf)\<rparr>"

lemma read_two_words:
  fixes base limit access sizebits :: u32
  assumes "limit \<le> 0xfffff"
  shows "read_segment (fill_descriptor base limit access sizebits) =
    \<lparr>seg_base = base, seg_limit = (if bit sizebits 3 then push_bit 12 limit OR 0xfff else limit),
     seg_access = ucast (access OR 0x80), seg_size = ucast (sizebits AND 0xf)\<rparr>"
proof -
  have "\<not> limit > 0xfffff" using assms by simp
  then show ?thesis
    unfolding fill_descriptor_def read_segment_def Let_def low_half
    by (simp only: if_False prod.case two_words_parts pack_unpack [OF assms])
qed

lemma coarse_limit: "push_bit 12 (drop_bit 12 limit) OR 0xfff = (limit OR 0xfff :: u32)"
  unfolding descriptor_masks by (rule bit_word_eqI) (auto simp: bit_or_iff bit_push_bit_iff bit_drop_bit_eq bit_mask_iff)

lemma read_fill_descriptor:
  "read_segment (fill_descriptor base limit access sizebits) = descriptor_of base limit access sizebits"
proof (cases "limit > 0xfffff")
  case False
  then show ?thesis by (simp add: read_two_words descriptor_of_def)
next
  case True
  have s: "drop_bit 12 limit \<le> 0xfffff"
  proof -
    have "unat limit < 2 ^ 32" using unsigned_less [of limit, where 'a = nat] by simp
    then have "unat limit div 4096 < 1048576" by simp
    then show ?thesis by (simp add: word_le_nat_alt drop_bit_eq_div unat_div)
  qed
  have "fill_descriptor base limit access sizebits = fill_descriptor base (drop_bit 12 limit) access (sizebits OR SZ_G)"
    using True s [unfolded not_less [symmetric]] unfolding fill_descriptor_def Let_def by simp
  moreover have "bit (sizebits OR SZ_G) 3" by (simp add: bit_or_iff)
  ultimately show ?thesis using True by (simp add: read_two_words [OF s] descriptor_of_def coarse_limit)
qed

lemma read_fill_gate:
  "gate_of (low_word (fill_gate offset selector access wc)) (high_word (fill_gate offset selector access wc)) =
     \<lparr>gate_offset = offset, gate_selector = selector, gate_type = access AND 0x1F,
      gate_dpl = drop_bit 5 access AND 3, gate_present = True\<rparr>"
proof -
  define a :: u8 where "a = access OR 0x80"
  define f :: u16 where "f = take_bit 4 (ucast wc) OR push_bit 8 (ucast a)"
  note bits = bit_and_iff bit_or_iff bit_push_bit_iff bit_drop_bit_eq bit_unsigned_iff bit_take_bit_iff
  have f: "bit f i \<longleftrightarrow> (if i < 4 then bit wc i else 8 \<le> i \<and> i < 16 \<and> bit a (i - 8))" for i
    unfolding f_def by (auto simp: bits dest: bit_imp_le_length)
  have "(ucast access OR ACC_P :: u32) = ucast a" by (simp add: a_def unsigned_or_eq)
  then have "ucast f = (ucast wc AND 0xf) OR push_bit 8 (ucast access OR ACC_P)"
    unfolding descriptor_masks by (intro bit_word_eqI) (auto simp: f bits dest: bit_imp_le_length)
  then have "gate_of (low_word (fill_gate offset selector access wc)) (high_word (fill_gate offset selector access wc)) =
      gate_of (push_bit 16 (ucast selector) OR (offset AND 0xFFFF)) ((offset AND 0xFFFF0000) OR ucast f)"
    by (simp add: fill_gate_def Let_def or.commute or.left_commute)
  moreover have "(ucast (drop_bit 8 f AND 0x1F) :: u8) = access AND 0x1F" "(ucast (drop_bit 13 f AND 3) :: u8) = drop_bit 5 access AND 3"
    "bit f 15"
  proof -
    have 5: "bit a i \<longleftrightarrow> bit access i \<or> i = 7" if "i < 8" for i
    proof -
      have "(0x80 :: u8) = 2 ^ 7" by simp
      then show ?thesis unfolding a_def using that by (simp only: bit_or_iff bit_exp_iff) auto
    qed
    show "(ucast (drop_bit 8 f AND 0x1F) :: u8) = access AND 0x1F" "(ucast (drop_bit 13 f AND 3) :: u8) = drop_bit 5 access AND 3"
      unfolding word_masks by (auto intro!: bit_word_eqI simp: bits f 5)
    show "bit f 15" by (simp add: f 5)
  qed
  ultimately show ?thesis by (simp add: gate_of_fields)
qed

section \<open>What the tables hold after the boot\<close>

lemma fill_trap_descriptors_at:
  "fill_trap_descriptors l n g k =
     (if 10 \<le> k \<and> k < 10 + n then fill_descriptor (trap_tss_at l (k - 10)) 103 0x89 0 else g k)"
  by (induction n) (auto simp: Let_def less_Suc_eq)

lemma setup_traps_at:
  "idt (setup_traps l n s) k =
     (if k < n then fill_gate 0 (TRAP_TSS_BASE + of_nat (8 * k)) (if k = 3 then 0x65 else 0x05) 0 else idt s k)"
  "gdt (setup_traps l n s) = gdt s"
  "k < n \<Longrightarrow> eip (trap_tss (setup_traps l n s) k) = exception_handler_tasks l k
    \<and> esp (trap_tss (setup_traps l n s) k) = trap_stack_end l \<and> cr3 (trap_tss (setup_traps l n s) k) = pgdir l
    \<and> cs (trap_tss (setup_traps l n s) k) = ucast KERNEL_CS \<and> ss (trap_tss (setup_traps l n s) k) = ucast KERNEL_DS
    \<and> ds (trap_tss (setup_traps l n s) k) = ucast KERNEL_DS"
  by (induction n) (auto simp: setup_trap_def Let_def less_Suc_eq)

lemma rodata_loop_at:
  "rodata_loop i stop pt k = (if i \<le> k \<and> k < stop then pt k AND 0xFFFFFFFD else pt k)"
proof (induction i stop pt rule: rodata_loop.induct)
  case (1 i stop pt)
  show ?case
  proof (cases "i < stop")
    case True
    then have e: "rodata_loop i stop pt = rodata_loop (i + 1) stop (pt(i := pt i AND 0xFFFFFFFD))"
      by (subst rodata_loop.simps) simp
    show ?thesis unfolding e 1 [OF True] using True by auto
  qed (subst rodata_loop.simps, auto)
qed

text \<open>
  The page tables, which assembly fills, are all that \<open>setup_pgtab\<close> writes.
\<close>

definition writes_page_table :: "(processor \<Rightarrow> processor) \<Rightarrow> bool" where
  "writes_page_table f \<longleftrightarrow> (\<forall>s. \<exists>pt. f s = s\<lparr>pgtab := pt\<rparr>)"

lemma cpu_init_tables:
  fixes hw :: "'d hardware" and l :: layout and p :: "processor \<Rightarrow> processor" and s :: processor and d :: 'd
  assumes "writes_page_table p"
  defines "s' \<equiv> fst (cpu_init hw l p (s, d))"
  shows "gdt s' = gdt (setup_gdt l s)" "idt s' = idt (setup_idt l (setup_gdt l s))"
    "trap_tss s' = trap_tss (setup_idt l (setup_gdt l s))" "gdtr s' = (0xffff, gdt_address l)" "seg_cs s' = KERNEL_CS"
    "tr s' = BASE_TSS" "idtr s' = (2047, idt_address l)"
proof -
  obtain pt where e: "s' = (setup_tss l (setup_idt l (setup_gdt l s)))\<lparr>pgtab := pt\<rparr>"
    using assms(1) unfolding s'_def cpu_init_def writes_page_table_def by auto
  have r: "gdtr (setup_traps l n u) = gdtr u" "seg_cs (setup_traps l n u) = seg_cs u" for n u
    by (induction n) (simp_all add: setup_trap_def Let_def)
  show "gdt s' = gdt (setup_gdt l s)" "idt s' = idt (setup_idt l (setup_gdt l s))"
    "trap_tss s' = trap_tss (setup_idt l (setup_gdt l s))" "gdtr s' = (0xffff, gdt_address l)" "seg_cs s' = KERNEL_CS"
    "tr s' = BASE_TSS" "idtr s' = (2047, idt_address l)"
    unfolding e by (simp_all add: setup_tss_def setup_idt_def setup_traps_at r) (simp_all add: setup_gdt_def Let_def)
qed

definition gate_in :: "processor \<Rightarrow> nat \<Rightarrow> gate" where
  "gate_in s i = gate_of (low_word (idt s i)) (high_word (idt s i))"

lemma exception_gate:
  assumes "writes_page_table p" "i < 32"
  shows "gate_in (fst (cpu_init hw l p (s, d))) i =
    \<lparr>gate_offset = 0, gate_selector = TRAP_TSS_BASE + of_nat (8 * i), gate_type = 5,
     gate_dpl = (if i = 3 then 3 else 0), gate_present = True\<rparr>"
  unfolding gate_in_def cpu_init_tables(2) [OF assms(1)] using assms(2)
  by (simp add: setup_idt_def setup_traps_at read_fill_gate)

text \<open>The flat segments of the kernel.\<close>

lemma kernel_segments:
  assumes "writes_page_table p"
  shows "read_segment (gdt (fst (cpu_init hw l p (s, d))) 2) = \<lparr>seg_base = 0, seg_limit = 0xffffffff, seg_access = 0x9a, seg_size = 0xc\<rparr>"
    "read_segment (gdt (fst (cpu_init hw l p (s, d))) 3) = \<lparr>seg_base = 0, seg_limit = 0xffffffff, seg_access = 0x92, seg_size = 0xc\<rparr>"
  unfolding cpu_init_tables(1) [OF assms]
  by (simp_all add: setup_gdt_def Let_def fill_trap_descriptors_at read_fill_descriptor descriptor_of_def)

lemma trap_selector: "i < 32 \<Longrightarrow> unat (TRAP_TSS_BASE + of_nat (8 * i)) div 8 = 10 + i"
proof -
  assume i: "i < 32"
  have "(TRAP_TSS_BASE + of_nat (8 * i)) = of_nat (80 + 8 * i)" by simp
  then have "unat (TRAP_TSS_BASE + of_nat (8 * i)) = 80 + 8 * i"
    using i by (simp only: unat_of_nat) (simp add: take_bit_nat_eq_self)
  then show ?thesis by simp
qed

lemma exception_segment:
  assumes "writes_page_table p" "i < 32"
  shows "read_segment (gdt (fst (cpu_init hw l p (s, d))) (10 + i)) =
    \<lparr>seg_base = trap_tss_at l i, seg_limit = 103, seg_access = 0x89, seg_size = 0\<rparr>"
  unfolding cpu_init_tables(1) [OF assms(1)] using assms(2)
  by (simp add: setup_gdt_def Let_def fill_trap_descriptors_at read_fill_descriptor descriptor_of_def)

lemma exception_task:
  assumes "writes_page_table p" "i < 32"
  shows "let t = trap_tss (fst (cpu_init hw l p (s, d))) i in
    eip t = exception_handler_tasks l i \<and> esp t = trap_stack_end l \<and> cr3 t = pgdir l
    \<and> cs t = ucast KERNEL_CS \<and> ss t = ucast KERNEL_DS \<and> ds t = ucast KERNEL_DS"
  unfolding cpu_init_tables(3) [OF assms(1)] Let_def using setup_traps_at(3) [OF assms(2)]
  by (simp add: setup_idt_def)

lemma exception_tables:
  fixes hw :: "'d hardware" and l :: layout and p :: "processor \<Rightarrow> processor" and s :: processor and d :: 'd
  assumes "writes_page_table p" "i < 32"
  defines "s' \<equiv> fst (cpu_init hw l p (s, d))"
  defines "g \<equiv> gate_in s' i"
  defines "k \<equiv> unat (gate_selector g) div 8"
  shows "gate_present g \<and> gate_type g = 5 \<and> gate_dpl g = (if i = 3 then 3 else 0)
      \<and> k < 8192 \<and> read_segment (gdt s' k) =
          \<lparr>seg_base = trap_tss_at l i, seg_limit = 103, seg_access = 0x89, seg_size = 0\<rparr>"
  using exception_segment [OF assms(1,2)] assms(2)
  unfolding k_def g_def s'_def exception_gate [OF assms(1,2)]
  by (simp only: gate.simps trap_selector [OF assms(2)]) simp

end
