(* ===== verification/Driver_Properties.thy ===== *)
theory Driver_Properties
  imports Driver_Sample Descriptors
begin

text \<open>
  The properties of the drivers and of the start of the kernel, each with a concrete instance: hardware
  that behaves as the data sheets say.
\<close>

section \<open>Interrupt masks\<close>

text \<open>
  \<open>irq_mask\<close> sets or clears the mask of one interrupt line and of no other, on either of the two
  controllers; to unmask a line of the second controller it also unmasks line 2, which connects them.
\<close>

theorem irq_mask_changes_one_line:
  assumes "mask_registers hw master slave" "n < 16" "i < 16"
  shows "irq_masked master slave i (irq_mask hw n masked d) =
    (if i = n then masked else if i = 2 \<and> 8 \<le> n \<and> \<not> masked then False else irq_masked master slave i d)"
  using assms by (rule irq_mask_changes)

text \<open>Two controllers with a mask register each, and nothing else.\<close>

definition pic_hw :: "(u8 \<times> u8) hardware" where
  "pic_hw = \<lparr>read_byte = (\<lambda>port d. (if port = 0x21 then fst d else if port = 0xA1 then snd d else 0, d)),
     write_byte = (\<lambda>v port d. if port = 0x21 then (v, snd d) else if port = 0xA1 then (fst d, v) else d),
     write_word = (\<lambda>v port d. d)\<rparr>"

lemma pic_hw_masks: "mask_registers pic_hw fst snd"
  by (auto simp: mask_registers_def pic_hw_def inb_def outb_def)

theorem irq_mask_changes_one_line_witness:
  "irq_masked fst snd 12 (irq_mask pic_hw 12 False (0xFF, 0xFF)) = False
   \<and> irq_masked fst snd 2 (irq_mask pic_hw 12 False (0xFF, 0xFF)) = False
   \<and> irq_masked fst snd 1 (irq_mask pic_hw 12 False (0xFF, 0xFF)) = True"
  using irq_mask_changes_one_line [OF pic_hw_masks, of 12 12 False "(0xFF, 0xFF)"]
    irq_mask_changes_one_line [OF pic_hw_masks, of 12 2 False "(0xFF, 0xFF)"]
    irq_mask_changes_one_line [OF pic_hw_masks, of 12 1 False "(0xFF, 0xFF)"]
  by (simp add: irq_masked_def)

section \<open>Commands to PS/2 devices\<close>








section \<open>Start of the kernel\<close>

text \<open>What a step of the start keeps: installed interrupt handlers, and all that the keyboard needs.\<close>

lemma pit_init_effect:
  assumes "pit_init hw entries s = Some s'"
  shows "port_installed entries IRQ_PIT Pit_Interrupt s' \<and> ps2_is_ready s' = ps2_is_ready s
    \<and> ps2_device_handlers s' = ps2_device_handlers s"
proof -
  from assms obtain s1 where 1: "dprintf (LOG_EMPTY @ bytes ''PIT init...'' @ [0x0D]) [] s = Some s1"
    and 2: "dprintf (LOG_OK @ bytes ''PIT ready     '' @ [0x0A]) []
      (ps2_install hw entries IRQ_PIT Pit_Interrupt (s1\<lparr>hw_state := pit_set_frequency hw (hw_state s1)\<rparr>)) = Some s'"
    unfolding pit_init_def Let_def bind_eq_Some_conv by blast
  note q = quiet_steps(1) [OF 1] quiet_steps(1) [OF 2]
  have "port_installed entries IRQ_PIT Pit_Interrupt s'"
    unfolding quiet_installed [OF q(2)] by (rule install_facts(1))
  then show ?thesis using q by (simp add: quiet_def ps2_install_def)
qed

lemma page_init_quiet: "page_init_logged h s = Some (h', s') \<Longrightarrow> quiet s s' \<and> h' = page_init h"
  unfolding page_init_logged_def Let_def bind_eq_Some_conv by (auto dest!: quiet_steps simp: quiet_def)

lemma syscall_init_effect:
  assumes "syscall_init e s = Some s'"
  shows "read_gate (idt_memory (dirqs s')) (idt_entry SYSCALL_INTERRUPT) =
      \<lparr>gate_offset = e, gate_selector = KERNEL_CS, gate_type = 14, gate_dpl = 3, gate_present = True\<rparr>
    \<and> (n < 16 \<longrightarrow> port_installed entries n h s' = port_installed entries n h s)
    \<and> ps2_is_ready s' = ps2_is_ready s \<and> ps2_device_handlers s' = ps2_device_handlers s
    \<and> dkbd s' = dkbd s \<and> same_ports s s'"
proof -
  from assms obtain s1 where 1: "dprintf (LOG_EMPTY @ bytes ''System calls init...'' @ [0x0D]) [] s = Some s1"
    and 2: "dprintf (LOG_OK @ bytes ''System calls ready: %d syscalls'' @ [0x0A]) [Word SYSCALL_COUNT]
      (s1\<lparr>dirqs := (dirqs s1)\<lparr>idt_memory := idt_interrupt_gate SYSCALL_INTERRUPT e 3 (idt_memory (dirqs s1))\<rparr>\<rparr>) = Some s'"
    unfolding syscall_init_def Let_def bind_eq_Some_conv by blast
  note q = still_steps(1) [OF 1] still_steps(1) [OF 2]
  have "(49 :: u8) \<noteq> 32 + n" if "n < 16"
  proof
    assume "(49 :: u8) = 32 + n"
    then have "n = 49 - 32" by (simp add: eq_diff_eq add.commute)
    then show False using that by simp
  qed
  then have o: "read_gate (idt_interrupt_gate SYSCALL_INTERRUPT e 3 m) (idt_entry (32 + n)) = read_gate m (idt_entry (32 + n))"
    if "n < 16" for m using that unfolding idt_interrupt_gate_def by (intro other_gates) blast
  have d: "dirqs s' = (dirqs s)\<lparr>idt_memory := idt_interrupt_gate SYSCALL_INTERRUPT e 3 (idt_memory (dirqs s))\<rparr>"
    using q by (simp add: quiet_def)
  show ?thesis
    using q o by (auto simp: d port_installed_def interrupt_gate_reads(1)) (auto simp: quiet_def same_ports_def)
qed

text \<open>
  C22. When \<open>kernel_start\<close> has come to the point where it creates the first process, the timer handler is
  installed behind its gate, the system call gate can be entered from user level, the console gets the
  keys, and the keyboard handler is set only when the PS/2 driver is ready with its own interrupt handler
  and gate, a keyboard has been identified, and the layout is the French one. This holds whatever the
  hardware answers.
\<close>

theorem kernel_start_installs:
  assumes "kernel_start hw entries sc h s = Some (h', s')" "\<not> ps2_is_ready s" "ps2_device_handlers s = (\<lambda>_. None)"
  shows "port_installed entries 0 Pit_Interrupt s'
    \<and> read_gate (idt_memory (dirqs s')) (idt_entry 49) =
      \<lparr>gate_offset = sc, gate_selector = 0x10, gate_type = 14, gate_dpl = 3, gate_present = True\<rparr>
    \<and> key_handler_set (dkbd s') \<and> char_handler_set (dkbd s')
    \<and> (if ps2_device_handlers s' PS2_FIRST = None then True
       else ps2_is_ready s' \<and> port_installed entries 1 Ps2_Port_A s' \<and> ps2_port_ids s' PS2_FIRST = 0x83AB
         \<and> current_layout (dkbd s') = Some (all_layouts KEYBOARD_LAYOUT_FR))"
proof -
  from assms(1) obtain s1 s2 s3 s4 s5 s6 s7 where
    1: "dprintf [0x0C] [] s = Some s1" and 2: "page_init_logged h s1 = Some (h', s2)"
    and 3: "pit_init hw entries s2 = Some s3" and 4: "ps2_init hw entries s3 = Some s4"
    and 5: "keyboard_init hw s4 = Some s5" and 6: "syscall_init sc s5 = Some s6"
    and 7: "dprintf (LOG_OK @ bytes ''Kernel ready'' @ [0x0A, 0x0A]) [] s6 = Some s7" and s': "s' = cons_start s7"
    unfolding kernel_start_def bind_eq_Some_conv split_paired_Ex prod.case by auto
  have s2: "\<not> ps2_is_ready s2" "ps2_device_handlers s2 = (\<lambda>_. None)"
    using assms(2,3) quiet_steps(1) [OF 1] page_init_quiet [OF 2] by (simp_all add: quiet_def)
  note 3 = pit_init_effect [OF 3]
  have st: "started entries s3 s4" by (rule ps2_init_effect [OF 4])
  have p4: "port_installed entries IRQ_PIT Pit_Interrupt s4"
    using st 3 quiet_installed [of s3 s4] by (auto simp: started_def)
  have h4: "ps2_device_handlers s4 = (\<lambda>_. None)" using st 3 s2 by (auto simp: started_def quiet_def)
  have r4: "ps2_is_ready s4 \<Longrightarrow> port_installed entries IRQ_PS2_A Ps2_Port_A s4"
    using st 3 s2 by (auto simp: started_def quiet_def)
  have k: "port_installed entries n g s5 = port_installed entries n g s4" for n g
  proof -
    have "dirqs s5 = dirqs s4" using keyboard_init_effect [OF 5] by (auto simp: quiet_def keyboard_on_def)
    then show ?thesis by (simp add: port_installed_def)
  qed
  have 6: "read_gate (idt_memory (dirqs s6)) (idt_entry SYSCALL_INTERRUPT) =
      \<lparr>gate_offset = sc, gate_selector = KERNEL_CS, gate_type = 14, gate_dpl = 3, gate_present = True\<rparr>"
    "n < 16 \<Longrightarrow> port_installed entries n g s6 = port_installed entries n g s5"
    "ps2_is_ready s6 = ps2_is_ready s5" "ps2_device_handlers s6 = ps2_device_handlers s5" "dkbd s6 = dkbd s5" "same_ports s5 s6" for n g
    using syscall_init_effect [OF 6, of n entries g] by simp_all
  note 7 = still_steps(1) [OF 7]
  have "quiet s6 s7" using 7 by simp
  have e: "dirqs s' = dirqs s6" "ps2_is_ready s' = ps2_is_ready s6" "ps2_device_handlers s' = ps2_device_handlers s6"
    "ps2_port_ids s' = ps2_port_ids s5" "dkbd s' = keyboard_set_char_handler (keyboard_set_key_handler (dkbd s5))"
    using 7 6(5,6) by (simp_all add: s' cons_start_def quiet_def same_ports_def)
  have p: "port_installed entries n g s' = port_installed entries n g s4" if "n < 16" for n g
    using e(1) 6(2) [OF that] k by (simp add: port_installed_def)
  have "ps2_device_handlers s' PS2_FIRST \<noteq> None \<Longrightarrow> ps2_is_ready s4 \<and> ps2_port_ids s4 PS2_FIRST = PS2_DEV_KEYBOARD_MF2 \<and> keyboard_on s4 s5"
    using keyboard_init_effect [OF 5] e(3) 6(4) h4 by (auto simp: quiet_def)
  moreover have "current_layout (dkbd s') = current_layout (dkbd s5)" "key_handler_set (dkbd s')" "char_handler_set (dkbd s')"
    by (simp_all add: e(5) keyboard_set_char_handler_def keyboard_set_key_handler_def)
  ultimately show ?thesis
    using p p4 r4 6(1,3) e by (auto simp: keyboard_on_def same_ports_def keyboard_set_layout_def)
qed

theorem kernel_start_installs_witness:
  "\<forall>entries sc h. \<exists>h' s'. kernel_start kb_hw entries sc h kb_start = Some (h', s')
    \<and> port_installed entries 1 Ps2_Port_A s' \<and> ps2_is_ready s'"
proof (intro allI)
  fix entries sc h
  obtain h' s' where r: "kernel_start kb_hw entries sc h kb_start = Some (h', s')" "ps2_device_handlers s' PS2_FIRST = Some Keyboard_Handler"
    using kb_start_runs by blast
  have "\<not> ps2_is_ready kb_start" "ps2_device_handlers kb_start = (\<lambda>_. None)" by (simp_all add: kb_start_def)
  from kernel_start_installs [OF r(1) this] r show "\<exists>h' s'. kernel_start kb_hw entries sc h kb_start = Some (h', s')
    \<and> port_installed entries 1 Ps2_Port_A s' \<and> ps2_is_ready s'" by auto
qed

section \<open>Exceptions\<close>

text \<open>
  C23. After \<open>cpu_init\<close> each of the 32 exceptions has a present task gate, which user code can enter for the
  breakpoint only, and the gate leads through the descriptor table to the task state of this exception:
  the segment has its address and its exact size, and the task starts at the handler of the exception in
  the flat kernel segments. No entry is taken for another: this holds for the bytes the processor reads.
\<close>

theorem exceptions_reach_their_handlers:
  assumes "writes_page_table setup_pgtab" "i < 32"
  shows "let s' = fst (cpu_init hw l setup_pgtab (s, d)); g = gate_in s' i; k = unat (gate_selector g) div 8 in
      gate_present g \<and> gate_type g = 5 \<and> gate_dpl g = (if i = 3 then 3 else 0)
      \<and> k < 8192 \<and> read_segment (gdt s' k) =
          \<lparr>seg_base = trap_tss_address l + of_nat (104 * i), seg_limit = 103, seg_access = 0x89, seg_size = 0\<rparr>
      \<and> eip (trap_tss s' i) = exception_handler_tasks l i \<and> esp (trap_tss s' i) = trap_stack_end l
      \<and> read_segment (gdt s' (unat (cs (trap_tss s' i)) div 8)) =
          \<lparr>seg_base = 0, seg_limit = 0xffffffff, seg_access = 0x9a, seg_size = 0xc\<rparr>
      \<and> read_segment (gdt s' (unat (ss (trap_tss s' i)) div 8)) =
          \<lparr>seg_base = 0, seg_limit = 0xffffffff, seg_access = 0x92, seg_size = 0xc\<rparr>"
  using exception_tables [OF assms, of hw l s d] exception_task [OF assms, of hw l s d] kernel_segments [OF assms(1), of hw l s d]
  by (simp add: Let_def trap_tss_at_def)

definition sample_layout :: layout where
  "sample_layout = \<lparr>gdt_address = 0x10000, idt_address = 0x1000, tss_address = 0x20000, trap_tss_address = 0x123450,
     trap_stack_end = 0x130000, first_stack_end = 0x140000, pgdir = 0x150000,
     exception_handler_tasks = (\<lambda>i. 0x100000 + 16 * of_nat i), rodata_start = 0x101000, rodata_end = 0x103000\<rparr>"

theorem exceptions_reach_their_handlers_witness:
  "\<forall>s d. seg_base (read_segment (gdt (fst (cpu_init pic_hw sample_layout (\<lambda>s. s) (s, d))) 24)) = 0x123A00
    \<and> eip (trap_tss (fst (cpu_init pic_hw sample_layout (\<lambda>s. s) (s, d))) 14) = 0x1000E0"
proof (intro allI)
  fix s d
  have w: "writes_page_table (\<lambda>s. s)" unfolding writes_page_table_def by (metis processor.surjective processor.update_convs(15))
  have "(14 :: nat) < 32" by simp
  from exceptions_reach_their_handlers [OF w this, of pic_hw sample_layout s d] exception_gate [OF w this, of pic_hw sample_layout s d]
  show "seg_base (read_segment (gdt (fst (cpu_init pic_hw sample_layout (\<lambda>s. s) (s, d))) 24)) = 0x123A00
    \<and> eip (trap_tss (fst (cpu_init pic_hw sample_layout (\<lambda>s. s) (s, d))) 14) = 0x1000E0"
    by (simp add: Let_def sample_layout_def)
qed

end
