(* ===== verification/Gdb_Packets.thy ===== *)
theory Gdb_Packets
  imports Number_Parsing Ports "HOL-Library.Monad_Syntax"
begin

text \<open>
  The packets of the debugger stub, from \<^verbatim>\<open>debug/gdb_serial.c\<close>: a packet is a dollar sign, data, a hash
  sign and two hexadecimal digits with the sum of the data; the receiver answers with a plus sign, or with
  a minus sign when the sum is wrong. Data that repeats a character is run-length encoded.

  The two function pointers for the serial line are a value of type \<open>serial\<close>, and the state behind them
  an argument; \<open>None\<close> is a call that waits for ever. The buffer is in memory.
\<close>

section \<open>Hexadecimal digits\<close>

record 'c serial =
  serial_recv :: "'c \<Rightarrow> (u32 \<times> 'c) option"
  serial_send :: "u32 \<Rightarrow> 'c \<Rightarrow> 'c option"

abbreviation (input) BUFMAX :: nat where "BUFMAX \<equiv> 400"

definition hexchars :: "u8 \<Rightarrow> u8" where
  "hexchars n = bytes ''0123456789abcdef'' ! unat n"

definition hex :: "u8 \<Rightarrow> int" where
  "hex ch =
     (if 0x30 \<le> ch \<and> ch \<le> 0x39 then uint ch - 0x30
      else if 0x61 \<le> ch \<and> ch \<le> 0x66 then uint ch - 0x61 + 10
      else if 0x41 \<le> ch \<and> ch \<le> 0x46 then uint ch - 0x41 + 10
      else -1)"

primrec hex2bin :: "ptr \<Rightarrow> ptr \<Rightarrow> nat \<Rightarrow> bmem \<Rightarrow> int \<times> bmem" where
  "hex2bin inp out 0 m = (0, m)"
| "hex2bin inp out (Suc len) m =
     (let ch = push_bit 4 (hex (m inp)) OR hex (m (inp + 1))
      in if ch < 0 then (-1, m) else hex2bin (inp + 2) (out + 1) len (m(out := word_of_int ch)))"

section \<open>Receiving\<close>

text \<open>Wait for the start character.\<close>

partial_function (option) packet_start :: "'c serial \<Rightarrow> 'c \<Rightarrow> 'c option" where
  "packet_start ser c = Option.bind (serial_recv ser c) (\<lambda>(v, c1).
     if (ucast (v AND 0x7f) :: u8) \<noteq> 0x24 then packet_start ser c1 else Some c1)"

text \<open>Read until a hash sign or the end of the buffer: the count, the sum and the last character.\<close>

partial_function (option) packet_data :: "'c serial \<Rightarrow> ptr \<Rightarrow> nat \<Rightarrow> u8 \<Rightarrow> u8 \<Rightarrow> bmem \<Rightarrow> 'c
    \<Rightarrow> (nat \<times> u8 \<times> u8 \<times> bmem \<times> 'c) option" where
  "packet_data ser buffer count checksum ch m c =
     (if count < BUFMAX then
        Option.bind (serial_recv ser c) (\<lambda>(v, c1).
          let ch = ucast v
          in if ch = 0x23 \<and> (count = 0 \<or> m (buffer + of_nat (count - 1)) \<noteq> 0x7d)
             then Some (count, checksum, ch, m, c1)
             else packet_data ser buffer (count + 1) (checksum + ch) ch (m(buffer + of_nat count := ch)) c1)
      else Some (count, checksum, ch, m, c))"

text \<open>Remove the sequence characters.\<close>

function seq_shift :: "ptr \<Rightarrow> nat \<Rightarrow> nat \<Rightarrow> bmem \<Rightarrow> bmem" where
  "seq_shift buffer i count m =
     (if i \<le> count then seq_shift buffer (i + 1) count (m(buffer + of_nat (i - 3) := m (buffer + of_nat i))) else m)"
  by pat_completeness auto
termination by (relation "measure (\<lambda>(buffer, i, count, m). count + 1 - i)") auto

declare seq_shift.simps [simp del]

text \<open>The two digits of the sum, and the answer.\<close>

definition packet_check :: "'c serial \<Rightarrow> ptr \<Rightarrow> u8 \<Rightarrow> bmem \<Rightarrow> 'c \<Rightarrow> (u8 \<times> bmem \<times> 'c) option" where
  "packet_check ser buffer checksum m c = do {
     (v1, c1) \<leftarrow> serial_recv ser c;
     (v2, c2) \<leftarrow> serial_recv ser c1;
     let xmitcsum = word_of_int (push_bit 4 (hex (ucast v1))) + word_of_int (hex (ucast v2));
     if checksum \<noteq> xmitcsum then do {
       c3 \<leftarrow> serial_send ser 0x2D c2;
       Some (xmitcsum, m, c3)
     } else do {
       c3 \<leftarrow> serial_send ser 0x2B c2;
       if m (buffer + 2) = 0x3A then do {
         c4 \<leftarrow> serial_send ser (scast (m buffer)) c3;
         c5 \<leftarrow> serial_send ser (scast (m (buffer + 1))) c4;
         count \<leftarrow> strlen buffer m;
         Some (xmitcsum, seq_shift buffer 3 count m, c5)
       } else Some (xmitcsum, m, c3)
     }
   }"

partial_function (option) getpacket :: "'c serial \<Rightarrow> ptr \<Rightarrow> bmem \<Rightarrow> 'c \<Rightarrow> (bmem \<times> 'c) option" where
  "getpacket ser buffer m c = do {
     c1 \<leftarrow> packet_start ser c;
     (count, checksum, ch, m1, c2) \<leftarrow> packet_data ser buffer 0 0 0x24 m c1;
     (xmitcsum, m3, c3) \<leftarrow> (if ch = 0x23 then packet_check ser buffer checksum (m1(buffer + of_nat count := 0)) c2
                           else Some (-1, m1(buffer + of_nat count := 0), c2));
     if checksum \<noteq> xmitcsum then getpacket ser buffer m3 c3 else Some (m3, c3)
   }"

section \<open>Sending\<close>

text \<open>A fragment: data of the given length, or up to a null byte when the length is 0, as it is or in hexadecimal.\<close>

record outfrag =
  frag_data :: "nat \<Rightarrow> u8"
  frag_len :: nat
  hexify :: bool

definition SEND :: "'c serial \<Rightarrow> u32 \<Rightarrow> u8 \<times> 'c \<Rightarrow> (u8 \<times> 'c) option" where
  "SEND ser ch s = (case s of (checksum, c) \<Rightarrow>
     map_option (\<lambda>c1. (checksum + ucast ch, c1)) (serial_send ser ch c))"

text \<open>How far a byte is repeated.\<close>

function run_end :: "(nat \<Rightarrow> u8) \<Rightarrow> u8 \<Rightarrow> nat \<Rightarrow> nat \<Rightarrow> nat" where
  "run_end data x q limit = (if q < limit \<and> data q = x then run_end data x (q + 1) limit else q)"
  by pat_completeness auto
termination by (relation "measure (\<lambda>(data, x, q, limit). limit - q)") auto

declare run_end.simps [simp del]

definition run_starts :: "outfrag \<Rightarrow> nat \<Rightarrow> bool" where
  "run_starts f p \<longleftrightarrow>
     (frag_len f = 0 \<or> p + (if hexify f then 1 else 3) < frag_len f)
   \<and> frag_data f (p + 1) = frag_data f p
   \<and> (if hexify f then drop_bit 4 (frag_data f p) = frag_data f p AND 0xf
      else frag_data f (p + 2) = frag_data f p \<and> frag_data f (p + 3) = frag_data f p)"

definition run_stop :: "outfrag \<Rightarrow> nat \<Rightarrow> nat" where
  "run_stop f p =
     (let limit = (if hexify f then p + 49 else p + 98);
          limit = (if frag_len f \<noteq> 0 \<and> limit > frag_len f then frag_len f else limit)
      in run_end (frag_data f) (frag_data f p) (if hexify f then p + 2 else p + 4) limit)"

partial_function (option) send_frag :: "'c serial \<Rightarrow> outfrag \<Rightarrow> nat \<Rightarrow> u8 \<times> 'c \<Rightarrow> (u8 \<times> 'c) option" where
  "send_frag ser f p s =
     (if (if frag_len f \<noteq> 0 then p < frag_len f else frag_data f p \<noteq> 0) then
        (if run_starts f p then do {
           let q = run_stop f p;
           let rl = (if hexify f then (q - p) * 2 else q - p);
           s1 \<leftarrow> SEND ser (if hexify f then ucast (hexchars (frag_data f p AND 0xf)) else ucast (frag_data f p)) s;
           s2 \<leftarrow> SEND ser 0x2A s1;
           s3 \<leftarrow> SEND ser (of_nat (29 + rl - 1)) s2;
           send_frag ser f q s3
         }
         else if hexify f then do {
           s1 \<leftarrow> SEND ser (ucast (hexchars (drop_bit 4 (frag_data f p)))) s;
           s2 \<leftarrow> SEND ser (ucast (hexchars (frag_data f p AND 0xf))) s1;
           send_frag ser f (p + 1) s2
         }
         else do {
           s1 \<leftarrow> SEND ser (ucast (frag_data f p)) s;
           send_frag ser f (p + 1) s1
         })
      else Some s)"

primrec send_frags :: "'c serial \<Rightarrow> outfrag list \<Rightarrow> u8 \<times> 'c \<Rightarrow> (u8 \<times> 'c) option" where
  "send_frags ser [] s = Some s"
| "send_frags ser (f # fs) s = Option.bind (send_frag ser f 0 s) (send_frags ser fs)"

definition send_packet :: "'c serial \<Rightarrow> outfrag list \<Rightarrow> 'c \<Rightarrow> 'c option" where
  "send_packet ser frags c = do {
     c1 \<leftarrow> serial_send ser 0x24 c;
     (checksum, c2) \<leftarrow> send_frags ser frags (0, c1);
     c3 \<leftarrow> serial_send ser 0x23 c2;
     c4 \<leftarrow> serial_send ser (ucast (hexchars (drop_bit 4 checksum))) c3;
     serial_send ser (ucast (hexchars (checksum mod 16))) c4
   }"

partial_function (option) putfrags :: "'c serial \<Rightarrow> outfrag list \<Rightarrow> 'c \<Rightarrow> 'c option" where
  "putfrags ser frags c = do {
     c1 \<leftarrow> send_packet ser frags c;
     (v, c2) \<leftarrow> serial_recv ser c1;
     if v AND 0x7f \<noteq> 0x2B then putfrags ser frags c2 else Some c2
   }"

end
