(* ===== verification/Gdb_Memory.thy ===== *)
theory Gdb_Memory
  imports Strings_Facts
begin

text \<open>
  The debugger's access to the memory of the program, from \<^verbatim>\<open>debug/gdb_serial_support.c\<close>: a walk through
  the page tables of the stopped task, and copies page by page. The copies run with paging off, so every
  address that is used is a physical one, and the byte memory is the physical memory; the control
  register of the processor, which is restored afterwards, is left out.
\<close>

section \<open>Page tables\<close>

abbreviation (input) INTEL_OFFMASK :: u32 where "INTEL_OFFMASK \<equiv> 0xfff"
abbreviation (input) SUPERPAGE_MASK :: u32 where "SUPERPAGE_MASK \<equiv> 0x3fffff"
abbreviation (input) SUPERPAGE_SIZE :: u32 where "SUPERPAGE_SIZE \<equiv> 0x400000"

definition lin2pdenum :: "u32 \<Rightarrow> u32" where "lin2pdenum a = drop_bit 22 a AND 0x3ff"
definition lin2ptenum :: "u32 \<Rightarrow> u32" where "lin2ptenum a = drop_bit 12 a AND 0x3ff"
definition pde_to_pa :: "u32 \<Rightarrow> u32" where "pde_to_pa p = p AND 0xfffff000"
definition pte_to_pa :: "u32 \<Rightarrow> u32" where "pte_to_pa p = p AND 0xfffff000"
definition trunc_superpage :: "u32 \<Rightarrow> u32" where "trunc_superpage x = x AND NOT SUPERPAGE_MASK"

text \<open>
  The registers that \<open>copy_client_paging_registers\<close> saves.
\<close>

record paging =
  client_cr0 :: u32
  client_cr3 :: u32

definition copy_client_paging_registers :: "u32 \<Rightarrow> u32 \<Rightarrow> u32 \<Rightarrow> paging \<Rightarrow> paging" where
  "copy_client_paging_registers cr0 cr3 cr4 g = g\<lparr>client_cr0 := cr0, client_cr3 := cr3\<rparr>"

text \<open>The physical address and the size of the rest of the page; \<open>None\<close> when the size is set to 0.\<close>

definition phys_addr_lookup :: "paging \<Rightarrow> u32 \<Rightarrow> bmem \<Rightarrow> (ptr \<times> u32) option" where
  "phys_addr_lookup g vaddr m =
     (let pd = pde_to_pa (client_cr3 g);
          pde = load32 m (pd + 4 * lin2pdenum vaddr)
      in if client_cr0 g AND 0x80000000 = 0 then Some (vaddr, 0xffffffff)
         else if pde AND 1 = 0 then None
         else if pde AND 0x80 = 0 then
           (let pt = pde_to_pa pde;
                pte = load32 m (pt + 4 * lin2ptenum vaddr);
                offs = vaddr AND INTEL_OFFMASK
            in if pte AND 1 = 0 then None
               else Some (pte_to_pa pte + offs, INTEL_OFFMASK + 1 - offs))
         else
           (let offs = vaddr AND SUPERPAGE_MASK
            in Some (trunc_superpage pde + offs, SUPERPAGE_SIZE - offs)))"

section \<open>Copies\<close>

text \<open>The sizes are positive, so each round of a loop makes the rest shorter.\<close>

lemma lookup_positive: "phys_addr_lookup g v m = Some (pa, sz) \<Longrightarrow> 0 < unat sz"
proof -
  assume a: "phys_addr_lookup g v m = Some (pa, sz)"
  have 1: "(0xfff :: u32) + 1 - (v AND 0xfff) \<noteq> 0"
  proof
    assume "(0xfff :: u32) + 1 - (v AND 0xfff) = 0"
    then have "v AND 0xfff = 0x1000" by simp
    moreover have "v AND 0xfff \<le> 0xfff" by (metis and.commute word_and_le1)
    ultimately show False by simp
  qed
  have 2: "(0x400000 :: u32) - (v AND 0x3fffff) \<noteq> 0"
  proof
    assume "(0x400000 :: u32) - (v AND 0x3fffff) = 0"
    then have "v AND 0x3fffff = 0x400000" by simp
    moreover have "v AND 0x3fffff \<le> 0x3fffff" by (metis and.commute word_and_le1)
    ultimately show False by simp
  qed
  show ?thesis using a 1 2
    by (auto simp: phys_addr_lookup_def Let_def unat_gt_0 split: if_splits)
qed

function gdb_copyin :: "paging \<Rightarrow> u32 \<Rightarrow> ptr \<Rightarrow> u32 \<Rightarrow> bmem \<Rightarrow> int \<times> bmem" where
  "gdb_copyin g src_va dest_buf n m =
     (if n = 0 then (0, m)
      else case phys_addr_lookup g src_va m of
        None \<Rightarrow> (-1, m)
      | Some (pa, sz) \<Rightarrow>
          (let sz = (if sz > n then n else sz)
           in gdb_copyin g (src_va + sz) (dest_buf + sz) (n - sz) (snd (memcpy dest_buf pa (unat sz) m))))"
  by pat_completeness auto
termination
proof (relation "measure (\<lambda>(g, src_va, dest_buf, n, m). unat n)")
  fix g src_va dest_buf n m x2 pa sz sz'
  assume a: "n \<noteq> (0 :: u32)" "phys_addr_lookup g src_va m = Some x2" "(pa, sz) = x2" "sz' = (if n < sz then n else sz)"
  have "0 < unat sz'" "sz' \<le> n" using a lookup_positive [of g src_va m pa sz] by (auto simp: unat_gt_0)
  then have "unat (n - sz') < unat n" by (simp add: unat_sub word_le_nat_alt)
  then show "((g, src_va + sz', dest_buf + sz', n - sz', snd (memcpy dest_buf pa (unat sz') m)), g, src_va, dest_buf, n, m)
    \<in> measure (\<lambda>(g, src_va, dest_buf, n, m). unat n)" by simp
qed simp

declare gdb_copyin.simps [simp del]

function gdb_copyout :: "paging \<Rightarrow> ptr \<Rightarrow> u32 \<Rightarrow> u32 \<Rightarrow> bmem \<Rightarrow> int \<times> bmem" where
  "gdb_copyout g src_buf dest_va n m =
     (if n = 0 then (0, m)
      else case phys_addr_lookup g dest_va m of
        None \<Rightarrow> (-1, m)
      | Some (pa, sz) \<Rightarrow>
          (let sz = (if sz > n then n else sz)
           in gdb_copyout g (src_buf + sz) (dest_va + sz) (n - sz) (snd (memcpy pa src_buf (unat sz) m))))"
  by pat_completeness auto
termination
proof (relation "measure (\<lambda>(g, src_buf, dest_va, n, m). unat n)")
  fix g src_buf dest_va n m x2 pa sz sz'
  assume a: "n \<noteq> (0 :: u32)" "phys_addr_lookup g dest_va m = Some x2" "(pa, sz) = x2" "sz' = (if n < sz then n else sz)"
  have "0 < unat sz'" "sz' \<le> n" using a lookup_positive [of g dest_va m pa sz] by (auto simp: unat_gt_0)
  then have "unat (n - sz') < unat n" by (simp add: unat_sub word_le_nat_alt)
  then show "((g, src_buf + sz', dest_va + sz', n - sz', snd (memcpy pa src_buf (unat sz') m)), g, src_buf, dest_va, n, m)
    \<in> measure (\<lambda>(g, src_buf, dest_va, n, m). unat n)" by simp
qed simp

declare gdb_copyout.simps [simp del]

section \<open>Trace flag\<close>

definition gdb_set_trace_flag :: "bool \<Rightarrow> ptr \<Rightarrow> bmem \<Rightarrow> bmem" where
  "gdb_set_trace_flag trace_enable regs m =
     store32 m (regs + 36)
       (if trace_enable then load32 m (regs + 36) OR 0x100 else load32 m (regs + 36) AND NOT 0x100)"

end
