(* ===== verification/Gdb_Stub.thy ===== *)
theory Gdb_Stub
  imports Gdb_Packets Gdb_Memory
begin

text \<open>
  The commands of the debugger stub, the rest of \<^verbatim>\<open>debug/gdb_serial.c\<close>. The buffer for the packets, the
  registers of the stopped task and the memory of the machine are parts of one byte memory; the array of
  variable length in the \<open>M\<close> command is an address that the stack determines. A command ends with the
  value of \<open>retval\<close>, the parameter block and the state.
\<close>

section \<open>State\<close>

record 'c stub =
  smem :: bmem
  sline :: 'c
  connected :: bool
  gdb_serial_debug :: bool

record gdb_params =
  thread_id :: u32
  signo :: u8
  regs :: ptr
  regs_changed :: bool

datatype gdb_action = GDB_MORE | GDB_CONT | GDB_RUN | GDB_KILL | GDB_DETACH

text \<open>The callbacks of the caller: functions that may be missing. They may change the parameters and the memory.\<close>

type_synonym gdb_callback = "gdb_params \<Rightarrow> u32 \<Rightarrow> bmem \<Rightarrow> u32 \<times> gdb_params \<times> bmem"

record gdb_callbacks =
  thread_alive :: "gdb_callback option"
  thread_switch :: "gdb_callback option"

text \<open>What does not change during a conversation.\<close>

record 'c gdb_env =
  gdb_line :: "'c serial"
  callbacks :: "gdb_callbacks option"
  paging_regs :: paging
  inbuf :: ptr
  outbuf :: "u32 \<Rightarrow> ptr"

abbreviation (input) REGS_SIZE :: nat where "REGS_SIZE \<equiv> 64"
abbreviation (input) NSIG :: int where "NSIG \<equiv> 32"

section \<open>Replies\<close>

definition str_frag :: "string \<Rightarrow> outfrag" where
  "str_frag s = \<lparr>frag_data = (\<lambda>i. if i < length s then of_char (s ! i) else 0), frag_len = 0, hexify = False\<rparr>"

definition byte_frag :: "u8 \<Rightarrow> outfrag" where
  "byte_frag b = \<lparr>frag_data = (\<lambda>i. b), frag_len = 1, hexify = True\<rparr>"

definition mem_frag :: "bmem \<Rightarrow> ptr \<Rightarrow> nat \<Rightarrow> bool \<Rightarrow> outfrag" where
  "mem_frag m p n h = \<lparr>frag_data = (\<lambda>i. m (p + of_nat i)), frag_len = n, hexify = h\<rparr>"

definition putpacket :: "'c gdb_env \<Rightarrow> outfrag list \<Rightarrow> 'c stub \<Rightarrow> 'c stub option" where
  "putpacket e frags s = map_option (\<lambda>c. s\<lparr>sline := c\<rparr>) (putfrags (gdb_line e) frags (sline s))"

type_synonym 'c reply = "(gdb_action \<times> gdb_params \<times> 'c stub) option"

text \<open>The ends of a command: a packet with its answer, and the labels \<open>ok\<close>, \<open>errpacket\<close> and \<open>unknown\<close>.\<close>

definition gdb_reply :: "'c gdb_env \<Rightarrow> gdb_action \<Rightarrow> outfrag list \<Rightarrow> gdb_params \<Rightarrow> 'c stub \<Rightarrow> 'c reply" where
  "gdb_reply e retval frags p s = map_option (\<lambda>s1. (retval, p, s1)) (putpacket e frags s)"

definition gdb_ok :: "'c gdb_env \<Rightarrow> gdb_action \<Rightarrow> gdb_params \<Rightarrow> 'c stub \<Rightarrow> 'c reply" where
  "gdb_ok e retval p s = gdb_reply e retval [str_frag ''OK''] p s"

definition gdb_error :: "'c gdb_env \<Rightarrow> u8 \<Rightarrow> gdb_params \<Rightarrow> 'c stub \<Rightarrow> 'c reply" where
  "gdb_error e errchar p s = gdb_reply e GDB_MORE [str_frag ''E'', byte_frag errchar] p s"

definition gdb_unknown :: "'c gdb_env \<Rightarrow> gdb_params \<Rightarrow> 'c stub \<Rightarrow> 'c reply" where
  "gdb_unknown e p s = gdb_reply e GDB_MORE [str_frag ''''] p s"

section \<open>Threads\<close>

definition cmd_thread :: "'c gdb_env \<Rightarrow> gdb_params \<Rightarrow> 'c stub \<Rightarrow> 'c reply" where
  "cmd_thread e p s = do {
     (th, endth) \<leftarrow> strtol (inbuf e + 2) 16 (smem s);
     if endth = inbuf e + 2 then gdb_error e 4 p s
     else case Option.bind (callbacks e) thread_switch of
       None \<Rightarrow> gdb_unknown e p s
     | Some switch \<Rightarrow>
         (if th \<noteq> - 1 \<and> th \<noteq> 0 \<and> th \<noteq> thread_id p then
            (case switch p th (smem s) of (r, p1, m1) \<Rightarrow>
               if (ucast r :: u8) \<noteq> 0 then gdb_error e (ucast r) p1 (s\<lparr>smem := m1\<rparr>)
               else gdb_ok e GDB_MORE (p1\<lparr>thread_id := th, regs_changed := False\<rparr>) (s\<lparr>smem := m1\<rparr>))
          else gdb_ok e GDB_MORE p s)
   }"

definition cmd_alive :: "'c gdb_env \<Rightarrow> gdb_params \<Rightarrow> 'c stub \<Rightarrow> 'c reply" where
  "cmd_alive e p s = do {
     (th, endth) \<leftarrow> strtol (inbuf e + 1) 16 (smem s);
     if endth = inbuf e + 1 then gdb_error e 1 p s
     else case Option.bind (callbacks e) thread_alive of
       None \<Rightarrow> gdb_unknown e p s
     | Some alive \<Rightarrow>
         (case alive p th (smem s) of (r, p1, m1) \<Rightarrow>
            if (ucast r :: u8) \<noteq> 0 then gdb_error e (ucast r) p1 (s\<lparr>smem := m1\<rparr>)
            else gdb_ok e GDB_MORE p1 (s\<lparr>smem := m1\<rparr>))
   }"

section \<open>Registers\<close>

definition cmd_get_regs :: "'c gdb_env \<Rightarrow> gdb_params \<Rightarrow> 'c stub \<Rightarrow> 'c reply" where
  "cmd_get_regs e p s = gdb_reply e GDB_MORE [mem_frag (smem s) (regs p) REGS_SIZE True] p s"

definition cmd_set_regs :: "'c gdb_env \<Rightarrow> gdb_params \<Rightarrow> 'c stub \<Rightarrow> 'c reply" where
  "cmd_set_regs e p s =
     (case hex2bin (inbuf e + 1) (regs p) REGS_SIZE (smem s) of (r, m1) \<Rightarrow>
        if r \<noteq> 0 then gdb_error e 4 p (s\<lparr>smem := m1\<rparr>)
        else gdb_ok e GDB_MORE (p\<lparr>regs_changed := True\<rparr>) (s\<lparr>smem := m1\<rparr>))"

definition cmd_set_reg :: "'c gdb_env \<Rightarrow> gdb_params \<Rightarrow> 'c stub \<Rightarrow> 'c reply" where
  "cmd_set_reg e p s = do {
     (reg, eqp) \<leftarrow> strtoul (inbuf e + 1) 16 (smem s);
     if eqp = inbuf e + 1 \<or> smem s eqp \<noteq> 0x3D then gdb_error e 4 p s
     else if reg = 0x29 then gdb_ok e GDB_MORE p s
     else if (reg + 1) * 4 > of_nat REGS_SIZE then gdb_error e 4 p s
     else (case hex2bin (eqp + 1) (regs p + 4 * reg) 4 (smem s) of (r, m1) \<Rightarrow>
        if r \<noteq> 0 then gdb_error e 4 p (s\<lparr>smem := m1\<rparr>)
        else gdb_ok e GDB_MORE (p\<lparr>regs_changed := True\<rparr>) (s\<lparr>smem := m1\<rparr>))
   }"

section \<open>Memory\<close>

definition cmd_read_mem :: "'c gdb_env \<Rightarrow> gdb_params \<Rightarrow> 'c stub \<Rightarrow> 'c reply" where
  "cmd_read_mem e p s = do {
     (addr, q) \<leftarrow> strtoul (inbuf e + 1) 16 (smem s);
     if q = inbuf e + 1 \<or> smem s q \<noteq> 0x2C then gdb_error e 2 p s
     else do {
       (len, q2) \<leftarrow> strtoul (q + 1) 16 (smem s);
       if q2 = q + 1 \<or> len * 2 > of_nat BUFMAX then gdb_error e 2 p s
       else (case gdb_copyin (paging_regs e) addr (inbuf e) len (smem s) of (r, m1) \<Rightarrow>
          if r \<noteq> 0 then gdb_error e 3 p (s\<lparr>smem := m1\<rparr>)
          else gdb_reply e GDB_MORE [mem_frag m1 (inbuf e) (unat len) True] p (s\<lparr>smem := m1\<rparr>))
     }
   }"

definition cmd_write_mem :: "'c gdb_env \<Rightarrow> gdb_params \<Rightarrow> 'c stub \<Rightarrow> 'c reply" where
  "cmd_write_mem e p s = do {
     (addr, q) \<leftarrow> strtoul (inbuf e + 1) 16 (smem s);
     if q = inbuf e + 1 \<or> smem s q \<noteq> 0x2C then gdb_error e 2 p s
     else do {
       (len, q2) \<leftarrow> strtoul (q + 1) 16 (smem s);
       if q2 = q + 1 \<or> smem s q2 \<noteq> 0x3A then gdb_error e 2 p s
       else if q2 + 1 + len * 2 > inbuf e + of_nat BUFMAX then gdb_error e 2 p s
       else (case hex2bin (q2 + 1) (outbuf e len) (unat len) (smem s) of (r, m1) \<Rightarrow>
          if r \<noteq> 0 then gdb_error e 2 p (s\<lparr>smem := m1\<rparr>)
          else (case gdb_copyout (paging_regs e) (outbuf e len) addr len m1 of (r, m2) \<Rightarrow>
             if r \<noteq> 0 then gdb_error e 3 p (s\<lparr>smem := m2\<rparr>)
             else gdb_ok e GDB_MORE p (s\<lparr>smem := m2\<rparr>)))
     }
   }"

text \<open>The loop that removes the escapes; the first result is \<open>None\<close> for an escape at the end.\<close>

partial_function (option) dequote :: "ptr \<Rightarrow> ptr \<Rightarrow> ptr \<Rightarrow> bmem \<Rightarrow> (ptr option \<times> bmem) option" where
  "dequote inp endp out m =
     (if inp < endp then
        (if m inp = 0x7d then
           (if endp - inp < 2 then Some (None, m)
            else dequote (inp + 2) endp (out + 1) (m(out := m (inp + 1) XOR 0x20)))
         else dequote (inp + 1) endp (out + 1) (m(out := m inp)))
      else Some (Some out, m))"

definition cmd_write_bin :: "'c gdb_env \<Rightarrow> gdb_params \<Rightarrow> 'c stub \<Rightarrow> 'c reply" where
  "cmd_write_bin e p s = do {
     (addr, q) \<leftarrow> strtoul (inbuf e + 1) 16 (smem s);
     if q = inbuf e + 1 \<or> smem s q \<noteq> 0x2C then gdb_error e 2 p s
     else do {
       (len, q2) \<leftarrow> strtoul (q + 1) 16 (smem s);
       if q2 = q + 1 \<or> smem s q2 \<noteq> 0x3A then gdb_error e 2 p s
       else if q2 + 1 + len > inbuf e + of_nat BUFMAX then gdb_error e 2 p s
       else do {
         (out, m1) \<leftarrow> dequote (q2 + 1) (q2 + 1 + len) (inbuf e) (smem s);
         case out of
           None \<Rightarrow> gdb_error e 2 p (s\<lparr>smem := m1\<rparr>)
         | Some out \<Rightarrow>
             (case gdb_copyout (paging_regs e) (inbuf e) addr (out - inbuf e) m1 of (r, m2) \<Rightarrow>
                if r \<noteq> 0 then gdb_error e 3 p (s\<lparr>smem := m2\<rparr>)
                else gdb_ok e GDB_MORE p (s\<lparr>smem := m2\<rparr>))
       }
     }
   }"

section \<open>Continue and step\<close>

text \<open>The optional address at a place of the packet, and the trace flag.\<close>

definition resume_at :: "'c gdb_env \<Rightarrow> ptr \<Rightarrow> u8 \<Rightarrow> gdb_params \<Rightarrow> 'c stub \<Rightarrow> 'c reply" where
  "resume_at e place sig p s = do {
     (new_eip, q) \<leftarrow> strtoul place 16 (smem s);
     let change = (q > place \<and> new_eip \<noteq> load32 (smem s) (regs p + 32));
     let m1 = (if change then store32 (smem s) (regs p + 32) new_eip else smem s);
     let step = (m1 (inbuf e) = 0x73 \<or> m1 (inbuf e) = 0x53);
     let m2 = gdb_set_trace_flag step (regs p) m1;
     Some (GDB_CONT, p\<lparr>regs_changed := regs_changed p \<or> change, signo := sig\<rparr>, s\<lparr>smem := m2\<rparr>)
   }"

definition cmd_continue :: "'c gdb_env \<Rightarrow> gdb_params \<Rightarrow> 'c stub \<Rightarrow> 'c reply" where
  "cmd_continue e p s = resume_at e (inbuf e + 1) 0 p s"

definition cmd_signal :: "'c gdb_env \<Rightarrow> gdb_params \<Rightarrow> 'c stub \<Rightarrow> 'c reply" where
  "cmd_signal e p s =
     (let nsig = push_bit 4 (hex (smem s (inbuf e + 1))) OR hex (smem s (inbuf e + 2))
      in if nsig \<le> 0 \<or> nsig \<ge> NSIG then gdb_error e 5 p s
         else resume_at e (inbuf e + 3) (word_of_int nsig) p s)"

section \<open>Reports\<close>

text \<open>The hexadecimal digits of a thread identifier, the last one first, with at most 8 of them.\<close>

function tid_digits :: "u32 \<Rightarrow> u8 list" where
  "tid_digits x =
     (let d = hexchars (ucast (x AND 0xf)); x1 = drop_bit 4 x
      in if x1 \<noteq> 0 then d # tid_digits x1 else [d])"
  by pat_completeness auto
termination
proof (relation "measure unat")
  fix x d and x1 :: u32
  assume a: "x1 = drop_bit 4 x" "x1 \<noteq> 0"
  have u: "unat x1 = unat x div 16" using a(1) by (simp add: drop_bit_eq_div unat_div)
  have "0 < unat x1" using a(2) by (simp add: unat_gt_0)
  then have "unat x1 < unat x" unfolding u by (cases "unat x") auto
  then show "(x1, x) \<in> measure unat" by simp
qed simp

declare tid_digits.simps [simp del]

primrec store_bytes :: "ptr \<Rightarrow> u8 list \<Rightarrow> bmem \<Rightarrow> bmem" where
  "store_bytes p [] m = m"
| "store_bytes p (b # bs) m = store_bytes (p + 1) bs (m(p := b))"

definition cmd_report :: "'c gdb_env \<Rightarrow> gdb_params \<Rightarrow> 'c stub \<Rightarrow> 'c reply" where
  "cmd_report e p s =
     (if Option.bind (callbacks e) thread_switch \<noteq> None \<and> thread_id p \<noteq> 0 \<and> thread_id p \<noteq> - 1 then
        (let m1 = store_bytes (inbuf e) (bytes ''thread:'' @ rev (tid_digits (thread_id p)) @ bytes '';'' @ [0]) (smem s)
         in gdb_reply e GDB_MORE [str_frag ''T'', byte_frag (signo p), mem_frag m1 (inbuf e) 0 False] p (s\<lparr>smem := m1\<rparr>))
      else gdb_reply e GDB_MORE [str_frag ''S'', byte_frag (signo p)] p s)"

section \<open>The conversation\<close>

definition gdb_command :: "'c gdb_env \<Rightarrow> gdb_params \<Rightarrow> 'c stub \<Rightarrow> 'c reply" where
  "gdb_command e p s =
     (let ch = smem s (inbuf e)
      in if ch = of_char (CHR ''H'') then cmd_thread e p s
         else if ch = of_char (CHR ''T'') then cmd_alive e p s
         else if ch = of_char (CHR ''g'') then cmd_get_regs e p s
         else if ch = of_char (CHR ''G'') then cmd_set_regs e p s
         else if ch = of_char (CHR ''P'') then cmd_set_reg e p s
         else if ch = of_char (CHR ''m'') then cmd_read_mem e p s
         else if ch = of_char (CHR ''M'') then cmd_write_mem e p s
         else if ch = of_char (CHR ''X'') then cmd_write_bin e p s
         else if ch = of_char (CHR ''c'') \<or> ch = of_char (CHR ''s'') then cmd_continue e p s
         else if ch = of_char (CHR ''C'') \<or> ch = of_char (CHR ''S'') then cmd_signal e p s
         else if ch = of_char (CHR ''?'') then cmd_report e p s
         else if ch = of_char (CHR ''D'') then gdb_ok e GDB_DETACH p (s\<lparr>connected := False\<rparr>)
         else if ch = of_char (CHR ''R'') then Some (GDB_RUN, p, s\<lparr>connected := False\<rparr>)
         else if ch = of_char (CHR ''k'') then Some (GDB_KILL, p, s\<lparr>connected := False\<rparr>)
         else if ch = of_char (CHR ''d'') then gdb_ok e GDB_MORE p (s\<lparr>gdb_serial_debug := \<not> gdb_serial_debug s\<rparr>)
         else if ch = of_char (CHR ''!'') then gdb_ok e GDB_MORE p s
         else gdb_unknown e p s)"

text \<open>One round of the loop, and the loop.\<close>

definition gdb_round :: "'c gdb_env \<Rightarrow> gdb_params \<Rightarrow> 'c stub \<Rightarrow> 'c reply" where
  "gdb_round e p s = do {
     (m, c) \<leftarrow> getpacket (gdb_line e) (inbuf e) (smem s) (sline s);
     gdb_command e p (s\<lparr>smem := m, sline := c, connected := True\<rparr>)
   }"

partial_function (option) gdb_rounds :: "'c gdb_env \<Rightarrow> gdb_params \<Rightarrow> 'c stub \<Rightarrow> 'c reply" where
  "gdb_rounds e p s = do {
     (retval, p1, s1) \<leftarrow> gdb_round e p s;
     if retval = GDB_MORE then gdb_rounds e p1 s1 else Some (retval, p1, s1)
   }"

definition gdb_serial_converse :: "'c gdb_env \<Rightarrow> gdb_params \<Rightarrow> 'c stub \<Rightarrow> 'c reply" where
  "gdb_serial_converse e p s = do {
     (retval, p1, s1) \<leftarrow> cmd_report e (p\<lparr>regs_changed := False\<rparr>) s;
     gdb_rounds e p1 s1
   }"

section \<open>Output through the stub\<close>

text \<open>The function pointers for the line may be missing. The end of the program, and console output.\<close>

definition gdb_end :: "'c serial option \<Rightarrow> string \<Rightarrow> u8 \<Rightarrow> 'c stub \<Rightarrow> 'c stub option" where
  "gdb_end ser letter b s =
     (case ser of
        None \<Rightarrow> Some s
      | Some ser \<Rightarrow>
          (if \<not> connected s then Some s
           else map_option (\<lambda>c. s\<lparr>sline := c, connected := False\<rparr>) (putfrags ser [str_frag letter, byte_frag b] (sline s))))"

definition gdb_serial_exit :: "'c serial option \<Rightarrow> u32 \<Rightarrow> 'c stub \<Rightarrow> 'c stub option" where
  "gdb_serial_exit ser exit_code s = gdb_end ser ''W'' (ucast exit_code) s"

definition gdb_serial_killed :: "'c serial option \<Rightarrow> u32 \<Rightarrow> 'c stub \<Rightarrow> 'c stub option" where
  "gdb_serial_killed ser sig s = gdb_end ser ''X'' (ucast sig) s"

definition gdb_serial_putchar :: "'c serial option \<Rightarrow> u32 \<Rightarrow> 'c stub \<Rightarrow> 'c stub option" where
  "gdb_serial_putchar ser ch s =
     (case ser of
        None \<Rightarrow> Some s
      | Some ser \<Rightarrow>
          map_option (\<lambda>c. s\<lparr>sline := c\<rparr>)
            (if \<not> connected s then serial_send ser ch (sline s)
             else putfrags ser [str_frag ''O'', byte_frag (ucast ch)] (sline s)))"

partial_function (option) send_string :: "'c serial \<Rightarrow> ptr \<Rightarrow> bmem \<Rightarrow> 'c \<Rightarrow> 'c option" where
  "send_string ser p m c =
     (if m p \<noteq> 0 then Option.bind (serial_send ser (scast (m p)) c) (send_string ser (p + 1) m) else Some c)"

definition gdb_serial_puts :: "'c serial option \<Rightarrow> ptr \<Rightarrow> 'c stub \<Rightarrow> 'c stub option" where
  "gdb_serial_puts ser str s =
     (case ser of
        None \<Rightarrow> Some s
      | Some ser \<Rightarrow>
          map_option (\<lambda>c. s\<lparr>sline := c\<rparr>)
            (if \<not> connected s then Option.bind (send_string ser str (smem s) (sline s)) (serial_send ser 0x0A)
             else putfrags ser [str_frag ''O'', mem_frag (smem s) str 0 True,
                    \<lparr>frag_data = (\<lambda>i. if i = 0 then 0x0A else 0), frag_len = 1, hexify = True\<rparr>] (sline s)))"

end
