(* ===== verification/Trap.thy ===== *)
theory Trap
  imports Gdb_Stub Devices Descriptors
begin

text \<open>
  The handler of the exceptions, from \<^verbatim>\<open>debug/debugger.c\<close> and \<open>reboot\<close> of \<^verbatim>\<open>boot/processor_structs.c\<close>:
  the registers of the stopped task on the screen, and the debugger stub on the serial line. The task
  state of the stopped task, the screen, the tables and the stack are parts of the byte memory. The
  addresses that the linker and the stack determine are arguments.
\<close>

section \<open>State\<close>

text \<open>The serial line through the ports, and what the handler needs to know of its surroundings.\<close>

definition com1_serial :: "'d hardware \<Rightarrow> (bool \<times> 'd) serial" where
  "com1_serial hw = \<lparr>serial_recv = read_com1 hw, serial_send = write_com1 hw\<rparr>"

record trap_env =
  gdt_at :: ptr
  task_dump_screen :: ptr
  state_at :: ptr
  inbuf_at :: ptr
  outbuf_at :: "u32 \<Rightarrow> ptr"
  video_mem :: ptr
  reg_tr :: u32
  reg_cr0 :: u32
  reg_cr4 :: u32

record 'd trap_state =
  tstub :: "(bool \<times> 'd) stub"
  do_debug :: bool
  gdb_serial :: "(bool \<times> 'd) serial option"

datatype 's trap_end = Returned 's | Rebooted 's

abbreviation (input) screen_base :: ptr where "screen_base \<equiv> 0xb8000"

definition trap_inb :: "'d hardware \<Rightarrow> 'd trap_state \<Rightarrow> u8 \<times> 'd trap_state" where
  "trap_inb hw s =
     (case inb hw 0x60 (snd (sline (tstub s))) of (v, d) \<Rightarrow>
        (v, s\<lparr>tstub := (tstub s)\<lparr>sline := (fst (sline (tstub s)), d)\<rparr>\<rparr>))"

definition on_memory :: "(bmem \<Rightarrow> bmem) \<Rightarrow> 'd trap_state \<Rightarrow> 'd trap_state" where
  "on_memory f s = s\<lparr>tstub := (tstub s)\<lparr>smem := f (smem (tstub s))\<rparr>\<rparr>"

definition reboot :: "'d trap_state \<Rightarrow> 'd trap_state trap_end option" where
  "reboot s = map_option (\<lambda>t. Rebooted (s\<lparr>tstub := t\<rparr>)) (gdb_serial_exit (gdb_serial s) 0 (tstub s))"

section \<open>The debugger\<close>

definition trap_signal :: "u32 \<Rightarrow> u8" where
  "trap_signal trapno =
     (if trapno \<in> {0, 4, 5, 7, 8, 9, 15} then 8
      else if trapno \<in> {1, 3} then 5
      else if trapno \<in> {10, 11, 12, 13, 14} then 11
      else 4)"

text \<open>The fields that the task state and the registers for the debugger share: their offsets in both.\<close>

definition shared_fields :: "(u32 \<times> u32) list" where
  "shared_fields =
     [(40, 0), (44, 4), (48, 8), (52, 12), (56, 16), (60, 20), (64, 24), (68, 28), (32, 32), (36, 36),
      (76, 40), (80, 44), (84, 48), (72, 52), (88, 56), (92, 60)]"

definition state_of_tss :: "ptr \<Rightarrow> ptr \<Rightarrow> bmem \<Rightarrow> bmem" where
  "state_of_tss t st m = fold (\<lambda>(a, b) m. store32 m (st + b) (load32 m (t + a))) shared_fields m"

definition tss_of_state :: "ptr \<Rightarrow> ptr \<Rightarrow> bmem \<Rightarrow> bmem" where
  "tss_of_state t st m = fold (\<lambda>(a, b) m. store32 m (t + a) (load32 m (st + b))) shared_fields m"

definition trap_gdb_env :: "trap_env \<Rightarrow> (bool \<times> 'd) serial \<Rightarrow> ptr \<Rightarrow> bmem \<Rightarrow> (bool \<times> 'd) gdb_env" where
  "trap_gdb_env e ser t m =
     \<lparr>gdb_line = ser, callbacks = None,
      paging_regs = copy_client_paging_registers (reg_cr0 e) (load32 m (t + 28)) (reg_cr4 e) \<lparr>client_cr0 = 0, client_cr3 = 0\<rparr>,
      inbuf = inbuf_at e, outbuf = outbuf_at e\<rparr>"

definition debugger :: "trap_env \<Rightarrow> u32 \<Rightarrow> u32 \<Rightarrow> ptr \<Rightarrow> (bool \<times> 'd) serial \<Rightarrow> 'd trap_state \<Rightarrow> 'd trap_state trap_end option" where
  "debugger e trapno error_code t ser s = do {
     let p = \<lparr>thread_id = - 1, signo = trap_signal trapno, regs = state_at e, regs_changed = False\<rparr>;
     let s1 = on_memory (state_of_tss t (state_at e)) s;
     (action, p1, stub1) \<leftarrow> gdb_serial_converse (trap_gdb_env e ser t (smem (tstub s1))) p (tstub s1);
     let s2 = s1\<lparr>tstub := stub1\<rparr>;
     if action = GDB_KILL then reboot s2
     else
       (let s3 = (if action = GDB_DETACH then s2\<lparr>do_debug := False\<rparr> else s2)
        in Some (Returned (on_memory (tss_of_state t (state_at e)) s3)))
   }"

section \<open>Registers on the screen\<close>

definition hex_digit :: "u32 \<Rightarrow> u8" where
  "hex_digit i = (if unat i < 10 then 0x30 + ucast i else 0x41 + (ucast i - 10))"

primrec write_hex_loop :: "ptr \<Rightarrow> nat \<Rightarrow> u32 \<Rightarrow> bmem \<Rightarrow> bmem" where
  "write_hex_loop p 0 v m = m"
| "write_hex_loop p (Suc n) v m =
     write_hex_loop (p - 2) n (drop_bit 4 v) (m(p - 2 := hex_digit (v AND 15)))"

definition write_hex :: "nat \<Rightarrow> nat \<Rightarrow> nat \<Rightarrow> u32 \<Rightarrow> bmem \<Rightarrow> bmem" where
  "write_hex line col len v m =
     write_hex_loop (screen_base + of_nat ((line - 1) * 160 + (col + len - 1) * 2)) len v m"

text \<open>
  The screen of the dump, whose lines end with a line feed, then its colours, then the numbers: line,
  column, digits and value of each.
\<close>

definition dump_text :: "ptr \<Rightarrow> bmem \<Rightarrow> bmem" where
  "dump_text src m =
     fold (\<lambda>i m. fold (\<lambda>j m. m(screen_base + of_nat (i * 160 + j * 2) := m (src + of_nat (81 * i + j)))) [0 ..< 80] m)
       [0 ..< 25] m"

definition dump_colours :: "bmem \<Rightarrow> bmem" where
  "dump_colours m =
     fold (\<lambda>i m. m(screen_base + of_nat (2 * i + 1) := 0x34)) [161 ..< 239]
       (fold (\<lambda>i m. m(screen_base + of_nat (2 * i + 1) := 0x30)) [0 ..< 80 * 25] m)"

definition dump_fields :: "(nat \<times> nat \<times> nat \<times> u32) list" where
  "dump_fields =
     [(9, 69, 4, 0), (11, 11, 8, 56), (11, 32, 4, 80), (11, 52, 8, 4), (11, 74, 4, 8), (13, 11, 8, 12), (13, 32, 4, 16),
      (13, 52, 8, 20), (13, 74, 4, 24), (15, 15, 8, 32), (15, 41, 4, 76), (15, 66, 8, 36), (17, 10, 8, 40), (17, 30, 8, 52),
      (17, 50, 8, 44), (17, 70, 8, 48), (19, 10, 8, 64), (19, 30, 8, 68), (19, 50, 8, 60), (19, 72, 4, 96), (21, 12, 4, 84),
      (21, 32, 4, 72), (21, 52, 4, 88), (21, 72, 4, 92), (23, 30, 8, 28)]"

definition dump_registers :: "trap_env \<Rightarrow> u32 \<Rightarrow> u32 \<Rightarrow> ptr \<Rightarrow> bmem \<Rightarrow> bmem" where
  "dump_registers e trapno error_code t m =
     (let m1 = dump_colours (dump_text (task_dump_screen e) m);
          m2 = write_hex 9 21 8 t (write_hex 7 60 8 error_code (write_hex 7 21 2 trapno m1));
          m3 = fold (\<lambda>(line, col, len, off) m. write_hex line col len (load32 m (t + off)) m) dump_fields m2
      in write_hex 23 70 1 (ucast (m3 (t + 100) AND 1)) m3)"

section \<open>The handler\<close>

definition tss_sel_2_tss :: "trap_env \<Rightarrow> u16 \<Rightarrow> bmem \<Rightarrow> ptr" where
  "tss_sel_2_tss e sel m =
     (let pdesc = gdt_at e + 8 * ucast (drop_bit 3 sel);
          p = load32 m (pdesc + 2) AND 0xffffff
      in p + push_bit 24 (ucast (m (pdesc + 7))))"

text \<open>Wait until the key is released: while the port still gives its code.\<close>

partial_function (option) wait_release :: "'d hardware \<Rightarrow> u8 \<Rightarrow> 'd trap_state \<Rightarrow> 'd trap_state option" where
  "wait_release hw code s =
     (case trap_inb hw s of (v, s1) \<Rightarrow> if v = code then wait_release hw code s1 else Some s1)"

definition save_screen :: "trap_env \<Rightarrow> bmem \<Rightarrow> bmem" where
  "save_screen e m = snd (memcpy (video_mem e) screen_base 4000 m)"

definition restore_screen :: "trap_env \<Rightarrow> bmem \<Rightarrow> bmem" where
  "restore_screen e m = snd (memcpy screen_base (video_mem e) 4000 m)"

text \<open>The keyboard loop; \<open>shown\<close> is the variable \<open>d\<close>: the dump is on the screen.\<close>

partial_function (option) trap_keys :: "'d hardware \<Rightarrow> trap_env \<Rightarrow> u32 \<Rightarrow> u32 \<Rightarrow> ptr \<Rightarrow> bool \<Rightarrow> 'd trap_state
    \<Rightarrow> 'd trap_state trap_end option" where
  "trap_keys hw e trapno error_code t shown s =
     (case trap_inb hw s of (c, s1) \<Rightarrow>
        if c = 0x39 then
          Option.bind (wait_release hw 0x39
              (on_memory (if \<not> shown then dump_registers e trapno error_code t else restore_screen e) s1))
            (trap_keys hw e trapno error_code t (\<not> shown))
        else if c = 1 then reboot s1
        else if c = 0x17 then map_option Returned (wait_release hw 0x17 (on_memory (restore_screen e) s1))
        else if c = 0x20 then
          Option.bind (wait_release hw 0x20 (on_memory (restore_screen e) s1))
            (\<lambda>s2. debugger e trapno error_code t (com1_serial hw)
               (s2\<lparr>do_debug := True, gdb_serial := Some (com1_serial hw)\<rparr>))
        else trap_keys hw e trapno error_code t shown s1)"

definition trap_handler :: "'d hardware \<Rightarrow> trap_env \<Rightarrow> u32 \<Rightarrow> u32 \<Rightarrow> 'd trap_state \<Rightarrow> 'd trap_state trap_end option" where
  "trap_handler hw e trapno error_code s =
     (let m = smem (tstub s);
          t = tss_sel_2_tss e (ucast (load32 m (tss_sel_2_tss e (ucast (reg_tr e)) m))) m
      in if do_debug s then
           (case gdb_serial s of
              None \<Rightarrow> None
            | Some ser \<Rightarrow> debugger e trapno error_code t ser s)
         else trap_keys hw e trapno error_code t True
           (on_memory (\<lambda>m. dump_registers e trapno error_code t (save_screen e m)) s))"

end
