(* ===== verification/Gdb_Memory_Facts.thy ===== *)
theory Gdb_Memory_Facts
  imports Gdb_Memory Formatting_Facts
begin

text \<open>
  The copies of the debugger stub against the translation of single addresses: a copy moves the byte at the
  translation of each address, whatever pages the area crosses, and what is written at a virtual address
  is read back there.
\<close>

section \<open>Translation\<close>

text \<open>The bytes of the two entries that the translation of an address looks at.\<close>

definition table_bytes :: "paging \<Rightarrow> bmem \<Rightarrow> u32 \<Rightarrow> ptr set" where
  "table_bytes g m v =
     (let pdp = pde_to_pa (client_cr3 g) + 4 * lin2pdenum v; ptp = pde_to_pa (load32 m pdp) + 4 * lin2ptenum v
      in {a. unat (a - pdp) < 4} \<union> {a. unat (a - ptp) < 4})"

definition mapped :: "paging \<Rightarrow> bmem \<Rightarrow> u32 \<Rightarrow> ptr \<Rightarrow> bool" where
  "mapped g m v pa \<longleftrightarrow> (\<exists>z. phys_addr_lookup g v m = Some (pa, z))"

lemma load32_cong: "(\<And>x. unat (x - a) < 4 \<Longrightarrow> m' x = m x) \<Longrightarrow> load32 m' a = load32 m a"
proof -
  assume h: "\<And>x. unat (x - a) < 4 \<Longrightarrow> m' x = m x"
  have "m' a = m a" "m' (a + 1) = m (a + 1)" "m' (a + 2) = m (a + 2)" "m' (a + 3) = m (a + 3)"
    using h [of a] h [of "a + 1"] h [of "a + 2"] h [of "a + 3"] by simp_all
  then show ?thesis by (simp add: load32_def)
qed

lemma lookup_cong:
  assumes "\<And>a. a \<in> table_bytes g m v \<Longrightarrow> m' a = m a"
  shows "phys_addr_lookup g v m' = phys_addr_lookup g v m" "table_bytes g m' v = table_bytes g m v"
proof -
  have 1: "load32 m' (pde_to_pa (client_cr3 g) + 4 * lin2pdenum v) = load32 m (pde_to_pa (client_cr3 g) + 4 * lin2pdenum v)"
    using assms by (intro load32_cong) (simp add: table_bytes_def Let_def)
  have 2: "load32 m' (pde_to_pa (load32 m (pde_to_pa (client_cr3 g) + 4 * lin2pdenum v)) + 4 * lin2ptenum v) =
      load32 m (pde_to_pa (load32 m (pde_to_pa (client_cr3 g) + 4 * lin2pdenum v)) + 4 * lin2ptenum v)"
    using assms by (intro load32_cong) (simp add: table_bytes_def Let_def)
  show "phys_addr_lookup g v m' = phys_addr_lookup g v m" "table_bytes g m' v = table_bytes g m v"
    unfolding phys_addr_lookup_def table_bytes_def Let_def 1 2 by simp_all
qed

text \<open>An offset that stays inside a page changes only the low bits.\<close>

lemma page_offset:
  fixes v :: u32
  assumes "k \<le> 31" "j + unat (take_bit k v) < 2 ^ k"
  shows "drop_bit k (v + of_nat j) = drop_bit k v" "take_bit k (v + of_nat j) = take_bit k v + of_nat j"
    "unat (v + of_nat j) = unat v + j"
proof -
  have k32: "(2 :: nat) ^ k dvd 2 ^ 32" using assms(1) by (intro le_imp_power_dvd) simp
  have t: "unat (take_bit k v) = unat v mod 2 ^ k" unfolding unsigned_take_bit_eq by (simp add: take_bit_eq_mod)
  have dm: "2 ^ k * (unat v div 2 ^ k) + unat v mod 2 ^ k = unat v" by (rule mult_div_mod_eq)
  have "(2 :: nat) ^ k \<le> 2 ^ 32" using assms(1) by (intro power_increasing) simp_all
  then have j: "j < 2 ^ 32" using assms(2) by linarith
  have s: "unat v + j < 2 ^ 32"
  proof -
    have "unat v < 2 ^ 32" by (rule unat_lt32)
    obtain q where q: "(2 :: nat) ^ 32 = 2 ^ k * q" using k32 by (rule dvdE)
    have "unat v div 2 ^ k < q" using \<open>unat v < 2 ^ 32\<close> unfolding q by (simp add: less_mult_imp_div_less mult.commute)
    then have "2 ^ k * (unat v div 2 ^ k + 1) \<le> 2 ^ 32" unfolding q by (simp only: mult_le_mono2 Suc_eq_plus1 [symmetric] Suc_le_eq)
    moreover have "unat v + j < 2 ^ k * (unat v div 2 ^ k + 1)"
      using assms(2) dm unfolding t distrib_left by linarith
    ultimately show ?thesis by linarith
  qed
  then show u: "unat (v + of_nat j) = unat v + j" by (simp add: unat_word_ariths(1) unat_of_nat32 [OF j])
  have "(unat v + j) div 2 ^ k = unat v div 2 ^ k"
  proof (rule div_nat_eqI)
    show "2 ^ k * (unat v div 2 ^ k) \<le> unat v + j" using dm by linarith
    show "unat v + j < 2 ^ k * Suc (unat v div 2 ^ k)"
      using assms(2) dm unfolding t mult_Suc_right by linarith
  qed
  then show "drop_bit k (v + of_nat j) = drop_bit k v"
    unfolding word_unat_eq_iff unat_drop_bit_eq u by (simp add: drop_bit_eq_div)
  have m: "(unat v + j) mod 2 ^ k = unat v mod 2 ^ k + j"
    using assms(2) unfolding t by (metis add.commute mod_add_left_eq mod_less)
  have "unat (take_bit k v + of_nat j) = unat (take_bit k v) + j"
  proof -
    have "unat (take_bit k v) + j < 2 ^ 32" using s dm unfolding t by linarith
    then show ?thesis unfolding unat_word_ariths(1) unat_of_nat32 [OF j] by (intro mod_less) simp
  qed
  then show "take_bit k (v + of_nat j) = take_bit k v + of_nat j"
    unfolding word_unat_eq_iff unsigned_take_bit_eq u t using m by (simp add: take_bit_eq_mod)
qed

lemma offset_masks: "(v :: u32) AND 0xfff = take_bit 12 v" "(v :: u32) AND 0x3fffff = take_bit 22 v"
  by (simp_all add: take_bit_eq_mask mask_eq_exp_minus_1)

lemma unat_rest: "k \<le> 31 \<Longrightarrow> j < unat ((2 ^ k :: u32) - take_bit k v) \<Longrightarrow> j + unat (take_bit k v) < 2 ^ k"
proof -
  assume k: "k \<le> 31" and j: "j < unat ((2 ^ k :: u32) - take_bit k v)"
  have "(2 :: nat) ^ k < 2 ^ 32" using k by (intro power_strict_increasing) simp_all
  moreover have "(2 ^ k :: u32) = of_nat (2 ^ k)" by simp
  ultimately have p: "unat (2 ^ k :: u32) = 2 ^ k" by (simp only: unat_of_nat32)
  have "unat (take_bit k v) < 2 ^ k" using take_bit_nat_less_exp [of k "unat v"] by (simp only: unsigned_take_bit_eq)
  then have "take_bit k v \<le> 2 ^ k" by (simp add: word_le_nat_alt p)
  then show ?thesis using j by (simp add: unat_sub p)
qed

text \<open>The addresses of one page follow each other.\<close>

lemma lookup_run:
  assumes "phys_addr_lookup g v m = Some (pa, z)" "j < unat z"
  shows "mapped g m (v + of_nat j) (pa + of_nat j)"
proof (cases "client_cr0 g AND 0x80000000 = 0")
  case True
  then show ?thesis using assms(1) by (auto simp: mapped_def phys_addr_lookup_def Let_def)
next
  case False
  define pde where "pde = load32 m (pde_to_pa (client_cr3 g) + 4 * lin2pdenum v)"
  note l = assms(1) [unfolded phys_addr_lookup_def Let_def, folded pde_def]
  have valid: "pde AND 1 \<noteq> 0" using l False by (auto split: if_splits)
  show ?thesis
  proof (cases "pde AND 0x80 = 0")
    case True
    define pte where "pte = load32 m (pde_to_pa pde + 4 * lin2ptenum v)"
    have z: "pte AND 1 \<noteq> 0" "pa = pte_to_pa pte + take_bit 12 v" "z = 2 ^ 12 - take_bit 12 v"
      using l False valid True unfolding pte_def [symmetric] by (auto simp: offset_masks split: if_splits)
    have "j + unat (take_bit 12 v) < 2 ^ 12" using assms(2) unfolding z(3) by (intro unat_rest) simp_all
    note o = page_offset [OF _ this, simplified]
    have n: "lin2ptenum (v + of_nat j) = lin2ptenum v" "lin2pdenum (v + of_nat j) = lin2pdenum v"
    proof -
      show "lin2ptenum (v + of_nat j) = lin2ptenum v" by (simp add: lin2ptenum_def o(1) del: drop_bit_eq_div)
      have d: "drop_bit 22 x = drop_bit 10 (drop_bit 12 x)" for x :: u32 by simp
      show "lin2pdenum (v + of_nat j) = lin2pdenum v" unfolding lin2pdenum_def d o(1) ..
    qed
    show ?thesis unfolding mapped_def phys_addr_lookup_def Let_def n offset_masks
      using False valid True z o(2) by (simp add: pde_def pte_def add.assoc)
  next
    case big: False
    have z: "pa = trunc_superpage pde + take_bit 22 v" "z = 2 ^ 22 - take_bit 22 v"
      using l False valid big by (auto simp: offset_masks split: if_splits)
    have "j + unat (take_bit 22 v) < 2 ^ 22" using assms(2) unfolding z(2) by (intro unat_rest) simp_all
    note o = page_offset [OF _ this, simplified]
    have n: "lin2pdenum (v + of_nat j) = lin2pdenum v" by (simp add: lin2pdenum_def o(1))
    show ?thesis unfolding mapped_def phys_addr_lookup_def Let_def n offset_masks
      using False valid big z o(2) by (simp add: pde_def add.assoc)
  qed
qed

section \<open>Copies\<close>

lemma unat_minus_offset:
  "n < 2 ^ 32 \<Longrightarrow> unat (x - (q + of_nat n) :: ptr) = (if n \<le> unat (x - q) then unat (x - q) - n else 2 ^ 32 + unat (x - q) - n)"
proof -
  assume n: "n < 2 ^ 32"
  have e: "x - (q + of_nat n) = (x - q) - of_nat n" by simp
  show ?thesis
    unfolding e by (auto simp: unat_sub_if' unat_of_nat32 [OF n] word_le_nat_alt)
qed

lemma written_append:
  assumes "length xs + length ys \<le> 2 ^ 32" "ys \<noteq> []"
  shows "written (written m q xs) (q + of_nat (length xs)) ys = written m q (xs @ ys)"
proof
  fix x
  have "length xs < 2 ^ 32" using assms by (cases ys) auto
  note u = unat_minus_offset [OF this, of x q]
  show "written (written m q xs) (q + of_nat (length xs)) ys x = written m q (xs @ ys) x"
    using assms(1) unat_lt32 [of "x - q"] unfolding written_def u by (auto simp: nth_append)
qed

lemma copied_written: "copied m q p n = written m q (map (\<lambda>i. m (p + of_nat i)) [0 ..< n])"
  by (rule ext) (simp add: copied_def written_def)

lemma written_outside: "(\<And>i. i < length bs \<Longrightarrow> x \<noteq> q + of_nat i) \<Longrightarrow> written m q bs x = m x"
proof -
  assume h: "\<And>i. i < length bs \<Longrightarrow> x \<noteq> q + of_nat i"
  have "x = q + of_nat (unat (x - q))" by simp
  then have "\<not> unat (x - q) < length bs" using h by blast
  then show ?thesis by (simp add: written_def)
qed

text \<open>The first piece of a copy: the lookup at its start, and the part of the area in this page.\<close>

lemma first_piece:
  assumes "n \<noteq> 0" "\<And>i. i < unat n \<Longrightarrow> mapped g m (v + of_nat i) (pa i)"
  shows "\<exists>z s. phys_addr_lookup g v m = Some (pa 0, z) \<and> s = (if z > n then n else z) \<and> 0 < unat s
    \<and> unat s \<le> unat n \<and> (\<forall>i < unat s. pa i = pa 0 + of_nat i)"
proof -
  have "0 < unat n" using assms(1) by (simp add: unat_gt_0)
  then obtain z where z: "phys_addr_lookup g v m = Some (pa 0, z)" using assms(2) [of 0] by (auto simp: mapped_def)
  define s where "s = (if z > n then n else z)"
  have s: "unat s \<le> unat n" "unat s \<le> unat z" "0 < unat s"
    using lookup_positive [OF z] \<open>0 < unat n\<close> by (simp_all add: s_def word_less_nat_alt)
  have "pa i = pa 0 + of_nat i" if "i < unat s" for i
    using lookup_run [OF z, of i] assms(2) [of i] that s(1,2) by (auto simp: mapped_def)
  then show ?thesis using z s_def s by blast
qed

lemma gdb_copyin_reads:
  "(\<And>i. i < unat n \<Longrightarrow> mapped g m (src + of_nat i) (pa i)) \<Longrightarrow>
   (\<And>i j. i < unat n \<Longrightarrow> j < unat n \<Longrightarrow> dest + of_nat j \<noteq> pa i \<and> dest + of_nat j \<notin> table_bytes g m (src + of_nat i)) \<Longrightarrow>
     gdb_copyin g src dest n m = (0, written m dest (map (\<lambda>i. m (pa i)) [0 ..< unat n]))"
proof (induction "unat n" arbitrary: n src dest m pa rule: less_induct)
  case less
  show ?case
  proof (cases "n = 0")
    case True
    then show ?thesis by (subst gdb_copyin.simps) simp
  next
    case False
    from first_piece [OF False less(2)] obtain z s where
      z: "phys_addr_lookup g src m = Some (pa 0, z)" "0 < unat s" "unat s \<le> unat n" "\<forall>i < unat s. pa i = pa 0 + of_nat i"
      and s_def: "s = (if z > n then n else z)" by blast
    define k where "k = unat s"
    note z = z [folded k_def]
    have k: "k \<le> unat n" "of_nat k = s" using z(3) by (simp_all add: k_def)
    have un: "unat (n - s) = unat n - k" using z(3) unfolding k_def by (simp add: unat_sub word_le_nat_alt)
    have "dest + of_nat i \<noteq> pa 0 + of_nat j" if "i < j" "j < k" for i j
    proof -
      have "pa j = pa 0 + of_nat j" using z(4) that(2) by blast
      moreover have "dest + of_nat i \<noteq> pa j" using less(3) [of j i] that k(1) by auto
      ultimately show ?thesis by metis
    qed
    then have cp: "snd (memcpy dest (pa 0) k m) = copied m dest (pa 0) k"
      using k(1) unat_lt32 [of n] by (subst memcpy_copied) auto
    define m1 where "m1 = written m dest (map (\<lambda>i. m (pa i)) [0 ..< k])"
    have m1: "snd (memcpy dest (pa 0) k m) = m1"
    proof -
      have "map (\<lambda>i. m (pa 0 + of_nat i)) [0 ..< k] = map (\<lambda>i. m (pa i)) [0 ..< k]"
        by (rule map_cong [OF refl]) (metis z(4) atLeastLessThan_iff set_upt)
      then show ?thesis unfolding cp copied_written m1_def by (rule arg_cong)
    qed
    have out: "m1 x = m x" if "\<And>j. j < unat n \<Longrightarrow> x \<noteq> dest + of_nat j" for x
      unfolding m1_def using that k(1) by (intro written_outside) simp
    have tb: "phys_addr_lookup g (src + of_nat i) m1 = phys_addr_lookup g (src + of_nat i) m"
      "table_bytes g m1 (src + of_nat i) = table_bytes g m (src + of_nat i)" if "i < unat n" for i
    proof -
      have same: "m1 a = m a" if "a \<in> table_bytes g m (src + of_nat i)" for a
        using less(3) [OF \<open>i < unat n\<close>] that by (intro out) auto
      show "phys_addr_lookup g (src + of_nat i) m1 = phys_addr_lookup g (src + of_nat i) m" by (rule lookup_cong(1) [OF same])
      show "table_bytes g m1 (src + of_nat i) = table_bytes g m (src + of_nat i)" by (rule lookup_cong(2) [OF same])
    qed
    have sh: "src + s + of_nat i = src + of_nat (k + i)" "dest + s + of_nat i = dest + of_nat (k + i)" for i
      using k(2) by (simp_all add: add.assoc)
    have IH: "gdb_copyin g (src + s) (dest + s) (n - s) m1 =
        (0, written m1 (dest + s) (map (\<lambda>i. m1 (pa (k + i))) [0 ..< unat (n - s)]))"
    proof (rule less(1))
      show "unat (n - s) < unat n" using z(2) k(1) un by simp
      show "mapped g m1 (src + s + of_nat i) (pa (k + i))" if "i < unat (n - s)" for i
        using that less(2) [of "k + i"] tb(1) [of "k + i"] un unfolding sh mapped_def by simp
      show "dest + s + of_nat j \<noteq> pa (k + i) \<and> dest + s + of_nat j \<notin> table_bytes g m1 (src + s + of_nat i)"
        if "i < unat (n - s)" "j < unat (n - s)" for i j
        using that less(3) [of "k + i" "k + j"] tb(2) [of "k + i"] un unfolding sh by simp
    qed
    have vals: "m1 (pa (k + i)) = m (pa (k + i))" if "i < unat (n - s)" for i
    proof (rule out)
      fix j assume "j < unat n"
      moreover have "k + i < unat n" using that un by simp
      ultimately show "pa (k + i) \<noteq> dest + of_nat j" using less(3) [of "k + i" j] by metis
    qed
    let ?A = "map (\<lambda>i. m (pa i)) [0 ..< k]" and ?B = "map (\<lambda>i. m (pa i)) [k ..< unat n]"
    have b: "map (\<lambda>i. m1 (pa (k + i))) [0 ..< unat (n - s)] = ?B"
      using vals un k(1) by (intro nth_equalityI) simp_all
    have ab: "?A @ ?B = map (\<lambda>i. m (pa i)) [0 ..< unat n]"
      using k(1) upt_add_eq_append [of 0 k "unat n - k"] by simp
    have "written m1 (dest + s) ?B = written m dest (?A @ ?B)"
    proof (cases "k = unat n")
      case True
      then show ?thesis by (simp add: m1_def)
    next
      case False
      then have "?B \<noteq> []" "length ?A + length ?B \<le> 2 ^ 32" using k(1) unat_lt32 [of n] by simp_all
      then have "written (written m dest ?A) (dest + of_nat (length ?A)) ?B = written m dest (?A @ ?B)"
        by (intro written_append)
      then show ?thesis by (simp add: m1_def k(2) del: map_append)
    qed
    then have "written m1 (dest + s) (map (\<lambda>i. m1 (pa (k + i))) [0 ..< unat (n - s)]) =
        written m dest (map (\<lambda>i. m (pa i)) [0 ..< unat n])" unfolding b ab .
    moreover have "gdb_copyin g src dest n m = gdb_copyin g (src + s) (dest + s) (n - s) m1"
      using False z(1) m1 by (subst gdb_copyin.simps) (simp add: Let_def s_def k_def)
    ultimately show ?thesis using IH by simp
  qed
qed

lemma gdb_copyout_writes:
  "(\<And>i. i < unat n \<Longrightarrow> mapped g m (dest + of_nat i) (pa i)) \<Longrightarrow> inj_on pa {..< unat n} \<Longrightarrow>
   (\<And>i j. i < unat n \<Longrightarrow> j < unat n \<Longrightarrow> src + of_nat j \<noteq> pa i \<and> pa j \<notin> table_bytes g m (dest + of_nat i)) \<Longrightarrow>
     \<exists>m'. gdb_copyout g src dest n m = (0, m') \<and> (\<forall>i < unat n. m' (pa i) = m (src + of_nat i))
       \<and> (\<forall>x. x \<notin> pa ` {..< unat n} \<longrightarrow> m' x = m x)"
proof (induction "unat n" arbitrary: n src dest m pa rule: less_induct)
  case less
  show ?case
  proof (cases "n = 0")
    case True
    then show ?thesis by (subst gdb_copyout.simps) simp
  next
    case False
    from first_piece [OF False less(2)] obtain z s where
      z: "phys_addr_lookup g dest m = Some (pa 0, z)" "0 < unat s" "unat s \<le> unat n" "\<forall>i < unat s. pa i = pa 0 + of_nat i"
      and s_def: "s = (if z > n then n else z)" by blast
    define k where "k = unat s"
    note z = z [folded k_def]
    have k: "k \<le> unat n" "of_nat k = s" "k < 2 ^ 32" using z(3) unat_lt32 [of s] by (simp_all add: k_def)
    have un: "unat (n - s) = unat n - k" using z(3) unfolding k_def by (simp add: unat_sub word_le_nat_alt)
    have "pa 0 + of_nat i \<noteq> src + of_nat j" if "i < j" "j < k" for i j
    proof -
      have "pa i = pa 0 + of_nat i" using z(4) that by (meson less_trans)
      moreover have "src + of_nat j \<noteq> pa i" using less(4) [of i j] that k(1) by auto
      ultimately show ?thesis by metis
    qed
    then have m1: "snd (memcpy (pa 0) src k m) = copied m (pa 0) src k" using k(3) by (subst memcpy_copied) auto
    define m1 where "m1 = copied m (pa 0) src k"
    have inside: "m1 (pa i) = m (src + of_nat i)" if "i < k" for i
    proof -
      have "pa i = pa 0 + of_nat i" using z(4) that by blast
      then show ?thesis using that k(3) by (simp add: m1_def copied_def unat_of_nat32)
    qed
    have outside: "m1 x = m x" if "x \<notin> pa ` {..< k}" for x
    proof -
      have "\<not> unat (x - pa 0) < k"
      proof
        assume l: "unat (x - pa 0) < k"
        then have "pa (unat (x - pa 0)) = pa 0 + of_nat (unat (x - pa 0))" using z(4) by blast
        then have "pa (unat (x - pa 0)) = x" by simp
        then show False using that l by (metis image_eqI lessThan_iff)
      qed
      then show ?thesis by (simp add: m1_def copied_def)
    qed
    have tb: "phys_addr_lookup g (dest + of_nat i) m1 = phys_addr_lookup g (dest + of_nat i) m"
      "table_bytes g m1 (dest + of_nat i) = table_bytes g m (dest + of_nat i)" if "i < unat n" for i
    proof -
      have same: "m1 a = m a" if "a \<in> table_bytes g m (dest + of_nat i)" for a
        using less(4) [OF \<open>i < unat n\<close>] that k(1) by (intro outside) auto
      show "phys_addr_lookup g (dest + of_nat i) m1 = phys_addr_lookup g (dest + of_nat i) m" by (rule lookup_cong(1) [OF same])
      show "table_bytes g m1 (dest + of_nat i) = table_bytes g m (dest + of_nat i)" by (rule lookup_cong(2) [OF same])
    qed
    have sh: "src + s + of_nat i = src + of_nat (k + i)" "dest + s + of_nat i = dest + of_nat (k + i)" for i
      using k(2) by (simp_all add: add.assoc)
    have "\<exists>m'. gdb_copyout g (src + s) (dest + s) (n - s) m1 = (0, m')
        \<and> (\<forall>i < unat (n - s). m' (pa (k + i)) = m1 (src + s + of_nat i))
        \<and> (\<forall>x. x \<notin> (\<lambda>i. pa (k + i)) ` {..< unat (n - s)} \<longrightarrow> m' x = m1 x)"
    proof (rule less(1))
      show "unat (n - s) < unat n" using z(2) k(1) un by simp
      show "mapped g m1 (dest + s + of_nat i) (pa (k + i))" if "i < unat (n - s)" for i
        using that less(2) [of "k + i"] tb(1) [of "k + i"] un unfolding sh mapped_def by simp
      show "inj_on (\<lambda>i. pa (k + i)) {..< unat (n - s)}"
      proof (rule inj_onI)
        fix x y assume "x \<in> {..< unat (n - s)}" "y \<in> {..< unat (n - s)}" "pa (k + x) = pa (k + y)"
        then show "x = y" using inj_onD [OF less(3), of "k + x" "k + y"] un by simp
      qed
      show "src + s + of_nat j \<noteq> pa (k + i) \<and> pa (k + j) \<notin> table_bytes g m1 (dest + s + of_nat i)"
        if "i < unat (n - s)" "j < unat (n - s)" for i j
        using that less(4) [of "k + i" "k + j"] tb(2) [of "k + i"] un unfolding sh by simp
    qed
    then obtain m' where m': "gdb_copyout g (src + s) (dest + s) (n - s) m1 = (0, m')"
      "\<And>i. i < unat n - k \<Longrightarrow> m' (pa (k + i)) = m1 (src + of_nat (k + i))"
      "\<And>x. x \<notin> (\<lambda>i. pa (k + i)) ` {..< unat n - k} \<Longrightarrow> m' x = m1 x" unfolding un sh by blast
    have src: "m1 (src + of_nat i) = m (src + of_nat i)" if "i < unat n" for i
    proof (rule outside, rule notI)
      assume "src + of_nat i \<in> pa ` {..< k}"
      then obtain x where "x < k" "src + of_nat i = pa x" by auto
      then show False using less(4) [of x i] that k(1) by simp
    qed
    have "m' (pa i) = m (src + of_nat i)" if i: "i < unat n" for i
    proof (cases "i < k")
      case True
      have "pa i \<notin> (\<lambda>i. pa (k + i)) ` {..< unat n - k}"
      proof
        assume "pa i \<in> (\<lambda>i. pa (k + i)) ` {..< unat n - k}"
        then obtain j where "j < unat n - k" "pa i = pa (k + j)" by auto
        moreover have "k + j < unat n" using \<open>j < unat n - k\<close> by linarith
        ultimately show False using inj_onD [OF less(3), of i "k + j"] i True by simp
      qed
      then show ?thesis using m'(3) inside [OF True] by simp
    next
      case False
      then show ?thesis using m'(2) [of "i - k"] i src [OF i] by simp
    qed
    moreover have "m' x = m x" if "x \<notin> pa ` {..< unat n}" for x
    proof -
      have "x \<notin> (\<lambda>i. pa (k + i)) ` {..< unat n - k}" "x \<notin> pa ` {..< k}" using that k(1) by auto
      then show ?thesis using m'(3) outside by simp
    qed
    moreover have "gdb_copyout g src dest n m = gdb_copyout g (src + s) (dest + s) (n - s) m1"
      using False z(1) m1 m1_def by (subst gdb_copyout.simps) (simp add: Let_def s_def k_def)
    ultimately show ?thesis using m'(1) by auto
  qed
qed

text \<open>A copy that meets an address without a page fails.\<close>

lemma gdb_copyout_unmapped: "n \<noteq> 0 \<Longrightarrow> phys_addr_lookup g dest m = None \<Longrightarrow> gdb_copyout g src dest n m = (-1, m)"
  by (subst gdb_copyout.simps) simp

end
