(* ===== verification/Trap_Facts.thy ===== *)
theory Trap_Facts
  imports Trap Gdb_Memory_Facts
begin

text \<open>
  The handler of the exceptions finds the task state of the stopped task in the tables that the boot code
  filled, and its numbers on the screen are the values they stand for.
\<close>

section \<open>Tables in memory\<close>

definition holds64 :: "bmem \<Rightarrow> ptr \<Rightarrow> u64 \<Rightarrow> bool" where
  "holds64 m a d \<longleftrightarrow> (\<forall>i < 8. m (a + of_nat i) = ucast (drop_bit (8 * i) d))"

lemma holds64_bytes:
  assumes "holds64 m a d"
  shows "load32 m (a + 2) = ucast (drop_bit 16 d)" "m (a + 7) = ucast (drop_bit 56 d)"
proof -
  have b: "m (a + of_nat i) = ucast (drop_bit (8 * i) d)" if "i < 8" for i using assms that by (simp add: holds64_def)
  show "m (a + 7) = ucast (drop_bit 56 d)" using b [of 7] by simp
  let ?v = "ucast (drop_bit 16 d) :: u32"
  have e: "ucast (drop_bit (16 + 8 * k) d) = (ucast (drop_bit (8 * k) ?v) :: u8)" if "k < 4" for k
    by (rule bit_word_eqI) (use that in \<open>auto simp: bit_unsigned_iff bit_drop_bit_eq add.assoc\<close>)
  have "m (a + 2) = ucast ?v" "m (a + 2 + 1) = ucast (drop_bit 8 ?v)" "m (a + 2 + 2) = ucast (drop_bit 16 ?v)"
    "m (a + 2 + 3) = ucast (drop_bit 24 ?v)"
    using b [of 2] b [of 3] b [of 4] b [of 5] e [of 0] e [of 1] e [of 2] e [of 3] by (simp_all add: add.assoc)
  then show "load32 m (a + 2) = ?v" unfolding load32_def by (simp only: bytes_of_word32)
qed

lemma tss_sel_base:
  assumes "holds64 m (gdt_at e + 8 * ucast (drop_bit 3 sel)) d"
  shows "tss_sel_2_tss e sel m = seg_base (read_segment d)"
proof -
  note b = holds64_bytes [OF assms]
  note bits = bit_and_iff bit_or_iff bit_push_bit_iff bit_drop_bit_eq bit_unsigned_iff bit_take_bit_iff
  have m24: "(x :: u32) AND 0xffffff = take_bit 24 x" for x by (simp add: take_bit_eq_mask mask_eq_exp_minus_1)
  have "take_bit 24 (ucast (drop_bit 16 d) :: u32) AND push_bit 24 (ucast (ucast (drop_bit 56 d) :: u8)) = 0"
    by (rule bit_word_eqI) (auto simp: bits)
  then have "take_bit 24 (ucast (drop_bit 16 d) :: u32) + push_bit 24 (ucast (ucast (drop_bit 56 d) :: u8)) =
      take_bit 24 (ucast (drop_bit 16 d)) OR push_bit 24 (ucast (ucast (drop_bit 56 d) :: u8))"
    by (rule disjunctive_add_eq_or)
  also have "\<dots> = drop_bit 16 (low_word d) OR push_bit 16 (high_word d AND 0xff) OR (high_word d AND 0xff000000)"
  proof (rule bit_word_eqI)
    fix n assume n: "n < LENGTH(32)"
    have lo: "bit (low_word d) i \<longleftrightarrow> i < 32 \<and> bit d i" and hi: "bit (high_word d) i \<longleftrightarrow> i < 32 \<and> bit d (32 + i)" for i
      by (auto simp: low_word_def high_word_def bits)
    consider "n < 16" | "16 \<le> n" "n < 24" | "24 \<le> n" "n < 32" using n by fastforce
    then show "bit (take_bit 24 (ucast (drop_bit 16 d) :: u32) OR push_bit 24 (ucast (ucast (drop_bit 56 d) :: u8))) n =
      bit (drop_bit 16 (low_word d) OR push_bit 16 (high_word d AND 0xff) OR (high_word d AND 0xff000000)) n"
      unfolding descriptor_masks descriptor_fields by cases (auto simp: bits lo hi)
  qed
  finally show ?thesis
    unfolding tss_sel_2_tss_def Let_def b m24 read_segment_def by simp
qed

text \<open>
  The processor marks the segment of a running task as busy, in the byte with the access rights: the table
  in memory keeps the other bytes of what the boot code wrote.
\<close>

definition holds_base :: "bmem \<Rightarrow> ptr \<Rightarrow> u64 \<Rightarrow> bool" where
  "holds_base m a d \<longleftrightarrow> (\<forall>i < 8. i \<noteq> 5 \<longrightarrow> m (a + of_nat i) = ucast (drop_bit (8 * i) d))"

lemma low_bytes: "load32 (m(a + 3 := x)) a AND 0xffffff = load32 m a AND 0xffffff"
proof (rule bit_word_eqI)
  note bits = bit_and_iff bit_or_iff bit_push_bit_iff bit_unsigned_iff bit_take_bit_iff
  fix n assume "n < LENGTH(32)"
  have m24: "(v :: u32) AND 0xffffff = take_bit 24 v" for v by (simp add: take_bit_eq_mask mask_eq_exp_minus_1)
  show "bit (load32 (m(a + 3 := x)) a AND 0xffffff) n = bit (load32 m a AND 0xffffff) n"
    unfolding m24 by (auto simp: load32_def bits)
qed

lemma tss_sel_busy:
  assumes "holds_base m (gdt_at e + 8 * ucast (drop_bit 3 sel)) d"
  shows "tss_sel_2_tss e sel m = seg_base (read_segment d)"
proof -
  let ?a = "gdt_at e + 8 * ucast (drop_bit 3 sel)"
  let ?m = "m(?a + 2 + 3 := ucast (drop_bit 40 d))"
  have "?m (?a + of_nat i) = ucast (drop_bit (8 * i) d)" if "i < 8" for i
  proof (cases "i = 5")
    case False
    have "unat (of_nat i :: ptr) = i" using that by (intro unat_of_nat32) simp
    moreover have "unat (5 :: ptr) = 5" by simp
    ultimately have "of_nat i \<noteq> (5 :: ptr)" using False by metis
    then show ?thesis using assms that False by (simp add: holds_base_def add.assoc)
  qed (simp add: add.assoc)
  then have "holds64 ?m ?a d" by (simp add: holds64_def)
  then have "tss_sel_2_tss e sel ?m = seg_base (read_segment d)" by (rule tss_sel_base)
  moreover have "tss_sel_2_tss e sel ?m = tss_sel_2_tss e sel m"
    unfolding tss_sel_2_tss_def Let_def low_bytes by (simp add: add.assoc)
  ultimately show ?thesis by simp
qed

text \<open>The entry of a selector, by its number.\<close>

lemma selector_entry: "8 * ucast (drop_bit 3 (sel :: u16)) = (of_nat (8 * (unat sel div 8)) :: ptr)"
proof -
  have "unat (drop_bit 3 sel) = unat sel div 8" by (simp add: drop_bit_eq_div unat_div)
  then have "(ucast (drop_bit 3 sel) :: ptr) = of_nat (unat sel div 8)" by (metis of_nat_unat)
  then show ?thesis by (simp only: of_nat_mult of_nat_numeral)
qed

lemma main_segment:
  assumes "writes_page_table p"
  shows "seg_base (read_segment (gdt (fst (cpu_init hw l p (s, d))) 1)) = tss_address l"
  unfolding cpu_init_tables(1) [OF assms]
  by (simp add: setup_gdt_def Let_def fill_trap_descriptors_at read_fill_descriptor descriptor_of_def)

section \<open>Numbers on the screen\<close>

text \<open>The place of the \<open>k\<close>-th character of a field, the first one being 0.\<close>

definition cell :: "nat \<Rightarrow> nat \<Rightarrow> ptr" where
  "cell line col = screen_base + of_nat ((line - 1) * 160 + (col - 1) * 2)"

lemma write_hex_loop_at:
  "k < n \<Longrightarrow> n < 2 ^ 16 \<Longrightarrow> write_hex_loop p n v m (p - of_nat (2 * (k + 1))) = hex_digit (drop_bit (4 * k) v AND 15)"
  "(\<And>k. k < n \<Longrightarrow> x \<noteq> p - of_nat (2 * (k + 1))) \<Longrightarrow> write_hex_loop p n v m x = m x"
proof -
  show out: "(\<And>k. k < n \<Longrightarrow> x \<noteq> p - of_nat (2 * (k + 1))) \<Longrightarrow> write_hex_loop p n v m x = m x" for p n v m x
  proof (induction n arbitrary: p v m)
    case (Suc n)
    have "x \<noteq> p - 2" using Suc.prems [of 0] by simp
    moreover have "x \<noteq> p - 2 - of_nat (2 * (k + 1))" if "k < n" for k
      using Suc.prems [of "k + 1"] that by (simp add: algebra_simps)
    ultimately show ?case using Suc.IH [of "p - 2"] by simp
  qed simp
  show "k < n \<Longrightarrow> n < 2 ^ 16 \<Longrightarrow> write_hex_loop p n v m (p - of_nat (2 * (k + 1))) = hex_digit (drop_bit (4 * k) v AND 15)"
  proof (induction n arbitrary: p v m k)
    case (Suc n)
    show ?case
    proof (cases k)
      case 0
      have "p - 2 \<noteq> p - 2 - of_nat (2 * (j + 1))" if "j < n" for j
      proof
        assume "p - 2 = p - 2 - of_nat (2 * (j + 1))"
        moreover have "z = 0" if "a = a - z" for a z :: ptr using that by (simp add: eq_diff_eq)
        ultimately have "of_nat (2 * (j + 1)) = (0 :: ptr)" by blast
        then have "unat (of_nat (2 * (j + 1)) :: ptr) = 0" by simp
        moreover have "unat (of_nat (2 * (j + 1)) :: ptr) = 2 * (j + 1)"
          by (rule unat_of_nat32) (use that Suc.prems(2) in simp)
        ultimately show False by simp
      qed
      then show ?thesis using 0 out [of n "p - 2" "p - 2"] by simp
    next
      case (Suc j)
      have p: "p - of_nat (2 * (k + 1)) = p - 2 - of_nat (2 * (j + 1))" by (simp add: Suc algebra_simps)
      have d: "drop_bit (4 * j) (drop_bit 4 v) = drop_bit (4 * k) v" by (simp add: Suc add.commute)
      have "j < n" "n < 2 ^ 16" using Suc.prems Suc by simp_all
      then show ?thesis using Suc.IH [of j "p - 2" "drop_bit 4 v"] unfolding p write_hex_loop.simps d by blast
    qed
  qed simp
qed

text \<open>
  A field of at most eight digits: its cells hold the digits, the highest first, and no other byte of the
  memory changes.
\<close>

lemma write_hex_cells:
  assumes "1 \<le> line" "1 \<le> col" "len \<le> 8"
  shows "k < len \<Longrightarrow> write_hex line col len v m (cell line (col + k)) = hex_digit (drop_bit (4 * (len - 1 - k)) v AND 15)"
    "(\<And>k. k < len \<Longrightarrow> x \<noteq> cell line (col + k)) \<Longrightarrow> write_hex line col len v m x = m x"
proof -
  let ?p = "screen_base + of_nat ((line - 1) * 160 + (col + len - 1) * 2) :: ptr"
  have c: "cell line (col + k) = ?p - of_nat (2 * ((len - 1 - k) + 1))" if "k < len" for k
  proof -
    have "(line - 1) * 160 + (col + len - 1) * 2 = ((line - 1) * 160 + (col + k - 1) * 2) + 2 * ((len - 1 - k) + 1)"
      using that assms(2) by simp
    then show ?thesis unfolding cell_def by (simp only: of_nat_add add_diff_cancel_right' flip: add.assoc)
  qed
  show "k < len \<Longrightarrow> write_hex line col len v m (cell line (col + k)) = hex_digit (drop_bit (4 * (len - 1 - k)) v AND 15)"
    unfolding write_hex_def using write_hex_loop_at(1) [of "len - 1 - k" len ?p v m] assms(3) by (simp only: c) simp
  show "(\<And>k. k < len \<Longrightarrow> x \<noteq> cell line (col + k)) \<Longrightarrow> write_hex line col len v m x = m x"
    unfolding write_hex_def
  proof (rule write_hex_loop_at(2))
    fix k assume h: "\<And>k. k < len \<Longrightarrow> x \<noteq> cell line (col + k)" and k: "k < len"
    have "len - 1 - (len - 1 - k) = k" using k by simp
    then show "x \<noteq> ?p - of_nat (2 * (k + 1))" using h [of "len - 1 - k"] c [of "len - 1 - k"] k by simp
  qed
qed

text \<open>The digits of a field, read as a number.\<close>

lemma hex_digit_value: "hex (hex_digit (x AND 15)) = uint (take_bit 4 x)"
proof -
  have x: "x AND 15 = take_bit 4 x" by (simp add: take_bit_eq_mask mask_eq_exp_minus_1)
  define n where "n = unat (take_bit 4 x)"
  have n: "n < 16" using take_bit_nat_less_exp [of 4 "unat x"] by (simp add: n_def unsigned_take_bit_eq)
  have t: "take_bit 4 x = of_nat n" "uint (take_bit 4 x) = int n" by (simp_all add: n_def)
  have "n \<in> {0, 1, 2, 3, 4, 5, 6, 7, 8, 9, 10, 11, 12, 13, 14, 15}"
    using n by (simp only: insert_iff empty_iff) presburger
  then have "hex (hex_digit (of_nat n)) = int n" by (elim insertE) (simp_all add: hex_digit_def hex_def)
  then have "hex (hex_digit (take_bit 4 x)) = uint (take_bit 4 x)" unfolding t(2) unfolding t(1) .
  then show ?thesis unfolding x .
qed

lemma digits_number:
  "foldl (\<lambda>a k. 16 * a + hex (hex_digit (drop_bit (4 * (n - 1 - k)) v AND 15))) 0 [0 ..< n] = uint (take_bit (4 * n) (v :: u32))"
proof -
  have "foldl (\<lambda>a k. 16 * a + hex (hex_digit (drop_bit (4 * (n - 1 - k)) v AND 15))) b [0 ..< j] =
      16 ^ j * b + uint (drop_bit (4 * (n - j)) (take_bit (4 * n) v))" if "j \<le> n" for j b
    using that
  proof (induction j)
    case 0
    have "drop_bit (4 * n) (take_bit (4 * n) v) = 0" by (rule bit_word_eqI) (simp add: bit_drop_bit_eq bit_take_bit_iff)
    then show ?case by simp
  next
    case (Suc j)
    have s: "n - j = Suc (n - 1 - j)" using Suc.prems by simp
    let ?w = "drop_bit (4 * (n - Suc j)) (take_bit (4 * n) v)"
    have "drop_bit (4 * (n - j)) (take_bit (4 * n) v) = drop_bit 4 ?w" unfolding s by (simp add: add.commute)
    then have "uint (drop_bit (4 * (n - j)) (take_bit (4 * n) v)) = uint ?w div 16" by (simp add: drop_bit_eq_div uint_div)
    moreover have "uint (take_bit 4 (drop_bit (4 * (n - 1 - j)) v)) = uint ?w mod 16"
    proof -
      have "take_bit 4 (drop_bit (4 * (n - 1 - j)) v) = take_bit 4 ?w"
        using s by (intro bit_word_eqI) (auto simp: bit_drop_bit_eq bit_take_bit_iff)
      then have "uint (take_bit 4 (drop_bit (4 * (n - 1 - j)) v)) = take_bit 4 (uint ?w)" by (simp only: unsigned_take_bit_eq)
      then show ?thesis by (simp only: take_bit_eq_mod) simp
    qed
    ultimately show ?case using Suc by (simp add: hex_digit_value algebra_simps)
  qed
  from this [of n 0] show ?thesis by simp
qed

section \<open>The dump of the registers\<close>

definition on_screen :: "ptr \<Rightarrow> bool" where
  "on_screen a \<longleftrightarrow> unat (a - screen_base) < 4000"

lemma fold_keeps: "(\<And>y m. y \<in> set ys \<Longrightarrow> f y m x = m x) \<Longrightarrow> fold f ys m x = (m x :: 'b)"
  by (induction ys arbitrary: m) simp_all

lemma screen_offset: "n < 4000 \<Longrightarrow> on_screen (screen_base + of_nat n)"
  by (simp add: on_screen_def unat_of_nat32)

lemma cell_on_screen: "1 \<le> line \<Longrightarrow> line \<le> 25 \<Longrightarrow> 1 \<le> col \<Longrightarrow> col \<le> 80 \<Longrightarrow> on_screen (cell line col)"
  unfolding cell_def by (rule screen_offset) linarith

lemma rows_and_columns: "a * 160 + b * 2 = a' * 160 + b' * 2 \<Longrightarrow> b < 80 \<Longrightarrow> b' < 80 \<Longrightarrow> a = a' \<and> b = (b' :: nat)"
  by (cases a a' rule: linorder_cases) linarith+

lemma cell_inject:
  assumes "cell l c = cell l' c'" "1 \<le> l" "l \<le> 25" "1 \<le> c" "c \<le> 80" "1 \<le> l'" "l' \<le> 25" "1 \<le> c'" "c' \<le> 80"
  shows "l = l' \<and> c = c'"
proof -
  have "(of_nat ((l - 1) * 160 + (c - 1) * 2) :: ptr) = of_nat ((l' - 1) * 160 + (c' - 1) * 2)" using assms(1) by (simp add: cell_def)
  then have "unat (of_nat ((l - 1) * 160 + (c - 1) * 2) :: ptr) = unat (of_nat ((l' - 1) * 160 + (c' - 1) * 2) :: ptr)" by simp
  moreover have "(l - 1) * 160 + (c - 1) * 2 < 4000" "(l' - 1) * 160 + (c' - 1) * 2 < 4000" using assms by linarith+
  then have "(l - 1) * 160 + (c - 1) * 2 < 2 ^ 32" "(l' - 1) * 160 + (c' - 1) * 2 < 2 ^ 32" by simp_all
  ultimately have "(l - 1) * 160 + (c - 1) * 2 = (l' - 1) * 160 + (c' - 1) * 2" by (simp only: unat_of_nat32)
  moreover have "c - 1 < 80" "c' - 1 < 80" using assms by linarith+
  ultimately have "l - 1 = l' - 1 \<and> c - 1 = c' - 1" by (rule rows_and_columns)
  then show ?thesis using assms by linarith
qed

text \<open>A field that fits on the screen, and two that do not overlap.\<close>

type_synonym field = "nat \<times> nat \<times> nat \<times> u32"

definition fits :: "field \<Rightarrow> bool" where
  "fits f = (case f of (line, col, len, off) \<Rightarrow> 1 \<le> line \<and> line \<le> 25 \<and> 1 \<le> col \<and> col + len \<le> 81 \<and> len \<le> 8)"

definition apart :: "field \<Rightarrow> field \<Rightarrow> bool" where
  "apart f g = (case f of (line, col, len, off) \<Rightarrow> case g of (line', col', len', off') \<Rightarrow>
     line \<noteq> line' \<or> col + len \<le> col' \<or> col' + len' \<le> col)"

definition field_shows :: "bmem \<Rightarrow> field \<Rightarrow> u32 \<Rightarrow> bool" where
  "field_shows m f v = (case f of (line, col, len, off) \<Rightarrow>
     foldl (\<lambda>a k. 16 * a + hex (m (cell line (col + k)))) 0 [0 ..< len] = uint v mod 16 ^ len)"

lemma foldl_cells: "(\<And>k. k < n \<Longrightarrow> f k = g k) \<Longrightarrow> foldl (\<lambda>a k. 16 * a + f k) b [0 ..< n] = foldl (\<lambda>a k. 16 * a + (g k :: int)) b [0 ..< n]"
  by (rule foldl_cong) simp_all

lemma write_hex_shows: "fits (line, col, len, off) \<Longrightarrow> field_shows (write_hex line col len v m) (line, col, len, off) v"
proof -
  assume f: "fits (line, col, len, off)"
  have "hex (write_hex line col len v m (cell line (col + k))) = hex (hex_digit (drop_bit (4 * (len - 1 - k)) v AND 15))" if "k < len" for k
    using write_hex_cells(1) [of line col len k v m] f that by (simp add: fits_def)
  then have "foldl (\<lambda>a k. 16 * a + hex (write_hex line col len v m (cell line (col + k)))) 0 [0 ..< len] = uint (take_bit (4 * len) v)"
    unfolding digits_number [symmetric] by (rule foldl_cells)
  also have "\<dots> = uint v mod 16 ^ len"
    unfolding unsigned_take_bit_eq by (simp only: take_bit_eq_mod) (simp add: power_mult)
  finally show ?thesis by (simp add: field_shows_def)
qed

lemma write_hex_outside: "fits (line, col, len, off) \<Longrightarrow> \<not> on_screen x \<Longrightarrow> write_hex line col len v m x = m x"
  using cell_on_screen by (intro write_hex_cells(2)) (fastforce simp: fits_def)+

lemma write_hex_apart:
  assumes "fits (line, col, len, off)" "fits g" "apart (line, col, len, off) g" "field_shows m g w"
  shows "field_shows (write_hex line col len v m) g w"
proof -
  obtain l c n o' where g: "g = (l, c, n, o')" by (cases g)
  have "write_hex line col len v m (cell l (c + k)) = m (cell l (c + k))" if k: "k < n" for k
  proof (rule write_hex_cells(2))
    show "cell l (c + k) \<noteq> cell line (col + j)" if "j < len" for j
      using cell_inject [of l "c + k" line "col + j"] assms(1-3) k that by (auto simp: g fits_def apart_def)
  qed (use assms(1) in \<open>simp_all add: fits_def\<close>)
  then have "foldl (\<lambda>a k. 16 * a + hex (write_hex line col len v m (cell l (c + k)))) 0 [0 ..< n] =
      foldl (\<lambda>a k. 16 * a + hex (m (cell l (c + k)))) 0 [0 ..< n]" by (intro foldl_cells) simp
  then show ?thesis using assms(4) by (simp add: field_shows_def g)
qed

text \<open>Fields that are written one after the other, with values read from a place outside the screen.\<close>

definition write_field :: "ptr \<Rightarrow> field \<Rightarrow> bmem \<Rightarrow> bmem" where
  "write_field t = (\<lambda>(line, col, len, off) m. write_hex line col len (load32 m (t + off)) m)"

lemma fields_written:
  assumes "\<forall>f \<in> set fds. fits f" "sorted_wrt apart fds" "\<forall>f \<in> set fds. \<forall>i < 4. \<not> on_screen (t + snd (snd (snd f)) + of_nat i)"
  shows "\<forall>f \<in> set fds. field_shows (fold (write_field t) fds m) f (load32 m (t + snd (snd (snd f))))"
    "\<not> on_screen x \<Longrightarrow> fold (write_field t) fds m x = m x"
proof -
  have out: "\<forall>f \<in> set others. fits f \<Longrightarrow> \<not> on_screen x \<Longrightarrow> fold (write_field t) others m x = m x" for others x
    by (rule fold_keeps) (auto simp: write_field_def intro: write_hex_outside)
  show "\<not> on_screen x \<Longrightarrow> fold (write_field t) fds m x = m x" using out assms(1) .
  show "\<forall>f \<in> set fds. field_shows (fold (write_field t) fds m) f (load32 m (t + snd (snd (snd f))))"
    using assms
  proof (induction fds rule: rev_induct)
    case (snoc g fds)
    obtain line col len off where g: "g = (line, col, len, off)" by (cases g)
    let ?m = "fold (write_field t) fds m"
    have ok: "fits g" "\<forall>f \<in> set fds. fits f" "\<forall>f \<in> set fds. apart f g" using snoc.prems by (auto simp: sorted_wrt_append)
    have IH: "\<forall>f \<in> set fds. field_shows ?m f (load32 m (t + snd (snd (snd f))))"
      using snoc by (simp add: sorted_wrt_append)
    have v: "load32 ?m (t + off) = load32 m (t + off)"
    proof (rule load32_cong)
      fix x assume x: "unat (x - (t + off)) < 4"
      define i where "i = unat (x - (t + off))"
      have "x = t + off + of_nat i" by (simp add: i_def)
      moreover have "\<not> on_screen (t + off + of_nat i)" using snoc.prems(3) x by (simp add: g flip: i_def)
      ultimately have "\<not> on_screen x" by simp
      then show "?m x = m x" using out ok(2) by blast
    qed
    have "field_shows (write_field t g ?m) f (load32 m (t + snd (snd (snd f))))" if "f \<in> set fds" for f
    proof -
      have "apart (line, col, len, off) f" using ok(3) that by (fastforce simp: g apart_def split: prod.splits)
      then show ?thesis using write_hex_apart ok(1,2) IH that by (simp add: g write_field_def)
    qed
    moreover have "field_shows (write_field t g ?m) g (load32 m (t + snd (snd (snd g))))"
      using write_hex_shows ok(1) v by (simp add: g write_field_def)
    ultimately show ?case by simp
  qed simp
qed

lemma fields_kept:
  "\<forall>f \<in> set fds. fits f \<and> apart f g \<Longrightarrow> fits g \<Longrightarrow> field_shows m g w \<Longrightarrow> field_shows (fold (write_field t) fds m) g w"
proof (induction fds arbitrary: m)
  case (Cons f fds)
  obtain line col len off where f: "f = (line, col, len, off)" by (cases f)
  have "field_shows (write_field t f m) g w"
    using Cons.prems write_hex_apart [of line col len off g m w] by (simp add: f write_field_def)
  then show ?case using Cons.IH [of "write_field t f m"] Cons.prems by simp
qed simp

text \<open>What the dump shows in front of the fields of the task state and behind them.\<close>

abbreviation (input) trap_fields :: "field list" where "trap_fields \<equiv> [(7, 21, 2, 0), (7, 60, 8, 0), (9, 21, 8, 0)]"
abbreviation (input) trace_field :: field where "trace_field \<equiv> (23, 70, 1, 100)"

lemma dump_fields_ok: "\<forall>f \<in> set (trap_fields @ dump_fields @ [trace_field]). fits f" "sorted_wrt apart (trap_fields @ dump_fields @ [trace_field])"
  by (simp_all add: dump_fields_def fits_def apart_def)

lemma dump_offsets: "f \<in> set dump_fields \<Longrightarrow> unat (snd (snd (snd f))) + 4 \<le> 104"
  by (auto simp: dump_fields_def)

lemma dump_colours_outside: "\<not> on_screen x \<Longrightarrow> dump_colours m x = m x"
proof -
  assume x: "\<not> on_screen x"
  have one: "(m(screen_base + of_nat (2 * i + 1) := c)) x = m x" if "i < 2000" for i c and m :: bmem
    using screen_offset [of "2 * i + 1"] x that by (cases "x = screen_base + of_nat (2 * i + 1)") simp_all
  have first: "fold (\<lambda>i m. m(screen_base + of_nat (2 * i + 1) := 0x30)) [0 ..< 80 * 25] m x = m x"
    by (rule fold_keeps) (rule one, simp)
  have "fold (\<lambda>i m. m(screen_base + of_nat (2 * i + 1) := 0x34)) [161 ..< 239] m' x = m' x" for m' :: bmem
    by (rule fold_keeps) (rule one, simp only: set_upt atLeastLessThan_iff, linarith)
  then show ?thesis unfolding dump_colours_def by (simp only: first)
qed

lemma dump_text_outside: "\<not> on_screen x \<Longrightarrow> dump_text src m x = m x"
  unfolding dump_text_def
proof (intro fold_keeps)
  fix i m j m' assume "\<not> on_screen x" "i \<in> set [0 ..< 25]" "j \<in> set [0 ..< 80]"
  moreover from this have "on_screen (screen_base + of_nat (i * 160 + j * 2))" by (intro screen_offset) auto
  ultimately show "(m'(screen_base + of_nat (i * 160 + j * 2) := m' (src + of_nat (81 * i + j)))) x = m' x" by auto
qed

lemma dump_registers_shows:
  assumes t: "\<forall>i < 104. \<not> on_screen (t + of_nat i)"
  shows "f \<in> set dump_fields \<Longrightarrow> field_shows (dump_registers e trapno error_code t m) f (load32 m (t + snd (snd (snd f))))"
    "field_shows (dump_registers e trapno error_code t m) (7, 21, 2, 0) trapno"
    "field_shows (dump_registers e trapno error_code t m) (7, 60, 8, 0) error_code"
    "field_shows (dump_registers e trapno error_code t m) (9, 21, 8, 0) t"
    "\<not> on_screen x \<Longrightarrow> dump_registers e trapno error_code t m x = m x"
proof -
  define m1 where "m1 = dump_colours (dump_text (task_dump_screen e) m)"
  define m2 where "m2 = write_hex 9 21 8 t (write_hex 7 60 8 error_code (write_hex 7 21 2 trapno m1))"
  define m3 where "m3 = fold (write_field t) dump_fields m2"
  have d: "dump_registers e trapno error_code t m = write_hex 23 70 1 (ucast (m3 (t + 100) AND 1)) m3"
    by (simp add: dump_registers_def Let_def m1_def m2_def m3_def write_field_def)
  have ok: "\<forall>f \<in> set dump_fields. fits f" "sorted_wrt apart dump_fields" "\<forall>g \<in> set trap_fields. \<forall>f \<in> set dump_fields. apart g f"
    "\<forall>f \<in> set (trap_fields @ dump_fields). apart f trace_field" "fits trace_field" "\<forall>f \<in> set trap_fields. fits f"
    using dump_fields_ok unfolding sorted_wrt_append by auto
  have sym: "apart f g \<Longrightarrow> apart g f" for f g by (auto simp: apart_def split: prod.splits)
  have f: "fits (7, 21, 2, 0)" "fits (7, 60, 8, 0)" "fits (9, 21, 8, 0)" by (simp_all add: fits_def)
  have o2: "m2 x = m x" if "\<not> on_screen x" for x
    using that dump_colours_outside dump_text_outside
    by (simp add: m2_def m1_def write_hex_outside [OF f(1)] write_hex_outside [OF f(2)] write_hex_outside [OF f(3)])
  have far: "\<not> on_screen (t + snd (snd (snd f)) + of_nat i)" if "f \<in> set dump_fields" "i < 4" for f i
  proof -
    have "unat (snd (snd (snd f))) + i < 104" using dump_offsets [OF that(1)] that(2) by simp
    then have "\<not> on_screen (t + of_nat (unat (snd (snd (snd f))) + i))" using t by blast
    then show ?thesis by (simp add: add.assoc)
  qed
  have w: "load32 m2 (t + snd (snd (snd f))) = load32 m (t + snd (snd (snd f)))" if "f \<in> set dump_fields" for f
  proof (rule load32_cong)
    fix x assume x: "unat (x - (t + snd (snd (snd f)))) < 4"
    have "x = t + snd (snd (snd f)) + of_nat (unat (x - (t + snd (snd (snd f)))))" by simp
    then have "\<not> on_screen x" using far [OF that x] by metis
    then show "m2 x = m x" by (rule o2)
  qed
  have far': "\<forall>f \<in> set dump_fields. \<forall>i < 4. \<not> on_screen (t + snd (snd (snd f)) + of_nat i)" using far by blast
  show "f \<in> set dump_fields \<Longrightarrow> field_shows (dump_registers e trapno error_code t m) f (load32 m (t + snd (snd (snd f))))"
    unfolding d using write_hex_apart [OF ok(5)] ok(1,4) sym fields_written(1) [OF ok(1,2) far', of m2] w by (simp add: m3_def)
  have shown: "field_shows (dump_registers e trapno error_code t m) g v" if "g \<in> set trap_fields" "field_shows m2 g v" for g v
  proof -
    have "field_shows m3 g v" unfolding m3_def by (rule fields_kept) (use that ok sym in blast)+
    moreover have "fits g" "apart trace_field g" using that(1) ok(4,6) sym by auto
    ultimately show ?thesis unfolding d using write_hex_apart [OF ok(5)] by simp
  qed
  have a: "apart (7, 60, 8, 0) (7, 21, 2, 0)" "apart (9, 21, 8, 0) (7, 21, 2, 0)" "apart (9, 21, 8, 0) (7, 60, 8, 0)"
    by (simp_all add: apart_def)
  show "field_shows (dump_registers e trapno error_code t m) (7, 21, 2, 0) trapno"
    by (rule shown) (simp, unfold m2_def, intro write_hex_apart [OF f(3) f(1) a(2)] write_hex_apart [OF f(2) f(1) a(1)] write_hex_shows f)
  show "field_shows (dump_registers e trapno error_code t m) (7, 60, 8, 0) error_code"
    by (rule shown) (simp, unfold m2_def, intro write_hex_apart [OF f(3) f(2) a(3)] write_hex_shows f)
  show "field_shows (dump_registers e trapno error_code t m) (9, 21, 8, 0) t"
    by (rule shown) (simp, unfold m2_def, intro write_hex_shows f)
  show "\<not> on_screen x \<Longrightarrow> dump_registers e trapno error_code t m x = m x"
    unfolding d m3_def using o2 fields_written(2) [OF ok(1,2) far'] write_hex_outside [OF ok(5)] by simp
qed

end
