(* ===== verification/Gdb_Packet_Facts.thy ===== *)
theory Gdb_Packet_Facts
  imports Gdb_Packets Strings_Facts Formatting_Facts
begin

text \<open>
  What the packets of the debugger stub carry: the receiver's side by the description of the protocol, the
  encoding of data as a function on lists, and the two loops that repeat until the other side has the
  packet. The interface to the serial line is the locale \<open>serial_line\<close>.
\<close>

section \<open>The interface to the line\<close>

text \<open>
  A line that works: what has arrived and was not read yet is \<open>pending\<close>, in the order of arrival, and what
  has been sent is \<open>sent\<close>. The two calls keep the states in which they may be made.
\<close>

locale serial_line =
  fixes ser :: "'c serial" and ready :: "'c \<Rightarrow> bool" and pending :: "'c \<Rightarrow> u8 list" and sent :: "'c \<Rightarrow> u8 list"
  assumes recv: "ready c \<Longrightarrow> pending c = x # xs \<Longrightarrow>
      \<exists>v c'. serial_recv ser c = Some (v, c') \<and> ucast v = x \<and> v AND 0x7f = ucast (x AND 0x7f)
        \<and> ready c' \<and> pending c' = xs \<and> sent c' = sent c"
    and send: "ready c \<Longrightarrow>
      \<exists>c'. serial_send ser v c = Some c' \<and> ready c' \<and> pending c' = pending c \<and> sent c' = sent c @ [ucast v]"
begin

text \<open>A state in which some bytes wait and some have been sent.\<close>

definition at :: "u8 list \<Rightarrow> u8 list \<Rightarrow> 'c \<Rightarrow> bool" where
  "at ins outs c \<longleftrightarrow> ready c \<and> pending c = ins \<and> sent c = outs"

lemma recv_at: "at (x # ins) outs c \<Longrightarrow> \<exists>v c'. serial_recv ser c = Some (v, c') \<and> ucast v = x
    \<and> v AND 0x7f = ucast (x AND 0x7f) \<and> at ins outs c'"
  using recv [of c x ins] by (auto simp: at_def)

lemma send_at: "at ins outs c \<Longrightarrow> \<exists>c'. serial_send ser v c = Some c' \<and> at ins (outs @ [ucast v]) c'"
  using send [of c v] by (auto simp: at_def)

lemma SEND_at: "at ins outs c \<Longrightarrow> \<exists>c'. SEND ser v (k, c) = Some (k + ucast v, c') \<and> at ins (outs @ [ucast v]) c'"
  using send_at [of ins outs c v] by (auto simp: SEND_def)

end

lemma byte_of_int [simp]: "(ucast (ucast (x :: u8) :: u32) :: u8) = x"
  by (rule bit_word_eqI) (simp add: bit_unsigned_iff)

lemma byte_of_nat: "(ucast (of_nat n :: u32) :: u8) = of_nat n"
  by (simp add: unsigned_of_nat word_of_nat_eq_iff)

section \<open>Run-length encoding on lists\<close>

text \<open>The bytes of a fragment, and what is sent for them. A run of at least \<open>least\<close> bytes is encoded.\<close>

definition run_length :: "nat \<Rightarrow> u8 \<Rightarrow> u8 list \<Rightarrow> nat" where
  "run_length most x xs = min most (length (takeWhile (\<lambda>y. y = x) xs))"

definition hex_chars :: "u8 \<Rightarrow> u8 list" where
  "hex_chars x = [hexchars (drop_bit 4 x), hexchars (x AND 0xf)]"

definition contents :: "bool \<Rightarrow> u8 list \<Rightarrow> u8 list" where
  "contents h xs = (if h then concat (map hex_chars xs) else xs)"

function enc :: "bool \<Rightarrow> u8 list \<Rightarrow> u8 list" where
  "enc h [] = []"
| "enc h (x # xs) =
     (let k = run_length (if h then 49 else 98) x (x # xs)
      in if (if h then 2 \<le> k \<and> drop_bit 4 x = x AND 0xf else 4 \<le> k)
         then [if h then hexchars (x AND 0xf) else x, 0x2A, of_nat (28 + (if h then 2 * k else k))]
           @ enc h (drop k (x # xs))
         else (if h then hex_chars x else [x]) @ enc h xs)"
  by pat_completeness auto
termination
  by (relation "measure (\<lambda>(h, xs). length xs)") (auto simp: run_length_def Let_def split: if_splits)

declare enc.simps(2) [simp del]

text \<open>
  The receiver's side, by the description of the protocol: from left to right up to the hash sign, where a
  star and a count behind a character repeat it. A new dollar sign starts another packet.
\<close>

function read_body :: "u8 list \<Rightarrow> (u8 list \<times> u8 list) option" where
  "read_body [] = None"
| "read_body (c # xs) =
     (if c = 0x23 then Some ([], xs)
      else if c = 0x24 then None
      else if length xs \<ge> 2 \<and> hd xs = 0x2A
      then map_option (apfst (append (replicate (unat (xs ! 1) - 28) c))) (read_body (drop 2 xs))
      else map_option (apfst (Cons c)) (read_body xs))"
  by pat_completeness auto
termination by (relation "measure length") auto

declare read_body.simps(2) [simp del]

definition gdb_read :: "u8 list \<Rightarrow> u8 list option" where
  "gdb_read pkt =
     (if pkt = [] \<or> hd pkt \<noteq> 0x24 then None
      else case read_body (tl pkt) of
        None \<Rightarrow> None
      | Some (text, digits) \<Rightarrow>
          if length digits = 2 \<and> 16 * hex (digits ! 0) + hex (digits ! 1) = uint (sum_list (take (length pkt - 4) (tl pkt)))
          then Some text else None)"

lemma read_plain:
  "c \<noteq> 0x23 \<Longrightarrow> c \<noteq> 0x24 \<Longrightarrow> (\<forall>y ys. xs = y # ys \<longrightarrow> y \<noteq> 0x2A) \<Longrightarrow> read_body (c # xs) = map_option (apfst (Cons c)) (read_body xs)"
  by (subst read_body.simps) (cases xs; simp)

lemma read_run:
  "c \<noteq> 0x23 \<Longrightarrow> c \<noteq> 0x24 \<Longrightarrow> read_body (c # 0x2A # n # xs) = map_option (apfst (append (replicate (unat n - 28) c))) (read_body xs)"
  by (subst read_body.simps) simp

lemma hexchars_cases:
  assumes "n < 16"
  shows "hexchars n \<noteq> 0x2A \<and> hexchars n \<noteq> 0x23 \<and> hexchars n \<noteq> 0x24 \<and> hex (hexchars n) = uint n"
proof -
  have "unat n < 16" using assms by (simp add: word_less_nat_alt)
  then have "unat n \<in> {0, 1, 2, 3, 4, 5, 6, 7, 8, 9, 10, 11, 12, 13, 14, 15}"
    by (simp only: insert_iff empty_iff) presburger
  then have "n \<in> {0, 1, 2, 3, 4, 5, 6, 7, 8, 9, 10, 11, 12, 13, 14, 15}"
    by (simp only: insert_iff empty_iff word_unat_eq_iff) simp
  then show ?thesis by (elim insertE) (simp_all add: hexchars_def bytes_def hex_def)
qed

lemma nibbles: "drop_bit 4 (x :: u8) < 16" "(x :: u8) AND 0xf < 16"
proof -
  have "unat (drop_bit 4 x) < 16"
    using unsigned_less [of x, where 'a = nat] by (simp add: drop_bit_eq_div unat_div)
  then show "drop_bit 4 x < 16" by (simp add: word_less_nat_alt)
  have "x AND 0xf = take_bit 4 x" by (simp add: take_bit_eq_mask mask_eq_exp_minus_1)
  moreover have "unat (take_bit 4 x) < 16" using take_bit_nat_less_exp [of 4 "unat x"] by (simp add: unsigned_take_bit_eq)
  ultimately show "x AND 0xf < 16" by (simp add: word_less_nat_alt)
qed

lemma hexchars_safe [simp]:
  "hexchars (drop_bit 4 x) \<noteq> 0x2A" "hexchars (x AND 0xf) \<noteq> 0x2A" "hexchars (drop_bit 4 x) \<noteq> 0x23"
  "hexchars (x AND 0xf) \<noteq> 0x23" "hexchars (drop_bit 4 x) \<noteq> 0x24" "hexchars (x AND 0xf) \<noteq> 0x24"
  using hexchars_cases [OF nibbles(1), of x] hexchars_cases [OF nibbles(2), of x] by simp_all

lemma run_length_take: "take (run_length most x xs) xs = replicate (run_length most x xs) x"
proof (rule nth_equalityI)
  fix i assume "i < length (take (run_length most x xs) xs)"
  then have "i < run_length most x xs" "i < length (takeWhile (\<lambda>y. y = x) xs)" "i < length xs"
    by (simp_all add: run_length_def)
  moreover have "takeWhile (\<lambda>y. y = x) xs ! i = x"
    using calculation(2) nth_mem set_takeWhileD by fastforce
  ultimately show "take (run_length most x xs) xs ! i = replicate (run_length most x xs) x ! i"
    by (simp add: takeWhile_nth)
next
  have "run_length most x xs \<le> length xs"
    using length_takeWhile_le [of "\<lambda>y. y = x" xs] by (simp add: run_length_def min.coboundedI2)
  then show "length (take (run_length most x xs) xs) = length (replicate (run_length most x xs) x)" by simp
qed

lemma contents_append: "contents h (xs @ ys) = contents h xs @ contents h ys"
  by (simp add: contents_def)

lemma enc_start: "h \<or> 0x2A \<notin> set xs \<Longrightarrow> enc h xs = y # ys \<Longrightarrow> y \<noteq> 0x2A"
  by (cases xs) (auto simp: enc.simps(2) Let_def hex_chars_def split: if_splits)

lemma unat_repeat: "k \<le> 98 \<Longrightarrow> unat (of_nat (28 + k) :: u8) - 28 = k"
  by (simp only: unat_of_nat) (simp add: take_bit_nat_eq_self)

lemma run_length_bounds: "run_length most x xs \<le> most"
  by (simp add: run_length_def)

lemma double_replicate: "concat (replicate k [y, y]) = replicate (2 * k) y"
  by (induction k) simp_all

definition plain_safe :: "u8 list \<Rightarrow> bool" where
  "plain_safe xs \<longleftrightarrow> 0x2A \<notin> set xs \<and> 0x23 \<notin> set xs \<and> 0x24 \<notin> set xs"

lemma enc_read:
  assumes "h \<or> plain_safe xs" "\<forall>y ys. rest = y # ys \<longrightarrow> y \<noteq> 0x2A"
  shows "read_body (enc h xs @ rest) = map_option (apfst (append (contents h xs))) (read_body rest)"
  using assms(1)
proof (induction h xs rule: enc.induct)
  case (1 h)
  then show ?case by (simp add: contents_def apfst_def map_prod_def option.map_ident)
next
  case (2 h x xs)
  define k where "k = run_length (if h then 49 else 98) x (x # xs)"
  note e0 = enc.simps(2) [of h x xs, unfolded Let_def, folded k_def]
  have rest: "\<forall>y ys. enc h zs @ rest = y # ys \<longrightarrow> y \<noteq> 0x2A" if "h \<or> plain_safe zs" for zs
    using enc_start [of h zs] that assms(2) by (cases "enc h zs") (auto simp: plain_safe_def)
  have app: "map_option (apfst (append a)) (map_option (apfst (append b)) r) = map_option (apfst (append (a @ b))) r" for a b :: "u8 list" and r :: "(u8 list \<times> u8 list) option"
    by (cases r) auto
  show ?case
  proof (cases "if h then 2 \<le> k \<and> drop_bit 4 x = x AND 0xf else 4 \<le> k")
    case True
    let ?c = "if h then hexchars (x AND 0xf) else x"
    let ?k = "if h then 2 * k else k"
    have k: "?k \<le> 98" using run_length_bounds [of 49 x "x # xs"] run_length_bounds [of 98 x "x # xs"]
      by (simp add: k_def split: if_splits)
    have c: "?c \<noteq> 0x23" "?c \<noteq> 0x24" using 2(3) by (auto simp: plain_safe_def)
    have e: "enc h (x # xs) = [?c, 0x2A, of_nat (28 + ?k)] @ enc h (drop k (x # xs))"
      by (subst e0) (rule if_P [OF True])
    have sd: "h \<or> plain_safe (drop k (x # xs))" using 2(3) set_drop_subset [of k "x # xs"] by (auto simp: plain_safe_def)
    then have IH: "read_body (enc h (drop k (x # xs)) @ rest) = map_option (apfst (append (contents h (drop k (x # xs))))) (read_body rest)"
      using 2(1) [OF k_def True] by blast
    have "contents h (take k (x # xs)) = replicate ?k ?c"
      unfolding k_def run_length_take using True
      by (simp add: contents_def hex_chars_def double_replicate k_def map_replicate_const flip: concat_replicate_trivial)
    then have "contents h (x # xs) = replicate ?k ?c @ contents h (drop k (x # xs))"
      using contents_append [of h "take k (x # xs)" "drop k (x # xs)"] by (simp only: append_take_drop_id)
    then show ?thesis unfolding e using IH unat_repeat [OF k]
      by (simp only: append_Cons append_Nil read_run [OF c] app)
  next
    case False
    have e: "enc h (x # xs) = (if h then hex_chars x else [x]) @ enc h xs"
      by (subst e0) (rule if_not_P [OF False])
    have sx: "h \<or> plain_safe xs" using 2(3) by (auto simp: plain_safe_def)
    then have IH: "read_body (enc h xs @ rest) = map_option (apfst (append (contents h xs))) (read_body rest)"
      using 2(2) [OF k_def False] by blast
    have cons: "map_option (apfst (Cons a)) r = map_option (apfst (append [a])) r" for a and r :: "(u8 list \<times> u8 list) option"
      by (cases r) auto
    show ?thesis
    proof (cases h)
      case True
      have "read_body (hex_chars x @ enc h xs @ rest) = map_option (apfst (append (hex_chars x))) (read_body (enc h xs @ rest))"
        unfolding hex_chars_def append_Cons append_Nil using rest [OF sx]
        by (simp add: read_plain cons app del: append.simps) (cases "read_body (enc h xs @ rest)"; simp)
      then show ?thesis unfolding e using True IH by (cases "read_body rest") (auto simp: contents_def app)
    next
      case False
      then have "x \<noteq> 0x23" "x \<noteq> 0x24" using 2(3) by (simp_all add: plain_safe_def)
      then show ?thesis unfolding e using False IH rest [OF sx]
        by (cases "read_body rest") (auto simp: contents_def read_plain cons app)
    qed
  qed
qed

section \<open>Sending a fragment\<close>

definition frag_holds :: "outfrag \<Rightarrow> u8 list \<Rightarrow> bool" where
  "frag_holds f xs \<longleftrightarrow> (\<forall>i < length xs. frag_data f i = xs ! i)
     \<and> (if frag_len f \<noteq> 0 then frag_len f = length xs else 0 \<notin> set xs \<and> frag_data f (length xs) = 0)"

lemma run_end_is:
  "(\<And>i. i < n \<Longrightarrow> data (q + i) = x) \<Longrightarrow> q + n \<le> limit \<Longrightarrow> q + n = limit \<or> data (q + n) \<noteq> x \<Longrightarrow>
     run_end data x q limit = q + n"
proof (induction n arbitrary: q)
  case 0
  then show ?case by (subst run_end.simps) auto
next
  case (Suc n)
  have "data (Suc q + i) = x" if "i < n" for i using Suc.prems(1) [of "Suc i"] that by simp
  then have "run_end data x (Suc q) limit = Suc q + n" using Suc.prems(2,3) by (intro Suc.IH) auto
  then show ?case using Suc.prems(1) [of 0] Suc.prems(2) by (subst run_end.simps) simp
qed

text \<open>The run of one byte that stands at a place of the data.\<close>

definition run_at :: "outfrag \<Rightarrow> u8 list \<Rightarrow> nat \<Rightarrow> u8 \<Rightarrow> nat \<Rightarrow> bool" where
  "run_at f xs p x t \<longleftrightarrow> frag_holds f xs \<and> p < length xs \<and> x = xs ! p
     \<and> t = length (takeWhile (\<lambda>y. y = x) (drop p xs))"

lemma run_same:
  assumes r: "run_at f xs p x t" and i: "i < t"
  shows "frag_data f (p + i) = x \<and> p + i < length xs"
proof -
  have holds: "frag_holds f xs" and t: "t = length (takeWhile (\<lambda>y. y = x) (drop p xs))"
    using r by (simp_all add: run_at_def)
  from i have l: "i < length (drop p xs)" using length_takeWhile_le [of "\<lambda>y. y = x" "drop p xs"] by (simp add: t)
  have "takeWhile (\<lambda>y. y = x) (drop p xs) ! i = x" using i nth_mem set_takeWhileD unfolding t by fastforce
  then have "xs ! (p + i) = x" using i l by (simp add: takeWhile_nth t)
  then show ?thesis using holds l by (simp add: frag_holds_def)
qed

lemma run_positive: "run_at f xs p x t \<Longrightarrow> 0 < t"
  using Cons_nth_drop_Suc [of p xs, symmetric] by (auto simp: run_at_def)

lemma run_inside: "run_at f xs p x t \<Longrightarrow> p + t \<le> length xs"
  using length_takeWhile_le [of "\<lambda>y. y = x" "drop p xs"] by (auto simp: run_at_def)

lemma run_over:
  assumes r: "run_at f xs p x t"
  shows "frag_data f (p + t) \<noteq> x \<or> frag_len f = p + t"
proof (cases "p + t = length xs")
  case True
  have "x \<in> set xs" "frag_holds f xs" using r by (simp_all add: run_at_def)
  then show ?thesis using True by (auto simp: frag_holds_def split: if_splits)
next
  case False
  then have l: "t < length (drop p xs)" using run_inside [OF r] by simp
  moreover have t: "t = length (takeWhile (\<lambda>y. y = x) (drop p xs))" "frag_holds f xs" using r by (simp_all add: run_at_def)
  ultimately have "drop p xs ! t \<noteq> x" using nth_length_takeWhile [of "\<lambda>y. y = x" "drop p xs"] by simp
  then show ?thesis using t(2) l by (simp add: frag_holds_def)
qed

lemma run_starts_iff:
  assumes r: "run_at f xs p x t"
  shows "run_starts f p \<longleftrightarrow> (if hexify f then 2 \<le> t \<and> drop_bit 4 x = x AND 0xf else 4 \<le> t)"
proof
  note s = run_same [OF r, of 0, simplified] run_positive [OF r]
  assume a: "run_starts f p"
  show "if hexify f then 2 \<le> t \<and> drop_bit 4 x = x AND 0xf else 4 \<le> t"
  proof (rule ccontr)
    assume n: "\<not> ?thesis"
    then have "t = 1 \<or> \<not> hexify f \<and> (t = 2 \<or> t = 3)" using a s by (auto simp: run_starts_def split: if_splits)
    then show False using a run_over [OF r] s by (auto simp: run_starts_def split: if_splits)
  qed
next
  assume "if hexify f then 2 \<le> t \<and> drop_bit 4 x = x AND 0xf else 4 \<le> t"
  then show "run_starts f p"
    using run_same [OF r, of 0] run_same [OF r, of 1] run_same [OF r, of 2] run_same [OF r, of 3] run_inside [OF r] run_positive [OF r] r
    by (auto simp: run_starts_def frag_holds_def run_at_def split: if_splits)
qed

lemma run_stop_is:
  assumes r: "run_at f xs p x t" and starts: "run_starts f p"
  shows "run_stop f p = p + min (if hexify f then 49 else 98) t"
proof -
  define most where "most = (if hexify f then 49 else 98 :: nat)"
  define least where "least = (if hexify f then 2 else 4 :: nat)"
  define limit where "limit = (if frag_len f \<noteq> 0 \<and> p + most > frag_len f then frag_len f else p + most)"
  let ?k = "min most t"
  note inside = run_inside [OF r]
  have least: "0 < least" by (simp add: least_def)
  have k: "least \<le> ?k" using starts unfolding run_starts_iff [OF r] least_def most_def by (auto split: if_splits)
  have len: "frag_len f \<noteq> 0 \<Longrightarrow> frag_len f = length xs" using r by (simp add: run_at_def frag_holds_def)
  have "frag_data f (p + least + i) = x" if "i < ?k - least" for i
    using run_same [OF r, of "least + i"] that k by (simp add: add.assoc)
  moreover have "p + least + (?k - least) \<le> limit" using k inside len by (auto simp: limit_def)
  moreover have "p + least + (?k - least) = limit \<or> frag_data f (p + least + (?k - least)) \<noteq> x"
  proof (cases "most \<le> t")
    case True
    then have "p + least + (?k - least) = p + most" using k by simp
    then show ?thesis using inside len True least by (auto simp: limit_def)
  next
    case False
    then have "p + least + (?k - least) = p + t" using k by simp
    then show ?thesis using run_over [OF r] len inside False least by (auto simp: limit_def)
  qed
  ultimately have "run_end (frag_data f) x (p + least) limit = p + least + (?k - least)" by (rule run_end_is)
  moreover have "frag_data f p = x" using run_same [OF r, of 0] run_positive [OF r] by simp
  moreover have "run_stop f p = run_end (frag_data f) (frag_data f p) (p + least) limit"
    unfolding run_stop_def Let_def limit_def most_def least_def by (cases "hexify f") simp_all
  ultimately show ?thesis using k by (simp add: most_def)
qed

text \<open>A fragment is sent as its encoding.\<close>

lemma run_at_enc:
  assumes r: "run_at f xs p x t"
  shows "enc (hexify f) (drop p xs) =
    (if run_starts f p
     then [if hexify f then hexchars (x AND 0xf) else x, 0x2A,
           of_nat (28 + (if hexify f then (run_stop f p - p) * 2 else run_stop f p - p))] @ enc (hexify f) (drop (run_stop f p) xs)
     else (if hexify f then hex_chars x else [x]) @ enc (hexify f) (drop (p + 1) xs))"
proof -
  have d: "drop p xs = x # drop (p + 1) xs" using r Cons_nth_drop_Suc [of p xs, symmetric] by (simp add: run_at_def)
  have k: "run_length (if hexify f then 49 else 98) x (x # drop (p + 1) xs) = min (if hexify f then 49 else 98) t"
    using r unfolding run_at_def d by (simp add: run_length_def)
  note e = enc.simps(2) [of "hexify f" x "drop (p + 1) xs", unfolded Let_def k]
  have dd: "drop n (x # drop (p + 1) xs) = drop (p + n) xs" for n
    unfolding d [symmetric] by (simp add: add.commute)
  show ?thesis
  proof (cases "run_starts f p")
    case True
    then show ?thesis unfolding d e dd run_starts_iff [OF r] using run_stop_is [OF r True]
      by (auto simp: mult.commute split: if_splits)
  next
    case False
    then show ?thesis unfolding d e using run_starts_iff [OF r] by (auto split: if_splits)
  qed
qed

context serial_line
begin

lemma send_frag_enc:
  assumes "frag_holds f xs" "p \<le> length xs" "at ins outs c"
  shows "\<exists>c'. send_frag ser f p (k, c) = Some (k + sum_list (enc (hexify f) (drop p xs)), c')
    \<and> at ins (outs @ enc (hexify f) (drop p xs)) c'"
  using assms(2,3)
proof (induction "length xs - p" arbitrary: p k outs c rule: less_induct)
  case less
  show ?case
  proof (cases "p = length xs")
    case True
    then have "\<not> (if frag_len f \<noteq> 0 then p < frag_len f else frag_data f p \<noteq> 0)"
      using assms(1) by (auto simp: frag_holds_def)
    then show ?thesis using True less(3) by (subst send_frag.simps) simp
  next
    case False
    define x where "x = xs ! p"
    define t where "t = length (takeWhile (\<lambda>y. y = x) (drop p xs))"
    have r: "run_at f xs p x t" using False less(2) assms(1) by (simp add: run_at_def x_def t_def)
    have lt: "p < length xs" using False less(2) by simp
    have go: "if frag_len f \<noteq> 0 then p < frag_len f else frag_data f p \<noteq> 0"
    proof -
      have "0 \<notin> set xs \<Longrightarrow> xs ! p \<noteq> 0" using lt by (metis nth_mem)
      then show ?thesis using assms(1) lt by (auto simp: frag_holds_def)
    qed
    have dx: "frag_data f p = x" using run_same [OF r, of 0] run_positive [OF r] by simp
    note e = run_at_enc [OF r] and go = go [unfolded dx]
    show ?thesis
    proof (cases "run_starts f p")
      case True
      let ?q = "run_stop f p"
      let ?c = "if hexify f then hexchars (x AND 0xf) else x"
      let ?rl = "if hexify f then (?q - p) * 2 else ?q - p"
      have q: "p < ?q" "?q \<le> length xs" using run_stop_is [OF r True] run_positive [OF r] run_inside [OF r] by (auto simp: min_def)
      obtain c1 where 1: "SEND ser (if hexify f then ucast (hexchars (frag_data f p AND 0xf)) else ucast (frag_data f p)) (k, c) = Some (k + ?c, c1)"
        "at ins (outs @ [?c]) c1"
        using SEND_at [OF less(3), of "if hexify f then ucast (hexchars (frag_data f p AND 0xf)) else ucast (frag_data f p)" k] by (auto simp: dx split: if_splits)
      obtain c2 where 2: "SEND ser 0x2A (k + ?c, c1) = Some (k + ?c + 0x2A, c2)" "at ins (outs @ [?c, 0x2A]) c2"
        using SEND_at [OF 1(2), of "0x2A" "k + ?c"] by auto
      obtain c3 where 3: "SEND ser (of_nat (29 + ?rl - 1)) (k + ?c + 0x2A, c2) = Some (k + ?c + 0x2A + of_nat (28 + ?rl), c3)"
        "at ins (outs @ [?c, 0x2A, of_nat (28 + ?rl)]) c3"
      proof -
        have "29 + ?rl - 1 = 28 + ?rl" by simp
        then show ?thesis using that SEND_at [OF 2(2), of "of_nat (29 + ?rl - 1)" "k + ?c + 0x2A"]
          unfolding byte_of_nat by (simp only: append_assoc append_Cons append_Nil) blast
      qed
      obtain c4 where 4: "send_frag ser f ?q (k + ?c + 0x2A + of_nat (28 + ?rl), c3) =
          Some (k + ?c + 0x2A + of_nat (28 + ?rl) + sum_list (enc (hexify f) (drop ?q xs)), c4)"
        "at ins ((outs @ [?c, 0x2A, of_nat (28 + ?rl)]) @ enc (hexify f) (drop ?q xs)) c4"
        using less(1) [OF _ q(2) 3(2)] q False less(2) by force
      have "send_frag ser f p (k, c) = Some (k + ?c + 0x2A + of_nat (28 + ?rl) + sum_list (enc (hexify f) (drop ?q xs)), c4)"
        using go True 1(1) 2(1) 3(1) 4(1) by (subst send_frag.simps) (cases "hexify f"; simp add: Let_def dx)
      then show ?thesis unfolding e using 4(2) True by (simp add: add.assoc)
    next
      case False
      have p1: "p + 1 \<le> length xs" using \<open>p \<noteq> length xs\<close> less(2) by simp
      note IH = less(1) [OF _ p1]
      show ?thesis
      proof (cases "hexify f")
        case True
        let ?a = "hexchars (drop_bit 4 x)" and ?b = "hexchars (x AND 0xf)"
        obtain c1 where 1: "SEND ser (ucast ?a) (k, c) = Some (k + ?a, c1)" "at ins (outs @ [?a]) c1"
          using SEND_at [OF less(3), of "ucast ?a" k] by auto
        obtain c2 where 2: "SEND ser (ucast ?b) (k + ?a, c1) = Some (k + ?a + ?b, c2)" "at ins (outs @ [?a, ?b]) c2"
          using SEND_at [OF 1(2), of "ucast ?b" "k + ?a"] by auto
        obtain c3 where 3: "send_frag ser f (p + 1) (k + ?a + ?b, c2) = Some (k + ?a + ?b + sum_list (enc True (drop (p + 1) xs)), c3)"
          "at ins ((outs @ [?a, ?b]) @ enc True (drop (p + 1) xs)) c3"
          using IH [OF _ 2(2)] True p1 by force
        have "send_frag ser f p (k, c) = Some (k + ?a + ?b + sum_list (enc True (drop (p + 1) xs)), c3)"
          using go False True 1(1) 2(1) 3(1) by (subst send_frag.simps) (simp add: dx)
        then show ?thesis unfolding e using 3(2) False True by (simp add: add.assoc hex_chars_def)
      next
        case plain: False
        obtain c1 where 1: "SEND ser (ucast x) (k, c) = Some (k + x, c1)" "at ins (outs @ [x]) c1"
          using SEND_at [OF less(3), of "ucast x" k] by auto
        obtain c2 where 2: "send_frag ser f (p + 1) (k + x, c1) = Some (k + x + sum_list (enc False (drop (p + 1) xs)), c2)"
          "at ins ((outs @ [x]) @ enc False (drop (p + 1) xs)) c2"
          using IH [OF _ 1(2)] plain p1 by force
        have "send_frag ser f p (k, c) = Some (k + x + sum_list (enc False (drop (p + 1) xs)), c2)"
          using go False plain 1(1) 2(1) by (subst send_frag.simps) (simp add: dx)
        then show ?thesis unfolding e using 2(2) False plain by (simp add: add.assoc)
      qed
    qed
  qed
qed

end

section \<open>Packets\<close>

text \<open>What a list of fragments carries, and the packet that is sent for it.\<close>

definition payload :: "(bool \<times> u8 list) list \<Rightarrow> u8 list" where
  "payload ds = concat (map (\<lambda>(h, xs). enc h xs) ds)"

definition carried :: "(bool \<times> u8 list) list \<Rightarrow> u8 list" where
  "carried ds = concat (map (\<lambda>(h, xs). contents h xs) ds)"

definition frags_hold :: "outfrag list \<Rightarrow> (bool \<times> u8 list) list \<Rightarrow> bool" where
  "frags_hold frags ds \<longleftrightarrow> list_all2 (\<lambda>f d. hexify f = fst d \<and> frag_holds f (snd d)) frags ds"

definition packet :: "u8 list \<Rightarrow> u8 list" where
  "packet p = 0x24 # p @ [0x23, hexchars (drop_bit 4 (sum_list p)), hexchars (sum_list p mod 16)]"

lemma payload_start: "\<forall>(h, xs) \<in> set ds. h \<or> plain_safe xs \<Longrightarrow> payload ds @ 0x23 # rest = y # ys \<Longrightarrow> y \<noteq> 0x2A"
proof (induction ds)
  case (Cons d ds)
  obtain h xs where d: "d = (h, xs)" by (cases d)
  show ?case
  proof (cases "enc h xs")
    case Nil
    then show ?thesis using Cons by (auto simp: payload_def d)
  next
    case (Cons z zs)
    then show ?thesis using Cons.prems enc_start [OF _ Cons] by (auto simp: payload_def d plain_safe_def)
  qed
qed (simp add: payload_def)

lemma payload_read:
  "\<forall>(h, xs) \<in> set ds. h \<or> plain_safe xs \<Longrightarrow> read_body (payload ds @ 0x23 # rest) = Some (carried ds, rest)"
proof (induction ds)
  case Nil
  then show ?case by (simp add: payload_def carried_def read_body.simps(2))
next
  case (Cons d ds)
  obtain h xs where d: "d = (h, xs)" by (cases d)
  have "\<forall>y ys. payload ds @ 0x23 # rest = y # ys \<longrightarrow> y \<noteq> 0x2A" using payload_start [of ds rest] Cons.prems by auto
  then have "read_body (enc h xs @ payload ds @ 0x23 # rest) = map_option (apfst (append (contents h xs))) (Some (carried ds, rest))"
    using Cons by (subst enc_read) (auto simp: d)
  then show ?case by (simp add: payload_def carried_def d)
qed

lemma hex_digits_value: "16 * hex (hexchars (drop_bit 4 s)) + hex (hexchars (s mod 16)) = uint (s :: u8)"
proof -
  have m: "s mod 16 = s AND 0xf"
  proof -
    have "s mod 16 = take_bit 4 s" by (simp add: take_bit_eq_mod)
    also have "\<dots> = s AND 0xf" by (simp add: take_bit_eq_mask mask_eq_exp_minus_1)
    finally show ?thesis .
  qed
  have "hex (hexchars (drop_bit 4 s)) = uint (drop_bit 4 s)" "hex (hexchars (s AND 0xf)) = uint (s AND 0xf)"
    using hexchars_cases [OF nibbles(1)] hexchars_cases [OF nibbles(2)] by blast+
  moreover have "uint (s AND 0xf) = uint s mod 16"
    unfolding m [symmetric] by (simp add: uint_mod)
  moreover have "uint (drop_bit 4 s) = uint s div 16" by (simp add: drop_bit_eq_div uint_div)
  ultimately show ?thesis unfolding m by simp
qed

lemma packet_read:
  assumes "\<forall>(h, xs) \<in> set ds. h \<or> plain_safe xs"
  shows "gdb_read (packet (payload ds)) = Some (carried ds)"
  using payload_read [OF assms] hex_digits_value [of "sum_list (payload ds)"]
  by (simp add: gdb_read_def packet_def)

context serial_line
begin

lemma send_frags_at:
  "frags_hold frags ds \<Longrightarrow> at ins outs c \<Longrightarrow>
     \<exists>c'. send_frags ser frags (k, c) = Some (k + sum_list (payload ds), c') \<and> at ins (outs @ payload ds) c'"
proof (induction frags arbitrary: ds k outs c)
  case Nil
  then show ?case by (auto simp: frags_hold_def payload_def)
next
  case (Cons f fs)
  then obtain d ds' where ds: "ds = d # ds'" "hexify f = fst d" "frag_holds f (snd d)" "frags_hold fs ds'"
    by (auto simp: frags_hold_def list_all2_Cons1)
  obtain c1 where 1: "send_frag ser f 0 (k, c) = Some (k + sum_list (enc (fst d) (snd d)), c1)" "at ins (outs @ enc (fst d) (snd d)) c1"
    using send_frag_enc [OF ds(3) _ Cons.prems(2), of 0 k] ds(2) by auto
  show ?case
    using Cons.IH [OF ds(4) 1(2), of "k + sum_list (enc (fst d) (snd d))"] 1(1)
    by (auto simp: ds(1) payload_def split_beta add.assoc)
qed

lemma send_packet_at:
  assumes "frags_hold frags ds" "at ins outs c"
  shows "\<exists>c'. send_packet ser frags c = Some c' \<and> at ins (outs @ packet (payload ds)) c'"
proof -
  let ?s = "sum_list (payload ds)"
  obtain c1 where 1: "serial_send ser 0x24 c = Some c1" "at ins (outs @ [0x24]) c1"
    using send_at [OF assms(2), of "0x24"] by auto
  obtain c2 where 2: "send_frags ser frags (0, c1) = Some (?s, c2)" "at ins ((outs @ [0x24]) @ payload ds) c2"
    using send_frags_at [OF assms(1) 1(2), of 0] by auto
  obtain c3 where 3: "serial_send ser 0x23 c2 = Some c3" "at ins (((outs @ [0x24]) @ payload ds) @ [0x23]) c3"
    using send_at [OF 2(2), of "0x23"] by auto
  obtain c4 where 4: "serial_send ser (ucast (hexchars (drop_bit 4 ?s))) c3 = Some c4"
    "at ins ((((outs @ [0x24]) @ payload ds) @ [0x23]) @ [hexchars (drop_bit 4 ?s)]) c4"
    using send_at [OF 3(2), of "ucast (hexchars (drop_bit 4 ?s))"] by auto
  obtain c5 where 5: "serial_send ser (ucast (hexchars (?s mod 16))) c4 = Some c5"
    "at ins (((((outs @ [0x24]) @ payload ds) @ [0x23]) @ [hexchars (drop_bit 4 ?s)]) @ [hexchars (?s mod 16)]) c5"
    using send_at [OF 4(2), of "ucast (hexchars (?s mod 16))"] by auto
  show ?thesis using 1(1) 2(1) 3(1) 4(1) 5 by (auto simp: send_packet_def packet_def)
qed

text \<open>The packet is sent again until the answer is a plus sign.\<close>

lemma putfrags_at:
  "frags_hold frags ds \<Longrightarrow> \<forall>x \<in> set noes. x AND 0x7f \<noteq> 0x2B \<Longrightarrow> at (noes @ 0x2B # ins) outs c \<Longrightarrow>
     \<exists>c'. putfrags ser frags c = Some c' \<and> at ins (outs @ concat (replicate (length noes + 1) (packet (payload ds)))) c'"
proof (induction noes arbitrary: outs c)
  case Nil
  from send_packet_at [OF Nil(1) Nil(3)] obtain c1 where 1: "send_packet ser frags c = Some c1"
    "at (0x2B # ins) (outs @ packet (payload ds)) c1" by auto
  from recv_at [OF 1(2)] obtain v c2 where 2: "serial_recv ser c1 = Some (v, c2)" "v AND 0x7f = 0x2B" "at ins (outs @ packet (payload ds)) c2"
    by auto
  show ?case using 1(1) 2 by (subst putfrags.simps) auto
next
  case (Cons x noes)
  from send_packet_at [OF Cons.prems(1,3)] obtain c1 where 1: "send_packet ser frags c = Some c1"
    "at (x # noes @ 0x2B # ins) (outs @ packet (payload ds)) c1" by auto
  from recv_at [OF 1(2)] obtain v c2 where 2: "serial_recv ser c1 = Some (v, c2)" "v AND 0x7f = ucast (x AND 0x7f)"
    "at (noes @ 0x2B # ins) (outs @ packet (payload ds)) c2" by auto
  have "(ucast (x AND 0x7f) :: u32) \<noteq> 0x2B"
  proof
    assume "(ucast (x AND 0x7f) :: u32) = 0x2B"
    then have "(ucast (ucast (x AND 0x7f) :: u32) :: u8) = ucast (0x2B :: u32)" by simp
    then show False using Cons.prems(2) by simp
  qed
  then show ?case using 1(1) 2(1,2) Cons.IH [OF Cons.prems(1) _ 2(3)] Cons.prems(2)
    by (subst putfrags.simps) auto
qed

end

section \<open>Receiving a packet\<close>

text \<open>Data without a hash sign that would end it, apart from those behind a closing brace.\<close>

definition whole :: "u8 list \<Rightarrow> bool" where
  "whole p \<longleftrightarrow> length p < BUFMAX \<and> (p \<noteq> [] \<longrightarrow> last p \<noteq> 0x7d) \<and> (\<forall>i < length p. p ! i = 0x23 \<longrightarrow> 0 < i \<and> p ! (i - 1) = 0x7d)"

definition noise :: "u8 list \<Rightarrow> bool" where
  "noise xs \<longleftrightarrow> (\<forall>x \<in> set xs. x AND 0x7f \<noteq> 0x24)"

text \<open>An attempt: noise, data and the two digits of the sum, which may be wrong.\<close>

type_synonym attempt = "u8 list \<times> u8 list \<times> u8 \<times> u8"

definition arrives :: "attempt \<Rightarrow> u8 list" where
  "arrives t = (case t of (pre, p, a, b) \<Rightarrow> pre @ 0x24 # p @ [0x23, a, b])"

definition digits_sum :: "u8 \<Rightarrow> u8 \<Rightarrow> u8" where
  "digits_sum a b = word_of_int (push_bit 4 (hex a)) + word_of_int (hex b)"

definition damaged :: "attempt \<Rightarrow> bool" where
  "damaged t \<longleftrightarrow> (case t of (pre, p, a, b) \<Rightarrow> noise pre \<and> whole p \<and> digits_sum a b \<noteq> sum_list p)"

definition intact :: "attempt \<Rightarrow> bool" where
  "intact t \<longleftrightarrow> (case t of (pre, p, a, b) \<Rightarrow> noise pre \<and> whole p \<and> digits_sum a b = sum_list p)"

definition attempt_data :: "attempt \<Rightarrow> u8 list" where
  "attempt_data t = fst (snd t)"

lemma digits_sum_value: "digits_sum (hexchars (drop_bit 4 s)) (hexchars (s mod 16)) = s"
proof -
  have "digits_sum (hexchars (drop_bit 4 s)) (hexchars (s mod 16)) =
      word_of_int (16 * hex (hexchars (drop_bit 4 s)) + hex (hexchars (s mod 16)))"
    by (simp add: digits_sum_def push_bit_eq_mult mult.commute)
  then show ?thesis unfolding hex_digits_value by simp
qed

context serial_line
begin

lemma packet_start_at:
  "noise pre \<Longrightarrow> at (pre @ 0x24 # ins) outs c \<Longrightarrow> \<exists>c'. packet_start ser c = Some c' \<and> at ins outs c'"
proof (induction pre arbitrary: c)
  case Nil
  then obtain v c1 where "serial_recv ser c = Some (v, c1)" "v AND 0x7f = 0x24" "at ins outs c1"
    using recv_at [of "0x24" ins outs c] by auto
  then show ?case by (subst packet_start.simps) simp
next
  case (Cons x pre)
  then obtain v c1 where 1: "serial_recv ser c = Some (v, c1)" "v AND 0x7f = ucast (x AND 0x7f)" "at (pre @ 0x24 # ins) outs c1"
    using recv_at [of x "pre @ 0x24 # ins" outs c] by auto
  have "(ucast (v AND 0x7f) :: u8) \<noteq> 0x24" using Cons.prems(1) by (simp add: 1(2) noise_def)
  then show ?case using 1 Cons by (subst packet_start.simps) (simp add: noise_def)
qed

lemma packet_data_at:
  "whole p \<Longrightarrow> n \<le> length p \<Longrightarrow> at (drop n p @ 0x23 # ins) outs c \<Longrightarrow>
     \<exists>c'. packet_data ser buffer n k ch (written m buffer (take n p)) c =
       Some (length p, k + sum_list (drop n p), 0x23, written m buffer p, c') \<and> at ins outs c'"
proof (induction "length p - n" arbitrary: n k ch c)
  case 0
  with 0(3) have n: "n = length p" by simp
  obtain v c1 where 1: "serial_recv ser c = Some (v, c1)" "ucast v = (0x23 :: u8)" "at ins outs c1"
    using recv_at [of "0x23" ins outs c] 0(4) n by auto
  have "n \<noteq> 0 \<Longrightarrow> written m buffer p (buffer + of_nat (n - 1)) = last p"
    using 0(2) n by (subst written_at) (auto simp: whole_def last_conv_nth)
  then have "n = 0 \<or> written m buffer p (buffer + of_nat (n - 1)) \<noteq> 0x7d" using 0(2) n by (auto simp: whole_def)
  then show ?case using 1 n 0(2) by (subst packet_data.simps) (simp add: whole_def)
next
  case (Suc j)
  then have n: "n < length p" by simp
  let ?x = "p ! n"
  obtain v c1 where 1: "serial_recv ser c = Some (v, c1)" "ucast v = ?x" "at (drop (Suc n) p @ 0x23 # ins) outs c1"
    using recv_at [of ?x "drop (Suc n) p @ 0x23 # ins" outs c] Suc(5) n by (auto simp flip: Cons_nth_drop_Suc)
  have w: "(written m buffer (take n p))(buffer + of_nat n := ?x) = written m buffer (take (Suc n) p)"
    using n Suc(3) by (subst written_snoc) (auto simp: whole_def take_Suc_conv_app_nth)
  have "written m buffer (take n p) (buffer + of_nat (n - 1)) = 0x7d" if "?x = 0x23"
  proof -
    have "0 < n \<and> p ! (n - 1) = 0x7d" using that n Suc(3) by (auto simp: whole_def)
    then show ?thesis using n Suc(3) by (subst written_at) (auto simp: whole_def)
  qed
  moreover have "n \<noteq> 0" if "?x = 0x23" using that n Suc(3) by (auto simp: whole_def)
  ultimately have step: "packet_data ser buffer n k ch (written m buffer (take n p)) c =
      packet_data ser buffer (Suc n) (k + ?x) ?x (written m buffer (take (Suc n) p)) c1"
    using 1(1,2) n Suc(3) w by (subst packet_data.simps) (auto simp: whole_def Let_def)
  obtain c2 where "packet_data ser buffer (Suc n) (k + ?x) ?x (written m buffer (take (Suc n) p)) c1 =
      Some (length p, k + ?x + sum_list (drop (Suc n) p), 0x23, written m buffer p, c2)" "at ins outs c2"
  proof -
    have "j = length p - Suc n" "Suc n \<le> length p" using Suc(2) n by simp_all
    then show ?thesis using Suc(1) [OF _ Suc(3) _ 1(3), of "k + ?x" ?x] that by blast
  qed
  then show ?case using step n by (auto simp: add.assoc simp flip: Cons_nth_drop_Suc)
qed

lemma packet_head_at:
  assumes "noise pre" "whole p" "at (arrives (pre, p, a, b) @ ins) outs c"
  shows "\<exists>c1 c2. packet_start ser c = Some c1
    \<and> packet_data ser buffer 0 0 0x24 m c1 = Some (length p, sum_list p, 0x23, written m buffer p, c2)
    \<and> (written m buffer p)(buffer + of_nat (length p) := 0) = written m buffer (p @ [0]) \<and> at (a # b # ins) outs c2"
proof -
  obtain c1 where 1: "packet_start ser c = Some c1" "at (p @ 0x23 # a # b # ins) outs c1"
    using packet_start_at [OF assms(1), of "p @ 0x23 # a # b # ins" outs c] assms(3) by (auto simp: arrives_def)
  obtain c2 where 2: "packet_data ser buffer 0 0 0x24 m c1 = Some (length p, sum_list p, 0x23, written m buffer p, c2)" "at (a # b # ins) outs c2"
    using packet_data_at [OF assms(2), of 0 "a # b # ins" outs c1 buffer 0 "0x24" m] 1(2) by auto
  have "(written m buffer p)(buffer + of_nat (length p) := 0) = written m buffer (p @ [0])"
    using assms(2) by (intro written_snoc) (auto simp: whole_def)
  then show ?thesis using 1(1) 2 by blast
qed

lemma getpacket_damaged:
  assumes d: "damaged t" and a: "at (arrives t @ ins) outs c"
  shows "\<exists>c'. getpacket ser buffer m c = getpacket ser buffer (written m buffer (attempt_data t @ [0])) c'
    \<and> at ins (outs @ [0x2D]) c'"
proof -
  obtain pre p x y where t: "t = (pre, p, x, y)" by (cases t)
  have h: "noise pre" "whole p" "digits_sum x y \<noteq> sum_list p" using d by (simp_all add: damaged_def t)
  obtain c1 c2 where 1: "packet_start ser c = Some c1"
    "packet_data ser buffer 0 0 0x24 m c1 = Some (length p, sum_list p, 0x23, written m buffer p, c2)"
    "(written m buffer p)(buffer + of_nat (length p) := 0) = written m buffer (p @ [0])" "at (x # y # ins) outs c2"
    using packet_head_at [OF h(1,2) a [unfolded t], of buffer m] by blast
  obtain v1 c3 where 3: "serial_recv ser c2 = Some (v1, c3)" "ucast v1 = x" "at (y # ins) outs c3"
    using recv_at [OF 1(4)] by blast
  obtain v2 c4 where 4: "serial_recv ser c3 = Some (v2, c4)" "ucast v2 = y" "at ins outs c4"
    using recv_at [OF 3(3)] by blast
  obtain c5 where 5: "serial_send ser 0x2D c4 = Some c5" "at ins (outs @ [0x2D]) c5"
    using send_at [OF 4(3), of "0x2D"] by auto
  have "packet_check ser buffer (sum_list p) (written m buffer (p @ [0])) c2 = Some (digits_sum x y, written m buffer (p @ [0]), c5)"
    using 3(1,2) 4(1,2) 5(1) h(3) by (auto simp: packet_check_def Let_def digits_sum_def)
  then have "getpacket ser buffer m c = getpacket ser buffer (written m buffer (p @ [0])) c5"
    using 1(1-3) h(3) by (subst getpacket.simps) auto
  then show ?thesis using 5(2) by (auto simp: t attempt_data_def)
qed

lemma getpacket_intact:
  assumes d: "intact t" and a: "at (arrives t @ ins) outs c"
    and s: "written m buffer (attempt_data t @ [0]) (buffer + 2) \<noteq> 0x3A"
  shows "\<exists>c'. getpacket ser buffer m c = Some (written m buffer (attempt_data t @ [0]), c') \<and> at ins (outs @ [0x2B]) c'"
proof -
  obtain pre p x y where t: "t = (pre, p, x, y)" by (cases t)
  have h: "noise pre" "whole p" "digits_sum x y = sum_list p" using d by (simp_all add: intact_def t)
  obtain c1 c2 where 1: "packet_start ser c = Some c1"
    "packet_data ser buffer 0 0 0x24 m c1 = Some (length p, sum_list p, 0x23, written m buffer p, c2)"
    "(written m buffer p)(buffer + of_nat (length p) := 0) = written m buffer (p @ [0])" "at (x # y # ins) outs c2"
    using packet_head_at [OF h(1,2) a [unfolded t], of buffer m] by blast
  obtain v1 c3 where 3: "serial_recv ser c2 = Some (v1, c3)" "ucast v1 = x" "at (y # ins) outs c3"
    using recv_at [OF 1(4)] by blast
  obtain v2 c4 where 4: "serial_recv ser c3 = Some (v2, c4)" "ucast v2 = y" "at ins outs c4"
    using recv_at [OF 3(3)] by blast
  obtain c5 where 5: "serial_send ser 0x2B c4 = Some c5" "at ins (outs @ [0x2B]) c5"
    using send_at [OF 4(3), of "0x2B"] by auto
  have "packet_check ser buffer (sum_list p) (written m buffer (p @ [0])) c2 = Some (sum_list p, written m buffer (p @ [0]), c5)"
    using 3(1,2) 4(1,2) 5(1) h(3) s by (auto simp: packet_check_def Let_def digits_sum_def t attempt_data_def)
  then have "getpacket ser buffer m c = Some (written m buffer (p @ [0]), c5)"
    using 1(1-3) by (subst getpacket.simps) auto
  then show ?thesis using 5(2) by (auto simp: t attempt_data_def)
qed

text \<open>The buffer after some attempts.\<close>

lemma getpacket_at:
  "\<forall>t \<in> set ts. damaged t \<Longrightarrow> intact t \<Longrightarrow> at (concat (map arrives ts) @ arrives t @ ins) outs c \<Longrightarrow>
     fold (\<lambda>t m. written m buffer (attempt_data t @ [0])) (ts @ [t]) m (buffer + 2) \<noteq> 0x3A \<Longrightarrow>
     \<exists>c'. getpacket ser buffer m c = Some (fold (\<lambda>t m. written m buffer (attempt_data t @ [0])) (ts @ [t]) m, c')
       \<and> at ins (outs @ replicate (length ts) 0x2D @ [0x2B]) c'"
proof (induction ts arbitrary: outs c m)
  case Nil
  then show ?case using getpacket_intact [of t ins outs c m buffer] by simp
next
  case (Cons u ts)
  have "at (arrives u @ concat (map arrives ts) @ arrives t @ ins) outs c" using Cons.prems(3) by simp
  then obtain c1 where 1: "getpacket ser buffer m c = getpacket ser buffer (written m buffer (attempt_data u @ [0])) c1"
    "at (concat (map arrives ts) @ arrives t @ ins) (outs @ [0x2D]) c1"
    using getpacket_damaged [of u _ outs c buffer m] Cons.prems(1) by auto
  show ?case
    using Cons.IH [OF _ Cons.prems(2) 1(2), of "written m buffer (attempt_data u @ [0])"] Cons.prems(1,4) 1(1) by auto
qed

end

end
