(* ===== verification/Gdb_Stub_Facts.thy ===== *)
theory Gdb_Stub_Facts
  imports Gdb_Stub Gdb_Packet_Facts Gdb_Memory_Facts
begin

text \<open>
  The commands of the debugger stub on a working line: what is read from the hexadecimal text of a packet,
  the answers as packets, and the commands on the registers.
\<close>

section \<open>Hexadecimal text\<close>

lemma contents_length: "length (contents True xs) = 2 * length xs"
  by (induction xs) (auto simp: contents_def hex_chars_def)

lemma contents_nth:
  "i < length xs \<Longrightarrow> contents True xs ! (2 * i) = hexchars (drop_bit 4 (xs ! i))
     \<and> contents True xs ! (2 * i + 1) = hexchars (xs ! i AND 0xf)"
proof (induction xs arbitrary: i)
  case (Cons x xs)
  then show ?case by (cases i) (simp_all add: contents_def hex_chars_def)
qed simp

lemma hex_pair: "push_bit 4 (hex (hexchars (drop_bit 4 x))) OR hex (hexchars (x AND 0xf)) = uint x"
proof -
  have h: "hex (hexchars (drop_bit 4 x)) = uint (drop_bit 4 x)" "hex (hexchars (x AND 0xf)) = uint (x AND 0xf)"
    using hexchars_cases [OF nibbles(1)] hexchars_cases [OF nibbles(2)] by blast+
  have d: "uint (drop_bit 4 x) = drop_bit 4 (uint x)" by (simp add: drop_bit_eq_div uint_div)
  have "x AND 0xf = take_bit 4 x" by (simp add: take_bit_eq_mask mask_eq_exp_minus_1)
  then have t: "uint (x AND 0xf) = take_bit 4 (uint x)" by (simp only: unsigned_take_bit_eq)
  have "push_bit 4 (drop_bit 4 (uint x)) AND take_bit 4 (uint x) = 0"
    by (rule bit_eqI) (auto simp: bit_and_iff bit_push_bit_iff bit_take_bit_iff simp del: push_bit_eq_mult take_bit_eq_mod drop_bit_eq_div)
  then have "push_bit 4 (drop_bit 4 (uint x)) OR take_bit 4 (uint x) = push_bit 4 (drop_bit 4 (uint x)) + take_bit 4 (uint x)"
    by (rule disjunctive_add_eq_or [symmetric])
  then show ?thesis unfolding h d t bits_ident .
qed

text \<open>\<open>hex2bin\<close> reads back what the hexadecimal text stands for.\<close>

lemma hex2bin_contents:
  "length xs < 2 ^ 31 \<Longrightarrow> (\<And>i. i < 2 * length xs \<Longrightarrow> m (inp + of_nat i) = contents True xs ! i) \<Longrightarrow>
   (\<And>i j. i < 2 * length xs \<Longrightarrow> j < length xs \<Longrightarrow> inp + of_nat i \<noteq> out + of_nat j) \<Longrightarrow>
     hex2bin inp out (length xs) m = (0, written m out xs)"
proof (induction xs arbitrary: inp out m)
  case Nil
  then show ?case by (simp add: written_def)
next
  case (Cons x xs)
  have "m inp = hexchars (drop_bit 4 x)" "m (inp + 1) = hexchars (x AND 0xf)"
    using Cons.prems(2) [of 0] Cons.prems(2) [of 1] by (simp_all add: contents_def hex_chars_def)
  then have ch: "push_bit 4 (hex (m inp)) OR hex (m (inp + 1)) = uint x" by (simp only: hex_pair)
  let ?m = "m(out := x)"
  have "hex2bin (inp + 2) (out + 1) (length xs) ?m = (0, written ?m (out + 1) xs)"
  proof (rule Cons.IH)
    show "length xs < 2 ^ 31" using Cons.prems(1) by simp
    show "?m (inp + 2 + of_nat i) = contents True xs ! i" if "i < 2 * length xs" for i
      using Cons.prems(2) [of "i + 2"] Cons.prems(3) [of "i + 2" 0] that
      by (simp add: contents_def hex_chars_def add.assoc)
    show "inp + 2 + of_nat i \<noteq> out + 1 + of_nat j" if "i < 2 * length xs" "j < length xs" for i j
      using Cons.prems(3) [of "i + 2" "j + 1"] that by (simp add: add.assoc)
  qed
  moreover have "written ?m (out + 1) xs = written m out (x # xs)"
  proof (cases "xs = []")
    case True
    then show ?thesis by (auto simp: written_def fun_eq_iff unat_eq_0)
  next
    case False
    have "?m = written m out [x]" by (auto simp: written_def fun_eq_iff unat_eq_0)
    then show ?thesis using written_append [of "[x]" xs m out] False Cons.prems(1) by simp
  qed
  moreover have "\<not> uint x < 0" by (simp add: not_less)
  ultimately show ?case by (simp add: ch Let_def)
qed

section \<open>Answers\<close>

lemma frag_of_string: "0 \<notin> set (bytes s) \<Longrightarrow> frag_holds (str_frag s) (bytes s)"
  by (auto simp: frag_holds_def str_frag_def bytes_def)

lemma frag_of_byte: "frag_holds (byte_frag b) [b]"
  by (simp add: frag_holds_def byte_frag_def)

lemma frag_of_memory: "n \<noteq> 0 \<Longrightarrow> (\<And>i. i < n \<Longrightarrow> m (p + of_nat i) = xs ! i) \<Longrightarrow> length xs = n \<Longrightarrow> frag_holds (mem_frag m p n h) xs"
  by (auto simp: frag_holds_def mem_frag_def)

context serial_line
begin

text \<open>An answer that the other side takes at once.\<close>

lemma gdb_reply_at:
  assumes "gdb_line e = ser" "frags_hold frags ds" "at (0x2B # ins) outs (sline s)"
  shows "\<exists>c. gdb_reply e a frags p s = Some (a, p, s\<lparr>sline := c\<rparr>) \<and> at ins (outs @ packet (payload ds)) c"
  using putfrags_at [OF assms(2), of "[]" ins outs "sline s"] assms
  by (auto simp: gdb_reply_def putpacket_def)

text \<open>The registers of the stopped task, set and read.\<close>

lemma cmd_set_regs_at:
  assumes e: "gdb_line e = ser" and l: "at (0x2B # ins) outs (sline s)"
    and xs: "length xs = 64" "\<And>i. i < 128 \<Longrightarrow> smem s (inbuf e + 1 + of_nat i) = contents True xs ! i"
    and disj: "\<And>i j. i < 128 \<Longrightarrow> j < 64 \<Longrightarrow> inbuf e + 1 + of_nat i \<noteq> regs p + of_nat j"
  shows "\<exists>c. cmd_set_regs e p s = Some (GDB_MORE, p\<lparr>regs_changed := True\<rparr>, s\<lparr>smem := written (smem s) (regs p) xs, sline := c\<rparr>)
    \<and> at ins (outs @ packet (payload [(False, bytes ''OK'')])) c"
proof -
  have "hex2bin (inbuf e + 1) (regs p) (length xs) (smem s) = (0, written (smem s) (regs p) xs)"
    using xs disj by (intro hex2bin_contents) simp_all
  then have h: "hex2bin (inbuf e + 1) (regs p) 64 (smem s) = (0, written (smem s) (regs p) xs)" by (simp only: xs(1))
  have f: "frags_hold [str_frag ''OK''] [(False, bytes ''OK'')]"
    using frag_of_string [of "''OK''"] by (simp add: frags_hold_def str_frag_def bytes_def)
  have "at (0x2B # ins) outs (sline (s\<lparr>smem := written (smem s) (regs p) xs\<rparr>))" using l by simp
  from gdb_reply_at [OF e f this, of GDB_MORE "p\<lparr>regs_changed := True\<rparr>"] show ?thesis
    by (auto simp: cmd_set_regs_def h gdb_ok_def)
qed

lemma cmd_get_regs_at:
  assumes e: "gdb_line e = ser" and l: "at (0x2B # ins) outs (sline s)"
    and xs: "length xs = 64" "\<And>i. i < 64 \<Longrightarrow> smem s (regs p + of_nat i) = xs ! i"
  shows "\<exists>c. cmd_get_regs e p s = Some (GDB_MORE, p, s\<lparr>sline := c\<rparr>) \<and> at ins (outs @ packet (payload [(True, xs)])) c"
proof -
  have "frags_hold [mem_frag (smem s) (regs p) 64 True] [(True, xs)]"
    using frag_of_memory [of 64 "smem s" "regs p" xs True] xs by (simp add: frags_hold_def mem_frag_def)
  from gdb_reply_at [OF e this l, of GDB_MORE p] show ?thesis by (simp add: cmd_get_regs_def)
qed

text \<open>A round that takes an intact packet and leads to the command in it.\<close>

lemma gdb_round_at:
  assumes e: "gdb_line e = ser" and t: "intact t" and l: "at (arrives t @ ins) outs (sline s)"
    and stale: "written (smem s) (inbuf e) (attempt_data t @ [0]) (inbuf e + 2) \<noteq> 0x3A"
  shows "\<exists>c. gdb_round e p s =
      gdb_command e p (s\<lparr>smem := written (smem s) (inbuf e) (attempt_data t @ [0]), sline := c, connected := True\<rparr>)
    \<and> at ins (outs @ [0x2B]) c"
proof -
  obtain c where "getpacket ser (inbuf e) (smem s) (sline s) = Some (written (smem s) (inbuf e) (attempt_data t @ [0]), c)"
    "at ins (outs @ [0x2B]) c"
    using getpacket_intact [OF t l stale] by blast
  then show ?thesis by (auto simp: gdb_round_def e)
qed

end

text \<open>The packet of the command with the letter \<open>c\<close> and the text \<open>xs\<close>.\<close>

definition command_packet :: "char \<Rightarrow> u8 list \<Rightarrow> attempt" where
  "command_packet c xs =
     (let p = of_char c # xs in ([], p, hexchars (drop_bit 4 (sum_list p)), hexchars (sum_list p mod 16)))"

lemma contents_digits: "x \<in> set (contents True xs) \<Longrightarrow> \<exists>n < 16. x = hexchars n"
  using nibbles by (auto simp: contents_def hex_chars_def)

lemma contents_plain: "x \<in> set (contents True xs) \<Longrightarrow> x \<noteq> 0x23 \<and> x \<noteq> 0x7d \<and> x \<noteq> 0x3A"
proof -
  assume "x \<in> set (contents True xs)"
  then obtain n where n: "n < 16" "x = hexchars n" using contents_digits by blast
  have h: "hex x = uint n" "x \<noteq> 0x23" using hexchars_cases [OF n(1)] n(2) by simp_all
  have "0 \<le> hex x" unfolding h by simp
  moreover have "hex 0x7d = - 1" "hex 0x3A = - 1" by (simp_all add: hex_def)
  ultimately show ?thesis using h(2) by (metis neg_0_le_iff_le not_one_le_zero)
qed

lemma command_intact:
  assumes "length xs < 199" "c = CHR ''G'' \<or> c = CHR ''g''"
  shows "intact (command_packet c (contents True xs))"
proof -
  let ?p = "of_char c # contents True xs"
  have c: "(of_char c :: u8) \<noteq> 0x23" "(of_char c :: u8) \<noteq> 0x7d" using assms(2) by auto
  have plain: "x \<noteq> 0x23 \<and> x \<noteq> 0x7d" if "x \<in> set ?p" for x using that c contents_plain by auto
  have "?p ! i \<noteq> 0x23" if "i < length ?p" for i using plain nth_mem [OF that] by blast
  moreover have "last ?p \<noteq> 0x7d" using plain last_in_set [of ?p] by blast
  ultimately have "whole ?p" using assms(1) by (auto simp: whole_def contents_length)
  then show ?thesis by (simp add: command_packet_def Let_def intact_def noise_def digits_sum_value)
qed

lemma command_data: "attempt_data (command_packet c xs) = of_char c # xs"
  by (simp add: command_packet_def attempt_data_def Let_def)

text \<open>The rounds that set all the registers and that read them.\<close>

context serial_line
begin

lemma set_registers_round:
  assumes e: "gdb_line e = ser" and xs: "length xs = 64"
    and l: "at (arrives (command_packet CHR ''G'' (contents True xs)) @ 0x2B # ins) outs (sline s)"
    and disj: "\<And>i j. i < 130 \<Longrightarrow> j < 64 \<Longrightarrow> inbuf e + of_nat i \<noteq> regs p + of_nat j"
  shows "\<exists>s'. gdb_round e p s = Some (GDB_MORE, p\<lparr>regs_changed := True\<rparr>, s')
    \<and> smem s' = written (written (smem s) (inbuf e) (of_char CHR ''G'' # contents True xs @ [0])) (regs p) xs
    \<and> at ins (outs @ 0x2B # packet (payload [(False, bytes ''OK'')])) (sline s')"
proof -
  let ?b = "of_char CHR ''G'' # contents True xs @ [0]"
  let ?m = "written (smem s) (inbuf e) ?b"
  have len: "length ?b = 130" by (simp add: contents_length xs)
  have m: "?m (inbuf e + of_nat i) = ?b ! i" if "i < 130" for i using written_at [of i ?b] len that by simp
  have "contents True xs ! 1 \<in> set (contents True xs)" by (rule nth_mem) (simp add: contents_length xs)
  from contents_plain [OF this] have "?b ! 2 \<noteq> 0x3A" by (simp add: nth_append contents_length xs)
  then have "?m (inbuf e + 2) \<noteq> 0x3A" using m [of 2] by simp
  moreover have "intact (command_packet CHR ''G'' (contents True xs))" using xs by (intro command_intact) simp_all
  ultimately obtain c where c: "gdb_round e p s = gdb_command e p (s\<lparr>smem := ?m, sline := c, connected := True\<rparr>)"
    "at (0x2B # ins) (outs @ [0x2B]) c"
    using gdb_round_at [OF e _ l, of p] by (auto simp: command_data)
  let ?s = "s\<lparr>smem := ?m, sline := c, connected := True\<rparr>"
  have held: "smem ?s (inbuf e + 1 + of_nat i) = contents True xs ! i" if "i < 128" for i
    using m [of "Suc i"] that by (simp add: nth_append contents_length xs add.assoc)
  have apart: "inbuf e + 1 + of_nat i \<noteq> regs p + of_nat j" if "i < 128" "j < 64" for i j
    using disj [of "Suc i" j] that by (simp add: add.assoc)
  have line: "at (0x2B # ins) (outs @ [0x2B]) (sline ?s)" using c(2) by simp
  obtain c' where c': "cmd_set_regs e p ?s = Some (GDB_MORE, p\<lparr>regs_changed := True\<rparr>, ?s\<lparr>smem := written ?m (regs p) xs, sline := c'\<rparr>)"
    "at ins ((outs @ [0x2B]) @ packet (payload [(False, bytes ''OK'')])) c'"
    using cmd_set_regs_at [where p = p, OF e line xs held apart] by auto
  have "smem ?s (inbuf e) = of_char CHR ''G''" using m [of 0] by simp
  then have "gdb_command e p ?s = cmd_set_regs e p ?s" by (simp add: gdb_command_def)
  then show ?thesis using c(1) c' by simp
qed

lemma get_registers_round:
  assumes e: "gdb_line e = ser" and xs: "length xs = 64" "\<And>j. j < 64 \<Longrightarrow> smem s (regs p + of_nat j) = xs ! j"
    and l: "at (arrives (command_packet CHR ''g'' []) @ 0x2B # ins) outs (sline s)"
    and disj: "\<And>i j. i < 130 \<Longrightarrow> j < 64 \<Longrightarrow> inbuf e + of_nat i \<noteq> regs p + of_nat j"
    and stale: "smem s (inbuf e + 2) \<noteq> 0x3A"
  shows "\<exists>s'. gdb_round e p s = Some (GDB_MORE, p, s') \<and> at ins (outs @ 0x2B # packet (payload [(True, xs)])) (sline s')"
proof -
  let ?m = "written (smem s) (inbuf e) [of_char CHR ''g'', 0]"
  have "intact (command_packet CHR ''g'' [])" using command_intact [of "[]" "CHR ''g''"] by (simp add: contents_def)
  moreover have "?m (inbuf e + 2) = smem s (inbuf e + 2)" by (simp add: written_def)
  ultimately obtain c where c: "gdb_round e p s = gdb_command e p (s\<lparr>smem := ?m, sline := c, connected := True\<rparr>)"
    "at (0x2B # ins) (outs @ [0x2B]) c"
    using gdb_round_at [OF e _ l, of p] stale by (auto simp: command_data)
  let ?s = "s\<lparr>smem := ?m, sline := c, connected := True\<rparr>"
  have held: "smem ?s (regs p + of_nat j) = xs ! j" if "j < 64" for j
  proof -
    have "?m (regs p + of_nat j) = smem s (regs p + of_nat j)"
    proof (rule written_outside)
      fix i assume "i < length [of_char CHR ''g'', 0 :: u8]"
      then have "i < 130" by simp
      from disj [OF this that] show "regs p + of_nat j \<noteq> inbuf e + of_nat i" by metis
    qed
    then show ?thesis using xs(2) that by simp
  qed
  have line: "at (0x2B # ins) (outs @ [0x2B]) (sline ?s)" using c(2) by simp
  obtain c' where c': "cmd_get_regs e p ?s = Some (GDB_MORE, p, ?s\<lparr>sline := c'\<rparr>)"
    "at ins ((outs @ [0x2B]) @ packet (payload [(True, xs)])) c'"
    using cmd_get_regs_at [where p = p, OF e line xs(1) held] by auto
  have "smem ?s (inbuf e) = of_char CHR ''g''" by (simp add: written_def)
  then have "gdb_command e p ?s = cmd_get_regs e p ?s" by (simp add: gdb_command_def)
  then show ?thesis using c(1) c' by simp
qed

end

section \<open>Numbers in packets\<close>

definition hex_text :: "u8 list \<Rightarrow> bool" where
  "hex_text cs \<longleftrightarrow> cs \<noteq> [] \<and> length cs < 400 \<and> (\<forall>c \<in> set cs. digit_value 16 c \<noteq> None)"

lemma hex_digit_plain: "digit_value 16 c \<noteq> None \<Longrightarrow> \<not> isspace c \<and> c \<noteq> 0x78 \<and> c \<noteq> 0x58"
  by (auto simp: digit_value_def isspace_def split: if_splits)

lemma strtoul_hex:
  assumes "hex_text cs" "\<And>i. i < length cs \<Longrightarrow> m (q + of_nat i) = cs ! i" "m (q + of_nat (length cs)) = c"
    "digit_value 16 c = None" "c \<noteq> 0x78" "c \<noteq> 0x58"
  shows "strtoul q 16 m = Some (digits_value 16 cs 0, q + of_nat (length cs))"
proof -
  have d: "digit_loop q 16 0 m = Some (digits_value 16 cs 0, q + of_nat (length cs))"
    using assms by (intro digit_loop_digits) (auto simp: hex_text_def)
  have l: "0 < length cs" using assms(1) by (simp add: hex_text_def)
  have first: "\<not> isspace (m q)" using assms(1) assms(2) [of 0] l hex_digit_plain [of "cs ! 0"] by (simp add: hex_text_def)
  have "m (q + 1) \<noteq> 0x78 \<and> m (q + 1) \<noteq> 0x58"
  proof (cases "length cs = 1")
    case True
    then show ?thesis using assms(3,5,6) by simp
  next
    case False
    with l have "1 < length cs" by linarith
    then show ?thesis using assms(1) assms(2) [of 1] hex_digit_plain [of "cs ! 1"] by (simp add: hex_text_def)
  qed
  then have "\<not> hex_prefix q 16 m" by (simp add: hex_prefix_def)
  moreover have "space_loop q m = Some q" using first by (subst space_loop.simps) simp
  ultimately show ?thesis using d by (simp add: strtoul_def base_of_def)
qed

context serial_line
begin

text \<open>One register is set, at the place that its number gives.\<close>

lemma cmd_set_reg_at:
  assumes e: "gdb_line e = ser" and l: "at (0x2B # ins) outs (sline s)"
    and xs: "hex_text cs" "length xs = 4"
      "\<And>i. i < length cs + 9 \<Longrightarrow> smem s (inbuf e + 1 + of_nat i) = (cs @ 0x3D # contents True xs) ! i"
    and n: "n = digits_value 16 cs 0" "n \<noteq> 0x29" "(n + 1) * 4 \<le> 64"
    and disj: "\<And>i j. i < length cs + 9 \<Longrightarrow> j < 4 \<Longrightarrow> inbuf e + 1 + of_nat i \<noteq> regs p + 4 * n + of_nat j"
  shows "\<exists>c. cmd_set_reg e p s = Some (GDB_MORE, p\<lparr>regs_changed := True\<rparr>, s\<lparr>smem := written (smem s) (regs p + 4 * n) xs, sline := c\<rparr>)
    \<and> at ins (outs @ packet (payload [(False, bytes ''OK'')])) c"
proof -
  let ?q = "inbuf e + 1 + of_nat (length cs)"
  have eq: "smem s ?q = 0x3D" using xs(3) [of "length cs"] by (simp add: nth_append)
  have "strtoul (inbuf e + 1) 16 (smem s) = Some (n, ?q)"
    unfolding n(1) using xs eq by (intro strtoul_hex) (auto simp: nth_append digit_value_def)
  moreover have "?q \<noteq> inbuf e + 1"
  proof
    assume "?q = inbuf e + 1"
    then have "unat (of_nat (length cs) :: ptr) = 0" by simp
    then show False using xs(1) by (simp add: hex_text_def unat_of_nat32)
  qed
  moreover have "hex2bin (?q + 1) (regs p + 4 * n) (length xs) (smem s) = (0, written (smem s) (regs p + 4 * n) xs)"
  proof (rule hex2bin_contents)
    fix i assume i: "i < 2 * length xs"
    have "smem s (inbuf e + 1 + of_nat (length cs + 1 + i)) = contents True xs ! i"
      using xs(3) [of "length cs + 1 + i"] i xs(2) by (simp add: nth_append)
    then show "smem s (?q + 1 + of_nat i) = contents True xs ! i" by (simp add: add.assoc)
  next
    fix i j assume i: "i < 2 * length xs" "j < length xs"
    then show "?q + 1 + of_nat i \<noteq> regs p + 4 * n + of_nat j"
      using disj [of "length cs + 1 + i" j] xs(2) by (simp add: add.assoc)
  qed (simp add: xs)
  ultimately have c: "cmd_set_reg e p s = gdb_ok e GDB_MORE (p\<lparr>regs_changed := True\<rparr>) (s\<lparr>smem := written (smem s) (regs p + 4 * n) xs\<rparr>)"
    using eq n(2) linorder_not_less [THEN iffD2, OF n(3)] by (simp add: cmd_set_reg_def xs(2))
  have f: "frags_hold [str_frag ''OK''] [(False, bytes ''OK'')]"
    using frag_of_string [of "''OK''"] by (simp add: frags_hold_def str_frag_def bytes_def)
  have "at (0x2B # ins) outs (sline (s\<lparr>smem := written (smem s) (regs p + 4 * n) xs\<rparr>))" using l by simp
  from gdb_reply_at [OF e f this, of GDB_MORE "p\<lparr>regs_changed := True\<rparr>"] show ?thesis
    by (auto simp: c gdb_ok_def)
qed

end

end
