(* ===== verification/Serial_Facts.thy ===== *)
theory Serial_Facts
  imports Trap_Facts Gdb_Stub_Facts
begin

text \<open>
  The serial driver of \<^verbatim>\<open>peripheral/serial.c\<close> as a line for the debugger stub: the locale \<open>uart\<close> is what
  the data sheet of the serial controller says, and the driver on such a controller satisfies
  \<open>serial_line\<close>. A simulated controller satisfies \<open>uart\<close>.
\<close>

section \<open>A serial controller\<close>

text \<open>
  The controller at the first serial port. \<open>rx\<close> has the bytes that arrived, \<open>tx\<close> the ones that were sent;
  while \<open>dlab\<close> is set the data port gives access to the divisor. It may be busy for some reads of its
  status, and it sees no transmission errors.
\<close>

locale uart =
  fixes hw :: "'d hardware" and rx :: "'d \<Rightarrow> u8 list" and tx :: "'d \<Rightarrow> u8 list" and dlab :: "'d \<Rightarrow> bool" and delay :: "'d \<Rightarrow> nat"
  assumes status: "\<exists>v d'. inb hw 0x3fd d = (v, d') \<and> (v AND 1 = 0 \<longleftrightarrow> rx d = [] \<or> delay d \<noteq> 0) \<and> (v AND 0x20 = 0 \<longleftrightarrow> delay d \<noteq> 0)
      \<and> v AND 0x1e = 0 \<and> rx d' = rx d \<and> tx d' = tx d \<and> dlab d' = dlab d \<and> delay d' = delay d - 1"
    and receive: "\<not> dlab d \<Longrightarrow> rx d = x # xs \<Longrightarrow> \<exists>d'. inb hw 0x3f8 d = (x, d') \<and> rx d' = xs \<and> tx d' = tx d \<and> \<not> dlab d'"
    and transmit: "\<not> dlab d \<Longrightarrow> rx (outb hw v 0x3f8 d) = rx d \<and> tx (outb hw v 0x3f8 d) = tx d @ [v] \<and> \<not> dlab (outb hw v 0x3f8 d)"
    and divisor: "dlab d \<Longrightarrow> rx (outb hw v 0x3f8 d) = rx d \<and> tx (outb hw v 0x3f8 d) = tx d \<and> dlab (outb hw v 0x3f8 d)"
    and other: "port \<in> {0x3f9, 0x3fc} \<Longrightarrow> rx (outb hw v port d) = rx d \<and> tx (outb hw v port d) = tx d \<and> dlab (outb hw v port d) = dlab d"
    and format: "rx (outb hw v 0x3fb d) = rx d \<and> tx (outb hw v 0x3fb d) = tx d \<and> (dlab (outb hw v 0x3fb d) \<longleftrightarrow> bit v 7)"
begin

text \<open>The flag of the driver says that the controller was set up.\<close>

definition com1_ready :: "bool \<times> 'd \<Rightarrow> bool" where
  "com1_ready s \<longleftrightarrow> (fst s \<longrightarrow> \<not> dlab (snd s))"

lemma init_serial_ready:
  assumes "com1_ready s"
  shows "\<exists>d. init_serial hw s = (True, d) \<and> \<not> dlab d \<and> rx d = rx (snd s) \<and> tx d = tx (snd s)"
proof (cases "fst s")
  case True
  then show ?thesis using assms by (cases s) (simp add: init_serial_def com1_ready_def)
next
  case False
  obtain d0 where s: "s = (False, d0)" using False by (cases s) auto
  define d1 where "d1 = outb hw 0x0f 0x3fc d0"
  define d2 where "d2 = outb hw 0 0x3f9 d1"
  define d3 where "d3 = outb hw 0x83 0x3fb d2"
  define d4 where "d4 = outb hw 1 0x3f8 d3"
  define d5 where "d5 = outb hw 0 0x3f9 d4"
  define d6 where "d6 = outb hw 0x03 0x3fb d5"
  have 1: "rx d1 = rx d0" "tx d1 = tx d0" using other [of "0x3fc" "0x0f" d0] by (simp_all add: d1_def)
  have 2: "rx d2 = rx d1" "tx d2 = tx d1" using other [of "0x3f9" 0 d1] by (simp_all add: d2_def)
  have 3: "rx d3 = rx d2" "tx d3 = tx d2" "dlab d3" using format [of "0x83" d2] by (simp_all add: d3_def)
  have 4: "rx d4 = rx d3" "tx d4 = tx d3" using divisor [OF 3(3), of 1] by (simp_all add: d4_def)
  have 5: "rx d5 = rx d4" "tx d5 = tx d4" using other [of "0x3f9" 0 d4] by (simp_all add: d5_def)
  have 6: "rx d6 = rx d5" "tx d6 = tx d5" "\<not> dlab d6" using format [of "0x03" d5] by (simp_all add: d6_def)
  have "init_serial hw s = (True, d6)"
    by (simp add: s init_serial_def d1_def d2_def d3_def d4_def d5_def d6_def)
  then show ?thesis using 1 2 3 4 5 6 s by simp
qed

lemma transmit_wait: "\<exists>d'. com1_write_wait hw d = Some d' \<and> rx d' = rx d \<and> tx d' = tx d \<and> dlab d' = dlab d"
proof (induction "delay d" arbitrary: d)
  case 0
  obtain v d1 where 1: "inb hw 0x3fd d = (v, d1)" "v AND 0x20 \<noteq> 0" "rx d1 = rx d" "tx d1 = tx d" "dlab d1 = dlab d"
    using status [of d] 0 by metis
  have "com1_write_wait hw d = Some d1" using 1(1,2) by (subst com1_write_wait.simps) simp
  then show ?case using 1 by simp
next
  case (Suc n)
  obtain v d1 where 1: "inb hw 0x3fd d = (v, d1)" "v AND 0x20 = 0" "delay d1 = delay d - 1" "rx d1 = rx d" "tx d1 = tx d" "dlab d1 = dlab d"
    using status [of d] Suc(2) by (metis nat.distinct(1))
  have e: "com1_write_wait hw d = com1_write_wait hw d1" using 1(1,2) by (subst com1_write_wait.simps) simp
  have "n = delay d1" using 1(3) Suc(2) by simp
  then show ?case using Suc(1) [of d1] 1(4-6) by (simp add: e)
qed

lemma receive_wait:
  "rx d \<noteq> [] \<Longrightarrow> \<exists>d'. com1_read_wait hw d = Some d' \<and> rx d' = rx d \<and> tx d' = tx d \<and> dlab d' = dlab d"
proof (induction "delay d" arbitrary: d)
  case 0
  obtain v d1 where 1: "inb hw 0x3fd d = (v, d1)" "v AND 1 \<noteq> 0" "v AND 0x1e = 0" "rx d1 = rx d" "tx d1 = tx d" "dlab d1 = dlab d"
    using status [of d] 0 by metis
  have "com1_read_wait hw d = Some d1" using 1(1-3) by (subst com1_read_wait.simps) simp
  then show ?case using 1 by simp
next
  case (Suc n)
  obtain v d1 where 1: "inb hw 0x3fd d = (v, d1)" "v AND 1 = 0" "delay d1 = delay d - 1" "rx d1 = rx d" "tx d1 = tx d" "dlab d1 = dlab d"
    using status [of d] Suc(2) by (metis nat.distinct(1))
  have e: "com1_read_wait hw d = com1_read_wait hw d1" using 1(1,2) by (subst com1_read_wait.simps) simp
  have "n = delay d1" using 1(3) Suc(2) by simp
  then show ?case using Suc(1) [of d1] Suc(3) 1(4-6) by (simp add: e)
qed

lemma com1_send:
  assumes "com1_ready s"
  shows "\<exists>s'. write_com1 hw v s = Some s' \<and> com1_ready s' \<and> rx (snd s') = rx (snd s) \<and> tx (snd s') = tx (snd s) @ [ucast v]"
proof -
  obtain d where d: "init_serial hw s = (True, d)" "\<not> dlab d" "rx d = rx (snd s)" "tx d = tx (snd s)"
    using init_serial_ready [OF assms] by blast
  obtain d1 where "com1_write_wait hw d = Some d1" "rx d1 = rx d" "tx d1 = tx d" "dlab d1 = dlab d" using transmit_wait by blast
  then show ?thesis using d transmit [of d1 "ucast v"] by (auto simp: write_com1_def com1_ready_def)
qed

lemma com1_recv:
  assumes "com1_ready s" "rx (snd s) = x # xs"
  shows "\<exists>s'. read_com1 hw s = Some (ucast x, s') \<and> com1_ready s' \<and> rx (snd s') = xs \<and> tx (snd s') = tx (snd s)"
proof -
  obtain d where d: "init_serial hw s = (True, d)" "\<not> dlab d" "rx d = rx (snd s)" "tx d = tx (snd s)"
    using init_serial_ready [OF assms(1)] by blast
  obtain d1 where 1: "com1_read_wait hw d = Some d1" "rx d1 = x # xs" "tx d1 = tx d" "\<not> dlab d1"
    using receive_wait [of d] d assms(2) by auto
  obtain d2 where "inb hw 0x3f8 d1 = (x, d2)" "rx d2 = xs" "tx d2 = tx d1" "\<not> dlab d2" using receive [OF 1(4,2)] by blast
  then show ?thesis using d 1 by (auto simp: read_com1_def com1_ready_def)
qed

end

lemma byte_and_7f: "(ucast (x :: u8) :: u32) AND 0x7f = ucast (x AND 0x7f)"
  by (simp add: unsigned_and_eq)

sublocale uart \<subseteq> com1: serial_line "com1_serial hw" com1_ready "\<lambda>s. rx (snd s)" "\<lambda>s. tx (snd s)"
proof unfold_locales
  fix c x xs assume "com1_ready c" "rx (snd c) = x # xs"
  then show "\<exists>v c'. serial_recv (com1_serial hw) c = Some (v, c') \<and> ucast v = x \<and> v AND 0x7f = ucast (x AND 0x7f)
      \<and> com1_ready c' \<and> rx (snd c') = xs \<and> tx (snd c') = tx (snd c)"
    using com1_recv [of c x xs] byte_and_7f [of x] by (auto simp: com1_serial_def)
next
  fix c v assume "com1_ready c"
  then show "\<exists>c'. serial_send (com1_serial hw) v c = Some c' \<and> com1_ready c' \<and> rx (snd c') = rx (snd c)
      \<and> tx (snd c') = tx (snd c) @ [ucast v]"
    using com1_send [of c v] by (auto simp: com1_serial_def)
qed

section \<open>The stub on the serial port\<close>

context uart
begin

lemma com1_at: "com1.at ins outs s \<longleftrightarrow> com1_ready s \<and> rx (snd s) = ins \<and> tx (snd s) = outs"
  by (simp add: com1.at_def)

lemma putfrags_com1:
  assumes "frags_hold frags parts" "\<forall>x \<in> set noes. x AND 0x7f \<noteq> 0x2B" "com1_ready s" "rx (snd s) = noes @ 0x2B # ins"
  shows "\<exists>s'. putfrags (com1_serial hw) frags s = Some s' \<and> com1_ready s' \<and> rx (snd s') = ins
    \<and> tx (snd s') = tx (snd s) @ concat (replicate (length noes + 1) (packet (payload parts)))"
  using com1.putfrags_at [OF assms(1,2), of ins "tx (snd s)" s] assms(3,4) by (simp add: com1_at)

lemma getpacket_com1:
  assumes "\<forall>t \<in> set ts. damaged t" "intact t" "com1_ready s" "rx (snd s) = concat (map arrives ts) @ arrives t @ ins"
    "2 \<le> length (attempt_data t)" "2 < length (attempt_data t) \<Longrightarrow> attempt_data t ! 2 \<noteq> 0x3A"
  shows "\<exists>m' s'. getpacket (com1_serial hw) buffer m s = Some (m', s') \<and> com1_ready s' \<and> rx (snd s') = ins
    \<and> tx (snd s') = tx (snd s) @ replicate (length ts) 0x2D @ [0x2B]
    \<and> (\<forall>i < length (attempt_data t). m' (buffer + of_nat i) = attempt_data t ! i)
    \<and> m' (buffer + of_nat (length (attempt_data t))) = 0"
proof -
  let ?p = "attempt_data t"
  let ?m = "fold (\<lambda>t m. written m buffer (attempt_data t @ [0])) ts m"
  have l: "length (?p @ [0]) \<le> 2 ^ 32" using assms(2) by (auto simp: intact_def whole_def attempt_data_def split: prod.splits)
  have w: "written ?m buffer (?p @ [0]) (buffer + of_nat i) = (?p @ [0]) ! i" if "i \<le> length ?p" for i
    using written_at [of i "?p @ [0]" ?m buffer] l that by simp
  have "(?p @ [0]) ! 2 \<noteq> 0x3A" using assms(5,6) by (cases "length ?p = 2") (simp_all add: nth_append)
  then have "fold (\<lambda>t m. written m buffer (attempt_data t @ [0])) (ts @ [t]) m (buffer + 2) \<noteq> 0x3A"
    using w [of 2] assms(5) by simp
  then obtain s' where s': "getpacket (com1_serial hw) buffer m s = Some (written ?m buffer (?p @ [0]), s')"
    "com1.at ins (tx (snd s) @ replicate (length ts) 0x2D @ [0x2B]) s'"
    using com1.getpacket_at [OF assms(1,2), of ins "tx (snd s)" s buffer m] assms(3,4) by (auto simp: com1_at)
  have "\<forall>i < length ?p. written ?m buffer (?p @ [0]) (buffer + of_nat i) = ?p ! i"
    "written ?m buffer (?p @ [0]) (buffer + of_nat (length ?p)) = 0"
    using w by (simp_all add: nth_append)
  then show ?thesis using s' by (auto simp: com1_at)
qed

text \<open>A packet that sets all the registers, then one that reads them.\<close>

lemma registers_com1:
  assumes e: "gdb_line e = com1_serial hw" and r: "com1_ready (sline s)" and xs: "length xs = 64"
    and l: "rx (snd (sline s)) = arrives (command_packet CHR ''G'' (contents True xs)) @ 0x2B # arrives (command_packet CHR ''g'' []) @ 0x2B # ins"
    and disj: "\<And>i j. i < 130 \<Longrightarrow> j < 64 \<Longrightarrow> inbuf e + of_nat i \<noteq> regs p + of_nat j"
  shows "\<exists>s1 s2. gdb_round e p s = Some (GDB_MORE, p\<lparr>regs_changed := True\<rparr>, s1) \<and> (\<forall>j < 64. smem s1 (regs p + of_nat j) = xs ! j)
    \<and> gdb_round e (p\<lparr>regs_changed := True\<rparr>) s1 = Some (GDB_MORE, p\<lparr>regs_changed := True\<rparr>, s2) \<and> rx (snd (sline s2)) = ins
    \<and> tx (snd (sline s2)) = tx (snd (sline s)) @ 0x2B # packet (payload [(False, bytes ''OK'')]) @ 0x2B # packet (payload [(True, xs)])"
proof -
  let ?b = "of_char CHR ''G'' # contents True xs @ [0]" and ?p = "p\<lparr>regs_changed := True\<rparr>"
  have "com1.at (arrives (command_packet CHR ''G'' (contents True xs)) @ 0x2B # arrives (command_packet CHR ''g'' []) @ 0x2B # ins)
      (tx (snd (sline s))) (sline s)" using r l by (simp add: com1_at)
  then obtain s1 where 1: "gdb_round e p s = Some (GDB_MORE, ?p, s1)" "smem s1 = written (written (smem s) (inbuf e) ?b) (regs p) xs"
    "com1.at (arrives (command_packet CHR ''g'' []) @ 0x2B # ins)
       (tx (snd (sline s)) @ 0x2B # packet (payload [(False, bytes ''OK'')])) (sline s1)"
    using com1.set_registers_round [OF e xs _ disj] by blast
  have held: "smem s1 (regs ?p + of_nat j) = xs ! j" if "j < 64" for j using written_at [of j xs] xs that by (simp add: 1(2))
  have len: "length ?b = 130" by (simp add: contents_length xs)
  have "contents True xs ! 1 \<in> set (contents True xs)" by (rule nth_mem) (simp add: contents_length xs)
  from contents_plain [OF this] have "?b ! 2 \<noteq> 0x3A" by (simp add: nth_append contents_length xs)
  moreover have "smem s1 (inbuf e + of_nat 2) = written (smem s) (inbuf e) ?b (inbuf e + of_nat 2)"
    unfolding 1(2) by (rule written_outside) (use disj [of 2] xs in simp)
  moreover have "written (smem s) (inbuf e) ?b (inbuf e + of_nat 2) = ?b ! 2" by (rule written_at) (simp_all only: len, simp_all)
  ultimately have "smem s1 (inbuf e + of_nat 2) \<noteq> 0x3A" by metis
  then have stale: "smem s1 (inbuf e + 2) \<noteq> 0x3A" by simp
  from com1.get_registers_round [where p = ?p, OF e xs held 1(3) _ stale] disj
  obtain s2 where "gdb_round e ?p s1 = Some (GDB_MORE, ?p, s2)"
    "com1.at ins ((tx (snd (sline s)) @ 0x2B # packet (payload [(False, bytes ''OK'')])) @ 0x2B # packet (payload [(True, xs)])) (sline s2)"
    by auto
  then show ?thesis using 1(1) held by (auto simp: com1_at)
qed

lemma set_reg_com1:
  assumes "gdb_line e = com1_serial hw" "com1_ready (sline s)" "rx (snd (sline s)) = 0x2B # ins"
    "hex_text digs" "length xs = 4" "\<And>i. i < length digs + 9 \<Longrightarrow> smem s (inbuf e + 1 + of_nat i) = (digs @ 0x3D # contents True xs) ! i"
    "n = digits_value 16 digs 0" "n \<noteq> 0x29" "(n + 1) * 4 \<le> 64"
    "\<And>i j. i < length digs + 9 \<Longrightarrow> j < 4 \<Longrightarrow> inbuf e + 1 + of_nat i \<noteq> regs p + 4 * n + of_nat j"
  shows "\<exists>s'. cmd_set_reg e p s = Some (GDB_MORE, p\<lparr>regs_changed := True\<rparr>, s') \<and> smem s' = written (smem s) (regs p + 4 * n) xs
    \<and> rx (snd (sline s')) = ins \<and> tx (snd (sline s')) = tx (snd (sline s)) @ packet (payload [(False, bytes ''OK'')])"
proof -
  have "com1.at (0x2B # ins) (tx (snd (sline s))) (sline s)" using assms(2,3) by (simp add: com1_at)
  from com1.cmd_set_reg_at [where p = p, OF assms(1) this assms(4-10)] show ?thesis by (auto simp: com1_at)
qed

end

section \<open>A simulated controller\<close>

record uart_sim =
  rx_queue :: "u8 list"
  tx_log :: "u8 list"
  dlab_bit :: bool
  busy_reads :: nat

definition uart_sim_hw :: "uart_sim hardware" where
  "uart_sim_hw = \<lparr>read_byte = (\<lambda>port d.
      if port = 0x3fd then ((if rx_queue d \<noteq> [] \<and> busy_reads d = 0 then 1 else 0) OR (if busy_reads d = 0 then 0x20 else 0),
        d\<lparr>busy_reads := busy_reads d - 1\<rparr>)
      else if port = 0x3f8 \<and> rx_queue d \<noteq> [] then (hd (rx_queue d), d\<lparr>rx_queue := tl (rx_queue d), busy_reads := 2\<rparr>)
      else (0, d)),
    write_byte = (\<lambda>v port d.
      if port = 0x3f8 then (if dlab_bit d then d else d\<lparr>tx_log := tx_log d @ [v], busy_reads := 3\<rparr>)
      else if port = 0x3fb then d\<lparr>dlab_bit := bit v 7\<rparr> else d),
    write_word = (\<lambda>v port d. d)\<rparr>"

interpretation sim: uart uart_sim_hw rx_queue tx_log dlab_bit busy_reads
  by unfold_locales (auto simp: uart_sim_hw_def inb_def outb_def)

end
