(* ===== verification/Debug_Properties.thy ===== *)
theory Debug_Properties
  imports Serial_Facts
begin

text \<open>
  The properties of the debugger stub and of the handler of the exceptions. The hypothesis \<open>uart\<close> is what the
  data sheet of the serial controller says; the simulated controller of \<open>Serial_Facts\<close> satisfies it, and the
  witnesses run on it.
\<close>

section \<open>Packets\<close>


definition sim_start :: "u8 list \<Rightarrow> bool \<times> uart_sim" where
  "sim_start ins = (False, \<lparr>rx_queue = ins, tx_log = [], dlab_bit = False, busy_reads = 2\<rparr>)"

lemma uart_sim_ok: "uart uart_sim_hw rx_queue tx_log dlab_bit busy_reads"
  by (rule sim.uart_axioms)




section \<open>Registers and memory\<close>


definition sim_env :: "(bool \<times> uart_sim) gdb_env" where
  "sim_env = \<lparr>gdb_line = com1_serial uart_sim_hw, callbacks = None, paging_regs = \<lparr>client_cr0 = 0, client_cr3 = 0\<rparr>,
     inbuf = 0x1000, outbuf = (\<lambda>n. 0x3000)\<rparr>"

definition sim_params :: gdb_params where
  "sim_params = \<lparr>thread_id = - 1, signo = 5, regs = 0x2000, regs_changed = False\<rparr>"

definition sim_stub :: "u8 list \<Rightarrow> (bool \<times> uart_sim) stub" where
  "sim_stub ins = \<lparr>smem = (\<lambda>a. 0), sline = sim_start ins, connected = False, gdb_serial_debug = False\<rparr>"










text \<open>
  C32. The command that sets one register (\<open>P\<close>) writes the four bytes of its text at the place of the register and
  answers \<open>OK\<close> for each number \<open>n\<close> with \<open>(n + 1) * 4\<close> at most the size of the registers, 29 (hexadecimal) apart.
  The sum and the product wrap around at 32 bits: the number \<open>ffffffff\<close> passes the test, and the bytes are
  written in front of the registers, as the witness shows.
\<close>

theorem register_number_wraps:
  assumes "uart hw rx tx dlab delay" "gdb_line e = com1_serial hw" "fst (sline s) \<longrightarrow> \<not> dlab (snd (sline s))"
    and "rx (snd (sline s)) = of_char CHR ''+'' # ins" "hex_text digs" "length xs = 4"
    and "\<And>i. i < length digs + 9 \<Longrightarrow> smem s (inbuf e + 1 + of_nat i) = (digs @ of_char CHR ''='' # contents True xs) ! i"
    and "n = digits_value 16 digs 0" "n \<noteq> 0x29" "(n + 1) * 4 \<le> 64"
    and "\<And>i j. i < length digs + 9 \<Longrightarrow> j < 4 \<Longrightarrow> inbuf e + 1 + of_nat i \<noteq> regs p + 4 * n + of_nat j"
  shows "\<exists>s' ok. cmd_set_reg e p s = Some (GDB_MORE, p\<lparr>regs_changed := True\<rparr>, s')
    \<and> (\<forall>j < 4. smem s' (regs p + 4 * n + of_nat j) = xs ! j) \<and> rx (snd (sline s')) = ins
    \<and> tx (snd (sline s')) = tx (snd (sline s)) @ ok \<and> gdb_read ok = Some (bytes ''OK'')"
proof -
  have r: "uart.com1_ready dlab (sline s)" using assms(3) by (simp add: uart.com1_ready_def [OF assms(1)])
  have c: "(of_char CHR ''+'' :: u8) = 0x2B" "(of_char CHR ''='' :: u8) = 0x3D" by simp_all
  have "gdb_read (packet (payload [(False, bytes ''OK'')])) = Some (carried [(False, bytes ''OK'')])"
    by (rule packet_read) (simp add: plain_safe_def bytes_def)
  then have ok: "gdb_read (packet (payload [(False, bytes ''OK'')])) = Some (bytes ''OK'')" by (simp add: carried_def contents_def)
  have "written (smem s) (regs p + 4 * n) xs (regs p + 4 * n + of_nat j) = xs ! j" if "j < 4" for j
    using written_at [of j xs] assms(6) that by simp
  then show ?thesis
    using uart.set_reg_com1 [where p = p, OF assms(1,2) r assms(4) [unfolded c] assms(5,6) assms(7) [unfolded c] assms(8-11)] ok by auto
qed

definition wrap_stub :: "(bool \<times> uart_sim) stub" where
  "wrap_stub = (sim_stub [of_char CHR ''+''])\<lparr>smem := written (\<lambda>a. 0) 0x1000 (bytes ''Pffffffff=deadbeef'')\<rparr>"

theorem register_number_wraps_witness:
  "\<exists>s'. cmd_set_reg sim_env sim_params wrap_stub = Some (GDB_MORE, sim_params\<lparr>regs_changed := True\<rparr>, s')
    \<and> regs sim_params = 0x2000 \<and> smem wrap_stub 0x1FFC = 0 \<and> smem s' 0x1FFC = 0xDE"
proof -
  let ?s = "wrap_stub" and ?digs = "[0x66, 0x66, 0x66, 0x66, 0x66, 0x66, 0x66, 0x66] :: u8 list" and ?xs = "[0xDE, 0xAD, 0xBE, 0xEF] :: u8 list"
  have c: "contents True ?xs = bytes ''deadbeef''"
    by (simp add: contents_def hex_chars_def hexchars_def bytes_def drop_bit_eq_div)
  have 1: "gdb_line sim_env = com1_serial uart_sim_hw" "fst (sline ?s) \<longrightarrow> \<not> dlab_bit (snd (sline ?s))"
    "rx_queue (snd (sline ?s)) = of_char CHR ''+'' # []"
    by (simp_all add: sim_env_def sim_stub_def sim_start_def wrap_stub_def)
  have 2: "hex_text ?digs" "length ?xs = 4" by (simp_all add: hex_text_def digit_value_def)
  have b: "bytes ''Pffffffff=deadbeef'' = of_char CHR ''P'' # ?digs @ of_char CHR ''='' # contents True ?xs"
    unfolding c by (simp add: bytes_def)
  have 3: "smem ?s (inbuf sim_env + 1 + of_nat i) = (?digs @ of_char CHR ''='' # contents True ?xs) ! i" if "i < length ?digs + 9" for i
    using written_at [of "Suc i" "bytes ''Pffffffff=deadbeef''" "\<lambda>a. 0" "0x1000"] that
    by (simp add: wrap_stub_def sim_env_def b contents_length add.assoc)
  have n: "0xffffffff = digits_value 16 ?digs 0" by (simp add: digits_value_def digit_value_def)
  have 4: "inbuf sim_env + 1 + of_nat i \<noteq> regs sim_params + 4 * 0xffffffff + of_nat j" if "i < length ?digs + 9" "j < 4" for i j
  proof
    assume "inbuf sim_env + 1 + of_nat i = regs sim_params + 4 * 0xffffffff + of_nat j"
    then have "(of_nat (0x1001 + i) :: ptr) = of_nat (0x1FFC + j)" by (simp add: sim_env_def sim_params_def)
    then have "unat (of_nat (0x1001 + i) :: ptr) = unat (of_nat (0x1FFC + j) :: ptr)" by simp
    then show False using that by (simp add: unat_of_nat32 del: of_nat_add)
  qed
  have 5: "(0xffffffff :: u32) \<noteq> 0x29" "((0xffffffff :: u32) + 1) * 4 \<le> 64" by simp_all
  obtain s' where s': "cmd_set_reg sim_env sim_params ?s = Some (GDB_MORE, sim_params\<lparr>regs_changed := True\<rparr>, s')"
    "\<forall>j < 4. smem s' (regs sim_params + 4 * 0xffffffff + of_nat j) = ?xs ! j"
    using register_number_wraps [where p = sim_params, OF uart_sim_ok 1 2 3 n 5 4] by blast
  have "regs sim_params + 4 * 0xffffffff + of_nat 0 = (0x1FFC :: ptr)" by (simp add: sim_params_def)
  moreover have "smem s' (regs sim_params + 4 * 0xffffffff + of_nat 0) = ?xs ! 0" by (rule s'(2) [rule_format]) simp
  ultimately have "smem s' 0x1FFC = 0xDE" by (simp only: nth_Cons_0)
  moreover have "smem ?s 0x1FFC = 0" by (simp add: wrap_stub_def written_def bytes_def)
  ultimately show ?thesis using s'(1) by (auto simp: sim_params_def)
qed

section \<open>Exceptions\<close>

text \<open>
  C25. The handler of an exception finds the task that the exception stopped: with the tables that \<open>cpu_init\<close>
  wrote in memory, the task register that the gate of the exception selects, and the link to the stopped
  task that the processor stores in the task state of the exception, both the dump and the debugger work
  on the task state of the kernel, whose address the boot code put into its segment. The processor may
  have changed the bytes with the access rights.
\<close>

theorem exceptions_find_the_stopped_task:
  assumes "writes_page_table setup_pgtab" "i < 32" "m = smem (tstub s)" "s' = fst (cpu_init hw l setup_pgtab (q, d))"
    and "\<forall>k \<in> {1, 10 + i}. holds_base m (gdt_at e + of_nat (8 * k)) (gdt s' k)"
    and "reg_tr e = ucast (gate_selector (gate_in s' i))"
    and "ucast (load32 m (trap_tss_address l + of_nat (104 * i))) = (tr s' :: u16)"
  shows "trap_handler hw' e trapno error_code s =
    (if do_debug s then
       (case gdb_serial s of None \<Rightarrow> None | Some ser \<Rightarrow> debugger e trapno error_code (tss_address l) ser s)
     else trap_keys hw' e trapno error_code (tss_address l) True
       (on_memory (\<lambda>m. dump_registers e trapno error_code (tss_address l) (save_screen e m)) s))"
proof -
  have g: "gate_selector (gate_in s' i) = 0x50 + of_nat (8 * i)"
    unfolding assms(4) exception_gate [OF assms(1,2)] by simp
  have "holds_base m (gdt_at e + 8 * ucast (drop_bit 3 (gate_selector (gate_in s' i)))) (gdt s' (10 + i))"
    using assms(5) unfolding g selector_entry trap_selector [OF assms(2)] by simp
  from tss_sel_busy [OF this] have 1: "tss_sel_2_tss e (gate_selector (gate_in s' i)) m = trap_tss_at l i"
    unfolding assms(4) exception_segment [OF assms(1,2)] by simp
  have "holds_base m (gdt_at e + 8 * ucast (drop_bit 3 (0x08 :: u16))) (gdt s' 1)"
    using assms(5) by (simp add: drop_bit_eq_div)
  from tss_sel_busy [OF this] have 2: "tss_sel_2_tss e 0x08 m = tss_address l"
    unfolding assms(4) main_segment [OF assms(1)] .
  have b: "ucast (load32 m (trap_tss_at l i)) = (0x08 :: u16)"
    using assms(7) cpu_init_tables(6) [OF assms(1), of hw l q d] by (simp add: trap_tss_at_def assms(4))
  have r: "(ucast (reg_tr e) :: u16) = gate_selector (gate_in s' i)" unfolding assms(6)
    by (rule bit_word_eqI) (simp add: bit_unsigned_iff)
  have t: "tss_sel_2_tss e (ucast (load32 m (tss_sel_2_tss e (ucast (reg_tr e)) m))) m = tss_address l"
    unfolding r 1 b by (rule 2)
  show ?thesis unfolding trap_handler_def Let_def assms(3) [symmetric] t ..
qed

definition sim_trap_env :: trap_env where
  "sim_trap_env = \<lparr>gdt_at = 0x10000, task_dump_screen = 0x30000, state_at = 0x40000, inbuf_at = 0x1000, outbuf_at = (\<lambda>n. 0x3000),
     video_mem = 0x50000, reg_tr = 0xC0, reg_cr0 = 0, reg_cr4 = 0\<rparr>"

definition sim_layout :: layout where
  "sim_layout = \<lparr>gdt_address = 0x10000, idt_address = 0x1000, tss_address = 0x20000, trap_tss_address = 0x23450,
     trap_stack_end = 0x80000, first_stack_end = 0x90000, pgdir = 0x70000,
     exception_handler_tasks = (\<lambda>i. 0x60000 + 16 * of_nat i), rodata_start = 0x61000, rodata_end = 0x63000\<rparr>"

text \<open>A page fault: the table in memory, the segment of the handler busy, and the link to the task of the kernel.\<close>

definition sim_trap_memory :: "processor \<Rightarrow> bmem" where
  "sim_trap_memory q a =
     (let n = unat (a - 0x10000)
      in if a = 0x10000 + 8 * 24 + 5 then 0x8B
         else if n < 336 then ucast (drop_bit (8 * (n mod 8)) (gdt q (n div 8)))
         else if a = 0x23450 + 104 * 14 then 8 else 0)"

definition sim_trap_state :: "processor \<Rightarrow> uart_sim trap_state" where
  "sim_trap_state q = \<lparr>tstub = (sim_stub [])\<lparr>smem := sim_trap_memory q\<rparr>, do_debug = False, gdb_serial = None\<rparr>"

lemma sim_trap_entries:
  assumes "k = 1 \<or> k = 24"
  shows "holds_base (sim_trap_memory q) (0x10000 + of_nat (8 * k)) (gdt q k)"
  unfolding holds_base_def
proof (intro allI impI)
  fix i :: nat assume i: "i < 8" "i \<noteq> 5"
  have s: "(0x10000 + of_nat (8 * k) + of_nat i :: ptr) = 0x10000 + of_nat (8 * k + i)" by simp
  have n: "8 * k + i < 200" using i assms by auto
  then have u: "unat (0x10000 + of_nat (8 * k + i) - 0x10000 :: ptr) = 8 * k + i" by (simp add: unat_of_nat32 del: of_nat_add of_nat_mult)
  have "0x10000 + of_nat (8 * k + i) \<noteq> (0x10000 + 8 * 24 + 5 :: ptr)"
  proof
    assume "0x10000 + of_nat (8 * k + i) = (0x10000 + 8 * 24 + 5 :: ptr)"
    then have "unat (of_nat (8 * k + i) :: ptr) = unat (8 * 24 + 5 :: ptr)" by (simp del: of_nat_add of_nat_mult)
    then show False using n i assms by (simp add: unat_of_nat32 del: of_nat_add of_nat_mult) presburger
  qed
  then show "sim_trap_memory q (0x10000 + of_nat (8 * k) + of_nat i) = ucast (drop_bit (8 * i) (gdt q k))"
    unfolding s sim_trap_memory_def Let_def u using n i by (simp del: of_nat_add of_nat_mult)
qed

theorem exceptions_find_the_stopped_task_witness:
  "\<forall>q d. let s' = fst (cpu_init uart_sim_hw sim_layout (\<lambda>s. s) (q, d)) in
     trap_handler uart_sim_hw sim_trap_env 14 2 (sim_trap_state s') =
     trap_keys uart_sim_hw sim_trap_env 14 2 0x20000 True
       (on_memory (\<lambda>m. dump_registers sim_trap_env 14 2 0x20000 (save_screen sim_trap_env m)) (sim_trap_state s'))"
proof (intro allI, unfold Let_def)
  fix q d
  let ?s = "fst (cpu_init uart_sim_hw sim_layout (\<lambda>s. s) (q, d))"
  have w: "writes_page_table (\<lambda>s. s)" unfolding writes_page_table_def by (metis processor.surjective processor.update_convs(15))
  have i: "(14 :: nat) < 32" by simp
  have m: "sim_trap_memory ?s = smem (tstub (sim_trap_state ?s))" by (simp add: sim_trap_state_def)
  have k: "\<forall>k \<in> {1, 10 + 14}. holds_base (sim_trap_memory ?s) (gdt_at sim_trap_env + of_nat (8 * k)) (gdt ?s k)"
    using sim_trap_entries [of 1 ?s] sim_trap_entries [of 24 ?s] by (simp add: sim_trap_env_def)
  have r: "reg_tr sim_trap_env = ucast (gate_selector (gate_in ?s 14))"
    unfolding exception_gate [OF w i] by (simp add: sim_trap_env_def)
  have b: "ucast (load32 (sim_trap_memory ?s) (trap_tss_address sim_layout + of_nat (104 * 14))) = (tr ?s :: u16)"
    unfolding cpu_init_tables(6) [OF w] by (simp add: sim_layout_def load32_def sim_trap_memory_def Let_def)
  from exceptions_find_the_stopped_task [OF w i m refl k r b, of uart_sim_hw 14 2]
  show "trap_handler uart_sim_hw sim_trap_env 14 2 (sim_trap_state ?s) =
     trap_keys uart_sim_hw sim_trap_env 14 2 0x20000 True
       (on_memory (\<lambda>m. dump_registers sim_trap_env 14 2 0x20000 (save_screen sim_trap_env m)) (sim_trap_state ?s))"
    by (simp add: sim_trap_state_def sim_layout_def)
qed



end
