(* ===== verification/User_Api.thy ===== *)
theory User_Api
  imports Kernel_Machine Ports
begin

text \<open>
  The library of the user programs, \<^verbatim>\<open>user/ensimag.c\<close> and \<^verbatim>\<open>user/syscall.S\<close>: each function is one system
  call. The machine under a user program is a record: the instruction that enters the kernel, with the
  number of the call and its parameters, and the memory of the program. \<open>kernel_machine\<close> is the one that
  the kernel of this development gives.
\<close>

section \<open>The machine under a user program\<close>

text \<open>\<open>None\<close> is a call that does not return.\<close>

record 'u machine =
  trap :: "u32 \<Rightarrow> u32 list \<Rightarrow> 'u \<Rightarrow> (u32 \<times> 'u) option"
  memory :: "'u \<Rightarrow> bmem"
  set_memory :: "bmem \<Rightarrow> 'u \<Rightarrow> 'u"

definition syscall0 :: "'u machine \<Rightarrow> u32 \<Rightarrow> 'u \<Rightarrow> (u32 \<times> 'u) option" where
  "syscall0 M num u = trap M num [] u"

definition syscall1 :: "'u machine \<Rightarrow> u32 \<Rightarrow> u32 \<Rightarrow> 'u \<Rightarrow> (u32 \<times> 'u) option" where
  "syscall1 M num p0 u = trap M num [p0] u"

definition syscall2 :: "'u machine \<Rightarrow> u32 \<Rightarrow> u32 \<Rightarrow> u32 \<Rightarrow> 'u \<Rightarrow> (u32 \<times> 'u) option" where
  "syscall2 M num p0 p1 u = trap M num [p0, p1] u"

definition syscall3 :: "'u machine \<Rightarrow> u32 \<Rightarrow> u32 \<Rightarrow> u32 \<Rightarrow> u32 \<Rightarrow> 'u \<Rightarrow> (u32 \<times> 'u) option" where
  "syscall3 M num p0 p1 p2 u = trap M num [p0, p1, p2] u"

definition syscall4 :: "'u machine \<Rightarrow> u32 \<Rightarrow> u32 \<Rightarrow> u32 \<Rightarrow> u32 \<Rightarrow> u32 \<Rightarrow> 'u \<Rightarrow> (u32 \<times> 'u) option" where
  "syscall4 M num p0 p1 p2 p3 u = trap M num [p0, p1, p2, p3] u"

definition syscall5 :: "'u machine \<Rightarrow> u32 \<Rightarrow> u32 \<Rightarrow> u32 \<Rightarrow> u32 \<Rightarrow> u32 \<Rightarrow> u32 \<Rightarrow> 'u \<Rightarrow> (u32 \<times> 'u) option" where
  "syscall5 M num p0 p1 p2 p3 p4 u = trap M num [p0, p1, p2, p3, p4] u"

section \<open>Processes\<close>

definition start :: "'u machine \<Rightarrow> ptr \<Rightarrow> u32 \<Rightarrow> u32 \<Rightarrow> ptr \<Rightarrow> u32 \<Rightarrow> 'u \<Rightarrow> (u32 \<times> 'u) option" where
  "start M pt_func ssize prio name arg u = syscall5 M 0 pt_func ssize (prio - 1) name arg u"

text \<open>The loop behind the call never ends.\<close>

definition exit :: "'u machine \<Rightarrow> u32 \<Rightarrow> 'u \<Rightarrow> 'u option" where
  "exit M retval u = Option.bind (syscall1 M 1 retval u) (\<lambda>_. None)"

definition getpid :: "'u machine \<Rightarrow> 'u \<Rightarrow> (u32 \<times> 'u) option" where
  "getpid M u = syscall0 M 2 u"

text \<open>A priority that the kernel gave, unless it is an error.\<close>

definition api_priority :: "u32 \<Rightarrow> u32" where
  "api_priority v = (if sint v < 0 then v else v + 1)"

definition getprio :: "'u machine \<Rightarrow> u32 \<Rightarrow> 'u \<Rightarrow> (u32 \<times> 'u) option" where
  "getprio M pid u = map_option (\<lambda>(prio, u1). (api_priority prio, u1)) (syscall1 M 3 pid u)"

definition chprio :: "'u machine \<Rightarrow> u32 \<Rightarrow> u32 \<Rightarrow> 'u \<Rightarrow> (u32 \<times> 'u) option" where
  "chprio M pid newprio u = map_option (\<lambda>(prev, u1). (api_priority prev, u1)) (syscall2 M 4 pid (newprio - 1) u)"

definition waitpid :: "'u machine \<Rightarrow> u32 \<Rightarrow> ptr \<Rightarrow> 'u \<Rightarrow> (u32 \<times> 'u) option" where
  "waitpid M pid retval u = syscall2 M 5 pid retval u"

definition kill :: "'u machine \<Rightarrow> u32 \<Rightarrow> 'u \<Rightarrow> (u32 \<times> 'u) option" where
  "kill M pid u = syscall1 M 6 pid u"

definition getname :: "'u machine \<Rightarrow> u32 \<Rightarrow> ptr \<Rightarrow> u32 \<Rightarrow> 'u \<Rightarrow> (u32 \<times> 'u) option" where
  "getname M pid dst count u = syscall3 M 7 pid dst count u"

definition getchildren :: "'u machine \<Rightarrow> u32 \<Rightarrow> ptr \<Rightarrow> u32 \<Rightarrow> 'u \<Rightarrow> (u32 \<times> 'u) option" where
  "getchildren M pid children_pids count u = syscall3 M 8 pid children_pids count u"

definition getstate :: "'u machine \<Rightarrow> u32 \<Rightarrow> 'u \<Rightarrow> (u32 \<times> 'u) option" where
  "getstate M pid u = syscall1 M 9 pid u"

definition wait_clock :: "'u machine \<Rightarrow> u32 \<Rightarrow> 'u \<Rightarrow> 'u option" where
  "wait_clock M clock u = map_option snd (syscall1 M 10 clock u)"

section \<open>Message queues\<close>

definition pcreate :: "'u machine \<Rightarrow> u32 \<Rightarrow> 'u \<Rightarrow> (u32 \<times> 'u) option" where
  "pcreate M count u = syscall1 M 11 count u"

definition pdelete :: "'u machine \<Rightarrow> u32 \<Rightarrow> 'u \<Rightarrow> (u32 \<times> 'u) option" where
  "pdelete M fid u = syscall1 M 12 fid u"

definition psend :: "'u machine \<Rightarrow> u32 \<Rightarrow> u32 \<Rightarrow> 'u \<Rightarrow> (u32 \<times> 'u) option" where
  "psend M fid message u = syscall2 M 13 fid message u"

definition preceive :: "'u machine \<Rightarrow> u32 \<Rightarrow> ptr \<Rightarrow> 'u \<Rightarrow> (u32 \<times> 'u) option" where
  "preceive M fid message u = syscall2 M 14 fid message u"

definition pcount :: "'u machine \<Rightarrow> u32 \<Rightarrow> ptr \<Rightarrow> 'u \<Rightarrow> (u32 \<times> 'u) option" where
  "pcount M fid count u = syscall2 M 15 fid count u"

definition preset :: "'u machine \<Rightarrow> u32 \<Rightarrow> 'u \<Rightarrow> (u32 \<times> 'u) option" where
  "preset M fid u = syscall1 M 16 fid u"

section \<open>Clock, console and system\<close>

definition user_clock_settings :: "'u machine \<Rightarrow> ptr \<Rightarrow> ptr \<Rightarrow> 'u \<Rightarrow> 'u option" where
  "user_clock_settings M quartz ticks u = map_option snd (syscall2 M 17 quartz ticks u)"

definition current_clock :: "'u machine \<Rightarrow> 'u \<Rightarrow> (u32 \<times> 'u) option" where
  "current_clock M u = syscall0 M 18 u"

definition user_cons_write :: "'u machine \<Rightarrow> ptr \<Rightarrow> u32 \<Rightarrow> 'u \<Rightarrow> 'u option" where
  "user_cons_write M str len u = map_option snd (syscall2 M 19 str len u)"

definition user_cons_read :: "'u machine \<Rightarrow> ptr \<Rightarrow> u32 \<Rightarrow> 'u \<Rightarrow> (u32 \<times> 'u) option" where
  "user_cons_read M dst len u = syscall2 M 20 dst len u"

definition user_cons_echo :: "'u machine \<Rightarrow> u32 \<Rightarrow> 'u \<Rightarrow> 'u option" where
  "user_cons_echo M on u = map_option snd (syscall1 M 21 on u)"

definition user_console_putbytes :: "'u machine \<Rightarrow> ptr \<Rightarrow> u32 \<Rightarrow> 'u \<Rightarrow> 'u option" where
  "user_console_putbytes M str len u = user_cons_write M str len u"

definition user_memory_info :: "'u machine \<Rightarrow> ptr \<Rightarrow> ptr \<Rightarrow> 'u \<Rightarrow> (u32 \<times> 'u) option" where
  "user_memory_info M cap used u = syscall2 M 22 cap used u"

definition user_power_off :: "'u machine \<Rightarrow> 'u \<Rightarrow> 'u option" where
  "user_power_off M u = map_option snd (syscall0 M 23 u)"

section \<open>The kernel under the user programs\<close>

text \<open>
  The table \<open>syscall_handlers\<close>: which call a number and the five registers stand for. The blocks that the
  allocators return and the page counts are arguments. The entry code does not compare the number with
  the size of the table; \<open>None\<close> is a number beyond it.
\<close>

record answers =
  start_blocks :: blocks
  queue_blocks :: "ptr \<times> ptr"
  page_counts :: "u32 \<times> u32"

definition syscall_of :: "answers \<Rightarrow> u32 \<Rightarrow> (nat \<Rightarrow> u32) \<Rightarrow> syscall option" where
  "syscall_of a num r =
     (if num = 0 then Some (SC_PROCESS_START (start_blocks a) (r 0) (r 1) (sint (r 2)) (r 3) (r 4))
      else if num = 1 then Some (SC_PROCESS_EXIT (sint (r 0)))
      else if num = 2 then Some SC_PROCESS_PID
      else if num = 3 then Some (SC_PROCESS_PRIORITY (sint (r 0)))
      else if num = 4 then Some (SC_PROCESS_SET_PRIORITY (sint (r 0)) (sint (r 1)))
      else if num = 5 then Some (SC_PROCESS_WAIT (sint (r 0)) (r 1))
      else if num = 6 then Some (SC_PROCESS_KILL (sint (r 0)))
      else if num = 7 then Some (SC_PROCESS_NAME (sint (r 0)) (r 1) (sint (r 2)))
      else if num = 8 then Some (SC_PROCESS_CHILDREN (sint (r 0)) (r 1) (sint (r 2)))
      else if num = 9 then Some (SC_PROCESS_STATE (sint (r 0)))
      else if num = 10 then Some (SC_PROCESS_WAIT_CLOCK (r 0))
      else if num = 11 then Some (SC_PROCESS_QUEUE_CREATE (fst (queue_blocks a)) (snd (queue_blocks a)) (sint (r 0)))
      else if num = 12 then Some (SC_PROCESS_QUEUE_DELETE (sint (r 0)))
      else if num = 13 then Some (SC_PROCESS_QUEUE_SEND (sint (r 0)) (sint (r 1)))
      else if num = 14 then Some (SC_PROCESS_QUEUE_RECEIVE (sint (r 0)) (r 1))
      else if num = 15 then Some (SC_PROCESS_QUEUE_COUNT (sint (r 0)) (r 1))
      else if num = 16 then Some (SC_PROCESS_QUEUE_RESET (sint (r 0)))
      else if num = 17 then Some (SC_CLOCK_SETTINGS (r 0) (r 1))
      else if num = 18 then Some SC_CLOCK_GET
      else if num = 19 then Some (SC_CONSOLE_WRITE (r 0) (sint (r 1)))
      else if num = 20 then Some (SC_CONSOLE_READ (r 0) (r 1))
      else if num = 21 then Some (SC_CONSOLE_ECHO ((ucast (r 0) :: u8) \<noteq> 0))
      else if num = 22 then Some (SC_SYSTEM_MEMORY_INFO (r 0) (r 1) (fst (page_counts a)) (snd (page_counts a)))
      else if num = 23 then Some SC_SYSTEM_POWER_OFF
      else None)"

text \<open>
  The registers that hold no parameter of the call are 0 here; no handler reads them. A call that ends in a
  switch to another process or stops the machine does not return here.
\<close>

definition kernel_trap :: "answers \<Rightarrow> u32 \<Rightarrow> u32 list \<Rightarrow> kernel \<Rightarrow> (u32 \<times> kernel) option" where
  "kernel_trap a num ps s =
     (case syscall_of a num (\<lambda>i. if i < length ps then ps ! i else 0) of
        None \<Rightarrow> None
      | Some c \<Rightarrow>
          (case syscall_handler c s of
             Done v s1 \<Rightarrow> Some (word_of_int v, s1)
           | Switched s1 \<Rightarrow> None
           | Panic e \<Rightarrow> None
           | Hang \<Rightarrow> None))"

definition kernel_machine :: "answers \<Rightarrow> kernel machine" where
  "kernel_machine a = \<lparr>trap = kernel_trap a, memory = umem, set_memory = (\<lambda>m s. s\<lparr>umem := m\<rparr>)\<rparr>"

end
