(* ===== verification/User_Api_Facts.thy ===== *)
theory User_Api_Facts
  imports User_Api
begin

text \<open>
  The library of the user programs on the kernel: the priorities that a program sets and reads.
\<close>

section \<open>Priorities\<close>

text \<open>The priorities of all processes and the table of processes, as \<open>f\<close> gives them, in whatever way a call ends.\<close>

definition same_priorities :: "(ptr \<Rightarrow> int) \<times> (int \<Rightarrow> ptr) \<Rightarrow> kernel \<Rightarrow> bool" where
  "same_priorities f s \<longleftrightarrow> f = (\<lambda>x. p_priority (proc s x), process_pool s)"

fun ends_with :: "(kernel \<Rightarrow> bool) \<Rightarrow> (kernel, 'a) outcome \<Rightarrow> bool" where
  "ends_with P (Done v s) = P s"
| "ends_with P (Switched s) = P s"
| "ends_with P (Panic e) = True"
| "ends_with P Hang = True"

lemma ends_with_bind: "ends_with P m \<Longrightarrow> (\<And>v s. P s \<Longrightarrow> ends_with P (f v s)) \<Longrightarrow> ends_with P (bindK m f)"
  by (cases m) simp_all

lemma same_upd [simp]:
  "(\<And>pr. p_priority (g pr) = p_priority pr) \<Longrightarrow> same_priorities f (upd_proc p g s) = same_priorities f s"
  by (auto simp: same_priorities_def upd_proc_def fun_eq_iff)

lemma same_others [simp]:
  "same_priorities f (s\<lparr>process_sched_rings := r\<rparr>) = same_priorities f s"
  "same_priorities f (s\<lparr>process_active := p\<rparr>) = same_priorities f s"
  "same_priorities f (s\<lparr>frames := fr\<rparr>) = same_priorities f s"
  "same_priorities f (s\<lparr>tss_esp0 := v\<rparr>) = same_priorities f s"
  "same_priorities f (upd_queue q h s) = same_priorities f s"
  by (simp_all add: same_priorities_def upd_queue_def)

lemma same_ring_insert: "same_priorities f s \<Longrightarrow> ends_with (same_priorities f) (process_sched_ring_insert p s)"
  by (simp add: process_sched_ring_insert_def Let_def)

lemma same_ring_remove: "same_priorities f s \<Longrightarrow> ends_with (same_priorities f) (process_sched_ring_remove p s)"
  by (simp add: process_sched_ring_remove_def Let_def)

lemma same_advance: "same_priorities f s \<Longrightarrow> ends_with (same_priorities f) (process_sched_advance p s)"
  by (auto simp: process_sched_advance_def process_sched_ring_find_def process_context_switch_def Let_def
      intro!: ends_with_bind split: option.split)

text \<open>A change of the priority of one process.\<close>

lemma same_set: "same_priorities (f, t) s \<Longrightarrow> same_priorities (f(p := k), t) (upd_proc p (p_priority_update (\<lambda>_. k)) s)"
  by (auto simp: same_priorities_def upd_proc_def fun_eq_iff)

lemma ring_remove_stays: "process_sched_ring_remove p s \<noteq> Switched t"
  by (simp add: process_sched_ring_remove_def Let_def)

lemma same_sched_set:
  assumes "same_priorities (f, t) s"
  shows "ends_with (same_priorities (f(p := k), t)) (process_sched_set_priority p k s)"
proof (cases "process_sched_ring_remove p s")
  case (Done n s1)
  have "same_priorities (f, t) s1" using same_ring_remove [OF assms, of p] Done by simp
  then have "ends_with (same_priorities (f(p := k), t)) (process_sched_ring_insert p (upd_proc p (p_priority_update (\<lambda>_. k)) s1))"
    by (intro same_ring_insert same_set)
  then show ?thesis
    by (auto simp: process_sched_set_priority_def Done Let_def process_sched_ring_find_def
        intro!: ends_with_bind same_advance split: option.split)
qed (simp_all add: process_sched_set_priority_def ring_remove_stays)

lemma same_queue_set:
  assumes "same_priorities (f, t) s"
  shows "same_priorities (f(p := k), t) (process_queue_set_priority p k s)"
proof -
  let ?s = "upd_proc p (p_priority_update (\<lambda>_. k)) s"
  have "same_priorities g (process_queue_remove_process q p u)" if "same_priorities g u" for g q u
    using that by (simp add: process_queue_remove_process_def Let_def)
  moreover have "same_priorities g (process_queue_add_process q p u)" if "same_priorities g u" for g q u
    using that by (simp add: process_queue_add_process_def Let_def)
  ultimately show ?thesis using same_set [OF assms, of p k] by (simp add: process_queue_set_priority_def Let_def)
qed

text \<open>
  The call that sets a priority: the value it returns, now or when the caller runs again, is the old
  priority, and no priority but the one of the process changes.
\<close>

lemma set_priority_call:
  assumes p: "process_from_pid s n = p" "p \<noteq> NULL" "p_state (proc s p) \<noteq> PROCESS_ZOMBIE"
    and k: "0 \<le> k" "k < PROCESS_MAX_PRIORITY"
  shows "process_set_priority n k s = Done v s' \<Longrightarrow>
      v = p_priority (proc s p) \<and> p_priority (proc s' p) = k \<and> process_from_pid s' n = p"
    "process_set_priority n k s = Switched s' \<Longrightarrow>
      p_priority (proc s' p) = k \<and> process_from_pid s' n = p \<and> last (frames s' (process_active s)) = Fr_return (p_priority (proc s p))"
proof -
  let ?v = "p_priority (proc s p)"
  define f where "f = (\<lambda>x. p_priority (proc s x))"
  have s: "same_priorities (f, process_pool s) s" by (simp add: same_priorities_def f_def)
  have n: "process_from_pid t n = p" if "process_pool t = process_pool s" for t
    unfolding p(1) [symmetric] process_from_pid_def that ..
  have "process_set_priority n k s = (if k = ?v then Done ?v s
      else if p_state (proc s p) = PROCESS_SCHED then calling s (Fr_return ?v) (process_sched_set_priority p k s) (\<lambda>_ s1. Done ?v s1)
      else if p_state (proc s p) = PROCESS_WAIT_QUEUE then Done ?v (process_queue_set_priority p k s)
      else Done ?v (upd_proc p (p_priority_update (\<lambda>_. k)) s))"
    using p k by (simp add: process_set_priority_def Let_def)
  note e = this
  have r: "p_priority (proc t p) = k" "process_from_pid t n = p" if "same_priorities (f(p := k), process_pool s) t" for t
  proof -
    have "f(p := k) = (\<lambda>x. p_priority (proc t x))" "process_pool t = process_pool s" using that by (simp_all add: same_priorities_def)
    then show "p_priority (proc t p) = k" "process_from_pid t n = p" using n by (metis fun_upd_same)+
  qed
  show "process_set_priority n k s = Done v s' \<Longrightarrow> v = ?v \<and> p_priority (proc s' p) = k \<and> process_from_pid s' n = p"
  proof -
    assume "process_set_priority n k s = Done v s'"
    note d = this [unfolded e]
    show ?thesis
    proof (cases "k = ?v")
      case True
      then show ?thesis using d p(1) by auto
    next
      case new: False
      show ?thesis
      proof (cases "p_state (proc s p) = PROCESS_SCHED")
        case True
        then show ?thesis using d new same_sched_set [OF s, of p k] r
          by (cases "process_sched_set_priority p k s") (simp_all add: calling_def)
      next
        case other: False
        show ?thesis
          by (cases "p_state (proc s p) = PROCESS_WAIT_QUEUE")
            (use d new other same_queue_set [OF s, of p k] same_set [OF s, of p k] r in simp_all)
      qed
    qed
  qed
  show "process_set_priority n k s = Switched s' \<Longrightarrow>
      p_priority (proc s' p) = k \<and> process_from_pid s' n = p \<and> last (frames s' (process_active s)) = Fr_return ?v"
  proof -
    assume "process_set_priority n k s = Switched s'"
    note this [unfolded e]
    then obtain t where t: "process_sched_set_priority p k s = Switched t"
      "s' = t\<lparr>frames := (frames t)(process_active s := frames t (process_active s) @ [Fr_return ?v])\<rparr>"
      by (cases "process_sched_set_priority p k s") (simp_all add: calling_def split: if_split_asm)
    then have "same_priorities (f(p := k), process_pool s) s'" using same_sched_set [OF s, of p k] by simp
    then show ?thesis using r t(2) by simp
  qed
qed

section \<open>The priorities of the library\<close>

lemma sint_small: "uint (v :: u32) < 2 ^ 31 \<Longrightarrow> sint v = uint v"
proof -
  assume v: "uint v < 2 ^ 31"
  have "0 \<le> uint v" by simp
  then have "- (2 ^ 31) \<le> uint v" by (rule order.trans [rotated]) simp
  then show ?thesis using v by (simp add: sint_uint signed_take_bit_int_eq_self_iff)
qed

lemma api_priority_of: "0 \<le> k \<Longrightarrow> k < 2 ^ 31 \<Longrightarrow> api_priority (word_of_int k) = word_of_int (k + 1)"
proof -
  assume "0 \<le> k" "k < 2 ^ 31"
  then have "sint (word_of_int k :: u32) = k" by (intro sint_word_of_int32) simp_all
  then show ?thesis using \<open>0 \<le> k\<close> by (simp add: api_priority_def wi_hom_add [symmetric])
qed

lemma getprio_kernel:
  "process_from_pid s (sint pid) = p \<Longrightarrow> p \<noteq> NULL \<Longrightarrow> 0 \<le> p_priority (proc s p) \<Longrightarrow> p_priority (proc s p) < 2 ^ 31 \<Longrightarrow>
     getprio (kernel_machine a) pid s = Some (word_of_int (p_priority (proc s p) + 1), s)"
  by (simp add: getprio_def syscall1_def kernel_machine_def kernel_trap_def syscall_of_def process_priority_def Let_def api_priority_of)

lemma chprio_kernel:
  "chprio (kernel_machine a) pid newprio s =
     (case process_set_priority (sint pid) (sint (newprio - 1)) s of
        Done v s1 \<Rightarrow> Some (api_priority (word_of_int v), s1) | _ \<Rightarrow> None)"
  by (simp add: chprio_def syscall2_def kernel_machine_def kernel_trap_def syscall_of_def split: outcome.split)

lemma api_range:
  fixes newprio :: u32
  assumes "1 \<le> newprio" "newprio \<le> 256"
  shows "0 \<le> sint (newprio - 1)" "sint (newprio - 1) < 256" "word_of_int (sint (newprio - 1) + 1) = newprio"
proof -
  have u: "1 \<le> uint newprio" "uint newprio \<le> 256" using assms by (simp_all add: word_le_def)
  have m: "uint (newprio - 1) = uint newprio - 1" using u by (simp add: uint_word_ariths(2))
  then have "sint (newprio - 1) = uint newprio - 1" using u by (subst sint_small) simp_all
  then show "0 \<le> sint (newprio - 1)" "sint (newprio - 1) < 256" "word_of_int (sint (newprio - 1) + 1) = newprio" using u by simp_all
qed

lemma api_outside:
  fixes newprio :: u32
  assumes "\<not> (1 \<le> newprio \<and> newprio \<le> 256)"
  shows "sint (newprio - 1) < 0 \<or> sint (newprio - 1) \<ge> 256"
proof (rule ccontr)
  let ?n = "sint (newprio - 1)"
  assume "\<not> (?n < 0 \<or> ?n \<ge> 256)"
  then have n: "0 \<le> ?n" "?n < 256" by auto
  define j where "j = ?n"
  have "newprio = (newprio - 1) + 1" by simp
  also have "newprio - 1 = word_of_int j" by (simp add: j_def)
  finally have "newprio = word_of_int (j + 1)" by simp
  then have "uint newprio = uint (word_of_int (j + 1) :: u32)" by (rule arg_cong)
  also have "\<dots> = take_bit 32 (j + 1)" unfolding uint_word_of_int_eq by simp
  also have "\<dots> = j + 1" using n unfolding j_def [symmetric] take_bit_eq_mod by (intro mod_pos_pos_trivial) simp_all
  finally have "uint newprio = ?n + 1" by (simp only: j_def)
  then show False using assms n by (simp add: word_le_def)
qed

end
