(* ===== verification/Shell.thy ===== *)
theory Shell
  imports User_Api Formatting_Facts "HOL-Library.Monad_Syntax"
begin

text \<open>
  The shell, \<^verbatim>\<open>user/shell.c\<close>, over the machine of \<open>User_Api\<close>. The places of the variables on the stack and of
  the literals in memory are arguments. The function that \<open>builtin_test\<close> starts as a process, which runs the
  test programs, is an address.
\<close>

section \<open>Surroundings\<close>

record shell_env =
  command_buffer :: ptr
  printf_buf :: ptr
  literal :: "string \<Rightarrow> ptr"
  name_buf :: "nat \<Rightarrow> ptr"
  children_buf :: "nat \<Rightarrow> ptr"
  var1 :: ptr
  var2 :: ptr
  test_wrapper_at :: ptr

abbreviation (input) COMMAND_BUFFER_CAP :: u32 where "COMMAND_BUFFER_CAP \<equiv> 1024"
abbreviation (input) ARGS_CAP :: nat where "ARGS_CAP \<equiv> 128"

text \<open>
  \<open>printf\<close> passes pieces of its output to \<open>console_putbytes\<close> from a buffer on the stack, which the kernel reads.
\<close>

primrec put_pieces :: "shell_env \<Rightarrow> 'u machine \<Rightarrow> u8 list list \<Rightarrow> 'u \<Rightarrow> 'u option" where
  "put_pieces e M [] u = Some u"
| "put_pieces e M (b # bs) u =
     Option.bind (user_console_putbytes M (printf_buf e) (of_nat (length b))
         (set_memory M (written (memory M u) (printf_buf e) b) u))
       (put_pieces e M bs)"

definition user_printf :: "shell_env \<Rightarrow> 'u machine \<Rightarrow> u8 list \<Rightarrow> fmt_arg list \<Rightarrow> 'u \<Rightarrow> 'u option" where
  "user_printf e M fmt args u = Option.bind (printf (replicate 128 0) fmt args) (\<lambda>calls. put_pieces e M calls u)"

text \<open>The bytes of a string in memory, for \<open>%s\<close>; \<open>None\<close> when no null byte ends it.\<close>

partial_function (option) string_at :: "ptr \<Rightarrow> bmem \<Rightarrow> u8 list option" where
  "string_at p m = (if m p = 0 then Some [] else Option.bind (string_at (p + 1) m) (\<lambda>s. Some (m p # s)))"

section \<open>Builtin commands\<close>

datatype builtin_func = Builtin_help | Builtin_ps | Builtin_exit | Builtin_echo | Builtin_test | Builtin_time

record builtin =
  bt_name :: string
  bt_args :: string
  bt_description :: string
  bt_func :: builtin_func

definition builtins :: "builtin list" where
  "builtins =
     [\<lparr>bt_name = ''help'', bt_args = '''', bt_description = ''Displays all builtin commands.'', bt_func = Builtin_help\<rparr>,
      \<lparr>bt_name = ''ps'', bt_args = '''', bt_description = ''Display system information, like processes and memory.'', bt_func = Builtin_ps\<rparr>,
      \<lparr>bt_name = ''exit'', bt_args = '''', bt_description = ''Shutdown the kernel.'', bt_func = Builtin_exit\<rparr>,
      \<lparr>bt_name = ''echo'', bt_args = ''<on|off>'', bt_description = ''Enable echo (on) or not (off).'', bt_func = Builtin_echo\<rparr>,
      \<lparr>bt_name = ''test'', bt_args = ''[1-20]'', bt_description = ''Run internal test suite.'', bt_func = Builtin_test\<rparr>,
      \<lparr>bt_name = ''time'', bt_args = '''', bt_description = ''Get current time since startup of the system.'', bt_func = Builtin_time\<rparr>]"

text \<open>A builtin returns whether its arguments were right.\<close>

type_synonym 'u command = "(bool \<times> 'u) option"

primrec help_loop :: "shell_env \<Rightarrow> 'u machine \<Rightarrow> builtin list \<Rightarrow> 'u \<Rightarrow> 'u option" where
  "help_loop e M [] u = Some u"
| "help_loop e M (bt # bts) u = do {
     u2 \<leftarrow> (if bt_args bt \<noteq> '''' then do {
              u1 \<leftarrow> user_printf e M (bytes ''%8s '' @ esc ''b%s'' @ esc ''r'' @ [0x0A])
                     [Text (Some (bytes (bt_name bt))), Text (Some (bytes (bt_args bt)))] u;
              user_printf e M (bytes ''         - %s'' @ [0x0A]) [Text (Some (bytes (bt_description bt)))] u1
            }
            else user_printf e M (bytes ''%8s - %s'' @ [0x0A])
                   [Text (Some (bytes (bt_name bt))), Text (Some (bytes (bt_description bt)))] u);
     help_loop e M bts u2
   }"

definition builtin_help :: "shell_env \<Rightarrow> 'u machine \<Rightarrow> nat \<Rightarrow> ptr list \<Rightarrow> 'u \<Rightarrow> 'u command" where
  "builtin_help e M argc args u =
     (if argc \<noteq> 1 then Some (False, u)
      else do {
        u1 \<leftarrow> user_printf e M (esc ''eCommands:'' @ esc ''r'' @ [0x0A]) [] u;
        u2 \<leftarrow> help_loop e M builtins u1;
        Some (True, u2)
      })"

section \<open>Processes\<close>

definition print_indent :: "shell_env \<Rightarrow> 'u machine \<Rightarrow> nat \<Rightarrow> 'u \<Rightarrow> 'u option" where
  "print_indent e M indent u =
     user_cons_write M (literal e ''                '') (of_nat (if indent > 16 then 16 else indent)) u"

definition get_state_name :: "u32 \<Rightarrow> string" where
  "get_state_name st =
     (if st = 0 then ''active'' else if st = 1 then ''scheduled'' else if st = 2 then ''wait-child''
      else if st = 3 then ''wait-time'' else if st = 4 then ''wait-queue'' else if st = 5 then ''wait-cons''
      else if st = 6 then ''zombie'' else ''unknown'')"

text \<open>
  The first part of \<open>print_children_recursive\<close>: the line of one process and the number of its children. The
  arguments of \<open>printf\<close> are evaluated from the last one to the first.
\<close>

definition print_process :: "shell_env \<Rightarrow> 'u machine \<Rightarrow> u32 \<Rightarrow> nat \<Rightarrow> 'u \<Rightarrow> (u32 \<times> 'u) option" where
  "print_process e M pid indent u = do {
     (r, u1) \<leftarrow> getname M pid (name_buf e indent) 128 u;
     u2 \<leftarrow> print_indent e M indent u1;
     (st, u3) \<leftarrow> getstate M pid u2;
     (prio, u4) \<leftarrow> getprio M pid u3;
     name \<leftarrow> string_at (name_buf e indent) (memory M u4);
     u5 \<leftarrow> user_printf e M (bytes ''%s (pid: %d, prio: %d, state: %s)'' @ [0x0A])
            [Text (Some name), Word pid, Word prio, Text (Some (bytes (get_state_name st)))] u4;
     (n, u6) \<leftarrow> getchildren M pid (children_buf e indent) 32 u5;
     Some (n, u6)
   }"

text \<open>
  The recursion: a process with its children, or the rest of the loop over the children of one, with its
  count and its array.
\<close>

datatype print_task = Print_process u32 nat | Print_children nat nat nat

partial_function (option) print_tasks :: "shell_env \<Rightarrow> 'u machine \<Rightarrow> print_task \<Rightarrow> 'u \<Rightarrow> 'u option" where
  "print_tasks e M t u = (case t of
     Print_process pid indent \<Rightarrow>
       Option.bind (print_process e M pid indent u) (\<lambda>(n, u1).
         if sint n \<le> 0 then Some u1
         else print_tasks e M (Print_children 0 (if sint n > 32 then 32 else unat n) indent) u1)
   | Print_children i count indent \<Rightarrow>
       (if i < count then
          Option.bind (print_tasks e M
              (Print_process (load32 (memory M u) (children_buf e indent + 4 * of_nat i)) (indent + 2)) u)
            (print_tasks e M (Print_children (i + 1) count indent))
        else Some u))"

definition print_children_recursive :: "shell_env \<Rightarrow> 'u machine \<Rightarrow> u32 \<Rightarrow> nat \<Rightarrow> 'u \<Rightarrow> 'u option" where
  "print_children_recursive e M pid indent u = print_tasks e M (Print_process pid indent) u"

definition builtin_ps :: "shell_env \<Rightarrow> 'u machine \<Rightarrow> nat \<Rightarrow> ptr list \<Rightarrow> 'u \<Rightarrow> 'u command" where
  "builtin_ps e M argc args u =
     (if argc \<noteq> 1 then Some (False, u)
      else do {
        u1 \<leftarrow> user_printf e M (esc ''eProcesses:'' @ esc ''r'' @ [0x0A]) [] u;
        u2 \<leftarrow> print_children_recursive e M 0 2 u1;
        u3 \<leftarrow> user_printf e M (esc ''eMemory:'' @ esc ''r'' @ [0x0A]) [] u2;
        (r, u4) \<leftarrow> user_memory_info M (var1 e) (var2 e) u3;
        u5 \<leftarrow> user_printf e M (bytes ''  Usage: %d / %d Kio'' @ [0x0A])
               [Word (load32 (memory M u4) (var2 e) div 1024), Word (load32 (memory M u4) (var1 e) div 1024)] u4;
        Some (True, u5)
      })"

section \<open>The other commands\<close>

definition builtin_exit :: "shell_env \<Rightarrow> 'u machine \<Rightarrow> nat \<Rightarrow> ptr list \<Rightarrow> 'u \<Rightarrow> 'u command" where
  "builtin_exit e M argc args u =
     (if argc \<noteq> 1 then Some (False, u)
      else do {
        u1 \<leftarrow> user_cons_echo M 0 u;
        u2 \<leftarrow> user_printf e M (esc ''c'' @ esc ''-6Shutting down...'' @ esc ''r'' @ esc ''-r'' @ [0x0A]) [] u1;
        (clock, u3) \<leftarrow> current_clock M u2;
        u4 \<leftarrow> wait_clock M (clock + 50) u3;
        u5 \<leftarrow> user_power_off M u4;
        Some (True, u5)
      })"

definition builtin_echo :: "shell_env \<Rightarrow> 'u machine \<Rightarrow> nat \<Rightarrow> ptr list \<Rightarrow> 'u \<Rightarrow> 'u command" where
  "builtin_echo e M argc args u =
     (if argc \<noteq> 2 then Some (False, u)
      else do {
        d1 \<leftarrow> strcmp (literal e ''on'') (args ! 1) (memory M u);
        if d1 = 0 then do {
          u1 \<leftarrow> user_cons_echo M 1 u;
          u2 \<leftarrow> user_printf e M (bytes ''Read echo on...'' @ [0x0A]) [] u1;
          Some (True, u2)
        } else do {
          d2 \<leftarrow> strcmp (literal e ''off'') (args ! 1) (memory M u);
          if d2 = 0 then do {
            u1 \<leftarrow> user_cons_echo M 0 u;
            u2 \<leftarrow> user_printf e M (bytes ''Read echo off...'' @ [0x0A]) [] u1;
            Some (True, u2)
          } else Some (False, u)
        }
      })"

definition run_test :: "shell_env \<Rightarrow> 'u machine \<Rightarrow> u32 \<Rightarrow> 'u \<Rightarrow> 'u command" where
  "run_test e M i u = do {
     (pid, u1) \<leftarrow> start M (test_wrapper_at e) 4096 128 (literal e ''test_wrapper'') i u;
     (r, u2) \<leftarrow> waitpid M pid NULL u1;
     Some (True, u2)
   }"

definition builtin_test :: "shell_env \<Rightarrow> 'u machine \<Rightarrow> nat \<Rightarrow> ptr list \<Rightarrow> 'u \<Rightarrow> 'u command" where
  "builtin_test e M argc args u =
     (if argc = 2 then do {
        (i, q) \<leftarrow> strtoul (args ! 1) 10 (memory M u);
        if sint i < 1 \<or> sint i > 20 then Some (False, u) else run_test e M i u
      }
      else if argc \<noteq> 1 then Some (False, u)
      else run_test e M (- 1) u)"

text \<open>Seconds and minutes since the start; \<open>None\<close> is a division by zero.\<close>

definition builtin_time :: "shell_env \<Rightarrow> 'u machine \<Rightarrow> nat \<Rightarrow> ptr list \<Rightarrow> 'u \<Rightarrow> 'u command" where
  "builtin_time e M argc args u =
     (if argc \<noteq> 1 then Some (False, u)
      else do {
        u1 \<leftarrow> user_clock_settings M (var1 e) (var2 e) u;
        let quartz = load32 (memory M u1) (var1 e);
        let ticks = load32 (memory M u1) (var2 e);
        (clock, u2) \<leftarrow> current_clock M u1;
        if ticks = 0 \<or> quartz div ticks = 0 then None
        else do {
          let seconds = clock div (quartz div ticks);
          let minutes = seconds div 60;
          u3 \<leftarrow> user_printf e M (esc ''eTime:'' @ esc ''r %02lu:%02lu'' @ [0x0A]) [Word minutes, Word (seconds - minutes * 60)] u2;
          Some (True, u3)
        }
      })"

fun call_builtin :: "builtin_func \<Rightarrow> shell_env \<Rightarrow> 'u machine \<Rightarrow> nat \<Rightarrow> ptr list \<Rightarrow> 'u \<Rightarrow> 'u command" where
  "call_builtin Builtin_help = builtin_help"
| "call_builtin Builtin_ps = builtin_ps"
| "call_builtin Builtin_exit = builtin_exit"
| "call_builtin Builtin_echo = builtin_echo"
| "call_builtin Builtin_test = builtin_test"
| "call_builtin Builtin_time = builtin_time"

section \<open>The loop of the shell\<close>

text \<open>
  The loop that splits a line: blanks become null bytes, and each argument is a pointer into the line. It
  stops when the array of the arguments is full.
\<close>

partial_function (option) split_loop :: "ptr \<Rightarrow> bool \<Rightarrow> ptr list \<Rightarrow> bmem \<Rightarrow> (ptr list \<times> bmem) option" where
  "split_loop c prev_space args m =
     (if m c = 0 then Some (args, m)
      else if m c = 0x20 then split_loop (c + 1) True args (m(c := 0))
      else if prev_space then
        (if length args + 1 \<ge> ARGS_CAP then Some (args @ [c], m) else split_loop (c + 1) False (args @ [c]) m)
      else split_loop (c + 1) prev_space args m)"

primrec dispatch :: "shell_env \<Rightarrow> 'u machine \<Rightarrow> builtin list \<Rightarrow> nat \<Rightarrow> ptr list \<Rightarrow> 'u \<Rightarrow> 'u option" where
  "dispatch e M [] argc args u = user_printf e M (esc ''cCommand not found! Try '' @ [0x27] @ bytes ''help'' @ [0x27] @ bytes ''...'' @ esc ''r'' @ [0x0A]) [] u"
| "dispatch e M (bt # bts) argc args u = do {
     d \<leftarrow> strcmp (literal e (bt_name bt)) (args ! 0) (memory M u);
     if d = 0 then do {
       (ok, u1) \<leftarrow> call_builtin (bt_func bt) e M argc args u;
       if \<not> ok then user_printf e M (esc ''eUsage:'' @ esc ''r %s '' @ esc ''b%s'' @ esc ''r'' @ [0x0A])
           [Text (Some (bytes (bt_name bt))), Text (Some (bytes (bt_args bt)))] u1
       else Some u1
     } else dispatch e M bts argc args u
   }"

text \<open>What the shell does with a line of \<open>read_len\<close> bytes in the buffer.\<close>

definition shell_line :: "shell_env \<Rightarrow> 'u machine \<Rightarrow> u32 \<Rightarrow> 'u \<Rightarrow> 'u option" where
  "shell_line e M read_len u =
     Option.bind (split_loop (command_buffer e) True [] ((memory M u)(command_buffer e + read_len := 0))) (\<lambda>(args, m).
       let u1 = set_memory M m u;
           argc = length args;
           background = (m (args ! (argc - 1)) = 0x26 \<and> m (args ! (argc - 1) + 1) = 0);
           argc1 = (if background then argc - 1 else argc)
       in if argc = 0 then Some u1
          else if background \<and> argc1 = 0 then Some u1
          else dispatch e M builtins argc1 args u1)"

text \<open>One round of the loop that never ends, and its first rounds.\<close>

definition shell_round :: "shell_env \<Rightarrow> 'u machine \<Rightarrow> 'u \<Rightarrow> 'u option" where
  "shell_round e M u = do {
     u1 \<leftarrow> user_printf e M (bytes ''$ '') [] u;
     (read_len, u2) \<leftarrow> user_cons_read M (command_buffer e) (COMMAND_BUFFER_CAP - 1) u1;
     if read_len = 0 then Some u2 else shell_line e M read_len u2
   }"

primrec shell_rounds :: "nat \<Rightarrow> shell_env \<Rightarrow> 'u machine \<Rightarrow> 'u \<Rightarrow> 'u option" where
  "shell_rounds 0 e M u = Some u"
| "shell_rounds (Suc n) e M u = Option.bind (shell_round e M u) (shell_rounds n e M)"

definition shell_start :: "nat \<Rightarrow> shell_env \<Rightarrow> 'u machine \<Rightarrow> 'u \<Rightarrow> 'u option" where
  "shell_start n e M u = Option.bind (user_cons_echo M 1 u) (shell_rounds n e M)"

definition user_start :: "ptr \<Rightarrow> ptr \<Rightarrow> 'u machine \<Rightarrow> 'u \<Rightarrow> 'u option" where
  "user_start shell_at name M u = Option.bind (start M shell_at 8192 1 name NULL u) (\<lambda>_. None)"

end
