(* ===== verification/Shell_Facts.thy ===== *)
theory Shell_Facts
  imports Shell
begin

text \<open>
  What the shell makes of a line: the arguments are its words, and the command is looked up by its name.
\<close>

section \<open>Words\<close>

text \<open>The words of a line: what stands between blanks.\<close>

function line_words :: "u8 list \<Rightarrow> u8 list list" where
  "line_words [] = []"
| "line_words (x # xs) =
     (if x = 0x20 then line_words xs
      else (x # takeWhile (\<lambda>y. y \<noteq> 0x20) xs) # line_words (dropWhile (\<lambda>y. y \<noteq> 0x20) xs))"
  by pat_completeness auto
termination by (relation "measure length") (auto simp: le_imp_less_Suc length_dropWhile_le)

text \<open>
  The loop from the place \<open>c\<close>, where the rest \<open>xs\<close> of the line starts: inside a word, this word ends where the
  first blank was; each further argument points to a word, as a string.
\<close>

lemma split_loop_words:
  assumes "cstr m c xs" "length xs < 2 ^ 32 - 1"
    and "length args + length (line_words (if prev then xs else dropWhile (\<lambda>y. y \<noteq> 0x20) xs)) < ARGS_CAP"
  shows "\<exists>ps m'. split_loop c prev args m = Some (args @ ps, m')
    \<and> list_all2 (cstr m') ps (line_words (if prev then xs else dropWhile (\<lambda>y. y \<noteq> 0x20) xs))
    \<and> (\<not> prev \<longrightarrow> cstr m' c (takeWhile (\<lambda>y. y \<noteq> 0x20) xs)) \<and> (\<forall>x. unat (x - c) \<ge> length xs \<longrightarrow> m' x = m x)"
  using assms
proof (induction xs arbitrary: c prev args m)
  case Nil
  then show ?case by (subst split_loop.simps) simp
next
  case (Cons x xs)
  have x: "m c = x" "x \<noteq> 0" "cstr m (c + 1) xs" using Cons.prems(1) by simp_all
  have len: "length xs < 2 ^ 32 - 1" using Cons.prems(2) by simp
  have c: "unat (c - (c + 1)) \<ge> length xs"
  proof -
    have "c - (c + 1) = (- 1 :: ptr)" by simp
    moreover have "unat (- 1 :: ptr) = 2 ^ 32 - 1" by (simp add: unat_minus_one unsigned_minus_1_eq_mask mask_eq_exp_minus_1)
    ultimately show ?thesis using len by simp
  qed
  have far: "m' y = m y" if "\<forall>y. unat (y - (c + 1)) \<ge> length xs \<longrightarrow> m' y = m2 y" "unat (y - c) \<ge> length (x # xs)" "\<And>y. y \<noteq> c \<Longrightarrow> m2 y = m y" for m' m2 y
  proof -
    have "y \<noteq> c" using that(2) by auto
    moreover have "unat (y - (c + 1)) \<ge> length xs"
    proof -
      have "y - (c + 1) = (y - c) - 1" by simp
      moreover have "y - c \<noteq> 0" using \<open>y \<noteq> c\<close> by simp
      ultimately have "unat (y - (c + 1)) = unat (y - c) - 1" by (metis unat_minus_one)
      then show ?thesis using that(2) by simp
    qed
    ultimately show ?thesis using that(1,3) by simp
  qed
  consider "x = 0x20" | "x \<noteq> 0x20" "prev" | "x \<noteq> 0x20" "\<not> prev" by blast
  then show ?case
  proof cases
    case 1
    let ?m = "m(c := 0)"
    have "cstr ?m (c + 1) xs"
    proof (rule cstr_cong [THEN iffD2])
      show "?m (c + 1 + of_nat j) = m (c + 1 + of_nat j)" if "j \<le> length xs" for j
      proof -
        have "unat (of_nat (Suc j) :: ptr) = Suc j" using that len by (intro unat_of_nat32) simp
        then have "of_nat (Suc j) \<noteq> (0 :: ptr)" by (metis unat_0 nat.distinct(1))
        then have "c + of_nat (Suc j) \<noteq> c" by simp
        then show ?thesis by (simp add: add.assoc)
      qed
    qed (rule x(3))
    moreover have "length args + length (line_words xs) < ARGS_CAP" using Cons.prems(3) 1 by (cases prev) simp_all
    ultimately have "\<exists>ps m'. split_loop (c + 1) True args ?m = Some (args @ ps, m') \<and> list_all2 (cstr m') ps (line_words xs)
      \<and> (\<forall>y. unat (y - (c + 1)) \<ge> length xs \<longrightarrow> m' y = ?m y)"
      using Cons.IH [OF _ len, where m = ?m and args = args and prev = True] by (simp del: fun_upd_apply)
    then obtain ps m' where ih:
      "split_loop (c + 1) True args ?m = Some (args @ ps, m')" "list_all2 (cstr m') ps (line_words xs)"
      "\<forall>y. unat (y - (c + 1)) \<ge> length xs \<longrightarrow> m' y = ?m y" by blast
    have "split_loop c prev args m = Some (args @ ps, m')" using x 1 ih(1) by (subst split_loop.simps) simp
    moreover have "m' c = 0" using ih(3) c by simp
    moreover have "\<forall>y. unat (y - c) \<ge> length (x # xs) \<longrightarrow> m' y = m y" using far [OF ih(3)] by simp
    ultimately show ?thesis using ih(2) 1 by simp
  next
    case 2
    from Cons.IH [OF x(3) len, of "args @ [c]" False] Cons.prems(3) 2 obtain ps m' where ih:
      "split_loop (c + 1) False (args @ [c]) m = Some (args @ c # ps, m')"
      "list_all2 (cstr m') ps (line_words (dropWhile (\<lambda>y. y \<noteq> 0x20) xs))" "cstr m' (c + 1) (takeWhile (\<lambda>y. y \<noteq> 0x20) xs)"
      "\<forall>y. unat (y - (c + 1)) \<ge> length xs \<longrightarrow> m' y = m y" by auto
    have "split_loop c prev args m = Some (args @ c # ps, m')" using x 2 ih(1) Cons.prems(3) by (subst split_loop.simps) simp
    moreover have "m' c = x" using ih(4) c x(1) by simp
    moreover have "\<forall>y. unat (y - c) \<ge> length (x # xs) \<longrightarrow> m' y = m y" using far [OF ih(4)] by simp
    ultimately show ?thesis using ih(2,3) 2 x(2) by (intro exI [of _ "c # ps"] exI [of _ m']) simp
  next
    case 3
    from Cons.IH [OF x(3) len, of args False] Cons.prems(3) 3 obtain ps m' where ih:
      "split_loop (c + 1) False args m = Some (args @ ps, m')"
      "list_all2 (cstr m') ps (line_words (dropWhile (\<lambda>y. y \<noteq> 0x20) xs))" "cstr m' (c + 1) (takeWhile (\<lambda>y. y \<noteq> 0x20) xs)"
      "\<forall>y. unat (y - (c + 1)) \<ge> length xs \<longrightarrow> m' y = m y" by auto
    have "split_loop c prev args m = Some (args @ ps, m')" using x 3 ih(1) by (subst split_loop.simps) simp
    moreover have "m' c = x" using ih(4) c x(1) by simp
    moreover have "\<forall>y. unat (y - c) \<ge> length (x # xs) \<longrightarrow> m' y = m y" using far [OF ih(4)] by simp
    ultimately show ?thesis using ih(2,3) 3 x(2) by simp
  qed
qed

section \<open>Commands\<close>

text \<open>What the shell does when it looks up the first word.\<close>

definition run_command :: "shell_env \<Rightarrow> 'u machine \<Rightarrow> builtin option \<Rightarrow> nat \<Rightarrow> ptr list \<Rightarrow> 'u \<Rightarrow> 'u option" where
  "run_command e M cmd argc args u =
     (case cmd of
        None \<Rightarrow> user_printf e M (esc ''cCommand not found! Try '' @ [0x27] @ bytes ''help'' @ [0x27] @ bytes ''...'' @ esc ''r'' @ [0x0A]) [] u
      | Some bt \<Rightarrow> Option.bind (call_builtin (bt_func bt) e M argc args u) (\<lambda>(ok, u1).
          if \<not> ok then user_printf e M (esc ''eUsage:'' @ esc ''r %s '' @ esc ''b%s'' @ esc ''r'' @ [0x0A])
            [Text (Some (bytes (bt_name bt))), Text (Some (bytes (bt_args bt)))] u1
          else Some u1))"

lemma dispatch_finds:
  assumes "\<forall>bt \<in> set bts. cstr (memory M u) (literal e (bt_name bt)) (bytes (bt_name bt))" "cstr (memory M u) (args ! 0) w"
  shows "dispatch e M bts argc args u = run_command e M (find (\<lambda>bt. bytes (bt_name bt) = w) bts) argc args u"
  using assms(1)
proof (induction bts)
  case Nil
  then show ?case by (simp add: run_command_def)
next
  case (Cons bt bts)
  obtain d where "strcmp (literal e (bt_name bt)) (args ! 0) (memory M u) = Some d" "d = 0 \<longleftrightarrow> bytes (bt_name bt) = w"
    using strcmp_cstr [OF _ assms(2)] Cons.prems by fastforce
  then show ?case using Cons by (cases "d = 0") (auto simp: run_command_def split: option.splits)
qed

text \<open>What the shell relies on of the memory of a machine.\<close>

locale machine_memory =
  fixes M :: "'u machine"
  assumes get_set: "memory M (set_memory M m u) = m"
begin

lemma shell_line_runs:
  fixes line :: "u8 list"
  defines "ws \<equiv> line_words line"
  defines "argc \<equiv> (if last ws = bytes ''&'' then length ws - 1 else length ws)"
  assumes line: "\<forall>i < length line. memory M u (command_buffer e + of_nat i) = line ! i" "0 \<notin> set line" "length line < 1024"
    and ws: "0 < argc" "length ws < ARGS_CAP"
    and lits: "\<forall>bt \<in> set builtins. cstr (memory M u) (literal e (bt_name bt)) (bytes (bt_name bt))
        \<and> (\<forall>i \<le> length (bt_name bt). unat (literal e (bt_name bt) + of_nat i - command_buffer e) > length line)"
  shows "\<exists>args m. list_all2 (cstr m) args ws \<and> (\<forall>x. unat (x - command_buffer e) > length line \<longrightarrow> m x = memory M u x)
    \<and> shell_line e M (of_nat (length line)) u =
        run_command e M (find (\<lambda>bt. bytes (bt_name bt) = hd ws) builtins) argc args (set_memory M m u)"
proof -
  let ?m = "(memory M u)(command_buffer e + of_nat (length line) := 0)"
  have u: "unat (of_nat i :: u32) = i" if "i \<le> length line" for i using that line(3) by (intro unat_of_nat32) simp
  have "cstr ?m (command_buffer e) (line @ [])"
  proof -
    have "of_nat i \<noteq> (of_nat (length line) :: u32)" if "i < length line" for i using u [of i] u [of "length line"] that by force
    then show ?thesis unfolding cstr_append using line(1,2) by auto
  qed
  then have "cstr ?m (command_buffer e) line" by simp
  moreover have "length line < 2 ^ 32 - 1" using line(3) by simp
  ultimately obtain args m where s: "split_loop (command_buffer e) True [] ?m = Some (args, m)" "list_all2 (cstr m) args ws"
    "\<forall>x. unat (x - command_buffer e) \<ge> length line \<longrightarrow> m x = ?m x"
    using split_loop_words [of ?m "command_buffer e" line "[]" True] ws(2) by (auto simp: ws_def)
  have keep: "m x = memory M u x" if "unat (x - command_buffer e) > length line" for x
  proof -
    have "x \<noteq> command_buffer e + of_nat (length line)" using that u [of "length line"] by auto
    then show ?thesis using s(3) that by simp
  qed
  have l: "length args = length ws" "args \<noteq> []" using list_all2_lengthD [OF s(2)] ws(1) by (auto simp: argc_def split: if_splits)
  have "ws \<noteq> []" using l by auto
  then have last: "cstr m (args ! (length args - 1)) (last ws)"
    using list_all2_nthD [OF s(2), of "length args - 1"] l by (simp add: last_conv_nth)
  have bg: "m (args ! (length args - 1)) = 0x26 \<and> m (args ! (length args - 1) + 1) = 0 \<longleftrightarrow> last ws = bytes ''&''"
    using last by (cases "last ws"; cases "tl (last ws)") (auto simp: bytes_def)
  have first: "cstr m (args ! 0) (hd ws)" using list_all2_nthD [OF s(2), of 0] l by (cases ws) auto
  let ?u = "set_memory M m u"
  have "\<forall>bt \<in> set builtins. cstr (memory M ?u) (literal e (bt_name bt)) (bytes (bt_name bt))"
  proof
    fix bt assume bt: "bt \<in> set builtins"
    have "cstr m (literal e (bt_name bt)) (bytes (bt_name bt)) \<longleftrightarrow> cstr (memory M u) (literal e (bt_name bt)) (bytes (bt_name bt))"
      using lits bt by (intro cstr_cong keep) (auto simp: bytes_def)
    then show "cstr (memory M ?u) (literal e (bt_name bt)) (bytes (bt_name bt))" using lits bt by (simp add: get_set)
  qed
  from dispatch_finds [OF this, of args "hd ws" argc] first
  have d: "dispatch e M builtins argc args ?u = run_command e M (find (\<lambda>bt. bytes (bt_name bt) = hd ws) builtins) argc args ?u"
    by (simp add: get_set)
  have "shell_line e M (of_nat (length line)) u = dispatch e M builtins argc args ?u"
    using l ws(1) bg by (auto simp: shell_line_def s(1) Let_def argc_def)
  then show ?thesis using s(2) keep d by auto
qed

end

interpretation user: machine_memory "kernel_machine a" for a
  by unfold_locales (simp add: kernel_machine_def)

end
