(* ===== verification/User_Properties.thy ===== *)
theory User_Properties
  imports User_Api_Facts Shell_Facts Sample
begin

text \<open>The properties of the user programs: their library on the kernel, and the shell.\<close>

section \<open>The library\<close>

text \<open>
  C6. The priorities of the user library are those of the kernel plus one: \<open>chprio\<close> with a priority of 1 to 256
  for a ready process sets the one that \<open>getprio\<close> then reads, and gives the old one, which \<open>getprio\<close> read
  before. If the kernel switches to another process inside the call, the old priority is what the kernel
  hands to the caller when it runs again. A priority outside the range is refused and changes nothing.
\<close>

theorem api_priorities:
  assumes "runs_highest s R" "process_from_pid s (sint pid) = p" "p \<in> set (R k)"
  shows "getprio (kernel_machine a) pid s = Some (word_of_int (k + 1), s)
    \<and> (if 1 \<le> newprio \<and> newprio \<le> 256
       then \<exists>s'. getprio (kernel_machine a) pid s' = Some (newprio, s')
         \<and> (chprio (kernel_machine a) pid newprio s = Some (word_of_int (k + 1), s')
           \<or> syscall_handler (SC_PROCESS_SET_PRIORITY (sint pid) (sint (newprio - 1))) s = Switched s'
             \<and> last (frames s' (process_active s)) = Fr_return k)
       else chprio (kernel_machine a) pid newprio s = Some (- 1, s))"
proof -
  note r = runs_highestD(1) [OF assms(1)]
  have p: "p \<noteq> NULL" "p_state (proc s p) = PROCESS_SCHED" "p_priority (proc s p) = k" using sched_reprD(4-6) [OF r assms(3)] by auto
  have k: "0 \<le> k" "k < 256" using runs_highestD(3) [OF assms(1), of k] assms(3) by fastforce+
  let ?n = "sint (newprio - 1)"
  have first: "getprio (kernel_machine a) pid s = Some (word_of_int (k + 1), s)"
    using getprio_kernel [OF assms(2) p(1)] p(3) k by simp
  show ?thesis
  proof (cases "1 \<le> newprio \<and> newprio \<le> 256")
    case True
    note n = api_range [OF conjunct1 [OF True] conjunct2 [OF True]]
    have z: "p_state (proc s p) \<noteq> PROCESS_ZOMBIE" using p(2) by simp
    obtain s' where "(\<exists>v. process_set_priority (sint pid) ?n s = Done v s') \<or> process_set_priority (sint pid) ?n s = Switched s'"
    proof (cases "?n = k")
      case True
      then show ?thesis using that p assms(2) n by (auto simp: process_set_priority_def Let_def)
    next
      case False
      from process_set_priority_highest [OF assms(1-3) n(1,2) False] obtain s' where
        "outcome_state (process_set_priority (sint pid) ?n s) = Some s'" by (auto simp: ends_highest_def)
      then show ?thesis using that by (cases "process_set_priority (sint pid) ?n s") auto
    qed
    then show ?thesis
    proof
      assume "\<exists>v. process_set_priority (sint pid) ?n s = Done v s'"
      then obtain v where d: "process_set_priority (sint pid) ?n s = Done v s'" by blast
      from set_priority_call(1) [OF assms(2) p(1) z n(1,2) d] have v: "v = k" "p_priority (proc s' p) = ?n" "process_from_pid s' (sint pid) = p"
        using p(3) by simp_all
      then have "getprio (kernel_machine a) pid s' = Some (newprio, s')" using getprio_kernel [OF v(3) p(1)] n by simp
      then show ?thesis using True first d v(1) k by (auto simp: chprio_kernel api_priority_of)
    next
      assume d: "process_set_priority (sint pid) ?n s = Switched s'"
      from set_priority_call(2) [OF assms(2) p(1) z n(1,2) d] have v: "p_priority (proc s' p) = ?n" "process_from_pid s' (sint pid) = p"
        "last (frames s' (process_active s)) = Fr_return k" using p(3) by simp_all
      then have "getprio (kernel_machine a) pid s' = Some (newprio, s')" using getprio_kernel [OF v(2) p(1)] n by simp
      then show ?thesis using True first d v(3) by auto
    qed
  next
    case False
    from api_outside [OF this] have "process_set_priority (sint pid) ?n s = Done (- 1) s" by (simp add: process_set_priority_def)
    then have "chprio (kernel_machine a) pid newprio s = Some (- 1, s)" by (simp add: chprio_kernel api_priority_def)
    then show ?thesis unfolding if_not_P [OF False] using first by blast
  qed
qed

theorem api_priorities_witness:
  "\<forall>a. getprio (kernel_machine a) 2 sample = Some (3, sample) \<and> (\<exists>s'. getprio (kernel_machine a) 2 s' = Some (7, s'))
    \<and> chprio (kernel_machine a) 2 0 sample = Some (- 1, sample)"
proof (intro allI)
  fix a
  have p: "process_from_pid sample (sint (2 :: u32)) = 0x300" "0x300 \<in> set (sample_rings 2)"
    by (simp_all add: process_from_pid_def sample_rings_def sample_def)
  from api_priorities [OF sample_runs p, of a 7] api_priorities [OF sample_runs p, of a 0]
  show "getprio (kernel_machine a) 2 sample = Some (3, sample) \<and> (\<exists>s'. getprio (kernel_machine a) 2 s' = Some (7, s'))
    \<and> chprio (kernel_machine a) 2 0 sample = Some (- 1, sample)" by auto
qed

section \<open>The shell\<close>

text \<open>
  C17. What the shell does with a line: the arguments are strings with the words of the line, in order; the
  builtin command whose name is the first word runs with them, and its usage is printed when it does not
  take them; when there is none a message is printed. A last word that is an ampersand is not counted. The
  line must have fewer than 128 words, and no memory outside it changes before the command runs.
\<close>

theorem shell_runs_the_command:
  fixes line :: "u8 list"
  assumes "ws = line_words line" "argc = (if last ws = bytes ''&'' then length ws - 1 else length ws)"
    and "\<forall>i < length line. umem s (command_buffer e + of_nat i) = line ! i" "0 \<notin> set line" "length line < 1024"
    and "0 < argc" "length ws < 128"
    and "\<forall>bt \<in> set builtins. cstr (umem s) (literal e (bt_name bt)) (bytes (bt_name bt))
        \<and> (\<forall>i \<le> length (bt_name bt). unat (literal e (bt_name bt) + of_nat i - command_buffer e) > length line)"
  shows "\<exists>args m. length args = length ws \<and> (\<forall>i < length ws. cstr m (args ! i) (ws ! i))
    \<and> (\<forall>x. unat (x - command_buffer e) > length line \<longrightarrow> m x = umem s x)
    \<and> shell_line e (kernel_machine a) (of_nat (length line)) s =
        run_command e (kernel_machine a) (find (\<lambda>bt. bytes (bt_name bt) = hd ws) builtins) argc args (s\<lparr>umem := m\<rparr>)"
proof -
  have M: "memory (kernel_machine a) t = umem t" "set_memory (kernel_machine a) m t = t\<lparr>umem := m\<rparr>" for m t
    by (simp_all add: kernel_machine_def)
  from user.shell_line_runs [of line a s e, unfolded M, folded assms(1), folded assms(2), OF assms(3-8)]
  obtain args m where r: "list_all2 (cstr m) args ws" "\<forall>x. unat (x - command_buffer e) > length line \<longrightarrow> m x = umem s x"
    "shell_line e (kernel_machine a) (of_nat (length line)) s =
        run_command e (kernel_machine a) (find (\<lambda>bt. bytes (bt_name bt) = hd ws) builtins) argc args (s\<lparr>umem := m\<rparr>)" by blast
  have "length args = length ws" "\<forall>i < length ws. cstr m (args ! i) (ws ! i)" using r(1) by (simp_all add: list_all2_conv_all_nth)
  then show ?thesis using r(2,3) by blast
qed

definition shell_sample_env :: shell_env where
  "shell_sample_env = \<lparr>command_buffer = 0x8000, printf_buf = 0x9000,
     literal = (\<lambda>s. if s = ''help'' then 0x1000 else if s = ''ps'' then 0x1010 else if s = ''exit'' then 0x1020
       else if s = ''echo'' then 0x1030 else if s = ''test'' then 0x1040 else 0x1050),
     name_buf = (\<lambda>d. 0xA000), children_buf = (\<lambda>d. 0xB000), var1 = 0xC000, var2 = 0xC004, test_wrapper_at = 0x2000\<rparr>"

definition shell_sample_memory :: bmem where
  "shell_sample_memory =
     written (written (written (written (written (written (written (\<lambda>a. 0) 0x1000 (bytes ''help'')) 0x1010 (bytes ''ps''))
       0x1020 (bytes ''exit'')) 0x1030 (bytes ''echo'')) 0x1040 (bytes ''test'')) 0x1050 (bytes ''time'')) 0x8000 (bytes '' echo  off'')"

theorem shell_runs_the_command_witness:
  "\<forall>a. \<exists>args m. cstr m (args ! 0) (bytes ''echo'') \<and> cstr m (args ! 1) (bytes ''off'')
    \<and> shell_line shell_sample_env (kernel_machine a) 10 (sample\<lparr>umem := shell_sample_memory\<rparr>) =
        run_command shell_sample_env (kernel_machine a) (Some (builtins ! 3)) 2 args (sample\<lparr>umem := m\<rparr>)"
proof (intro allI)
  fix a
  let ?line = "bytes '' echo  off''" and ?s = "sample\<lparr>umem := shell_sample_memory\<rparr>"
  have w: "line_words ?line = [bytes ''echo'', bytes ''off'']" by (simp add: bytes_def)
  have argc: "2 = (if last (line_words ?line) = bytes ''&'' then length (line_words ?line) - 1 else length (line_words ?line))"
    unfolding w by (simp add: bytes_def)
  have line: "\<forall>i < length ?line. umem ?s (command_buffer shell_sample_env + of_nat i) = ?line ! i"
  proof (intro allI impI)
    fix i assume "i < length ?line"
    then show "umem ?s (command_buffer shell_sample_env + of_nat i) = ?line ! i"
      using written_at [of i ?line] by (simp add: shell_sample_env_def shell_sample_memory_def bytes_def)
  qed
  have plain: "0 \<notin> set ?line" "length ?line < 1024" "(0 :: nat) < 2" "length (line_words ?line) < 128" unfolding w by (simp_all add: bytes_def)
  have far: "unat (q + of_nat i - 0x8000 :: ptr) > 10" if "q \<in> {0x1000, 0x1010, 0x1020, 0x1030, 0x1040, 0x1050}" "i \<le> 4" for q and i :: nat
  proof -
    have "i = 0 \<or> i = 1 \<or> i = 2 \<or> i = 3 \<or> i = 4" using that(2) by auto
    then show ?thesis using that(1) by (elim disjE insertE) simp_all
  qed
  have held: "cstr (umem ?s) 0x1000 (bytes ''help'')" "cstr (umem ?s) 0x1010 (bytes ''ps'')" "cstr (umem ?s) 0x1020 (bytes ''exit'')"
    "cstr (umem ?s) 0x1030 (bytes ''echo'')" "cstr (umem ?s) 0x1040 (bytes ''test'')" "cstr (umem ?s) 0x1050 (bytes ''time'')"
    by (simp_all add: shell_sample_memory_def bytes_def written_def)
  have place: "literal shell_sample_env (bt_name bt) \<in> {0x1000, 0x1010, 0x1020, 0x1030, 0x1040, 0x1050}" "length (bt_name bt) \<le> 4"
    if "bt \<in> set builtins" for bt using that by (auto simp: builtins_def shell_sample_env_def)
  have there: "cstr (umem ?s) (literal shell_sample_env (bt_name bt)) (bytes (bt_name bt))" if "bt \<in> set builtins" for bt
    using that held by (auto simp: builtins_def shell_sample_env_def)
  have buf: "command_buffer shell_sample_env = 0x8000" "length ?line = 10" by (simp_all add: shell_sample_env_def bytes_def)
  have lits: "\<forall>bt \<in> set builtins. cstr (umem ?s) (literal shell_sample_env (bt_name bt)) (bytes (bt_name bt))
      \<and> (\<forall>i \<le> length (bt_name bt). unat (literal shell_sample_env (bt_name bt) + of_nat i - command_buffer shell_sample_env) > length ?line)"
    unfolding buf using there far [OF place(1)] order.trans [OF _ place(2)] by blast
  have f: "find (\<lambda>bt. bytes (bt_name bt) = hd (line_words ?line)) builtins = Some (builtins ! 3)"
    unfolding w by (simp add: builtins_def bytes_def)
  have ten: "of_nat (length ?line) = (10 :: u32)" by (simp add: bytes_def)
  from shell_runs_the_command [OF refl argc line plain lits, of a, unfolded f ten] obtain args m where
    c: "\<forall>i < length (line_words ?line). cstr m (args ! i) (line_words ?line ! i)" and
    r: "shell_line shell_sample_env (kernel_machine a) 10 ?s =
        run_command shell_sample_env (kernel_machine a) (Some (builtins ! 3)) 2 args (?s\<lparr>umem := m\<rparr>)" by blast
  have "cstr m (args ! 0) (bytes ''echo'')" "cstr m (args ! 1) (bytes ''off'')" using c [rule_format, of 0] c [rule_format, of 1] unfolding w by simp_all
  then show "\<exists>args m. cstr m (args ! 0) (bytes ''echo'') \<and> cstr m (args ! 1) (bytes ''off'')
    \<and> shell_line shell_sample_env (kernel_machine a) 10 ?s =
        run_command shell_sample_env (kernel_machine a) (Some (builtins ! 3)) 2 args (sample\<lparr>umem := m\<rparr>)"
    using r by (intro exI [of _ args] exI [of _ m]) simp
qed

end
