(* ===== verification/Spec2Isabelle.thy ===== *)
theory Spec2Isabelle
  imports Kernel_Properties Process_Properties Device_Properties Memory_Properties Library_Properties Driver_Properties
    Debug_Properties User_Properties
begin

text \<open>
  A verification development for ensimag-kernel, a preemptive kernel for the i386 with user
  processes, message queues and a console.

  The program. \<^verbatim>\<open>src/kernel/process\<close> is the core: processes with a parent and children, one ring of
  ready processes per priority, and lists of processes that wait for the clock, a message queue, the
  console or a child. User programs enter the kernel by system calls; the timer and the keyboard
  enter it by interrupts. Interrupts are disabled inside the kernel, so a kernel path runs until it
  returns to user level or switches to another process; the path that was left goes on when its
  process is chosen again. \<^verbatim>\<open>src/kernel/peripheral\<close> drives the screen, the keyboard and the timer, and
  implements the console on them. \<^verbatim>\<open>src/kernel/memory\<close> allocates pages and kernel blocks;
  \<^verbatim>\<open>src/shared\<close> is the C library.

  The state. The record \<open>kernel\<close> of \<open>Process_State\<close> holds the globals of the process subsystem: process
  and queue structures are records found at their addresses (\<open>proc\<close>, \<open>queue\<close>), the union of the states
  of a process is kept as the five words that its variants share, and memory that user programs see
  is a byte memory (\<open>umem\<close>). A C function is a HOL function on this state; its result is an
  \<open>outcome\<close>: \<open>Done\<close> with a value, \<open>Switched\<close> when it ends in a context switch, \<open>Panic\<close>, or \<open>Hang\<close>
  for a loop that does not end. The rest of a suspended call is a list of \<open>frame\<close> values stored
  with the process, which \<open>resume_active\<close> runs. Loops over pointers are partial functions, and
  \<open>None\<close> becomes \<open>Hang\<close>.

  The theories.
  \<^item> \<open>Prelude\<close>, \<open>Links\<close>: machine types, outcomes, byte memory; circular and plain doubly linked lists and
    singly linked lists over a link function, with insertion and removal.
  \<^item> \<open>Pool\<close>: \<^verbatim>\<open>include/pool.h\<close>. The locale \<open>id_allocator\<close> states what the process and queue tables rely
    on; it is interpreted on the code's functions.
  \<^item> \<open>Cga\<close>, \<open>Keyboard\<close>, \<open>Console\<close>: \<^verbatim>\<open>peripheral/cga.c\<close>, \<^verbatim>\<open>keyboard.c\<close>, \<^verbatim>\<open>cons.c\<close>. The line editor refines a
    zipper; the buffer of finished lines satisfies the locale \<open>line_source\<close>.
  \<^item> \<open>Process_State\<close>, \<open>Scheduler\<close>, \<open>Waking\<close>: \<^verbatim>\<open>process/internals.h\<close>, \<^verbatim>\<open>context.c\<close>, \<^verbatim>\<open>scheduler.c\<close>.
    \<open>sched_repr s R\<close> says that the rings of \<open>s\<close> are the lists \<open>R\<close>, and \<open>runs_highest s R\<close> that moreover
    the active process has the highest priority among them. \<open>Waking\<close> has the two patterns that all
    blocking calls share: a list of processes is made ready and the highest may preempt; the active
    process leaves its ring and another one runs.
  \<^item> \<open>Time_Queue\<close>, \<open>Message_Buffer\<close>, \<open>Process_Queue\<close>, \<open>Queue_Calls\<close>, \<open>Cons_Wait\<close>: \<^verbatim>\<open>process/time.c\<close>,
    \<^verbatim>\<open>queue.c\<close>, \<^verbatim>\<open>cons.c\<close>. The ring buffer of a queue satisfies the locale \<open>bounded_fifo\<close>. For every call
    there is a lemma per branch over the abstract lists.
  \<^item> \<open>Lifecycle\<close>, \<open>Lifecycle_Facts\<close>: \<^verbatim>\<open>process/overall.c\<close> and \<^verbatim>\<open>process.c\<close>: start, exit, wait, kill, free.
    \<open>process_internal_kill\<close> calls itself for the children and switches context in the middle of the
    loop; it has fuel \<open>kill_fuel\<close>, four times the number of processes that can exist, more than the
    depth plus the number of siblings on any chain of distinct processes.
  \<^item> \<open>Kernel_Machine\<close>: \<^verbatim>\<open>process/syscall.c\<close>, the interrupts and the step relation of the whole machine.
  \<^item> \<open>Kernel_Invariant\<close>, \<open>Kernel_Moves\<close>, \<open>Kernel_Life\<close>, \<open>Kernel_Run\<close>, \<open>Kernel_Properties\<close>: the invariant of
    the whole machine, \<open>kernel_ok\<close>. It is over an abstract state of four kinds of lists (\<open>lists\<close>) and the
    families in the process table: the list of the children of a process has exactly the processes whose
    parent it is, and a process that waits for a child waits for one that has not ended. Operations move
    processes between the lists (\<open>Kernel_Moves\<close>) or change the set of processes (\<open>Kernel_Life\<close>: start, exit,
    wait, kill); every run of admitted events keeps the invariant and gets back to user level
    (\<open>Kernel_Run\<close>). The measure is the number of suspended calls, then the number of ready processes.
    Admitted are the timer, a key while the buffer of lines has room, and the system calls, without the
    known faults: a clock behind the first of the waiting list (the kernel hangs) and a full buffer of lines
    (the Enter key overruns it). Outside are the exit of a process with children, killing another process
    that has not ended (it can leave a lower priority running) and the power switch.
  \<^item> \<open>Allocator\<close>: the clients of an allocator, and the locale \<open>allocator\<close>: when blocks are disjoint from
    the ones held and the allocator keeps the memory of its clients, then every client sees its memory as
    private. \<open>Page\<close> (\<^verbatim>\<open>memory/page.c\<close>) and \<open>Kernel_Heap\<close> (\<^verbatim>\<open>memory/malloc.c\<close>, \<^verbatim>\<open>mem_small.c\<close>,
    \<^verbatim>\<open>mem_medium.c\<close>, \<^verbatim>\<open>mem_large.c\<close>, \<^verbatim>\<open>mem_internals.c\<close>) are the code over a byte memory that holds the
    bitmap, the marks of the blocks and the links of the free lists; the locale is interpreted on both.
    \<open>Heap_Ownership\<close> gives every byte of the heap an owner (a held block with its marks, a free chunk, a
    free buddy, a free page), \<open>Heap_Safety\<close> and \<open>Heap_Buddy\<close> prove that each part of the allocator
    keeps this, \<open>Heap_Calls\<close> puts \<open>kalloc\<close> and \<open>kfree\<close> together.
  \<^item> \<open>Strings\<close>, \<open>Formatting\<close>, \<open>Number_Parsing\<close>, \<open>Division\<close>: \<^verbatim>\<open>shared/string.c\<close>; \<^verbatim>\<open>doprnt.c\<close>, \<^verbatim>\<open>printf.c\<close>
    and \<^verbatim>\<open>sprintf.c\<close>; \<^verbatim>\<open>strtol.c\<close> and \<^verbatim>\<open>strtoul.c\<close>; \<^verbatim>\<open>div64.c\<close>. \<open>Strings_Facts\<close> and \<open>Formatting_Facts\<close>
    show what they compute on lists of bytes; the loops over strings are partial functions.
  \<^item> \<open>Priority_Queue\<close>: the macros of \<^verbatim>\<open>shared/queue.h\<close>. The locale \<open>fair_queue\<close> says what a client of the
    two operations relies on; it is interpreted on the macros.
  \<^item> \<open>Ports\<close>, \<open>Interrupts\<close>, \<open>Ps2\<close>, \<open>Devices\<close>, \<open>Descriptors\<close>: port accesses and log messages; \<^verbatim>\<open>interrupt.c\<close>;
    \<^verbatim>\<open>ps2.c\<close> and the start of the keyboard driver; \<^verbatim>\<open>pit.c\<close>, \<^verbatim>\<open>cmos.c\<close>, \<^verbatim>\<open>rtc.c\<close>, \<^verbatim>\<open>serial.c\<close>, \<^verbatim>\<open>power.c\<close>
    and \<open>kernel_start\<close>; \<^verbatim>\<open>boot/processor_structs.c\<close>. The hardware is a record of functions that answer
    to port reads and writes, an argument of every driver function; what the data sheets promise is a
    hypothesis where it is needed (\<open>mask_registers\<close>, \<open>ps2_controller\<close>). What the processor reads from a
    gate or a segment descriptor is defined by the layout of its manual, apart from the code that packs
    it. \<open>Ps2_Facts\<close> has the effects of the driver functions, \<open>Driver_Sample\<close> a simulated machine with a
    keyboard on which the whole of \<open>kernel_start\<close> runs.
  \<^item> \<open>Gdb_Packets\<close>, \<open>Gdb_Memory\<close>, \<open>Gdb_Stub\<close>, \<open>Trap\<close>: the debugger stub of \<^verbatim>\<open>debug/gdb_serial.c\<close> (packets, then the
    commands), \<^verbatim>\<open>gdb_serial_support.c\<close> (page tables and copies), and the handler of the exceptions,
    \<^verbatim>\<open>debugger.c\<close>. \<open>Gdb_Packet_Facts\<close> describes the receiver of a packet by the text of the protocol and
    states what the stub relies on as the locale \<open>serial_line\<close>; \<open>Serial_Facts\<close> shows that the serial driver
    on a controller that behaves as its data sheet says (the locale \<open>uart\<close>) is such a line, and interprets
    \<open>uart\<close> on a simulated controller. \<open>Gdb_Memory_Facts\<close>, \<open>Gdb_Stub_Facts\<close> and \<open>Trap_Facts\<close> have the copies
    against the translation of single addresses, the commands, and the dump of the registers. The loops
    that wait for the line or a key are partial functions, \<open>None\<close> when they never end.
  \<^item> \<open>User_Api\<close>, \<open>Shell\<close>: the library of the user programs (\<^verbatim>\<open>user/ensimag.c\<close>, \<^verbatim>\<open>user/syscall.S\<close>), the table of
    the system calls with their numbers, and the shell (\<^verbatim>\<open>user/shell.c\<close>), over a record that stands for the
    machine under a user program. \<open>kernel_machine\<close> is that machine for the kernel of \<open>Kernel_Machine\<close>; a
    call that blocks does not return in it. The rounds of the shell are counted, since its loop never ends.
    \<open>User_Api_Facts\<close> has the calls that set and read priorities in whatever way they end, \<open>Shell_Facts\<close> the
    words of a line and the lookup of a command; the locale \<open>machine_memory\<close> is interpreted on the kernel.
  \<^item> \<open>Sample\<close>: one concrete state on which the theorems are applied. \<open>Process_Properties\<close>,
    \<open>Device_Properties\<close>, \<open>Memory_Properties\<close>, \<open>Library_Properties\<close>, \<open>Driver_Properties\<close>,
    \<open>Debug_Properties\<close>, \<open>User_Properties\<close>: the properties.

  What is not modelled: the save and restore of registers and the page table set-up in assembly,
  the test programs in \<^verbatim>\<open>user/test.c\<close>, and the allocator of Doug Lea, third-party code that is included as
  it is. In the process subsystem the blocks that \<open>kalloc\<close> and \<open>user_stack_alloc\<close> return are arguments of
  the calls that allocate; the allocator itself is modelled apart, over its own memory.
\<close>

end
